(* ===== verification/Prelude.thy ===== *)
theory Prelude
  imports Main
    "HOL-Library.AList"
    "HOL-Library.List_Lexorder"
    "HOL-Library.Product_Lexorder"
begin

text \<open>
  Shared vocabulary of the development.

  \<^item> \<open>node_id\<close> is the \<^verbatim>\<open>NodeID\<close> of \<^verbatim>\<open>src/SVF/svf/include/Util/GeneralType.h\<close> (an
    unsigned identifier: the code compares and stores it, and never computes with it).
  \<^item> \<open>u32\<close> and \<open>u64\<close> write out the wrap-around of \<^verbatim>\<open>u32_t\<close> and \<^verbatim>\<open>size_t\<close> where the code
    computes with them.
  \<^item> An \<open>oset\<close> is a \<^verbatim>\<open>std::set\<close>: the strictly increasing list of its elements, which is
    also the order in which the code iterates over it. \<^verbatim>\<open>std::pair\<close> and \<^verbatim>\<open>std::set\<close>
    compare lexicographically, as the library orders of products and lists do.
  \<^item> A hash map is an association list whose order is its iteration order.
  \<^item> \<open>show_nat\<close> is \<^verbatim>\<open>std::to_string\<close> on an unsigned number.
\<close>

named_theorems guard_simps "evaluation of path conditions"
named_theorems store_intros "what the operations of the condition store keep"

type_synonym node_id = nat

definition u32 :: "nat \<Rightarrow> nat" where
  "u32 n = n mod 2 ^ 32"

definition u64 :: "nat \<Rightarrow> nat" where
  "u64 n = n mod 2 ^ 64"

lemma u32_small [simp]: "n < 2 ^ 32 \<Longrightarrow> u32 n = n"
  by (simp add: u32_def)

lemma u32_bound [simp]: "u32 n < 2 ^ 32"
  by (simp add: u32_def)

lemma u64_small [simp]: "n < 2 ^ 64 \<Longrightarrow> u64 n = n"
  by (simp add: u64_def)

section \<open>Ordered sets\<close>

type_synonym 'a oset = "'a list"

definition oset_inv :: "'a::linorder oset \<Rightarrow> bool" where
  "oset_inv s \<longleftrightarrow> sorted s \<and> distinct s"

definition oset_insert :: "'a::linorder \<Rightarrow> 'a oset \<Rightarrow> 'a oset" where
  "oset_insert x s = (if x \<in> set s then s else insort x s)"

definition oset_insert_all :: "'a::linorder list \<Rightarrow> 'a oset \<Rightarrow> 'a oset" where
  "oset_insert_all xs s = fold oset_insert xs s"

definition oset_find :: "'a \<Rightarrow> 'a oset \<Rightarrow> bool" where
  "oset_find x s \<longleftrightarrow> x \<in> set s"

lemma oset_inv_Nil [simp, intro]: "oset_inv []"
  by (simp add: oset_inv_def)

lemma oset_inv_singleton [simp, intro]: "oset_inv [x]"
  by (simp add: oset_inv_def)

lemma oset_find_iff [simp]: "oset_find x s \<longleftrightarrow> x \<in> set s"
  by (simp add: oset_find_def)

lemma set_oset_insert [simp]: "set (oset_insert x s) = insert x (set s)"
  by (auto simp: oset_insert_def set_insort_key)

lemma oset_inv_insert [simp, intro]: "oset_inv s \<Longrightarrow> oset_inv (oset_insert x s)"
  by (auto simp: oset_inv_def oset_insert_def sorted_insort distinct_insort)

lemma oset_insert_all_Nil [simp]: "oset_insert_all [] s = s"
  by (simp add: oset_insert_all_def)

lemma oset_insert_all_Cons [simp]:
  "oset_insert_all (x # xs) s = oset_insert_all xs (oset_insert x s)"
  by (simp add: oset_insert_all_def)

lemma set_oset_insert_all [simp]: "set (oset_insert_all xs s) = set xs \<union> set s"
  by (induction xs arbitrary: s) auto

lemma oset_inv_insert_all [simp, intro]: "oset_inv s \<Longrightarrow> oset_inv (oset_insert_all xs s)"
  by (induction xs arbitrary: s) auto

lemma oset_eq_iff: "oset_inv s \<Longrightarrow> oset_inv t \<Longrightarrow> s = t \<longleftrightarrow> set s = set t"
  by (auto simp: oset_inv_def dest: sorted_distinct_set_unique)

lemma oset_inv_filter [simp, intro]: "oset_inv s \<Longrightarrow> oset_inv (filter P s)"
  by (simp add: oset_inv_def sorted_wrt_filter)

section \<open>Association lists\<close>

lemma map_of_AList_update [simp]: "map_of (AList.update k v m) = (map_of m)(k \<mapsto> v)"
  by (simp add: update_conv')

lemma map_of_AList_delete [simp]: "map_of (AList.delete k m) = (map_of m)(k := None)"
  by (simp add: delete_conv')

lemma set_AList_update_subset: "set (AList.update k v m) \<subseteq> insert (k, v) (set m)"
  by (induction m) auto

lemma set_AList_delete_subset: "set (AList.delete k m) \<subseteq> set m"
  by (auto simp: AList.delete_eq)

section \<open>Loops that may fail\<close>

text \<open>A loop over a container whose body may stop the program.\<close>

fun foldO :: "('a \<Rightarrow> 's \<Rightarrow> 's option) \<Rightarrow> 'a list \<Rightarrow> 's \<Rightarrow> 's option" where
  "foldO f [] s = Some s"
| "foldO f (x # xs) s = (case f x s of None \<Rightarrow> None | Some s' \<Rightarrow> foldO f xs s')"

lemma foldO_append: "foldO f (xs @ ys) s = (case foldO f xs s of None \<Rightarrow> None | Some s' \<Rightarrow> foldO f ys s')"
  by (induction xs arbitrary: s) (auto split: option.splits)

text \<open>The invariant rule: what is left to do is a parameter of the invariant.\<close>

lemma foldO_rule:
  assumes "I xs s" "\<And>x xs s. I (x # xs) s \<Longrightarrow> \<exists>s'. f x s = Some s' \<and> I xs s'"
  shows "\<exists>s'. foldO f xs s = Some s' \<and> I [] s'"
  using assms(1)
proof (induction xs arbitrary: s)
  case (Cons x xs)
  then obtain s' where "f x s = Some s'" "I xs s'" using assms(2) by blast
  then show ?case using Cons.IH by simp
qed simp

text \<open>The same for a loop whose body may fail: nothing is claimed then.\<close>

lemma foldO_partial:
  assumes "foldO f xs s = Some t" "I s" "\<And>x s s'. x \<in> set xs \<Longrightarrow> I s \<Longrightarrow> f x s = Some s' \<Longrightarrow> I s'"
  shows "I t"
  using assms
proof (induction xs arbitrary: s)
  case (Cons x xs)
  then obtain s' where s': "f x s = Some s'" "foldO f xs s' = Some t" by (auto split: option.splits)
  then have "I s'" using Cons.prems(3)[of x s s'] Cons.prems(2) by simp
  moreover have "I u'" if "y \<in> set xs" "I u" "f y u = Some u'" for y u u'
    using Cons.prems(3)[of y u u'] that by simp
  ultimately show ?case using Cons.IH[OF s'(2)] by blast
qed simp

text \<open>What has been done so far as a parameter of the invariant.\<close>

lemma foldO_steps:
  assumes "foldO f xs s = Some t" "I [] s"
    and "\<And>ys x s s'. set (ys @ [x]) \<subseteq> set xs \<Longrightarrow> I ys s \<Longrightarrow> f x s = Some s' \<Longrightarrow> I (ys @ [x]) s'"
  shows "I xs t"
proof -
  have "I (ys @ zs) t" if "foldO f zs u = Some t" "I ys u" "set (ys @ zs) \<subseteq> set xs" for zs ys u
    using that
  proof (induction zs arbitrary: ys u)
    case (Cons z zs)
    then obtain u' where u': "f z u = Some u'" "foldO f zs u' = Some t" by (auto split: option.splits)
    then have "I (ys @ [z]) u'" using assms(3)[of ys z u u'] Cons.prems by simp
    then show ?case using Cons.IH[OF u'(2), of "ys @ [z]"] Cons.prems(3) by simp
  qed simp
  from this[of xs s "[]"] show ?thesis using assms(1,2) by simp
qed

section \<open>Decimal numbers\<close>

definition digit_char :: "nat \<Rightarrow> char" where
  "digit_char d = char_of (48 + d)"

fun show_nat :: "nat \<Rightarrow> string" where
  "show_nat n = (if n < 10 then [digit_char n] else show_nat (n div 10) @ [digit_char (n mod 10)])"

declare show_nat.simps [simp del]

lemma show_nat_not_Nil [simp]: "show_nat n \<noteq> []"
  by (subst show_nat.simps) simp

lemma digit_char_inj: "a < 10 \<Longrightarrow> b < 10 \<Longrightarrow> digit_char a = digit_char b \<Longrightarrow> a = b"
proof -
  assume ab: "a < 10" "b < 10" and "digit_char a = digit_char b"
  then have "of_char (char_of (48 + a) :: char) = (of_char (char_of (48 + b) :: char) :: nat)"
    by (simp add: digit_char_def)
  then show "a = b" using ab by (simp add: of_char_of)
qed

definition is_digit :: "char \<Rightarrow> bool" where
  "is_digit c \<longleftrightarrow> (of_char c :: nat) \<in> {48..57}"

lemma is_digit_digit_char: "d < 10 \<Longrightarrow> is_digit (digit_char d)"
  by (simp add: is_digit_def digit_char_def of_char_of)

lemma show_nat_digits: "\<forall>c \<in> set (show_nat n). is_digit c"
proof (induction n rule: show_nat.induct)
  case (1 n)
  then show ?case by (subst show_nat.simps) (auto simp: is_digit_digit_char)
qed

lemma show_nat_inj: "show_nat m = show_nat n \<Longrightarrow> m = n"
proof (induction m arbitrary: n rule: show_nat.induct)
  case (1 m)
  show ?case
  proof (cases "m < 10")
    case True
    then have "n < 10"
      using "1.prems" show_nat_not_Nil[of "n div 10"]
      by (cases "n < 10") (auto simp: show_nat.simps[of m] show_nat.simps[of n])
    then show ?thesis
      using True "1.prems" by (auto simp: show_nat.simps[of m] show_nat.simps[of n] dest: digit_char_inj)
  next
    case False
    then have n: "\<not> n < 10"
      using "1.prems" by (cases "n < 10") (auto simp: show_nat.simps[of m] show_nat.simps[of n])
    then have "show_nat (m div 10) = show_nat (n div 10)"
      and d: "digit_char (m mod 10) = digit_char (n mod 10)"
      using False "1.prems" by (simp_all add: show_nat.simps[of m] show_nat.simps[of n])
    then have "m div 10 = n div 10" using "1.IH" False by blast
    moreover have "m mod 10 = n mod 10" using d by (rule digit_char_inj[rotated 2]) simp_all
    ultimately show ?thesis by (metis div_mult_mod_eq)
  qed
qed

lemma show_nat_prefix:
  assumes "show_nat m @ c # xs = show_nat n @ d # ys" "\<not> is_digit c" "\<not> is_digit d"
  shows "m = n \<and> c = d \<and> xs = ys"
proof -
  have take: "takeWhile is_digit (show_nat k @ e # zs) = show_nat k" if "\<not> is_digit e" for k e zs
    using that show_nat_digits[of k] by (simp add: takeWhile_append2)
  have "show_nat m = show_nat n"
    using take[OF assms(2), of m xs] take[OF assms(3), of n ys] assms(1) by metis
  then show ?thesis using assms(1) show_nat_inj by auto
qed

end
