(* ===== verification/PathCond.thy ===== *)
theory PathCond
  imports Prelude
begin

text \<open>
  \<^verbatim>\<open>src/SVF/svf/include/Util/PathCond.h\<close>: the path conditions, without the two caches of
  \<^verbatim>\<open>getAnd\<close> and \<^verbatim>\<open>getOr\<close> (theory \<open>PathCond_Store\<close>).

  A \<^verbatim>\<open>const PathCond*\<close> is a value of type \<open>pathcond\<close>: the kind of the object, its
  fields, the objects it points to, and, as the first argument of every constructor, the
  \<^emph>\<open>address\<close> of the object. The fields of a \<^verbatim>\<open>PathCond\<close> are never written after its
  construction (the memo fields apart, which the store holds), so the value determines what
  every read through the pointer returns; \<open>caddr p = caddr q\<close> is the comparison \<^verbatim>\<open>p == q\<close>
  of two pointers, and \<open>pc_eq p q\<close> is \<^verbatim>\<open>*p == *q\<close>. Only \<^verbatim>\<open>getCappedTrue\<close> calls
  \<^verbatim>\<open>setCapped\<close>, on a True object before anybody sees it: the flag is a field of \<open>TrueC\<close>.

  \<open>bform\<close> is what two structurally equal objects have in common, \<open>beval\<close> its truth value
  under an assignment of the branch conditions.
\<close>

section \<open>Objects\<close>

datatype pathcond =
    TrueC (caddr: nat) (flag: bool)
  | FalseC (caddr: nat)
  | AtomC (caddr: nat) node_id bool
  | AndC (caddr: nat) pathcond pathcond
  | OrC (caddr: nat) pathcond pathcond

fun isTrue :: "pathcond \<Rightarrow> bool" where
  "isTrue (TrueC _ _) = True"
| "isTrue _ = False"

fun isFalse :: "pathcond \<Rightarrow> bool" where
  "isFalse (FalseC _) = True"
| "isFalse _ = False"

fun isAtom :: "pathcond \<Rightarrow> bool" where
  "isAtom (AtomC _ _ _) = True"
| "isAtom _ = False"

fun isAnd :: "pathcond \<Rightarrow> bool" where
  "isAnd (AndC _ _ _) = True"
| "isAnd _ = False"

fun isOr :: "pathcond \<Rightarrow> bool" where
  "isOr (OrC _ _ _) = True"
| "isOr _ = False"

fun isCapped :: "pathcond \<Rightarrow> bool" where
  "isCapped (TrueC _ c) = c"
| "isCapped _ = False"

text \<open>
  The getters of the atom's fields: the constructor's defaults \<^verbatim>\<open>0\<close> and \<^verbatim>\<open>true\<close> on
  the other kinds.
\<close>

fun getBranchId :: "pathcond \<Rightarrow> node_id" where
  "getBranchId (AtomC _ b _) = b"
| "getBranchId _ = 0"

fun isTrueBranch :: "pathcond \<Rightarrow> bool" where
  "isTrueBranch (AtomC _ _ t) = t"
| "isTrueBranch _ = True"

section \<open>Structure and meaning\<close>

datatype bform =
    BTrue
  | BFalse
  | BAtom node_id bool
  | BAnd bform bform
  | BOr bform bform

fun strip :: "pathcond \<Rightarrow> bform" where
  "strip (TrueC _ _) = BTrue"
| "strip (FalseC _) = BFalse"
| "strip (AtomC _ b t) = BAtom b t"
| "strip (AndC _ l r) = BAnd (strip l) (strip r)"
| "strip (OrC _ l r) = BOr (strip l) (strip r)"

fun beval :: "(node_id \<Rightarrow> bool) \<Rightarrow> bform \<Rightarrow> bool" where
  "beval env BTrue = True"
| "beval env BFalse = False"
| "beval env (BAtom b t) = (env b = t)"
| "beval env (BAnd l r) = (beval env l \<and> beval env r)"
| "beval env (BOr l r) = (beval env l \<or> beval env r)"

abbreviation peval :: "(node_id \<Rightarrow> bool) \<Rightarrow> pathcond \<Rightarrow> bool" where
  "peval env p \<equiv> beval env (strip p)"

fun subconds :: "pathcond \<Rightarrow> pathcond set" where
  "subconds (AndC a l r) = insert (AndC a l r) (subconds l \<union> subconds r)"
| "subconds (OrC a l r) = insert (OrC a l r) (subconds l \<union> subconds r)"
| "subconds p = {p}"

lemma subconds_refl [simp, intro]: "p \<in> subconds p"
  by (cases p) auto

lemma isTrue_strip: "isTrue p \<longleftrightarrow> strip p = BTrue"
  by (cases p) auto

lemma isFalse_strip: "isFalse p \<longleftrightarrow> strip p = BFalse"
  by (cases p) auto

lemma isTrue_peval [guard_simps]: "isTrue p \<Longrightarrow> peval env p"
  by (cases p) auto

lemma isFalse_peval [guard_simps]: "isFalse p \<Longrightarrow> \<not> peval env p"
  by (cases p) auto

section \<open>Structural equality and order\<close>

text \<open>\<^verbatim>\<open>operator==\<close>: the same object, or the same kind and equal parts.\<close>

fun pc_eq :: "pathcond \<Rightarrow> pathcond \<Rightarrow> bool" where
  "pc_eq (TrueC a _) (TrueC b _) = True"
| "pc_eq (FalseC a) (FalseC b) = True"
| "pc_eq (AtomC a i t) (AtomC b j u) = (a = b \<or> (i = j \<and> t = u))"
| "pc_eq (AndC a l r) (AndC b l' r') = (a = b \<or> (pc_eq l l' \<and> pc_eq r r'))"
| "pc_eq (OrC a l r) (OrC b l' r') = (a = b \<or> (pc_eq l l' \<and> pc_eq r r'))"
| "pc_eq p q = (caddr p = caddr q)"

text \<open>\<^verbatim>\<open>enum Kind\<close>, as the numbers \<^verbatim>\<open>operator<\<close> compares.\<close>

fun getKind :: "pathcond \<Rightarrow> nat" where
  "getKind (TrueC _ _) = 0"
| "getKind (FalseC _) = 1"
| "getKind (AtomC _ _ _) = 2"
| "getKind (AndC _ _ _) = 3"
| "getKind (OrC _ _ _) = 4"

function (sequential) pc_less :: "pathcond \<Rightarrow> pathcond \<Rightarrow> bool" where
  "pc_less (AtomC a i t) (AtomC b j u) =
     (if a = b then False else if i \<noteq> j then i < j else t < u)"
| "pc_less (AndC a l r) (AndC b l' r') =
     (if a = b then False
      else if pc_less l l' then True
      else if pc_less l' l then False
      else pc_less r r')"
| "pc_less (OrC a l r) (OrC b l' r') =
     (if a = b then False
      else if pc_less l l' then True
      else if pc_less l' l then False
      else pc_less r r')"
| "pc_less p q =
     (if caddr p = caddr q then False
      else if getKind p \<noteq> getKind q then getKind p < getKind q
      else False)"
  by pat_completeness auto
termination
  by (relation "measure (\<lambda>(p, q). size p + size q)") auto

text \<open>
  The order on the structure alone, and its instance of \<open>linorder\<close>: what
  \<^verbatim>\<open>OrderedSet<PathCond>\<close> relies on.
\<close>

fun bkind :: "bform \<Rightarrow> nat" where
  "bkind BTrue = 0"
| "bkind BFalse = 1"
| "bkind (BAtom _ _) = 2"
| "bkind (BAnd _ _) = 3"
| "bkind (BOr _ _) = 4"

fun bless :: "bform \<Rightarrow> bform \<Rightarrow> bool" where
  "bless (BAtom i t) (BAtom j u) = (i < j \<or> (i = j \<and> t < u))"
| "bless (BAnd l r) (BAnd l' r') = (bless l l' \<or> (l = l' \<and> bless r r'))"
| "bless (BOr l r) (BOr l' r') = (bless l l' \<or> (l = l' \<and> bless r r'))"
| "bless p q = (bkind p < bkind q)"

lemma bless_irrefl: "\<not> bless p p"
  by (induction p) auto

lemma bless_trans: "bless p q \<Longrightarrow> bless q r \<Longrightarrow> bless p r"
proof (induction p arbitrary: q r)
  case (BAnd l1 r1)
  from BAnd.prems show ?case
    by (cases q; cases r; simp; metis BAnd.IH)
next
  case (BOr l1 r1)
  from BOr.prems show ?case
    by (cases q; cases r; simp; metis BOr.IH)
next
  case (BAtom i t)
  then show ?case by (cases q; cases r) auto
next
  case BTrue
  then show ?case by (cases q; cases r) auto
next
  case BFalse
  then show ?case by (cases q; cases r) auto
qed

lemma bless_linear: "bless p q \<or> p = q \<or> bless q p"
proof (induction p arbitrary: q)
  case (BAnd l1 r1)
  show ?case by (cases q; simp; metis BAnd.IH)
next
  case (BOr l1 r1)
  show ?case by (cases q; simp; metis BOr.IH)
next
  case (BAtom i t)
  then show ?case by (cases q) (auto simp: less_bool_def)
next
  case BTrue
  then show ?case by (cases q) auto
next
  case BFalse
  then show ?case by (cases q) auto
qed

instantiation bform :: linorder
begin

definition less_bform :: "bform \<Rightarrow> bform \<Rightarrow> bool" where
  "less_bform p q \<longleftrightarrow> bless p q"

definition less_eq_bform :: "bform \<Rightarrow> bform \<Rightarrow> bool" where
  "less_eq_bform p q \<longleftrightarrow> p = q \<or> bless p q"

instance
proof
  fix x y z :: bform
  show "x < y \<longleftrightarrow> x \<le> y \<and> \<not> y \<le> x"
    unfolding less_bform_def less_eq_bform_def using bless_irrefl bless_trans by metis
  show "x \<le> x"
    by (simp add: less_eq_bform_def)
  show "x \<le> y \<Longrightarrow> y \<le> z \<Longrightarrow> x \<le> z"
    unfolding less_eq_bform_def using bless_trans by blast
  show "x \<le> y \<Longrightarrow> y \<le> x \<Longrightarrow> x = y"
    unfolding less_eq_bform_def using bless_irrefl bless_trans by blast
  show "x \<le> y \<or> y \<le> x"
    unfolding less_eq_bform_def using bless_linear by blast
qed

end

section \<open>Queries\<close>

text \<open>
  \<^verbatim>\<open>isPureAndChain\<close>, \<^verbatim>\<open>extractAndLeaves\<close> (the appended vector is the result) and
  \<^verbatim>\<open>isAndSubset\<close>.
\<close>

fun isPureAndChain :: "pathcond \<Rightarrow> bool" where
  "isPureAndChain (AndC _ l r) = (isPureAndChain l \<and> isPureAndChain r)"
| "isPureAndChain (OrC _ _ _) = False"
| "isPureAndChain _ = True"

fun extractAndLeaves :: "pathcond \<Rightarrow> pathcond list \<Rightarrow> pathcond list" where
  "extractAndLeaves (TrueC _ _) out = out"
| "extractAndLeaves (FalseC _) out = out"
| "extractAndLeaves (AtomC a i t) out = out @ [AtomC a i t]"
| "extractAndLeaves (AndC _ l r) out = extractAndLeaves r (extractAndLeaves l out)"
| "extractAndLeaves (OrC _ l r) out = extractAndLeaves r (extractAndLeaves l out)"

definition litOf :: "pathcond \<Rightarrow> node_id \<times> bool" where
  "litOf p = (getBranchId p, isTrueBranch p)"

definition isAndSubset :: "pathcond \<Rightarrow> pathcond \<Rightarrow> bool" where
  "isAndSubset sub super =
     (if \<not> isPureAndChain sub \<or> \<not> isPureAndChain super then False
      else
        let subL = extractAndLeaves sub [];
            supL = extractAndLeaves super [];
            supSet = fold (\<lambda>l S. oset_insert (litOf l) S) supL []
        in list_all (\<lambda>l. oset_find (litOf l) supSet) subL)"

text \<open>\<^verbatim>\<open>containsInOr\<close>, with its depth bound as a number (the code's \<^verbatim>\<open>int\<close> starts at 8).\<close>

fun containsInOr :: "pathcond \<Rightarrow> pathcond \<Rightarrow> nat \<Rightarrow> bool" where
  "containsInOr tree sub 0 = False"
| "containsInOr tree sub (Suc d) =
     (if pc_eq tree sub then True
      else case tree of
          OrC _ l r \<Rightarrow> containsInOr l sub d \<or> containsInOr r sub d
        | _ \<Rightarrow> False)"

text \<open>\<^verbatim>\<open>depth\<close> without its memo (the memoising version is \<open>depthM\<close> of the store).\<close>

fun depth :: "pathcond \<Rightarrow> nat" where
  "depth (AtomC _ _ _) = 1"
| "depth (AndC _ l r) = (let dl = depth l; dr = depth r in (if dl > dr then dl else dr) + 1)"
| "depth (OrC _ l r) = (let dl = depth l; dr = depth r in (if dl > dr then dl else dr) + 1)"
| "depth _ = 0"

fun toString :: "pathcond \<Rightarrow> string" where
  "toString (TrueC _ _) = ''T''"
| "toString (FalseC _) = ''F''"
| "toString (AtomC _ i t) = ''c'' @ show_nat i @ (if t then ''T'' else ''F'')"
| "toString (AndC _ l r) = ''('' @ toString l @ '' /'' @ [char_of (92::nat)] @ '' '' @ toString r @ '')''"
| "toString (OrC _ l r) = ''('' @ toString l @ '' '' @ [char_of (92::nat)] @ ''/ '' @ toString r @ '')''"

section \<open>Syntactic satisfiability\<close>

text \<open>
  The loop of \<^verbatim>\<open>isSatisfiable\<close> over the conjuncts: \<open>work\<close> is the vector with its back
  at the head, \<open>atoms\<close> the set of literals met so far.
\<close>

function (sequential) sat_loop :: "pathcond list \<Rightarrow> (node_id \<times> bool) oset \<Rightarrow> bool" where
  "sat_loop [] atoms = True"
| "sat_loop (TrueC _ _ # work) atoms = sat_loop work atoms"
| "sat_loop (FalseC _ # work) atoms = False"
| "sat_loop (AtomC _ i t # work) atoms =
     (if oset_find (i, \<not> t) atoms then False
      else sat_loop work (oset_insert (i, t) atoms))"
| "sat_loop (AndC _ l r # work) atoms = sat_loop (l # r # work) atoms"
| "sat_loop (OrC _ _ _ # work) atoms = True"
  by pat_completeness auto
termination
  by (relation "measure (\<lambda>(work, atoms). sum_list (map (\<lambda>p. 2 * size p + 1) work))") auto

fun isSatisfiable :: "pathcond \<Rightarrow> bool" where
  "isSatisfiable (TrueC _ _) = True"
| "isSatisfiable (FalseC _) = False"
| "isSatisfiable (AtomC _ _ _) = True"
| "isSatisfiable (OrC _ l r) = (isSatisfiable l \<or> isSatisfiable r)"
| "isSatisfiable (AndC a l r) = sat_loop [AndC a l r] []"

section \<open>Coherent addresses\<close>

text \<open>
  Two pointers to the same object see the same structure. The store (theory
  \<open>PathCond_Store\<close>) keeps this for the objects it has allocated.
\<close>

definition coherent :: "pathcond set \<Rightarrow> bool" where
  "coherent S \<longleftrightarrow> (\<forall>p\<in>S. \<forall>q\<in>S. caddr p = caddr q \<longrightarrow> strip p = strip q)"

lemma coherent_mono: "coherent S \<Longrightarrow> T \<subseteq> S \<Longrightarrow> coherent T"
  unfolding coherent_def by blast

lemma coherentD: "coherent S \<Longrightarrow> p \<in> S \<Longrightarrow> q \<in> S \<Longrightarrow> caddr p = caddr q \<Longrightarrow> strip p = strip q"
  unfolding coherent_def by blast

lemma subconds_trans: "q \<in> subconds p \<Longrightarrow> subconds q \<subseteq> subconds p"
  by (induction p) auto

lemma coherent_parts:
  assumes "coherent (subconds p \<union> subconds q)" "p' \<in> subconds p" "q' \<in> subconds q"
  shows "coherent (subconds p' \<union> subconds q')" "coherent (subconds q' \<union> subconds p')"
  using assms subconds_trans[of p' p] subconds_trans[of q' q]
  by (auto elim!: coherent_mono)

lemma coherent_same:
  "coherent (subconds p \<union> subconds q) \<Longrightarrow> caddr p = caddr q \<Longrightarrow> strip p = strip q"
  by (rule coherentD) auto

lemma pc_eq_imp_strip:
  "coherent (subconds p \<union> subconds q) \<Longrightarrow> pc_eq p q \<Longrightarrow> strip p = strip q"
proof (induction p arbitrary: q)
  case (AndC a l r)
  show ?case
  proof (cases "caddr (AndC a l r) = caddr q")
    case False
    then obtain b l' r' where q: "q = AndC b l' r'" "pc_eq l l'" "pc_eq r r'"
      using AndC.prems(2) by (cases q) auto
    then show ?thesis
      using AndC.IH coherent_parts(1)[OF AndC.prems(1)] by simp
  qed (use AndC.prems coherent_same in blast)
next
  case (OrC a l r)
  show ?case
  proof (cases "caddr (OrC a l r) = caddr q")
    case False
    then obtain b l' r' where q: "q = OrC b l' r'" "pc_eq l l'" "pc_eq r r'"
      using OrC.prems(2) by (cases q) auto
    then show ?thesis
      using OrC.IH coherent_parts(1)[OF OrC.prems(1)] by simp
  qed (use OrC.prems coherent_same in blast)
next
  case (TrueC a c)
  then show ?case using coherent_same[of "TrueC a c" q] by (cases q) simp_all
next
  case (FalseC a)
  then show ?case using coherent_same[of "FalseC a" q] by (cases q) simp_all
next
  case (AtomC a i t)
  then show ?case using coherent_same[of "AtomC a i t" q] by (cases q) auto
qed

lemma strip_imp_pc_eq: "strip p = strip q \<Longrightarrow> pc_eq p q"
  by (induction p q rule: pc_eq.induct) auto

lemma pc_eq_iff_strip:
  "coherent (subconds p \<union> subconds q) \<Longrightarrow> pc_eq p q \<longleftrightarrow> strip p = strip q"
  using pc_eq_imp_strip strip_imp_pc_eq by blast

lemma pc_less_same_addr: "caddr p = caddr q \<Longrightarrow> \<not> pc_less p q"
  by (cases p; cases q) auto

lemma pc_less_both:
  "coherent (subconds p \<union> subconds q) \<Longrightarrow>
    (pc_less p q \<longleftrightarrow> bless (strip p) (strip q)) \<and> (pc_less q p \<longleftrightarrow> bless (strip q) (strip p))"
proof (induction p arbitrary: q)
  case (AndC a l r)
  show ?case
  proof (cases "caddr (AndC a l r) = caddr q")
    case True
    then show ?thesis
      using coherent_same[OF AndC.prems] pc_less_same_addr[of "AndC a l r" q]
        pc_less_same_addr[of q "AndC a l r"] bless_irrefl by metis
  next
    case False
    show ?thesis
    proof (cases q)
      case q: (AndC b l' r')
      have l: "(pc_less l l' \<longleftrightarrow> bless (strip l) (strip l')) \<and> (pc_less l' l \<longleftrightarrow> bless (strip l') (strip l))"
        using AndC.IH(1) coherent_parts(1)[OF AndC.prems, of l l'] q by simp
      have r: "(pc_less r r' \<longleftrightarrow> bless (strip r) (strip r')) \<and> (pc_less r' r \<longleftrightarrow> bless (strip r') (strip r))"
        using AndC.IH(2) coherent_parts(1)[OF AndC.prems, of r r'] q by simp
      show ?thesis
        using False q l r bless_linear[of "strip l" "strip l'"] bless_irrefl bless_trans
        by simp metis
    qed (use False in auto)
  qed
next
  case (OrC a l r)
  show ?case
  proof (cases "caddr (OrC a l r) = caddr q")
    case True
    then show ?thesis
      using coherent_same[OF OrC.prems] pc_less_same_addr[of "OrC a l r" q]
        pc_less_same_addr[of q "OrC a l r"] bless_irrefl by metis
  next
    case False
    show ?thesis
    proof (cases q)
      case q: (OrC b l' r')
      have l: "(pc_less l l' \<longleftrightarrow> bless (strip l) (strip l')) \<and> (pc_less l' l \<longleftrightarrow> bless (strip l') (strip l))"
        using OrC.IH(1) coherent_parts(1)[OF OrC.prems, of l l'] q by simp
      have r: "(pc_less r r' \<longleftrightarrow> bless (strip r) (strip r')) \<and> (pc_less r' r \<longleftrightarrow> bless (strip r') (strip r))"
        using OrC.IH(2) coherent_parts(1)[OF OrC.prems, of r r'] q by simp
      show ?thesis
        using False q l r bless_linear[of "strip l" "strip l'"] bless_irrefl bless_trans
        by simp metis
    qed (use False in auto)
  qed
next
  case (TrueC a c)
  then show ?case using coherent_same[of "TrueC a c" q] by (cases q) auto
next
  case (FalseC a)
  then show ?case using coherent_same[of "FalseC a" q] by (cases q) auto
next
  case (AtomC a i t)
  then show ?case using coherent_same[of "AtomC a i t" q] by (cases q) (auto simp: less_bool_def)
qed

lemma pc_less_iff_strip:
  "coherent (subconds p \<union> subconds q) \<Longrightarrow> pc_less p q \<longleftrightarrow> strip p < strip q"
  using pc_less_both by (simp add: less_bform_def)

section \<open>And chains and their literals\<close>

definition lits :: "pathcond \<Rightarrow> (node_id \<times> bool) list" where
  "lits p = map litOf (extractAndLeaves p [])"

definition lits_hold :: "(node_id \<Rightarrow> bool) \<Rightarrow> (node_id \<times> bool) set \<Rightarrow> bool" where
  "lits_hold env L \<longleftrightarrow> (\<forall>i t. (i, t) \<in> L \<longrightarrow> env i = t)"

text \<open>
  \<^verbatim>\<open>getAnd\<close> and \<^verbatim>\<open>getOr\<close> never build a node over a constant: the constants are
  whole conditions. \<open>well_built\<close> is an invariant of the store.
\<close>

fun no_const :: "pathcond \<Rightarrow> bool" where
  "no_const (TrueC _ _) = False"
| "no_const (FalseC _) = False"
| "no_const (AtomC _ _ _) = True"
| "no_const (AndC _ l r) = (no_const l \<and> no_const r)"
| "no_const (OrC _ l r) = (no_const l \<and> no_const r)"

definition well_built :: "pathcond \<Rightarrow> bool" where
  "well_built p \<longleftrightarrow> isTrue p \<or> isFalse p \<or> no_const p"

lemma extractAndLeaves_acc: "extractAndLeaves p out = out @ extractAndLeaves p []"
proof (induction p arbitrary: out)
  case (AndC a l r)
  show ?case
    by (simp add: AndC.IH(1)[of out] AndC.IH(2)[of "out @ _"] AndC.IH(2)[of "extractAndLeaves l []"])
next
  case (OrC a l r)
  show ?case
    by (simp add: OrC.IH(1)[of out] OrC.IH(2)[of "out @ _"] OrC.IH(2)[of "extractAndLeaves l []"])
qed auto

lemma lits_simps [simp]:
  "lits (TrueC a c) = []" "lits (FalseC a) = []" "lits (AtomC a i t) = [(i, t)]"
  "lits (AndC a l r) = lits l @ lits r" "lits (OrC a l r) = lits l @ lits r"
  by (simp_all add: lits_def litOf_def extractAndLeaves_acc[of r "extractAndLeaves l []"])

lemma extractAndLeaves_atoms: "q \<in> set (extractAndLeaves p []) \<Longrightarrow> isAtom q \<and> q \<in> subconds p"
proof (induction p)
  case (AndC a l r)
  then show ?case using extractAndLeaves_acc[of r "extractAndLeaves l []"] by auto
next
  case (OrC a l r)
  then show ?case using extractAndLeaves_acc[of r "extractAndLeaves l []"] by auto
qed auto

lemma lits_hold_simps [simp]:
  "lits_hold env {}"
  "lits_hold env (insert (i, t) L) \<longleftrightarrow> env i = t \<and> lits_hold env L"
  "lits_hold env (L \<union> M) \<longleftrightarrow> lits_hold env L \<and> lits_hold env M"
  by (auto simp: lits_hold_def)

lemma lits_hold_mono: "L \<subseteq> M \<Longrightarrow> lits_hold env M \<Longrightarrow> lits_hold env L"
  by (auto simp: lits_hold_def)

lemma chain_lits: "isPureAndChain p \<Longrightarrow> peval env p \<Longrightarrow> lits_hold env (set (lits p))"
  by (induction p) auto

lemma no_const_chain_eval:
  "isPureAndChain p \<Longrightarrow> no_const p \<Longrightarrow> peval env p \<longleftrightarrow> lits_hold env (set (lits p))"
  by (induction p) auto

lemma chain_eval [guard_simps]:
  "isPureAndChain p \<Longrightarrow> well_built p \<Longrightarrow> \<not> isFalse p \<Longrightarrow>
    peval env p \<longleftrightarrow> lits_hold env (set (lits p))"
  by (cases "no_const p") (auto simp: no_const_chain_eval well_built_def isTrue_strip, cases p, auto)

lemma set_fold_oset_insert: "set (fold (\<lambda>l S. oset_insert (f l) S) xs S0) = f ` set xs \<union> set S0"
  by (induction xs arbitrary: S0) auto

lemma isAndSubset_iff:
  "isAndSubset p q \<longleftrightarrow> isPureAndChain p \<and> isPureAndChain q \<and> set (lits p) \<subseteq> set (lits q)"
  by (auto simp: isAndSubset_def lits_def set_fold_oset_insert list_all_iff)

lemma isAndSubset_implies:
  assumes "isAndSubset p q" "well_built p" "\<not> isFalse p" "peval env q"
  shows "peval env p"
  using assms by (auto simp: isAndSubset_iff chain_eval dest: chain_lits lits_hold_mono)

section \<open>Disjunctions\<close>

lemma containsInOr_implies:
  assumes "containsInOr tree sub d" "coherent (subconds tree \<union> subconds sub)" "peval env sub"
  shows "peval env tree"
  using assms
proof (induction tree sub d rule: containsInOr.induct)
  case (2 tree sub d)
  show ?case
  proof (cases "pc_eq tree sub")
    case True
    then show ?thesis using "2.prems" pc_eq_imp_strip by metis
  next
    case False
    then obtain a l r where t: "tree = OrC a l r"
      and lr: "containsInOr l sub d \<or> containsInOr r sub d"
      using "2.prems"(1) by (cases tree) auto
    have "coherent (subconds l \<union> subconds sub)" "coherent (subconds r \<union> subconds sub)"
      using coherent_parts(1)[OF "2.prems"(2)] t by auto
    then show ?thesis using lr False t "2.IH" "2.prems"(3) by auto
  qed
qed simp

section \<open>Satisfiability is over-approximated, and exact on disjunctions of chains\<close>

lemma sat_loop_complete:
  assumes "lits_hold env (set atoms)" "\<forall>p \<in> set work. peval env p"
  shows "sat_loop work atoms"
  using assms
proof (induction work atoms rule: sat_loop.induct)
  case (4 a i t work atoms)
  then have "(i, \<not> t) \<notin> set atoms" by (auto simp: lits_hold_def)
  then show ?case using 4 by simp
qed auto

lemma isSatisfiable_complete: "peval env p \<Longrightarrow> isSatisfiable p"
proof (induction p)
  case (AndC a l r)
  then show ?case using sat_loop_complete[of env "[]" "[AndC a l r]"] by (simp del: sat_loop.simps)
qed auto

definition consistent :: "(node_id \<times> bool) set \<Rightarrow> bool" where
  "consistent L \<longleftrightarrow> (\<forall>i. \<not> ((i, True) \<in> L \<and> (i, False) \<in> L))"

lemma consistent_model:
  assumes "consistent L"
  shows "lits_hold (\<lambda>i. (i, True) \<in> L) L"
  unfolding lits_hold_def
proof (intro allI impI)
  fix i t
  assume "(i, t) \<in> L"
  with assms show "((i, True) \<in> L) = t" by (cases t) (auto simp: consistent_def)
qed

lemma model_consistent: "lits_hold env L \<Longrightarrow> consistent L"
  unfolding consistent_def lits_hold_def by metis

lemma consistent_iff_model: "consistent L \<longleftrightarrow> (\<exists>env. lits_hold env L)"
  using consistent_model model_consistent by blast

lemma sat_loop_consistent:
  assumes "sat_loop work atoms" "consistent (set atoms)"
    "\<forall>p \<in> set work. isPureAndChain p"
  shows "consistent (set atoms \<union> (\<Union>p \<in> set work. set (lits p)))"
  using assms
proof (induction work atoms rule: sat_loop.induct)
  case (4 a i t work atoms)
  then have "(i, \<not> t) \<notin> set atoms" "sat_loop work (oset_insert (i, t) atoms)"
    by (auto split: if_splits)
  moreover from this(1) have "consistent (set (oset_insert (i, t) atoms))"
    using "4.prems"(2) by (auto simp: consistent_def)
  ultimately show ?case using "4.IH" "4.prems"(3) by simp
next
  case (5 a l r work atoms)
  then show ?case by (simp add: Un_assoc)
qed auto

fun or_of_chains :: "pathcond \<Rightarrow> bool" where
  "or_of_chains (OrC _ l r) = (or_of_chains l \<and> or_of_chains r)"
| "or_of_chains p = isPureAndChain p"

lemma isSatisfiable_chains:
  "or_of_chains p \<Longrightarrow> well_built p \<Longrightarrow> isSatisfiable p \<Longrightarrow> \<exists>env. peval env p"
proof (induction p)
  case (AndC a l r)
  have nc: "no_const (AndC a l r)" using AndC.prems(2) by (simp add: well_built_def)
  have "consistent (set (lits (AndC a l r)))"
    using sat_loop_consistent[of "[AndC a l r]" "[]"] AndC.prems(1,3)
    by (simp add: consistent_def del: sat_loop.simps)
  then have "lits_hold (\<lambda>i. (i, True) \<in> set (lits (AndC a l r))) (set (lits (AndC a l r)))"
    by (rule consistent_model)
  then show ?case using no_const_chain_eval[of "AndC a l r"] nc AndC.prems(1) by auto
next
  case (OrC a l r)
  then have "well_built l" "well_built r" by (auto simp: well_built_def)
  then show ?case using OrC by auto
next
  case (AtomC a i t)
  then show ?case by (auto intro: exI[of _ "\<lambda>_. t"])
qed auto

section \<open>The printed form determines the condition\<close>

definition branch_char :: "bool \<Rightarrow> char" where
  "branch_char t = (if t then CHR ''T'' else CHR ''F'')"

lemma branch_char_simps: "\<not> is_digit (branch_char t)" "branch_char t = branch_char u \<longleftrightarrow> t = u"
  by (auto simp: is_digit_def branch_char_def)

lemma toString_atom: "toString (AtomC a i t) @ xs = CHR ''c'' # show_nat i @ branch_char t # xs"
  by (simp add: branch_char_def)

definition mid_string :: "bool \<Rightarrow> string" where
  "mid_string b = (if b then '' /'' @ [char_of (92::nat)] @ '' '' else '' '' @ [char_of (92::nat)] @ ''/ '')"

lemma toString_pair:
  "toString (AndC a l r) @ xs = CHR ''('' # toString l @ mid_string True @ toString r @ CHR '')'' # xs"
  "toString (OrC a l r) @ xs = CHR ''('' # toString l @ mid_string False @ toString r @ CHR '')'' # xs"
  by (simp_all add: mid_string_def)

lemma mid_string_eq: "mid_string b @ xs = mid_string c @ ys \<longleftrightarrow> b = c \<and> xs = ys"
  by (auto simp: mid_string_def char_of_def)

lemma toString_pair_prefix:
  assumes "CHR ''('' # toString l @ mid_string b @ toString r @ CHR '')'' # xs =
      CHR ''('' # toString l' @ mid_string c @ toString r' @ CHR '')'' # ys"
    and l: "\<And>q xs ys. toString l @ xs = toString q @ ys \<Longrightarrow> strip l = strip q \<and> xs = ys"
    and r: "\<And>q xs ys. toString r @ xs = toString q @ ys \<Longrightarrow> strip r = strip q \<and> xs = ys"
  shows "b = c \<and> strip l = strip l' \<and> strip r = strip r' \<and> xs = ys"
proof -
  have "toString l @ mid_string b @ toString r @ CHR '')'' # xs =
      toString l' @ mid_string c @ toString r' @ CHR '')'' # ys"
    using assms(1) by blast
  note 1 = l[OF this]
  note 2 = mid_string_eq[THEN iffD1, OF conjunct2[OF 1]]
  have "strip r = strip r' \<and> CHR '')'' # xs = CHR '')'' # ys"
    by (rule r[OF conjunct2[OF 2]])
  then show ?thesis using conjunct1[OF 2] conjunct1[OF 1] by blast
qed

lemma toString_head:
  "hd (toString (TrueC a c)) = CHR ''T''" "hd (toString (FalseC a)) = CHR ''F''"
  "hd (toString (AtomC a i t)) = CHR ''c''" "hd (toString (AndC a l r)) = CHR ''(''"
  "hd (toString (OrC a l r)) = CHR ''(''"
  by simp_all

lemma toString_not_Nil: "toString p \<noteq> []"
  by (cases p) auto

lemma toString_prefix:
  "toString p @ xs = toString q @ ys \<Longrightarrow> strip p = strip q \<and> xs = ys"
proof (induction p arbitrary: q xs ys)
  case (AtomC a i t)
  have "hd (toString q) = CHR ''c''"
    using AtomC toString_head(3)[of a i t] toString_not_Nil by (metis hd_append2)
  then obtain b j u where q: "q = AtomC b j u" by (cases q) (auto simp del: toString.simps simp: toString_head)
  have "show_nat i @ branch_char t # xs = show_nat j @ branch_char u # ys"
    using AtomC unfolding q toString_atom by blast
  from show_nat_prefix[OF this branch_char_simps(1) branch_char_simps(1)] show ?case
    by (simp add: q branch_char_simps)
next
  case (AndC a l r)
  have "hd (toString q) = CHR ''(''"
    using AndC.prems toString_head(4)[of a l r] toString_not_Nil by (metis hd_append2)
  then consider b l' r' where "q = AndC b l' r'" | b l' r' where "q = OrC b l' r'"
    by (cases q) (auto simp del: toString.simps simp: toString_head)
  then show ?case
  proof cases
    case 1
    from toString_pair_prefix[OF AndC.prems[unfolded 1 toString_pair] AndC.IH] show ?thesis by (simp add: 1)
  next
    case 2
    from toString_pair_prefix[OF AndC.prems[unfolded 2 toString_pair] AndC.IH] show ?thesis by simp
  qed
next
  case (OrC a l r)
  have "hd (toString q) = CHR ''(''"
    using OrC.prems toString_head(5)[of a l r] toString_not_Nil by (metis hd_append2)
  then consider b l' r' where "q = AndC b l' r'" | b l' r' where "q = OrC b l' r'"
    by (cases q) (auto simp del: toString.simps simp: toString_head)
  then show ?case
  proof cases
    case 1
    from toString_pair_prefix[OF OrC.prems[unfolded 1 toString_pair] OrC.IH] show ?thesis by simp
  next
    case 2
    from toString_pair_prefix[OF OrC.prems[unfolded 2 toString_pair] OrC.IH] show ?thesis by (simp add: 2)
  qed
next
  case (TrueC a c)
  then show ?case by (cases q) auto
next
  case (FalseC a)
  then show ?case by (cases q) auto
qed

section \<open>Clauses of the expansion\<close>

text \<open>The number of clauses when \<^verbatim>\<open>AND\<close> is distributed over \<^verbatim>\<open>OR\<close>.\<close>

fun dnfCount :: "pathcond \<Rightarrow> nat" where
  "dnfCount (OrC _ l r) = dnfCount l + dnfCount r"
| "dnfCount (AndC _ l r) = dnfCount l * dnfCount r"
| "dnfCount _ = 1"

lemma dnfCount_pos: "0 < dnfCount p"
  by (induction p) auto

section \<open>Properties\<close>

text \<open>
  \<^verbatim>\<open>operator==\<close> is structural equality and \<^verbatim>\<open>operator<\<close> is the strict linear
  order of the structures, whenever equal addresses carry equal structures: the shortcut
  through the address changes neither, so \<^verbatim>\<open>OrderedSet\<close> may use the order.
\<close>

theorem pathcond_order:
  assumes "coherent (subconds p \<union> subconds q)"
  shows "(pc_eq p q \<longleftrightarrow> strip p = strip q) \<and> (pc_less p q \<longleftrightarrow> strip p < strip q)
    \<and> (pc_less p q \<or> pc_eq p q \<or> pc_less q p)"
proof -
  have "pc_less q p \<longleftrightarrow> strip q < strip p"
    using assms by (simp add: pc_less_iff_strip Un_commute)
  then show ?thesis
    using pc_eq_iff_strip[OF assms] pc_less_iff_strip[OF assms] by auto
qed

theorem pathcond_order_witness:
  "pc_less (AndC 9 (AtomC 3 1 True) (AtomC 4 2 True)) (OrC 8 (AtomC 3 1 True) (AtomC 5 2 False))"
proof -
  have "coherent (subconds (AndC 9 (AtomC 3 1 True) (AtomC 4 2 True))
      \<union> subconds (OrC 8 (AtomC 3 1 True) (AtomC 5 2 False)))"
    by (simp add: coherent_def)
  from pathcond_order[OF this] show ?thesis by (simp add: less_bform_def)
qed

text \<open>
  \<^verbatim>\<open>isSatisfiable\<close> never rejects a condition that some assignment of the branches
  makes true.
\<close>

theorem isSatisfiable_sound: "(\<exists>env. peval env p) \<longrightarrow> isSatisfiable p"
  using isSatisfiable_complete by blast

theorem isSatisfiable_sound_witness:
  "isSatisfiable (AndC 5 (AtomC 3 1 True) (OrC 4 (AtomC 6 1 False) (AtomC 7 2 True)))"
proof -
  have "peval (\<lambda>_. True) (AndC 5 (AtomC 3 1 True) (OrC 4 (AtomC 6 1 False) (AtomC 7 2 True)))" by simp
  then show ?thesis using isSatisfiable_sound by blast
qed

text \<open>
  C28: On a disjunction of and-chains, the shape conditions have before a disjunction is
  conjoined with anything, \<^verbatim>\<open>isSatisfiable\<close> is exact.
\<close>

theorem isSatisfiable_exact:
  assumes "or_of_chains p" "well_built p"
  shows "isSatisfiable p \<longleftrightarrow> (\<exists>env. peval env p)"
  using isSatisfiable_chains[OF assms] isSatisfiable_complete by blast

theorem isSatisfiable_exact_witness:
  "\<not> (\<exists>env. peval env (OrC 8 (AndC 5 (AtomC 3 1 True) (AtomC 4 1 False))
     (AndC 9 (AtomC 6 2 False) (AtomC 7 2 True))))"
proof -
  let ?p = "OrC 8 (AndC 5 (AtomC 3 1 True) (AtomC 4 1 False)) (AndC 9 (AtomC 6 2 False) (AtomC 7 2 True))"
  have "or_of_chains ?p" "well_built ?p" "\<not> isSatisfiable ?p"
    by (simp_all add: well_built_def oset_insert_def)
  then show ?thesis using isSatisfiable_exact[of ?p] by blast
qed

text \<open>
  C29: Two conditions print alike exactly when they have the same structure.
\<close>

theorem toString_injective: "toString p = toString q \<longleftrightarrow> strip p = strip q"
proof
  assume "strip p = strip q"
  then show "toString p = toString q"
    by (induction p q rule: pc_eq.induct) auto
qed (use toString_prefix[of p "[]" q "[]"] in simp)

end
