(* ===== verification/FastGuard.thy ===== *)
theory FastGuard
  imports PathCond
begin

text \<open>
  \<^verbatim>\<open>src/SVF/svf/include/Util/FastGuard.h\<close> and \<^verbatim>\<open>src/SVF/svf/lib/Util/FastGuard.cpp\<close>: path
  conditions in disjunctive normal form, and the syntactic satisfiability check that the
  alias queries use.

  A \<^verbatim>\<open>Clause\<close> is a \<^verbatim>\<open>std::set\<close> of literals and a \<^verbatim>\<open>DNF\<close> a \<^verbatim>\<open>std::set\<close> of clauses, both
  as strictly increasing lists. \<open>feval\<close> is the meaning of a DNF; the main results are
  that the conversion from a \<open>pathcond\<close> keeps the meaning, that \<open>isSat\<close> decides
  satisfiability, and that \<open>simplify\<close> leaves no subsumed clause.
\<close>

section \<open>Code\<close>

type_synonym literal = "node_id \<times> bool"
type_synonym clause = "literal oset"
type_synonym dnf = "clause oset"

definition fgTrue :: dnf where
  "fgTrue = oset_insert [] []"

definition fgFalse :: dnf where
  "fgFalse = []"

definition fgAtom :: "node_id \<Rightarrow> bool \<Rightarrow> dnf" where
  "fgAtom branchId trueBranch = (let c = oset_insert (branchId, trueBranch) [] in oset_insert c [])"

definition fgIsTrue :: "dnf \<Rightarrow> bool" where
  "fgIsTrue d \<longleftrightarrow> length d = 1 \<and> hd d = []"

definition fgIsFalse :: "dnf \<Rightarrow> bool" where
  "fgIsFalse d \<longleftrightarrow> d = []"

definition clauseAnd :: "clause \<Rightarrow> clause \<Rightarrow> clause" where
  "clauseAnd a b = oset_insert_all b a"

definition clauseIsSat :: "clause \<Rightarrow> bool" where
  "clauseIsSat c \<longleftrightarrow> list_all (\<lambda>lit. \<not> oset_find (fst lit, \<not> snd lit) c) c"

text \<open>
  \<^verbatim>\<open>removeSubsumed\<close>: the two nested loops over the vector of clauses with the vector of
  flags, then the loop that rebuilds the set.
\<close>

definition clauseSubset :: "clause \<Rightarrow> clause \<Rightarrow> bool" where
  "clauseSubset ci cj \<longleftrightarrow> list_all (\<lambda>lit. oset_find lit cj) ci"

definition markStep :: "clause list \<Rightarrow> nat \<Rightarrow> nat \<Rightarrow> bool list \<Rightarrow> bool list" where
  "markStep cs i j removed =
     (if i = j \<or> removed ! j then removed
      else if length (cs ! j) > length (cs ! i) \<and> clauseSubset (cs ! i) (cs ! j)
        then removed[j := True]
      else removed)"

definition markFrom :: "clause list \<Rightarrow> nat \<Rightarrow> bool list \<Rightarrow> bool list" where
  "markFrom cs i removed =
     (if removed ! i then removed else fold (markStep cs i) [0..<length cs] removed)"

definition marks :: "clause list \<Rightarrow> bool list" where
  "marks cs = fold (markFrom cs) [0..<length cs] (replicate (length cs) False)"

definition removeSubsumed :: "dnf \<Rightarrow> dnf" where
  "removeSubsumed d =
     (let removed = marks d in
      fold (\<lambda>i res. if \<not> removed ! i then oset_insert (d ! i) res else res) [0..<length d] [])"

definition simplify :: "dnf \<Rightarrow> dnf" where
  "simplify d =
     (let filtered = fold (\<lambda>c res. if clauseIsSat c then oset_insert c res else res) d [];
          d' = removeSubsumed filtered
      in if list_ex (\<lambda>c. c = []) d' then oset_insert [] [] else d')"

definition crossProduct :: "dnf \<Rightarrow> dnf \<Rightarrow> dnf" where
  "crossProduct a b =
     fold (\<lambda>ca res. fold (\<lambda>cb res'.
       let merged = clauseAnd ca cb in
       if clauseIsSat merged then oset_insert merged res' else res') b res) a []"

definition fgAND :: "dnf \<Rightarrow> dnf \<Rightarrow> dnf" where
  "fgAND a b =
     (if fgIsFalse a \<or> fgIsFalse b then fgFalse
      else if fgIsTrue a then b
      else if fgIsTrue b then a
      else simplify
        (crossProduct a b))"

definition fgOR :: "dnf \<Rightarrow> dnf \<Rightarrow> dnf" where
  "fgOR a b =
     (if fgIsTrue a \<or> fgIsTrue b then fgTrue
      else if fgIsFalse a then b
      else if fgIsFalse b then a
      else simplify (oset_insert_all b a))"

fun fromPathCond :: "pathcond \<Rightarrow> dnf" where
  "fromPathCond (TrueC _ _) = fgTrue"
| "fromPathCond (FalseC _) = fgFalse"
| "fromPathCond (AtomC _ i t) = fgAtom i t"
| "fromPathCond (AndC _ l r) = fgAND (fromPathCond l) (fromPathCond r)"
| "fromPathCond (OrC _ l r) = fgOR (fromPathCond l) (fromPathCond r)"

definition isSat :: "dnf \<Rightarrow> bool" where
  "isSat d \<longleftrightarrow> list_ex clauseIsSat d"

definition fgDepth :: "dnf \<Rightarrow> nat" where
  "fgDepth d =
     (if fgIsTrue d \<or> fgIsFalse d then 0
      else fold (\<lambda>c m. if length c > m then length c else m) d 0)"

definition atomCount :: "dnf \<Rightarrow> nat" where
  "atomCount d = length (fold (\<lambda>c S. fold (\<lambda>lit S'. oset_insert (fst lit) S') c S) d [])"

definition litString :: "literal \<Rightarrow> string" where
  "litString l = ''c'' @ show_nat (fst l) @ (if snd l then ''T'' else ''F'')"

definition clauseString :: "clause \<Rightarrow> string" where
  "clauseString c =
     (if c = [] then ''T''
      else ''('' @ snd (fold (\<lambda>l (first, s). (False, (if first then s else s @ '' & '') @ litString l))
        c (True, [])) @ '')'')"

definition fgToString :: "dnf \<Rightarrow> string" where
  "fgToString d =
     (if fgIsTrue d then ''T''
      else if fgIsFalse d then ''F''
      else snd (fold (\<lambda>c (first, s).
          (False, (if first then s else s @ '' '' @ [char_of (92::nat)] @ ''| '') @ clauseString c))
        d (True, [])))"

section \<open>Meaning\<close>

definition feval :: "(node_id \<Rightarrow> bool) \<Rightarrow> dnf \<Rightarrow> bool" where
  "feval env d \<longleftrightarrow> (\<exists>c \<in> set d. lits_hold env (set c))"

definition dnf_inv :: "dnf \<Rightarrow> bool" where
  "dnf_inv d \<longleftrightarrow> oset_inv d \<and> (\<forall>c \<in> set d. oset_inv c \<and> clauseIsSat c)"

lemma clauseIsSat_iff: "clauseIsSat c \<longleftrightarrow> consistent (set c)"
  unfolding clauseIsSat_def consistent_def list_all_iff
  by (auto; metis (full_types))

lemma fgIsTrue_iff [simp]: "fgIsTrue d \<longleftrightarrow> d = [[]]"
  by (cases d) (auto simp: fgIsTrue_def)

lemma fgIsFalse_iff [simp]: "fgIsFalse d \<longleftrightarrow> d = []"
  by (simp add: fgIsFalse_def)

lemma feval_simps [simp]:
  "feval env []  = False" "feval env [[]] = True"
  "feval env fgTrue" "\<not> feval env fgFalse" "feval env (fgAtom i t) \<longleftrightarrow> env i = t"
  by (simp_all add: feval_def fgTrue_def fgFalse_def fgAtom_def oset_insert_def)

lemma set_clauseAnd [simp]: "set (clauseAnd a b) = set a \<union> set b"
  by (auto simp: clauseAnd_def)

section \<open>Removing subsumed clauses\<close>

definition subsumes :: "clause list \<Rightarrow> nat \<Rightarrow> nat \<Rightarrow> bool" where
  "subsumes cs i j \<longleftrightarrow> length (cs ! i) < length (cs ! j) \<and> set (cs ! i) \<subseteq> set (cs ! j)"

lemma clauseSubset_iff: "clauseSubset c d \<longleftrightarrow> set c \<subseteq> set d"
  by (auto simp: clauseSubset_def list_all_iff)

lemma markStep_nth:
  "length removed = length cs \<Longrightarrow> k < length cs \<Longrightarrow> j < length cs \<Longrightarrow>
    markStep cs i j removed ! k \<longleftrightarrow> removed ! k \<or> (k = j \<and> subsumes cs i j)"
  by (auto simp: markStep_def subsumes_def clauseSubset_iff nth_list_update)

lemma length_markStep [simp]: "length (markStep cs i j removed) = length removed"
  by (simp add: markStep_def)

lemma markSteps_nth:
  assumes "length removed = length cs" "k < length cs" "\<forall>j \<in> set js. j < length cs"
  shows "length (fold (markStep cs i) js removed) = length cs
    \<and> (fold (markStep cs i) js removed ! k \<longleftrightarrow> removed ! k \<or> (k \<in> set js \<and> subsumes cs i k))"
  using assms by (induction js arbitrary: removed) (auto simp: markStep_nth)

lemma markFrom_nth:
  assumes "length removed = length cs" "k < length cs"
  shows "length (markFrom cs i removed) = length cs"
    "markFrom cs i removed ! k \<longleftrightarrow> removed ! k \<or> (\<not> removed ! i \<and> subsumes cs i k)"
  using markSteps_nth[OF assms, of "[0..<length cs]" i] assms by (auto simp: markFrom_def)

lemma markFroms_length:
  "length removed = length cs \<Longrightarrow> cs \<noteq> [] \<Longrightarrow> length (fold (markFrom cs) is removed) = length cs"
  by (induction "is" arbitrary: removed) (auto simp: markFrom_nth(1)[of _ cs 0])

lemma marks_sound_aux:
  assumes "length removed = length cs" "k < length cs" "\<forall>i \<in> set is. i < length cs"
    "fold (markFrom cs) is removed ! k"
  shows "removed ! k \<or> (\<exists>i < length cs. subsumes cs i k)"
  using assms
proof (induction "is" arbitrary: removed)
  case (Cons x xs)
  have "length (markFrom cs x removed) = length cs"
    using Cons.prems(1,2) by (rule markFrom_nth(1))
  then have "markFrom cs x removed ! k \<or> (\<exists>i < length cs. subsumes cs i k)"
    using Cons.IH[of "markFrom cs x removed"] Cons.prems by simp
  then show ?case using markFrom_nth(2)[OF Cons.prems(1,2), of x] Cons.prems(3) by auto
qed simp

lemma marks_sound: "k < length cs \<Longrightarrow> marks cs ! k \<Longrightarrow> \<exists>i < length cs. subsumes cs i k"
  using marks_sound_aux[of "replicate (length cs) False" cs k "[0..<length cs]"] by (auto simp: marks_def)

lemma marks_mono:
  assumes "length removed = length cs" "k < length cs" "removed ! k"
  shows "fold (markFrom cs) is removed ! k"
  using assms by (induction "is" arbitrary: removed) (auto simp: markFrom_nth)

lemma marks_complete_aux:
  assumes "length removed = length cs" "k < length cs" "i \<in> set is" "subsumes cs i k"
    "\<not> fold (markFrom cs) is removed ! i" "i < length cs"
  shows "fold (markFrom cs) is removed ! k"
  using assms
proof (induction "is" arbitrary: removed)
  case (Cons x xs)
  let ?r = "markFrom cs x removed"
  have len: "length ?r = length cs" using Cons.prems(1,2) by (rule markFrom_nth(1))
  show ?case
  proof (cases "x = i")
    case True
    have "\<not> removed ! i"
      using marks_mono[of ?r cs i xs] Cons.prems len by (auto simp: markFrom_nth)
    then have "?r ! k" using True Cons.prems by (simp add: markFrom_nth)
    then show ?thesis using marks_mono[OF len Cons.prems(2), of xs] by simp
  next
    case False
    then show ?thesis using Cons.IH[OF len] Cons.prems by simp
  qed
qed simp

lemma minimal_subsumer:
  assumes "k < length cs"
  shows "\<exists>i < length cs. (i = k \<or> subsumes cs i k) \<and> \<not> marks cs ! i"
  using assms
proof (induction "length (cs ! k)" arbitrary: k rule: less_induct)
  case less
  show ?case
  proof (cases "marks cs ! k")
    case True
    then obtain i where i: "i < length cs" "subsumes cs i k" using marks_sound less.prems by blast
    then obtain j where "j < length cs" "j = i \<or> subsumes cs j i" "\<not> marks cs ! j"
      using less.hyps[of i] unfolding subsumes_def by blast
    moreover have "subsumes cs j k" using calculation(2) i(2) by (auto simp: subsumes_def)
    ultimately show ?thesis by blast
  qed (use less.prems in blast)
qed

lemma marks_iff: "k < length cs \<Longrightarrow> marks cs ! k \<longleftrightarrow> (\<exists>i < length cs. subsumes cs i k)"
proof
  assume k: "k < length cs" and "\<exists>i < length cs. subsumes cs i k"
  then obtain i where i: "i < length cs" "subsumes cs i k" by blast
  then obtain j where j: "j < length cs" "j = i \<or> subsumes cs j i" "\<not> marks cs ! j"
    using minimal_subsumer by blast
  then have "subsumes cs j k" using i by (auto simp: subsumes_def)
  then show "marks cs ! k"
    using marks_complete_aux[of "replicate (length cs) False" cs k j "[0..<length cs]"] j k
    by (simp add: marks_def)
qed (use marks_sound in blast)

lemma set_fold_filter:
  "set (fold (\<lambda>x res. if P x then oset_insert (f x) res else res) xs res) = f ` {x \<in> set xs. P x} \<union> set res"
  by (induction xs arbitrary: res) auto

lemma oset_inv_fold_filter:
  "oset_inv res \<Longrightarrow> oset_inv (fold (\<lambda>x res. if P x then oset_insert (f x) res else res) xs res)"
  by (induction xs arbitrary: res) auto

lemma set_removeSubsumed:
  "set (removeSubsumed d) = {c \<in> set d. \<not> (\<exists>c' \<in> set d. length c' < length c \<and> set c' \<subseteq> set c)}"
proof -
  have "set (removeSubsumed d) = {d ! i | i. i < length d \<and> \<not> marks d ! i}"
    by (auto simp: removeSubsumed_def set_fold_filter)
  also have "\<dots> = {d ! i | i. i < length d \<and> \<not> (\<exists>j < length d. subsumes d j i)}"
    using marks_iff by blast
  also have "\<dots> = {c \<in> set d. \<not> (\<exists>c' \<in> set d. length c' < length c \<and> set c' \<subseteq> set c)}"
  proof -
    have "(\<exists>j < length d. subsumes d j i)
        \<longleftrightarrow> (\<exists>c' \<in> set d. length c' < length (d ! i) \<and> set c' \<subseteq> set (d ! i))" for i
      unfolding subsumes_def by (metis in_set_conv_nth)
    then show ?thesis by (auto simp: set_conv_nth)
  qed
  finally show ?thesis .
qed

lemma oset_inv_removeSubsumed [simp]: "oset_inv (removeSubsumed d)"
  unfolding removeSubsumed_def Let_def by (rule oset_inv_fold_filter) simp

lemma feval_removeSubsumed [simp]: "feval env (removeSubsumed d) \<longleftrightarrow> feval env d"
proof
  assume "feval env d"
  then obtain c where "c \<in> set d" "lits_hold env (set c)" by (auto simp: feval_def)
  then have "\<exists>c. c \<in> set d \<and> lits_hold env (set c)
      \<and> (\<forall>c'. c' \<in> set d \<and> lits_hold env (set c') \<longrightarrow> length c \<le> length c')"
    using ex_has_least_nat[of "\<lambda>c. c \<in> set d \<and> lits_hold env (set c)" c length] by blast
  then obtain c where c: "c \<in> set d" "lits_hold env (set c)"
    and least: "\<And>c'. c' \<in> set d \<Longrightarrow> lits_hold env (set c') \<Longrightarrow> length c \<le> length c'" by blast
  have "\<not> (length c' < length c \<and> set c' \<subseteq> set c)" if "c' \<in> set d" for c'
    using least[OF that] lits_hold_mono[OF _ c(2), of "set c'"] by auto
  then have "c \<in> set (removeSubsumed d)" using c by (auto simp: set_removeSubsumed)
  then show "feval env (removeSubsumed d)" using c by (auto simp: feval_def)
qed (auto simp: feval_def set_removeSubsumed)

section \<open>Simplification\<close>

lemma set_fold_sat:
  "set (fold (\<lambda>c res. if P c then oset_insert c res else res) xs res) = {x \<in> set xs. P x} \<union> set res"
  by (induction xs arbitrary: res) auto

definition satClauses :: "dnf \<Rightarrow> dnf" where
  "satClauses d = fold (\<lambda>c res. if clauseIsSat c then oset_insert c res else res) d []"

lemma set_satClauses [simp]: "set (satClauses d) = {c \<in> set d. clauseIsSat c}"
  by (simp add: satClauses_def set_fold_sat)

lemma set_simplify_eq: "set (simplify d) = set (removeSubsumed (satClauses d))"
proof -
  have "set (removeSubsumed f) = {[]}" if "[] \<in> set (removeSubsumed f)" for f
    using that by (auto simp: set_removeSubsumed)
  then show ?thesis
    by (auto simp: simplify_def Let_def list_ex_iff simp flip: satClauses_def)
qed

lemma set_simplify:
  "set (simplify d) = {c \<in> set d. clauseIsSat c
     \<and> \<not> (\<exists>c' \<in> set d. clauseIsSat c' \<and> length c' < length c \<and> set c' \<subseteq> set c)}"
  unfolding set_simplify_eq set_removeSubsumed by auto

lemma oset_inv_simplify [simp]: "oset_inv (simplify d)"
  by (simp add: simplify_def Let_def)

lemma lits_hold_sat: "lits_hold env (set c) \<Longrightarrow> clauseIsSat c"
  by (auto simp: clauseIsSat_iff consistent_iff_model)

lemma feval_simplify [simp]: "feval env (simplify d) \<longleftrightarrow> feval env d"
proof -
  have "feval env (simplify d) \<longleftrightarrow> feval env (removeSubsumed (satClauses d))"
    by (simp add: feval_def set_simplify_eq)
  also have "\<dots> \<longleftrightarrow> feval env (satClauses d)" by simp
  also have "\<dots> \<longleftrightarrow> feval env d"
    using lits_hold_sat by (auto simp: feval_def)
  finally show ?thesis .
qed

lemma simplify_inv: "\<forall>c \<in> set d. oset_inv c \<Longrightarrow> dnf_inv (simplify d)"
  by (auto simp: dnf_inv_def set_simplify)

definition antichain :: "dnf \<Rightarrow> bool" where
  "antichain d \<longleftrightarrow> (\<forall>c \<in> set d. \<forall>c' \<in> set d. set c' \<subseteq> set c \<longrightarrow> c' = c)"

lemma oset_psubset_length:
  assumes "oset_inv c'" "oset_inv c" "set c' \<subseteq> set c" "c' \<noteq> c"
  shows "length c' < length c"
proof -
  have "set c' \<subset> set c" using assms oset_eq_iff by blast
  then have "card (set c') < card (set c)" by (simp add: psubset_card_mono)
  then show ?thesis using assms by (simp add: oset_inv_def distinct_card)
qed

lemma simplify_antichain:
  assumes "\<forall>c \<in> set d. oset_inv c"
  shows "antichain (simplify d)"
  using assms oset_psubset_length unfolding antichain_def set_simplify by blast

lemma simplify_subset: "set (simplify d) \<subseteq> set d"
  by (auto simp: set_simplify)

section \<open>Conjunction, disjunction and conversion\<close>

lemma set_fold_product:
  "set (fold (\<lambda>ca res. fold (\<lambda>cb res'. let m = clauseAnd ca cb in
      if clauseIsSat m then oset_insert m res' else res') b res) a res)
   = {m. \<exists>ca \<in> set a. \<exists>cb \<in> set b. m = clauseAnd ca cb \<and> clauseIsSat m} \<union> set res"
proof (induction a arbitrary: res)
  case (Cons ca a)
  have "set (fold (\<lambda>cb res'. let m = clauseAnd ca cb in
      if clauseIsSat m then oset_insert m res' else res') b res)
    = {m. \<exists>cb \<in> set b. m = clauseAnd ca cb \<and> clauseIsSat m} \<union> set res"
    using set_fold_filter[of "\<lambda>cb. clauseIsSat (clauseAnd ca cb)" "clauseAnd ca" b res]
    by (auto simp: Let_def)
  then show ?case by (auto simp: Cons.IH)
qed simp

lemma set_crossProduct:
  "set (crossProduct a b) = {m. \<exists>ca \<in> set a. \<exists>cb \<in> set b. m = clauseAnd ca cb \<and> clauseIsSat m}"
  by (simp add: crossProduct_def set_fold_product)

lemma lits_hold_Un [simp]: "lits_hold env (A \<union> B) \<longleftrightarrow> lits_hold env A \<and> lits_hold env B"
  by (auto simp: lits_hold_def)

lemma feval_crossProduct [simp]: "feval env (crossProduct a b) \<longleftrightarrow> feval env a \<and> feval env b"
proof
  assume "feval env a \<and> feval env b"
  then obtain ca cb where c: "ca \<in> set a" "cb \<in> set b" "lits_hold env (set (clauseAnd ca cb))"
    by (auto simp: feval_def)
  then have "clauseAnd ca cb \<in> set (crossProduct a b)"
    using lits_hold_sat[OF c(3)] by (auto simp: set_crossProduct)
  then show "feval env (crossProduct a b)" using c(3) unfolding feval_def by blast
qed (auto simp: feval_def set_crossProduct)

lemma feval_fgAND [simp]: "feval env (fgAND a b) \<longleftrightarrow> feval env a \<and> feval env b"
  by (auto simp: fgAND_def)

lemma feval_fgOR [simp]: "feval env (fgOR a b) \<longleftrightarrow> feval env a \<or> feval env b"
  by (auto simp: fgOR_def) (auto simp: feval_def)

lemma oset_inv_clauseAnd [simp]: "oset_inv a \<Longrightarrow> oset_inv (clauseAnd a b)"
  by (simp add: clauseAnd_def)

lemma dnf_inv_fgAND:
  assumes "dnf_inv a" "dnf_inv b"
  shows "dnf_inv (fgAND a b)"
proof -
  have "dnf_inv (simplify (crossProduct a b))"
    using assms by (intro simplify_inv) (auto simp: set_crossProduct dnf_inv_def)
  then show ?thesis using assms by (auto simp: fgAND_def fgFalse_def dnf_inv_def[of "[]"])
qed

lemma dnf_inv_fgOR: "dnf_inv a \<Longrightarrow> dnf_inv b \<Longrightarrow> dnf_inv (fgOR a b)"
  unfolding fgOR_def
  by (auto intro!: simplify_inv) (auto simp: dnf_inv_def fgTrue_def oset_insert_def clauseIsSat_def)

lemma dnf_inv_consts [simp]: "dnf_inv fgTrue" "dnf_inv fgFalse" "dnf_inv (fgAtom i t)"
  by (auto simp: dnf_inv_def fgTrue_def fgFalse_def fgAtom_def oset_insert_def clauseIsSat_def)

lemma dnf_inv_fromPathCond: "dnf_inv (fromPathCond p)"
  by (induction p) (auto intro: dnf_inv_fgAND dnf_inv_fgOR)

lemma fromPathCond_eval: "feval env (fromPathCond p) \<longleftrightarrow> peval env p"
  by (induction p) (auto simp: guard_simps)

lemma isSat_iff: "isSat d \<longleftrightarrow> (\<exists>env. feval env d)"
  by (auto simp: isSat_def list_ex_iff feval_def clauseIsSat_iff consistent_iff_model)

section \<open>Size\<close>

lemma length_le_card: "oset_inv d \<Longrightarrow> set d \<subseteq> A \<Longrightarrow> finite A \<Longrightarrow> length d \<le> card A"
  by (metis card_mono distinct_card oset_inv_def)

lemma length_simplify: "length (simplify d) \<le> card (set d)"
  by (rule length_le_card) (auto simp: simplify_subset)

lemma crossProduct_card: "card (set (crossProduct a b)) \<le> length a * length b"
proof -
  have "set (crossProduct a b) \<subseteq> (\<lambda>(x, y). clauseAnd x y) ` (set a \<times> set b)"
    by (auto simp: set_crossProduct)
  then have "card (set (crossProduct a b)) \<le> card (set a \<times> set b)"
    by (rule surj_card_le[rotated]) simp
  also have "\<dots> \<le> length a * length b"
    by (simp add: card_cartesian_product card_length mult_le_mono)
  finally show ?thesis .
qed

lemma length_fgAND: "length (fgAND a b) \<le> length a * length b"
proof -
  have "length (simplify (crossProduct a b)) \<le> length a * length b"
    using length_simplify crossProduct_card order_trans by blast
  then show ?thesis by (auto simp: fgAND_def fgFalse_def)
qed

lemma length_fgOR: "length (fgOR a b) \<le> length a + length b"
proof -
  have "length (simplify (oset_insert_all b a)) \<le> card (set b \<union> set a)"
    using length_simplify[of "oset_insert_all b a"] by simp
  also have "\<dots> \<le> length a + length b"
    using card_Un_le[of "set b" "set a"] card_length[of a] card_length[of b] by linarith
  finally show ?thesis by (auto simp: fgOR_def fgTrue_def oset_insert_def)
qed

lemma fromPathCond_length: "length (fromPathCond p) \<le> dnfCount p"
proof (induction p)
  case (AndC a l r)
  then show ?case using length_fgAND[of "fromPathCond l" "fromPathCond r"]
    by (auto intro: order_trans mult_le_mono)
next
  case (OrC a l r)
  then show ?case using length_fgOR[of "fromPathCond l" "fromPathCond r"] by auto
qed (auto simp: fgTrue_def fgFalse_def fgAtom_def oset_insert_def)

lemma fgDepth_spec: "fgDepth d = Max (insert 0 (length ` set d))"
proof -
  have "fold (\<lambda>c m. if length c > m then length c else m) d 0 = fold max (map length d) 0"
    by (simp add: fold_map comp_def max_def) (rule fold_cong; auto)
  also have "\<dots> = Max (set (0 # map length d))" by (rule Max.set_eq_fold[symmetric])
  finally show ?thesis by (auto simp: fgDepth_def)
qed

lemma atomCount_spec: "atomCount d = card (\<Union>c \<in> set d. fst ` set c)"
proof -
  have inner: "set (fold (\<lambda>lit S'. oset_insert (fst lit) S') c S) = fst ` set c \<union> set S
      \<and> (oset_inv S \<longrightarrow> oset_inv (fold (\<lambda>lit S'. oset_insert (fst lit) S') c S))"
    for c :: clause and S
    by (induction c arbitrary: S) auto
  define g :: "dnf \<Rightarrow> node_id oset \<Rightarrow> node_id oset" where "g = fold (\<lambda>c S. fold (\<lambda>lit S'. oset_insert (fst lit) S') c S)"
  have outer: "set (g d S) = (\<Union>c \<in> set d. fst ` set c) \<union> set S \<and> (oset_inv S \<longrightarrow> oset_inv (g d S))" for S
    unfolding g_def using inner by (induction d arbitrary: S) (simp_all add: Un_assoc Un_commute Un_left_commute)
  have "atomCount d = card (set (g d []))"
    unfolding atomCount_def g_def[symmetric] using outer[of "[]"] distinct_card[of "g d []"]
    by (simp add: oset_inv_def)
  also have "set (g d []) = (\<Union>c \<in> set d. fst ` set c)"
    using outer[of "[]"] by simp
  finally show ?thesis .
qed

section \<open>Properties\<close>

text \<open>
  The conversion of a path condition to a DNF keeps its meaning under every assignment
  of the branches.
\<close>

theorem fromPathCond_meaning: "feval env (fromPathCond p) = peval env p"
  by (rule fromPathCond_eval)

text \<open>
  C26: \<^verbatim>\<open>isSat\<close> on the converted condition decides satisfiability, where
  \<^verbatim>\<open>PathCond::isSatisfiable\<close> only over-approximates it.
\<close>

theorem isSat_decides: "isSat (fromPathCond p) = (\<exists>env. peval env p)"
  by (simp add: isSat_iff fromPathCond_eval)

text \<open>
  C27: \<^verbatim>\<open>simplify\<close> keeps the meaning, leaves only satisfiable clauses of the input, and no
  clause it leaves contains another one.
\<close>

theorem simplify_correct:
  assumes "\<forall>c \<in> set d. oset_inv c"
  shows "(\<forall>env. feval env (simplify d) = feval env d) \<and> dnf_inv (simplify d)
    \<and> antichain (simplify d) \<and> set (simplify d) \<subseteq> set d"
  using assms by (simp add: simplify_inv simplify_antichain simplify_subset)

theorem simplify_correct_witness:
  "antichain (simplify [[(1, False), (1, True)], [(1, True)], [(1, True), (2, False)]])"
proof -
  have "\<forall>c \<in> set [[(1, False), (1, True)], [(1::nat, True)], [(1, True), (2, False)]]. oset_inv c"
    by (simp add: oset_inv_def less_eq_prod_def)
  from simplify_correct[OF this] show ?thesis by blast
qed

text \<open>
  The converted condition is a well-formed DNF (an ordered set of ordered, consistent
  clauses) with at most as many clauses as the plain distribution of \<^verbatim>\<open>AND\<close> over
  \<^verbatim>\<open>OR\<close> has: the bound that the m-limit puts on \<^verbatim>\<open>clauseCount\<close> carries over.
\<close>

theorem fromPathCond_bounded: "dnf_inv (fromPathCond p) \<and> length (fromPathCond p) \<le> dnfCount p"
  by (simp add: dnf_inv_fromPathCond fromPathCond_length)

text \<open>
  \<^verbatim>\<open>depth\<close> is the size of the largest clause and \<^verbatim>\<open>atomCount\<close> the number of
  branches that occur.
\<close>

theorem fastguard_measures:
  "fgDepth d = Max (insert 0 (length ` set d)) \<and> atomCount d = card (\<Union>c \<in> set d. fst ` set c)"
  by (simp only: fgDepth_spec atomCount_spec simp_thms)

end
