(* ===== verification/PathCond_Store.thy ===== *)
theory PathCond_Store
  imports PathCond
begin

text \<open>
  The stateful half of \<^verbatim>\<open>src/SVF/svf/include/Util/PathCond.h\<close>: the objects allocated so
  far, the hash-consing caches that are static variables of \<^verbatim>\<open>getAnd\<close> and \<^verbatim>\<open>getOr\<close>,
  and the memo fields \<^verbatim>\<open>cachedDepth\<close> and \<^verbatim>\<open>cachedClauseCount\<close> of every object.

  An address is the index of the object in the list of allocated objects. The code orders
  addresses only to make the key of a cache independent of the order of its two operands,
  and any total order of the addresses gives the same key up to a swap. The three static
  objects are the first three of the list.
\<close>

section \<open>State\<close>

record pstore =
  heap :: "pathcond list"
  andCache :: "nat \<times> nat \<Rightarrow> pathcond option"
  orCache :: "nat \<times> nat \<Rightarrow> pathcond option"
  depthMemo :: "nat \<Rightarrow> nat option"
  clauseMemo :: "nat \<Rightarrow> nat option"

definition getTrue :: pathcond where
  "getTrue = TrueC 0 False"

definition getCappedTrue :: pathcond where
  "getCappedTrue = TrueC 1 True"

definition getFalse :: pathcond where
  "getFalse = FalseC 2"

definition init_store :: pstore where
  "init_store = \<lparr>heap = [getTrue, getCappedTrue, getFalse], andCache = (\<lambda>_. None),
     orCache = (\<lambda>_. None), depthMemo = (\<lambda>_. None), clauseMemo = (\<lambda>_. None)\<rparr>"

definition valid :: "pathcond \<Rightarrow> pstore \<Rightarrow> bool" where
  "valid p s \<longleftrightarrow> p \<in> set (heap s)"

definition extends :: "pstore \<Rightarrow> pstore \<Rightarrow> bool" where
  "extends s t \<longleftrightarrow> take (length (heap s)) (heap t) = heap s"

section \<open>Operations\<close>

definition getAtom :: "node_id \<Rightarrow> bool \<Rightarrow> pstore \<Rightarrow> pathcond \<times> pstore" where
  "getAtom b t s =
     (let p = AtomC (length (heap s)) b t in (p, s\<lparr>heap := heap s @ [p]\<rparr>))"

text \<open>\<^verbatim>\<open>depth()\<close> with \<^verbatim>\<open>depthValid\<close> and \<^verbatim>\<open>cachedDepth\<close>.\<close>

definition setDepth :: "pathcond \<Rightarrow> nat \<times> pstore \<Rightarrow> nat \<times> pstore" where
  "setDepth p r = (fst r, (snd r)\<lparr>depthMemo := (depthMemo (snd r))(caddr p \<mapsto> fst r)\<rparr>)"

fun depthM :: "pathcond \<Rightarrow> pstore \<Rightarrow> nat \<times> pstore" where
  "depthM (TrueC a c) s =
     (case depthMemo s a of Some d \<Rightarrow> (d, s) | None \<Rightarrow> setDepth (TrueC a c) (0, s))"
| "depthM (FalseC a) s =
     (case depthMemo s a of Some d \<Rightarrow> (d, s) | None \<Rightarrow> setDepth (FalseC a) (0, s))"
| "depthM (AtomC a i t) s =
     (case depthMemo s a of Some d \<Rightarrow> (d, s) | None \<Rightarrow> setDepth (AtomC a i t) (1, s))"
| "depthM (OrC a l r) s =
     (case depthMemo s a of Some d \<Rightarrow> (d, s)
      | None \<Rightarrow>
          let (dl, s1) = depthM l s; (dr, s2) = depthM r s1
          in setDepth (OrC a l r) ((if dl > dr then dl else dr) + 1, s2))"
| "depthM (AndC a l r) s =
     (case depthMemo s a of Some d \<Rightarrow> (d, s)
      | None \<Rightarrow>
          let (dl, s1) = depthM l s; (dr, s2) = depthM r s1
          in setDepth (AndC a l r) ((if dl > dr then dl else dr) + 1, s2))"

text \<open>
  \<^verbatim>\<open>clauseCount(cap)\<close> with \<^verbatim>\<open>clauseCountValid\<close> and \<^verbatim>\<open>cachedClauseCount\<close>. The memo is
  read before \<^verbatim>\<open>cap\<close> is looked at.
\<close>

definition setClauses :: "pathcond \<Rightarrow> nat \<times> pstore \<Rightarrow> nat \<times> pstore" where
  "setClauses p r = (fst r, (snd r)\<lparr>clauseMemo := (clauseMemo (snd r))(caddr p \<mapsto> fst r)\<rparr>)"

fun clauseCount :: "pathcond \<Rightarrow> nat \<Rightarrow> pstore \<Rightarrow> nat \<times> pstore" where
  "clauseCount (TrueC a c) cap s =
     (case clauseMemo s a of Some n \<Rightarrow> (n, s) | None \<Rightarrow> setClauses (TrueC a c) (1, s))"
| "clauseCount (FalseC a) cap s =
     (case clauseMemo s a of Some n \<Rightarrow> (n, s) | None \<Rightarrow> setClauses (FalseC a) (1, s))"
| "clauseCount (AtomC a i t) cap s =
     (case clauseMemo s a of Some n \<Rightarrow> (n, s) | None \<Rightarrow> setClauses (AtomC a i t) (1, s))"
| "clauseCount (OrC a l r) cap s =
     (case clauseMemo s a of Some n \<Rightarrow> (n, s)
      | None \<Rightarrow>
          let (lc, s1) = clauseCount l cap s in
          if lc \<ge> cap then setClauses (OrC a l r) (cap, s1)
          else
            let (rc, s2) = clauseCount r (cap - lc) s1 in
            if rc \<ge> cap - lc then setClauses (OrC a l r) (cap, s2)
            else setClauses (OrC a l r) (lc + rc, s2))"
| "clauseCount (AndC a l r) cap s =
     (case clauseMemo s a of Some n \<Rightarrow> (n, s)
      | None \<Rightarrow>
          let (lc, s1) = clauseCount l cap s in
          if lc \<ge> cap then setClauses (AndC a l r) (cap, s1)
          else
            let (rc, s2) = clauseCount r cap s1 in
            if rc \<ge> cap then setClauses (AndC a l r) (cap, s2)
            else if lc > 0 \<and> rc > cap div lc then setClauses (AndC a l r) (cap, s2)
            else setClauses (AndC a l r) (lc * rc, s2))"

text \<open>The safety cap: \<^verbatim>\<open>a->depth() > 100 || b->depth() > 100\<close>, left to right.\<close>

definition tooDeep :: "pathcond \<Rightarrow> pathcond \<Rightarrow> pstore \<Rightarrow> bool \<times> pstore" where
  "tooDeep a b s =
     (let (da, s1) = depthM a s in
      if da > 100 then (True, s1)
      else let (db, s2) = depthM b s1 in (db > 100, s2))"

definition cacheKey :: "pathcond \<Rightarrow> pathcond \<Rightarrow> nat \<times> nat" where
  "cacheKey a b = (if caddr a < caddr b then (caddr a, caddr b) else (caddr b, caddr a))"

definition getAnd :: "pathcond \<Rightarrow> pathcond \<Rightarrow> pstore \<Rightarrow> pathcond \<times> pstore" where
  "getAnd a b s =
     (if isFalse a \<or> isFalse b then (getFalse, s)
      else if isTrue a then (if isCapped a then (a, s) else (b, s))
      else if isTrue b then (if isCapped b then (b, s) else (a, s))
      else
        let (deep, s1) = tooDeep a b s in
        if deep then (getCappedTrue, s1)
        else
          case andCache s1 (cacheKey a b) of
            Some r \<Rightarrow> (r, s1)
          | None \<Rightarrow>
              let r = AndC (length (heap s1)) a b in
              (r, s1\<lparr>heap := heap s1 @ [r], andCache := (andCache s1)(cacheKey a b \<mapsto> r)\<rparr>))"

definition orHasChild :: "pathcond \<Rightarrow> pathcond \<Rightarrow> bool" where
  "orHasChild p q = (case p of OrC _ l r \<Rightarrow> pc_eq l q \<or> pc_eq r q | _ \<Rightarrow> False)"

definition getOr :: "pathcond \<Rightarrow> pathcond \<Rightarrow> pstore \<Rightarrow> pathcond \<times> pstore" where
  "getOr a b s =
     (if isTrue a \<or> isTrue b then (getTrue, s)
      else if isFalse a then (b, s)
      else if isFalse b then (a, s)
      else if caddr a = caddr b then (a, s)
      else if orHasChild a b then (a, s)
      else if orHasChild b a then (b, s)
      else if containsInOr a b 8 then (a, s)
      else if containsInOr b a 8 then (b, s)
      else if isAndSubset b a then (a, s)
      else if isAndSubset a b then (b, s)
      else
        let (deep, s1) = tooDeep a b s in
        if deep then (getCappedTrue, s1)
        else
          case orCache s1 (cacheKey a b) of
            Some r \<Rightarrow> (r, s1)
          | None \<Rightarrow>
              let r = OrC (length (heap s1)) a b in
              (r, s1\<lparr>heap := heap s1 @ [r], orCache := (orCache s1)(cacheKey a b \<mapsto> r)\<rparr>))"

section \<open>The store invariant\<close>

definition cache_ok :: "pathcond list \<Rightarrow> (nat \<Rightarrow> pathcond \<Rightarrow> pathcond \<Rightarrow> pathcond) \<Rightarrow>
    (nat \<times> nat \<Rightarrow> pathcond option) \<Rightarrow> bool" where
  "cache_ok h mk cache \<longleftrightarrow>
     (\<forall>k r. cache k = Some r \<longrightarrow>
        r \<in> set h \<and> (\<exists>a b. r = mk (caddr r) a b \<and> k = cacheKey a b))"

definition object_ok :: "pathcond list \<Rightarrow> pathcond \<Rightarrow> bool" where
  "object_ok h p \<longleftrightarrow>
     subconds p \<subseteq> set h \<and> well_built p \<and> depth p \<le> 101
     \<and> (isTrue p \<longrightarrow> p = getTrue \<or> p = getCappedTrue) \<and> (isFalse p \<longrightarrow> p = getFalse)"

definition heap_ok :: "pathcond list \<Rightarrow> bool" where
  "heap_ok h \<longleftrightarrow>
     3 \<le> length h \<and> take 3 h = [getTrue, getCappedTrue, getFalse]
     \<and> (\<forall>i < length h. caddr (h ! i) = i)
     \<and> (\<forall>p \<in> set h. object_ok h p)"

definition store_inv :: "pstore \<Rightarrow> bool" where
  "store_inv s \<longleftrightarrow>
     heap_ok (heap s)
     \<and> cache_ok (heap s) AndC (andCache s) \<and> cache_ok (heap s) OrC (orCache s)
     \<and> (\<forall>i d. depthMemo s i = Some d \<longrightarrow> i < length (heap s) \<and> d = depth (heap s ! i))
     \<and> (\<forall>i n. clauseMemo s i = Some n \<longrightarrow> i < length (heap s))"

lemma heap_ok_init: "heap_ok [getTrue, getCappedTrue, getFalse]"
proof -
  have "caddr ([getTrue, getCappedTrue, getFalse] ! i) = i" if "i < 3" for i
  proof -
    have "i = 0 \<or> i = 1 \<or> i = 2" using that by auto
    then show ?thesis by (auto simp: getTrue_def getCappedTrue_def getFalse_def)
  qed
  moreover have "object_ok [getTrue, getCappedTrue, getFalse] p"
    if "p = getTrue \<or> p = getCappedTrue \<or> p = getFalse" for p
    using that by (auto simp: object_ok_def well_built_def getTrue_def getCappedTrue_def getFalse_def)
  ultimately show ?thesis by (simp add: heap_ok_def)
qed

lemma store_inv_init [store_intros]: "store_inv init_store"
  by (simp add: store_inv_def init_store_def cache_ok_def heap_ok_init)

lemma extends_refl [simp, store_intros]: "extends s s"
  by (simp add: extends_def)

lemma extends_iff: "extends s t \<longleftrightarrow> (\<exists>ys. heap t = heap s @ ys)"
proof
  assume "extends s t"
  then have "heap t = heap s @ drop (length (heap s)) (heap t)"
    using append_take_drop_id[of "length (heap s)" "heap t"] by (simp add: extends_def)
  then show "\<exists>ys. heap t = heap s @ ys" ..
qed (auto simp: extends_def)

lemma extends_trans [trans]: "extends s t \<Longrightarrow> extends t u \<Longrightarrow> extends s u"
  by (auto simp: extends_iff)

lemma extends_same_heap: "heap t = heap s \<Longrightarrow> extends s t"
  by (simp add: extends_def)

lemma valid_mono [store_intros]: "valid p s \<Longrightarrow> extends s t \<Longrightarrow> valid p t"
  by (auto simp: valid_def extends_iff)

lemma heap_ok_nth: "heap_ok h \<Longrightarrow> p \<in> set h \<Longrightarrow> caddr p < length h \<and> h ! caddr p = p"
  by (metis heap_ok_def in_set_conv_nth)

lemma valid_nth: "store_inv s \<Longrightarrow> valid p s \<Longrightarrow> caddr p < length (heap s) \<and> heap s ! caddr p = p"
  unfolding store_inv_def valid_def using heap_ok_nth by blast

lemma valid_same_address:
  "store_inv s \<Longrightarrow> valid p s \<Longrightarrow> valid q s \<Longrightarrow> caddr p = caddr q \<Longrightarrow> p = q"
  using valid_nth by metis

lemma valid_object: "store_inv s \<Longrightarrow> valid p s \<Longrightarrow> object_ok (heap s) p"
  by (simp add: store_inv_def heap_ok_def valid_def)

lemma valid_subconds: "store_inv s \<Longrightarrow> valid p s \<Longrightarrow> q \<in> subconds p \<Longrightarrow> valid q s"
  using valid_object unfolding object_ok_def valid_def by blast

lemma valid_children:
  "store_inv s \<Longrightarrow> valid (AndC a l r) s \<Longrightarrow> valid l s \<and> valid r s"
  "store_inv s \<Longrightarrow> valid (OrC a l r) s \<Longrightarrow> valid l s \<and> valid r s"
  by (intro conjI; erule (1) valid_subconds; simp)+

lemma valid_coherent:
  assumes "store_inv s" "valid p s" "valid q s"
  shows "coherent (subconds p \<union> subconds q)"
  unfolding coherent_def
proof (intro ballI impI)
  fix x y
  assume "x \<in> subconds p \<union> subconds q" "y \<in> subconds p \<union> subconds q" "caddr x = caddr y"
  then have "x = y" using assms valid_subconds valid_same_address by blast
  then show "strip x = strip y" by simp
qed

lemma valid_pc_eq: "store_inv s \<Longrightarrow> valid p s \<Longrightarrow> valid q s \<Longrightarrow> pc_eq p q \<longleftrightarrow> strip p = strip q"
  by (simp add: valid_coherent pc_eq_iff_strip)

lemma valid_well_built: "store_inv s \<Longrightarrow> valid p s \<Longrightarrow> well_built p"
  using valid_object unfolding object_ok_def by blast

lemma valid_no_const:
  "store_inv s \<Longrightarrow> valid p s \<Longrightarrow> \<not> isTrue p \<Longrightarrow> \<not> isFalse p \<Longrightarrow> no_const p"
  using valid_well_built unfolding well_built_def by blast

lemma valid_depth: "store_inv s \<Longrightarrow> valid p s \<Longrightarrow> depth p \<le> 101"
  using valid_object unfolding object_ok_def by blast

lemma take3_heap: "heap_ok h \<Longrightarrow> \<exists>ys. h = getTrue # getCappedTrue # getFalse # ys"
  unfolding heap_ok_def by (metis append_Cons append_Nil append_take_drop_id)

lemma valid_statics [store_intros]:
  assumes "store_inv s"
  shows "valid getTrue s" "valid getCappedTrue s" "valid getFalse s"
  using take3_heap[of "heap s"] assms by (auto simp: store_inv_def valid_def)

lemma statics_simps [simp]:
  "isTrue getTrue" "isTrue getCappedTrue" "isFalse getFalse"
  "\<not> isFalse getTrue" "\<not> isFalse getCappedTrue" "\<not> isTrue getFalse"
  "isCapped getCappedTrue" "\<not> isCapped getTrue" "\<not> isCapped getFalse"
  "strip getTrue = BTrue" "strip getCappedTrue = BTrue" "strip getFalse = BFalse"
  by (simp_all add: getTrue_def getCappedTrue_def getFalse_def)

lemma isCapped_isTrue: "isCapped p \<Longrightarrow> isTrue p"
  by (cases p) auto

section \<open>Allocation keeps the invariant\<close>

lemma object_ok_mono: "object_ok h p \<Longrightarrow> object_ok (h @ ys) p"
  by (auto simp: object_ok_def)

lemma heap_ok_snoc:
  assumes "heap_ok h" "caddr r = length h" "object_ok (h @ [r]) r"
  shows "heap_ok (h @ [r])"
  using assms unfolding heap_ok_def by (auto simp: nth_append less_Suc_eq object_ok_mono)

lemma cache_ok_mono: "cache_ok h mk c \<Longrightarrow> cache_ok (h @ ys) mk c"
  unfolding cache_ok_def by fastforce

lemma cache_ok_update:
  "cache_ok h mk c \<Longrightarrow> r \<in> set h \<Longrightarrow> r = mk (caddr r) a b \<Longrightarrow> cache_ok h mk (c(cacheKey a b \<mapsto> r))"
  unfolding cache_ok_def by auto

lemma store_inv_alloc:
  assumes "store_inv s" "caddr r = length (heap s)" "object_ok (heap s @ [r]) r"
  shows "store_inv (s\<lparr>heap := heap s @ [r]\<rparr>)"
  using assms unfolding store_inv_def
  by (auto simp: heap_ok_snoc cache_ok_mono nth_append less_Suc_eq dest: less_trans)

lemma extends_alloc: "extends s (s\<lparr>heap := heap s @ ys\<rparr>)"
  by (simp add: extends_def)

lemma getAtom_inv [store_intros]:
  assumes "store_inv s" "getAtom b t s = (p, s')"
  shows "store_inv s'" "extends s s'" "valid p s'" "strip p = BAtom b t"
proof -
  have p: "p = AtomC (length (heap s)) b t" and s': "s' = s\<lparr>heap := heap s @ [p]\<rparr>"
    using assms(2) by (auto simp: getAtom_def Let_def)
  have "object_ok (heap s @ [p]) p" by (simp add: p object_ok_def well_built_def)
  then show "store_inv s'" using assms(1) store_inv_alloc[of s p] by (simp add: p s')
  show "extends s s'" "valid p s'" "strip p = BAtom b t"
    by (simp_all add: s' extends_alloc valid_def p)
qed

section \<open>The memo of the depth is transparent\<close>

lemma store_inv_setDepth:
  assumes "store_inv s" "valid p s" "d = depth p"
  shows "store_inv (snd (setDepth p (d, s)))"
  using assms valid_nth[OF assms(1,2)] unfolding store_inv_def setDepth_def by auto

definition memo_step :: "pstore \<Rightarrow> pstore \<Rightarrow> bool" where
  "memo_step s t \<longleftrightarrow> t = s\<lparr>depthMemo := depthMemo t\<rparr>"

lemma memo_step_refl [simp]: "memo_step s s"
  by (simp add: memo_step_def)

lemma memo_step_trans: "memo_step s t \<Longrightarrow> memo_step t u \<Longrightarrow> memo_step s u"
  unfolding memo_step_def by (metis pstore.surjective pstore.update_convs(4))

lemma memo_step_fields:
  assumes "memo_step s t"
  shows "heap t = heap s" "andCache t = andCache s" "orCache t = orCache s"
    "clauseMemo t = clauseMemo s" "valid p t \<longleftrightarrow> valid p s" "extends s t"
proof -
  have t: "t = s\<lparr>depthMemo := depthMemo t\<rparr>" using assms by (simp add: memo_step_def)
  show "heap t = heap s" "andCache t = andCache s" "orCache t = orCache s" "clauseMemo t = clauseMemo s"
    by (subst t, simp)+
  then show "valid p t \<longleftrightarrow> valid p s" "extends s t"
    by (simp_all add: valid_def extends_same_heap)
qed

definition depthBody :: "pathcond \<Rightarrow> pstore \<Rightarrow> nat \<times> pstore" where
  "depthBody p s =
     (case p of
        AndC _ l r \<Rightarrow> let (dl, s1) = depthM l s; (dr, s2) = depthM r s1
          in ((if dl > dr then dl else dr) + 1, s2)
      | OrC _ l r \<Rightarrow> let (dl, s1) = depthM l s; (dr, s2) = depthM r s1
          in ((if dl > dr then dl else dr) + 1, s2)
      | AtomC _ _ _ \<Rightarrow> (1, s)
      | _ \<Rightarrow> (0, s))"

lemma depthM_unfold:
  "depthM p s = (case depthMemo s (caddr p) of Some d \<Rightarrow> (d, s) | None \<Rightarrow> setDepth p (depthBody p s))"
  by (cases p) (simp_all add: depthBody_def split: option.splits prod.splits)

lemma depthM_step:
  assumes "store_inv s" "valid p s"
    "fst (depthBody p s) = depth p" "store_inv (snd (depthBody p s))" "memo_step s (snd (depthBody p s))"
  shows "fst (depthM p s) = depth p \<and> store_inv (snd (depthM p s)) \<and> memo_step s (snd (depthM p s))"
proof (cases "depthMemo s (caddr p)")
  case None
  then have "depthM p s = setDepth p (depth p, snd (depthBody p s))"
    by (simp add: depthM_unfold flip: assms(3))
  moreover have "valid p (snd (depthBody p s))"
    using assms(2,5) by (simp add: memo_step_fields)
  moreover have "memo_step s (snd (setDepth p (depth p, snd (depthBody p s))))"
    using assms(5) by (rule memo_step_trans) (simp add: memo_step_def setDepth_def)
  ultimately show ?thesis
    using store_inv_setDepth[OF assms(4)] by (simp add: setDepth_def)
next
  case (Some d)
  then have "d = depth (heap s ! caddr p)" using assms(1) unfolding store_inv_def by blast
  then have "d = depth p" using valid_nth[OF assms(1,2)] by simp
  then show ?thesis using Some assms(1) by (simp add: depthM_unfold)
qed

lemma depthM_spec:
  assumes "store_inv s" "valid p s"
  shows "fst (depthM p s) = depth p \<and> store_inv (snd (depthM p s)) \<and> memo_step s (snd (depthM p s))"
  using assms
proof (induction p arbitrary: s)
  case (AndC a l r)
  note v = valid_children(1)[OF AndC.prems]
  obtain dl s1 where l: "depthM l s = (dl, s1)" by fastforce
  obtain dr s2 where r: "depthM r s1 = (dr, s2)" by fastforce
  have 1: "dl = depth l" "store_inv s1" "memo_step s s1"
    using AndC.IH(1)[of s] AndC.prems(1) v l by auto
  have 2: "dr = depth r" "store_inv s2" "memo_step s1 s2"
    using AndC.IH(2)[of s1] 1 v r by (auto simp: memo_step_fields)
  show ?case
    by (rule depthM_step[OF AndC.prems])
      (use l r 1 2 in \<open>auto simp: depthBody_def Let_def intro: memo_step_trans\<close>)
next
  case (OrC a l r)
  note v = valid_children(2)[OF OrC.prems]
  obtain dl s1 where l: "depthM l s = (dl, s1)" by fastforce
  obtain dr s2 where r: "depthM r s1 = (dr, s2)" by fastforce
  have 1: "dl = depth l" "store_inv s1" "memo_step s s1"
    using OrC.IH(1)[of s] OrC.prems(1) v l by auto
  have 2: "dr = depth r" "store_inv s2" "memo_step s1 s2"
    using OrC.IH(2)[of s1] 1 v r by (auto simp: memo_step_fields)
  show ?case
    by (rule depthM_step[OF OrC.prems])
      (use l r 1 2 in \<open>auto simp: depthBody_def Let_def intro: memo_step_trans\<close>)
qed (rule depthM_step; simp add: depthBody_def)+

lemma tooDeep_spec:
  assumes "store_inv s" "valid a s" "valid b s"
  shows "fst (tooDeep a b s) \<longleftrightarrow> depth a > 100 \<or> depth b > 100"
    "store_inv (snd (tooDeep a b s))" "memo_step s (snd (tooDeep a b s))"
proof -
  obtain da s1 where a: "depthM a s = (da, s1)" by fastforce
  obtain db s2 where b: "depthM b s1 = (db, s2)" by fastforce
  have 1: "da = depth a" "store_inv s1" "memo_step s s1"
    using depthM_spec[OF assms(1,2)] a by auto
  have 2: "db = depth b" "store_inv s2" "memo_step s1 s2"
    using depthM_spec[of s1 b] assms(3) 1 b by (auto simp: memo_step_fields)
  show "fst (tooDeep a b s) \<longleftrightarrow> depth a > 100 \<or> depth b > 100"
    "store_inv (snd (tooDeep a b s))" "memo_step s (snd (tooDeep a b s))"
    using a b 1 2 memo_step_trans[of s s1 s2] by (auto simp: tooDeep_def)
qed

section \<open>Hash consing\<close>

lemma cacheKey_commute: "cacheKey a b = cacheKey b a"
  by (auto simp: cacheKey_def)

lemma cacheKey_eqD:
  "cacheKey a b = cacheKey x y \<Longrightarrow>
    caddr x = caddr a \<and> caddr y = caddr b \<or> caddr x = caddr b \<and> caddr y = caddr a"
  by (auto simp: cacheKey_def split: if_splits)

lemma and_cache_hit:
  assumes "store_inv s" "valid a s" "valid b s" "andCache s (cacheKey a b) = Some r"
  shows "valid r s \<and> (r = AndC (caddr r) a b \<or> r = AndC (caddr r) b a)"
proof -
  obtain x y where r: "r \<in> set (heap s)" "r = AndC (caddr r) x y" "cacheKey a b = cacheKey x y"
    using assms(1,4) unfolding store_inv_def cache_ok_def by blast
  then have v: "valid r s" "valid x s" "valid y s"
    using valid_children(1)[OF assms(1), of "caddr r" x y] by (auto simp: valid_def)
  from cacheKey_eqD[OF r(3)] have "x = a \<and> y = b \<or> x = b \<and> y = a"
    using valid_same_address[OF assms(1)] v assms(2,3) by blast
  with r(2) v show ?thesis by auto
qed

lemma or_cache_hit:
  assumes "store_inv s" "valid a s" "valid b s" "orCache s (cacheKey a b) = Some r"
  shows "valid r s \<and> (r = OrC (caddr r) a b \<or> r = OrC (caddr r) b a)"
proof -
  obtain x y where r: "r \<in> set (heap s)" "r = OrC (caddr r) x y" "cacheKey a b = cacheKey x y"
    using assms(1,4) unfolding store_inv_def cache_ok_def by blast
  then have v: "valid r s" "valid x s" "valid y s"
    using valid_children(2)[OF assms(1), of "caddr r" x y] by (auto simp: valid_def)
  from cacheKey_eqD[OF r(3)] have "x = a \<and> y = b \<or> x = b \<and> y = a"
    using valid_same_address[OF assms(1)] v assms(2,3) by blast
  with r(2) v show ?thesis by auto
qed

lemma store_inv_node:
  assumes inv: "store_inv s" and v: "valid a s" "valid b s"
    and nc: "no_const a" "no_const b" and d: "depth a \<le> 100" "depth b \<le> 100"
  shows "store_inv (s\<lparr>heap := heap s @ [AndC (length (heap s)) a b],
        andCache := (andCache s)(cacheKey a b \<mapsto> AndC (length (heap s)) a b)\<rparr>)"
    and "store_inv (s\<lparr>heap := heap s @ [OrC (length (heap s)) a b],
        orCache := (orCache s)(cacheKey a b \<mapsto> OrC (length (heap s)) a b)\<rparr>)"
proof -
  have sub: "subconds a \<subseteq> set (heap s)" "subconds b \<subseteq> set (heap s)"
    using valid_object[OF inv] v by (auto simp: object_ok_def)
  have "object_ok (heap s @ [AndC (length (heap s)) a b]) (AndC (length (heap s)) a b)"
    "object_ok (heap s @ [OrC (length (heap s)) a b]) (OrC (length (heap s)) a b)"
    using sub nc d by (auto simp: object_ok_def well_built_def Let_def)
  then have "store_inv (s\<lparr>heap := heap s @ [AndC (length (heap s)) a b]\<rparr>)"
    "store_inv (s\<lparr>heap := heap s @ [OrC (length (heap s)) a b]\<rparr>)"
    using inv by (auto intro: store_inv_alloc)
  then show "store_inv (s\<lparr>heap := heap s @ [AndC (length (heap s)) a b],
        andCache := (andCache s)(cacheKey a b \<mapsto> AndC (length (heap s)) a b)\<rparr>)"
    and "store_inv (s\<lparr>heap := heap s @ [OrC (length (heap s)) a b],
        orCache := (orCache s)(cacheKey a b \<mapsto> OrC (length (heap s)) a b)\<rparr>)"
    unfolding store_inv_def by (auto simp: cache_ok_update)
qed

section \<open>Conjunction\<close>

text \<open>
  \<open>getAnd\<close> either answers with the capped True or is the conjunction; it keeps the
  invariant and only extends the store.
\<close>

definition op_spec :: "pstore \<Rightarrow> pathcond \<times> pstore \<Rightarrow> ((node_id \<Rightarrow> bool) \<Rightarrow> bool) \<Rightarrow> bool" where
  "op_spec s res P \<longleftrightarrow>
     store_inv (snd res) \<and> extends s (snd res) \<and> valid (fst res) (snd res)
     \<and> (isCapped (fst res) \<or> (\<forall>env. peval env (fst res) \<longleftrightarrow> P env))"

lemma op_spec_same: "store_inv s \<Longrightarrow> valid p s \<Longrightarrow> (\<And>env. \<not> isCapped p \<Longrightarrow> peval env p \<longleftrightarrow> P env)
    \<Longrightarrow> op_spec s (p, s) P"
  by (auto simp: op_spec_def)

lemma getAnd_node_spec:
  assumes inv: "store_inv s" and v: "valid a s" "valid b s"
    and nc: "\<not> isTrue a" "\<not> isTrue b" "\<not> isFalse a" "\<not> isFalse b"
  shows "op_spec s (getAnd a b s) (\<lambda>env. peval env a \<and> peval env b)"
proof -
  obtain deep s1 where t: "tooDeep a b s = (deep, s1)" by fastforce
  note ts = tooDeep_spec[OF inv v, unfolded t, simplified]
  note fs = memo_step_fields[OF ts(3)]
  have v1: "valid a s1" "valid b s1" using v fs by auto
  show ?thesis
  proof (cases deep)
    case True
    then have "getAnd a b s = (getCappedTrue, s1)" using nc t by (simp add: getAnd_def)
    then show ?thesis using ts fs valid_statics[OF inv] by (simp add: op_spec_def)
  next
    case shallow: False
    then have d: "depth a \<le> 100" "depth b \<le> 100" using ts(1) by auto
    show ?thesis
    proof (cases "andCache s1 (cacheKey a b)")
      case (Some r)
      then have "getAnd a b s = (r, s1)" using nc t shallow by (simp add: getAnd_def)
      moreover from and_cache_hit[OF ts(2) v1 Some]
      have "valid r s1" and "strip r = BAnd (strip a) (strip b) \<or> strip r = BAnd (strip b) (strip a)"
        by (auto dest: arg_cong[of r _ strip])
      ultimately show ?thesis using ts fs by (auto simp: op_spec_def)
    next
      case None
      define r where "r = AndC (length (heap s1)) a b"
      define s2 where "s2 = s1\<lparr>heap := heap s1 @ [r], andCache := (andCache s1)(cacheKey a b \<mapsto> r)\<rparr>"
      have "getAnd a b s = (r, s2)"
        using nc t shallow None by (simp add: getAnd_def r_def s2_def Let_def)
      moreover have "store_inv s2"
        unfolding s2_def r_def
        by (rule store_inv_node(1)[OF ts(2) v1 _ _ d])
          (use valid_no_const[OF inv] v nc in auto)
      moreover have "extends s s2" "valid r s2"
        using fs by (auto simp: s2_def extends_iff valid_def)
      ultimately show ?thesis by (auto simp: op_spec_def r_def)
    qed
  qed
qed

lemma getAnd_spec:
  assumes inv: "store_inv s" and v: "valid a s" "valid b s"
  shows "op_spec s (getAnd a b s) (\<lambda>env. peval env a \<and> peval env b)"
proof -
  consider "isFalse a \<or> isFalse b" | "\<not> (isFalse a \<or> isFalse b)" "isTrue a"
    | "\<not> (isFalse a \<or> isFalse b)" "\<not> isTrue a" "isTrue b"
    | "\<not> isTrue a" "\<not> isTrue b" "\<not> isFalse a" "\<not> isFalse b" by blast
  then show ?thesis
  proof cases
    case 1
    then show ?thesis
      using inv by (auto simp: getAnd_def valid_statics isFalse_strip intro!: op_spec_same)
  next
    case 2
    then show ?thesis using inv v by (auto simp: getAnd_def isTrue_strip intro!: op_spec_same)
  next
    case 3
    then show ?thesis using inv v by (auto simp: getAnd_def isTrue_strip intro!: op_spec_same)
  next
    case 4
    then show ?thesis using getAnd_node_spec inv v by blast
  qed
qed

section \<open>Disjunction\<close>

text \<open>
  \<open>absorbed a b\<close>: two different And chains of which one has its literals among those of
  the other. These are the operands the comment on \<^verbatim>\<open>isAndSubset\<close> in \<^verbatim>\<open>getOr\<close> is about.
\<close>

definition absorbed :: "pathcond \<Rightarrow> pathcond \<Rightarrow> bool" where
  "absorbed a b \<longleftrightarrow>
     no_const a \<and> no_const b \<and> strip a \<noteq> strip b \<and> (isAndSubset b a \<or> isAndSubset a b)"

lemma containsInOr_chain: "isPureAndChain a \<Longrightarrow> containsInOr a b (Suc d) \<longleftrightarrow> pc_eq a b"
  by (cases a) auto

lemma orHasChild_chain: "isPureAndChain a \<Longrightarrow> \<not> orHasChild a b"
  by (cases a) (auto simp: orHasChild_def)

lemma no_const_consts: "no_const p \<Longrightarrow> \<not> isTrue p \<and> \<not> isFalse p \<and> \<not> isCapped p"
  by (cases p) auto

lemma getOr_absorbed:
  assumes inv: "store_inv s" and v: "valid a s" "valid b s" and ab: "absorbed a b"
  shows "getOr a b s = (if isAndSubset b a then a else b, s)"
    "peval env (fst (getOr a b s)) \<longleftrightarrow> peval env a \<and> peval env b"
proof -
  have nc: "no_const a" "no_const b" "strip a \<noteq> strip b" and sub: "isAndSubset b a \<or> isAndSubset a b"
    using ab by (auto simp: absorbed_def)
  then have ch: "isPureAndChain a" "isPureAndChain b" by (auto simp: isAndSubset_iff)
  have neq: "caddr a \<noteq> caddr b" "\<not> pc_eq a b" "\<not> pc_eq b a"
    using nc(3) valid_same_address[OF inv v] valid_pc_eq[OF inv] v by auto
  have c8: "\<not> containsInOr a b 8" "\<not> containsInOr b a 8"
    using ch neq by (simp_all add: numeral_eq_Suc containsInOr_chain del: containsInOr.simps)
  have "getOr a b s = (if isAndSubset b a then (a, s) else (b, s))"
    using nc neq c8 sub ch no_const_consts[OF nc(1)] no_const_consts[OF nc(2)]
    by (cases "isAndSubset b a") (simp_all add: getOr_def orHasChild_chain)
  then show eq: "getOr a b s = (if isAndSubset b a then a else b, s)" by simp
  have ev: "peval env a \<longleftrightarrow> lits_hold env (set (lits a))" "peval env b \<longleftrightarrow> lits_hold env (set (lits b))"
    using no_const_chain_eval[OF ch(1) nc(1)] no_const_chain_eval[OF ch(2) nc(2)] by simp_all
  show "peval env (fst (getOr a b s)) \<longleftrightarrow> peval env a \<and> peval env b"
  proof (cases "isAndSubset b a")
    case True
    then show ?thesis using eq ev lits_hold_mono[of "set (lits b)" "set (lits a)" env]
      by (auto simp: isAndSubset_iff)
  next
    case False
    then show ?thesis using eq ev sub lits_hold_mono[of "set (lits a)" "set (lits b)" env]
      by (auto simp: isAndSubset_iff)
  qed
qed

lemma orHasChild_implies:
  assumes "store_inv s" "valid a s" "valid b s" "orHasChild a b" "peval env b"
  shows "peval env a"
proof -
  obtain i l r where a: "a = OrC i l r" and lr: "pc_eq l b \<or> pc_eq r b"
    using assms(4) by (auto simp: orHasChild_def split: pathcond.splits)
  have "valid l s" "valid r s" using valid_children(2)[OF assms(1), of i l r] assms(2) a by blast+
  then have "strip l = strip b \<or> strip r = strip b"
    using lr valid_pc_eq[OF assms(1) _ assms(3)] by blast
  then show ?thesis using a assms(5) by auto
qed

lemma getOr_node_spec:
  assumes inv: "store_inv s" and v: "valid a s" "valid b s"
    and nc: "\<not> isTrue a" "\<not> isTrue b" "\<not> isFalse a" "\<not> isFalse b"
    and no: "caddr a \<noteq> caddr b" "\<not> orHasChild a b" "\<not> orHasChild b a"
      "\<not> containsInOr a b 8" "\<not> containsInOr b a 8" "\<not> isAndSubset b a" "\<not> isAndSubset a b"
  shows "op_spec s (getOr a b s) (\<lambda>env. peval env a \<or> peval env b)"
proof -
  obtain deep s1 where t: "tooDeep a b s = (deep, s1)" by fastforce
  note ts = tooDeep_spec[OF inv v, unfolded t, simplified]
  note fs = memo_step_fields[OF ts(3)]
  have v1: "valid a s1" "valid b s1" using v fs by auto
  have g: "getOr a b s =
     (if deep then (getCappedTrue, s1)
      else case orCache s1 (cacheKey a b) of Some r \<Rightarrow> (r, s1)
        | None \<Rightarrow> let r = OrC (length (heap s1)) a b in
              (r, s1\<lparr>heap := heap s1 @ [r], orCache := (orCache s1)(cacheKey a b \<mapsto> r)\<rparr>))"
    using nc no t by (simp add: getOr_def)
  show ?thesis
  proof (cases deep)
    case True
    then have "getOr a b s = (getCappedTrue, s1)" using g by simp
    then show ?thesis using ts fs valid_statics[OF inv] by (simp add: op_spec_def)
  next
    case shallow: False
    then have d: "depth a \<le> 100" "depth b \<le> 100" using ts(1) by auto
    show ?thesis
    proof (cases "orCache s1 (cacheKey a b)")
      case (Some r)
      then have "getOr a b s = (r, s1)" using g shallow by simp
      moreover from or_cache_hit[OF ts(2) v1 Some]
      have "valid r s1" and "strip r = BOr (strip a) (strip b) \<or> strip r = BOr (strip b) (strip a)"
        by (auto dest: arg_cong[of r _ strip])
      ultimately show ?thesis using ts fs by (auto simp: op_spec_def)
    next
      case None
      define r where "r = OrC (length (heap s1)) a b"
      define s2 where "s2 = s1\<lparr>heap := heap s1 @ [r], orCache := (orCache s1)(cacheKey a b \<mapsto> r)\<rparr>"
      have "getOr a b s = (r, s2)"
        using g shallow None by (simp add: r_def s2_def Let_def)
      moreover have "store_inv s2"
        unfolding s2_def r_def
        by (rule store_inv_node(2)[OF ts(2) v1 _ _ d])
          (use valid_no_const[OF inv] v nc in auto)
      moreover have "extends s s2" "valid r s2"
        using fs by (auto simp: s2_def extends_iff valid_def)
      ultimately show ?thesis by (auto simp: op_spec_def r_def)
    qed
  qed
qed

lemma getOr_exact:
  assumes inv: "store_inv s" and v: "valid a s" "valid b s" and na: "\<not> absorbed a b"
  shows "op_spec s (getOr a b s) (\<lambda>env. peval env a \<or> peval env b)"
proof -
  note coh = valid_coherent[OF inv]
  have keep_a: "op_spec s (a, s) (\<lambda>env. peval env a \<or> peval env b)"
    if "\<And>env. peval env b \<Longrightarrow> peval env a" using inv v that by (auto intro: op_spec_same)
  have keep_b: "op_spec s (b, s) (\<lambda>env. peval env a \<or> peval env b)"
    if "\<And>env. peval env a \<Longrightarrow> peval env b" using inv v that by (auto intro: op_spec_same)
  consider (t) "isTrue a \<or> isTrue b"
    | (fa) "\<not> isTrue a" "\<not> isTrue b" "isFalse a"
    | (fb) "\<not> isTrue a" "\<not> isTrue b" "\<not> isFalse a" "isFalse b"
    | (nc) "\<not> isTrue a" "\<not> isTrue b" "\<not> isFalse a" "\<not> isFalse b" by blast
  then show ?thesis
  proof cases
    case t
    then have "getOr a b s = (getTrue, s)" by (simp add: getOr_def)
    then show ?thesis using t valid_statics[OF inv] inv
      by (auto simp: isTrue_strip intro!: op_spec_same)
  next
    case fa
    then have "getOr a b s = (b, s)" by (simp add: getOr_def)
    then show ?thesis using keep_b fa by (simp add: isFalse_strip)
  next
    case fb
    then have "getOr a b s = (a, s)" by (simp add: getOr_def)
    then show ?thesis using keep_a fb by (simp add: isFalse_strip)
  next
    case nc
    consider (eq) "strip a = strip b" | (ha) "orHasChild a b \<or> containsInOr a b 8"
      | (hb) "\<not> orHasChild a b" "\<not> containsInOr a b 8" "orHasChild b a \<or> containsInOr b a 8"
      | (sub) "strip a \<noteq> strip b" "isAndSubset b a \<or> isAndSubset a b"
      | (node) "strip a \<noteq> strip b" "\<not> orHasChild a b" "\<not> orHasChild b a" "\<not> containsInOr a b 8"
          "\<not> containsInOr b a 8" "\<not> isAndSubset b a" "\<not> isAndSubset a b" by blast
    then show ?thesis
    proof cases
      case eq
      have "op_spec s (a, s) (\<lambda>env. peval env a \<or> peval env b)"
        "op_spec s (b, s) (\<lambda>env. peval env a \<or> peval env b)" using keep_a keep_b eq by auto
      moreover have "containsInOr a b 8" using eq strip_imp_pc_eq by (simp add: numeral_eq_Suc)
      ultimately show ?thesis using nc by (auto simp: getOr_def)
    next
      case ha
      have "getOr a b s = (a, s) \<or> getOr a b s = (b, s) \<and> orHasChild b a"
        using nc ha by (auto simp: getOr_def)
      moreover have "\<And>env. peval env b \<Longrightarrow> peval env a"
        using ha orHasChild_implies[OF inv v] containsInOr_implies[OF _ coh[OF v]] by blast
      moreover have "\<And>env. orHasChild b a \<Longrightarrow> peval env a \<Longrightarrow> peval env b"
        using orHasChild_implies[OF inv v(2,1)] by blast
      ultimately show ?thesis using keep_a keep_b by metis
    next
      case hb
      have "getOr a b s = (b, s) \<or> getOr a b s = (a, s) \<and> a = b"
        using nc hb valid_same_address[OF inv v] by (auto simp: getOr_def)
      moreover have "\<And>env. peval env a \<Longrightarrow> peval env b"
        using hb orHasChild_implies[OF inv v(2,1)] containsInOr_implies[OF _ coh[OF v(2,1)]] by blast
      ultimately show ?thesis using keep_a keep_b by metis
    next
      case sub
      then have "absorbed a b"
        using valid_no_const[OF inv] v nc by (auto simp: absorbed_def)
      then show ?thesis using na by blast
    next
      case node
      then have "caddr a \<noteq> caddr b" using valid_same_address[OF inv v] by blast
      with node nc show ?thesis using getOr_node_spec[OF inv v] by blast
    qed
  qed
qed

lemma getOr_keeps:
  assumes "store_inv s" "valid a s" "valid b s"
  shows "store_inv (snd (getOr a b s))" "extends s (snd (getOr a b s))"
    "valid (fst (getOr a b s)) (snd (getOr a b s))"
    "isCapped (fst (getOr a b s)) \<or> (peval env (fst (getOr a b s)) \<longrightarrow> peval env a \<or> peval env b)"
  using getOr_exact[OF assms] getOr_absorbed[OF assms] assms
  by (cases "absorbed a b"; auto simp: op_spec_def)+

section \<open>Equal operands give the same object\<close>

lemma depthM_memo: "depthMemo s (caddr p) = Some d \<Longrightarrow> depthM p s = (d, s)"
  by (simp add: depthM_unfold)

lemma store_facts:
  assumes "store_inv s" "valid a s"
  shows "isTrue a \<Longrightarrow> a = getTrue \<or> a = getCappedTrue" "isFalse a \<Longrightarrow> a = getFalse"
  using valid_object[OF assms] by (auto simp: object_ok_def)

lemma getAnd_again:
  assumes inv: "store_inv s" and v: "valid a s" "valid b s"
    and nc: "\<not> isTrue a" "\<not> isTrue b" "\<not> isFalse a" "\<not> isFalse b"
    and g: "getAnd a b s = (r, s1)"
  shows "fst (getAnd b a s1) = r \<and> heap (snd (getAnd b a s1)) = heap s1"
proof -
  have o: "store_inv s1" "extends s s1"
    using getAnd_spec[OF inv v] g by (auto simp: op_spec_def)
  then have v1: "valid a s1" "valid b s1" using v valid_mono by blast+
  obtain deep s0 where t: "tooDeep a b s = (deep, s0)" by fastforce
  obtain deep' s2 where t': "tooDeep b a s1 = (deep', s2)" by fastforce
  note ts = tooDeep_spec[OF inv v, unfolded t, simplified]
  note ts' = tooDeep_spec[OF o(1) v1(2,1), unfolded t', simplified]
  note fs' = memo_step_fields[OF ts'(3)]
  have same: "deep' = deep" using ts(1) ts'(1) by auto
  show ?thesis
  proof (cases deep)
    case True
    then show ?thesis using g nc t t' same fs' by (auto simp: getAnd_def)
  next
    case False
    then have "andCache s1 (cacheKey a b) = Some r"
      using g nc t by (auto simp: getAnd_def Let_def split: option.splits)
    then show ?thesis
      using False nc t' same fs' by (simp add: getAnd_def cacheKey_commute)
  qed
qed

section \<open>Counting clauses\<close>

text \<open>The number the comment on \<^verbatim>\<open>clauseCount\<close> defines, without cap and memo.\<close>

definition memo_below :: "pstore \<Rightarrow> bool" where
  "memo_below s \<longleftrightarrow> (\<forall>i n. clauseMemo s i = Some n \<longrightarrow> n \<le> dnfCount (heap s ! i))"

definition memo_exact :: "pstore \<Rightarrow> bool" where
  "memo_exact s \<longleftrightarrow> (\<forall>i n. clauseMemo s i = Some n \<longrightarrow> n = dnfCount (heap s ! i))"

definition clause_step :: "pstore \<Rightarrow> pstore \<Rightarrow> bool" where
  "clause_step s t \<longleftrightarrow> t = s\<lparr>clauseMemo := clauseMemo t\<rparr>"

lemma clause_step_refl [simp]: "clause_step s s"
  by (simp add: clause_step_def)

lemma clause_step_trans: "clause_step s t \<Longrightarrow> clause_step t u \<Longrightarrow> clause_step s u"
  unfolding clause_step_def by (metis pstore.surjective pstore.update_convs(5))

lemma clause_step_fields:
  assumes "clause_step s t"
  shows "heap t = heap s" "valid p t \<longleftrightarrow> valid p s" "extends s t"
proof -
  have t: "t = s\<lparr>clauseMemo := clauseMemo t\<rparr>" using assms by (simp add: clause_step_def)
  show "heap t = heap s" by (subst t, simp)
  then show "valid p t \<longleftrightarrow> valid p s" "extends s t" by (simp_all add: valid_def extends_same_heap)
qed

lemma setClauses_spec:
  assumes "store_inv s" "valid p s"
  shows "store_inv (snd (setClauses p (n, s)))" "clause_step s (snd (setClauses p (n, s)))"
    "fst (setClauses p (n, s)) = n"
    "memo_below s \<Longrightarrow> n \<le> dnfCount p \<Longrightarrow> memo_below (snd (setClauses p (n, s)))"
    "memo_exact s \<Longrightarrow> n = dnfCount p \<Longrightarrow> memo_exact (snd (setClauses p (n, s)))"
  using assms valid_nth[OF assms]
  by (auto simp: setClauses_def store_inv_def clause_step_def memo_below_def memo_exact_def)

definition clauseBody :: "pathcond \<Rightarrow> nat \<Rightarrow> pstore \<Rightarrow> nat \<times> pstore" where
  "clauseBody p cap s =
     (case p of
        OrC _ l r \<Rightarrow>
          let (lc, s1) = clauseCount l cap s in
          if lc \<ge> cap then (cap, s1)
          else
            let (rc, s2) = clauseCount r (cap - lc) s1 in
            if rc \<ge> cap - lc then (cap, s2) else (lc + rc, s2)
      | AndC _ l r \<Rightarrow>
          let (lc, s1) = clauseCount l cap s in
          if lc \<ge> cap then (cap, s1)
          else
            let (rc, s2) = clauseCount r cap s1 in
            if rc \<ge> cap then (cap, s2)
            else if lc > 0 \<and> rc > cap div lc then (cap, s2)
            else (lc * rc, s2)
      | _ \<Rightarrow> (1, s))"

lemma clauseCount_unfold:
  "clauseCount p cap s =
     (case clauseMemo s (caddr p) of Some n \<Rightarrow> (n, s) | None \<Rightarrow> setClauses p (clauseBody p cap s))"
  by (cases p) (auto simp: clauseBody_def Let_def split: option.splits prod.splits)

definition count_ok :: "pathcond \<Rightarrow> nat \<Rightarrow> pstore \<Rightarrow> nat \<times> pstore \<Rightarrow> bool" where
  "count_ok p cap s res \<longleftrightarrow>
     store_inv (snd res) \<and> clause_step s (snd res)
     \<and> (0 < cap \<and> memo_below s \<longrightarrow> memo_below (snd res) \<and> fst res \<le> dnfCount p)
     \<and> (0 < cap \<and> memo_exact s \<longrightarrow>
          (dnfCount p < cap \<longrightarrow> fst res = dnfCount p \<and> memo_exact (snd res))
          \<and> (cap \<le> dnfCount p \<longrightarrow> cap \<le> fst res))"

lemma count_ok_step:
  assumes inv: "store_inv s" "valid p s" and body: "count_ok p cap s (clauseBody p cap s)"
  shows "count_ok p cap s (clauseCount p cap s)"
proof (cases "clauseMemo s (caddr p)")
  case (Some n)
  have "n \<le> dnfCount p" if "memo_below s"
    using that Some valid_nth[OF inv] unfolding memo_below_def by metis
  moreover have "n = dnfCount p" if "memo_exact s"
    using that Some valid_nth[OF inv] unfolding memo_exact_def by metis
  ultimately show ?thesis using Some inv by (auto simp: clauseCount_unfold count_ok_def)
next
  case None
  obtain n t where b: "clauseBody p cap s = (n, t)" by fastforce
  have t: "store_inv t" "clause_step s t" using body b by (auto simp: count_ok_def)
  have "valid p t" using inv(2) t(2) by (simp add: clause_step_fields)
  note set = setClauses_spec[OF t(1) this, of n]
  have "clauseCount p cap s = setClauses p (n, t)" using None b by (simp add: clauseCount_unfold)
  then show ?thesis
    using set t(2) body b clause_step_trans[OF t(2) set(2)] by (auto simp: count_ok_def)
qed

lemma count_ok_memo_below: "count_ok p cap s (n, t) \<Longrightarrow> 0 < cap \<Longrightarrow> memo_below s \<Longrightarrow> memo_below t \<and> n \<le> dnfCount p"
  by (simp add: count_ok_def)

lemma count_ok_exact: "count_ok p cap s (n, t) \<Longrightarrow> memo_exact s \<Longrightarrow> n < cap \<Longrightarrow>
    n = dnfCount p \<and> memo_exact t"
  by (cases "dnfCount p < cap") (auto simp: count_ok_def)

lemma count_ok_exact_cap: "count_ok p cap s (n, t) \<Longrightarrow> memo_exact s \<Longrightarrow> 0 < cap \<Longrightarrow> cap \<le> n \<Longrightarrow> cap \<le> dnfCount p"
  by (cases "dnfCount p < cap") (auto simp: count_ok_def)

lemma count_ok_capped:
  "store_inv t \<Longrightarrow> clause_step s t \<Longrightarrow> (0 < cap \<Longrightarrow> memo_below s \<Longrightarrow> memo_below t \<and> cap \<le> dnfCount p) \<Longrightarrow>
    (0 < cap \<Longrightarrow> memo_exact s \<Longrightarrow> cap \<le> dnfCount p) \<Longrightarrow> count_ok p cap s (cap, t)"
  by (auto simp: count_ok_def)

lemma count_ok_value:
  "store_inv t \<Longrightarrow> clause_step s t \<Longrightarrow> (0 < cap \<Longrightarrow> memo_below s \<Longrightarrow> memo_below t \<and> n \<le> dnfCount p) \<Longrightarrow>
    (0 < cap \<Longrightarrow> memo_exact s \<Longrightarrow> n = dnfCount p \<and> memo_exact t) \<Longrightarrow> count_ok p cap s (n, t)"
  by (auto simp: count_ok_def)

lemma le_prod_left: "n \<le> dnfCount l \<Longrightarrow> n \<le> dnfCount l * dnfCount r"
  using dnfCount_pos[of r] by (metis le_trans mult_le_mono2 nat_mult_1_right Suc_leI One_nat_def)

lemma le_prod_right: "n \<le> dnfCount r \<Longrightarrow> n \<le> dnfCount l * dnfCount r"
  using le_prod_left[of n r l] by (simp add: mult.commute)

lemma over_product: "0 < (lc::nat) \<Longrightarrow> cap div lc < rc \<Longrightarrow> cap \<le> lc * rc"
  by (metis div_less_iff_less_mult less_imp_le mult.commute)

lemma clauseCount_ok:
  "store_inv s \<Longrightarrow> valid p s \<Longrightarrow> count_ok p cap s (clauseCount p cap s)"
proof (induction p arbitrary: s cap)
  case (OrC a l r)
  note v = valid_children(2)[OF OrC.prems]
  obtain lc s1 where l: "clauseCount l cap s = (lc, s1)" by fastforce
  obtain rc s2 where r: "clauseCount r (cap - lc) s1 = (rc, s2)" by fastforce
  have L: "count_ok l cap s (lc, s1)" using OrC.IH(1)[OF OrC.prems(1)] v l by metis
  then have s1: "store_inv s1" "clause_step s s1" by (auto simp: count_ok_def)
  then have R: "count_ok r (cap - lc) s1 (rc, s2)"
    using OrC.IH(2)[OF s1(1), of "cap - lc"] v r clause_step_fields(2)[OF s1(2)] by metis
  then have s2: "store_inv s2" "clause_step s s2" using clause_step_trans[OF s1(2)] by (auto simp: count_ok_def)
  consider "cap \<le> lc" | "lc < cap" "cap - lc \<le> rc" | "lc < cap" "rc < cap - lc" by linarith
  then have "count_ok (OrC a l r) cap s (clauseBody (OrC a l r) cap s)"
  proof cases
    case 1
    then show ?thesis using l s1 count_ok_memo_below[OF L] count_ok_exact_cap[OF L]
      by (auto simp: clauseBody_def intro!: count_ok_capped)
  next
    case 2
    then show ?thesis
      using l r s2 count_ok_memo_below[OF L] count_ok_memo_below[OF R] count_ok_exact[OF L]
        count_ok_exact_cap[OF R]
      by (auto simp: clauseBody_def intro!: count_ok_capped)
  next
    case 3
    then show ?thesis
      using l r s2 count_ok_memo_below[OF L] count_ok_memo_below[OF R] count_ok_exact[OF L] count_ok_exact[OF R]
      by (auto simp: clauseBody_def intro!: count_ok_value)
  qed
  then show ?case by (rule count_ok_step[OF OrC.prems])
next
  case (AndC a l r)
  note v = valid_children(1)[OF AndC.prems]
  obtain lc s1 where l: "clauseCount l cap s = (lc, s1)" by fastforce
  obtain rc s2 where r: "clauseCount r cap s1 = (rc, s2)" by fastforce
  have L: "count_ok l cap s (lc, s1)" using AndC.IH(1)[OF AndC.prems(1)] v l by metis
  then have s1: "store_inv s1" "clause_step s s1" by (auto simp: count_ok_def)
  then have R: "count_ok r cap s1 (rc, s2)"
    using AndC.IH(2)[OF s1(1), of cap] v r clause_step_fields(2)[OF s1(2)] by metis
  then have s2: "store_inv s2" "clause_step s s2" using clause_step_trans[OF s1(2)] by (auto simp: count_ok_def)
  have le: "lc * rc \<le> dnfCount l * dnfCount r \<and> memo_below s2" if "0 < cap" "memo_below s"
    using that count_ok_memo_below[OF L] count_ok_memo_below[OF R] by (simp add: mult_le_mono)
  consider "cap \<le> lc" | "lc < cap" "cap \<le> rc" | "lc < cap" "rc < cap" "0 < lc \<and> cap div lc < rc"
    | "lc < cap" "rc < cap" "\<not> (0 < lc \<and> cap div lc < rc)" by linarith
  then have "count_ok (AndC a l r) cap s (clauseBody (AndC a l r) cap s)"
  proof cases
    case 1
    then show ?thesis using l s1 count_ok_memo_below[OF L] count_ok_exact_cap[OF L] le_prod_left[of cap l r]
      by (auto simp: clauseBody_def intro!: count_ok_capped)
  next
    case 2
    then show ?thesis
      using l r s2 count_ok_memo_below[OF L] count_ok_memo_below[OF R] count_ok_exact[OF L]
        count_ok_exact_cap[OF R] le_prod_right[of cap r l]
      by (auto simp: clauseBody_def intro!: count_ok_capped)
  next
    case 3
    then show ?thesis
      using l r s2 le over_product[of lc cap rc] count_ok_exact[OF L] count_ok_exact[OF R]
      by (auto simp: clauseBody_def intro!: count_ok_capped)
  next
    case 4
    then show ?thesis
      using l r s2 le count_ok_exact[OF L] count_ok_exact[OF R]
      by (auto simp: clauseBody_def intro!: count_ok_value)
  qed
  then show ?case by (rule count_ok_step[OF AndC.prems])
qed (rule count_ok_step; simp add: clauseBody_def count_ok_def; linarith?)+

section \<open>Reachable stores\<close>

text \<open>
  What a client can do: each of the five operations on conditions it has obtained before.
\<close>

inductive reachable :: "pstore \<Rightarrow> bool" where
  reach_init: "reachable init_store"
| reach_atom: "reachable s \<Longrightarrow> reachable (snd (getAtom b t s))"
| reach_and: "reachable s \<Longrightarrow> valid p s \<Longrightarrow> valid q s \<Longrightarrow> reachable (snd (getAnd p q s))"
| reach_or: "reachable s \<Longrightarrow> valid p s \<Longrightarrow> valid q s \<Longrightarrow> reachable (snd (getOr p q s))"
| reach_depth: "reachable s \<Longrightarrow> valid p s \<Longrightarrow> reachable (snd (depthM p s))"
| reach_count: "reachable s \<Longrightarrow> valid p s \<Longrightarrow> 0 < cap \<Longrightarrow> reachable (snd (clauseCount p cap s))"

lemma memo_below_mono:
  assumes "memo_below s" "store_inv s" "extends s t" "clauseMemo t = clauseMemo s"
  shows "memo_below t"
  unfolding memo_below_def
proof (intro allI impI)
  fix i n
  assume "clauseMemo t i = Some n"
  then have "i < length (heap s)" "n \<le> dnfCount (heap s ! i)"
    using assms(1,2,4) by (auto simp: memo_below_def store_inv_def)
  moreover obtain ys where "heap t = heap s @ ys" using assms(3) by (auto simp: extends_iff)
  ultimately show "n \<le> dnfCount (heap t ! i)" by (simp add: nth_append)
qed

lemma tooDeep_clauseMemo: "clauseMemo (snd (tooDeep a b s)) = clauseMemo s"
proof -
  have d: "clauseMemo (snd (depthM p s)) = clauseMemo s" for p s
    by (induction p arbitrary: s) (auto simp: setDepth_def split: option.splits prod.splits, (metis snd_conv)+)
  show ?thesis using d by (auto simp: tooDeep_def split: prod.splits) (metis snd_conv)+
qed

lemma getAnd_clauseMemo: "clauseMemo (snd (getAnd a b s)) = clauseMemo s"
  using tooDeep_clauseMemo[of a b s] by (auto simp: getAnd_def Let_def split: prod.splits option.splits)

lemma getOr_clauseMemo: "clauseMemo (snd (getOr a b s)) = clauseMemo s"
  using tooDeep_clauseMemo[of a b s] by (auto simp: getOr_def Let_def split: prod.splits option.splits)

lemma reachable_keeps: "reachable s \<Longrightarrow> store_inv s \<and> memo_below s"
proof (induction rule: reachable.induct)
  case reach_init
  show ?case by (intro conjI store_inv_init) (simp add: memo_below_def init_store_def)
next
  case (reach_atom s b t)
  obtain p s' where g: "getAtom b t s = (p, s')" by fastforce
  have "clauseMemo s' = clauseMemo s" using g by (auto simp: getAtom_def Let_def)
  then show ?case using reach_atom.IH getAtom_inv(1,2)[OF _ g] memo_below_mono g by auto
next
  case (reach_and s p q)
  then show ?case using getAnd_spec[of s p q] memo_below_mono[OF _ _ _ getAnd_clauseMemo]
    by (auto simp: op_spec_def)
next
  case (reach_or s p q)
  then show ?case using getOr_keeps(1,2)[of s p q] memo_below_mono[OF _ _ _ getOr_clauseMemo] by blast
next
  case (reach_depth s p)
  then have m: "store_inv (snd (depthM p s))" "memo_step s (snd (depthM p s))" using depthM_spec by blast+
  then show ?case using reach_depth.IH memo_step_fields[OF m(2)] by (simp add: memo_below_def)
next
  case (reach_count s p cap)
  then show ?case using clauseCount_ok[of s p cap] by (simp add: count_ok_def)
qed

section \<open>The interface of the analyses\<close>

text \<open>
  What the analyses need of a store of guards: operations that only extend it, a conjunction
  that both operands imply together, and nothing about an operation's result but that it is a
  guard of the new store where the operation is a disjunction (which may absorb, theorem
  \<open>getOr_absorbs_to_conjunction\<close>).
\<close>

locale guard_store =
  fixes inv :: "'s \<Rightarrow> bool"
    and ok :: "'g \<Rightarrow> 's \<Rightarrow> bool"
    and ext :: "'s \<Rightarrow> 's \<Rightarrow> bool"
    and holds :: "(node_id \<Rightarrow> bool) \<Rightarrow> 'g \<Rightarrow> bool"
    and conj :: "'g \<Rightarrow> 'g \<Rightarrow> 's \<Rightarrow> 'g \<times> 's"
    and disj :: "'g \<Rightarrow> 'g \<Rightarrow> 's \<Rightarrow> 'g \<times> 's"
  assumes ext_refl: "ext s s"
    and ext_trans: "ext s t \<Longrightarrow> ext t u \<Longrightarrow> ext s u"
    and ok_mono: "ok g s \<Longrightarrow> ext s t \<Longrightarrow> ok g t"
    and conj_keeps: "inv s \<Longrightarrow> ok a s \<Longrightarrow> ok b s \<Longrightarrow>
      inv (snd (conj a b s)) \<and> ext s (snd (conj a b s)) \<and> ok (fst (conj a b s)) (snd (conj a b s))"
    and conj_weak: "inv s \<Longrightarrow> ok a s \<Longrightarrow> ok b s \<Longrightarrow> holds env a \<Longrightarrow> holds env b \<Longrightarrow> holds env (fst (conj a b s))"
    and disj_keeps: "inv s \<Longrightarrow> ok a s \<Longrightarrow> ok b s \<Longrightarrow>
      inv (snd (disj a b s)) \<and> ext s (snd (disj a b s)) \<and> ok (fst (disj a b s)) (snd (disj a b s))"
begin

lemma conj_list:
  assumes "inv s" "ok a s" "\<forall>l \<in> set ls. ok l s"
  shows "case fold (\<lambda>l (r, t). conj r l t) ls (a, s) of (r, t) \<Rightarrow>
    inv t \<and> ext s t \<and> ok r t \<and> (\<forall>env. holds env a \<and> (\<forall>l \<in> set ls. holds env l) \<longrightarrow> holds env r)"
  using assms
proof (induction ls arbitrary: a s)
  case (Cons l ls)
  obtain r t where rt: "conj a l s = (r, t)" by fastforce
  have k: "inv t" "ext s t" "ok r t" using conj_keeps[of s a l] Cons.prems rt by auto
  have "\<forall>l' \<in> set ls. ok l' t" using Cons.prems(3) ok_mono k(2) by auto
  note IH = Cons.IH[OF k(1,3) this]
  have "holds env r" if "holds env a" "holds env l" for env
    using conj_weak[of s a l env] Cons.prems rt that by auto
  then show ?case using IH ext_trans[OF k(2)] rt by (auto simp: case_prod_beta)
qed (simp add: ext_refl)

lemma ok_list_mono: "\<forall>l \<in> set ls. ok l s \<Longrightarrow> ext s t \<Longrightarrow> \<forall>l \<in> set ls. ok l t"
  using ok_mono by blast

lemma disj_list:
  assumes "inv s" "ok a s" "\<forall>l \<in> set ls. ok l s"
  shows "case fold (\<lambda>l (r, t). disj r l t) ls (a, s) of (r, t) \<Rightarrow> inv t \<and> ext s t \<and> ok r t"
  using assms
proof (induction ls arbitrary: a s)
  case (Cons l ls)
  obtain r t where rt: "disj a l s = (r, t)" by fastforce
  have k: "inv t" "ext s t" "ok r t" using disj_keeps[of s a l] Cons.prems rt by auto
  have "\<forall>l' \<in> set ls. ok l' t" using Cons.prems(3) ok_mono k(2) by auto
  note IH = Cons.IH[OF k(1,3) this]
  then show ?case using ext_trans[OF k(2)] rt by (auto simp: case_prod_beta)
qed (simp add: ext_refl)

end

lemma getAnd_weak:
  assumes "store_inv s" "valid a s" "valid b s" "peval env a" "peval env b"
  shows "peval env (fst (getAnd a b s))"
  using getAnd_spec[OF assms(1-3)] assms(4,5) isTrue_peval isCapped_isTrue by (auto simp: op_spec_def)

interpretation pcs: guard_store store_inv valid extends "\<lambda>env p. peval env p" getAnd getOr
proof (unfold_locales, goal_cases)
  case (2 s t u)
  then show ?case by (rule extends_trans)
next
  case (3 g s t)
  then show ?case by (rule valid_mono)
next
  case (4 s a b)
  then show ?case using getAnd_spec by (auto simp: op_spec_def)
next
  case (5 s a b env)
  then show ?case by (rule getAnd_weak)
next
  case (6 s a b)
  then show ?case using getOr_keeps by blast
qed simp

section \<open>A small store\<close>

text \<open>Two atoms and their conjunction, for the concrete inputs below.\<close>

definition demo_x :: pathcond where "demo_x = AtomC 3 1 True"
definition demo_y :: pathcond where "demo_y = AtomC 4 2 True"
definition demo_xy :: pathcond where "demo_xy = AndC 5 demo_x demo_y"

definition demo_store :: pstore where
  "demo_store = snd (getAnd demo_x demo_y (snd (getAtom 2 True (snd (getAtom 1 True init_store)))))"

lemmas demo_defs = demo_x_def demo_y_def demo_xy_def

lemma demo_heap: "heap demo_store = [getTrue, getCappedTrue, getFalse, demo_x, demo_y, demo_xy]"
  by (simp add: demo_store_def demo_defs getAtom_def init_store_def getAnd_def tooDeep_def setDepth_def
      cacheKey_def Let_def)

lemma demo_valid: "valid demo_x demo_store" "valid demo_y demo_store" "valid demo_xy demo_store"
  by (simp_all add: valid_def demo_heap)

lemma demo_reachable: "reachable demo_store"
  unfolding demo_store_def
  by (intro reachable.intros)
    (simp_all add: demo_defs getAtom_def init_store_def valid_def Let_def)

lemma demo_inv: "store_inv demo_store"
  using reachable_keeps[OF demo_reachable] by simp

section \<open>Properties\<close>

text \<open>
  C25: In every store that is reachable by the factories, by depth and by clause counts with a
  positive cap, all objects are well built (no constant under an operator) and at most 101 deep,
  and the caches and the depth memo agree with the objects. Of the memo of clause counts only an
  upper bound is claimed: a memoised count belongs to an object and does not exceed its real
  count, but it may be smaller, when it was cut off at the cap of an earlier query.
\<close>

theorem reachable_store_ok:
  assumes "reachable s"
  shows "store_inv s \<and> memo_below s \<and> (\<forall>p \<in> set (heap s). well_built p \<and> depth p \<le> 101)"
  using reachable_keeps[OF assms] valid_well_built valid_depth unfolding valid_def by blast

theorem reachable_store_ok_witness: "depth demo_xy \<le> 101 \<and> store_inv demo_store"
proof -
  have "demo_xy \<in> set (heap demo_store)" by (simp add: demo_heap)
  then show ?thesis using reachable_store_ok[OF demo_reachable] by blast
qed

text \<open>
  C24: \<^verbatim>\<open>getAnd\<close> returns a condition equivalent to the conjunction of its operands, or
  the capped True; it allocates only, and keeps the store invariant.
\<close>

theorem getAnd_correct:
  assumes "store_inv s" "valid a s" "valid b s"
  shows "case getAnd a b s of (r, s') \<Rightarrow>
    store_inv s' \<and> extends s s' \<and> valid r s'
    \<and> (isCapped r \<or> (\<forall>env. peval env r = (peval env a \<and> peval env b)))"
  using getAnd_spec[OF assms] by (simp add: op_spec_def case_prod_beta)

theorem getAnd_correct_witness:
  "store_inv (snd (getAnd demo_xy demo_x demo_store))"
  using getAnd_correct[OF demo_inv demo_valid(3,1)] by (simp add: case_prod_beta)

text \<open>
  C22: \<^verbatim>\<open>getOr\<close> returns a condition equivalent to the disjunction of its operands, or the
  capped True, unless one operand's literals are a proper part of the other's.
\<close>

theorem getOr_correct:
  assumes "store_inv s" "valid a s" "valid b s" "\<not> absorbed a b"
  shows "case getOr a b s of (r, s') \<Rightarrow>
    store_inv s' \<and> extends s s' \<and> valid r s'
    \<and> (isCapped r \<or> (\<forall>env. peval env r = (peval env a \<or> peval env b)))"
  using getOr_exact[OF assms] by (simp add: op_spec_def case_prod_beta)

theorem getOr_correct_witness:
  "store_inv (snd (getOr demo_x demo_y demo_store))"
proof -
  have "\<not> absorbed demo_x demo_y" by (simp add: absorbed_def isAndSubset_iff demo_defs)
  from getOr_correct[OF demo_inv demo_valid(1,2) this] show ?thesis by (simp add: case_prod_beta)
qed

text \<open>
  C23: In the remaining case, two and-chains over different literals of which one contains
  the other, \<^verbatim>\<open>getOr\<close> returns the operand with more literals: the result is equivalent
  to the conjunction of the operands, not to their disjunction.
\<close>

theorem getOr_absorbs_to_conjunction:
  assumes "store_inv s" "valid a s" "valid b s" "absorbed a b"
  shows "getOr a b s = (if isAndSubset b a then a else b, s)
    \<and> (\<forall>env. peval env (fst (getOr a b s)) = (peval env a \<and> peval env b))"
  using getOr_absorbed(1)[OF assms] getOr_absorbed(2)[OF assms] by blast

theorem getOr_absorbs_to_conjunction_witness:
  "getOr demo_x demo_xy demo_store = (demo_xy, demo_store)
   \<and> (\<exists>env. peval env demo_x \<and> \<not> peval env (fst (getOr demo_x demo_xy demo_store)))"
proof -
  have "absorbed demo_x demo_xy" "\<not> isAndSubset demo_xy demo_x"
    by (auto simp: absorbed_def isAndSubset_iff demo_defs)
  then have g: "getOr demo_x demo_xy demo_store = (demo_xy, demo_store)"
    using getOr_absorbs_to_conjunction[OF demo_inv demo_valid(1,3)] by simp
  have "peval (\<lambda>i. i = 1) demo_x \<and> \<not> peval (\<lambda>i. i = 1) demo_xy" by (simp add: demo_defs)
  then show ?thesis unfolding g by auto
qed

text \<open>
  \<^verbatim>\<open>getAnd\<close> is hash-consed: asked again for the same two conditions, in either order,
  it returns the same object and allocates nothing.
\<close>

theorem getAnd_hash_consed:
  assumes "store_inv s" "valid a s" "valid b s" "\<not> isTrue a" "\<not> isTrue b" "\<not> isFalse a" "\<not> isFalse b"
    and "getAnd a b s = (r, s1)"
  shows "fst (getAnd b a s1) = r \<and> heap (snd (getAnd b a s1)) = heap s1"
  using getAnd_again[OF assms] .

theorem getAnd_hash_consed_witness:
  "fst (getAnd demo_y demo_x (snd (getAnd demo_x demo_y demo_store))) = fst (getAnd demo_x demo_y demo_store)"
  using getAnd_hash_consed[OF demo_inv demo_valid(1,2), of "fst (getAnd demo_x demo_y demo_store)"
      "snd (getAnd demo_x demo_y demo_store)"]
  by (simp add: demo_defs)

text \<open>
  The memo of \<^verbatim>\<open>depth\<close> is transparent: the value is the height of the condition
  whatever was computed before, nothing but the memo changes, and it never passes 101.
\<close>

theorem depth_transparent:
  assumes "store_inv s" "valid p s"
  shows "fst (depthM p s) = depth p \<and> memo_step s (snd (depthM p s)) \<and> store_inv (snd (depthM p s))
    \<and> fst (depthM p s) \<le> 101"
  using depthM_spec[OF assms] valid_depth[OF assms] by simp

theorem depth_transparent_witness: "fst (depthM demo_xy demo_store) = 2"
  using depth_transparent[OF demo_inv demo_valid(3)] by (simp add: demo_defs)

text \<open>
  \<^verbatim>\<open>clauseCount\<close> with a positive cap never exceeds the number of clauses of the
  expansion, and where the memo holds exact counts it is exact below the cap and reaches
  the cap above it.
\<close>

theorem clauseCount_correct:
  assumes "store_inv s" "valid p s" "0 < cap" "memo_below s"
  shows "fst (clauseCount p cap s) \<le> dnfCount p \<and> memo_below (snd (clauseCount p cap s))
    \<and> (memo_exact s \<longrightarrow>
         (if dnfCount p < cap then fst (clauseCount p cap s) = dnfCount p
          else cap \<le> fst (clauseCount p cap s)))"
  using clauseCount_ok[OF assms(1,2), of cap] assms(3,4) by (auto simp: count_ok_def)

theorem clauseCount_correct_witness: "fst (clauseCount demo_xy 4294967295 demo_store) = 1"
proof -
  have "clauseMemo demo_store = (\<lambda>_. None)"
    unfolding demo_store_def getAnd_clauseMemo by (simp add: getAtom_def init_store_def Let_def)
  then have "memo_below demo_store" "memo_exact demo_store"
    by (simp_all add: memo_below_def memo_exact_def)
  then show ?thesis
    using clauseCount_correct[OF demo_inv demo_valid(3), of 4294967295] by (simp add: demo_defs)
qed

text \<open>
  The memo of \<^verbatim>\<open>clauseCount\<close> forgets the cap it was computed under: after a call with
  cap 1 the disjunction of two atoms counts as one clause for every later cap.
\<close>

theorem clauseCount_stale:
  "case getOr demo_x demo_y demo_store of (r, s1) \<Rightarrow>
     case clauseCount r 1 s1 of (_, s2) \<Rightarrow>
       dnfCount r = 2 \<and> fst (clauseCount r 4294967295 s1) = 2 \<and> fst (clauseCount r 4294967295 s2) = 1"
proof -
  have m: "clauseMemo demo_store = (\<lambda>_. None)"
    unfolding demo_store_def getAnd_clauseMemo by (simp add: getAtom_def init_store_def Let_def)
  obtain r s1 where g: "getOr demo_x demo_y demo_store = (r, s1)" by fastforce
  have m1: "clauseMemo s1 = (\<lambda>_. None)" using getOr_clauseMemo[of demo_x demo_y demo_store] g m by simp
  have "\<exists>a. r = OrC a demo_x demo_y \<and> a \<noteq> 3 \<and> a \<noteq> 4"
    using g by (auto simp: getOr_def orHasChild_def isAndSubset_iff demo_defs numeral_eq_Suc demo_store_def
        getAtom_def init_store_def getAnd_def tooDeep_def setDepth_def cacheKey_def Let_def)
  then obtain a where "r = OrC a demo_x demo_y" "a \<noteq> 3" "a \<noteq> 4" by blast
  then show ?thesis unfolding g by (simp add: m1 setClauses_def) (simp add: demo_defs m1 setClauses_def)
qed

end
