(* ===== verification/WorkList.thy ===== *)
theory WorkList
  imports Prelude
begin

text \<open>
  \<^verbatim>\<open>src/SVF/svf/include/Util/WorkList.h\<close>: the three worklists of the solvers. Each keeps its
  elements twice, as a sequence and as a set for membership. \<^verbatim>\<open>Set<Data>\<close> is used for
  membership only, so it is a HOL set; a \<^verbatim>\<open>std::deque\<close> and a \<^verbatim>\<open>std::vector\<close> are lists, and
  the singly linked nodes of \<^verbatim>\<open>List\<close> are the list from \<^verbatim>\<open>head\<close> to \<^verbatim>\<open>tail\<close>. Taking an
  element from an empty worklist is an assertion failure, the result \<open>None\<close>.

  The locale \<open>worklist\<close> is what the solvers rely on; it is interpreted on the FIFO and on
  the FILO list. \<^verbatim>\<open>List\<close> does not satisfy it: see \<open>list_push_duplicates\<close>.
\<close>

section \<open>FIFOWorkList\<close>

record 'd fifo =
  data_set :: "'d set"
  data_list :: "'d list"

definition fifo_new :: "'d fifo" where
  "fifo_new = \<lparr>data_set = {}, data_list = []\<rparr>"

definition fifo_empty :: "'d fifo \<Rightarrow> bool" where
  "fifo_empty w \<longleftrightarrow> data_list w = []"

definition fifo_find :: "'d \<Rightarrow> 'd fifo \<Rightarrow> bool" where
  "fifo_find d w \<longleftrightarrow> d \<in> data_set w"

definition fifo_size :: "'d fifo \<Rightarrow> nat" where
  "fifo_size w = length (data_list w)"

definition fifo_push :: "'d \<Rightarrow> 'd fifo \<Rightarrow> bool \<times> 'd fifo" where
  "fifo_push d w =
     (if \<not> fifo_find d w
      then (True, w\<lparr>data_list := data_list w @ [d], data_set := insert d (data_set w)\<rparr>)
      else (False, w))"

definition fifo_of_vector :: "'d list \<Rightarrow> 'd fifo" where
  "fifo_of_vector vec = fold (\<lambda>d w. snd (fifo_push d w)) vec fifo_new"

definition fifo_front :: "'d fifo \<Rightarrow> 'd option" where
  "fifo_front w = (case data_list w of [] \<Rightarrow> None | d # _ \<Rightarrow> Some d)"

definition fifo_removeFront :: "'d fifo \<Rightarrow> 'd fifo option" where
  "fifo_removeFront w =
     (case fifo_front w of None \<Rightarrow> None
      | Some d \<Rightarrow> Some (w\<lparr>data_set := data_set w - {d}, data_list := tl (data_list w)\<rparr>))"

definition fifo_pop :: "'d fifo \<Rightarrow> ('d \<times> 'd fifo) option" where
  "fifo_pop w =
     (case data_list w of [] \<Rightarrow> None
      | d # ds \<Rightarrow> Some (d, w\<lparr>data_list := ds, data_set := data_set w - {d}\<rparr>))"

definition fifo_clear :: "'d fifo \<Rightarrow> 'd fifo" where
  "fifo_clear w = w\<lparr>data_list := [], data_set := {}\<rparr>"

section \<open>FILOWorkList\<close>

record 'd filo =
  lifo_set :: "'d set"
  lifo_list :: "'d list"

definition filo_new :: "'d filo" where
  "filo_new = \<lparr>lifo_set = {}, lifo_list = []\<rparr>"

definition filo_empty :: "'d filo \<Rightarrow> bool" where
  "filo_empty w \<longleftrightarrow> lifo_list w = []"

definition filo_find :: "'d \<Rightarrow> 'd filo \<Rightarrow> bool" where
  "filo_find d w \<longleftrightarrow> d \<in> lifo_set w"

definition filo_size :: "'d filo \<Rightarrow> nat" where
  "filo_size w = length (lifo_list w)"

definition filo_push :: "'d \<Rightarrow> 'd filo \<Rightarrow> bool \<times> 'd filo" where
  "filo_push d w =
     (if \<not> filo_find d w
      then (True, w\<lparr>lifo_list := lifo_list w @ [d], lifo_set := insert d (lifo_set w)\<rparr>)
      else (False, w))"

definition filo_of_vector :: "'d list \<Rightarrow> 'd filo" where
  "filo_of_vector vec = fold (\<lambda>d w. snd (filo_push d w)) vec filo_new"

definition filo_back :: "'d filo \<Rightarrow> 'd option" where
  "filo_back w = (if lifo_list w = [] then None else Some (last (lifo_list w)))"

definition filo_removeBack :: "'d filo \<Rightarrow> 'd filo option" where
  "filo_removeBack w =
     (case filo_back w of None \<Rightarrow> None
      | Some d \<Rightarrow> Some (w\<lparr>lifo_set := lifo_set w - {d}, lifo_list := butlast (lifo_list w)\<rparr>))"

definition filo_pop :: "'d filo \<Rightarrow> ('d \<times> 'd filo) option" where
  "filo_pop w =
     (if lifo_list w = [] then None
      else let d = last (lifo_list w) in
        Some (d, w\<lparr>lifo_list := butlast (lifo_list w), lifo_set := lifo_set w - {d}\<rparr>))"

definition filo_clear :: "'d filo \<Rightarrow> 'd filo" where
  "filo_clear w = w\<lparr>lifo_list := [], lifo_set := {}\<rparr>"

section \<open>List\<close>

text \<open>
  The linked list consults \<^verbatim>\<open>nodeSet\<close> in \<^verbatim>\<open>push\<close> and erases from it in \<^verbatim>\<open>pop\<close>; no
  operation inserts into it.
\<close>

record 'd linked =
  nodeSet :: "'d set"
  nodes :: "'d list"

definition list_new :: "'d linked" where
  "list_new = \<lparr>nodeSet = {}, nodes = []\<rparr>"

definition list_empty :: "'d linked \<Rightarrow> bool" where
  "list_empty w \<longleftrightarrow> nodes w = []"

definition list_find :: "'d \<Rightarrow> 'd linked \<Rightarrow> bool" where
  "list_find d w \<longleftrightarrow> d \<in> nodeSet w"

definition list_push :: "'d \<Rightarrow> 'd linked \<Rightarrow> 'd linked" where
  "list_push d w = (if d \<notin> nodeSet w then w\<lparr>nodes := nodes w @ [d]\<rparr> else w)"

definition list_pop :: "'d linked \<Rightarrow> ('d \<times> 'd linked) option" where
  "list_pop w =
     (case nodes w of [] \<Rightarrow> None
      | d # ds \<Rightarrow> Some (d, w\<lparr>nodes := ds, nodeSet := nodeSet w - {d}\<rparr>))"

section \<open>The interface of the solvers\<close>

locale worklist =
  fixes elems :: "'w \<Rightarrow> 'd list"
    and inv :: "'w \<Rightarrow> bool"
    and is_empty :: "'w \<Rightarrow> bool"
    and find :: "'d \<Rightarrow> 'w \<Rightarrow> bool"
    and push :: "'d \<Rightarrow> 'w \<Rightarrow> bool \<times> 'w"
    and pop :: "'w \<Rightarrow> ('d \<times> 'w) option"
  assumes distinct_elems: "inv w \<Longrightarrow> distinct (elems w)"
    and empty_iff: "inv w \<Longrightarrow> is_empty w \<longleftrightarrow> elems w = []"
    and find_iff: "inv w \<Longrightarrow> find d w \<longleftrightarrow> d \<in> set (elems w)"
    and inv_push: "inv w \<Longrightarrow> inv (snd (push d w))"
    and elems_push: "inv w \<Longrightarrow> set (elems (snd (push d w))) = insert d (set (elems w))"
    and push_new: "inv w \<Longrightarrow> fst (push d w) \<longleftrightarrow> d \<notin> set (elems w)"
    and pop_None: "inv w \<Longrightarrow> pop w = None \<longleftrightarrow> elems w = []"
    and pop_Some: "inv w \<Longrightarrow> pop w = Some (d, w') \<Longrightarrow>
      inv w' \<and> d \<in> set (elems w) \<and> set (elems w') = set (elems w) - {d}"
begin

definition pushAll :: "'d list \<Rightarrow> 'w \<Rightarrow> 'w" where
  "pushAll ds w = fold (\<lambda>d w. snd (push d w)) ds w"

lemma pushAll_spec:
  "inv w \<Longrightarrow> inv (pushAll ds w) \<and> set (elems (pushAll ds w)) = set ds \<union> set (elems w)"
  unfolding pushAll_def
  by (induction ds arbitrary: w) (auto simp: inv_push elems_push)

lemma pop_length: "inv w \<Longrightarrow> pop w = Some (d, w') \<Longrightarrow> length (elems w) = Suc (length (elems w'))"
proof -
  assume i: "inv w" and p: "pop w = Some (d, w')"
  note s = pop_Some[OF i p]
  have "length (elems w') = card (set (elems w) - {d})"
    using s distinct_elems[of w'] distinct_card[of "elems w'"] by simp
  then show ?thesis
    using s distinct_card[OF distinct_elems[OF i]] card_Suc_Diff1[of "set (elems w)" d] by simp
qed

fun drain :: "nat \<Rightarrow> 'w \<Rightarrow> 'd list \<times> 'w" where
  "drain 0 w = ([], w)"
| "drain (Suc n) w =
     (case pop w of None \<Rightarrow> ([], w)
      | Some (d, w') \<Rightarrow> (case drain n w' of (ds, v) \<Rightarrow> (d # ds, v)))"

lemma drain_spec:
  assumes "inv w" "length (elems w) \<le> n"
  shows "distinct (fst (drain n w)) \<and> set (fst (drain n w)) = set (elems w)
    \<and> elems (snd (drain n w)) = []"
  using assms
proof (induction n arbitrary: w)
  case (Suc n)
  show ?case
  proof (cases "pop w")
    case None
    then show ?thesis using pop_None[OF Suc.prems(1)] by simp
  next
    case (Some r)
    obtain d w' where r: "r = (d, w')" by fastforce
    note p = pop_Some[OF Suc.prems(1) Some[unfolded r]]
    have "length (elems w') \<le> n"
      using pop_length[OF Suc.prems(1) Some[unfolded r]] Suc.prems(2) by simp
    then have ih: "distinct (fst (drain n w')) \<and> set (fst (drain n w')) = set (elems w')
        \<and> elems (snd (drain n w')) = []"
      using Suc.IH[of w'] p by blast
    have "drain (Suc n) w = (d # fst (drain n w'), snd (drain n w'))"
      by (simp add: Some r case_prod_beta)
    then show ?thesis using ih p by auto
  qed
qed simp

end

text \<open>Which element \<open>pop\<close> takes: the oldest or the youngest.\<close>

locale fifo_worklist = worklist +
  assumes push_back: "inv w \<Longrightarrow> elems (snd (push d w)) = (if d \<in> set (elems w) then elems w else elems w @ [d])"
    and pop_first: "inv w \<Longrightarrow> pop w = Some (d, w') \<Longrightarrow> elems w = d # elems w'"
begin

lemma drain_order: "inv w \<Longrightarrow> length (elems w) \<le> n \<Longrightarrow> fst (drain n w) = elems w"
proof (induction n arbitrary: w)
  case (Suc n)
  show ?case
  proof (cases "pop w")
    case (Some r)
    obtain d w' where r: "r = (d, w')" by fastforce
    note p = pop_first[OF Suc.prems(1) Some[unfolded r]]
    have "inv w'" using pop_Some[OF Suc.prems(1) Some[unfolded r]] by blast
    then show ?thesis using Suc.IH[of w'] Suc.prems(2) p Some r by (simp add: case_prod_beta)
  qed (use pop_None[OF Suc.prems(1)] in simp)
qed simp

end

locale filo_worklist = worklist +
  assumes push_back: "inv w \<Longrightarrow> elems (snd (push d w)) = (if d \<in> set (elems w) then elems w else elems w @ [d])"
    and pop_last: "inv w \<Longrightarrow> pop w = Some (d, w') \<Longrightarrow> elems w = elems w' @ [d]"
begin

lemma drain_order: "inv w \<Longrightarrow> length (elems w) \<le> n \<Longrightarrow> fst (drain n w) = rev (elems w)"
proof (induction n arbitrary: w)
  case (Suc n)
  show ?case
  proof (cases "pop w")
    case (Some r)
    obtain d w' where r: "r = (d, w')" by fastforce
    note p = pop_last[OF Suc.prems(1) Some[unfolded r]]
    have "inv w'" using pop_Some[OF Suc.prems(1) Some[unfolded r]] by blast
    then show ?thesis using Suc.IH[of w'] Suc.prems(2) p Some r by (simp add: case_prod_beta)
  qed (use pop_None[OF Suc.prems(1)] in simp)
qed simp

end

section \<open>The two worklists satisfy it\<close>

definition fifo_inv :: "'d fifo \<Rightarrow> bool" where
  "fifo_inv w \<longleftrightarrow> distinct (data_list w) \<and> data_set w = set (data_list w)"

definition filo_inv :: "'d filo \<Rightarrow> bool" where
  "filo_inv w \<longleftrightarrow> distinct (lifo_list w) \<and> lifo_set w = set (lifo_list w)"

lemma fifo_inv_new: "fifo_inv fifo_new"
  by (simp add: fifo_inv_def fifo_new_def)

lemma filo_inv_new: "filo_inv filo_new"
  by (simp add: filo_inv_def filo_new_def)

lemma fifo_push_cases:
  "fifo_inv w \<Longrightarrow> fifo_push d w =
     (if d \<in> set (data_list w) then (False, w)
      else (True, w\<lparr>data_list := data_list w @ [d], data_set := insert d (data_set w)\<rparr>))"
  by (simp add: fifo_push_def fifo_find_def fifo_inv_def)

lemma fifo_push_inv: "fifo_inv w \<Longrightarrow> fifo_inv (snd (fifo_push d w))"
  by (simp add: fifo_push_cases) (simp add: fifo_inv_def)

lemma fifo_pop_Some:
  assumes "fifo_inv w" "fifo_pop w = Some (d, w')"
  shows "data_list w = d # data_list w' \<and> fifo_inv w'"
  using assms by (cases "data_list w") (auto simp: fifo_pop_def fifo_inv_def)

interpretation fifo: fifo_worklist data_list fifo_inv fifo_empty fifo_find fifo_push fifo_pop
proof
  fix w :: "'a fifo" and d w'
  assume i: "fifo_inv w"
  then show "distinct (data_list w)" "fifo_find d w \<longleftrightarrow> d \<in> set (data_list w)"
    by (simp_all add: fifo_inv_def fifo_find_def)
  show "fifo_empty w \<longleftrightarrow> data_list w = []" by (simp add: fifo_empty_def)
  show "fifo_inv (snd (fifo_push d w))" using i by (rule fifo_push_inv)
  show "set (data_list (snd (fifo_push d w))) = insert d (set (data_list w))"
    "fst (fifo_push d w) \<longleftrightarrow> d \<notin> set (data_list w)"
    "data_list (snd (fifo_push d w)) = (if d \<in> set (data_list w) then data_list w else data_list w @ [d])"
    by (auto simp: fifo_push_cases[OF i])
  show "fifo_pop w = None \<longleftrightarrow> data_list w = []" by (simp add: fifo_pop_def split: list.splits)
  assume p: "fifo_pop w = Some (d, w')"
  note s = fifo_pop_Some[OF i p]
  then show "data_list w = d # data_list w'" by simp
  show "fifo_inv w' \<and> d \<in> set (data_list w) \<and> set (data_list w') = set (data_list w) - {d}"
    using s i by (auto simp: fifo_inv_def)
qed

lemma last_butlast_notin: "distinct xs \<Longrightarrow> xs \<noteq> [] \<Longrightarrow> last xs \<notin> set (butlast xs)"
proof -
  assume "distinct xs" "xs \<noteq> []"
  then have "distinct (butlast xs @ [last xs])" by simp
  then show ?thesis by simp
qed

lemma set_butlast_distinct: "distinct xs \<Longrightarrow> xs \<noteq> [] \<Longrightarrow> set (butlast xs) = set xs - {last xs}"
proof -
  assume d: "distinct xs" and ne: "xs \<noteq> []"
  have "set xs = insert (last xs) (set (butlast xs))"
    using arg_cong[OF append_butlast_last_id[OF ne], of set] by auto
  then show ?thesis using last_butlast_notin[OF d ne] by auto
qed

lemma filo_push_cases:
  "filo_inv w \<Longrightarrow> filo_push d w =
     (if d \<in> set (lifo_list w) then (False, w)
      else (True, w\<lparr>lifo_list := lifo_list w @ [d], lifo_set := insert d (lifo_set w)\<rparr>))"
  by (simp add: filo_push_def filo_find_def filo_inv_def)

lemma filo_push_inv: "filo_inv w \<Longrightarrow> filo_inv (snd (filo_push d w))"
  by (simp add: filo_push_cases) (simp add: filo_inv_def)

lemma filo_pop_Some:
  assumes "filo_inv w" "filo_pop w = Some (d, w')"
  shows "lifo_list w = lifo_list w' @ [d] \<and> filo_inv w'"
proof -
  have ne: "lifo_list w \<noteq> []" and d: "d = last (lifo_list w)"
    and w': "w' = w\<lparr>lifo_list := butlast (lifo_list w), lifo_set := lifo_set w - {d}\<rparr>"
    using assms(2) by (auto simp: filo_pop_def Let_def split: if_splits)
  then show ?thesis
    using assms(1) by (simp add: filo_inv_def distinct_butlast set_butlast_distinct)
qed

interpretation filo: filo_worklist lifo_list filo_inv filo_empty filo_find filo_push filo_pop
proof
  fix w :: "'a filo" and d w'
  assume i: "filo_inv w"
  then show "distinct (lifo_list w)" "filo_find d w \<longleftrightarrow> d \<in> set (lifo_list w)"
    by (simp_all add: filo_inv_def filo_find_def)
  show "filo_empty w \<longleftrightarrow> lifo_list w = []" by (simp add: filo_empty_def)
  show "filo_inv (snd (filo_push d w))" using i by (rule filo_push_inv)
  show "set (lifo_list (snd (filo_push d w))) = insert d (set (lifo_list w))"
    "fst (filo_push d w) \<longleftrightarrow> d \<notin> set (lifo_list w)"
    "lifo_list (snd (filo_push d w)) = (if d \<in> set (lifo_list w) then lifo_list w else lifo_list w @ [d])"
    by (auto simp: filo_push_cases[OF i])
  show "filo_pop w = None \<longleftrightarrow> lifo_list w = []" by (simp add: filo_pop_def Let_def)
  assume p: "filo_pop w = Some (d, w')"
  note s = filo_pop_Some[OF i p]
  then show "lifo_list w = lifo_list w' @ [d]" by simp
  show "filo_inv w' \<and> d \<in> set (lifo_list w) \<and> set (lifo_list w') = set (lifo_list w) - {d}"
    using s i by (auto simp: filo_inv_def)
qed

lemma list_pushes_nodeSet: "nodeSet (fold list_push ds w) = nodeSet w"
  by (induction ds arbitrary: w) (auto simp: list_push_def)

section \<open>Properties\<close>

text \<open>
  A FIFO worklist filled from a vector holds the vector's elements once each, in the order
  of their first occurrence, and popping until it is empty returns them in that order.
\<close>

theorem fifo_worklist_order:
  "data_list (fifo_of_vector vec) = rev (remdups (rev vec))
   \<and> fst (fifo.drain (length vec) (fifo_of_vector vec)) = rev (remdups (rev vec))
   \<and> fifo_inv (fifo_of_vector vec)"
proof -
  have inv: "fifo_inv (fifo_of_vector vec)"
    using fifo.pushAll_spec[OF fifo_inv_new, of vec] by (simp add: fifo_of_vector_def fifo.pushAll_def)
  have order: "data_list (fifo_of_vector vec) = rev (remdups (rev vec))"
  proof (induction vec rule: rev_induct)
    case Nil
    show ?case by (simp add: fifo_of_vector_def fifo_new_def)
  next
    case (snoc x xs)
    have "fifo_inv (fifo_of_vector xs)"
      using fifo.pushAll_spec[OF fifo_inv_new, of xs] by (simp add: fifo_of_vector_def fifo.pushAll_def)
    from fifo.push_back[OF this, of x] show ?case using snoc by (auto simp: fifo_of_vector_def)
  qed
  have "length (data_list (fifo_of_vector vec)) \<le> length vec"
    using length_remdups_leq[of "rev vec"] by (simp add: order)
  from fifo.drain_order[OF inv this] show ?thesis using inv order by simp
qed

text \<open>
  The FILO worklist keeps its elements distinct and equal to its set under every push and
  pop, and draining it returns each element once, youngest first.
\<close>

theorem filo_worklist_order:
  "filo_inv (filo_of_vector vec)
   \<and> fst (filo.drain (length vec) (filo_of_vector vec)) = remdups (rev vec)"
proof -
  have inv: "filo_inv (filo_of_vector vec)" for vec :: "'a list"
    using filo.pushAll_spec[OF filo_inv_new, of vec] by (simp add: filo_of_vector_def filo.pushAll_def)
  have order: "lifo_list (filo_of_vector vec) = rev (remdups (rev vec))"
  proof (induction vec rule: rev_induct)
    case (snoc x xs)
    from filo.push_back[OF inv, of x xs] show ?case using snoc by (auto simp: filo_of_vector_def)
  qed (simp add: filo_of_vector_def filo_new_def)
  have "length (lifo_list (filo_of_vector vec)) \<le> length vec"
    using length_remdups_leq[of "rev vec"] by (simp add: order)
  from filo.drain_order[OF inv this] show ?thesis using inv order by simp
qed

text \<open>
  \<^verbatim>\<open>List\<close> does not keep its elements unique: pushing an element twice into a new list
  stores it twice, and \<^verbatim>\<open>find\<close> never finds anything.
\<close>

theorem list_push_duplicates:
  "nodes (list_push d (list_push d list_new)) = [d, d] \<and> \<not> list_find e (fold list_push ds list_new)"
  by (simp add: list_find_def list_pushes_nodeSet) (simp add: list_push_def list_new_def)

end
