(* ===== verification/PTData.thy ===== *)
theory PTData
  imports Prelude
begin

text \<open>
  \<^verbatim>\<open>src/SVF/svf/include/MemoryModel/MutablePointsToDS.h\<close>: \<^verbatim>\<open>MutablePTData\<close>, the points-to map
  with its optional reverse map, and \<^verbatim>\<open>MutableDiffPTData\<close>, which adds the sets of
  difference propagation.

  The maps are total functions: every access of the code is through \<^verbatim>\<open>operator[]\<close>, which
  creates the empty set for a new key. Points-to sets (and the \<^verbatim>\<open>NodeSet\<close>s of the reverse
  map) are \<open>oset\<close>s.

  The locale \<open>points_to\<close> is what the analyses rely on. Main results: the reverse map
  is the converse of the points-to map under every operation, and difference propagation
  accounts for every element exactly once.
\<close>

section \<open>MutablePTData\<close>

record ('k, 'd) ptdata =
  rev_on :: bool
  ptsMap :: "'k \<Rightarrow> 'd oset"
  revPtsMap :: "'d \<Rightarrow> 'k oset"

definition pt_new :: "bool \<Rightarrow> ('k, 'd) ptdata" where
  "pt_new reversePT = \<lparr>rev_on = reversePT, ptsMap = (\<lambda>_. []), revPtsMap = (\<lambda>_. [])\<rparr>"

definition pt_clear :: "('k, 'd) ptdata \<Rightarrow> ('k, 'd) ptdata" where
  "pt_clear m = m\<lparr>ptsMap := (\<lambda>_. []), revPtsMap := (\<lambda>_. [])\<rparr>"

definition oset_remove :: "'a \<Rightarrow> 'a oset \<Rightarrow> 'a oset" where
  "oset_remove x s = filter (\<lambda>y. y \<noteq> x) s"

text \<open>\<^verbatim>\<open>test_and_set\<close> and \<^verbatim>\<open>operator|=\<close> of the set: the flag says whether it changed.\<close>

definition test_and_set :: "'d::linorder \<Rightarrow> 'd oset \<Rightarrow> bool \<times> 'd oset" where
  "test_and_set d s = (d \<notin> set s, oset_insert d s)"

definition oset_union :: "'d::linorder oset \<Rightarrow> 'd oset \<Rightarrow> bool \<times> 'd oset" where
  "oset_union s t = (\<not> set t \<subseteq> set s, oset_insert_all t s)"

definition addSingleRevPts :: "'d \<Rightarrow> 'k::linorder \<Rightarrow> ('k, 'd) ptdata \<Rightarrow> ('k, 'd) ptdata" where
  "addSingleRevPts d k m =
     (if rev_on m then m\<lparr>revPtsMap := (revPtsMap m)(d := oset_insert k (revPtsMap m d))\<rparr> else m)"

definition addRevPts :: "'d oset \<Rightarrow> 'k::linorder \<Rightarrow> ('k, 'd) ptdata \<Rightarrow> ('k, 'd) ptdata" where
  "addRevPts ds k m = (if rev_on m then fold (\<lambda>d m'. addSingleRevPts d k m') ds m else m)"

definition clearSingleRevPts :: "'d \<Rightarrow> 'k \<Rightarrow> ('k, 'd) ptdata \<Rightarrow> ('k, 'd) ptdata" where
  "clearSingleRevPts d k m =
     (if rev_on m then m\<lparr>revPtsMap := (revPtsMap m)(d := oset_remove k (revPtsMap m d))\<rparr> else m)"

definition clearRevPts :: "'d oset \<Rightarrow> 'k \<Rightarrow> ('k, 'd) ptdata \<Rightarrow> ('k, 'd) ptdata" where
  "clearRevPts ds k m = (if rev_on m then fold (\<lambda>d m'. clearSingleRevPts d k m') ds m else m)"

definition pt_addPts :: "'k::linorder \<Rightarrow> 'd::linorder \<Rightarrow> ('k, 'd) ptdata \<Rightarrow> bool \<times> ('k, 'd) ptdata" where
  "pt_addPts k d m =
     (let m1 = addSingleRevPts d k m;
          (changed, s) = test_and_set d (ptsMap m1 k)
      in (changed, m1\<lparr>ptsMap := (ptsMap m1)(k := s)\<rparr>))"

definition pt_unionPts :: "'k::linorder \<Rightarrow> 'd::linorder oset \<Rightarrow> ('k, 'd) ptdata \<Rightarrow> bool \<times> ('k, 'd) ptdata" where
  "pt_unionPts k ds m =
     (let m1 = addRevPts ds k m;
          (changed, s) = oset_union (ptsMap m1 k) ds
      in (changed, m1\<lparr>ptsMap := (ptsMap m1)(k := s)\<rparr>))"

definition pt_unionKey :: "'k::linorder \<Rightarrow> 'k \<Rightarrow> ('k, 'd::linorder) ptdata \<Rightarrow> bool \<times> ('k, 'd) ptdata" where
  "pt_unionKey dst src m =
     (let m1 = addRevPts (ptsMap m src) dst m;
          (changed, s) = oset_union (ptsMap m1 dst) (ptsMap m1 src)
      in (changed, m1\<lparr>ptsMap := (ptsMap m1)(dst := s)\<rparr>))"

definition pt_clearPts :: "'k \<Rightarrow> 'd \<Rightarrow> ('k, 'd) ptdata \<Rightarrow> ('k, 'd) ptdata" where
  "pt_clearPts k d m =
     (let m1 = clearSingleRevPts d k m
      in m1\<lparr>ptsMap := (ptsMap m1)(k := oset_remove d (ptsMap m1 k))\<rparr>)"

definition pt_clearFullPts :: "'k \<Rightarrow> ('k, 'd) ptdata \<Rightarrow> ('k, 'd) ptdata" where
  "pt_clearFullPts k m =
     (let m1 = clearRevPts (ptsMap m k) k m in m1\<lparr>ptsMap := (ptsMap m1)(k := [])\<rparr>)"

section \<open>MutableDiffPTData\<close>

record ('k, 'd) diffdata =
  mutPTData :: "('k, 'd) ptdata"
  diffPtsMap :: "'k \<Rightarrow> 'd oset"
  propaPtsMap :: "'k \<Rightarrow> 'd oset"

definition dd_new :: "bool \<Rightarrow> ('k, 'd) diffdata" where
  "dd_new reversePT =
     \<lparr>mutPTData = pt_new reversePT, diffPtsMap = (\<lambda>_. []), propaPtsMap = (\<lambda>_. [])\<rparr>"

definition dd_getPts :: "('k, 'd) diffdata \<Rightarrow> 'k \<Rightarrow> 'd oset" where
  "dd_getPts s k = ptsMap (mutPTData s) k"

definition dd_getRevPts :: "('k, 'd) diffdata \<Rightarrow> 'd \<Rightarrow> 'k oset" where
  "dd_getRevPts s d = revPtsMap (mutPTData s) d"

definition dd_addPts :: "'k::linorder \<Rightarrow> 'd::linorder \<Rightarrow> ('k, 'd) diffdata \<Rightarrow> bool \<times> ('k, 'd) diffdata" where
  "dd_addPts k d s = (case pt_addPts k d (mutPTData s) of (c, m) \<Rightarrow> (c, s\<lparr>mutPTData := m\<rparr>))"

definition dd_unionPts :: "'k::linorder \<Rightarrow> 'd::linorder oset \<Rightarrow> ('k, 'd) diffdata \<Rightarrow> bool \<times> ('k, 'd) diffdata" where
  "dd_unionPts k ds s = (case pt_unionPts k ds (mutPTData s) of (c, m) \<Rightarrow> (c, s\<lparr>mutPTData := m\<rparr>))"

definition dd_unionKey :: "'k::linorder \<Rightarrow> 'k \<Rightarrow> ('k, 'd::linorder) diffdata \<Rightarrow> bool \<times> ('k, 'd) diffdata" where
  "dd_unionKey dst src s = (case pt_unionKey dst src (mutPTData s) of (c, m) \<Rightarrow> (c, s\<lparr>mutPTData := m\<rparr>))"

definition dd_clearPts :: "'k \<Rightarrow> 'd \<Rightarrow> ('k, 'd) diffdata \<Rightarrow> ('k, 'd) diffdata" where
  "dd_clearPts k d s = s\<lparr>mutPTData := pt_clearPts k d (mutPTData s)\<rparr>"

definition dd_clearFullPts :: "'k \<Rightarrow> ('k, 'd) diffdata \<Rightarrow> ('k, 'd) diffdata" where
  "dd_clearFullPts k s = s\<lparr>mutPTData := pt_clearFullPts k (mutPTData s)\<rparr>"

definition dd_clear :: "('k, 'd) diffdata \<Rightarrow> ('k, 'd) diffdata" where
  "dd_clear s = s\<lparr>mutPTData := pt_clear (mutPTData s)\<rparr>"

definition getDiffPts :: "('k, 'd) diffdata \<Rightarrow> 'k \<Rightarrow> 'd oset" where
  "getDiffPts s k = diffPtsMap s k"

definition computeDiffPts :: "'k \<Rightarrow> 'd oset \<Rightarrow> ('k, 'd) diffdata \<Rightarrow> bool \<times> ('k, 'd) diffdata" where
  "computeDiffPts k all s =
     (let diff = filter (\<lambda>d. d \<notin> set (propaPtsMap s k)) all in
      (diff \<noteq> [], s\<lparr>diffPtsMap := (diffPtsMap s)(k := diff), propaPtsMap := (propaPtsMap s)(k := all)\<rparr>))"

definition updatePropaPtsMap :: "'k \<Rightarrow> 'k \<Rightarrow> ('k, 'd) diffdata \<Rightarrow> ('k, 'd) diffdata" where
  "updatePropaPtsMap src dst s =
     s\<lparr>propaPtsMap := (propaPtsMap s)(dst :=
         filter (\<lambda>d. d \<in> set (propaPtsMap s src)) (propaPtsMap s dst))\<rparr>"

definition clearPropaPts :: "'k \<Rightarrow> ('k, 'd) diffdata \<Rightarrow> ('k, 'd) diffdata" where
  "clearPropaPts k s = s\<lparr>propaPtsMap := (propaPtsMap s)(k := [])\<rparr>"

section \<open>Sets\<close>

lemma set_oset_remove [simp]: "set (oset_remove x s) = set s - {x}"
  by (auto simp: oset_remove_def)

lemma oset_inv_remove [simp, intro]: "oset_inv s \<Longrightarrow> oset_inv (oset_remove x s)"
  by (simp add: oset_remove_def)

lemma test_and_set_simps [simp]:
  "fst (test_and_set d s) \<longleftrightarrow> d \<notin> set s" "snd (test_and_set d s) = oset_insert d s"
  by (simp_all add: test_and_set_def)

lemma oset_union_simps [simp]:
  "fst (oset_union s t) \<longleftrightarrow> \<not> set t \<subseteq> set s" "snd (oset_union s t) = oset_insert_all t s"
  by (simp_all add: oset_union_def)

section \<open>The reverse map\<close>

definition pt_inv :: "('k::linorder, 'd::linorder) ptdata \<Rightarrow> bool" where
  "pt_inv m \<longleftrightarrow>
     (\<forall>k. oset_inv (ptsMap m k)) \<and> (\<forall>d. oset_inv (revPtsMap m d))
     \<and> (rev_on m \<longrightarrow> (\<forall>k d. k \<in> set (revPtsMap m d) \<longleftrightarrow> d \<in> set (ptsMap m k)))"

lemma pt_inv_new [simp]: "pt_inv (pt_new r)" "pt_inv (pt_clear m)"
  by (simp_all add: pt_inv_def pt_new_def pt_clear_def)

lemma addSingleRevPts_simps [simp]:
  "ptsMap (addSingleRevPts d k m) = ptsMap m" "rev_on (addSingleRevPts d k m) = rev_on m"
  by (simp_all add: addSingleRevPts_def)

lemma addRevPts_simps [simp]:
  "ptsMap (addRevPts ds k m) = ptsMap m" "rev_on (addRevPts ds k m) = rev_on m"
proof -
  have "ptsMap (fold (\<lambda>d m'. addSingleRevPts d k m') ds m) = ptsMap m
    \<and> rev_on (fold (\<lambda>d m'. addSingleRevPts d k m') ds m) = rev_on m"
    by (induction ds arbitrary: m) auto
  then show "ptsMap (addRevPts ds k m) = ptsMap m" "rev_on (addRevPts ds k m) = rev_on m"
    by (simp_all add: addRevPts_def)
qed

lemma addRevPts_rev:
  assumes "rev_on m"
  shows "set (revPtsMap (addRevPts ds k m) d) = (if d \<in> set ds then insert k else id) (set (revPtsMap m d))
    \<and> (oset_inv (revPtsMap m d) \<longrightarrow> oset_inv (revPtsMap (addRevPts ds k m) d))"
proof -
  have "set (revPtsMap (fold (\<lambda>d m'. addSingleRevPts d k m') ds m) d)
      = (if d \<in> set ds then insert k else id) (set (revPtsMap m d))
    \<and> (oset_inv (revPtsMap m d) \<longrightarrow> oset_inv (revPtsMap (fold (\<lambda>d m'. addSingleRevPts d k m') ds m) d))"
    using assms
  proof (induction ds arbitrary: m)
    case (Cons e es)
    have "rev_on (addSingleRevPts e k m)" using Cons.prems by simp
    from Cons.IH[OF this] show ?case
      using Cons.prems by (auto simp: addSingleRevPts_def split: if_splits)
  qed simp
  then show ?thesis using assms by (simp add: addRevPts_def)
qed

lemma clearRevPts_simps [simp]:
  "ptsMap (clearRevPts ds k m) = ptsMap m" "rev_on (clearRevPts ds k m) = rev_on m"
proof -
  have "ptsMap (fold (\<lambda>d m'. clearSingleRevPts d k m') ds m) = ptsMap m
    \<and> rev_on (fold (\<lambda>d m'. clearSingleRevPts d k m') ds m) = rev_on m"
    by (induction ds arbitrary: m) (auto simp: clearSingleRevPts_def)
  then show "ptsMap (clearRevPts ds k m) = ptsMap m" "rev_on (clearRevPts ds k m) = rev_on m"
    by (simp_all add: clearRevPts_def)
qed

lemma clearRevPts_rev:
  assumes "rev_on m"
  shows "set (revPtsMap (clearRevPts ds k m) d) = set (revPtsMap m d) - (if d \<in> set ds then {k} else {})
    \<and> (oset_inv (revPtsMap m d) \<longrightarrow> oset_inv (revPtsMap (clearRevPts ds k m) d))"
proof -
  have "set (revPtsMap (fold (\<lambda>d m'. clearSingleRevPts d k m') ds m) d)
      = set (revPtsMap m d) - (if d \<in> set ds then {k} else {})
    \<and> (oset_inv (revPtsMap m d) \<longrightarrow> oset_inv (revPtsMap (fold (\<lambda>d m'. clearSingleRevPts d k m') ds m) d))"
    using assms
  proof (induction ds arbitrary: m)
    case (Cons e es)
    have "rev_on (clearSingleRevPts e k m)" using Cons.prems by (simp add: clearSingleRevPts_def)
    from Cons.IH[OF this] show ?case
      using Cons.prems by (auto simp: clearSingleRevPts_def split: if_splits)
  qed simp
  then show ?thesis using assms by (simp add: clearRevPts_def)
qed

lemma addRevPts_single: "addSingleRevPts d k m = addRevPts [d] k m"
  by (simp add: addRevPts_def addSingleRevPts_def)

lemma clearRevPts_single: "clearSingleRevPts d k m = clearRevPts [d] k m"
  by (simp add: clearRevPts_def clearSingleRevPts_def)

lemma pt_addPts_union: "pt_addPts k d m = pt_unionPts k [d] m"
  by (simp add: pt_addPts_def pt_unionPts_def addRevPts_single test_and_set_def oset_union_def)

lemma pt_unionKey_union: "pt_unionKey dst src m = pt_unionPts dst (ptsMap m src) m"
  by (simp add: pt_unionKey_def pt_unionPts_def)

lemma pt_unionPts_simps:
  "fst (pt_unionPts k ds m) \<longleftrightarrow> \<not> set ds \<subseteq> set (ptsMap m k)"
  "ptsMap (snd (pt_unionPts k ds m)) = (ptsMap m)(k := oset_insert_all ds (ptsMap m k))"
  "revPtsMap (snd (pt_unionPts k ds m)) = revPtsMap (addRevPts ds k m)"
  "rev_on (snd (pt_unionPts k ds m)) = rev_on m"
  by (simp_all add: pt_unionPts_def case_prod_beta Let_def)

lemma addRevPts_off: "\<not> rev_on m \<Longrightarrow> addRevPts ds k m = m"
  by (simp add: addRevPts_def)

lemma clearRevPts_off: "\<not> rev_on m \<Longrightarrow> clearRevPts ds k m = m"
  by (simp add: clearRevPts_def)

lemma pt_inv_unionPts: "pt_inv m \<Longrightarrow> pt_inv (snd (pt_unionPts k ds m))"
  by (cases "rev_on m")
    (auto simp: pt_inv_def pt_unionPts_simps addRevPts_off addRevPts_rev split: if_splits)

lemma pt_inv_clearPts: "pt_inv m \<Longrightarrow> pt_inv (pt_clearPts k d m)"
  unfolding pt_clearPts_def clearRevPts_single Let_def
  by (cases "rev_on m") (auto simp: pt_inv_def clearRevPts_off clearRevPts_rev)

lemma pt_inv_clearFullPts: "pt_inv m \<Longrightarrow> pt_inv (pt_clearFullPts k m)"
  unfolding pt_clearFullPts_def Let_def
  by (cases "rev_on m") (auto simp: pt_inv_def clearRevPts_off clearRevPts_rev)

lemma clearPts_simps:
  "ptsMap (pt_clearPts k d m) = (ptsMap m)(k := oset_remove d (ptsMap m k))"
  "ptsMap (pt_clearFullPts k m) = (ptsMap m)(k := [])"
  by (simp_all add: pt_clearPts_def pt_clearFullPts_def clearRevPts_single Let_def)

section \<open>The interface of the analyses\<close>

locale points_to =
  fixes inv :: "'s \<Rightarrow> bool"
    and pts :: "'s \<Rightarrow> 'k \<Rightarrow> 'd::linorder oset"
    and unionPts :: "'k \<Rightarrow> 'd oset \<Rightarrow> 's \<Rightarrow> bool \<times> 's"
    and addPts :: "'k \<Rightarrow> 'd \<Rightarrow> 's \<Rightarrow> bool \<times> 's"
    and clearPts :: "'k \<Rightarrow> 'd \<Rightarrow> 's \<Rightarrow> 's"
  assumes pts_oset: "inv s \<Longrightarrow> oset_inv (pts s k)"
    and union_inv: "inv s \<Longrightarrow> inv (snd (unionPts k ds s))"
    and union_pts: "inv s \<Longrightarrow> set (pts (snd (unionPts k ds s)) k') =
      (if k' = k then set (pts s k) \<union> set ds else set (pts s k'))"
    and union_changed: "inv s \<Longrightarrow> fst (unionPts k ds s) \<longleftrightarrow> \<not> set ds \<subseteq> set (pts s k)"
    and add_union: "addPts k d s = unionPts k [d] s"
    and clear_inv: "inv s \<Longrightarrow> inv (clearPts k d s)"
    and clear_pts: "inv s \<Longrightarrow> set (pts (clearPts k d s) k') =
      (if k' = k then set (pts s k) - {d} else set (pts s k'))"
begin

lemma add_inv: "inv s \<Longrightarrow> inv (snd (addPts k d s))"
  by (simp add: add_union union_inv)

lemma add_pts: "inv s \<Longrightarrow> set (pts (snd (addPts k d s)) k') =
    (if k' = k then insert d (set (pts s k)) else set (pts s k'))"
  by (auto simp: add_union union_pts)

lemma union_mono: "inv s \<Longrightarrow> set (pts s k') \<subseteq> set (pts (snd (unionPts k ds s)) k')"
  by (auto simp: union_pts)

text \<open>A set is unchanged, as a list, when the union says so.\<close>

lemma union_unchanged:
  assumes "inv s" "\<not> fst (unionPts k ds s)"
  shows "pts (snd (unionPts k ds s)) k' = pts s k'"
proof -
  have "set (pts (snd (unionPts k ds s)) k') = set (pts s k')"
    using assms by (auto simp: union_pts union_changed)
  then show ?thesis using oset_eq_iff[OF pts_oset[OF union_inv[OF assms(1)]] pts_oset[OF assms(1)]] by blast
qed

text \<open>Moving an element of a set: what \<^verbatim>\<open>collapseField\<close> does for every pointer to a field.\<close>

lemma move_pts:
  assumes "inv s"
  shows "set (pts (snd (addPts k b (clearPts k f s))) k') =
    (if k' = k then insert b (set (pts s k) - {f}) else set (pts s k'))"
  using assms by (simp add: add_pts clear_inv clear_pts)

end

definition dd_inv :: "('k::linorder, 'd::linorder) diffdata \<Rightarrow> bool" where
  "dd_inv s \<longleftrightarrow> pt_inv (mutPTData s)"

lemma dd_unionPts_simps:
  "fst (dd_unionPts k ds s) = fst (pt_unionPts k ds (mutPTData s))"
  "mutPTData (snd (dd_unionPts k ds s)) = snd (pt_unionPts k ds (mutPTData s))"
  "diffPtsMap (snd (dd_unionPts k ds s)) = diffPtsMap s"
  "propaPtsMap (snd (dd_unionPts k ds s)) = propaPtsMap s"
  by (simp_all add: dd_unionPts_def case_prod_beta)

interpretation mut: points_to pt_inv ptsMap pt_unionPts pt_addPts pt_clearPts
  by unfold_locales
    (simp_all add: pt_inv_unionPts pt_unionPts_simps pt_addPts_union pt_inv_clearPts clearPts_simps
      Un_commute, simp add: pt_inv_def)

interpretation dd: points_to dd_inv dd_getPts dd_unionPts dd_addPts dd_clearPts
proof (unfold_locales, goal_cases)
  case 1
  then show ?case by (simp add: dd_inv_def dd_getPts_def mut.pts_oset)
qed (simp_all add: dd_inv_def dd_getPts_def dd_unionPts_simps mut.union_inv mut.union_pts mut.union_changed
    dd_addPts_def dd_unionPts_def mut.add_union dd_clearPts_def mut.clear_inv mut.clear_pts case_prod_beta)

section \<open>Properties\<close>

text \<open>
  C38: The reverse map of \<^verbatim>\<open>MutablePTData\<close> is the converse of the points-to map: adding,
  unioning (with a set or with the set of a key), removing an element and clearing a key
  keep it so, and keep every set ordered.
\<close>

theorem ptdata_reverse:
  assumes "pt_inv m"
  shows "pt_inv (snd (pt_addPts k d m)) \<and> pt_inv (snd (pt_unionPts k ds m))
    \<and> pt_inv (snd (pt_unionKey k k' m)) \<and> pt_inv (pt_clearPts k d m) \<and> pt_inv (pt_clearFullPts k m)"
  using assms
  by (simp add: pt_addPts_union pt_unionKey_union pt_inv_unionPts pt_inv_clearPts pt_inv_clearFullPts)

theorem ptdata_reverse_witness:
  "let m = snd (pt_addPts (1::nat) (7::nat) (pt_new True)) in 1 \<in> set (revPtsMap m 7) \<and> pt_inv m"
proof -
  have "pt_inv (snd (pt_addPts (1::nat) (7::nat) (pt_new True)))"
    using ptdata_reverse[OF pt_inv_new(1)[of True], of 1 7] by blast
  moreover have "1 \<in> set (revPtsMap (snd (pt_addPts (1::nat) (7::nat) (pt_new True))) 7)"
    by (simp add: pt_addPts_def pt_new_def addSingleRevPts_def test_and_set_def)
  ultimately show ?thesis by (simp add: Let_def)
qed

text \<open>
  \<^verbatim>\<open>unionPts\<close> makes the set of one key the union, leaves every other key alone, and
  reports a change exactly when the set grew.
\<close>

theorem unionPts_correct:
  assumes "dd_inv s"
  shows "set (dd_getPts (snd (dd_unionPts k ds s)) k') =
      (if k' = k then set (dd_getPts s k) \<union> set ds else set (dd_getPts s k'))
    \<and> (fst (dd_unionPts k ds s) \<longleftrightarrow> dd_getPts (snd (dd_unionPts k ds s)) k \<noteq> dd_getPts s k)
    \<and> dd_inv (snd (dd_unionPts k ds s))"
proof -
  have "dd_getPts (snd (dd_unionPts k ds s)) k \<noteq> dd_getPts s k" if "fst (dd_unionPts k ds s)"
    using that dd.union_pts[OF assms, of k ds k] by (auto simp: dd.union_changed[OF assms])
  then show ?thesis
    using dd.union_pts[OF assms, of k ds k'] dd.union_unchanged[OF assms, of k ds k]
      dd.union_inv[OF assms, of k ds] by blast
qed

theorem unionPts_correct_witness:
  "set (dd_getPts (snd (dd_unionPts (1::nat) [3, 5::nat] (dd_new True))) 1) = {3, 5}"
proof -
  have "dd_inv (dd_new True :: (nat, nat) diffdata)" by (simp add: dd_inv_def dd_new_def)
  from unionPts_correct[OF this, of 1 "[3, 5]" 1] show ?thesis
    by (simp add: dd_getPts_def dd_new_def pt_new_def)
qed

text \<open>
  Difference propagation loses nothing: after \<^verbatim>\<open>computeDiffPts\<close> on the current set the
  difference holds exactly the elements not propagated before, and together with them makes up
  the set; a second call without a change yields the empty difference.
\<close>

theorem computeDiffPts_correct:
  assumes "computeDiffPts k all s = (b, s')"
  shows "set (getDiffPts s' k) = set all - set (propaPtsMap s k)
    \<and> set all \<subseteq> set (getDiffPts s' k) \<union> set (propaPtsMap s k)
    \<and> propaPtsMap s' k = all \<and> (b \<longleftrightarrow> getDiffPts s' k \<noteq> [])
    \<and> \<not> fst (computeDiffPts k all s') \<and> dd_getPts s' = dd_getPts s"
  using assms
  by (auto simp: computeDiffPts_def getDiffPts_def Let_def dd_getPts_def fun_eq_iff filter_empty_conv)

theorem computeDiffPts_correct_witness:
  "fst (computeDiffPts (1::nat) [2, 3::nat] (dd_new True))"
  using computeDiffPts_correct[of 1 "[2, 3::nat]" "dd_new True" True
      "snd (computeDiffPts (1::nat) [2, 3::nat] (dd_new True))"]
  by (simp add: computeDiffPts_def dd_new_def Let_def)

end
