(* ===== verification/ObjectTable.thy ===== *)
theory ObjectTable
  imports Prelude "HOL-Library.Monad_Syntax"
begin

text \<open>
  The memory objects of the SVFIR, as the pointer analyses see them: \<^verbatim>\<open>getBaseObject\<close>,
  \<^verbatim>\<open>getGepObjVar\<close>, \<^verbatim>\<open>addGepObjNode\<close>, \<^verbatim>\<open>getAllFieldsObjVars\<close> of
  \<^verbatim>\<open>src/SVF/svf/include/SVFIR/SVFIR.h\<close> and \<^verbatim>\<open>lib/SVFIR/SVFIR.cpp\<close>, \<^verbatim>\<open>getModulusOffset\<close> of
  \<^verbatim>\<open>lib/Graphs/IRGraph.cpp\<close>, the field limit of \<^verbatim>\<open>include/SVFIR/ObjTypeInfo.h\<close> and the
  numbering of \<^verbatim>\<open>lib/Util/NodeIDAllocator.cpp\<close>.

  A node of the IR is a value, a base object or a field of a base object; of a value and of a
  base object only the flags are kept that the analyses read. A lookup of a node that is not
  in the table, a cast to the wrong kind and a failed assertion are \<open>None\<close>. Field offsets
  are \<open>int\<close> (\<^verbatim>\<open>APOffset\<close> is \<^verbatim>\<open>s64_t\<close>), with the casts to \<^verbatim>\<open>u32_t\<close> written out.
\<close>

section \<open>Node numbers\<close>

datatype strategy = DENSE | REVERSE_DENSE | SEQ | DBUG

record allocator =
  strat :: strategy
  numObjects :: nat
  numValues :: nat
  numSymbols :: nat
  numNodes :: nat

definition new_allocator :: "strategy \<Rightarrow> allocator" where
  "new_allocator s = \<lparr>strat = s, numObjects = 4, numValues = 4, numSymbols = 4, numNodes = 4\<rparr>"

definition increaseNumOfObjAndNodes :: "allocator \<Rightarrow> allocator" where
  "increaseNumOfObjAndNodes a =
     a\<lparr>numObjects := u32 (numObjects a + 1), numNodes := u32 (numNodes a + 1)\<rparr>"

text \<open>\<^verbatim>\<open>pow(10, ceil(log10(n)))\<close>: the least power of ten that is not below \<open>n\<close>.\<close>

fun ceilPow10 :: "nat \<Rightarrow> nat" where
  "ceilPow10 n = (if n \<le> 1 then 1 else 10 * ceilPow10 ((n + 9) div 10))"

declare ceilPow10.simps [simp del]

definition checkId :: "nat \<Rightarrow> allocator \<Rightarrow> (node_id \<times> allocator) option" where
  "checkId i a = (if i \<noteq> 0 then Some (i, a) else None)"

definition allocateObjectId :: "allocator \<Rightarrow> (node_id \<times> allocator) option" where
  "allocateObjectId a =
     checkId (case strat a of
         DENSE \<Rightarrow> numObjects a
       | REVERSE_DENSE \<Rightarrow> u32 (2 ^ 32 - 1 - numObjects a)
       | SEQ \<Rightarrow> numNodes a
       | DBUG \<Rightarrow> numNodes a)
     (increaseNumOfObjAndNodes a)"

definition allocateGepObjectId :: "node_id \<Rightarrow> nat \<Rightarrow> nat \<Rightarrow> allocator \<Rightarrow> (node_id \<times> allocator) option" where
  "allocateGepObjectId base offset maxFieldLimit a =
     (case strat a of
        DENSE \<Rightarrow> checkId (numObjects a) (increaseNumOfObjAndNodes a)
      | REVERSE_DENSE \<Rightarrow> checkId (u32 (2 ^ 32 - 1 - numObjects a)) (increaseNumOfObjAndNodes a)
      | SEQ \<Rightarrow> checkId (numNodes a) (increaseNumOfObjAndNodes a)
      | DBUG \<Rightarrow>
          let gepMultiplier = u32 (ceilPow10 (if numSymbols a > maxFieldLimit then numSymbols a else maxFieldLimit));
              i = u32 (u32 (offset + 1) * gepMultiplier + base)
          in if i > numSymbols a then checkId i (increaseNumOfObjAndNodes a) else None)"

definition allocateValueId :: "allocator \<Rightarrow> (node_id \<times> allocator) option" where
  "allocateValueId a =
     checkId (case strat a of
         DENSE \<Rightarrow> u32 (2 ^ 32 - 1 - numValues a)
       | REVERSE_DENSE \<Rightarrow> numValues a
       | SEQ \<Rightarrow> numNodes a
       | DBUG \<Rightarrow> numNodes a)
     (a\<lparr>numValues := u32 (numValues a + 1), numNodes := u32 (numNodes a + 1)\<rparr>)"

definition endSymbolAllocation :: "allocator \<Rightarrow> nat \<times> allocator" where
  "endSymbolAllocation a = (numNodes a, a\<lparr>numSymbols := numNodes a\<rparr>)"

section \<open>The table\<close>

datatype svfvar =
    ValVar (is_ptr: bool)
  | BaseObjVar (is_ptr: bool) (const_obj: bool)
  | GepObjVar node_id int

text \<open>
  \<open>maxOffsetLimit\<close> and \<open>elemNum\<close> are the fields of a base object's \<^verbatim>\<open>ObjTypeInfo\<close>; the last
  three fields are command-line options.
\<close>

record pag =
  svfVars :: "node_id \<Rightarrow> svfvar option"
  maxOffsetLimit :: "node_id \<Rightarrow> nat"
  elemNum :: "node_id \<Rightarrow> nat"
  memToFields :: "node_id \<Rightarrow> node_id oset"
  gepObjVarMap :: "node_id \<times> int \<Rightarrow> node_id option"
  alloc :: allocator
  MaxFieldLimit :: nat
  FirstFieldEqBase :: bool
  CyclicFldIdx :: bool

definition getBaseObject :: "node_id \<Rightarrow> pag \<Rightarrow> node_id option" where
  "getBaseObject i p =
     (case svfVars p i of
        Some (GepObjVar b _) \<Rightarrow>
          (case svfVars p b of Some (BaseObjVar _ _) \<Rightarrow> Some b | _ \<Rightarrow> None)
      | Some (BaseObjVar _ _) \<Rightarrow> Some i
      | _ \<Rightarrow> None)"

definition hasGNode :: "node_id \<Rightarrow> pag \<Rightarrow> bool" where
  "hasGNode i p \<longleftrightarrow> svfVars p i \<noteq> None"

fun isPointer :: "node_id \<Rightarrow> pag \<Rightarrow> bool option" where
  "isPointer i p =
     (case svfVars p i of
        None \<Rightarrow> None
      | Some (GepObjVar b _) \<Rightarrow>
          (case svfVars p b of Some (BaseObjVar ptr _) \<Rightarrow> Some ptr | _ \<Rightarrow> None)
      | Some v \<Rightarrow> Some (is_ptr v))"

definition blackHole :: node_id where "blackHole = 2"
definition constantSym :: node_id where "constantSym = 3"

definition isBlkObj :: "node_id \<Rightarrow> bool" where
  "isBlkObj i \<longleftrightarrow> i = blackHole"

definition isConstantObj :: "node_id \<Rightarrow> pag \<Rightarrow> bool option" where
  "isConstantObj i p =
     do {
       b \<leftarrow> getBaseObject i p;
       v \<leftarrow> svfVars p b;
       Some (i = constantSym \<or> const_obj v)
     }"

definition isBlkObjOrConstantObj :: "node_id \<Rightarrow> pag \<Rightarrow> bool option" where
  "isBlkObjOrConstantObj i p = (if isBlkObj i then Some True else isConstantObj i p)"

definition isFieldInsensitive :: "node_id \<Rightarrow> pag \<Rightarrow> bool option" where
  "isFieldInsensitive i p = map_option (\<lambda>b. maxOffsetLimit p b = 0) (getBaseObject i p)"

definition setObjFieldInsensitive :: "node_id \<Rightarrow> pag \<Rightarrow> pag option" where
  "setObjFieldInsensitive i p =
     map_option (\<lambda>b. p\<lparr>maxOffsetLimit := (maxOffsetLimit p)(b := 0)\<rparr>) (getBaseObject i p)"

definition setFieldSensitive :: "node_id \<Rightarrow> pag \<Rightarrow> pag" where
  "setFieldSensitive b p = p\<lparr>maxOffsetLimit := (maxOffsetLimit p)(b := elemNum p b)\<rparr>"

definition setNumOfElements :: "node_id \<Rightarrow> nat \<Rightarrow> pag \<Rightarrow> pag" where
  "setNumOfElements b num p =
     p\<lparr>elemNum := (elemNum p)(b := num), maxOffsetLimit := (maxOffsetLimit p)(b := num)\<rparr>"

text \<open>\<^verbatim>\<open>getBaseObjVarID\<close>, and \<^verbatim>\<open>getFIObjVar\<close>, which returns the same number.\<close>

definition getBaseObjVarID :: "node_id \<Rightarrow> pag \<Rightarrow> node_id option" where
  "getBaseObjVarID i p = getBaseObject i p"

definition getFIObjVar :: "node_id \<Rightarrow> pag \<Rightarrow> node_id option" where
  "getFIObjVar i p = getBaseObjVarID i p"

definition getAllFieldsObjVars :: "node_id \<Rightarrow> pag \<Rightarrow> node_id oset option" where
  "getAllFieldsObjVars i p = map_option (memToFields p) (getBaseObject i p)"

definition getFieldsAfterCollapse :: "node_id \<Rightarrow> pag \<Rightarrow> node_id oset option" where
  "getFieldsAfterCollapse i p =
     map_option (\<lambda>b. if maxOffsetLimit p b = 0 then [b] else memToFields p b) (getBaseObject i p)"

definition getModulusOffset :: "node_id \<Rightarrow> int \<Rightarrow> pag \<Rightarrow> int" where
  "getModulusOffset b apOffset p =
     (let offset = (if apOffset < 0 then \<bar>apOffset\<bar> else apOffset);
          maxOffset = maxOffsetLimit p b
      in if maxOffset = 0 then 0
         else if MaxFieldLimit p < maxOffset then offset mod int maxOffset
         else if offset mod 2 ^ 32 > int maxOffset - 1
           then (if CyclicFldIdx p then offset mod int maxOffset else int maxOffset - 1)
         else offset)"

text \<open>\<^verbatim>\<open>addObjNode\<close> and \<^verbatim>\<open>addValNode\<close> want a number that is not in use.\<close>

definition addBaseObjNode :: "node_id \<Rightarrow> bool \<Rightarrow> bool \<Rightarrow> pag \<Rightarrow> (node_id \<times> pag) option" where
  "addBaseObjNode i ptr con p =
     (if hasGNode i p then None
      else Some (i, p\<lparr>memToFields := (memToFields p)(i := oset_insert i (memToFields p i)),
           svfVars := (svfVars p)(i \<mapsto> BaseObjVar ptr con)\<rparr>))"

definition addGepObjNode :: "node_id \<Rightarrow> int \<Rightarrow> node_id \<Rightarrow> pag \<Rightarrow> (node_id \<times> pag) option" where
  "addGepObjNode base apOffset gepId p =
     (if gepObjVarMap p (base, apOffset) \<noteq> None \<or> hasGNode gepId p then None
      else Some (gepId,
        p\<lparr>gepObjVarMap := (gepObjVarMap p)((base, apOffset) \<mapsto> gepId),
          memToFields := (memToFields p)(base := oset_insert gepId (memToFields p base)),
          svfVars := (svfVars p)(gepId \<mapsto> GepObjVar base apOffset)\<rparr>))"

definition getGepObjVarOf :: "node_id \<Rightarrow> int \<Rightarrow> pag \<Rightarrow> (node_id \<times> pag) option" where
  "getGepObjVarOf base apOffset p =
     (if maxOffsetLimit p base = 0 then Some (base, p)
      else
        let newLS = getModulusOffset base apOffset p in
        if FirstFieldEqBase p \<and> newLS = 0 then Some (base, p)
        else
          case gepObjVarMap p (base, newLS) of
            Some i \<Rightarrow> Some (i, p)
          | None \<Rightarrow>
              do {
                (gepId, a) \<leftarrow> allocateGepObjectId base (nat (apOffset mod 2 ^ 32)) (MaxFieldLimit p) (alloc p);
                addGepObjNode base newLS gepId (p\<lparr>alloc := a\<rparr>)
              })"

definition getGepObjVar :: "node_id \<Rightarrow> int \<Rightarrow> pag \<Rightarrow> (node_id \<times> pag) option" where
  "getGepObjVar i apOffset p =
     (case svfVars p i of
        Some (GepObjVar b o1) \<Rightarrow>
          (case svfVars p b of
             Some (BaseObjVar _ _) \<Rightarrow> getGepObjVarOf b (o1 + apOffset) p
           | _ \<Rightarrow> None)
      | Some (BaseObjVar _ _) \<Rightarrow> getGepObjVarOf i apOffset p
      | _ \<Rightarrow> None)"

section \<open>The table's invariant\<close>

definition isBaseObj :: "node_id \<Rightarrow> pag \<Rightarrow> bool" where
  "isBaseObj b p \<longleftrightarrow> (\<exists>ptr con. svfVars p b = Some (BaseObjVar ptr con))"

definition pag_inv :: "pag \<Rightarrow> bool" where
  "pag_inv p \<longleftrightarrow>
     (\<forall>b off i. gepObjVarMap p (b, off) = Some i \<longleftrightarrow> svfVars p i = Some (GepObjVar b off))
     \<and> (\<forall>i b off. svfVars p i = Some (GepObjVar b off) \<longrightarrow> isBaseObj b p)
     \<and> (\<forall>b i. i \<in> set (memToFields p b) \<longleftrightarrow> getBaseObject i p = Some b)
     \<and> (\<forall>b. oset_inv (memToFields p b))"

text \<open>\<^verbatim>\<open>gepId\<close> is a new number.\<close>

definition next_fresh :: "node_id \<Rightarrow> int \<Rightarrow> pag \<Rightarrow> bool" where
  "next_fresh b off p \<longleftrightarrow>
     (\<exists>i a. allocateGepObjectId b (nat (off mod 2 ^ 32)) (MaxFieldLimit p) (alloc p) = Some (i, a)
        \<and> svfVars p i = None)"

lemma getBaseObject_base: "isBaseObj b p \<Longrightarrow> getBaseObject b p = Some b"
  by (auto simp: isBaseObj_def getBaseObject_def)

lemma getBaseObject_gep:
  "svfVars p i = Some (GepObjVar b off) \<Longrightarrow> isBaseObj b p \<Longrightarrow> getBaseObject i p = Some b"
  by (auto simp: isBaseObj_def getBaseObject_def)

lemma getBaseObject_Some: "getBaseObject i p = Some b \<Longrightarrow>
    isBaseObj b p \<and> (i = b \<or> (\<exists>off. svfVars p i = Some (GepObjVar b off)))"
  by (auto simp: isBaseObj_def getBaseObject_def split: option.splits svfvar.splits)

lemma getBaseObject_idem: "getBaseObject i p = Some b \<Longrightarrow> getBaseObject b p = Some b"
  using getBaseObject_Some getBaseObject_base by blast

lemma getBaseObject_new_gep:
  assumes "svfVars p g = None" "isBaseObj b p"
    and p': "svfVars p' = (svfVars p)(g \<mapsto> GepObjVar b off)"
  shows "getBaseObject i p' = (if i = g then Some b else getBaseObject i p)"
proof -
  have "isBaseObj c p' \<longleftrightarrow> isBaseObj c p" for c
    using assms(1) by (auto simp: isBaseObj_def p')
  then show ?thesis
    using assms by (auto simp: getBaseObject_def p' isBaseObj_def split: option.splits svfvar.splits)
qed

lemma addGepObjNode_inv:
  assumes inv: "pag_inv p" and b: "isBaseObj b p" and g: "svfVars p g = None"
    and r: "addGepObjNode b off g p = Some (i, p')"
  shows "pag_inv p' \<and> i = g \<and> getBaseObject g p' = Some b \<and> svfVars p \<subseteq>\<^sub>m svfVars p'
    \<and> gepObjVarMap p' (b, off) = Some g \<and> maxOffsetLimit p' = maxOffsetLimit p"
proof -
  have n: "gepObjVarMap p (b, off) = None" and i: "i = g"
    and vars: "svfVars p' = (svfVars p)(g \<mapsto> GepObjVar b off)"
    and gm: "gepObjVarMap p' = (gepObjVarMap p)((b, off) \<mapsto> g)"
    and fl: "memToFields p' = (memToFields p)(b := oset_insert g (memToFields p b))"
    and mx: "maxOffsetLimit p' = maxOffsetLimit p"
    using r by (auto simp: addGepObjNode_def Let_def split: if_splits)
  note gb = getBaseObject_new_gep[OF g b vars]
  have bg: "isBaseObj c p \<Longrightarrow> isBaseObj c p'" for c
    using g by (auto simp: isBaseObj_def vars)
  have uniq: "gepObjVarMap p k \<noteq> Some g" for k
    using inv g by (cases k) (auto simp: pag_inv_def)
  have none: "svfVars p j \<noteq> Some (GepObjVar b off)" for j
    using inv n unfolding pag_inv_def by (metis option.distinct(1))
  have "gepObjVarMap p' (c, o') = Some j \<longleftrightarrow> svfVars p' j = Some (GepObjVar c o')" for c o' j
    using inv uniq none unfolding pag_inv_def by (auto simp: gm vars)
  moreover have "svfVars p' j = Some (GepObjVar c o') \<longrightarrow> isBaseObj c p'" for j c o'
  proof -
    have "svfVars p j = Some (GepObjVar c o') \<longrightarrow> isBaseObj c p"
      using inv unfolding pag_inv_def by blast
    then show ?thesis using b bg by (auto simp: vars)
  qed
  moreover have "j \<in> set (memToFields p' c) \<longleftrightarrow> getBaseObject j p' = Some c" for c j
  proof -
    have "g \<notin> set (memToFields p c)" using inv g by (auto simp: pag_inv_def getBaseObject_def)
    then show ?thesis using inv by (auto simp: pag_inv_def fl gb)
  qed
  moreover have "oset_inv (memToFields p' c)" for c
    using inv by (auto simp: pag_inv_def fl)
  ultimately have "pag_inv p'" by (simp add: pag_inv_def)
  moreover have "svfVars p \<subseteq>\<^sub>m svfVars p'"
    using g by (auto simp: vars map_le_def)
  ultimately show ?thesis using i gb gm mx by auto
qed

lemma getBaseObject_alloc [simp]: "getBaseObject i (p\<lparr>alloc := a\<rparr>) = getBaseObject i p"
  by (cases "svfVars p i") (auto simp: getBaseObject_def split: svfvar.splits option.splits)

lemma pag_inv_alloc [simp]: "pag_inv (p\<lparr>alloc := a\<rparr>) = pag_inv p"
  by (simp add: pag_inv_def isBaseObj_def)

lemma getGepObjVarOf_spec:
  assumes inv: "pag_inv p" and b: "isBaseObj b p" and f: "next_fresh b off p"
  shows "\<exists>r p'. getGepObjVarOf b off p = Some (r, p') \<and> pag_inv p' \<and> getBaseObject r p' = Some b
    \<and> svfVars p \<subseteq>\<^sub>m svfVars p' \<and> maxOffsetLimit p' = maxOffsetLimit p
    \<and> getGepObjVarOf b off p' = Some (r, p')"
proof (cases "maxOffsetLimit p b = 0 \<or> FirstFieldEqBase p \<and> getModulusOffset b off p = 0")
  case True
  then show ?thesis using inv getBaseObject_base[OF b] by (auto simp: getGepObjVarOf_def Let_def)
next
  case False
  let ?ls = "getModulusOffset b off p"
  show ?thesis
  proof (cases "gepObjVarMap p (b, ?ls)")
    case (Some i)
    then have "svfVars p i = Some (GepObjVar b ?ls)" using inv by (simp add: pag_inv_def)
    then show ?thesis using False Some inv getBaseObject_gep[OF _ b] by (auto simp: getGepObjVarOf_def Let_def)
  next
    case None
    obtain g a where al: "allocateGepObjectId b (nat (off mod 2 ^ 32)) (MaxFieldLimit p) (alloc p) = Some (g, a)"
      and g: "svfVars p g = None" using f by (auto simp: next_fresh_def)
    let ?p = "p\<lparr>alloc := a\<rparr>"
    obtain p' where add: "addGepObjNode b ?ls g ?p = Some (g, p')"
      using None g by (auto simp: addGepObjNode_def hasGNode_def)
    have "pag_inv ?p" "isBaseObj b ?p" "svfVars ?p g = None"
      using inv b g by (simp_all add: isBaseObj_def)
    note s = addGepObjNode_inv[OF this add]
    have opts: "MaxFieldLimit p' = MaxFieldLimit p" "CyclicFldIdx p' = CyclicFldIdx p"
      "FirstFieldEqBase p' = FirstFieldEqBase p"
      using add by (auto simp: addGepObjNode_def split: if_splits)
    moreover have "maxOffsetLimit p' = maxOffsetLimit p" using s by simp
    ultimately have "getModulusOffset b off p' = ?ls" by (simp only: getModulusOffset_def)
    then have "getGepObjVarOf b off p' = Some (g, p')"
      using False s opts by (auto simp: getGepObjVarOf_def Let_def)
    moreover have "getGepObjVarOf b off p = Some (g, p')"
      using False None al add by (auto simp: getGepObjVarOf_def Let_def)
    ultimately show ?thesis using s by auto
  qed
qed

text \<open>Which node it is.\<close>

lemma getGepObjVarOf_field:
  assumes inv: "pag_inv p" and f: "next_fresh b off p" and r: "getGepObjVarOf b off p = Some (r, p')"
  shows "if maxOffsetLimit p b = 0 \<or> FirstFieldEqBase p \<and> getModulusOffset b off p = 0 then r = b \<and> p' = p
      else svfVars p' r = Some (GepObjVar b (getModulusOffset b off p))"
    "j \<noteq> r \<Longrightarrow> svfVars p' j = svfVars p j"
proof -
  obtain g a where al: "allocateGepObjectId b (nat (off mod 2 ^ 32)) (MaxFieldLimit p) (alloc p) = Some (g, a)"
    and g: "svfVars p g = None" using f by (auto simp: next_fresh_def)
  show "if maxOffsetLimit p b = 0 \<or> FirstFieldEqBase p \<and> getModulusOffset b off p = 0 then r = b \<and> p' = p
      else svfVars p' r = Some (GepObjVar b (getModulusOffset b off p))"
    using r al g inv by (auto simp: getGepObjVarOf_def addGepObjNode_def hasGNode_def pag_inv_def Let_def split: if_splits option.splits)
  show "j \<noteq> r \<Longrightarrow> svfVars p' j = svfVars p j"
    using r al g by (auto simp: getGepObjVarOf_def addGepObjNode_def hasGNode_def Let_def split: if_splits option.splits)
qed

lemma getGepObjVar_base: "isBaseObj b p \<Longrightarrow> getGepObjVar b off p = getGepObjVarOf b off p"
  by (auto simp: isBaseObj_def getGepObjVar_def)

lemma getGepObjVar_gep:
  "svfVars p i = Some (GepObjVar b o1) \<Longrightarrow> isBaseObj b p \<Longrightarrow>
    getGepObjVar i off p = getGepObjVarOf b (o1 + off) p"
  by (auto simp: isBaseObj_def getGepObjVar_def)

section \<open>Offsets and numbers\<close>

lemma getModulusOffset_range:
  assumes "0 < maxOffsetLimit p b" "\<bar>off\<bar> < 2 ^ 32"
  shows "0 \<le> getModulusOffset b off p \<and> getModulusOffset b off p < int (maxOffsetLimit p b)"
proof -
  have "\<bar>off\<bar> mod 2 ^ 32 = \<bar>off\<bar>" using assms(2) by simp
  moreover have "(if off < 0 then \<bar>off\<bar> else off) = \<bar>off\<bar>" by simp
  ultimately show ?thesis using assms(1) by (auto simp: getModulusOffset_def Let_def)
qed

lemma ceilPow10_ge: "n \<le> ceilPow10 n"
proof (induction n rule: ceilPow10.induct)
  case (1 n)
  show ?case
  proof (cases "n \<le> 1")
    case False
    have "n \<le> 10 * ((n + 9) div 10)" by simp
    also have "\<dots> \<le> 10 * ceilPow10 ((n + 9) div 10)" using 1 False by simp
    also have "\<dots> = ceilPow10 n" using False by (simp add: ceilPow10.simps[of n])
    finally show ?thesis .
  qed (simp add: ceilPow10.simps)
qed

text \<open>With the default strategy the numbers of all nodes are below the counter.\<close>

definition seq_inv :: "pag \<Rightarrow> bool" where
  "seq_inv p \<longleftrightarrow> strat (alloc p) = SEQ \<and> 0 < numNodes (alloc p) \<and> numNodes (alloc p) < 2 ^ 32
     \<and> (\<forall>i. svfVars p i \<noteq> None \<longrightarrow> i < numNodes (alloc p))"

lemma seq_fresh: "seq_inv p \<Longrightarrow> next_fresh b off p"
  by (auto simp: seq_inv_def next_fresh_def allocateGepObjectId_def checkId_def)

lemma seq_inv_getGepObjVarOf:
  assumes "seq_inv p" "numNodes (alloc p) + 1 < 2 ^ 32" "getGepObjVarOf b off p = Some (r, p')"
  shows "seq_inv p'"
  using assms
  by (auto simp: seq_inv_def getGepObjVarOf_def allocateGepObjectId_def checkId_def addGepObjNode_def
      increaseNumOfObjAndNodes_def Let_def less_Suc_eq split: if_splits option.splits)

section \<open>Properties\<close>

text \<open>
  C39: \<^verbatim>\<open>getGepObjVar\<close> on a base object, or on a field of one, whose offset then counts too,
  returns the field object of that base at the offset brought into the range of the object; the
  base itself when it is field-insensitive, or the first field when that is taken for the base.
  With a fresh number at hand it succeeds, adds at most the node it returns, keeps the maps of
  the table consistent, and asked again for the same field returns the same node without
  changing anything.
\<close>

theorem getGepObjVar_correct:
  assumes "pag_inv p" "isBaseObj b p" "svfVars p i = Some (GepObjVar b o1) \<and> k = o1 + off \<or> i = b \<and> k = off"
    "next_fresh b k p"
  shows "\<exists>r p'. getGepObjVar i off p = Some (r, p') \<and> pag_inv p'
    \<and> (if maxOffsetLimit p b = 0 \<or> FirstFieldEqBase p \<and> getModulusOffset b k p = 0 then r = b \<and> p' = p
       else svfVars p' r = Some (GepObjVar b (getModulusOffset b k p)))
    \<and> (\<forall>j. j \<noteq> r \<longrightarrow> svfVars p' j = svfVars p j) \<and> svfVars p \<subseteq>\<^sub>m svfVars p'
    \<and> getBaseObjVarID r p' = Some b \<and> r \<in> set (memToFields p' b) \<and> getGepObjVar i off p' = Some (r, p')"
proof -
  have g: "getGepObjVar i off q = getGepObjVarOf b k q" if "svfVars p \<subseteq>\<^sub>m svfVars q" for q
  proof -
    have b: "isBaseObj b q" using that assms(2) by (auto simp: map_le_def isBaseObj_def dom_def)
    show ?thesis
    proof (cases "svfVars p i = Some (GepObjVar b o1) \<and> k = o1 + off")
      case True
      then have "svfVars q i = Some (GepObjVar b o1)" using that by (auto simp: map_le_def dom_def)
      then show ?thesis using getGepObjVar_gep b True by blast
    next
      case False
      then show ?thesis using assms(3) getGepObjVar_base[OF b] by auto
    qed
  qed
  obtain r p' where r: "getGepObjVarOf b k p = Some (r, p')" "pag_inv p'" "getBaseObject r p' = Some b"
    "svfVars p \<subseteq>\<^sub>m svfVars p'" "getGepObjVarOf b k p' = Some (r, p')"
    using getGepObjVarOf_spec[OF assms(1,2,4)] by blast
  have "r \<in> set (memToFields p' b)" using r(2,3) by (simp add: pag_inv_def)
  then show ?thesis
    using r g[of p] g[of p'] getGepObjVarOf_field[OF assms(1,4) r(1)]
    by (intro exI[of _ r] exI[of _ p']) (simp add: getBaseObjVarID_def)
qed

definition demo_pag :: pag where
  "demo_pag = snd (the (addBaseObjNode 4 True False
     \<lparr>svfVars = (\<lambda>_. None), maxOffsetLimit = (\<lambda>_. 3), elemNum = (\<lambda>_. 3), memToFields = (\<lambda>_. []),
      gepObjVarMap = (\<lambda>_. None), alloc = (new_allocator SEQ)\<lparr>numNodes := 5\<rparr>, MaxFieldLimit = 512,
      FirstFieldEqBase = False, CyclicFldIdx = False\<rparr>))"

lemma demo_pag_inv: "pag_inv demo_pag" "seq_inv demo_pag" "isBaseObj 4 demo_pag"
  by (auto simp: demo_pag_def addBaseObjNode_def hasGNode_def pag_inv_def seq_inv_def isBaseObj_def getBaseObject_def
      new_allocator_def oset_insert_def)

theorem getGepObjVar_correct_witness:
  "\<exists>r p'. getGepObjVar 4 2 demo_pag = Some (r, p') \<and> svfVars p' r = Some (GepObjVar 4 2)"
proof -
  have "maxOffsetLimit demo_pag 4 = 3" "\<not> FirstFieldEqBase demo_pag" "getModulusOffset 4 2 demo_pag = 2"
    by (simp_all add: demo_pag_def addBaseObjNode_def hasGNode_def getModulusOffset_def)
  then show ?thesis
    using getGepObjVar_correct[OF demo_pag_inv(1,3), of 4 0 2 2] seq_fresh[OF demo_pag_inv(2), of 4 2] by auto
qed

text \<open>
  C40: Field offsets are brought into the range of the object: for an object with a positive
  field limit, \<^verbatim>\<open>getModulusOffset\<close> returns a field number below the limit, provided the
  offset fits in 32 bits. Beyond 32 bits the cast in the comparison lets the offset through.
\<close>

theorem getModulusOffset_bounds:
  assumes "0 < maxOffsetLimit p b"
  shows "(\<bar>off\<bar> < 2 ^ 32 \<longrightarrow> 0 \<le> getModulusOffset b off p \<and> getModulusOffset b off p < int (maxOffsetLimit p b))
    \<and> (maxOffsetLimit p b \<le> MaxFieldLimit p \<longrightarrow> getModulusOffset b (2 ^ 32) p = 2 ^ 32)"
  using assms getModulusOffset_range[OF assms] by (auto simp: getModulusOffset_def)

theorem getModulusOffset_bounds_witness:
  "getModulusOffset 4 7 demo_pag < 3 \<and> getModulusOffset 4 4294967296 demo_pag = 4294967296"
proof -
  have "0 < maxOffsetLimit demo_pag 4" "maxOffsetLimit demo_pag 4 \<le> MaxFieldLimit demo_pag"
    "int (maxOffsetLimit demo_pag 4) = 3"
    by (simp_all add: demo_pag_def addBaseObjNode_def hasGNode_def)
  then show ?thesis using getModulusOffset_bounds[of demo_pag 4 7] by simp
qed

end
