(* ===== verification/ConsG.thy ===== *)
theory ConsG
  imports PathCond WorkList "HOL-Library.Monad_Syntax"
begin

text \<open>
  \<^verbatim>\<open>src/SVF/svf/include/Graphs/ConsG.h\<close>, \<^verbatim>\<open>ConsGEdge.h\<close>, \<^verbatim>\<open>ConsGNode.h\<close> and
  \<^verbatim>\<open>src/SVF/svf/lib/Graphs/ConsG.cpp\<close>: the constraint graph, with the guards its edges carry.

  The four edge sets of the graph and the edge sets of its nodes hold the same edge objects,
  ordered by kind, source and target, and every operation of the code changes all of them
  together. The model keeps one list \<open>cedges\<close> in that order; \<open>getOutEdges\<close>,
  \<open>getCopyOutEdges\<close> and so on are its parts. Of an access path only the constant field
  index is kept. A missing node, a failed assertion and the removal of an edge that is not in
  the graph are \<open>None\<close>.

  Main result: \<open>moveEdgesToRepNode\<close>, which the analysis runs before it deletes a merged
  node, never fails on a well-formed graph and leaves the node without edges.
\<close>

section \<open>Nodes and edges\<close>

datatype ckind = Addr | Copy | Store | Load | NormalGep | VariantGep

fun kindNum :: "ckind \<Rightarrow> nat" where
  "kindNum Addr = 0"
| "kindNum Copy = 1"
| "kindNum Store = 2"
| "kindNum Load = 3"
| "kindNum NormalGep = 4"
| "kindNum VariantGep = 5"

record cedge =
  ekind :: ckind
  esrc :: node_id
  edst :: node_id
  edgeId :: nat
  eguard :: "pathcond option"
  eap :: int

definition ekey :: "cedge \<Rightarrow> nat \<times> node_id \<times> node_id" where
  "ekey e = (kindNum (ekind e), esrc e, edst e)"

definition isGepKind :: "ckind \<Rightarrow> bool" where
  "isGepKind k \<longleftrightarrow> k = NormalGep \<or> k = VariantGep"

definition isdirectEdge :: "ckind \<Rightarrow> bool" where
  "isdirectEdge k \<longleftrightarrow> k = Copy \<or> k = NormalGep \<or> k = VariantGep"

definition isIndirectEdge :: "ckind \<Rightarrow> bool" where
  "isIndirectEdge k \<longleftrightarrow> k = Load \<or> k = Store"

record consg =
  cnodes :: "node_id oset"
  pwcNodes :: "node_id set"
  cedges :: "cedge list"
  nodeToRep :: "node_id \<Rightarrow> node_id option"
  nodeToSubs :: "node_id \<Rightarrow> node_id oset"
  nodesToBeCollapsed :: "node_id fifo"
  edgeIndex :: nat

definition empty_consg :: consg where
  "empty_consg = \<lparr>cnodes = [], pwcNodes = {}, cedges = [], nodeToRep = (\<lambda>_. None),
     nodeToSubs = (\<lambda>_. []), nodesToBeCollapsed = fifo_new, edgeIndex = 0\<rparr>"

definition sccRepNode :: "consg \<Rightarrow> node_id \<Rightarrow> node_id" where
  "sccRepNode g i = (case nodeToRep g i of None \<Rightarrow> i | Some r \<Rightarrow> r)"

definition sccSubNodes :: "node_id \<Rightarrow> consg \<Rightarrow> node_id oset \<times> consg" where
  "sccSubNodes i g =
     (let s = oset_insert i (nodeToSubs g i) in (s, g\<lparr>nodeToSubs := (nodeToSubs g)(i := s)\<rparr>))"

definition setRep :: "node_id \<Rightarrow> node_id \<Rightarrow> consg \<Rightarrow> consg" where
  "setRep node rep g = g\<lparr>nodeToRep := (nodeToRep g)(node \<mapsto> rep)\<rparr>"

definition setSubs :: "node_id \<Rightarrow> node_id oset \<Rightarrow> consg \<Rightarrow> consg" where
  "setSubs node subs g = g\<lparr>nodeToSubs := (nodeToSubs g)(node := oset_insert_all subs (nodeToSubs g node))\<rparr>"

definition resetSubs :: "node_id \<Rightarrow> consg \<Rightarrow> consg" where
  "resetSubs node g = g\<lparr>nodeToSubs := (nodeToSubs g)(node := [])\<rparr>"

definition resetRep :: "node_id \<Rightarrow> consg \<Rightarrow> consg" where
  "resetRep node g = g\<lparr>nodeToRep := (nodeToRep g)(node := None)\<rparr>"

definition hasConstraintNode :: "node_id \<Rightarrow> consg \<Rightarrow> bool" where
  "hasConstraintNode i g \<longleftrightarrow> sccRepNode g i \<in> set (cnodes g)"

text \<open>\<^verbatim>\<open>getConstraintNode\<close>: the node itself is its number.\<close>

definition getConstraintNode :: "node_id \<Rightarrow> consg \<Rightarrow> node_id option" where
  "getConstraintNode i g = (let r = sccRepNode g i in if r \<in> set (cnodes g) then Some r else None)"

definition addConstraintNode :: "node_id \<Rightarrow> consg \<Rightarrow> consg" where
  "addConstraintNode i g = g\<lparr>cnodes := oset_insert i (cnodes g), pwcNodes := pwcNodes g - {i}\<rparr>"

definition isPWCNode :: "node_id \<Rightarrow> consg \<Rightarrow> bool option" where
  "isPWCNode i g = map_option (\<lambda>n. n \<in> pwcNodes g) (getConstraintNode i g)"

definition setPWCNode :: "node_id \<Rightarrow> consg \<Rightarrow> consg option" where
  "setPWCNode i g = map_option (\<lambda>n. g\<lparr>pwcNodes := insert n (pwcNodes g)\<rparr>) (getConstraintNode i g)"

definition addNodeToBeCollapsed :: "node_id \<Rightarrow> consg \<Rightarrow> consg" where
  "addNodeToBeCollapsed i g = g\<lparr>nodesToBeCollapsed := snd (fifo_push i (nodesToBeCollapsed g))\<rparr>"

definition hasNodesToBeCollapsed :: "consg \<Rightarrow> bool" where
  "hasNodesToBeCollapsed g \<longleftrightarrow> \<not> fifo_empty (nodesToBeCollapsed g)"

definition getNextCollapseNode :: "consg \<Rightarrow> (node_id \<times> consg) option" where
  "getNextCollapseNode g =
     map_option (\<lambda>(i, w). (i, g\<lparr>nodesToBeCollapsed := w\<rparr>)) (fifo_pop (nodesToBeCollapsed g))"

section \<open>Looking up edges\<close>

definition sameKey :: "ckind \<Rightarrow> node_id \<Rightarrow> node_id \<Rightarrow> cedge \<Rightarrow> bool" where
  "sameKey k s d e \<longleftrightarrow> ekind e = k \<and> esrc e = s \<and> edst e = d"

definition findEdge :: "ckind \<Rightarrow> node_id \<Rightarrow> node_id \<Rightarrow> consg \<Rightarrow> cedge option" where
  "findEdge k s d g = List.find (sameKey k s d) (cedges g)"

definition hasEdge :: "ckind \<Rightarrow> node_id \<Rightarrow> node_id \<Rightarrow> consg \<Rightarrow> bool" where
  "hasEdge k s d g \<longleftrightarrow> findEdge k s d g \<noteq> None"

definition getOutEdges :: "node_id \<Rightarrow> consg \<Rightarrow> cedge list" where
  "getOutEdges n g = filter (\<lambda>e. esrc e = n) (cedges g)"

definition getInEdges :: "node_id \<Rightarrow> consg \<Rightarrow> cedge list" where
  "getInEdges n g = filter (\<lambda>e. edst e = n) (cedges g)"

definition getCopyOutEdges :: "node_id \<Rightarrow> consg \<Rightarrow> cedge list" where
  "getCopyOutEdges n g = filter (\<lambda>e. ekind e = Copy) (getOutEdges n g)"

definition getGepOutEdges :: "node_id \<Rightarrow> consg \<Rightarrow> cedge list" where
  "getGepOutEdges n g = filter (\<lambda>e. isGepKind (ekind e)) (getOutEdges n g)"

definition getDirectInEdges :: "node_id \<Rightarrow> consg \<Rightarrow> cedge list" where
  "getDirectInEdges n g = filter (\<lambda>e. isdirectEdge (ekind e)) (getInEdges n g)"

definition getLoadOutEdges :: "node_id \<Rightarrow> consg \<Rightarrow> cedge list" where
  "getLoadOutEdges n g = filter (\<lambda>e. ekind e = Load) (getOutEdges n g)"

definition getStoreInEdges :: "node_id \<Rightarrow> consg \<Rightarrow> cedge list" where
  "getStoreInEdges n g = filter (\<lambda>e. ekind e = Store) (getInEdges n g)"

definition getAddrInEdges :: "node_id \<Rightarrow> consg \<Rightarrow> cedge list" where
  "getAddrInEdges n g = filter (\<lambda>e. ekind e = Addr) (getInEdges n g)"

definition getDirectCGEdges :: "consg \<Rightarrow> cedge list" where
  "getDirectCGEdges g = filter (\<lambda>e. isdirectEdge (ekind e)) (cedges g)"

section \<open>Changing edges\<close>

definition insertEdge :: "cedge \<Rightarrow> consg \<Rightarrow> consg" where
  "insertEdge e g = g\<lparr>cedges := insort_key ekey e (cedges g), edgeIndex := u32 (edgeIndex g + 1)\<rparr>"

text \<open>
  \<^verbatim>\<open>addAddrCGEdge\<close>, \<^verbatim>\<open>addLoadCGEdge\<close>, \<^verbatim>\<open>addStoreCGEdge\<close>, \<^verbatim>\<open>addNormalGepCGEdge\<close> and
  \<^verbatim>\<open>addVariantGepCGEdge\<close> differ in the kind only; \<^verbatim>\<open>addCopyCGEdge\<close> also refuses an edge
  from a node to itself. The flag says whether the result is an edge (not \<^verbatim>\<open>nullptr\<close>).
\<close>

definition addCGEdge :: "ckind \<Rightarrow> node_id \<Rightarrow> node_id \<Rightarrow> int \<Rightarrow> pathcond option \<Rightarrow> consg \<Rightarrow> (bool \<times> consg) option" where
  "addCGEdge k src dst ap guard g =
     do {
       srcNode \<leftarrow> getConstraintNode src g;
       dstNode \<leftarrow> getConstraintNode dst g;
       if hasEdge k srcNode dstNode g then Some (False, g)
       else Some (True, insertEdge \<lparr>ekind = k, esrc = srcNode, edst = dstNode,
              edgeId = edgeIndex g, eguard = guard, eap = ap\<rparr> g)
     }"

definition addCopyCGEdge :: "node_id \<Rightarrow> node_id \<Rightarrow> pathcond option \<Rightarrow> consg \<Rightarrow> (bool \<times> consg) option" where
  "addCopyCGEdge src dst guard g =
     do {
       srcNode \<leftarrow> getConstraintNode src g;
       dstNode \<leftarrow> getConstraintNode dst g;
       if hasEdge Copy srcNode dstNode g \<or> srcNode = dstNode then Some (False, g)
       else Some (True, insertEdge \<lparr>ekind = Copy, esrc = srcNode, edst = dstNode,
              edgeId = edgeIndex g, eguard = guard, eap = 0\<rparr> g)
     }"

definition addEdgeOfKind :: "ckind \<Rightarrow> node_id \<Rightarrow> node_id \<Rightarrow> int \<Rightarrow> pathcond option \<Rightarrow> consg \<Rightarrow> (bool \<times> consg) option" where
  "addEdgeOfKind k src dst ap guard g =
     (if k = Copy then addCopyCGEdge src dst guard g else addCGEdge k src dst ap guard g)"

definition setGuard :: "cedge \<Rightarrow> pathcond option \<Rightarrow> consg \<Rightarrow> consg" where
  "setGuard e gd g =
     g\<lparr>cedges := map (\<lambda>e'. if ekey e' = ekey e then e'\<lparr>eguard := gd\<rparr> else e') (cedges g)\<rparr>"

text \<open>
  \<^verbatim>\<open>removeAddrEdge\<close>, \<^verbatim>\<open>removeLoadEdge\<close>, \<^verbatim>\<open>removeStoreEdge\<close>, \<^verbatim>\<open>removeDirectEdge\<close>: the
  nodes at the two ends are looked up through their representatives, and their sets and the
  set of the graph must hold the edge.
\<close>

definition removeEdge :: "cedge \<Rightarrow> consg \<Rightarrow> consg option" where
  "removeEdge e g =
     (if getConstraintNode (esrc e) g = Some (esrc e) \<and> getConstraintNode (edst e) g = Some (edst e)
         \<and> hasEdge (ekind e) (esrc e) (edst e) g
      then Some (g\<lparr>cedges := filter (\<lambda>e'. ekey e' \<noteq> ekey e) (cedges g)\<rparr>)
      else None)"

definition reTargetDstOfEdge :: "cedge \<Rightarrow> node_id \<Rightarrow> consg \<Rightarrow> consg option" where
  "reTargetDstOfEdge e newDst g =
     do {
       g1 \<leftarrow> removeEdge e g;
       if ekind e = Addr then Some g1
       else map_option snd (addEdgeOfKind (ekind e) (esrc e) newDst (eap e) (eguard e) g1)
     }"

definition reTargetSrcOfEdge :: "cedge \<Rightarrow> node_id \<Rightarrow> consg \<Rightarrow> consg option" where
  "reTargetSrcOfEdge e newSrc g =
     do {
       g1 \<leftarrow> removeEdge e g;
       if ekind e = Addr then Some g1
       else map_option snd (addEdgeOfKind (ekind e) newSrc (edst e) (eap e) (eguard e) g1)
     }"

definition isZeroOffsettedGepCGEdge :: "cedge \<Rightarrow> bool" where
  "isZeroOffsettedGepCGEdge e \<longleftrightarrow> ekind e = NormalGep \<and> eap e = 0"

text \<open>The body of the second loops of \<^verbatim>\<open>moveInEdgesToRepNode\<close> and \<^verbatim>\<open>moveOutEdgesToRepNode\<close>.\<close>

definition moveSccEdge :: "(cedge \<Rightarrow> node_id \<Rightarrow> consg \<Rightarrow> consg option) \<Rightarrow> node_id \<Rightarrow> cedge \<Rightarrow>
    bool \<times> consg \<Rightarrow> (bool \<times> consg) option" where
  "moveSccEdge reTarget rep e = (\<lambda>(critical, g).
     if ekind e = Copy then map_option (Pair critical) (removeEdge e g)
     else if isGepKind (ekind e)
       then map_option (Pair (critical \<or> \<not> isZeroOffsettedGepCGEdge e)) (removeEdge e g)
     else if ekind e = Load \<or> ekind e = Store then map_option (Pair critical) (reTarget e rep g)
     else map_option (Pair critical) (removeEdge e g))"

definition moveInEdgesToRepNode :: "node_id \<Rightarrow> node_id \<Rightarrow> consg \<Rightarrow> (bool \<times> consg) option" where
  "moveInEdgesToRepNode node rep g =
     (let sccEdges = filter (\<lambda>e. sccRepNode g (esrc e) = rep) (getInEdges node g);
          nonSccEdges = filter (\<lambda>e. sccRepNode g (esrc e) \<noteq> rep) (getInEdges node g)
      in do {
           g1 \<leftarrow> foldO (\<lambda>e h. reTargetDstOfEdge e rep h) (rev nonSccEdges) g;
           foldO (moveSccEdge reTargetDstOfEdge rep) (rev sccEdges) (False, g1)
         })"

definition moveOutEdgesToRepNode :: "node_id \<Rightarrow> node_id \<Rightarrow> consg \<Rightarrow> (bool \<times> consg) option" where
  "moveOutEdgesToRepNode node rep g =
     (let sccEdges = filter (\<lambda>e. sccRepNode g (edst e) = rep) (getOutEdges node g);
          nonSccEdges = filter (\<lambda>e. sccRepNode g (edst e) \<noteq> rep) (getOutEdges node g)
      in do {
           g1 \<leftarrow> foldO (\<lambda>e h. reTargetSrcOfEdge e rep h) (rev nonSccEdges) g;
           foldO (moveSccEdge reTargetSrcOfEdge rep) (rev sccEdges) (False, g1)
         })"

definition moveEdgesToRepNode :: "node_id \<Rightarrow> node_id \<Rightarrow> consg \<Rightarrow> (bool \<times> consg) option" where
  "moveEdgesToRepNode node rep g =
     do {
       (gepIn, g1) \<leftarrow> moveInEdgesToRepNode node rep g;
       (gepOut, g2) \<leftarrow> moveOutEdgesToRepNode node rep g1;
       Some (gepIn \<or> gepOut, g2)
     }"

definition removeConstraintNode :: "node_id \<Rightarrow> consg \<Rightarrow> consg option" where
  "removeConstraintNode n g =
     (if getInEdges n g = [] \<and> getOutEdges n g = [] \<and> n \<in> set (cnodes g)
      then Some (g\<lparr>cnodes := filter (\<lambda>m. m \<noteq> n) (cnodes g), pwcNodes := pwcNodes g - {n}\<rparr>)
      else None)"

section \<open>Well-formed graphs\<close>

definition live :: "consg \<Rightarrow> node_id \<Rightarrow> bool" where
  "live g n \<longleftrightarrow> n \<in> set (cnodes g) \<and> sccRepNode g n = n"

definition consg_inv :: "consg \<Rightarrow> bool" where
  "consg_inv g \<longleftrightarrow>
     sorted_wrt (\<lambda>a b. ekey a < ekey b) (cedges g)
     \<and> (\<forall>e \<in> set (cedges g). live g (esrc e) \<and> live g (edst e) \<and> (ekind e = Copy \<longrightarrow> esrc e \<noteq> edst e))
     \<and> oset_inv (cnodes g)"

lemma kindNum_inj [simp]: "kindNum k = kindNum k' \<longleftrightarrow> k = k'"
  by (cases k; cases k') auto

lemma ekey_eq_iff: "ekey e = ekey f \<longleftrightarrow> ekind e = ekind f \<and> esrc e = esrc f \<and> edst e = edst f"
  by (auto simp: ekey_def)

lemma sameKey_iff: "sameKey k s d e \<longleftrightarrow> ekey e = (kindNum k, s, d)"
  by (auto simp: sameKey_def ekey_def)

lemma strict_key_inj:
  assumes "sorted_wrt (\<lambda>a b. ekey a < ekey b) es" "e \<in> set es" "f \<in> set es" "ekey e = ekey f"
  shows "e = f"
  using assms by (induction es) auto

lemma findEdge_None: "findEdge k s d g = None \<longleftrightarrow> (\<forall>e \<in> set (cedges g). ekey e \<noteq> (kindNum k, s, d))"
  by (auto simp: findEdge_def find_None_iff sameKey_iff)

lemma findEdge_Some:
  assumes "consg_inv g"
  shows "findEdge k s d g = Some e \<longleftrightarrow> e \<in> set (cedges g) \<and> ekey e = (kindNum k, s, d)"
proof
  assume "findEdge k s d g = Some e"
  then show "e \<in> set (cedges g) \<and> ekey e = (kindNum k, s, d)"
    by (auto simp: findEdge_def find_Some_iff sameKey_iff)
next
  assume e: "e \<in> set (cedges g) \<and> ekey e = (kindNum k, s, d)"
  then obtain f where f: "findEdge k s d g = Some f" using findEdge_None[of k s d g] by auto
  then have "f \<in> set (cedges g) \<and> ekey f = (kindNum k, s, d)"
    by (auto simp: findEdge_def find_Some_iff sameKey_iff)
  then show "findEdge k s d g = Some e"
    using e f assms strict_key_inj[of "cedges g" e f] by (simp add: consg_inv_def)
qed

lemma hasEdge_iff: "hasEdge k s d g \<longleftrightarrow> (\<exists>e \<in> set (cedges g). ekind e = k \<and> esrc e = s \<and> edst e = d)"
  using findEdge_None[of k s d g] by (auto simp: hasEdge_def ekey_def)

lemma set_cedges_insertEdge [simp]: "set (cedges (insertEdge e g)) = insert e (set (cedges g))"
  by (simp add: insertEdge_def set_insort_key)

lemma insertEdge_simps [simp]:
  "cnodes (insertEdge e g) = cnodes g" "nodeToRep (insertEdge e g) = nodeToRep g"
  "pwcNodes (insertEdge e g) = pwcNodes g" "nodeToSubs (insertEdge e g) = nodeToSubs g"
  "nodesToBeCollapsed (insertEdge e g) = nodesToBeCollapsed g"
  by (simp_all add: insertEdge_def)

lemma sorted_insort_strict:
  assumes "sorted_wrt (\<lambda>a b. ekey a < ekey b) es" "\<forall>f \<in> set es. ekey f \<noteq> ekey e"
  shows "sorted_wrt (\<lambda>a b. ekey a < ekey b) (insort_key ekey e es)"
  using assms by (induction es) (auto simp: set_insort_key dest: less_trans)

text \<open>Everything but the edges is left alone.\<close>

definition same_nodes :: "consg \<Rightarrow> consg \<Rightarrow> bool" where
  "same_nodes g h \<longleftrightarrow> cnodes h = cnodes g \<and> nodeToRep h = nodeToRep g \<and> pwcNodes h = pwcNodes g
     \<and> nodeToSubs h = nodeToSubs g \<and> nodesToBeCollapsed h = nodesToBeCollapsed g"

lemma same_nodes_refl [simp]: "same_nodes g g"
  by (simp add: same_nodes_def)

lemma same_nodes_trans [trans]: "same_nodes g h \<Longrightarrow> same_nodes h k \<Longrightarrow> same_nodes g k"
  by (simp add: same_nodes_def)

lemma same_nodes_live: "same_nodes g h \<Longrightarrow> live h n = live g n"
  by (simp add: same_nodes_def live_def sccRepNode_def)

lemma same_nodes_rep: "same_nodes g h \<Longrightarrow> sccRepNode h n = sccRepNode g n"
  by (simp add: same_nodes_def sccRepNode_def)

lemma live_getConstraintNode: "live g n \<Longrightarrow> getConstraintNode n g = Some n"
  by (simp add: live_def getConstraintNode_def)

lemma getConstraintNode_live:
  "getConstraintNode n g = Some m \<Longrightarrow> m = sccRepNode g n \<and> m \<in> set (cnodes g)"
  by (auto simp: getConstraintNode_def Let_def split: if_splits)

lemma insertEdge_inv:
  assumes "consg_inv g" "live g (esrc e)" "live g (edst e)" "ekind e = Copy \<longrightarrow> esrc e \<noteq> edst e"
    "\<not> hasEdge (ekind e) (esrc e) (edst e) g"
  shows "consg_inv (insertEdge e g)" "same_nodes g (insertEdge e g)"
proof -
  show s: "same_nodes g (insertEdge e g)" by (simp add: same_nodes_def)
  have "\<forall>f \<in> set (cedges g). ekey f \<noteq> ekey e" using assms(5) by (auto simp: hasEdge_iff ekey_eq_iff)
  then have "sorted_wrt (\<lambda>a b. ekey a < ekey b) (cedges (insertEdge e g))"
    using assms(1) sorted_insort_strict by (simp add: insertEdge_def consg_inv_def)
  then show "consg_inv (insertEdge e g)"
    using assms same_nodes_live[OF s] by (auto simp: consg_inv_def)
qed

text \<open>The edge \<open>addEdgeOfKind\<close> adds; a copy edge has no access path.\<close>

definition mkEdge :: "ckind \<Rightarrow> node_id \<Rightarrow> node_id \<Rightarrow> int \<Rightarrow> pathcond option \<Rightarrow> consg \<Rightarrow> cedge" where
  "mkEdge k s d ap gd g = \<lparr>ekind = k, esrc = s, edst = d, edgeId = edgeIndex g, eguard = gd,
     eap = (if k = Copy then 0 else ap)\<rparr>"

lemma mkEdge_simps [simp]:
  "ekind (mkEdge k s d ap gd g) = k" "esrc (mkEdge k s d ap gd g) = s" "edst (mkEdge k s d ap gd g) = d"
  "eguard (mkEdge k s d ap gd g) = gd"
  by (simp_all add: mkEdge_def)

lemma addEdgeOfKind_live:
  assumes "live g s" "live g d"
  shows "addEdgeOfKind k s d ap gd g =
    (if hasEdge k s d g \<or> (k = Copy \<and> s = d) then Some (False, g)
     else Some (True, insertEdge (mkEdge k s d ap gd g) g))"
  using assms by (simp add: addEdgeOfKind_def addCopyCGEdge_def addCGEdge_def live_getConstraintNode mkEdge_def)

lemma addEdgeOfKind_inv:
  assumes "consg_inv g" "live g s" "live g d"
  shows "\<exists>b h. addEdgeOfKind k s d ap gd g = Some (b, h) \<and> consg_inv h \<and> same_nodes g h
    \<and> set (cedges g) \<subseteq> set (cedges h)
    \<and> (\<forall>e \<in> set (cedges h) - set (cedges g). esrc e = s \<and> edst e = d \<and> ekind e = k \<and> eguard e = gd)"
proof (cases "hasEdge k s d g \<or> (k = Copy \<and> s = d)")
  case True
  then show ?thesis using assms by (intro exI[of _ False] exI[of _ g]) (simp add: addEdgeOfKind_live)
next
  case False
  then show ?thesis
    using assms insertEdge_inv[of g "mkEdge k s d ap gd g"] by (auto simp: addEdgeOfKind_live)
qed

lemma removeEdge_inv:
  assumes "consg_inv g" "e \<in> set (cedges g)"
  shows "\<exists>h. removeEdge e g = Some h \<and> consg_inv h \<and> same_nodes g h
    \<and> set (cedges h) = set (cedges g) - {e} \<and> \<not> hasEdge (ekind e) (esrc e) (edst e) h"
proof -
  let ?h = "g\<lparr>cedges := filter (\<lambda>e'. ekey e' \<noteq> ekey e) (cedges g)\<rparr>"
  have l: "live g (esrc e)" "live g (edst e)" using assms by (auto simp: consg_inv_def)
  have "hasEdge (ekind e) (esrc e) (edst e) g" using assms(2) by (auto simp: hasEdge_iff)
  then have r: "removeEdge e g = Some ?h" using l by (simp add: removeEdge_def live_getConstraintNode)
  have s: "same_nodes g ?h" by (simp add: same_nodes_def)
  have "sorted_wrt (\<lambda>a b. ekey a < ekey b) (cedges g)" using assms(1) by (simp add: consg_inv_def)
  then have "f \<in> set (cedges g) \<Longrightarrow> ekey f = ekey e \<Longrightarrow> f = e" for f
    using strict_key_inj assms(2) by blast
  then have "set (cedges ?h) = set (cedges g) - {e}" by auto
  moreover have "consg_inv ?h"
    using assms(1) same_nodes_live[OF s] by (auto simp: consg_inv_def sorted_wrt_filter)
  moreover have "\<not> hasEdge (ekind e) (esrc e) (edst e) ?h"
    by (auto simp: hasEdge_iff ekey_def)
  ultimately show ?thesis using r s by blast
qed

section \<open>Retargeting\<close>

text \<open>What both retargeting operations do to the set of edges.\<close>

definition retargeted :: "cedge \<Rightarrow> node_id \<Rightarrow> node_id \<Rightarrow> consg \<Rightarrow> consg \<Rightarrow> bool" where
  "retargeted e s d g h \<longleftrightarrow> consg_inv h \<and> same_nodes g h \<and> set (cedges g) - {e} \<subseteq> set (cedges h)
     \<and> (\<forall>f \<in> set (cedges h). f \<in> set (cedges g) - {e}
          \<or> esrc f = s \<and> edst f = d \<and> ekind f = ekind e \<and> eguard f = eguard e)"

lemma retarget_step:
  assumes inv: "consg_inv g" and e: "e \<in> set (cedges g)" and l: "live g s" "live g d"
  shows "\<exists>g1. removeEdge e g = Some g1 \<and> retargeted e s d g g1
    \<and> (\<exists>b h. addEdgeOfKind (ekind e) s d (eap e) (eguard e) g1 = Some (b, h) \<and> retargeted e s d g h)"
proof -
  obtain g1 where g1: "removeEdge e g = Some g1" "consg_inv g1" "same_nodes g g1"
      "set (cedges g1) = set (cedges g) - {e}"
    using removeEdge_inv[OF inv e] by blast
  have l1: "live g1 s" "live g1 d" using l same_nodes_live[OF g1(3)] by simp_all
  obtain b h where h: "addEdgeOfKind (ekind e) s d (eap e) (eguard e) g1 = Some (b, h)"
      "consg_inv h" "same_nodes g1 h" "set (cedges g1) \<subseteq> set (cedges h)"
      "\<forall>f \<in> set (cedges h) - set (cedges g1).
         esrc f = s \<and> edst f = d \<and> ekind f = ekind e \<and> eguard f = eguard e"
    using addEdgeOfKind_inv[OF g1(2) l1, of "ekind e" "eap e" "eguard e"] by metis
  have "retargeted e s d g g1" using g1 by (simp add: retargeted_def)
  moreover have "retargeted e s d g h"
    using h g1 same_nodes_trans[OF g1(3) h(3)] unfolding retargeted_def by blast
  ultimately show ?thesis using g1(1) h(1) by blast
qed

lemma reTargetDst_inv:
  assumes "consg_inv g" "e \<in> set (cedges g)" "live g rep"
  shows "\<exists>h. reTargetDstOfEdge e rep g = Some h \<and> retargeted e (esrc e) rep g h"
proof -
  have "live g (esrc e)" using assms by (auto simp: consg_inv_def)
  from retarget_step[OF assms(1,2) this assms(3)] show ?thesis
    by (auto simp: reTargetDstOfEdge_def)
qed

lemma reTargetSrc_inv:
  assumes "consg_inv g" "e \<in> set (cedges g)" "live g rep"
  shows "\<exists>h. reTargetSrcOfEdge e rep g = Some h \<and> retargeted e rep (edst e) g h"
proof -
  have "live g (edst e)" using assms by (auto simp: consg_inv_def)
  from retarget_step[OF assms(1,2) assms(3) this] show ?thesis
    by (auto simp: reTargetSrcOfEdge_def)
qed

lemma removeEdge_retargeted:
  assumes "consg_inv g" "e \<in> set (cedges g)"
  shows "\<exists>h. removeEdge e g = Some h \<and> retargeted e s d g h"
  using removeEdge_inv[OF assms] by (auto simp: retargeted_def)

section \<open>Merging a node into its representative\<close>

text \<open>A loop that moves its edges away from where \<open>P\<close> looks.\<close>

definition away :: "(cedge \<Rightarrow> bool) \<Rightarrow> node_id \<Rightarrow> node_id \<Rightarrow> bool" where
  "away P s d \<longleftrightarrow> (\<forall>e. esrc e = s \<and> edst e = d \<longrightarrow> \<not> P e)"

lemma moving_loop:
  assumes step: "\<And>x h. x \<in> X \<Longrightarrow> consg_inv h \<Longrightarrow> same_nodes g h \<Longrightarrow> x \<in> set (cedges h) \<Longrightarrow>
      \<exists>h' s d. f x h = Some h' \<and> retargeted x s d h h' \<and> away P s d"
    and start: "consg_inv g0" "same_nodes g g0" "distinct xs" "set xs \<subseteq> X" "set xs \<subseteq> set (cedges g0)"
      "R \<subseteq> set (cedges g0)" "R \<inter> set xs = {}" "\<forall>e \<in> set (cedges g0). P e \<longrightarrow> e \<in> set xs \<union> R"
  shows "\<exists>h. foldO f xs g0 = Some h \<and> consg_inv h \<and> same_nodes g h \<and> R \<subseteq> set (cedges h)
    \<and> (\<forall>e \<in> set (cedges h). P e \<longrightarrow> e \<in> R)"
  using start
proof (induction xs arbitrary: g0)
  case (Cons x xs)
  obtain h s d where h: "f x g0 = Some h" "retargeted x s d g0 h"
      and away: "away P s d"
    using step[of x g0] Cons.prems by auto
  have r: "consg_inv h" "same_nodes g0 h" "set (cedges g0) - {x} \<subseteq> set (cedges h)"
      "\<forall>e \<in> set (cedges h). e \<in> set (cedges g0) - {x} \<or> (esrc e = s \<and> edst e = d)"
    using h(2) by (auto simp: retargeted_def)
  have "same_nodes g h" using Cons.prems(2) r(2) by (rule same_nodes_trans)
  moreover have "set xs \<subseteq> set (cedges h)" "R \<subseteq> set (cedges h)"
    using Cons.prems r(3) by auto
  moreover have "\<forall>e \<in> set (cedges h). P e \<longrightarrow> e \<in> set xs \<union> R"
    using Cons.prems(8) r(4) away unfolding away_def by auto
  ultimately show ?case using Cons.IH[of h] Cons.prems h(1) r(1) by auto
qed auto

definition criticalGep :: "cedge \<Rightarrow> bool" where
  "criticalGep e \<longleftrightarrow> isGepKind (ekind e) \<and> \<not> isZeroOffsettedGepCGEdge e"

definition moveScc :: "(cedge \<Rightarrow> node_id \<Rightarrow> consg \<Rightarrow> consg option) \<Rightarrow> node_id \<Rightarrow> cedge \<Rightarrow> consg \<Rightarrow> consg option" where
  "moveScc reTarget rep e g =
     (if ekind e = Load \<or> ekind e = Store then reTarget e rep g else removeEdge e g)"

lemma moveSccEdge_split:
  "moveSccEdge reTarget rep e (b, g) = map_option (Pair (b \<or> criticalGep e)) (moveScc reTarget rep e g)"
  by (cases "ekind e") (auto simp: moveSccEdge_def moveScc_def criticalGep_def isGepKind_def)

lemma foldO_moveSccEdge:
  "foldO (moveSccEdge reTarget rep) es (b, g) =
     map_option (Pair (b \<or> (\<exists>e \<in> set es. criticalGep e))) (foldO (moveScc reTarget rep) es g)"
  by (induction es arbitrary: b g) (auto simp: moveSccEdge_split disj_assoc split: option.splits)

lemma distinct_cedges: "consg_inv g \<Longrightarrow> distinct (cedges g)"
proof -
  have "sorted_wrt (\<lambda>a b. ekey a < ekey b) es \<Longrightarrow> distinct es" for es
    by (induction es) auto
  then show "consg_inv g \<Longrightarrow> distinct (cedges g)" by (simp add: consg_inv_def)
qed

lemma moveInEdges_inv:
  assumes inv: "consg_inv g" and l: "live g rep" and ne: "node \<noteq> rep"
  shows "\<exists>b h. moveInEdgesToRepNode node rep g = Some (b, h) \<and> consg_inv h \<and> same_nodes g h
    \<and> (\<forall>e \<in> set (cedges h). edst e \<noteq> node)
    \<and> (b \<longleftrightarrow> (\<exists>e \<in> set (cedges g). edst e = node \<and> sccRepNode g (esrc e) = rep \<and> criticalGep e))"
proof -
  let ?S = "filter (\<lambda>e. sccRepNode g (esrc e) = rep) (getInEdges node g)"
  let ?N = "filter (\<lambda>e. sccRepNode g (esrc e) \<noteq> rep) (getInEdges node g)"
  have d: "distinct ?S" "distinct ?N" using distinct_cedges[OF inv] by (simp_all add: getInEdges_def)
  have stepN: "\<exists>h' s d. reTargetDstOfEdge x rep h = Some h' \<and> retargeted x s d h h'
      \<and> away (\<lambda>e. edst e = node) s d"
    if "consg_inv h" "same_nodes g h" "x \<in> set (cedges h)" for x h
    using reTargetDst_inv[of h x rep] that l ne same_nodes_live[of g h rep] by (auto simp: away_def)
  have stepS: "\<exists>h' s d. moveScc reTargetDstOfEdge rep x h = Some h' \<and> retargeted x s d h h'
      \<and> away (\<lambda>e. edst e = node) s d"
    if "consg_inv h" "same_nodes g h" "x \<in> set (cedges h)" for x h
  proof (cases "ekind x = Load \<or> ekind x = Store")
    case True
    then have "moveScc reTargetDstOfEdge rep x h = reTargetDstOfEdge x rep h" by (simp add: moveScc_def)
    then show ?thesis using stepN[OF that] by (simp only:)
  next
    case False
    then show ?thesis
      using removeEdge_retargeted[OF that(1,3), of "esrc x" rep] ne by (auto simp: moveScc_def away_def)
  qed
  have "\<exists>h. foldO (\<lambda>e h. reTargetDstOfEdge e rep h) (rev ?N) g = Some h \<and> consg_inv h \<and> same_nodes g h
      \<and> set ?S \<subseteq> set (cedges h) \<and> (\<forall>e \<in> set (cedges h). edst e = node \<longrightarrow> e \<in> set ?S)"
    by (rule moving_loop[where X = UNIV]) (use stepN inv d in \<open>auto simp: getInEdges_def\<close>)
  then obtain h1 where h1: "foldO (\<lambda>e h. reTargetDstOfEdge e rep h) (rev ?N) g = Some h1" "consg_inv h1"
      "same_nodes g h1" "set ?S \<subseteq> set (cedges h1)" "\<forall>e \<in> set (cedges h1). edst e = node \<longrightarrow> e \<in> set ?S"
    by blast
  have "\<exists>h. foldO (moveScc reTargetDstOfEdge rep) (rev ?S) h1 = Some h \<and> consg_inv h \<and> same_nodes g h
      \<and> {} \<subseteq> set (cedges h) \<and> (\<forall>e \<in> set (cedges h). edst e = node \<longrightarrow> e \<in> {})"
    by (rule moving_loop[where X = UNIV]) (use stepS h1 d in auto)
  then obtain h2 where h2: "foldO (moveScc reTargetDstOfEdge rep) (rev ?S) h1 = Some h2" "consg_inv h2"
      "same_nodes g h2" "\<forall>e \<in> set (cedges h2). edst e \<noteq> node"
    by auto
  have "moveInEdgesToRepNode node rep g = Some (\<exists>e \<in> set (rev ?S). criticalGep e, h2)"
    using h1(1) h2(1) by (simp add: moveInEdgesToRepNode_def Let_def foldO_moveSccEdge)
  then show ?thesis using h2 by (auto simp: getInEdges_def)
qed

lemma moveOutEdges_inv:
  assumes inv: "consg_inv g" and l: "live g rep" and ne: "node \<noteq> rep"
    and no_in: "\<forall>e \<in> set (cedges g). edst e \<noteq> node"
  shows "\<exists>b h. moveOutEdgesToRepNode node rep g = Some (b, h) \<and> consg_inv h \<and> same_nodes g h
    \<and> (\<forall>e \<in> set (cedges h). esrc e \<noteq> node \<and> edst e \<noteq> node)
    \<and> (b \<longleftrightarrow> (\<exists>e \<in> set (cedges g). esrc e = node \<and> sccRepNode g (edst e) = rep \<and> criticalGep e))"
proof -
  let ?P = "\<lambda>e. esrc e = node \<or> edst e = node"
  let ?S = "filter (\<lambda>e. sccRepNode g (edst e) = rep) (getOutEdges node g)"
  let ?N = "filter (\<lambda>e. sccRepNode g (edst e) \<noteq> rep) (getOutEdges node g)"
  let ?X = "{e. edst e \<noteq> node}"
  have d: "distinct ?S" "distinct ?N" using distinct_cedges[OF inv] by (simp_all add: getOutEdges_def)
  have stepN: "\<exists>h' s d. reTargetSrcOfEdge x rep h = Some h' \<and> retargeted x s d h h'
      \<and> away ?P s d"
    if "x \<in> ?X" "consg_inv h" "same_nodes g h" "x \<in> set (cedges h)" for x h
    using reTargetSrc_inv[of h x rep] that l ne same_nodes_live[of g h rep] by (auto simp: away_def)
  have stepS: "\<exists>h' s d. moveScc reTargetSrcOfEdge rep x h = Some h' \<and> retargeted x s d h h'
      \<and> away ?P s d"
    if "x \<in> ?X" "consg_inv h" "same_nodes g h" "x \<in> set (cedges h)" for x h
  proof (cases "ekind x = Load \<or> ekind x = Store")
    case True
    then have "moveScc reTargetSrcOfEdge rep x h = reTargetSrcOfEdge x rep h" by (simp add: moveScc_def)
    then show ?thesis using stepN[OF that] by (simp only:)
  next
    case False
    then show ?thesis
      using removeEdge_retargeted[OF that(2,4), of rep rep] ne by (auto simp: moveScc_def away_def)
  qed
  have "\<exists>h. foldO (\<lambda>e h. reTargetSrcOfEdge e rep h) (rev ?N) g = Some h \<and> consg_inv h \<and> same_nodes g h
      \<and> set ?S \<subseteq> set (cedges h) \<and> (\<forall>e \<in> set (cedges h). ?P e \<longrightarrow> e \<in> set ?S)"
    by (rule moving_loop[where X = ?X]) (use stepN inv d no_in in \<open>auto simp: getOutEdges_def\<close>)
  then obtain h1 where h1: "foldO (\<lambda>e h. reTargetSrcOfEdge e rep h) (rev ?N) g = Some h1" "consg_inv h1"
      "same_nodes g h1" "set ?S \<subseteq> set (cedges h1)" "\<forall>e \<in> set (cedges h1). ?P e \<longrightarrow> e \<in> set ?S"
    by blast
  have "\<exists>h. foldO (moveScc reTargetSrcOfEdge rep) (rev ?S) h1 = Some h \<and> consg_inv h \<and> same_nodes g h
      \<and> {} \<subseteq> set (cedges h) \<and> (\<forall>e \<in> set (cedges h). ?P e \<longrightarrow> e \<in> {})"
  proof (rule moving_loop[where X = ?X])
    show "consg_inv h1" "same_nodes g h1" "distinct (rev ?S)" using h1 d by simp_all
    show "set (rev ?S) \<subseteq> ?X" using no_in by (auto simp: getOutEdges_def)
    show "set (rev ?S) \<subseteq> set (cedges h1)" using h1(4) by simp
    show "\<forall>e \<in> set (cedges h1). ?P e \<longrightarrow> e \<in> set (rev ?S) \<union> {}" using h1(5) by simp
  qed (use stepS in simp_all)
  then obtain h2 where h2: "foldO (moveScc reTargetSrcOfEdge rep) (rev ?S) h1 = Some h2" "consg_inv h2"
      "same_nodes g h2" "\<forall>e \<in> set (cedges h2). \<not> ?P e"
    by auto
  have "moveOutEdgesToRepNode node rep g = Some (\<exists>e \<in> set (rev ?S). criticalGep e, h2)"
    using h1(1) h2(1) by (simp add: moveOutEdgesToRepNode_def Let_def foldO_moveSccEdge)
  then show ?thesis using h2 by (auto simp: getOutEdges_def)
qed

lemma moveEdges_inv:
  assumes "consg_inv g" "live g rep" "node \<noteq> rep"
  shows "\<exists>b h. moveEdgesToRepNode node rep g = Some (b, h) \<and> consg_inv h \<and> same_nodes g h
    \<and> getInEdges node h = [] \<and> getOutEdges node h = []"
proof -
  obtain b1 g1 where 1: "moveInEdgesToRepNode node rep g = Some (b1, g1)" "consg_inv g1" "same_nodes g g1"
      "\<forall>e \<in> set (cedges g1). edst e \<noteq> node"
    using moveInEdges_inv[OF assms] by blast
  have "live g1 rep" using assms(2) same_nodes_live[OF 1(3)] by simp
  then obtain b2 g2 where 2: "moveOutEdgesToRepNode node rep g1 = Some (b2, g2)" "consg_inv g2"
      "same_nodes g1 g2" "\<forall>e \<in> set (cedges g2). esrc e \<noteq> node \<and> edst e \<noteq> node"
    using moveOutEdges_inv[OF 1(2) _ assms(3) 1(4)] by blast
  then show ?thesis
    using 1 same_nodes_trans[OF 1(3) 2(3)]
    by (simp add: moveEdgesToRepNode_def getInEdges_def getOutEdges_def filter_empty_conv)
qed

section \<open>A retargeted edge that meets another one\<close>

lemma retarget_onto_existing:
  assumes inv: "consg_inv g" and e: "e \<in> set (cedges g)" and f: "f \<in> set (cedges g)"
    and fk: "ekind f = ekind e" "esrc f = esrc e" "edst f = rep" and ne: "edst e \<noteq> rep" "ekind e \<noteq> Addr"
  shows "\<exists>h. reTargetDstOfEdge e rep g = Some h \<and> set (cedges h) = set (cedges g) - {e}
    \<and> findEdge (ekind e) (esrc e) rep h = Some f"
proof -
  obtain g1 where g1: "removeEdge e g = Some g1" "consg_inv g1" "same_nodes g g1"
      "set (cedges g1) = set (cedges g) - {e}"
    using removeEdge_inv[OF inv e] by blast
  have fin: "f \<in> set (cedges g1)" using f fk ne g1(4) by auto
  have "live g1 (esrc e)" "live g1 rep"
    using g1(2) fin fk by (auto simp: consg_inv_def)
  moreover have "hasEdge (ekind e) (esrc e) rep g1" using fin fk by (auto simp: hasEdge_iff)
  ultimately have "reTargetDstOfEdge e rep g = Some g1"
    using g1(1) ne by (simp add: reTargetDstOfEdge_def addEdgeOfKind_live)
  moreover have "findEdge (ekind e) (esrc e) rep g1 = Some f"
    using fin fk by (simp add: findEdge_Some[OF g1(2)] ekey_def)
  ultimately show ?thesis using g1(4) by blast
qed

section \<open>Nodes\<close>

lemma addConstraintNode_inv:
  assumes "consg_inv g" shows "consg_inv (addConstraintNode n g)"
  using assms by (auto simp: consg_inv_def addConstraintNode_def live_def sccRepNode_def)

lemma removeConstraintNode_inv:
  assumes "consg_inv g" "removeConstraintNode n g = Some h"
  shows "consg_inv h \<and> n \<notin> set (cnodes h)"
proof -
  have h: "getInEdges n g = []" "getOutEdges n g = []"
    "h = g\<lparr>cnodes := filter (\<lambda>m. m \<noteq> n) (cnodes g), pwcNodes := pwcNodes g - {n}\<rparr>"
    using assms(2) by (auto simp: removeConstraintNode_def split: if_splits)
  then have "\<forall>e \<in> set (cedges g). esrc e \<noteq> n \<and> edst e \<noteq> n"
    by (auto simp: getInEdges_def getOutEdges_def filter_empty_conv)
  then show ?thesis
    using assms(1) h(3) by (auto simp: consg_inv_def live_def sccRepNode_def)
qed

lemma setGuard_cedges:
  assumes "consg_inv g" "e \<in> set (cedges g)"
  shows "set (cedges (setGuard e gd g)) = insert (e\<lparr>eguard := gd\<rparr>) (set (cedges g) - {e})"
proof -
  have uniq: "f \<in> set (cedges g) \<Longrightarrow> ekey f = ekey e \<Longrightarrow> f = e" for f
    using strict_key_inj assms by (auto simp: consg_inv_def)
  have "set (cedges (setGuard e gd g))
      = (\<lambda>f. if ekey f = ekey e then f\<lparr>eguard := gd\<rparr> else f) ` set (cedges g)"
    by (simp add: setGuard_def)
  also have "\<dots> = insert (e\<lparr>eguard := gd\<rparr>) (set (cedges g) - {e})"
    using assms(2) uniq by (auto simp: image_iff)
  finally show ?thesis .
qed

lemma setGuard_nodes [simp]: "same_nodes g (setGuard e gd g)"
  by (simp add: same_nodes_def setGuard_def)

lemma setGuard_inv: "consg_inv g \<Longrightarrow> consg_inv (setGuard e gd g)"
proof -
  assume inv: "consg_inv g"
  have k: "ekey (if ekey f = ekey e then f\<lparr>eguard := gd\<rparr> else f) = ekey f" for f
    by (simp add: ekey_def)
  have "sorted_wrt (\<lambda>a b. ekey a < ekey b) (cedges (setGuard e gd g))"
    using inv by (simp add: setGuard_def consg_inv_def sorted_wrt_map k)
  then show ?thesis
    using inv same_nodes_live[OF setGuard_nodes] by (auto simp: consg_inv_def setGuard_def)
qed

section \<open>Properties\<close>

text \<open>
  On a well-formed constraint graph \<^verbatim>\<open>moveEdgesToRepNode\<close> succeeds: no assertion about a
  missing node or edge can fail, the graph stays well formed, and the merged node has no edge
  left, so that it can be removed.
\<close>

theorem moveEdgesToRepNode_detaches:
  assumes "consg_inv g" "live g node" "live g rep" "node \<noteq> rep"
  shows "\<exists>pwc h h'. moveEdgesToRepNode node rep g = Some (pwc, h) \<and> consg_inv h \<and> same_nodes g h
    \<and> removeConstraintNode node h = Some h' \<and> consg_inv h' \<and> node \<notin> set (cnodes h')"
proof -
  obtain pwc h where h: "moveEdgesToRepNode node rep g = Some (pwc, h)" "consg_inv h" "same_nodes g h"
      "getInEdges node h = []" "getOutEdges node h = []"
    using moveEdges_inv[OF assms(1,3,4)] by blast
  have "node \<in> set (cnodes h)" using assms(2) h(3) by (simp add: same_nodes_def live_def)
  then obtain h' where "removeConstraintNode node h = Some h'"
    using h by (simp add: removeConstraintNode_def)
  then show ?thesis using h removeConstraintNode_inv[OF h(2)] by blast
qed

text \<open>Three nodes in a row and a cycle between the last two, with one field edge.\<close>

definition demo_graph :: consg where
  "demo_graph = empty_consg\<lparr>cnodes := [10, 11, 12],
     cedges := [\<lparr>ekind = Copy, esrc = 10, edst = 11, edgeId = 0, eguard = None, eap = 0\<rparr>,
                \<lparr>ekind = Copy, esrc = 10, edst = 12, edgeId = 1, eguard = Some (AtomC 7 5 True), eap = 0\<rparr>,
                \<lparr>ekind = Copy, esrc = 11, edst = 12, edgeId = 2, eguard = None, eap = 0\<rparr>,
                \<lparr>ekind = NormalGep, esrc = 12, edst = 11, edgeId = 3, eguard = None, eap = 1\<rparr>]\<rparr>"

lemma demo_graph_inv: "consg_inv demo_graph" "live demo_graph 10" "live demo_graph 11" "live demo_graph 12"
  by (auto simp: demo_graph_def empty_consg_def consg_inv_def live_def sccRepNode_def oset_inv_def ekey_def
      less_prod_def)

theorem moveEdgesToRepNode_detaches_witness:
  "\<exists>pwc h. moveEdgesToRepNode 12 11 demo_graph = Some (pwc, h) \<and> consg_inv h"
  using moveEdgesToRepNode_detaches[OF demo_graph_inv(1,4,3)] by fastforce

text \<open>
  When a retargeted edge meets an edge of the same kind between the same nodes, the edge
  in place keeps its own guard and the guard of the retargeted one is lost, whatever the two
  guards are: a merge does not take the disjunction.
\<close>

theorem reTarget_drops_guard:
  assumes "consg_inv g" "e \<in> set (cedges g)" "f \<in> set (cedges g)"
    and "ekind f = ekind e" "esrc f = esrc e" "edst f = rep" "edst e \<noteq> rep" "ekind e \<noteq> Addr"
  shows "\<exists>h. reTargetDstOfEdge e rep g = Some h
    \<and> map_option eguard (findEdge (ekind e) (esrc e) rep h) = Some (eguard f)
    \<and> set (cedges h) = set (cedges g) - {e}"
  using retarget_onto_existing[OF assms] by auto

theorem reTarget_drops_guard_witness:
  "\<exists>h. reTargetDstOfEdge (cedges demo_graph ! 0) 12 demo_graph = Some h
    \<and> map_option eguard (findEdge Copy 10 12 h) = Some (Some (AtomC 7 5 True))"
proof -
  have "cedges demo_graph ! 0 \<in> set (cedges demo_graph)" "cedges demo_graph ! 1 \<in> set (cedges demo_graph)"
    and "ekind (cedges demo_graph ! 1) = ekind (cedges demo_graph ! 0)"
    and "esrc (cedges demo_graph ! 1) = esrc (cedges demo_graph ! 0)" "edst (cedges demo_graph ! 1) = 12"
    and "edst (cedges demo_graph ! 0) \<noteq> 12" "ekind (cedges demo_graph ! 0) \<noteq> Addr"
    by (simp_all add: demo_graph_def)
  note r = reTarget_drops_guard[OF demo_graph_inv(1) this]
  have "ekind (cedges demo_graph ! 0) = Copy" "esrc (cedges demo_graph ! 0) = 10"
    "eguard (cedges demo_graph ! 1) = Some (AtomC 7 5 True)"
    by (simp_all add: demo_graph_def)
  then show ?thesis using r by fastforce
qed

text \<open>
  A merge reports a positive weight cycle exactly when a field edge with a non-zero or
  variable offset ran between the merged node and its representative: from the representative
  when the incoming edges are moved.
\<close>

theorem moveInEdges_reports_cycle:
  assumes "consg_inv g" "live g rep" "node \<noteq> rep"
  shows "\<exists>h. moveInEdgesToRepNode node rep g =
    Some (\<exists>e \<in> set (cedges g). edst e = node \<and> sccRepNode g (esrc e) = rep
            \<and> (ekind e = VariantGep \<or> ekind e = NormalGep \<and> eap e \<noteq> 0), h)"
proof -
  have "criticalGep e \<longleftrightarrow> ekind e = VariantGep \<or> ekind e = NormalGep \<and> eap e \<noteq> 0" for e
    by (auto simp: criticalGep_def isGepKind_def isZeroOffsettedGepCGEdge_def)
  then show ?thesis using moveInEdges_inv[OF assms] by auto
qed

theorem moveInEdges_reports_cycle_witness:
  "\<exists>h. moveInEdgesToRepNode 11 12 demo_graph = Some (True, h)"
proof -
  have "\<exists>e \<in> set (cedges demo_graph). edst e = 11 \<and> sccRepNode demo_graph (esrc e) = 12
      \<and> (ekind e = VariantGep \<or> ekind e = NormalGep \<and> eap e \<noteq> 0)"
    by (simp add: demo_graph_def empty_consg_def sccRepNode_def)
  then show ?thesis using moveInEdges_reports_cycle[OF demo_graph_inv(1,4), of 11] by auto
qed

end
