(* ===== verification/SCC.thy ===== *)
theory SCC
  imports Prelude
begin

text \<open>
  \<^verbatim>\<open>src/SVF/svf/include/Graphs/SCC.h\<close>: the detector of strongly connected components
  (\<^verbatim>\<open>SCCDetection\<close>) that the solvers of the pointer analyses run on the constraint graph.

  The graph is its successor function \<open>succ\<close> (\<^verbatim>\<open>direct_child_begin\<close>). \<^verbatim>\<open>_NodeSCCAuxInfo\<close> is
  split into its fields, total functions with the values of a new entry outside the map; an
  entry is in the map exactly when the node has been visited, since \<^verbatim>\<open>find\<close> visits every node
  it looks up. The recursion of \<^verbatim>\<open>visit\<close> is on fuel, which the main result shows to be enough
  when there is one unit for every node.

  Main result: two nodes have the same representative exactly when each reaches the other,
  \<^verbatim>\<open>subNodes\<close> of a representative is its component, and the stack of representatives is in
  topological order.
\<close>

section \<open>The detector\<close>

definition UINT_MAX :: nat where "UINT_MAX = 2 ^ 32 - 1"

record sccs =
  sVisited :: "node_id \<Rightarrow> bool"
  sInSCC :: "node_id \<Rightarrow> bool"
  sRep :: "node_id \<Rightarrow> node_id"
  sSubs :: "node_id \<Rightarrow> node_id oset"
  sI :: nat
  sD :: "node_id \<Rightarrow> nat"
  sSS :: "node_id list"
  sT :: "node_id list"
  sRepNodes :: "node_id oset"

definition scc_clear :: sccs where
  "scc_clear = \<lparr>sVisited = (\<lambda>_. False), sInSCC = (\<lambda>_. False), sRep = (\<lambda>_. UINT_MAX), sSubs = (\<lambda>_. []),
     sI = 0, sD = (\<lambda>_. 0), sSS = [], sT = [], sRepNodes = []\<rparr>"

definition scc_rep :: "node_id \<Rightarrow> node_id \<Rightarrow> sccs \<Rightarrow> sccs" where
  "scc_rep n r s =
     (let s1 = s\<lparr>sRep := (sRep s)(n := r), sSubs := (sSubs s)(r := oset_insert n (sSubs s r))\<rparr>
      in if n \<noteq> r
         then s1\<lparr>sSubs := (sSubs s1)(n := []),
                 sRepNodes := oset_insert r (filter (\<lambda>x. x \<noteq> n) (sRepNodes s1))\<rparr>
         else s1)"

definition scc_enter :: "node_id \<Rightarrow> sccs \<Rightarrow> sccs" where
  "scc_enter v s =
     (let s1 = s\<lparr>sI := u32 (sI s + 1)\<rparr>;
          s2 = scc_rep v v (s1\<lparr>sD := (sD s1)(v := sI s1)\<rparr>)
      in s2\<lparr>sVisited := (sVisited s2)(v := True)\<rparr>)"

text \<open>The end of the loop body: \<open>w\<close> is a successor of \<open>v\<close> that has been visited.\<close>

definition scc_relax :: "node_id \<Rightarrow> node_id \<Rightarrow> sccs \<Rightarrow> sccs" where
  "scc_relax v w s =
     (if \<not> sInSCC s w
      then scc_rep v (if sD s (sRep s v) < sD s (sRep s w) then sRep s v else sRep s w) s
      else s)"

fun scc_pop :: "node_id \<Rightarrow> node_id list \<Rightarrow> sccs \<Rightarrow> sccs" where
  "scc_pop v [] s = s\<lparr>sSS := []\<rparr>"
| "scc_pop v (w # ws) s =
     (if sD s w \<le> sD s v then s\<lparr>sSS := w # ws\<rparr>
      else scc_pop v ws (scc_rep w v (s\<lparr>sInSCC := (sInSCC s)(w := True)\<rparr>)))"

definition scc_leave :: "node_id \<Rightarrow> sccs \<Rightarrow> sccs" where
  "scc_leave v s =
     (if sRep s v = v
      then let s1 = s\<lparr>sInSCC := (sInSCC s)(v := True)\<rparr>;
               s2 = scc_pop v (sSS s1) s1
           in s2\<lparr>sT := v # sT s2\<rparr>
      else s\<lparr>sSS := v # sSS s\<rparr>)"

primrec scc_visit :: "nat \<Rightarrow> (node_id \<Rightarrow> node_id list) \<Rightarrow> node_id \<Rightarrow> sccs \<Rightarrow> sccs option" where
  "scc_visit 0 = (\<lambda>succ v s. None)"
| "scc_visit (Suc n) = (\<lambda>succ v s.
     map_option (scc_leave v)
       (foldO (\<lambda>w t. map_option (scc_relax v w)
                  (if \<not> sVisited t w then scc_visit n succ w t else Some t))
          (succ v) (scc_enter v s)))"

text \<open>\<^verbatim>\<open>find\<close> over all nodes and over a set of candidates: \<open>nodes\<close> is what the loop runs over.\<close>

definition scc_find :: "nat \<Rightarrow> (node_id \<Rightarrow> node_id list) \<Rightarrow> node_id list \<Rightarrow> sccs option" where
  "scc_find n succ nodes =
     foldO (\<lambda>v s. if \<not> sVisited s v \<and> (sRep s v = UINT_MAX \<or> sRep s v = v) then scc_visit n succ v s
                  else Some s) nodes scc_clear"

definition repNode :: "node_id \<Rightarrow> sccs \<Rightarrow> node_id option" where
  "repNode n s = (if sVisited s n then Some (if sRep s n \<noteq> UINT_MAX then sRep s n else n) else None)"

definition subNodes :: "node_id \<Rightarrow> sccs \<Rightarrow> node_id oset option" where
  "subNodes n s = (if sVisited s n then Some (sSubs s n) else None)"

definition isInCycle :: "(node_id \<Rightarrow> node_id list) \<Rightarrow> node_id \<Rightarrow> sccs \<Rightarrow> bool option" where
  "isInCycle succ n s =
     (case repNode n s of
        None \<Rightarrow> None
      | Some r \<Rightarrow> map_option (\<lambda>subs. length subs > 1 \<or> list_ex (\<lambda>w. w = r) (succ r)) (subNodes r s))"

section \<open>Reachability\<close>

definition edges_of :: "(node_id \<Rightarrow> node_id list) \<Rightarrow> (node_id \<times> node_id) set" where
  "edges_of succ = {(u, w). w \<in> set (succ u)}"

abbreviation reaches :: "(node_id \<Rightarrow> node_id list) \<Rightarrow> node_id \<Rightarrow> node_id \<Rightarrow> bool" where
  "reaches succ u w \<equiv> (u, w) \<in> (edges_of succ)\<^sup>*"

definition mutual :: "(node_id \<Rightarrow> node_id list) \<Rightarrow> node_id \<Rightarrow> node_id \<Rightarrow> bool" where
  "mutual succ u w \<longleftrightarrow> reaches succ u w \<and> reaches succ w u"

lemma closed_reaches:
  assumes "reaches succ u w" "u \<in> A" "\<And>x y. x \<in> A \<Longrightarrow> y \<in> set (succ x) \<Longrightarrow> y \<in> A"
  shows "w \<in> A"
  using assms(1,2) by (induction rule: rtrancl_induct) (auto simp: edges_of_def dest: assms(3))

lemma reaches_step: "w \<in> set (succ v) \<Longrightarrow> reaches succ u v \<Longrightarrow> reaches succ u w"
  by (auto simp: edges_of_def intro: rtrancl_into_rtrancl)

section \<open>The invariant\<close>

text \<open>\<open>G\<close> is the set of nodes whose \<^verbatim>\<open>visit\<close> is running.\<close>

definition scc_sets :: "node_id set \<Rightarrow> sccs \<Rightarrow> bool" where
  "scc_sets G s \<longleftrightarrow>
     (\<forall>x. sVisited s x \<longleftrightarrow> sInSCC s x \<or> x \<in> G \<or> x \<in> set (sSS s))
     \<and> (\<forall>x. sInSCC s x \<longrightarrow> x \<notin> G \<and> x \<notin> set (sSS s)) \<and> G \<inter> set (sSS s) = {}
     \<and> distinct (sSS s)"

definition scc_nums :: "sccs \<Rightarrow> bool" where
  "scc_nums s \<longleftrightarrow> finite {x. sVisited s x} \<and> sI s = card {x. sVisited s x} \<and> inj_on (sD s) {x. sVisited s x}
     \<and> (\<forall>x. sVisited s x \<longrightarrow> 0 < sD s x \<and> sD s x \<le> sI s)"

definition scc_reps :: "(node_id \<Rightarrow> node_id list) \<Rightarrow> node_id set \<Rightarrow> sccs \<Rightarrow> bool" where
  "scc_reps succ G s \<longleftrightarrow>
     (\<forall>x. sVisited s x \<and> \<not> sInSCC s x \<longrightarrow>
        sVisited s (sRep s x) \<and> \<not> sInSCC s (sRep s x) \<and> sD s (sRep s x) \<le> sD s x \<and> reaches succ x (sRep s x))
     \<and> (\<forall>x \<in> set (sSS s). sD s (sRep s x) < sD s x
          \<and> (\<forall>y \<in> set (succ x). sVisited s y \<and> (sInSCC s y \<or> sD s (sRep s x) \<le> sD s y)))
     \<and> (\<forall>g \<in> G. \<forall>x. sVisited s x \<and> \<not> sInSCC s x \<and> sD s g \<le> sD s x \<longrightarrow> reaches succ g x)"

definition scc_comps :: "(node_id \<Rightarrow> node_id list) \<Rightarrow> sccs \<Rightarrow> bool" where
  "scc_comps succ s \<longleftrightarrow>
     (\<forall>x. sInSCC s x \<longrightarrow> (\<forall>y \<in> set (succ x). sInSCC s y))
     \<and> (\<forall>x. sInSCC s x \<longrightarrow> sInSCC s (sRep s x) \<and> sRep s (sRep s x) = sRep s x)
     \<and> (\<forall>x y. sInSCC s x \<and> sInSCC s y \<longrightarrow> (sRep s x = sRep s y) = mutual succ x y)
     \<and> set (sT s) = {x. sInSCC s x \<and> sRep s x = x} \<and> distinct (sT s)
     \<and> sorted_wrt (\<lambda>a b. \<not> reaches succ b a) (sT s)"

definition scc_subs :: "sccs \<Rightarrow> bool" where
  "scc_subs s \<longleftrightarrow>
     (\<forall>r. oset_inv (sSubs s r))
     \<and> (\<forall>r. \<not> sVisited s r \<longrightarrow> sSubs s r = [] \<and> sRep s r = UINT_MAX)
     \<and> (\<forall>r. sInSCC s r \<longrightarrow> set (sSubs s r) = (if sRep s r = r then {x. sInSCC s x \<and> sRep s x = r} else {}))
     \<and> (\<forall>r. sVisited s r \<and> \<not> sInSCC s r \<longrightarrow>
          (sRep s r = r \<longrightarrow> r \<in> set (sSubs s r))
          \<and> (\<forall>x \<in> set (sSubs s r). sVisited s x \<and> \<not> sInSCC s x \<and> sD s r \<le> sD s x
              \<and> sD s (sRep s x) \<le> sD s r))"

definition scc_inv :: "(node_id \<Rightarrow> node_id list) \<Rightarrow> node_id set \<Rightarrow> sccs \<Rightarrow> bool" where
  "scc_inv succ G s \<longleftrightarrow> scc_sets G s \<and> scc_nums s \<and> scc_reps succ G s \<and> scc_comps succ s \<and> scc_subs s"


lemmas scc_inv_defs = scc_inv_def scc_sets_def scc_nums_def scc_reps_def scc_comps_def scc_subs_def

lemma scc_numsD:
  assumes "scc_nums s"
  shows "finite {x. sVisited s x}" "sI s = card {x. sVisited s x}" "inj_on (sD s) {x. sVisited s x}"
    "sVisited s x \<Longrightarrow> 0 < sD s x" "sVisited s x \<Longrightarrow> sD s x \<le> sI s"
  using assms unfolding scc_nums_def by blast+

lemma scc_nums_cong:
  assumes "scc_nums s" "sVisited t = sVisited s" "sI t = sI s" "sD t = sD s"
  shows "scc_nums t"
proof -
  have "scc_nums t = scc_nums s" unfolding scc_nums_def assms(2-4) ..
  then show ?thesis using assms(1) by simp
qed

lemma scc_subs_cong:
  assumes "scc_subs s" "sVisited t = sVisited s" "sInSCC t = sInSCC s" "sRep t = sRep s" "sD t = sD s"
    "sSubs t = sSubs s"
  shows "scc_subs t"
proof -
  have "scc_subs t = scc_subs s" unfolding scc_subs_def assms(2-6) ..
  then show ?thesis using assms(1) by simp
qed

lemma scc_setsD:
  assumes "scc_sets G s"
  shows "sVisited s x \<longleftrightarrow> sInSCC s x \<or> x \<in> G \<or> x \<in> set (sSS s)"
    "sInSCC s x \<Longrightarrow> x \<notin> G" "sInSCC s x \<Longrightarrow> x \<notin> set (sSS s)" "x \<in> G \<Longrightarrow> x \<notin> set (sSS s)"
    "distinct (sSS s)"
  using assms unfolding scc_sets_def by blast+

lemma scc_repsD:
  assumes "scc_reps succ G s"
  shows "sVisited s x \<Longrightarrow> \<not> sInSCC s x \<Longrightarrow> sVisited s (sRep s x)"
    "sVisited s x \<Longrightarrow> \<not> sInSCC s x \<Longrightarrow> \<not> sInSCC s (sRep s x)"
    "sVisited s x \<Longrightarrow> \<not> sInSCC s x \<Longrightarrow> sD s (sRep s x) \<le> sD s x"
    "sVisited s x \<Longrightarrow> \<not> sInSCC s x \<Longrightarrow> reaches succ x (sRep s x)"
    "x \<in> set (sSS s) \<Longrightarrow> sD s (sRep s x) < sD s x"
    "x \<in> set (sSS s) \<Longrightarrow> y \<in> set (succ x) \<Longrightarrow> sVisited s y"
    "x \<in> set (sSS s) \<Longrightarrow> y \<in> set (succ x) \<Longrightarrow> sInSCC s y \<or> sD s (sRep s x) \<le> sD s y"
    "g \<in> G \<Longrightarrow> sVisited s x \<Longrightarrow> \<not> sInSCC s x \<Longrightarrow> sD s g \<le> sD s x \<Longrightarrow> reaches succ g x"
  using assms unfolding scc_reps_def by blast+

lemma scc_compsD:
  assumes "scc_comps succ s"
  shows "sInSCC s x \<Longrightarrow> y \<in> set (succ x) \<Longrightarrow> sInSCC s y"
    "sInSCC s x \<Longrightarrow> sInSCC s (sRep s x)" "sInSCC s x \<Longrightarrow> sRep s (sRep s x) = sRep s x"
    "sInSCC s x \<Longrightarrow> sInSCC s y \<Longrightarrow> (sRep s x = sRep s y) = mutual succ x y"
    "set (sT s) = {x. sInSCC s x \<and> sRep s x = x}" "distinct (sT s)"
    "sorted_wrt (\<lambda>a b. \<not> reaches succ b a) (sT s)"
  using assms unfolding scc_comps_def by blast+

lemma scc_subsD:
  assumes "scc_subs s"
  shows "oset_inv (sSubs s r)" "\<not> sVisited s r \<Longrightarrow> sSubs s r = []"
    "sInSCC s r \<Longrightarrow> set (sSubs s r) = (if sRep s r = r then {x. sInSCC s x \<and> sRep s x = r} else {})"
    "sVisited s r \<Longrightarrow> \<not> sInSCC s r \<Longrightarrow> x \<in> set (sSubs s r) \<Longrightarrow> sVisited s x"
    "sVisited s r \<Longrightarrow> \<not> sInSCC s r \<Longrightarrow> x \<in> set (sSubs s r) \<Longrightarrow> \<not> sInSCC s x"
    "sVisited s r \<Longrightarrow> \<not> sInSCC s r \<Longrightarrow> x \<in> set (sSubs s r) \<Longrightarrow> sD s r \<le> sD s x"
    "sVisited s r \<Longrightarrow> \<not> sInSCC s r \<Longrightarrow> sRep s r = r \<Longrightarrow> r \<in> set (sSubs s r)"
    "sVisited s r \<Longrightarrow> \<not> sInSCC s r \<Longrightarrow> x \<in> set (sSubs s r) \<Longrightarrow> sD s (sRep s x) \<le> sD s r"
    "\<not> sVisited s r \<Longrightarrow> sRep s r = UINT_MAX"
  using assms unfolding scc_subs_def by blast+

lemma scc_invD:
  assumes "scc_inv succ G s"
  shows "scc_sets G s" "scc_nums s" "scc_reps succ G s" "scc_comps succ s" "scc_subs s"
  using assms by (simp_all add: scc_inv_def)

lemma scc_rep_simps [simp]:
  "sVisited (scc_rep n r s) = sVisited s" "sInSCC (scc_rep n r s) = sInSCC s"
  "sRep (scc_rep n r s) = (sRep s)(n := r)" "sI (scc_rep n r s) = sI s" "sD (scc_rep n r s) = sD s"
  "sSS (scc_rep n r s) = sSS s" "sT (scc_rep n r s) = sT s"
  by (simp_all add: scc_rep_def Let_def)

lemma scc_rep_subs:
  "sSubs (scc_rep n r s) =
     (if n = r then (sSubs s)(r := oset_insert n (sSubs s r))
      else (sSubs s)(r := oset_insert n (sSubs s r), n := []))"
  by (simp add: scc_rep_def Let_def fun_upd_twist)

lemma scc_enter_simps [simp]:
  "sVisited (scc_enter v s) = (sVisited s)(v := True)" "sInSCC (scc_enter v s) = sInSCC s"
  "sRep (scc_enter v s) = (sRep s)(v := v)" "sI (scc_enter v s) = u32 (sI s + 1)"
  "sD (scc_enter v s) = (sD s)(v := u32 (sI s + 1))" "sSS (scc_enter v s) = sSS s"
  "sT (scc_enter v s) = sT s" "sSubs (scc_enter v s) = (sSubs s)(v := oset_insert v (sSubs s v))"
  by (simp_all add: scc_enter_def Let_def scc_rep_subs)

lemma scc_comps_cong:
  assumes c: "scc_comps succ s" and t: "sInSCC t = sInSCC s" "sT t = sT s"
    and r: "\<And>x. sInSCC s x \<Longrightarrow> sRep t x = sRep s x"
  shows "scc_comps succ t"
proof -
  have a: "\<forall>x. sInSCC s x \<longrightarrow> (\<forall>y \<in> set (succ x). sInSCC s y)"
    and b: "\<And>x. sInSCC s x \<Longrightarrow> sInSCC s (sRep s x) \<and> sRep s (sRep s x) = sRep s x"
    and e: "\<And>x y. sInSCC s x \<Longrightarrow> sInSCC s y \<Longrightarrow> (sRep s x = sRep s y) = mutual succ x y"
    and T: "set (sT s) = {x. sInSCC s x \<and> sRep s x = x}" "distinct (sT s)"
      "sorted_wrt (\<lambda>a b. \<not> reaches succ b a) (sT s)"
    using c unfolding scc_comps_def by blast+
  have "set (sT t) = {x. sInSCC t x \<and> sRep t x = x}" using T(1) t r by auto
  moreover have "sInSCC t (sRep t x) \<and> sRep t (sRep t x) = sRep t x" if "sInSCC t x" for x
    using b[of x] that t r[of x] r[of "sRep s x"] by simp
  moreover have "(sRep t x = sRep t y) = mutual succ x y" if "sInSCC t x" "sInSCC t y" for x y
    using e[of x y] that t r by simp
  ultimately show ?thesis unfolding scc_comps_def using a T t by metis
qed

lemma scc_enter_inv:
  assumes inv: "scc_inv succ G s" and v: "\<not> sVisited s v" and G: "\<And>g. g \<in> G \<Longrightarrow> reaches succ g v"
    and I: "sI s + 1 < 2 ^ 32"
  shows "scc_inv succ (insert v G) (scc_enter v s)"
proof -
  let ?t = "scc_enter v s"
  have sets: "scc_sets G s" and nums: "scc_nums s" and reps: "scc_reps succ G s"
    and comps: "scc_comps succ s" and subs: "scc_subs s"
    by (rule scc_invD[OF inv])+
  have [simp]: "u32 (Suc (sI s)) = Suc (sI s)" using I by (intro u32_small) simp
  have nv: "\<not> sInSCC s v" "v \<notin> G" "v \<notin> set (sSS s)" using sets v by (auto simp: scc_sets_def)
  have fin: "finite {x. sVisited s x}" using nums unfolding scc_nums_def by blast
  have V: "{x. sVisited ?t x} = insert v {x. sVisited s x}" by auto
  have "scc_sets (insert v G) ?t"
    using sets nv unfolding scc_sets_def by auto
  moreover have "scc_nums ?t"
  proof -
    have d: "0 < sD s x \<and> sD s x \<le> sI s" if "sVisited s x" for x using scc_numsD(4,5)[OF nums, of x] that by blast
    have inj: "inj_on (sD s) {x. sVisited s x}" and card: "sI s = card {x. sVisited s x}"
      by (rule scc_numsD[OF nums])+
    have "inj_on (sD ?t) (insert v {x. sVisited s x})"
    proof (rule inj_onI)
      fix x y assume xy: "x \<in> insert v {x. sVisited s x}" "y \<in> insert v {x. sVisited s x}" "sD ?t x = sD ?t y"
      show "x = y"
      proof (cases "x = v \<or> y = v")
        case True then show ?thesis using xy d[of x] d[of y] by (cases "x = v"; cases "y = v") auto
      next
        case False then show ?thesis using xy inj by (auto dest: inj_onD)
      qed
    qed
    moreover have "card (insert v {x. sVisited s x}) = Suc (sI s)"
      unfolding card using fin v by (simp add: card_insert_disjoint)
    then have "sI ?t = card (insert v {x. sVisited s x})" by simp
    moreover have "0 < sD ?t x \<and> sD ?t x \<le> sI ?t" if "sVisited ?t x" for x
      using d[of x] that by (cases "x = v") auto
    ultimately show ?thesis unfolding scc_nums_def V using fin by blast
  qed
  moreover have "scc_reps succ (insert v G) ?t"
  proof -
    have d: "sD s x \<le> sI s" if "sVisited s x" for x using scc_numsD(5)[OF nums] that by blast
    note r = scc_repsD(1-4)[OF reps]
    have ss: "sVisited s x" "\<not> sInSCC s x" if "x \<in> set (sSS s)" for x
      using scc_setsD(1,3)[OF sets, of x] that by blast+
    have G': "sVisited s g" if "g \<in> G" for g using scc_setsD(1)[OF sets, of g] that by blast
    have 1: "\<forall>x. sVisited ?t x \<and> \<not> sInSCC ?t x \<longrightarrow>
        sVisited ?t (sRep ?t x) \<and> \<not> sInSCC ?t (sRep ?t x) \<and> sD ?t (sRep ?t x) \<le> sD ?t x \<and> reaches succ x (sRep ?t x)"
    proof (intro allI impI)
      fix x assume x: "sVisited ?t x \<and> \<not> sInSCC ?t x"
      show "sVisited ?t (sRep ?t x) \<and> \<not> sInSCC ?t (sRep ?t x) \<and> sD ?t (sRep ?t x) \<le> sD ?t x \<and> reaches succ x (sRep ?t x)"
      proof (cases "x = v")
        case True then show ?thesis using nv by simp
      next
        case False
        then have "sVisited s x" "\<not> sInSCC s x" using x by simp_all
        moreover from this have "sRep s x \<noteq> v" using r(1)[of x] v by auto
        ultimately show ?thesis using r[of x] False by simp
      qed
    qed
    have 2: "\<forall>x \<in> set (sSS ?t). sD ?t (sRep ?t x) < sD ?t x
          \<and> (\<forall>y \<in> set (succ x). sVisited ?t y \<and> (sInSCC ?t y \<or> sD ?t (sRep ?t x) \<le> sD ?t y))"
    proof
      fix x assume x: "x \<in> set (sSS ?t)"
      then have xs: "x \<in> set (sSS s)" by simp
      then have ne: "x \<noteq> v" "sRep s x \<noteq> v" using ss[OF xs] r(1)[of x] v by auto
      moreover have "sVisited s y \<and> y \<noteq> v" if "y \<in> set (succ x)" for y
        using scc_repsD(6)[OF reps xs that] v by auto
      ultimately show "sD ?t (sRep ?t x) < sD ?t x
          \<and> (\<forall>y \<in> set (succ x). sVisited ?t y \<and> (sInSCC ?t y \<or> sD ?t (sRep ?t x) \<le> sD ?t y))"
        using scc_repsD(5,7)[OF reps xs] by simp
    qed
    have 3: "\<forall>g \<in> insert v G. \<forall>x. sVisited ?t x \<and> \<not> sInSCC ?t x \<and> sD ?t g \<le> sD ?t x \<longrightarrow> reaches succ g x"
    proof (intro ballI allI impI)
      fix g x assume g: "g \<in> insert v G" and x: "sVisited ?t x \<and> \<not> sInSCC ?t x \<and> sD ?t g \<le> sD ?t x"
      show "reaches succ g x"
      proof (cases "x = v")
        case True then show ?thesis using g G by auto
      next
        case False
        then have xv: "sVisited s x" using x by simp
        then have "g \<noteq> v" using x False d[of x] by auto
        then show ?thesis using g x False scc_repsD(8)[OF reps, of g x] xv by simp
      qed
    qed
    show ?thesis unfolding scc_reps_def using 1 2 3 by blast
  qed
  moreover have "scc_comps succ ?t"
    by (rule scc_comps_cong[OF comps]) (use nv in auto)
  moreover have "scc_subs ?t"
  proof -
    note D = scc_subsD[OF subs]
    have sv: "sSubs s v = []" using D(2) v by blast
    have vis: "sVisited s r" if "sInSCC s r" for r using scc_setsD(1)[OF sets] that by blast
    have oi: "oset_inv (sSubs ?t r)" for r using D(1)[of r] D(1)[of v] by simp
    have unv: "sSubs ?t r = [] \<and> sRep ?t r = UINT_MAX" if "\<not> sVisited ?t r" for r
      using D(2,9)[of r] that by (auto split: if_splits)
    have inC: "set (sSubs ?t r) = (if sRep ?t r = r then {x. sInSCC ?t x \<and> sRep ?t x = r} else {})"
      if r: "sInSCC ?t r" for r
    proof -
      have "r \<noteq> v" using r nv by auto
      moreover have "{x. sInSCC ?t x \<and> sRep ?t x = r} = {x. sInSCC s x \<and> sRep s x = r}" using nv by auto
      ultimately show ?thesis using D(3)[of r] r by simp
    qed
    have out: "sVisited ?t x \<and> \<not> sInSCC ?t x \<and> sD ?t r \<le> sD ?t x \<and> sD ?t (sRep ?t x) \<le> sD ?t r"
      if r: "sVisited ?t r" "\<not> sInSCC ?t r" "x \<in> set (sSubs ?t r)" for r x
    proof (cases "r = v")
      case True then show ?thesis using r sv nv by simp
    next
      case False
      then have r': "sVisited s r" "\<not> sInSCC s r" "x \<in> set (sSubs s r)" using r by simp_all
      note d = D(4-6)[OF r'] D(8)[OF r']
      have "x \<noteq> v" using d(1) v by auto
      moreover have "sRep s x \<noteq> v" using scc_repsD(1)[OF reps d(1,2)] v by auto
      ultimately show ?thesis using d False by simp
    qed
    have own: "r \<in> set (sSubs ?t r)" if "sVisited ?t r" "\<not> sInSCC ?t r" "sRep ?t r = r" for r
      using D(7)[of r] that by (cases "r = v") auto
    show ?thesis unfolding scc_subs_def using oi unv inC out own by blast
  qed
  ultimately show ?thesis by (simp add: scc_inv_def)
qed

lemma scc_relax_simps [simp]:
  "sVisited (scc_relax v w s) = sVisited s" "sInSCC (scc_relax v w s) = sInSCC s"
  "sI (scc_relax v w s) = sI s" "sD (scc_relax v w s) = sD s" "sSS (scc_relax v w s) = sSS s"
  "sT (scc_relax v w s) = sT s"
  by (simp_all add: scc_relax_def)

lemma scc_relax_rep:
  "sRep (scc_relax v w s) =
     (if sInSCC s w then sRep s
      else (sRep s)(v := if sD s (sRep s v) < sD s (sRep s w) then sRep s v else sRep s w))"
  by (simp add: scc_relax_def)

text \<open>Giving a running node another representative that it reaches.\<close>

lemma scc_rep_inv:
  assumes inv: "scc_inv succ G s" and v: "v \<in> G"
    and r: "sVisited s r" "\<not> sInSCC s r" "sD s r \<le> sD s (sRep s v)" "reaches succ v r"
  shows "scc_inv succ G (scc_rep v r s)"
proof -
  let ?t = "scc_rep v r s"
  note sets = scc_invD(1)[OF inv] and nums = scc_invD(2)[OF inv] and reps = scc_invD(3)[OF inv]
    and comps = scc_invD(4)[OF inv] and subs = scc_invD(5)[OF inv]
  have nv: "sVisited s v" "\<not> sInSCC s v" "v \<notin> set (sSS s)"
    using scc_setsD[OF sets] v by blast+
  have rv: "sD s r \<le> sD s v" using scc_repsD(3)[OF reps nv(1,2)] r(3) by simp
  have "scc_sets G ?t" using sets by (simp add: scc_sets_def)
  moreover have "scc_nums ?t" by (rule scc_nums_cong[OF nums]) simp_all
  moreover have "scc_reps succ G ?t"
  proof -
    note R = scc_repsD[OF reps]
    have "sVisited ?t (sRep ?t x) \<and> \<not> sInSCC ?t (sRep ?t x) \<and> sD ?t (sRep ?t x) \<le> sD ?t x \<and> reaches succ x (sRep ?t x)"
      if "sVisited ?t x" "\<not> sInSCC ?t x" for x
      using R(1-4)[of x] r rv that by (cases "x = v") auto
    moreover have "sD ?t (sRep ?t x) < sD ?t x
          \<and> (\<forall>y \<in> set (succ x). sVisited ?t y \<and> (sInSCC ?t y \<or> sD ?t (sRep ?t x) \<le> sD ?t y))"
      if "x \<in> set (sSS ?t)" for x
      using R(5-7)[of x] that nv by (cases "x = v") auto
    moreover have "reaches succ g x" if "g \<in> G" "sVisited ?t x" "\<not> sInSCC ?t x" "sD ?t g \<le> sD ?t x" for g x
      using R(8)[of g x] that by simp
    ultimately show ?thesis unfolding scc_reps_def by blast
  qed
  moreover have "scc_comps succ ?t" by (rule scc_comps_cong[OF comps]) (use nv in auto)
  moreover have "scc_subs ?t"
  proof -
    note D = scc_subsD[OF subs]
    have oi: "oset_inv (sSubs ?t x)" for x using D(1)[of x] D(1)[of r] by (simp add: scc_rep_subs)
    have unv: "sSubs ?t x = [] \<and> sRep ?t x = UINT_MAX" if "\<not> sVisited ?t x" for x
      using D(2,9)[of x] that r nv by (auto simp: scc_rep_subs)
    have inC: "set (sSubs ?t x) = (if sRep ?t x = x then {y. sInSCC ?t y \<and> sRep ?t y = x} else {})"
      if x: "sInSCC ?t x" for x
    proof -
      have "x \<noteq> v" "x \<noteq> r" using x nv r by auto
      moreover have "{y. sInSCC ?t y \<and> sRep ?t y = x} = {y. sInSCC s y \<and> sRep s y = x}" using nv by auto
      ultimately show ?thesis using D(3)[of x] x by (auto simp: scc_rep_subs split: if_splits)
    qed
    have out: "sVisited ?t y \<and> \<not> sInSCC ?t y \<and> sD ?t x \<le> sD ?t y \<and> sD ?t (sRep ?t y) \<le> sD ?t x"
      if x: "sVisited ?t x" "\<not> sInSCC ?t x" "y \<in> set (sSubs ?t x)" for x y
    proof (cases "y \<in> set (sSubs s x)")
      case True then show ?thesis using D(4-6)[of x y] D(8)[of x y] x r(3) by auto
    next
      case False
      then have "x = r" "y = v" using x(3) by (auto simp: scc_rep_subs split: if_splits)
      then show ?thesis using nv r rv by simp
    qed
    have own: "x \<in> set (sSubs ?t x)" if "sVisited ?t x" "\<not> sInSCC ?t x" "sRep ?t x = x" for x
      using D(7)[of x] that by (cases "x = v") (auto simp: scc_rep_subs)
    show ?thesis unfolding scc_subs_def using oi unv inC out own by blast
  qed
  ultimately show ?thesis by (simp add: scc_inv_def)
qed

lemma scc_relax_inv:
  assumes inv: "scc_inv succ G s" and v: "v \<in> G" and w: "sVisited s w" "w \<in> set (succ v)"
  shows "scc_inv succ G (scc_relax v w s)"
    and "sD s (sRep (scc_relax v w s) v) \<le> sD s (sRep s v)"
    and "\<not> sInSCC s w \<Longrightarrow> sD s (sRep (scc_relax v w s) v) \<le> sD s (sRep s w)"
proof -
  note sets = scc_invD(1)[OF inv] and R = scc_repsD[OF scc_invD(3)[OF inv]]
  have nv: "sVisited s v" "\<not> sInSCC s v" using scc_setsD[OF sets] v by blast+
  show "sD s (sRep (scc_relax v w s) v) \<le> sD s (sRep s v)" by (simp add: scc_relax_rep)
  show "\<not> sInSCC s w \<Longrightarrow> sD s (sRep (scc_relax v w s) v) \<le> sD s (sRep s w)"
    by (simp add: scc_relax_rep)
  show "scc_inv succ G (scc_relax v w s)"
  proof (cases "sInSCC s w")
    case True then show ?thesis using inv by (simp add: scc_relax_def)
  next
    case False
    have rw: "reaches succ v (sRep s w)"
      using w R(4)[OF w(1) False] by (auto simp: edges_of_def intro: converse_rtrancl_into_rtrancl)
    show ?thesis
    proof (cases "sD s (sRep s v) < sD s (sRep s w)")
      case True
      then have "scc_relax v w s = scc_rep v (sRep s v) s" using False by (simp add: scc_relax_def)
      then show ?thesis using scc_rep_inv[OF inv v, of "sRep s v"] R(1-4)[OF nv] by simp
    next
      case F2: False
      then have "scc_relax v w s = scc_rep v (sRep s w) s" using False by (simp add: scc_relax_def)
      moreover have "sD s (sRep s w) \<le> sD s (sRep s v)" using F2 by linarith
      ultimately show ?thesis using scc_rep_inv[OF inv v, of "sRep s w"] R(1,2)[OF w(1) False] rw by simp
    qed
  qed
qed

section \<open>The end of a visit\<close>

lemma scc_pop_simps [simp]:
  "sVisited (scc_pop v ws s) = sVisited s" "sI (scc_pop v ws s) = sI s" "sD (scc_pop v ws s) = sD s"
  "sT (scc_pop v ws s) = sT s"
  by (induction ws arbitrary: s) simp_all

lemma scc_pop_new:
  assumes "\<forall>x \<in> set new. sD s v < sD s x" "\<forall>x \<in> set old. sD s x < sD s v"
  shows "sSS (scc_pop v (new @ old) s) = old
    \<and> sInSCC (scc_pop v (new @ old) s) = (\<lambda>x. sInSCC s x \<or> x \<in> set new)
    \<and> sRep (scc_pop v (new @ old) s) = (\<lambda>x. if x \<in> set new then v else sRep s x)
    \<and> (\<forall>x. set (sSubs (scc_pop v (new @ old) s) x) =
          (if x \<in> set new then {} else if x = v then set (sSubs s v) \<union> set new else set (sSubs s x)))
    \<and> ((\<forall>x. oset_inv (sSubs s x)) \<longrightarrow> (\<forall>x. oset_inv (sSubs (scc_pop v (new @ old) s) x)))"
  using assms
proof (induction new arbitrary: s)
  case Nil
  then show ?case by (cases old) (auto simp: less_imp_le)
next
  case (Cons w new)
  let ?s = "scc_rep w v (s\<lparr>sInSCC := (sInSCC s)(w := True)\<rparr>)"
  have e: "scc_pop v ((w # new) @ old) s = scc_pop v (new @ old) ?s" using Cons.prems by simp
  have wv: "w \<noteq> v" using Cons.prems by auto
  have IH: "sSS (scc_pop v (new @ old) ?s) = old"
    "sInSCC (scc_pop v (new @ old) ?s) = (\<lambda>x. sInSCC ?s x \<or> x \<in> set new)"
    "sRep (scc_pop v (new @ old) ?s) = (\<lambda>x. if x \<in> set new then v else sRep ?s x)"
    "\<And>x. set (sSubs (scc_pop v (new @ old) ?s) x) =
          (if x \<in> set new then {} else if x = v then set (sSubs ?s v) \<union> set new else set (sSubs ?s x))"
    "(\<forall>x. oset_inv (sSubs ?s x)) \<Longrightarrow> (\<forall>x. oset_inv (sSubs (scc_pop v (new @ old) ?s) x))"
    using Cons.IH[of ?s] Cons.prems by simp_all
  have "\<forall>x. oset_inv (sSubs ?s x)" if "\<forall>x. oset_inv (sSubs s x)" using that by (simp add: scc_rep_subs)
  then show ?case
    unfolding e using IH wv by (auto simp: scc_rep_subs)
qed

text \<open>A node with another representative goes on the stack.\<close>

lemma scc_leave_push:
  assumes inv: "scc_inv succ (insert v G) s" and v: "v \<notin> G" and r: "sRep s v \<noteq> v"
    and low: "\<forall>y \<in> set (succ v). sVisited s y \<and> (sInSCC s y \<or> sD s (sRep s v) \<le> sD s y)"
  shows "scc_inv succ G (scc_leave v s)"
proof -
  have t: "scc_leave v s = s\<lparr>sSS := v # sSS s\<rparr>" using r by (simp add: scc_leave_def)
  note sets = scc_invD(1)[OF inv] and nums = scc_invD(2)[OF inv] and reps = scc_invD(3)[OF inv]
    and comps = scc_invD(4)[OF inv] and subs = scc_invD(5)[OF inv]
  note S = scc_setsD[OF sets] and R = scc_repsD[OF reps]
  have nv: "sVisited s v" "\<not> sInSCC s v" "v \<notin> set (sSS s)" using S by blast+
  have "sD s (sRep s v) \<noteq> sD s v"
    using inj_onD[OF scc_numsD(3)[OF nums], of "sRep s v" v] R(1)[OF nv(1,2)] nv r by blast
  then have lt: "sD s (sRep s v) < sD s v" using R(3)[OF nv(1,2)] by simp
  have "scc_sets G (s\<lparr>sSS := v # sSS s\<rparr>)"
    unfolding scc_sets_def using S v nv by auto
  moreover have "scc_nums (s\<lparr>sSS := v # sSS s\<rparr>)" by (rule scc_nums_cong[OF nums]) simp_all
  moreover have "scc_reps succ G (s\<lparr>sSS := v # sSS s\<rparr>)"
  proof -
    let ?t = "s\<lparr>sSS := v # sSS s\<rparr>"
    have "sD ?t (sRep ?t x) < sD ?t x
          \<and> (\<forall>y \<in> set (succ x). sVisited ?t y \<and> (sInSCC ?t y \<or> sD ?t (sRep ?t x) \<le> sD ?t y))"
      if "x \<in> set (sSS ?t)" for x
      using R(5-7)[of x] that lt low by (cases "x = v") auto
    moreover have "\<forall>x. sVisited ?t x \<and> \<not> sInSCC ?t x \<longrightarrow>
        sVisited ?t (sRep ?t x) \<and> \<not> sInSCC ?t (sRep ?t x) \<and> sD ?t (sRep ?t x) \<le> sD ?t x \<and> reaches succ x (sRep ?t x)"
      using R(1-4) by simp
    moreover have "\<forall>g \<in> G. \<forall>x. sVisited ?t x \<and> \<not> sInSCC ?t x \<and> sD ?t g \<le> sD ?t x \<longrightarrow> reaches succ g x"
      using R(8) by simp
    ultimately show ?thesis unfolding scc_reps_def by blast
  qed
  moreover have "scc_comps succ (s\<lparr>sSS := v # sSS s\<rparr>)" by (rule scc_comps_cong[OF comps]) simp_all
  moreover have "scc_subs (s\<lparr>sSS := v # sSS s\<rparr>)" by (rule scc_subs_cong[OF subs]) simp_all
  ultimately show ?thesis unfolding t scc_inv_def by blast
qed

text \<open>
  A node that is its own representative is the root of a component: the nodes visited since
  it was entered that are on no component yet.
\<close>

lemma scc_root:
  assumes inv: "scc_inv succ (insert v G) s" and v: "v \<notin> G" and r: "sRep s v = v"
    and ss: "sSS s = new @ old" and new: "\<forall>x \<in> set new. sD s v < sD s x"
    and old: "\<forall>x \<in> G \<union> set old. sD s x < sD s v"
    and low: "\<forall>y \<in> set (succ v). sVisited s y \<and> (sInSCC s y \<or> sD s v \<le> sD s y)"
    and lows: "\<forall>x \<in> set new. sD s v \<le> sD s (sRep s x)"
  shows "x \<in> insert v (set new) \<Longrightarrow> y \<in> set (succ x) \<Longrightarrow> sInSCC s y \<or> y \<in> insert v (set new)"
    and "x \<in> insert v (set new) \<Longrightarrow> reaches succ v x \<and> reaches succ x v"
proof -
  note sets = scc_invD(1)[OF inv] and nums = scc_invD(2)[OF inv] and reps = scc_invD(3)[OF inv]
  note S = scc_setsD[OF sets] and R = scc_repsD[OF reps]
  let ?S = "insert v (set new)"
  have inS: "sVisited s x" "\<not> sInSCC s x" if "x \<in> ?S" for x using S(1-4)[of x] that ss by auto
  have mem: "x \<in> ?S" if "sVisited s x" "\<not> sInSCC s x" "sD s v \<le> sD s x" for x
    using S(1)[of x] that ss bspec[OF old, of x] by auto
  show "sInSCC s y \<or> y \<in> ?S" if "x \<in> ?S" "y \<in> set (succ x)" for x y
  proof (cases "x = v")
    case True then show ?thesis using low that mem[of y] by blast
  next
    case False
    then have x: "x \<in> set new" "x \<in> set (sSS s)" using that ss by auto
    show ?thesis using R(6,7)[OF x(2) that(2)] lows x(1) mem[of y] by force
  qed
  have up: "reaches succ x v" if "x \<in> ?S" for x
    using that
  proof (induction "sD s x" arbitrary: x rule: less_induct)
    case less
    show ?case
    proof (cases "x = v")
      case False
      then have x: "x \<in> set new" "x \<in> set (sSS s)" using less.prems ss by auto
      note vx = inS[OF less.prems]
      have "sRep s x \<in> ?S" using mem R(1,2)[OF vx] lows x(1) by blast
      then have "reaches succ (sRep s x) v" using less.hyps R(5)[OF x(2)] by blast
      then show ?thesis using R(4)[OF vx] by (rule rtrancl_trans[rotated])
    qed simp
  qed
  show "reaches succ v x \<and> reaches succ x v" if "x \<in> ?S" for x
    using up[OF that] R(8)[of v x] inS[OF that] new that by (auto simp: less_imp_le)
qed

lemma scc_leave_pop_simps:
  assumes r: "sRep s v = v" and ss: "sSS s = new @ old"
    and new: "\<forall>x \<in> set new. sD s v < sD s x" and old: "\<forall>x \<in> set old. sD s x < sD s v"
  shows "sVisited (scc_leave v s) = sVisited s" "sI (scc_leave v s) = sI s" "sD (scc_leave v s) = sD s"
    "sSS (scc_leave v s) = old" "sT (scc_leave v s) = v # sT s"
    "sInSCC (scc_leave v s) x = (sInSCC s x \<or> x \<in> insert v (set new))"
    "sRep (scc_leave v s) x = (if x \<in> insert v (set new) then v else sRep s x)"
    "set (sSubs (scc_leave v s) x) =
       (if x \<in> set new then {} else if x = v then set (sSubs s v) \<union> set new else set (sSubs s x))"
    "(\<And>x. oset_inv (sSubs s x)) \<Longrightarrow> oset_inv (sSubs (scc_leave v s) x)"
proof -
  let ?s = "s\<lparr>sInSCC := (sInSCC s)(v := True)\<rparr>"
  have t: "scc_leave v s = (scc_pop v (new @ old) ?s)\<lparr>sT := v # sT s\<rparr>"
    using r ss by (simp add: scc_leave_def Let_def)
  have "\<forall>x \<in> set new. sD ?s v < sD ?s x" "\<forall>x \<in> set old. sD ?s x < sD ?s v" using new old by simp_all
  note P = scc_pop_new[OF this]
  show "sVisited (scc_leave v s) = sVisited s" "sI (scc_leave v s) = sI s" "sD (scc_leave v s) = sD s"
    "sSS (scc_leave v s) = old" "sT (scc_leave v s) = v # sT s"
    "sInSCC (scc_leave v s) x = (sInSCC s x \<or> x \<in> insert v (set new))"
    "sRep (scc_leave v s) x = (if x \<in> insert v (set new) then v else sRep s x)"
    "set (sSubs (scc_leave v s) x) =
       (if x \<in> set new then {} else if x = v then set (sSubs s v) \<union> set new else set (sSubs s x))"
    "(\<And>x. oset_inv (sSubs s x)) \<Longrightarrow> oset_inv (sSubs (scc_leave v s) x)"
    unfolding t using P r by auto
qed

lemma scc_leave_pop:
  assumes inv: "scc_inv succ (insert v G) s" and v: "v \<notin> G" and r: "sRep s v = v"
    and ss: "sSS s = new @ old" and new: "\<forall>x \<in> set new. sD s v < sD s x"
    and old: "\<forall>x \<in> G \<union> set old. sD s x < sD s v"
    and low: "\<forall>y \<in> set (succ v). sVisited s y \<and> (sInSCC s y \<or> sD s v \<le> sD s y)"
    and lows: "\<forall>x \<in> set new. sD s v \<le> sD s (sRep s x)"
  shows "scc_inv succ G (scc_leave v s)"
proof -
  let ?t = "scc_leave v s" and ?S = "insert v (set new)"
  note sets = scc_invD(1)[OF inv] and nums = scc_invD(2)[OF inv] and reps = scc_invD(3)[OF inv]
    and comps = scc_invD(4)[OF inv] and subs = scc_invD(5)[OF inv]
  note S = scc_setsD[OF sets] and R = scc_repsD[OF reps] and C = scc_compsD[OF comps] and B = scc_subsD[OF subs]
  note root = scc_root[OF inv v r ss new old low lows]
  have old': "\<forall>x \<in> set old. sD s x < sD s v" using old by simp
  note T = scc_leave_pop_simps[OF r ss new old']
  have inS: "sVisited s x" "\<not> sInSCC s x" if "x \<in> ?S" for x using S(1-4)[of x] that ss by auto
  have small: "x \<notin> ?S" if "x \<in> G \<union> set old" for x using bspec[OF old that] new by auto
  have rest: "x \<in> G \<union> set old" if "sVisited s x" "\<not> sInSCC s x" "x \<notin> ?S" for x
    using S(1)[of x] that ss by auto
  have big: "sD s v \<le> sD s x" if "x \<in> ?S" for x using that new by (auto simp: less_imp_le)
  have 1: "scc_sets G ?t"
    unfolding scc_sets_def T(1,4,6) using S ss small v by auto
  have 2: "scc_nums ?t" by (rule scc_nums_cong[OF nums]) (simp_all add: T)
  have 3: "scc_reps succ G ?t"
  proof -
    have keep: "sRep s x \<notin> ?S" if "x \<in> G \<union> set old" for x
    proof -
      have "sVisited s x" "\<not> sInSCC s x" using S(1-4)[of x] that ss by auto
      then show ?thesis using R(3)[of x] bspec[OF old that] big by force
    qed
    have "sVisited ?t (sRep ?t x) \<and> \<not> sInSCC ?t (sRep ?t x) \<and> sD ?t (sRep ?t x) \<le> sD ?t x \<and> reaches succ x (sRep ?t x)"
      if "sVisited ?t x" "\<not> sInSCC ?t x" for x
    proof -
      have x: "sVisited s x" "\<not> sInSCC s x" "x \<notin> ?S" using that by (simp_all add: T)
      show ?thesis using R(1-4)[OF x(1,2)] keep[OF rest[OF x]] x(3) by (simp add: T)
    qed
    moreover have "sD ?t (sRep ?t x) < sD ?t x
          \<and> (\<forall>y \<in> set (succ x). sVisited ?t y \<and> (sInSCC ?t y \<or> sD ?t (sRep ?t x) \<le> sD ?t y))"
      if "x \<in> set (sSS ?t)" for x
    proof -
      have x: "x \<in> set (sSS s)" "x \<notin> ?S" using that ss small[of x] by (auto simp: T)
      then show ?thesis using R(5-7)[OF x(1)] by (auto simp: T)
    qed
    moreover have "reaches succ g x" if "g \<in> G" "sVisited ?t x" "\<not> sInSCC ?t x" "sD ?t g \<le> sD ?t x" for g x
      using R(8)[of g x] that by (simp add: T)
    ultimately show ?thesis unfolding scc_reps_def by blast
  qed
  have 4: "scc_comps succ ?t"
  proof -
    have nC: "\<not> sInSCC s v" using inS by blast
    have clo: "sInSCC ?t y" if "sInSCC ?t x" "y \<in> set (succ x)" for x y
      using C(1)[of x y] root(1)[of x y] that by (auto simp: T)
    have fromC: "sInSCC s w" if "reaches succ u w" "sInSCC s u" for u w
      using closed_reaches[OF that(1), of "{x. sInSCC s x}"] that(2) C(1) by blast
    have rep: "sInSCC ?t (sRep ?t x) \<and> sRep ?t (sRep ?t x) = sRep ?t x" if "sInSCC ?t x" for x
    proof (cases "x \<in> ?S")
      case False
      then have x: "sInSCC s x" using that by (simp add: T)
      then have "sRep s x \<notin> ?S" using C(2) inS(2) by blast
      then show ?thesis using C(2,3)[OF x] False by (simp add: T)
    qed (simp add: T)
    have eq: "(sRep ?t x = sRep ?t y) = mutual succ x y" if xy: "sInSCC ?t x" "sInSCC ?t y" for x y
    proof -
      consider "x \<in> ?S" "y \<in> ?S" | "x \<in> ?S" "y \<notin> ?S" "sInSCC s y" | "x \<notin> ?S" "sInSCC s x" "y \<in> ?S"
        | "x \<notin> ?S" "y \<notin> ?S" "sInSCC s x" "sInSCC s y" using xy by (auto simp: T)
      then show ?thesis
      proof cases
        case 1
        then have "mutual succ x y" using root(2)[of x] root(2)[of y] unfolding mutual_def by (blast intro: rtrancl_trans)
        then show ?thesis using 1 by (simp add: T)
      next
        case 2
        then have "\<not> mutual succ x y" using fromC[of y x] inS(2)[of x] unfolding mutual_def by blast
        moreover have "sRep s y \<noteq> v" using C(2)[OF 2(3)] nC by auto
        ultimately show ?thesis using 2 by (simp add: T)
      next
        case 3
        then have "\<not> mutual succ x y" using fromC[of x y] inS(2)[of y] unfolding mutual_def by blast
        moreover have "sRep s x \<noteq> v" using C(2)[OF 3(2)] nC by auto
        ultimately show ?thesis using 3 by (simp add: T)
      next
        case 4 then show ?thesis using C(4)[of x y] by (simp add: T)
      qed
    qed
    have "set (sT ?t) = {x. sInSCC ?t x \<and> sRep ?t x = x}"
    proof -
      have "x \<notin> ?S" if "sInSCC s x" for x using that inS(2) by blast
      then show ?thesis using C(5) by (auto simp: T)
    qed
    moreover have "distinct (sT ?t)" using C(5,6) nC by (simp add: T)
    moreover have "sorted_wrt (\<lambda>a b. \<not> reaches succ b a) (sT ?t)"
      using C(7) C(5) fromC[of _ v] nC by (auto simp: T)
    ultimately show ?thesis unfolding scc_comps_def using clo rep eq by blast
  qed
  have 5: "scc_subs ?t"
  proof -
    have oi: "oset_inv (sSubs ?t x)" for x using T(9) B(1) by blast
    have unv: "sSubs ?t x = [] \<and> sRep ?t x = UINT_MAX" if "\<not> sVisited ?t x" for x
    proof -
      have "x \<notin> ?S" using that inS(1) by (auto simp: T)
      then have "set (sSubs ?t x) = {}" "sRep ?t x = UINT_MAX" using B(2,9)[of x] that by (simp_all add: T)
      then show ?thesis by simp
    qed
    have sv: "set (sSubs s v) \<subseteq> ?S"
    proof
      fix x assume x: "x \<in> set (sSubs s v)"
      have v': "sVisited s v" "\<not> sInSCC s v" using inS[of v] by simp_all
      note b = B(4-6)[OF v' x]
      show "x \<in> ?S"
      proof (rule ccontr)
        assume "x \<notin> ?S"
        then have "sD s x < sD s v" using rest[OF b(1,2)] old by blast
        then show False using b(3) by simp
      qed
    qed
    have inC: "set (sSubs ?t x) = (if sRep ?t x = x then {y. sInSCC ?t y \<and> sRep ?t y = x} else {})"
      if x: "sInSCC ?t x" for x
    proof -
      show ?thesis
      proof (cases "x \<in> ?S")
        case True
        show ?thesis
        proof (cases "x = v")
          case v: True
          have "{y. sInSCC ?t y \<and> sRep ?t y = v} = ?S"
          proof -
            have "sRep s y \<noteq> v" if "sInSCC s y" for y using C(2)[OF that] inS(2)[of v] by auto
            then show ?thesis by (auto simp: T)
          qed
          moreover have "set (sSubs ?t v) = ?S" using sv B(7)[OF inS[of v]] r new by (auto simp: T)
          ultimately show ?thesis using v by (simp add: T)
        next
          case False
          then show ?thesis using True by (auto simp: T)
        qed
      next
        case False
        then have x': "sInSCC s x" using x by (simp add: T)
        have "{y. sInSCC ?t y \<and> sRep ?t y = x} = {y. sInSCC s y \<and> sRep s y = x}"
          using False inS(2) by (auto simp: T)
        then show ?thesis using B(3)[OF x'] False by (simp add: T)
      qed
    qed
    have out: "sVisited ?t y \<and> \<not> sInSCC ?t y \<and> sD ?t x \<le> sD ?t y \<and> sD ?t (sRep ?t y) \<le> sD ?t x"
      if x: "sVisited ?t x" "\<not> sInSCC ?t x" "y \<in> set (sSubs ?t x)" for x y
    proof -
      have x': "sVisited s x" "\<not> sInSCC s x" "x \<notin> ?S" "y \<in> set (sSubs s x)" using x by (auto simp: T)
      note b = B(4-6)[OF x'(1,2,4)] B(8)[OF x'(1,2,4)]
      have "sD s x < sD s v" using rest[OF x'(1-3)] old by blast
      moreover have "sD s v \<le> sD s (sRep s y)" if "y \<in> ?S" using that lows r by auto
      ultimately have "y \<notin> ?S" using b(4) by force
      then show ?thesis using b x' by (simp add: T)
    qed
    have own: "x \<in> set (sSubs ?t x)" if "sVisited ?t x" "\<not> sInSCC ?t x" "sRep ?t x = x" for x
      using B(7)[of x] that by (auto simp: T)
    show ?thesis unfolding scc_subs_def using oi unv inC out own by blast
  qed
  show ?thesis unfolding scc_inv_def using 1 2 3 4 5 by blast
qed

section \<open>Visits\<close>

text \<open>What a visit keeps of what was there before it. \<open>A\<close> holds the nodes whose representative may change.\<close>

definition scc_ext :: "node_id set \<Rightarrow> sccs \<Rightarrow> sccs \<Rightarrow> bool" where
  "scc_ext A s t \<longleftrightarrow>
     (\<forall>x. sVisited s x \<longrightarrow> sVisited t x \<and> sD t x = sD s x \<and> sInSCC t x = sInSCC s x
            \<and> (x \<notin> A \<longrightarrow> sRep t x = sRep s x))
     \<and> (\<forall>x. sVisited t x \<and> \<not> sVisited s x \<longrightarrow> sI s < sD t x)
     \<and> sI s \<le> sI t
     \<and> (\<exists>new. sSS t = new @ sSS s \<and> (\<forall>x \<in> set new. \<not> sVisited s x))"

lemma scc_extD:
  assumes "scc_ext A s t"
  shows "sVisited s x \<Longrightarrow> sVisited t x" "sVisited s x \<Longrightarrow> sD t x = sD s x"
    "sVisited s x \<Longrightarrow> sInSCC t x = sInSCC s x" "sVisited s x \<Longrightarrow> x \<notin> A \<Longrightarrow> sRep t x = sRep s x"
    "sVisited t x \<Longrightarrow> \<not> sVisited s x \<Longrightarrow> sI s < sD t x" "sI s \<le> sI t"
    "\<exists>new. sSS t = new @ sSS s \<and> (\<forall>x \<in> set new. \<not> sVisited s x)"
  using assms unfolding scc_ext_def by blast+

lemma scc_ext_refl: "scc_ext A s s"
  by (simp add: scc_ext_def)

lemma scc_ext_trans:
  assumes st: "scc_ext A s t" and tu: "scc_ext B t u"
  shows "scc_ext (A \<union> B) s u"
proof -
  note S = scc_extD[OF st] and T = scc_extD[OF tu]
  obtain n1 n2 where n: "sSS t = n1 @ sSS s" "\<forall>x \<in> set n1. \<not> sVisited s x"
      "sSS u = n2 @ sSS t" "\<forall>x \<in> set n2. \<not> sVisited t x"
    using S(7) T(7) by blast
  have "sSS u = (n2 @ n1) @ sSS s" "\<forall>x \<in> set (n2 @ n1). \<not> sVisited s x" using n S(1) by auto
  moreover have "sI s < sD u x" if "sVisited u x" "\<not> sVisited s x" for x
  proof (cases "sVisited t x")
    case True then show ?thesis using S(5)[OF True that(2)] T(2)[OF True] by simp
  next
    case False then show ?thesis using T(5)[OF that(1)] S(6) by simp
  qed
  moreover have "sVisited u x \<and> sD u x = sD s x \<and> sInSCC u x = sInSCC s x \<and> (x \<notin> A \<union> B \<longrightarrow> sRep u x = sRep s x)"
    if "sVisited s x" for x
    using S(1-4)[OF that] T(1-4)[of x] by simp
  moreover have "sI s \<le> sI u" using S(6) T(6) by simp
  ultimately show ?thesis unfolding scc_ext_def by blast
qed

lemma scc_ext_relax: "v \<in> A \<Longrightarrow> scc_ext A s (scc_relax v w s)"
  by (auto simp: scc_ext_def scc_relax_rep)

definition scc_visited_ok :: "(node_id \<Rightarrow> node_id list) \<Rightarrow> node_id set \<Rightarrow> node_id set \<Rightarrow> node_id \<Rightarrow> sccs \<Rightarrow> sccs \<Rightarrow> bool" where
  "scc_visited_ok succ N G v s t \<longleftrightarrow>
     scc_inv succ G t \<and> scc_ext {} s t \<and> sVisited t v \<and> {x. sVisited t x} \<subseteq> N
     \<and> (\<forall>x \<in> set (sSS t) - set (sSS s). \<not> sInSCC t v \<and> sD t (sRep t v) \<le> sD t (sRep t x))"

text \<open>The loop over the successors of \<open>v\<close>; \<open>xs\<close> are the ones still to come.\<close>

definition scc_loop_inv :: "(node_id \<Rightarrow> node_id list) \<Rightarrow> node_id set \<Rightarrow> node_id set \<Rightarrow> node_id \<Rightarrow> sccs \<Rightarrow>
    node_id list \<Rightarrow> sccs \<Rightarrow> bool" where
  "scc_loop_inv succ N G v s1 xs t \<longleftrightarrow>
     scc_inv succ (insert v G) t \<and> scc_ext {v} s1 t \<and> {x. sVisited t x} \<subseteq> N \<and> set xs \<subseteq> set (succ v)
     \<and> (\<forall>y \<in> set (succ v) - set xs. sVisited t y \<and> (sInSCC t y \<or> sD t (sRep t v) \<le> sD t y))
     \<and> (\<forall>x \<in> set (sSS t) - set (sSS s1). sD t (sRep t v) \<le> sD t (sRep t x))"

text \<open>After a successor has been visited its representative is taken into account.\<close>

lemma scc_loop_step:
  assumes L: "scc_loop_inv succ N G v s1 (w # xs) t" and v1: "sVisited s1 v"
    and w: "sVisited u w" and inv: "scc_inv succ (insert v G) u" and ext: "scc_ext {} t u"
    and N: "{x. sVisited u x} \<subseteq> N"
    and seg: "\<And>x. x \<in> set (sSS u) - set (sSS t) \<Longrightarrow> \<not> sInSCC u w \<and> sD u (sRep u w) \<le> sD u (sRep u x)"
  shows "scc_loop_inv succ N G v s1 xs (scc_relax v w u)"
proof -
  let ?u = "scc_relax v w u"
  have L1: "scc_ext {v} s1 t" "set (w # xs) \<subseteq> set (succ v)" and tv: "scc_inv succ (insert v G) t"
    and ys: "\<And>y. y \<in> set (succ v) - set (w # xs) \<Longrightarrow> sVisited t y \<and> (sInSCC t y \<or> sD t (sRep t v) \<le> sD t y)"
    and sg: "\<And>x. x \<in> set (sSS t) - set (sSS s1) \<Longrightarrow> sD t (sRep t v) \<le> sD t (sRep t x)"
    using L unfolding scc_loop_inv_def by blast+
  note E = scc_extD[OF ext] and I = scc_relax_inv[OF inv insertI1 w, of]
  have wv: "w \<in> set (succ v)" using L1(2) by simp
  note I = scc_relax_inv[OF inv insertI1 w wv]
  have vt: "sVisited t v" "\<not> sInSCC t v" using scc_setsD(1,2)[OF scc_invD(1)[OF tv], of v] by blast+
  have R: "sVisited t (sRep t v)" using scc_repsD(1)[OF scc_invD(3)[OF tv] vt] .
  have rv: "sRep u v = sRep t v" "sD u (sRep t v) = sD t (sRep t v)" using E(4)[OF vt(1)] E(2)[OF R] by simp_all
  have le: "sD u (sRep ?u v) \<le> sD t (sRep t v)" using I(2) rv by simp
  have "scc_ext {v} s1 ?u"
    using scc_ext_trans[OF scc_ext_trans[OF L1(1) ext] scc_ext_relax[of v "{v}" u w]] by simp
  moreover have "sVisited ?u y \<and> (sInSCC ?u y \<or> sD ?u (sRep ?u v) \<le> sD ?u y)"
    if "y \<in> set (succ v) - set xs" for y
  proof (cases "y = w")
    case True
    then show ?thesis
    proof (cases "sInSCC u w")
      case F: False
      have "sD u (sRep u w) \<le> sD u w" using scc_repsD(3)[OF scc_invD(3)[OF inv] w F] .
      then show ?thesis using I(3)[OF F] True w by simp
    qed (use True w in simp)
  next
    case False
    then have y: "sVisited t y \<and> (sInSCC t y \<or> sD t (sRep t v) \<le> sD t y)" using ys[of y] that by simp
    then show ?thesis using E(1-3)[of y] le by auto
  qed
  moreover have "sD ?u (sRep ?u v) \<le> sD ?u (sRep ?u x)" if x: "x \<in> set (sSS ?u) - set (sSS s1)" for x
  proof -
    have xu: "x \<in> set (sSS u)" using x by simp
    have "x \<noteq> v" using scc_setsD(4)[OF scc_invD(1)[OF inv], of v] xu by auto
    then have rx: "sRep ?u x = sRep u x" by (simp add: scc_relax_rep)
    show ?thesis
    proof (cases "x \<in> set (sSS t)")
      case True
      have xt: "sVisited t x" "\<not> sInSCC t x" using scc_setsD(1,3)[OF scc_invD(1)[OF tv], of x] True by blast+
      have "sVisited t (sRep t x)" using scc_repsD(1)[OF scc_invD(3)[OF tv] xt] .
      then have "sD u (sRep u x) = sD t (sRep t x)" using E(4)[OF xt(1)] E(2) by simp
      then show ?thesis using sg[of x] True x le rx by simp
    next
      case False
      then show ?thesis using seg[of x] xu I(3) rx by fastforce
    qed
  qed
  moreover have "set xs \<subseteq> set (succ v)" using L1(2) by simp
  ultimately show ?thesis unfolding scc_loop_inv_def using I(1) N by simp
qed

text \<open>The end of the loop is the end of the visit.\<close>

lemma scc_leave_ok:
  assumes L: "scc_loop_inv succ N G v (scc_enter v s) [] t" and inv: "scc_inv succ G s" and v: "\<not> sVisited s v"
    and I: "sI s + 1 < 2 ^ 32"
  shows "scc_visited_ok succ N G v s (scc_leave v t)"
proof -
  let ?s1 = "scc_enter v s" and ?u = "scc_leave v t"
  have tv: "scc_inv succ (insert v G) t" and ext: "scc_ext {v} ?s1 t" and N: "{x. sVisited t x} \<subseteq> N"
    and low: "\<forall>y \<in> set (succ v). sVisited t y \<and> (sInSCC t y \<or> sD t (sRep t v) \<le> sD t y)"
    and seg: "\<And>x. x \<in> set (sSS t) - set (sSS s) \<Longrightarrow> sD t (sRep t v) \<le> sD t (sRep t x)"
    using L by (simp_all add: scc_loop_inv_def)
  note E = scc_extD[OF ext] and S = scc_setsD[OF scc_invD(1)[OF inv]] and M = scc_numsD[OF scc_invD(2)[OF inv]]
  have I1: "u32 (Suc (sI s)) = Suc (sI s)" using I by (intro u32_small) simp
  have vG: "v \<notin> G" using S(1)[of v] v by blast
  have vt: "sVisited t v" "sD t v = Suc (sI s)" "\<not> sInSCC t v"
    using E(1-3)[of v] I1 S(1)[of v] v by simp_all
  have before: "sVisited t x" "sD t x = sD s x" "sInSCC t x = sInSCC s x" "sRep t x = sRep s x" "x \<noteq> v"
    if "sVisited s x" for x
    using E(1-4)[of x] that v by auto
  have after: "sI s < sD t x" if "sVisited t x" "\<not> sVisited s x" for x
    using E(5)[OF that(1)] that(2) I1 vt(2) by (cases "x = v") auto
  have Is: "sI s \<le> sI t" using E(6) I1 by simp
  obtain new where new: "sSS t = new @ sSS s" "\<forall>x \<in> set new. \<not> sVisited ?s1 x" using E(7) by auto
  have newv: "\<not> sVisited s x" "x \<noteq> v" if "x \<in> set new" for x using new(2) that by (auto split: if_splits)
  show ?thesis
  proof (cases "sRep t v = v")
    case True
    have n: "\<forall>x \<in> set new. sD t v < sD t x"
    proof
      fix x assume x: "x \<in> set new"
      then have "sVisited t x" using scc_setsD(1)[OF scc_invD(1)[OF tv], of x] new(1) by simp
      then have "sI ?s1 < sD t x" using E(5) new(2) x by blast
      then show "sD t v < sD t x" using vt(2) I1 by simp
    qed
    have o1: "\<forall>x \<in> G \<union> set (sSS s). sD t x < sD t v"
    proof
      fix x assume "x \<in> G \<union> set (sSS s)"
      then have "sVisited s x" using S(1) by blast
      then show "sD t x < sD t v" using before(2) M(5) vt(2) by (simp add: less_Suc_eq_le)
    qed
    then have o2: "\<forall>x \<in> set (sSS s). sD t x < sD t v" by blast
    have lo: "\<forall>y \<in> set (succ v). sVisited t y \<and> (sInSCC t y \<or> sD t v \<le> sD t y)" using low True by simp
    have los: "\<forall>x \<in> set new. sD t v \<le> sD t (sRep t x)"
    proof
      fix x assume x: "x \<in> set new"
      then have "x \<in> set (sSS t) - set (sSS s)" using new(1) newv(1)[OF x] S(1)[of x] by auto
      then show "sD t v \<le> sD t (sRep t x)" using seg True by auto
    qed
    note P = scc_leave_pop_simps[OF True new(1) n o2]
    have "scc_inv succ G ?u" using scc_leave_pop[OF tv vG True new(1) n o1 lo los] .
    moreover have "scc_ext {} s ?u"
      unfolding scc_ext_def P(1-4)
      using before after Is newv(1) by (auto simp: P)
    moreover have "sVisited ?u v" "{x. sVisited ?u x} \<subseteq> N" using vt N by (simp_all add: P)
    ultimately show ?thesis unfolding scc_visited_ok_def P(4) by blast
  next
    case False
    have u: "?u = t\<lparr>sSS := v # sSS t\<rparr>" using False by (simp add: scc_leave_def)
    have "scc_inv succ G ?u" using scc_leave_push[OF tv vG False low] .
    moreover have "scc_ext {} s ?u"
    proof -
      have "sSS ?u = (v # new) @ sSS s" using new(1) u by simp
      moreover have "\<forall>x \<in> set (v # new). \<not> sVisited s x" using newv v by simp
      moreover have "sVisited ?u x \<and> sD ?u x = sD s x \<and> sInSCC ?u x = sInSCC s x \<and> sRep ?u x = sRep s x"
        if "sVisited s x" for x using before[OF that] u by simp
      ultimately show ?thesis unfolding scc_ext_def using after Is u by auto
    qed
    moreover have "sVisited ?u v" "{x. sVisited ?u x} \<subseteq> N" using vt N u by simp_all
    moreover have "\<not> sInSCC ?u v \<and> sD ?u (sRep ?u v) \<le> sD ?u (sRep ?u x)"
      if "x \<in> set (sSS ?u) - set (sSS s)" for x
      using that seg[of x] u vt(3) by (cases "x = v") auto
    ultimately show ?thesis unfolding scc_visited_ok_def by blast
  qed
qed

lemma scc_visit_ok:
  assumes "scc_inv succ G s" "\<not> sVisited s v" "\<And>g. g \<in> G \<Longrightarrow> reaches succ g v" "v \<in> N"
    "{x. sVisited s x} \<subseteq> N" "card (N - {x. sVisited s x}) \<le> n"
    and N: "finite N" "card N < 2 ^ 32" "\<forall>u \<in> N. set (succ u) \<subseteq> N"
  shows "\<exists>t. scc_visit n succ v s = Some t \<and> scc_visited_ok succ N G v s t"
  using assms(1-6)
proof (induction n arbitrary: v s G)
  case 0
  then have "v \<in> N - {x. sVisited s x}" by simp
  then have "0 < card (N - {x. sVisited s x})" using N(1) by (metis card_gt_0_iff empty_iff finite_Diff)
  then show ?case using 0 by simp
next
  case (Suc n)
  let ?s1 = "scc_enter v s"
  let ?f = "\<lambda>w t. map_option (scc_relax v w) (if \<not> sVisited t w then scc_visit n succ w t else Some t)"
  have psub: "{x. sVisited s x} \<subset> N" using Suc.prems(2,4,5) by blast
  have "sI s < card N"
    using psubset_card_mono[OF N(1) psub] scc_numsD(2)[OF scc_invD(2)[OF Suc.prems(1)]] by simp
  then have I: "sI s + 1 < 2 ^ 32" using N(2) by simp
  have inv1: "scc_inv succ (insert v G) ?s1" by (rule scc_enter_inv[OF Suc.prems(1,2,3) I])
  have v1: "sVisited ?s1 v" by simp
  have init: "scc_loop_inv succ N G v ?s1 (succ v) ?s1"
    unfolding scc_loop_inv_def using inv1 scc_ext_refl[of "{v}" ?s1] Suc.prems(4,5) by (auto split: if_splits)
  have step: "\<exists>t'. ?f w t = Some t' \<and> scc_loop_inv succ N G v ?s1 xs t'"
    if L: "scc_loop_inv succ N G v ?s1 (w # xs) t" for w xs t
  proof -
    have tv: "scc_inv succ (insert v G) t" and ext: "scc_ext {v} ?s1 t" and tN: "{x. sVisited t x} \<subseteq> N"
      and wv: "w \<in> set (succ v)"
      using L by (simp_all add: scc_loop_inv_def)
    show ?thesis
    proof (cases "sVisited t w")
      case True
      then show ?thesis using scc_loop_step[OF L v1 True tv scc_ext_refl tN] by simp
    next
      case False
      have sub: "insert v {x. sVisited s x} \<subseteq> {x. sVisited t x}" using scc_extD(1)[OF ext] by auto
      then have "N - {x. sVisited t x} \<subset> N - {x. sVisited s x}" using Suc.prems(2,4) by blast
      then have "card (N - {x. sVisited t x}) < card (N - {x. sVisited s x})"
        using N(1) by (intro psubset_card_mono) auto
      then have fuel: "card (N - {x. sVisited t x}) \<le> n" using Suc.prems(6) by simp
      have gray: "reaches succ g w" if "g \<in> insert v G" for g
        using that Suc.prems(3) reaches_step[of w succ v g] wv by auto
      have wN: "w \<in> N" using N(3) Suc.prems(4) wv by blast
      obtain u where u: "scc_visit n succ w t = Some u" "scc_visited_ok succ N (insert v G) w t u"
        using Suc.IH[OF tv False gray wN tN fuel] by blast
      then have ok: "sVisited u w" "scc_inv succ (insert v G) u" "scc_ext {} t u" "{x. sVisited u x} \<subseteq> N"
        "\<And>x. x \<in> set (sSS u) - set (sSS t) \<Longrightarrow> \<not> sInSCC u w \<and> sD u (sRep u w) \<le> sD u (sRep u x)"
        unfolding scc_visited_ok_def by blast+
      show ?thesis using scc_loop_step[OF L v1 ok] u(1) False by simp
    qed
  qed
  obtain t where t: "foldO ?f (succ v) ?s1 = Some t" "scc_loop_inv succ N G v ?s1 [] t"
    using foldO_rule[where I = "scc_loop_inv succ N G v ?s1" and f = ?f, OF init step] by blast
  have "scc_visit (Suc n) succ v s = Some (scc_leave v t)" using t(1) by simp
  then show ?case using scc_leave_ok[OF t(2) Suc.prems(1,2) I] by blast
qed

lemma scc_clear_inv: "scc_inv succ {} scc_clear"
  by (simp add: scc_inv_defs scc_clear_def oset_inv_Nil)

text \<open>When no visit is running the stack is empty.\<close>

lemma scc_done:
  assumes inv: "scc_inv succ {} s"
  shows "sSS s = []" "sVisited s x = sInSCC s x"
proof -
  note S = scc_setsD[OF scc_invD(1)[OF inv]] and R = scc_repsD[OF scc_invD(3)[OF inv]]
  have "x \<notin> set (sSS s)" for x
  proof (induction "sD s x" arbitrary: x rule: less_induct)
    case less
    show ?case
    proof
      assume x: "x \<in> set (sSS s)"
      then have x': "sVisited s x" "\<not> sInSCC s x" using S(1,3)[of x] by blast+
      then have "sRep s x \<in> set (sSS s)" using R(1,2)[OF x'] S(1)[of "sRep s x"] by blast
      then show False using less.hyps[OF R(5)[OF x]] by blast
    qed
  qed
  then show ss: "sSS s = []" by (metis list.set_intros(1) neq_Nil_conv)
  show "sVisited s x = sInSCC s x" using S(1)[of x] ss by simp
qed

definition scc_find_inv :: "(node_id \<Rightarrow> node_id list) \<Rightarrow> node_id set \<Rightarrow> node_id list \<Rightarrow> node_id list \<Rightarrow> sccs \<Rightarrow> bool" where
  "scc_find_inv succ N nodes xs s \<longleftrightarrow>
     scc_inv succ {} s \<and> {x. sVisited s x} \<subseteq> N \<and> set xs \<subseteq> set nodes
     \<and> (\<forall>x \<in> set nodes - set xs. sVisited s x)"

lemma scc_find_ok:
  assumes N: "finite N" "card N < 2 ^ 32" "\<forall>u \<in> N. set (succ u) \<subseteq> N"
    and nodes: "set nodes \<subseteq> N" and fuel: "card N \<le> n"
  shows "\<exists>s. scc_find n succ nodes = Some s \<and> scc_inv succ {} s \<and> set nodes \<subseteq> {x. sVisited s x}
    \<and> {x. sVisited s x} \<subseteq> N"
proof -
  let ?f = "\<lambda>v s. if \<not> sVisited s v \<and> (sRep s v = UINT_MAX \<or> sRep s v = v) then scc_visit n succ v s else Some s"
  have init: "scc_find_inv succ N nodes nodes scc_clear"
    using scc_clear_inv[of succ] by (simp add: scc_find_inv_def scc_clear_def)
  have step: "\<exists>t. ?f v s = Some t \<and> scc_find_inv succ N nodes xs t"
    if I: "scc_find_inv succ N nodes (v # xs) s" for v xs s
  proof -
    have inv: "scc_inv succ {} s" and sN: "{x. sVisited s x} \<subseteq> N" and v: "v \<in> N" "set xs \<subseteq> set nodes"
      and seen: "\<And>x. x \<in> set nodes - set (v # xs) \<Longrightarrow> sVisited s x"
      using I nodes unfolding scc_find_inv_def by auto
    show ?thesis
    proof (cases "sVisited s v")
      case True
      then have "scc_find_inv succ N nodes xs s"
        using inv sN v(2) seen unfolding scc_find_inv_def by auto
      then show ?thesis using True by simp
    next
      case False
      have r: "sRep s v = UINT_MAX" using scc_subsD(9)[OF scc_invD(5)[OF inv] False] .
      have "card (N - {x. sVisited s x}) \<le> n" using card_mono[OF N(1), of "N - {x. sVisited s x}"] fuel by auto
      then obtain t where t: "scc_visit n succ v s = Some t" "scc_visited_ok succ N {} v s t"
        using scc_visit_ok[OF inv False _ v(1) sN _ N, of n] by blast
      have "sVisited t x" if "x \<in> set nodes - set xs" for x
        using t(2) seen[of x] that scc_extD(1)[of "{}" s t x] unfolding scc_visited_ok_def by (cases "x = v") auto
      then have "scc_find_inv succ N nodes xs t"
        using t(2) v(2) unfolding scc_find_inv_def scc_visited_ok_def by blast
      then show ?thesis using t(1) False r by simp
    qed
  qed
  obtain s where s: "foldO ?f nodes scc_clear = Some s" "scc_find_inv succ N nodes [] s"
    using foldO_rule[where I = "scc_find_inv succ N nodes" and f = ?f, OF init step] by blast
  then show ?thesis unfolding scc_find_def scc_find_inv_def by auto
qed

definition scc_result :: "(node_id \<Rightarrow> node_id list) \<Rightarrow> node_id list \<Rightarrow> sccs \<Rightarrow> bool" where
  "scc_result succ nodes s \<longleftrightarrow>
     scc_inv succ {} s \<and> (\<forall>x. sVisited s x = (x \<in> set nodes)) \<and> (\<forall>x. sInSCC s x = (x \<in> set nodes))
     \<and> (\<forall>x \<in> set nodes. repNode x s = Some (sRep s x) \<and> sRep s x \<in> set nodes)"

lemma scc_resultD:
  assumes "scc_result succ nodes s"
  shows "scc_inv succ {} s" "sVisited s x = (x \<in> set nodes)" "sInSCC s x = (x \<in> set nodes)"
    "x \<in> set nodes \<Longrightarrow> repNode x s = Some (sRep s x)" "x \<in> set nodes \<Longrightarrow> sRep s x \<in> set nodes"
  using assms unfolding scc_result_def by blast+

lemma scc_find_result:
  assumes "length nodes < 2 ^ 32" "\<forall>u \<in> set nodes. set (succ u) \<subseteq> set nodes" "UINT_MAX \<notin> set nodes"
    and "length nodes \<le> n"
  shows "\<exists>s. scc_find n succ nodes = Some s \<and> scc_result succ nodes s"
proof -
  let ?N = "set nodes"
  have c: "card ?N \<le> length nodes" by (rule card_length)
  have "finite ?N" "card ?N < 2 ^ 32" "?N \<subseteq> ?N" "card ?N \<le> n" using c assms(1,4) by simp_all
  then obtain s where s: "scc_find n succ nodes = Some s" "scc_inv succ {} s" "{x. sVisited s x} = ?N"
    using scc_find_ok[of ?N succ nodes n] assms(2) by blast
  have vis: "sVisited s x = (x \<in> ?N)" for x using s(3) by blast
  have inC: "sInSCC s x = (x \<in> ?N)" for x using vis[of x] scc_done(2)[OF s(2), of x] by simp
  have r: "sRep s x \<in> ?N" if "x \<in> ?N" for x
    using scc_compsD(2)[OF scc_invD(4)[OF s(2)], of x] that inC by blast
  have "repNode x s = Some (sRep s x)" if "x \<in> ?N" for x
  proof -
    have "sRep s x \<noteq> UINT_MAX" using r[OF that] assms(3) by auto
    then show ?thesis using vis[of x] that by (simp add: repNode_def)
  qed
  then show ?thesis unfolding scc_result_def using s(1,2) vis inC r by blast
qed

text \<open>
  C36: The detector finds the strongly connected components. On a graph whose nodes are all
  among \<open>nodes\<close>, none of them the number that marks a missing representative, one unit of
  fuel for every node is enough; then two nodes have the same representative exactly when
  each reaches the other, a representative represents itself, the sub nodes of a
  representative are the nodes it represents, and the sub nodes of every other node are empty.
\<close>

theorem scc_find_components:
  assumes "length nodes < 2 ^ 32" "\<forall>u \<in> set nodes. set (succ u) \<subseteq> set nodes" "UINT_MAX \<notin> set nodes"
    and "length nodes \<le> n"
  shows "\<exists>s. scc_find n succ nodes = Some s
    \<and> (\<forall>u \<in> set nodes. \<forall>w \<in> set nodes. (repNode u s = repNode w s) = mutual succ u w)
    \<and> (\<forall>u \<in> set nodes. \<exists>r \<in> set nodes. repNode u s = Some r \<and> repNode r s = Some r)
    \<and> (\<forall>r \<in> set nodes. \<exists>subs. subNodes r s = Some subs \<and> oset_inv subs
          \<and> set subs = (if repNode r s = Some r then {u \<in> set nodes. repNode u s = Some r} else {}))"
proof -
  obtain s where s: "scc_find n succ nodes = Some s" "scc_result succ nodes s"
    using scc_find_result[OF assms] by blast
  note inv = scc_resultD(1)[OF s(2)] and vis = scc_resultD(2,3)[OF s(2)] and r = scc_resultD(4,5)[OF s(2)]
  note C = scc_compsD[OF scc_invD(4)[OF inv]] and B = scc_subsD[OF scc_invD(5)[OF inv]]
  have "\<forall>u \<in> set nodes. \<forall>w \<in> set nodes. (repNode u s = repNode w s) = mutual succ u w"
  proof (intro ballI)
    fix u w assume uw: "u \<in> set nodes" "w \<in> set nodes"
    then have "(sRep s u = sRep s w) = mutual succ u w" using C(4)[of u w] vis(2) by blast
    then show "(repNode u s = repNode w s) = mutual succ u w" using r(1)[OF uw(1)] r(1)[OF uw(2)] by simp
  qed
  moreover have "\<exists>r \<in> set nodes. repNode u s = Some r \<and> repNode r s = Some r" if "u \<in> set nodes" for u
  proof -
    have "sRep s (sRep s u) = sRep s u" using C(3)[of u] vis(2) that by blast
    then show ?thesis using r(1)[OF that] r(1)[OF r(2)[OF that]] r(2)[OF that] by auto
  qed
  moreover have "\<exists>subs. subNodes x s = Some subs \<and> oset_inv subs
          \<and> set subs = (if repNode x s = Some x then {u \<in> set nodes. repNode u s = Some x} else {})"
    if x: "x \<in> set nodes" for x
  proof -
    have e: "{u \<in> set nodes. repNode u s = Some x} = {u. sInSCC s u \<and> sRep s u = x}"
      using r(1) vis(2) by auto
    have "sInSCC s x" "sVisited s x" using x vis by blast+
    then have "subNodes x s = Some (sSubs s x)"
      "set (sSubs s x) = (if sRep s x = x then {u. sInSCC s u \<and> sRep s u = x} else {})"
      using B(3)[of x] by (simp_all add: subNodes_def)
    then show ?thesis using B(1)[of x] r(1)[OF x] e by simp
  qed
  ultimately show ?thesis using s(1) by blast
qed

theorem scc_find_components_witness:
  "\<exists>s. scc_find 4 (\<lambda>u. if u = 1 then [2, 4] else if u = 2 then [3] else if u = 3 then [1] else []) [1, 2, 3, 4] = Some s
    \<and> repNode 1 s = repNode 3 s \<and> repNode 1 s \<noteq> repNode 4 s"
proof -
  let ?succ = "\<lambda>u::nat. if u = 1 then [2, 4] else if u = 2 then [3] else if u = 3 then [1::nat] else []"
  have "\<forall>u \<in> set [1, 2, 3, 4]. set (?succ u) \<subseteq> set [1, 2, 3, 4]" "UINT_MAX \<notin> set [1, 2, 3, 4]"
    "length [1, 2, 3, 4::nat] < 2 ^ 32"
    by (simp_all add: UINT_MAX_def)
  moreover have "length [1, 2, 3, 4::nat] \<le> 4" by simp
  ultimately obtain s where s: "scc_find 4 ?succ [1, 2, 3, 4] = Some s"
    and eq: "\<forall>u \<in> set [1, 2, 3, 4]. \<forall>w \<in> set [1, 2, 3, 4]. (repNode u s = repNode w s) = mutual ?succ u w"
    using scc_find_components[of "[1, 2, 3, 4]" ?succ 4] by blast
  have e: "(1, 2) \<in> edges_of ?succ" "(2, 3) \<in> edges_of ?succ" "(3, 1) \<in> edges_of ?succ"
    by (simp_all add: edges_of_def)
  then have "mutual ?succ 1 3" unfolding mutual_def by (meson r_into_rtrancl rtrancl_trans)
  moreover have "\<not> mutual ?succ 1 4"
  proof
    assume "mutual ?succ 1 4"
    then have "reaches ?succ 4 1" by (simp add: mutual_def)
    then have "1 \<in> {4::nat}" by (rule closed_reaches) auto
    then show False by simp
  qed
  moreover have "1 \<in> set [1, 2, 3, 4::nat]" "3 \<in> set [1, 2, 3, 4::nat]" "4 \<in> set [1, 2, 3, 4::nat]" by simp_all
  ultimately show ?thesis using s eq by blast
qed

text \<open>
  The stack of representatives is in topological order: it holds every representative
  once, and when one of them reaches another it lies nearer to the top, so that popping the
  stack visits a component before the components it reaches.
\<close>

theorem scc_find_topological:
  assumes "length nodes < 2 ^ 32" "\<forall>u \<in> set nodes. set (succ u) \<subseteq> set nodes" "UINT_MAX \<notin> set nodes"
    and "length nodes \<le> n"
  shows "\<exists>s. scc_find n succ nodes = Some s \<and> distinct (sT s)
    \<and> set (sT s) = {r \<in> set nodes. repNode r s = Some r}
    \<and> (\<forall>i j. i < length (sT s) \<and> j < length (sT s) \<and> reaches succ (sT s ! i) (sT s ! j) \<longrightarrow> i \<le> j)"
proof -
  obtain s where s: "scc_find n succ nodes = Some s" "scc_result succ nodes s"
    using scc_find_result[OF assms] by blast
  note inv = scc_resultD(1)[OF s(2)] and vis = scc_resultD(3)[OF s(2)] and r = scc_resultD(4)[OF s(2)]
  note C = scc_compsD[OF scc_invD(4)[OF inv]]
  have "i \<le> j" if "i < length (sT s)" "j < length (sT s)" "reaches succ (sT s ! i) (sT s ! j)" for i j
    using C(7) that by (metis not_le sorted_wrt_iff_nth_less)
  moreover have "set (sT s) = {r \<in> set nodes. repNode r s = Some r}"
  proof -
    have "x \<in> set (sT s) \<longleftrightarrow> x \<in> set nodes \<and> repNode x s = Some x" for x
      unfolding C(5) using vis[of x] r[of x] by auto
    then show ?thesis by blast
  qed
  ultimately show ?thesis using s(1) C(6) by blast
qed

theorem scc_find_topological_witness:
  "\<exists>s. scc_find 2 (\<lambda>u. if u = 5 then [4] else []) [4, 5] = Some s \<and> set (sT s) \<subseteq> {4, 5} \<and> distinct (sT s)"
proof -
  have "\<forall>u \<in> set [4, 5]. set ((\<lambda>u::nat. if u = 5 then [4::nat] else []) u) \<subseteq> set [4, 5]"
    "UINT_MAX \<notin> set [4, 5]" "length [4, 5::nat] < 2 ^ 32"
    by (simp_all add: UINT_MAX_def)
  moreover have "length [4, 5::nat] \<le> 2" by simp
  ultimately obtain s where s: "scc_find 2 (\<lambda>u. if u = 5 then [4] else []) [4, 5] = Some s"
    "distinct (sT s)" "set (sT s) = {r \<in> set [4, 5]. repNode r s = Some r}"
    using scc_find_topological[of "[4, 5]" "\<lambda>u. if u = 5 then [4] else []" 2] by blast
  have "set (sT s) \<subseteq> {4, 5}" unfolding s(3) by auto
  then show ?thesis using s(1,2) by blast
qed

end
