(* ===== verification/Andersen.thy ===== *)
theory Andersen
  imports ConsG PTData ObjectTable SCC
begin

text \<open>
  \<^verbatim>\<open>src/SVF/svf/include/WPA/Andersen.h\<close> and \<^verbatim>\<open>src/SVF/svf/lib/WPA/Andersen.cpp\<close>: the
  inclusion-based analysis that \<^verbatim>\<open>ConditionalAndersen\<close> extends.

  \<open>ander\<close> is the state of an \<^verbatim>\<open>Andersen\<close> object. A subclass is a record that extends it,
  and every operation works on such extensions. A virtual method that another method calls is
  a field of \<open>vmethods\<close>, passed as the first argument: \<open>andersen_methods\<close> is the table
  of the class itself. Running times are not modelled; counters are.
  A failed assertion or a missing object is \<open>None\<close>.
\<close>

section \<open>State\<close>

record ander =
  consCG :: consg
  ptD :: "(node_id, node_id) diffdata"
  irs :: pag
  wlist :: "node_id fifo"
  reanalyze :: bool
  DiffPts :: bool
  DetectPWC :: bool
  sccD :: sccs
  redundantGepNodes :: "node_id oset"
  callsite2DummyValPN :: "nat \<Rightarrow> node_id option"
  numOfSCCDetection :: nat
  numOfIteration :: nat
  numOfProcessedAddr :: nat
  numOfProcessedCopy :: nat
  numOfProcessedGep :: nat
  numOfProcessedLoad :: nat
  numOfProcessedStore :: nat

record 's vmethods =
  v_getDiffPts :: "'s \<Rightarrow> node_id \<Rightarrow> node_id oset"
  v_processLoad :: "node_id \<Rightarrow> cedge \<Rightarrow> 's \<Rightarrow> (bool \<times> 's) option"
  v_processStore :: "node_id \<Rightarrow> cedge \<Rightarrow> 's \<Rightarrow> (bool \<times> 's) option"
  v_processCopy :: "node_id \<Rightarrow> cedge \<Rightarrow> 's \<Rightarrow> (bool \<times> 's) option"
  v_processGep :: "node_id \<Rightarrow> cedge \<Rightarrow> 's \<Rightarrow> (bool \<times> 's) option"
  v_mergeSrcToTgt :: "node_id \<Rightarrow> node_id \<Rightarrow> 's \<Rightarrow> (bool \<times> 's) option"

definition rep_of :: "'a ander_scheme \<Rightarrow> node_id \<Rightarrow> node_id" where
  "rep_of s i = sccRepNode (consCG s) i"

definition getPts :: "'a ander_scheme \<Rightarrow> node_id \<Rightarrow> node_id oset" where
  "getPts s i = dd_getPts (ptD s) (rep_of s i)"

definition unionPts :: "node_id \<Rightarrow> node_id oset \<Rightarrow> 'a ander_scheme \<Rightarrow> bool \<times> 'a ander_scheme" where
  "unionPts i target s =
     (case dd_unionPts (rep_of s i) target (ptD s) of (c, d) \<Rightarrow> (c, s\<lparr>ptD := d\<rparr>))"

definition unionPtsNode :: "node_id \<Rightarrow> node_id \<Rightarrow> 'a ander_scheme \<Rightarrow> bool \<times> 'a ander_scheme" where
  "unionPtsNode i j s =
     (case dd_unionKey (rep_of s i) (rep_of s j) (ptD s) of (c, d) \<Rightarrow> (c, s\<lparr>ptD := d\<rparr>))"

definition addPts :: "node_id \<Rightarrow> node_id \<Rightarrow> 'a ander_scheme \<Rightarrow> bool \<times> 'a ander_scheme" where
  "addPts i o1 s = (case dd_addPts i o1 (ptD s) of (c, d) \<Rightarrow> (c, s\<lparr>ptD := d\<rparr>))"

definition pushIntoWorklist :: "node_id \<Rightarrow> 'a ander_scheme \<Rightarrow> 'a ander_scheme" where
  "pushIntoWorklist i s = s\<lparr>wlist := snd (fifo_push (rep_of s i) (wlist s))\<rparr>"

definition popFromWorklist :: "'a ander_scheme \<Rightarrow> (node_id \<times> 'a ander_scheme) option" where
  "popFromWorklist s =
     map_option (\<lambda>(i, w). (rep_of s i, s\<lparr>wlist := w\<rparr>)) (fifo_pop (wlist s))"

section \<open>Difference propagation\<close>

definition diffStep :: "node_id \<Rightarrow> 'a ander_scheme \<Rightarrow> 'a ander_scheme" where
  "diffStep i s =
     (if DiffPts s
      then let r = rep_of s i in s\<lparr>ptD := snd (computeDiffPts r (dd_getPts (ptD s) r) (ptD s))\<rparr>
      else s)"

definition diffOf :: "'a ander_scheme \<Rightarrow> node_id \<Rightarrow> node_id oset" where
  "diffOf s i =
     (let r = rep_of s i in if DiffPts s then getDiffPts (ptD s) r else dd_getPts (ptD s) r)"

definition updatePropaPts :: "node_id \<Rightarrow> node_id \<Rightarrow> 'a ander_scheme \<Rightarrow> 'a ander_scheme" where
  "updatePropaPts dstId srcId s =
     (if \<not> DiffPts s then s
      else s\<lparr>ptD := updatePropaPtsMap (rep_of s srcId) (rep_of s dstId) (ptD s)\<rparr>)"

section \<open>Constraints\<close>

definition addCopyEdge :: "node_id \<Rightarrow> node_id \<Rightarrow> 'a ander_scheme \<Rightarrow> (bool \<times> 'a ander_scheme) option" where
  "addCopyEdge src dst s =
     do {
       (added, g) \<leftarrow> addCopyCGEdge src dst None (consCG s);
       let s1 = s\<lparr>consCG := g\<rparr>;
       if added then Some (True, updatePropaPts src dst s1) else Some (False, s1)
     }"

definition processAddr :: "cedge \<Rightarrow> 'a ander_scheme \<Rightarrow> 'a ander_scheme" where
  "processAddr addr s =
     (let s0 = s\<lparr>numOfProcessedAddr := u32 (numOfProcessedAddr s + 1)\<rparr>;
          (changed, s1) = addPts (edst addr) (esrc addr) s0
      in if changed then pushIntoWorklist (edst addr) s1 else s1)"

definition processAllAddr :: "'a ander_scheme \<Rightarrow> 'a ander_scheme" where
  "processAllAddr s =
     fold (\<lambda>n s1. fold processAddr (getAddrInEdges n (consCG s1)) s1) (cnodes (consCG s)) s"

definition processLoad :: "node_id \<Rightarrow> cedge \<Rightarrow> 'a ander_scheme \<Rightarrow> (bool \<times> 'a ander_scheme) option" where
  "processLoad node load s =
     do {
       c \<leftarrow> isConstantObj node (irs s);
       skip \<leftarrow> (if c then Some True else map_option Not (isPointer (edst load) (irs s)));
       if skip then Some (False, s)
       else addCopyEdge node (edst load) (s\<lparr>numOfProcessedLoad := u32 (numOfProcessedLoad s + 1)\<rparr>)
     }"

definition processStore :: "node_id \<Rightarrow> cedge \<Rightarrow> 'a ander_scheme \<Rightarrow> (bool \<times> 'a ander_scheme) option" where
  "processStore node store s =
     do {
       c \<leftarrow> isConstantObj node (irs s);
       skip \<leftarrow> (if c then Some True else map_option Not (isPointer (esrc store) (irs s)));
       if skip then Some (False, s)
       else addCopyEdge (esrc store) node (s\<lparr>numOfProcessedStore := u32 (numOfProcessedStore s + 1)\<rparr>)
     }"

definition processCopy :: "('a ander_scheme \<Rightarrow> node_id \<Rightarrow> node_id oset) \<Rightarrow> node_id \<Rightarrow> cedge \<Rightarrow>
    'a ander_scheme \<Rightarrow> (bool \<times> 'a ander_scheme) option" where
  "processCopy diff node edge s =
     (if ekind edge \<noteq> Copy then None
      else
        let s0 = s\<lparr>numOfProcessedCopy := u32 (numOfProcessedCopy s + 1)\<rparr>;
            dst = edst edge;
            (changed, s1) = unionPts dst (diff s0 node) s0
        in Some (changed, if changed then pushIntoWorklist dst s1 else s1))"

text \<open>\<^verbatim>\<open>ConstraintGraph::getGepObjVar\<close> and \<^verbatim>\<open>ConstraintGraph::getFIObjVar\<close>.\<close>

definition consGepObjVar :: "node_id \<Rightarrow> int \<Rightarrow> 'a ander_scheme \<Rightarrow> (node_id \<times> 'a ander_scheme) option" where
  "consGepObjVar i apOffset s =
     do {
       (gep, p) \<leftarrow> getGepObjVar i apOffset (irs s);
       let s1 = s\<lparr>irs := p\<rparr>;
       Some (gep,
         if rep_of s1 gep = gep \<and> \<not> hasConstraintNode gep (consCG s1)
         then s1\<lparr>consCG := addConstraintNode gep (consCG s1)\<rparr> else s1)
     }"

definition consFIObjVar :: "node_id \<Rightarrow> 'a ander_scheme \<Rightarrow> node_id option" where
  "consFIObjVar i s =
     do {
       fi \<leftarrow> getFIObjVar i (irs s);
       if hasConstraintNode fi (consCG s) \<or> rep_of s fi \<noteq> fi then Some fi else None
     }"

text \<open>
  The object a field edge maps an object to: the bodies of the two loops of
  \<^verbatim>\<open>processGepPts\<close>, which \<^verbatim>\<open>ConditionalAndersen::processGep\<close> repeats.
\<close>

definition gepTarget :: "cedge \<Rightarrow> node_id \<Rightarrow> 'a ander_scheme \<Rightarrow> (node_id \<times> 'a ander_scheme) option" where
  "gepTarget edge o1 s =
     (if ekind edge = VariantGep then
        do {
          blk \<leftarrow> isBlkObjOrConstantObj o1 (irs s);
          if blk then Some (o1, s)
          else do {
            fi \<leftarrow> isFieldInsensitive o1 (irs s);
            s1 \<leftarrow> (if fi then Some s
                   else do {
                     p \<leftarrow> setObjFieldInsensitive o1 (irs s);
                     b \<leftarrow> getBaseObjVarID o1 p;
                     Some (s\<lparr>irs := p, consCG := addNodeToBeCollapsed b (consCG s)\<rparr>)
                   });
            baseId \<leftarrow> consFIObjVar o1 s1;
            Some (baseId, s1)
          }
        }
      else if ekind edge = NormalGep then
        do {
          blk \<leftarrow> isBlkObjOrConstantObj o1 (irs s);
          keep \<leftarrow> (if blk then Some True else isFieldInsensitive o1 (irs s));
          if keep then Some (o1, s) else consGepObjVar o1 (eap edge) s
        }
      else None)"

definition processGepPts :: "node_id oset \<Rightarrow> cedge \<Rightarrow> 'a ander_scheme \<Rightarrow> (bool \<times> 'a ander_scheme) option" where
  "processGepPts pts edge s =
     (if \<not> isGepKind (ekind edge) then None
      else do {
        (tmpDstPts, s1) \<leftarrow>
          foldO (\<lambda>o1 (tmp, s'). map_option (\<lambda>(t, s''). (oset_insert t tmp, s'')) (gepTarget edge o1 s'))
            pts ([], s\<lparr>numOfProcessedGep := u32 (numOfProcessedGep s + 1)\<rparr>);
        let (changed, s2) = unionPts (edst edge) tmpDstPts s1;
        Some (changed, if changed then pushIntoWorklist (edst edge) s2 else s2)
      })"

definition processGep :: "('a ander_scheme \<Rightarrow> node_id \<Rightarrow> node_id oset) \<Rightarrow> node_id \<Rightarrow> cedge \<Rightarrow>
    'a ander_scheme \<Rightarrow> (bool \<times> 'a ander_scheme) option" where
  "processGep diff _ edge s = processGepPts (diff s (esrc edge)) edge s"

section \<open>Nodes\<close>

definition handleCopyGep :: "'a ander_scheme vmethods \<Rightarrow> node_id \<Rightarrow> 'a ander_scheme \<Rightarrow> 'a ander_scheme option" where
  "handleCopyGep vt nodeId s =
     (let s0 = diffStep nodeId s in
      if v_getDiffPts vt s0 nodeId = [] then Some s0
      else do {
        s1 \<leftarrow> foldO (\<lambda>e s'. map_option snd (v_processCopy vt nodeId e s')) (getCopyOutEdges nodeId (consCG s0)) s0;
        foldO (\<lambda>e s'. map_option snd (v_processGep vt nodeId e s')) (getGepOutEdges nodeId (consCG s1)) s1
      })"

definition handleLoadStore :: "'a ander_scheme vmethods \<Rightarrow> node_id \<Rightarrow> 'a ander_scheme \<Rightarrow> 'a ander_scheme option" where
  "handleLoadStore vt nodeId s =
     foldO (\<lambda>ptd s0. do {
         s1 \<leftarrow> foldO (\<lambda>e s'. map_option (\<lambda>(b, s''). if b then pushIntoWorklist ptd s'' else s'')
                (v_processLoad vt ptd e s')) (getLoadOutEdges nodeId (consCG s0)) s0;
         foldO (\<lambda>e s'. map_option (\<lambda>(b, s''). if b then pushIntoWorklist (esrc e) s'' else s'')
                (v_processStore vt ptd e s')) (getStoreInEdges nodeId (consCG s1)) s1
       }) (getPts s nodeId) s"

definition processNode :: "'a ander_scheme vmethods \<Rightarrow> node_id \<Rightarrow> 'a ander_scheme \<Rightarrow> 'a ander_scheme option" where
  "processNode vt nodeId s =
     (if rep_of s nodeId \<noteq> nodeId then Some s
      else do {
        node \<leftarrow> getConstraintNode nodeId (consCG s);
        s1 \<leftarrow> handleLoadStore vt node s;
        handleCopyGep vt node s1
      })"

section \<open>Merging\<close>

definition updateNodeRepAndSubs :: "node_id \<Rightarrow> node_id \<Rightarrow> consg \<Rightarrow> consg" where
  "updateNodeRepAndSubs nodeId newRepId g =
     (let g1 = setRep nodeId newRepId g;
          (nodeSubs, g2) = sccSubNodes nodeId g1;
          g3 = fold (\<lambda>subId h. setRep subId newRepId h) nodeSubs g2;
          repSubs = oset_insert_all nodeSubs [nodeId];
          g4 = setSubs newRepId repSubs g3
      in resetSubs nodeId g4)"

definition mergeSrcToTgt :: "node_id \<Rightarrow> node_id \<Rightarrow> 'a ander_scheme \<Rightarrow> (bool \<times> 'a ander_scheme) option" where
  "mergeSrcToTgt nodeId newRepId s =
     (if nodeId = newRepId then Some (False, s)
      else
        let s1 = snd (unionPtsNode newRepId nodeId (updatePropaPts newRepId nodeId s)) in
        do {
          node \<leftarrow> getConstraintNode nodeId (consCG s1);
          rep \<leftarrow> getConstraintNode newRepId (consCG s1);
          (pwc, g1) \<leftarrow> moveEdgesToRepNode node rep (consCG s1);
          let pwc' = (pwc \<or> node \<in> pwcNodes g1);
          g3 \<leftarrow> removeConstraintNode node (updateNodeRepAndSubs node newRepId g1);
          Some (pwc', s1\<lparr>consCG := g3\<rparr>)
        })"

definition mergeNodeToRep :: "'a ander_scheme vmethods \<Rightarrow> node_id \<Rightarrow> node_id \<Rightarrow> 'a ander_scheme \<Rightarrow> 'a ander_scheme option" where
  "mergeNodeToRep vt nodeId newRepId s =
     do {
       (pwc, s1) \<leftarrow> v_mergeSrcToTgt vt nodeId newRepId s;
       if pwc then map_option (\<lambda>g. s1\<lparr>consCG := g\<rparr>) (setPWCNode newRepId (consCG s1)) else Some s1
     }"

definition mergeSccNodes :: "'a ander_scheme vmethods \<Rightarrow> node_id \<Rightarrow> node_id oset \<Rightarrow> 'a ander_scheme \<Rightarrow> 'a ander_scheme option" where
  "mergeSccNodes vt repNodeId subs s =
     foldO (\<lambda>subNodeId s'. if subNodeId \<noteq> repNodeId then mergeNodeToRep vt subNodeId repNodeId s' else Some s')
       subs s"

text \<open>\<^verbatim>\<open>mergeSccCycle\<close> goes through the stack of representatives that the detector left, top first.\<close>

definition mergeSccCycle :: "'a ander_scheme vmethods \<Rightarrow> 'a ander_scheme \<Rightarrow> 'a ander_scheme option" where
  "mergeSccCycle vt s =
     foldO (\<lambda>repNodeId s'. do {
         subs \<leftarrow> subNodes repNodeId (sccD s');
         mergeSccNodes vt repNodeId subs s'
       }) (sT (sccD s)) s"

definition andersen_methods :: "'a ander_scheme vmethods" where
  "andersen_methods = \<lparr>v_getDiffPts = diffOf, v_processLoad = processLoad, v_processStore = processStore,
     v_processCopy = processCopy diffOf, v_processGep = processGep diffOf, v_mergeSrcToTgt = mergeSrcToTgt\<rparr>"

section \<open>Alias queries\<close>

datatype alias_result = NoAlias | MayAlias | MustAlias | PartialAlias

definition expandFIObjs :: "node_id oset \<Rightarrow> pag \<Rightarrow> node_id oset option" where
  "expandFIObjs pts p =
     foldO (\<lambda>o1 expanded. do {
         b \<leftarrow> getBaseObjVarID o1 p;
         fi \<leftarrow> (if b = o1 then Some True else isFieldInsensitive o1 p);
         if fi then map_option (\<lambda>fs. oset_insert_all fs expanded) (getAllFieldsObjVars o1 p)
         else Some expanded
       }) pts pts"

definition containBlackHoleNode :: "node_id oset \<Rightarrow> bool" where
  "containBlackHoleNode pts \<longleftrightarrow> oset_find blackHole pts"

definition aliasPts :: "node_id oset \<Rightarrow> node_id oset \<Rightarrow> pag \<Rightarrow> alias_result option" where
  "aliasPts p1 p2 p =
     do {
       pts1 \<leftarrow> expandFIObjs p1 p;
       pts2 \<leftarrow> expandFIObjs p2 p;
       Some (if containBlackHoleNode pts1 \<or> containBlackHoleNode pts2 \<or> list_ex (\<lambda>o1. oset_find o1 pts2) pts1
             then MayAlias else NoAlias)
     }"

definition alias_of :: "node_id \<Rightarrow> node_id \<Rightarrow> 'a ander_scheme \<Rightarrow> alias_result option" where
  "alias_of n1 n2 s = aliasPts (getPts s n1) (getPts s n2) (irs s)"

end
