(* ===== verification/Andersen_Correct.thy ===== *)
theory Andersen_Correct
  imports Andersen
begin

text \<open>
  Correctness of the inclusion-based analysis of theory \<open>Andersen\<close>: difference propagation loses
  no object, processing a node does what the constraints at it ask for, a merge gives the
  representative the union of the two sets, and the alias query is exact on the expanded sets.
\<close>

section \<open>The parts of the state an operation touches\<close>

lemma rep_of_update [simp]:
  "rep_of (s\<lparr>ptD := d\<rparr>) = rep_of s" "rep_of (s\<lparr>wlist := w\<rparr>) = rep_of s" "rep_of (s\<lparr>irs := p\<rparr>) = rep_of s"
  "rep_of (s\<lparr>numOfProcessedAddr := n\<rparr>) = rep_of s" "rep_of (s\<lparr>numOfProcessedCopy := n\<rparr>) = rep_of s"
  "rep_of (s\<lparr>numOfProcessedGep := n\<rparr>) = rep_of s" "rep_of (s\<lparr>numOfProcessedLoad := n\<rparr>) = rep_of s"
  "rep_of (s\<lparr>numOfProcessedStore := n\<rparr>) = rep_of s"
  by (simp_all add: rep_of_def fun_eq_iff)

lemma unionPts_fields [simp]:
  "consCG (snd (unionPts i t s)) = consCG s" "irs (snd (unionPts i t s)) = irs s"
  "wlist (snd (unionPts i t s)) = wlist s" "DiffPts (snd (unionPts i t s)) = DiffPts s"
  "ptD (snd (unionPts i t s)) = snd (dd_unionPts (rep_of s i) t (ptD s))"
  "fst (unionPts i t s) = fst (dd_unionPts (rep_of s i) t (ptD s))"
  by (simp_all add: unionPts_def case_prod_beta)

lemma pushIntoWorklist_fields [simp]:
  "consCG (pushIntoWorklist i s) = consCG s" "irs (pushIntoWorklist i s) = irs s"
  "ptD (pushIntoWorklist i s) = ptD s" "DiffPts (pushIntoWorklist i s) = DiffPts s"
  "wlist (pushIntoWorklist i s) = snd (fifo_push (rep_of s i) (wlist s))"
  "rep_of (pushIntoWorklist i s) = rep_of s" "getPts (pushIntoWorklist i s) = getPts s"
  by (simp_all add: pushIntoWorklist_def rep_of_def getPts_def fun_eq_iff)

lemma diffStep_fields [simp]:
  "consCG (diffStep i s) = consCG s" "irs (diffStep i s) = irs s" "wlist (diffStep i s) = wlist s"
  "DiffPts (diffStep i s) = DiffPts s" "rep_of (diffStep i s) = rep_of s"
  by (simp_all add: diffStep_def Let_def rep_of_def fun_eq_iff)

lemma updatePropaPts_fields [simp]:
  "consCG (updatePropaPts d i s) = consCG s" "irs (updatePropaPts d i s) = irs s"
  "wlist (updatePropaPts d i s) = wlist s" "DiffPts (updatePropaPts d i s) = DiffPts s"
  "mutPTData (ptD (updatePropaPts d i s)) = mutPTData (ptD s)"
  by (simp_all add: updatePropaPts_def updatePropaPtsMap_def)

lemma rep_of_live: "live (consCG s) n \<Longrightarrow> rep_of s n = n"
  by (simp add: rep_of_def live_def)

lemma set_getPts_unionPts:
  assumes "dd_inv (ptD s)"
  shows "set (getPts (snd (unionPts i t s)) j) =
    (if rep_of s j = rep_of s i then set (getPts s j) \<union> set t else set (getPts s j))"
  using dd.union_pts[OF assms] by (auto simp: getPts_def rep_of_def)

section \<open>Copy edges\<close>

lemma processCopy_eq:
  "ekind e = Copy \<Longrightarrow> processCopy diff n e s =
     (let s0 = s\<lparr>numOfProcessedCopy := u32 (numOfProcessedCopy s + 1)\<rparr>;
          r = unionPts (edst e) (diff s0 n) s0
      in Some (fst r, if fst r then pushIntoWorklist (edst e) (snd r) else snd r))"
  by (simp add: processCopy_def Let_def case_prod_beta)

lemma getPts_count [simp]:
  "getPts (s\<lparr>numOfProcessedCopy := n\<rparr>) = getPts s" "getPts (s\<lparr>numOfProcessedGep := n\<rparr>) = getPts s"
  "getPts (s\<lparr>numOfProcessedLoad := n\<rparr>) = getPts s" "getPts (s\<lparr>numOfProcessedStore := n\<rparr>) = getPts s"
  by (simp_all add: getPts_def rep_of_def fun_eq_iff)

lemma diffOf_count [simp]:
  "diffOf (s\<lparr>numOfProcessedCopy := n\<rparr>) = diffOf s"
  by (simp add: diffOf_def rep_of_def fun_eq_iff Let_def)

lemma processCopy_Some:
  assumes "processCopy diff n e s = Some (b, s')" "dd_inv (ptD s)"
    and d: "\<And>m. diff (s\<lparr>numOfProcessedCopy := m\<rparr>) = diff s"
  shows "set (getPts s' j) = (if rep_of s j = rep_of s (edst e) then set (getPts s j) \<union> set (diff s n) else set (getPts s j))"
    "b \<longleftrightarrow> \<not> set (diff s n) \<subseteq> set (getPts s (edst e))" "dd_inv (ptD s')" "consCG s' = consCG s" "irs s' = irs s"
    "wlist s' = (if b then snd (fifo_push (rep_of s (edst e)) (wlist s)) else wlist s)" "DiffPts s' = DiffPts s"
    "diffPtsMap (ptD s') = diffPtsMap (ptD s)" "propaPtsMap (ptD s') = propaPtsMap (ptD s)"
    "ptD s' = snd (dd_unionPts (rep_of s (edst e)) (diff s n) (ptD s))"
proof -
  let ?s0 = "s\<lparr>numOfProcessedCopy := u32 (numOfProcessedCopy s + 1)\<rparr>"
  let ?r = "unionPts (edst e) (diff ?s0 n) ?s0"
  have "ekind e = Copy" using assms(1) by (auto simp: processCopy_def split: if_splits)
  then have r: "b = fst ?r" "s' = (if fst ?r then pushIntoWorklist (edst e) (snd ?r) else snd ?r)"
    using assms(1) by (auto simp: processCopy_eq Let_def)
  have inv: "dd_inv (ptD ?s0)" using assms(2) by simp
  have g: "getPts s' = getPts (snd ?r)" using r(2) by simp
  show "set (getPts s' j) = (if rep_of s j = rep_of s (edst e) then set (getPts s j) \<union> set (diff s n) else set (getPts s j))"
    unfolding g using set_getPts_unionPts[OF inv, of "edst e" "diff ?s0 n" j] by (simp add: d)
  show "b \<longleftrightarrow> \<not> set (diff s n) \<subseteq> set (getPts s (edst e))"
    using dd.union_changed[OF assms(2)] by (simp add: r(1) d getPts_def)
  show "dd_inv (ptD s')" using dd.union_inv[OF assms(2)] by (simp add: r(2))
  show "consCG s' = consCG s" "irs s' = irs s" "DiffPts s' = DiffPts s"
    "wlist s' = (if b then snd (fifo_push (rep_of s (edst e)) (wlist s)) else wlist s)"
    "diffPtsMap (ptD s') = diffPtsMap (ptD s)" "propaPtsMap (ptD s') = propaPtsMap (ptD s)"
    "ptD s' = snd (dd_unionPts (rep_of s (edst e)) (diff s n) (ptD s))"
    by (simp_all add: r dd_unionPts_simps rep_of_def d)
qed

section \<open>Difference propagation is sound\<close>

text \<open>
  What has been propagated from a node is in the set of every target of its copy edges, and
  was in its own set. A new copy edge keeps this because \<^verbatim>\<open>addCopyEdge\<close> takes from the
  propagated set of the source what is not in that of the target.
\<close>

definition propagated :: "'a ander_scheme \<Rightarrow> bool" where
  "propagated s \<longleftrightarrow>
     (\<forall>e \<in> set (cedges (consCG s)). ekind e = Copy \<longrightarrow>
        set (propaPtsMap (ptD s) (esrc e)) \<subseteq> set (dd_getPts (ptD s) (edst e)))"

definition propa_le :: "'a ander_scheme \<Rightarrow> bool" where
  "propa_le s \<longleftrightarrow> (\<forall>k. set (propaPtsMap (ptD s) k) \<subseteq> set (dd_getPts (ptD s) k))"

text \<open>A representative represents itself.\<close>

definition rep_ok :: "consg \<Rightarrow> bool" where
  "rep_ok g \<longleftrightarrow> (\<forall>i. sccRepNode g (sccRepNode g i) = sccRepNode g i)"

definition diff_inv :: "'a ander_scheme \<Rightarrow> bool" where
  "diff_inv s \<longleftrightarrow> DiffPts s \<and> consg_inv (consCG s) \<and> rep_ok (consCG s) \<and> dd_inv (ptD s) \<and> propagated s \<and> propa_le s"

lemma getPts_live: "live (consCG s) n \<Longrightarrow> getPts s n = dd_getPts (ptD s) n"
  by (simp add: getPts_def rep_of_live)

lemma consg_inv_ends:
  "consg_inv g \<Longrightarrow> e \<in> set (cedges g) \<Longrightarrow> live g (esrc e) \<and> live g (edst e) \<and> (ekind e = Copy \<longrightarrow> esrc e \<noteq> edst e)"
  by (simp add: consg_inv_def)

lemma set_getCopyOutEdges:
  "e \<in> set (getCopyOutEdges n g) \<longleftrightarrow> e \<in> set (cedges g) \<and> ekind e = Copy \<and> esrc e = n"
  by (auto simp: getCopyOutEdges_def getOutEdges_def)

lemma addCopyEdge_Some:
  assumes inv: "diff_inv s" and r: "addCopyEdge src dst s = Some (b, s')"
  shows "diff_inv s' \<and> same_nodes (consCG s) (consCG s') \<and> mutPTData (ptD s') = mutPTData (ptD s)
    \<and> irs s' = irs s \<and> wlist s' = wlist s \<and> set (cedges (consCG s)) \<subseteq> set (cedges (consCG s'))
    \<and> (rep_of s src = rep_of s dst \<or> hasEdge Copy (rep_of s src) (rep_of s dst) (consCG s'))"
proof -
  obtain u v where uv: "getConstraintNode src (consCG s) = Some u" "getConstraintNode dst (consCG s) = Some v"
    using r by (auto simp: addCopyEdge_def addCopyCGEdge_def Option.bind_eq_Some_conv)
  note ruv = getConstraintNode_live[OF uv(1)] getConstraintNode_live[OF uv(2)]
  have uv': "rep_of s src = u" "rep_of s dst = v" using ruv by (simp_all add: rep_of_def)
  show ?thesis
  proof (cases "hasEdge Copy u v (consCG s) \<or> u = v")
    case True
    then have "s' = s" using r uv by (auto simp: addCopyEdge_def addCopyCGEdge_def)
    then show ?thesis using inv True uv' by auto
  next
    case False
    have l: "live (consCG s) u" "live (consCG s) v"
      using ruv inv by (auto simp: live_def diff_inv_def rep_ok_def)
    let ?e = "mkEdge Copy u v 0 None (consCG s)"
    let ?g = "insertEdge ?e (consCG s)"
    have "addCopyCGEdge src dst None (consCG s) = Some (True, ?g)"
      using uv False by (simp add: addCopyCGEdge_def mkEdge_def)
    then have s': "b" "s' = updatePropaPts src dst (s\<lparr>consCG := ?g\<rparr>)"
      using r by (auto simp: addCopyEdge_def)
    have g: "consg_inv ?g" "same_nodes (consCG s) ?g"
      using insertEdge_inv[of "consCG s" ?e] l False inv by (auto simp: diff_inv_def)
    have rep: "rep_of (s\<lparr>consCG := ?g\<rparr>) = rep_of s"
      using same_nodes_rep[OF g(2)] by (simp add: rep_of_def fun_eq_iff)
    have m: "mutPTData (ptD s') = mutPTData (ptD s)" "consCG s' = ?g" by (simp_all add: s')
    have p: "propaPtsMap (ptD s') = (propaPtsMap (ptD s))(u := filter (\<lambda>d. d \<in> set (propaPtsMap (ptD s) v)) (propaPtsMap (ptD s) u))"
      using inv by (simp add: s' updatePropaPts_def updatePropaPtsMap_def rep uv' diff_inv_def)
    have sub: "set (propaPtsMap (ptD s') k) \<subseteq> set (propaPtsMap (ptD s) k)" for k by (auto simp: p)
    have gp: "dd_getPts (ptD s') = dd_getPts (ptD s)" by (simp add: dd_getPts_def m fun_eq_iff)
    have "propagated s'"
      unfolding propagated_def
    proof (intro ballI impI)
      fix e assume e: "e \<in> set (cedges (consCG s'))" "ekind e = Copy"
      show "set (propaPtsMap (ptD s') (esrc e)) \<subseteq> set (dd_getPts (ptD s') (edst e))"
      proof (cases "e = ?e")
        case True
        have "set (propaPtsMap (ptD s') u) \<subseteq> set (propaPtsMap (ptD s) v)" by (auto simp: p)
        then show ?thesis using inv True unfolding gp diff_inv_def propa_le_def by auto
      next
        case False
        then have "e \<in> set (cedges (consCG s))" using e(1) m(2) by auto
        then show ?thesis using inv e(2) sub[of "esrc e"] unfolding gp diff_inv_def propagated_def by blast
      qed
    qed
    moreover have "propa_le s'"
      using inv sub unfolding propa_le_def gp diff_inv_def by blast
    moreover have "rep_ok ?g" using inv same_nodes_rep[OF g(2)] by (simp add: diff_inv_def rep_ok_def)
    moreover have "dd_inv (ptD s')" "DiffPts s'" using inv by (simp_all add: diff_inv_def dd_inv_def m s')
    moreover have "hasEdge Copy u v ?g" by (simp add: hasEdge_iff)
    ultimately show ?thesis using g m uv' by (simp add: diff_inv_def s' subset_insertI)
  qed
qed

text \<open>A step that lets sets grow and leaves edges and the propagated sets alone keeps the invariant.\<close>

definition grows :: "'a ander_scheme \<Rightarrow> 'a ander_scheme \<Rightarrow> bool" where
  "grows s t \<longleftrightarrow> (\<forall>k. set (dd_getPts (ptD s) k) \<subseteq> set (dd_getPts (ptD t) k))"

lemma grows_refl [simp]: "grows s s"
  by (simp add: grows_def)

lemma grows_trans [trans]: "grows s t \<Longrightarrow> grows t u \<Longrightarrow> grows s u"
  unfolding grows_def by blast

lemma propagated_grow:
  assumes "propagated s" "grows s t" "cedges (consCG t) = cedges (consCG s)"
    "propaPtsMap (ptD t) = propaPtsMap (ptD s)"
  shows "propagated t"
  unfolding propagated_def assms(3,4)
proof (intro ballI impI)
  fix e assume "e \<in> set (cedges (consCG s))" "ekind e = Copy"
  then have "set (propaPtsMap (ptD s) (esrc e)) \<subseteq> set (dd_getPts (ptD s) (edst e))"
    using assms(1) by (simp add: propagated_def)
  also have "\<dots> \<subseteq> set (dd_getPts (ptD t) (edst e))" using assms(2) by (simp add: grows_def)
  finally show "set (propaPtsMap (ptD s) (esrc e)) \<subseteq> set (dd_getPts (ptD t) (edst e))" .
qed

lemma propa_le_grow:
  assumes "propa_le s" "grows s t" "propaPtsMap (ptD t) = propaPtsMap (ptD s)"
  shows "propa_le t"
  unfolding propa_le_def assms(3) using assms(1,2) by (auto simp: propa_le_def grows_def)

lemma grows_unionPts:
  "dd_inv (ptD s) \<Longrightarrow> grows s (snd (unionPts i t s))"
  unfolding grows_def unionPts_fields using dd.union_mono by blast

text \<open>What the two loops of \<^verbatim>\<open>handleCopyGep\<close> keep of the state at their start.\<close>

definition prop_step :: "'a ander_scheme \<Rightarrow> 'a ander_scheme \<Rightarrow> bool" where
  "prop_step s t \<longleftrightarrow> grows s t \<and> dd_inv (ptD t) \<and> consg_inv (consCG t) \<and> rep_ok (consCG t)
     \<and> cedges (consCG t) = cedges (consCG s) \<and> nodeToRep (consCG t) = nodeToRep (consCG s)
     \<and> propaPtsMap (ptD t) = propaPtsMap (ptD s) \<and> diffPtsMap (ptD t) = diffPtsMap (ptD s)
     \<and> DiffPts t = DiffPts s"

lemma prop_step_trans [trans]: "prop_step s t \<Longrightarrow> prop_step t u \<Longrightarrow> prop_step s u"
  unfolding prop_step_def using grows_trans[of s t u] by simp

lemma prop_step_copy:
  assumes "processCopy diffOf n e s = Some (b, s')" "dd_inv (ptD s)" "consg_inv (consCG s)" "rep_ok (consCG s)"
  shows "prop_step s s'"
proof -
  note f = processCopy_Some[OF assms(1,2) diffOf_count]
  have "grows s s'" unfolding grows_def f(10) using dd.union_mono[OF assms(2)] by blast
  then show ?thesis using f assms by (simp add: prop_step_def)
qed

lemma addConstraintNode_fields [simp]:
  "cedges (addConstraintNode n g) = cedges g" "nodeToRep (addConstraintNode n g) = nodeToRep g"
  "sccRepNode (addConstraintNode n g) = sccRepNode g"
  by (simp_all add: addConstraintNode_def sccRepNode_def fun_eq_iff)

lemma addNodeToBeCollapsed_fields [simp]:
  "cedges (addNodeToBeCollapsed n g) = cedges g" "nodeToRep (addNodeToBeCollapsed n g) = nodeToRep g"
  "cnodes (addNodeToBeCollapsed n g) = cnodes g" "sccRepNode (addNodeToBeCollapsed n g) = sccRepNode g"
  "live (addNodeToBeCollapsed n g) = live g" "consg_inv (addNodeToBeCollapsed n g) = consg_inv g"
  by (simp_all add: addNodeToBeCollapsed_def sccRepNode_def fun_eq_iff live_def consg_inv_def)

lemma gepTarget_step:
  assumes "gepTarget e o1 s = Some (t, s')" "consg_inv (consCG s)" "rep_ok (consCG s)"
  shows "ptD s' = ptD s \<and> DiffPts s' = DiffPts s \<and> wlist s' = wlist s \<and> consg_inv (consCG s') \<and> rep_ok (consCG s')
    \<and> cedges (consCG s') = cedges (consCG s) \<and> nodeToRep (consCG s') = nodeToRep (consCG s)"
  using assms
  by (auto simp: gepTarget_def consGepObjVar_def rep_ok_def Let_def Option.bind_eq_Some_conv addConstraintNode_inv
      split: if_splits prod.splits)

lemma prop_step_fields:
  assumes "ptD t = ptD s" "DiffPts t = DiffPts s" "consg_inv (consCG t)" "rep_ok (consCG t)" "dd_inv (ptD s)"
    "cedges (consCG t) = cedges (consCG s)" "nodeToRep (consCG t) = nodeToRep (consCG s)"
  shows "prop_step s t"
  using assms by (simp add: prop_step_def grows_def)

lemma prop_step_gep:
  assumes r: "processGepPts p e s = Some (b, s')"
    and inv: "dd_inv (ptD s)" "consg_inv (consCG s)" "rep_ok (consCG s)"
  shows "prop_step s s'"
proof -
  let ?s0 = "s\<lparr>numOfProcessedGep := u32 (numOfProcessedGep s + 1)\<rparr>"
  let ?body = "\<lambda>o1 (tmp, s'). map_option (\<lambda>(t, s''). (oset_insert t tmp, s'')) (gepTarget e o1 s')"
  obtain tmp s1 where l: "foldO ?body p ([], ?s0) = Some (tmp, s1)"
    and s': "s' = (if fst (unionPts (edst e) tmp s1) then pushIntoWorklist (edst e) (snd (unionPts (edst e) tmp s1))
                   else snd (unionPts (edst e) tmp s1))"
    using r by (auto simp: processGepPts_def Option.bind_eq_Some_conv Let_def case_prod_beta split: if_splits)
  have start: "prop_step s ?s0" using inv by (intro prop_step_fields) simp_all
  have "(\<lambda>(_, u). prop_step s u) (tmp, s1)"
  proof (rule foldO_partial[OF l])
    fix x :: node_id and u v :: "node_id oset \<times> 'a ander_scheme"
    assume u: "case u of (_, w) \<Rightarrow> prop_step s w" and step: "?body x u = Some v"
    obtain tu su where [simp]: "u = (tu, su)" by fastforce
    obtain t sv where g: "gepTarget e x su = Some (t, sv)" and [simp]: "v = (oset_insert t tu, sv)"
      using step by auto
    have su: "prop_step s su" using u by simp
    then have i: "dd_inv (ptD su)" "consg_inv (consCG su)" "rep_ok (consCG su)" by (auto simp: prop_step_def)
    note gs = gepTarget_step[OF g i(2,3)]
    have "prop_step su sv" by (rule prop_step_fields) (use gs i in simp_all)
    then show "case v of (_, w) \<Rightarrow> prop_step s w" using su prop_step_trans by auto
  qed (use start in simp)
  then have p1: "prop_step s s1" by simp
  then have i1: "dd_inv (ptD s1)" "consg_inv (consCG s1)" "rep_ok (consCG s1)" by (auto simp: prop_step_def)
  have "grows s1 s'" using grows_unionPts[OF i1(1)] by (simp add: s' grows_def)
  moreover have "dd_inv (ptD s')" using dd.union_inv[OF i1(1)] by (simp add: s')
  ultimately have "prop_step s1 s'" using i1 by (simp add: prop_step_def s' dd_unionPts_simps)
  with p1 show ?thesis by (rule prop_step_trans)
qed

text \<open>\<^verbatim>\<open>handleCopyGep\<close>: the set of the node reaches the target of each of its copy edges.\<close>

lemma diffStep_ptD:
  assumes "diff_inv s" "live (consCG s) n"
  shows "dd_getPts (ptD (diffStep n s)) = dd_getPts (ptD s)"
    "propaPtsMap (ptD (diffStep n s)) = (propaPtsMap (ptD s))(n := dd_getPts (ptD s) n)"
    "set (diffOf (diffStep n s) n) = set (dd_getPts (ptD s) n) - set (propaPtsMap (ptD s) n)"
    "dd_inv (ptD (diffStep n s))"
  using assms
  by (auto simp: diffStep_def diff_inv_def rep_of_live Let_def computeDiffPts_def dd_getPts_def fun_eq_iff
      diffOf_def getDiffPts_def dd_inv_def rep_of_def live_def)

lemma copies_propagate:
  assumes inv: "diff_inv s" and l: "live (consCG s) n"
    and r: "foldO (\<lambda>e s'. map_option snd (processCopy diffOf n e s')) (getCopyOutEdges n (consCG s)) (diffStep n s) = Some s1"
  shows "prop_step (diffStep n s) s1
    \<and> (\<forall>e \<in> set (getCopyOutEdges n (consCG s)). set (diffOf (diffStep n s) n) \<subseteq> set (dd_getPts (ptD s1) (edst e)))"
proof -
  let ?s0 = "diffStep n s"
  let ?I = "\<lambda>ds t. prop_step ?s0 t \<and> (\<forall>e \<in> set ds. set (diffOf ?s0 n) \<subseteq> set (dd_getPts (ptD t) (edst e)))"
  have i0: "dd_inv (ptD ?s0)" "consg_inv (consCG ?s0)" "rep_ok (consCG ?s0)"
    using inv diffStep_ptD(4)[OF inv l] by (simp_all add: diff_inv_def)
  show ?thesis
  proof (rule foldO_steps[OF r])
    show "?I [] ?s0" using prop_step_fields[of ?s0 ?s0] i0 by simp
  next
    fix ds e t t'
    assume sub: "set (ds @ [e]) \<subseteq> set (getCopyOutEdges n (consCG s))" and I: "?I ds t"
      and step: "map_option snd (processCopy diffOf n e t) = Some t'"
    obtain b where c: "processCopy diffOf n e t = Some (b, t')" using step by auto
    have it: "dd_inv (ptD t)" "consg_inv (consCG t)" "rep_ok (consCG t)" "prop_step ?s0 t"
      using I by (auto simp: prop_step_def)
    have p: "prop_step t t'" by (rule prop_step_copy[OF c it(1-3)])
    have "e \<in> set (cedges (consCG s))" using sub by (auto simp: set_getCopyOutEdges)
    then have "live (consCG t) (edst e)"
      using consg_inv_ends[OF it(2), of e] it(4) by (simp add: prop_step_def)
    then have rep: "rep_of t (edst e) = edst e" by (rule rep_of_live)
    have d: "diffOf t n = diffOf ?s0 n"
      using it(4) inv by (simp add: prop_step_def diffOf_def rep_of_def sccRepNode_def getDiffPts_def Let_def diff_inv_def)
    have "set (diffOf ?s0 n) \<subseteq> set (dd_getPts (ptD t') (edst e))"
      using processCopy_Some(10)[OF c it(1) diffOf_count] dd.union_pts[OF it(1)] by (auto simp: rep d)
    moreover have "grows t t'" using p by (simp add: prop_step_def)
    moreover have "set (diffOf ?s0 n) \<subseteq> set (dd_getPts (ptD t') (edst f))" if "f \<in> set ds" for f
      using I that \<open>grows t t'\<close> unfolding grows_def by blast
    ultimately show "?I (ds @ [e]) t'"
      using prop_step_trans[OF it(4) p] by simp
  qed
qed

lemma prop_step_diff_inv:
  assumes "prop_step s t" "propagated s" "propa_le s" "DiffPts s"
  shows "diff_inv t"
  using assms propagated_grow[OF assms(2)] propa_le_grow[OF assms(3)] by (simp add: prop_step_def diff_inv_def)

lemma geps_step:
  assumes "foldO (\<lambda>e s'. map_option snd (processGep diffOf n e s')) es s1 = Some s2" "prop_step s0 s1"
  shows "prop_step s0 s2"
proof (rule foldO_partial[OF assms(1)])
  fix e u v
  assume u: "prop_step s0 u" and step: "map_option snd (processGep diffOf n e u) = Some v"
  obtain b where "processGepPts (diffOf u (esrc e)) e u = Some (b, v)"
    using step by (auto simp: processGep_def)
  then have "prop_step u v" by (rule prop_step_gep) (use u in \<open>simp_all add: prop_step_def\<close>)
  with u show "prop_step s0 v" by (rule prop_step_trans)
qed (rule assms(2))

lemma handleCopyGep_spec:
  assumes inv: "diff_inv s" and l: "live (consCG s) n" and r: "handleCopyGep andersen_methods n s = Some s'"
  shows "diff_inv s' \<and> grows s s' \<and> cedges (consCG s') = cedges (consCG s)
    \<and> rep_of s' = rep_of s
    \<and> (\<forall>e \<in> set (getCopyOutEdges n (consCG s)). set (dd_getPts (ptD s) n) \<subseteq> set (dd_getPts (ptD s') (edst e)))"
proof -
  let ?s0 = "diffStep n s"
  note d = diffStep_ptD[OF inv l]
  have g0: "grows s ?s0" by (simp add: grows_def d(1))
  have start: "prop_step ?s0 ?s0" using inv d(4) by (intro prop_step_fields) (simp_all add: diff_inv_def)
  have old: "set (propaPtsMap (ptD s) n) \<subseteq> set (dd_getPts (ptD s) (edst e))"
    if "e \<in> set (getCopyOutEdges n (consCG s))" for e
    using that inv by (auto simp: set_getCopyOutEdges diff_inv_def propagated_def)
  have fin: "diff_inv s'"
    if p: "prop_step ?s0 s'" and reach: "\<And>e. e \<in> set (getCopyOutEdges n (consCG s)) \<Longrightarrow>
      set (diffOf ?s0 n) \<subseteq> set (dd_getPts (ptD s') (edst e))"
  proof -
    have P: "propaPtsMap (ptD s') = (propaPtsMap (ptD s))(n := dd_getPts (ptD s) n)"
      using p d(2) by (simp add: prop_step_def)
    have G: "grows s s'" using p g0 grows_trans by (auto simp: prop_step_def)
    have "propagated s'"
      unfolding propagated_def
    proof (intro ballI impI)
      fix e assume "e \<in> set (cedges (consCG s'))" "ekind e = Copy"
      then have e: "e \<in> set (cedges (consCG s))" "ekind e = Copy" using p by (simp_all add: prop_step_def)
      have "set (propaPtsMap (ptD s) (esrc e)) \<subseteq> set (dd_getPts (ptD s) (edst e))"
        using e inv by (simp add: diff_inv_def propagated_def)
      then have o: "set (propaPtsMap (ptD s) (esrc e)) \<subseteq> set (dd_getPts (ptD s') (edst e))"
        using G unfolding grows_def by blast
      show "set (propaPtsMap (ptD s') (esrc e)) \<subseteq> set (dd_getPts (ptD s') (edst e))"
      proof (cases "esrc e = n")
        case True
        then have "set (diffOf ?s0 n) \<subseteq> set (dd_getPts (ptD s') (edst e))"
          using reach e by (simp add: set_getCopyOutEdges)
        then show ?thesis using o d(3) True by (auto simp: P)
      qed (use o in \<open>simp add: P\<close>)
    qed
    moreover have "propa_le s'" using inv G by (fastforce simp: propa_le_def P diff_inv_def grows_def)
    ultimately show ?thesis using p inv by (simp add: diff_inv_def prop_step_def)
  qed
  have all: "set (dd_getPts (ptD s) n) \<subseteq> set (dd_getPts (ptD s') (edst e))"
    if "e \<in> set (getCopyOutEdges n (consCG s))" "prop_step ?s0 s'"
      "set (diffOf ?s0 n) \<subseteq> set (dd_getPts (ptD s') (edst e))" for e
  proof -
    have "set (propaPtsMap (ptD s) n) \<subseteq> set (dd_getPts (ptD s') (edst e))"
      using old[OF that(1)] that(2) d(1) unfolding prop_step_def grows_def by (metis order_trans)
    then show ?thesis using that(3) d(3) by auto
  qed
  have pr: "prop_step ?s0 s' \<and> (\<forall>e \<in> set (getCopyOutEdges n (consCG s)). set (diffOf ?s0 n) \<subseteq> set (dd_getPts (ptD s') (edst e)))"
  proof (cases "diffOf ?s0 n = []")
    case True
    then have "s' = ?s0" using r by (simp add: handleCopyGep_def andersen_methods_def Let_def)
    then show ?thesis using start True by simp
  next
    case False
    then obtain s1 where s1: "foldO (\<lambda>e s'. map_option snd (processCopy diffOf n e s')) (getCopyOutEdges n (consCG s)) ?s0 = Some s1"
      and s2: "foldO (\<lambda>e s'. map_option snd (processGep diffOf n e s')) (getGepOutEdges n (consCG s1)) s1 = Some s'"
      using r by (auto simp: handleCopyGep_def andersen_methods_def Let_def Option.bind_eq_Some_conv)
    note c = copies_propagate[OF inv l s1]
    have i1: "prop_step s1 s1" using c by (intro prop_step_fields) (simp_all add: prop_step_def)
    have "prop_step s1 s'" by (rule geps_step[OF s2 i1])
    then show ?thesis using c prop_step_trans[of ?s0 s1 s'] unfolding prop_step_def grows_def by blast
  qed
  from pr have p: "prop_step ?s0 s'" and reach: "\<forall>e \<in> set (getCopyOutEdges n (consCG s)).
      set (diffOf ?s0 n) \<subseteq> set (dd_getPts (ptD s') (edst e))" by simp_all
  have "grows s s'" using p g0 grows_trans by (auto simp: prop_step_def)
  moreover have "cedges (consCG s') = cedges (consCG s)" "rep_of s' = rep_of s"
    using p by (simp_all add: prop_step_def rep_of_def sccRepNode_def fun_eq_iff)
  ultimately show ?thesis using fin[OF p] reach all[OF _ p] by blast
qed

section \<open>Loads and stores\<close>

definition linked :: "'a ander_scheme \<Rightarrow> node_id \<Rightarrow> node_id \<Rightarrow> bool" where
  "linked s a b \<longleftrightarrow> rep_of s a = rep_of s b \<or> hasEdge Copy (rep_of s a) (rep_of s b) (consCG s)"

definition ls_step :: "'a ander_scheme \<Rightarrow> 'a ander_scheme \<Rightarrow> bool" where
  "ls_step s t \<longleftrightarrow> diff_inv t \<and> same_nodes (consCG s) (consCG t) \<and> mutPTData (ptD t) = mutPTData (ptD s)
     \<and> irs t = irs s \<and> set (cedges (consCG s)) \<subseteq> set (cedges (consCG t))"

lemma ls_step_refl: "diff_inv s \<Longrightarrow> ls_step s s"
  by (simp add: ls_step_def)

lemma ls_step_trans [trans]: "ls_step s t \<Longrightarrow> ls_step t u \<Longrightarrow> ls_step s u"
  unfolding ls_step_def using same_nodes_trans by (metis order_trans)

lemma ls_step_linked: "ls_step s t \<Longrightarrow> linked s a b \<Longrightarrow> linked t a b"
  unfolding ls_step_def linked_def rep_of_def hasEdge_iff using same_nodes_rep by fastforce

lemma diff_inv_wlist [simp]: "diff_inv (pushIntoWorklist i s) = diff_inv s"
  by (simp add: diff_inv_def propagated_def propa_le_def)

lemma ls_step_push [simp]: "ls_step s (pushIntoWorklist i t) = ls_step s t"
  by (simp add: ls_step_def)

lemma linked_push [simp]: "linked (pushIntoWorklist i t) = linked t"
  by (simp add: linked_def fun_eq_iff)

lemma diff_inv_count [simp]:
  "diff_inv (s\<lparr>numOfProcessedLoad := m\<rparr>) = diff_inv s" "diff_inv (s\<lparr>numOfProcessedStore := m\<rparr>) = diff_inv s"
  by (simp_all add: diff_inv_def propagated_def propa_le_def)

lemma addCopyEdge_step:
  assumes "addCopyEdge a b s = Some (c, s')" "diff_inv s"
  shows "ls_step s s' \<and> linked s' a b"
proof -
  note sp = addCopyEdge_Some[OF assms(2,1)]
  then have "rep_of s' = rep_of s" using same_nodes_rep by (auto simp: rep_of_def fun_eq_iff)
  then show ?thesis using sp by (auto simp: ls_step_def linked_def)
qed

text \<open>The pointees and edge ends a load or store edge is skipped for.\<close>

definition untracked :: "node_id \<Rightarrow> node_id \<Rightarrow> 'a ander_scheme \<Rightarrow> bool" where
  "untracked o1 v s \<longleftrightarrow> isConstantObj o1 (irs s) = Some True \<or> isPointer v (irs s) = Some False"

lemma processLoad_step:
  assumes "processLoad o1 e s = Some (b, s')" "diff_inv s"
  shows "ls_step s s' \<and> (untracked o1 (edst e) s' \<or> linked s' o1 (edst e))"
  using assms addCopyEdge_step[of o1 "edst e" "s\<lparr>numOfProcessedLoad := u32 (numOfProcessedLoad s + 1)\<rparr>" b s']
  by (auto simp: processLoad_def Option.bind_eq_Some_conv untracked_def ls_step_def split: if_splits)

lemma processStore_step:
  assumes "processStore o1 e s = Some (b, s')" "diff_inv s"
  shows "ls_step s s' \<and> (untracked o1 (esrc e) s' \<or> linked s' (esrc e) o1)"
  using assms addCopyEdge_step[of "esrc e" o1 "s\<lparr>numOfProcessedStore := u32 (numOfProcessedStore s + 1)\<rparr>" b s']
  by (auto simp: processStore_def Option.bind_eq_Some_conv untracked_def ls_step_def split: if_splits)

text \<open>One of the two loops of \<^verbatim>\<open>handleLoadStore\<close> over the edges at the node.\<close>

lemma ls_loop:
  assumes r: "foldO (\<lambda>e s'. map_option (\<lambda>(b, s''). if b then pushIntoWorklist (w e) s'' else s'') (f e s')) es s = Some t"
    and inv: "diff_inv s"
    and f: "\<And>e u b u'. f e u = Some (b, u') \<Longrightarrow> diff_inv u \<Longrightarrow> ls_step u u' \<and> (untracked o1 (v e) u' \<or> linked u' (x e) (y e))"
  shows "ls_step s t \<and> (\<forall>e \<in> set es. untracked o1 (v e) t \<or> linked t (x e) (y e))"
proof (rule foldO_steps[OF r])
  show "ls_step s s \<and> (\<forall>e \<in> set []. untracked o1 (v e) s \<or> linked s (x e) (y e))"
    using inv by (simp add: ls_step_refl)
next
  fix ds e u u'
  assume I: "ls_step s u \<and> (\<forall>e \<in> set ds. untracked o1 (v e) u \<or> linked u (x e) (y e))"
    and step: "map_option (\<lambda>(b, s''). if b then pushIntoWorklist (w e) s'' else s'') (f e u) = Some u'"
  obtain b u0 where u0: "f e u = Some (b, u0)" "u' = (if b then pushIntoWorklist (w e) u0 else u0)"
    using step by auto
  have "diff_inv u" using I by (simp add: ls_step_def)
  note s0 = f[OF u0(1) this]
  have irs: "irs u0 = irs u" using s0 by (simp add: ls_step_def)
  have push: "ls_step s u' = ls_step s u0" "linked u' = linked u0" "irs u' = irs u0" by (simp_all add: u0(2))
  have "ls_step s u0" using I s0 ls_step_trans by blast
  moreover have "untracked o1 (v e') u0 \<or> linked u0 (x e') (y e')" if "e' \<in> set ds" for e'
    using I that s0 ls_step_linked[of u u0] irs by (auto simp: untracked_def)
  ultimately show "ls_step s u' \<and> (\<forall>e \<in> set (ds @ [e]). untracked o1 (v e) u' \<or> linked u' (x e) (y e))"
    using s0 by (auto simp: push untracked_def)
qed

lemma set_getLoadOutEdges:
  "e \<in> set (getLoadOutEdges n g) \<longleftrightarrow> e \<in> set (cedges g) \<and> ekind e = Load \<and> esrc e = n"
  by (auto simp: getLoadOutEdges_def getOutEdges_def)

lemma set_getStoreInEdges:
  "e \<in> set (getStoreInEdges n g) \<longleftrightarrow> e \<in> set (cedges g) \<and> ekind e = Store \<and> edst e = n"
  by (auto simp: getStoreInEdges_def getInEdges_def)

text \<open>
  \<open>loads_done n A s t\<close>: for every object in \<open>A\<close> and every load and store edge of \<open>s\<close> at
  the node, the copy edge the constraint asks for is in the graph of \<open>t\<close>.
\<close>

definition loads_done :: "node_id \<Rightarrow> node_id set \<Rightarrow> 'a ander_scheme \<Rightarrow> 'a ander_scheme \<Rightarrow> bool" where
  "loads_done n A s t \<longleftrightarrow>
     (\<forall>o1 \<in> A. (\<forall>e \<in> set (getLoadOutEdges n (consCG s)). untracked o1 (edst e) s \<or> linked t o1 (edst e))
       \<and> (\<forall>e \<in> set (getStoreInEdges n (consCG s)). untracked o1 (esrc e) s \<or> linked t (esrc e) o1))"

lemma loads_done_mono:
  "loads_done n A s t \<Longrightarrow> (\<And>a b. linked t a b \<Longrightarrow> linked u a b) \<Longrightarrow> loads_done n A s u"
  unfolding loads_done_def by blast

lemma untracked_step: "ls_step s t \<Longrightarrow> untracked a b t = untracked a b s"
  by (simp add: untracked_def ls_step_def)

lemma handleLoadStore_spec:
  assumes inv: "diff_inv s" and r: "handleLoadStore andersen_methods n s = Some s'"
  shows "ls_step s s' \<and> loads_done n (set (getPts s n)) s s'"
proof (rule foldO_steps[OF r[unfolded handleLoadStore_def]])
  show "ls_step s s \<and> loads_done n (set []) s s" using inv by (simp add: ls_step_refl loads_done_def)
next
  fix ds o1 u u'
  assume I: "ls_step s u \<and> loads_done n (set ds) s u"
    and step: "do {
         s1 \<leftarrow> foldO (\<lambda>e s'. map_option (\<lambda>(b, s''). if b then pushIntoWorklist o1 s'' else s'')
                (v_processLoad andersen_methods o1 e s')) (getLoadOutEdges n (consCG u)) u;
         foldO (\<lambda>e s'. map_option (\<lambda>(b, s''). if b then pushIntoWorklist (esrc e) s'' else s'')
                (v_processStore andersen_methods o1 e s')) (getStoreInEdges n (consCG s1)) s1
       } = Some u'"
  obtain u1 where u1: "foldO (\<lambda>e s'. map_option (\<lambda>(b, s''). if b then pushIntoWorklist o1 s'' else s'')
                (processLoad o1 e s')) (getLoadOutEdges n (consCG u)) u = Some u1"
    and u2: "foldO (\<lambda>e s'. map_option (\<lambda>(b, s''). if b then pushIntoWorklist (esrc e) s'' else s'')
                (processStore o1 e s')) (getStoreInEdges n (consCG u1)) u1 = Some u'"
    using step by (auto simp: andersen_methods_def Option.bind_eq_Some_conv)
  have "diff_inv u" using I by (simp add: ls_step_def)
  have l1: "ls_step u u1 \<and> (\<forall>e \<in> set (getLoadOutEdges n (consCG u)). untracked o1 (edst e) u1 \<or> linked u1 o1 (edst e))"
    by (rule ls_loop[OF u1 \<open>diff_inv u\<close>]) (rule processLoad_step)
  then have "diff_inv u1" by (simp add: ls_step_def)
  have l2: "ls_step u1 u' \<and> (\<forall>e \<in> set (getStoreInEdges n (consCG u1)). untracked o1 (esrc e) u' \<or> linked u' (esrc e) o1)"
    by (rule ls_loop[OF u2 \<open>diff_inv u1\<close>]) (rule processStore_step)
  have su': "ls_step s u'" "ls_step u u'" using I l1 l2 ls_step_trans by blast+
  have ld: "untracked o1 (edst e) s \<or> linked u' o1 (edst e)" if "e \<in> set (getLoadOutEdges n (consCG s))" for e
  proof -
    have "e \<in> set (getLoadOutEdges n (consCG u))" using that I by (auto simp: set_getLoadOutEdges ls_step_def)
    then have "untracked o1 (edst e) u1 \<or> linked u1 o1 (edst e)" using l1 by blast
    then show ?thesis using l2 ls_step_linked[of u1 u'] untracked_step I l1 by blast
  qed
  have st: "untracked o1 (esrc e) s \<or> linked u' (esrc e) o1" if "e \<in> set (getStoreInEdges n (consCG s))" for e
  proof -
    have "e \<in> set (getStoreInEdges n (consCG u1))" using that I l1 by (auto simp: set_getStoreInEdges ls_step_def)
    then show ?thesis using l2 untracked_step[OF su'(1)] by blast
  qed
  have "loads_done n (set ds) s u'" using I loads_done_mono ls_step_linked[OF su'(2)] by blast
  then show "ls_step s u' \<and> loads_done n (set (ds @ [o1])) s u'"
    using su'(1) ld st by (auto simp: loads_done_def)
qed

lemma processNode_spec:
  assumes inv: "diff_inv s" and rep: "rep_of s n = n" and r: "processNode andersen_methods n s = Some s'"
  shows "diff_inv s' \<and> set (cedges (consCG s)) \<subseteq> set (cedges (consCG s')) \<and> grows s s'
    \<and> (\<forall>e \<in> set (getCopyOutEdges n (consCG s)). set (dd_getPts (ptD s) n) \<subseteq> set (dd_getPts (ptD s') (edst e)))
    \<and> loads_done n (set (dd_getPts (ptD s) n)) s s'"
proof -
  obtain s1 where n: "n \<in> set (cnodes (consCG s))" and s1: "handleLoadStore andersen_methods n s = Some s1"
    and s': "handleCopyGep andersen_methods n s1 = Some s'"
    using r rep getConstraintNode_live[of n "consCG s"]
    by (auto simp: processNode_def rep_of_def Option.bind_eq_Some_conv)
  have l: "live (consCG s) n" using n rep by (simp add: live_def rep_of_def)
  have ls: "ls_step s s1" "loads_done n (set (dd_getPts (ptD s) n)) s s1"
    using handleLoadStore_spec[OF inv s1] by (simp_all add: getPts_live[OF l])
  have l1: "live (consCG s1) n" using ls(1) l same_nodes_live by (auto simp: ls_step_def)
  have inv1: "diff_inv s1" using ls(1) by (simp add: ls_step_def)
  note h = handleCopyGep_spec[OF inv1 l1 s']
  have p1: "dd_getPts (ptD s1) = dd_getPts (ptD s)"
    using ls(1) by (simp add: ls_step_def dd_getPts_def fun_eq_iff)
  have sub: "set (getCopyOutEdges n (consCG s)) \<subseteq> set (getCopyOutEdges n (consCG s1))"
    using ls(1) by (auto simp: set_getCopyOutEdges ls_step_def)
  have "linked s' a b" if "linked s1 a b" for a b
    using that h by (simp add: linked_def hasEdge_iff)
  then have "loads_done n (set (dd_getPts (ptD s) n)) s s'" using ls(2) loads_done_mono by blast
  moreover have "grows s s'" using h by (simp add: grows_def p1)
  moreover have "set (cedges (consCG s)) \<subseteq> set (cedges (consCG s'))" using ls(1) h by (simp add: ls_step_def)
  ultimately show ?thesis using h sub unfolding p1 by blast
qed

section \<open>Merging keeps the representatives\<close>

definition scc_ok :: "consg \<Rightarrow> bool" where
  "scc_ok g \<longleftrightarrow> rep_ok g
     \<and> (\<forall>n. \<forall>i \<in> set (nodeToSubs g n). sccRepNode g i = n)
     \<and> (\<forall>i. sccRepNode g i \<noteq> i \<longrightarrow> i \<in> set (nodeToSubs g (sccRepNode g i)))"

lemma fold_setRep:
  "nodeToRep (fold (\<lambda>i h. setRep i r h) is g) = (\<lambda>i. if i \<in> set is then Some r else nodeToRep g i)
   \<and> nodeToSubs (fold (\<lambda>i h. setRep i r h) is g) = nodeToSubs g
   \<and> cnodes (fold (\<lambda>i h. setRep i r h) is g) = cnodes g
   \<and> cedges (fold (\<lambda>i h. setRep i r h) is g) = cedges g"
  by (induction "is" arbitrary: g) (auto simp: setRep_def fun_eq_iff)

lemma updateNodeRepAndSubs_fields:
  assumes "scc_ok g" "sccRepNode g n = n" "n \<noteq> r"
  shows "sccRepNode (updateNodeRepAndSubs n r g) i = (if sccRepNode g i = n then r else sccRepNode g i)"
    "set (nodeToSubs (updateNodeRepAndSubs n r g) k) =
      (if k = n then {} else if k = r then {n} \<union> set (nodeToSubs g n) \<union> set (nodeToSubs g r) else set (nodeToSubs g k))"
    "cnodes (updateNodeRepAndSubs n r g) = cnodes g" "cedges (updateNodeRepAndSubs n r g) = cedges g"
proof -
  have mem: "i \<in> insert n (set (nodeToSubs g n)) \<longleftrightarrow> sccRepNode g i = n"
    using assms(1,2) unfolding scc_ok_def by (metis insert_iff)
  have "nodeToRep (updateNodeRepAndSubs n r g) i = (if i \<in> insert n (set (nodeToSubs g n)) then Some r else nodeToRep g i)"
    using fold_setRep
    by (auto simp: updateNodeRepAndSubs_def Let_def sccSubNodes_def setRep_def resetSubs_def setSubs_def)
  then show "sccRepNode (updateNodeRepAndSubs n r g) i = (if sccRepNode g i = n then r else sccRepNode g i)"
    unfolding mem by (simp add: sccRepNode_def)
  show "set (nodeToSubs (updateNodeRepAndSubs n r g) k) =
      (if k = n then {} else if k = r then {n} \<union> set (nodeToSubs g n) \<union> set (nodeToSubs g r) else set (nodeToSubs g k))"
    using fold_setRep assms(3)
    by (auto simp: updateNodeRepAndSubs_def Let_def sccSubNodes_def setRep_def resetSubs_def setSubs_def)
  show "cnodes (updateNodeRepAndSubs n r g) = cnodes g" "cedges (updateNodeRepAndSubs n r g) = cedges g"
    using fold_setRep by (simp_all add: updateNodeRepAndSubs_def Let_def sccSubNodes_def setRep_def resetSubs_def setSubs_def)
qed

lemma updateNodeRepAndSubs_ok:
  assumes ok: "scc_ok g" and n: "sccRepNode g n = n" and r: "sccRepNode g r = r" and ne: "n \<noteq> r"
  shows "scc_ok (updateNodeRepAndSubs n r g)"
proof -
  note f = updateNodeRepAndSubs_fields[OF ok n ne]
  show ?thesis
    unfolding scc_ok_def rep_ok_def f(1,2)
    using ok n r ne unfolding scc_ok_def rep_ok_def by auto
qed

lemma scc_ok_same_nodes: "same_nodes g h \<Longrightarrow> scc_ok h = scc_ok g"
  using same_nodes_rep[of g h] by (simp add: scc_ok_def rep_ok_def same_nodes_def sccRepNode_def)

lemma removeConstraintNode_eq:
  "removeConstraintNode n g = Some h \<Longrightarrow> h = g\<lparr>cnodes := filter (\<lambda>m. m \<noteq> n) (cnodes g), pwcNodes := pwcNodes g - {n}\<rparr>"
  by (simp add: removeConstraintNode_def split: if_splits)

lemma dd_unionKey_simps:
  "dd_getPts (snd (dd_unionKey dst src d)) = (dd_getPts d)(dst := oset_insert_all (dd_getPts d src) (dd_getPts d dst))"
  "propaPtsMap (snd (dd_unionKey dst src d)) = propaPtsMap d"
  by (simp_all add: dd_unionKey_def dd_getPts_def case_prod_beta fun_eq_iff pt_unionKey_union pt_unionPts_simps)

lemma dd_inv_unionKey: "dd_inv d \<Longrightarrow> dd_inv (snd (dd_unionKey dst src d))"
  by (simp add: dd_inv_def dd_unionKey_def case_prod_beta pt_unionKey_union pt_inv_unionPts)

lemma mergeSrcToTgt_spec:
  assumes inv: "consg_inv (consCG s)" "dd_inv (ptD s)" "scc_ok (consCG s)"
    and l: "live (consCG s) n" "live (consCG s) r" and ne: "n \<noteq> r"
  shows "\<exists>pwc s'. mergeSrcToTgt n r s = Some (pwc, s') \<and> consg_inv (consCG s') \<and> dd_inv (ptD s') \<and> scc_ok (consCG s')
    \<and> n \<notin> set (cnodes (consCG s')) \<and> live (consCG s') r
    \<and> (\<forall>i. rep_of s' i = (if rep_of s i = n then r else rep_of s i))
    \<and> (\<forall>i. set (getPts s' i) =
        (if rep_of s i = n \<or> rep_of s i = r then set (getPts s n) \<union> set (getPts s r) else set (getPts s i)))"
proof -
  let ?s1 = "snd (unionPtsNode r n (updatePropaPts r n s))"
  have rep: "rep_of s n = n" "rep_of s r = r" using l by (simp_all add: rep_of_live)
  have c1: "consCG ?s1 = consCG s" by (simp add: unionPtsNode_def case_prod_beta)
  have rp: "rep_of (updatePropaPts r n s) = rep_of s" by (simp add: rep_of_def fun_eq_iff)
  have p1: "ptD ?s1 = snd (dd_unionKey r n (ptD (updatePropaPts r n s)))"
    by (simp add: unionPtsNode_def case_prod_beta rp rep)
  have gp: "dd_getPts (ptD (updatePropaPts r n s)) = dd_getPts (ptD s)" by (simp add: dd_getPts_def fun_eq_iff)
  have d1: "dd_inv (ptD ?s1)" unfolding p1 by (rule dd_inv_unionKey) (use inv(2) in \<open>simp add: dd_inv_def\<close>)
  have q1: "dd_getPts (ptD ?s1) = (dd_getPts (ptD s))(r := oset_insert_all (dd_getPts (ptD s) n) (dd_getPts (ptD s) r))"
    by (simp add: p1 dd_unionKey_simps gp)
  obtain pwc g1 where g1: "moveEdgesToRepNode n r (consCG s) = Some (pwc, g1)" "consg_inv g1" "same_nodes (consCG s) g1"
      "getInEdges n g1 = []" "getOutEdges n g1 = []"
    using moveEdges_inv[OF inv(1) l(2) ne] by blast
  have ok1: "scc_ok g1" using inv(3) scc_ok_same_nodes[OF g1(3)] by simp
  have r1: "sccRepNode g1 n = n" "sccRepNode g1 r = r" "n \<in> set (cnodes g1)" "r \<in> set (cnodes g1)"
    using l same_nodes_live[OF g1(3)] by (auto simp: live_def)
  let ?g2 = "updateNodeRepAndSubs n r g1"
  note f = updateNodeRepAndSubs_fields[OF ok1 r1(1) ne]
  have ok2: "scc_ok ?g2" by (rule updateNodeRepAndSubs_ok[OF ok1 r1(1,2) ne])
  have no: "\<forall>e \<in> set (cedges g1). esrc e \<noteq> n \<and> edst e \<noteq> n"
    using g1(4,5) by (auto simp: getInEdges_def getOutEdges_def filter_empty_conv)
  have i2: "consg_inv ?g2"
    using g1(2) no unfolding consg_inv_def live_def f by auto
  have e2: "getInEdges n ?g2 = []" "getOutEdges n ?g2 = []"
    using g1(4,5) by (simp_all add: getInEdges_def getOutEdges_def f)
  obtain g3 where g3: "removeConstraintNode n ?g2 = Some g3"
    using e2 r1(3) by (simp add: removeConstraintNode_def f)
  note i3 = removeConstraintNode_inv[OF i2 g3]
  note q3 = removeConstraintNode_eq[OF g3]
  have sc3: "sccRepNode g3 = sccRepNode ?g2" "nodeToSubs g3 = nodeToSubs ?g2"
    by (simp_all add: q3 sccRepNode_def fun_eq_iff)
  have ok3: "scc_ok g3" using ok2 by (simp add: scc_ok_def rep_ok_def sc3)
  have l3: "live g3 r" using r1 ne by (simp add: live_def sc3 f) (simp add: q3 f)
  have rep3: "sccRepNode g3 i = (if rep_of s i = n then r else rep_of s i)" for i
    by (simp add: sc3 f same_nodes_rep[OF g1(3)] rep_of_def)
  have m: "mergeSrcToTgt n r s = Some (pwc \<or> n \<in> pwcNodes g1, ?s1\<lparr>consCG := g3\<rparr>)"
    using ne l g1(1) g3 by (simp add: mergeSrcToTgt_def Let_def c1 live_getConstraintNode)
  have "set (getPts (?s1\<lparr>consCG := g3\<rparr>) i) =
        (if rep_of s i = n \<or> rep_of s i = r then set (getPts s n) \<union> set (getPts s r) else set (getPts s i))" for i
    using ne by (auto simp: getPts_def q1 rep_of_def rep3 rep[unfolded rep_of_def])
  then show ?thesis
    using m i3 d1 ok3 l3 rep3 by (simp add: rep_of_def)
qed

section \<open>Alias queries\<close>

text \<open>The objects and, for base and field-insensitive objects, all fields of their base.\<close>

definition expanded :: "node_id oset \<Rightarrow> pag \<Rightarrow> node_id set" where
  "expanded pts p = set pts \<union>
     (\<Union>o1 \<in> {o1 \<in> set pts. getBaseObjVarID o1 p = Some o1 \<or> isFieldInsensitive o1 p = Some True}.
        \<Union>fs \<in> set_option (getAllFieldsObjVars o1 p). set fs)"

lemma expandFIObjs_spec:
  assumes "expandFIObjs pts p = Some q"
  shows "set q = expanded pts p \<and> (oset_inv pts \<longrightarrow> oset_inv q)"
proof -
  let ?F = "\<lambda>A. \<Union>o1 \<in> {o1 \<in> A. getBaseObjVarID o1 p = Some o1 \<or> isFieldInsensitive o1 p = Some True}.
      \<Union>fs \<in> set_option (getAllFieldsObjVars o1 p). set fs"
  let ?I = "\<lambda>ds e. set e = set pts \<union> ?F (set ds) \<and> (oset_inv pts \<longrightarrow> oset_inv e)"
  have "?I pts q"
  proof (rule foldO_steps[where I = ?I, OF assms[unfolded expandFIObjs_def]])
    show "set pts = set pts \<union> ?F (set []) \<and> (oset_inv pts \<longrightarrow> oset_inv pts)" by simp
  next
    fix ds o1 e e'
    assume I: "set e = set pts \<union> ?F (set ds) \<and> (oset_inv pts \<longrightarrow> oset_inv e)"
      and step: "do { b \<leftarrow> getBaseObjVarID o1 p;
         fi \<leftarrow> (if b = o1 then Some True else isFieldInsensitive o1 p);
         if fi then map_option (\<lambda>fs. oset_insert_all fs e) (getAllFieldsObjVars o1 p) else Some e } = Some e'"
    have split: "?F (set (ds @ [o1])) = ?F (set ds) \<union> ?F {o1}" by auto
    obtain b fi where b: "getBaseObjVarID o1 p = Some b" "(if b = o1 then Some True else isFieldInsensitive o1 p) = Some fi"
      and e': "(if fi then map_option (\<lambda>fs. oset_insert_all fs e) (getAllFieldsObjVars o1 p) else Some e) = Some e'"
      using step by (auto simp: Option.bind_eq_Some_conv)
    show "set e' = set pts \<union> ?F (set (ds @ [o1])) \<and> (oset_inv pts \<longrightarrow> oset_inv e')"
    proof (cases fi)
      case True
      then obtain fs where fs: "getAllFieldsObjVars o1 p = Some fs" "e' = oset_insert_all fs e" using e' by auto
      have "?F {o1} = set fs" using b True fs(1) by (auto split: if_splits)
      then show ?thesis using I fs(2) unfolding split by auto
    next
      case False
      then have "?F {o1} = {}" using b by (auto split: if_splits)
      then show ?thesis using I False e' unfolding split by auto
    qed
  qed
  then show ?thesis by (simp add: expanded_def)
qed

section \<open>Properties\<close>

text \<open>Two pointers to object 4, a copy from node 10 to node 11 and a load through node 10 into node 12.\<close>

definition demo_ander :: ander where
  "demo_ander = \<lparr>
     consCG = empty_consg\<lparr>cnodes := [4, 10, 11, 12],
       cedges := [\<lparr>ekind = Copy, esrc = 10, edst = 11, edgeId = 0, eguard = None, eap = 0\<rparr>,
                  \<lparr>ekind = Load, esrc = 10, edst = 12, edgeId = 1, eguard = None, eap = 0\<rparr>]\<rparr>,
     ptD = snd (dd_addPts 10 4 (dd_new True)),
     irs = demo_pag\<lparr>svfVars := (svfVars demo_pag)(10 \<mapsto> ValVar True, 11 \<mapsto> ValVar True, 12 \<mapsto> ValVar True)\<rparr>,
     wlist = fifo_new, reanalyze = False, DiffPts = True, DetectPWC = True, sccD = scc_clear, redundantGepNodes = [],
     callsite2DummyValPN = (\<lambda>_. None), numOfSCCDetection = 0, numOfIteration = 0, numOfProcessedAddr = 0, numOfProcessedCopy = 0,
     numOfProcessedGep = 0, numOfProcessedLoad = 0, numOfProcessedStore = 0\<rparr>"

lemma demo_ander_graph:
  "consg_inv (consCG demo_ander)" "scc_ok (consCG demo_ander)"
  "live (consCG demo_ander) 10" "live (consCG demo_ander) 11" "live (consCG demo_ander) 12"
  by (auto simp: demo_ander_def empty_consg_def consg_inv_def live_def sccRepNode_def oset_inv_def ekey_def
      less_prod_def scc_ok_def rep_ok_def)

lemma demo_ander_dd: "dd_inv (ptD demo_ander)"
  using dd.add_inv[of "dd_new True" 10 4] by (simp add: demo_ander_def dd_inv_def dd_new_def)

lemma demo_ander_pts: "dd_getPts (ptD demo_ander) = (\<lambda>_. [])(10 := [4])" "propaPtsMap (ptD demo_ander) = (\<lambda>_. [])"
  by (simp_all add: demo_ander_def dd_addPts_def pt_addPts_def addSingleRevPts_def test_and_set_def dd_new_def
      pt_new_def dd_getPts_def oset_insert_def fun_eq_iff case_prod_beta)

lemma demo_ander_inv: "diff_inv demo_ander"
proof -
  have "rep_ok (consCG demo_ander)" using demo_ander_graph(2) by (simp add: scc_ok_def)
  moreover have "DiffPts demo_ander" by (simp add: demo_ander_def)
  ultimately show ?thesis using demo_ander_graph demo_ander_dd
    by (simp add: diff_inv_def propagated_def propa_le_def demo_ander_pts)
qed

text \<open>
  Processing a node does everything the constraints at the node ask for. Afterwards its
  set is contained in the set of every target of its copy edges, although only the difference
  to what was propagated before has been sent, and for every object it points to each load and
  store edge has its copy edge (constant objects and non-pointers apart). The bookkeeping of
  difference propagation stays sound, also for the new copy edges.
\<close>

theorem processNode_closes:
  assumes "diff_inv s" "rep_of s n = n" "processNode andersen_methods n s = Some s'"
  shows "diff_inv s' \<and> set (cedges (consCG s)) \<subseteq> set (cedges (consCG s'))
    \<and> (\<forall>e \<in> set (getCopyOutEdges n (consCG s)). set (getPts s n) \<subseteq> set (dd_getPts (ptD s') (edst e)))
    \<and> loads_done n (set (getPts s n)) s s'"
  using processNode_spec[OF assms] assms(2) by (simp add: getPts_def)

theorem processNode_closes_witness:
  "\<exists>s'. processNode andersen_methods 10 demo_ander = Some s' \<and> diff_inv s' \<and> 4 \<in> set (dd_getPts (ptD s') 11)
    \<and> linked s' 4 12"
proof -
  have rep: "rep_of demo_ander 10 = 10" by (simp add: demo_ander_def empty_consg_def rep_of_def sccRepNode_def)
  have "processNode andersen_methods 10 demo_ander \<noteq> None"
    by (simp add: demo_ander_def empty_consg_def processNode_def rep_of_def sccRepNode_def getConstraintNode_def
        handleLoadStore_def getPts_def dd_getPts_def dd_addPts_def pt_addPts_def addSingleRevPts_def test_and_set_def
        dd_new_def pt_new_def oset_insert_def demo_pag_def addBaseObjNode_def hasGNode_def andersen_methods_def
        getLoadOutEdges_def getOutEdges_def getStoreInEdges_def getInEdges_def processLoad_def isConstantObj_def
        getBaseObject_def constantSym_def addCopyEdge_def addCopyCGEdge_def hasEdge_def findEdge_def sameKey_def
        insertEdge_def ekey_def updatePropaPts_def updatePropaPtsMap_def pushIntoWorklist_def fifo_push_def fifo_find_def
        fifo_new_def handleCopyGep_def diffStep_def computeDiffPts_def diffOf_def getDiffPts_def getCopyOutEdges_def
        getGepOutEdges_def processCopy_def unionPts_def dd_unionPts_def pt_unionPts_def addRevPts_def oset_union_def isGepKind_def Let_def)
  then obtain s' where s': "processNode andersen_methods 10 demo_ander = Some s'" by blast
  note p = processNode_closes[OF demo_ander_inv rep s']
  have "set (getPts demo_ander 10) = {4}" by (simp add: getPts_def rep demo_ander_pts)
  moreover have "cedges (consCG demo_ander) = [\<lparr>ekind = Copy, esrc = 10, edst = 11, edgeId = 0, eguard = None, eap = 0\<rparr>,
                  \<lparr>ekind = Load, esrc = 10, edst = 12, edgeId = 1, eguard = None, eap = 0\<rparr>]"
    by (simp add: demo_ander_def)
  moreover have "\<not> untracked 4 12 demo_ander"
    by (simp add: untracked_def demo_ander_def isConstantObj_def getBaseObject_def demo_pag_def addBaseObjNode_def hasGNode_def constantSym_def)
  ultimately show ?thesis using p s'
    by (auto simp: loads_done_def getLoadOutEdges_def getOutEdges_def getCopyOutEdges_def)
qed

text \<open>
  Merging a node into its representative succeeds on a well-formed state: the
  representative gets the union of the two sets, every node that the merged node stood for is
  now represented by it and reads that union, all other sets are unchanged, and the merged node
  has left the graph.
\<close>

theorem mergeSrcToTgt_correct:
  assumes "consg_inv (consCG s)" "dd_inv (ptD s)" "scc_ok (consCG s)"
    and "live (consCG s) n" "live (consCG s) r" "n \<noteq> r"
  shows "\<exists>pwc s'. mergeSrcToTgt n r s = Some (pwc, s') \<and> consg_inv (consCG s') \<and> dd_inv (ptD s') \<and> scc_ok (consCG s')
    \<and> n \<notin> set (cnodes (consCG s')) \<and> live (consCG s') r
    \<and> (\<forall>i. rep_of s' i = (if rep_of s i = n then r else rep_of s i))
    \<and> (\<forall>i. set (getPts s' i) =
        (if rep_of s i = n \<or> rep_of s i = r then set (getPts s n) \<union> set (getPts s r) else set (getPts s i)))"
  by (rule mergeSrcToTgt_spec[OF assms])

theorem mergeSrcToTgt_correct_witness:
  "\<exists>pwc s'. mergeSrcToTgt 10 11 demo_ander = Some (pwc, s') \<and> set (getPts s' 11) = {4} \<and> rep_of s' 10 = 11"
proof -
  have "rep_of demo_ander 10 = 10" "rep_of demo_ander 11 = 11"
    using demo_ander_graph by (simp_all add: rep_of_live)
  moreover from this have "getPts demo_ander 10 = [4]" "getPts demo_ander 11 = []"
    by (simp_all add: getPts_def demo_ander_pts)
  ultimately show ?thesis
    using mergeSrcToTgt_correct[OF demo_ander_graph(1) demo_ander_dd demo_ander_graph(2-4)] by fastforce
qed

text \<open>
  A query answers no alias exactly when the two sets, with all fields of the base and
  field-insensitive objects in them, have no object in common and neither holds the black
  hole; otherwise it answers may alias.
\<close>

theorem aliasPts_correct:
  assumes "aliasPts p1 p2 p = Some r"
  shows "r = (if expanded p1 p \<inter> expanded p2 p = {} \<and> blackHole \<notin> expanded p1 p \<union> expanded p2 p
    then NoAlias else MayAlias)"
proof -
  obtain q1 q2 where q: "expandFIObjs p1 p = Some q1" "expandFIObjs p2 p = Some q2"
    and r: "r = (if containBlackHoleNode q1 \<or> containBlackHoleNode q2 \<or> list_ex (\<lambda>o1. oset_find o1 q2) q1
             then MayAlias else NoAlias)"
    using assms by (auto simp: aliasPts_def Option.bind_eq_Some_conv)
  have "set q1 = expanded p1 p" "set q2 = expanded p2 p" using expandFIObjs_spec q by blast+
  then show ?thesis using r by (auto simp: containBlackHoleNode_def list_ex_iff)
qed

theorem aliasPts_correct_witness: "aliasPts [4] [4] demo_pag = Some MayAlias"
proof -
  obtain r where r: "aliasPts [4] [4] demo_pag = Some r"
    by (simp add: aliasPts_def expandFIObjs_def getBaseObjVarID_def getAllFieldsObjVars_def getBaseObject_def demo_pag_def
        addBaseObjNode_def hasGNode_def Let_def)
  have "4 \<in> expanded [4] demo_pag" by (simp add: expanded_def)
  then show ?thesis using r aliasPts_correct[OF r] by auto
qed

end
