(* ===== verification/Andersen_Solver.thy ===== *)
theory Andersen_Solver
  imports Andersen
begin

text \<open>
  The solvers: \<^verbatim>\<open>src/SVF/svf/include/WPA/WPASolver.h\<close>, the detection of cycles and the collapsing
  of fields in \<^verbatim>\<open>src/SVF/svf/lib/WPA/Andersen.cpp\<close>, and the wave propagation of
  \<^verbatim>\<open>src/SVF/svf/lib/WPA/AndersenWaveDiff.cpp\<close>.

  \<^verbatim>\<open>collapseField\<close> and \<^verbatim>\<open>collapseNodePts\<close> call each other: the model's recursion is on fuel,
  and theory \<open>Solver_Correct\<close> shows that one more than the number of field-sensitive objects is
  enough. The loops over the worklist are on fuel too. The set of pointers to a field
  (\<^verbatim>\<open>getRevPts\<close>, a hash set) is visited in increasing order.
\<close>

section \<open>Strongly connected components\<close>

text \<open>\<^verbatim>\<open>ConstraintNode::directOutEdgeBegin\<close>: the field edges count when cycles of positive weight are looked for.\<close>

definition directOutEdges :: "bool \<Rightarrow> node_id \<Rightarrow> consg \<Rightarrow> cedge list" where
  "directOutEdges pwc n g =
     (if pwc then filter (\<lambda>e. isdirectEdge (ekind e)) (getOutEdges n g) else getCopyOutEdges n g)"

definition directChildren :: "'a ander_scheme \<Rightarrow> node_id \<Rightarrow> node_id list" where
  "directChildren s n = map edst (directOutEdges (DetectPWC s) n (consCG s))"

definition findSCCs :: "'a ander_scheme \<Rightarrow> 'a ander_scheme option" where
  "findSCCs s =
     map_option (\<lambda>d. s\<lparr>sccD := d\<rparr>)
       (scc_find (length (cnodes (consCG s))) (directChildren s) (cnodes (consCG s)))"

definition SCCDetect :: "'a ander_scheme vmethods \<Rightarrow> 'a ander_scheme \<Rightarrow> 'a ander_scheme option" where
  "SCCDetect vt s =
     do {
       s1 \<leftarrow> findSCCs (s\<lparr>numOfSCCDetection := u32 (numOfSCCDetection s + 1)\<rparr>);
       mergeSccCycle vt s1
     }"

section \<open>Collapsing fields\<close>

definition clearPts :: "node_id \<Rightarrow> node_id \<Rightarrow> 'a ander_scheme \<Rightarrow> 'a ander_scheme" where
  "clearPts i element s = s\<lparr>ptD := dd_clearPts i element (ptD s)\<rparr>"

text \<open>The loop of \<^verbatim>\<open>collapseField\<close> over the pointers to one field.\<close>

definition retargetPointer :: "node_id \<Rightarrow> node_id \<Rightarrow> node_id \<Rightarrow> 'a ander_scheme \<Rightarrow> 'a ander_scheme" where
  "retargetPointer baseId fieldId p s =
     pushIntoWorklist p (snd (addPts p baseId (clearPts p fieldId s)))"

definition collapseOneField :: "'a ander_scheme vmethods \<Rightarrow> node_id \<Rightarrow> node_id \<Rightarrow> node_id \<Rightarrow>
    bool \<times> 'a ander_scheme \<Rightarrow> (bool \<times> 'a ander_scheme) option" where
  "collapseOneField vt baseId baseRepNodeId fieldId = (\<lambda>(changed, s).
     if fieldId = baseId then Some (changed, s)
     else
       let revPts = dd_getRevPts (ptD s) fieldId;
           s1 = fold (retargetPointer baseId fieldId) revPts s
       in do {
            s2 \<leftarrow> mergeNodeToRep vt (rep_of s1 fieldId) baseRepNodeId s1;
            Some (changed \<or> revPts \<noteq> [],
              if fieldId \<noteq> baseRepNodeId
              then s2\<lparr>redundantGepNodes := oset_insert fieldId (redundantGepNodes s2)\<rparr> else s2)
          })"

text \<open>\<^verbatim>\<open>collapseNodePts\<close>, with the call of \<^verbatim>\<open>collapseField\<close> as an argument.\<close>

definition collapseNodePts :: "(node_id \<Rightarrow> 'a ander_scheme \<Rightarrow> (bool \<times> 'a ander_scheme) option) \<Rightarrow> node_id \<Rightarrow>
    'a ander_scheme \<Rightarrow> (bool \<times> 'a ander_scheme) option" where
  "collapseNodePts collapse nodeId s =
     foldO (\<lambda>o1 (changed, t). do {
         fi \<leftarrow> isFieldInsensitive o1 (irs t);
         if fi then Some (changed, t)
         else map_option (\<lambda>(c, t'). (changed \<or> c, t')) (collapse o1 t)
       }) (getPts s nodeId) (False, s)"

primrec collapseField :: "nat \<Rightarrow> 'a ander_scheme vmethods \<Rightarrow> node_id \<Rightarrow> 'a ander_scheme \<Rightarrow>
    (bool \<times> 'a ander_scheme) option" where
  "collapseField 0 = (\<lambda>vt nodeId s. None)"
| "collapseField (Suc n) = (\<lambda>vt nodeId s. do {
     blk \<leftarrow> isBlkObjOrConstantObj nodeId (irs s);
     if blk then Some (False, s)
     else do {
       p \<leftarrow> setObjFieldInsensitive nodeId (irs s);
       let s0 = s\<lparr>irs := p\<rparr>;
       baseId \<leftarrow> consFIObjVar nodeId s0;
       let baseRepNodeId = rep_of s0 baseId;
       allFields \<leftarrow> getAllFieldsObjVars baseId (irs s0);
       (changed, s1) \<leftarrow> foldO (collapseOneField vt baseId baseRepNodeId) allFields (False, s0);
       pwc \<leftarrow> isPWCNode baseRepNodeId (consCG s1);
       if pwc
       then map_option (\<lambda>(c, s2). (changed \<or> c, s2)) (collapseNodePts (collapseField n vt) baseRepNodeId s1)
       else Some (changed, s1)
     }
   })"

definition collapsePWCNode :: "nat \<Rightarrow> 'a ander_scheme vmethods \<Rightarrow> node_id \<Rightarrow> 'a ander_scheme \<Rightarrow> 'a ander_scheme option" where
  "collapsePWCNode n vt nodeId s =
     do {
       pwc \<leftarrow> isPWCNode nodeId (consCG s);
       if pwc
       then map_option (\<lambda>(c, s1). if c then s1\<lparr>reanalyze := True\<rparr> else s1) (collapseNodePts (collapseField n vt) nodeId s)
       else Some s
     }"

text \<open>The loop of \<^verbatim>\<open>collapseFields\<close>; \<open>k\<close> bounds its rounds.\<close>

primrec collapseLoop :: "nat \<Rightarrow> nat \<Rightarrow> 'a ander_scheme vmethods \<Rightarrow> 'a ander_scheme \<Rightarrow> 'a ander_scheme option" where
  "collapseLoop 0 = (\<lambda>n vt s. if hasNodesToBeCollapsed (consCG s) then None else Some s)"
| "collapseLoop (Suc k) = (\<lambda>n vt s.
     if hasNodesToBeCollapsed (consCG s) then do {
       (node, g) \<leftarrow> getNextCollapseNode (consCG s);
       (c, s1) \<leftarrow> collapseField n vt node (s\<lparr>consCG := g\<rparr>);
       collapseLoop k n vt (if c then s1\<lparr>reanalyze := True\<rparr> else s1)
     } else Some s)"

definition collapseFields :: "nat \<Rightarrow> 'a ander_scheme vmethods \<Rightarrow> 'a ander_scheme \<Rightarrow> 'a ander_scheme option" where
  "collapseFields n vt s = collapseLoop (fifo_size (nodesToBeCollapsed (consCG s))) n vt s"

section \<open>Worklists\<close>

definition isWorklistEmpty :: "'a ander_scheme \<Rightarrow> bool" where
  "isWorklistEmpty s \<longleftrightarrow> fifo_empty (wlist s)"

text \<open>\<^verbatim>\<open>while (!isWorklistEmpty())\<close> with the body \<open>f\<close>, for at most \<open>k\<close> rounds.\<close>

primrec worklistLoop :: "nat \<Rightarrow> (node_id \<Rightarrow> 'a ander_scheme \<Rightarrow> 'a ander_scheme option) \<Rightarrow> 'a ander_scheme \<Rightarrow>
    'a ander_scheme option" where
  "worklistLoop 0 = (\<lambda>f s. if isWorklistEmpty s then Some s else None)"
| "worklistLoop (Suc k) = (\<lambda>f s.
     if isWorklistEmpty s then Some s
     else do {
       (nodeId, s1) \<leftarrow> popFromWorklist s;
       s2 \<leftarrow> f nodeId s1;
       worklistLoop k f s2
     })"

text \<open>\<^verbatim>\<open>while (!nodeStack.empty())\<close> over the detector's own stack, which is popped.\<close>

fun topoLoop :: "(node_id \<Rightarrow> 'a ander_scheme \<Rightarrow> 'a ander_scheme option) \<Rightarrow> node_id list \<Rightarrow> 'a ander_scheme \<Rightarrow>
    'a ander_scheme option" where
  "topoLoop f [] s = Some s"
| "topoLoop f (nodeId # stack) s =
     do {
       s1 \<leftarrow> f nodeId (s\<lparr>sccD := (sccD s)\<lparr>sT := stack\<rparr>\<rparr>);
       topoLoop f stack s1
     }"

text \<open>\<^verbatim>\<open>WPASolver::initWorklist\<close> and \<^verbatim>\<open>WPASolver::solveWorklist\<close>.\<close>

definition initWorklist :: "'a ander_scheme vmethods \<Rightarrow> 'a ander_scheme \<Rightarrow> 'a ander_scheme option" where
  "initWorklist vt s =
     do {
       s1 \<leftarrow> SCCDetect vt s;
       topoLoop (\<lambda>n t. Some (pushIntoWorklist n t)) (sT (sccD s1)) s1
     }"

definition solveWorklist :: "nat \<Rightarrow> nat \<Rightarrow> 'a ander_scheme vmethods \<Rightarrow> 'a ander_scheme \<Rightarrow> 'a ander_scheme option" where
  "solveWorklist k n vt s =
     worklistLoop k (\<lambda>nodeId t. do { t1 \<leftarrow> processNode vt nodeId t; collapseFields n vt t1 }) s"

section \<open>Wave propagation\<close>

definition wd_processNode :: "(node_id \<Rightarrow> 'a ander_scheme \<Rightarrow> 'a ander_scheme option) \<Rightarrow> node_id \<Rightarrow>
    'a ander_scheme \<Rightarrow> 'a ander_scheme option" where
  "wd_processNode copyGep nodeId s =
     (if rep_of s nodeId \<noteq> nodeId then Some s
      else do {
        node \<leftarrow> getConstraintNode nodeId (consCG s);
        copyGep node s
      })"

text \<open>\<^verbatim>\<open>handleLoad\<close> and \<^verbatim>\<open>handleStore\<close>, with \<^verbatim>\<open>processLoad\<close> or \<^verbatim>\<open>processStore\<close> as \<open>f\<close>.\<close>

definition wd_handle :: "(node_id \<Rightarrow> cedge \<Rightarrow> 'a ander_scheme \<Rightarrow> (bool \<times> 'a ander_scheme) option) \<Rightarrow> node_id \<Rightarrow>
    cedge \<Rightarrow> 'a ander_scheme \<Rightarrow> (bool \<times> 'a ander_scheme) option" where
  "wd_handle f nodeId edge s =
     foldO (\<lambda>o1 (changed, t). map_option (\<lambda>(c, t'). (changed \<or> c, t')) (f o1 edge t)) (getPts s nodeId) (False, s)"

definition wd_handleEdge :: "(node_id \<Rightarrow> cedge \<Rightarrow> 'a ander_scheme \<Rightarrow> (bool \<times> 'a ander_scheme) option) \<Rightarrow> node_id \<Rightarrow>
    cedge \<Rightarrow> 'a ander_scheme \<Rightarrow> 'a ander_scheme option" where
  "wd_handleEdge f nodeId edge s =
     map_option (\<lambda>(c, t). if c then t\<lparr>reanalyze := True\<rparr> else t) (wd_handle f nodeId edge s)"

definition wd_postProcessNode :: "'a ander_scheme vmethods \<Rightarrow> node_id \<Rightarrow> 'a ander_scheme \<Rightarrow> 'a ander_scheme option" where
  "wd_postProcessNode vt nodeId s =
     do {
       node \<leftarrow> getConstraintNode nodeId (consCG s);
       s1 \<leftarrow> foldO (wd_handleEdge (v_processLoad vt) nodeId) (getLoadOutEdges node (consCG s)) s;
       foldO (wd_handleEdge (v_processStore vt) nodeId) (getStoreInEdges node (consCG s1)) s1
     }"

text \<open>\<open>post\<close> is the body of the second loop, \<open>copyGep\<close> the method \<^verbatim>\<open>handleCopyGep\<close>.\<close>

definition wd_solveWorklist :: "nat \<Rightarrow> nat \<Rightarrow> 'a ander_scheme vmethods \<Rightarrow> 'a ander_scheme \<Rightarrow> 'a ander_scheme option" where
  "wd_solveWorklist k n vt s =
     do {
       s1 \<leftarrow> SCCDetect vt s;
       s2 \<leftarrow> topoLoop (\<lambda>nodeId t. do {
           t1 \<leftarrow> collapsePWCNode n vt nodeId t;
           t2 \<leftarrow> wd_processNode (handleCopyGep vt) nodeId t1;
           collapseFields n vt t2
         }) (sT (sccD s1)) s1;
       worklistLoop k (wd_postProcessNode vt) s2
     }"

end
