(* ===== verification/Solver_Correct.thy ===== *)
theory Solver_Correct
  imports Andersen_Solver Andersen_Correct
begin

text \<open>
  What the solvers of theory \<open>Andersen_Solver\<close> do to the state. The locale \<open>merging\<close> is their
  interface to \<^verbatim>\<open>mergeSrcToTgt\<close>: it fixes the method table and assumes what a merge promises;
  the collapsing of fields and the merging of cycles are proved inside it and then interpreted for
  \<^verbatim>\<open>Andersen\<close>. The last sections treat the second loop of the wave propagation and hold the
  properties.
\<close>

section \<open>Merging, as the solvers rely on it\<close>

text \<open>What \<^verbatim>\<open>mergeSrcToTgt\<close> makes of the state; the diff bookkeeping is left open.\<close>

definition solver_inv :: "'a ander_scheme \<Rightarrow> bool" where
  "solver_inv s \<longleftrightarrow> consg_inv (consCG s) \<and> scc_ok (consCG s) \<and> dd_inv (ptD s) \<and> rev_on (mutPTData (ptD s))"

definition same_rest :: "'a ander_scheme \<Rightarrow> 'a ander_scheme \<Rightarrow> bool" where
  "same_rest s t \<longleftrightarrow> irs t = irs s \<and> wlist t = wlist s \<and> reanalyze t = reanalyze s \<and> DiffPts t = DiffPts s
     \<and> DetectPWC t = DetectPWC s \<and> sccD t = sccD s \<and> redundantGepNodes t = redundantGepNodes s
     \<and> nodesToBeCollapsed (consCG t) = nodesToBeCollapsed (consCG s)"

definition merged :: "node_id \<Rightarrow> node_id \<Rightarrow> 'a ander_scheme \<Rightarrow> 'a ander_scheme \<Rightarrow> bool" where
  "merged n r s t \<longleftrightarrow> solver_inv t \<and> same_rest s t
     \<and> cnodes (consCG t) = filter (\<lambda>m. m \<noteq> n) (cnodes (consCG s))
     \<and> rep_of t = (\<lambda>i. if rep_of s i = n then r else rep_of s i)
     \<and> (\<forall>k. set (dd_getPts (ptD t) k) =
          (if k = r then set (dd_getPts (ptD s) n) \<union> set (dd_getPts (ptD s) r) else set (dd_getPts (ptD s) k)))"

lemma updateNodeRepAndSubs_rest:
  "nodesToBeCollapsed (updateNodeRepAndSubs n r g) = nodesToBeCollapsed g"
proof -
  have "nodesToBeCollapsed (fold (\<lambda>i h. setRep i r h) is h) = nodesToBeCollapsed h" for "is" h
    by (induction "is" arbitrary: h) (auto simp: setRep_def)
  then show ?thesis
    by (simp add: updateNodeRepAndSubs_def Let_def sccSubNodes_def setRep_def resetSubs_def setSubs_def)
qed

lemma rev_on_unionKey: "rev_on (mutPTData (snd (dd_unionKey dst src d))) = rev_on (mutPTData d)"
  by (simp add: dd_unionKey_def case_prod_beta pt_unionKey_union pt_unionPts_simps)

lemma mergeSrcToTgt_merged:
  assumes inv: "solver_inv s" and l: "live (consCG s) n" "live (consCG s) r" and ne: "n \<noteq> r"
  shows "\<exists>pwc t. mergeSrcToTgt n r s = Some (pwc, t) \<and> merged n r s t"
proof -
  have i: "consg_inv (consCG s)" "dd_inv (ptD s)" "scc_ok (consCG s)" "rev_on (mutPTData (ptD s))"
    using inv by (auto simp: solver_inv_def)
  obtain pwc t where t: "mergeSrcToTgt n r s = Some (pwc, t)" "consg_inv (consCG t)" "dd_inv (ptD t)" "scc_ok (consCG t)"
      "\<forall>i. rep_of t i = (if rep_of s i = n then r else rep_of s i)"
    using mergeSrcToTgt_spec[OF i(1-3) l ne] by blast
  let ?s1 = "snd (unionPtsNode r n (updatePropaPts r n s))"
  have rep: "rep_of s n = n" "rep_of s r = r" using l by (simp_all add: rep_of_live)
  have rp: "rep_of (updatePropaPts r n s) = rep_of s" by (simp add: rep_of_def fun_eq_iff)
  have c1: "consCG ?s1 = consCG s" by (simp add: unionPtsNode_def case_prod_beta)
  have p1: "ptD ?s1 = snd (dd_unionKey r n (ptD (updatePropaPts r n s)))"
    by (simp add: unionPtsNode_def case_prod_beta rp rep)
  obtain b g1 where g1: "moveEdgesToRepNode n r (consCG s) = Some (b, g1)" "same_nodes (consCG s) g1"
    using moveEdges_inv[OF i(1) l(2) ne] by blast
  obtain g3 where g3: "removeConstraintNode n (updateNodeRepAndSubs n r g1) = Some g3" "t = ?s1\<lparr>consCG := g3\<rparr>"
    using t(1) ne l g1(1) by (auto simp: mergeSrcToTgt_def Let_def c1 live_getConstraintNode Option.bind_eq_Some_conv)
  note q = removeConstraintNode_eq[OF g3(1)]
  have ok: "scc_ok g1" "sccRepNode g1 n = n"
    using i(3) scc_ok_same_nodes[OF g1(2)] l(1) same_nodes_rep[OF g1(2)] by (simp_all add: live_def)
  note f = updateNodeRepAndSubs_fields[OF ok ne]
  have "same_rest s t"
    using g1(2) by (simp add: same_rest_def g3(2) q updateNodeRepAndSubs_rest same_nodes_def)
      (simp add: unionPtsNode_def updatePropaPts_def case_prod_beta)
  moreover have "cnodes (consCG t) = filter (\<lambda>m. m \<noteq> n) (cnodes (consCG s))"
    using g1(2) by (simp add: g3(2) q f same_nodes_def)
  moreover have "set (dd_getPts (ptD t) k) =
      (if k = r then set (dd_getPts (ptD s) n) \<union> set (dd_getPts (ptD s) r) else set (dd_getPts (ptD s) k))" for k
    by (simp add: g3(2) p1 dd_unionKey_simps) (simp add: dd_getPts_def)
  moreover have "rev_on (mutPTData (ptD t))"
    using i(4) by (simp add: g3(2) p1 rev_on_unionKey)
  ultimately show ?thesis using t by (auto simp: merged_def solver_inv_def fun_eq_iff)
qed

section \<open>Objects become field-insensitive\<close>

definition fi_step :: "pag \<Rightarrow> pag \<Rightarrow> bool" where
  "fi_step p q \<longleftrightarrow> svfVars q = svfVars p \<and> elemNum q = elemNum p \<and> memToFields q = memToFields p
     \<and> gepObjVarMap q = gepObjVarMap p \<and> alloc q = alloc p \<and> MaxFieldLimit q = MaxFieldLimit p
     \<and> FirstFieldEqBase q = FirstFieldEqBase p \<and> CyclicFldIdx q = CyclicFldIdx p
     \<and> (\<forall>b. maxOffsetLimit q b = maxOffsetLimit p b \<or> maxOffsetLimit q b = 0)"

lemma fi_step_refl [simp]: "fi_step p p"
  by (simp add: fi_step_def)

lemma fi_step_trans: "fi_step p q \<Longrightarrow> fi_step q r \<Longrightarrow> fi_step p r"
  unfolding fi_step_def by metis

lemma fi_step_vars: "fi_step p q \<Longrightarrow> svfVars q = svfVars p"
  by (simp add: fi_step_def)

lemma fi_step_base: "fi_step p q \<Longrightarrow> getBaseObject i q = getBaseObject i p"
  by (simp only: fi_step_vars getBaseObject_def)

lemma fi_step_pag_inv:
  assumes "fi_step p q" "pag_inv p"
  shows "pag_inv q"
proof -
  have e: "gepObjVarMap q = gepObjVarMap p" "memToFields q = memToFields p" using assms(1) by (simp_all add: fi_step_def)
  show ?thesis
    using assms(2) unfolding pag_inv_def isBaseObj_def e fi_step_vars[OF assms(1)] fi_step_base[OF assms(1)] .
qed

lemma fi_step_zero: "fi_step p q \<Longrightarrow> maxOffsetLimit p b = 0 \<Longrightarrow> maxOffsetLimit q b = 0"
  unfolding fi_step_def by metis

lemma fi_step_set: "setObjFieldInsensitive i p = Some q \<Longrightarrow> fi_step p q"
  by (auto simp: setObjFieldInsensitive_def fi_step_def)

text \<open>
  Every object has a node in the constraint graph, perhaps that of a representative, and what
  the sets hold are objects.
\<close>

abbreviation ptsOf :: "'a ander_scheme \<Rightarrow> node_id \<Rightarrow> node_id set" where
  "ptsOf s k \<equiv> set (dd_getPts (ptD s) k)"

definition objs_ok :: "'a ander_scheme \<Rightarrow> bool" where
  "objs_ok s \<longleftrightarrow> pag_inv (irs s)
     \<and> (\<forall>i b. getBaseObject i (irs s) = Some b \<longrightarrow> live (consCG s) (rep_of s i))
     \<and> (\<forall>k. \<forall>i \<in> ptsOf s k. getBaseObject i (irs s) \<noteq> None)"

text \<open>
  What collapsing keeps: an object may be replaced by its base, if that has become
  field-insensitive; a field that no set holds stays out of all sets; merged nodes stay merged.
\<close>

definition pts_kept :: "'a ander_scheme \<Rightarrow> 'a ander_scheme \<Rightarrow> bool" where
  "pts_kept s t \<longleftrightarrow> (\<forall>k. \<forall>i \<in> ptsOf s k. i \<in> ptsOf t k
     \<or> (\<exists>b. getBaseObject i (irs s) = Some b \<and> maxOffsetLimit (irs t) b = 0 \<and> b \<in> ptsOf t k))"

definition gone_stays :: "'a ander_scheme \<Rightarrow> 'a ander_scheme \<Rightarrow> bool" where
  "gone_stays s t \<longleftrightarrow> (\<forall>f b. getBaseObject f (irs s) = Some b \<and> f \<noteq> b \<and> (\<forall>k. f \<notin> ptsOf s k) \<longrightarrow> (\<forall>k. f \<notin> ptsOf t k))"

definition coarser :: "'a ander_scheme \<Rightarrow> 'a ander_scheme \<Rightarrow> bool" where
  "coarser s t \<longleftrightarrow> solver_inv t \<and> objs_ok t \<and> fi_step (irs s) (irs t) \<and> pts_kept s t \<and> gone_stays s t
     \<and> (\<forall>i j. rep_of s i = rep_of s j \<longrightarrow> rep_of t i = rep_of t j)
     \<and> nodesToBeCollapsed (consCG t) = nodesToBeCollapsed (consCG s) \<and> sccD t = sccD s
     \<and> set (cnodes (consCG t)) \<subseteq> set (cnodes (consCG s)) \<and> DetectPWC t = DetectPWC s \<and> DiffPts t = DiffPts s
     \<and> (\<forall>i. live (consCG s) (rep_of s i) \<longrightarrow> live (consCG t) (rep_of t i))"

lemma coarserD:
  assumes "coarser s t"
  shows "solver_inv t" "objs_ok t" "fi_step (irs s) (irs t)" "pts_kept s t" "gone_stays s t"
    "rep_of s i = rep_of s j \<Longrightarrow> rep_of t i = rep_of t j"
    "nodesToBeCollapsed (consCG t) = nodesToBeCollapsed (consCG s)" "sccD t = sccD s"
    "set (cnodes (consCG t)) \<subseteq> set (cnodes (consCG s))" "DetectPWC t = DetectPWC s" "DiffPts t = DiffPts s"
    "live (consCG s) (rep_of s i) \<Longrightarrow> live (consCG t) (rep_of t i)"
  using assms unfolding coarser_def by blast+

lemma coarserI:
  assumes "solver_inv t" "objs_ok t" "fi_step (irs s) (irs t)" "pts_kept s t" "gone_stays s t"
    "\<And>i j. rep_of s i = rep_of s j \<Longrightarrow> rep_of t i = rep_of t j"
    "nodesToBeCollapsed (consCG t) = nodesToBeCollapsed (consCG s)" "sccD t = sccD s"
    "set (cnodes (consCG t)) \<subseteq> set (cnodes (consCG s))" "DetectPWC t = DetectPWC s" "DiffPts t = DiffPts s"
    "\<And>i. live (consCG s) (rep_of s i) \<Longrightarrow> live (consCG t) (rep_of t i)"
  shows "coarser s t"
  using assms unfolding coarser_def by blast

text \<open>Only some parts of the state matter.\<close>

definition same_graph :: "consg \<Rightarrow> consg \<Rightarrow> bool" where
  "same_graph g h \<longleftrightarrow> cedges h = cedges g \<and> cnodes h = cnodes g \<and> nodeToRep h = nodeToRep g
     \<and> nodeToSubs h = nodeToSubs g"

lemma same_graphD:
  assumes "same_graph g h"
  shows "sccRepNode h = sccRepNode g" "live h = live g" "consg_inv h = consg_inv g" "scc_ok h = scc_ok g"
proof -
  have e: "cedges h = cedges g" "cnodes h = cnodes g" "nodeToRep h = nodeToRep g" "nodeToSubs h = nodeToSubs g"
    using assms by (simp_all add: same_graph_def)
  show r: "sccRepNode h = sccRepNode g" unfolding sccRepNode_def e ..
  show l: "live h = live g" unfolding live_def r e ..
  show "consg_inv h = consg_inv g" unfolding consg_inv_def l e ..
  show "scc_ok h = scc_ok g" unfolding scc_ok_def rep_ok_def r e ..
qed

lemma rep_of_same_graph: "same_graph (consCG s) (consCG t) \<Longrightarrow> rep_of t = rep_of s"
  unfolding rep_of_def by (rule ext) (simp add: same_graphD)

lemma solver_inv_cong:
  assumes "solver_inv s" "same_graph (consCG s) (consCG t)" "ptD t = ptD s"
  shows "solver_inv t"
  using assms(1) unfolding solver_inv_def same_graphD(3,4)[OF assms(2)] assms(3) .

lemma objs_ok_cong:
  assumes "objs_ok s" "same_graph (consCG s) (consCG t)" "ptD t = ptD s" "fi_step (irs s) (irs t)"
  shows "objs_ok t"
  using assms(1) fi_step_pag_inv[OF assms(4)]
  unfolding objs_ok_def same_graphD(2)[OF assms(2)] rep_of_same_graph[OF assms(2)] assms(3) fi_step_base[OF assms(4)]
  by blast

lemma pts_keptD: "pts_kept s t \<Longrightarrow> i \<in> ptsOf s k \<Longrightarrow> i \<in> ptsOf t k
     \<or> (\<exists>b. getBaseObject i (irs s) = Some b \<and> maxOffsetLimit (irs t) b = 0 \<and> b \<in> ptsOf t k)"
  unfolding pts_kept_def by blast

lemma gone_staysD: "gone_stays s t \<Longrightarrow> getBaseObject f (irs s) = Some b \<Longrightarrow> f \<noteq> b \<Longrightarrow> \<forall>k. f \<notin> ptsOf s k \<Longrightarrow> f \<notin> ptsOf t k"
  unfolding gone_stays_def by blast

lemma pts_kept_refl: "pts_kept s s"
  unfolding pts_kept_def by blast

lemma gone_stays_refl: "gone_stays s s"
  unfolding gone_stays_def by blast

lemma pts_kept_trans:
  assumes "pts_kept s t" "pts_kept t u" "fi_step (irs s) (irs t)" "fi_step (irs t) (irs u)"
  shows "pts_kept s u"
  unfolding pts_kept_def
proof (intro allI ballI)
  fix k i assume "i \<in> ptsOf s k"
  then consider "i \<in> ptsOf t k"
    | b where "getBaseObject i (irs s) = Some b" "maxOffsetLimit (irs t) b = 0" "b \<in> ptsOf t k"
    using pts_keptD[OF assms(1)] by blast
  then show "i \<in> ptsOf u k \<or> (\<exists>b. getBaseObject i (irs s) = Some b \<and> maxOffsetLimit (irs u) b = 0 \<and> b \<in> ptsOf u k)"
  proof cases
    case 1
    then show ?thesis using pts_keptD[OF assms(2)] fi_step_base[OF assms(3)] by metis
  next
    case 2
    have "getBaseObject b (irs t) = Some b" using getBaseObject_idem[OF 2(1)] fi_step_base[OF assms(3)] by simp
    moreover have "maxOffsetLimit (irs u) b = 0" using fi_step_zero[OF assms(4) 2(2)] .
    ultimately show ?thesis using pts_keptD[OF assms(2) 2(3)] 2(1) by auto
  qed
qed

lemma gone_stays_trans:
  assumes "gone_stays s t" "gone_stays t u" "fi_step (irs s) (irs t)"
  shows "gone_stays s u"
  unfolding gone_stays_def
proof (intro allI impI)
  fix f b k assume f: "getBaseObject f (irs s) = Some b \<and> f \<noteq> b \<and> (\<forall>k. f \<notin> ptsOf s k)"
  then have "\<forall>k. f \<notin> ptsOf t k" using gone_staysD[OF assms(1)] by blast
  then show "f \<notin> ptsOf u k" using gone_staysD[OF assms(2)] f fi_step_base[OF assms(3)] by metis
qed

lemma coarser_cong:
  assumes "coarser s t" "same_graph (consCG t) (consCG u)" "ptD u = ptD t" "irs u = irs t"
    "nodesToBeCollapsed (consCG u) = nodesToBeCollapsed (consCG t)" "sccD u = sccD t" "DetectPWC u = DetectPWC t"
    "DiffPts u = DiffPts t"
  shows "coarser s u"
proof (rule coarserI)
  note c = coarserD[OF assms(1)]
  show "solver_inv u" using solver_inv_cong[OF c(1) assms(2,3)] .
  have "fi_step (irs t) (irs u)" using assms(4) by simp
  then show "objs_ok u" using objs_ok_cong[OF c(2) assms(2,3)] by simp
  show "fi_step (irs s) (irs u)" using c(3) assms(4) by simp
  show "pts_kept s u" using c(4) unfolding pts_kept_def assms(3,4) .
  show "gone_stays s u" using c(5) unfolding gone_stays_def assms(3) .
  show "rep_of u i = rep_of u j" if "rep_of s i = rep_of s j" for i j
    using c(6)[OF that] unfolding rep_of_same_graph[OF assms(2)] .
  show "set (cnodes (consCG u)) \<subseteq> set (cnodes (consCG s))" using c(9) assms(2) by (simp add: same_graph_def)
  show "live (consCG u) (rep_of u i)" if "live (consCG s) (rep_of s i)" for i
    using c(12)[OF that] unfolding rep_of_same_graph[OF assms(2)] same_graphD(2)[OF assms(2)] .
qed (use coarserD(7,8,10,11)[OF assms(1)] assms(5-8) in simp_all)

lemma coarser_refl: "solver_inv s \<Longrightarrow> objs_ok s \<Longrightarrow> coarser s s"
  unfolding coarser_def using pts_kept_refl gone_stays_refl by auto

lemma coarser_trans [trans]:
  assumes "coarser s t" "coarser t u"
  shows "coarser s u"
proof -
  note a = coarserD[OF assms(1)] and b = coarserD[OF assms(2)]
  have "pts_kept s u" "gone_stays s u" "fi_step (irs s) (irs u)"
    using pts_kept_trans[OF a(4) b(4) a(3) b(3)] gone_stays_trans[OF a(5) b(5) a(3)] fi_step_trans[OF a(3) b(3)] by blast+
  moreover have "rep_of u i = rep_of u j" if "rep_of s i = rep_of s j" for i j using a(6)[OF that] b(6) by blast
  moreover have "nodesToBeCollapsed (consCG u) = nodesToBeCollapsed (consCG s)" "sccD u = sccD s"
    "DetectPWC u = DetectPWC s" "DiffPts u = DiffPts s"
    using a(7,8,10,11) b(7,8,10,11) by simp_all
  moreover have "set (cnodes (consCG u)) \<subseteq> set (cnodes (consCG s))" using a(9) b(9) by (rule order_trans[rotated])
  moreover have "live (consCG u) (rep_of u i)" if "live (consCG s) (rep_of s i)" for i using b(12) a(12)[OF that] by blast
  ultimately show ?thesis using b(1,2) unfolding coarser_def by blast
qed

section \<open>Retargeting the pointers to a field\<close>

lemma revPts_iff: "solver_inv s \<Longrightarrow> k \<in> set (dd_getRevPts (ptD s) d) \<longleftrightarrow> d \<in> ptsOf s k"
  by (auto simp: solver_inv_def dd_inv_def pt_inv_def dd_getRevPts_def dd_getPts_def)

lemma retargetPointer_rest:
  "consCG (retargetPointer b f p s) = consCG s" "irs (retargetPointer b f p s) = irs s"
  "sccD (retargetPointer b f p s) = sccD s" "DetectPWC (retargetPointer b f p s) = DetectPWC s"
  "DiffPts (retargetPointer b f p s) = DiffPts s"
  "ptD (retargetPointer b f p s) = snd (dd_addPts p b (dd_clearPts p f (ptD s)))"
  by (simp_all add: retargetPointer_def pushIntoWorklist_def addPts_def clearPts_def case_prod_beta)

lemma rev_on_retarget: "rev_on (mutPTData (snd (dd_addPts p b (dd_clearPts p f d)))) = rev_on (mutPTData d)"
  by (simp add: dd_addPts_def dd_clearPts_def case_prod_beta pt_addPts_union pt_unionPts_simps
      pt_clearPts_def clearRevPts_single Let_def)

lemma retargetPointer_pts:
  assumes "solver_inv s"
  shows "solver_inv (retargetPointer b f p s)"
    "ptsOf (retargetPointer b f p s) k = (if k = p then insert b (ptsOf s p - {f}) else ptsOf s k)"
proof -
  have d: "dd_inv (ptD s)" using assms by (simp add: solver_inv_def)
  show "ptsOf (retargetPointer b f p s) k = (if k = p then insert b (ptsOf s p - {f}) else ptsOf s k)"
    unfolding retargetPointer_rest by (rule dd.move_pts[OF d])
  have "dd_inv (snd (dd_addPts p b (dd_clearPts p f (ptD s))))" using d by (intro dd.add_inv dd.clear_inv)
  then show "solver_inv (retargetPointer b f p s)"
    using assms by (simp add: solver_inv_def retargetPointer_rest rev_on_retarget)
qed

lemma retarget_all:
  assumes "solver_inv s" "b \<noteq> f"
  shows "solver_inv (fold (retargetPointer b f) ps s) \<and> consCG (fold (retargetPointer b f) ps s) = consCG s
    \<and> irs (fold (retargetPointer b f) ps s) = irs s \<and> sccD (fold (retargetPointer b f) ps s) = sccD s
    \<and> DetectPWC (fold (retargetPointer b f) ps s) = DetectPWC s \<and> DiffPts (fold (retargetPointer b f) ps s) = DiffPts s
    \<and> (\<forall>k. ptsOf (fold (retargetPointer b f) ps s) k = (if k \<in> set ps then insert b (ptsOf s k - {f}) else ptsOf s k))"
  using assms(1)
proof (induction ps arbitrary: s)
  case (Cons p ps)
  let ?s = "retargetPointer b f p s"
  have ih: "solver_inv (fold (retargetPointer b f) ps ?s) \<and> consCG (fold (retargetPointer b f) ps ?s) = consCG ?s
    \<and> irs (fold (retargetPointer b f) ps ?s) = irs ?s \<and> sccD (fold (retargetPointer b f) ps ?s) = sccD ?s
    \<and> DetectPWC (fold (retargetPointer b f) ps ?s) = DetectPWC ?s \<and> DiffPts (fold (retargetPointer b f) ps ?s) = DiffPts ?s
    \<and> (\<forall>k. ptsOf (fold (retargetPointer b f) ps ?s) k = (if k \<in> set ps then insert b (ptsOf ?s k - {f}) else ptsOf ?s k))"
    by (rule Cons.IH[OF retargetPointer_pts(1)[OF Cons.prems]])
  moreover have "ptsOf (fold (retargetPointer b f) ps ?s) k = (if k \<in> set (p # ps) then insert b (ptsOf s k - {f}) else ptsOf s k)" for k
  proof -
    have "ptsOf (fold (retargetPointer b f) ps ?s) k = (if k \<in> set ps then insert b (ptsOf ?s k - {f}) else ptsOf ?s k)"
      using ih by blast
    then show ?thesis unfolding retargetPointer_pts(2)[OF Cons.prems] using assms(2) by auto
  qed
  ultimately show ?case by (simp add: retargetPointer_rest)
qed simp

text \<open>With all pointers to the field, the field is gone from every set.\<close>

lemma retarget_field:
  assumes inv: "solver_inv s" and ok: "objs_ok s" and f: "getBaseObject f (irs s) = Some b" "f \<noteq> b"
    and fi: "maxOffsetLimit (irs s) b = 0"
  defines "t \<equiv> fold (retargetPointer b f) (dd_getRevPts (ptD s) f) s"
  shows "coarser s t \<and> (\<forall>k. f \<notin> ptsOf t k) \<and> consCG t = consCG s \<and> irs t = irs s"
proof -
  note r = retarget_all[OF inv f(2)[symmetric], of "dd_getRevPts (ptD s) f", folded t_def]
  have p: "ptsOf t k = (if f \<in> ptsOf s k then insert b (ptsOf s k - {f}) else ptsOf s k)" for k
    using r revPts_iff[OF inv, of k f] by simp
  have bb: "getBaseObject b (irs s) = Some b" using getBaseObject_idem[OF f(1)] .
  have rep: "rep_of t = rep_of s" using r by (simp add: rep_of_def fun_eq_iff)
  have pb: "i \<in> ptsOf t k \<Longrightarrow> i = b \<or> i \<in> ptsOf s k" for i k unfolding p by (auto split: if_splits)
  have "objs_ok t"
    using ok r bb pb unfolding objs_ok_def rep by (metis option.distinct(1))
  moreover have "pts_kept s t"
    unfolding pts_kept_def
  proof (intro allI ballI)
    fix k i assume i: "i \<in> ptsOf s k"
    show "i \<in> ptsOf t k \<or> (\<exists>b. getBaseObject i (irs s) = Some b \<and> maxOffsetLimit (irs t) b = 0 \<and> b \<in> ptsOf t k)"
    proof (cases "i = f")
      case True
      then have "b \<in> ptsOf t k" using i p by simp
      then show ?thesis using f(1) fi r True by simp
    next
      case False
      then show ?thesis using i unfolding p by simp
    qed
  qed
  moreover have "gone_stays s t"
    unfolding gone_stays_def
  proof (intro allI impI)
    fix g c k assume g: "getBaseObject g (irs s) = Some c \<and> g \<noteq> c \<and> (\<forall>k. g \<notin> ptsOf s k)"
    then have "g \<noteq> b" using bb by auto
    then show "g \<notin> ptsOf t k" using g pb by blast
  qed
  moreover have "f \<notin> ptsOf t k" for k unfolding p using f(2) by simp
  moreover have "solver_inv t" "consCG t = consCG s" "irs t = irs s" "sccD t = sccD s" "DetectPWC t = DetectPWC s"
    "DiffPts t = DiffPts s" using r by blast+
  ultimately show ?thesis unfolding coarser_def rep by simp
qed

section \<open>Collapsing, for any class that merges like this\<close>

lemma merged_coarser:
  assumes m: "merged n r s t" and inv: "solver_inv s" and ok: "objs_ok s" and l: "live (consCG s) n" "live (consCG s) r" "n \<noteq> r"
  shows "coarser s t \<and> live (consCG t) r \<and> rep_of t = (\<lambda>i. if rep_of s i = n then r else rep_of s i) \<and> irs t = irs s
    \<and> (\<forall>f. (\<forall>k. f \<notin> ptsOf s k) \<longrightarrow> (\<forall>k. f \<notin> ptsOf t k))"
proof -
  have rest: "solver_inv t" "same_rest s t" "cnodes (consCG t) = filter (\<lambda>m. m \<noteq> n) (cnodes (consCG s))"
    "rep_of t = (\<lambda>i. if rep_of s i = n then r else rep_of s i)"
    and pts: "\<And>k. ptsOf t k = (if k = r then ptsOf s n \<union> ptsOf s r else ptsOf s k)"
    using m unfolding merged_def by blast+
  have irs: "irs t = irs s" using rest(2) by (simp add: same_rest_def)
  have rr: "rep_of s r = r" using l(2) by (rule rep_of_live)
  have lv: "live (consCG t) i" if "live (consCG s) i" "i \<noteq> n" for i
  proof -
    have "rep_of s i = i" using that(1) by (rule rep_of_live)
    then have "rep_of t i = i" using that(2) by (simp add: rest(4))
    then show ?thesis using that by (simp add: live_def rest(3) rep_of_def)
  qed
  have "objs_ok t"
  proof -
    have "live (consCG t) (rep_of t i)" if "getBaseObject i (irs t) = Some b" for i b
    proof -
      have "live (consCG s) (rep_of s i)" using ok that unfolding objs_ok_def irs by blast
      then show ?thesis using lv l(2,3) by (simp add: rest(4))
    qed
    moreover have "getBaseObject i (irs t) \<noteq> None" if "i \<in> ptsOf t k" for i k
      using that ok unfolding pts irs objs_ok_def by (auto split: if_splits)
    ultimately show ?thesis using ok unfolding objs_ok_def irs by blast
  qed
  moreover have "pts_kept s t" unfolding pts_kept_def pts by auto
  moreover have gone: "\<forall>f. (\<forall>k. f \<notin> ptsOf s k) \<longrightarrow> (\<forall>k. f \<notin> ptsOf t k)" unfolding pts by simp
  moreover have "gone_stays s t" using gone unfolding gone_stays_def by blast
  moreover have lr: "live (consCG t) (rep_of t i)" if "live (consCG s) (rep_of s i)" for i
    using lv[OF that] lv[OF l(2)] l(3) by (simp add: rest(4))
  ultimately have "coarser s t"
    using rest(1,2) by (intro coarserI lr) (simp_all add: same_rest_def rest(3,4) irs)
  then show ?thesis using rest(4) irs lv[OF l(2)] l(3) gone by blast
qed

lemma coarser_pwc: "coarser s t \<Longrightarrow> coarser s (t\<lparr>consCG := (consCG t)\<lparr>pwcNodes := P\<rparr>\<rparr>)"
  by (erule coarser_cong) (simp_all add: same_graph_def)

locale merging =
  fixes vt :: "'a ander_scheme vmethods"
  assumes merge_self: "v_mergeSrcToTgt vt n n s = Some (False, s)"
    and merge_ok: "solver_inv s \<Longrightarrow> live (consCG s) n \<Longrightarrow> live (consCG s) r \<Longrightarrow> n \<noteq> r \<Longrightarrow>
      \<exists>pwc t. v_mergeSrcToTgt vt n r s = Some (pwc, t) \<and> merged n r s t"
begin

text \<open>\<^verbatim>\<open>mergeNodeToRep\<close> succeeds, and the two nodes have the same representative.\<close>

lemma mergeNodeToRep_ok:
  assumes inv: "solver_inv s" and ok: "objs_ok s" and l: "live (consCG s) n" "live (consCG s) r"
  shows "\<exists>t. mergeNodeToRep vt n r s = Some t \<and> coarser s t \<and> live (consCG t) r
    \<and> rep_of t = (\<lambda>i. if rep_of s i = n then r else rep_of s i) \<and> irs t = irs s
    \<and> (\<forall>f. (\<forall>k. f \<notin> ptsOf s k) \<longrightarrow> (\<forall>k. f \<notin> ptsOf t k))
    \<and> set (cnodes (consCG t)) = set (cnodes (consCG s)) - ({n} - {r})"
proof (cases "n = r")
  case True
  have "(\<lambda>i. if rep_of s i = n then n else rep_of s i) = rep_of s" by auto
  then show ?thesis
    using True merge_self l coarser_refl[OF inv ok] by (simp add: mergeNodeToRep_def)
next
  case False
  obtain pwc t where t: "v_mergeSrcToTgt vt n r s = Some (pwc, t)" "merged n r s t"
    using merge_ok[OF inv l False] by blast
  note m = merged_coarser[OF t(2) inv ok l False]
  let ?t = "if pwc then t\<lparr>consCG := (consCG t)\<lparr>pwcNodes := insert r (pwcNodes (consCG t))\<rparr>\<rparr> else t"
  have "getConstraintNode r (consCG t) = Some r" using m live_getConstraintNode by blast
  then have eq: "mergeNodeToRep vt n r s = Some ?t"
    using t(1) by (simp add: mergeNodeToRep_def setPWCNode_def)
  have g: "same_graph (consCG t) (consCG ?t)" by (simp add: same_graph_def)
  have "coarser s ?t" using conjunct1[OF m] coarser_pwc[OF conjunct1[OF m]] by (cases pwc) (simp_all only: if_True if_False)
  moreover have "live (consCG ?t) r" using m unfolding same_graphD(2)[OF g] by blast
  moreover have "rep_of ?t = (\<lambda>i. if rep_of s i = n then r else rep_of s i)"
    using m unfolding rep_of_same_graph[OF g] by blast
  moreover have "irs ?t = irs s" using m by simp
  moreover have "set (cnodes (consCG ?t)) = set (cnodes (consCG s)) - ({n} - {r})"
  proof -
    have c: "cnodes (consCG ?t) = filter (\<lambda>m. m \<noteq> n) (cnodes (consCG s))" using t(2) by (simp add: merged_def)
    show ?thesis unfolding c using False by auto
  qed
  moreover have "\<forall>f. (\<forall>k. f \<notin> ptsOf s k) \<longrightarrow> (\<forall>k. f \<notin> ptsOf ?t k)"
  proof -
    have p: "ptD ?t = ptD t" by simp
    show ?thesis using m unfolding p by blast
  qed
  ultimately show ?thesis using eq by blast
qed

lemma collapseOneField_ok:
  assumes inv: "solver_inv s" and ok: "objs_ok s" and f: "getBaseObject f (irs s) = Some b"
    and fi: "maxOffsetLimit (irs s) b = 0" and r: "rep_of s b = r" "live (consCG s) r"
  shows "\<exists>c' t. collapseOneField vt b r f (c, s) = Some (c', t) \<and> coarser s t \<and> irs t = irs s
    \<and> rep_of t b = r \<and> live (consCG t) r \<and> rep_of t f = r \<and> (f \<noteq> b \<longrightarrow> (\<forall>k. f \<notin> ptsOf t k))"
proof (cases "f = b")
  case True
  then show ?thesis using coarser_refl[OF inv ok] r by (simp add: collapseOneField_def)
next
  case False
  let ?s1 = "fold (retargetPointer b f) (dd_getRevPts (ptD s) f) s"
  note s1 = retarget_field[OF inv ok f False fi]
  note c1 = coarserD[OF conjunct1[OF s1]]
  have g1: "consCG ?s1 = consCG s" "irs ?s1 = irs s" using s1 by blast+
  have rep: "rep_of ?s1 = rep_of s" using g1(1) by (simp add: rep_of_def fun_eq_iff)
  have lf: "live (consCG ?s1) (rep_of ?s1 f)" using ok f unfolding objs_ok_def g1 rep by blast
  have lr: "live (consCG ?s1) r" using r(2) g1(1) by simp
  obtain t where t: "mergeNodeToRep vt (rep_of ?s1 f) r ?s1 = Some t" "coarser ?s1 t" "live (consCG t) r"
      "rep_of t = (\<lambda>i. if rep_of ?s1 i = rep_of ?s1 f then r else rep_of ?s1 i)" "irs t = irs ?s1"
      "\<forall>f. (\<forall>k. f \<notin> ptsOf ?s1 k) \<longrightarrow> (\<forall>k. f \<notin> ptsOf t k)"
    using mergeNodeToRep_ok[OF c1(1,2) lf lr] by blast
  let ?t = "if f \<noteq> r then t\<lparr>redundantGepNodes := oset_insert f (redundantGepNodes t)\<rparr> else t"
  have eq: "collapseOneField vt b r f (c, s) = Some (c \<or> dd_getRevPts (ptD s) f \<noteq> [], ?t)"
    using False t(1) by (simp add: collapseOneField_def Let_def)
  have g: "same_graph (consCG t) (consCG ?t)" by (simp add: same_graph_def)
  have "coarser s t" using s1 t(2) coarser_trans by blast
  then have co: "coarser s ?t" by (rule coarser_cong) (use g in simp_all)
  have "rep_of ?t = rep_of t" by (rule rep_of_same_graph[OF g])
  then have "rep_of ?t b = r" "rep_of ?t f = r" using r(1) by (simp_all add: t(4) rep)
  moreover have "\<forall>k. f \<notin> ptsOf ?t k"
  proof -
    have p: "ptD ?t = ptD t" by simp
    show ?thesis using t(6) s1 unfolding p by blast
  qed
  moreover have "irs ?t = irs s" using t(5) g1(2) by simp
  moreover have "live (consCG ?t) r" using t(3) by simp
  ultimately show ?thesis using eq co by blast
qed

end

section \<open>Termination\<close>

text \<open>The objects that are still field-sensitive: the recursion of \<^verbatim>\<open>collapseField\<close> makes one of them insensitive.\<close>

definition sens :: "pag \<Rightarrow> node_id set" where
  "sens p = {b. isBaseObj b p \<and> maxOffsetLimit p b \<noteq> 0}"

lemma sens_mono: "fi_step p q \<Longrightarrow> sens q \<subseteq> sens p"
  by (auto simp: sens_def isBaseObj_def fi_step_vars dest: fi_step_zero)

lemma sens_set:
  assumes "setObjFieldInsensitive i p = Some q" "getBaseObject i p = Some b"
  shows "sens q = sens p - {b}" "maxOffsetLimit q b = 0"
  using assms by (auto simp: sens_def isBaseObj_def setObjFieldInsensitive_def split: if_splits)

lemma isFieldInsensitive_base:
  "getBaseObject i p = Some b \<Longrightarrow> isFieldInsensitive i p = Some (b \<notin> sens p)"
  by (auto simp: isFieldInsensitive_def sens_def dest: getBaseObject_Some)

lemma isBlk_Some: "getBaseObject i p = Some b \<Longrightarrow> \<exists>c. isBlkObjOrConstantObj i p = Some c"
  using getBaseObject_Some[of i p b] by (auto simp: isBlkObjOrConstantObj_def isConstantObj_def isBaseObj_def)

text \<open>What collapsing the object \<open>b\<close> achieves.\<close>

definition collapsed :: "node_id \<Rightarrow> 'a ander_scheme \<Rightarrow> 'a ander_scheme \<Rightarrow> bool" where
  "collapsed b s t \<longleftrightarrow> maxOffsetLimit (irs t) b = 0
     \<and> (\<forall>f. getBaseObject f (irs s) = Some b \<longrightarrow> rep_of t f = rep_of t b \<and> (f \<noteq> b \<longrightarrow> (\<forall>k. f \<notin> ptsOf t k)))"

lemma collapsed_step:
  assumes c: "collapsed b s t" and i: "fi_step (irs s) (irs t)" and u: "coarser t u"
  shows "collapsed b s u"
proof -
  note d = coarserD[OF u]
  have "rep_of u f = rep_of u b \<and> (f \<noteq> b \<longrightarrow> (\<forall>k. f \<notin> ptsOf u k))" if f: "getBaseObject f (irs s) = Some b" for f
  proof -
    have "rep_of t f = rep_of t b" and g: "f \<noteq> b \<longrightarrow> (\<forall>k. f \<notin> ptsOf t k)" using c f unfolding collapsed_def by blast+
    then have "rep_of u f = rep_of u b" using d(6) by blast
    moreover have "f \<notin> ptsOf u k" if "f \<noteq> b" for k
      using gone_staysD[OF d(5), of f b] f g that fi_step_base[OF i] by simp
    ultimately show ?thesis by blast
  qed
  moreover have "maxOffsetLimit (irs u) b = 0" using c fi_step_zero[OF d(3)] unfolding collapsed_def by blast
  ultimately show ?thesis unfolding collapsed_def by blast
qed

text \<open>The contract of the recursive call.\<close>

definition collapses :: "nat \<Rightarrow> (node_id \<Rightarrow> 'a ander_scheme \<Rightarrow> (bool \<times> 'a ander_scheme) option) \<Rightarrow> bool" where
  "collapses n collapse \<longleftrightarrow> (\<forall>i b s. solver_inv s \<and> objs_ok s \<and> finite (sens (irs s)) \<and> getBaseObject i (irs s) = Some b
     \<and> (card (sens (irs s)) < n \<or> b \<in> sens (irs s) \<and> card (sens (irs s)) \<le> n)
     \<longrightarrow> (\<exists>c t. collapse i s = Some (c, t) \<and> coarser s t
           \<and> (isBlkObjOrConstantObj i (irs s) = Some False \<longrightarrow> collapsed b s t)))"

lemma collapseNodePts_ok:
  assumes C: "collapses n collapse" and inv: "solver_inv s" "objs_ok s"
    and fin: "finite (sens (irs s))" "card (sens (irs s)) \<le> n"
  shows "\<exists>c t. collapseNodePts collapse nodeId s = Some (c, t) \<and> coarser s t"
proof -
  let ?body = "\<lambda>o1 (changed, t). do {
         fi \<leftarrow> isFieldInsensitive o1 (irs t);
         if fi then Some (changed, t)
         else map_option (\<lambda>(c, t'). (changed \<or> c, t')) (collapse o1 t)
       }"
  let ?I = "\<lambda>xs cs. set xs \<subseteq> set (getPts s nodeId) \<and> coarser s (snd cs)"
  have "\<exists>cs. foldO ?body (getPts s nodeId) (False, s) = Some cs \<and> ?I [] cs"
  proof (rule foldO_rule[where I = ?I])
    show "?I (getPts s nodeId) (False, s)" using coarser_refl[OF inv] by simp
  next
    fix o1 xs and cs :: "bool \<times> 'a ander_scheme"
    assume I: "?I (o1 # xs) cs"
    obtain c t where cs: "cs = (c, t)" by (cases cs)
    have st: "coarser s t" using I cs by simp
    note d = coarserD[OF st]
    have "o1 \<in> ptsOf s (rep_of s nodeId)" using I by (simp add: getPts_def)
    then have "getBaseObject o1 (irs s) \<noteq> None" using inv(2) unfolding objs_ok_def by blast
    then obtain b where b: "getBaseObject o1 (irs t) = Some b" using fi_step_base[OF d(3)] by auto
    have ft: "finite (sens (irs t))" "card (sens (irs t)) \<le> n"
      using finite_subset[OF sens_mono[OF d(3)] fin(1)] order_trans[OF card_mono[OF fin(1) sens_mono[OF d(3)]] fin(2)]
      by blast+
    show "\<exists>cs'. ?body o1 cs = Some cs' \<and> ?I xs cs'"
    proof (cases "b \<in> sens (irs t)")
      case True
      then obtain c' u where "collapse o1 t = Some (c', u)" "coarser t u"
        using C d(1,2) ft b unfolding collapses_def by blast
      moreover have "coarser s u" using st \<open>coarser t u\<close> by (rule coarser_trans)
      ultimately show ?thesis using I True by (auto simp: cs isFieldInsensitive_base[OF b])
    next
      case False
      then show ?thesis using I by (auto simp: cs isFieldInsensitive_base[OF b])
    qed
  qed
  then show ?thesis by (auto simp: collapseNodePts_def)
qed

context merging
begin

lemma collapse_loop:
  assumes "solver_inv s" "objs_ok s" "\<forall>f \<in> set fs. getBaseObject f (irs s) = Some b"
    "maxOffsetLimit (irs s) b = 0" "rep_of s b = r" "live (consCG s) r"
  shows "\<exists>c' t. foldO (collapseOneField vt b r) fs (c, s) = Some (c', t) \<and> coarser s t \<and> irs t = irs s
    \<and> rep_of t b = r \<and> live (consCG t) r \<and> (\<forall>f \<in> set fs. rep_of t f = r \<and> (f \<noteq> b \<longrightarrow> (\<forall>k. f \<notin> ptsOf t k)))"
  using assms
proof (induction fs arbitrary: c s)
  case Nil
  then show ?case using coarser_refl by auto
next
  case (Cons f fs)
  have f: "getBaseObject f (irs s) = Some b" using Cons.prems(3) by simp
  obtain c1 u where u: "collapseOneField vt b r f (c, s) = Some (c1, u)" "coarser s u" "irs u = irs s"
      "rep_of u b = r" "live (consCG u) r" "rep_of u f = r" "f \<noteq> b \<longrightarrow> (\<forall>k. f \<notin> ptsOf u k)"
    using collapseOneField_ok[OF Cons.prems(1,2) f Cons.prems(4-6)] by blast
  note d = coarserD[OF u(2)]
  have p: "\<forall>f \<in> set fs. getBaseObject f (irs u) = Some b" "maxOffsetLimit (irs u) b = 0"
    using Cons.prems(3,4) u(3) by simp_all
  obtain c' t where t: "foldO (collapseOneField vt b r) fs (c1, u) = Some (c', t)" "coarser u t" "irs t = irs u"
      "rep_of t b = r" "live (consCG t) r" "\<forall>f \<in> set fs. rep_of t f = r \<and> (f \<noteq> b \<longrightarrow> (\<forall>k. f \<notin> ptsOf t k))"
    using Cons.IH[OF d(1,2) p u(4,5)] by blast
  note e = coarserD[OF t(2)]
  have "rep_of t f = r" using e(6)[of f b] u(4,6) t(4) by simp
  moreover have "f \<notin> ptsOf t k" if "f \<noteq> b" for k
    using gone_staysD[OF e(5), of f b k] f u(3,7) that by simp
  ultimately have "\<forall>f \<in> set (f # fs). rep_of t f = r \<and> (f \<noteq> b \<longrightarrow> (\<forall>k. f \<notin> ptsOf t k))" using t(6) by simp
  moreover have "coarser s t" using u(2) t(2) by (rule coarser_trans)
  moreover have "foldO (collapseOneField vt b r) (f # fs) (c, s) = Some (c', t)" using u(1) t(1) by simp
  moreover have "irs t = irs s" using t(3) u(3) by simp
  ultimately show ?case using t(4,5) by blast
qed

lemma collapseField_ok: "collapses n (collapseField n vt)"
proof (induction n)
  case 0
  then show ?case unfolding collapses_def by (auto simp: card_eq_0_iff)
next
  case (Suc n)
  show ?case
    unfolding collapses_def
  proof (intro allI impI)
    fix i b and s :: "'a ander_scheme"
    assume A: "solver_inv s \<and> objs_ok s \<and> finite (sens (irs s)) \<and> getBaseObject i (irs s) = Some b
     \<and> (card (sens (irs s)) < Suc n \<or> b \<in> sens (irs s) \<and> card (sens (irs s)) \<le> Suc n)"
    then have inv: "solver_inv s" "objs_ok s" and fin: "finite (sens (irs s))" and b: "getBaseObject i (irs s) = Some b"
      by blast+
    obtain blk where blk: "isBlkObjOrConstantObj i (irs s) = Some blk" using isBlk_Some[OF b] by blast
    show "\<exists>c t. collapseField (Suc n) vt i s = Some (c, t) \<and> coarser s t
           \<and> (isBlkObjOrConstantObj i (irs s) = Some False \<longrightarrow> collapsed b s t)"
    proof (cases blk)
      case True
      then show ?thesis using blk coarser_refl[OF inv] by (intro exI[of _ False] exI[of _ s]) simp
    next
      case False
      obtain q where q: "setObjFieldInsensitive i (irs s) = Some q" using b by (simp add: setObjFieldInsensitive_def)
      note fq = fi_step_set[OF q] and sq = sens_set[OF q b]
      let ?s = "s\<lparr>irs := q\<rparr>"
      have g: "same_graph (consCG s) (consCG ?s)" "ptD ?s = ptD s" "fi_step (irs s) (irs ?s)"
        using fq by (simp_all add: same_graph_def)
      have inv': "solver_inv ?s" "objs_ok ?s" using solver_inv_cong[OF inv(1) g(1,2)] objs_ok_cong[OF inv(2) g] by blast+
      have s0: "coarser s ?s"
        by (rule coarserI) (use inv' fq in \<open>auto simp: pts_kept_def gone_stays_def\<close>)
      have bb: "getBaseObject b (irs ?s) = Some b" "getBaseObject i (irs ?s) = Some b"
        using getBaseObject_idem[OF b] b fi_step_base[OF fq] by simp_all
      let ?r = "rep_of ?s b"
      have lr: "live (consCG ?s) ?r" using inv'(2) bb(1) unfolding objs_ok_def by blast
      have fi: "consFIObjVar i ?s = Some b"
        using bb(2) lr by (simp add: consFIObjVar_def getFIObjVar_def getBaseObjVarID_def hasConstraintNode_def live_def rep_of_def)
      have af: "getAllFieldsObjVars b (irs ?s) = Some (memToFields q b)" using bb(1) by (simp add: getAllFieldsObjVars_def)
      have fs: "\<forall>f. f \<in> set (memToFields q b) \<longleftrightarrow> getBaseObject f (irs ?s) = Some b"
        using inv'(2) unfolding objs_ok_def pag_inv_def by simp
      obtain c1 t where t: "foldO (collapseOneField vt b ?r) (memToFields q b) (False, ?s) = Some (c1, t)"
          "coarser ?s t" "irs t = irs ?s" "rep_of t b = ?r" "live (consCG t) ?r"
          "\<forall>f \<in> set (memToFields q b). rep_of t f = ?r \<and> (f \<noteq> b \<longrightarrow> (\<forall>k. f \<notin> ptsOf t k))"
        using collapse_loop[OF inv', of "memToFields q b" b ?r False] fs sq(2) lr by auto
      have st: "coarser s t" using s0 t(2) by (rule coarser_trans)
      note d = coarserD[OF st]
      have col: "collapsed b s t"
        unfolding collapsed_def
      proof (intro conjI allI impI)
        show "maxOffsetLimit (irs t) b = 0" using t(3) sq(2) by simp
        fix f assume "getBaseObject f (irs s) = Some b"
        then have "f \<in> set (memToFields q b)" using fs fi_step_base[OF fq] by simp
        then show "rep_of t f = rep_of t b" "\<And>k. f \<noteq> b \<Longrightarrow> f \<notin> ptsOf t k" using t(4,6) by auto
      qed
      obtain pwc where pwc: "isPWCNode ?r (consCG t) = Some pwc"
        using t(5) by (simp add: isPWCNode_def live_getConstraintNode)
      have le: "finite (sens (irs t))" "card (sens (irs t)) \<le> n"
      proof -
        have e: "sens (irs t) = sens (irs s) - {b}" using t(3) sq(1) by simp
        then show "finite (sens (irs t))" using fin by simp
        show "card (sens (irs t)) \<le> n"
        proof (cases "b \<in> sens (irs s)")
          case True
          then show ?thesis using A fin unfolding e by (auto simp: card_Diff_singleton)
        next
          case False
          then show ?thesis using A unfolding e by simp
        qed
      qed
      obtain c2 u where u: "collapseNodePts (collapseField n vt) ?r t = Some (c2, u)" "coarser t u"
        using collapseNodePts_ok[OF Suc.IH d(1,2) le] by blast
      have "coarser s u" using st u(2) by (rule coarser_trans)
      moreover have "collapsed b s u" using collapsed_step[OF col d(3) u(2)] .
      ultimately show ?thesis
        using blk False q fi af t(1) pwc u(1) st col by (cases pwc) (simp_all add: Let_def)
    qed
  qed
qed

end

section \<open>Merging cycles\<close>

text \<open>The detector's result as a partition of the nodes: \<open>\<rho>\<close> maps a node to its representative.\<close>

definition partitions :: "node_id set \<Rightarrow> (node_id \<Rightarrow> node_id) \<Rightarrow> sccs \<Rightarrow> bool" where
  "partitions N \<rho> d \<longleftrightarrow> (\<forall>x \<in> N. \<rho> x \<in> N \<and> \<rho> (\<rho> x) = \<rho> x) \<and> set (sT d) = {r \<in> N. \<rho> r = r} \<and> distinct (sT d)
     \<and> (\<forall>r \<in> set (sT d). \<exists>subs. subNodes r d = Some subs \<and> distinct subs \<and> set subs = {x \<in> N. \<rho> x = r})"

lemma scc_result_partitions:
  assumes "scc_result succ ns d"
  shows "partitions (set ns) (sRep d) d"
    "\<forall>x \<in> set ns. \<forall>y \<in> set ns. (sRep d x = sRep d y) = mutual succ x y"
proof -
  note r = scc_resultD[OF assms]
  note C = scc_compsD[OF scc_invD(4)[OF r(1)]] and B = scc_subsD[OF scc_invD(5)[OF r(1)]]
  show "\<forall>x \<in> set ns. \<forall>y \<in> set ns. (sRep d x = sRep d y) = mutual succ x y"
    using C(4) r(3) by blast
  have T: "set (sT d) = {x \<in> set ns. sRep d x = x}" unfolding C(5) using r(3) by blast
  moreover have "\<exists>subs. subNodes x d = Some subs \<and> distinct subs \<and> set subs = {u \<in> set ns. sRep d u = x}"
    if "x \<in> set (sT d)" for x
  proof -
    have x: "x \<in> set ns" "sRep d x = x" using that unfolding T by blast+
    then have "sInSCC d x" "sVisited d x" using r(2,3) by blast+
    then have "set (sSubs d x) = {u \<in> set ns. sRep d u = x}" "subNodes x d = Some (sSubs d x)"
      using B(3)[of x] x(2) r(3) by (auto simp: subNodes_def)
    then show ?thesis using B(1)[of x] by (simp add: oset_inv_def)
  qed
  moreover have "\<forall>x \<in> set ns. sRep d x \<in> set ns \<and> sRep d (sRep d x) = sRep d x"
    using C(3) r(3,5) by blast
  ultimately show "partitions (set ns) (sRep d) d"
    unfolding partitions_def using C(6) by blast
qed

lemma live_moved:
  assumes "coarser s t" "live (consCG s) x" "rep_of t x = x"
  shows "live (consCG t) x"
  using coarserD(12)[OF assms(1), of x] rep_of_live[OF assms(2)] assms(2,3) by simp

context merging
begin

lemma mergeSccNodes_ok:
  assumes "solver_inv s" "objs_ok s" "live (consCG s) r" "\<forall>x \<in> set subs. live (consCG s) x" "distinct subs"
  shows "\<exists>t. mergeSccNodes vt r subs s = Some t \<and> coarser s t \<and> live (consCG t) r
    \<and> rep_of t = (\<lambda>i. if rep_of s i \<in> set subs then r else rep_of s i)
    \<and> set (cnodes (consCG t)) = set (cnodes (consCG s)) - (set subs - {r}) \<and> irs t = irs s"
  using assms
proof (induction subs arbitrary: s)
  case Nil
  then show ?case using coarser_refl by (simp add: mergeSccNodes_def)
next
  case (Cons x xs)
  have lx: "live (consCG s) x" using Cons.prems(4) by simp
  obtain u where u: "mergeNodeToRep vt x r s = Some u" "coarser s u" "live (consCG u) r"
      "rep_of u = (\<lambda>i. if rep_of s i = x then r else rep_of s i)" "irs u = irs s"
      "set (cnodes (consCG u)) = set (cnodes (consCG s)) - ({x} - {r})"
    using mergeNodeToRep_ok[OF Cons.prems(1,2) lx Cons.prems(3)] by blast
  let ?u = "if x \<noteq> r then mergeNodeToRep vt x r s else Some s"
  have nr: "mergeNodeToRep vt x r s = Some s" if "x = r" using that merge_self by (simp add: mergeNodeToRep_def)
  have eq: "?u = Some u" using u(1) nr by (cases "x = r") simp_all
  note d = coarserD[OF u(2)]
  have "live (consCG u) y" if "y \<in> set xs" for y
  proof (rule live_moved[OF u(2)])
    show "live (consCG s) y" using Cons.prems(4) that by simp
    then show "rep_of u y = y" using rep_of_live[of s y] Cons.prems(5) that by (auto simp: u(4))
  qed
  then obtain t where t: "mergeSccNodes vt r xs u = Some t" "coarser u t" "live (consCG t) r"
      "rep_of t = (\<lambda>i. if rep_of u i \<in> set xs then r else rep_of u i)"
      "set (cnodes (consCG t)) = set (cnodes (consCG u)) - (set xs - {r})" "irs t = irs u"
    using Cons.IH[OF d(1,2) u(3) _] Cons.prems(5) by auto
  have "mergeSccNodes vt r (x # xs) s = Some t"
    using eq t(1) by (simp add: mergeSccNodes_def)
  moreover have "rep_of t = (\<lambda>i. if rep_of s i \<in> set (x # xs) then r else rep_of s i)"
    unfolding t(4) u(4) by auto
  moreover have "set (cnodes (consCG t)) = set (cnodes (consCG s)) - (set (x # xs) - {r})"
    unfolding t(5) u(6) by auto
  moreover have "coarser s t" using u(2) t(2) by (rule coarser_trans)
  ultimately show ?case using t(3,6) u(5) by simp
qed

text \<open>
  A loop over the detector's stack that merges some of the components, all of them if \<open>must\<close>:
  \<open>st\<close> reads the state of the analysis off the state of the loop.
\<close>

lemma merge_loop:
  assumes inv: "solver_inv s" "objs_ok s" and N: "\<forall>x \<in> N. live (consCG s) x" and P: "partitions N \<rho> (sccD s)"
    and z: "st z = s" "Q z"
    and step: "\<And>r z subs u. Q z \<Longrightarrow> coarser s (st z) \<Longrightarrow> r \<in> set subs \<Longrightarrow> distinct subs \<Longrightarrow> \<forall>x \<in> set subs. live (consCG (st z)) x \<Longrightarrow>
      subNodes r (sccD (st z)) = Some subs \<Longrightarrow> mergeSccNodes vt r subs (st z) = Some u \<Longrightarrow>
      \<exists>z'. f r z = Some z' \<and> Q z' \<and> (st z' = u \<or> \<not> must \<and> st z' = st z)"
  shows "\<exists>z' M. foldO f (sT (sccD s)) z = Some z' \<and> Q z' \<and> coarser s (st z') \<and> irs (st z') = irs s
    \<and> M \<subseteq> {r \<in> N. \<rho> r = r} \<and> (must \<longrightarrow> M = {r \<in> N. \<rho> r = r})
    \<and> rep_of (st z') = (\<lambda>i. if rep_of s i \<in> N \<and> \<rho> (rep_of s i) \<in> M then \<rho> (rep_of s i) else rep_of s i)
    \<and> set (cnodes (consCG (st z'))) = set (cnodes (consCG s)) - {x \<in> N. \<rho> x \<noteq> x \<and> \<rho> x \<in> M}"
proof -
  let ?d = "sccD s"
  have T: "set (sT ?d) = {r \<in> N. \<rho> r = r}" "distinct (sT ?d)" and rho: "\<And>x. x \<in> N \<Longrightarrow> \<rho> x \<in> N \<and> \<rho> (\<rho> x) = \<rho> x"
    and sub: "\<And>r. r \<in> set (sT ?d) \<Longrightarrow> \<exists>subs. subNodes r ?d = Some subs \<and> distinct subs \<and> set subs = {x \<in> N. \<rho> x = r}"
    using P unfolding partitions_def by blast+
  define K where "K = (\<lambda>M t. coarser s t \<and> irs t = irs s
     \<and> rep_of t = (\<lambda>i. if rep_of s i \<in> N \<and> \<rho> (rep_of s i) \<in> M then \<rho> (rep_of s i) else rep_of s i)
     \<and> set (cnodes (consCG t)) = set (cnodes (consCG s)) - {x \<in> N. \<rho> x \<noteq> x \<and> \<rho> x \<in> M})"
  define J where "J = (\<lambda>xs z. set xs \<subseteq> set (sT ?d) \<and> distinct xs \<and> Q z \<and> (\<exists>M. M \<subseteq> set (sT ?d) - set xs
     \<and> (must \<longrightarrow> M = set (sT ?d) - set xs) \<and> K M (st z)))"
  have "\<exists>z'. foldO f (sT ?d) z = Some z' \<and> J [] z'"
  proof (rule foldO_rule[where I = J])
    have "K {} s" using coarser_refl[OF inv] by (simp add: K_def fun_eq_iff)
    then show "J (sT ?d) z" using T(2) z by (simp add: J_def)
  next
    fix r xs z assume "J (r # xs) z"
    then obtain M where rx: "r \<in> set (sT ?d)" "set xs \<subseteq> set (sT ?d)" "r \<notin> set xs" "distinct xs" "Q z" and K: "K M (st z)"
      and M: "M \<subseteq> set (sT ?d) - set (r # xs)" "must \<longrightarrow> M = set (sT ?d) - set (r # xs)"
      unfolding J_def by auto
    let ?t = "st z"
    have st: "coarser s ?t" "irs ?t = irs s"
      and rt: "rep_of ?t = (\<lambda>i. if rep_of s i \<in> N \<and> \<rho> (rep_of s i) \<in> M then \<rho> (rep_of s i) else rep_of s i)"
      and ct: "set (cnodes (consCG ?t)) = set (cnodes (consCG s)) - {x \<in> N. \<rho> x \<noteq> x \<and> \<rho> x \<in> M}"
      using K unfolding K_def by blast+
    note d = coarserD[OF st(1)]
    obtain subs where subs: "subNodes r ?d = Some subs" "distinct subs" "set subs = {x \<in> N. \<rho> x = r}"
      using sub[OF rx(1)] by blast
    have r: "r \<in> N" "\<rho> r = r" using rx(1) unfolding T(1) by blast+
    have rM: "r \<notin> M" using M(1) by auto
    have lv: "live (consCG ?t) x" if "x \<in> N" "\<rho> x = r" for x
    proof (rule live_moved[OF st(1)])
      show "live (consCG s) x" using N that(1) by blast
      then show "rep_of ?t x = x" using rep_of_live[of s x] that rM by (simp add: rt)
    qed
    have lv': "\<forall>x \<in> set subs. live (consCG ?t) x" using lv unfolding subs(3) by blast
    obtain u where u: "mergeSccNodes vt r subs ?t = Some u" "coarser ?t u"
        "rep_of u = (\<lambda>i. if rep_of ?t i \<in> set subs then r else rep_of ?t i)"
        "set (cnodes (consCG u)) = set (cnodes (consCG ?t)) - (set subs - {r})" "irs u = irs ?t"
      using mergeSccNodes_ok[OF d(1,2) lv[OF r] lv' subs(2)] by blast
    have "K (insert r M) u"
      unfolding K_def
    proof (intro conjI)
      show "coarser s u" using st(1) u(2) by (rule coarser_trans)
      show "irs u = irs s" using u(5) st(2) by simp
      show "rep_of u = (\<lambda>i. if rep_of s i \<in> N \<and> \<rho> (rep_of s i) \<in> insert r M then \<rho> (rep_of s i) else rep_of s i)"
      proof
        fix i
        let ?x = "rep_of s i"
        show "rep_of u i = (if ?x \<in> N \<and> \<rho> ?x \<in> insert r M then \<rho> ?x else ?x)"
        proof (cases "?x \<in> N")
          case True
          then show ?thesis using rho[OF True] rM unfolding u(3) rt subs(3) by auto
        qed (simp add: u(3) rt subs(3))
      qed
      show "set (cnodes (consCG u)) = set (cnodes (consCG s)) - {x \<in> N. \<rho> x \<noteq> x \<and> \<rho> x \<in> insert r M}"
        unfolding u(4) ct subs(3) by auto
    qed
    moreover have sub': "insert r M \<subseteq> set (sT ?d) - set xs" "must \<longrightarrow> insert r M = set (sT ?d) - set xs" "M \<subseteq> set (sT ?d) - set xs"
      using M rx by auto
    moreover obtain z' where z': "f r z = Some z'" "Q z'" "st z' = u \<or> \<not> must \<and> st z' = ?t"
      using step[OF rx(5) st(1) _ subs(2) lv' _ u(1)] subs(1,3) d(8) r by auto
    ultimately have "\<exists>M. M \<subseteq> set (sT ?d) - set xs \<and> (must \<longrightarrow> M = set (sT ?d) - set xs) \<and> K M (st z')"
    proof (cases "st z' = u")
      case True
      show ?thesis unfolding True using \<open>K (insert r M) u\<close> sub'(1,2) by blast
    next
      case False
      then show ?thesis using z'(3) K sub'(3) by (intro exI[of _ M]) simp
    qed
    then show "\<exists>z'. f r z = Some z' \<and> J xs z'" using z'(1,2) rx(2,4) unfolding J_def by blast
  qed
  then show ?thesis unfolding J_def K_def T(1) by auto
qed

lemma mergeSccCycle_ok:
  assumes inv: "solver_inv s" "objs_ok s" and N: "\<forall>x \<in> N. live (consCG s) x" and P: "partitions N \<rho> (sccD s)"
  shows "\<exists>t. mergeSccCycle vt s = Some t \<and> coarser s t \<and> irs t = irs s
    \<and> rep_of t = (\<lambda>i. if rep_of s i \<in> N then \<rho> (rep_of s i) else rep_of s i)
    \<and> set (cnodes (consCG t)) = set (cnodes (consCG s)) - {x \<in> N. \<rho> x \<noteq> x}"
proof -
  have "\<rho> x \<in> N \<and> \<rho> (\<rho> x) = \<rho> x" if "x \<in> N" for x using P that unfolding partitions_def by blast
  moreover obtain t where "mergeSccCycle vt s = Some t" "coarser s t" "irs t = irs s"
    "rep_of t = (\<lambda>i. if rep_of s i \<in> N \<and> \<rho> (rep_of s i) \<in> {r \<in> N. \<rho> r = r} then \<rho> (rep_of s i) else rep_of s i)"
    "set (cnodes (consCG t)) = set (cnodes (consCG s)) - {x \<in> N. \<rho> x \<noteq> x \<and> \<rho> x \<in> {r \<in> N. \<rho> r = r}}"
    using merge_loop[OF inv N P, of "\<lambda>z. z" s "\<lambda>_. True" "\<lambda>r s'. do { subs \<leftarrow> subNodes r (sccD s'); mergeSccNodes vt r subs s' }" True]
    unfolding mergeSccCycle_def by auto
  ultimately show ?thesis by (intro exI[of _ t]) (auto simp: fun_eq_iff)
qed

end

text \<open>All nodes of the graph stand for themselves; their numbers fit 32 bits and none is the detector's mark.\<close>

definition nodes_ok :: "consg \<Rightarrow> bool" where
  "nodes_ok g \<longleftrightarrow> (\<forall>n \<in> set (cnodes g). live g n) \<and> length (cnodes g) < 2 ^ 32 \<and> UINT_MAX \<notin> set (cnodes g)"

lemma directChildren_closed:
  assumes "consg_inv (consCG s)"
  shows "set (directChildren s u) \<subseteq> set (cnodes (consCG s))"
  using consg_inv_ends[OF assms]
  by (auto simp: directChildren_def directOutEdges_def getOutEdges_def getCopyOutEdges_def live_def)

text \<open>The detector's run, and what a merge of some of the components makes of the graph.\<close>

lemma findSCCs_ok:
  assumes inv: "solver_inv s" "objs_ok s" and g: "nodes_ok (consCG s)"
  shows "\<exists>d. findSCCs (s\<lparr>numOfSCCDetection := c\<rparr>) = Some (s\<lparr>numOfSCCDetection := c, sccD := d\<rparr>)
    \<and> partitions (set (cnodes (consCG s))) (sRep d) d
    \<and> (\<forall>x \<in> set (cnodes (consCG s)). \<forall>y \<in> set (cnodes (consCG s)). (sRep d x = sRep d y) = mutual (directChildren s) x y)
    \<and> solver_inv (s\<lparr>numOfSCCDetection := c, sccD := d\<rparr>) \<and> objs_ok (s\<lparr>numOfSCCDetection := c, sccD := d\<rparr>)"
proof -
  let ?N = "set (cnodes (consCG s))"
  have cl: "\<forall>u \<in> ?N. set (directChildren s u) \<subseteq> ?N"
    using directChildren_closed[of s] inv(1) by (simp add: solver_inv_def)
  have len: "length (cnodes (consCG s)) < 2 ^ 32" "UINT_MAX \<notin> ?N" using g unfolding nodes_ok_def by blast+
  obtain d where d: "scc_find (length (cnodes (consCG s))) (directChildren s) (cnodes (consCG s)) = Some d"
      "scc_result (directChildren s) (cnodes (consCG s)) d"
    using scc_find_result[OF len(1) cl len(2) order_refl] by blast
  let ?s1 = "s\<lparr>numOfSCCDetection := c, sccD := d\<rparr>"
  have dc: "directChildren (s\<lparr>numOfSCCDetection := c\<rparr>) = directChildren s" by (simp add: directChildren_def fun_eq_iff)
  have f: "findSCCs (s\<lparr>numOfSCCDetection := c\<rparr>) = Some ?s1" using d(1) unfolding findSCCs_def dc by simp
  have sg: "same_graph (consCG s) (consCG ?s1)" "ptD ?s1 = ptD s" "fi_step (irs s) (irs ?s1)" by (simp_all add: same_graph_def)
  show ?thesis
    using f scc_result_partitions[OF d(2)] solver_inv_cong[OF inv(1) sg(1,2)] objs_ok_cong[OF inv(2) sg] by blast
qed

lemma merged_nodes_ok:
  assumes inv: "solver_inv s" and g: "nodes_ok (consCG s)"
    and t: "coarser (s\<lparr>numOfSCCDetection := c, sccD := d\<rparr>) t"
      "rep_of t = (\<lambda>i. if rep_of s i \<in> set (cnodes (consCG s)) \<and> \<rho> (rep_of s i) \<in> M then \<rho> (rep_of s i) else rep_of s i)"
      "set (cnodes (consCG t)) = set (cnodes (consCG s)) - {x \<in> set (cnodes (consCG s)). \<rho> x \<noteq> x \<and> \<rho> x \<in> M}"
  shows "coarser (s\<lparr>sccD := sccD t\<rparr>) t" "nodes_ok (consCG t)"
proof -
  let ?s1 = "s\<lparr>numOfSCCDetection := c, sccD := d\<rparr>" and ?u = "s\<lparr>sccD := sccD t\<rparr>"
  note c = coarserD[OF t(1)]
  have e: "ptD ?s1 = ptD ?u" "irs ?s1 = irs ?u" "consCG ?s1 = consCG ?u" "rep_of ?s1 = rep_of ?u"
    by (simp_all add: rep_of_def fun_eq_iff)
  show "coarser ?u t"
  proof (rule coarserI)
    show "pts_kept ?u t" "gone_stays ?u t" using c(4,5) unfolding pts_kept_def gone_stays_def e .
    show "rep_of t i = rep_of t j" if "rep_of ?u i = rep_of ?u j" for i j using c(6) that unfolding e by blast
    show "live (consCG t) (rep_of t i)" if "live (consCG ?u) (rep_of ?u i)" for i using c(12) that unfolding e by blast
  qed (use c(1-3,7,9,10,11) in simp_all)
  have o: "oset_inv (cnodes (consCG t))" "oset_inv (cnodes (consCG s))"
    using c(1) inv by (simp_all add: solver_inv_def consg_inv_def)
  have sub: "set (cnodes (consCG t)) \<subseteq> set (cnodes (consCG s))" unfolding t(3) by blast
  have "length (cnodes (consCG t)) \<le> length (cnodes (consCG s))"
    using o card_mono[OF _ sub] by (simp add: oset_inv_def distinct_card)
  moreover have "live (consCG t) n" if n: "n \<in> set (cnodes (consCG t))" for n
  proof (rule live_moved[OF t(1)])
    have "live (consCG s) n" using g sub n unfolding nodes_ok_def by blast
    moreover have "\<rho> n = n \<or> \<rho> n \<notin> M" using n unfolding t(3) by blast
    ultimately show "live (consCG ?s1) n" "rep_of t n = n" using rep_of_live[of s n] by (auto simp: t(2))
  qed
  ultimately show "nodes_ok (consCG t)" using g sub unfolding nodes_ok_def by auto
qed

context merging
begin

lemma SCCDetect_ok:
  assumes inv: "solver_inv s" "objs_ok s" and g: "nodes_ok (consCG s)"
  shows "\<exists>\<rho> t. SCCDetect vt s = Some t \<and> coarser (s\<lparr>sccD := sccD t\<rparr>) t \<and> nodes_ok (consCG t)
    \<and> (\<forall>x \<in> set (cnodes (consCG s)). \<forall>y \<in> set (cnodes (consCG s)). (\<rho> x = \<rho> y) = mutual (directChildren s) x y)
    \<and> (\<forall>i. rep_of s i \<in> set (cnodes (consCG s)) \<longrightarrow> rep_of t i = \<rho> (rep_of s i))
    \<and> partitions (set (cnodes (consCG s))) \<rho> (sccD t)
    \<and> set (cnodes (consCG t)) = set (sT (sccD t))"
proof -
  let ?N = "set (cnodes (consCG s))"
  let ?c = "u32 (numOfSCCDetection s + 1)"
  obtain d where f: "findSCCs (s\<lparr>numOfSCCDetection := ?c\<rparr>) = Some (s\<lparr>numOfSCCDetection := ?c, sccD := d\<rparr>)"
      and P: "partitions ?N (sRep d) d" "\<forall>x \<in> ?N. \<forall>y \<in> ?N. (sRep d x = sRep d y) = mutual (directChildren s) x y"
      and i1: "solver_inv (s\<lparr>numOfSCCDetection := ?c, sccD := d\<rparr>)" "objs_ok (s\<lparr>numOfSCCDetection := ?c, sccD := d\<rparr>)"
    using findSCCs_ok[OF inv g, of ?c] by blast
  let ?s1 = "s\<lparr>numOfSCCDetection := ?c, sccD := d\<rparr>"
  have r1: "rep_of ?s1 = rep_of s" "consCG ?s1 = consCG s" by (simp_all add: rep_of_def fun_eq_iff)
  have lv: "\<forall>x \<in> ?N. live (consCG ?s1) x" using g by (simp add: nodes_ok_def)
  have P1: "partitions ?N (sRep d) (sccD ?s1)" using P(1) by simp
  obtain t where t: "mergeSccCycle vt ?s1 = Some t" "coarser ?s1 t"
      "rep_of t = (\<lambda>i. if rep_of s i \<in> ?N then sRep d (rep_of s i) else rep_of s i)"
      "set (cnodes (consCG t)) = ?N - {x \<in> ?N. sRep d x \<noteq> x}"
    using mergeSccCycle_ok[OF i1 lv P1] unfolding r1 by blast
  have dt: "sccD t = d" using coarserD(8)[OF t(2)] by simp
  have "set (cnodes (consCG t)) = set (sT (sccD t))" using P(1) unfolding t(4) dt partitions_def by blast
  then show ?thesis
    using f t(1,3) P dt merged_nodes_ok[OF inv(1) g t(2), of "sRep d" UNIV] t(4)
    by (intro exI[of _ "sRep d"] exI[of _ t]) (simp add: SCCDetect_def)
qed

end

section \<open>Draining the worklist\<close>

declare isPointer.simps [simp del]

text \<open>A step of \<^verbatim>\<open>postProcessNode\<close>: it adds copy edges and pushes nothing.\<close>

definition wstep :: "'a ander_scheme \<Rightarrow> 'a ander_scheme \<Rightarrow> bool" where
  "wstep s t \<longleftrightarrow> ls_step s t \<and> wlist t = wlist s"

lemma wstep_refl: "diff_inv s \<Longrightarrow> wstep s s"
  by (simp add: wstep_def ls_step_refl)

lemma wstep_trans: "wstep s t \<Longrightarrow> wstep t u \<Longrightarrow> wstep s u"
  unfolding wstep_def using ls_step_trans by fastforce

lemma wstep_linked: "wstep s t \<Longrightarrow> linked s a b \<Longrightarrow> linked t a b"
  unfolding wstep_def using ls_step_linked by blast

lemma wstep_untracked: "wstep s t \<Longrightarrow> untracked a b t = untracked a b s"
  unfolding wstep_def using untracked_step by blast

lemma wstep_getPts: "wstep s t \<Longrightarrow> getPts t n = getPts s n"
  unfolding wstep_def ls_step_def getPts_def dd_getPts_def rep_of_def using same_nodes_rep by fastforce

lemma wstep_reanalyze [simp]: "wstep s (t\<lparr>reanalyze := b\<rparr>) = wstep s t"
  by (simp add: wstep_def ls_step_def diff_inv_def propagated_def propa_le_def)

lemma linked_reanalyze [simp]:
  "linked (t\<lparr>reanalyze := b\<rparr>) = linked t" "untracked x y (t\<lparr>reanalyze := b\<rparr>) = untracked x y t"
  by (simp_all add: linked_def untracked_def rep_of_def fun_eq_iff)

definition drain_ok :: "'a ander_scheme \<Rightarrow> bool" where
  "drain_ok s \<longleftrightarrow> diff_inv s \<and> objs_ok s \<and> (\<forall>n \<in> set (cnodes (consCG s)). live (consCG s) n \<and> isPointer n (irs s) \<noteq> None)"

lemma drain_ok_step: "wstep s t \<Longrightarrow> drain_ok s \<Longrightarrow> drain_ok t"
proof -
  assume w: "wstep s t" and d: "drain_ok s"
  have e: "same_nodes (consCG s) (consCG t)" "irs t = irs s" "mutPTData (ptD t) = mutPTData (ptD s)" "diff_inv t"
    using w by (auto simp: wstep_def ls_step_def)
  have r: "rep_of t = rep_of s" "live (consCG t) = live (consCG s)" "cnodes (consCG t) = cnodes (consCG s)"
    using e(1) same_nodes_rep same_nodes_live by (auto simp: rep_of_def fun_eq_iff same_nodes_def)
  have p: "dd_getPts (ptD t) = dd_getPts (ptD s)" using e(3) by (simp add: dd_getPts_def fun_eq_iff)
  show "drain_ok t" using d e(4) unfolding drain_ok_def objs_ok_def r p e(2) by blast
qed

lemma addCopyEdge_ok:
  assumes "diff_inv s" "live (consCG s) (rep_of s a)" "live (consCG s) (rep_of s b)"
  shows "\<exists>c t. addCopyEdge a b s = Some (c, t) \<and> wstep s t \<and> linked t a b"
proof -
  have "getConstraintNode a (consCG s) = Some (rep_of s a)" "getConstraintNode b (consCG s) = Some (rep_of s b)"
    using assms(2,3) by (simp_all add: getConstraintNode_def Let_def rep_of_def live_def)
  then have "\<exists>c t. addCopyEdge a b s = Some (c, t)"
    by (cases "hasEdge Copy (rep_of s a) (rep_of s b) (consCG s) \<or> rep_of s a = rep_of s b")
      (auto simp: addCopyEdge_def addCopyCGEdge_def Let_def)
  then obtain c t where t: "addCopyEdge a b s = Some (c, t)" by blast
  then show ?thesis
    using addCopyEdge_step[OF t assms(1)] addCopyEdge_Some[OF assms(1) t] by (auto simp: wstep_def)
qed

lemma isConstantObj_Some: "getBaseObject i p = Some b \<Longrightarrow> \<exists>c. isConstantObj i p = Some c"
  using getBaseObject_Some[of i p b] by (auto simp: isConstantObj_def isBaseObj_def)

lemma processLoad_ok:
  assumes s: "drain_ok s" and o1: "getBaseObject o1 (irs s) = Some b" and e: "e \<in> set (cedges (consCG s))"
  shows "\<exists>c t. processLoad o1 e s = Some (c, t) \<and> wstep s t \<and> (untracked o1 (edst e) t \<or> linked t o1 (edst e))"
proof -
  let ?s = "s\<lparr>numOfProcessedLoad := u32 (numOfProcessedLoad s + 1)\<rparr>"
  have l: "live (consCG s) (edst e)" using consg_inv_ends[OF _ e] s by (simp add: drain_ok_def diff_inv_def)
  obtain c where c: "isConstantObj o1 (irs s) = Some c" using isConstantObj_Some[OF o1] by blast
  obtain p where p: "isPointer (edst e) (irs s) = Some p" using s l unfolding drain_ok_def live_def by blast
  have a: "diff_inv ?s" "live (consCG ?s) (rep_of ?s o1)" "live (consCG ?s) (rep_of ?s (edst e))"
    using s o1 l rep_of_live[OF l] by (auto simp: drain_ok_def objs_ok_def)
  obtain c' t where t: "addCopyEdge o1 (edst e) ?s = Some (c', t)" "wstep ?s t" "linked t o1 (edst e)"
    using addCopyEdge_ok[OF a] by blast
  have "wstep s ?s" using a(1) by (simp add: wstep_def ls_step_def)
  then have w: "wstep s t" using t(2) by (rule wstep_trans)
  have r: "wstep s s" using s by (simp add: wstep_refl drain_ok_def)
  show ?thesis
  proof (cases "c \<or> \<not> p")
    case True
    then have "processLoad o1 e s = Some (False, s)" using c p by (cases c) (simp_all add: processLoad_def)
    moreover have "untracked o1 (edst e) s" using True c p by (auto simp: untracked_def)
    ultimately show ?thesis using r by blast
  next
    case False
    then have "processLoad o1 e s = Some (c', t)" using c p t(1) by (simp add: processLoad_def)
    then show ?thesis using w t(3) by blast
  qed
qed

lemma processStore_ok:
  assumes s: "drain_ok s" and o1: "getBaseObject o1 (irs s) = Some b" and e: "e \<in> set (cedges (consCG s))"
  shows "\<exists>c t. processStore o1 e s = Some (c, t) \<and> wstep s t \<and> (untracked o1 (esrc e) t \<or> linked t (esrc e) o1)"
proof -
  let ?s = "s\<lparr>numOfProcessedStore := u32 (numOfProcessedStore s + 1)\<rparr>"
  have l: "live (consCG s) (esrc e)" using consg_inv_ends[OF _ e] s by (simp add: drain_ok_def diff_inv_def)
  obtain c where c: "isConstantObj o1 (irs s) = Some c" using isConstantObj_Some[OF o1] by blast
  obtain p where p: "isPointer (esrc e) (irs s) = Some p" using s l unfolding drain_ok_def live_def by blast
  have a: "diff_inv ?s" "live (consCG ?s) (rep_of ?s (esrc e))" "live (consCG ?s) (rep_of ?s o1)"
    using s o1 l rep_of_live[OF l] by (auto simp: drain_ok_def objs_ok_def)
  obtain c' t where t: "addCopyEdge (esrc e) o1 ?s = Some (c', t)" "wstep ?s t" "linked t (esrc e) o1"
    using addCopyEdge_ok[OF a] by blast
  have "wstep s ?s" using a(1) by (simp add: wstep_def ls_step_def)
  then have w: "wstep s t" using t(2) by (rule wstep_trans)
  have r: "wstep s s" using s by (simp add: wstep_refl drain_ok_def)
  show ?thesis
  proof (cases "c \<or> \<not> p")
    case True
    then have "processStore o1 e s = Some (False, s)" using c p by (cases c) (simp_all add: processStore_def)
    moreover have "untracked o1 (esrc e) s" using True c p by (auto simp: untracked_def)
    ultimately show ?thesis using r by blast
  next
    case False
    then have "processStore o1 e s = Some (c', t)" using c p t(1) by (simp add: processStore_def)
    then show ?thesis using w t(3) by blast
  qed
qed

text \<open>A loop of total steps, each of which establishes something that later steps keep.\<close>

lemma wstep_loop:
  assumes s: "diff_inv s"
    and f: "\<And>x u. x \<in> set xs \<Longrightarrow> wstep s u \<Longrightarrow> \<exists>u'. f x u = Some u' \<and> wstep u u' \<and> P x u'"
    and mono: "\<And>x u u'. wstep u u' \<Longrightarrow> P x u \<Longrightarrow> P x u'"
  shows "\<exists>t. foldO f xs s = Some t \<and> wstep s t \<and> (\<forall>x \<in> set xs. P x t)"
proof -
  have "\<exists>t. foldO f ys u = Some t \<and> wstep s t \<and> (\<forall>x \<in> set (zs @ ys). P x t)"
    if "set ys \<subseteq> set xs" "wstep s u" "\<forall>x \<in> set zs. P x u" for ys zs u
    using that
  proof (induction ys arbitrary: zs u)
    case (Cons y ys)
    obtain u' where u': "f y u = Some u'" "wstep u u'" "P y u'" using f[of y u] Cons.prems(1,2) by auto
    have "\<forall>x \<in> set (zs @ [y]). P x u'" using mono[OF u'(2)] Cons.prems(3) u'(3) by auto
    moreover have "wstep s u'" using Cons.prems(2) u'(2) by (rule wstep_trans)
    ultimately obtain t where "foldO f ys u' = Some t" "wstep s t" "\<forall>x \<in> set ((zs @ [y]) @ ys). P x t"
      using Cons.IH[of u' "zs @ [y]"] Cons.prems(1) by auto
    then show ?case using u'(1) by auto
  qed auto
  from this[of xs s "[]"] show ?thesis using wstep_refl[OF s] by simp
qed

lemma wd_handleEdge_ok:
  assumes s: "drain_ok s" and e: "e \<in> set (cedges (consCG s))"
    and f: "\<And>o1 b u. drain_ok u \<Longrightarrow> getBaseObject o1 (irs u) = Some b \<Longrightarrow> e \<in> set (cedges (consCG u)) \<Longrightarrow>
      \<exists>c t. f o1 e u = Some (c, t) \<and> wstep u t \<and> (untracked o1 v t \<or> linked t (x o1) (y o1))"
  shows "\<exists>t. wd_handleEdge f n e s = Some t \<and> wstep s t
    \<and> (\<forall>o1 \<in> set (getPts s n). untracked o1 v t \<or> linked t (x o1) (y o1))"
proof -
  let ?body = "\<lambda>o1 (changed, t). map_option (\<lambda>(c, t'). (changed \<or> c, t')) (f o1 e t)"
  let ?P = "\<lambda>o1 t. untracked o1 v t \<or> linked t (x o1) (y o1)"
  have "\<exists>c t. foldO ?body os (c0, u) = Some (c, t) \<and> wstep u t \<and> (\<forall>o1 \<in> set os. ?P o1 t)"
    if "drain_ok u" "e \<in> set (cedges (consCG u))" "\<forall>o1 \<in> set os. getBaseObject o1 (irs u) \<noteq> None" for os c0 u
    using that
  proof (induction os arbitrary: c0 u)
    case Nil
    then show ?case by (simp add: wstep_refl drain_ok_def)
  next
    case (Cons o1 os)
    obtain b where b: "getBaseObject o1 (irs u) = Some b" using Cons.prems(3) by auto
    obtain c u' where u': "f o1 e u = Some (c, u')" "wstep u u'" "?P o1 u'" using f[OF Cons.prems(1) b Cons.prems(2)] by blast
    have d: "drain_ok u'" using drain_ok_step[OF u'(2) Cons.prems(1)] .
    have "e \<in> set (cedges (consCG u'))" "\<forall>o1 \<in> set os. getBaseObject o1 (irs u') \<noteq> None"
      using u'(2) Cons.prems(2,3) by (auto simp: wstep_def ls_step_def)
    then obtain c2 t where t: "foldO ?body os (c0 \<or> c, u') = Some (c2, t)" "wstep u' t" "\<forall>o1 \<in> set os. ?P o1 t"
      using Cons.IH[OF d] by blast
    have "?P o1 t" using u'(3) wstep_linked[OF t(2)] wstep_untracked[OF t(2)] by blast
    moreover have "wstep u t" using u'(2) t(2) by (rule wstep_trans)
    ultimately show ?case using u'(1) t(1,3) by simp
  qed
  moreover have "\<forall>o1 \<in> set (getPts s n). getBaseObject o1 (irs s) \<noteq> None"
    using s unfolding drain_ok_def objs_ok_def getPts_def by blast
  ultimately obtain c t where "foldO ?body (getPts s n) (False, s) = Some (c, t)" "wstep s t" "\<forall>o1 \<in> set (getPts s n). ?P o1 t"
    using s e by blast
  then show ?thesis by (auto simp: wd_handleEdge_def wd_handle_def)
qed

text \<open>\<^verbatim>\<open>postProcessNode\<close> never fails and satisfies the loads and stores at the node.\<close>

lemma wd_postProcessNode_ok:
  assumes s: "drain_ok s" and n: "live (consCG s) n"
  shows "\<exists>t. wd_postProcessNode andersen_methods n s = Some t \<and> wstep s t \<and> loads_done n (set (getPts s n)) s t"
proof -
  let ?PL = "\<lambda>e t. \<forall>o1 \<in> set (getPts s n). untracked o1 (edst e) t \<or> linked t o1 (edst e)"
  let ?PS = "\<lambda>e t. \<forall>o1 \<in> set (getPts s n). untracked o1 (esrc e) t \<or> linked t (esrc e) o1"
  have mono: "wstep u u' \<Longrightarrow> ?PL e u \<Longrightarrow> ?PL e u'" "wstep u u' \<Longrightarrow> ?PS e u \<Longrightarrow> ?PS e u'" for u u' and e :: cedge
    using wstep_linked[of u u'] wstep_untracked[of u u'] by blast+
  have inv: "diff_inv s" using s by (simp add: drain_ok_def)
  have "\<exists>u. foldO (wd_handleEdge processLoad n) (getLoadOutEdges n (consCG s)) s = Some u \<and> wstep s u
      \<and> (\<forall>e \<in> set (getLoadOutEdges n (consCG s)). ?PL e u)"
  proof (rule wstep_loop[OF inv])
    fix e u assume e: "e \<in> set (getLoadOutEdges n (consCG s))" and u: "wstep s u"
    have "e \<in> set (cedges (consCG u))" using e u by (auto simp: set_getLoadOutEdges wstep_def ls_step_def)
    from wd_handleEdge_ok[where f = processLoad and v = "edst e" and x = "\<lambda>o1. o1" and y = "\<lambda>_. edst e" and n = n,
        OF drain_ok_step[OF u s] this] processLoad_ok
    show "\<exists>u'. wd_handleEdge processLoad n e u = Some u' \<and> wstep u u' \<and> ?PL e u'"
      unfolding wstep_getPts[OF u] by blast
  qed (rule mono)
  then obtain u where u: "foldO (wd_handleEdge processLoad n) (getLoadOutEdges n (consCG s)) s = Some u" "wstep s u"
      "\<forall>e \<in> set (getLoadOutEdges n (consCG s)). ?PL e u" by blast
  have "diff_inv u" using u(2) by (simp add: wstep_def ls_step_def)
  then have "\<exists>t. foldO (wd_handleEdge processStore n) (getStoreInEdges n (consCG u)) u = Some t \<and> wstep u t
      \<and> (\<forall>e \<in> set (getStoreInEdges n (consCG u)). ?PS e t)"
  proof (rule wstep_loop)
    fix e v assume e: "e \<in> set (getStoreInEdges n (consCG u))" and v: "wstep u v"
    have sv: "wstep s v" using u(2) v by (rule wstep_trans)
    have "e \<in> set (cedges (consCG v))" using e v by (auto simp: set_getStoreInEdges wstep_def ls_step_def)
    from wd_handleEdge_ok[where f = processStore and v = "esrc e" and x = "\<lambda>_. esrc e" and y = "\<lambda>o1. o1" and n = n,
        OF drain_ok_step[OF sv s] this] processStore_ok
    show "\<exists>u'. wd_handleEdge processStore n e v = Some u' \<and> wstep v u' \<and> ?PS e u'"
      unfolding wstep_getPts[OF sv] by blast
  qed (rule mono)
  then obtain t where t: "foldO (wd_handleEdge processStore n) (getStoreInEdges n (consCG u)) u = Some t" "wstep u t"
      "\<forall>e \<in> set (getStoreInEdges n (consCG u)). ?PS e t" by blast
  have st: "wstep s t" using u(2) t(2) by (rule wstep_trans)
  have "wd_postProcessNode andersen_methods n s = Some t"
    using live_getConstraintNode[OF n] u(1) t(1) by (simp add: wd_postProcessNode_def andersen_methods_def)
  moreover have "loads_done n (set (getPts s n)) s t"
  proof -
    have "set (getStoreInEdges n (consCG s)) \<subseteq> set (getStoreInEdges n (consCG u))"
      using u(2) by (auto simp: set_getStoreInEdges wstep_def ls_step_def)
    then show ?thesis
      using u(3) t(3) mono(1)[OF t(2)] wstep_untracked[OF st] unfolding loads_done_def by blast
  qed
  ultimately show ?thesis using st by blast
qed

lemma isWorklistEmpty_iff: "isWorklistEmpty s \<longleftrightarrow> data_list (wlist s) = []"
  by (simp add: isWorklistEmpty_def fifo_empty_def)

lemma drain_wlist [simp]: "drain_ok (s\<lparr>wlist := w\<rparr>) = drain_ok s" "diff_inv (s\<lparr>wlist := w\<rparr>) = diff_inv s"
  "linked (s\<lparr>wlist := w\<rparr>) = linked s" "getPts (s\<lparr>wlist := w\<rparr>) = getPts s" "untracked a b (s\<lparr>wlist := w\<rparr>) = untracked a b s"
  by (simp_all add: drain_ok_def diff_inv_def propagated_def propa_le_def objs_ok_def linked_def untracked_def
      getPts_def rep_of_def fun_eq_iff)

lemma drain:
  assumes "drain_ok s" "fifo_inv (wlist s)" "length (data_list (wlist s)) \<le> k"
    "\<forall>n \<in> set (data_list (wlist s)). live (consCG s) (rep_of s n)"
  shows "\<exists>t. worklistLoop k (wd_postProcessNode andersen_methods) s = Some t \<and> isWorklistEmpty t \<and> ls_step s t
    \<and> (\<forall>n \<in> set (data_list (wlist s)). loads_done (rep_of s n) (set (getPts s n)) s t)"
  using assms
proof (induction k arbitrary: s)
  case 0
  then show ?case by (simp add: isWorklistEmpty_iff ls_step_refl drain_ok_def)
next
  case (Suc k)
  show ?case
  proof (cases "data_list (wlist s)")
    case Nil
    then show ?thesis using Suc.prems(1) by (simp add: isWorklistEmpty_iff ls_step_refl drain_ok_def)
  next
    case (Cons d ds)
    then obtain w where w: "fifo_pop (wlist s) = Some (d, w)" by (simp add: fifo_pop_def)
    have dw: "data_list w = ds" "fifo_inv w" using fifo_pop_Some[OF Suc.prems(2) w] Cons by simp_all
    let ?s = "s\<lparr>wlist := w\<rparr>"
    have pop: "popFromWorklist s = Some (rep_of s d, ?s)" using w by (simp add: popFromWorklist_def)
    have ok: "drain_ok ?s" "live (consCG ?s) (rep_of s d)" using Suc.prems(1,4) Cons by simp_all
    obtain u where u: "wd_postProcessNode andersen_methods (rep_of s d) ?s = Some u" "wstep ?s u"
        "loads_done (rep_of s d) (set (getPts ?s (rep_of s d))) ?s u"
      using wd_postProcessNode_ok[OF ok] by blast
    have wl: "wlist u = w" using u(2) by (simp add: wstep_def)
    have su: "ls_step s u" using u(2) by (simp add: wstep_def ls_step_def)
    have rep: "rep_of u = rep_of s" "live (consCG u) = live (consCG s)"
      using su same_nodes_rep same_nodes_live by (auto simp: ls_step_def rep_of_def fun_eq_iff)
    have gp: "getPts u = getPts s" using wstep_getPts[OF u(2)] by (simp add: fun_eq_iff)
    have "rep_of s (rep_of s d) = rep_of s d" using ok(2) rep_of_live[of ?s "rep_of s d"] by simp
    then have "getPts s (rep_of s d) = getPts s d" by (simp add: getPts_def)
    then have ld: "loads_done (rep_of s d) (set (getPts s d)) s u" using u(3) by (simp add: loads_done_def)
    have p: "fifo_inv (wlist u)" "length (data_list (wlist u)) \<le> k"
      "\<forall>n \<in> set (data_list (wlist u)). live (consCG u) (rep_of u n)"
      using Suc.prems(3,4) Cons dw wl rep by auto
    obtain t where t: "worklistLoop k (wd_postProcessNode andersen_methods) u = Some t" "isWorklistEmpty t" "ls_step u t"
        "\<forall>n \<in> set ds. loads_done (rep_of u n) (set (getPts u n)) u t"
      using Suc.IH[OF drain_ok_step[OF u(2) ok(1)] p] wl dw(1) by auto
    have "loads_done (rep_of s n) (set (getPts s n)) s t" if "n \<in> set ds" for n
    proof -
      have l: "loads_done (rep_of s n) (set (getPts s n)) u t" using t(4) that unfolding rep gp by blast
      have sub: "set (cedges (consCG s)) \<subseteq> set (cedges (consCG u))" using su by (simp add: ls_step_def)
      have "set (getLoadOutEdges (rep_of s n) (consCG s)) \<subseteq> set (getLoadOutEdges (rep_of s n) (consCG u))"
        "set (getStoreInEdges (rep_of s n) (consCG s)) \<subseteq> set (getStoreInEdges (rep_of s n) (consCG u))"
        using sub by (auto simp: set_getLoadOutEdges set_getStoreInEdges)
      then show ?thesis using l untracked_step[OF su] unfolding loads_done_def by blast
    qed
    moreover have "loads_done (rep_of s d) (set (getPts s d)) s t"
      using loads_done_mono[OF ld] ls_step_linked[OF t(3)] by blast
    moreover have "ls_step s t" using su t(3) by (rule ls_step_trans)
    moreover have "worklistLoop (Suc k) (wd_postProcessNode andersen_methods) s = Some t"
      using pop u(1) t(1) Cons by (simp add: isWorklistEmpty_iff)
    ultimately show ?thesis using t(2) Cons by auto
  qed
qed

section \<open>The class Andersen\<close>

interpretation andersen: merging andersen_methods
  by unfold_locales (simp_all add: andersen_methods_def mergeSrcToTgt_merged, simp add: mergeSrcToTgt_def)

section \<open>Properties\<close>

text \<open>Pointer 10 holds the field 20 of object 4, pointer 11 the object itself; the field is copied to node 12.\<close>

definition demo_field_pag :: pag where
  "demo_field_pag = demo_pag\<lparr>
     svfVars := (svfVars demo_pag)(20 \<mapsto> GepObjVar 4 1, 10 \<mapsto> ValVar True, 11 \<mapsto> ValVar True, 12 \<mapsto> ValVar True),
     gepObjVarMap := (\<lambda>_. None)((4, 1) \<mapsto> 20), memToFields := (\<lambda>_. [])(4 := [4, 20])\<rparr>"

definition demo_fields :: ander where
  "demo_fields = demo_ander\<lparr>irs := demo_field_pag,
     ptD := snd (dd_addPts 11 4 (snd (dd_addPts 10 20 (dd_new True)))),
     consCG := empty_consg\<lparr>cnodes := [4, 10, 11, 12, 20],
       cedges := [\<lparr>ekind = Copy, esrc = 20, edst = 12, edgeId = 0, eguard = None, eap = 0\<rparr>]\<rparr>\<rparr>"

lemma demo_field_base:
  "getBaseObject j demo_field_pag = (if j = 4 \<or> j = 20 then Some 4 else None)"
  by (simp add: getBaseObject_def demo_field_pag_def demo_pag_def addBaseObjNode_def hasGNode_def)

lemma demo_fields_pts: "dd_getPts (ptD demo_fields) = (\<lambda>_. [])(10 := [20], 11 := [4])"
  by (simp add: demo_fields_def dd_addPts_def pt_addPts_def addSingleRevPts_def test_and_set_def dd_new_def
      pt_new_def dd_getPts_def oset_insert_def fun_eq_iff case_prod_beta)

lemma demo_fields_live: "n \<in> {4, 10, 11, 12, 20} \<Longrightarrow> live (consCG demo_fields) n" "rep_of demo_fields n = n"
  by (auto simp: demo_fields_def empty_consg_def live_def sccRepNode_def rep_of_def)

lemma demo_fields_ok: "solver_inv demo_fields" "objs_ok demo_fields"
proof -
  have "ptD demo_fields = snd (dd_addPts 11 4 (snd (dd_addPts 10 20 (dd_new True))))" by (simp add: demo_fields_def)
  moreover have "dd_inv (dd_new True :: (node_id, node_id) diffdata)" by (simp add: dd_inv_def dd_new_def)
  ultimately have "dd_inv (ptD demo_fields)" by (simp add: dd.add_inv)
  moreover have "rev_on (mutPTData (ptD demo_fields))"
    by (simp add: demo_fields_def dd_addPts_def case_prod_beta pt_addPts_union pt_unionPts_simps dd_new_def pt_new_def)
  moreover have "consg_inv (consCG demo_fields)" "scc_ok (consCG demo_fields)"
    by (auto simp: demo_fields_def empty_consg_def consg_inv_def live_def sccRepNode_def oset_inv_def scc_ok_def rep_ok_def)
  ultimately show "solver_inv demo_fields" by (simp add: solver_inv_def)
  have i: "irs demo_fields = demo_field_pag" by (simp add: demo_fields_def)
  have "pag_inv demo_field_pag"
    unfolding pag_inv_def demo_field_base
    by (auto simp: isBaseObj_def demo_field_pag_def demo_pag_def addBaseObjNode_def hasGNode_def oset_inv_def)
  then show "objs_ok demo_fields"
    unfolding objs_ok_def i demo_field_base demo_fields_live(2) using demo_fields_live(1) demo_fields_pts
    by (auto split: if_splits)
qed

text \<open>
  C14: Collapsing an object ends, whatever the cycles between objects and nodes of positive
  weight: one unit of fuel more than there are field-sensitive objects is enough for
  \<^verbatim>\<open>collapseField\<close> and the calls of \<^verbatim>\<open>collapseNodePts\<close> it makes. The object is then
  field-insensitive, its fields are merged into its node and stand in no points-to set, every
  member of a set is still there or has given way to its field-insensitive base, and the graph,
  the sets and the table of objects stay well formed.
\<close>

theorem collapseField_collapses:
  assumes "solver_inv s" "objs_ok s" "finite (sens (irs s))" "card (sens (irs s)) < n"
    and "getBaseObject i (irs s) = Some b" "isBlkObjOrConstantObj i (irs s) = Some False"
  shows "\<exists>c t. collapseField n andersen_methods i s = Some (c, t) \<and> solver_inv t \<and> objs_ok t \<and> pts_kept s t \<and> collapsed b s t"
proof -
  obtain c t where "collapseField n andersen_methods i s = Some (c, t)" "coarser s t" "collapsed b s t"
    using andersen.collapseField_ok[of n] assms unfolding collapses_def by blast
  then show ?thesis using coarserD(1,2,4) by blast
qed

theorem collapseField_collapses_witness:
  "\<exists>c t. collapseField 2 andersen_methods 20 demo_fields = Some (c, t) \<and> 4 \<in> ptsOf t 10 \<and> 20 \<notin> ptsOf t 10
    \<and> rep_of t 20 = rep_of t 4"
proof -
  have i: "irs demo_fields = demo_field_pag" by (simp add: demo_fields_def)
  have s: "sens (irs demo_fields) = {4}"
    by (auto simp: sens_def isBaseObj_def i demo_field_pag_def demo_pag_def addBaseObjNode_def hasGNode_def split: if_splits)
  have b: "getBaseObject 20 (irs demo_fields) = Some 4" unfolding i demo_field_base by simp
  have blk: "isBlkObjOrConstantObj 20 (irs demo_fields) = Some False"
    unfolding isBlkObjOrConstantObj_def isConstantObj_def b
    by (simp add: i isBlkObj_def blackHole_def constantSym_def demo_field_pag_def demo_pag_def addBaseObjNode_def hasGNode_def)
  have "finite (sens (irs demo_fields))" "card (sens (irs demo_fields)) < 2" unfolding s by simp_all
  from collapseField_collapses[OF demo_fields_ok this b blk] obtain c t
    where t: "collapseField 2 andersen_methods 20 demo_fields = Some (c, t)" "pts_kept demo_fields t" "collapsed 4 demo_fields t"
    by blast
  have "rep_of t 20 = rep_of t 4" "20 \<notin> ptsOf t 10" using t(3) b unfolding collapsed_def by auto
  moreover have "20 \<in> ptsOf demo_fields 10" by (simp add: demo_fields_pts)
  then have "4 \<in> ptsOf t 10" using pts_keptD[OF t(2), of 20 10] b calculation(2) by auto
  ultimately show ?thesis using t(1) by blast
qed

text \<open>
  C13: Cycle detection of \<^verbatim>\<open>Andersen\<close> succeeds on a well-formed state and merges exactly the
  cycles: two nodes get the same representative exactly when each reaches the other over the
  edges the detector looks at, the nodes left are the representatives on the detector's stack,
  no member of a points-to set is lost, and the state stays well formed.
\<close>

theorem SCCDetect_merges:
  assumes "solver_inv s" "objs_ok s" "nodes_ok (consCG s)"
  shows "\<exists>t. SCCDetect andersen_methods s = Some t \<and> solver_inv t \<and> objs_ok t \<and> nodes_ok (consCG t)
    \<and> set (cnodes (consCG t)) = set (sT (sccD t)) \<and> pts_kept s t
    \<and> (\<forall>x \<in> set (cnodes (consCG s)). \<forall>y \<in> set (cnodes (consCG s)).
          (rep_of t x = rep_of t y) = mutual (directChildren s) x y)"
proof -
  let ?N = "set (cnodes (consCG s))"
  obtain \<rho> t where t: "SCCDetect andersen_methods s = Some t" "coarser (s\<lparr>sccD := sccD t\<rparr>) t" "nodes_ok (consCG t)"
      "\<forall>x \<in> ?N. \<forall>y \<in> ?N. (\<rho> x = \<rho> y) = mutual (directChildren s) x y"
      "\<forall>i. rep_of s i \<in> ?N \<longrightarrow> rep_of t i = \<rho> (rep_of s i)" "set (cnodes (consCG t)) = set (sT (sccD t))"
    using andersen.SCCDetect_ok[OF assms] by blast
  have "rep_of s x = x" if "x \<in> ?N" for x
    using assms(3) that rep_of_live[of s x] unfolding nodes_ok_def by blast
  then have r: "\<rho> x = rep_of t x" if "x \<in> ?N" for x using t(5) that by metis
  have "(rep_of t x = rep_of t y) = mutual (directChildren s) x y" if "x \<in> ?N" "y \<in> ?N" for x y
    using t(4) that unfolding r[OF that(1), symmetric] r[OF that(2), symmetric] by blast
  moreover have "pts_kept s t" using coarserD(4)[OF t(2)] by (simp add: pts_kept_def)
  ultimately show ?thesis using t(1,3,6) coarserD(1,2)[OF t(2)] by blast
qed

definition demo_cycle :: ander where
  "demo_cycle = demo_fields\<lparr>consCG := (consCG demo_fields)\<lparr>cedges :=
     [\<lparr>ekind = Copy, esrc = 10, edst = 11, edgeId = 0, eguard = None, eap = 0\<rparr>,
      \<lparr>ekind = Copy, esrc = 11, edst = 10, edgeId = 1, eguard = None, eap = 0\<rparr>,
      \<lparr>ekind = Copy, esrc = 11, edst = 12, edgeId = 2, eguard = None, eap = 0\<rparr>]\<rparr>\<rparr>"

lemma demo_cycle_ok: "solver_inv demo_cycle" "objs_ok demo_cycle" "nodes_ok (consCG demo_cycle)"
proof -
  have l: "live (consCG demo_cycle) n = live (consCG demo_fields) n" "rep_of demo_cycle n = rep_of demo_fields n" for n
    by (simp_all add: demo_cycle_def live_def sccRepNode_def rep_of_def)
  have p: "ptD demo_cycle = ptD demo_fields" "irs demo_cycle = irs demo_fields" by (simp_all add: demo_cycle_def)
  have "consg_inv (consCG demo_cycle)"
    unfolding consg_inv_def l
    by (auto simp: demo_cycle_def ekey_def less_prod_def demo_fields_live demo_fields_def empty_consg_def oset_inv_def)
      (auto simp: live_def sccRepNode_def)
  moreover have "scc_ok (consCG demo_cycle)"
    by (simp add: demo_cycle_def demo_fields_def empty_consg_def scc_ok_def rep_ok_def sccRepNode_def)
  ultimately show "solver_inv demo_cycle" using demo_fields_ok(1) unfolding solver_inv_def p by blast
  show "objs_ok demo_cycle" using demo_fields_ok(2) unfolding objs_ok_def l p .
  show "nodes_ok (consCG demo_cycle)"
    unfolding nodes_ok_def l using demo_fields_live(1)
    by (simp add: demo_cycle_def demo_fields_def empty_consg_def UINT_MAX_def)
qed

lemma demo_cycle_children:
  "directChildren demo_cycle n = (if n = 10 then [11] else if n = 11 then [10, 12] else [])"
  by (simp add: directChildren_def directOutEdges_def demo_cycle_def demo_fields_def demo_ander_def getOutEdges_def isdirectEdge_def)

lemma demo_cycle_mutual:
  "mutual (directChildren demo_cycle) 10 11" "\<not> mutual (directChildren demo_cycle) 10 12"
proof -
  have "(10, 11) \<in> edges_of (directChildren demo_cycle)" "(11, 10) \<in> edges_of (directChildren demo_cycle)"
    by (simp_all add: edges_of_def demo_cycle_children)
  then show "mutual (directChildren demo_cycle) 10 11" unfolding mutual_def by blast
  show "\<not> mutual (directChildren demo_cycle) 10 12"
  proof
    assume "mutual (directChildren demo_cycle) 10 12"
    then have "reaches (directChildren demo_cycle) 12 10" by (simp add: mutual_def)
    then have "10 \<in> {12::nat}" by (rule closed_reaches) (auto simp: demo_cycle_children)
    then show False by simp
  qed
qed

theorem SCCDetect_merges_witness:
  "\<exists>t. SCCDetect andersen_methods demo_cycle = Some t \<and> rep_of t 10 = rep_of t 11 \<and> rep_of t 10 \<noteq> rep_of t 12"
proof -
  have m: "10 \<in> set (cnodes (consCG demo_cycle))" "11 \<in> set (cnodes (consCG demo_cycle))" "12 \<in> set (cnodes (consCG demo_cycle))"
    by (simp_all add: demo_cycle_def demo_fields_def)
  then show ?thesis using SCCDetect_merges[OF demo_cycle_ok] demo_cycle_mutual by blast
qed

text \<open>
  C15: The second loop of the wave propagation ends: \<^verbatim>\<open>postProcessNode\<close> never fails on a
  well-formed state and pushes nothing, so that as many rounds as the worklist has members are
  enough. Afterwards the worklist is empty, and for every node that was in it each object its
  representative points to has the copy edge that each load and store there asks for.
\<close>

theorem wd_worklist_drains:
  assumes "drain_ok s" "fifo_inv (wlist s)" "length (data_list (wlist s)) \<le> k"
    and "\<forall>n \<in> set (data_list (wlist s)). live (consCG s) (rep_of s n)"
  shows "\<exists>t. worklistLoop k (wd_postProcessNode andersen_methods) s = Some t \<and> isWorklistEmpty t \<and> diff_inv t
    \<and> (\<forall>n \<in> set (data_list (wlist s)). loads_done (rep_of s n) (set (getPts s n)) s t)"
  using drain[OF assms] by (auto simp: ls_step_def)

theorem wd_worklist_drains_witness:
  "\<exists>t. worklistLoop 1 (wd_postProcessNode andersen_methods) (pushIntoWorklist 10 demo_ander) = Some t \<and> linked t 4 12"
proof -
  let ?s = "pushIntoWorklist 10 demo_ander"
  have r: "rep_of demo_ander n = n" for n by (simp add: rep_of_def demo_ander_def empty_consg_def sccRepNode_def)
  have w: "data_list (wlist ?s) = [10]" "fifo_inv (wlist ?s)"
    using r[of 10] by (simp_all add: demo_ander_def fifo_push_def fifo_new_def fifo_find_def fifo_inv_def)
  have l: "live (consCG demo_ander) n" if "n \<in> {4, 10, 11, 12}" for n
    using that by (auto simp: demo_ander_def empty_consg_def live_def sccRepNode_def)
  have b: "getBaseObject j (irs demo_ander) = (if j = 4 then Some 4 else None)" for j
    by (simp add: getBaseObject_def demo_ander_def demo_pag_def addBaseObjNode_def hasGNode_def)
  have "pag_inv (irs demo_ander)"
    unfolding pag_inv_def b by (auto simp: isBaseObj_def demo_ander_def demo_pag_def addBaseObjNode_def hasGNode_def oset_insert_def)
  then have "objs_ok demo_ander"
    unfolding objs_ok_def b r using l demo_ander_pts(1) by (auto split: if_splits)
  moreover have "\<forall>n \<in> set (cnodes (consCG demo_ander)). live (consCG demo_ander) n \<and> isPointer n (irs demo_ander) \<noteq> None"
    using l by (auto simp: demo_ander_def demo_pag_def addBaseObjNode_def hasGNode_def isPointer.simps)
  ultimately have d: "drain_ok ?s" using demo_ander_inv
    by (simp add: drain_ok_def objs_ok_def)
  have "\<forall>n \<in> set (data_list (wlist ?s)). live (consCG ?s) (rep_of ?s n)" using w l r by simp
  then obtain t where t: "worklistLoop 1 (wd_postProcessNode andersen_methods) ?s = Some t"
      "\<forall>n \<in> set (data_list (wlist ?s)). loads_done (rep_of ?s n) (set (getPts ?s n)) ?s t"
    using wd_worklist_drains[OF d w(2), of 1] w(1) by auto
  have ld: "loads_done 10 (set (getPts demo_ander 10)) ?s t" using t(2) w(1) r by simp
  have e: "\<lparr>ekind = Load, esrc = 10, edst = 12, edgeId = 1, eguard = None, eap = 0\<rparr> \<in> set (getLoadOutEdges 10 (consCG ?s))"
    by (simp add: set_getLoadOutEdges demo_ander_def)
  have o4: "4 \<in> set (getPts demo_ander 10)" by (simp add: getPts_def r demo_ander_pts)
  have "\<not> untracked 4 12 ?s"
    by (simp add: untracked_def isConstantObj_def isPointer.simps getBaseObject_def demo_ander_def demo_pag_def
        addBaseObjNode_def hasGNode_def constantSym_def)
  then have "linked t 4 12" using ld e o4 unfolding loads_done_def by fastforce
  then show ?thesis using t(1) by blast
qed

end
