(* ===== verification/CondAndersen.thy ===== *)
theory CondAndersen
  imports Andersen PathCond_Store FastGuard
begin

text \<open>
  \<^verbatim>\<open>src/SVF/svf/include/WPA/ConditionalAndersen.h\<close> and
  \<^verbatim>\<open>src/SVF/svf/lib/WPA/ConditionalAndersen.cpp\<close>: Andersen's analysis with a path condition
  on edges and on the members of points-to sets.

  The state extends \<open>ander\<close> with the condition store (\<open>pst\<close>), the conditional sets and the
  options. A member of a set without an entry in \<open>condPtsMap\<close> has the guard True. The hash
  maps are association lists in iteration order. The range-based loops of \<^verbatim>\<open>processCopy\<close> and
  \<^verbatim>\<open>processGep\<close> run over the entry of the source while the entry of the target changes; the
  model runs over the entry as it was before the loop, which is the same thing unless a field
  edge leads from a node to itself.

  Z3 is the parameter \<open>z3\<close>: whether the solver does not answer \<^verbatim>\<open>unsat\<close> on the expression
  that \<^verbatim>\<open>pathCondToZ3\<close> builds. Clocks, dumps and the random sampling of queries are not
  modelled.
\<close>

section \<open>State\<close>

datatype cond_edge_kind = CondCopy | CondLoad | CondStore | CondGep

type_synonym cond_pts = "(node_id \<times> pathcond) list"

record cander = ander +
  pst :: pstore
  condPtsMap :: "(node_id \<times> cond_pts) list"
  edgeGuards :: "((node_id \<times> node_id \<times> cond_edge_kind) \<times> pathcond) list"
  conjCappedGuards :: "nat set"
  kLimit :: int
  eagerSat :: bool
  useFastGuard :: bool
  useDepthLimit :: bool
  mLimit :: nat
  nLimit :: nat
  mergeCondSCC :: bool
  numZ3SatChecks :: nat
  numAliasRefined :: nat
  numAliasRefinedToNoAlias :: nat
  numAliasTotal :: nat
  numCondPtsEntries :: nat
  numEagerSatCuts :: nat

text \<open>An operation of the condition store, run on the store of the state.\<close>

definition onStore :: "(pstore \<Rightarrow> 'r \<times> pstore) \<Rightarrow> 'a cander_scheme \<Rightarrow> 'r \<times> 'a cander_scheme" where
  "onStore f s = (case f (pst s) of (r, p) \<Rightarrow> (r, s\<lparr>pst := p\<rparr>))"

text \<open>A guard that is a null pointer stands for True.\<close>

definition guardOrTrue :: "pathcond option \<Rightarrow> pathcond" where
  "guardOrTrue g = (case g of None \<Rightarrow> getTrue | Some p \<Rightarrow> p)"

definition isConjCapped :: "pathcond \<Rightarrow> 'a cander_scheme \<Rightarrow> bool" where
  "isConjCapped cond s \<longleftrightarrow> caddr cond \<in> conjCappedGuards s"

section \<open>Limits\<close>

definition extractAndChain :: "pathcond \<Rightarrow> pathcond list" where
  "extractAndChain cond = (if isPureAndChain cond then extractAndLeaves cond [] else [])"

definition buildAndChain :: "pathcond list \<Rightarrow> pstore \<Rightarrow> pathcond \<times> pstore" where
  "buildAndChain literals p =
     (case literals of
        [] \<Rightarrow> (getTrue, p)
      | l # ls \<Rightarrow> fold (\<lambda>lit (result, q). getAnd result lit q) ls (l, p))"

definition countClauses :: "pathcond \<Rightarrow> 'a cander_scheme \<Rightarrow> nat \<times> 'a cander_scheme" where
  "countClauses cond s =
     (if isCapped cond then (u32 (nLimit s + 1), s)
      else if isTrue cond \<or> isFalse cond \<or> isAtom cond then (1, s)
      else onStore (clauseCount cond (u32 (nLimit s + 1))) s)"

text \<open>The scan from the right that keeps the last occurrence of every literal.\<close>

definition dedupLits :: "pathcond list \<Rightarrow> pathcond list" where
  "dedupLits leaves =
     rev (snd (fold (\<lambda>l (seen, dedup).
       if litOf l \<in> seen then (seen, dedup) else (insert (litOf l) seen, dedup @ [l])) (rev leaves) ({}, [])))"

definition truncateChain :: "pathcond \<Rightarrow> 'a cander_scheme \<Rightarrow> pathcond \<times> 'a cander_scheme" where
  "truncateChain cond s =
     (if mLimit s > 0 \<and> isPureAndChain cond
      then let dedup = dedupLits (extractAndLeaves cond []) in
        if length dedup > mLimit s
        then let (result, s1) = onStore (buildAndChain (drop (length dedup - mLimit s) dedup)) s
             in (result, s1\<lparr>conjCappedGuards := insert (caddr result) (conjCappedGuards s1)\<rparr>)
        else (cond, s)
      else (cond, s))"

definition applyLimits :: "pathcond \<Rightarrow> 'a cander_scheme \<Rightarrow> pathcond \<times> 'a cander_scheme" where
  "applyLimits cond s =
     (if kLimit s = 0 then (getTrue, s)
      else if useDepthLimit s then
        (if kLimit s = -1 then (cond, s)
         else let (d, s1) = onStore (depthM cond) s in
           if d \<le> nat (kLimit s mod 2 ^ 32) then (cond, s1) else (getTrue, s1))
      else
        let (result, s1) = truncateChain cond s in
        if nLimit s1 > 0
        then let (clauses, s2) = countClauses result s1 in
             (if clauses > nLimit s2 then getCappedTrue else result, s2)
        else (result, s1))"

section \<open>Satisfiability\<close>

fun pathCondToZ3 :: "pathcond \<Rightarrow> bform" where
  "pathCondToZ3 (TrueC _ _) = BTrue"
| "pathCondToZ3 (FalseC _) = BFalse"
| "pathCondToZ3 (AtomC _ b t) = BAtom b t"
| "pathCondToZ3 (AndC _ l r) = BAnd (pathCondToZ3 l) (pathCondToZ3 r)"
| "pathCondToZ3 (OrC _ l r) = BOr (pathCondToZ3 l) (pathCondToZ3 r)"

definition z3IsSat :: "(bform \<Rightarrow> bool) \<Rightarrow> pathcond \<Rightarrow> 'a cander_scheme \<Rightarrow> bool \<times> 'a cander_scheme" where
  "z3IsSat z3 cond s =
     (if isTrue cond then True
      else if isFalse cond then False
      else if useFastGuard s then isSat (fromPathCond cond)
      else z3 (pathCondToZ3 cond),
      s\<lparr>numZ3SatChecks := u32 (numZ3SatChecks s + 1)\<rparr>)"

section \<open>Conditional sets\<close>

definition condEntry :: "node_id \<Rightarrow> 'a cander_scheme \<Rightarrow> cond_pts" where
  "condEntry n s = (case map_of (condPtsMap s) n of None \<Rightarrow> [] | Some m \<Rightarrow> m)"

definition getCondPts :: "node_id \<Rightarrow> 'a cander_scheme \<Rightarrow> cond_pts" where
  "getCondPts n s = condEntry (rep_of s n) s"

definition eraseCondPts :: "node_id \<Rightarrow> node_id \<Rightarrow> 'a cander_scheme \<Rightarrow> 'a cander_scheme" where
  "eraseCondPts var obj s =
     (case map_of (condPtsMap s) var of
        None \<Rightarrow> s
      | Some m \<Rightarrow>
          let m' = AList.delete obj m in
          if m' = [] then s\<lparr>condPtsMap := AList.delete var (condPtsMap s)\<rparr>
          else s\<lparr>condPtsMap := AList.update var m' (condPtsMap s)\<rparr>)"

definition setCondPts :: "node_id \<Rightarrow> node_id \<Rightarrow> pathcond \<Rightarrow> 'a cander_scheme \<Rightarrow> 'a cander_scheme" where
  "setCondPts var obj guard s =
     s\<lparr>condPtsMap := AList.update var (AList.update obj guard (condEntry var s)) (condPtsMap s)\<rparr>"

definition orMergeCondPts :: "node_id \<Rightarrow> node_id \<Rightarrow> pathcond \<Rightarrow> 'a cander_scheme \<Rightarrow> bool \<times> 'a cander_scheme" where
  "orMergeCondPts var obj guard s =
     (if isTrue guard then (True, eraseCondPts var obj s)
      else
        case map_of (condEntry var s) obj of
          None \<Rightarrow> (True, setCondPts var obj guard s)
        | Some old \<Rightarrow>
            let (merged, s1) = onStore (getOr old guard) s in
            if caddr merged = caddr old then (False, s1)
            else if isTrue merged
              then (if isTrue old then (True, eraseCondPts var obj s1) else (False, s1))
            else
              let (limited, s2) = (if \<not> useDepthLimit s1 then applyLimits merged s1 else (merged, s1))
              in (True, setCondPts var obj limited s2))"

section \<open>Edge guards\<close>

definition getEdgeGuard :: "node_id \<Rightarrow> node_id \<Rightarrow> 'a cander_scheme \<Rightarrow> pathcond option" where
  "getEdgeGuard src dst s =
     do {
       srcNode \<leftarrow> getConstraintNode src (consCG s);
       Some (case List.find (\<lambda>e. ekind e = Copy \<and> edst e = dst) (getOutEdges srcNode (consCG s)) of
               None \<Rightarrow> getTrue | Some e \<Rightarrow> guardOrTrue (eguard e))
     }"

definition getKindEdgeGuard :: "cond_edge_kind \<Rightarrow> node_id \<Rightarrow> node_id \<Rightarrow> 'a cander_scheme \<Rightarrow> pathcond" where
  "getKindEdgeGuard k src dst s = guardOrTrue (map_of (edgeGuards s) (src, dst, k))"

text \<open>What \<^verbatim>\<open>mergeCopyEdgeGuard\<close> and the lambdas of \<^verbatim>\<open>attachStaticEdgeGuards\<close> do to an edge they found.\<close>

definition orGuardOnEdge :: "cedge \<Rightarrow> pathcond \<Rightarrow> 'a cander_scheme \<Rightarrow> 'a cander_scheme" where
  "orGuardOnEdge e guard s =
     (case eguard e of
        Some oldG \<Rightarrow>
          if \<not> isTrue oldG
          then let (g, s1) = onStore (getOr oldG guard) s in s1\<lparr>consCG := setGuard e (Some g) (consCG s1)\<rparr>
          else s\<lparr>consCG := setGuard e (Some guard) (consCG s)\<rparr>
      | None \<Rightarrow> s\<lparr>consCG := setGuard e (Some guard) (consCG s)\<rparr>)"

definition mergeCopyEdgeGuard :: "node_id \<Rightarrow> node_id \<Rightarrow> pathcond \<Rightarrow> bool \<Rightarrow> 'a cander_scheme \<Rightarrow> 'a cander_scheme option" where
  "mergeCopyEdgeGuard src dst guard createIfMissing s =
     (if isTrue guard then Some s
      else do {
        (added, s1) \<leftarrow> (if createIfMissing
          then map_option (\<lambda>(b, g). (b, s\<lparr>consCG := g\<rparr>)) (addCopyCGEdge src dst (Some guard) (consCG s))
          else Some (False, s));
        if added then Some s1
        else do {
          srcNode \<leftarrow> getConstraintNode src (consCG s1);
          dstNode \<leftarrow> getConstraintNode dst (consCG s1);
          Some (case findEdge Copy srcNode dstNode (consCG s1) of
                  None \<Rightarrow> s1
                | Some e \<Rightarrow> orGuardOnEdge e guard s1)
        }
      })"

section \<open>Constraint processing\<close>

definition cond_getDiffPts :: "'a cander_scheme \<Rightarrow> node_id \<Rightarrow> node_id oset" where
  "cond_getDiffPts s n = dd_getPts (ptD s) (rep_of s n)"

text \<open>The guard \<^verbatim>\<open>processCopy\<close> gives to an object whose guard at the source is \<open>cond\<close>.\<close>

definition copyCond :: "pathcond \<Rightarrow> pathcond \<Rightarrow> 'a cander_scheme \<Rightarrow> pathcond \<times> 'a cander_scheme" where
  "copyCond guard cond s =
     (if \<not> useDepthLimit s \<and> isConjCapped cond s then (cond, s)
      else
        let (deep, s1) =
          (if useDepthLimit s \<and> isPureAndChain cond
           then let (dc, t1) = onStore (depthM cond) s; (dg, t2) = onStore (depthM guard) t1
                in (u32 (max dc dg + 1) > nat (kLimit s mod 2 ^ 32), t2)
           else (False, s))
        in if deep then (cond, s1)
           else let (conj, s2) = onStore (getAnd cond guard) s1 in applyLimits conj s2)"

text \<open>One round of the loops over the conditional entries: \<open>(condChanged, state)\<close>.\<close>

definition copyEntry :: "(bform \<Rightarrow> bool) \<Rightarrow> pathcond \<Rightarrow> node_id \<Rightarrow> node_id \<times> pathcond \<Rightarrow>
    bool \<times> 'a cander_scheme \<Rightarrow> bool \<times> 'a cander_scheme" where
  "copyEntry z3 guard dst = (\<lambda>(obj, cond) (changed, s).
     let (newCond, s1) = copyCond guard cond s;
         (sat, s2) = (if eagerSat s1 then z3IsSat z3 newCond s1 else (True, s1))
     in if \<not> sat then (changed, s2\<lparr>numEagerSatCuts := u32 (numEagerSatCuts s2 + 1)\<rparr>)
        else let (c, s3) = orMergeCondPts dst obj newCond s2 in (changed \<or> c, s3))"

text \<open>
  The second part of \<^verbatim>\<open>processCopy\<close>: the members of the source's set \<open>pts\<close> without an
  entry in \<open>entry\<close> get the guard of the edge.
\<close>

definition copyImplicit :: "(bform \<Rightarrow> bool) \<Rightarrow> pathcond \<Rightarrow> node_id \<Rightarrow> cond_pts \<Rightarrow> node_id oset \<Rightarrow>
    bool \<times> 'a cander_scheme \<Rightarrow> bool \<times> 'a cander_scheme" where
  "copyImplicit z3 guard dst entry pts = (\<lambda>(changed, s).
     if isTrue guard then (changed, s)
     else
       let (limitedGuard, s1) = applyLimits guard s;
           implicit = filter (\<lambda>obj. map_of entry obj = None) pts
       in if isFalse limitedGuard then (changed, s1)
          else
            let (sat, s2) = (if eagerSat s1 then z3IsSat z3 limitedGuard s1 else (True, s1))
            in if \<not> sat then (changed, s2\<lparr>numEagerSatCuts := u32 (numEagerSatCuts s2 + length implicit)\<rparr>)
               else fold (\<lambda>obj (ch, t). let (c, t1) = orMergeCondPts dst obj limitedGuard t in (ch \<or> c, t1))
                      implicit (changed, s2))"

definition cond_processCopy :: "(bform \<Rightarrow> bool) \<Rightarrow> node_id \<Rightarrow> cedge \<Rightarrow> 'a cander_scheme \<Rightarrow> (bool \<times> 'a cander_scheme) option" where
  "cond_processCopy z3 node edge s =
     (if kLimit s = 0 then processCopy cond_getDiffPts node edge s
      else do {
        (parentChanged, s1) \<leftarrow> processCopy cond_getDiffPts node edge s;
        let guard = guardOrTrue (eguard edge);
        let entry = condEntry node s1;
        let r1 = fold (copyEntry z3 guard (edst edge)) entry (False, s1);
        let (condChanged, s2) = copyImplicit z3 guard (edst edge) entry (getPts (snd r1) node) r1;
        Some (parentChanged \<or> condChanged, s2)
      })"

text \<open>
  The guard of the copy edge a load or store edge makes: that of the edge and that of \<open>node\<close>
  in the set of the pointer.
\<close>

definition derivedGuard :: "pathcond option \<Rightarrow> node_id \<Rightarrow> node_id \<Rightarrow> 'a cander_scheme \<Rightarrow> pathcond \<times> 'a cander_scheme" where
  "derivedGuard g pointer node s =
     (let ptsG = guardOrTrue (map_of (condEntry pointer s) node);
          edgeG = guardOrTrue g
      in if isTrue edgeG then (ptsG, s)
         else if isTrue ptsG then (edgeG, s)
         else onStore (getAnd edgeG ptsG) s)"

definition cond_processLoad :: "node_id \<Rightarrow> cedge \<Rightarrow> 'a cander_scheme \<Rightarrow> (bool \<times> 'a cander_scheme) option" where
  "cond_processLoad node load s =
     (if kLimit s = 0 then processLoad node load s
      else do {
        (parentChanged, s1) \<leftarrow> processLoad node load s;
        let (guard, s2) = derivedGuard (eguard load) (esrc load) node s1;
        s3 \<leftarrow> mergeCopyEdgeGuard node (edst load) guard False s2;
        Some (parentChanged, s3)
      })"

definition cond_processStore :: "node_id \<Rightarrow> cedge \<Rightarrow> 'a cander_scheme \<Rightarrow> (bool \<times> 'a cander_scheme) option" where
  "cond_processStore node store s =
     (if kLimit s = 0 then processStore node store s
      else do {
        (parentChanged, s1) \<leftarrow> processStore node store s;
        let (guard, s2) = derivedGuard (eguard store) (edst store) node s1;
        s3 \<leftarrow> mergeCopyEdgeGuard (esrc store) node guard False s2;
        Some (parentChanged, s3)
      })"

definition gepEntry :: "(bform \<Rightarrow> bool) \<Rightarrow> pathcond \<Rightarrow> cedge \<Rightarrow> node_id \<times> pathcond \<Rightarrow>
    bool \<times> 'a cander_scheme \<Rightarrow> (bool \<times> 'a cander_scheme) option" where
  "gepEntry z3 edgeG edge = (\<lambda>(o1, og) (changed, s).
     if isFalse og then Some (changed, s)
     else
       let (g, s1) = (if isTrue edgeG then (og, s) else onStore (getAnd og edgeG) s);
           (sat, s2) = (if eagerSat s1 then z3IsSat z3 g s1 else (True, s1))
       in if \<not> sat then Some (changed, s2\<lparr>numEagerSatCuts := u32 (numEagerSatCuts s2 + 1)\<rparr>)
          else do {
            (newField, s3) \<leftarrow> gepTarget edge o1 s2;
            let (c, s4) = orMergeCondPts (edst edge) newField g s3;
            Some (changed \<or> c, s4)
          })"

definition gepImplicit :: "(bform \<Rightarrow> bool) \<Rightarrow> pathcond \<Rightarrow> cedge \<Rightarrow> cond_pts \<Rightarrow> node_id oset \<Rightarrow>
    bool \<times> 'a cander_scheme \<Rightarrow> (bool \<times> 'a cander_scheme) option" where
  "gepImplicit z3 edgeG edge entry pts = (\<lambda>(changed, s).
     if isTrue edgeG then Some (changed, s)
     else
       let (limitedEdgeG, s1) = applyLimits edgeG s;
           implicit = filter (\<lambda>o1. map_of entry o1 = None) pts
       in if isFalse limitedEdgeG then Some (changed, s1)
          else
            let (sat, s2) = (if eagerSat s1 then z3IsSat z3 limitedEdgeG s1 else (True, s1))
            in if \<not> sat then Some (changed, s2\<lparr>numEagerSatCuts := u32 (numEagerSatCuts s2 + length implicit)\<rparr>)
               else foldO (\<lambda>o1 (ch, t). do {
                        (newField, t1) \<leftarrow> gepTarget edge o1 t;
                        let (c, t2) = orMergeCondPts (edst edge) newField limitedEdgeG t1;
                        Some (ch \<or> c, t2)
                      }) implicit (changed, s2))"

definition cond_processGep :: "(bform \<Rightarrow> bool) \<Rightarrow> node_id \<Rightarrow> cedge \<Rightarrow> 'a cander_scheme \<Rightarrow> (bool \<times> 'a cander_scheme) option" where
  "cond_processGep z3 _ edge s =
     (if kLimit s = 0 then processGep cond_getDiffPts (esrc edge) edge s
      else do {
        (parentChanged, s1) \<leftarrow> processGep cond_getDiffPts (esrc edge) edge s;
        let edgeG = guardOrTrue (eguard edge);
        let entry = condEntry (esrc edge) s1;
        r1 \<leftarrow> foldO (gepEntry z3 edgeG edge) entry (False, s1);
        (condChanged, s2) \<leftarrow> gepImplicit z3 edgeG edge entry (getPts (snd r1) (esrc edge)) r1;
        Some (parentChanged \<or> condChanged, s2)
      })"

section \<open>Merging\<close>

definition cond_mergeSrcToTgt :: "node_id \<Rightarrow> node_id \<Rightarrow> 'a cander_scheme \<Rightarrow> (bool \<times> 'a cander_scheme) option" where
  "cond_mergeSrcToTgt nodeId newRepId s =
     (if nodeId = newRepId then Some (False, s)
      else
        let s1 = (case map_of (condPtsMap s) nodeId of
                    None \<Rightarrow> s
                  | Some m \<Rightarrow>
                      let t = fold (\<lambda>(obj, g) t. snd (orMergeCondPts newRepId obj (if mergeCondSCC t then getTrue else g) t)) m s
                      in t\<lparr>condPtsMap := AList.delete nodeId (condPtsMap t)\<rparr>)
        in mergeSrcToTgt nodeId newRepId s1)"

definition condGuarded :: "cedge \<Rightarrow> bool" where
  "condGuarded e \<longleftrightarrow> isdirectEdge (ekind e) \<and> (case eguard e of None \<Rightarrow> False | Some g \<Rightarrow> \<not> isTrue g)"

definition sccHasConditionalEdge :: "node_id oset \<Rightarrow> consg \<Rightarrow> bool option" where
  "sccHasConditionalEdge subs g =
     foldO (\<lambda>nodeId found.
       if found then Some True
       else map_option (\<lambda>n. list_ex condGuarded (getOutEdges n g) \<or> list_ex condGuarded (getInEdges n g))
              (getConstraintNode nodeId g)) subs False"

definition cond_methods :: "(bform \<Rightarrow> bool) \<Rightarrow> 'a cander_scheme vmethods" where
  "cond_methods z3 = \<lparr>v_getDiffPts = cond_getDiffPts, v_processLoad = cond_processLoad, v_processStore = cond_processStore,
     v_processCopy = cond_processCopy z3, v_processGep = cond_processGep z3, v_mergeSrcToTgt = cond_mergeSrcToTgt\<rparr>"

text \<open>
  \<^verbatim>\<open>SCCDetect\<close> after the detector has run. The second component of the state of the loop is
  \<^verbatim>\<open>mergedNodes\<close>.
\<close>

definition mergeOneScc :: "'a cander_scheme vmethods \<Rightarrow> node_id \<Rightarrow> node_id oset \<Rightarrow>
    'a cander_scheme \<times> (node_id \<times> node_id) list \<Rightarrow> ('a cander_scheme \<times> (node_id \<times> node_id) list) option" where
  "mergeOneScc vt repNodeId subs = (\<lambda>(s, merged).
     if length subs \<le> 1 then Some (s, merged)
     else do {
       hasCond \<leftarrow> sccHasConditionalEdge subs (consCG s);
       if hasCond \<and> \<not> mergeCondSCC s then Some (s, merged)
       else foldO (\<lambda>subNodeId (t, mg).
              if subNodeId \<noteq> repNodeId
              then map_option (\<lambda>t'. (t', AList.update subNodeId repNodeId mg)) (mergeNodeToRep vt subNodeId repNodeId t)
              else Some (t, mg)) subs (s, merged)
     })"

definition remapEdgeGuard :: "(node_id \<times> node_id) list \<Rightarrow> (node_id \<times> node_id \<times> cond_edge_kind) \<times> pathcond \<Rightarrow>
    'a cander_scheme \<Rightarrow> 'a cander_scheme" where
  "remapEdgeGuard mergedNodes = (\<lambda>((src, dst, k), guard) s.
     if k = CondCopy then s
     else if map_of mergedNodes src = None \<and> map_of mergedNodes dst = None then s
     else
       let newSrc = (case map_of mergedNodes src of None \<Rightarrow> src | Some r \<Rightarrow> r);
           newDst = (case map_of mergedNodes dst of None \<Rightarrow> dst | Some r \<Rightarrow> r);
           s1 = s\<lparr>edgeGuards := AList.delete (src, dst, k) (edgeGuards s)\<rparr>
       in case map_of (edgeGuards s1) (newSrc, newDst, k) of
            None \<Rightarrow> s1\<lparr>edgeGuards := AList.update (newSrc, newDst, k) guard (edgeGuards s1)\<rparr>
          | Some old \<Rightarrow>
              let (g, s2) = onStore (getOr old guard) s1
              in s2\<lparr>edgeGuards := AList.update (newSrc, newDst, k) g (edgeGuards s2)\<rparr>)"

definition cond_SCCMerge :: "'a cander_scheme vmethods \<Rightarrow> 'a cander_scheme \<Rightarrow> 'a cander_scheme option" where
  "cond_SCCMerge vt s =
     do {
       (s1, mergedNodes) \<leftarrow> foldO (\<lambda>r (t, merged). do {
           subs \<leftarrow> subNodes r (sccD t);
           mergeOneScc vt r subs (t, merged)
         }) (sT (sccD s)) (s, []);
       Some (fold (remapEdgeGuard mergedNodes) (edgeGuards s1) s1)
     }"

section \<open>Alias queries\<close>

text \<open>The loop over the fields of a field-insensitive or base object.\<close>

definition expandField :: "pathcond \<Rightarrow> node_id \<Rightarrow> cond_pts \<times> pstore \<Rightarrow> cond_pts \<times> pstore" where
  "expandField guard f = (\<lambda>(e, q).
     case map_of e f of
       None \<Rightarrow> (AList.update f guard e, q)
     | Some old \<Rightarrow> let (g, q') = getOr old guard q in (AList.update f g e, q'))"

text \<open>
  One round of the loop of \<^verbatim>\<open>expandCondFIObjs\<close>. The guard of the object replaces whatever
  a field-insensitive object before it has given to the same field.
\<close>

definition expandEntry :: "pag \<Rightarrow> cond_pts \<Rightarrow> node_id \<Rightarrow> cond_pts \<times> pstore \<Rightarrow> (cond_pts \<times> pstore) option" where
  "expandEntry p condPts obj = (\<lambda>(expanded, ps).
     let guard = guardOrTrue (map_of condPts obj);
         e1 = AList.update obj guard expanded
     in if \<not> hasGNode obj p then Some (e1, ps)
        else do {
          baseObj \<leftarrow> getBaseObjVarID obj p;
          fi \<leftarrow> (if baseObj = obj then Some True else isFieldInsensitive obj p);
          if fi then do {
            fields \<leftarrow> getAllFieldsObjVars obj p;
            Some (fold (expandField guard) fields (e1, ps))
          } else Some (e1, ps)
        })"

definition expandCondFIObjs :: "node_id \<Rightarrow> 'a cander_scheme \<Rightarrow> (cond_pts \<times> 'a cander_scheme) option" where
  "expandCondFIObjs nodeId s =
     map_option (\<lambda>(expanded, ps). (expanded, s\<lparr>pst := ps\<rparr>))
       (foldO (expandEntry (irs s) (getCondPts nodeId s)) (getPts s (rep_of s nodeId)) ([], pst s))"

text \<open>The loop over the objects of the first set; it returns at the first one with a satisfiable conjunction.\<close>

fun aliasLoop :: "(bform \<Rightarrow> bool) \<Rightarrow> cond_pts \<Rightarrow> cond_pts \<Rightarrow> 'a cander_scheme \<Rightarrow> alias_result \<times> 'a cander_scheme" where
  "aliasLoop z3 [] pts2 s =
     (NoAlias, s\<lparr>numAliasRefinedToNoAlias := u32 (numAliasRefinedToNoAlias s + 1)\<rparr>)"
| "aliasLoop z3 ((obj, g1) # pts1) pts2 s =
     (case map_of pts2 obj of
        None \<Rightarrow> aliasLoop z3 pts1 pts2 s
      | Some g2 \<Rightarrow>
          let (conj, s1) = onStore (getAnd g1 g2) s;
              (sat, s2) = z3IsSat z3 conj s1
          in if sat then (MayAlias, s2\<lparr>numAliasRefined := u32 (numAliasRefined s2 + 1)\<rparr>)
             else aliasLoop z3 pts1 pts2 s2)"

definition cond_alias :: "(bform \<Rightarrow> bool) \<Rightarrow> node_id \<Rightarrow> node_id \<Rightarrow> 'a cander_scheme \<Rightarrow> (alias_result \<times> 'a cander_scheme) option" where
  "cond_alias z3 v1 v2 s =
     (if kLimit s = 0 then map_option (\<lambda>r. (r, s)) (alias_of v1 v2 s)
      else
        let s0 = s\<lparr>numAliasTotal := u32 (numAliasTotal s + 1)\<rparr> in
        if v1 = v2 then Some (MustAlias, s0)
        else do {
          base \<leftarrow> aliasPts (getPts s0 (rep_of s0 v1)) (getPts s0 (rep_of s0 v2)) (irs s0);
          if base = NoAlias then Some (NoAlias, s0)
          else do {
            (pts1, s1) \<leftarrow> expandCondFIObjs v1 s0;
            (pts2, s2) \<leftarrow> expandCondFIObjs v2 s1;
            if pts1 = [] \<or> pts2 = [] then Some (MayAlias, s2)
            else Some (aliasLoop z3 pts1 pts2 s2)
          }
        })"

section \<open>Guards from the program\<close>

text \<open>
  What \<^verbatim>\<open>getBBGuard\<close> reads of a basic block: for every ICFG node of the block its incoming
  edges, an intra-procedural edge with the variable of its condition, if it has one, and the
  value of the condition (\<^verbatim>\<open>getSuccessorCondValue\<close>). \<open>None\<close> is the null block.
\<close>

datatype icfg_edge = IntraCFGEdge "node_id option" int | OtherICFGEdge

type_synonym basic_block = "icfg_edge list list"

definition bbEdge :: "icfg_edge \<Rightarrow> pathcond \<times> bool \<times> pstore \<Rightarrow> pathcond \<times> bool \<times> pstore" where
  "bbEdge edge = (\<lambda>(g, hasGuard, p).
     case edge of
       IntraCFGEdge (Some c) v \<Rightarrow>
         let (atom, p1) = getAtom c (v \<noteq> 0) p; (g', p2) = getOr g atom p1 in (g', True, p2)
     | _ \<Rightarrow> (g, hasGuard, p))"

definition getBBGuard :: "basic_block option \<Rightarrow> pstore \<Rightarrow> pathcond \<times> pstore" where
  "getBBGuard bb p =
     (case bb of
        None \<Rightarrow> (getTrue, p)
      | Some entries \<Rightarrow>
          let (g, hasGuard, p') = fold (\<lambda>entry st. fold bbEdge entry st) entries (getFalse, False, p)
          in (if hasGuard then g else getTrue, p'))"

text \<open>
  The statements of the program, each with the basic block its guard is read from: for a call
  that is the block of the call site of every operand. The functions below take \<open>G\<close>, the
  class's \<^verbatim>\<open>getBBGuard\<close>, as an argument; \<open>'b\<close> is how the class sees a block.
\<close>

record 'b stmts =
  phis :: "('b \<times> node_id list \<times> node_id) list"
  copies :: "('b \<times> node_id \<times> node_id) list"
  loads :: "('b \<times> node_id \<times> node_id) list"
  stores :: "('b \<times> node_id \<times> node_id) list"
  geps :: "('b \<times> node_id \<times> node_id) list"
  selects :: "('b \<times> node_id option \<times> node_id list \<times> node_id) list"
  callpes :: "((node_id \<times> 'b) list \<times> node_id) list"
  retpes :: "('b \<times> node_id \<times> node_id) list"

definition setCopyGuard :: "node_id \<Rightarrow> node_id \<Rightarrow> pathcond \<Rightarrow> 'a cander_scheme \<Rightarrow> 'a cander_scheme option" where
  "setCopyGuard src dst guard s = mergeCopyEdgeGuard src dst guard False s"

text \<open>\<^verbatim>\<open>setLoadGuard\<close>, \<^verbatim>\<open>setStoreGuard\<close> and \<^verbatim>\<open>setGepGuard\<close>: the edges they look for differ.\<close>

definition setKindGuard :: "(ckind \<Rightarrow> bool) \<Rightarrow> node_id \<Rightarrow> node_id \<Rightarrow> pathcond \<Rightarrow> 'a cander_scheme \<Rightarrow> 'a cander_scheme option" where
  "setKindGuard K src dst guard s =
     (if isTrue guard then Some s
      else do {
        srcNode \<leftarrow> getConstraintNode src (consCG s);
        Some (case List.find (\<lambda>e. edst e = dst \<and> K (ekind e)) (getOutEdges srcNode (consCG s)) of
                None \<Rightarrow> s
              | Some e \<Rightarrow> orGuardOnEdge e guard s)
      })"

type_synonym ('b, 's) bb_guard = "'b \<Rightarrow> 's \<Rightarrow> pathcond \<times> 's"

definition attachBlock :: "('b, 'a cander_scheme) bb_guard \<Rightarrow>
    (pathcond \<Rightarrow> 'a cander_scheme \<Rightarrow> 'a cander_scheme option) \<Rightarrow> 'b \<Rightarrow> 'a cander_scheme \<Rightarrow> 'a cander_scheme option" where
  "attachBlock G f bb s = (let (g, s1) = G bb s in if \<not> isTrue g then f g s1 else Some s1)"

definition attachPhi :: "('b, 'a cander_scheme) bb_guard \<Rightarrow> 'b \<times> node_id list \<times> node_id \<Rightarrow>
    'a cander_scheme \<Rightarrow> 'a cander_scheme option" where
  "attachPhi G = (\<lambda>(bb, ops, res) s.
     let (g, s1) = G bb s in foldO (\<lambda>op t. setCopyGuard op res g t) ops s1)"

text \<open>One operand of a select: its block's guard and the atom of the condition.\<close>

definition attachSelectOp :: "('b, 'a cander_scheme) bb_guard \<Rightarrow> 'b \<Rightarrow> pathcond \<Rightarrow> node_id \<Rightarrow> node_id \<Rightarrow>
    'a cander_scheme \<Rightarrow> 'a cander_scheme option" where
  "attachSelectOp G bb atom op res s =
     (let (g, s1) = G bb s;
          (g', s2) = (if \<not> isTrue g then onStore (getAnd g atom) s1 else (atom, s1))
      in setCopyGuard op res g' s2)"

definition attachSelect :: "('b, 'a cander_scheme) bb_guard \<Rightarrow> 'b \<times> node_id option \<times> node_id list \<times> node_id \<Rightarrow>
    'a cander_scheme \<Rightarrow> 'a cander_scheme option" where
  "attachSelect G = (\<lambda>(bb, cond, ops, res) s.
     case cond of
       None \<Rightarrow> Some s
     | Some c \<Rightarrow>
         let (condAtom, s1) = onStore (getAtom c True) s;
             (negCondAtom, s2) = onStore (getAtom c False) s1
         in do {
              s3 \<leftarrow> (if length ops > 0 then attachSelectOp G bb condAtom (ops ! 0) res s2 else Some s2);
              if length ops > 1 then attachSelectOp G bb negCondAtom (ops ! 1) res s3 else Some s3
            })"

definition attachCall :: "('b, 'a cander_scheme) bb_guard \<Rightarrow> (node_id \<times> 'b) list \<times> node_id \<Rightarrow>
    'a cander_scheme \<Rightarrow> 'a cander_scheme option" where
  "attachCall G = (\<lambda>(ops, res) s.
     foldO (\<lambda>(op, bb) t. let (g, t1) = G bb t in setCopyGuard op res g t1) ops s)"

definition attachRet :: "('b, 'a cander_scheme) bb_guard \<Rightarrow> 'b \<times> node_id \<times> node_id \<Rightarrow>
    'a cander_scheme \<Rightarrow> 'a cander_scheme option" where
  "attachRet G = (\<lambda>(bb, rhs, lhs) s. let (g, s1) = G bb s in setCopyGuard rhs lhs g s1)"

definition attachGuardsBy :: "('b, 'a cander_scheme) bb_guard \<Rightarrow> 'b stmts \<Rightarrow> 'a cander_scheme \<Rightarrow> 'a cander_scheme option" where
  "attachGuardsBy G st s =
     do {
       s1 \<leftarrow> foldO (attachPhi G) (phis st) s;
       s2 \<leftarrow> foldO (\<lambda>(bb, rhs, lhs). attachBlock G (setCopyGuard rhs lhs) bb) (copies st) s1;
       s3 \<leftarrow> foldO (\<lambda>(bb, rhs, lhs). attachBlock G (setKindGuard (\<lambda>k. k = Load) rhs lhs) bb) (loads st) s2;
       s4 \<leftarrow> foldO (\<lambda>(bb, rhs, lhs). attachBlock G (setKindGuard (\<lambda>k. k = Store) rhs lhs) bb) (stores st) s3;
       s5 \<leftarrow> foldO (\<lambda>(bb, rhs, lhs). attachBlock G (setKindGuard isGepKind rhs lhs) bb) (geps st) s4;
       s6 \<leftarrow> foldO (attachSelect G) (selects st) s5;
       s7 \<leftarrow> foldO (attachCall G) (callpes st) s6;
       foldO (attachRet G) (retpes st) s7
     }"

definition attachStaticEdgeGuards :: "basic_block option stmts \<Rightarrow> 'a cander_scheme \<Rightarrow> 'a cander_scheme option" where
  "attachStaticEdgeGuards = attachGuardsBy (\<lambda>bb. onStore (getBBGuard bb))"

text \<open>The count \<^verbatim>\<open>finalize\<close> makes.\<close>

definition countCondPts :: "'a cander_scheme \<Rightarrow> 'a cander_scheme" where
  "countCondPts s = s\<lparr>numCondPtsEntries := fold (\<lambda>(_, m) n. u32 (n + length m)) (condPtsMap s) 0\<rparr>"

end
