(* ===== verification/CondAndersen_Solver.thy ===== *)
theory CondAndersen_Solver
  imports CondAndersen Andersen_Solver
begin

text \<open>
  The solver of \<^verbatim>\<open>src/SVF/svf/lib/WPA/ConditionalAndersen.cpp\<close>: the detection of cycles, which
  keeps the ones with a guarded edge apart, the worklist, and the constructor and
  \<^verbatim>\<open>initialize\<close>.
\<close>

section \<open>Construction\<close>

text \<open>The command-line options of the conditional analyses (\<^verbatim>\<open>CondAnder...\<close> of \<^verbatim>\<open>Options\<close>).\<close>

record cond_options =
  CondAnderKLimit :: int
  CondAnderEagerSat :: bool
  CondAnderFastGuard :: bool
  CondAnderUseDepthLimit :: bool
  CondAnderMLimit :: nat
  CondAnderNLimit :: nat
  CondAnderMergeCondSCC :: bool
  CondAnderPWC :: bool

definition new_cander :: "cond_options \<Rightarrow> pstore \<Rightarrow> ander \<Rightarrow> cander" where
  "new_cander opt p s = ander.extend s
     \<lparr>pst = p, condPtsMap = [], edgeGuards = [], conjCappedGuards = {},
      kLimit = CondAnderKLimit opt, eagerSat = CondAnderEagerSat opt, useFastGuard = CondAnderFastGuard opt,
      useDepthLimit = CondAnderUseDepthLimit opt, mLimit = CondAnderMLimit opt, nLimit = CondAnderNLimit opt,
      mergeCondSCC = CondAnderMergeCondSCC opt,
      numZ3SatChecks = 0, numAliasRefined = 0, numAliasRefinedToNoAlias = 0, numAliasTotal = 0,
      numCondPtsEntries = 0, numEagerSatCuts = 0\<rparr>"

text \<open>\<^verbatim>\<open>initialize\<close> after \<^verbatim>\<open>Andersen::initialize\<close> has built the graph of \<open>s\<close>.\<close>

definition cond_initialize :: "cond_options \<Rightarrow> basic_block option stmts \<Rightarrow> 'a cander_scheme \<Rightarrow> 'a cander_scheme option" where
  "cond_initialize opt st s = attachStaticEdgeGuards st (s\<lparr>DetectPWC := CondAnderPWC opt\<rparr>)"

section \<open>Solving\<close>

definition cond_SCCDetect :: "'a cander_scheme vmethods \<Rightarrow> 'a cander_scheme \<Rightarrow> 'a cander_scheme option" where
  "cond_SCCDetect vt s =
     do {
       s1 \<leftarrow> findSCCs (s\<lparr>numOfSCCDetection := u32 (numOfSCCDetection s + 1)\<rparr>);
       cond_SCCMerge vt s1
     }"

text \<open>
  Both conditional classes have the same \<^verbatim>\<open>solveWorklist\<close>; they differ in the virtual methods that
  \<open>process\<close> (first loop) and \<open>post\<close> (second loop) stand for.
\<close>

definition solveBy :: "nat \<Rightarrow> nat \<Rightarrow> 'a cander_scheme vmethods \<Rightarrow> (node_id \<Rightarrow> 'a cander_scheme \<Rightarrow> 'a cander_scheme option) \<Rightarrow>
    (node_id \<Rightarrow> 'a cander_scheme \<Rightarrow> 'a cander_scheme option) \<Rightarrow> 'a cander_scheme \<Rightarrow> 'a cander_scheme option" where
  "solveBy k n vt process post s =
     do {
       s1 \<leftarrow> cond_SCCDetect vt s;
       s2 \<leftarrow> topoLoop (\<lambda>nodeId t. do {
           t1 \<leftarrow> collapsePWCNode n vt nodeId t;
           t2 \<leftarrow> process nodeId t1;
           collapseFields n vt t2
         }) (sT (sccD s1)) s1;
       worklistLoop k (\<lambda>nodeId t. do { t1 \<leftarrow> post nodeId t; collapseFields n vt t1 }) s2
     }"

definition cond_solveWorklist :: "nat \<Rightarrow> nat \<Rightarrow> (bform \<Rightarrow> bool) \<Rightarrow> 'a cander_scheme \<Rightarrow> 'a cander_scheme option" where
  "cond_solveWorklist k n z3 =
     solveBy k n (cond_methods z3) (processNode (cond_methods z3)) (processNode (cond_methods z3))"

definition cond_processAddr :: "cedge \<Rightarrow> 'a cander_scheme \<Rightarrow> 'a cander_scheme" where
  "cond_processAddr addr s = processAddr addr s"

text \<open>\<^verbatim>\<open>alias\<close> on two variables, given by their numbers.\<close>

definition cond_aliasVars :: "(bform \<Rightarrow> bool) \<Rightarrow> node_id \<Rightarrow> node_id \<Rightarrow> 'a cander_scheme \<Rightarrow>
    (alias_result \<times> 'a cander_scheme) option" where
  "cond_aliasVars z3 v1 v2 s = (if v1 = v2 then Some (MustAlias, s) else cond_alias z3 v1 v2 s)"

end
