(* ===== verification/CondWave.thy ===== *)
theory CondWave
  imports CondAndersen_Solver
begin

text \<open>
  \<^verbatim>\<open>src/SVF/svf/include/WPA/ConditionalAndersenWaveDiff.h\<close> and
  \<^verbatim>\<open>src/SVF/svf/lib/WPA/ConditionalAndersenWaveDiff.cpp\<close>: the conditional analysis on top of the
  wave propagation.

  The class repeats the members and many methods of \<^verbatim>\<open>ConditionalAndersen\<close>; its state here
  extends \<open>cander\<close> with the members of its own, and a method whose body is the same text is
  defined to be the method of theory \<open>CondAndersen\<close>. The null tests after
  \<^verbatim>\<open>getConstraintNode\<close> make no difference to the model: the lookup itself asserts that the node
  is there. The sets of \<^verbatim>\<open>condDiffPtsMap\<close> (hash sets) are visited in increasing order. The loops
  over the entry of the source in \<^verbatim>\<open>processCopy\<close> run over the entry as it was before the loop: a
  copy edge does not lead from a node to itself. The members \<^verbatim>\<open>preservedSCCReps\<close> and
  \<^verbatim>\<open>aliasNoSat\<close> and the counters \<^verbatim>\<open>numDiffPts...\<close> are never used by the code.
\<close>

section \<open>State\<close>

record wander = cander +
  condDiffPtsMap :: "node_id \<Rightarrow> node_id oset option"
  currentDiffNode :: node_id
  currentDiffObjs :: "node_id list"
  bbGuardCache :: "(nat \<times> pathcond) list"

text \<open>The constructor leaves \<^verbatim>\<open>currentDiffNode\<close> uninitialised: \<open>junk\<close>.\<close>

definition new_wander :: "cond_options \<Rightarrow> node_id \<Rightarrow> pstore \<Rightarrow> ander \<Rightarrow> wander" where
  "new_wander opt junk p s = cander.extend (new_cander opt p s)
     \<lparr>condDiffPtsMap = (\<lambda>_. None), currentDiffNode = junk, currentDiffObjs = [], bbGuardCache = []\<rparr>"

section \<open>Guards from the program\<close>

text \<open>A block with its address.\<close>

type_synonym bb_ref = "(nat \<times> basic_block) option"

definition wave_getBBGuard :: "bb_ref \<Rightarrow> 'a wander_scheme \<Rightarrow> pathcond \<times> 'a wander_scheme" where
  "wave_getBBGuard bb s =
     (case bb of
        None \<Rightarrow> (getTrue, s)
      | Some (a, entries) \<Rightarrow>
          case map_of (bbGuardCache s) a of
            Some g \<Rightarrow> (g, s)
          | None \<Rightarrow>
              let (g, hasGuard, p) = fold (\<lambda>entry st. fold bbEdge entry st) entries (getFalse, False, pst s);
                  result = (if hasGuard then g else getTrue)
              in (result, s\<lparr>pst := p, bbGuardCache := AList.update a result (bbGuardCache s)\<rparr>))"

definition wave_mergeCopyEdgeGuard :: "node_id \<Rightarrow> node_id \<Rightarrow> pathcond \<Rightarrow> bool \<Rightarrow> 'a wander_scheme \<Rightarrow> 'a wander_scheme option" where
  "wave_mergeCopyEdgeGuard = mergeCopyEdgeGuard"

definition wave_attachStaticEdgeGuards :: "bb_ref stmts \<Rightarrow> 'a wander_scheme \<Rightarrow> 'a wander_scheme option" where
  "wave_attachStaticEdgeGuards = attachGuardsBy wave_getBBGuard"

definition wave_initialize :: "cond_options \<Rightarrow> bb_ref stmts \<Rightarrow> 'a wander_scheme \<Rightarrow> 'a wander_scheme option" where
  "wave_initialize opt st s =
     wave_attachStaticEdgeGuards st (s\<lparr>DetectPWC := True\<rparr>\<lparr>DetectPWC := CondAnderPWC opt\<rparr>)"

definition wave_getEdgeGuard :: "node_id \<Rightarrow> node_id \<Rightarrow> 'a wander_scheme \<Rightarrow> pathcond option" where
  "wave_getEdgeGuard = getEdgeGuard"

definition wave_getKindEdgeGuard :: "cond_edge_kind \<Rightarrow> node_id \<Rightarrow> node_id \<Rightarrow> 'a wander_scheme \<Rightarrow> pathcond" where
  "wave_getKindEdgeGuard = getKindEdgeGuard"

section \<open>Limits and satisfiability\<close>

definition wave_extractAndChain :: "pathcond \<Rightarrow> pathcond list" where
  "wave_extractAndChain = extractAndChain"

definition wave_buildAndChain :: "pathcond list \<Rightarrow> pstore \<Rightarrow> pathcond \<times> pstore" where
  "wave_buildAndChain = buildAndChain"

definition wave_countClauses :: "pathcond \<Rightarrow> 'a wander_scheme \<Rightarrow> nat \<times> 'a wander_scheme" where
  "wave_countClauses = countClauses"

definition wave_applyLimits :: "pathcond \<Rightarrow> 'a wander_scheme \<Rightarrow> pathcond \<times> 'a wander_scheme" where
  "wave_applyLimits = applyLimits"

definition wave_pathCondToZ3 :: "pathcond \<Rightarrow> bform" where
  "wave_pathCondToZ3 = pathCondToZ3"

definition wave_z3IsSat :: "(bform \<Rightarrow> bool) \<Rightarrow> pathcond \<Rightarrow> 'a wander_scheme \<Rightarrow> bool \<times> 'a wander_scheme" where
  "wave_z3IsSat = z3IsSat"

section \<open>Conditional sets\<close>

definition wave_getCondPts :: "node_id \<Rightarrow> 'a wander_scheme \<Rightarrow> cond_pts" where
  "wave_getCondPts = getCondPts"

text \<open>\<^verbatim>\<open>condDiffPtsMap[var].insert(obj)\<close>\<close>

definition recordDiff :: "node_id \<Rightarrow> node_id \<Rightarrow> 'a wander_scheme \<Rightarrow> 'a wander_scheme" where
  "recordDiff var obj s = s\<lparr>condDiffPtsMap := (condDiffPtsMap s)(var \<mapsto>
     oset_insert obj (case condDiffPtsMap s var of None \<Rightarrow> [] | Some d \<Rightarrow> d))\<rparr>"

definition orLimit :: nat where "orLimit = 3"

text \<open>Whether the disjunction outgrows the bound that depth mode sets; the short circuits count, as \<^verbatim>\<open>depth\<close> memoises.\<close>

definition orTooDeep :: "pathcond \<Rightarrow> pathcond \<Rightarrow> 'a wander_scheme \<Rightarrow> bool \<times> 'a wander_scheme" where
  "orTooDeep merged old s =
     (if useDepthLimit s
      then let (dm, s1) = onStore (depthM merged) s in
        if dm > orLimit then let (d, s2) = onStore (depthM old) s1 in (dm > d, s2) else (False, s1)
      else (False, s))"

definition wave_orMergeCondPts :: "node_id \<Rightarrow> node_id \<Rightarrow> pathcond \<Rightarrow> 'a wander_scheme \<Rightarrow> bool \<times> 'a wander_scheme" where
  "wave_orMergeCondPts var obj guard s =
     (if isTrue guard then
        (case map_of (condEntry var s) obj of
           None \<Rightarrow> (False, s)
         | Some old \<Rightarrow> if isTrue old then (True, eraseCondPts var obj s) else (False, s))
      else
        case map_of (condEntry var s) obj of
          None \<Rightarrow> (True, recordDiff var obj (setCondPts var obj guard s))
        | Some old \<Rightarrow>
            let (merged, s1) = onStore (getOr old guard) s in
            if caddr merged = caddr old then (False, s1)
            else
              let (deep, s2) = orTooDeep merged old s1 in
              if deep then (False, s2\<lparr>conjCappedGuards := insert (caddr old) (conjCappedGuards s2)\<rparr>)
              else if isTrue merged
                then (if isTrue old then (True, eraseCondPts var obj s2) else (False, s2))
              else
                let (limited, s3) = (if \<not> useDepthLimit s2 then wave_applyLimits merged s2 else (merged, s2))
                in (True, recordDiff var obj (setCondPts var obj limited s3)))"

section \<open>Constraint processing\<close>

definition wave_processAddr :: "cedge \<Rightarrow> 'a wander_scheme \<Rightarrow> 'a wander_scheme" where
  "wave_processAddr addr s = processAddr addr s"

definition wave_getDiffPts :: "'a wander_scheme \<Rightarrow> node_id \<Rightarrow> node_id oset" where
  "wave_getDiffPts s n = diffOf s n"

definition incCuts :: "'a wander_scheme \<Rightarrow> 'a wander_scheme" where
  "incCuts s = s\<lparr>numEagerSatCuts := u32 (numEagerSatCuts s + 1)\<rparr>"

text \<open>Whether the guard of an edge would make the guard of an object too deep; the latter is then frozen.\<close>

definition keepsGuard :: "pathcond \<Rightarrow> pathcond \<Rightarrow> 'a wander_scheme \<Rightarrow> bool \<times> 'a wander_scheme" where
  "keepsGuard guard cond s =
     (if isConjCapped cond s then (True, s)
      else if useDepthLimit s
      then let (dc, s1) = onStore (depthM cond) s; (dg, s2) = onStore (depthM guard) s1
           in if u32 (max dc dg + 1) > nat (kLimit s2 mod 2 ^ 32)
              then (True, s2\<lparr>conjCappedGuards := insert (caddr cond) (conjCappedGuards s2)\<rparr>)
              else (False, s2)
      else (False, s))"

definition wave_copyCond :: "pathcond \<Rightarrow> pathcond \<Rightarrow> 'a wander_scheme \<Rightarrow> pathcond \<times> 'a wander_scheme" where
  "wave_copyCond guard cond s =
     (let (keep, s1) = keepsGuard guard cond s
      in if keep then (cond, s1)
         else let (conj, s2) = onStore (getAnd cond guard) s1 in wave_applyLimits conj s2)"

definition wave_copyEntry :: "(bform \<Rightarrow> bool) \<Rightarrow> pathcond \<Rightarrow> node_id \<Rightarrow> node_id \<Rightarrow> pathcond \<Rightarrow>
    bool \<times> 'a wander_scheme \<Rightarrow> bool \<times> 'a wander_scheme" where
  "wave_copyEntry z3 guard dst obj cond = (\<lambda>(changed, s).
     let (newCond, s1) = wave_copyCond guard cond s in
     if isTrue newCond then (changed, s1)
     else
       let (sat, s2) = (if eagerSat s1 then wave_z3IsSat z3 newCond s1 else (True, s1))
       in if \<not> sat then (changed, snd (wave_orMergeCondPts dst obj getFalse (incCuts s2)))
          else let (c, s3) = wave_orMergeCondPts dst obj newCond s2 in (changed \<or> c, s3))"

text \<open>
  The first part of \<^verbatim>\<open>processCopy\<close>: over the objects of the current difference, or over the
  whole entry \<open>m\<close> of the source.
\<close>

definition wave_copyEntries :: "(bform \<Rightarrow> bool) \<Rightarrow> pathcond \<Rightarrow> node_id \<Rightarrow> node_id \<Rightarrow> cond_pts \<Rightarrow>
    'a wander_scheme \<Rightarrow> bool \<times> 'a wander_scheme" where
  "wave_copyEntries z3 guard node dst m s =
     (if node = currentDiffNode s \<and> currentDiffObjs s \<noteq> []
      then fold (\<lambda>obj r. case map_of m obj of None \<Rightarrow> r | Some cond \<Rightarrow> wave_copyEntry z3 guard dst obj cond r)
             (currentDiffObjs s) (False, s)
      else fold (\<lambda>(obj, cond). wave_copyEntry z3 guard dst obj cond) m (False, s))"

definition wave_copyImplicit :: "(bform \<Rightarrow> bool) \<Rightarrow> pathcond \<Rightarrow> node_id \<Rightarrow> cond_pts \<Rightarrow> node_id oset \<Rightarrow>
    bool \<times> 'a wander_scheme \<Rightarrow> bool \<times> 'a wander_scheme" where
  "wave_copyImplicit z3 guard dst m pts = (\<lambda>(changed, s).
     if isTrue guard then (changed, s)
     else
       let (limitedGuard, s1) = wave_applyLimits guard s;
           implicit = filter (\<lambda>obj. map_of m obj = None) pts
       in if isTrue limitedGuard \<or> isFalse limitedGuard then (changed, s1)
          else
            let (sat, s2) = (if eagerSat s1 then wave_z3IsSat z3 limitedGuard s1 else (True, s1))
            in if \<not> sat then (changed, fold (\<lambda>_. incCuts) implicit s2)
               else fold (\<lambda>obj (ch, t). let (c, t1) = wave_orMergeCondPts dst obj limitedGuard t in (ch \<or> c, t1))
                      implicit (changed, s2))"

definition wave_processCopy :: "(bform \<Rightarrow> bool) \<Rightarrow> node_id \<Rightarrow> cedge \<Rightarrow> 'a wander_scheme \<Rightarrow> (bool \<times> 'a wander_scheme) option" where
  "wave_processCopy z3 node edge s =
     (if kLimit s = 0 then processCopy wave_getDiffPts node edge s
      else do {
        (parentChanged, s1) \<leftarrow> processCopy wave_getDiffPts node edge s;
        let guard = guardOrTrue (eguard edge);
        let m = condEntry node s1;
        let r1 = wave_copyEntries z3 guard node (edst edge) m s1;
        let (condChanged, s2) = wave_copyImplicit z3 guard (edst edge) m (getPts (snd r1) node) r1;
        Some (parentChanged \<or> condChanged, s2)
      })"

definition wave_processLoad :: "node_id \<Rightarrow> cedge \<Rightarrow> 'a wander_scheme \<Rightarrow> (bool \<times> 'a wander_scheme) option" where
  "wave_processLoad = cond_processLoad"

definition wave_processStore :: "node_id \<Rightarrow> cedge \<Rightarrow> 'a wander_scheme \<Rightarrow> (bool \<times> 'a wander_scheme) option" where
  "wave_processStore = cond_processStore"

section \<open>Field edges\<close>

text \<open>
  \<^verbatim>\<open>translateFieldLite\<close>: the object a field edge maps an object to, without making the object
  field-insensitive.
\<close>

definition translateFieldLite :: "cedge \<Rightarrow> node_id \<Rightarrow> 'a ander_scheme \<Rightarrow> (node_id \<times> 'a ander_scheme) option" where
  "translateFieldLite edge o1 s =
     (if ekind edge = VariantGep then
        do {
          blk \<leftarrow> isBlkObjOrConstantObj o1 (irs s);
          if blk then Some (o1, s) else map_option (\<lambda>b. (b, s)) (consFIObjVar o1 s)
        }
      else if ekind edge = NormalGep then
        do {
          blk \<leftarrow> isBlkObjOrConstantObj o1 (irs s);
          keep \<leftarrow> (if blk then Some True else isFieldInsensitive o1 (irs s));
          if keep then Some (o1, s) else consGepObjVar o1 (eap edge) s
        }
      else None)"

definition wave_gepCond :: "pathcond \<Rightarrow> pathcond \<Rightarrow> 'a wander_scheme \<Rightarrow> pathcond \<times> 'a wander_scheme" where
  "wave_gepCond edgeG og s =
     (if isTrue edgeG then (og, s)
      else let (keep, s1) = keepsGuard edgeG og s in
        if keep then (og, s1) else onStore (getAnd og edgeG) s1)"

text \<open>
  The guard of the object is looked up in the entry of the source as it stands. Unlike in the
  other loops, the False of a cut goes in even where the target's set lacks the field.
\<close>

definition wave_gepEntry :: "(bform \<Rightarrow> bool) \<Rightarrow> pathcond \<Rightarrow> cedge \<Rightarrow> node_id \<Rightarrow>
    bool \<times> 'a wander_scheme \<Rightarrow> (bool \<times> 'a wander_scheme) option" where
  "wave_gepEntry z3 edgeG edge o1 = (\<lambda>(changed, s).
     case map_of (condEntry (esrc edge) s) o1 of
       None \<Rightarrow> Some (changed, s)
     | Some og \<Rightarrow>
         if isFalse og then Some (changed, s)
         else do {
           (newField, s1) \<leftarrow> translateFieldLite edge o1 s;
           let (g, s2) = wave_gepCond edgeG og s1;
           if isTrue g then Some (changed, s2)
           else
             let (sat, s3) = (if eagerSat s2 then wave_z3IsSat z3 g s2 else (True, s2)) in
             if \<not> sat then Some (changed, snd (wave_orMergeCondPts (edst edge) newField getFalse (incCuts s3)))
             else if \<not> oset_find newField (getPts s3 (edst edge)) then Some (changed, s3)
             else let (c, s4) = wave_orMergeCondPts (edst edge) newField g s3 in Some (changed \<or> c, s4)
         })"

definition wave_gepEntries :: "(bform \<Rightarrow> bool) \<Rightarrow> pathcond \<Rightarrow> cedge \<Rightarrow> 'a wander_scheme \<Rightarrow> (bool \<times> 'a wander_scheme) option" where
  "wave_gepEntries z3 edgeG edge s =
     (if esrc edge = currentDiffNode s \<and> currentDiffObjs s \<noteq> [] \<and> map_of (condPtsMap s) (esrc edge) \<noteq> None
      then foldO (wave_gepEntry z3 edgeG edge) (currentDiffObjs s) (False, s)
      else Some (False, s))"

text \<open>\<open>had\<close>: whether the source had an entry when \<^verbatim>\<open>processGep\<close> looked it up.\<close>

definition wave_gepImplicit :: "(bform \<Rightarrow> bool) \<Rightarrow> pathcond \<Rightarrow> cedge \<Rightarrow> bool \<Rightarrow> bool \<times> 'a wander_scheme \<Rightarrow>
    (bool \<times> 'a wander_scheme) option" where
  "wave_gepImplicit z3 edgeG edge had = (\<lambda>(changed, s).
     if isTrue edgeG then Some (changed, s)
     else
       let (limitedEdgeG, s1) = wave_applyLimits edgeG s in
       if isTrue limitedEdgeG \<or> isFalse limitedEdgeG then Some (changed, s1)
       else
         let (sat, s2) = (if eagerSat s1 then wave_z3IsSat z3 limitedEdgeG s1 else (True, s1)) in
         foldO (\<lambda>o1 (ch, t).
             if had \<and> map_of (condEntry (esrc edge) t) o1 \<noteq> None then Some (ch, t)
             else do {
               (newField, t1) \<leftarrow> translateFieldLite edge o1 t;
               if \<not> oset_find newField (getPts t1 (edst edge)) then Some (ch, t1)
               else if \<not> sat then Some (ch, incCuts t1)
               else let (c, t2) = wave_orMergeCondPts (edst edge) newField limitedEdgeG t1 in Some (ch \<or> c, t2)
             }) (getPts s2 (esrc edge)) (changed, s2))"

definition wave_processGep :: "(bform \<Rightarrow> bool) \<Rightarrow> node_id \<Rightarrow> cedge \<Rightarrow> 'a wander_scheme \<Rightarrow> (bool \<times> 'a wander_scheme) option" where
  "wave_processGep z3 _ edge s =
     (if kLimit s = 0 then processGep wave_getDiffPts (esrc edge) edge s
      else do {
        (parentChanged, s1) \<leftarrow> processGep wave_getDiffPts (esrc edge) edge s;
        let edgeG = guardOrTrue (eguard edge);
        let had = (map_of (condPtsMap s1) (esrc edge) \<noteq> None);
        r1 \<leftarrow> wave_gepEntries z3 edgeG edge s1;
        (condChanged, s2) \<leftarrow> wave_gepImplicit z3 edgeG edge had r1;
        Some (parentChanged \<or> condChanged, s2)
      })"

section \<open>Merging\<close>

definition wave_mergeSrcToTgt :: "node_id \<Rightarrow> node_id \<Rightarrow> 'a wander_scheme \<Rightarrow> (bool \<times> 'a wander_scheme) option" where
  "wave_mergeSrcToTgt nodeId newRepId s =
     (if nodeId = newRepId then Some (False, s)
      else
        let s1 = (case map_of (condPtsMap s) nodeId of
                    None \<Rightarrow> s
                  | Some m \<Rightarrow>
                      let t = fold (\<lambda>(obj, g) t. snd (wave_orMergeCondPts newRepId obj (if mergeCondSCC t then getTrue else g) t)) m s
                      in t\<lparr>condPtsMap := AList.delete nodeId (condPtsMap t)\<rparr>)
        in mergeSrcToTgt nodeId newRepId s1)"

definition wave_sccHasConditionalEdge :: "node_id oset \<Rightarrow> consg \<Rightarrow> bool option" where
  "wave_sccHasConditionalEdge = sccHasConditionalEdge"

definition wave_methods :: "(bform \<Rightarrow> bool) \<Rightarrow> 'a wander_scheme vmethods" where
  "wave_methods z3 = \<lparr>v_getDiffPts = wave_getDiffPts, v_processLoad = wave_processLoad, v_processStore = wave_processStore,
     v_processCopy = wave_processCopy z3, v_processGep = wave_processGep z3, v_mergeSrcToTgt = wave_mergeSrcToTgt\<rparr>"

definition wave_SCCDetect :: "(bform \<Rightarrow> bool) \<Rightarrow> 'a wander_scheme \<Rightarrow> 'a wander_scheme option" where
  "wave_SCCDetect z3 = cond_SCCDetect (wave_methods z3)"

section \<open>Nodes\<close>

definition wave_handleCopyGep :: "(bform \<Rightarrow> bool) \<Rightarrow> node_id \<Rightarrow> 'a wander_scheme \<Rightarrow> 'a wander_scheme option" where
  "wave_handleCopyGep z3 nodeId s =
     (if kLimit s = 0 then handleCopyGep (wave_methods z3) nodeId s
      else
        let s0 = diffStep nodeId s in
        if wave_getDiffPts s0 nodeId \<noteq> [] \<or> (nodeId = currentDiffNode s0 \<and> currentDiffObjs s0 \<noteq> [])
        then do {
          s1 \<leftarrow> foldO (\<lambda>e t. map_option snd (wave_processCopy z3 nodeId e t)) (getCopyOutEdges nodeId (consCG s0)) s0;
          foldO (\<lambda>e t. map_option snd (wave_processGep z3 nodeId e t)) (getGepOutEdges nodeId (consCG s1)) s1
        }
        else Some s0)"

text \<open>How \<^verbatim>\<open>processNode\<close> and \<^verbatim>\<open>postProcessNode\<close> begin: the differences of the node become the current ones.\<close>

definition takeDiff :: "node_id \<Rightarrow> 'a wander_scheme \<Rightarrow> 'a wander_scheme" where
  "takeDiff nodeId s = s\<lparr>currentDiffNode := nodeId,
     currentDiffObjs := (case condDiffPtsMap s nodeId of None \<Rightarrow> [] | Some d \<Rightarrow> d),
     condDiffPtsMap := (condDiffPtsMap s)(nodeId := None)\<rparr>"

text \<open>The loop over the other members of a component that was not merged.\<close>

definition wave_subNodesLoop :: "(node_id \<Rightarrow> 'a wander_scheme \<Rightarrow> 'a wander_scheme option) \<Rightarrow> node_id \<Rightarrow>
    'a wander_scheme \<Rightarrow> 'a wander_scheme option" where
  "wave_subNodesLoop f nodeId s =
     (case subNodes nodeId (sccD s) of
        None \<Rightarrow> Some s
      | Some subs \<Rightarrow>
          if length subs > 1
          then foldO (\<lambda>subId t. if subId \<noteq> nodeId \<and> subId \<in> set (cnodes (consCG t)) then f subId t else Some t) subs s
          else Some s)"

definition wave_processNode :: "(bform \<Rightarrow> bool) \<Rightarrow> node_id \<Rightarrow> 'a wander_scheme \<Rightarrow> 'a wander_scheme option" where
  "wave_processNode z3 nodeId s =
     (if nodeId \<notin> set (cnodes (consCG s)) then Some s
      else do {
        s1 \<leftarrow> wd_processNode (wave_handleCopyGep z3) nodeId (takeDiff nodeId s);
        if mergeCondSCC s1 then Some s1 else wave_subNodesLoop (wave_handleCopyGep z3) nodeId s1
      })"

definition wave_postSubNode :: "(bform \<Rightarrow> bool) \<Rightarrow> node_id \<Rightarrow> 'a wander_scheme \<Rightarrow> 'a wander_scheme option" where
  "wave_postSubNode z3 subId s =
     do {
       s1 \<leftarrow> foldO (wd_handleEdge wave_processLoad subId) (filter (\<lambda>e. ekind e = Load) (getOutEdges subId (consCG s))) s;
       s2 \<leftarrow> foldO (wd_handleEdge wave_processStore subId) (filter (\<lambda>e. ekind e = Store) (getInEdges subId (consCG s1))) s1;
       wave_handleCopyGep z3 subId s2
     }"

definition wave_postProcessNode :: "(bform \<Rightarrow> bool) \<Rightarrow> node_id \<Rightarrow> 'a wander_scheme \<Rightarrow> 'a wander_scheme option" where
  "wave_postProcessNode z3 nodeId s =
     (if nodeId \<notin> set (cnodes (consCG s)) then Some s
      else do {
        s1 \<leftarrow> wd_postProcessNode (wave_methods z3) nodeId (takeDiff nodeId s);
        if mergeCondSCC s1 \<or> rep_of s1 nodeId \<noteq> nodeId then Some s1
        else do {
          node \<leftarrow> getConstraintNode nodeId (consCG s1);
          s2 \<leftarrow> wave_handleCopyGep z3 node s1;
          wave_subNodesLoop (wave_postSubNode z3) nodeId s2
        }
      })"

definition wave_solveWorklist :: "nat \<Rightarrow> nat \<Rightarrow> (bform \<Rightarrow> bool) \<Rightarrow> 'a wander_scheme \<Rightarrow> 'a wander_scheme option" where
  "wave_solveWorklist k n z3 = solveBy k n (wave_methods z3) (wave_processNode z3) (wave_postProcessNode z3)"

section \<open>Alias queries\<close>

definition wave_expandCondFIObjs :: "node_id \<Rightarrow> 'a wander_scheme \<Rightarrow> (cond_pts \<times> 'a wander_scheme) option" where
  "wave_expandCondFIObjs = expandCondFIObjs"

definition wave_alias :: "(bform \<Rightarrow> bool) \<Rightarrow> node_id \<Rightarrow> node_id \<Rightarrow> 'a wander_scheme \<Rightarrow> (alias_result \<times> 'a wander_scheme) option" where
  "wave_alias z3 v1 v2 s =
     (let s0 = s\<lparr>numAliasTotal := u32 (numAliasTotal s + 1)\<rparr> in
      if v1 = v2 then Some (MustAlias, s0)
      else do {
        base \<leftarrow> aliasPts (getPts s0 (rep_of s0 v1)) (getPts s0 (rep_of s0 v2)) (irs s0);
        if base = NoAlias then Some (NoAlias, s0)
        else do {
          (pts1, s1) \<leftarrow> wave_expandCondFIObjs v1 s0;
          (pts2, s2) \<leftarrow> wave_expandCondFIObjs v2 s1;
          if pts1 = [] \<or> pts2 = [] then Some (MayAlias, s2)
          else Some (aliasLoop z3 pts1 pts2 s2)
        }
      })"

definition wave_aliasVars :: "(bform \<Rightarrow> bool) \<Rightarrow> node_id \<Rightarrow> node_id \<Rightarrow> 'a wander_scheme \<Rightarrow>
    (alias_result \<times> 'a wander_scheme) option" where
  "wave_aliasVars z3 v1 v2 s = (if v1 = v2 then Some (MustAlias, s) else wave_alias z3 v1 v2 s)"

text \<open>The count \<^verbatim>\<open>finalize\<close> makes.\<close>

definition wave_countCondPts :: "'a wander_scheme \<Rightarrow> 'a wander_scheme" where
  "wave_countCondPts s = countCondPts s"

end
