(* ===== verification/CondAndersen_Correct.thy ===== *)
theory CondAndersen_Correct
  imports CondAndersen Andersen_Correct
begin

text \<open>
  What the conditional analysis of theory \<open>CondAndersen\<close> does to guards. Every operation is shown to
  leave the part of the state that \<open>Andersen\<close> knows as that analysis leaves it (\<open>gstep\<close>, \<open>kept\<close>) and
  to keep all guards valid in the store (\<open>cond_inv\<close>). The theorems then say which guard a member of
  a set ends up with, and where that guard is stronger than the paths allow.
\<close>

section \<open>Steps that touch the guards only\<close>

definition same_opts :: "'a cander_scheme \<Rightarrow> 'a cander_scheme \<Rightarrow> bool" where
  "same_opts s t \<longleftrightarrow> kLimit t = kLimit s \<and> eagerSat t = eagerSat s \<and> useFastGuard t = useFastGuard s
     \<and> useDepthLimit t = useDepthLimit s \<and> mLimit t = mLimit s \<and> nLimit t = nLimit s \<and> mergeCondSCC t = mergeCondSCC s"

text \<open>The part of the state that \<open>Andersen\<close> knows.\<close>

definition same_base :: "'a cander_scheme \<Rightarrow> 'a cander_scheme \<Rightarrow> bool" where
  "same_base s t \<longleftrightarrow> ander.truncate t = ander.truncate s"

definition gstep :: "'a cander_scheme \<Rightarrow> 'a cander_scheme \<Rightarrow> bool" where
  "gstep s t \<longleftrightarrow> same_base s t \<and> same_opts s t \<and> store_inv (pst t) \<and> extends (pst s) (pst t)
     \<and> edgeGuards t = edgeGuards s"

lemma same_base_simps:
  "same_base s t \<longleftrightarrow> consCG t = consCG s \<and> ptD t = ptD s \<and> irs t = irs s \<and> wlist t = wlist s
     \<and> reanalyze t = reanalyze s \<and> DiffPts t = DiffPts s \<and> numOfProcessedAddr t = numOfProcessedAddr s
     \<and> numOfProcessedCopy t = numOfProcessedCopy s \<and> numOfProcessedGep t = numOfProcessedGep s
     \<and> numOfProcessedLoad t = numOfProcessedLoad s \<and> numOfProcessedStore t = numOfProcessedStore s
     \<and> DetectPWC t = DetectPWC s \<and> sccD t = sccD s \<and> redundantGepNodes t = redundantGepNodes s
     \<and> callsite2DummyValPN t = callsite2DummyValPN s \<and> numOfSCCDetection t = numOfSCCDetection s
     \<and> numOfIteration t = numOfIteration s"
  by (auto simp: same_base_def ander.truncate_def)

lemma same_base_getPts: "same_base s t \<Longrightarrow> getPts t = getPts s" "same_base s t \<Longrightarrow> rep_of t = rep_of s"
  by (simp_all add: same_base_simps getPts_def rep_of_def fun_eq_iff)

lemma gstep_refl: "store_inv (pst s) \<Longrightarrow> gstep s s"
  by (simp add: gstep_def same_base_def same_opts_def)

lemma gstep_trans [trans]: "gstep s t \<Longrightarrow> gstep t u \<Longrightarrow> gstep s u"
  unfolding gstep_def same_base_def same_opts_def using extends_trans[of "pst s" "pst t" "pst u"] by simp

lemma gstep_valid: "gstep s t \<Longrightarrow> valid g (pst s) \<Longrightarrow> valid g (pst t)"
  unfolding gstep_def using valid_mono by blast

lemma gstep_store:
  "store_inv p \<Longrightarrow> extends (pst s) p \<Longrightarrow> gstep s (s\<lparr>pst := p\<rparr>)"
  by (simp add: gstep_def same_base_simps same_opts_def)

lemma onStore_simps: "onStore f s = (fst (f (pst s)), s\<lparr>pst := snd (f (pst s))\<rparr>)"
  by (simp add: onStore_def case_prod_beta)

text \<open>
  The specification of an operation that returns a guard: it keeps the rest of the state and
  the conditional sets, and the guard it returns holds wherever \<open>P\<close> does.
\<close>

definition weaker :: "'a cander_scheme \<Rightarrow> pathcond \<times> 'a cander_scheme \<Rightarrow> ((node_id \<Rightarrow> bool) \<Rightarrow> bool) \<Rightarrow> bool" where
  "weaker s r P \<longleftrightarrow> gstep s (snd r) \<and> condPtsMap (snd r) = condPtsMap s \<and> valid (fst r) (pst (snd r))
     \<and> (\<forall>env. P env \<longrightarrow> peval env (fst r))"

lemma weaker_same: "store_inv (pst s) \<Longrightarrow> valid c (pst s) \<Longrightarrow> weaker s (c, s) (\<lambda>env. peval env c)"
  by (simp add: weaker_def gstep_refl)

lemma weaker_True:
  assumes "gstep s t" "condPtsMap t = condPtsMap s" "c = getTrue \<or> c = getCappedTrue"
  shows "weaker s (c, t) P"
  using assms valid_statics[of "pst t"] by (auto simp: weaker_def gstep_def)

lemma weaker_trans:
  assumes "weaker s r P" "weaker (snd r) r' (\<lambda>env. peval env (fst r))"
  shows "weaker s r' P"
  using assms gstep_trans unfolding weaker_def by fastforce

lemma weaker_getAnd:
  assumes "store_inv (pst s)" "valid a (pst s)" "valid b (pst s)"
  shows "weaker s (onStore (getAnd a b) s) (\<lambda>env. peval env a \<and> peval env b)"
  using pcs.conj_keeps[OF assms] getAnd_weak[OF assms]
  by (simp add: weaker_def onStore_simps gstep_store)

section \<open>Limits weaken guards\<close>

lemma buildAndChain_spec:
  assumes "store_inv p" "\<forall>l \<in> set ls. valid l p"
  shows "store_inv (snd (buildAndChain ls p)) \<and> extends p (snd (buildAndChain ls p))
    \<and> valid (fst (buildAndChain ls p)) (snd (buildAndChain ls p))
    \<and> (\<forall>env. (\<forall>l \<in> set ls. peval env l) \<longrightarrow> peval env (fst (buildAndChain ls p)))"
proof (cases ls)
  case Nil
  then show ?thesis using assms valid_statics by (simp add: buildAndChain_def)
next
  case (Cons l ls')
  have "valid l p" "\<forall>k \<in> set ls'. valid k p" using assms(2) Cons by auto
  from pcs.conj_list[OF assms(1) this] show ?thesis by (simp add: buildAndChain_def Cons case_prod_beta)
qed

lemma leaves_subconds: "set (extractAndLeaves p out) \<subseteq> set out \<union> subconds p"
proof (induction p arbitrary: out)
  case (AndC a l r)
  have "set (extractAndLeaves (AndC a l r) out) \<subseteq> set (extractAndLeaves l out) \<union> subconds r"
    using AndC.IH(2)[of "extractAndLeaves l out"] by simp
  then show ?case using AndC.IH(1)[of out] by auto
next
  case (OrC a l r)
  have "set (extractAndLeaves (OrC a l r) out) \<subseteq> set (extractAndLeaves l out) \<union> subconds r"
    using OrC.IH(2)[of "extractAndLeaves l out"] by simp
  then show ?case using OrC.IH(1)[of out] by auto
qed auto

lemma leaves_hold:
  assumes "isPureAndChain p" "peval env p" "\<forall>l \<in> set out. peval env l"
  shows "\<forall>l \<in> set (extractAndLeaves p out). peval env l"
  using assms
proof (induction p arbitrary: out)
  case (AndC a l r)
  have "\<forall>k \<in> set (extractAndLeaves l out). peval env k" using AndC.IH(1)[of out] AndC.prems by simp
  then show ?case using AndC.IH(2)[of "extractAndLeaves l out"] AndC.prems by simp
qed auto

lemma dedupLits_subset: "set (dedupLits leaves) \<subseteq> set leaves"
proof -
  have "set (snd (fold (\<lambda>l (seen, dedup).
       if litOf l \<in> seen then (seen, dedup) else (insert (litOf l) seen, dedup @ [l])) ls (S, d))) \<subseteq> set ls \<union> set d"
    for ls :: "pathcond list" and S d
  proof (induction ls arbitrary: S d)
    case (Cons l ls)
    show ?case
      using Cons.IH[of S d] Cons.IH[of "insert (litOf l) S" "d @ [l]"] by (cases "litOf l \<in> S") auto
  qed simp
  from this[of "rev leaves" "{}" "[]"] show ?thesis by (simp add: dedupLits_def)
qed

lemma truncateChain_weaker:
  assumes inv: "store_inv (pst s)" and v: "valid c (pst s)"
  shows "weaker s (truncateChain c s) (\<lambda>env. peval env c)"
proof -
  let ?d = "dedupLits (extractAndLeaves c [])"
  let ?t = "drop (length ?d - mLimit s) ?d"
  have keep: "weaker s (c, s) (\<lambda>env. peval env c)" by (rule weaker_same[OF inv v])
  show ?thesis
  proof (cases "mLimit s > 0 \<and> isPureAndChain c \<and> length ?d > mLimit s")
    case True
    have sub: "set ?t \<subseteq> set (extractAndLeaves c [])"
      using set_drop_subset[of _ ?d] dedupLits_subset by fast
    have "\<forall>l \<in> set ?t. valid l (pst s)"
      using sub leaves_subconds[of c "[]"] valid_subconds[OF inv v] by auto
    note b = buildAndChain_spec[OF inv this]
    let ?r = "onStore (buildAndChain ?t) s"
    have t: "truncateChain c s = (fst ?r, (snd ?r)\<lparr>conjCappedGuards := insert (caddr (fst ?r)) (conjCappedGuards (snd ?r))\<rparr>)"
      using True by (simp add: truncateChain_def Let_def case_prod_beta)
    have "\<forall>env. peval env c \<longrightarrow> peval env (fst ?r)"
    proof (intro allI impI)
      fix env assume "peval env c"
      then have "\<forall>l \<in> set (extractAndLeaves c []). peval env l" using leaves_hold[of c env "[]"] True by simp
      then show "peval env (fst ?r)" using b sub by (simp add: onStore_simps subset_iff)
    qed
    moreover have "gstep s (snd (truncateChain c s))"
      unfolding t using b by (simp add: onStore_simps gstep_def same_base_simps same_opts_def)
    ultimately show ?thesis using b by (simp add: weaker_def t) (simp add: onStore_simps)
  qed (use keep in \<open>auto simp: truncateChain_def Let_def\<close>)
qed

lemma depth_gstep:
  assumes "store_inv (pst s)" "valid c (pst s)"
  shows "gstep s (snd (onStore (depthM c) s))" "fst (onStore (depthM c) s) = depth c"
    "condPtsMap (snd (onStore (depthM c) s)) = condPtsMap s"
  using depthM_spec[OF assms] memo_step_fields(6)[of "pst s"]
  by (simp_all add: onStore_simps gstep_store)

lemma countClauses_gstep:
  assumes "store_inv (pst s)" "valid c (pst s)"
  shows "gstep s (snd (countClauses c s))" "condPtsMap (snd (countClauses c s)) = condPtsMap s"
proof -
  have "gstep s (snd (onStore (clauseCount c cap) s))" for cap
    using clauseCount_ok[OF assms, of cap] clause_step_fields[of "pst s" "snd (clauseCount c cap (pst s))"]
    by (simp add: onStore_simps count_ok_def gstep_store)
  then show "gstep s (snd (countClauses c s))" using gstep_refl[OF assms(1)] by (simp add: countClauses_def)
  show "condPtsMap (snd (countClauses c s)) = condPtsMap s" by (simp add: countClauses_def onStore_simps)
qed

lemma applyLimits_weaker:
  assumes inv: "store_inv (pst s)" and v: "valid c (pst s)"
  shows "weaker s (applyLimits c s) (\<lambda>env. peval env c)"
proof -
  have keep: "weaker s (c, s) (\<lambda>env. peval env c)" by (rule weaker_same[OF inv v])
  have tr: "weaker s (getTrue, s) (\<lambda>env. peval env c)" by (rule weaker_True) (simp_all add: gstep_refl inv)
  note d = depth_gstep[OF inv v]
  have dk: "weaker s (c, snd (onStore (depthM c) s)) (\<lambda>env. peval env c)"
    using d gstep_valid[OF d(1) v] by (simp add: weaker_def)
  have dt: "weaker s (getTrue, snd (onStore (depthM c) s)) (\<lambda>env. peval env c)"
    using d by (intro weaker_True) simp_all
  let ?t = "truncateChain c s"
  have t: "weaker s ?t (\<lambda>env. peval env c)" by (rule truncateChain_weaker[OF inv v])
  then have ti: "store_inv (pst (snd ?t))" "valid (fst ?t) (pst (snd ?t))" by (auto simp: weaker_def gstep_def)
  note n = countClauses_gstep[OF ti]
  let ?n = "countClauses (fst ?t) (snd ?t)"
  have nk: "weaker s (fst ?t, snd ?n) (\<lambda>env. peval env c)"
    using t n gstep_trans[OF _ n(1), of s] gstep_valid[OF n(1) ti(2)] by (simp add: weaker_def)
  have nt: "weaker s (getCappedTrue, snd ?n) (\<lambda>env. peval env c)"
    using t n gstep_trans[OF _ n(1), of s] by (intro weaker_True) (auto simp: weaker_def)
  show ?thesis
    using keep tr dk dt t nk nt by (simp add: applyLimits_def case_prod_beta Let_def)
qed

section \<open>Conditional sets\<close>

definition guardAt :: "'a cander_scheme \<Rightarrow> node_id \<Rightarrow> node_id \<Rightarrow> pathcond option" where
  "guardAt s n o1 = map_of (condEntry n s) o1"

text \<open>The guard of a member of a set under an assignment: True without an entry.\<close>

definition gval :: "'a cander_scheme \<Rightarrow> node_id \<Rightarrow> node_id \<Rightarrow> (node_id \<Rightarrow> bool) \<Rightarrow> bool" where
  "gval s n o1 env = peval env (guardOrTrue (guardAt s n o1))"

definition cpts_ok :: "pstore \<Rightarrow> (node_id \<times> cond_pts) list \<Rightarrow> bool" where
  "cpts_ok p M \<longleftrightarrow> distinct (map fst M)
     \<and> (\<forall>nm \<in> set M. distinct (map fst (snd nm)) \<and> (\<forall>og \<in> set (snd nm). valid (snd og) p))"

definition edges_ok :: "pstore \<Rightarrow> consg \<Rightarrow> bool" where
  "edges_ok p g \<longleftrightarrow> (\<forall>e \<in> set (cedges g). \<forall>gd. eguard e = Some gd \<longrightarrow> valid gd p)"

definition cond_inv :: "'a cander_scheme \<Rightarrow> bool" where
  "cond_inv s \<longleftrightarrow> store_inv (pst s) \<and> cpts_ok (pst s) (condPtsMap s) \<and> edges_ok (pst s) (consCG s)"

lemma cond_inv_store: "cond_inv s \<Longrightarrow> store_inv (pst s)"
  by (simp add: cond_inv_def)

lemma guardOrTrue_simps [simp]: "guardOrTrue None = getTrue" "guardOrTrue (Some g) = g"
  by (simp_all add: guardOrTrue_def)

lemma cpts_ok_mono: "cpts_ok p M \<Longrightarrow> extends p q \<Longrightarrow> cpts_ok q M"
  unfolding cpts_ok_def using valid_mono by blast

lemma edges_ok_mono: "edges_ok p g \<Longrightarrow> extends p q \<Longrightarrow> edges_ok q g"
  unfolding edges_ok_def using valid_mono by blast

lemma condEntry_ok:
  assumes "cpts_ok p (condPtsMap s)"
  shows "distinct (map fst (condEntry n s))" "og \<in> set (condEntry n s) \<Longrightarrow> valid (snd og) p"
  using assms by (auto simp: condEntry_def cpts_ok_def split: option.splits dest!: map_of_SomeD)

lemma guardAt_valid: "cond_inv s \<Longrightarrow> guardAt s n o1 = Some g \<Longrightarrow> valid g (pst s)"
  using condEntry_ok(2)[of "pst s" s "(o1, g)" n] by (auto simp: cond_inv_def guardAt_def dest!: map_of_SomeD)

lemma guardOrTrue_valid: "cond_inv s \<Longrightarrow> valid (guardOrTrue (guardAt s n o1)) (pst s)"
  using guardAt_valid[of s n o1] valid_statics(1)[OF cond_inv_store[of s]] by (cases "guardAt s n o1") auto

lemma edge_guard_valid:
  "cond_inv s \<Longrightarrow> e \<in> set (cedges (consCG s)) \<Longrightarrow> valid (guardOrTrue (eguard e)) (pst s)"
  using valid_statics(1)[OF cond_inv_store[of s]] by (cases "eguard e") (auto simp: cond_inv_def edges_ok_def)

lemma condEntry_same: "condPtsMap t = condPtsMap s \<Longrightarrow> condEntry n t = condEntry n s"
  by (simp add: condEntry_def)

lemma guardAt_same: "condPtsMap t = condPtsMap s \<Longrightarrow> guardAt t = guardAt s"
  by (simp add: guardAt_def condEntry_def fun_eq_iff)

lemma condEntry_setCondPts:
  "condEntry n (setCondPts v o1 g s) = (if n = v then AList.update o1 g (condEntry v s) else condEntry n s)"
  by (simp add: condEntry_def setCondPts_def)

lemma guardAt_setCondPts [simp]:
  "guardAt (setCondPts v o1 g s) n o2 = (if n = v \<and> o2 = o1 then Some g else guardAt s n o2)"
  by (simp add: guardAt_def condEntry_setCondPts)

lemma guardAt_eraseCondPts [simp]:
  "guardAt (eraseCondPts v o1 s) n o2 = (if n = v \<and> o2 = o1 then None else guardAt s n o2)"
proof (cases "map_of (condPtsMap s) v")
  case (Some m)
  have e: "map_of m o2 = None" if "AList.delete o1 m = []" "o2 \<noteq> o1"
    using that map_of_AList_delete[of o1 m] by (metis fun_upd_other map_of.simps(1))
  show ?thesis using Some e by (auto simp: guardAt_def condEntry_def eraseCondPts_def Let_def)
qed (auto simp: guardAt_def condEntry_def eraseCondPts_def)

lemma cpts_ok_update:
  assumes "cpts_ok p M" "distinct (map fst m)" "\<forall>og \<in> set m. valid (snd og) p"
  shows "cpts_ok p (AList.update v m M)"
  using assms set_AList_update_subset[of v m M] by (fastforce simp: cpts_ok_def distinct_update)

lemma cpts_ok_delete: "cpts_ok p M \<Longrightarrow> cpts_ok p (AList.delete v M)"
  using set_AList_delete_subset[of v M] by (auto simp: cpts_ok_def distinct_delete)

lemma cpts_ok_setCondPts:
  assumes "cpts_ok p (condPtsMap s)" "valid g p"
  shows "cpts_ok p (condPtsMap (setCondPts v o1 g s))"
proof -
  have "\<forall>og \<in> set (AList.update o1 g (condEntry v s)). valid (snd og) p"
    using set_AList_update_subset[of o1 g "condEntry v s"] condEntry_ok(2)[OF assms(1)] assms(2) by fastforce
  then show ?thesis
    using assms(1) condEntry_ok(1)[OF assms(1), of v] by (simp add: setCondPts_def cpts_ok_update distinct_update)
qed

lemma cpts_ok_eraseCondPts:
  assumes "cpts_ok p (condPtsMap s)"
  shows "cpts_ok p (condPtsMap (eraseCondPts v o1 s))"
proof (cases "map_of (condPtsMap s) v")
  case (Some m)
  have "distinct (map fst m)" "\<forall>og \<in> set m. valid (snd og) p"
    using assms Some by (auto simp: cpts_ok_def dest!: map_of_SomeD)
  then have "distinct (map fst (AList.delete o1 m))" "\<forall>og \<in> set (AList.delete o1 m). valid (snd og) p"
    using set_AList_delete_subset[of o1 m] by (auto simp: distinct_delete)
  then show ?thesis using Some assms by (auto simp: eraseCondPts_def Let_def intro!: cpts_ok_update cpts_ok_delete)
qed (simp add: eraseCondPts_def assms)

lemma set_erase_fields [simp]:
  "pst (setCondPts v o1 g s) = pst s" "pst (eraseCondPts v o1 s) = pst s"
  "same_base s (setCondPts v o1 g s)" "same_base s (eraseCondPts v o1 s)"
  "same_opts s (setCondPts v o1 g s)" "same_opts s (eraseCondPts v o1 s)"
  "edgeGuards (setCondPts v o1 g s) = edgeGuards s" "edgeGuards (eraseCondPts v o1 s) = edgeGuards s"
  by (auto simp: setCondPts_def eraseCondPts_def same_base_simps same_opts_def Let_def split: option.split)

text \<open>
  \<open>kept v A s t\<close>: from \<open>s\<close> to \<open>t\<close> only the guards of the objects \<open>A\<close> in the set of \<open>v\<close>
  change, beside what a step on the guards may change.
\<close>

definition kept :: "node_id \<Rightarrow> node_id set \<Rightarrow> 'a cander_scheme \<Rightarrow> 'a cander_scheme \<Rightarrow> bool" where
  "kept v A s t \<longleftrightarrow> gstep s t \<and> cpts_ok (pst t) (condPtsMap t)
     \<and> (\<forall>n o1. \<not> (n = v \<and> o1 \<in> A) \<longrightarrow> guardAt t n o1 = guardAt s n o1)"

lemma kept_trans: "kept v A s t \<Longrightarrow> kept v B t u \<Longrightarrow> kept v (A \<union> B) s u"
  unfolding kept_def using gstep_trans[of s t u] by auto

lemma kept_mono: "kept v A s t \<Longrightarrow> A \<subseteq> B \<Longrightarrow> kept v B s t"
  by (auto simp: kept_def)

lemma kept_cond_inv: "kept v A s t \<Longrightarrow> cond_inv s \<Longrightarrow> cond_inv t"
  using edges_ok_mono[of "pst s" "consCG s" "pst t"] by (auto simp: kept_def cond_inv_def gstep_def same_base_simps)

lemma weaker_kept: "weaker s r P \<Longrightarrow> cond_inv s \<Longrightarrow> kept v {} s (snd r)"
  using cpts_ok_mono[of "pst s" "condPtsMap s" "pst (snd r)"] guardAt_same[of "snd r" s]
  by (auto simp: weaker_def kept_def cond_inv_def gstep_def)

lemma kept_set: "cond_inv s \<Longrightarrow> valid g (pst s) \<Longrightarrow> kept v {o1} s (setCondPts v o1 g s)"
  by (auto simp: kept_def gstep_def cond_inv_def cpts_ok_setCondPts)

lemma kept_erase: "cond_inv s \<Longrightarrow> kept v {o1} s (eraseCondPts v o1 s)"
  by (auto simp: kept_def gstep_def cond_inv_def cpts_ok_eraseCondPts)

lemma kept_refl: "cond_inv s \<Longrightarrow> kept v {} s s"
  by (simp add: kept_def cond_inv_def gstep_refl)

section \<open>Merging a guard into an entry\<close>

lemma getOr_true:
  assumes "store_inv p" "valid a p" "valid b p" "isTrue (fst (getOr a b p))"
  shows "isTrue a \<or> isTrue b \<or> isCapped (fst (getOr a b p))"
proof (rule ccontr)
  assume n: "\<not> ?thesis"
  obtain deep p1 where t: "tooDeep a b p = (deep, p1)" by fastforce
  note ts = tooDeep_spec[OF assms(1-3), unfolded t, simplified]
  note fs = memo_step_fields[OF ts(3)]
  have v1: "valid a p1" "valid b p1" using assms(2,3) fs by auto
  have "\<not> isTrue r" if "orCache p1 (cacheKey a b) = Some r" for r
    using or_cache_hit[OF ts(2) v1 that] by (metis isTrue.simps(5))
  then show False using n assms(4) t
    by (auto simp: getOr_def Let_def split: if_splits option.splits)
qed

text \<open>The disjunction \<^verbatim>\<open>orMergeCondPts\<close> makes for an entry \<open>old\<close>.\<close>

abbreviation merged_guard :: "pathcond \<Rightarrow> pathcond \<Rightarrow> 'a cander_scheme \<Rightarrow> pathcond" where
  "merged_guard old g s \<equiv> fst (getOr old g (pst s))"

lemma orMerge_True: "isTrue g \<Longrightarrow> orMergeCondPts v o1 g s = (True, eraseCondPts v o1 s)"
  by (simp add: orMergeCondPts_def)

lemma orMerge_new: "\<not> isTrue g \<Longrightarrow> guardAt s v o1 = None \<Longrightarrow> orMergeCondPts v o1 g s = (True, setCondPts v o1 g s)"
  by (simp add: orMergeCondPts_def guardAt_def)

lemma orMerge_old:
  assumes "\<not> isTrue g" "guardAt s v o1 = Some old" and inv: "cond_inv s" and v: "valid g (pst s)"
  defines "s1 \<equiv> s\<lparr>pst := snd (getOr old g (pst s))\<rparr>" and "m \<equiv> merged_guard old g s"
  shows "kept v {} s s1 \<and> cond_inv s1 \<and> valid m (pst s1) \<and> valid old (pst s1)
    \<and> orMergeCondPts v o1 g s =
      (if caddr m = caddr old then (False, s1)
       else if isTrue m then (if isTrue old then (True, eraseCondPts v o1 s1) else (False, s1))
       else if useDepthLimit s then (True, setCondPts v o1 m s1)
       else (True, setCondPts v o1 (fst (applyLimits m s1)) (snd (applyLimits m s1))))"
proof -
  have vo: "valid old (pst s)" by (rule guardAt_valid[OF inv assms(2)])
  note k = pcs.disj_keeps[OF cond_inv_store[OF inv] vo v]
  have g: "gstep s s1" using k by (simp add: s1_def gstep_store)
  have "kept v {} s s1"
    using g inv cpts_ok_mono[of "pst s" "condPtsMap s" "pst s1"] guardAt_same[of s1 s]
    by (auto simp: kept_def cond_inv_def s1_def k)
  moreover have "valid m (pst s1)" "valid old (pst s1)"
    using k gstep_valid[OF g vo] by (simp_all add: m_def s1_def)
  moreover have "map_of (condEntry v s) o1 = Some old" using assms(2) by (simp add: guardAt_def)
  ultimately show ?thesis
    using assms(1) kept_cond_inv[of v "{}" s s1] inv
    by (simp add: orMergeCondPts_def onStore_simps s1_def m_def case_prod_beta)
qed

lemma orMerge_kept:
  assumes inv: "cond_inv s" and v: "valid g (pst s)"
  shows "kept v {o1} s (snd (orMergeCondPts v o1 g s))"
proof (cases "isTrue g")
  case True
  then show ?thesis using kept_erase[OF inv] by (simp add: orMerge_True)
next
  case nt: False
  show ?thesis
  proof (cases "guardAt s v o1")
    case None
    then show ?thesis using kept_set[OF inv v] nt by (simp add: orMerge_new)
  next
    case (Some old)
    let ?s1 = "s\<lparr>pst := snd (getOr old g (pst s))\<rparr>"
    let ?m = "merged_guard old g s"
    note o = orMerge_old[OF nt Some inv v]
    then have k: "kept v {} s ?s1" and i: "cond_inv ?s1" and vm: "valid ?m (pst ?s1)" by auto
    have l: "weaker ?s1 (applyLimits ?m ?s1) (\<lambda>env. peval env ?m)"
      by (rule applyLimits_weaker[OF cond_inv_store[OF i] vm])
    note kl = weaker_kept[OF l i]
    have il: "cond_inv (snd (applyLimits ?m ?s1))" by (rule kept_cond_inv[OF kl i])
    have vl: "valid (fst (applyLimits ?m ?s1)) (pst (snd (applyLimits ?m ?s1)))" using l by (simp add: weaker_def)
    have "kept v {o1} s ?s1" by (rule kept_mono[OF k]) simp
    moreover have "kept v {o1} s (eraseCondPts v o1 ?s1)" using kept_trans[OF k kept_erase[OF i]] by simp
    moreover have "kept v {o1} s (setCondPts v o1 ?m ?s1)" using kept_trans[OF k kept_set[OF i vm]] by simp
    moreover have "kept v {o1} s (setCondPts v o1 (fst (applyLimits ?m ?s1)) (snd (applyLimits ?m ?s1)))"
      using kept_trans[OF kept_trans[OF k kl] kept_set[OF il vl]] by simp
    moreover have "snd (orMergeCondPts v o1 g s) \<in> {?s1, eraseCondPts v o1 ?s1, setCondPts v o1 ?m ?s1,
        setCondPts v o1 (fst (applyLimits ?m ?s1)) (snd (applyLimits ?m ?s1))}"
      using o by simp
    ultimately show ?thesis by auto
  qed
qed

lemma kept_same: "kept v A s t \<Longrightarrow> \<not> (n = v \<and> o1 \<in> A) \<Longrightarrow> guardAt t n o1 = guardAt s n o1"
  unfolding kept_def by blast

text \<open>What the loops that merge guards into the set of one node keep, and what they give each object.\<close>

lemma fold_kept:
  assumes step: "\<And>x ch t. x \<in> set xs \<Longrightarrow> cond_inv t \<Longrightarrow> gstep s t \<Longrightarrow>
      kept v {key x} t (snd (f x (ch, t))) \<and> (guardAt t v (key x) = None \<longrightarrow> P x (gval (snd (f x (ch, t))) v (key x)))"
    and inv: "cond_inv s" and d: "distinct (map key xs)"
  shows "kept v (key ` set xs) s (snd (fold f xs (c, s)))
    \<and> (\<forall>x \<in> set xs. guardAt s v (key x) = None \<longrightarrow> P x (gval (snd (fold f xs (c, s))) v (key x)))"
proof -
  have "kept v (key ` set ys) t (snd (fold f ys (b, t)))
      \<and> (\<forall>x \<in> set ys. guardAt t v (key x) = None \<longrightarrow> P x (gval (snd (fold f ys (b, t))) v (key x)))"
    if "set ys \<subseteq> set xs" "distinct (map key ys)" "cond_inv t" "gstep s t" for ys b t
    using that
  proof (induction ys arbitrary: b t)
    case (Cons y ys)
    obtain b' t' where u: "f y (b, t) = (b', t')" by fastforce
    have st: "kept v {key y} t t'" "guardAt t v (key y) = None \<longrightarrow> P y (gval t' v (key y))"
      using step[of y t b] Cons.prems u by auto
    have i': "cond_inv t'" by (rule kept_cond_inv[OF st(1) Cons.prems(3)])
    have g': "gstep s t'" using Cons.prems(4) st(1) gstep_trans by (auto simp: kept_def)
    let ?z = "snd (fold f ys (b', t'))"
    have IH: "kept v (key ` set ys) t' ?z"
      "\<forall>x \<in> set ys. guardAt t' v (key x) = None \<longrightarrow> P x (gval ?z v (key x))"
      using Cons.IH[of t' b'] Cons.prems i' g' by auto
    have ny: "key y \<notin> key ` set ys" using Cons.prems(2) by auto
    then have "guardAt ?z v (key y) = guardAt t' v (key y)" using IH(1) by (simp add: kept_def)
    then have "gval ?z v (key y) = gval t' v (key y)" by (simp add: gval_def fun_eq_iff)
    moreover have "guardAt t' v (key x) = guardAt t v (key x)" if "x \<in> set ys" for x
    proof -
      have "key x \<noteq> key y" using ny that by (metis imageI)
      then show ?thesis using kept_same[OF st(1)] by simp
    qed
    ultimately show ?case using kept_trans[OF st(1) IH(1)] st(2) IH(2) u by auto
  qed (simp add: kept_refl)
  from this[OF subset_refl d inv gstep_refl[OF cond_inv_store[OF inv]]] show ?thesis .
qed

lemma gval_None: "guardAt s v o1 = None \<Longrightarrow> gval s v o1 env"
  by (simp add: gval_def)

lemma gval_orMerge_new:
  assumes "guardAt s v o1 = None"
  shows "gval (snd (orMergeCondPts v o1 g s)) v o1 env \<longleftrightarrow> peval env g"
  using assms isTrue_peval[of g env]
  by (cases "isTrue g") (simp_all add: orMerge_True orMerge_new gval_def)

section \<open>Copy edges\<close>

lemma z3IsSat_simps:
  "gstep s (snd (z3IsSat z3 c s)) = store_inv (pst s)" "condPtsMap (snd (z3IsSat z3 c s)) = condPtsMap s"
  "pst (snd (z3IsSat z3 c s)) = pst s"
  by (simp_all add: z3IsSat_def gstep_def same_base_simps same_opts_def)

lemma kept_z3IsSat: "cond_inv s \<Longrightarrow> kept v {} s (snd (z3IsSat z3 c s))"
  using guardAt_same[OF z3IsSat_simps(2), of z3 c s] by (simp add: kept_def z3IsSat_simps cond_inv_def)

lemma kept_cuts: "cond_inv s \<Longrightarrow> kept v {} s (s\<lparr>numEagerSatCuts := n\<rparr>)"
  by (simp add: kept_def gstep_def same_base_simps same_opts_def cond_inv_def guardAt_def condEntry_def)

lemma copyCond_weaker:
  assumes inv: "store_inv (pst s)" and c: "valid cond (pst s)" and g: "valid guard (pst s)"
  shows "weaker s (copyCond guard cond s) (\<lambda>env. peval env cond \<and> peval env guard)"
proof -
  let ?P = "\<lambda>env. peval env cond \<and> peval env guard"
  have keep: "weaker t (cond, t) ?P" if "store_inv (pst t)" "valid cond (pst t)" for t :: "'a cander_scheme"
    using weaker_same[OF that] by (simp add: weaker_def)
  have conj: "weaker t (applyLimits (fst (onStore (getAnd cond guard) t)) (snd (onStore (getAnd cond guard) t))) ?P"
    if "store_inv (pst t)" "valid cond (pst t)" "valid guard (pst t)" for t :: "'a cander_scheme"
  proof -
    have a: "weaker t (onStore (getAnd cond guard) t) ?P" by (rule weaker_getAnd[OF that])
    show ?thesis by (rule weaker_trans[OF a applyLimits_weaker]) (use a in \<open>auto simp: weaker_def gstep_def\<close>)
  qed
  let ?t1 = "snd (onStore (depthM cond) s)"
  let ?t2 = "snd (onStore (depthM guard) ?t1)"
  note d1 = depth_gstep[OF inv c]
  have i1: "store_inv (pst ?t1)" using d1(1) by (simp add: gstep_def)
  note d2 = depth_gstep[OF i1 gstep_valid[OF d1(1) g]]
  have g2: "gstep s ?t2" by (rule gstep_trans[OF d1(1) d2(1)])
  have i2: "store_inv (pst ?t2)" "valid cond (pst ?t2)" "valid guard (pst ?t2)"
    using g2 gstep_valid[OF g2] c g by (simp_all add: gstep_def)
  have lift: "weaker s r ?P" if "weaker ?t2 r ?P" for r
    using that gstep_trans[OF g2, of "snd r"] d1(3) d2(3) by (simp add: weaker_def)
  show ?thesis
    using keep[OF inv c] conj[OF inv c g] lift[OF keep[OF i2(1,2)]] lift[OF conj[OF i2]]
    by (simp add: copyCond_def Let_def case_prod_beta)
qed

lemma copyEntry_step:
  assumes inv: "cond_inv t" and c: "valid cond (pst t)" and g: "valid guard (pst t)"
  shows "kept dst {obj} t (snd (copyEntry z3 guard dst (obj, cond) (ch, t)))
    \<and> (guardAt t dst obj = None \<longrightarrow>
        (\<forall>env. peval env cond \<and> peval env guard \<longrightarrow> gval (snd (copyEntry z3 guard dst (obj, cond) (ch, t))) dst obj env))"
proof -
  let ?r = "copyCond guard cond t"
  obtain sat s2 where z: "(if eagerSat (snd ?r) then z3IsSat z3 (fst ?r) (snd ?r) else (True, snd ?r)) = (sat, s2)"
    by fastforce
  have w: "weaker t ?r (\<lambda>env. peval env cond \<and> peval env guard)"
    by (rule copyCond_weaker[OF cond_inv_store[OF inv] c g])
  have k1: "kept dst {} t (snd ?r)" by (rule weaker_kept[OF w inv])
  have i1: "cond_inv (snd ?r)" by (rule kept_cond_inv[OF k1 inv])
  have k2: "kept dst {} (snd ?r) s2"
    using kept_z3IsSat[OF i1, of dst z3 "fst ?r"] kept_refl[OF i1, of dst] z by (auto split: if_splits)
  have i2: "cond_inv s2" by (rule kept_cond_inv[OF k2 i1])
  have k12: "kept dst {} t s2" using kept_trans[OF k1 k2] by simp
  have "gstep (snd ?r) s2" using k2 by (simp add: kept_def)
  then have v2: "valid (fst ?r) (pst s2)" using gstep_valid w by (auto simp: weaker_def)
  have g2: "guardAt s2 dst obj = guardAt t dst obj" using kept_same[OF k12] by simp
  show ?thesis
  proof (cases sat)
    case True
    then have e: "snd (copyEntry z3 guard dst (obj, cond) (ch, t)) = snd (orMergeCondPts dst obj (fst ?r) s2)"
      using z by (simp add: copyEntry_def Let_def case_prod_beta)
    have "kept dst {obj} t (snd (orMergeCondPts dst obj (fst ?r) s2))"
      using kept_trans[OF k12 orMerge_kept[OF i2 v2]] by simp
    then show ?thesis
      unfolding e using gval_orMerge_new[of s2 dst obj "fst ?r"] w g2 by (simp add: weaker_def)
  next
    case False
    let ?c = "s2\<lparr>numEagerSatCuts := u32 (numEagerSatCuts s2 + 1)\<rparr>"
    have e: "snd (copyEntry z3 guard dst (obj, cond) (ch, t)) = ?c"
      using False z by (simp add: copyEntry_def Let_def case_prod_beta)
    have k3: "kept dst {} t ?c" using kept_trans[OF k12 kept_cuts[OF i2]] by simp
    have "guardAt ?c dst obj = guardAt t dst obj" using kept_same[OF k3] by simp
    then show ?thesis unfolding e using kept_mono[OF k3, of "{obj}"] gval_None[of ?c dst obj] by simp
  qed
qed

lemma copyLoop_spec:
  assumes inv: "cond_inv s" and g: "valid guard (pst s)"
    and e: "distinct (map fst entry)" "\<forall>og \<in> set entry. valid (snd og) (pst s)"
  shows "kept dst (fst ` set entry) s (snd (fold (copyEntry z3 guard dst) entry (c, s)))
    \<and> (\<forall>og \<in> set entry. guardAt s dst (fst og) = None \<longrightarrow>
        (\<forall>env. peval env (snd og) \<and> peval env guard \<longrightarrow> gval (snd (fold (copyEntry z3 guard dst) entry (c, s))) dst (fst og) env))"
proof (rule fold_kept[where P = "\<lambda>og G. \<forall>env. peval env (snd og) \<and> peval env guard \<longrightarrow> G env"])
  fix og ch and t :: "'a cander_scheme"
  assume og: "og \<in> set entry" and i: "cond_inv t" and st: "gstep s t"
  have "valid (snd og) (pst t)" "valid guard (pst t)" using og e(2) g gstep_valid[OF st] by auto
  from copyEntry_step[OF i this, of dst "fst og" z3 ch]
  show "kept dst {fst og} t (snd (copyEntry z3 guard dst og (ch, t)))
    \<and> (guardAt t dst (fst og) = None \<longrightarrow>
        (\<forall>env. peval env (snd og) \<and> peval env guard \<longrightarrow> gval (snd (copyEntry z3 guard dst og (ch, t))) dst (fst og) env))"
    by simp
qed (use inv e in auto)

lemma implicitLoop_spec:
  fixes s :: "'a cander_scheme" and dst :: node_id
  assumes inv: "cond_inv s" and g: "valid lg (pst s)" and d: "distinct objs"
  defines "f \<equiv> \<lambda>obj (ch, t :: 'a cander_scheme). let (c, t1) = orMergeCondPts dst obj lg t in (ch \<or> c, t1)"
  shows "kept dst (set objs) s (snd (fold f objs (c, s)))
    \<and> (\<forall>obj \<in> set objs. guardAt s dst obj = None \<longrightarrow> (\<forall>env. gval (snd (fold f objs (c, s))) dst obj env = peval env lg))"
proof -
  have "kept dst ((\<lambda>x. x) ` set objs) s (snd (fold f objs (c, s)))
    \<and> (\<forall>obj \<in> set objs. guardAt s dst obj = None \<longrightarrow> (\<forall>env. gval (snd (fold f objs (c, s))) dst obj env = peval env lg))"
  proof (rule fold_kept[where P = "\<lambda>obj G. \<forall>env. G env = peval env lg"])
    fix obj ch and t :: "'a cander_scheme"
    assume i: "cond_inv t" and st: "gstep s t"
    have v: "valid lg (pst t)" using g gstep_valid[OF st] by simp
    have e: "snd (f obj (ch, t)) = snd (orMergeCondPts dst obj lg t)" by (simp add: f_def case_prod_beta)
    show "kept dst {obj} t (snd (f obj (ch, t)))
      \<and> (guardAt t dst obj = None \<longrightarrow> (\<forall>env. gval (snd (f obj (ch, t))) dst obj env = peval env lg))"
      unfolding e using orMerge_kept[OF i v] gval_orMerge_new[of t dst obj lg] by simp
  qed (use inv d in auto)
  then show ?thesis by simp
qed

lemma applyLimits_kept:
  assumes "cond_inv s" "valid g (pst s)"
  shows "kept v {} s (snd (applyLimits g s))" "valid (fst (applyLimits g s)) (pst (snd (applyLimits g s)))"
    "peval env g \<Longrightarrow> peval env (fst (applyLimits g s))"
  using applyLimits_weaker[OF cond_inv_store[OF assms(1)] assms(2)] weaker_kept[OF _ assms(1)]
  by (auto simp: weaker_def)

lemma copyImplicit_spec:
  assumes inv: "cond_inv s" and g: "valid guard (pst s)" and d: "distinct pts"
  shows "kept dst {obj \<in> set pts. map_of entry obj = None} s (snd (copyImplicit z3 guard dst entry pts (c, s)))
    \<and> (\<forall>obj \<in> set pts. map_of entry obj = None \<and> guardAt s dst obj = None \<longrightarrow>
        (\<forall>env. peval env guard \<longrightarrow> gval (snd (copyImplicit z3 guard dst entry pts (c, s))) dst obj env))"
proof -
  let ?l = "applyLimits guard s"
  let ?A = "{obj \<in> set pts. map_of entry obj = None}"
  obtain sat s2 where z: "(if eagerSat (snd ?l) then z3IsSat z3 (fst ?l) (snd ?l) else (True, snd ?l)) = (sat, s2)"
    by fastforce
  note l = applyLimits_kept[OF inv g]
  have i1: "cond_inv (snd ?l)" by (rule kept_cond_inv[OF l(1) inv])
  have k2: "kept dst {} (snd ?l) s2"
    using kept_z3IsSat[OF i1, of dst z3 "fst ?l"] kept_refl[OF i1, of dst] z by (auto split: if_splits)
  have i2: "cond_inv s2" by (rule kept_cond_inv[OF k2 i1])
  have k12: "kept dst {} s s2" using kept_trans[OF l(1) k2] by simp
  have "gstep (snd ?l) s2" using k2 by (simp add: kept_def)
  then have v2: "valid (fst ?l) (pst s2)" using gstep_valid l(2) by blast
  have none: ?thesis if "kept dst {} s t" "snd (copyImplicit z3 guard dst entry pts (c, s)) = t" for t
    using kept_mono[OF that(1), of ?A] kept_same[OF that(1)] gval_None[of t dst] that(2) by simp
  consider "isTrue guard" | "\<not> isTrue guard" "isFalse (fst ?l)" | "\<not> isTrue guard" "\<not> isFalse (fst ?l)" "\<not> sat"
    | "\<not> isTrue guard" "\<not> isFalse (fst ?l)" "sat" by blast
  then show ?thesis
  proof cases
    case 1
    show ?thesis by (rule none[OF kept_refl[OF inv]]) (simp add: copyImplicit_def 1)
  next
    case 2
    show ?thesis by (rule none[OF l(1)]) (simp add: copyImplicit_def 2 case_prod_beta)
  next
    case 3
    show ?thesis
      by (rule none[OF kept_trans[OF k12 kept_cuts[OF i2], simplified]])
        (simp add: copyImplicit_def 3 case_prod_beta Let_def z)
  next
    case 4
    let ?objs = "filter (\<lambda>obj. map_of entry obj = None) pts"
    let ?f = "\<lambda>obj (ch, t). let (c, t1) = orMergeCondPts dst obj (fst ?l) t in (ch \<or> c, t1)"
    have "distinct ?objs" using d by simp
    note f = implicitLoop_spec[OF i2 v2 this, of dst c]
    have e: "copyImplicit z3 guard dst entry pts (c, s) = fold ?f ?objs (c, s2)"
      using 4 z by (simp add: copyImplicit_def case_prod_beta Let_def)
    have k: "kept dst ?A s (snd (fold ?f ?objs (c, s2)))" using kept_trans[OF k12, of "set ?objs"] f by simp
    have "gval (snd (fold ?f ?objs (c, s2))) dst obj env"
      if "obj \<in> set pts" "map_of entry obj = None" "guardAt s dst obj = None" "peval env guard" for obj env
    proof -
      have "obj \<in> set ?objs" "guardAt s2 dst obj = None" using that kept_same[OF k12] by auto
      then show ?thesis using f l(3)[OF that(4)] by blast
    qed
    then show ?thesis using k unfolding e by blast
  qed
qed

section \<open>processCopy\<close>

lemma processCopy_more: "processCopy diff n e s = Some (b, t) \<Longrightarrow> ander.more t = ander.more s"
  by (auto simp: processCopy_def unionPts_def pushIntoWorklist_def Let_def case_prod_beta split: if_splits)

lemma more_fields:
  fixes s t :: "'a cander_scheme"
  assumes "ander.more t = ander.more s"
  shows "pst t = pst s" "condPtsMap t = condPtsMap s" "edgeGuards t = edgeGuards s" "same_opts s t"
  using assms by (cases s; cases t; simp add: same_opts_def)+

lemma cond_getDiffPts_count [simp]: "cond_getDiffPts (s\<lparr>numOfProcessedCopy := n\<rparr>) = cond_getDiffPts s"
  by (simp add: cond_getDiffPts_def rep_of_def fun_eq_iff)

lemma cond_getDiffPts_getPts: "cond_getDiffPts s n = getPts s n"
  by (simp add: cond_getDiffPts_def getPts_def)

lemma cond_processCopy_spec:
  assumes r: "cond_processCopy z3 n e s = Some (b, s')" and k: "kLimit s \<noteq> 0"
    and inv: "cond_inv s" and dd: "dd_inv (ptD s)" and e: "e \<in> set (cedges (consCG s))"
  shows "\<exists>b0 t. processCopy cond_getDiffPts n e s = Some (b0, t) \<and> same_base t s' \<and> (b0 \<longrightarrow> b)
    \<and> kept (edst e) (set (getPts s n) \<union> {obj. guardAt s n obj \<noteq> None}) t s' \<and> cond_inv t \<and> guardAt t = guardAt s
    \<and> (\<forall>obj. (obj \<in> set (getPts s n) \<or> guardAt s n obj \<noteq> None) \<and> guardAt s (edst e) obj = None \<longrightarrow>
        (\<forall>env. gval s n obj env \<and> peval env (guardOrTrue (eguard e)) \<longrightarrow> gval s' (edst e) obj env))"
proof -
  let ?guard = "guardOrTrue (eguard e)"
  obtain b0 t where t: "processCopy cond_getDiffPts n e s = Some (b0, t)"
    using r k by (cases "processCopy cond_getDiffPts n e s") (auto simp: cond_processCopy_def)
  note c = processCopy_Some[OF t dd cond_getDiffPts_count]
  note m = more_fields[OF processCopy_more[OF t]]
  have it: "cond_inv t" using inv c(4) m by (simp add: cond_inv_def)
  have gt: "guardAt t = guardAt s" by (rule guardAt_same[OF m(2)])
  let ?entry = "condEntry n t"
  have en: "map_of ?entry obj = guardAt s n obj" for obj by (simp add: gt[symmetric] guardAt_def)
  have eo: "distinct (map fst ?entry)" "\<forall>og \<in> set ?entry. valid (snd og) (pst t)"
    using condEntry_ok[of "pst t" t] it by (auto simp: cond_inv_def)
  have keys: "fst ` set ?entry = {obj. guardAt s n obj \<noteq> None}"
    using en map_of_eq_None_iff[of ?entry] by auto
  have gv: "valid ?guard (pst t)" by (rule edge_guard_valid[OF it]) (simp add: c(4) e)
  let ?r1 = "fold (copyEntry z3 ?guard (edst e)) ?entry (False, t)"
  note l1 = copyLoop_spec[OF it gv eo, of "edst e" z3 False]
  have k1: "kept (edst e) {obj. guardAt s n obj \<noteq> None} t (snd ?r1)" using l1 keys by simp
  have i1: "cond_inv (snd ?r1)" by (rule kept_cond_inv[OF k1 it])
  have g1: "gstep t (snd ?r1)" using k1 by (simp add: kept_def)
  let ?pts = "getPts (snd ?r1) n"
  have "?pts = getPts t n" using g1 same_base_getPts(1)[of t "snd ?r1"] by (simp add: gstep_def)
  then have ptsn: "set ?pts = set (getPts s n)"
    using c(1)[of n] by (simp add: cond_getDiffPts_getPts)
  have "oset_inv ?pts" using dd.pts_oset[of "ptD (snd ?r1)"] c(3) g1 by (simp add: getPts_def gstep_def same_base_simps)
  then have dp: "distinct ?pts" by (simp add: oset_inv_def)
  let ?r2 = "copyImplicit z3 ?guard (edst e) ?entry ?pts (fst ?r1, snd ?r1)"
  note l2 = copyImplicit_spec[OF i1 gstep_valid[OF g1 gv] dp, of "edst e" ?entry z3 "fst ?r1"]
  have s': "s' = snd ?r2" "b = (b0 \<or> fst ?r2)"
    using r k t by (auto simp: cond_processCopy_def Let_def case_prod_beta)
  have k2: "kept (edst e) {obj \<in> set ?pts. map_of ?entry obj = None} (snd ?r1) s'" using l2 s' by simp
  have kk: "kept (edst e) (set (getPts s n) \<union> {obj. guardAt s n obj \<noteq> None}) t s'"
    by (rule kept_mono[OF kept_trans[OF k1 k2]]) (auto simp: ptsn)
  have "gval s' (edst e) obj env"
    if o1: "obj \<in> set (getPts s n) \<or> guardAt s n obj \<noteq> None" and none: "guardAt s (edst e) obj = None"
      and env: "gval s n obj env" "peval env ?guard" for obj env
  proof (cases "guardAt s n obj")
    case (Some gd)
    then have "(obj, gd) \<in> set ?entry" using en[of obj] by (auto dest: map_of_SomeD)
    moreover have "peval env gd" using env(1) Some by (simp add: gval_def)
    ultimately have "gval (snd ?r1) (edst e) obj env" using l1 none env(2) gt by force
    moreover have "guardAt s' (edst e) obj = guardAt (snd ?r1) (edst e) obj"
      using kept_same[OF k2] Some en[of obj] by simp
    ultimately show ?thesis by (simp add: gval_def)
  next
    case None
    then have "guardAt (snd ?r1) (edst e) obj = None" using kept_same[OF k1] none gt by simp
    moreover have "obj \<in> set ?pts" using o1 None ptsn by simp
    ultimately show ?thesis unfolding s'(1) using conjunct2[OF l2] None en[of obj] env(2) by simp
  qed
  moreover have "same_base t s'" using kk by (simp add: kept_def gstep_def)
  ultimately show ?thesis using t kk it gt s'(2) by blast
qed

text \<open>Without limits every object the source holds unconditionally gets exactly the guard of the edge.\<close>

lemma applyLimits_none: "kLimit s = -1 \<Longrightarrow> useDepthLimit s \<Longrightarrow> applyLimits g s = (g, s)"
  by (simp add: applyLimits_def)

lemma copyImplicit_exact:
  assumes inv: "cond_inv s" and g: "valid guard (pst s)" and d: "distinct pts"
    and o: "kLimit s = -1" "useDepthLimit s" "\<not> eagerSat s" "\<not> isTrue guard" "\<not> isFalse guard"
    and obj: "obj \<in> set pts" "map_of entry obj = None" "guardAt s dst obj = None"
  shows "gval (snd (copyImplicit z3 guard dst entry pts (c, s))) dst obj env = peval env guard"
proof -
  let ?objs = "filter (\<lambda>obj. map_of entry obj = None) pts"
  let ?f = "\<lambda>obj (ch, t). let (c, t1) = orMergeCondPts dst obj guard t in (ch \<or> c, t1)"
  have "copyImplicit z3 guard dst entry pts (c, s) = fold ?f ?objs (c, s)"
    using o by (simp add: copyImplicit_def applyLimits_none)
  moreover have "distinct ?objs" using d by simp
  note implicitLoop_spec[OF inv g this, of dst c]
  ultimately show ?thesis using obj by simp
qed

lemma cond_processCopy_exact:
  assumes r: "cond_processCopy z3 n e s = Some (b, s')" and o: "kLimit s = -1" "useDepthLimit s" "\<not> eagerSat s"
    and inv: "cond_inv s" and dd: "dd_inv (ptD s)" and e: "e \<in> set (cedges (consCG s))"
    and g: "eguard e = Some guard" "\<not> isTrue guard" "\<not> isFalse guard"
    and obj: "obj \<in> set (getPts s n)" "guardAt s n obj = None" "guardAt s (edst e) obj = None"
  shows "gval s' (edst e) obj env = peval env guard"
proof -
  obtain b0 t where t: "processCopy cond_getDiffPts n e s = Some (b0, t)"
    using r o by (cases "processCopy cond_getDiffPts n e s") (auto simp: cond_processCopy_def)
  note c = processCopy_Some[OF t dd cond_getDiffPts_count]
  note m = more_fields[OF processCopy_more[OF t]]
  have it: "cond_inv t" using inv c(4) m by (simp add: cond_inv_def)
  have gt: "guardAt t = guardAt s" by (rule guardAt_same[OF m(2)])
  let ?entry = "condEntry n t"
  have en: "map_of ?entry o1 = guardAt s n o1" for o1 by (simp add: gt[symmetric] guardAt_def)
  have eo: "distinct (map fst ?entry)" "\<forall>og \<in> set ?entry. valid (snd og) (pst t)"
    using condEntry_ok[of "pst t" t] it by (auto simp: cond_inv_def)
  have gv: "valid guard (pst t)" using edge_guard_valid[OF it, of e] by (simp add: c(4) e g)
  let ?r1 = "fold (copyEntry z3 guard (edst e)) ?entry (False, t)"
  have k1: "kept (edst e) (fst ` set ?entry) t (snd ?r1)" using copyLoop_spec[OF it gv eo] by blast
  have i1: "cond_inv (snd ?r1)" by (rule kept_cond_inv[OF k1 it])
  have g1: "gstep t (snd ?r1)" using k1 by (simp add: kept_def)
  have pe: "getPts (snd ?r1) n = getPts t n" using g1 same_base_getPts(1)[of t "snd ?r1"] by (simp add: gstep_def)
  have "oset_inv (getPts (snd ?r1) n)" using dd.pts_oset[OF c(3)] by (simp add: pe) (simp add: getPts_def)
  then have dp: "distinct (getPts (snd ?r1) n)" by (simp add: oset_inv_def)
  have o1: "kLimit (snd ?r1) = -1" "useDepthLimit (snd ?r1)" "\<not> eagerSat (snd ?r1)"
    using o m(4) g1 by (auto simp: gstep_def same_opts_def)
  have mem: "obj \<in> set (getPts (snd ?r1) n)" using c(1)[of n] obj(1) by (simp add: pe)
  have "obj \<notin> fst ` set ?entry" using en[of obj] obj(2) by (simp add: map_of_eq_None_iff)
  then have none: "guardAt (snd ?r1) (edst e) obj = None" using kept_same[OF k1] obj(3) gt by simp
  have "map_of ?entry obj = None" using en obj(2) by simp
  note x = copyImplicit_exact[OF i1 gstep_valid[OF g1 gv] dp o1 g(2,3) mem this none, of z3 "fst ?r1" env]
  have "s' = snd (copyImplicit z3 guard (edst e) ?entry (getPts (snd ?r1) n) (fst ?r1, snd ?r1))"
    using r o t g by (auto simp: cond_processCopy_def Let_def case_prod_beta)
  then show ?thesis using x by simp
qed

section \<open>Guards of blocks\<close>

definition condEdges :: "basic_block \<Rightarrow> (node_id \<times> bool) set" where
  "condEdges bb = {(c, v \<noteq> 0) | c v. IntraCFGEdge (Some c) v \<in> set (concat bb)}"

text \<open>What \<open>bbEdge\<close> builds: False, an atom, or disjunctions of atoms.\<close>

fun orOfAtoms :: "pathcond \<Rightarrow> bool" where
  "orOfAtoms (AtomC _ _ _) = True"
| "orOfAtoms (OrC _ l r) = (orOfAtoms l \<and> orOfAtoms r)"
| "orOfAtoms _ = False"

lemma atom_not_absorbed: "orOfAtoms g \<Longrightarrow> \<not> absorbed g (AtomC a b t)"
  by (cases g) (auto simp: absorbed_def isAndSubset_iff)

lemma getOr_orOfAtoms:
  assumes "store_inv p" "valid a p" "valid b p" "orOfAtoms a" "orOfAtoms b"
  shows "isCapped (fst (getOr a b p)) \<or> orOfAtoms (fst (getOr a b p))"
proof -
  obtain deep p1 where t: "tooDeep a b p = (deep, p1)" by fastforce
  note ts = tooDeep_spec[OF assms(1-3), unfolded t, simplified]
  note fs = memo_step_fields[OF ts(3)]
  have v1: "valid a p1" "valid b p1" using assms(2,3) fs by auto
  have "orOfAtoms r" if "orCache p1 (cacheKey a b) = Some r" for r
    using or_cache_hit[OF ts(2) v1 that] assms(4,5) by (metis orOfAtoms.simps(2))
  moreover have "\<not> isTrue a" "\<not> isTrue b" using assms(4,5) by (cases a; cases b; simp)+
  ultimately show ?thesis using assms(4,5) t
    by (auto simp: getOr_def Let_def split: if_splits option.splits)
qed

text \<open>Only an operand deeper than 100 makes the disjunction of atoms the capped True.\<close>

lemma getOr_orOfAtoms_depth:
  assumes "store_inv p" "valid a p" "valid b p" "orOfAtoms a" "orOfAtoms b"
  shows "isTrue (fst (getOr a b p)) \<Longrightarrow> 100 < depth a \<or> 100 < depth b"
    "orOfAtoms (fst (getOr a b p)) \<Longrightarrow> depth (fst (getOr a b p)) \<le> Suc (max (depth a) (depth b))"
proof -
  obtain deep p1 where t: "tooDeep a b p = (deep, p1)" by fastforce
  note ts = tooDeep_spec[OF assms(1-3), unfolded t, simplified]
  note fs = memo_step_fields[OF ts(3)]
  have v1: "valid a p1" "valid b p1" using assms(2,3) fs by auto
  have nt: "\<not> isTrue a" "\<not> isTrue b" using assms(4,5) by (cases a; cases b; simp)+
  have hit: "\<not> isTrue r \<and> depth r = Suc (max (depth a) (depth b))" if "orCache p1 (cacheKey a b) = Some r" for r
  proof -
    have "r = OrC (caddr r) a b \<or> r = OrC (caddr r) b a" using or_cache_hit[OF ts(2) v1 that] by blast
    then show ?thesis by (elim disjE; cases r) (auto simp: max_def Let_def)
  qed
  have le: "depth a \<le> Suc (max (depth a) (depth b))" "depth b \<le> Suc (max (depth a) (depth b))" by simp_all
  show "isTrue (fst (getOr a b p)) \<Longrightarrow> 100 < depth a \<or> 100 < depth b"
    using nt t ts(1) hit by (auto simp: getOr_def Let_def split: if_splits option.splits)
  show "orOfAtoms (fst (getOr a b p)) \<Longrightarrow> depth (fst (getOr a b p)) \<le> Suc (max (depth a) (depth b))"
    using nt t hit le by (auto simp: getOr_def getTrue_def getCappedTrue_def Let_def max_def split: if_splits option.splits)
qed

text \<open>The accumulator after the edges \<open>es\<close>.\<close>

definition condEdge :: "icfg_edge \<Rightarrow> bool" where
  "condEdge edge = (\<exists>c v. edge = IntraCFGEdge (Some c) v)"

definition bb_state :: "pstore \<Rightarrow> icfg_edge list \<Rightarrow> pathcond \<times> bool \<times> pstore \<Rightarrow> bool" where
  "bb_state p0 es = (\<lambda>(g, has, p). store_inv p \<and> extends p0 p \<and> valid g p
     \<and> has = (\<exists>edge \<in> set es. condEdge edge)
     \<and> (has \<and> isTrue g \<and> 101 < length (filter condEdge es) \<or> \<not> has \<and> g = getFalse
        \<or> has \<and> orOfAtoms g \<and> depth g \<le> length (filter condEdge es) \<and> (\<forall>env. peval env g \<longleftrightarrow> (\<exists>c v. IntraCFGEdge (Some c) v \<in> set es \<and> env c = (v \<noteq> 0)))))"

lemma bbEdge_state:
  assumes "bb_state p0 es st"
  shows "bb_state p0 (es @ [edge]) (bbEdge edge st)"
proof -
  obtain g has p where st: "st = (g, has, p)" by (cases st)
  have I: "store_inv p" "extends p0 p" "valid g p" "has = (\<exists>edge \<in> set es. condEdge edge)"
    using assms by (simp_all add: bb_state_def st)
  show ?thesis
  proof (cases "condEdge edge")
    case False
    then have e: "bbEdge edge st = st"
      by (cases edge rule: icfg_edge.exhaust) (auto simp: bbEdge_def st condEdge_def split: option.splits)
    have "IntraCFGEdge (Some c) v \<noteq> edge" for c v using False by (auto simp: condEdge_def)
    then show ?thesis using assms False unfolding e by (auto simp: bb_state_def st)
  next
    case True
    then obtain c v where edge: "edge = IntraCFGEdge (Some c) v" by (auto simp: condEdge_def)
    obtain at p1 where a: "getAtom c (v \<noteq> 0) p = (at, p1)" by fastforce
    note ai = getAtom_inv[OF I(1) a]
    obtain g' p2 where o: "getOr g at p1 = (g', p2)" by fastforce
    have vg: "valid g p1" using valid_mono[OF I(3) ai(2)] .
    have r: "bbEdge edge st = (g', True, p2)" by (simp add: bbEdge_def st edge a o)
    have k: "store_inv p2" "extends p1 p2" "valid g' p2"
      using getOr_keeps(1-3)[OF ai(1) vg ai(3)] o by simp_all
    have ext: "extends p0 p2" using I(2) ai(2) k(2) extends_trans by blast
    have at: "orOfAtoms at" "\<not> isTrue at" "\<not> isFalse at" using a by (auto simp: getAtom_def Let_def)
    let ?n = "length (filter condEdge es)"
    let ?Q = "\<forall>env. peval env g' \<longleftrightarrow> (\<exists>c' v'. IntraCFGEdge (Some c') v' \<in> set (es @ [edge]) \<and> env c' = (v' \<noteq> 0))"
    have Q: "isTrue g' \<and> 100 < ?n \<or> orOfAtoms g' \<and> depth g' \<le> Suc ?n \<and> ?Q"
    proof -
      consider "isTrue g" "101 < ?n" | "\<not> has" "g = getFalse"
        | "orOfAtoms g" "depth g \<le> ?n" "\<forall>env. peval env g \<longleftrightarrow> (\<exists>c v. IntraCFGEdge (Some c) v \<in> set es \<and> env c = (v \<noteq> 0))"
          "has"
        using assms by (auto simp: bb_state_def st)
      then show ?thesis
      proof cases
        case 1
        then show ?thesis using o by (auto simp: getOr_def)
      next
        case 2
        then have "g' = at" using o at by (auto simp: getOr_def)
        moreover have "IntraCFGEdge (Some c') v' \<notin> set es" for c' v' using 2 I(4) by (auto simp: condEdge_def)
        moreover have "depth at = 1" using a by (auto simp: getAtom_def Let_def)
        ultimately show ?thesis using at ai(4) by (auto simp: edge)
      next
        case 3
        obtain a' b' t' where at': "at = AtomC a' b' t'" using a by (auto simp: getAtom_def Let_def)
        have n: "0 < ?n" using 3(4) I(4) by (auto simp: filter_empty_conv)
        have "\<not> absorbed g at" unfolding at' by (rule atom_not_absorbed[OF 3(1)])
        then have "op_spec p1 (g', p2) (\<lambda>env. peval env g \<or> peval env at)"
          using getOr_exact[OF ai(1) vg ai(3)] o by simp
        moreover have "isCapped g' \<or> orOfAtoms g'"
          using getOr_orOfAtoms[OF ai(1) vg ai(3) 3(1) at(1)] o by simp
        moreover have "max (depth g) (depth at) \<le> ?n" using 3(2) n by (simp add: at' Suc_le_eq)
        then have "isTrue g' \<Longrightarrow> 100 < ?n" "orOfAtoms g' \<Longrightarrow> depth g' \<le> Suc ?n"
          using getOr_orOfAtoms_depth[OF ai(1) vg ai(3) 3(1) at(1), unfolded o fst_conv] by linarith+
        ultimately have "isTrue g' \<and> 100 < ?n
            \<or> orOfAtoms g' \<and> depth g' \<le> Suc ?n \<and> (\<forall>env. peval env g' \<longleftrightarrow> peval env g \<or> env c = (v \<noteq> 0))"
          using ai(4) isCapped_isTrue[of g'] by (auto simp: op_spec_def)
        moreover have "(\<exists>c' v'. IntraCFGEdge (Some c') v' \<in> set (es @ [edge]) \<and> env c' = (v' \<noteq> 0))
            \<longleftrightarrow> peval env g \<or> env c = (v \<noteq> 0)" for env
          unfolding edge set_append 3(3)[rule_format] by auto
        ultimately show ?thesis by presburger
      qed
    qed
    have has: "\<exists>edge' \<in> set (es @ [edge]). condEdge edge'" using True by simp
    have "length (filter condEdge (es @ [edge])) = Suc ?n" using True by simp
    then have "isTrue g' \<and> 101 < length (filter condEdge (es @ [edge]))
        \<or> orOfAtoms g' \<and> depth g' \<le> length (filter condEdge (es @ [edge])) \<and> ?Q" using Q by auto
    then show ?thesis unfolding r bb_state_def prod.case using k(1,3) ext has by blast
  qed
qed

lemma fold_concat: "fold (\<lambda>xs st. fold f xs st) xss st = fold f (concat xss) st"
  by (induction xss arbitrary: st) auto

lemma bb_state_fold: "bb_state p0 ds st \<Longrightarrow> bb_state p0 (ds @ es) (fold bbEdge es st)"
proof (induction es arbitrary: ds st)
  case (Cons e es)
  from Cons.IH[OF bbEdge_state[OF Cons.prems, of e]] show ?case by simp
qed simp

lemma getBBGuard_spec:
  assumes "store_inv p"
  shows "case getBBGuard (Some bb) p of (r, p') \<Rightarrow> store_inv p' \<and> extends p p' \<and> valid r p'
    \<and> (condEdges bb = {} \<longrightarrow> r = getTrue)
    \<and> (condEdges bb \<noteq> {} \<longrightarrow> isTrue r \<and> 101 < length (filter condEdge (concat bb))
         \<or> (\<forall>env. peval env r \<longleftrightarrow> (\<exists>(c, t) \<in> condEdges bb. env c = t)))"
proof -
  have "bb_state p [] (getFalse, False, p)" using assms valid_statics by (simp add: bb_state_def)
  from bb_state_fold[OF this, of "concat bb"]
  have b: "bb_state p (concat bb) (fold (\<lambda>entry st. fold bbEdge entry st) bb (getFalse, False, p))"
    by (simp add: fold_concat)
  obtain g has p' where st: "fold (\<lambda>entry st. fold bbEdge entry st) bb (getFalse, False, p) = (g, has, p')"
    by (cases "fold (\<lambda>entry st. fold bbEdge entry st) bb (getFalse, False, p)")
  have e: "(\<exists>edge \<in> set (concat bb). condEdge edge) \<longleftrightarrow> condEdges bb \<noteq> {}"
    unfolding condEdges_def condEdge_def by blast
  have x: "(\<exists>c v. IntraCFGEdge (Some c) v \<in> set (concat bb) \<and> env c = (v \<noteq> 0)) \<longleftrightarrow> (\<exists>(c, t) \<in> condEdges bb. env c = t)" for env
    unfolding condEdges_def by blast
  have B: "store_inv p'" "extends p p'" "valid g p'" "has \<longleftrightarrow> condEdges bb \<noteq> {}"
    "has \<and> isTrue g \<and> 101 < length (filter condEdge (concat bb)) \<or> \<not> has \<and> g = getFalse
      \<or> has \<and> orOfAtoms g \<and> (\<forall>env. peval env g \<longleftrightarrow> (\<exists>(c, t) \<in> condEdges bb. env c = t))"
    using b unfolding st bb_state_def e x by auto
  have "getBBGuard (Some bb) p = (if has then g else getTrue, p')" by (simp add: getBBGuard_def st)
  then show ?thesis using B valid_statics[OF B(1)] by auto
qed

section \<open>Guards on edges\<close>

definition mergedEdgeGuard :: "cedge \<Rightarrow> pathcond \<Rightarrow> 'a cander_scheme \<Rightarrow> pathcond" where
  "mergedEdgeGuard e guard s =
     (case eguard e of
        None \<Rightarrow> guard
      | Some old \<Rightarrow> if isTrue old then guard else fst (getOr old guard (pst s)))"

lemma orGuardOnEdge_spec:
  assumes inv: "cond_inv s" "consg_inv (consCG s)" and e: "e \<in> set (cedges (consCG s))" and v: "valid guard (pst s)"
  shows "consCG (orGuardOnEdge e guard s) = setGuard e (Some (mergedEdgeGuard e guard s)) (consCG s)
    \<and> ptD (orGuardOnEdge e guard s) = ptD s \<and> condPtsMap (orGuardOnEdge e guard s) = condPtsMap s
    \<and> cond_inv (orGuardOnEdge e guard s)"
proof -
  have si: "store_inv (pst s)" by (rule cond_inv_store[OF inv(1)])
  have edges: "edges_ok p (setGuard e (Some g) (consCG s))" if "edges_ok p (consCG s)" "valid g p" for g p
    using that by (auto simp: edges_ok_def setGuard_cedges[OF inv(2) e])
  show ?thesis
  proof (cases "\<exists>old. eguard e = Some old \<and> \<not> isTrue old")
    case True
    then obtain old where old: "eguard e = Some old" "\<not> isTrue old" by blast
    then have vo: "valid old (pst s)" using inv(1) e by (auto simp: cond_inv_def edges_ok_def)
    note k = pcs.disj_keeps[OF si vo v]
    then have "cpts_ok (snd (getOr old guard (pst s))) (condPtsMap s)" "edges_ok (snd (getOr old guard (pst s))) (consCG s)"
      using inv(1) cpts_ok_mono edges_ok_mono by (auto simp: cond_inv_def)
    then show ?thesis using k edges old
      by (simp add: orGuardOnEdge_def mergedEdgeGuard_def onStore_simps cond_inv_def)
  next
    case False
    then have "orGuardOnEdge e guard s = s\<lparr>consCG := setGuard e (Some guard) (consCG s)\<rparr>" "mergedEdgeGuard e guard s = guard"
      by (auto simp: orGuardOnEdge_def mergedEdgeGuard_def split: option.splits)
    then show ?thesis using inv(1) edges[of "pst s" guard] v by (simp add: cond_inv_def)
  qed
qed

lemma mergeCopyEdgeGuard_spec:
  assumes inv: "cond_inv s" "consg_inv (consCG s)" and e: "e \<in> set (cedges (consCG s))" "ekind e = Copy"
    and g: "valid guard (pst s)" "\<not> isTrue guard"
  shows "\<exists>s'. mergeCopyEdgeGuard (esrc e) (edst e) guard False s = Some s' \<and> cond_inv s' \<and> ptD s' = ptD s
    \<and> set (cedges (consCG s')) = insert (e\<lparr>eguard := Some (mergedEdgeGuard e guard s)\<rparr>) (set (cedges (consCG s)) - {e})"
proof -
  have l: "live (consCG s) (esrc e)" "live (consCG s) (edst e)" using consg_inv_ends[OF inv(2) e(1)] by simp_all
  have "findEdge Copy (esrc e) (edst e) (consCG s) = Some e"
    using e by (simp add: findEdge_Some[OF inv(2)] ekey_def)
  then have "mergeCopyEdgeGuard (esrc e) (edst e) guard False s = Some (orGuardOnEdge e guard s)"
    using g(2) l by (simp add: mergeCopyEdgeGuard_def live_getConstraintNode)
  then show ?thesis
    using orGuardOnEdge_spec[OF inv e(1) g(1)] by (simp add: setGuard_cedges[OF inv(2) e(1)])
qed

section \<open>Merging nodes\<close>

lemma orMerge_more: "ander.truncate (snd (orMergeCondPts v o1 g s)) = ander.truncate s"
  if "cond_inv s" "valid g (pst s)"
  using orMerge_kept[OF that] by (simp add: kept_def gstep_def same_base_def)

lemma mergeLoop_spec:
  fixes s :: "'a cander_scheme" and r :: node_id
  assumes inv: "cond_inv s" and m: "distinct (map fst m)" "\<forall>og \<in> set m. valid (snd og) (pst s)" and o: "\<not> mergeCondSCC s"
  defines "f \<equiv> \<lambda>(obj, g) (t :: 'a cander_scheme). snd (orMergeCondPts r obj (if mergeCondSCC t then getTrue else g) t)"
  shows "kept r (fst ` set m) s (fold f m s)
    \<and> (\<forall>og \<in> set m. guardAt s r (fst og) = None \<longrightarrow> (\<forall>env. gval (fold f m s) r (fst og) env = peval env (snd og)))"
proof -
  let ?f = "\<lambda>og (c :: bool, t). (c, f og t)"
  have e: "snd (fold ?f m (False, t)) = fold f m t" for t by (induction m arbitrary: t) auto
  have "kept r (fst ` set m) s (snd (fold ?f m (False, s)))
    \<and> (\<forall>og \<in> set m. guardAt s r (fst og) = None \<longrightarrow> (\<forall>env. gval (snd (fold ?f m (False, s))) r (fst og) env = peval env (snd og)))"
  proof (rule fold_kept[where P = "\<lambda>og G. \<forall>env. G env = peval env (snd og)"])
    fix og :: "node_id \<times> pathcond" and ch :: bool and t :: "'a cander_scheme"
    assume og: "og \<in> set m" and i: "cond_inv t" and st: "gstep s t"
    have v: "valid (snd og) (pst t)" using og m(2) gstep_valid[OF st] by auto
    have "\<not> mergeCondSCC t" using o st by (simp add: gstep_def same_opts_def)
    then have f: "f og t = snd (orMergeCondPts r (fst og) (snd og) t)" by (simp add: f_def case_prod_beta)
    show "kept r {fst og} t (snd (?f og (ch, t)))
      \<and> (guardAt t r (fst og) = None \<longrightarrow> (\<forall>env. gval (snd (?f og (ch, t))) r (fst og) env = peval env (snd og)))"
      using orMerge_kept[OF i v] gval_orMerge_new[of t r "fst og" "snd og"] by (simp add: f)
  qed (use inv m in auto)
  then show ?thesis by (simp add: e)
qed

lemma guardAt_delete:
  "guardAt (s\<lparr>condPtsMap := AList.delete n (condPtsMap s)\<rparr>) v o1 = (if v = n then None else guardAt s v o1)"
  by (simp add: guardAt_def condEntry_def)

lemma mergeSrcToTgt_cond: "mergeSrcToTgt n r s = Some (pwc, t) \<Longrightarrow> ander.more t = ander.more s"
  by (auto simp: mergeSrcToTgt_def Let_def Option.bind_eq_Some_conv unionPtsNode_def updatePropaPts_def case_prod_beta
      split: if_splits)

lemma cond_mergeSrcToTgt_spec:
  assumes inv: "cond_inv s" and o: "\<not> mergeCondSCC s"
    and base: "consg_inv (consCG s)" "dd_inv (ptD s)" "scc_ok (consCG s)"
    and l: "live (consCG s) n" "live (consCG s) r" and ne: "n \<noteq> r"
  shows "\<exists>pwc s'. cond_mergeSrcToTgt n r s = Some (pwc, s')
    \<and> set (getPts s' r) = set (getPts s n) \<union> set (getPts s r) \<and> guardAt s' n = (\<lambda>_. None)
    \<and> (\<forall>obj g. guardAt s n obj = Some g \<and> guardAt s r obj = None \<longrightarrow> (\<forall>env. gval s' r obj env = peval env g))
    \<and> (\<forall>obj. guardAt s n obj = None \<longrightarrow> guardAt s' r obj = guardAt s r obj)"
proof -
  let ?m = "condEntry n s"
  let ?f = "\<lambda>(obj, g) t. snd (orMergeCondPts r obj (if mergeCondSCC t then getTrue else g) t)"
  let ?t = "fold ?f ?m s"
  let ?s1 = "?t\<lparr>condPtsMap := AList.delete n (condPtsMap ?t)\<rparr>"
  have mo: "distinct (map fst ?m)" "\<forall>og \<in> set ?m. valid (snd og) (pst s)"
    using condEntry_ok[of "pst s" s] inv by (auto simp: cond_inv_def)
  note L = mergeLoop_spec[OF inv mo o, of r]
  have k: "kept r (fst ` set ?m) s ?t" using L by blast
  have sb: "same_base s ?t" using k by (simp add: kept_def gstep_def)
  define s1 where "s1 = (case map_of (condPtsMap s) n of None \<Rightarrow> s | Some m \<Rightarrow> (fold ?f m s)\<lparr>condPtsMap := AList.delete n (condPtsMap (fold ?f m s))\<rparr>)"
  have s1: "s1 = s \<and> ?m = [] \<or> s1 = ?s1" by (simp add: s1_def condEntry_def split: option.split)
  have b1: "consCG s1 = consCG s" "ptD s1 = ptD s" "getPts s1 = getPts s" "rep_of s1 = rep_of s"
    using s1 sb by (auto simp: same_base_simps getPts_def rep_of_def fun_eq_iff)
  have "guardAt s n = (\<lambda>_. None)" if "?m = []" using that by (simp add: guardAt_def fun_eq_iff)
  then have gn: "guardAt s1 n = (\<lambda>_. None)" using s1 by (auto simp: guardAt_delete fun_eq_iff)
  have gr: "guardAt s1 r = guardAt ?t r" using s1 ne by (auto simp: guardAt_delete fun_eq_iff)
  obtain pwc s' where s': "mergeSrcToTgt n r s1 = Some (pwc, s')"
      "\<forall>i. set (getPts s' i) = (if rep_of s i = n \<or> rep_of s i = r then set (getPts s n) \<union> set (getPts s r) else set (getPts s i))"
    using mergeSrcToTgt_spec[of s1 n r] base l ne b1 by auto
  have g': "guardAt s' = guardAt s1" by (rule guardAt_same) (use more_fields(2)[OF mergeSrcToTgt_cond[OF s'(1)]] in simp)
  have eq: "cond_mergeSrcToTgt n r s = Some (pwc, s')"
    using ne s'(1) unfolding cond_mergeSrcToTgt_def s1_def Let_def by simp
  have ent: "guardAt s n obj = map_of ?m obj" for obj by (simp add: guardAt_def)
  have 1: "gval s' r obj env = peval env g" if "guardAt s n obj = Some g" "guardAt s r obj = None" for obj g env
  proof -
    have "(obj, g) \<in> set ?m" using that(1) by (auto simp: ent dest: map_of_SomeD)
    then have "gval ?t r obj env = peval env g" using L that(2) by force
    then show ?thesis by (simp add: gval_def g' gr)
  qed
  have 2: "guardAt s' r obj = guardAt s r obj" if "guardAt s n obj = None" for obj
  proof -
    have "obj \<notin> fst ` set ?m" using that by (simp add: ent map_of_eq_None_iff)
    then show ?thesis using kept_same[OF k, of r obj] by (simp add: g' gr)
  qed
  have "rep_of s r = r" by (rule rep_of_live[OF l(2)])
  then have "set (getPts s' r) = set (getPts s n) \<union> set (getPts s r)" using s'(2) by auto
  then show ?thesis using eq gn 1 2 by (auto simp: g')
qed

section \<open>Alias queries\<close>

lemma pathCondToZ3_strip: "pathCondToZ3 p = strip p"
  by (induction p) auto

text \<open>What the analysis relies on of Z3: an expression with a model is not answered \<^verbatim>\<open>unsat\<close>.\<close>

definition z3_sound :: "(bform \<Rightarrow> bool) \<Rightarrow> bool" where
  "z3_sound z3 \<longleftrightarrow> (\<forall>f env. beval env f \<longrightarrow> z3 f)"

lemma z3IsSat_sound: "z3_sound z3 \<Longrightarrow> peval env c \<Longrightarrow> fst (z3IsSat z3 c s)"
  using isSat_iff[of "fromPathCond c"] fromPathCond_eval[of _ c] isFalse_peval[of c env]
  by (auto simp: z3IsSat_def z3_sound_def pathCondToZ3_strip)

lemma z3IsSat_exact: "useFastGuard s \<Longrightarrow> fst (z3IsSat z3 c s) \<longleftrightarrow> (\<exists>env. peval env c)"
  using isSat_iff[of "fromPathCond c"] fromPathCond_eval[of _ c] isFalse_peval[of c] isTrue_peval[of c]
  by (auto simp: z3IsSat_def)

lemma z3IsSat_fields [simp]:
  "pst (snd (z3IsSat z3 c s)) = pst s" "useFastGuard (snd (z3IsSat z3 c s)) = useFastGuard s"
  by (simp_all add: z3IsSat_def)

definition guards_ok :: "cond_pts \<Rightarrow> pstore \<Rightarrow> bool" where
  "guards_ok e p \<longleftrightarrow> (\<forall>og \<in> set e. valid (snd og) p)"

lemma guards_ok_mono: "guards_ok e p \<Longrightarrow> extends p q \<Longrightarrow> guards_ok e q"
  unfolding guards_ok_def using valid_mono by blast

lemma guards_ok_lookup: "guards_ok e p \<Longrightarrow> map_of e o1 = Some g \<Longrightarrow> valid g p"
  by (auto simp: guards_ok_def dest!: map_of_SomeD)

lemma guards_ok_update: "guards_ok e p \<Longrightarrow> valid g p \<Longrightarrow> guards_ok (AList.update o1 g e) p"
  using set_AList_update_subset[of o1 g e] by (fastforce simp: guards_ok_def)

text \<open>The loop over the fds of an object in \<open>expandEntry\<close>.\<close>

lemma expandFields_ok:
  assumes "store_inv p" "guards_ok e p" "valid guard p"
  shows "case fold (expandField guard) fds (e, p) of (e', p') \<Rightarrow>
    store_inv p' \<and> extends p p' \<and> guards_ok e' p' \<and> (e \<noteq> [] \<longrightarrow> e' \<noteq> [])"
  using assms
proof (induction fds arbitrary: e p)
  case (Cons fd fds)
  obtain e1 p1 where st: "expandField guard fd (e, p) = (e1, p1)" by fastforce
  have k: "store_inv p1 \<and> extends p p1 \<and> guards_ok e1 p1 \<and> valid guard p1 \<and> e1 \<noteq> []"
  proof (cases "map_of e fd")
    case None
    then have "e1 = AList.update fd guard e" "p1 = p" using st by (auto simp: expandField_def)
    moreover have "AList.update fd guard e \<noteq> []" by (cases e) auto
    ultimately show ?thesis using Cons.prems guards_ok_update by auto
  next
    case (Some old)
    have vo: "valid old p" by (rule guards_ok_lookup[OF Cons.prems(2) Some])
    have r: "e1 = AList.update fd (fst (getOr old guard p)) e" "p1 = snd (getOr old guard p)"
      using st Some by (auto simp: expandField_def case_prod_beta)
    note j = pcs.disj_keeps[OF Cons.prems(1) vo Cons.prems(3)]
    have "AList.update fd g e \<noteq> []" for g by (cases e) auto
    then show ?thesis
      using j r guards_ok_update[OF guards_ok_mono[OF Cons.prems(2)]] valid_mono[OF Cons.prems(3)] by auto
  qed
  have x: "fold (expandField guard) (fd # fds) (e, p) = fold (expandField guard) fds (e1, p1)" using st by simp
  show ?case
    unfolding x using Cons.IH[of p1 e1] k extends_trans[of p p1] by (auto simp: case_prod_beta)
qed (simp add: case_prod_beta)

lemma expandEntry_ok:
  assumes "expandEntry pg cp obj (e, p) = Some (e', p')" "store_inv p" "guards_ok e p" "guards_ok cp p"
  shows "store_inv p' \<and> extends p p' \<and> guards_ok e' p' \<and> e' \<noteq> []"
proof -
  let ?g = "guardOrTrue (map_of cp obj)"
  let ?e1 = "AList.update obj ?g e"
  have vg: "valid ?g p"
    using guards_ok_lookup[OF assms(4)] valid_statics(1)[OF assms(2)] by (cases "map_of cp obj") auto
  have e1: "guards_ok ?e1 p" by (rule guards_ok_update[OF assms(3) vg])
  have ne: "?e1 \<noteq> []" by (cases e) auto
  note F = expandFields_ok[OF assms(2) e1 vg]
  have "(e', p') = (?e1, p) \<or> (\<exists>fds. fold (expandField ?g) fds (?e1, p) = (e', p'))"
    using assms(1) by (auto simp: expandEntry_def Let_def Option.bind_eq_Some_conv split: if_splits)
  then show ?thesis
  proof
    assume "(e', p') = (?e1, p)"
    then show ?thesis using assms(2) e1 ne by simp
  next
    assume "\<exists>fds. fold (expandField ?g) fds (?e1, p) = (e', p')"
    then obtain fds where fl: "fold (expandField ?g) fds (?e1, p) = (e', p')" by blast
    show ?thesis using F[of fds] ne unfolding fl by simp
  qed
qed

lemma getCondPts_ok: "cond_inv s \<Longrightarrow> guards_ok (getCondPts n s) (pst s)"
  using condEntry_ok(2)[of "pst s" s] by (simp add: guards_ok_def getCondPts_def cond_inv_def)

lemma expandCondFIObjs_ok:
  assumes "expandCondFIObjs n s = Some (e, s')" "cond_inv s"
  shows "guards_ok e (pst s') \<and> cond_inv s' \<and> extends (pst s) (pst s') \<and> ander.truncate s' = ander.truncate s
    \<and> condPtsMap s' = condPtsMap s \<and> useFastGuard s' = useFastGuard s \<and> (getPts s (rep_of s n) \<noteq> [] \<longrightarrow> e \<noteq> [])"
proof -
  obtain p' where f: "foldO (expandEntry (irs s) (getCondPts n s)) (getPts s (rep_of s n)) ([], pst s) = Some (e, p')"
    and s': "s' = s\<lparr>pst := p'\<rparr>"
    using assms(1) by (auto simp: expandCondFIObjs_def)
  have "(\<lambda>ds (e, p). store_inv p \<and> extends (pst s) p \<and> guards_ok e p \<and> (ds \<noteq> [] \<longrightarrow> e \<noteq> [])) (getPts s (rep_of s n)) (e, p')"
  proof (rule foldO_steps[where I = "\<lambda>ds (e, p). store_inv p \<and> extends (pst s) p \<and> guards_ok e p \<and> (ds \<noteq> [] \<longrightarrow> e \<noteq> [])", OF f])
    fix ds :: "node_id list" and obj and st st' :: "cond_pts \<times> pstore"
    assume I: "case st of (e, p) \<Rightarrow> store_inv p \<and> extends (pst s) p \<and> guards_ok e p \<and> (ds \<noteq> [] \<longrightarrow> e \<noteq> [])"
      and step: "expandEntry (irs s) (getCondPts n s) obj st = Some st'"
    obtain e0 p0 e1 p1 where st: "st = (e0, p0)" "st' = (e1, p1)" by fastforce
    have "guards_ok (getCondPts n s) p0" using guards_ok_mono[OF getCondPts_ok[OF assms(2)]] I st by auto
    then show "case st' of (e, p) \<Rightarrow> store_inv p \<and> extends (pst s) p \<and> guards_ok e p \<and> (ds @ [obj] \<noteq> [] \<longrightarrow> e \<noteq> [])"
      using expandEntry_ok[of "irs s" "getCondPts n s" obj e0 p0 e1 p1] step I st extends_trans[of "pst s" p0 p1] by auto
  qed (use assms(2) in \<open>auto simp: guards_ok_def cond_inv_def\<close>)
  then show ?thesis
    using assms(2) cpts_ok_mono edges_ok_mono by (auto simp: s' cond_inv_def ander.truncate_def)
qed

text \<open>The loop over the common objects.\<close>

lemma aliasLoop_spec:
  assumes "aliasLoop z3 p1 p2 s = (r, s')" "store_inv (pst s)" "guards_ok p1 (pst s)" "guards_ok p2 (pst s)"
  shows "r \<noteq> MustAlias
    \<and> (r = NoAlias \<and> z3_sound z3 \<longrightarrow>
        (\<forall>(o1, g1) \<in> set p1. \<forall>g2. map_of p2 o1 = Some g2 \<longrightarrow> \<not> (\<exists>env. peval env g1 \<and> peval env g2)))
    \<and> (r = MayAlias \<and> useFastGuard s \<longrightarrow>
        (\<exists>(o1, g1) \<in> set p1. \<exists>g2 p. map_of p2 o1 = Some g2
           \<and> ((\<exists>env. peval env g1 \<and> peval env g2) \<or> isCapped (fst (getAnd g1 g2 p)))))"
  using assms
proof (induction p1 arbitrary: s)
  case (Cons og p1)
  obtain o1 g1 where og: "og = (o1, g1)" by fastforce
  have ok1: "guards_ok p1 (pst s)" "valid g1 (pst s)" using Cons.prems(3) by (auto simp: guards_ok_def og)
  show ?case
  proof (cases "map_of p2 o1")
    case None
    then have "aliasLoop z3 p1 p2 s = (r, s')" using Cons.prems(1) by (simp add: og)
    from Cons.IH[OF this Cons.prems(2) ok1(1) Cons.prems(4)] show ?thesis using None by (auto simp: og)
  next
    case (Some g2)
    have v2: "valid g2 (pst s)" by (rule guards_ok_lookup[OF Cons.prems(4) Some])
    let ?c = "onStore (getAnd g1 g2) s"
    let ?z = "z3IsSat z3 (fst ?c) (snd ?c)"
    note sp = getAnd_spec[OF Cons.prems(2) ok1(2) v2]
    note w = getAnd_weak[OF Cons.prems(2) ok1(2) v2]
    have c: "fst ?c = fst (getAnd g1 g2 (pst s))" by (simp add: onStore_simps)
    show ?thesis
    proof (cases "fst ?z")
      case True
      then have r: "r = MayAlias" using Cons.prems(1) Some by (auto simp: og case_prod_beta Let_def)
      have "(\<exists>env. peval env g1 \<and> peval env g2) \<or> isCapped (fst (getAnd g1 g2 (pst s)))" if "useFastGuard s"
      proof -
        have "useFastGuard (snd ?c)" using that by (simp add: onStore_simps)
        then have "\<exists>env. peval env (fst (getAnd g1 g2 (pst s)))" using True z3IsSat_exact[of "snd ?c"] c by simp
        then show ?thesis using sp by (auto simp: op_spec_def)
      qed
      then show ?thesis using r Some by (auto simp: og)
    next
      case False
      have e: "aliasLoop z3 p1 p2 (snd ?z) = (r, s')"
        using Cons.prems(1) Some False by (simp add: og case_prod_beta Let_def)
      have ps: "pst (snd ?z) = snd (getAnd g1 g2 (pst s))" by (simp add: onStore_simps)
      have k: "store_inv (pst (snd ?z))" "guards_ok p1 (pst (snd ?z))" "guards_ok p2 (pst (snd ?z))"
        using sp guards_ok_mono ok1(1) Cons.prems(4) unfolding ps op_spec_def by auto
      have "useFastGuard (snd ?z) = useFastGuard s" by (simp add: onStore_simps)
      moreover have "\<not> (peval env g1 \<and> peval env g2)" if "z3_sound z3" for env
        using False z3IsSat_sound[OF that] w c by metis
      ultimately show ?thesis using Cons.IH[OF e k] Some by (auto simp: og)
    qed
  qed
qed auto

section \<open>Properties\<close>

text \<open>
  Two nodes that point to object 4. The copy edge between them is under a condition; node 12
  points to the object under the opposite condition.
\<close>

definition demo_c :: pathcond where "demo_c = AtomC 3 7 True"
definition demo_nc :: pathcond where "demo_nc = AtomC 4 7 False"

definition demo_cond :: cander where
  "demo_cond = \<lparr>
     consCG = empty_consg\<lparr>cnodes := [4, 10, 11, 12],
       cedges := [\<lparr>ekind = Copy, esrc = 10, edst = 11, edgeId = 0, eguard = Some demo_c, eap = 0\<rparr>,
                  \<lparr>ekind = Copy, esrc = 10, edst = 12, edgeId = 1, eguard = None, eap = 0\<rparr>]\<rparr>,
     ptD = snd (dd_addPts 12 4 (snd (dd_addPts 11 4 (snd (dd_addPts 10 4 (dd_new True)))))),
     irs = demo_pag, wlist = fifo_new, reanalyze = False, DiffPts = True, DetectPWC = True, sccD = scc_clear, redundantGepNodes = [],
     callsite2DummyValPN = (\<lambda>_. None), numOfSCCDetection = 0, numOfIteration = 0, numOfProcessedAddr = 0,
     numOfProcessedCopy = 0, numOfProcessedGep = 0, numOfProcessedLoad = 0, numOfProcessedStore = 0,
     pst = snd (getAtom 7 False (snd (getAtom 7 True init_store))),
     condPtsMap = [(12, [(4, demo_nc)])], edgeGuards = [], conjCappedGuards = {}, kLimit = -1, eagerSat = False,
     useFastGuard = True, useDepthLimit = True, mLimit = 0, nLimit = 0, mergeCondSCC = False, numZ3SatChecks = 0,
     numAliasRefined = 0, numAliasRefinedToNoAlias = 0, numAliasTotal = 0, numCondPtsEntries = 0, numEagerSatCuts = 0\<rparr>"

lemma demo_cond_store: "heap (pst demo_cond) = [getTrue, getCappedTrue, getFalse, demo_c, demo_nc]" "store_inv (pst demo_cond)"
proof -
  show "heap (pst demo_cond) = [getTrue, getCappedTrue, getFalse, demo_c, demo_nc]"
    by (simp add: demo_cond_def demo_c_def demo_nc_def getAtom_def init_store_def Let_def)
  have "reachable (pst demo_cond)" by (simp add: demo_cond_def reachable.intros)
  then show "store_inv (pst demo_cond)" using reachable_keeps by blast
qed

lemma demo_cond_inv: "cond_inv demo_cond" "consg_inv (consCG demo_cond)" "scc_ok (consCG demo_cond)"
  "live (consCG demo_cond) 10" "live (consCG demo_cond) 11" "live (consCG demo_cond) 12"
proof -
  have "valid demo_c (pst demo_cond)" "valid demo_nc (pst demo_cond)" by (simp_all add: valid_def demo_cond_store)
  then show "cond_inv demo_cond"
    using demo_cond_store(2) by (simp add: cond_inv_def cpts_ok_def edges_ok_def) (simp add: demo_cond_def empty_consg_def)
  show "consg_inv (consCG demo_cond)" "scc_ok (consCG demo_cond)"
    "live (consCG demo_cond) 10" "live (consCG demo_cond) 11" "live (consCG demo_cond) 12"
    by (auto simp: demo_cond_def empty_consg_def consg_inv_def live_def sccRepNode_def oset_inv_def ekey_def
        less_prod_def scc_ok_def rep_ok_def)
qed

lemma demo_cond_dd: "dd_inv (ptD demo_cond)"
proof -
  have "dd_inv (dd_new True :: (node_id, node_id) diffdata)" by (simp add: dd_inv_def dd_new_def)
  then show ?thesis unfolding demo_cond_def by (simp add: dd.add_inv)
qed

lemma demo_cond_pts: "dd_getPts (ptD demo_cond) = (\<lambda>_. [])(10 := [4], 11 := [4], 12 := [4])"
  by (simp add: demo_cond_def dd_addPts_def pt_addPts_def addSingleRevPts_def test_and_set_def dd_new_def
      pt_new_def dd_getPts_def oset_insert_def fun_eq_iff case_prod_beta)

lemma demo_cond_getPts: "getPts demo_cond 10 = [4]" "getPts demo_cond 11 = [4]" "getPts demo_cond 12 = [4]"
  using demo_cond_inv(4-6) by (simp_all add: getPts_def rep_of_live demo_cond_pts)

lemma demo_cond_edge: "hd (cedges (consCG demo_cond)) \<in> set (cedges (consCG demo_cond))"
  "ekind (hd (cedges (consCG demo_cond))) = Copy" "esrc (hd (cedges (consCG demo_cond))) = 10"
  "edst (hd (cedges (consCG demo_cond))) = 11" "eguard (hd (cedges (consCG demo_cond))) = Some demo_c"
  by (simp_all add: demo_cond_def)

lemma demo_cond_opts: "kLimit demo_cond = -1" "useDepthLimit demo_cond" "\<not> eagerSat demo_cond" "useFastGuard demo_cond"
  "\<not> mergeCondSCC demo_cond" "condPtsMap demo_cond = [(12, [(4, demo_nc)])]"
  by (simp_all add: demo_cond_def)

text \<open>
  C30: Limiting a guard never strengthens it: in depth mode and with clause limits, whatever the
  limits are, the returned guard holds wherever the given one does, it is a guard of the store,
  and neither the points-to sets nor the conditional sets change.
\<close>

theorem applyLimits_weakens:
  assumes "store_inv (pst s)" "valid c (pst s)"
  shows "case applyLimits c s of (r, t) \<Rightarrow>
    (\<forall>env. peval env c \<longrightarrow> peval env r) \<and> valid r (pst t) \<and> store_inv (pst t)
    \<and> same_base s t \<and> condPtsMap t = condPtsMap s"
  using applyLimits_weaker[OF assms] by (simp add: weaker_def gstep_def case_prod_beta)

theorem applyLimits_weakens_witness: "peval (\<lambda>_. True) (fst (applyLimits demo_c demo_cond))"
proof -
  have "valid demo_c (pst demo_cond)" by (simp add: valid_def demo_cond_store)
  from applyLimits_weakens[OF demo_cond_store(2) this]
  have "\<forall>env. peval env demo_c \<longrightarrow> peval env (fst (applyLimits demo_c demo_cond))"
    by (simp add: case_prod_beta)
  moreover have "peval (\<lambda>_. True) demo_c" by (simp add: demo_c_def)
  ultimately show ?thesis by blast
qed

text \<open>
  C31: The conditional analysis refines Andersen's: \<^verbatim>\<open>processCopy\<close> does to the points-to sets,
  the graph and the worklist exactly what \<^verbatim>\<open>Andersen::processCopy\<close> does, reports a change
  whenever that does, keeps all guards valid, and touches no guard outside the target's set.
\<close>

theorem cond_processCopy_refines:
  assumes "cond_processCopy z3 n e s = Some (b, s')" "kLimit s \<noteq> 0" "cond_inv s" "dd_inv (ptD s)"
    and "e \<in> set (cedges (consCG s))"
  shows "\<exists>b0 t. processCopy cond_getDiffPts n e s = Some (b0, t) \<and> same_base t s' \<and> (b0 \<longrightarrow> b) \<and> cond_inv s'
    \<and> (\<forall>m obj. m \<noteq> edst e \<longrightarrow> guardAt s' m obj = guardAt s m obj)"
proof -
  obtain b0 t where t: "processCopy cond_getDiffPts n e s = Some (b0, t)" "same_base t s'" "b0 \<longrightarrow> b"
      "kept (edst e) (set (getPts s n) \<union> {obj. guardAt s n obj \<noteq> None}) t s'" "cond_inv t" "guardAt t = guardAt s"
    using cond_processCopy_spec[OF assms] by blast
  have "guardAt s' m obj = guardAt s m obj" if "m \<noteq> edst e" for m obj
    using kept_same[OF t(4)] that t(6) by simp
  then show ?thesis using t kept_cond_inv[OF t(4,5)] by blast
qed

lemma demo_copy_runs: "\<exists>b s'. cond_processCopy z3 10 (hd (cedges (consCG demo_cond))) demo_cond = Some (b, s')"
proof -
  have "processCopy cond_getDiffPts 10 (hd (cedges (consCG demo_cond))) demo_cond \<noteq> None"
    by (simp add: processCopy_eq demo_cond_edge(2) Let_def)
  then show ?thesis using demo_cond_opts(1) by (auto simp: cond_processCopy_def case_prod_beta Let_def)
qed

theorem cond_processCopy_refines_witness:
  "\<exists>b s'. cond_processCopy (\<lambda>_. True) 10 (hd (cedges (consCG demo_cond))) demo_cond = Some (b, s') \<and> cond_inv s'"
proof -
  obtain b s' where r: "cond_processCopy (\<lambda>_. True) 10 (hd (cedges (consCG demo_cond))) demo_cond = Some (b, s')"
    using demo_copy_runs by blast
  have "kLimit demo_cond \<noteq> 0" by (simp add: demo_cond_opts)
  from cond_processCopy_refines[OF r this demo_cond_inv(1) demo_cond_dd demo_cond_edge(1)] r show ?thesis by blast
qed

text \<open>
  C32: Propagation of guards over a copy edge is sound for the objects the target holds without
  an entry: such an object of the source is, after the step, in the target's set under a guard
  that holds whenever its guard at the source and the guard of the edge do, under every limit
  and with or without eager satisfiability checks.
\<close>

theorem cond_processCopy_sound:
  assumes "cond_processCopy z3 n e s = Some (b, s')" "kLimit s \<noteq> 0" "cond_inv s" "dd_inv (ptD s)"
    and "e \<in> set (cedges (consCG s))"
    and "obj \<in> set (getPts s n)" "guardAt s (edst e) obj = None"
    and "gval s n obj env" "peval env (guardOrTrue (eguard e))"
  shows "gval s' (edst e) obj env"
  using cond_processCopy_spec[OF assms(1-5)] assms(6-9) by blast

theorem cond_processCopy_sound_witness:
  "\<exists>b s'. cond_processCopy (\<lambda>_. True) 10 (hd (cedges (consCG demo_cond))) demo_cond = Some (b, s')
    \<and> gval s' 11 4 (\<lambda>_. True)"
proof -
  obtain b s' where r: "cond_processCopy (\<lambda>_. True) 10 (hd (cedges (consCG demo_cond))) demo_cond = Some (b, s')"
    using demo_copy_runs by blast
  have k: "kLimit demo_cond \<noteq> 0" by (simp add: demo_cond_opts)
  have "guardAt demo_cond 11 4 = None" "guardAt demo_cond 10 4 = None"
    by (simp_all add: guardAt_def condEntry_def demo_cond_opts)
  then have "gval s' 11 4 (\<lambda>_. True)"
    using cond_processCopy_sound[OF r k demo_cond_inv(1) demo_cond_dd demo_cond_edge(1), of 4 "\<lambda>_. True"]
    by (simp add: demo_cond_edge demo_cond_getPts gval_def demo_c_def)
  then show ?thesis using r by blast
qed

text \<open>
  A copy edge narrows what its target already holds: an object in the target's set without
  an entry (an unconditional member) has, after a guarded copy edge from a node that holds the
  object too, exactly the guard of that edge, whatever made it a member before. Node 11 of the
  example points to object 4 on every path, and only under the edge's condition afterwards.
\<close>

theorem cond_processCopy_narrows:
  assumes "cond_processCopy z3 n e s = Some (b, s')" "kLimit s = -1" "useDepthLimit s" "\<not> eagerSat s"
    and "cond_inv s" "dd_inv (ptD s)" "e \<in> set (cedges (consCG s))"
    and "eguard e = Some guard" "\<not> isTrue guard" "\<not> isFalse guard"
    and "obj \<in> set (getPts s n)" "guardAt s n obj = None" "guardAt s (edst e) obj = None"
  shows "(\<forall>env. gval s (edst e) obj env) \<and> (\<forall>env. gval s' (edst e) obj env = peval env guard)"
  using cond_processCopy_exact[OF assms] gval_None[OF assms(13)] by blast

theorem cond_processCopy_narrows_witness:
  "\<exists>b s'. cond_processCopy (\<lambda>_. True) 10 (hd (cedges (consCG demo_cond))) demo_cond = Some (b, s')
    \<and> 4 \<in> set (getPts demo_cond 11) \<and> gval demo_cond 11 4 (\<lambda>_. False) \<and> \<not> gval s' 11 4 (\<lambda>_. False)"
proof -
  obtain b s' where r: "cond_processCopy (\<lambda>_. True) 10 (hd (cedges (consCG demo_cond))) demo_cond = Some (b, s')"
    using demo_copy_runs by blast
  have "guardAt demo_cond 10 4 = None" "guardAt demo_cond 11 4 = None"
    by (simp_all add: guardAt_def condEntry_def demo_cond_opts)
  then show ?thesis
    using cond_processCopy_narrows[OF r demo_cond_opts(1-3) demo_cond_inv(1) demo_cond_dd demo_cond_edge(1,5), of 4] r
    by (simp add: demo_cond_edge demo_cond_getPts demo_c_def)
qed

text \<open>
  The guard merged onto an existing copy edge is the disjunction with the guard in place
  only if that is not True: an edge without a guard, or under True, gets the new guard alone,
  although it stood for an unconditional assignment.
\<close>

theorem mergeCopyEdgeGuard_correct:
  assumes "cond_inv s" "consg_inv (consCG s)" "e \<in> set (cedges (consCG s))" "ekind e = Copy"
    and "valid guard (pst s)" "\<not> isTrue guard"
  shows "\<exists>s' g. mergeCopyEdgeGuard (esrc e) (edst e) guard False s = Some s' \<and> cond_inv s' \<and> ptD s' = ptD s
    \<and> set (cedges (consCG s')) = insert (e\<lparr>eguard := Some g\<rparr>) (set (cedges (consCG s)) - {e})
    \<and> (isTrue (guardOrTrue (eguard e)) \<longrightarrow> g = guard)
    \<and> (\<forall>old. eguard e = Some old \<and> \<not> isTrue old \<and> \<not> absorbed old guard \<longrightarrow>
         isCapped g \<or> (\<forall>env. peval env g = (peval env old \<or> peval env guard)))"
proof -
  let ?g = "mergedEdgeGuard e guard s"
  have "isCapped ?g \<or> (\<forall>env. peval env ?g = (peval env old \<or> peval env guard))"
    if "eguard e = Some old" "\<not> isTrue old" "\<not> absorbed old guard" for old
  proof -
    have "valid old (pst s)" using assms(1,3) that(1) by (auto simp: cond_inv_def edges_ok_def)
    from getOr_exact[OF cond_inv_store[OF assms(1)] this assms(5) that(3)] show ?thesis
      using that by (simp add: mergedEdgeGuard_def op_spec_def)
  qed
  moreover have "isTrue (guardOrTrue (eguard e)) \<longrightarrow> ?g = guard"
    by (simp add: mergedEdgeGuard_def guardOrTrue_def split: option.split)
  ultimately show ?thesis using mergeCopyEdgeGuard_spec[OF assms] by blast
qed

theorem mergeCopyEdgeGuard_correct_witness:
  "\<exists>s'. mergeCopyEdgeGuard 10 12 demo_c False demo_cond = Some s' \<and>
     (\<exists>e' \<in> set (cedges (consCG s')). esrc e' = 10 \<and> edst e' = 12 \<and> eguard e' = Some demo_c)"
proof -
  let ?e = "\<lparr>ekind = Copy, esrc = 10, edst = 12, edgeId = 1, eguard = None, eap = 0\<rparr> :: cedge"
  have "?e \<in> set (cedges (consCG demo_cond))" "valid demo_c (pst demo_cond)" "\<not> isTrue demo_c"
    by (simp_all add: valid_def demo_cond_store) (simp_all add: demo_cond_def demo_c_def)
  from mergeCopyEdgeGuard_correct[OF demo_cond_inv(1,2) this(1) _ this(2,3)] show ?thesis by fastforce
qed

text \<open>
  Merging a node into its representative does not take the disjunction of what the two
  hold: the points-to set is the union, but an object the representative holds without an entry
  gets the guard of the merged node's entry, and an object the merged node holds without an
  entry keeps the representative's guard.
\<close>

theorem cond_mergeSrcToTgt_guards:
  assumes "cond_inv s" "\<not> mergeCondSCC s" "consg_inv (consCG s)" "dd_inv (ptD s)" "scc_ok (consCG s)"
    and "live (consCG s) n" "live (consCG s) r" "n \<noteq> r"
  shows "\<exists>pwc s'. cond_mergeSrcToTgt n r s = Some (pwc, s')
    \<and> set (getPts s' r) = set (getPts s n) \<union> set (getPts s r) \<and> guardAt s' n = (\<lambda>_. None)
    \<and> (\<forall>obj g. guardAt s n obj = Some g \<and> guardAt s r obj = None \<longrightarrow> (\<forall>env. gval s' r obj env = peval env g))
    \<and> (\<forall>obj. guardAt s n obj = None \<longrightarrow> guardAt s' r obj = guardAt s r obj)"
  by (rule cond_mergeSrcToTgt_spec[OF assms])

theorem cond_mergeSrcToTgt_guards_witness:
  "\<exists>pwc s'. cond_mergeSrcToTgt 10 12 demo_cond = Some (pwc, s') \<and> guardAt demo_cond 10 4 = None
    \<and> 4 \<in> set (getPts demo_cond 10) \<and> guardAt s' 12 4 = Some demo_nc"
proof -
  have n: "guardAt demo_cond 10 4 = None" "guardAt demo_cond 12 4 = Some demo_nc"
    by (simp_all add: guardAt_def condEntry_def demo_cond_opts)
  obtain pwc s' where "cond_mergeSrcToTgt 10 12 demo_cond = Some (pwc, s')"
      "\<forall>obj. guardAt demo_cond 10 obj = None \<longrightarrow> guardAt s' 12 obj = guardAt demo_cond 12 obj"
    using cond_mergeSrcToTgt_guards[OF demo_cond_inv(1) demo_cond_opts(5) demo_cond_inv(2) demo_cond_dd
        demo_cond_inv(3,4,6)] by auto
  then show ?thesis using n demo_cond_getPts(1) by auto
qed

text \<open>
  C34: The guard of a basic block is True when no conditional edge enters it, and otherwise
  the disjunction of the conditions of the conditional edges that enter it; only when more than
  101 do, it may be True instead, by the cap on the depth of conditions. An unconditional edge
  into the block is ignored: it does not make the guard True.
\<close>

theorem getBBGuard_correct:
  assumes "store_inv p"
  shows "case getBBGuard (Some bb) p of (r, p') \<Rightarrow> store_inv p' \<and> extends p p' \<and> valid r p'
    \<and> (condEdges bb = {} \<longrightarrow> r = getTrue)
    \<and> (condEdges bb \<noteq> {} \<longrightarrow> isTrue r \<and> 101 < length (filter condEdge (concat bb))
         \<or> (\<forall>env. peval env r \<longleftrightarrow> (\<exists>(c, t) \<in> condEdges bb. env c = t)))"
  by (rule getBBGuard_spec[OF assms])

theorem getBBGuard_correct_witness:
  "\<not> peval (\<lambda>_. False) (fst (getBBGuard (Some [[IntraCFGEdge (Some 7) 1, IntraCFGEdge None 0]]) init_store))"
proof -
  let ?bb = "[[IntraCFGEdge (Some 7) 1, IntraCFGEdge None 0]]"
  have c: "condEdges ?bb = {(7, True)}" by (auto simp: condEdges_def)
  have "\<not> 101 < length (filter condEdge (concat ?bb))" by (simp add: condEdge_def)
  then show ?thesis
    using getBBGuard_correct[OF store_inv_init, of ?bb] by (auto simp: case_prod_beta c)
qed

text \<open>The common objects of two expanded sets: no pair of guards, or some pair, is satisfiable together.\<close>

definition all_disjoint :: "cond_pts \<Rightarrow> cond_pts \<Rightarrow> bool" where
  "all_disjoint e1 e2 \<longleftrightarrow>
     (\<forall>(o1, g1) \<in> set e1. \<forall>g2. map_of e2 o1 = Some g2 \<longrightarrow> \<not> (\<exists>env. peval env g1 \<and> peval env g2))"

definition some_overlap :: "cond_pts \<Rightarrow> cond_pts \<Rightarrow> bool" where
  "some_overlap e1 e2 \<longleftrightarrow>
     (\<exists>(o1, g1) \<in> set e1. \<exists>g2 p. map_of e2 o1 = Some g2
        \<and> ((\<exists>env. peval env g1 \<and> peval env g2) \<or> isCapped (fst (getAnd g1 g2 p))))"

text \<open>
  C33: A conditional query answers no alias only if the unconditional one does or no assignment
  of the branch conditions satisfies both guards of any object common to the two expanded sets;
  with the built-in solver it answers may alias only if for some common object the guards are
  satisfiable together or their conjunction was capped. Z3 enters through the assumption that it
  does not call a satisfiable expression unsatisfiable.
\<close>

theorem cond_alias_correct:
  assumes "cond_alias z3 v1 v2 s = Some (r, s')" "kLimit s \<noteq> 0" "v1 \<noteq> v2" "cond_inv s" "z3_sound z3"
  shows "\<exists>base. aliasPts (getPts s (rep_of s v1)) (getPts s (rep_of s v2)) (irs s) = Some base
    \<and> (base = NoAlias \<longrightarrow> r = NoAlias) \<and> r \<noteq> MustAlias
    \<and> (base \<noteq> NoAlias \<longrightarrow>
        (\<exists>e1 e2 s1 s2. expandCondFIObjs v1 (s\<lparr>numAliasTotal := u32 (numAliasTotal s + 1)\<rparr>) = Some (e1, s1)
           \<and> expandCondFIObjs v2 s1 = Some (e2, s2) \<and> (r = NoAlias \<longrightarrow> all_disjoint e1 e2)
           \<and> (r = MayAlias \<and> useFastGuard s \<and> e1 \<noteq> [] \<and> e2 \<noteq> [] \<longrightarrow> some_overlap e1 e2)))"
proof -
  let ?s0 = "s\<lparr>numAliasTotal := u32 (numAliasTotal s + 1)\<rparr>"
  have s0: "cond_inv ?s0" "rep_of ?s0 = rep_of s" "getPts ?s0 = getPts s" "ander.truncate ?s0 = ander.truncate s"
    using assms(4) by (simp_all add: cond_inv_def rep_of_def getPts_def fun_eq_iff ander.truncate_def)
  obtain base where b: "aliasPts (getPts s (rep_of s v1)) (getPts s (rep_of s v2)) (irs s) = Some base"
    using assms(1-3) s0 by (auto simp: cond_alias_def Let_def Option.bind_eq_Some_conv)
  show ?thesis
  proof (cases "base = NoAlias")
    case True
    then have "r = NoAlias" using assms(1-3) b s0 by (simp add: cond_alias_def Let_def)
    then show ?thesis using b True by simp
  next
    case False
    obtain e1 s1 e2 s2 where e1: "expandCondFIObjs v1 ?s0 = Some (e1, s1)" and e2: "expandCondFIObjs v2 s1 = Some (e2, s2)"
      and r: "(if e1 = [] \<or> e2 = [] then Some (MayAlias, s2) else Some (aliasLoop z3 e1 e2 s2)) = Some (r, s')"
      using assms(1-3) b s0 False by (auto simp: cond_alias_def Let_def Option.bind_eq_Some_conv)
    note o1 = expandCondFIObjs_ok[OF e1 s0(1)]
    then have i1: "cond_inv s1" by blast
    note o2 = expandCondFIObjs_ok[OF e2 i1]
    have g: "guards_ok e1 (pst s2)" "guards_ok e2 (pst s2)" "store_inv (pst s2)"
      using o1 o2 guards_ok_mono by (auto simp: cond_inv_def)
    have fg: "useFastGuard s2 = useFastGuard s" using o1 o2 by simp
    have A: "r \<noteq> MustAlias \<and> (r = NoAlias \<longrightarrow> all_disjoint e1 e2)
      \<and> (r = MayAlias \<and> useFastGuard s \<and> e1 \<noteq> [] \<and> e2 \<noteq> [] \<longrightarrow> some_overlap e1 e2)"
    proof (cases "e1 = [] \<or> e2 = []")
      case True
      then show ?thesis using r by auto
    next
      case ne: False
      then have "aliasLoop z3 e1 e2 s2 = (r, s')" using r by simp
      from aliasLoop_spec[OF this g(3,1,2)] show ?thesis using ne fg assms(5) by (simp add: all_disjoint_def some_overlap_def)
    qed
    show ?thesis using b False A e1 e2 by blast
  qed
qed

lemma demo_alias_runs: "\<exists>r s'. cond_alias z3 11 12 demo_cond = Some (r, s')"
proof -
  let ?p = "irs demo_cond"
  have p: "getBaseObjVarID 4 ?p = Some 4" "getAllFieldsObjVars 4 ?p = Some [4]" "hasGNode 4 ?p"
    by (simp_all add: demo_cond_def demo_pag_def addBaseObjNode_def hasGNode_def getBaseObjVarID_def getBaseObject_def
        getAllFieldsObjVars_def hasGNode_def oset_insert_def)
  have rep: "rep_of demo_cond 11 = 11" "rep_of demo_cond 12 = 12" using demo_cond_inv(5,6) by (simp_all add: rep_of_live)
  let ?s0 = "demo_cond\<lparr>numAliasTotal := u32 (numAliasTotal demo_cond + 1)\<rparr>"
  have s0: "getPts ?s0 = getPts demo_cond" "rep_of ?s0 = rep_of demo_cond"
    by (simp_all add: getPts_def rep_of_def fun_eq_iff)
  have x: "expandCondFIObjs n t \<noteq> None" if "getPts t (rep_of t n) = [4]" "irs t = ?p" for n and t :: cander
    using that p by (auto simp: expandCondFIObjs_def expandEntry_def Let_def)
  obtain e1 s1 where e1: "expandCondFIObjs 11 ?s0 = Some (e1, s1)"
    using x[of ?s0 11] s0 rep demo_cond_getPts by auto
  have "cond_inv ?s0" using demo_cond_inv(1) by (simp add: cond_inv_def)
  from expandCondFIObjs_ok[OF e1 this] have s1: "irs s1 = ?p" "getPts s1 = getPts demo_cond" "rep_of s1 = rep_of demo_cond"
    using s0 by (auto simp: ander.truncate_def getPts_def rep_of_def fun_eq_iff)
  obtain e2 s2 where "expandCondFIObjs 12 s1 = Some (e2, s2)"
    using x[of s1 12] s1 rep demo_cond_getPts by auto
  moreover have "aliasPts [4] [4] ?p \<noteq> None" using p by (simp add: aliasPts_def expandFIObjs_def)
  ultimately show ?thesis
    using e1 s0 rep demo_cond_getPts demo_cond_opts(1) by (auto simp: cond_alias_def Let_def split: if_splits)
qed

theorem cond_alias_correct_witness:
  "\<exists>r s'. cond_alias (\<lambda>_. True) 11 12 demo_cond = Some (r, s') \<and> r \<noteq> MustAlias"
proof -
  obtain r s' where r: "cond_alias (\<lambda>_. True) 11 12 demo_cond = Some (r, s')" using demo_alias_runs by blast
  have "kLimit demo_cond \<noteq> 0" "z3_sound (\<lambda>_. True)" by (simp_all add: demo_cond_opts z3_sound_def)
  from cond_alias_correct[OF r this(1) _ demo_cond_inv(1) this(2)] show ?thesis using r by auto
qed

end
