(* ===== verification/CondWave_Correct.thy ===== *)
theory CondWave_Correct
  imports CondWave CondAndersen_Correct Solver_Correct
begin

text \<open>
  What the wave-propagation variant of theory \<open>CondWave\<close> does to guards, to the record of changed
  guards (\<open>recorded\<close>) and, over copy edges, to the state of \<open>Andersen\<close> (\<open>kept\<close>).
\<close>

section \<open>No change of a guard goes unrecorded\<close>

definition diffAt :: "'a wander_scheme \<Rightarrow> node_id \<Rightarrow> node_id set" where
  "diffAt s n = (case condDiffPtsMap s n of None \<Rightarrow> {} | Some d \<Rightarrow> set d)"

definition recorded :: "'a wander_scheme \<Rightarrow> 'a wander_scheme \<Rightarrow> bool" where
  "recorded s t \<longleftrightarrow> currentDiffNode t = currentDiffNode s \<and> currentDiffObjs t = currentDiffObjs s
     \<and> (\<forall>n. diffAt s n \<subseteq> diffAt t n)
     \<and> (\<forall>n o1 g. guardAt t n o1 = Some g \<and> guardAt s n o1 \<noteq> Some g \<longrightarrow> o1 \<in> diffAt t n)"

definition same_cond :: "'a wander_scheme \<Rightarrow> 'a wander_scheme \<Rightarrow> bool" where
  "same_cond s t \<longleftrightarrow> condPtsMap t = condPtsMap s \<and> condDiffPtsMap t = condDiffPtsMap s
     \<and> currentDiffNode t = currentDiffNode s \<and> currentDiffObjs t = currentDiffObjs s"

lemma same_cond_refl [simp]: "same_cond s s"
  by (simp add: same_cond_def)

lemma same_cond_trans: "same_cond s t \<Longrightarrow> same_cond t u \<Longrightarrow> same_cond s u"
  by (simp add: same_cond_def)

lemma recorded_same: "same_cond s t \<Longrightarrow> recorded s t"
  using guardAt_same[of t s] by (simp add: recorded_def same_cond_def diffAt_def)

lemma recorded_refl: "recorded s s"
  by (simp add: recorded_same)

lemma recorded_trans:
  assumes "recorded s t" "recorded t u"
  shows "recorded s u"
proof -
  have "o1 \<in> diffAt u n" if "guardAt u n o1 = Some g" "guardAt s n o1 \<noteq> Some g" for n o1 g
    using assms that unfolding recorded_def by (cases "guardAt t n o1 = Some g") blast+
  moreover have "diffAt s n \<subseteq> diffAt u n" for n using assms unfolding recorded_def by blast
  ultimately show ?thesis using assms unfolding recorded_def by simp
qed

text \<open>The operations on guards leave the members of the subclass alone.\<close>

definition same_wander :: "'a wander_scheme \<Rightarrow> 'a wander_scheme \<Rightarrow> bool" where
  "same_wander s t \<longleftrightarrow> condDiffPtsMap t = condDiffPtsMap s \<and> currentDiffNode t = currentDiffNode s
     \<and> currentDiffObjs t = currentDiffObjs s"

lemma same_wander_set_erase: "same_wander s (eraseCondPts v o1 s)" "same_wander s (setCondPts v o1 g s)"
  by (auto simp: same_wander_def eraseCondPts_def setCondPts_def Let_def split: option.splits)

lemma recorded_erase: "recorded s (eraseCondPts v o1 s)"
  using same_wander_set_erase(1)[of s v o1] by (simp add: recorded_def same_wander_def diffAt_def)

lemma recorded_set: "recorded s (recordDiff v o1 (setCondPts v o1 g s))"
  using same_wander_set_erase(2)[of s v o1 g] guardAt_same[of "recordDiff v o1 (setCondPts v o1 g s)" "setCondPts v o1 g s"]
  by (auto simp: recorded_def same_wander_def diffAt_def recordDiff_def split: option.splits)

lemma same_cond_onStore [simp]: "same_cond s (snd (onStore f s))"
  by (simp add: same_cond_def onStore_simps)

lemma same_cond_z3IsSat [simp]: "same_cond s (snd (wave_z3IsSat z3 c s))"
  by (simp add: same_cond_def wave_z3IsSat_def z3IsSat_def)

lemma same_cond_applyLimits [simp]: "same_cond s (snd (wave_applyLimits c s))"
proof -
  have t: "same_cond s (snd (truncateChain c s))"
    by (simp add: truncateChain_def same_cond_def onStore_simps Let_def case_prod_beta)
  have "same_cond u (snd (countClauses c' u))" for c' and u :: "'a wander_scheme"
    by (simp add: countClauses_def same_cond_def onStore_simps)
  then have "same_cond s (snd (countClauses (fst (truncateChain c s)) (snd (truncateChain c s))))"
    using same_cond_trans[OF t] by blast
  then show ?thesis
    using t same_cond_onStore[of s "depthM c"]
    by (simp add: wave_applyLimits_def applyLimits_def case_prod_beta Let_def)
qed

lemma same_cond_orTooDeep [simp]: "same_cond s (snd (orTooDeep m old s))"
  by (simp add: orTooDeep_def same_cond_def onStore_simps case_prod_beta Let_def)

lemma same_cond_keepsGuard [simp]: "same_cond s (snd (keepsGuard g c s))"
  by (simp add: keepsGuard_def same_cond_def onStore_simps case_prod_beta Let_def)

lemma same_cond_updates [simp]: "same_cond s (incCuts s)" "same_cond s (s\<lparr>conjCappedGuards := C\<rparr>)"
  by (simp_all add: incCuts_def same_cond_def)

lemmas recorded_then = recorded_trans[OF recorded_same]

lemma recorded_orMerge: "recorded s (snd (wave_orMergeCondPts v o1 g s))"
proof (cases "isTrue g")
  case True
  then show ?thesis
    using recorded_erase recorded_refl by (auto simp: wave_orMergeCondPts_def split: option.split)
next
  case False
  show ?thesis
  proof (cases "map_of (condEntry v s) o1")
    case None
    then show ?thesis using recorded_set False by (simp add: wave_orMergeCondPts_def)
  next
    case (Some old)
    let ?m = "onStore (getOr old g) s"
    let ?d = "orTooDeep (fst ?m) old (snd ?m)"
    let ?l = "wave_applyLimits (fst ?m) (snd ?d)"
    have m: "same_cond s (snd ?m)" by simp
    have d: "same_cond s (snd ?d)" by (rule same_cond_trans[OF m]) simp
    have l: "same_cond s (snd ?l)" by (rule same_cond_trans[OF d]) simp
    have dc: "same_cond s ((snd ?d)\<lparr>conjCappedGuards := insert (caddr old) (conjCappedGuards (snd ?d))\<rparr>)"
      by (rule same_cond_trans[OF d]) simp
    have e: "wave_orMergeCondPts v o1 g s =
      (if caddr (fst ?m) = caddr old then (False, snd ?m)
       else if fst ?d then (False, (snd ?d)\<lparr>conjCappedGuards := insert (caddr old) (conjCappedGuards (snd ?d))\<rparr>)
       else if isTrue (fst ?m) then (if isTrue old then (True, eraseCondPts v o1 (snd ?d)) else (False, snd ?d))
       else if useDepthLimit (snd ?d) then (True, recordDiff v o1 (setCondPts v o1 (fst ?m) (snd ?d)))
       else (True, recordDiff v o1 (setCondPts v o1 (fst ?l) (snd ?l))))"
      using False Some by (simp add: wave_orMergeCondPts_def case_prod_beta Let_def)
    show ?thesis
      unfolding e
      using recorded_same[OF m] recorded_same[OF d] recorded_same[OF dc] recorded_then[OF d recorded_erase]
        recorded_then[OF d recorded_set] recorded_then[OF l recorded_set]
      by simp
  qed
qed

text \<open>Operations of the superclass.\<close>

lemma more_same_cond: "ander.more t = ander.more s \<Longrightarrow> same_cond s t"
  by (cases s; cases t; simp add: same_cond_def)

lemma consGepObjVar_more: "consGepObjVar o1 a s = Some (x, t) \<Longrightarrow> ander.more t = ander.more s"
  by (auto simp: consGepObjVar_def Option.bind_eq_Some_conv Let_def)

lemma gepTarget_more: "gepTarget e o1 s = Some (x, t) \<Longrightarrow> ander.more t = ander.more s"
  using consGepObjVar_more by (fastforce simp: gepTarget_def Option.bind_eq_Some_conv Let_def split: if_splits)

lemma translateFieldLite_more: "translateFieldLite e o1 s = Some (x, t) \<Longrightarrow> ander.more t = ander.more s"
  using consGepObjVar_more by (fastforce simp: translateFieldLite_def Option.bind_eq_Some_conv split: if_splits)

lemma processGep_more:
  assumes "processGep diff n e s = Some (b, t)"
  shows "ander.more t = ander.more s"
proof -
  let ?f = "\<lambda>o1 (tmp, s'). map_option (\<lambda>(t, s''). (oset_insert t tmp, s'')) (gepTarget e o1 s')"
  let ?s0 = "s\<lparr>numOfProcessedGep := u32 (numOfProcessedGep s + 1)\<rparr>"
  obtain tmp s1 where f: "foldO ?f (diff s (esrc e)) ([], ?s0) = Some (tmp, s1)"
    and t: "ander.more t = ander.more s1"
    using assms
    by (auto simp: processGep_def processGepPts_def Option.bind_eq_Some_conv unionPts_def pushIntoWorklist_def
        Let_def case_prod_beta split: if_splits)
  have "(\<lambda>(_, u). ander.more u = ander.more s) (tmp, s1)"
    by (rule foldO_partial[OF f]) (auto split: prod.splits dest!: gepTarget_more)
  then show ?thesis using t by simp
qed

lemma fold_recorded:
  assumes "\<And>x r. recorded (snd r) (snd (f x r))"
  shows "recorded (snd r) (snd (fold f xs r))"
proof (induction xs arbitrary: r)
  case (Cons x xs)
  then show ?case using recorded_trans[OF assms[of r x]] by simp
qed (simp add: recorded_refl)

lemma foldO_recorded:
  assumes "foldO f xs s = Some t" "\<And>x s s'. x \<in> set xs \<Longrightarrow> f x s = Some s' \<Longrightarrow> recorded (g s) (g s')"
  shows "recorded (g s) (g t)"
  by (rule foldO_partial[OF assms(1)]) (use assms(2) recorded_refl recorded_trans in blast)+

lemma recorded_copyCond: "same_cond s (snd (wave_copyCond guard cond s))"
proof -
  have k: "same_cond s (snd (keepsGuard guard cond s))" by simp
  have "same_cond s (snd (onStore (getAnd cond guard) (snd (keepsGuard guard cond s))))"
    by (rule same_cond_trans[OF k]) simp
  then have "same_cond s (snd (wave_applyLimits (fst (onStore (getAnd cond guard) (snd (keepsGuard guard cond s))))
      (snd (onStore (getAnd cond guard) (snd (keepsGuard guard cond s))))))"
    by (rule same_cond_trans) simp
  then show ?thesis using k by (simp add: wave_copyCond_def case_prod_beta Let_def)
qed

lemma same_cond_eager:
  "same_cond s (snd (if eagerSat s then wave_z3IsSat z3 c s else (True, s)))"
  by simp

lemma recorded_copyEntry: "recorded (snd r) (snd (wave_copyEntry z3 guard dst obj cond r))"
proof -
  obtain ch s where r: "r = (ch, s)" by fastforce
  let ?c = "wave_copyCond guard cond s"
  let ?z = "if eagerSat (snd ?c) then wave_z3IsSat z3 (fst ?c) (snd ?c) else (True, snd ?c)"
  have c: "same_cond s (snd ?c)" by (rule recorded_copyCond)
  have z: "same_cond s (snd ?z)" by (rule same_cond_trans[OF c same_cond_eager])
  have i: "same_cond s (incCuts (snd ?z))" by (rule same_cond_trans[OF z]) simp
  have e: "snd (wave_copyEntry z3 guard dst obj cond r) =
      (if isTrue (fst ?c) then snd ?c
       else if \<not> fst ?z then snd (wave_orMergeCondPts dst obj getFalse (incCuts (snd ?z)))
       else snd (wave_orMergeCondPts dst obj (fst ?c) (snd ?z)))"
    by (simp add: r wave_copyEntry_def case_prod_beta Let_def)
  show ?thesis
    unfolding e unfolding r snd_conv
    using recorded_same[OF c] recorded_then[OF i recorded_orMerge] recorded_then[OF z recorded_orMerge] by simp
qed

lemma recorded_copyEntries: "recorded s (snd (wave_copyEntries z3 guard node dst m s))"
proof -
  have "recorded (snd r) (snd (case map_of m obj of None \<Rightarrow> r | Some cond \<Rightarrow> wave_copyEntry z3 guard dst obj cond r))"
    for obj and r :: "bool \<times> 'a wander_scheme"
    by (cases "map_of m obj") (simp_all add: recorded_copyEntry recorded_refl del: prod.collapse)
  note 1 = fold_recorded[of "\<lambda>obj r. case map_of m obj of None \<Rightarrow> r | Some cond \<Rightarrow> wave_copyEntry z3 guard dst obj cond r", OF this]
  have "recorded (snd r) (snd ((\<lambda>(obj, cond). wave_copyEntry z3 guard dst obj cond) x r))"
    for x and r :: "bool \<times> 'a wander_scheme"
    using recorded_copyEntry by (simp add: case_prod_beta)
  note 2 = fold_recorded[of "\<lambda>(obj, cond). wave_copyEntry z3 guard dst obj cond", OF this]
  show ?thesis using 1[where r = "(False, s)"] 2[where r = "(False, s)"] by (simp add: wave_copyEntries_def)
qed

lemma recorded_copyImplicit: "recorded (snd r) (snd (wave_copyImplicit z3 guard dst m pts r))"
proof -
  obtain ch s where r: "r = (ch, s)" by fastforce
  let ?l = "wave_applyLimits guard s"
  let ?z = "if eagerSat (snd ?l) then wave_z3IsSat z3 (fst ?l) (snd ?l) else (True, snd ?l)"
  let ?I = "filter (\<lambda>obj. map_of m obj = None) pts"
  let ?f = "\<lambda>obj (ch, t). let (c, t1) = wave_orMergeCondPts dst obj (fst ?l) t in (ch \<or> c, t1)"
  have l: "same_cond s (snd ?l)" by simp
  have z: "same_cond s (snd ?z)" by (rule same_cond_trans[OF l same_cond_eager])
  have "same_cond t (fold (\<lambda>_. incCuts) xs t)" for xs :: "node_id list" and t :: "'a wander_scheme"
    by (induction xs arbitrary: t) (auto intro: same_cond_trans[OF same_cond_updates(1)])
  then have i: "same_cond s (fold (\<lambda>_. incCuts) ?I (snd ?z))" by (rule same_cond_trans[OF z])
  have "recorded (snd r') (snd (?f obj r'))" for obj and r' :: "bool \<times> 'a wander_scheme"
    using recorded_orMerge by (simp add: case_prod_beta)
  from fold_recorded[of ?f, OF this, where r = "(ch, snd ?z)" and xs = ?I]
  have f: "recorded s (snd (fold ?f ?I (ch, snd ?z)))" using recorded_then[OF z] by simp
  have e: "snd (wave_copyImplicit z3 guard dst m pts r) =
      (if isTrue guard then s
       else if isTrue (fst ?l) \<or> isFalse (fst ?l) then snd ?l
       else if \<not> fst ?z then fold (\<lambda>_. incCuts) ?I (snd ?z) else snd (fold ?f ?I (ch, snd ?z)))"
    by (simp add: r wave_copyImplicit_def case_prod_beta Let_def)
  show ?thesis
    unfolding e unfolding r snd_conv using f recorded_same[OF l] recorded_same[OF i] recorded_refl[of s] by presburger
qed

lemma recorded_processCopy:
  assumes "wave_processCopy z3 n e s = Some (b, t)"
  shows "recorded s t"
proof (cases "kLimit s = 0")
  case True
  then show ?thesis
    using assms by (auto simp: wave_processCopy_def intro!: recorded_same more_same_cond dest: processCopy_more)
next
  case False
  then obtain b0 s1 where 1: "processCopy wave_getDiffPts n e s = Some (b0, s1)" and
    t: "t = snd (wave_copyImplicit z3 (guardOrTrue (eguard e)) (edst e) (condEntry n s1)
         (getPts (snd (wave_copyEntries z3 (guardOrTrue (eguard e)) n (edst e) (condEntry n s1) s1)) n)
         (wave_copyEntries z3 (guardOrTrue (eguard e)) n (edst e) (condEntry n s1) s1))"
    using assms by (auto simp: wave_processCopy_def Option.bind_eq_Some_conv Let_def case_prod_beta)
  have "same_cond s s1" by (rule more_same_cond[OF processCopy_more[OF 1]])
  from recorded_then[OF this recorded_trans[OF recorded_copyEntries recorded_copyImplicit]]
  show ?thesis unfolding t .
qed

lemma recorded_gepEntry:
  assumes "wave_gepEntry z3 edgeG e o1 (ch, s) = Some (ch', t)"
  shows "recorded s t"
proof (cases "map_of (condEntry (esrc e) s) o1")
  case None
  then show ?thesis using assms recorded_refl by (simp add: wave_gepEntry_def)
next
  case (Some og)
  show ?thesis
  proof (cases "isFalse og")
    case True
    then show ?thesis using assms Some recorded_refl by (simp add: wave_gepEntry_def)
  next
    case False
    obtain nf s1 where 1: "translateFieldLite e o1 s = Some (nf, s1)"
      using assms Some False by (auto simp: wave_gepEntry_def Option.bind_eq_Some_conv)
    let ?c = "wave_gepCond edgeG og s1"
    let ?z = "if eagerSat (snd ?c) then wave_z3IsSat z3 (fst ?c) (snd ?c) else (True, snd ?c)"
    have b: "same_cond s s1" by (rule more_same_cond[OF translateFieldLite_more[OF 1]])
    have k: "same_cond s (snd (keepsGuard edgeG og s1))" by (rule same_cond_trans[OF b]) simp
    have "same_cond s (snd (onStore (getAnd og edgeG) (snd (keepsGuard edgeG og s1))))"
      by (rule same_cond_trans[OF k]) simp
    then have c: "same_cond s (snd ?c)" using b k by (simp add: wave_gepCond_def case_prod_beta Let_def)
    have z: "same_cond s (snd ?z)" by (rule same_cond_trans[OF c same_cond_eager])
    have i: "same_cond s (incCuts (snd ?z))" by (rule same_cond_trans[OF z]) simp
    have "t = (if isTrue (fst ?c) then snd ?c
       else if \<not> fst ?z then snd (wave_orMergeCondPts (edst e) nf getFalse (incCuts (snd ?z)))
       else if \<not> oset_find nf (getPts (snd ?z) (edst e)) then snd ?z
       else snd (wave_orMergeCondPts (edst e) nf (fst ?c) (snd ?z)))"
      using assms Some False 1 by (auto simp: wave_gepEntry_def case_prod_beta Let_def split: if_splits)
    then show ?thesis
      using recorded_same[OF c] recorded_same[OF z] recorded_then[OF i recorded_orMerge] recorded_then[OF z recorded_orMerge]
      by presburger
  qed
qed

lemma recorded_gepImplicit:
  assumes "wave_gepImplicit z3 edgeG e had (ch, s) = Some (ch', t)"
  shows "recorded s t"
proof -
  let ?l = "wave_applyLimits edgeG s"
  let ?z = "if eagerSat (snd ?l) then wave_z3IsSat z3 (fst ?l) (snd ?l) else (True, snd ?l)"
  let ?f = "\<lambda>o1 (ch, t).
             if had \<and> map_of (condEntry (esrc e) t) o1 \<noteq> None then Some (ch, t)
             else do {
               (newField, t1) \<leftarrow> translateFieldLite e o1 t;
               if \<not> oset_find newField (getPts t1 (edst e)) then Some (ch, t1)
               else if \<not> fst ?z then Some (ch, incCuts t1)
               else let (c, t2) = wave_orMergeCondPts (edst e) newField (fst ?l) t1 in Some (ch \<or> c, t2)
             }"
  have l: "same_cond s (snd ?l)" by simp
  have z: "same_cond s (snd ?z)" by (rule same_cond_trans[OF l same_cond_eager])
  have e: "wave_gepImplicit z3 edgeG e had (ch, s) =
      (if isTrue edgeG then Some (ch, s)
       else if isTrue (fst ?l) \<or> isFalse (fst ?l) then Some (ch, snd ?l)
       else foldO ?f (getPts (snd ?z) (esrc e)) (ch, snd ?z))"
    by (simp add: wave_gepImplicit_def case_prod_beta Let_def)
  have step: "recorded (snd r) (snd r')" if st: "?f o1 r = Some r'" for o1 r r'
  proof -
    obtain c u where r: "r = (c, u)" by fastforce
    show ?thesis
    proof (cases "had \<and> map_of (condEntry (esrc e) u) o1 \<noteq> None")
      case True
      then show ?thesis using st recorded_refl by (simp add: r)
    next
      case False
      obtain nf u1 where 1: "translateFieldLite e o1 u = Some (nf, u1)"
        using st False by (auto simp: r Option.bind_eq_Some_conv simp del: not_Some_eq)
      have b: "same_cond u u1" by (rule more_same_cond[OF translateFieldLite_more[OF 1]])
      have i: "same_cond u (incCuts u1)" by (rule same_cond_trans[OF b]) simp
      have "snd r' = (if \<not> oset_find nf (getPts u1 (edst e)) then u1
         else if \<not> fst ?z then incCuts u1 else snd (wave_orMergeCondPts (edst e) nf (fst ?l) u1))"
        using st False 1 by (auto simp: r case_prod_beta Let_def simp del: not_Some_eq split: if_splits)
      then show ?thesis
        using recorded_same[OF b] recorded_same[OF i] recorded_then[OF b recorded_orMerge] unfolding r snd_conv by presburger
    qed
  qed
  have "recorded (snd (ch, snd ?z)) (snd (ch', t))" if "foldO ?f (getPts (snd ?z) (esrc e)) (ch, snd ?z) = Some (ch', t)"
    by (rule foldO_recorded[where g = snd, OF that]) (rule step)
  then have "recorded s t" if "foldO ?f (getPts (snd ?z) (esrc e)) (ch, snd ?z) = Some (ch', t)"
    using recorded_then[OF z] that by simp
  note 3 = this
  show ?thesis
  proof (cases "isTrue edgeG \<or> isTrue (fst ?l) \<or> isFalse (fst ?l)")
    case True
    then have "t = s \<or> t = snd ?l" using assms unfolding e by (cases "isTrue edgeG") simp_all
    then show ?thesis using recorded_same[OF l] recorded_refl by blast
  next
    case False
    then have n: "\<not> isTrue edgeG" "\<not> (isTrue (fst ?l) \<or> isFalse (fst ?l))" by blast+
    show ?thesis by (rule 3[OF assms[unfolded e if_not_P[OF n(1)] if_not_P[OF n(2)]]])
  qed
qed

lemma recorded_processGep:
  assumes "wave_processGep z3 n e s = Some (b, t)"
  shows "recorded s t"
proof (cases "kLimit s = 0")
  case True
  then show ?thesis
    using assms by (auto simp: wave_processGep_def intro!: recorded_same more_same_cond dest: processGep_more)
next
  case False
  let ?g = "guardOrTrue (eguard e)"
  obtain b0 s1 where 1: "processGep wave_getDiffPts (esrc e) e s = Some (b0, s1)"
    using assms False by (cases "processGep wave_getDiffPts (esrc e) e s") (auto simp: wave_processGep_def)
  let ?had = "map_of (condPtsMap s1) (esrc e) \<noteq> None"
  obtain c1 s2 where 2: "wave_gepEntries z3 ?g e s1 = Some (c1, s2)"
    using assms False 1 by (cases "wave_gepEntries z3 ?g e s1") (auto simp: wave_processGep_def Let_def)
  obtain c2 where 3: "wave_gepImplicit z3 ?g e ?had (c1, s2) = Some (c2, t)"
    using assms False 1 2
    by (cases "wave_gepImplicit z3 ?g e ?had (c1, s2)") (auto simp: wave_processGep_def Let_def)
  have "recorded s1 s2"
  proof (cases "esrc e = currentDiffNode s1 \<and> currentDiffObjs s1 \<noteq> [] \<and> map_of (condPtsMap s1) (esrc e) \<noteq> None")
    case True
    have f: "foldO (wave_gepEntry z3 (guardOrTrue (eguard e)) e) (currentDiffObjs s1) (False, s1) = Some (c1, s2)"
      by (rule 2[unfolded wave_gepEntries_def if_P[OF True]])
    have "recorded (snd r) (snd r')" if "wave_gepEntry z3 (guardOrTrue (eguard e)) e x r = Some r'" for x r r'
      using recorded_gepEntry that by (metis prod.collapse)
    then have "recorded (snd (False, s1)) (snd (c1, s2))"
      by (intro foldO_recorded[where g = snd, OF f])
    then show ?thesis by simp
  next
    case False
    then show ?thesis using 2 recorded_refl by (auto simp: wave_gepEntries_def split: if_splits)
  qed
  then show ?thesis
    using recorded_then[OF more_same_cond[OF processGep_more[OF 1]] recorded_trans[OF _ recorded_gepImplicit[OF 3]]]
    by simp
qed

lemma diffStep_more: "ander.more (diffStep n s) = ander.more s"
  by (simp add: diffStep_def Let_def)

lemma recorded_edges:
  assumes "foldO (\<lambda>e t. map_option snd (f e t)) es s = Some t" "\<And>e s b t. f e s = Some (b, t) \<Longrightarrow> recorded s t"
  shows "recorded s t"
  using foldO_recorded[where g = "\<lambda>x. x", OF assms(1)] assms(2) by force

lemma recorded_handleCopyGep:
  assumes "wave_handleCopyGep z3 n s = Some t"
  shows "recorded s t"
proof -
  have d: "same_cond s (diffStep n s)" by (rule more_same_cond[OF diffStep_more])
  have ud: "recorded s t" if t1: "foldO (\<lambda>e t. map_option snd (wave_processCopy z3 n e t)) es (diffStep n s) = Some t1"
    and t: "foldO (\<lambda>e t. map_option snd (wave_processGep z3 n e t)) es' t1 = Some t" for es es' t1
    using recorded_then[OF d recorded_trans[OF recorded_edges[OF t1 recorded_processCopy] recorded_edges[OF t recorded_processGep]]] .
  show ?thesis
  proof (cases "kLimit s = 0")
    case True
    then have "t = diffStep n s \<or> (\<exists>es es' t1. foldO (\<lambda>e t. map_option snd (wave_processCopy z3 n e t)) es (diffStep n s) = Some t1
        \<and> foldO (\<lambda>e t. map_option snd (wave_processGep z3 n e t)) es' t1 = Some t)"
      using assms
      by (auto simp: wave_handleCopyGep_def handleCopyGep_def wave_methods_def Let_def Option.bind_eq_Some_conv split: if_splits)
    then show ?thesis using ud recorded_same[OF d] by blast
  next
    case False
    then have "t = diffStep n s \<or> (\<exists>es es' t1. foldO (\<lambda>e t. map_option snd (wave_processCopy z3 n e t)) es (diffStep n s) = Some t1
        \<and> foldO (\<lambda>e t. map_option snd (wave_processGep z3 n e t)) es' t1 = Some t)"
      using assms by (auto simp: wave_handleCopyGep_def Let_def Option.bind_eq_Some_conv split: if_splits)
    then show ?thesis using ud recorded_same[OF d] by blast
  qed
qed

lemma processLoad_more: "processLoad n e s = Some (b, t) \<Longrightarrow> ander.more t = ander.more s"
  by (auto simp: processLoad_def addCopyEdge_def updatePropaPts_def Option.bind_eq_Some_conv Let_def split: if_splits)

lemma processStore_more: "processStore n e s = Some (b, t) \<Longrightarrow> ander.more t = ander.more s"
  by (auto simp: processStore_def addCopyEdge_def updatePropaPts_def Option.bind_eq_Some_conv Let_def split: if_splits)

lemma same_cond_orGuardOnEdge: "same_cond s (orGuardOnEdge e g s)"
  by (simp add: orGuardOnEdge_def onStore_simps same_cond_def split: option.split)

lemma same_cond_mergeCopyEdgeGuard:
  assumes "mergeCopyEdgeGuard a b g c s = Some t"
  shows "same_cond s t"
proof -
  obtain g' where "t = s \<or> t = s\<lparr>consCG := g'\<rparr> \<or> (\<exists>e. t = orGuardOnEdge e g (s\<lparr>consCG := g'\<rparr>)) \<or> (\<exists>e. t = orGuardOnEdge e g s)"
    using assms
    by (auto simp: mergeCopyEdgeGuard_def Option.bind_eq_Some_conv split: if_splits option.splits)
  moreover have "same_cond s (s\<lparr>consCG := g'\<rparr>)" by (simp add: same_cond_def)
  ultimately show ?thesis using same_cond_orGuardOnEdge same_cond_trans same_cond_refl by metis
qed

lemma same_cond_derivedGuard: "same_cond s (snd (derivedGuard g p n s))"
  by (simp add: derivedGuard_def Let_def)

lemma same_cond_loadStore:
  "wave_processLoad n e s = Some (b, t) \<Longrightarrow> same_cond s t" "wave_processStore n e s = Some (b, t) \<Longrightarrow> same_cond s t"
proof -
  have f: "same_cond s t" if "ander.more u = ander.more s" "mergeCopyEdgeGuard x y (fst (derivedGuard g p n u)) c (snd (derivedGuard g p n u)) = Some t"
    for u x y g p c
    using same_cond_trans[OF more_same_cond[OF that(1)] same_cond_trans[OF same_cond_derivedGuard same_cond_mergeCopyEdgeGuard[OF that(2)]]] .
  show "wave_processLoad n e s = Some (b, t) \<Longrightarrow> same_cond s t"
    using f by (auto simp: wave_processLoad_def cond_processLoad_def Option.bind_eq_Some_conv case_prod_beta Let_def
        split: if_splits dest!: processLoad_more intro: more_same_cond)
  show "wave_processStore n e s = Some (b, t) \<Longrightarrow> same_cond s t"
    using f by (auto simp: wave_processStore_def cond_processStore_def Option.bind_eq_Some_conv case_prod_beta Let_def
        split: if_splits dest!: processStore_more intro: more_same_cond)
qed

lemma recorded_handleEdge:
  assumes "wd_handleEdge f n e s = Some t" "\<And>o1 e s b t. f o1 e s = Some (b, t) \<Longrightarrow> same_cond s t"
  shows "recorded s t"
proof -
  obtain c u where u: "foldO (\<lambda>o1 (changed, t). map_option (\<lambda>(c, t'). (changed \<or> c, t')) (f o1 e t)) (getPts s n) (False, s) = Some (c, u)"
    and t: "t = (if c then u\<lparr>reanalyze := True\<rparr> else u)"
    using assms(1) by (auto simp: wd_handleEdge_def wd_handle_def)
  have "recorded (snd (False, s)) (snd (c, u))"
    by (rule foldO_recorded[where g = snd, OF u]) (use assms(2) recorded_same in fastforce)
  moreover have "same_cond u t" by (simp add: t same_cond_def)
  ultimately show ?thesis using recorded_trans[OF _ recorded_same] by simp
qed

lemma recorded_subNodesLoop:
  assumes "wave_subNodesLoop f n s = Some t" "\<And>n s t. f n s = Some t \<Longrightarrow> recorded s t"
  shows "recorded s t"
proof (cases "\<exists>subs. subNodes n (sccD s) = Some subs \<and> length subs > 1")
  case True
  then obtain subs where "foldO (\<lambda>subId t. if subId \<noteq> n \<and> subId \<in> set (cnodes (consCG t)) then f subId t else Some t) subs s = Some t"
    using assms(1) by (auto simp: wave_subNodesLoop_def)
  then show ?thesis
    by (rule foldO_recorded[where g = "\<lambda>x. x"]) (use assms(2) recorded_refl in \<open>auto split: if_splits\<close>)
next
  case False
  then show ?thesis using assms(1) recorded_refl by (auto simp: wave_subNodesLoop_def split: option.splits if_splits)
qed

lemma recorded_subHandle: "wave_subNodesLoop (wave_handleCopyGep z3) n s = Some t \<Longrightarrow> recorded s t"
  by (rule recorded_subNodesLoop, assumption, rule recorded_handleCopyGep)

lemma recorded_processNode:
  assumes "wave_processNode z3 n s = Some t" "n \<in> set (cnodes (consCG s))"
  shows "recorded (takeDiff n s) t"
proof -
  obtain s1 where 1: "wd_processNode (wave_handleCopyGep z3) n (takeDiff n s) = Some s1"
    and 2: "mergeCondSCC s1 \<and> t = s1 \<or> wave_subNodesLoop (wave_handleCopyGep z3) n s1 = Some t"
    using assms by (auto simp: wave_processNode_def Option.bind_eq_Some_conv split: if_splits)
  have "recorded (takeDiff n s) s1"
    using 1 recorded_handleCopyGep recorded_refl
    by (auto simp: wd_processNode_def Option.bind_eq_Some_conv split: if_splits)
  then show ?thesis using 2 recorded_trans recorded_subHandle by blast
qed

lemma recorded_postSubNode: "wave_postSubNode z3 n s = Some t \<Longrightarrow> recorded s t"
proof -
  assume "wave_postSubNode z3 n s = Some t"
  then obtain es es' s1 s2 where 1: "foldO (wd_handleEdge wave_processLoad n) es s = Some s1"
    and 2: "foldO (wd_handleEdge wave_processStore n) es' s1 = Some s2" and 3: "wave_handleCopyGep z3 n s2 = Some t"
    by (auto simp: wave_postSubNode_def Option.bind_eq_Some_conv)
  have "recorded s s1"
    by (rule foldO_recorded[where g = "\<lambda>x. x", OF 1]) (rule recorded_handleEdge, assumption, rule same_cond_loadStore)
  moreover have "recorded s1 s2"
    by (rule foldO_recorded[where g = "\<lambda>x. x", OF 2]) (rule recorded_handleEdge, assumption, rule same_cond_loadStore)
  ultimately show "recorded s t" using recorded_handleCopyGep[OF 3] recorded_trans by blast
qed

lemma recorded_subPost: "wave_subNodesLoop (wave_postSubNode z3) n s = Some t \<Longrightarrow> recorded s t"
  by (rule recorded_subNodesLoop, assumption, rule recorded_postSubNode)

lemma recorded_postProcessNode:
  assumes "wave_postProcessNode z3 n s = Some t" "n \<in> set (cnodes (consCG s))"
  shows "recorded (takeDiff n s) t"
proof -
  obtain s1 where 1: "wd_postProcessNode (wave_methods z3) n (takeDiff n s) = Some s1"
    and 2: "t = s1 \<or> (\<exists>m s2. wave_handleCopyGep z3 m s1 = Some s2 \<and> wave_subNodesLoop (wave_postSubNode z3) n s2 = Some t)"
    using assms by (auto simp: wave_postProcessNode_def Option.bind_eq_Some_conv split: if_splits)
  obtain es es' u where u: "foldO (wd_handleEdge wave_processLoad n) es (takeDiff n s) = Some u"
    and s1: "foldO (wd_handleEdge wave_processStore n) es' u = Some s1"
    using 1 by (auto simp: wd_postProcessNode_def wave_methods_def Option.bind_eq_Some_conv)
  have "recorded (takeDiff n s) u"
    by (rule foldO_recorded[where g = "\<lambda>x. x", OF u]) (rule recorded_handleEdge, assumption, rule same_cond_loadStore)
  moreover have "recorded u s1"
    by (rule foldO_recorded[where g = "\<lambda>x. x", OF s1]) (rule recorded_handleEdge, assumption, rule same_cond_loadStore)
  ultimately have "recorded (takeDiff n s) s1" by (rule recorded_trans)
  moreover have "recorded s1 t"
    using 2 recorded_trans[OF recorded_handleCopyGep recorded_subPost, of z3 _ s1 _ z3 n t] recorded_refl by blast
  ultimately show ?thesis by (rule recorded_trans)
qed

section \<open>Copy edges\<close>

lemma kept_gstep:
  assumes "gstep s t" "condPtsMap t = condPtsMap s" "cond_inv s"
  shows "kept v {} s t"
  using assms cpts_ok_mono[of "pst s" "condPtsMap s" "pst t"] guardAt_same[OF assms(2)]
  by (auto simp: kept_def cond_inv_def gstep_def)

lemma kept_step: "kept v {} s t \<Longrightarrow> kept v A t u \<Longrightarrow> kept v A s u"
  using kept_trans[of v "{}" s t A u] by simp

lemma kept_frame [simp]:
  "cond_inv s \<Longrightarrow> kept v {} s (recordDiff w o1 s)" "cond_inv s \<Longrightarrow> kept v {} s (s\<lparr>conjCappedGuards := C\<rparr>)"
  "cond_inv s \<Longrightarrow> kept v {} s (incCuts s)"
  by (rule kept_gstep; simp add: recordDiff_def incCuts_def gstep_def same_base_simps same_opts_def cond_inv_def)+

lemma kept_depth:
  assumes "cond_inv s" "valid c (pst s)"
  shows "kept v {} s (snd (onStore (depthM c) s))" "cond_inv (snd (onStore (depthM c) s))"
    "valid d (pst s) \<Longrightarrow> valid d (pst (snd (onStore (depthM c) s)))"
proof -
  note d = depth_gstep[OF cond_inv_store[OF assms(1)] assms(2)]
  show k: "kept v {} s (snd (onStore (depthM c) s))" by (rule kept_gstep[OF d(1,3) assms(1)])
  then show "cond_inv (snd (onStore (depthM c) s))" by (rule kept_cond_inv[OF _ assms(1)])
  show "valid d (pst s) \<Longrightarrow> valid d (pst (snd (onStore (depthM c) s)))" by (rule gstep_valid[OF d(1)])
qed

lemma kept_valid: "kept v A s t \<Longrightarrow> valid g (pst s) \<Longrightarrow> valid g (pst t)"
  using gstep_valid by (auto simp: kept_def)

lemma kept_orTooDeep:
  assumes "cond_inv s" "valid m (pst s)" "valid old (pst s)"
  shows "kept v {} s (snd (orTooDeep m old s))"
proof -
  note 1 = kept_depth[OF assms(1,2)]
  note 2 = kept_depth[OF 1(2) 1(3)[OF assms(3)]]
  show ?thesis
    using kept_refl[OF assms(1)] 1(1) kept_step[OF 1(1) 2(1)]
    by (simp add: orTooDeep_def case_prod_beta Let_def)
qed

lemma kept_keepsGuard:
  assumes "cond_inv s" "valid g (pst s)" "valid c (pst s)"
  shows "kept v {} s (snd (keepsGuard g c s))"
proof -
  note 1 = kept_depth[OF assms(1,3)]
  note 2 = kept_depth[OF 1(2) 1(3)[OF assms(2)]]
  have k: "kept v {} s (snd (onStore (depthM g) (snd (onStore (depthM c) s))))" by (rule kept_step[OF 1(1) 2(1)])
  show ?thesis
    using kept_refl[OF assms(1)] k kept_step[OF k kept_frame(2)[OF 2(2)]]
    by (simp add: keepsGuard_def case_prod_beta Let_def)
qed

lemma kept_getAnd:
  assumes "cond_inv s" "valid a (pst s)" "valid b (pst s)"
  shows "kept v {} s (snd (onStore (getAnd a b) s))" "valid (fst (onStore (getAnd a b) s)) (pst (snd (onStore (getAnd a b) s)))"
    "peval env a \<Longrightarrow> peval env b \<Longrightarrow> peval env (fst (onStore (getAnd a b) s))"
  using weaker_getAnd[OF cond_inv_store[OF assms(1)] assms(2,3)] weaker_kept[OF _ assms(1)] by (auto simp: weaker_def)

lemma wave_orMerge_kept:
  assumes inv: "cond_inv s" and v: "valid g (pst s)"
  shows "kept v {o1} s (snd (wave_orMergeCondPts v o1 g s))"
proof -
  have up: "kept v {o1} s t" if "kept v {} s t" for t using kept_mono[OF that] by simp
  show ?thesis
  proof (cases "isTrue g")
    case True
    then show ?thesis
      using kept_erase[OF inv] up[OF kept_refl[OF inv]] by (auto simp: wave_orMergeCondPts_def split: option.split)
  next
    case nt: False
    show ?thesis
    proof (cases "map_of (condEntry v s) o1")
      case None
      have k: "kept v {o1} s (setCondPts v o1 g s)" by (rule kept_set[OF inv v])
      have "kept v {o1} s (recordDiff v o1 (setCondPts v o1 g s))"
        using kept_trans[OF k kept_frame(1)[OF kept_cond_inv[OF k inv]]] by simp
      then show ?thesis using None nt by (simp add: wave_orMergeCondPts_def)
    next
      case (Some old)
      let ?m = "onStore (getOr old g) s"
      let ?d = "orTooDeep (fst ?m) old (snd ?m)"
      let ?l = "wave_applyLimits (fst ?m) (snd ?d)"
      have "guardAt s v o1 = Some old" using Some by (simp add: guardAt_def)
      from orMerge_old[OF nt this inv v]
      have m: "kept v {} s (snd ?m)" "cond_inv (snd ?m)" "valid (fst ?m) (pst (snd ?m))" "valid old (pst (snd ?m))"
        by (simp_all add: onStore_simps)
      have d: "kept v {} (snd ?m) (snd ?d)" by (rule kept_orTooDeep[OF m(2-4)])
      note md = kept_step[OF m(1) d] and id = kept_cond_inv[OF d m(2)] and vd = kept_valid[OF d m(3)]
      note l = applyLimits_kept[OF id vd, folded wave_applyLimits_def]
      have il: "cond_inv (snd ?l)" by (rule kept_cond_inv[OF l(1) id])
      have set: "kept v {o1} s (recordDiff v o1 (setCondPts v o1 x t))"
        if "kept v {} s t" "cond_inv t" "valid x (pst t)" for x t
      proof -
        have k: "kept v {o1} s (setCondPts v o1 x t)" by (rule kept_step[OF that(1) kept_set[OF that(2,3)]])
        show ?thesis using kept_trans[OF k kept_frame(1)[OF kept_cond_inv[OF k inv]]] by simp
      qed
      have e: "snd (wave_orMergeCondPts v o1 g s) =
        (if caddr (fst ?m) = caddr old then snd ?m
         else if fst ?d then (snd ?d)\<lparr>conjCappedGuards := insert (caddr old) (conjCappedGuards (snd ?d))\<rparr>
         else if isTrue (fst ?m) then (if isTrue old then eraseCondPts v o1 (snd ?d) else snd ?d)
         else if useDepthLimit (snd ?d) then recordDiff v o1 (setCondPts v o1 (fst ?m) (snd ?d))
         else recordDiff v o1 (setCondPts v o1 (fst ?l) (snd ?l)))"
        using nt Some by (simp add: wave_orMergeCondPts_def case_prod_beta Let_def)
      show ?thesis
        unfolding e
        using up[OF m(1)] up[OF kept_step[OF md kept_frame(2)[OF id]]] kept_step[OF md kept_erase[OF id]] up[OF md]
          set[OF md id vd] set[OF kept_step[OF md l(1)] il l(2)] by presburger
    qed
  qed
qed

lemma gval_wave_orMerge_new:
  assumes "guardAt s v o1 = None"
  shows "gval (snd (wave_orMergeCondPts v o1 g s)) v o1 env \<longleftrightarrow> peval env g"
proof -
  have "guardAt (recordDiff v o1 t) = guardAt t" for t :: "'a wander_scheme"
    by (rule guardAt_same) (simp add: recordDiff_def)
  then show ?thesis
    using assms isTrue_peval[of g env] by (simp add: wave_orMergeCondPts_def gval_def guardAt_def[of s])
qed

lemma wave_copyCond_spec:
  assumes inv: "cond_inv s" and c: "valid cond (pst s)" and g: "valid guard (pst s)"
  shows "kept v {} s (snd (wave_copyCond guard cond s)) \<and> valid (fst (wave_copyCond guard cond s)) (pst (snd (wave_copyCond guard cond s)))
    \<and> (\<forall>env. peval env cond \<and> peval env guard \<longrightarrow> peval env (fst (wave_copyCond guard cond s)))"
proof -
  let ?k = "snd (keepsGuard guard cond s)"
  let ?a = "onStore (getAnd cond guard) ?k"
  let ?l = "wave_applyLimits (fst ?a) (snd ?a)"
  have k: "kept v {} s ?k" by (rule kept_keepsGuard[OF inv g c])
  note ik = kept_cond_inv[OF k inv] and vk = kept_valid[OF k c] kept_valid[OF k g]
  note a = kept_getAnd[OF ik vk]
  have ia: "cond_inv (snd ?a)" by (rule kept_cond_inv[OF a(1) ik])
  note l = applyLimits_kept[OF ia a(2), folded wave_applyLimits_def]
  have "kept v {} s (snd ?l)" by (rule kept_step[OF kept_step[OF k a(1)] l(1)])
  then show ?thesis using k vk(1) l(2,3) a(3) by (auto simp: wave_copyCond_def case_prod_beta Let_def)
qed

lemma wave_z3IsSat_kept: "cond_inv s \<Longrightarrow> kept v {} s (snd (if b then wave_z3IsSat z3 c s else (True, s)))"
  by (cases b) (simp_all add: wave_z3IsSat_def kept_z3IsSat kept_refl)

lemma wave_z3IsSat_sound:
  "z3_sound z3 \<Longrightarrow> \<not> fst (if b then wave_z3IsSat z3 c s else (True, s)) \<Longrightarrow> \<not> peval env c"
  using z3IsSat_sound by (auto simp: wave_z3IsSat_def split: if_splits)

lemma wave_copyEntry_step:
  assumes inv: "cond_inv t" and c: "valid cond (pst t)" and g: "valid guard (pst t)"
  shows "kept dst {obj} t (snd (wave_copyEntry z3 guard dst obj cond (ch, t)))
    \<and> (z3_sound z3 \<longrightarrow> guardAt t dst obj = None \<longrightarrow>
        (\<forall>env. peval env cond \<and> peval env guard \<longrightarrow> gval (snd (wave_copyEntry z3 guard dst obj cond (ch, t))) dst obj env))"
proof -
  let ?c = "wave_copyCond guard cond t"
  let ?z = "if eagerSat (snd ?c) then wave_z3IsSat z3 (fst ?c) (snd ?c) else (True, snd ?c)"
  note w = wave_copyCond_spec[OF inv c g, of dst]
  have ic: "cond_inv (snd ?c)" using kept_cond_inv[OF conjunct1[OF w] inv] .
  have z: "kept dst {} t (snd ?z)" by (rule kept_step[OF conjunct1[OF w] wave_z3IsSat_kept[OF ic]])
  have iz: "cond_inv (snd ?z)" by (rule kept_cond_inv[OF z inv])
  have vz: "valid (fst ?c) (pst (snd ?z))" using kept_valid[OF wave_z3IsSat_kept[OF ic]] w by blast
  have i: "kept dst {} t (incCuts (snd ?z))" by (rule kept_step[OF z kept_frame(3)[OF iz]])
  have ii: "cond_inv (incCuts (snd ?z))" by (rule kept_cond_inv[OF i inv])
  have vf: "valid getFalse (pst (incCuts (snd ?z)))" using valid_statics(3)[OF cond_inv_store[OF ii]] .
  note F = kept_step[OF i wave_orMerge_kept[OF ii vf, of dst obj]]
  note N = kept_step[OF z wave_orMerge_kept[OF iz vz, of dst obj]]
  have e: "snd (wave_copyEntry z3 guard dst obj cond (ch, t)) =
      (if isTrue (fst ?c) then snd ?c
       else if \<not> fst ?z then snd (wave_orMergeCondPts dst obj getFalse (incCuts (snd ?z)))
       else snd (wave_orMergeCondPts dst obj (fst ?c) (snd ?z)))"
    by (simp add: wave_copyEntry_def case_prod_beta Let_def)
  have "kept dst {obj} t (snd (wave_copyEntry z3 guard dst obj cond (ch, t)))"
    unfolding e using F N kept_mono[OF conjunct1[OF w], of "{obj}"] by simp
  moreover have "gval (snd (wave_copyEntry z3 guard dst obj cond (ch, t))) dst obj env"
    if z3: "z3_sound z3" and none: "guardAt t dst obj = None" and env: "peval env cond" "peval env guard" for env
  proof -
    have pc: "peval env (fst ?c)" using w env by blast
    then have "fst ?z" using wave_z3IsSat_sound[OF z3] by blast
    moreover have "guardAt (snd ?c) dst obj = None" "guardAt (snd ?z) dst obj = None"
      using none kept_same[OF conjunct1[OF w], of dst obj] kept_same[OF z, of dst obj] by simp_all
    ultimately show ?thesis
      unfolding e using gval_wave_orMerge_new[of "snd ?z" dst obj "fst ?c" env] pc gval_None[of "snd ?c" dst obj] by simp
  qed
  ultimately show ?thesis by blast
qed

text \<open>The objects whose entries at the source the first part of \<^verbatim>\<open>processCopy\<close> looks at.\<close>

definition visitedObjs :: "'a wander_scheme \<Rightarrow> node_id \<Rightarrow> node_id set" where
  "visitedObjs s n = (if n = currentDiffNode s \<and> currentDiffObjs s \<noteq> [] then set (currentDiffObjs s) else UNIV)"

lemma wave_copyEntries_spec:
  fixes s :: "'a wander_scheme"
  assumes inv: "cond_inv s" and g: "valid guard (pst s)" and d: "distinct (currentDiffObjs s)"
    and m: "distinct (map fst m)" "\<forall>og \<in> set m. valid (snd og) (pst s)"
  shows "kept dst (dom (map_of m) \<inter> visitedObjs s n) s (snd (wave_copyEntries z3 guard n dst m s))
    \<and> (z3_sound z3 \<longrightarrow> (\<forall>obj cond. obj \<in> visitedObjs s n \<and> map_of m obj = Some cond \<and> guardAt s dst obj = None \<longrightarrow>
        (\<forall>env. peval env cond \<and> peval env guard \<longrightarrow> gval (snd (wave_copyEntries z3 guard n dst m s)) dst obj env)))"
proof (cases "n = currentDiffNode s \<and> currentDiffObjs s \<noteq> []")
  case True
  let ?f = "\<lambda>obj (r :: bool \<times> 'a wander_scheme). case map_of m obj of None \<Rightarrow> r | Some cond \<Rightarrow> wave_copyEntry z3 guard dst obj cond r"
  let ?objs = "filter (\<lambda>obj. map_of m obj \<noteq> None) (currentDiffObjs s)"
  have f: "fold ?f xs r = fold ?f (filter (\<lambda>obj. map_of m obj \<noteq> None) xs) r" for xs r
    by (induction xs arbitrary: r) (auto split: option.split)
  have e: "wave_copyEntries z3 guard n dst m s = fold ?f ?objs (False, s)"
    unfolding wave_copyEntries_def if_P[OF True] by (rule f)
  let ?P = "\<lambda>obj G. z3_sound z3 \<longrightarrow> (\<forall>cond. map_of m obj = Some cond \<longrightarrow> (\<forall>env. peval env cond \<and> peval env guard \<longrightarrow> G env))"
  have "kept dst ((\<lambda>x. x) ` set ?objs) s (snd (fold ?f ?objs (False, s)))
    \<and> (\<forall>obj \<in> set ?objs. guardAt s dst obj = None \<longrightarrow> ?P obj (gval (snd (fold ?f ?objs (False, s))) dst obj))"
  proof (rule fold_kept[where P = ?P])
    fix obj ch and t :: "'a wander_scheme"
    assume o1: "obj \<in> set ?objs" and i: "cond_inv t" and st: "gstep s t"
    obtain cond where cond: "map_of m obj = Some cond" using o1 by auto
    then have "(obj, cond) \<in> set m" by (rule map_of_SomeD)
    then have "valid cond (pst t)" "valid guard (pst t)" using m(2) g gstep_valid[OF st] by auto
    from wave_copyEntry_step[OF i this, of dst obj z3 ch]
    show "kept dst {obj} t (snd (?f obj (ch, t))) \<and> (guardAt t dst obj = None \<longrightarrow> ?P obj (gval (snd (?f obj (ch, t))) dst obj))"
      using cond by auto
  qed (use inv d in auto)
  note F = this
  have v: "visitedObjs s n = set (currentDiffObjs s)" using True by (simp add: visitedObjs_def)
  have "kept dst (dom (map_of m) \<inter> visitedObjs s n) s (snd (wave_copyEntries z3 guard n dst m s))"
    unfolding e v by (rule kept_mono[OF conjunct1[OF F]]) auto
  then show ?thesis unfolding e v using F by auto
next
  case False
  let ?f = "\<lambda>(obj, cond) (r :: bool \<times> 'a wander_scheme). wave_copyEntry z3 guard dst obj cond r"
  have e: "wave_copyEntries z3 guard n dst m s = fold ?f m (False, s)"
    using False by (auto simp: wave_copyEntries_def)
  let ?P = "\<lambda>og G. z3_sound z3 \<longrightarrow> (\<forall>env. peval env (snd og) \<and> peval env guard \<longrightarrow> G env)"
  have "kept dst (fst ` set m) s (snd (fold ?f m (False, s)))
    \<and> (\<forall>og \<in> set m. guardAt s dst (fst og) = None \<longrightarrow> ?P og (gval (snd (fold ?f m (False, s))) dst (fst og)))"
  proof (rule fold_kept[where P = ?P])
    fix og ch and t :: "'a wander_scheme"
    assume og: "og \<in> set m" and i: "cond_inv t" and st: "gstep s t"
    have "valid (snd og) (pst t)" "valid guard (pst t)" using og m(2) g gstep_valid[OF st] by auto
    from wave_copyEntry_step[OF i this, of dst "fst og" z3 ch]
    show "kept dst {fst og} t (snd (?f og (ch, t))) \<and> (guardAt t dst (fst og) = None \<longrightarrow> ?P og (gval (snd (?f og (ch, t))) dst (fst og)))"
      by (auto simp: case_prod_beta)
  qed (use inv m in auto)
  moreover have "fst ` set m = dom (map_of m) \<inter> visitedObjs s n"
    using False by (auto simp: dom_map_of_conv_image_fst visitedObjs_def)
  ultimately show ?thesis unfolding e by (auto dest!: map_of_SomeD)
qed

lemma wave_copyImplicit_spec:
  fixes s :: "'a wander_scheme"
  assumes inv: "cond_inv s" and g: "valid guard (pst s)" and d: "distinct pts"
  shows "kept dst {obj \<in> set pts. map_of m obj = None} s (snd (wave_copyImplicit z3 guard dst m pts (c, s)))
    \<and> (z3_sound z3 \<longrightarrow> (\<forall>obj \<in> set pts. map_of m obj = None \<and> guardAt s dst obj = None \<longrightarrow>
        (\<forall>env. peval env guard \<longrightarrow> gval (snd (wave_copyImplicit z3 guard dst m pts (c, s))) dst obj env)))"
proof -
  let ?l = "wave_applyLimits guard s"
  let ?z = "if eagerSat (snd ?l) then wave_z3IsSat z3 (fst ?l) (snd ?l) else (True, snd ?l)"
  let ?A = "{obj \<in> set pts. map_of m obj = None}"
  let ?I = "filter (\<lambda>obj. map_of m obj = None) pts"
  let ?f = "\<lambda>obj (ch, t :: 'a wander_scheme). let (c, t1) = wave_orMergeCondPts dst obj (fst ?l) t in (ch \<or> c, t1)"
  let ?t = "snd (wave_copyImplicit z3 guard dst m pts (c, s))"
  note l = applyLimits_kept[OF inv g, folded wave_applyLimits_def]
  have il: "cond_inv (snd ?l)" by (rule kept_cond_inv[OF l(1) inv])
  have z: "kept dst {} s (snd ?z)" by (rule kept_step[OF l(1) wave_z3IsSat_kept[OF il]])
  have iz: "cond_inv (snd ?z)" by (rule kept_cond_inv[OF z inv])
  have vz: "valid (fst ?l) (pst (snd ?z))" by (rule kept_valid[OF wave_z3IsSat_kept[OF il] l(2)])
  have e: "?t = (if isTrue guard then s
       else if isTrue (fst ?l) \<or> isFalse (fst ?l) then snd ?l
       else if \<not> fst ?z then fold (\<lambda>_. incCuts) ?I (snd ?z) else snd (fold ?f ?I (c, snd ?z)))"
    by (simp add: wave_copyImplicit_def case_prod_beta Let_def)
  have cuts: "kept dst {} u (fold (\<lambda>_. incCuts) xs u)" if "cond_inv u" for xs :: "node_id list" and u :: "'a wander_scheme"
    using that
  proof (induction xs arbitrary: u)
    case (Cons x xs)
    have "cond_inv (incCuts u)" by (rule kept_cond_inv[OF kept_frame(3)[OF Cons.prems] Cons.prems])
    then show ?case using kept_step[OF kept_frame(3)[OF Cons.prems] Cons.IH] by simp
  qed (simp add: kept_refl)
  have quiet: ?thesis if "kept dst {} s ?t"
    using kept_mono[OF that, of ?A] kept_same[OF that] gval_None[of ?t dst] by simp
  show ?thesis
  proof (cases "isTrue guard \<or> isTrue (fst ?l) \<or> isFalse (fst ?l)")
    case True
    have "?t = s \<or> ?t = snd ?l"
    proof (cases "isTrue guard")
      case g: True
      show ?thesis unfolding e if_P[OF g] by (rule disjI1) (rule refl)
    next
      case g: False
      then have l: "isTrue (fst ?l) \<or> isFalse (fst ?l)" using True by blast
      show ?thesis unfolding e if_not_P[OF g] if_P[OF l] by (rule disjI2) (rule refl)
    qed
    then have "kept dst {} s ?t" using kept_refl[OF inv] l(1) by (elim disjE) (simp_all only:)
    then show ?thesis by (rule quiet)
  next
    case False
    show ?thesis
    proof (cases "fst ?z")
      case unsat: False
      then have "?t = fold (\<lambda>_. incCuts) ?I (snd ?z)" unfolding e using False by presburger
      then have "kept dst {} s ?t" using kept_step[OF z cuts[OF iz]] by (simp only:)
      then show ?thesis by (rule quiet)
    next
      case sat: True
      then have t: "?t = snd (fold ?f ?I (c, snd ?z))" unfolding e using False by presburger
      have "kept dst ((\<lambda>x. x) ` set ?I) (snd ?z) (snd (fold ?f ?I (c, snd ?z)))
        \<and> (\<forall>obj \<in> set ?I. guardAt (snd ?z) dst obj = None \<longrightarrow>
            (\<forall>env. gval (snd (fold ?f ?I (c, snd ?z))) dst obj env = peval env (fst ?l)))"
      proof (rule fold_kept[where P = "\<lambda>obj G. \<forall>env. G env = peval env (fst ?l)"])
        fix obj ch and u :: "'a wander_scheme"
        assume i: "cond_inv u" and st: "gstep (snd ?z) u"
        have v: "valid (fst ?l) (pst u)" by (rule gstep_valid[OF st vz])
        have e: "snd (?f obj (ch, u)) = snd (wave_orMergeCondPts dst obj (fst ?l) u)" by (simp add: case_prod_beta)
        show "kept dst {obj} u (snd (?f obj (ch, u)))
          \<and> (guardAt u dst obj = None \<longrightarrow> (\<forall>env. gval (snd (?f obj (ch, u))) dst obj env = peval env (fst ?l)))"
          unfolding e using wave_orMerge_kept[OF i v] gval_wave_orMerge_new[of u dst obj "fst ?l"] by blast
      qed (use iz d in auto)
      note F = this
      have "kept dst ?A s ?t" unfolding t using kept_step[OF z kept_mono[OF conjunct1[OF F], of ?A]] by auto
      moreover have "gval ?t dst obj env"
        if "obj \<in> set pts" "map_of m obj = None" "guardAt s dst obj = None" "peval env guard" for obj env
      proof -
        have "obj \<in> set ?I" "guardAt (snd ?z) dst obj = None" using that kept_same[OF z] by auto
        then show ?thesis unfolding t using conjunct2[OF F] l(3)[OF that(4)] by blast
      qed
      ultimately show ?thesis by blast
    qed
  qed
qed

lemma diffOf_counter: "diffOf (s\<lparr>numOfProcessedCopy := n\<rparr>) = diffOf s"
  by (simp add: diffOf_def rep_of_def fun_eq_iff Let_def)

lemma wave_processCopy_spec:
  fixes s :: "'a wander_scheme"
  assumes r: "wave_processCopy z3 n e s = Some (b, s')" and k: "kLimit s \<noteq> 0"
    and inv: "cond_inv s" and dd: "dd_inv (ptD s)" and e: "e \<in> set (cedges (consCG s))"
    and d: "distinct (currentDiffObjs s)"
  shows "\<exists>b0 t. processCopy diffOf n e s = Some (b0, t) \<and> same_base t s' \<and> (b0 \<longrightarrow> b)
    \<and> kept (edst e) (set (getPts t n) \<union> {obj. guardAt s n obj \<noteq> None}) t s' \<and> cond_inv t \<and> guardAt t = guardAt s
    \<and> (z3_sound z3 \<longrightarrow> (\<forall>obj. (obj \<in> set (getPts t n) \<or> guardAt s n obj \<noteq> None) \<and> guardAt s (edst e) obj = None \<longrightarrow>
        (\<forall>env. gval s n obj env \<and> peval env (guardOrTrue (eguard e)) \<longrightarrow> gval s' (edst e) obj env)))
    \<and> (isTrue (guardOrTrue (eguard e)) \<longrightarrow>
        (\<forall>obj. guardAt s n obj = None \<longrightarrow> guardAt s' (edst e) obj = guardAt s (edst e) obj))"
proof -
  let ?guard = "guardOrTrue (eguard e)"
  have wd: "wave_getDiffPts = (diffOf :: 'a wander_scheme \<Rightarrow> _)" by (simp add: wave_getDiffPts_def fun_eq_iff)
  obtain b0 t where t: "processCopy diffOf n e s = Some (b0, t)"
    using r k by (cases "processCopy diffOf n e s") (auto simp: wave_processCopy_def wd)
  note c = processCopy_Some[OF t dd diffOf_counter]
  note m = more_fields[OF processCopy_more[OF t]] and sc = more_same_cond[OF processCopy_more[OF t]]
  have it: "cond_inv t" using inv c(4) m by (simp add: cond_inv_def)
  have gt: "guardAt t = guardAt s" by (rule guardAt_same[OF m(2)])
  have dt: "distinct (currentDiffObjs t)" using d sc by (simp add: same_cond_def)
  let ?m = "condEntry n t"
  have en: "map_of ?m obj = guardAt s n obj" for obj by (simp add: gt[symmetric] guardAt_def)
  have eo: "distinct (map fst ?m)" "\<forall>og \<in> set ?m. valid (snd og) (pst t)"
    using condEntry_ok[of "pst t" t] it by (auto simp: cond_inv_def)
  have gv: "valid ?guard (pst t)" by (rule edge_guard_valid[OF it]) (simp add: c(4) e)
  let ?r1 = "wave_copyEntries z3 ?guard n (edst e) ?m t"
  note l1 = wave_copyEntries_spec[OF it gv dt eo, of "edst e" n z3]
  have k1: "kept (edst e) {obj. guardAt s n obj \<noteq> None} t (snd ?r1)"
    by (rule kept_mono[OF conjunct1[OF l1]]) (auto simp: en[symmetric])
  have i1: "cond_inv (snd ?r1)" by (rule kept_cond_inv[OF k1 it])
  have g1: "gstep t (snd ?r1)" using k1 by (simp add: kept_def)
  let ?pts = "getPts (snd ?r1) n"
  have pts: "?pts = getPts t n" using g1 same_base_getPts(1)[of t "snd ?r1"] by (simp add: gstep_def)
  have "oset_inv ?pts" using dd.pts_oset[OF c(3)] by (simp add: pts) (simp add: getPts_def)
  then have dp: "distinct ?pts" by (simp add: oset_inv_def)
  let ?r2 = "wave_copyImplicit z3 ?guard (edst e) ?m ?pts (fst ?r1, snd ?r1)"
  note l2 = wave_copyImplicit_spec[OF i1 gstep_valid[OF g1 gv] dp, of "edst e" ?m z3 "fst ?r1"]
  have s': "s' = snd ?r2" "b = (b0 \<or> fst ?r2)"
    using r k t by (auto simp: wave_processCopy_def wd Let_def case_prod_beta)
  have k2: "kept (edst e) {obj \<in> set ?pts. map_of ?m obj = None} (snd ?r1) s'" using l2 s' by simp
  have kk: "kept (edst e) (set (getPts t n) \<union> {obj. guardAt s n obj \<noteq> None}) t s'"
    by (rule kept_mono[OF kept_trans[OF k1 k2]]) (auto simp: pts)
  have "gval s' (edst e) obj env"
    if z3: "z3_sound z3" and o1: "obj \<in> set (getPts t n) \<or> guardAt s n obj \<noteq> None" and none: "guardAt s (edst e) obj = None"
      and env: "gval s n obj env" "peval env ?guard" for obj env
  proof (cases "guardAt s n obj")
    case (Some gd)
    have same: "guardAt s' (edst e) obj = guardAt (snd ?r1) (edst e) obj"
      using kept_same[OF k2] Some en[of obj] by simp
    have pg: "peval env gd" using env(1) Some by (simp add: gval_def)
    show ?thesis
    proof (cases "obj \<in> visitedObjs t n")
      case True
      then have "gval (snd ?r1) (edst e) obj env" using l1 z3 none gt Some en[of obj] pg env(2) by metis
      then show ?thesis by (simp add: gval_def same)
    next
      case False
      then have "guardAt (snd ?r1) (edst e) obj = guardAt t (edst e) obj" using kept_same[OF conjunct1[OF l1]] by blast
      then show ?thesis using none gt same gval_None by metis
    qed
  next
    case None
    then have "guardAt (snd ?r1) (edst e) obj = None" using kept_same[OF k1] none gt by simp
    moreover have "obj \<in> set ?pts" using o1 None pts by simp
    ultimately show ?thesis unfolding s'(1) using conjunct2[OF l2] z3 None en[of obj] env(2) by simp
  qed
  moreover have "guardAt s' (edst e) obj = guardAt s (edst e) obj" if "isTrue ?guard" "guardAt s n obj = None" for obj
  proof -
    have "s' = snd ?r1" unfolding s'(1) using that(1) by (simp add: wave_copyImplicit_def)
    then show ?thesis using kept_same[OF k1] that(2) gt by simp
  qed
  moreover have "same_base t s'" using kk by (simp add: kept_def gstep_def)
  ultimately show ?thesis using t kk it gt s'(2) by blast
qed

section \<open>Properties\<close>

text \<open>The state of the example of theory \<open>CondAndersen_Correct\<close>, with an outstanding difference at node 12.\<close>

definition demo_wave :: wander where
  "demo_wave = cander.extend demo_cond
     \<lparr>condDiffPtsMap = (\<lambda>_. None)(12 := Some [4]), currentDiffNode = 12, currentDiffObjs = [], bbGuardCache = []\<rparr>"

lemma demo_wave_simps:
  "consCG demo_wave = consCG demo_cond" "ptD demo_wave = ptD demo_cond" "sccD demo_wave = scc_clear" "pst demo_wave = pst demo_cond"
  "condPtsMap demo_wave = [(12, [(4, demo_nc)])]" "edgeGuards demo_wave = edgeGuards demo_cond" "kLimit demo_wave = -1"
  "mergeCondSCC demo_wave = False" "currentDiffNode demo_wave = 12" "currentDiffObjs demo_wave = []" "DiffPts demo_wave"
  by (simp_all add: demo_wave_def demo_cond_def cander.defs)

lemma demo_wave_inv: "cond_inv demo_wave" "dd_inv (ptD demo_wave)" "rep_of demo_wave = rep_of demo_cond"
  "getPts demo_wave = getPts demo_cond"
proof -
  show r: "rep_of demo_wave = rep_of demo_cond" by (simp add: rep_of_def fun_eq_iff demo_wave_simps)
  show "getPts demo_wave = getPts demo_cond" by (simp add: getPts_def fun_eq_iff demo_wave_simps r)
  show "dd_inv (ptD demo_wave)" using demo_cond_dd by (simp add: demo_wave_simps)
  show "cond_inv demo_wave" using demo_cond_inv(1) by (simp add: cond_inv_def demo_wave_simps demo_cond_opts)
qed

lemma wave_processCopy_runs:
  assumes "ekind e = Copy"
  shows "\<exists>b t. wave_processCopy z3 n e s = Some (b, t)"
  using assms by (auto simp: wave_processCopy_def processCopy_def case_prod_beta Let_def)

text \<open>No edge leaves node 12.\<close>

lemma demo_handle_12:
  assumes "consCG s = consCG demo_cond" "kLimit s \<noteq> 0"
  shows "wave_handleCopyGep z3 12 s = Some (diffStep 12 s)"
proof -
  have c: "consCG (diffStep 12 s) = consCG demo_cond" using assms(1) by (simp add: diffStep_def Let_def)
  have e: "getCopyOutEdges 12 (consCG demo_cond) = []" "getGepOutEdges 12 (consCG demo_cond) = []"
    by (simp_all add: getCopyOutEdges_def getGepOutEdges_def getOutEdges_def demo_cond_def empty_consg_def)
  show ?thesis using assms(2) by (simp add: wave_handleCopyGep_def Let_def c e assms(1))
qed

lemma demo_wave_run:
  "\<exists>t. wave_processNode z3 12 demo_wave = Some t" "\<exists>t. wave_postProcessNode z3 12 demo_wave = Some t"
proof -
  let ?s = "takeDiff 12 demo_wave"
  have f: "consCG ?s = consCG demo_cond" "kLimit ?s = -1" "mergeCondSCC ?s = False" "sccD ?s = scc_clear"
    by (simp_all add: takeDiff_def demo_wave_simps)
  have d: "consCG (diffStep 12 ?s) = consCG demo_cond" "kLimit (diffStep 12 ?s) = -1" "mergeCondSCC (diffStep 12 ?s) = False"
      "sccD (diffStep 12 ?s) = scc_clear"
    by (simp_all add: diffStep_def Let_def f)
  have n: "12 \<in> set (cnodes (consCG demo_wave))" using demo_cond_inv(6) by (simp add: demo_wave_simps live_def)
  have r: "rep_of ?s 12 = 12" using rep_of_live[of ?s 12] demo_cond_inv(6) by (simp add: f)
  have g: "getConstraintNode 12 (consCG demo_cond) = Some 12" using demo_cond_inv(6) by (rule live_getConstraintNode)
  have e: "getLoadOutEdges 12 (consCG demo_cond) = []" "getStoreInEdges 12 (consCG demo_cond) = []"
    by (simp_all add: getLoadOutEdges_def getStoreInEdges_def getOutEdges_def getInEdges_def demo_cond_def empty_consg_def)
  have l: "wave_subNodesLoop h 12 (diffStep 12 ?s) = Some (diffStep 12 ?s)" for h
    by (simp add: wave_subNodesLoop_def d subNodes_def scc_clear_def)
  show "\<exists>t. wave_processNode z3 12 demo_wave = Some t"
    using n by (simp add: wave_processNode_def wd_processNode_def r f g demo_handle_12 d l)
  show "\<exists>t. wave_postProcessNode z3 12 demo_wave = Some t"
    using n by (simp add: wave_postProcessNode_def wd_postProcessNode_def r f g e demo_handle_12 d l)
qed

text \<open>
  C17: No change of a guard is forgotten: after a node has been processed, in either loop of the
  solver, every pair of a node and an object that has a guard it did not have before is among the
  differences of that node, and no difference outstanding at another node is lost; those of the
  node itself are the ones that were propagated.
\<close>

theorem wave_processNode_records:
  assumes "n \<in> set (cnodes (consCG s))" "wave_processNode z3 n s = Some t \<or> wave_postProcessNode z3 n s = Some t"
  shows "(\<forall>v obj g. guardAt t v obj = Some g \<and> guardAt s v obj \<noteq> Some g \<longrightarrow> obj \<in> diffAt t v)
    \<and> (\<forall>v. v \<noteq> n \<longrightarrow> diffAt s v \<subseteq> diffAt t v)
    \<and> currentDiffNode t = n \<and> set (currentDiffObjs t) = diffAt s n"
proof -
  have r: "recorded (takeDiff n s) t"
    using assms recorded_processNode recorded_postProcessNode by blast
  have g: "guardAt (takeDiff n s) = guardAt s" and c: "currentDiffNode (takeDiff n s) = n" "set (currentDiffObjs (takeDiff n s)) = diffAt s n"
    and d: "v \<noteq> n \<Longrightarrow> diffAt (takeDiff n s) v = diffAt s v" for v
    by (simp_all add: takeDiff_def guardAt_def condEntry_def diffAt_def fun_eq_iff split: option.split)
  have "diffAt s v \<subseteq> diffAt t v" if "v \<noteq> n" for v
    using r d[OF that] unfolding recorded_def by blast
  then show ?thesis using r c unfolding recorded_def g by simp
qed

theorem wave_processNode_records_witness:
  "\<exists>t. wave_processNode (\<lambda>_. True) 12 demo_wave = Some t \<and> currentDiffNode t = 12 \<and> set (currentDiffObjs t) = {4}"
proof -
  obtain t where t: "wave_processNode (\<lambda>_. True) 12 demo_wave = Some t" using demo_wave_run(1) by blast
  have n: "12 \<in> set (cnodes (consCG demo_wave))" using demo_cond_inv(6) by (simp add: demo_wave_simps live_def)
  have "diffAt demo_wave 12 = {4}" by (simp add: diffAt_def demo_wave_def cander.defs)
  then have "currentDiffNode t = 12 \<and> set (currentDiffObjs t) = {4}"
    using wave_processNode_records[OF n disjI1[OF t]] by simp
  then show ?thesis using t by blast
qed

text \<open>
  What \<^verbatim>\<open>processCopy\<close> of the wave variant does to the points-to sets, the worklist and the
  graph is what \<^verbatim>\<open>Andersen::processCopy\<close> does to them: guards never add or remove a member, and
  a change of guards alone does not push the target onto the worklist. Only the target's entries
  change, and in them only the objects of the source.
\<close>

theorem wave_processCopy_refines:
  assumes "wave_processCopy z3 n e s = Some (b, s')" "kLimit s \<noteq> 0" "cond_inv s" "dd_inv (ptD s)"
    and "e \<in> set (cedges (consCG s))" "distinct (currentDiffObjs s)"
  shows "\<exists>b0 t. processCopy diffOf n e s = Some (b0, t) \<and> same_base t s' \<and> (b0 \<longrightarrow> b) \<and> cond_inv s'
    \<and> (\<forall>v obj. v \<noteq> edst e \<or> obj \<notin> set (getPts t n) \<and> guardAt s n obj = None \<longrightarrow> guardAt s' v obj = guardAt s v obj)"
proof -
  obtain b0 t where t: "processCopy diffOf n e s = Some (b0, t)" "same_base t s'" "b0 \<longrightarrow> b"
      "kept (edst e) (set (getPts t n) \<union> {obj. guardAt s n obj \<noteq> None}) t s'" "cond_inv t" "guardAt t = guardAt s"
    using wave_processCopy_spec[OF assms] by blast
  have "guardAt s' v obj = guardAt s v obj" if "v \<noteq> edst e \<or> obj \<notin> set (getPts t n) \<and> guardAt s n obj = None" for v obj
    using kept_same[OF t(4)] that t(6) by auto
  then show ?thesis using t kept_cond_inv[OF t(4,5)] by blast
qed

lemma demo_wave_copy:
  "hd (cedges (consCG demo_wave)) \<in> set (cedges (consCG demo_wave))" "hd (tl (cedges (consCG demo_wave))) \<in> set (cedges (consCG demo_wave))"
  "ekind (hd (cedges (consCG demo_wave))) = Copy" "ekind (hd (tl (cedges (consCG demo_wave)))) = Copy"
  "edst (hd (cedges (consCG demo_wave))) = 11" "edst (hd (tl (cedges (consCG demo_wave)))) = 12"
  "eguard (hd (cedges (consCG demo_wave))) = Some demo_c" "eguard (hd (tl (cedges (consCG demo_wave)))) = None"
  "kLimit demo_wave \<noteq> 0" "distinct (currentDiffObjs demo_wave)"
  by (simp_all add: demo_wave_simps) (simp_all add: demo_cond_def)

theorem wave_processCopy_refines_witness:
  "\<exists>b s'. wave_processCopy (\<lambda>_. True) 10 (hd (cedges (consCG demo_wave))) demo_wave = Some (b, s') \<and> cond_inv s'
    \<and> guardAt s' 12 4 = Some demo_nc"
proof -
  obtain b s' where r: "wave_processCopy (\<lambda>_. True) 10 (hd (cedges (consCG demo_wave))) demo_wave = Some (b, s')"
    using wave_processCopy_runs[OF demo_wave_copy(3)] by blast
  have "guardAt demo_wave 12 4 = Some demo_nc" by (simp add: guardAt_def condEntry_def demo_wave_simps)
  moreover have "12 \<noteq> edst (hd (cedges (consCG demo_wave)))" by (simp add: demo_wave_copy)
  ultimately show ?thesis
    using wave_processCopy_refines[OF r demo_wave_copy(9) demo_wave_inv(1,2) demo_wave_copy(1,10)] r by metis
qed

text \<open>
  C18: Propagation of guards over a copy edge is sound in the wave variant for the objects the
  target holds without an entry, whether the loop runs over the differences or over the whole
  entry, in depth mode or under clause limits, with or without eager satisfiability checks: such
  an object of the source gets a guard that holds whenever its guard at the source and the guard
  of the edge do.
\<close>

theorem wave_processCopy_sound:
  assumes "wave_processCopy z3 n e s = Some (b, s')" "kLimit s \<noteq> 0" "cond_inv s" "dd_inv (ptD s)"
    and "e \<in> set (cedges (consCG s))" "distinct (currentDiffObjs s)" "z3_sound z3"
    and "obj \<in> set (getPts s n)" "guardAt s (edst e) obj = None"
    and "gval s n obj env" "peval env (guardOrTrue (eguard e))"
  shows "gval s' (edst e) obj env"
proof -
  obtain b0 t where t: "processCopy diffOf n e s = Some (b0, t)" and P: "z3_sound z3 \<longrightarrow> (\<forall>obj. (obj \<in> set (getPts t n) \<or> guardAt s n obj \<noteq> None)
      \<and> guardAt s (edst e) obj = None \<longrightarrow>
        (\<forall>env. gval s n obj env \<and> peval env (guardOrTrue (eguard e)) \<longrightarrow> gval s' (edst e) obj env))"
    using wave_processCopy_spec[OF assms(1-6)] by blast
  have "obj \<in> set (getPts t n)"
    using processCopy_Some(1)[OF t assms(4) diffOf_counter, of n] assms(8) by (simp split: if_splits)
  then show ?thesis using P assms(7,9-11) by simp
qed

theorem wave_processCopy_sound_witness:
  "\<exists>b s'. wave_processCopy (\<lambda>_. True) 10 (hd (cedges (consCG demo_wave))) demo_wave = Some (b, s')
    \<and> gval s' 11 4 (\<lambda>_. True)"
proof -
  obtain b s' where r: "wave_processCopy (\<lambda>_. True) 10 (hd (cedges (consCG demo_wave))) demo_wave = Some (b, s')"
    using wave_processCopy_runs[OF demo_wave_copy(3)] by blast
  have z: "z3_sound (\<lambda>_. True)" by (simp add: z3_sound_def)
  have "guardAt demo_wave 11 4 = None" "guardAt demo_wave 10 4 = None"
    by (simp_all add: guardAt_def condEntry_def demo_wave_simps)
  then have "gval s' 11 4 (\<lambda>_. True)"
    using wave_processCopy_sound[OF r demo_wave_copy(9) demo_wave_inv(1,2) demo_wave_copy(1,10) z, of 4 "\<lambda>_. True"]
    by (simp add: demo_wave_copy gval_def demo_c_def demo_wave_inv(4) demo_cond_getPts)
  then show ?thesis using r by blast
qed

text \<open>
  An assignment without a guard does not widen what its target already holds: an object that
  the source holds on every path keeps, at the target of an edge without a guard, the guard it
  has there. Node 12 of the example points to object 4 only under the negated condition, and still
  does after the unguarded assignment from node 10, which points to it on every path.
\<close>

theorem wave_unconditional_flow_keeps_guard:
  assumes "wave_processCopy z3 n e s = Some (b, s')" "kLimit s \<noteq> 0" "cond_inv s" "dd_inv (ptD s)"
    and "e \<in> set (cedges (consCG s))" "distinct (currentDiffObjs s)"
    and "isTrue (guardOrTrue (eguard e))" "guardAt s n obj = None"
  shows "guardAt s' (edst e) obj = guardAt s (edst e) obj"
  using wave_processCopy_spec[OF assms(1-6)] assms(7,8) by blast

theorem wave_unconditional_flow_keeps_guard_witness:
  "\<exists>b s'. wave_processCopy (\<lambda>_. True) 10 (hd (tl (cedges (consCG demo_wave)))) demo_wave = Some (b, s')
    \<and> 4 \<in> set (getPts demo_wave 10) \<and> gval demo_wave 10 4 (\<lambda>_. True) \<and> \<not> gval s' 12 4 (\<lambda>_. True)"
proof -
  obtain b s' where r: "wave_processCopy (\<lambda>_. True) 10 (hd (tl (cedges (consCG demo_wave)))) demo_wave = Some (b, s')"
    using wave_processCopy_runs[OF demo_wave_copy(4)] by blast
  have g: "guardAt demo_wave 12 4 = Some demo_nc" "guardAt demo_wave 10 4 = None"
    by (simp_all add: guardAt_def condEntry_def demo_wave_simps)
  have t: "isTrue (guardOrTrue (eguard (hd (tl (cedges (consCG demo_wave))))))" by (simp add: demo_wave_copy)
  have "guardAt s' 12 4 = Some demo_nc"
    using wave_unconditional_flow_keeps_guard[OF r demo_wave_copy(9) demo_wave_inv(1,2) demo_wave_copy(2,10) t g(2)] g(1)
    by (simp add: demo_wave_copy)
  then show ?thesis using r g(2) by (auto simp: gval_def demo_nc_def demo_wave_inv(4) demo_cond_getPts)
qed

end
