(* ===== verification/CondSolver_Correct.thy ===== *)
theory CondSolver_Correct
  imports CondWave_Correct
begin

text \<open>
  The solvers of the two conditional analyses merge nodes and collapse objects as \<open>Andersen\<close>'s do:
  both method tables satisfy the interface \<open>merging\<close> of theory \<open>Solver_Correct\<close>. The locale
  \<open>cond_merging\<close> extends it for the detection of cycles that may leave guarded cycles apart.
\<close>

section \<open>Guards leave the rest of the state alone\<close>

definition quiet :: "'a cander_scheme \<Rightarrow> 'a cander_scheme \<Rightarrow> bool" where
  "quiet s t \<longleftrightarrow> same_base s t \<and> same_opts s t"

lemma quiet_refl [simp]: "quiet s s"
  by (simp add: quiet_def same_base_def same_opts_def)

lemma quiet_trans: "quiet s t \<Longrightarrow> quiet t u \<Longrightarrow> quiet s u"
  by (simp add: quiet_def same_base_def same_opts_def)

lemma quiet_basic [simp]:
  "quiet s (snd (onStore f s))" "quiet s (setCondPts v o1 g s)" "quiet s (eraseCondPts v o1 s)"
  "quiet s (s\<lparr>conjCappedGuards := C\<rparr>)" "quiet s (s\<lparr>condPtsMap := M\<rparr>)" "quiet s (s\<lparr>edgeGuards := E\<rparr>)"
  by (simp_all add: quiet_def onStore_simps same_base_simps same_opts_def set_erase_fields(3-6)
      set_erase_fields(3,4)[unfolded same_base_simps] set_erase_fields(5,6)[unfolded same_opts_def])

lemma quiet_recordDiff [simp]: "quiet s (recordDiff v o1 s)"
  by (simp add: recordDiff_def quiet_def same_base_simps same_opts_def)

lemma quiet_applyLimits [simp]: "quiet s (snd (applyLimits c s))"
proof -
  have t: "quiet s (snd (truncateChain c s))"
    using quiet_trans[OF quiet_basic(1)[of s "buildAndChain l" for l] quiet_basic(4)]
    by (simp add: truncateChain_def Let_def case_prod_beta)
  have "quiet u (snd (countClauses c' u))" for c' and u :: "'a cander_scheme"
    by (simp add: countClauses_def)
  from quiet_trans[OF t this] show ?thesis
    using t by (simp add: applyLimits_def case_prod_beta Let_def)
qed

lemma quiet_orMerge [simp]: "quiet s (snd (orMergeCondPts v o1 g s))"
proof (cases "map_of (condEntry v s) o1")
  case None
  then show ?thesis by (simp add: orMergeCondPts_def)
next
  case (Some old)
  let ?m = "onStore (getOr old g) s"
  let ?l = "applyLimits (fst ?m) (snd ?m)"
  have m: "quiet s (snd ?m)" by simp
  have l: "quiet s (snd ?l)" by (rule quiet_trans[OF m quiet_applyLimits])
  show ?thesis
    using Some m quiet_trans[OF m quiet_basic(3)] quiet_trans[OF m quiet_basic(2)] quiet_trans[OF l quiet_basic(2)]
    by (simp add: orMergeCondPts_def case_prod_beta Let_def)
qed

lemma quiet_wave_orMerge [simp]: "quiet s (snd (wave_orMergeCondPts v o1 g s))"
proof (cases "map_of (condEntry v s) o1")
  case None
  have "quiet s (recordDiff v o1 (setCondPts v o1 g s))"
    by (rule quiet_trans[OF quiet_basic(2) quiet_recordDiff])
  then show ?thesis using None by (cases "isTrue g") (simp_all add: wave_orMergeCondPts_def)
next
  case (Some old)
  let ?m = "onStore (getOr old g) s"
  let ?d = "orTooDeep (fst ?m) old (snd ?m)"
  let ?l = "applyLimits (fst ?m) (snd ?d)"
  have m: "quiet s (snd ?m)" by simp
  have "quiet u (snd (orTooDeep a b u))" for a b and u :: "'a wander_scheme"
    using quiet_basic(1)[of u "depthM a"] quiet_trans[OF quiet_basic(1)[of u "depthM a"] quiet_basic(1)[of "snd (onStore (depthM a) u)" "depthM b"]]
    by (simp add: orTooDeep_def case_prod_beta Let_def)
  then have d: "quiet s (snd ?d)" by (rule quiet_trans[OF m])
  have l: "quiet s (snd ?l)" by (rule quiet_trans[OF d quiet_applyLimits])
  have set: "quiet s (recordDiff v o1 (setCondPts v o1 x t))" if "quiet s t" for x t
    by (rule quiet_trans[OF that quiet_trans[OF quiet_basic(2) quiet_recordDiff]])
  show ?thesis
    using Some m d quiet_trans[OF d quiet_basic(4)] quiet_trans[OF d quiet_basic(3)] set[OF d] set[OF l]
    by (simp add: wave_orMergeCondPts_def wave_applyLimits_def case_prod_beta Let_def)
qed

lemma quiet_fold:
  assumes "\<And>x t. quiet t (f x t)"
  shows "quiet s (fold f xs s)"
proof (induction xs arbitrary: s)
  case (Cons x xs)
  then show ?case using quiet_trans[OF assms[of s x]] by simp
qed simp

section \<open>Merging\<close>

lemma quiet_merged:
  assumes "quiet s t" "merged n r t u"
  shows "merged n r s u"
proof -
  have c: "consCG t = consCG s" and r: "rep_of t = rep_of s"
    using assms(1) by (simp_all add: quiet_def same_base_simps rep_of_def fun_eq_iff)
  show ?thesis using assms unfolding merged_def r c same_rest_def quiet_def same_base_simps by simp
qed

lemma quiet_opt: "quiet s t \<Longrightarrow> mergeCondSCC t = mergeCondSCC s"
  by (simp add: quiet_def same_opts_def)

lemma quiet_solver:
  assumes "quiet s t"
  shows "solver_inv s \<Longrightarrow> solver_inv t" "consCG t = consCG s"
  using assms by (simp_all add: quiet_def same_base_simps solver_inv_def)

lemma merge_after_quiet:
  assumes "quiet s t" "solver_inv s" "live (consCG s) n" "live (consCG s) r" "n \<noteq> r"
  shows "\<exists>pwc u. mergeSrcToTgt n r t = Some (pwc, u) \<and> merged n r s u"
  using mergeSrcToTgt_merged[of t n r] quiet_solver[OF assms(1)] quiet_merged[OF assms(1)] assms(2-5) by metis

locale cond_merging = merging vt for vt :: "'a cander_scheme vmethods" +
  assumes merge_opt: "v_mergeSrcToTgt vt n r s = Some (b, t) \<Longrightarrow> mergeCondSCC t = mergeCondSCC s"

lemma mergeSrcToTgt_opt:
  fixes s t :: "'a cander_scheme"
  assumes "mergeSrcToTgt n r s = Some (b, t)"
  shows "mergeCondSCC t = mergeCondSCC s"
  using more_fields(4)[OF mergeSrcToTgt_cond[OF assms]] by (simp add: same_opts_def)

text \<open>The state that the loops over the entries of the merged node leave.\<close>

lemma cond_merge_split:
  assumes "n \<noteq> r"
  obtains t where "quiet s t" "cond_mergeSrcToTgt n r s = mergeSrcToTgt n r t"
proof (cases "map_of (condPtsMap s) n")
  case None
  then show ?thesis using that[of s] assms by (simp add: cond_mergeSrcToTgt_def)
next
  case (Some m)
  let ?f = "\<lambda>(obj, g) t. snd (orMergeCondPts r obj (if mergeCondSCC t then getTrue else g) t)"
  have "quiet s (fold ?f m s)" by (rule quiet_fold) (simp add: case_prod_beta)
  from that[OF quiet_trans[OF this quiet_basic(5)]] show ?thesis
    using Some assms by (simp add: cond_mergeSrcToTgt_def Let_def)
qed

lemma wave_merge_split:
  assumes "n \<noteq> r"
  obtains t where "quiet s t" "wave_mergeSrcToTgt n r s = mergeSrcToTgt n r t"
proof (cases "map_of (condPtsMap s) n")
  case None
  then show ?thesis using that[of s] assms by (simp add: wave_mergeSrcToTgt_def)
next
  case (Some m)
  let ?f = "\<lambda>(obj, g) t. snd (wave_orMergeCondPts r obj (if mergeCondSCC t then getTrue else g) t)"
  have "quiet s (fold ?f m s)" by (rule quiet_fold) (simp add: case_prod_beta)
  from that[OF quiet_trans[OF this quiet_basic(5)]] show ?thesis
    using Some assms by (simp add: wave_mergeSrcToTgt_def Let_def)
qed

interpretation cond: cond_merging "cond_methods z3"
proof unfold_locales
  fix n r b and s t :: "'a cander_scheme"
  show "v_mergeSrcToTgt (cond_methods z3) n n s = Some (False, s)"
    by (simp add: cond_methods_def cond_mergeSrcToTgt_def)
  assume "v_mergeSrcToTgt (cond_methods z3) n r s = Some (b, t)"
  then have m: "cond_mergeSrcToTgt n r s = Some (b, t)" by (simp add: cond_methods_def)
  show "mergeCondSCC t = mergeCondSCC s"
  proof (cases "n = r")
    case True
    then show ?thesis using m by (simp add: cond_mergeSrcToTgt_def)
  next
    case False
    obtain u where u: "quiet s u" "mergeSrcToTgt n r u = Some (b, t)" using cond_merge_split[OF False, of s] m by metis
    show ?thesis using mergeSrcToTgt_opt[OF u(2)] quiet_opt[OF u(1)] by simp
  qed
next
  fix n r and s :: "'a cander_scheme"
  assume a: "solver_inv s" "live (consCG s) n" "live (consCG s) r" "n \<noteq> r"
  obtain u where u: "quiet s u" "cond_mergeSrcToTgt n r s = mergeSrcToTgt n r u" using cond_merge_split[OF a(4), of s] by metis
  show "\<exists>pwc t. v_mergeSrcToTgt (cond_methods z3) n r s = Some (pwc, t) \<and> merged n r s t"
    using merge_after_quiet[OF u(1) a] u(2) by (simp add: cond_methods_def)
qed

interpretation wave: cond_merging "wave_methods z3"
proof unfold_locales
  fix n r b and s t :: "'a wander_scheme"
  show "v_mergeSrcToTgt (wave_methods z3) n n s = Some (False, s)"
    by (simp add: wave_methods_def wave_mergeSrcToTgt_def)
  assume "v_mergeSrcToTgt (wave_methods z3) n r s = Some (b, t)"
  then have m: "wave_mergeSrcToTgt n r s = Some (b, t)" by (simp add: wave_methods_def)
  show "mergeCondSCC t = mergeCondSCC s"
  proof (cases "n = r")
    case True
    then show ?thesis using m by (simp add: wave_mergeSrcToTgt_def)
  next
    case False
    obtain u where u: "quiet s u" "mergeSrcToTgt n r u = Some (b, t)" using wave_merge_split[OF False, of s] m by metis
    show ?thesis using mergeSrcToTgt_opt[OF u(2)] quiet_opt[OF u(1)] by simp
  qed
next
  fix n r and s :: "'a wander_scheme"
  assume a: "solver_inv s" "live (consCG s) n" "live (consCG s) r" "n \<noteq> r"
  obtain u where u: "quiet s u" "wave_mergeSrcToTgt n r s = mergeSrcToTgt n r u" using wave_merge_split[OF a(4), of s] by metis
  show "\<exists>pwc t. v_mergeSrcToTgt (wave_methods z3) n r s = Some (pwc, t) \<and> merged n r s t"
    using merge_after_quiet[OF u(1) a] u(2) by (simp add: wave_methods_def)
qed

section \<open>Detecting cycles\<close>

lemma live_guards:
  assumes "\<forall>x \<in> set subs. live g x"
  shows "\<exists>b. sccHasConditionalEdge subs g = Some b"
proof -
  have "\<exists>b. foldO (\<lambda>nodeId found. if found then Some True
        else map_option (\<lambda>n. list_ex condGuarded (getOutEdges n g) \<or> list_ex condGuarded (getInEdges n g))
               (getConstraintNode nodeId g)) xs c = Some b" if "set xs \<subseteq> set subs" for xs c
    using that assms live_getConstraintNode by (induction xs arbitrary: c) auto
  then show ?thesis unfolding sccHasConditionalEdge_def by simp
qed

lemma mergeOneScc_fold:
  assumes "foldO (\<lambda>x s'. if x \<noteq> r then m x r s' else Some s') subs t = Some u"
  shows "\<exists>mg'. foldO (\<lambda>x (t, mg). if x \<noteq> r then map_option (\<lambda>t'. (t', AList.update x r mg)) (m x r t)
      else Some (t, mg)) subs (t, mg) = Some (u, mg')"
  using assms
proof (induction subs arbitrary: t mg)
  case (Cons x xs)
  then show ?case by (cases "x = r") (auto split: option.splits)
qed simp

lemma quiet_remap: "quiet s (remapEdgeGuard mg e s)"
proof -
  obtain src dst k g where e: "e = ((src, dst, k), g)" by (cases e) auto
  let ?s = "src" and ?del = "s\<lparr>edgeGuards := AList.delete (src, dst, k) (edgeGuards s)\<rparr>"
  have upd: "quiet s (t\<lparr>edgeGuards := E\<rparr>)" if "quiet s t" for t E
    by (rule quiet_trans[OF that quiet_basic(6)])
  have del: "quiet s ?del" by (rule quiet_basic(6))
  have or: "quiet s (snd (onStore f ?del))" for f by (rule quiet_trans[OF del quiet_basic(1)])
  show ?thesis
    unfolding remapEdgeGuard_def e by (simp add: Let_def case_prod_beta upd del or split: option.split)
qed

lemma quiet_coarser:
  assumes "quiet t u" "coarser s t"
  shows "coarser s u" "rep_of u = rep_of t" "consCG u = consCG t" "sccD u = sccD t"
proof -
  have e: "ptD u = ptD t" "irs u = irs t" "consCG u = consCG t" "DiffPts u = DiffPts t" "DetectPWC u = DetectPWC t" "sccD u = sccD t"
    using assms(1) by (simp_all add: quiet_def same_base_simps)
  then show "consCG u = consCG t" "rep_of u = rep_of t" "sccD u = sccD t" by (simp_all add: rep_of_def fun_eq_iff)
  show "coarser s u" by (rule coarser_cong[OF assms(2)]) (simp_all add: e same_graph_def)
qed

context cond_merging
begin

lemma mergeSccNodes_opt:
  assumes "mergeSccNodes vt r subs s = Some u"
  shows "mergeCondSCC u = mergeCondSCC s"
proof -
  have step: "mergeCondSCC t' = mergeCondSCC t" if m: "mergeNodeToRep vt x r t = Some t'" for x t t'
  proof -
    obtain b t1 where "v_mergeSrcToTgt vt x r t = Some (b, t1)" "mergeCondSCC t' = mergeCondSCC t1"
      using m unfolding mergeNodeToRep_def
      by (cases "v_mergeSrcToTgt vt x r t") (auto split: if_splits)
    then show ?thesis using merge_opt by simp
  qed
  have "mergeCondSCC t' = mergeCondSCC s"
    if "mergeCondSCC t = mergeCondSCC s" "(if x \<noteq> r then mergeNodeToRep vt x r t else Some t) = Some t'" for x t t'
    using step[of x t t'] that by (auto split: if_splits)
  from foldO_partial[OF assms[unfolded mergeSccNodes_def], of "\<lambda>t. mergeCondSCC t = mergeCondSCC s"] this show ?thesis by blast
qed

lemma mergeOneScc_ok:
  assumes "\<forall>x \<in> set subs. live (consCG s) x" "r \<in> set subs" "mergeSccNodes vt r subs s = Some u"
  shows "\<exists>t mg'. mergeOneScc vt r subs (s, mg) = Some (t, mg') \<and> mergeCondSCC t = mergeCondSCC s
    \<and> (t = u \<or> \<not> mergeCondSCC s \<and> t = s)"
proof (cases "length subs \<le> 1")
  case True
  then have "subs = [r]" using assms(2) by (cases subs) auto
  then have "u = s" using assms(3) by (simp add: mergeSccNodes_def)
  then show ?thesis using True by (simp add: mergeOneScc_def)
next
  case False
  obtain b where b: "sccHasConditionalEdge subs (consCG s) = Some b" using live_guards[OF assms(1)] by blast
  obtain mg' where f: "foldO (\<lambda>x (t, mg). if x \<noteq> r then map_option (\<lambda>t'. (t', AList.update x r mg)) (mergeNodeToRep vt x r t)
      else Some (t, mg)) subs (s, mg) = Some (u, mg')"
    using mergeOneScc_fold[where m = "mergeNodeToRep vt", OF assms(3)[unfolded mergeSccNodes_def]] by blast
  show ?thesis
  proof (cases "b \<and> \<not> mergeCondSCC s")
    case True
    then show ?thesis using False b by (simp add: mergeOneScc_def)
  next
    case m: False
    then show ?thesis using False b f mergeSccNodes_opt[OF assms(3)] by (simp add: mergeOneScc_def)
  qed
qed

lemma cond_SCCDetect_ok:
  assumes inv: "solver_inv s" "objs_ok s" and g: "nodes_ok (consCG s)"
  shows "\<exists>t. cond_SCCDetect vt s = Some t \<and> coarser (s\<lparr>sccD := sccD t\<rparr>) t \<and> nodes_ok (consCG t)
    \<and> (\<forall>x \<in> set (cnodes (consCG s)). \<forall>y \<in> set (cnodes (consCG s)). x \<noteq> y \<longrightarrow> rep_of t x = rep_of t y \<longrightarrow> mutual (directChildren s) x y)
    \<and> (\<forall>x \<in> set (cnodes (consCG s)). rep_of t x \<noteq> x \<longrightarrow>
          (\<forall>y \<in> set (cnodes (consCG s)). mutual (directChildren s) x y \<longrightarrow> rep_of t y = rep_of t x))
    \<and> (mergeCondSCC s \<longrightarrow> (\<forall>x \<in> set (cnodes (consCG s)). \<forall>y \<in> set (cnodes (consCG s)).
          mutual (directChildren s) x y \<longrightarrow> rep_of t x = rep_of t y))"
proof -
  let ?N = "set (cnodes (consCG s))"
  let ?c = "u32 (numOfSCCDetection s + 1)"
  obtain d where f: "findSCCs (s\<lparr>numOfSCCDetection := ?c\<rparr>) = Some (s\<lparr>numOfSCCDetection := ?c, sccD := d\<rparr>)"
      and P: "partitions ?N (sRep d) d" "\<forall>x \<in> ?N. \<forall>y \<in> ?N. (sRep d x = sRep d y) = mutual (directChildren s) x y"
      and i1: "solver_inv (s\<lparr>numOfSCCDetection := ?c, sccD := d\<rparr>)" "objs_ok (s\<lparr>numOfSCCDetection := ?c, sccD := d\<rparr>)"
    using findSCCs_ok[OF inv g, of ?c] by blast
  let ?s1 = "s\<lparr>numOfSCCDetection := ?c, sccD := d\<rparr>"
  let ?f = "\<lambda>r (t, merged). do { subs \<leftarrow> subNodes r (sccD t); mergeOneScc vt r subs (t, merged) }"
  have r1: "rep_of ?s1 = rep_of s" "consCG ?s1 = consCG s" by (simp_all add: rep_of_def fun_eq_iff)
  have lv: "\<forall>x \<in> ?N. live (consCG ?s1) x" using g by (simp add: nodes_ok_def)
  have P1: "partitions ?N (sRep d) (sccD ?s1)" using P(1) by simp
  have "\<exists>z M. foldO ?f (sT (sccD ?s1)) (?s1, []) = Some z \<and> mergeCondSCC (fst z) = mergeCondSCC s \<and> coarser ?s1 (fst z)
    \<and> irs (fst z) = irs ?s1 \<and> M \<subseteq> {r \<in> ?N. sRep d r = r} \<and> (mergeCondSCC s \<longrightarrow> M = {r \<in> ?N. sRep d r = r})
    \<and> rep_of (fst z) = (\<lambda>i. if rep_of ?s1 i \<in> ?N \<and> sRep d (rep_of ?s1 i) \<in> M then sRep d (rep_of ?s1 i) else rep_of ?s1 i)
    \<and> set (cnodes (consCG (fst z))) = set (cnodes (consCG ?s1)) - {x \<in> ?N. sRep d x \<noteq> x \<and> sRep d x \<in> M}"
  proof (rule merge_loop[OF i1 lv P1])
    fix r subs u and z :: "'a cander_scheme \<times> (node_id \<times> node_id) list"
    assume a: "mergeCondSCC (fst z) = mergeCondSCC s" "r \<in> set subs" "\<forall>x \<in> set subs. live (consCG (fst z)) x"
      "subNodes r (sccD (fst z)) = Some subs" "mergeSccNodes vt r subs (fst z) = Some u"
    obtain t mg where "mergeOneScc vt r subs z = Some (t, mg)" "mergeCondSCC t = mergeCondSCC (fst z)"
        "t = u \<or> \<not> mergeCondSCC (fst z) \<and> t = fst z"
      using mergeOneScc_ok[OF a(3,2,5), of "snd z"] by auto
    then show "\<exists>z'. ?f r z = Some z' \<and> mergeCondSCC (fst z') = mergeCondSCC s \<and> (fst z' = u \<or> \<not> mergeCondSCC s \<and> fst z' = fst z)"
      using a(1,4) by (simp add: case_prod_beta)
  qed simp_all
  then obtain z M where z: "foldO ?f (sT (sccD ?s1)) (?s1, []) = Some z" "coarser ?s1 (fst z)"
      "mergeCondSCC s \<longrightarrow> M = {r \<in> ?N. sRep d r = r}"
      "rep_of (fst z) = (\<lambda>i. if rep_of s i \<in> ?N \<and> sRep d (rep_of s i) \<in> M then sRep d (rep_of s i) else rep_of s i)"
      "set (cnodes (consCG (fst z))) = ?N - {x \<in> ?N. sRep d x \<noteq> x \<and> sRep d x \<in> M}"
    unfolding r1 by blast
  obtain t mg where tm: "z = (t, mg)" by (cases z)
  from z have t: "foldO ?f (sT (sccD ?s1)) (?s1, []) = Some (t, mg)" "coarser ?s1 t"
      "mergeCondSCC s \<longrightarrow> M = {r \<in> ?N. sRep d r = r}"
      "rep_of t = (\<lambda>i. if rep_of s i \<in> ?N \<and> sRep d (rep_of s i) \<in> M then sRep d (rep_of s i) else rep_of s i)"
      "set (cnodes (consCG t)) = ?N - {x \<in> ?N. sRep d x \<noteq> x \<and> sRep d x \<in> M}"
    unfolding tm fst_conv by blast+
  let ?t = "fold (remapEdgeGuard mg) (edgeGuards t) t"
  have "quiet t ?t" by (rule quiet_fold) (rule quiet_remap)
  note q = quiet_coarser[OF this t(2)]
  have t': "rep_of ?t = (\<lambda>i. if rep_of s i \<in> ?N \<and> sRep d (rep_of s i) \<in> M then sRep d (rep_of s i) else rep_of s i)"
    "set (cnodes (consCG ?t)) = ?N - {x \<in> ?N. sRep d x \<noteq> x \<and> sRep d x \<in> M}"
    unfolding q(2,3) by (rule t(4,5))+
  note ok = merged_nodes_ok[OF inv(1) g q(1) t']
  have "rep_of s x = x" if "x \<in> ?N" for x using g that rep_of_live[of s x] unfolding nodes_ok_def by blast
  then have rt: "rep_of ?t x = (if sRep d x \<in> M then sRep d x else x)" if "x \<in> ?N" for x using that by (simp add: t'(1))
  have rho: "sRep d x \<in> ?N \<and> sRep d (sRep d x) = sRep d x" if "x \<in> ?N" for x using P(1) that unfolding partitions_def by blast
  have same: "rep_of ?t y = rep_of ?t x" if "x \<in> ?N" "y \<in> ?N" "mutual (directChildren s) x y" "sRep d x \<in> M" for x y
    using P(2) that rt by metis
  have "mutual (directChildren s) x y" if "x \<in> ?N" "y \<in> ?N" "x \<noteq> y" "rep_of ?t x = rep_of ?t y" for x y
  proof -
    have "sRep d x = sRep d y" using that rt[OF that(1)] rt[OF that(2)] rho by metis
    then show ?thesis using P(2) that by blast
  qed
  moreover have "rep_of ?t y = rep_of ?t x"
    if "x \<in> ?N" "rep_of ?t x \<noteq> x" "y \<in> ?N" "mutual (directChildren s) x y" for x y
    using same[OF that(1,3,4)] that(2) rt[OF that(1)] by (auto split: if_splits)
  moreover have "rep_of ?t x = rep_of ?t y"
    if "mergeCondSCC s" "x \<in> ?N" "y \<in> ?N" "mutual (directChildren s) x y" for x y
    using same[OF that(2-4)] t(3) that(1) rho[OF that(2)] by simp
  moreover have "cond_SCCDetect vt s = Some ?t" using f t(1) by (simp add: cond_SCCDetect_def cond_SCCMerge_def)
  ultimately show ?thesis using ok by blast
qed

end

section \<open>Properties\<close>

text \<open>A cycle of nodes 10 and 11 in a state whose options say that guarded cycles are merged.\<close>

definition demo_cond_cycle :: cander where
  "demo_cond_cycle = demo_cond\<lparr>consCG := consCG demo_cycle, ptD := ptD demo_cycle, irs := irs demo_cycle,
     DetectPWC := DetectPWC demo_cycle, mergeCondSCC := True\<rparr>"

lemma demo_cond_cycle_ok: "solver_inv demo_cond_cycle" "objs_ok demo_cond_cycle" "nodes_ok (consCG demo_cond_cycle)"
proof -
  have f: "consCG demo_cond_cycle = consCG demo_cycle" "ptD demo_cond_cycle = ptD demo_cycle" "irs demo_cond_cycle = irs demo_cycle"
    "rep_of demo_cond_cycle = rep_of demo_cycle"
    by (simp_all add: demo_cond_cycle_def rep_of_def fun_eq_iff)
  show "solver_inv demo_cond_cycle" using demo_cycle_ok(1) unfolding solver_inv_def f .
  show "objs_ok demo_cond_cycle" using demo_cycle_ok(2) unfolding objs_ok_def f .
  show "nodes_ok (consCG demo_cond_cycle)" using demo_cycle_ok(3) unfolding f .
qed

text \<open>
  C16: The cycle detection of \<^verbatim>\<open>ConditionalAndersen\<close> succeeds on a well-formed state, keeps it
  well formed and loses no member of a points-to set. It never merges two nodes that are not on
  a common cycle, it merges a cycle as a whole or not at all, and with the option
  \<^verbatim>\<open>mergeCondSCC\<close> it merges every cycle, guarded or not.
\<close>

theorem cond_SCCDetect_merges_cycles:
  assumes "solver_inv s" "objs_ok s" "nodes_ok (consCG s)"
  shows "\<exists>t. cond_SCCDetect (cond_methods z3) s = Some t \<and> solver_inv t \<and> objs_ok t \<and> nodes_ok (consCG t) \<and> pts_kept s t
    \<and> (\<forall>x \<in> set (cnodes (consCG s)). \<forall>y \<in> set (cnodes (consCG s)). x \<noteq> y \<longrightarrow> rep_of t x = rep_of t y \<longrightarrow> mutual (directChildren s) x y)
    \<and> (\<forall>x \<in> set (cnodes (consCG s)). rep_of t x \<noteq> x \<longrightarrow>
          (\<forall>y \<in> set (cnodes (consCG s)). mutual (directChildren s) x y \<longrightarrow> rep_of t y = rep_of t x))
    \<and> (mergeCondSCC s \<longrightarrow> (\<forall>x \<in> set (cnodes (consCG s)). \<forall>y \<in> set (cnodes (consCG s)).
          mutual (directChildren s) x y \<longrightarrow> rep_of t x = rep_of t y))"
proof -
  let ?N = "set (cnodes (consCG s))"
  have "pts_kept s t" if "coarser (s\<lparr>sccD := sccD t\<rparr>) t" for t
    using coarserD(4)[OF that] by (simp add: pts_kept_def)
  moreover obtain t where t: "cond_SCCDetect (cond_methods z3) s = Some t" "coarser (s\<lparr>sccD := sccD t\<rparr>) t" "nodes_ok (consCG t)"
    and m: "\<forall>x \<in> ?N. \<forall>y \<in> ?N. x \<noteq> y \<longrightarrow> rep_of t x = rep_of t y \<longrightarrow> mutual (directChildren s) x y"
      "\<forall>x \<in> ?N. rep_of t x \<noteq> x \<longrightarrow> (\<forall>y \<in> ?N. mutual (directChildren s) x y \<longrightarrow> rep_of t y = rep_of t x)"
      "mergeCondSCC s \<longrightarrow> (\<forall>x \<in> ?N. \<forall>y \<in> ?N. mutual (directChildren s) x y \<longrightarrow> rep_of t x = rep_of t y)"
    using cond.cond_SCCDetect_ok[OF assms] by blast
  ultimately show ?thesis using coarserD(1,2)[OF t(2)] by blast
qed

theorem cond_SCCDetect_merges_cycles_witness:
  "\<exists>t. cond_SCCDetect (cond_methods (\<lambda>_. True)) demo_cond_cycle = Some t \<and> rep_of t 10 = rep_of t 11 \<and> rep_of t 10 \<noteq> rep_of t 12"
proof -
  have m: "10 \<in> set (cnodes (consCG demo_cond_cycle))" "11 \<in> set (cnodes (consCG demo_cond_cycle))" "12 \<in> set (cnodes (consCG demo_cond_cycle))"
    "mergeCondSCC demo_cond_cycle"
    by (simp_all add: demo_cond_cycle_def demo_cycle_def demo_fields_def)
  have dc: "directChildren demo_cond_cycle = directChildren demo_cycle"
    by (simp add: directChildren_def directOutEdges_def demo_cond_cycle_def fun_eq_iff)
  obtain t where t: "cond_SCCDetect (cond_methods (\<lambda>_. True)) demo_cond_cycle = Some t"
      "\<forall>x \<in> set (cnodes (consCG demo_cond_cycle)). \<forall>y \<in> set (cnodes (consCG demo_cond_cycle)).
          x \<noteq> y \<longrightarrow> rep_of t x = rep_of t y \<longrightarrow> mutual (directChildren demo_cycle) x y"
      "\<forall>x \<in> set (cnodes (consCG demo_cond_cycle)). \<forall>y \<in> set (cnodes (consCG demo_cond_cycle)).
          mutual (directChildren demo_cycle) x y \<longrightarrow> rep_of t x = rep_of t y"
    using cond_SCCDetect_merges_cycles[OF demo_cond_cycle_ok] m(4) unfolding dc by blast
  have "rep_of t 10 = rep_of t 11" using t(3) m demo_cycle_mutual(1) by blast
  moreover have "rep_of t 10 \<noteq> rep_of t 12" using bspec[OF bspec[OF t(2) m(1)] m(3)] demo_cycle_mutual(2) by simp
  ultimately show ?thesis using t(1) by blast
qed

end
