(* ===== verification/CallGraph.thy ===== *)
theory CallGraph
  imports Prelude "HOL-Library.Monad_Syntax"
begin

text \<open>
  The call graph of \<^verbatim>\<open>src/SVF/svf/include/Graphs/CallGraph.h\<close>, \<^verbatim>\<open>lib/Graphs/CallGraph.cpp\<close>,
  \<^verbatim>\<open>include/Graphs/ThreadCallGraph.h\<close> and \<^verbatim>\<open>lib/Graphs/ThreadCallGraph.cpp\<close>, and its construction in
  \<^verbatim>\<open>lib/Util/CallGraphBuilder.cpp\<close>.

  Functions (\<^verbatim>\<open>FunObjVar\<close>) and call nodes (\<^verbatim>\<open>CallICFGNode\<close>) are numbers; what the code asks of
  them is a record. The incoming and outgoing edge sets of the nodes hold the same edges, so the
  graph has one list of edges, in the order of the sets: by flag, source and target. A pointer
  to an edge in a map from call nodes is the key of the edge. The static members, which all
  graphs share, are fields of the graph that is at work. A failed assertion, a missing node and
  a null pointer that is followed are \<open>None\<close>.
\<close>

section \<open>Call nodes and functions\<close>

text \<open>The third argument of a fork call: a function, or a variable that holds one.\<close>

datatype fork_target = FunTarget nat | is_var: VarTarget node_id

text \<open>\<open>csForkedFun\<close> is \<open>None\<close> for a call that creates no thread.\<close>

record call_site =
  csCaller :: nat
  csCalled :: "nat option"
  csForkedFun :: "fork_target option"

record fun_obj =
  fnName :: string
  fnDef :: "nat option"

definition getDefFunForMultipleModule :: "(nat \<Rightarrow> 'b fun_obj_scheme) \<Rightarrow> nat \<Rightarrow> nat" where
  "getDefFunForMultipleModule F f = (case fnDef (F f) of None \<Rightarrow> f | Some d \<Rightarrow> d)"

definition isProgEntryFunction :: "(nat \<Rightarrow> 'b fun_obj_scheme) \<Rightarrow> nat \<Rightarrow> bool" where
  "isProgEntryFunction F f \<longleftrightarrow> fnName (F f) = ''main''"

section \<open>Edges\<close>

datatype call_edge_kind = CallRetEdge | TDForkEdge | TDJoinEdge | HareParForEdge

fun cedgeNum :: "call_edge_kind \<Rightarrow> nat" where
  "cedgeNum CallRetEdge = 0"
| "cedgeNum TDForkEdge = 1"
| "cedgeNum TDJoinEdge = 2"
| "cedgeNum HareParForEdge = 3"

text \<open>The call site id is a 32-bit number when it is shifted.\<close>

definition makeEdgeFlagWithInvokeID :: "call_edge_kind \<Rightarrow> nat \<Rightarrow> nat" where
  "makeEdgeFlagWithInvokeID k cs = or (u32 (push_bit 8 cs)) (cedgeNum k)"

record call_edge =
  ceSrc :: node_id
  ceDst :: node_id
  ceFlag :: nat
  ceCsId :: nat
  directCalls :: "nat oset"
  indirectCalls :: "nat oset"

type_synonym edge_key = "nat \<times> node_id \<times> node_id"

definition ceKey :: "call_edge \<Rightarrow> edge_key" where
  "ceKey e = (ceFlag e, ceSrc e, ceDst e)"

definition newCallEdge :: "node_id \<Rightarrow> node_id \<Rightarrow> call_edge_kind \<Rightarrow> nat \<Rightarrow> call_edge" where
  "newCallEdge src dst k csId = \<lparr>ceSrc = src, ceDst = dst, ceFlag = makeEdgeFlagWithInvokeID k csId, ceCsId = csId,
     directCalls = [], indirectCalls = []\<rparr>"

definition isDirectCallEdge :: "call_edge \<Rightarrow> bool" where
  "isDirectCallEdge e \<longleftrightarrow> directCalls e \<noteq> [] \<and> indirectCalls e = []"

definition isIndirectCallEdge :: "call_edge \<Rightarrow> bool" where
  "isIndirectCallEdge e \<longleftrightarrow> directCalls e = [] \<and> indirectCalls e \<noteq> []"

definition addDirectCallSite :: "(nat \<Rightarrow> 'c call_site_scheme) \<Rightarrow> nat \<Rightarrow> call_edge \<Rightarrow> call_edge option" where
  "addDirectCallSite C cs e =
     (if csCalled (C cs) = None then None else Some (e\<lparr>directCalls := oset_insert cs (directCalls e)\<rparr>))"

definition addInDirectCallSite :: "(nat \<Rightarrow> 'c call_site_scheme) \<Rightarrow> nat \<Rightarrow> call_edge \<Rightarrow> call_edge option" where
  "addInDirectCallSite C cs e =
     (if csCalled (C cs) = None \<or> (case csForkedFun (C cs) of None \<Rightarrow> False | Some t \<Rightarrow> is_var t)
      then Some (e\<lparr>indirectCalls := oset_insert cs (indirectCalls e)\<rparr>) else None)"

section \<open>The graph\<close>

datatype call_graph_kind = NormCallGraph | ThdCallGraph

record callgraph =
  cgKind :: call_graph_kind
  cgNodes :: "(node_id \<times> nat) list"
  funToCallGraphNode :: "nat \<Rightarrow> node_id option"
  cgEdges :: "call_edge list"
  callinstToEdges :: "nat \<Rightarrow> edge_key oset option"
  callGraphNodeNum :: nat
  numOfResolvedIndCallEdge :: nat
  indirectCallMap :: "(nat \<times> nat oset) list"
  csToIdMap :: "nat \<times> nat \<Rightarrow> nat option"
  idToCSMap :: "nat \<Rightarrow> (nat \<times> nat) option"
  totalCallSiteNum :: nat

text \<open>The static members when the program starts, and a new graph.\<close>

definition new_callgraph :: "call_graph_kind \<Rightarrow> callgraph" where
  "new_callgraph k = \<lparr>cgKind = k, cgNodes = [], funToCallGraphNode = (\<lambda>_. None), cgEdges = [], callinstToEdges = (\<lambda>_. None),
     callGraphNodeNum = 0, numOfResolvedIndCallEdge = 0, indirectCallMap = [],
     csToIdMap = (\<lambda>_. None), idToCSMap = (\<lambda>_. None), totalCallSiteNum = 1\<rparr>"

definition addCallGraphNode :: "nat \<Rightarrow> 'a callgraph_scheme \<Rightarrow> 'a callgraph_scheme" where
  "addCallGraphNode f g =
     (let i = callGraphNodeNum g in
      g\<lparr>cgNodes := AList.update i f (cgNodes g), funToCallGraphNode := (funToCallGraphNode g)(f \<mapsto> i),
        callGraphNodeNum := u32 (i + 1)\<rparr>)"

definition getFunction :: "node_id \<Rightarrow> 'a callgraph_scheme \<Rightarrow> nat option" where
  "getFunction n g = map_of (cgNodes g) n"

definition addCallSite :: "nat \<Rightarrow> nat \<Rightarrow> 'a callgraph_scheme \<Rightarrow> nat \<times> 'a callgraph_scheme" where
  "addCallSite cs callee g =
     (case csToIdMap g (cs, callee) of
        Some i \<Rightarrow> (i, g)
      | None \<Rightarrow>
          let i = totalCallSiteNum g in
          (i, g\<lparr>totalCallSiteNum := u32 (i + 1), csToIdMap := (csToIdMap g)((cs, callee) \<mapsto> i),
                idToCSMap := (case idToCSMap g i of None \<Rightarrow> (idToCSMap g)(i \<mapsto> (cs, callee)) | Some _ \<Rightarrow> idToCSMap g)\<rparr>))"

definition getCallSiteID :: "nat \<Rightarrow> nat \<Rightarrow> 'a callgraph_scheme \<Rightarrow> nat option" where
  "getCallSiteID cs callee g = csToIdMap g (cs, callee)"

definition getCallSitePair :: "nat \<Rightarrow> 'a callgraph_scheme \<Rightarrow> (nat \<times> nat) option" where
  "getCallSitePair i g = idToCSMap g i"

definition getCallerOfCallSite :: "(nat \<Rightarrow> 'c call_site_scheme) \<Rightarrow> nat \<Rightarrow> 'a callgraph_scheme \<Rightarrow> nat option" where
  "getCallerOfCallSite C i g = map_option (\<lambda>p. csCaller (C (fst p))) (getCallSitePair i g)"

definition getCalleeOfCallSite :: "nat \<Rightarrow> 'a callgraph_scheme \<Rightarrow> nat option" where
  "getCalleeOfCallSite i g = map_option snd (getCallSitePair i g)"

definition hasGraphEdge :: "node_id \<Rightarrow> node_id \<Rightarrow> call_edge_kind \<Rightarrow> nat \<Rightarrow> 'a callgraph_scheme \<Rightarrow> call_edge option" where
  "hasGraphEdge src dst k csId g = find (\<lambda>e. ceKey e = (makeEdgeFlagWithInvokeID k csId, src, dst)) (cgEdges g)"

definition getEdgeKind :: "call_edge \<Rightarrow> nat" where
  "getEdgeKind e = and (ceFlag e) (2 ^ 8 - 1)"

definition getGraphEdge :: "node_id \<Rightarrow> node_id \<Rightarrow> call_edge_kind \<Rightarrow> 'a callgraph_scheme \<Rightarrow> call_edge option" where
  "getGraphEdge src dst k g =
     find (\<lambda>e. ceSrc e = src \<and> getEdgeKind e = cedgeNum k \<and> ceDst e = dst) (cgEdges g)"

text \<open>\<^verbatim>\<open>addEdge\<close>: a set keeps the edge it has.\<close>

definition addCallEdge :: "call_edge \<Rightarrow> 'a callgraph_scheme \<Rightarrow> 'a callgraph_scheme" where
  "addCallEdge e g = (if ceKey e \<in> ceKey ` set (cgEdges g) then g else g\<lparr>cgEdges := insort_key ceKey e (cgEdges g)\<rparr>)"

definition insertKey :: "nat \<Rightarrow> edge_key \<Rightarrow> (nat \<Rightarrow> edge_key oset option) \<Rightarrow> nat \<Rightarrow> edge_key oset option" where
  "insertKey cs key m = m(cs \<mapsto> oset_insert key (case m cs of None \<Rightarrow> [] | Some s \<Rightarrow> s))"

definition insertCallInst :: "nat \<Rightarrow> call_edge \<Rightarrow> 'a callgraph_scheme \<Rightarrow> 'a callgraph_scheme" where
  "insertCallInst cs e g = g\<lparr>callinstToEdges := insertKey cs (ceKey e) (callinstToEdges g)\<rparr>"

definition addDirectCallGraphEdge :: "(nat \<Rightarrow> 'c call_site_scheme) \<Rightarrow> nat \<Rightarrow> nat \<Rightarrow> nat \<Rightarrow> 'a callgraph_scheme \<Rightarrow> 'a callgraph_scheme option" where
  "addDirectCallGraphEdge C cs callerFun calleeFun g =
     do {
       caller \<leftarrow> funToCallGraphNode g callerFun;
       callee \<leftarrow> funToCallGraphNode g calleeFun;
       let (csId, g1) = addCallSite cs calleeFun g;
       if hasGraphEdge caller callee CallRetEdge csId g1 \<noteq> None then Some g1
       else do {
         edge \<leftarrow> addDirectCallSite C cs (newCallEdge caller callee CallRetEdge csId);
         Some (insertCallInst cs edge (addCallEdge edge g1))
       }
     }"

definition addIndirectCallGraphEdge :: "(nat \<Rightarrow> 'c call_site_scheme) \<Rightarrow> nat \<Rightarrow> nat \<Rightarrow> nat \<Rightarrow> 'a callgraph_scheme \<Rightarrow> 'a callgraph_scheme option" where
  "addIndirectCallGraphEdge C cs callerFun calleeFun g =
     do {
       caller \<leftarrow> funToCallGraphNode g callerFun;
       callee \<leftarrow> funToCallGraphNode g calleeFun;
       let g0 = g\<lparr>numOfResolvedIndCallEdge := u32 (numOfResolvedIndCallEdge g + 1)\<rparr>;
       f \<leftarrow> getFunction callee g0;
       let (csId, g1) = addCallSite cs f g0;
       if hasGraphEdge caller callee CallRetEdge csId g1 \<noteq> None then Some g1
       else do {
         edge \<leftarrow> addInDirectCallSite C cs (newCallEdge caller callee CallRetEdge csId);
         Some (insertCallInst cs edge (addCallEdge edge g1))
       }
     }"

section \<open>Queries\<close>

definition hasCallGraphEdge :: "nat \<Rightarrow> 'a callgraph_scheme \<Rightarrow> bool" where
  "hasCallGraphEdge cs g \<longleftrightarrow> callinstToEdges g cs \<noteq> None"

definition getCallees :: "nat \<Rightarrow> 'a callgraph_scheme \<Rightarrow> nat oset \<Rightarrow> nat oset option" where
  "getCallees cs g callees =
     (case callinstToEdges g cs of
        None \<Rightarrow> Some callees
      | Some keys \<Rightarrow> foldO (\<lambda>(flag, src, dst) s. map_option (\<lambda>f. oset_insert f s) (getFunction dst g)) keys callees)"

definition inEdges :: "node_id \<Rightarrow> 'a callgraph_scheme \<Rightarrow> call_edge list" where
  "inEdges n g = filter (\<lambda>e. ceDst e = n) (cgEdges g)"

definition getAllCallSitesInvokingCallee :: "nat \<Rightarrow> 'a callgraph_scheme \<Rightarrow> nat oset \<Rightarrow> nat oset option" where
  "getAllCallSitesInvokingCallee callee g csSet =
     map_option (\<lambda>n. fold (\<lambda>e s. oset_insert_all (indirectCalls e) (oset_insert_all (directCalls e) s)) (inEdges n g) csSet)
       (funToCallGraphNode g callee)"

definition getDirCallSitesInvokingCallee :: "nat \<Rightarrow> 'a callgraph_scheme \<Rightarrow> nat oset \<Rightarrow> nat oset option" where
  "getDirCallSitesInvokingCallee callee g csSet =
     map_option (\<lambda>n. fold (\<lambda>e. oset_insert_all (directCalls e)) (inEdges n g) csSet) (funToCallGraphNode g callee)"

definition getIndCallSitesInvokingCallee :: "nat \<Rightarrow> 'a callgraph_scheme \<Rightarrow> nat oset \<Rightarrow> nat oset option" where
  "getIndCallSitesInvokingCallee callee g csSet =
     map_option (\<lambda>n. fold (\<lambda>e. oset_insert_all (indirectCalls e)) (inEdges n g) csSet) (funToCallGraphNode g callee)"

section \<open>Reachability\<close>

text \<open>
  \<^verbatim>\<open>isReachableFromProgEntry\<close>: the map \<^verbatim>\<open>reachableFromEntry\<close> and the set \<^verbatim>\<open>visitedNodes\<close> are
  threaded through, also from one query to the next. The first argument bounds the depth of the
  recursion; one more than the number of nodes is enough.
\<close>

type_synonym dfs_state = "(node_id \<Rightarrow> bool) \<times> node_id oset"

fun entryDfs :: "nat \<Rightarrow> (nat \<Rightarrow> 'b fun_obj_scheme) \<Rightarrow> 'a callgraph_scheme \<Rightarrow> node_id \<Rightarrow> dfs_state \<Rightarrow> (bool \<times> dfs_state) option" where
  "entryDfs 0 F g v st = None"
| "entryDfs (Suc k) F g v (reach, visited) =
     (if v \<in> set visited then Some (reach v, reach, visited)
      else do {
        f \<leftarrow> getFunction v g;
        if isProgEntryFunction F f then Some (True, reach(v := True), oset_insert v visited)
        else do {
          (result, reach', visited') \<leftarrow> foldO (\<lambda>edge (result, st).
              if result then Some (result, st) else entryDfs k F g (ceSrc edge) st)
            (inEdges v g) (False, reach, oset_insert v visited);
          Some (result, reach'(v := result), visited')
        }
      })"

definition isReachableFromProgEntry :: "(nat \<Rightarrow> 'b fun_obj_scheme) \<Rightarrow> 'a callgraph_scheme \<Rightarrow> node_id \<Rightarrow> dfs_state \<Rightarrow> (bool \<times> dfs_state) option" where
  "isReachableFromProgEntry F g = entryDfs (length (cgNodes g) + 1) F g"

text \<open>The functions \<^verbatim>\<open>verifyCallGraph\<close> warns about.\<close>

definition verifyCallGraph :: "(nat \<Rightarrow> 'b fun_obj_scheme) \<Rightarrow> (nat \<Rightarrow> 'c call_site_scheme) \<Rightarrow> 'a callgraph_scheme \<Rightarrow> nat list option" where
  "verifyCallGraph F C g =
     map_option fst (foldO (\<lambda>(cs, targets) (warned, st).
         if targets = [] then Some (warned, st)
         else do {
           n \<leftarrow> funToCallGraphNode g (csCaller (C cs));
           (r, st') \<leftarrow> isReachableFromProgEntry F g n st;
           Some (if r then warned else warned @ [csCaller (C cs)], st')
         }) (indirectCallMap g) ([], (\<lambda>_. False), []))"

text \<open>The loop of \<^verbatim>\<open>isReachableBetweenFunctions\<close>; the stack has its top in front.\<close>

definition pushUnvisited :: "call_edge \<Rightarrow> node_id list \<times> node_id oset \<Rightarrow> node_id list \<times> node_id oset" where
  "pushUnvisited e = (\<lambda>(stack, visited).
     if ceSrc e \<in> set visited then (stack, visited) else (ceSrc e # stack, oset_insert (ceSrc e) visited))"

text \<open>Every push marks a source of an edge.\<close>

definition unvisited :: "'a callgraph_scheme \<Rightarrow> node_id oset \<Rightarrow> node_id set" where
  "unvisited g visited = ceSrc ` set (cgEdges g) - set visited"

lemma fold_pushUnvisited_measure:
  assumes "set es \<subseteq> set (cgEdges g)" "fold pushUnvisited es (stack, visited) = (stack', visited')"
  shows "card (unvisited g visited') + length stack' = card (unvisited g visited) + length stack"
  using assms
proof (induction es arbitrary: stack visited)
  case (Cons e es)
  show ?case
  proof (cases "ceSrc e \<in> set visited")
    case True
    then show ?thesis using Cons by (simp add: pushUnvisited_def)
  next
    case False
    have e: "ceSrc e \<in> unvisited g visited" using Cons.prems(1) False by (simp add: unvisited_def)
    have "unvisited g (oset_insert (ceSrc e) visited) = unvisited g visited - {ceSrc e}"
      by (auto simp: unvisited_def)
    moreover have "finite (unvisited g visited)" by (simp add: unvisited_def)
    ultimately have c: "card (unvisited g visited) = Suc (card (unvisited g (oset_insert (ceSrc e) visited)))"
      using card_Suc_Diff1[OF _ e] by simp
    have "pushUnvisited e (stack, visited) = (ceSrc e # stack, oset_insert (ceSrc e) visited)"
      using False by (simp add: pushUnvisited_def)
    then have "fold pushUnvisited es (ceSrc e # stack, oset_insert (ceSrc e) visited) = (stack', visited')"
      using Cons.prems(2) by simp
    then show ?thesis using Cons.IH[of "ceSrc e # stack" "oset_insert (ceSrc e) visited"] Cons.prems(1) c by simp
  qed
qed simp

function reachLoop :: "'a callgraph_scheme \<Rightarrow> nat \<Rightarrow> node_id list \<Rightarrow> node_id oset \<Rightarrow> bool option" where
  "reachLoop g srcFn [] visited = Some False"
| "reachLoop g srcFn (n # stack) visited =
     (case getFunction n g of
        None \<Rightarrow> None
      | Some f \<Rightarrow>
          if f = srcFn then Some True
          else let (stack', visited') = fold pushUnvisited (inEdges n g) (stack, visited)
               in reachLoop g srcFn stack' visited')"
  by pat_completeness auto

termination
proof (relation "measure (\<lambda>(g, _, stack, visited). card (unvisited g visited) + length stack)")
  fix g :: "'a callgraph_scheme" and srcFn n stack visited f stack' visited' x
  assume "x = fold pushUnvisited (inEdges n g) (stack, visited)" "(stack', visited') = x"
  then have e: "fold pushUnvisited (inEdges n g) (stack, visited) = (stack', visited')" by simp
  have "set (inEdges n g) \<subseteq> set (cgEdges g)" by (simp add: inEdges_def)
  from fold_pushUnvisited_measure[OF this e]
  show "((g, srcFn, stack', visited'), (g, srcFn, n # stack, visited))
    \<in> measure (\<lambda>(g, _, stack, visited). card (unvisited g visited) + length stack)"
    by simp
qed simp

definition isReachableBetweenFunctions :: "nat \<Rightarrow> nat \<Rightarrow> 'a callgraph_scheme \<Rightarrow> bool option" where
  "isReachableBetweenFunctions srcFn dstFn g =
     do { n \<leftarrow> funToCallGraphNode g dstFn; reachLoop g srcFn [n] [n] }"

section \<open>Construction and copy\<close>

text \<open>\<open>callsOf f\<close> are the call nodes in the blocks of \<open>f\<close> that are not intrinsic.\<close>

definition buildSVFIRCallGraph :: "(nat \<Rightarrow> 'c call_site_scheme) \<Rightarrow> (nat \<Rightarrow> nat list) \<Rightarrow> nat list \<Rightarrow> callgraph \<Rightarrow> callgraph option" where
  "buildSVFIRCallGraph C callsOf funset g0 =
     (let g = fold addCallGraphNode funset g0
      in foldO (\<lambda>(_, f) h. foldO (\<lambda>cs h'.
             case csCalled (C cs) of
               None \<Rightarrow> Some h'
             | Some callee \<Rightarrow> addDirectCallGraphEdge C cs f callee h') (callsOf f) h) (cgNodes g) g)"

text \<open>
  The copy constructor. The copied edges are all direct and of kind \<^verbatim>\<open>CallRetEdge\<close>; \<open>insts\<close> are
  the call nodes of the map in its order.
\<close>

definition copyCallEdge :: "(nat \<Rightarrow> 'c call_site_scheme) \<Rightarrow> nat \<Rightarrow> edge_key \<Rightarrow> callgraph \<Rightarrow> callgraph option" where
  "copyCallEdge C cs = (\<lambda>(flag, src, dst) g. do {
     _ \<leftarrow> getFunction src g;
     f \<leftarrow> getFunction dst g;
     let (csId, g1) = addCallSite cs f g;
     edge \<leftarrow> addDirectCallSite C cs (newCallEdge src dst CallRetEdge csId);
     Some (insertCallInst cs edge (addCallEdge edge g1))
   })"

definition copyCallGraph :: "(nat \<Rightarrow> 'c call_site_scheme) \<Rightarrow> nat list \<Rightarrow> 'a callgraph_scheme \<Rightarrow> callgraph option" where
  "copyCallGraph C insts other =
     (let g = (new_callgraph NormCallGraph)\<lparr>callGraphNodeNum := length (cgNodes other), cgNodes := cgNodes other,
          funToCallGraphNode := fold (\<lambda>(i, f) m. m(f \<mapsto> i)) (cgNodes other) (\<lambda>_. None),
          csToIdMap := csToIdMap other, idToCSMap := idToCSMap other, totalCallSiteNum := totalCallSiteNum other\<rparr>
      in foldO (\<lambda>cs h. foldO (copyCallEdge C cs) (case callinstToEdges other cs of None \<Rightarrow> [] | Some keys \<Rightarrow> keys) h) insts g)"

section \<open>Threads\<close>

record thread_callgraph = callgraph +
  forksites :: "nat oset"
  joinsites :: "nat oset"
  forkEdges :: "nat \<Rightarrow> edge_key oset option"
  joinEdges :: "nat \<Rightarrow> edge_key oset option"

definition new_thread_callgraph :: "callgraph \<Rightarrow> thread_callgraph" where
  "new_thread_callgraph g = callgraph.extend (g\<lparr>cgKind := ThdCallGraph\<rparr>)
     \<lparr>forksites = [], joinsites = [], forkEdges = (\<lambda>_. None), joinEdges = (\<lambda>_. None)\<rparr>"

definition addForksite :: "nat \<Rightarrow> 'a thread_callgraph_scheme \<Rightarrow> bool \<times> 'a thread_callgraph_scheme" where
  "addForksite cs g =
     (cs \<notin> set (forksites g),
      g\<lparr>forkEdges := (case forkEdges g cs of None \<Rightarrow> (forkEdges g)(cs \<mapsto> []) | Some _ \<Rightarrow> forkEdges g),
        forksites := oset_insert cs (forksites g)\<rparr>)"

definition addJoinsite :: "nat \<Rightarrow> 'a thread_callgraph_scheme \<Rightarrow> bool \<times> 'a thread_callgraph_scheme" where
  "addJoinsite cs g =
     (cs \<notin> set (joinsites g),
      g\<lparr>joinEdges := (case joinEdges g cs of None \<Rightarrow> (joinEdges g)(cs \<mapsto> []) | Some _ \<Rightarrow> joinEdges g),
        joinsites := oset_insert cs (joinsites g)\<rparr>)"

definition addThreadForkEdgeSetMap :: "nat \<Rightarrow> call_edge \<Rightarrow> 'a thread_callgraph_scheme \<Rightarrow> 'a thread_callgraph_scheme" where
  "addThreadForkEdgeSetMap cs edge g = insertCallInst cs edge (g\<lparr>forkEdges := insertKey cs (ceKey edge) (forkEdges g)\<rparr>)"

definition addThreadJoinEdgeSetMap :: "nat \<Rightarrow> call_edge \<Rightarrow> 'a thread_callgraph_scheme \<Rightarrow> 'a thread_callgraph_scheme" where
  "addThreadJoinEdgeSetMap cs edge g = insertCallInst cs edge (g\<lparr>joinEdges := insertKey cs (ceKey edge) (joinEdges g)\<rparr>)"

text \<open>The common part of the two functions that add a fork edge; \<open>f\<close> is the function of the target node.\<close>

definition addForkEdge :: "(nat \<Rightarrow> 'c call_site_scheme) \<Rightarrow> (call_edge \<Rightarrow> call_edge option) \<Rightarrow> nat \<Rightarrow> nat \<Rightarrow>
    'a thread_callgraph_scheme \<Rightarrow> (bool \<times> 'a thread_callgraph_scheme) option" where
  "addForkEdge C mark cs calleeFun g =
     do {
       caller \<leftarrow> funToCallGraphNode g (csCaller (C cs));
       callee \<leftarrow> funToCallGraphNode g calleeFun;
       f \<leftarrow> getFunction callee g;
       let (csId, g1) = addCallSite cs f g;
       if hasGraphEdge caller callee TDForkEdge csId g1 \<noteq> None then Some (False, g1)
       else if getFunction caller g1 \<noteq> Some (csCaller (C cs)) then None
       else do {
         edge \<leftarrow> mark (newCallEdge caller callee TDForkEdge csId);
         Some (True, addThreadForkEdgeSetMap cs edge (addCallEdge edge g1))
       }
     }"

definition addDirectForkEdge :: "(nat \<Rightarrow> 'b fun_obj_scheme) \<Rightarrow> (nat \<Rightarrow> 'c call_site_scheme) \<Rightarrow> nat \<Rightarrow>
    'a thread_callgraph_scheme \<Rightarrow> (bool \<times> 'a thread_callgraph_scheme) option" where
  "addDirectForkEdge F C cs g =
     (case csForkedFun (C cs) of
        Some (FunTarget forkee) \<Rightarrow> addForkEdge C (addDirectCallSite C cs) cs (getDefFunForMultipleModule F forkee) g
      | _ \<Rightarrow> None)"

definition addIndirectForkEdge :: "(nat \<Rightarrow> 'c call_site_scheme) \<Rightarrow> nat \<Rightarrow> nat \<Rightarrow>
    'a thread_callgraph_scheme \<Rightarrow> (bool \<times> 'a thread_callgraph_scheme) option" where
  "addIndirectForkEdge C cs calleefun g = addForkEdge C (addInDirectCallSite C cs) cs calleefun g"

text \<open>
  A join edge is in no edge set of a node. The target of a fork through a variable is null after
  the cast, and followed.
\<close>

definition addDirectJoinEdge :: "(nat \<Rightarrow> 'c call_site_scheme) \<Rightarrow> nat \<Rightarrow> nat list \<Rightarrow>
    'a thread_callgraph_scheme \<Rightarrow> 'a thread_callgraph_scheme option" where
  "addDirectJoinEdge C cs forkset g =
     do {
       joinFunNode \<leftarrow> funToCallGraphNode g (csCaller (C cs));
       foldO (\<lambda>fork h.
         case csForkedFun (C fork) of
           Some (FunTarget f) \<Rightarrow> do {
             routine \<leftarrow> funToCallGraphNode h f;
             let (csId, h1) = addCallSite cs f h;
             let key = (makeEdgeFlagWithInvokeID TDJoinEdge csId, joinFunNode, routine);
             if (case joinEdges h1 cs of None \<Rightarrow> False | Some keys \<Rightarrow> key \<in> set keys) then Some h1
             else if getFunction joinFunNode h1 \<noteq> Some (csCaller (C cs)) then None
             else do {
               edge \<leftarrow> addDirectCallSite C cs (newCallEdge joinFunNode routine TDJoinEdge csId);
               Some (addThreadJoinEdgeSetMap cs edge h1)
             }
           }
         | _ \<Rightarrow> None) forkset g
     }"

text \<open>\<open>alias join fork\<close>: whether the threads of a join and a fork may be the same.\<close>

definition updateJoinEdge :: "(nat \<Rightarrow> 'c call_site_scheme) \<Rightarrow> (nat \<Rightarrow> nat \<Rightarrow> bool) \<Rightarrow>
    'a thread_callgraph_scheme \<Rightarrow> 'a thread_callgraph_scheme option" where
  "updateJoinEdge C alias g =
     foldO (\<lambda>cs h.
       let forkset = filter (alias cs) (forksites h)
       in if forkset = [] then None else addDirectJoinEdge C cs forkset h) (joinsites g) g"

text \<open>\<open>targets\<close>: the functions among the objects a variable points to.\<close>

definition updateThreadGraph :: "(nat \<Rightarrow> 'c call_site_scheme) \<Rightarrow> (nat \<times> nat oset) list \<Rightarrow> (node_id \<Rightarrow> nat list) \<Rightarrow>
    'a thread_callgraph_scheme \<Rightarrow> 'a thread_callgraph_scheme option" where
  "updateThreadGraph C indCalls targets g =
     do {
       g1 \<leftarrow> foldO (\<lambda>(cs, functions). foldO (\<lambda>callee. addIndirectCallGraphEdge C cs (csCaller (C cs)) callee) functions) indCalls g;
       foldO (\<lambda>cs h.
         case csForkedFun (C cs) of
           None \<Rightarrow> None
         | Some (FunTarget _) \<Rightarrow> Some h
         | Some (VarTarget v) \<Rightarrow> foldO (\<lambda>f h'. map_option snd (addIndirectForkEdge C cs f h')) (targets v) h)
         (forksites g1) g1
     }"

definition getJoinSites :: "node_id \<Rightarrow> nat list \<Rightarrow> 'a thread_callgraph_scheme \<Rightarrow> nat oset" where
  "getJoinSites routine insts g =
     fold (\<lambda>cs s. case joinEdges g cs of
         None \<Rightarrow> s
       | Some keys \<Rightarrow> if list_ex (\<lambda>(flag, src, dst). dst = routine) keys then oset_insert cs s else s) insts []"

text \<open>
  \<^verbatim>\<open>buildThreadCallGraph\<close>; \<open>forkCalls\<close> and \<open>joinCalls\<close> are the fork and join calls in the
  blocks of a function.
\<close>

definition buildThreadCallGraph :: "(nat \<Rightarrow> 'b fun_obj_scheme) \<Rightarrow> (nat \<Rightarrow> 'c call_site_scheme) \<Rightarrow> (nat \<Rightarrow> nat list) \<Rightarrow>
    (nat \<Rightarrow> nat list) \<Rightarrow> nat list \<Rightarrow> 'a callgraph_scheme \<Rightarrow> thread_callgraph option" where
  "buildThreadCallGraph F C forkCalls joinCalls insts svfir =
     do {
       g \<leftarrow> copyCallGraph C insts svfir;
       g1 \<leftarrow> foldO (\<lambda>(_, f). foldO (\<lambda>cs h.
           let h1 = snd (addForksite cs h) in
           case csForkedFun (C cs) of
             None \<Rightarrow> None
           | Some (FunTarget _) \<Rightarrow> map_option snd (addDirectForkEdge F C cs h1)
           | Some (VarTarget _) \<Rightarrow> Some h1) (forkCalls f)) (cgNodes svfir) (new_thread_callgraph g);
       Some (fold (\<lambda>(_, f). fold (\<lambda>cs h. snd (addJoinsite cs h)) (joinCalls f)) (cgNodes svfir) g1)
     }"

end
