(* ===== verification/Program.thy ===== *)
theory Program
  imports CallGraph ObjectTable
begin

text \<open>
  What the analyses ask of the program: the calls (\<^verbatim>\<open>CallICFGNode\<close> of
  \<^verbatim>\<open>src/SVF/svf/include/Graphs/ICFGNode.h\<close>), the functions (\<^verbatim>\<open>FunObjVar\<close> of
  \<^verbatim>\<open>src/SVF/svf/include/SVFIR/SVFVariables.h\<close>) and the tables of the SVFIR that relate them to the
  nodes of the constraint graph (\<^verbatim>\<open>src/SVF/svf/include/SVFIR/SVFIR.h\<close>). The front end fills them
  from LLVM; the analyses only read them.
\<close>

text \<open>
  \<open>csParams\<close> are the actual parameters of the node (\<^verbatim>\<open>APNodes\<close>), \<open>csArgs\<close> the entry of
  \<^verbatim>\<open>callSiteArgsListMap\<close>, \<open>csRet\<close> that of \<^verbatim>\<open>callSiteRetMap\<close> for the node's return; \<open>csVtable\<close> is
  \<^verbatim>\<open>vtabPtr\<close>, \<open>csBB\<close> the block of the call, \<open>csPtrTy\<close> whether the
  type of the call is a pointer.
\<close>

record call_info = call_site +
  csBB :: nat
  csParams :: "node_id list"
  csVarArg :: bool
  csRet :: "node_id option"
  csArgs :: "node_id list option"
  csVirtual :: bool
  csVtable :: "node_id option"
  csFunIdx :: int
  csFunName :: string
  csPtrTy :: bool

text \<open>
  \<open>fnParams\<close> are the formal arguments (\<^verbatim>\<open>allArgs\<close>), \<open>fnArgs\<close> the entry of \<^verbatim>\<open>funArgsListMap\<close>, \<open>fnRet\<close>
  that of \<^verbatim>\<open>funRetMap\<close>, \<open>fnVarargNode\<close> that of the variable arguments; \<open>fnHeapAlloc\<close> is
  \<^verbatim>\<open>isHeapAllocExtFunViaRet\<close>, which asks the table of library functions.
\<close>

record fun_info = fun_obj +
  fnParams :: "node_id list"
  fnVarArg :: bool
  fnRet :: "node_id option"
  fnArgs :: "node_id list option"
  fnVarargNode :: "node_id option"
  fnHeapAlloc :: bool

text \<open>
  \<open>objFunction\<close> is the function that a base object is, \<open>globalObj\<close> whether it is a
  \<^verbatim>\<open>GlobalObjVar\<close>, \<open>globalOfVal\<close> the object of the \<^verbatim>\<open>GlobalValVar\<close> a value is based on. The last
  two are command-line options.
\<close>

record program =
  pCalls :: "nat \<Rightarrow> call_info"
  pFuns :: "nat \<Rightarrow> fun_info"
  objFunction :: "node_id \<Rightarrow> nat option"
  globalObj :: "node_id \<Rightarrow> bool"
  globalOfVal :: "node_id \<Rightarrow> node_id option"
  objName :: "node_id \<Rightarrow> string"
  varType :: "node_id \<Rightarrow> nat"
  indirectCallsites :: "(nat \<times> node_id) list"
  IndirectCallLimit :: nat
  ConnectVCallOnCHA :: bool

text \<open>\<^verbatim>\<open>ThreadAPI::isTDFork\<close>\<close>

definition isTDFork :: "nat \<Rightarrow> program \<Rightarrow> bool" where
  "isTDFork cs P \<longleftrightarrow> csForkedFun (pCalls P cs) \<noteq> None"

definition cs_arg_size :: "nat \<Rightarrow> program \<Rightarrow> nat" where
  "cs_arg_size cs P = length (csParams (pCalls P cs))"

definition fn_arg_size :: "nat \<Rightarrow> program \<Rightarrow> nat" where
  "fn_arg_size f P = length (fnParams (pFuns P f))"

definition matchArgs :: "program \<Rightarrow> nat \<Rightarrow> nat \<Rightarrow> bool" where
  "matchArgs P call callee =
     (if fnVarArg (pFuns P callee) \<or> isTDFork call P
      then cs_arg_size call P \<ge> fn_arg_size callee P
      else cs_arg_size call P = fn_arg_size callee P)"

definition isIndirectCallSites :: "nat \<Rightarrow> program \<Rightarrow> bool" where
  "isIndirectCallSites cs P \<longleftrightarrow> cs \<in> fst ` set (indirectCallsites P)"

text \<open>\<^verbatim>\<open>ThreadAPI::getActualParmAtForkSite\<close> and \<^verbatim>\<open>ThreadAPI::getFormalParmOfForkedFun\<close>\<close>

definition getActualParmAtForkSite :: "nat \<Rightarrow> program \<Rightarrow> node_id option" where
  "getActualParmAtForkSite cs P =
     (if isTDFork cs P \<and> 3 < cs_arg_size cs P then Some (csParams (pCalls P cs) ! 3) else None)"

definition getFormalParmOfForkedFun :: "nat \<Rightarrow> program \<Rightarrow> node_id option" where
  "getFormalParmOfForkedFun f P =
     (case fnArgs (pFuns P f) of Some [a] \<Rightarrow> Some a | _ \<Rightarrow> None)"

section \<open>Call edges found so far\<close>

text \<open>\<^verbatim>\<open>CallEdgeMap\<close>: an ordered map from calls to sets of functions.\<close>

type_synonym call_edge_map = "(nat \<times> nat oset) list"

definition targetsOf :: "nat \<Rightarrow> call_edge_map \<Rightarrow> nat oset" where
  "targetsOf cs m = (case map_of m cs of None \<Rightarrow> [] | Some s \<Rightarrow> s)"

text \<open>The operator \<^verbatim>\<open>[]\<close> inserts an empty set for a new key.\<close>

fun touch :: "nat \<Rightarrow> call_edge_map \<Rightarrow> call_edge_map" where
  "touch cs [] = [(cs, [])]"
| "touch cs ((c, s) # m) =
     (if cs < c then (cs, []) # (c, s) # m else if cs = c then (c, s) # m else (c, s) # touch cs m)"

definition addTarget :: "nat \<Rightarrow> nat \<Rightarrow> call_edge_map \<Rightarrow> call_edge_map" where
  "addTarget cs f m = map (\<lambda>(c, s). (c, if c = cs then oset_insert f s else s)) (touch cs m)"

definition callEdges :: "call_edge_map \<Rightarrow> (nat \<times> nat) set" where
  "callEdges m = {(c, f). f \<in> set (targetsOf c m)}"

definition edge_map_inv :: "call_edge_map \<Rightarrow> bool" where
  "edge_map_inv m \<longleftrightarrow> sorted_wrt (<) (map fst m) \<and> (\<forall>(c, s) \<in> set m. oset_inv s)"

lemma edge_map_inv_Nil [simp]: "edge_map_inv []"
  by (simp add: edge_map_inv_def)

lemma callEdges_Nil [simp]: "callEdges [] = {}"
  by (simp add: callEdges_def targetsOf_def)

lemma fst_touch: "fst ` set (touch cs m) = insert cs (fst ` set m)"
  by (induction cs m rule: touch.induct) auto

lemma set_touch: "(c, s) \<in> set (touch cs m) \<Longrightarrow> (c, s) \<in> set m \<or> s = []"
  by (induction cs m rule: touch.induct) (auto split: if_splits)

lemma sorted_touch: "sorted_wrt (<) (map fst m) \<Longrightarrow> sorted_wrt (<) (map fst (touch cs m))"
proof (induction cs m rule: touch.induct)
  case (2 cs c s m)
  have "\<forall>y \<in> fst ` set (touch cs m). c < y" if "c < cs"
    using 2(2) that by (auto simp only: fst_touch list.map sorted_wrt.simps list.set_map fst_conv)
  then show ?case using 2 by auto
qed simp

lemma edge_map_inv_touch:
  assumes "edge_map_inv m"
  shows "edge_map_inv (touch cs m)"
proof -
  have "oset_inv s" if "(c, s) \<in> set (touch cs m)" for c s
    using set_touch[OF that] assms by (auto simp: edge_map_inv_def)
  then show ?thesis using assms sorted_touch[of m cs] by (auto simp: edge_map_inv_def)
qed

lemma map_of_touch:
  "sorted_wrt (<) (map fst m) \<Longrightarrow>
    map_of (touch cs m) c = (if c = cs then Some (targetsOf cs m) else map_of m c)"
proof (induction cs m rule: touch.induct)
  case (2 cs d s m)
  have "map_of m cs = None" if "cs < d"
    using 2(2) that by (force simp: map_of_eq_None_iff)
  then show ?case using 2 by (auto simp: targetsOf_def)
qed (simp add: targetsOf_def)

lemma targetsOf_touch: "edge_map_inv m \<Longrightarrow> targetsOf c (touch cs m) = targetsOf c m"
  by (simp add: targetsOf_def map_of_touch edge_map_inv_def)

lemma map_of_map_value: "map_of (map (\<lambda>(c, s). (c, h c s)) m) c = map_option (h c) (map_of m c)"
  by (induction m) auto

lemma targetsOf_addTarget:
  assumes "edge_map_inv m"
  shows "targetsOf c (addTarget cs f m) = (if c = cs then oset_insert f (targetsOf c m) else targetsOf c m)"
  using assms map_of_map_value[of "\<lambda>c s. if c = cs then oset_insert f s else s" "touch cs m" c]
  by (auto simp: targetsOf_def addTarget_def map_of_touch edge_map_inv_def split: option.splits)

lemma map_fst_addTarget: "map fst (addTarget cs f m) = map fst (touch cs m)"
  by (auto simp: addTarget_def)

lemma edge_map_inv_addTarget:
  assumes "edge_map_inv m"
  shows "edge_map_inv (addTarget cs f m)"
proof -
  have m: "edge_map_inv (touch cs m)" using assms by (rule edge_map_inv_touch)
  then have "sorted_wrt (<) (map fst (addTarget cs f m))"
    by (simp only: edge_map_inv_def map_fst_addTarget)
  moreover have "oset_inv s" if "(c, s) \<in> set (addTarget cs f m)" for c s
    using that m by (auto simp: addTarget_def edge_map_inv_def)
  ultimately show ?thesis by (auto simp: edge_map_inv_def)
qed

lemma callEdges_touch [simp]: "edge_map_inv m \<Longrightarrow> callEdges (touch cs m) = callEdges m"
  by (simp add: callEdges_def targetsOf_touch)

lemma callEdges_addTarget [simp]: "edge_map_inv m \<Longrightarrow> callEdges (addTarget cs f m) = insert (cs, f) (callEdges m)"
  by (auto simp: callEdges_def targetsOf_addTarget split: if_splits)

lemma addTarget_nonempty [simp]: "addTarget cs f m \<noteq> []"
  by (cases m) (auto simp: addTarget_def split: if_splits)

end
