(* ===== verification/ClassHierarchy.thy ===== *)
theory ClassHierarchy
  imports Program
begin

text \<open>
  The class hierarchy graph of \<^verbatim>\<open>src/SVF/svf/include/Graphs/CHG.h\<close> and
  \<^verbatim>\<open>src/SVF/svf/lib/Graphs/CHG.cpp\<close>: classes with their vectors of virtual functions, the edges
  between them, and the virtual functions a call may reach through a set of virtual tables.

  A class is a number, its contents a record. All edges have the flag 0, so the edge sets are
  ordered by source and target; the graph has one list of edges. The maps from names and calls
  are functions. The graph is filled by the front end.
\<close>

section \<open>Classes and edges\<close>

datatype ch_edge_type = INHERITANCE | INSTANTCE

record ch_edge =
  chSrc :: node_id
  chDst :: node_id
  chType :: ch_edge_type

datatype class_attr = PURE_ABSTRACT | MULTI_INHERITANCE | TEMPLATE

fun attrMask :: "class_attr \<Rightarrow> nat" where
  "attrMask PURE_ABSTRACT = 1"
| "attrMask MULTI_INHERITANCE = 2"
| "attrMask TEMPLATE = 4"

record ch_node =
  className :: string
  chVTable :: "node_id option"
  chFlags :: nat
  virtualFunctionVectors :: "nat list list"

definition new_ch_node :: "string \<Rightarrow> ch_node" where
  "new_ch_node name = \<lparr>className = name, chVTable = None, chFlags = 0, virtualFunctionVectors = []\<rparr>"

definition setFlag :: "class_attr \<Rightarrow> ch_node \<Rightarrow> ch_node" where
  "setFlag a n = n\<lparr>chFlags := or (chFlags n) (attrMask a)\<rparr>"

definition hasFlag :: "class_attr \<Rightarrow> ch_node \<Rightarrow> bool" where
  "hasFlag a n \<longleftrightarrow> and (chFlags n) (attrMask a) = attrMask a"

definition addVirtualFunctionVector :: "nat list \<Rightarrow> ch_node \<Rightarrow> ch_node" where
  "addVirtualFunctionVector v n = n\<lparr>virtualFunctionVectors := virtualFunctionVectors n @ [v]\<rparr>"

text \<open>The functions are appended to those that are given.\<close>

definition getVirtualFunctions :: "nat \<Rightarrow> ch_node \<Rightarrow> nat list \<Rightarrow> nat list" where
  "getVirtualFunctions idx n fns = fns @ map (\<lambda>v. v ! idx) (filter (\<lambda>v. idx < length v) (virtualFunctionVectors n))"

section \<open>The graph\<close>

record chgraph =
  chNodes :: "node_id \<Rightarrow> ch_node"
  chEdges :: "ch_edge list"
  classNameToNode :: "string \<Rightarrow> node_id option"
  classNameToDescendants :: "string \<Rightarrow> node_id oset"
  templateNameToInstances :: "string \<Rightarrow> node_id oset"
  virtualFunctionToID :: "(nat \<times> nat) list"
  callNodeToCHAVtbls :: "nat \<Rightarrow> node_id oset option"
  callNodeToCHAVFns :: "nat \<Rightarrow> nat oset option"

definition chGetNode :: "string \<Rightarrow> chgraph \<Rightarrow> node_id option" where
  "chGetNode name g = classNameToNode g name"

definition chHasEdge :: "node_id \<Rightarrow> node_id \<Rightarrow> ch_edge_type \<Rightarrow> chgraph \<Rightarrow> bool" where
  "chHasEdge src dst et g \<longleftrightarrow> list_ex (\<lambda>e. chDst e = dst \<and> chType e = et) (filter (\<lambda>e. chSrc e = src) (chEdges g))"

definition chKey :: "ch_edge \<Rightarrow> node_id \<times> node_id" where
  "chKey e = (chSrc e, chDst e)"

text \<open>\<^verbatim>\<open>addOutgoingEdge\<close> and \<^verbatim>\<open>addIncomingEdge\<close> insert into sets.\<close>

definition chInsertEdge :: "ch_edge \<Rightarrow> chgraph \<Rightarrow> chgraph" where
  "chInsertEdge e g = (if chKey e \<in> chKey ` set (chEdges g) then g else g\<lparr>chEdges := insort_key chKey e (chEdges g)\<rparr>)"

definition chAddEdge :: "string \<Rightarrow> string \<Rightarrow> ch_edge_type \<Rightarrow> chgraph \<Rightarrow> chgraph option" where
  "chAddEdge name baseName edgeType g =
     do {
       srcNode \<leftarrow> chGetNode name g;
       dstNode \<leftarrow> chGetNode baseName g;
       if chHasEdge srcNode dstNode edgeType g then Some g
       else Some (chInsertEdge \<lparr>chSrc = srcNode, chDst = dstNode, chType = edgeType\<rparr> g)
     }"

text \<open>-1 as an unsigned number stands for a missing function.\<close>

definition getVirtualFunctionID :: "nat \<Rightarrow> chgraph \<Rightarrow> nat" where
  "getVirtualFunctionID vfn g = (case map_of (virtualFunctionToID g) vfn of Some i \<Rightarrow> i | None \<Rightarrow> 2 ^ 32 - 1)"

definition getVirtualFunctionBasedonID :: "nat \<Rightarrow> chgraph \<Rightarrow> nat option" where
  "getVirtualFunctionBasedonID i g = map_option fst (find (\<lambda>(f, j). j = i) (virtualFunctionToID g))"

definition addInstances :: "string \<Rightarrow> node_id \<Rightarrow> chgraph \<Rightarrow> chgraph" where
  "addInstances templateName node g =
     g\<lparr>templateNameToInstances := (templateNameToInstances g)
         (templateName := oset_insert node (templateNameToInstances g templateName))\<rparr>"

definition getDescendants :: "string \<Rightarrow> chgraph \<Rightarrow> node_id oset" where
  "getDescendants name g = classNameToDescendants g name"

definition getInstances :: "string \<Rightarrow> chgraph \<Rightarrow> node_id oset" where
  "getInstances name g = templateNameToInstances g name"

definition csHasVtblsBasedonCHA :: "nat \<Rightarrow> chgraph \<Rightarrow> bool" where
  "csHasVtblsBasedonCHA cs g \<longleftrightarrow> callNodeToCHAVtbls g cs \<noteq> None"

definition csHasVFnsBasedonCHA :: "nat \<Rightarrow> chgraph \<Rightarrow> bool" where
  "csHasVFnsBasedonCHA cs g \<longleftrightarrow> callNodeToCHAVFns g cs \<noteq> None"

definition getCSVtblsBasedonCHA :: "nat \<Rightarrow> chgraph \<Rightarrow> node_id oset option" where
  "getCSVtblsBasedonCHA cs g = callNodeToCHAVtbls g cs"

definition getCSVFsBasedonCHA :: "nat \<Rightarrow> chgraph \<Rightarrow> nat oset option" where
  "getCSVFsBasedonCHA cs g = callNodeToCHAVFns g cs"

section \<open>Virtual calls\<close>

text \<open>The first argument is the object itself; the loop skips it.\<close>

definition checkArgTypes :: "program \<Rightarrow> nat \<Rightarrow> nat \<Rightarrow> bool" where
  "checkArgTypes P cs fn =
     (let arg_size = (if fn_arg_size fn P > cs_arg_size cs P then cs_arg_size cs P else fn_arg_size fn P)
      in list_all (\<lambda>i. varType P (csParams (pCalls P cs) ! i) = varType P (fnParams (pFuns P fn) ! i)) [1..<arg_size])"

text \<open>\<^verbatim>\<open>std::string::rfind\<close> and \<^verbatim>\<open>std::string::erase\<close>\<close>

definition rfind :: "string \<Rightarrow> string \<Rightarrow> nat option" where
  "rfind suffix s = find (\<lambda>p. take (length suffix) (drop p s) = suffix) (rev [0..<length s + 1])"

definition stripAbi :: "string \<Rightarrow> string" where
  "stripAbi name =
     (let suffix = ''[abi:cxx11]'' in
      case rfind suffix name of
        None \<Rightarrow> name
      | Some p \<Rightarrow> take p name @ drop (p + length suffix) name)"

definition nameMatches :: "string \<Rightarrow> string \<Rightarrow> bool" where
  "nameMatches funName calleeName =
     (case funName of
        [] \<Rightarrow> True
      | c # _ \<Rightarrow>
          if c = CHR ''~'' then (case calleeName of [] \<Rightarrow> False | d # _ \<Rightarrow> d = CHR ''~'')
          else funName = calleeName)"

definition sameArgSize :: "program \<Rightarrow> nat \<Rightarrow> nat \<Rightarrow> bool" where
  "sameArgSize P cs callee \<longleftrightarrow>
     cs_arg_size cs P = fn_arg_size callee P \<or> csVarArg (pCalls P cs) \<and> fnVarArg (pFuns P callee)"

definition isVFnTarget :: "program \<Rightarrow> nat \<Rightarrow> nat \<Rightarrow> bool" where
  "isVFnTarget P cs callee \<longleftrightarrow>
     sameArgSize P cs callee \<and> checkArgTypes P cs callee
     \<and> nameMatches (csFunName (pCalls P cs)) (stripAbi (fnName (pFuns P callee)))"

definition getVFnsFromVtbls :: "program \<Rightarrow> chgraph \<Rightarrow> nat \<Rightarrow> node_id list \<Rightarrow> nat oset \<Rightarrow> nat oset option" where
  "getVFnsFromVtbls P g cs vtbls vfns =
     (if \<not> csVirtual (pCalls P cs) \<or> csFunIdx (pCalls P cs) < 0 then None
      else
        let idx = u32 (nat (csFunIdx (pCalls P cs))) in
        Some (fold (\<lambda>vt s.
          case chGetNode (objName P vt) g of
            None \<Rightarrow> s
          | Some child \<Rightarrow>
              fold (\<lambda>callee t. if isVFnTarget P cs callee then oset_insert callee t else t)
                (getVirtualFunctions idx (chNodes g child) []) s) vtbls vfns))"

section \<open>Properties\<close>

lemma fold_insert_set: "set (fold (\<lambda>x t. if Q x then oset_insert x t else t) xs s) = {x \<in> set xs. Q x} \<union> set s"
  by (induction xs arbitrary: s) auto

lemma fold_insert_inv: "oset_inv s \<Longrightarrow> oset_inv (fold (\<lambda>x t. if Q x then oset_insert x t else t) xs s)"
  by (induction xs arbitrary: s) auto

lemma set_getVirtualFunctions:
  "set (getVirtualFunctions idx n []) = {v ! idx | v. v \<in> set (virtualFunctionVectors n) \<and> idx < length v}"
  by (auto simp: getVirtualFunctions_def)

text \<open>
  What a virtual call may reach, said without the code: the class that a virtual table belongs to
  has the function in the slot of the call, and the signature and the name of the function fit.
\<close>

definition inVtable :: "program \<Rightarrow> chgraph \<Rightarrow> nat \<Rightarrow> node_id \<Rightarrow> nat \<Rightarrow> bool" where
  "inVtable P g cs vt callee \<longleftrightarrow>
     (\<exists>child v. classNameToNode g (objName P vt) = Some child \<and> v \<in> set (virtualFunctionVectors (chNodes g child))
        \<and> nat (csFunIdx (pCalls P cs)) < length v \<and> v ! nat (csFunIdx (pCalls P cs)) = callee)"

text \<open>The name without the last suffix of the compiler, the name itself when it has none.\<close>

definition without_abi :: "string \<Rightarrow> string \<Rightarrow> bool" where
  "without_abi name base \<longleftrightarrow>
     (\<exists>pre post. name = pre @ ''[abi:cxx11]'' @ post \<and> base = pre @ post
        \<and> (\<forall>pre' post'. name = pre' @ ''[abi:cxx11]'' @ post' \<longrightarrow> length pre' \<le> length pre))
     \<or> base = name \<and> (\<nexists>pre post. name = pre @ ''[abi:cxx11]'' @ post)"

definition is_destructor :: "string \<Rightarrow> bool" where
  "is_destructor name \<longleftrightarrow> (\<exists>rest. name = CHR ''~'' # rest)"

definition signature_fits :: "program \<Rightarrow> nat \<Rightarrow> nat \<Rightarrow> bool" where
  "signature_fits P cs callee \<longleftrightarrow>
     (length (csParams (pCalls P cs)) = length (fnParams (pFuns P callee))
        \<or> csVarArg (pCalls P cs) \<and> fnVarArg (pFuns P callee))
     \<and> (\<forall>i. 1 \<le> i \<and> i < length (csParams (pCalls P cs)) \<and> i < length (fnParams (pFuns P callee)) \<longrightarrow>
          varType P (csParams (pCalls P cs) ! i) = varType P (fnParams (pFuns P callee) ! i))"

definition name_fits :: "string \<Rightarrow> string \<Rightarrow> bool" where
  "name_fits called name \<longleftrightarrow>
     called = [] \<or>
     (\<exists>base. without_abi name base \<and> (if is_destructor called then is_destructor base else base = called))"

lemma occurs_iff: "take (length suf) (drop p s) = suf \<and> p \<le> length s \<longleftrightarrow> (\<exists>pre post. s = pre @ suf @ post \<and> length pre = p)"
proof
  assume a: "take (length suf) (drop p s) = suf \<and> p \<le> length s"
  then have "s = take p s @ suf @ drop (length suf) (drop p s)"
    by (metis append_take_drop_id)
  then show "\<exists>pre post. s = pre @ suf @ post \<and> length pre = p"
    using a by (metis length_take min.absorb2)
qed auto

lemma find_rev_upt:
  "find Q (rev [0..<n]) = Some p \<longleftrightarrow> p < n \<and> Q p \<and> (\<forall>q<n. Q q \<longrightarrow> q \<le> p)"
proof (induction n)
  case (Suc n)
  show ?case
  proof (cases "Q n")
    case False
    then show ?thesis using Suc.IH by (auto simp: less_Suc_eq)
  qed (auto simp: less_Suc_eq_le dest: order.antisym)
qed simp

lemma rfind_Some:
  "rfind suf s = Some p \<longleftrightarrow> (\<exists>pre post. s = pre @ suf @ post \<and> length pre = p)
     \<and> (\<forall>pre post. s = pre @ suf @ post \<longrightarrow> length pre \<le> p)"
proof -
  have "rfind suf s = Some p \<longleftrightarrow> (take (length suf) (drop p s) = suf \<and> p \<le> length s)
      \<and> (\<forall>q. take (length suf) (drop q s) = suf \<and> q \<le> length s \<longrightarrow> q \<le> p)"
    unfolding rfind_def find_rev_upt by (auto simp: less_Suc_eq_le)
  then show ?thesis unfolding occurs_iff by blast
qed

lemma rfind_None: "rfind suf s = None \<longleftrightarrow> (\<nexists>pre post. s = pre @ suf @ post)"
proof -
  have "rfind suf s = None \<longleftrightarrow> (\<forall>p. \<not> (take (length suf) (drop p s) = suf \<and> p \<le> length s))"
    unfolding rfind_def find_None_iff by (auto simp: less_Suc_eq_le le_less)
  then show ?thesis unfolding occurs_iff by blast
qed

lemma stripAbi_correct: "without_abi name base \<longleftrightarrow> base = stripAbi name"
proof (cases "rfind ''[abi:cxx11]'' name")
  case None
  then have none: "\<nexists>pre post. name = pre @ ''[abi:cxx11]'' @ post" using rfind_None by metis
  have "stripAbi name = name" unfolding stripAbi_def Let_def None by simp
  then show ?thesis using none unfolding without_abi_def by metis
next
  case (Some p)
  then obtain pre post where n: "name = pre @ ''[abi:cxx11]'' @ post" and p: "length pre = p"
    and last: "\<And>pre' post'. name = pre' @ ''[abi:cxx11]'' @ post' \<Longrightarrow> length pre' \<le> p"
    using rfind_Some[of "''[abi:cxx11]''" name p] by blast
  have unique: "pre' = pre \<and> post' = post"
    if "name = pre' @ ''[abi:cxx11]'' @ post'" "length pre' = length pre" for pre' post'
    using that n by simp
  have strip: "stripAbi name = pre @ post"
    unfolding stripAbi_def Let_def Some using n p by simp
  show ?thesis
  proof
    assume "without_abi name base"
    then obtain pre' post' where n': "name = pre' @ ''[abi:cxx11]'' @ post'" and base: "base = pre' @ post'"
      and l: "length pre \<le> length pre'"
      using n unfolding without_abi_def by blast
    have "length pre' = length pre" using l last[OF n'] p by simp
    from unique[OF n' this] show "base = stripAbi name" using base strip by simp
  next
    assume "base = stripAbi name"
    then show "without_abi name base"
      unfolding without_abi_def using n strip last p by blast
  qed
qed

lemma nameMatches_correct: "nameMatches called (stripAbi name) \<longleftrightarrow> name_fits called name"
proof -
  have d: "is_destructor x \<longleftrightarrow> (case x of [] \<Rightarrow> False | d # _ \<Rightarrow> d = CHR ''~'')" for x
    by (cases x) (auto simp: is_destructor_def)
  show ?thesis unfolding name_fits_def stripAbi_correct d nameMatches_def
    by (cases called) auto
qed

lemma checkArgTypes_correct:
  "checkArgTypes P cs callee \<longleftrightarrow>
     (\<forall>i. 1 \<le> i \<and> i < length (csParams (pCalls P cs)) \<and> i < length (fnParams (pFuns P callee)) \<longrightarrow>
        varType P (csParams (pCalls P cs) ! i) = varType P (fnParams (pFuns P callee) ! i))"
  by (auto simp: checkArgTypes_def Let_def list_all_iff cs_arg_size_def fn_arg_size_def)

lemma isVFnTarget_correct:
  "isVFnTarget P cs callee \<longleftrightarrow> signature_fits P cs callee \<and> name_fits (csFunName (pCalls P cs)) (fnName (pFuns P callee))"
  unfolding isVFnTarget_def sameArgSize_def cs_arg_size_def fn_arg_size_def checkArgTypes_correct nameMatches_correct signature_fits_def
  by blast

lemma vtables_fold:
  assumes "u32 (nat (csFunIdx (pCalls P cs))) = nat (csFunIdx (pCalls P cs))"
  shows "set (fold (\<lambda>vt s.
          case chGetNode (objName P vt) g of
            None \<Rightarrow> s
          | Some child \<Rightarrow>
              fold (\<lambda>callee t. if isVFnTarget P cs callee then oset_insert callee t else t)
                (getVirtualFunctions (u32 (nat (csFunIdx (pCalls P cs)))) (chNodes g child) []) s) vtbls vfns)
   = {c. isVFnTarget P cs c \<and> (\<exists>vt \<in> set vtbls. inVtable P g cs vt c)} \<union> set vfns"
proof (induction vtbls arbitrary: vfns)
  case (Cons vt vtbls)
  have "set (case chGetNode (objName P vt) g of
            None \<Rightarrow> vfns
          | Some child \<Rightarrow>
              fold (\<lambda>callee t. if isVFnTarget P cs callee then oset_insert callee t else t)
                (getVirtualFunctions (u32 (nat (csFunIdx (pCalls P cs)))) (chNodes g child) []) vfns)
    = {c. isVFnTarget P cs c \<and> inVtable P g cs vt c} \<union> set vfns"
    by (cases "chGetNode (objName P vt) g")
      (auto simp: fold_insert_set set_getVirtualFunctions inVtable_def chGetNode_def assms)
  then show ?case by (auto simp: Cons.IH)
qed simp

text \<open>
  C5: The functions found for a virtual call through a set of virtual tables are those given
  before and exactly the functions in the slot of the call in some vector of a class of the
  tables, whose number of arguments is that of the call (or both sides are variadic), whose
  argument types agree from the second on, and whose name fits: the name of the call is empty,
  or both it and the name of the function begin with a tilde, or the two are equal, where the
  last suffix of the compiler is taken out of the name of the function. The slot is a
  non-negative number of 32 bits.
\<close>

theorem getVFnsFromVtbls_exact:
  assumes "csVirtual (pCalls P cs)" "0 \<le> csFunIdx (pCalls P cs)" "csFunIdx (pCalls P cs) < 2 ^ 31"
  shows "\<exists>s. getVFnsFromVtbls P g cs vtbls vfns = Some s
    \<and> set s = set vfns \<union> {c. (\<exists>vt \<in> set vtbls. inVtable P g cs vt c) \<and> signature_fits P cs c
         \<and> name_fits (csFunName (pCalls P cs)) (fnName (pFuns P c))}"
proof -
  have u: "u32 (nat (csFunIdx (pCalls P cs))) = nat (csFunIdx (pCalls P cs))"
    using assms by (simp add: u32_def)
  show ?thesis
    using assms(1,2) vtables_fold[OF u, where g = g and vtbls = vtbls and vfns = vfns]
    by (auto simp: getVFnsFromVtbls_def Let_def isVFnTarget_correct)
qed

definition demo_vprogram :: program where
  "demo_vprogram = \<lparr>
     pCalls = (\<lambda>_. \<lparr>csCaller = 0, csCalled = None, csForkedFun = None, csBB = 0, csParams = [10], csVarArg = False, csRet = None,
       csArgs = None, csVirtual = True, csVtable = Some 5, csFunIdx = 1, csFunName = ''get'', csPtrTy = True\<rparr>),
     pFuns = (\<lambda>f. \<lparr>fnName = (if f = 7 then ''get[abi:cxx11]'' else ''put''), fnDef = None, fnParams = [20], fnVarArg = False,
       fnRet = None, fnArgs = None, fnVarargNode = None, fnHeapAlloc = False\<rparr>),
     objFunction = (\<lambda>_. None), globalObj = (\<lambda>_. True), globalOfVal = (\<lambda>_. None), objName = (\<lambda>_. ''C''), varType = (\<lambda>_. 0),
     indirectCallsites = [], IndirectCallLimit = 100, ConnectVCallOnCHA = False\<rparr>"

definition demo_chg :: chgraph where
  "demo_chg = \<lparr>chNodes = (\<lambda>_. addVirtualFunctionVector [8, 7] (addVirtualFunctionVector [7, 8] (new_ch_node ''C''))), chEdges = [],
     classNameToNode = [''C'' \<mapsto> 1], classNameToDescendants = (\<lambda>_. []), templateNameToInstances = (\<lambda>_. []),
     virtualFunctionToID = [], callNodeToCHAVtbls = (\<lambda>_. None), callNodeToCHAVFns = (\<lambda>_. None)\<rparr>"

lemma getVFnsFromVtbls_exact_witness:
  "\<exists>s. getVFnsFromVtbls demo_vprogram demo_chg 0 [3] [] = Some s \<and> s = [7]
    \<and> set s = set [] \<union> {c. (\<exists>vt \<in> set [3]. inVtable demo_vprogram demo_chg 0 vt c) \<and> signature_fits demo_vprogram 0 c
         \<and> name_fits (csFunName (pCalls demo_vprogram 0)) (fnName (pFuns demo_vprogram c))}"
proof -
  have "getVFnsFromVtbls demo_vprogram demo_chg 0 [3] [] = Some [7]"
    by (simp add: getVFnsFromVtbls_def demo_vprogram_def demo_chg_def chGetNode_def getVirtualFunctions_def addVirtualFunctionVector_def
        new_ch_node_def isVFnTarget_def sameArgSize_def cs_arg_size_def fn_arg_size_def checkArgTypes_def nameMatches_def stripAbi_def
        rfind_def oset_insert_def)
  moreover have "csVirtual (pCalls demo_vprogram 0)" "0 \<le> csFunIdx (pCalls demo_vprogram 0)"
    "csFunIdx (pCalls demo_vprogram 0) < 2 ^ 31"
    by (simp_all add: demo_vprogram_def)
  note getVFnsFromVtbls_exact[OF this, of demo_chg "[3]" "[]"]
  ultimately show ?thesis by simp
qed

text \<open>
  Between two classes there is room for one edge only: the edge sets are ordered by flag,
  source and target, and every edge has the flag 0, so an edge of the other type is not
  inserted although \<^verbatim>\<open>hasEdge\<close> tells the types apart.
\<close>

theorem chAddEdge_one_type:
  assumes "chGetNode a g = Some n" "chGetNode b g = Some m" "\<not> chHasEdge n m INSTANTCE g" "chHasEdge n m INHERITANCE g"
  shows "\<exists>h. chAddEdge a b INSTANTCE g = Some h \<and> h = g \<and> \<not> chHasEdge n m INSTANTCE h"
  using assms by (auto simp: chAddEdge_def chInsertEdge_def chHasEdge_def chKey_def list_ex_iff image_iff)

definition demo_two_classes :: chgraph where
  "demo_two_classes = demo_chg\<lparr>classNameToNode := [''A'' \<mapsto> 1, ''B'' \<mapsto> 2]\<rparr>"

lemma chAddEdge_one_type_witness:
  "\<exists>g h. chAddEdge ''A'' ''B'' INHERITANCE demo_two_classes = Some g \<and> chHasEdge 1 2 INHERITANCE g
     \<and> chAddEdge ''A'' ''B'' INSTANTCE g = Some h \<and> h = g \<and> \<not> chHasEdge 1 2 INSTANTCE h"
proof -
  define g where "g = chInsertEdge \<lparr>chSrc = 1, chDst = 2, chType = INHERITANCE\<rparr> demo_two_classes"
  have a: "chAddEdge ''A'' ''B'' INHERITANCE demo_two_classes = Some g"
    by (simp add: chAddEdge_def chGetNode_def chHasEdge_def demo_two_classes_def demo_chg_def g_def)
  have p: "chGetNode ''A'' g = Some 1" "chGetNode ''B'' g = Some 2" "\<not> chHasEdge 1 2 INSTANTCE g" "chHasEdge 1 2 INHERITANCE g"
    by (simp_all add: g_def chGetNode_def chHasEdge_def demo_two_classes_def demo_chg_def chInsertEdge_def)
  show ?thesis using a p(4) chAddEdge_one_type[OF p] by blast
qed

end
