(* ===== verification/Andersen_CallGraph.thy ===== *)
theory Andersen_CallGraph
  imports Andersen_Solver ClassHierarchy
begin

text \<open>
  The call graph on the fly: indirect and virtual calls are resolved from the points-to sets, and
  actual and formal parameters are connected. \<^verbatim>\<open>resolveIndCalls\<close>, \<^verbatim>\<open>resolveCPPIndCalls\<close> of
  \<^verbatim>\<open>src/SVF/svf/lib/MemoryModel/PointerAnalysis.cpp\<close>, \<^verbatim>\<open>onTheFlyCallGraphSolve\<close>,
  \<^verbatim>\<open>onTheFlyThreadCallGraphSolve\<close> and \<^verbatim>\<open>normalizePointsTo\<close> of \<^verbatim>\<open>PointerAnalysisImpl.cpp\<close>, and
  \<^verbatim>\<open>solveConstraints\<close>, \<^verbatim>\<open>updateCallGraph\<close>, \<^verbatim>\<open>connectCaller2CalleeParams\<close>,
  \<^verbatim>\<open>heapAllocatorViaIndCall\<close>, \<^verbatim>\<open>cleanConsCG\<close> of \<^verbatim>\<open>src/SVF/svf/lib/WPA/Andersen.cpp\<close>.

  The call graph is carried beside the state of the analysis. One record serves the plain call
  graph and the one with threads; \<open>cgKind\<close> decides, as the \<^verbatim>\<open>dyn_cast\<close> of the code does. Sets of
  pairs of nodes and of functions, which are hash sets, are visited in increasing order.
\<close>

section \<open>Resolving calls\<close>

text \<open>
  The function that an object of a points-to set is: the object is looked up, its base object
  is asked for the flag, and cast. A value in the set is no object and is passed over.
\<close>

definition functionOf :: "program \<Rightarrow> pag \<Rightarrow> node_id \<Rightarrow> nat option option" where
  "functionOf P p i =
     (case svfVars p i of
        None \<Rightarrow> None
      | Some (ValVar _) \<Rightarrow> Some None
      | Some _ \<Rightarrow> map_option (objFunction P) (getBaseObject i p))"

type_synonym 'a cg_state = "call_edge_map \<times> 'a callgraph_scheme"

text \<open>A callee that is new for the call goes into both maps and into the call graph.\<close>

definition addCallee :: "program \<Rightarrow> nat \<Rightarrow> nat \<Rightarrow> 'a cg_state \<Rightarrow> 'a cg_state option" where
  "addCallee P cs callee = (\<lambda>(newEdges, g).
     if callee \<in> set (targetsOf cs (indirectCallMap g))
     then Some (newEdges, g\<lparr>indirectCallMap := touch cs (indirectCallMap g)\<rparr>)
     else map_option (\<lambda>h. (addTarget cs callee newEdges, h))
       (addIndirectCallGraphEdge (pCalls P) cs (csCaller (pCalls P cs)) callee
          (g\<lparr>indirectCallMap := addTarget cs callee (indirectCallMap g)\<rparr>)))"

definition resolveTarget :: "program \<Rightarrow> pag \<Rightarrow> nat \<Rightarrow> node_id \<Rightarrow> 'a cg_state \<Rightarrow> 'a cg_state option" where
  "resolveTarget P p cs i st =
     do {
       f \<leftarrow> functionOf P p i;
       case f of
         None \<Rightarrow> Some st
       | Some calleefun \<Rightarrow>
           let callee = getDefFunForMultipleModule (pFuns P) calleefun in
           if matchArgs P cs callee then addCallee P cs callee st else Some st
     }"

fun resolveLoop :: "program \<Rightarrow> pag \<Rightarrow> nat \<Rightarrow> node_id list \<Rightarrow> 'a cg_state \<Rightarrow> 'a cg_state option" where
  "resolveLoop P p cs [] st = Some st"
| "resolveLoop P p cs (i # target) st =
     (if numOfResolvedIndCallEdge (snd st) \<ge> IndirectCallLimit P then Some st
      else do { st' \<leftarrow> resolveTarget P p cs i st; resolveLoop P p cs target st' })"

definition resolveIndCalls :: "program \<Rightarrow> pag \<Rightarrow> nat \<Rightarrow> node_id list \<Rightarrow> 'a cg_state \<Rightarrow> 'a cg_state option" where
  "resolveIndCalls P p cs target st =
     (if isIndirectCallSites cs P then resolveLoop P p cs target st else None)"

definition getVFnsFromCHA :: "chgraph \<Rightarrow> nat \<Rightarrow> nat oset \<Rightarrow> nat oset" where
  "getVFnsFromCHA chg cs vfns = (case getCSVFsBasedonCHA cs chg of None \<Rightarrow> vfns | Some s \<Rightarrow> s)"

text \<open>The virtual table that a node of a points-to set is.\<close>

definition globalVarOf :: "program \<Rightarrow> pag \<Rightarrow> node_id \<Rightarrow> node_id option option" where
  "globalVarOf P p i =
     (case svfVars p i of
        None \<Rightarrow> None
      | Some (ValVar _) \<Rightarrow> Some (globalOfVal P i)
      | Some _ \<Rightarrow> map_option (\<lambda>b. if globalObj P b then Some b else None) (getBaseObject i p))"

definition getVFnsFromPts :: "program \<Rightarrow> pag \<Rightarrow> chgraph \<Rightarrow> nat \<Rightarrow> node_id list \<Rightarrow> nat oset \<Rightarrow> nat oset option" where
  "getVFnsFromPts P p chg cs target vfns =
     (case getCSVtblsBasedonCHA cs chg of
        None \<Rightarrow> Some vfns
      | Some chaVtbls \<Rightarrow>
          do {
            vtbls \<leftarrow> foldO (\<lambda>i s. map_option (\<lambda>v. case v of
                Some pVar \<Rightarrow> if pVar \<in> set chaVtbls then oset_insert pVar s else s
              | None \<Rightarrow> s) (globalVarOf P p i)) target [];
            getVFnsFromVtbls P chg cs vtbls vfns
          })"

definition connectVFn :: "program \<Rightarrow> nat \<Rightarrow> nat \<Rightarrow> 'a cg_state \<Rightarrow> 'a cg_state option" where
  "connectVFn P cs f = (\<lambda>(newEdges, g).
     let callee = getDefFunForMultipleModule (pFuns P) f in
     if callee \<in> set (targetsOf cs (indirectCallMap g)) \<or> \<not> sameArgSize P cs callee
     then Some (newEdges, g\<lparr>indirectCallMap := touch cs (indirectCallMap g)\<rparr>)
     else addCallee P cs callee (newEdges, g))"

definition connectVCallToVFns :: "program \<Rightarrow> nat \<Rightarrow> nat list \<Rightarrow> 'a cg_state \<Rightarrow> 'a cg_state option" where
  "connectVCallToVFns P cs vfns = foldO (connectVFn P cs) vfns"

definition resolveCPPIndCalls :: "program \<Rightarrow> pag \<Rightarrow> chgraph \<Rightarrow> nat \<Rightarrow> node_id list \<Rightarrow> 'a cg_state \<Rightarrow> 'a cg_state option" where
  "resolveCPPIndCalls P p chg cs target st =
     (if \<not> csVirtual (pCalls P cs) then None
      else do {
        vfns \<leftarrow> (if ConnectVCallOnCHA P then Some (getVFnsFromCHA chg cs []) else getVFnsFromPts P p chg cs target []);
        connectVCallToVFns P cs vfns st
      })"

definition onTheFlyCallGraphSolve :: "program \<Rightarrow> chgraph \<Rightarrow> (nat \<times> node_id) list \<Rightarrow> 's ander_scheme \<Rightarrow>
    'a cg_state \<Rightarrow> 'a cg_state option" where
  "onTheFlyCallGraphSolve P chg callsites s =
     foldO (\<lambda>(cs, fp) st.
       if csVirtual (pCalls P cs)
       then (case csVtable (pCalls P cs) of
               None \<Rightarrow> None
             | Some vtbl \<Rightarrow> resolveCPPIndCalls P (irs s) chg cs (getPts s vtbl) st)
       else resolveIndCalls P (irs s) cs (getPts s fp) st) callsites"

definition forkTarget :: "program \<Rightarrow> pag \<Rightarrow> nat \<Rightarrow> node_id \<Rightarrow> 'a thread_callgraph_scheme \<times> call_edge_map \<Rightarrow>
    ('a thread_callgraph_scheme \<times> call_edge_map) option" where
  "forkTarget P p cs i = (\<lambda>(g, newForkEdges). do {
     f \<leftarrow> functionOf P p i;
     case f of
       None \<Rightarrow> Some (g, newForkEdges)
     | Some forked \<Rightarrow>
         map_option (\<lambda>(added, h). (h, if added then addTarget cs forked newForkEdges else newForkEdges))
           (addIndirectForkEdge (pCalls P) cs forked g)
   })"

definition onTheFlyThreadCallGraphSolve :: "program \<Rightarrow> 's ander_scheme \<Rightarrow>
    'a thread_callgraph_scheme \<times> call_edge_map \<Rightarrow> ('a thread_callgraph_scheme \<times> call_edge_map) option" where
  "onTheFlyThreadCallGraphSolve P s = (\<lambda>(g, newForkEdges).
     if cgKind g = ThdCallGraph
     then foldO (\<lambda>cs st.
         case csForkedFun (pCalls P cs) of
           None \<Rightarrow> None
         | Some (FunTarget _) \<Rightarrow> Some st
         | Some (VarTarget v) \<Rightarrow> foldO (forkTarget P (irs s) cs) (getPts s v) st) (forksites g) (g, newForkEdges)
     else Some (g, newForkEdges))"

section \<open>Connecting parameters\<close>

type_synonym node_pairs = "(node_id \<times> node_id) oset"

text \<open>A copy edge between two representatives; a new one is recorded.\<close>

definition copyBetween :: "node_id \<Rightarrow> node_id \<Rightarrow> 'a ander_scheme \<times> node_pairs \<Rightarrow> ('a ander_scheme \<times> node_pairs) option" where
  "copyBetween src dst = (\<lambda>(s, cpySrcNodes).
     map_option (\<lambda>(added, s'). (s', if added then oset_insert (src, dst) cpySrcNodes else cpySrcNodes)) (addCopyEdge src dst s))"

definition connectPointers :: "node_id \<Rightarrow> node_id \<Rightarrow> 'a ander_scheme \<times> node_pairs \<Rightarrow> ('a ander_scheme \<times> node_pairs) option" where
  "connectPointers a b st =
     do {
       pa \<leftarrow> isPointer a (irs (fst st));
       pb \<leftarrow> (if pa then isPointer b (irs (fst st)) else Some False);
       if pa \<and> pb then copyBetween (rep_of (fst st) a) (rep_of (fst st) b) st else Some st
     }"

text \<open>The loop over the fixed parameters returns the arguments that are left.\<close>

fun connectArgs :: "node_id list \<Rightarrow> node_id list \<Rightarrow> 'a ander_scheme \<times> node_pairs \<Rightarrow>
    (node_id list \<times> 'a ander_scheme \<times> node_pairs) option" where
  "connectArgs [] actuals st = Some (actuals, st)"
| "connectArgs (f # formals) [] st = Some ([], st)"
| "connectArgs (f # formals) (a # actuals) st = do { st' \<leftarrow> connectPointers a f st; connectArgs formals actuals st' }"

definition connectVararg :: "node_id \<Rightarrow> node_id \<Rightarrow> 'a ander_scheme \<times> node_pairs \<Rightarrow> ('a ander_scheme \<times> node_pairs) option" where
  "connectVararg vaF a st =
     do {
       pa \<leftarrow> isPointer a (irs (fst st));
       if pa then copyBetween (rep_of (fst st) a) vaF st else Some st
     }"

text \<open>\<^verbatim>\<open>SVFIR::addDummyValNode\<close>: a value of pointer type.\<close>

definition addDummyValNode :: "pag \<Rightarrow> (node_id \<times> pag) option" where
  "addDummyValNode p =
     do {
       (i, a) \<leftarrow> allocateValueId (alloc p);
       if hasGNode i p then None
       else Some (i, p\<lparr>alloc := a, svfVars := (svfVars p)(i \<mapsto> ValVar True)\<rparr>)
     }"

text \<open>
  \<^verbatim>\<open>SVFIR::addDummyObjNode\<close>: a base object with new type information; it goes into the graph by
  \<^verbatim>\<open>addObjNode\<close> and so not into the map from objects to fields. (Type information under the
  number of an object without a node, which the code would take over, is not modelled.)
\<close>

definition addDummyObjNode :: "bool \<Rightarrow> pag \<Rightarrow> (node_id \<times> pag) option" where
  "addDummyObjNode ptr p =
     do {
       (i, a) \<leftarrow> allocateObjectId (alloc p);
       if hasGNode i p then None
       else Some (i, setNumOfElements i (MaxFieldLimit p) (p\<lparr>alloc := a, svfVars := (svfVars p)(i \<mapsto> BaseObjVar ptr False)\<rparr>))
     }"

definition newHeapObject :: "nat \<Rightarrow> bool \<Rightarrow> 'a ander_scheme \<Rightarrow> (node_id \<times> 'a ander_scheme) option" where
  "newHeapObject cs ptr s =
     do {
       (valNode, p1) \<leftarrow> addDummyValNode (irs s);
       (objNode, p2) \<leftarrow> addDummyObjNode ptr p1;
       let s1 = snd (addPts valNode objNode (s\<lparr>irs := p2\<rparr>));
       Some (valNode,
         s1\<lparr>callsite2DummyValPN := (callsite2DummyValPN s1)(cs \<mapsto> valNode),
           consCG := addConstraintNode objNode (addConstraintNode valNode (consCG s1))\<rparr>)
     }"

definition heapAllocatorViaIndCall :: "program \<Rightarrow> nat \<Rightarrow> 'a ander_scheme \<times> node_pairs \<Rightarrow> ('a ander_scheme \<times> node_pairs) option" where
  "heapAllocatorViaIndCall P cs = (\<lambda>(s, cpySrcNodes).
     if csCalled (pCalls P cs) \<noteq> None then None
     else do {
       cs_return \<leftarrow> csRet (pCalls P cs);
       (srcret, s1) \<leftarrow> (case callsite2DummyValPN s cs of
            Some v \<Rightarrow> Some (rep_of s v, s)
          | None \<Rightarrow> newHeapObject cs (csPtrTy (pCalls P cs)) s);
       copyBetween srcret (rep_of s1 cs_return) (s1, cpySrcNodes)
     })"

definition connectReturn :: "program \<Rightarrow> nat \<Rightarrow> nat \<Rightarrow> 'a ander_scheme \<times> node_pairs \<Rightarrow> ('a ander_scheme \<times> node_pairs) option" where
  "connectReturn P cs F st =
     (case (fnRet (pFuns P F), csRet (pCalls P cs)) of
        (Some fun_return, Some cs_return) \<Rightarrow>
          do {
            pc \<leftarrow> isPointer cs_return (irs (fst st));
            pf \<leftarrow> (if pc then isPointer fun_return (irs (fst st)) else Some False);
            if pc \<and> pf then copyBetween (rep_of (fst st) fun_return) (rep_of (fst st) cs_return) st else Some st
          }
      | _ \<Rightarrow> Some st)"

definition connectParams :: "program \<Rightarrow> nat \<Rightarrow> nat \<Rightarrow> 'a ander_scheme \<times> node_pairs \<Rightarrow> ('a ander_scheme \<times> node_pairs) option" where
  "connectParams P cs F st =
     (case (csArgs (pCalls P cs), fnArgs (pFuns P F)) of
        (Some csArgList, Some funArgList) \<Rightarrow>
          do {
            (rest, st1) \<leftarrow> connectArgs funArgList csArgList st;
            if fnVarArg (pFuns P F)
            then do {
              va \<leftarrow> fnVarargNode (pFuns P F);
              foldO (connectVararg (rep_of (fst st1) va)) rest st1
            }
            else Some st1
          }
      | _ \<Rightarrow> Some st)"

definition connectCaller2CalleeParams :: "program \<Rightarrow> nat \<Rightarrow> nat \<Rightarrow> 'a ander_scheme \<times> node_pairs \<Rightarrow>
    ('a ander_scheme \<times> node_pairs) option" where
  "connectCaller2CalleeParams P cs F st =
     do {
       st1 \<leftarrow> (if fnHeapAlloc (pFuns P F) \<and> csRet (pCalls P cs) \<noteq> None then heapAllocatorViaIndCall P cs st else Some st);
       st2 \<leftarrow> connectReturn P cs F st1;
       connectParams P cs F st2
     }"

definition connectCaller2ForkedFunParams :: "program \<Rightarrow> nat \<Rightarrow> nat \<Rightarrow> 'a ander_scheme \<times> node_pairs \<Rightarrow>
    ('a ander_scheme \<times> node_pairs) option" where
  "connectCaller2ForkedFunParams P cs F st =
     do {
       cs_arg \<leftarrow> getActualParmAtForkSite cs P;
       fun_arg \<leftarrow> getFormalParmOfForkedFun F P;
       connectPointers cs_arg fun_arg st
     }"

section \<open>The call graph and the solver\<close>

text \<open>The two methods a subclass overrides.\<close>

record 's connectors =
  c_params :: "program \<Rightarrow> nat \<Rightarrow> nat \<Rightarrow> 's \<times> node_pairs \<Rightarrow> ('s \<times> node_pairs) option"
  c_fork :: "program \<Rightarrow> nat \<Rightarrow> nat \<Rightarrow> 's \<times> node_pairs \<Rightarrow> ('s \<times> node_pairs) option"

definition andersen_connectors :: "'a ander_scheme connectors" where
  "andersen_connectors = \<lparr>c_params = connectCaller2CalleeParams, c_fork = connectCaller2ForkedFunParams\<rparr>"

definition connectAll :: "(nat \<Rightarrow> nat \<Rightarrow> 's \<Rightarrow> 's option) \<Rightarrow> call_edge_map \<Rightarrow> 's \<Rightarrow> 's option" where
  "connectAll connect edges = foldO (\<lambda>(cs, functions). foldO (connect cs) functions) edges"

definition updateThreadCallGraph :: "'a ander_scheme connectors \<Rightarrow> program \<Rightarrow> thread_callgraph \<Rightarrow>
    'a ander_scheme \<times> node_pairs \<Rightarrow> (bool \<times> thread_callgraph \<times> 'a ander_scheme \<times> node_pairs) option" where
  "updateThreadCallGraph ct P g st =
     do {
       (h, newForkEdges) \<leftarrow> onTheFlyThreadCallGraphSolve P (fst st) (g, []);
       st' \<leftarrow> connectAll (c_fork ct P) newForkEdges st;
       Some (newForkEdges \<noteq> [], h, st')
     }"

definition updateCallGraph :: "'a ander_scheme connectors \<Rightarrow> program \<Rightarrow> chgraph \<Rightarrow> (nat \<times> node_id) list \<Rightarrow>
    'a ander_scheme \<times> thread_callgraph \<Rightarrow> (bool \<times> 'a ander_scheme \<times> thread_callgraph) option" where
  "updateCallGraph ct P chg callsites = (\<lambda>(s, g). do {
     (newEdges, g1) \<leftarrow> onTheFlyCallGraphSolve P chg callsites s ([], g);
     st1 \<leftarrow> connectAll (c_params ct P) newEdges (s, []);
     (hasNewForkEdges, g2, s2, cpySrcNodes) \<leftarrow> updateThreadCallGraph ct P g1 st1;
     Some (newEdges \<noteq> [] \<or> hasNewForkEdges, fold (\<lambda>(src, dst). pushIntoWorklist src) cpySrcNodes s2, g2)
   })"

text \<open>
  The loop of \<^verbatim>\<open>solveConstraints\<close>, for at most \<open>k\<close> rounds; \<open>solve\<close> is the virtual method
  \<^verbatim>\<open>solveWorklist\<close>.
\<close>

primrec solveLoop :: "nat \<Rightarrow> ('a ander_scheme \<Rightarrow> 'a ander_scheme option) \<Rightarrow> 'a ander_scheme connectors \<Rightarrow> program \<Rightarrow> chgraph \<Rightarrow>
    'a ander_scheme \<times> thread_callgraph \<Rightarrow> ('a ander_scheme \<times> thread_callgraph) option" where
  "solveLoop 0 = (\<lambda>solve ct P chg st. None)"
| "solveLoop (Suc k) = (\<lambda>solve ct P chg (s, g). do {
     s1 \<leftarrow> solve (s\<lparr>numOfIteration := u32 (numOfIteration s + 1), reanalyze := False\<rparr>);
     (changed, s2, g2) \<leftarrow> updateCallGraph ct P chg (indirectCallsites P) (s1, g);
     let s3 = (if changed then s2\<lparr>reanalyze := True\<rparr> else s2);
     if reanalyze s3 then solveLoop k solve ct P chg (s3, g2) else Some (s3, g2)
   })"

text \<open>\<^verbatim>\<open>Andersen\<close> overrides the method \<^verbatim>\<open>initWorklist\<close> of \<^verbatim>\<open>WPASolver\<close> to do nothing.\<close>

definition andersen_initWorklist :: "'a ander_scheme \<Rightarrow> 'a ander_scheme" where
  "andersen_initWorklist s = s"

definition solveConstraints :: "nat \<Rightarrow> ('a ander_scheme \<Rightarrow> 'a ander_scheme option) \<Rightarrow>
    'a ander_scheme connectors \<Rightarrow> program \<Rightarrow> chgraph \<Rightarrow> 'a ander_scheme \<times> thread_callgraph \<Rightarrow>
    ('a ander_scheme \<times> thread_callgraph) option" where
  "solveConstraints k solve ct P chg = (\<lambda>(s, g). solveLoop k solve ct P chg (andersen_initWorklist s, g))"

section \<open>Cleaning up\<close>

definition cleanConsCG :: "node_id \<Rightarrow> consg \<Rightarrow> consg option" where
  "cleanConsCG i g =
     (let g1 = resetSubs (sccRepNode g i) g;
          g2 = fold resetRep (nodeToSubs g1 i) g1;
          g3 = resetRep i (resetSubs i g2)
      in if i \<in> set (cnodes g3) then None else Some g3)"

definition forgetGep :: "node_id \<Rightarrow> pag \<Rightarrow> pag option" where
  "forgetGep n p =
     (case svfVars p n of
        Some (GepObjVar base apOffset) \<Rightarrow>
          (case getBaseObjVarID n p of
             None \<Rightarrow> None
           | Some b \<Rightarrow>
               Some (p\<lparr>gepObjVarMap := (gepObjVarMap p)((b, apOffset) := None),
                       memToFields := (memToFields p)(b := filter (\<lambda>m. m \<noteq> n) (memToFields p b)),
                       svfVars := (svfVars p)(n := None)\<rparr>))
      | _ \<Rightarrow> None)"

text \<open>\<^verbatim>\<open>Andersen::normalizePointsTo\<close>\<close>

definition normalizePointsTo :: "'a ander_scheme \<Rightarrow> 'a ander_scheme option" where
  "normalizePointsTo s =
     foldO (\<lambda>n t. do {
       p \<leftarrow> forgetGep n (irs t);
       g \<leftarrow> cleanConsCG n (consCG t);
       Some (t\<lparr>irs := p, consCG := g\<rparr>)
     }) (redundantGepNodes s) s"

definition sanitizeNode :: "node_id \<Rightarrow> 'a ander_scheme \<Rightarrow> 'a ander_scheme option" where
  "sanitizeNode i s =
     do {
       fldInsenObjs \<leftarrow> foldO (\<lambda>o1 acc. map_option (\<lambda>b. if b then oset_insert o1 acc else acc) (isFieldInsensitive o1 (irs s)))
         (getPts s i) [];
       foldO (\<lambda>o1 t. map_option (\<lambda>allFields. fold (\<lambda>f u. snd (addPts i f u)) allFields t) (getAllFieldsObjVars o1 (irs t)))
         fldInsenObjs s
     }"

definition sanitizePts :: "'a ander_scheme \<Rightarrow> 'a ander_scheme option" where
  "sanitizePts s = foldO sanitizeNode (cnodes (consCG s)) s"

end
