(* ===== verification/CallGraph_Correct.thy ===== *)
theory CallGraph_Correct
  imports CallGraph
begin

text \<open>
  Facts about the call graph of theory \<open>CallGraph\<close>: the well-formedness of its tables, kept by
  every operation that adds to them, what a new edge adds to the callees of a call, and the two
  searches for reachable functions.
\<close>

section \<open>Edge flags\<close>

lemma cedgeNum_less: "cedgeNum k < 2 ^ 8"
  by (cases k) simp_all

lemma makeEdgeFlag_eq: "makeEdgeFlagWithInvokeID k cs = (cs mod 2 ^ 24) * 2 ^ 8 + cedgeNum k"
proof -
  have u: "u32 (push_bit 8 cs) = push_bit 8 (cs mod 2 ^ 24)"
    using mult_mod_right[of "2 ^ 8" cs "2 ^ 24"] by (simp add: u32_def push_bit_eq_mult mult.commute)
  have "and (push_bit 8 (cs mod 2 ^ 24)) (cedgeNum k) = 0"
  proof (rule bit_eqI)
    fix n
    have "\<not> bit (cedgeNum k) n" if "8 \<le> n"
    proof -
      have "cedgeNum k < 2 ^ n" using cedgeNum_less power_increasing[OF that, of "2 :: nat"] by (rule less_le_trans) simp
      then show ?thesis by (simp add: bit_iff_odd)
    qed
    then show "bit (and (push_bit 8 (cs mod 2 ^ 24)) (cedgeNum k)) n = bit 0 n"
      by (auto simp: bit_simps not_le)
  qed
  then show ?thesis
    unfolding makeEdgeFlagWithInvokeID_def u by (simp add: disjunctive_add_eq_or[symmetric] push_bit_eq_mult)
qed

lemma makeEdgeFlag_inj:
  "makeEdgeFlagWithInvokeID k c = makeEdgeFlagWithInvokeID k' c' \<longleftrightarrow> k = k' \<and> c mod 2 ^ 24 = c' mod 2 ^ 24"
proof
  assume e: "makeEdgeFlagWithInvokeID k c = makeEdgeFlagWithInvokeID k' c'"
  have "cedgeNum k = cedgeNum k'"
    using arg_cong[OF e[unfolded makeEdgeFlag_eq], of "\<lambda>n. n mod 2 ^ 8"] cedgeNum_less[of k] cedgeNum_less[of k'] by simp
  moreover have "k = k'" using calculation by (cases k; cases k') simp_all
  moreover have "c mod 2 ^ 24 = c' mod 2 ^ 24" using e[unfolded makeEdgeFlag_eq] calculation(1) by simp
  ultimately show "k = k' \<and> c mod 2 ^ 24 = c' mod 2 ^ 24" by blast
qed (simp add: makeEdgeFlag_eq)

section \<open>Well-formed graphs\<close>

definition insts :: "'a callgraph_scheme \<Rightarrow> nat \<Rightarrow> edge_key set" where
  "insts g cs = (case callinstToEdges g cs of None \<Rightarrow> {} | Some keys \<Rightarrow> set keys)"

definition calls :: "call_edge \<Rightarrow> nat set" where
  "calls e = set (directCalls e) \<union> set (indirectCalls e)"

definition callees :: "'a callgraph_scheme \<Rightarrow> nat \<Rightarrow> nat set" where
  "callees g cs = {f. \<exists>key \<in> insts g cs. getFunction (snd (snd key)) g = Some f}"

definition nodes_inv :: "'a callgraph_scheme \<Rightarrow> bool" where
  "nodes_inv g \<longleftrightarrow> (\<forall>f i. funToCallGraphNode g f = Some i \<longleftrightarrow> getFunction i g = Some f)
     \<and> (\<forall>i. getFunction i g \<noteq> None \<longrightarrow> i < callGraphNodeNum g)"

definition ids_inv :: "'a callgraph_scheme \<Rightarrow> bool" where
  "ids_inv g \<longleftrightarrow> (\<forall>p i. csToIdMap g p = Some i \<longleftrightarrow> idToCSMap g i = Some p)
     \<and> (\<forall>i. idToCSMap g i \<noteq> None \<longrightarrow> i < totalCallSiteNum g) \<and> totalCallSiteNum g \<le> 2 ^ 24"

definition edge_inv :: "'a callgraph_scheme \<Rightarrow> call_edge \<Rightarrow> bool" where
  "edge_inv g e \<longleftrightarrow> (\<exists>k cs f. ceFlag e = makeEdgeFlagWithInvokeID k (ceCsId e) \<and> idToCSMap g (ceCsId e) = Some (cs, f)
     \<and> getFunction (ceSrc e) g \<noteq> None \<and> getFunction (ceDst e) g = Some f \<and> calls e = {cs} \<and> ceKey e \<in> insts g cs)"

definition cg_inv :: "'a callgraph_scheme \<Rightarrow> bool" where
  "cg_inv g \<longleftrightarrow> nodes_inv g \<and> ids_inv g \<and> sorted_wrt (\<lambda>a b. ceKey a < ceKey b) (cgEdges g)
     \<and> (\<forall>e \<in> set (cgEdges g). edge_inv g e)
     \<and> (\<forall>cs. \<forall>key \<in> insts g cs. \<exists>e \<in> set (cgEdges g). ceKey e = key \<and> cs \<in> calls e)"

lemma cg_invD:
  assumes "cg_inv g"
  shows "nodes_inv g" "ids_inv g" "e \<in> set (cgEdges g) \<Longrightarrow> edge_inv g e"
    "key \<in> insts g cs \<Longrightarrow> \<exists>e \<in> set (cgEdges g). ceKey e = key \<and> cs \<in> calls e"
    "sorted_wrt (\<lambda>a b. ceKey a < ceKey b) (cgEdges g)"
  using assms unfolding cg_inv_def by blast+

lemma nodes_invD:
  assumes "nodes_inv g"
  shows "funToCallGraphNode g f = Some i \<longleftrightarrow> getFunction i g = Some f" "getFunction i g = Some f \<Longrightarrow> i < callGraphNodeNum g"
  using assms unfolding nodes_inv_def by blast+

text \<open>Parts of the graph that an operation leaves alone.\<close>

definition same_nodes_of :: "'a callgraph_scheme \<Rightarrow> 'b callgraph_scheme \<Rightarrow> bool" where
  "same_nodes_of g h \<longleftrightarrow> cgNodes h = cgNodes g \<and> funToCallGraphNode h = funToCallGraphNode g
     \<and> callGraphNodeNum h = callGraphNodeNum g"

lemma same_nodes_ofD:
  assumes "same_nodes_of g h"
  shows "getFunction i h = getFunction i g" "funToCallGraphNode h = funToCallGraphNode g" "nodes_inv h = nodes_inv g"
  using assms by (simp_all add: same_nodes_of_def getFunction_def nodes_inv_def)

subsection \<open>Call site ids\<close>

lemma addCallSite_ok:
  assumes "ids_inv g" "totalCallSiteNum g < 2 ^ 24" "addCallSite cs f g = (i, h)"
  shows "ids_inv h" "idToCSMap h i = Some (cs, f)" "i < 2 ^ 24" "csToIdMap h (cs, f) = Some i"
    "\<And>j p. idToCSMap g j = Some p \<Longrightarrow> idToCSMap h j = Some p"
    "same_nodes_of g h" "cgEdges h = cgEdges g" "callinstToEdges h = callinstToEdges g"
    "totalCallSiteNum h \<le> Suc (totalCallSiteNum g)" "indirectCallMap h = indirectCallMap g"
proof -
  have I: "csToIdMap g p = Some j \<longleftrightarrow> idToCSMap g j = Some p" "idToCSMap g j = Some p \<Longrightarrow> j < totalCallSiteNum g" for p j
    using assms(1) unfolding ids_inv_def by blast+
  have "ids_inv h \<and> idToCSMap h i = Some (cs, f) \<and> i < 2 ^ 24 \<and> csToIdMap h (cs, f) = Some i
      \<and> (\<forall>j p. idToCSMap g j = Some p \<longrightarrow> idToCSMap h j = Some p)
      \<and> same_nodes_of g h \<and> cgEdges h = cgEdges g \<and> callinstToEdges h = callinstToEdges g
      \<and> totalCallSiteNum h \<le> Suc (totalCallSiteNum g) \<and> indirectCallMap h = indirectCallMap g"
  proof (cases "csToIdMap g (cs, f)")
    case None
    let ?i = "totalCallSiteNum g"
    have n: "idToCSMap g ?i = None" using I(2)[of ?i] by (cases "idToCSMap g ?i") auto
    have h: "i = ?i" "h = g\<lparr>totalCallSiteNum := Suc ?i, csToIdMap := (csToIdMap g)((cs, f) \<mapsto> ?i), idToCSMap := (idToCSMap g)(?i \<mapsto> (cs, f))\<rparr>"
      using assms(2,3) None n by (auto simp: addCallSite_def Let_def)
    have "idToCSMap g j \<noteq> Some (cs, f)" for j using I(1)[of "(cs, f)" j] None by simp
    moreover have "csToIdMap g p \<noteq> Some ?i" for p using I(1)[of p ?i] n by simp
    ultimately have "ids_inv h"
      using I assms(2) unfolding ids_inv_def h by (auto simp: less_Suc_eq)
    then show ?thesis using n assms(2) by (auto simp: h same_nodes_of_def)
  next
    case (Some j)
    then have "h = g" "i = j" using assms(3) by (simp_all add: addCallSite_def)
    then show ?thesis using assms(1,2) Some I[where p = "(cs, f)" and j = j] by (auto simp: same_nodes_of_def)
  qed
  then show "ids_inv h" "idToCSMap h i = Some (cs, f)" "i < 2 ^ 24" "csToIdMap h (cs, f) = Some i"
    "\<And>j p. idToCSMap g j = Some p \<Longrightarrow> idToCSMap h j = Some p"
    "same_nodes_of g h" "cgEdges h = cgEdges g" "callinstToEdges h = callinstToEdges g"
    "totalCallSiteNum h \<le> Suc (totalCallSiteNum g)" "indirectCallMap h = indirectCallMap g"
    by blast+
qed

text \<open>Growth of the tables keeps the edges well formed.\<close>

lemma cg_inv_grow:
  assumes "cg_inv g" "ids_inv h" "nodes_inv h" "cgEdges h = cgEdges g" "callinstToEdges h = callinstToEdges g"
    and "\<And>j p. idToCSMap g j = Some p \<Longrightarrow> idToCSMap h j = Some p"
    and "\<And>n f. getFunction n g = Some f \<Longrightarrow> getFunction n h = Some f"
  shows "cg_inv h"
proof -
  have i: "insts h = insts g" by (simp add: insts_def fun_eq_iff assms(5))
  have "edge_inv h e" if "edge_inv g e" for e
    using that assms(6,7) unfolding edge_inv_def i by fast
  then show ?thesis using assms(1-4) unfolding cg_inv_def i by simp
qed

subsection \<open>New edges\<close>

lemma hasGraphEdge_None: "hasGraphEdge a b k c g = None \<longleftrightarrow> (makeEdgeFlagWithInvokeID k c, a, b) \<notin> ceKey ` set (cgEdges g)"
  by (force simp: hasGraphEdge_def find_None_iff image_iff)

lemma hasGraphEdge_Some:
  "hasGraphEdge a b k c g = Some e \<Longrightarrow> e \<in> set (cgEdges g) \<and> ceKey e = (makeEdgeFlagWithInvokeID k c, a, b)"
  by (auto simp: hasGraphEdge_def find_Some_iff)

lemma insts_insert:
  "insts (insertCallInst cs e g) cs' = (if cs' = cs then insert (ceKey e) (insts g cs) else insts g cs')"
  by (simp add: insts_def insertCallInst_def insertKey_def split: option.split)

text \<open>An edge already there, found by its key, is one for the same call and callee.\<close>

lemma found_edge:
  assumes "cg_inv g" "hasGraphEdge a b k i g = Some e" "idToCSMap g i = Some (cs, f)" "i < 2 ^ 24"
  shows "(makeEdgeFlagWithInvokeID k i, a, b) \<in> insts g cs" "cs \<in> calls e"
proof -
  have e: "e \<in> set (cgEdges g)" "ceKey e = (makeEdgeFlagWithInvokeID k i, a, b)" using hasGraphEdge_Some[OF assms(2)] by blast+
  then obtain k' cs' f' where e': "ceFlag e = makeEdgeFlagWithInvokeID k' (ceCsId e)" "idToCSMap g (ceCsId e) = Some (cs', f')"
      "calls e = {cs'}" "ceKey e \<in> insts g cs'"
    using cg_invD(3)[OF assms(1)] unfolding edge_inv_def by blast
  have "makeEdgeFlagWithInvokeID k i = makeEdgeFlagWithInvokeID k' (ceCsId e)" using e(2) e'(1) by (simp add: ceKey_def)
  then have "i mod 2 ^ 24 = ceCsId e mod 2 ^ 24" by (simp add: makeEdgeFlag_inj)
  moreover have "ceCsId e < 2 ^ 24"
    using cg_invD(2)[OF assms(1)] e'(2) unfolding ids_inv_def by (metis less_le_trans option.discI)
  ultimately have "ceCsId e = i" using assms(4) by simp
  then have "cs' = cs" using e'(2) assms(3) by simp
  then show "(makeEdgeFlagWithInvokeID k i, a, b) \<in> insts g cs" "cs \<in> calls e" using e' e(2) by simp_all
qed

lemma strict_keys: "sorted_wrt (\<lambda>a b. f a < f b) xs \<longleftrightarrow> sorted (map f xs) \<and> distinct (map f xs)"
  using strict_sorted_iff[of "map f xs"] unfolding sorted_wrt_map .

lemma distinct_insort_key: "distinct (map f (insort_key f x xs)) \<longleftrightarrow> f x \<notin> f ` set xs \<and> distinct (map f xs)"
  by (induction xs) (auto simp: set_insort_key)

lemma insertNew:
  assumes inv: "cg_inv g" and e: "ceFlag e = makeEdgeFlagWithInvokeID k (ceCsId e)" "idToCSMap g (ceCsId e) = Some (cs, f)"
      "getFunction (ceSrc e) g \<noteq> None" "getFunction (ceDst e) g = Some f" "calls e = {cs}"
    and new: "ceKey e \<notin> ceKey ` set (cgEdges g)"
  shows "cg_inv (insertCallInst cs e (addCallEdge e g))"
    "callees (insertCallInst cs e (addCallEdge e g)) cs' = (if cs' = cs then insert f (callees g cs) else callees g cs')"
proof -
  let ?h = "insertCallInst cs e (addCallEdge e g)"
  have g: "cgEdges ?h = insort_key ceKey e (cgEdges g)" "getFunction n ?h = getFunction n g" "idToCSMap ?h = idToCSMap g"
    "csToIdMap ?h = csToIdMap g" "totalCallSiteNum ?h = totalCallSiteNum g" "nodes_inv ?h = nodes_inv g" for n
    using new by (simp_all add: addCallEdge_def insertCallInst_def getFunction_def nodes_inv_def)
  have s: "set (cgEdges ?h) = insert e (set (cgEdges g))" by (simp add: g(1) set_insort_key)
  have i: "insts ?h cs' = (if cs' = cs then insert (ceKey e) (insts g cs) else insts g cs')" for cs'
    using new by (simp add: insts_insert addCallEdge_def) (simp add: insts_def)
  have "sorted (map ceKey (cgEdges ?h)) \<and> distinct (map ceKey (cgEdges ?h))"
  proof -
    have "sorted (map ceKey (cgEdges g)) \<and> distinct (map ceKey (cgEdges g))"
      using cg_invD(5)[OF inv] unfolding strict_keys .
    then show ?thesis using new unfolding g(1) distinct_insort_key sorted_insort_key by blast
  qed
  then have so: "sorted_wrt (\<lambda>a b. ceKey a < ceKey b) (cgEdges ?h)"
    unfolding strict_keys .
  have "edge_inv ?h e" unfolding edge_inv_def g i using e by auto
  moreover have "edge_inv ?h x" if "x \<in> set (cgEdges g)" for x
    using cg_invD(3)[OF inv that] unfolding edge_inv_def g i by fastforce
  moreover have "\<exists>x \<in> set (cgEdges ?h). ceKey x = key \<and> c \<in> calls x" if "key \<in> insts ?h c" for key c
  proof (cases "key \<in> insts g c")
    case True
    then show ?thesis using cg_invD(4)[OF inv] unfolding s by blast
  next
    case False
    then have "key = ceKey e" "c = cs" using that unfolding i by (auto split: if_splits)
    then show ?thesis using e(5) unfolding s by blast
  qed
  moreover have "nodes_inv ?h" "ids_inv ?h" using cg_invD(1,2)[OF inv] by (simp_all add: ids_inv_def g(3-6))
  ultimately show "cg_inv ?h" using so unfolding cg_inv_def s by auto
  show "callees ?h cs' = (if cs' = cs then insert f (callees g cs) else callees g cs')"
    unfolding callees_def i g(2) using e(4) by (auto simp: ceKey_def)
qed

lemma addDirectCallSite_calls:
  "addDirectCallSite C cs e = Some e' \<Longrightarrow> calls e = {} \<Longrightarrow> calls e' = {cs} \<and> ceKey e' = ceKey e \<and> ceFlag e' = ceFlag e
    \<and> ceCsId e' = ceCsId e \<and> ceSrc e' = ceSrc e \<and> ceDst e' = ceDst e"
  by (auto simp: addDirectCallSite_def calls_def ceKey_def split: if_splits)

lemma addInDirectCallSite_calls:
  "addInDirectCallSite C cs e = Some e' \<Longrightarrow> calls e = {} \<Longrightarrow> calls e' = {cs} \<and> ceKey e' = ceKey e \<and> ceFlag e' = ceFlag e
    \<and> ceCsId e' = ceCsId e \<and> ceSrc e' = ceSrc e \<and> ceDst e' = ceDst e"
  by (auto simp: addInDirectCallSite_def calls_def ceKey_def split: if_splits)

text \<open>
  The common part of the functions that add an edge: the edge for the call and the callee is
  there afterwards, and nothing else is. \<open>mark\<close> puts the call into one of the edge's sets.
\<close>

definition linkCall :: "(call_edge \<Rightarrow> call_edge option) \<Rightarrow> nat \<Rightarrow> node_id \<Rightarrow> node_id \<Rightarrow> call_edge_kind \<Rightarrow> nat \<Rightarrow>
    'a callgraph_scheme \<Rightarrow> 'a callgraph_scheme option" where
  "linkCall mark cs a b k f g =
     (let (csId, g1) = addCallSite cs f g in
      if hasGraphEdge a b k csId g1 \<noteq> None then Some g1
      else do {
        edge \<leftarrow> mark (newCallEdge a b k csId);
        Some (insertCallInst cs edge (addCallEdge edge g1))
      })"

text \<open>What adding the edge for a call and a callee makes of the graph.\<close>

definition adds_callee :: "'a callgraph_scheme \<Rightarrow> nat \<Rightarrow> nat \<Rightarrow> 'b callgraph_scheme \<Rightarrow> bool" where
  "adds_callee g cs f h \<longleftrightarrow> cg_inv h \<and> (\<forall>cs'. callees h cs' = (if cs' = cs then insert f (callees g cs) else callees g cs'))
     \<and> same_nodes_of g h \<and> totalCallSiteNum h \<le> Suc (totalCallSiteNum g) \<and> indirectCallMap h = indirectCallMap g"

lemma linkCall_ok:
  assumes inv: "cg_inv g" and t: "totalCallSiteNum g < 2 ^ 24"
    and ab: "getFunction a g \<noteq> None" "getFunction b g = Some f"
    and mark: "\<And>e e'. mark e = Some e' \<Longrightarrow> calls e = {} \<Longrightarrow> calls e' = {cs} \<and> ceKey e' = ceKey e \<and> ceFlag e' = ceFlag e
      \<and> ceCsId e' = ceCsId e \<and> ceSrc e' = ceSrc e \<and> ceDst e' = ceDst e"
    and h: "linkCall mark cs a b k f g = Some h"
  shows "adds_callee g cs f h"
proof -
  obtain i g1 where a: "addCallSite cs f g = (i, g1)" by (cases "addCallSite cs f g")
  note A = addCallSite_ok[OF cg_invD(2)[OF inv] t a]
  have i1: "cg_inv g1"
    by (rule cg_inv_grow[OF inv A(1) _ A(7,8,5)]) (simp_all add: same_nodes_ofD[OF A(6)] cg_invD(1)[OF inv])
  have c1: "callees g1 = callees g" by (simp add: callees_def insts_def A(8) same_nodes_ofD[OF A(6)] fun_eq_iff)
  show ?thesis
  proof (cases "hasGraphEdge a b k i g1")
    case (Some e)
    have hg: "h = g1" using h a Some by (simp add: linkCall_def)
    have "(makeEdgeFlagWithInvokeID k i, a, b) \<in> insts g1 cs" using found_edge(1)[OF i1 Some A(2,3)] .
    then have "f \<in> callees g1 cs" using ab(2) unfolding callees_def same_nodes_ofD(1)[OF A(6)] by force
    then show ?thesis using i1 A(6,9,10) by (auto simp: adds_callee_def hg c1)
  next
    case None
    obtain e where e: "mark (newCallEdge a b k i) = Some e" "h = insertCallInst cs e (addCallEdge e g1)"
      using h a None by (auto simp: linkCall_def Option.bind_eq_Some_conv)
    have n: "calls (newCallEdge a b k i) = {}" by (simp add: newCallEdge_def calls_def)
    note m = mark[OF e(1) n]
    have new: "ceKey e \<notin> ceKey ` set (cgEdges g1)"
      using None m by (simp add: hasGraphEdge_None newCallEdge_def ceKey_def)
    have f: "ceFlag e = makeEdgeFlagWithInvokeID k (ceCsId e)" "idToCSMap g1 (ceCsId e) = Some (cs, f)"
      "getFunction (ceSrc e) g1 \<noteq> None" "getFunction (ceDst e) g1 = Some f" "calls e = {cs}"
      using m ab A(2) by (simp_all add: newCallEdge_def same_nodes_ofD[OF A(6)])
    have "same_nodes_of g1 h" "totalCallSiteNum h = totalCallSiteNum g1" "indirectCallMap h = indirectCallMap g1"
      by (simp_all add: e(2) same_nodes_of_def insertCallInst_def addCallEdge_def)
    then show ?thesis using insertNew[OF i1 f new] A(6,9,10) unfolding e(2)[symmetric] c1 adds_callee_def by (auto simp: same_nodes_of_def)
  qed
qed

lemma addDirectCallGraphEdge_link:
  "addDirectCallGraphEdge C cs p f g =
     do { a \<leftarrow> funToCallGraphNode g p; b \<leftarrow> funToCallGraphNode g f; linkCall (addDirectCallSite C cs) cs a b CallRetEdge f g }"
  by (simp add: addDirectCallGraphEdge_def linkCall_def)

lemma addIndirectCallGraphEdge_link:
  assumes "nodes_inv g"
  shows "addIndirectCallGraphEdge C cs p f g =
     do { a \<leftarrow> funToCallGraphNode g p; b \<leftarrow> funToCallGraphNode g f;
          linkCall (addInDirectCallSite C cs) cs a b CallRetEdge f (g\<lparr>numOfResolvedIndCallEdge := u32 (numOfResolvedIndCallEdge g + 1)\<rparr>) }"
proof -
  have "getFunction b (g\<lparr>numOfResolvedIndCallEdge := n\<rparr>) = Some f" if "funToCallGraphNode g f = Some b" for b n
    using that nodes_invD(1)[OF assms, of f b] by (simp add: getFunction_def)
  then show ?thesis
    by (cases "funToCallGraphNode g p"; cases "funToCallGraphNode g f") (simp_all add: addIndirectCallGraphEdge_def linkCall_def Let_def)
qed

lemma cg_inv_counter:
  assumes "cg_inv g"
  shows "cg_inv (g\<lparr>numOfResolvedIndCallEdge := n\<rparr>)"
proof (rule cg_inv_grow[OF assms])
  from cg_invD(1,2)[OF assms] show "ids_inv (g\<lparr>numOfResolvedIndCallEdge := n\<rparr>)" "nodes_inv (g\<lparr>numOfResolvedIndCallEdge := n\<rparr>)"
    by (simp_all add: ids_inv_def nodes_inv_def getFunction_def)
qed (simp_all add: getFunction_def)

lemma insts_node:
  assumes "cg_inv g" "key \<in> insts g cs"
  obtains f where "getFunction (snd (snd key)) g = Some f"
proof -
  obtain e where e: "e \<in> set (cgEdges g)" "ceKey e = key" using cg_invD(4)[OF assms] by blast
  then obtain f where "getFunction (ceDst e) g = Some f" using cg_invD(3)[OF assms(1)] unfolding edge_inv_def by blast
  then show thesis using that e(2) by (auto simp: ceKey_def)
qed

lemma addDirectCallGraphEdge_ok:
  assumes inv: "cg_inv g" and t: "totalCallSiteNum g < 2 ^ 24" and h: "addDirectCallGraphEdge C cs p f g = Some h"
  shows "adds_callee g cs f h"
proof -
  obtain a b where ab: "funToCallGraphNode g p = Some a" "funToCallGraphNode g f = Some b"
      "linkCall (addDirectCallSite C cs) cs a b CallRetEdge f g = Some h"
    using h unfolding addDirectCallGraphEdge_link by (auto simp: Option.bind_eq_Some_conv)
  have n: "getFunction a g \<noteq> None" "getFunction b g = Some f" using ab(1,2) nodes_invD(1)[OF cg_invD(1)[OF inv]] by auto
  show ?thesis by (rule linkCall_ok[OF inv t n addDirectCallSite_calls ab(3)])
qed

lemma addIndirectCallGraphEdge_ok:
  assumes inv: "cg_inv g" and t: "totalCallSiteNum g < 2 ^ 24" and h: "addIndirectCallGraphEdge C cs p f g = Some h"
  shows "adds_callee g cs f h"
proof -
  let ?g = "g\<lparr>numOfResolvedIndCallEdge := u32 (numOfResolvedIndCallEdge g + 1)\<rparr>"
  have g: "getFunction i ?g = getFunction i g" "totalCallSiteNum ?g = totalCallSiteNum g" "callees ?g = callees g"
    "indirectCallMap ?g = indirectCallMap g" "same_nodes_of ?g h = same_nodes_of g h" for i
    by (simp_all add: getFunction_def callees_def insts_def same_nodes_of_def fun_eq_iff)
  obtain a b where ab: "funToCallGraphNode g p = Some a" "funToCallGraphNode g f = Some b"
      "linkCall (addInDirectCallSite C cs) cs a b CallRetEdge f ?g = Some h"
    using h unfolding addIndirectCallGraphEdge_link[OF cg_invD(1)[OF inv]] by (auto simp: Option.bind_eq_Some_conv)
  have n: "getFunction a ?g \<noteq> None" "getFunction b ?g = Some f"
    unfolding g using ab(1,2) nodes_invD(1)[OF cg_invD(1)[OF inv]] by auto
  have t': "totalCallSiteNum ?g < 2 ^ 24" using t by simp
  have "adds_callee ?g cs f h" by (rule linkCall_ok[OF cg_inv_counter[OF inv] t' n addInDirectCallSite_calls ab(3)])
  then show ?thesis unfolding adds_callee_def g .
qed

text \<open>When the two functions have nodes and the call qualifies, adding its edge succeeds.\<close>

lemma linkCall_succeeds:
  assumes "\<And>e. mark e \<noteq> None"
  shows "linkCall mark cs a b k f g \<noteq> None"
proof -
  obtain e where "mark (newCallEdge a b k (fst (addCallSite cs f g))) = Some e" using assms by blast
  then show ?thesis by (simp add: linkCall_def case_prod_beta Let_def)
qed

lemma addCallGraphNode_ok:
  assumes inv: "cg_inv g" and f: "funToCallGraphNode g f = None" and n: "callGraphNodeNum g < 2 ^ 32 - 1"
  shows "cg_inv (addCallGraphNode f g)" "callees (addCallGraphNode f g) = callees g"
proof -
  let ?i = "callGraphNodeNum g" and ?h = "addCallGraphNode f g"
  note N = nodes_invD[OF cg_invD(1)[OF inv]]
  have u: "u32 (?i + 1) = Suc ?i" using n by simp
  have fresh: "getFunction ?i g = None" using N(2)[of ?i] by (cases "getFunction ?i g") auto
  have h: "getFunction j ?h = (if j = ?i then Some f else getFunction j g)"
    "funToCallGraphNode ?h = (funToCallGraphNode g)(f \<mapsto> ?i)" "callGraphNodeNum ?h = Suc ?i" for j
    using u by (simp_all add: addCallGraphNode_def getFunction_def Let_def)
  have g: "cgEdges ?h = cgEdges g" "callinstToEdges ?h = callinstToEdges g" "idToCSMap ?h = idToCSMap g"
    "csToIdMap ?h = csToIdMap g" "totalCallSiteNum ?h = totalCallSiteNum g"
    by (simp_all add: addCallGraphNode_def Let_def)
  have nf: "getFunction j g \<noteq> Some f" for j using N(1)[of f j] f by simp
  have "nodes_inv ?h"
    unfolding nodes_inv_def h
  proof (intro conjI allI impI)
    fix f' j
    show "(((funToCallGraphNode g)(f \<mapsto> ?i)) f' = Some j) = ((if j = ?i then Some f else getFunction j g) = Some f')"
      using N(1)[of f' j] nf[of j] fresh by auto
  next
    fix j assume "(if j = ?i then Some f else getFunction j g) \<noteq> None"
    then show "j < Suc ?i" using N(2)[of j] by (auto split: if_splits)
  qed
  moreover have "ids_inv ?h" using cg_invD(2)[OF inv] by (simp add: ids_inv_def g)
  moreover have "getFunction j g = Some f' \<Longrightarrow> getFunction j ?h = Some f'" for j f' using fresh by (auto simp: h)
  ultimately show "cg_inv ?h" using cg_inv_grow[OF inv, of ?h] g(1-3) by simp
  have "getFunction (snd (snd key)) g \<noteq> None" if "key \<in> insts g cs" for key cs
    by (rule insts_node[OF inv that]) simp
  then have "snd (snd key) \<noteq> ?i" if "key \<in> insts g cs" for key cs using that fresh by metis
  then show "callees ?h = callees g" unfolding callees_def h fun_eq_iff by (auto simp: insts_def g)
qed

lemma new_callgraph_inv: "cg_inv (new_callgraph k)"
  by (simp add: cg_inv_def nodes_inv_def ids_inv_def new_callgraph_def insts_def getFunction_def)

section \<open>Callers and callees\<close>

lemma getCallees_eq:
  assumes "cg_inv g"
  shows "\<exists>s'. getCallees cs g s = Some s' \<and> set s' = set s \<union> callees g cs"
proof (cases "callinstToEdges g cs")
  case None
  then show ?thesis by (simp add: getCallees_def callees_def insts_def)
next
  case (Some keys)
  have f: "\<exists>f. getFunction (snd (snd key)) g = Some f" if "key \<in> set keys" for key
  proof -
    have "key \<in> insts g cs" using that Some by (simp add: insts_def)
    from insts_node[OF assms this] show ?thesis by blast
  qed
  have "\<exists>s'. foldO (\<lambda>(flag, src, dst) s. map_option (\<lambda>f. oset_insert f s) (getFunction dst g)) ks s = Some s'
      \<and> set s' = set s \<union> {f. \<exists>key \<in> set ks. getFunction (snd (snd key)) g = Some f}" if "set ks \<subseteq> set keys" for ks s
    using that
  proof (induction ks arbitrary: s)
    case (Cons key ks)
    obtain f' where f': "getFunction (snd (snd key)) g = Some f'" using f[of key] Cons.prems by auto
    obtain s' where s': "foldO (\<lambda>(flag, src, dst) s. map_option (\<lambda>f. oset_insert f s) (getFunction dst g)) ks (oset_insert f' s) = Some s'"
        "set s' = set (oset_insert f' s) \<union> {f. \<exists>key \<in> set ks. getFunction (snd (snd key)) g = Some f}"
      using Cons.IH[of "oset_insert f' s"] Cons.prems by auto
    obtain flag src dst where k: "key = (flag, src, dst)" by (cases key)
    show ?case using f' s' unfolding k by (intro exI[of _ s']) auto
  qed simp
  from this[of keys s] show ?thesis using Some by (simp add: getCallees_def callees_def insts_def)
qed

lemma set_fold_insert_all:
  "set (fold (\<lambda>e s. oset_insert_all (B e) (oset_insert_all (A e) s)) es s) = set s \<union> (\<Union>e \<in> set es. set (A e) \<union> set (B e))"
  by (induction es arbitrary: s) auto

lemma callers_iff:
  assumes "cg_inv g" "funToCallGraphNode g f = Some n"
  shows "(\<exists>e \<in> set (inEdges n g). cs \<in> calls e) \<longleftrightarrow> f \<in> callees g cs"
proof -
  have n: "getFunction n g = Some f" using assms(2) nodes_invD(1)[OF cg_invD(1)[OF assms(1)]] by simp
  have n': "m = n" if "getFunction m g = Some f" for m
    using that assms(2) nodes_invD(1)[OF cg_invD(1)[OF assms(1)], of f m] by simp
  show ?thesis
  proof
    assume "\<exists>e \<in> set (inEdges n g). cs \<in> calls e"
    then obtain e where e: "e \<in> set (cgEdges g)" "ceDst e = n" "cs \<in> calls e" by (auto simp: inEdges_def)
    then have "ceKey e \<in> insts g cs" using cg_invD(3)[OF assms(1) e(1)] unfolding edge_inv_def by auto
    then show "f \<in> callees g cs" using n e(2) unfolding callees_def by (force simp: ceKey_def)
  next
    assume "f \<in> callees g cs"
    then obtain key where key: "key \<in> insts g cs" "getFunction (snd (snd key)) g = Some f" unfolding callees_def by blast
    obtain e where e: "e \<in> set (cgEdges g)" "ceKey e = key" "cs \<in> calls e" using cg_invD(4)[OF assms(1) key(1)] by blast
    then have "ceDst e = n" using n'[OF key(2)] by (auto simp: ceKey_def)
    then show "\<exists>e \<in> set (inEdges n g). cs \<in> calls e" using e by (auto simp: inEdges_def)
  qed
qed

section \<open>Reachability\<close>

definition callRel :: "'a callgraph_scheme \<Rightarrow> (node_id \<times> node_id) set" where
  "callRel g = (\<lambda>e. (ceSrc e, ceDst e)) ` set (cgEdges g)"

lemma callRel_inEdges: "(u, v) \<in> callRel g \<longleftrightarrow> u \<in> ceSrc ` set (inEdges v g)"
  by (force simp: callRel_def inEdges_def)

lemma edge_ends:
  assumes "cg_inv g" "e \<in> set (cgEdges g)"
  shows "getFunction (ceSrc e) g \<noteq> None" "getFunction (ceDst e) g \<noteq> None"
  using cg_invD(3)[OF assms] unfolding edge_inv_def by auto

subsection \<open>Between two functions\<close>

lemma fold_pushUnvisited:
  assumes "fold pushUnvisited es (stack, visited) = (stack', visited')"
  shows "set visited' = set visited \<union> ceSrc ` set es" "set stack' = set stack \<union> (ceSrc ` set es - set visited)"
proof -
  have "set visited' = set visited \<union> ceSrc ` set es \<and> set stack' = set stack \<union> (ceSrc ` set es - set visited)"
    using assms
  proof (induction es arbitrary: stack visited)
    case (Cons e es)
    show ?case
    proof (cases "ceSrc e \<in> set visited")
      case True
      then have "pushUnvisited e (stack, visited) = (stack, visited)" by (simp add: pushUnvisited_def)
      then have "fold pushUnvisited es (stack, visited) = (stack', visited')" using Cons.prems by simp
      from Cons.IH[OF this] show ?thesis using True by auto
    next
      case False
      have "pushUnvisited e (stack, visited) = (ceSrc e # stack, oset_insert (ceSrc e) visited)"
        using False by (simp add: pushUnvisited_def)
      then have "fold pushUnvisited es (ceSrc e # stack, oset_insert (ceSrc e) visited) = (stack', visited')"
        using Cons.prems by simp
      from Cons.IH[OF this] show ?thesis using False by auto
    qed
  qed simp
  then show "set visited' = set visited \<union> ceSrc ` set es" "set stack' = set stack \<union> (ceSrc ` set es - set visited)" by blast+
qed

text \<open>
  The invariant of the search: what has been visited leads to the target, what is visited and no
  longer on the stack is not the function looked for and has its callers visited.
\<close>

lemma reachLoop_correct:
  assumes "set stack \<subseteq> set visited" "\<forall>v \<in> set visited. (v, n) \<in> (callRel g)\<^sup>* \<and> getFunction v g \<noteq> None"
    and "\<forall>v \<in> set visited - set stack. getFunction v g \<noteq> Some f \<and> (\<forall>u. (u, v) \<in> callRel g \<longrightarrow> u \<in> set visited)"
    and "n \<in> set visited" "\<forall>(u, v) \<in> callRel g. getFunction u g \<noteq> None"
  shows "reachLoop g f stack visited = Some (\<exists>u. getFunction u g = Some f \<and> (u, n) \<in> (callRel g)\<^sup>*)"
  using assms
proof (induction g f stack visited rule: reachLoop.induct)
  case (1 g f visited)
  have closed: "getFunction v g \<noteq> Some f" "\<forall>u. (u, v) \<in> callRel g \<longrightarrow> u \<in> set visited" if "v \<in> set visited" for v
    using 1(3) that by simp_all
  have "u \<in> set visited" if "(u, n) \<in> (callRel g)\<^sup>*" for u
    using that by (induction rule: converse_rtrancl_induct) (use 1(4) closed(2) in blast)+
  then have "\<not> (\<exists>u. getFunction u g = Some f \<and> (u, n) \<in> (callRel g)\<^sup>*)" using closed(1) by blast
  then show ?case by simp
next
  case (2 g f v stack visited)
  have v: "v \<in> set visited" using "2.prems"(1) by simp
  then obtain f' where f': "getFunction v g = Some f'" using "2.prems"(2) by auto
  show ?case
  proof (cases "f' = f")
    case True
    then show ?thesis using f' v "2.prems"(2) by auto
  next
    case False
    obtain stack' visited' where p: "fold pushUnvisited (inEdges v g) (stack, visited) = (stack', visited')" by fastforce
    note q = fold_pushUnvisited[OF p]
    have r: "reachLoop g f (v # stack) visited = reachLoop g f stack' visited'" using f' False p by simp
    have src: "ceSrc ` set (inEdges v g) = {u. (u, v) \<in> callRel g}" by (auto simp: callRel_inEdges)
    show ?thesis
      unfolding r
    proof (rule "2.IH"[OF f' False p[symmetric] refl])
      show "set stack' \<subseteq> set visited'" using q "2.prems"(1) by auto
      show "n \<in> set visited'" using q "2.prems"(4) by auto
      show "\<forall>(u, v) \<in> callRel g. getFunction u g \<noteq> None" by (rule "2.prems"(5))
      have "(u, n) \<in> (callRel g)\<^sup>* \<and> getFunction u g \<noteq> None" if "(u, v) \<in> callRel g" for u
      proof -
        have "(u, n) \<in> (callRel g)\<^sup>*" using that v "2.prems"(2) by (blast intro: converse_rtrancl_into_rtrancl)
        moreover have "getFunction u g \<noteq> None" using that "2.prems"(5) by blast
        ultimately show ?thesis by blast
      qed
      then show "\<forall>w \<in> set visited'. (w, n) \<in> (callRel g)\<^sup>* \<and> getFunction w g \<noteq> None"
        using "2.prems"(2) q(1) src by auto
      show "\<forall>w \<in> set visited' - set stack'. getFunction w g \<noteq> Some f \<and> (\<forall>u. (u, w) \<in> callRel g \<longrightarrow> u \<in> set visited')"
      proof
        fix w assume w: "w \<in> set visited' - set stack'"
        show "getFunction w g \<noteq> Some f \<and> (\<forall>u. (u, w) \<in> callRel g \<longrightarrow> u \<in> set visited')"
        proof (cases "w = v")
          case True
          then show ?thesis using f' False q(1) src by auto
        next
          case nv: False
          then have "w \<in> set visited - set (v # stack)" using w unfolding q by auto
          from bspec[OF "2.prems"(3) this] show ?thesis unfolding q(1) by blast
        qed
      qed
    qed
  qed
qed

subsection \<open>From the entry of the program\<close>

definition fromEntry :: "(nat \<Rightarrow> 'b fun_obj_scheme) \<Rightarrow> 'a callgraph_scheme \<Rightarrow> node_id \<Rightarrow> bool" where
  "fromEntry F g v \<longleftrightarrow> (\<exists>u f. getFunction u g = Some f \<and> isProgEntryFunction F f \<and> (u, v) \<in> (callRel g)\<^sup>*)"

lemma fromEntry_step: "fromEntry F g u \<Longrightarrow> (u, v) \<in> callRel g \<Longrightarrow> fromEntry F g v"
  unfolding fromEntry_def by (meson rtrancl.rtrancl_into_rtrancl)

lemma fromEntry_edge: "e \<in> set (inEdges v g) \<Longrightarrow> fromEntry F g (ceSrc e) \<Longrightarrow> fromEntry F g v"
  by (erule fromEntry_step) (auto simp: callRel_inEdges)

text \<open>A search never claims too much, whatever it was started with.\<close>

lemma entryDfs_sound:
  assumes "entryDfs k F g v (R, V) = Some (b, R', V')" "\<forall>x. R x \<longrightarrow> fromEntry F g x"
  shows "(b \<longrightarrow> fromEntry F g v) \<and> (\<forall>x. R' x \<longrightarrow> fromEntry F g x)"
  using assms
proof (induction k arbitrary: v R V b R' V')
  case (Suc k)
  show ?case
  proof (cases "v \<in> set V")
    case True
    then show ?thesis using Suc.prems by auto
  next
    case nv: False
    obtain f where f: "getFunction v g = Some f" using Suc.prems(1) nv by (cases "getFunction v g") auto
    show ?thesis
    proof (cases "isProgEntryFunction F f")
      case True
      then have "fromEntry F g v" using f unfolding fromEntry_def by blast
      moreover have "b" "R' = R(v := True)" using Suc.prems(1) nv f True by auto
      ultimately show ?thesis using Suc.prems(2) by (simp add: fun_upd_def)
    next
      case False
      let ?f = "\<lambda>(edge :: call_edge) (result, st :: dfs_state). if result then Some (result, st) else entryDfs k F g (ceSrc edge) st"
      let ?I = "\<lambda>(result, st :: dfs_state). (result \<longrightarrow> fromEntry F g v) \<and> (\<forall>x. fst st x \<longrightarrow> fromEntry F g x)"
      obtain r R1 V1 where l: "foldO ?f (inEdges v g) (False, R, oset_insert v V) = Some (r, R1, V1)"
          "b = r" "R' = R1(v := r)"
        using Suc.prems(1) nv f False by (auto simp: Option.bind_eq_Some_conv)
      have "?I (r, R1, V1)"
      proof (rule foldO_partial[OF l(1)])
        show "?I (False, R, oset_insert v V)" using Suc.prems(2) by simp
      next
        fix e s s' assume e: "e \<in> set (inEdges v g)" and I: "?I s" and s': "?f e s = Some s'"
        obtain r2 R2 V2 where s: "s = (r2, R2, V2)" by (cases s)
        obtain r3 R3 V3 where s3: "s' = (r3, R3, V3)" by (cases s')
        show "?I s'"
        proof (cases r2)
          case True
          then have "s' = s" using s' s by simp
          then show ?thesis using I by simp
        next
          case False
          then have "entryDfs k F g (ceSrc e) (R2, V2) = Some (r3, R3, V3)" using s' s s3 by simp
          from Suc.IH[OF this] show ?thesis using I fromEntry_edge[OF e] unfolding s s3 by auto
        qed
      qed
      then show ?thesis using l(2,3) by auto
    qed
  qed
qed simp

text \<open>A search that answers no, started without any positive answer, has visited a closed set without an entry.\<close>

definition closedAt :: "(nat \<Rightarrow> 'b fun_obj_scheme) \<Rightarrow> 'a callgraph_scheme \<Rightarrow> node_id set \<Rightarrow> node_id \<Rightarrow> bool" where
  "closedAt F g V x \<longleftrightarrow> (\<forall>f. getFunction x g = Some f \<longrightarrow> \<not> isProgEntryFunction F f) \<and> (\<forall>u. (u, x) \<in> callRel g \<longrightarrow> u \<in> V)"

lemma closedAt_mono: "closedAt F g V x \<Longrightarrow> V \<subseteq> W \<Longrightarrow> closedAt F g W x"
  unfolding closedAt_def by blast

definition noEntry :: "(nat \<Rightarrow> 'b fun_obj_scheme) \<Rightarrow> 'a callgraph_scheme \<Rightarrow> node_id set \<Rightarrow> dfs_state \<Rightarrow> bool" where
  "noEntry F g V0 st \<longleftrightarrow> V0 \<subseteq> set (snd st) \<and> (\<forall>x. \<not> fst st x)
     \<and> (\<forall>x \<in> set (snd st) - V0. closedAt F g (set (snd st)) x)"

lemma noEntryD:
  assumes "noEntry F g V0 st"
  shows "V0 \<subseteq> set (snd st)" "\<not> fst st x" "x \<in> set (snd st) \<Longrightarrow> x \<notin> V0 \<Longrightarrow> closedAt F g (set (snd st)) x"
  using assms unfolding noEntry_def by blast+

lemma noEntry_trans:
  assumes "noEntry F g V0 st" "noEntry F g (set (snd st)) st'"
  shows "noEntry F g V0 st'"
  unfolding noEntry_def
proof (intro conjI allI ballI)
  show "V0 \<subseteq> set (snd st')" using noEntryD(1)[OF assms(1)] noEntryD(1)[OF assms(2)] by blast
  show "\<not> fst st' x" for x by (rule noEntryD(2)[OF assms(2)])
  fix x assume x: "x \<in> set (snd st') - V0"
  show "closedAt F g (set (snd st')) x"
  proof (cases "x \<in> set (snd st)")
    case True
    then show ?thesis using closedAt_mono[OF noEntryD(3)[OF assms(1) True] noEntryD(1)[OF assms(2)]] x by blast
  next
    case False
    then show ?thesis using noEntryD(3)[OF assms(2)] x by blast
  qed
qed

lemma entryDfs_closed:
  assumes "entryDfs k F g v (R, V) = Some (False, st)" "\<forall>x. \<not> R x"
  shows "noEntry F g (set V) st \<and> v \<in> set (snd st)"
  using assms
proof (induction k arbitrary: v R V st)
  case (Suc k)
  show ?case
  proof (cases "v \<in> set V")
    case True
    then have "st = (R, V)" using Suc.prems(1) by simp
    then show ?thesis using True Suc.prems(2) by (simp add: noEntry_def)
  next
    case nv: False
    obtain f where f: "getFunction v g = Some f" using Suc.prems(1) nv by (cases "getFunction v g") auto
    have ne: "\<not> isProgEntryFunction F f" using Suc.prems(1) nv f by (auto split: if_splits)
    let ?f = "\<lambda>(edge :: call_edge) (result, st :: dfs_state). if result then Some (result, st) else entryDfs k F g (ceSrc edge) st"
    let ?V = "oset_insert v V"
    let ?I = "\<lambda>(ys :: call_edge list) (result, st :: dfs_state). \<not> result \<longrightarrow> noEntry F g (set ?V) st \<and> ceSrc ` set ys \<subseteq> set (snd st)"
    obtain R1 V1 where l: "foldO ?f (inEdges v g) (False, R, ?V) = Some (False, R1, V1)" "st = (R1(v := False), V1)"
      using Suc.prems(1) nv f ne by (auto simp: Option.bind_eq_Some_conv)
    have "?I (inEdges v g) (False, R1, V1)"
    proof (rule foldO_steps[OF l(1)])
      show "?I [] (False, R, ?V)" using Suc.prems(2) by (simp add: noEntry_def subset_insertI)
    next
      fix ys e s s' assume I: "?I ys s" and s': "?f e s = Some s'"
      obtain r2 R2 V2 where s: "s = (r2, R2, V2)" by (cases s)
      obtain r3 st3 where s3: "s' = (r3, st3)" by (cases s')
      show "?I (ys @ [e]) s'"
      proof (cases "r3")
        case False
        then have "\<not> r2" using s' s s3 by (auto split: if_splits)
        then have d: "entryDfs k F g (ceSrc e) (R2, V2) = Some (False, st3)" using s' s s3 False by simp
        have n: "noEntry F g (set ?V) (R2, V2)" "ceSrc ` set ys \<subseteq> set V2" using I \<open>\<not> r2\<close> unfolding s by simp_all
        have "\<forall>x. \<not> R2 x" using noEntryD(2)[OF n(1)] by simp
        from Suc.IH[OF d this] have d': "noEntry F g (set V2) st3" "ceSrc e \<in> set (snd st3)" by blast+
        have "noEntry F g (set ?V) st3" using noEntry_trans[OF n(1)] d'(1) by simp
        moreover have "ceSrc ` set (ys @ [e]) \<subseteq> set (snd st3)" using n(2) d'(2) noEntryD(1)[OF d'(1)] by auto
        ultimately show ?thesis unfolding s3 by simp
      qed (simp add: s3)
    qed
    then have n: "noEntry F g (set ?V) (R1, V1)" "ceSrc ` set (inEdges v g) \<subseteq> set V1" by simp_all
    have v1: "insert v (set V) \<subseteq> set V1" using noEntryD(1)[OF n(1)] by simp
    have "closedAt F g (set V1) v"
      using ne f n(2) unfolding closedAt_def by (auto simp: callRel_inEdges)
    then have "closedAt F g (set V1) x" if "x \<in> set V1" "x \<notin> set V" for x
      using noEntryD(3)[OF n(1)] that by (cases "x = v") auto
    moreover have "\<forall>x. \<not> (R1(v := False)) x" using noEntryD(2)[OF n(1)] by simp
    ultimately show ?thesis using v1 unfolding l(2) noEntry_def by auto
  qed
qed simp

text \<open>The depth of the recursion is at most the number of nodes.\<close>

lemma entryDfs_ends:
  assumes "\<forall>e \<in> set (cgEdges g). getFunction (ceSrc e) g \<noteq> None"
    and "getFunction v g \<noteq> None" "set V \<subseteq> fst ` set (cgNodes g)" "card (fst ` set (cgNodes g) - set V) < k"
  shows "\<exists>b R' V'. entryDfs k F g v (R, V) = Some (b, R', V') \<and> set V \<subseteq> set V' \<and> set V' \<subseteq> fst ` set (cgNodes g)"
  using assms(2-)
proof (induction k arbitrary: v R V)
  case (Suc k)
  let ?N = "fst ` set (cgNodes g)"
  have node: "getFunction x g \<noteq> None \<longleftrightarrow> x \<in> ?N" for x by (simp add: getFunction_def map_of_eq_None_iff)
  obtain f where f: "getFunction v g = Some f" using Suc.prems(1) by auto
  have v: "v \<in> ?N" using Suc.prems(1) node by blast
  let ?f = "\<lambda>(edge :: call_edge) (result, st :: dfs_state). if result then Some (result, st) else entryDfs k F g (ceSrc edge) st"
  let ?V = "oset_insert v V"
  show ?case
  proof (cases "v \<in> set V \<or> isProgEntryFunction F f")
    case True
    then show ?thesis using Suc.prems(2) f v by auto
  next
    case False
    have fin: "finite (?N - set V)" by simp
    have "?N - set ?V = (?N - set V) - {v}" by auto
    then have "card (?N - set ?V) < card (?N - set V)" using False v card_Diff1_less[OF fin, of v] by simp
    then have c: "card (?N - set ?V) < k" using Suc.prems(3) by simp
    let ?I = "\<lambda>(ys :: call_edge list) (r :: bool, R :: node_id \<Rightarrow> bool, W). set ys \<subseteq> set (cgEdges g) \<and> set ?V \<subseteq> set W \<and> set W \<subseteq> ?N"
    have "\<exists>s'. foldO ?f (inEdges v g) (False, R, ?V) = Some s' \<and> ?I [] s'"
    proof (rule foldO_rule[where I = ?I])
      show "?I (inEdges v g) (False, R, ?V)" using Suc.prems(2) v by (auto simp: inEdges_def)
    next
      fix e ys s assume I: "?I (e # ys) s"
      obtain r2 R2 V2 where s: "s = (r2, R2, V2)" by (cases s)
      show "\<exists>s'. ?f e s = Some s' \<and> ?I ys s'"
      proof (cases r2)
        case True
        then show ?thesis using I unfolding s by auto
      next
        case nr: False
        have V2: "set ?V \<subseteq> set V2" "set V2 \<subseteq> ?N" and e: "getFunction (ceSrc e) g \<noteq> None" using I assms(1) unfolding s by auto
        have "card (?N - set V2) \<le> card (?N - set ?V)" by (rule card_mono) (use V2(1) in auto)
        then have "card (?N - set V2) < k" using c by simp
        from Suc.IH[OF e V2(2) this] obtain b R' V' where "entryDfs k F g (ceSrc e) (R2, V2) = Some (b, R', V')"
            "set V2 \<subseteq> set V'" "set V' \<subseteq> ?N" by blast
        then show ?thesis using nr V2 I unfolding s by auto
      qed
    qed
    then obtain r R1 V1 where "foldO ?f (inEdges v g) (False, R, ?V) = Some (r, R1, V1)" "set ?V \<subseteq> set V1" "set V1 \<subseteq> ?N" by auto
    then show ?thesis using False f by auto
  qed
qed simp

lemma closed_no_entry:
  assumes "noEntry F g {} st" "v \<in> set (snd st)"
  shows "\<not> fromEntry F g v"
proof
  assume "fromEntry F g v"
  then obtain u f where u: "getFunction u g = Some f" "isProgEntryFunction F f" "(u, v) \<in> (callRel g)\<^sup>*"
    unfolding fromEntry_def by blast
  have "u \<in> set (snd st)"
    using u(3) assms(2)
  proof (induction rule: converse_rtrancl_induct)
    case (step x y)
    then show ?case using noEntryD(3)[OF assms(1)] unfolding closedAt_def by blast
  qed
  then show False using noEntryD(3)[OF assms(1)] u(1,2) unfolding closedAt_def by blast
qed

section \<open>Threads\<close>

lemma cg_inv_fork: "cg_inv (g\<lparr>forkEdges := m\<rparr>) = cg_inv g"
  by (simp add: cg_inv_def nodes_inv_def ids_inv_def edge_inv_def insts_def getFunction_def)

text \<open>A fork edge is a call edge of its own kind; the fork call then has the start routine as a callee.\<close>

lemma addForkEdge_ok:
  assumes inv: "cg_inv g" and t: "totalCallSiteNum g < 2 ^ 24" and h: "addForkEdge C mark cs f g = Some (b, h)"
    and mark: "\<And>e e'. mark e = Some e' \<Longrightarrow> calls e = {} \<Longrightarrow> calls e' = {cs} \<and> ceKey e' = ceKey e \<and> ceFlag e' = ceFlag e
      \<and> ceCsId e' = ceCsId e \<and> ceSrc e' = ceSrc e \<and> ceDst e' = ceDst e"
  shows "adds_callee g cs f h"
proof -
  obtain a n where an: "funToCallGraphNode g (csCaller (C cs)) = Some a" "funToCallGraphNode g f = Some n"
    using h by (auto simp: addForkEdge_def Option.bind_eq_Some_conv)
  then have f: "getFunction a g \<noteq> None" "getFunction n g = Some f" using nodes_invD(1)[OF cg_invD(1)[OF inv]] by auto
  have "\<exists>h0 m. linkCall mark cs a n TDForkEdge f g = Some h0 \<and> h = h0\<lparr>forkEdges := m\<rparr>"
  proof (cases "hasGraphEdge a n TDForkEdge (fst (addCallSite cs f g)) (snd (addCallSite cs f g))")
    case None
    obtain e where "mark (newCallEdge a n TDForkEdge (fst (addCallSite cs f g))) = Some e"
        "h = addThreadForkEdgeSetMap cs e (addCallEdge e (snd (addCallSite cs f g)))"
      using h an f(2) None by (auto simp: addForkEdge_def case_prod_beta Let_def Option.bind_eq_Some_conv split: if_splits)
    moreover have "forkEdges (insertCallInst cs e (addCallEdge e s)) = forkEdges (addCallEdge e s)" for s :: "'a thread_callgraph_scheme"
      by (simp add: insertCallInst_def)
    ultimately show ?thesis using None
      by (intro exI[of _ "insertCallInst cs e (addCallEdge e (snd (addCallSite cs f g)))"] exI[of _ "forkEdges h"])
        (simp add: linkCall_def case_prod_beta Let_def addThreadForkEdgeSetMap_def insertCallInst_def)
  next
    case (Some e)
    then have "h = snd (addCallSite cs f g)"
      using h an f(2) by (auto simp: addForkEdge_def case_prod_beta Let_def)
    then show ?thesis using Some
      by (intro exI[of _ h] exI[of _ "forkEdges h"]) (simp add: linkCall_def case_prod_beta Let_def)
  qed
  then obtain h0 m where h0: "linkCall mark cs a n TDForkEdge f g = Some h0" "h = h0\<lparr>forkEdges := m\<rparr>" by blast
  have "adds_callee g cs f h0" by (rule linkCall_ok[OF inv t f mark h0(1)])
  moreover have "callees (h0\<lparr>forkEdges := m\<rparr>) = callees h0" "same_nodes_of g (h0\<lparr>forkEdges := m\<rparr>) = same_nodes_of g h0"
    by (simp_all add: callees_def insts_def getFunction_def same_nodes_of_def fun_eq_iff)
  ultimately show ?thesis unfolding adds_callee_def h0(2) cg_inv_fork by simp
qed

lemma addDirectJoinEdge_targets:
  assumes "addDirectJoinEdge C cs forkset g = Some h"
  shows "forksites h = forksites g" "joinsites h = joinsites g" "fork \<in> set forkset \<Longrightarrow> \<exists>f. csForkedFun (C fork) = Some (FunTarget f)"
proof -
  obtain n where n: "funToCallGraphNode g (csCaller (C cs)) = Some n"
    using assms by (auto simp: addDirectJoinEdge_def Option.bind_eq_Some_conv)
  have a: "forksites (snd (addCallSite c f s)) = forksites s" "joinsites (snd (addCallSite c f s)) = joinsites s"
    for c f and s :: "'a thread_callgraph_scheme"
    by (simp_all add: addCallSite_def Let_def split: option.split)
  have b: "forksites (addThreadJoinEdgeSetMap c e s) = forksites s" "joinsites (addThreadJoinEdgeSetMap c e s) = joinsites s"
    for c e and s :: "'a thread_callgraph_scheme"
    by (simp_all add: addThreadJoinEdgeSetMap_def insertCallInst_def)
  let ?I = "\<lambda>ys s. forksites s = forksites g \<and> joinsites s = joinsites g \<and> (\<forall>fork \<in> set ys. \<exists>f. csForkedFun (C fork) = Some (FunTarget f))"
  have "?I forkset h"
    by (rule foldO_steps[OF assms[unfolded addDirectJoinEdge_def n Option.bind.simps]])
      (auto simp: case_prod_beta Let_def a b Option.bind_eq_Some_conv split: option.splits fork_target.splits if_splits)
  then show "forksites h = forksites g" "joinsites h = joinsites g" "fork \<in> set forkset \<Longrightarrow> \<exists>f. csForkedFun (C fork) = Some (FunTarget f)"
    by blast+
qed

section \<open>Properties\<close>

text \<open>What can happen to a graph, from an empty one.\<close>

inductive cg_reachable :: "(nat \<Rightarrow> 'c call_site_scheme) \<Rightarrow> callgraph \<Rightarrow> bool" for C where
  cg_new: "cg_reachable C (new_callgraph k)"
| cg_node: "cg_reachable C g \<Longrightarrow> funToCallGraphNode g f = None \<Longrightarrow> callGraphNodeNum g < 2 ^ 32 - 1 \<Longrightarrow>
    cg_reachable C (addCallGraphNode f g)"
| cg_direct: "cg_reachable C g \<Longrightarrow> totalCallSiteNum g < 2 ^ 24 \<Longrightarrow> addDirectCallGraphEdge C cs p f g = Some h \<Longrightarrow>
    cg_reachable C h"
| cg_indirect: "cg_reachable C g \<Longrightarrow> totalCallSiteNum g < 2 ^ 24 \<Longrightarrow> addIndirectCallGraphEdge C cs p f g = Some h \<Longrightarrow>
    cg_reachable C h"

text \<open>
  Functions 5, 6 and 7; 7 is \<^verbatim>\<open>main\<close>. The calls 1, 2 and 3 lead from 5 to 6, from 6 to 5 and
  from 7 to 6; call 4, in 5, is indirect.
\<close>

definition demo_funs :: "nat \<Rightarrow> fun_obj" where
  "demo_funs f = \<lparr>fnName = (if f = 7 then ''main'' else ''f''), fnDef = None\<rparr>"

definition demo_calls :: "nat \<Rightarrow> call_site" where
  "demo_calls cs =
     (if cs = 1 then \<lparr>csCaller = 5, csCalled = Some 6, csForkedFun = None\<rparr>
      else if cs = 2 then \<lparr>csCaller = 6, csCalled = Some 5, csForkedFun = None\<rparr>
      else if cs = 3 then \<lparr>csCaller = 7, csCalled = Some 6, csForkedFun = None\<rparr>
      else \<lparr>csCaller = 5, csCalled = None, csForkedFun = None\<rparr>)"

definition demo_nodes :: callgraph where
  "demo_nodes = addCallGraphNode 7 (addCallGraphNode 6 (addCallGraphNode 5 (new_callgraph NormCallGraph)))"

definition demo_graph :: "callgraph option" where
  "demo_graph = do {
     g1 \<leftarrow> addDirectCallGraphEdge demo_calls 1 5 6 demo_nodes;
     g2 \<leftarrow> addDirectCallGraphEdge demo_calls 2 6 5 g1;
     addDirectCallGraphEdge demo_calls 3 7 6 g2
   }"

lemmas demo_defs = addDirectCallGraphEdge_def demo_calls_def addCallSite_def hasGraphEdge_def makeEdgeFlag_eq
  addDirectCallSite_def newCallEdge_def insertCallInst_def insertKey_def addCallEdge_def ceKey_def oset_insert_def Let_def

lemma demo_nodes_eq:
  "cgNodes demo_nodes = [(0, 5), (1, 6), (2, 7)]" "callGraphNodeNum demo_nodes = 3" "cgEdges demo_nodes = []"
  "funToCallGraphNode demo_nodes = [5 \<mapsto> 0, 6 \<mapsto> 1, 7 \<mapsto> 2]" "totalCallSiteNum demo_nodes = 1"
  "csToIdMap demo_nodes = (\<lambda>_. None)" "idToCSMap demo_nodes = (\<lambda>_. None)" "callinstToEdges demo_nodes = (\<lambda>_. None)"
  by (simp_all add: demo_nodes_def new_callgraph_def addCallGraphNode_def Let_def fun_eq_iff)

lemma demo_graph_eq:
  "\<exists>g. demo_graph = Some g \<and> cgNodes g = [(0, 5), (1, 6), (2, 7)] \<and> totalCallSiteNum g = 4
    \<and> map (\<lambda>e. (ceFlag e, ceSrc e, ceDst e, directCalls e)) (cgEdges g)
     = [(256, 0, 1, [1]), (512, 1, 0, [2]), (768, 2, 1, [3])]
    \<and> funToCallGraphNode g = [5 \<mapsto> 0, 6 \<mapsto> 1, 7 \<mapsto> 2]"
  by (simp add: demo_graph_def demo_nodes_eq demo_defs)

lemma demo_run:
  obtains g where "demo_graph = Some g" "cgNodes g = [(0, 5), (1, 6), (2, 7)]" "totalCallSiteNum g = 4"
    "map (\<lambda>e. (ceFlag e, ceSrc e, ceDst e, directCalls e)) (cgEdges g)
     = [(256, 0, 1, [1]), (512, 1, 0, [2]), (768, 2, 1, [3])]"
    "funToCallGraphNode g = [5 \<mapsto> 0, 6 \<mapsto> 1, 7 \<mapsto> 2]"
  using demo_graph_eq by (elim exE conjE) (rule that)

lemma demo_ok:
  assumes "demo_graph = Some g"
  shows "cg_reachable demo_calls g" "cg_inv g"
proof -
  obtain g1 g2 where g: "addDirectCallGraphEdge demo_calls 1 5 6 demo_nodes = Some g1"
      "addDirectCallGraphEdge demo_calls 2 6 5 g1 = Some g2" "addDirectCallGraphEdge demo_calls 3 7 6 g2 = Some g"
    using assms by (auto simp: demo_graph_def Option.bind_eq_Some_conv)
  have "cg_reachable demo_calls demo_nodes"
    unfolding demo_nodes_def by (intro cg_node cg_new) (simp_all add: new_callgraph_def addCallGraphNode_def Let_def)
  moreover have "cg_inv demo_nodes"
    unfolding demo_nodes_def by (intro addCallGraphNode_ok(1) new_callgraph_inv) (simp_all add: new_callgraph_def addCallGraphNode_def Let_def)
  moreover have t: "totalCallSiteNum demo_nodes < 2 ^ 24" by (simp add: demo_nodes_eq)
  ultimately have 1: "cg_reachable demo_calls g1" "adds_callee demo_nodes 1 6 g1"
    using cg_direct[OF _ t g(1)] addDirectCallGraphEdge_ok[OF _ t g(1)] by blast+
  then have t1: "totalCallSiteNum g1 \<le> 2" "totalCallSiteNum g1 < 2 ^ 24" and i1: "cg_inv g1"
    by (simp_all add: adds_callee_def demo_nodes_eq)
  from cg_direct[OF 1(1) t1(2) g(2)] addDirectCallGraphEdge_ok[OF i1 t1(2) g(2)]
  have 2: "cg_reachable demo_calls g2" "adds_callee g1 2 5 g2" by blast+
  then have t2: "totalCallSiteNum g2 < 2 ^ 24" and i2: "cg_inv g2" using t1 by (simp_all add: adds_callee_def)
  from cg_direct[OF 2(1) t2 g(3)] addDirectCallGraphEdge_ok[OF i2 t2 g(3)]
  show "cg_reachable demo_calls g" "cg_inv g" by (simp_all add: adds_callee_def)
qed

text \<open>
  C19: The tables of every call graph that is built by adding a node for a function that has none,
  and direct and indirect call edges as long as fewer than \<open>2 ^ 24\<close> call sites have ids and
  the number of nodes fits into 32 bits, are well formed (beyond that the ids of call sites collide in the flags of the edges): node and function maps are inverse to each other, so are the two maps
  of call site ids, edges are unique and in the order of their keys, every edge belongs to the
  one call whose id is in its flag and is registered with that call, and every registered edge
  exists.
\<close>

theorem cg_reachable_inv:
  assumes "cg_reachable C g"
  shows "cg_inv g"
  using assms
proof induction
  case (cg_new k)
  show ?case by (rule new_callgraph_inv)
next
  case (cg_node g f)
  then show ?case using addCallGraphNode_ok(1) by blast
next
  case (cg_direct g cs p f h)
  then show ?case using addDirectCallGraphEdge_ok unfolding adds_callee_def by blast
next
  case (cg_indirect g cs p f h)
  then show ?case using addIndirectCallGraphEdge_ok unfolding adds_callee_def by blast
qed

theorem cg_reachable_inv_witness: "\<exists>g. demo_graph = Some g \<and> length (cgEdges g) = 3 \<and> cg_inv g"
proof -
  obtain g where g: "demo_graph = Some g" "map (\<lambda>e. (ceFlag e, ceSrc e, ceDst e, directCalls e)) (cgEdges g)
     = [(256, 0, 1, [1]), (512, 1, 0, [2]), (768, 2, 1, [3])]" by (rule demo_run)
  have "length (cgEdges g) = 3" using arg_cong[OF g(2), of length] by simp
  then show ?thesis using g(1) cg_reachable_inv[OF demo_ok(1)[OF g(1)]] by blast
qed

text \<open>
  Adding an indirect call edge succeeds for functions with nodes and a call without a known
  callee, as long as fewer than \<open>2 ^ 24\<close> call site ids are in use: the callee is among the callees
  of the call afterwards, the other callees of that call and of all others are as before, and the
  tables stay well formed.
\<close>

theorem addIndirectCallGraphEdge_correct:
  assumes "cg_inv g" "totalCallSiteNum g < 2 ^ 24"
    and "funToCallGraphNode g p = Some a" "funToCallGraphNode g f = Some b" "csCalled (C cs) = None"
  shows "\<exists>h s s'. addIndirectCallGraphEdge C cs p f g = Some h \<and> cg_inv h
    \<and> getCallees cs g [] = Some s \<and> getCallees cs h [] = Some s' \<and> set s' = insert f (set s)
    \<and> (\<forall>c. c \<noteq> cs \<longrightarrow> callees h c = callees g c)"
proof -
  have "addInDirectCallSite C cs e \<noteq> None" for e using assms(5) by (simp add: addInDirectCallSite_def)
  from linkCall_succeeds[of "addInDirectCallSite C cs" cs a b CallRetEdge f
      "g\<lparr>numOfResolvedIndCallEdge := u32 (numOfResolvedIndCallEdge g + 1)\<rparr>", OF this]
  obtain h where h: "addIndirectCallGraphEdge C cs p f g = Some h"
    using assms(3,4) by (auto simp: addIndirectCallGraphEdge_link[OF cg_invD(1)[OF assms(1)]])
  then have a: "adds_callee g cs f h" using addIndirectCallGraphEdge_ok[OF assms(1,2)] by blast
  obtain s where s: "getCallees cs g [] = Some s" "set s = callees g cs" using getCallees_eq[OF assms(1), of cs "[]"] by auto
  obtain s' where s': "getCallees cs h [] = Some s'" "set s' = callees h cs"
    using getCallees_eq[of h cs "[]"] a unfolding adds_callee_def by auto
  show ?thesis using h s s' a unfolding adds_callee_def by auto
qed

theorem addIndirectCallGraphEdge_correct_witness:
  "\<exists>g h s. demo_graph = Some g \<and> addIndirectCallGraphEdge demo_calls 4 5 6 g = Some h \<and> getCallees 4 h [] = Some s \<and> 6 \<in> set s"
proof -
  obtain g where g: "demo_graph = Some g" "totalCallSiteNum g = 4" "funToCallGraphNode g = [5 \<mapsto> 0, 6 \<mapsto> 1, 7 \<mapsto> 2]"
    by (rule demo_run)
  have t: "totalCallSiteNum g < 2 ^ 24" "funToCallGraphNode g 5 = Some 0" "funToCallGraphNode g 6 = Some 1" "csCalled (demo_calls 4) = None"
    using g(2,3) by (simp_all add: demo_calls_def)
  show ?thesis using addIndirectCallGraphEdge_correct[where C = demo_calls and cs = 4, OF demo_ok(2)[OF g(1)] t] g(1) by blast
qed

text \<open>
  The flag of an edge holds its kind and only 24 bits of its call site id, as the id is
  shifted in 32 bits: two edges between the same functions have the same flag exactly when their
  kinds agree and their ids do modulo \<open>2 ^ 24\<close>, so the second of them is taken for the first.
\<close>

theorem edge_flag_collision:
  "makeEdgeFlagWithInvokeID k c = makeEdgeFlagWithInvokeID k' c' \<longleftrightarrow> k = k' \<and> c mod 2 ^ 24 = c' mod 2 ^ 24"
  by (rule makeEdgeFlag_inj)

text \<open>
  The callers that the edges into a function name are exactly the calls that have it among
  their callees, so \<^verbatim>\<open>getAllCallSitesInvokingCallee\<close> and \<^verbatim>\<open>getCallees\<close> agree on every well-formed graph.
\<close>

theorem callers_are_callees:
  assumes "cg_inv g" "funToCallGraphNode g f = Some n"
  shows "\<exists>s. getAllCallSitesInvokingCallee f g [] = Some s
    \<and> (\<forall>cs. \<exists>s'. getCallees cs g [] = Some s' \<and> (cs \<in> set s) = (f \<in> set s'))"
proof -
  obtain s where s: "getAllCallSitesInvokingCallee f g [] = Some s" "set s = (\<Union>e \<in> set (inEdges n g). calls e)"
    using assms(2) by (simp add: getAllCallSitesInvokingCallee_def set_fold_insert_all calls_def)
  have "\<exists>s'. getCallees cs g [] = Some s' \<and> (cs \<in> set s) = (f \<in> set s')" for cs
    using getCallees_eq[OF assms(1), of cs "[]"] callers_iff[OF assms, of cs] s(2) by auto
  then show ?thesis using s(1) by blast
qed

theorem callers_are_callees_witness:
  "\<exists>g s s'. demo_graph = Some g \<and> getAllCallSitesInvokingCallee 6 g [] = Some s \<and> getCallees 3 g [] = Some s' \<and> (3 \<in> set s) = (6 \<in> set s')"
proof -
  obtain g where g: "demo_graph = Some g" "funToCallGraphNode g = [5 \<mapsto> 0, 6 \<mapsto> 1, 7 \<mapsto> 2]" by (rule demo_run)
  then have "funToCallGraphNode g 6 = Some 1" by simp
  from callers_are_callees[OF demo_ok(2)[OF g(1)] this] g(1) show ?thesis by blast
qed

text \<open>
  C20: \<^verbatim>\<open>isReachableBetweenFunctions\<close> ends on every graph and decides whether a chain of calls leads
  from the first function to the second.
\<close>

theorem isReachableBetweenFunctions_correct:
  assumes "cg_inv g" "funToCallGraphNode g dst = Some n"
  shows "isReachableBetweenFunctions src dst g = Some (\<exists>m. funToCallGraphNode g src = Some m \<and> (m, n) \<in> (callRel g)\<^sup>*)"
proof -
  note N = nodes_invD(1)[OF cg_invD(1)[OF assms(1)]]
  have "getFunction n g = Some dst" using N assms(2) by blast
  moreover have "\<forall>(u, v) \<in> callRel g. getFunction u g \<noteq> None" using edge_ends(1)[OF assms(1)] by (auto simp: callRel_def)
  ultimately have "reachLoop g src [n] [n] = Some (\<exists>u. getFunction u g = Some src \<and> (u, n) \<in> (callRel g)\<^sup>*)"
    by (intro reachLoop_correct) auto
  then show ?thesis unfolding isReachableBetweenFunctions_def N using assms(2) by (simp del: reachLoop.simps)
qed

theorem isReachableBetweenFunctions_correct_witness:
  "\<exists>g. demo_graph = Some g \<and> isReachableBetweenFunctions 7 5 g = Some (\<exists>m. funToCallGraphNode g 7 = Some m \<and> (m, 0) \<in> (callRel g)\<^sup>*)"
proof -
  obtain g where g: "demo_graph = Some g" "funToCallGraphNode g = [5 \<mapsto> 0, 6 \<mapsto> 1, 7 \<mapsto> 2]" by (rule demo_run)
  then have "funToCallGraphNode g 5 = Some 0" by simp
  from isReachableBetweenFunctions_correct[OF demo_ok(2)[OF g(1)] this] g(1) show ?thesis by blast
qed

text \<open>
  \<^verbatim>\<open>isReachableFromProgEntry\<close> ends, and the first query, with nothing visited before, decides
  whether a chain of calls leads from the entry function to the node; a later query that uses
  what the first one has left never answers yes wrongly.
\<close>

theorem isReachableFromProgEntry_exact:
  assumes "cg_inv g" "getFunction v g \<noteq> None"
  shows "\<exists>b st. isReachableFromProgEntry F g v (\<lambda>_. False, []) = Some (b, st) \<and> b = fromEntry F g v
    \<and> (\<forall>x b' st'. isReachableFromProgEntry F g x st = Some (b', st') \<longrightarrow> b' \<longrightarrow> fromEntry F g x)"
proof -
  let ?N = "fst ` set (cgNodes g)"
  have src: "\<forall>e \<in> set (cgEdges g). getFunction (ceSrc e) g \<noteq> None" using edge_ends(1)[OF assms(1)] by blast
  have "card ?N \<le> length (cgNodes g)" by (metis card_length length_map set_map)
  then have c: "card (?N - set []) < length (cgNodes g) + 1" by simp
  have z: "set [] \<subseteq> ?N" by simp
  obtain b R' V' where r: "entryDfs (length (cgNodes g) + 1) F g v (\<lambda>_. False, []) = Some (b, R', V')"
    using entryDfs_ends[OF src assms(2) z c] by blast
  have so: "(b \<longrightarrow> fromEntry F g v) \<and> (\<forall>x. R' x \<longrightarrow> fromEntry F g x)" by (rule entryDfs_sound[OF r]) simp
  have "\<not> fromEntry F g v" if "\<not> b"
  proof -
    have "entryDfs (length (cgNodes g) + 1) F g v (\<lambda>_. False, []) = Some (False, R', V')" using r that by simp
    then have "noEntry F g (set []) (R', V') \<and> v \<in> set (snd (R', V'))" by (rule entryDfs_closed) simp
    then have "noEntry F g {} (R', V')" "v \<in> set (snd (R', V'))" by simp_all
    then show ?thesis by (rule closed_no_entry)
  qed
  moreover have "fromEntry F g x" if "isReachableFromProgEntry F g x (R', V') = Some (b', st')" b' for x b' st'
    using entryDfs_sound[of "length (cgNodes g) + 1" F g x R' V' b' "fst st'" "snd st'"] that so
    by (simp add: isReachableFromProgEntry_def)
  ultimately show ?thesis using r so by (auto simp: isReachableFromProgEntry_def)
qed

theorem isReachableFromProgEntry_exact_witness:
  "\<exists>g b st. demo_graph = Some g \<and> isReachableFromProgEntry demo_funs g 1 (\<lambda>_. False, []) = Some (b, st) \<and> b = fromEntry demo_funs g 1"
proof -
  obtain g where g: "demo_graph = Some g" "cgNodes g = [(0, 5), (1, 6), (2, 7)]" by (rule demo_run)
  then have "getFunction 1 g \<noteq> None" by (simp add: getFunction_def)
  from isReachableFromProgEntry_exact[OF demo_ok(2)[OF g(1)] this, of demo_funs] g(1) show ?thesis by blast
qed

text \<open>
  A later query can miss the entry, because a node on a cycle is given the answer known while
  the search was still under way: in the graph where 7 calls 6, and 5 and 6 call each other, the
  query for 6 finds the entry, and the query for 5 after it does not, although 6 calls 5.
\<close>

theorem entry_query_misses:
  "\<exists>g st st'. demo_graph = Some g \<and> isReachableFromProgEntry demo_funs g 1 (\<lambda>_. False, []) = Some (True, st)
    \<and> isReachableFromProgEntry demo_funs g 0 st = Some (False, st') \<and> fromEntry demo_funs g 0"
proof -
  obtain g where g: "demo_graph = Some g" "cgNodes g = [(0, 5), (1, 6), (2, 7)]"
    "map (\<lambda>e. (ceFlag e, ceSrc e, ceDst e, directCalls e)) (cgEdges g) = [(256, 0, 1, [1]), (512, 1, 0, [2]), (768, 2, 1, [3])]"
    by (rule demo_run)
  have f: "getFunction 0 g = Some 5" "getFunction 1 g = Some 6" "getFunction 2 g = Some 7" by (simp_all add: getFunction_def g(2))
  obtain e1 e2 e3 where es: "cgEdges g = [e1, e2, e3]" "ceSrc e1 = 0" "ceDst e1 = 1" "ceSrc e2 = 1" "ceDst e2 = 0"
      "ceSrc e3 = 2" "ceDst e3 = 1"
    using g(3) by (auto simp: map_eq_Cons_conv)
  have i: "inEdges 0 g = [e2]" "inEdges 1 g = [e1, e3]" "inEdges 2 g = []" by (simp_all add: inEdges_def es)
  have n: "\<not> isProgEntryFunction demo_funs 5" "\<not> isProgEntryFunction demo_funs 6" "isProgEntryFunction demo_funs 7"
    by (simp_all add: isProgEntryFunction_def demo_funs_def)
  have d2: "entryDfs (Suc k) demo_funs g 2 (R, V) = Some (True, R(2 := True), oset_insert 2 V)" if "2 \<notin> set V" for k R V
    using that by (simp add: f n)
  have d0: "entryDfs (Suc (Suc k)) demo_funs g 0 (R, V) = Some (False, R(0 := False), oset_insert 0 V)"
    if "0 \<notin> set V" "1 \<in> set V" "\<not> R 1" for k R V
    using that by (simp add: f n i es)
  let ?R = "(\<lambda>_. False)(0 := False, 2 := True, 1 := True)"
  have e1: "entryDfs (Suc (Suc k)) demo_funs g 0 (\<lambda>_. False, [1]) = Some (False, (\<lambda>_. False)(0 := False), [0, 1])" for k
    using d0[of "[1]" "\<lambda>_. False" k] by (simp add: oset_insert_def del: entryDfs.simps)
  have e2: "entryDfs (Suc k) demo_funs g 2 ((\<lambda>_. False)(0 := False), [0, 1]) = Some (True, (\<lambda>_. False)(0 := False, 2 := True), [0, 1, 2])" for k
    using d2[of "[0, 1]" k "(\<lambda>_. False)(0 := False)"] by (simp add: oset_insert_def del: entryDfs.simps)
  have "entryDfs (Suc (Suc (Suc k))) demo_funs g 1 (\<lambda>_. False, []) = Some (True, ?R, [0, 1, 2])" for k
    unfolding entryDfs.simps(2)[of "Suc (Suc k)" demo_funs g 1] f i es(2,6) foldO.simps
    by (simp add: n e1 e2 oset_insert_def es del: entryDfs.simps fun_upd_apply One_nat_def)
  from this[of 1] have "isReachableFromProgEntry demo_funs g 1 (\<lambda>_. False, []) = Some (True, ?R, [0, 1, 2])"
    by (simp add: isReachableFromProgEntry_def g(2) numeral_eq_Suc del: entryDfs.simps)
  moreover have "isReachableFromProgEntry demo_funs g 0 (?R, [0, 1, 2]) = Some (False, ?R, [0, 1, 2])"
    by (simp add: isReachableFromProgEntry_def)
  moreover have "fromEntry demo_funs g 0"
  proof -
    have "(2, 1) \<in> callRel g" "(1, 0) \<in> callRel g" using es by (auto simp: callRel_def image_iff)
    then have "(2, 0) \<in> (callRel g)\<^sup>*" by (meson converse_rtrancl_into_rtrancl rtrancl.rtrancl_refl)
    then show ?thesis unfolding fromEntry_def using f(3) n(3) by blast
  qed
  ultimately show ?thesis using g(1) by blast
qed

text \<open>
  C21: The update of the join edges stops the program as soon as a join may wait for a thread that
  was created through a function pointer: the start routine of such a fork is the result of a
  cast that yields null, and is followed.
\<close>

theorem updateJoinEdge_null:
  assumes "cs \<in> set (joinsites g)" "fork \<in> set (forksites g)" "alias cs fork" "csForkedFun (C fork) = Some (VarTarget v)"
  shows "updateJoinEdge C alias g = None"
proof (rule ccontr)
  assume "updateJoinEdge C alias g \<noteq> None"
  then obtain t where t: "foldO (\<lambda>cs h. let forkset = filter (alias cs) (forksites h)
      in if forkset = [] then None else addDirectJoinEdge C cs forkset h) (joinsites g) g = Some t"
    by (auto simp: updateJoinEdge_def)
  let ?I = "\<lambda>ys s. forksites s = forksites g
    \<and> (\<forall>c \<in> set ys. \<forall>x \<in> set (forksites g). alias c x \<longrightarrow> (\<exists>f. csForkedFun (C x) = Some (FunTarget f)))"
  have "?I (joinsites g) t"
  proof (rule foldO_steps[OF t])
    fix ys c s s' assume I: "?I ys s"
      and "(let forkset = filter (alias c) (forksites s) in if forkset = [] then None else addDirectJoinEdge C c forkset s) = Some s'"
    then have "addDirectJoinEdge C c (filter (alias c) (forksites s)) s = Some s'" by (simp add: Let_def split: if_splits)
    from addDirectJoinEdge_targets[OF this] show "?I (ys @ [c]) s'" using I by auto
  qed simp
  then have "\<exists>f. csForkedFun (C fork) = Some (FunTarget f)" using assms(1-3) by blast
  then show False using assms(4) by simp
qed

theorem updateJoinEdge_null_witness:
  "updateJoinEdge (\<lambda>cs. \<lparr>csCaller = 5, csCalled = Some 6, csForkedFun = Some (VarTarget 9)\<rparr>) (\<lambda>_ _. True)
     (snd (addJoinsite 2 (snd (addForksite 1 (new_thread_callgraph (new_callgraph NormCallGraph)))))) = None"
  by (rule updateJoinEdge_null[where cs = 2 and fork = 1 and v = 9])
    (simp_all add: addJoinsite_def addForksite_def new_thread_callgraph_def callgraph.defs)

end
