(* ===== verification/CallGraph_Solve.thy ===== *)
theory CallGraph_Solve
  imports Andersen_CallGraph CallGraph_Correct Solver_Correct
begin

text \<open>
  What the construction of the call graph on the fly does: the callees that are resolved are
  exactly the functions the points-to sets hold, parameters are linked by copy edges, and the
  call graph only grows.
\<close>

section \<open>Resolving calls\<close>

definition resolvedCalls :: "'a callgraph_scheme \<Rightarrow> (nat \<times> nat) set" where
  "resolvedCalls g = callEdges (indirectCallMap g)"

text \<open>
  Where a run that started with the graph \<open>g0\<close> and no new edges stands: the new edges are those
  the graph was not resolved to before, and each of them has its call edge.
\<close>

definition cg_run :: "'a callgraph_scheme \<Rightarrow> 'a cg_state \<Rightarrow> bool" where
  "cg_run g0 = (\<lambda>(new, g).
     cg_inv g \<and> same_nodes_of g0 g \<and> cgKind g = cgKind g0 \<and> edge_map_inv (indirectCallMap g) \<and> edge_map_inv new \<and> (new = [] \<longleftrightarrow> callEdges new = {})
     \<and> resolvedCalls g = resolvedCalls g0 \<union> callEdges new \<and> callEdges new \<inter> resolvedCalls g0 = {}
     \<and> (\<forall>cs. callees g cs = callees g0 cs \<union> {f. (cs, f) \<in> callEdges new})
     \<and> numOfResolvedIndCallEdge g = numOfResolvedIndCallEdge g0 + card (callEdges new)
     \<and> totalCallSiteNum g \<le> totalCallSiteNum g0 + card (callEdges new))"

lemma finite_callEdges: "finite (callEdges m)"
proof -
  have "callEdges m \<subseteq> (\<Union>p \<in> set m. {fst p} \<times> set (snd p))"
  proof
    fix q assume "q \<in> callEdges m"
    then have "snd q \<in> set (targetsOf (fst q) m)" by (auto simp: callEdges_def)
    then obtain s where q: "map_of m (fst q) = Some s" "snd q \<in> set s"
      by (cases "map_of m (fst q)") (auto simp: targetsOf_def)
    show "q \<in> (\<Union>p \<in> set m. {fst p} \<times> set (snd p))"
      by (rule UN_I[OF map_of_SomeD[OF q(1)]]) (simp add: q(2) mem_Times_iff)
  qed
  then show ?thesis by (rule finite_subset) auto
qed

lemma cg_run_start: "cg_inv g \<Longrightarrow> edge_map_inv (indirectCallMap g) \<Longrightarrow> cg_run g ([], g)"
  by (simp add: cg_run_def same_nodes_of_def)

lemma addCallSite_counter: "addCallSite cs f g = (i, h) \<Longrightarrow>
    numOfResolvedIndCallEdge h = numOfResolvedIndCallEdge g \<and> cgKind h = cgKind g \<and> indirectCallMap h = indirectCallMap g"
  by (auto simp: addCallSite_def Let_def split: option.splits)

lemma linkCall_counter:
  assumes "linkCall mark cs a b k f g = Some h"
  shows "numOfResolvedIndCallEdge h = numOfResolvedIndCallEdge g \<and> cgKind h = cgKind g"
proof -
  obtain i g1 where a: "addCallSite cs f g = (i, g1)" by (cases "addCallSite cs f g")
  have "numOfResolvedIndCallEdge (insertCallInst cs e (addCallEdge e g1)) = numOfResolvedIndCallEdge g1"
    "cgKind (insertCallInst cs e (addCallEdge e g1)) = cgKind g1" for e
    by (simp_all add: insertCallInst_def addCallEdge_def)
  then show ?thesis
    using assms addCallSite_counter[OF a] by (auto simp: linkCall_def a Option.bind_eq_Some_conv split: if_splits)
qed

lemma addIndirect_counter:
  assumes inv: "cg_inv g" and h: "addIndirectCallGraphEdge C cs p f g = Some h"
  shows "numOfResolvedIndCallEdge h = u32 (numOfResolvedIndCallEdge g + 1) \<and> cgKind h = cgKind g"
  using h linkCall_counter unfolding addIndirectCallGraphEdge_link[OF cg_invD(1)[OF inv]]
  by (fastforce simp: Option.bind_eq_Some_conv)

lemma addIndirect_succeeds:
  assumes "cg_inv g" "csCalled (C cs) = None" "funToCallGraphNode g p \<noteq> None" "funToCallGraphNode g f \<noteq> None"
  shows "\<exists>h. addIndirectCallGraphEdge C cs p f g = Some h"
proof -
  have m: "addInDirectCallSite C cs e \<noteq> None" for e using assms(2) by (simp add: addInDirectCallSite_def)
  show ?thesis
    unfolding addIndirectCallGraphEdge_link[OF cg_invD(1)[OF assms(1)]]
    using assms(3,4) linkCall_succeeds[OF m] by auto
qed

text \<open>The functions and calls the resolution meets have what it asks of them.\<close>

definition budget :: "program \<Rightarrow> 'a callgraph_scheme \<Rightarrow> bool" where
  "budget P g0 \<longleftrightarrow> IndirectCallLimit P < 2 ^ 32 \<and> totalCallSiteNum g0 + IndirectCallLimit P \<le> 2 ^ 24"

lemma cg_inv_indirectCallMap [simp]: "cg_inv (g\<lparr>indirectCallMap := m\<rparr>) = cg_inv g"
  by (simp add: cg_inv_def nodes_inv_def ids_inv_def edge_inv_def insts_def getFunction_def)

lemma indirectCallMap_simps [simp]:
  "callees (g\<lparr>indirectCallMap := m\<rparr>) = callees g"
  "same_nodes_of a (g\<lparr>indirectCallMap := m\<rparr>) = same_nodes_of a g"
  "same_nodes_of (g\<lparr>indirectCallMap := m\<rparr>) b = same_nodes_of g b"
  "resolvedCalls (g\<lparr>indirectCallMap := m\<rparr>) = callEdges m"
  by (simp_all add: callees_def insts_def getFunction_def same_nodes_of_def resolvedCalls_def fun_eq_iff)

lemma same_nodes_of_trans: "same_nodes_of a b \<Longrightarrow> same_nodes_of b c \<Longrightarrow> same_nodes_of a c"
  by (simp add: same_nodes_of_def)

definition resolves :: "(nat \<times> nat) set \<Rightarrow> 'a callgraph_scheme \<Rightarrow> 'a cg_state \<Rightarrow> 'a cg_state \<Rightarrow> bool" where
  "resolves X g0 st st' \<longleftrightarrow> cg_run g0 st' \<and> resolvedCalls (snd st') = resolvedCalls (snd st) \<union> X"

lemma addCallee_run:
  assumes run: "cg_run g0 st" and b: "budget P g0" and n: "numOfResolvedIndCallEdge (snd st) < IndirectCallLimit P"
    and c: "csCalled (pCalls P cs) = None" "funToCallGraphNode g0 (csCaller (pCalls P cs)) \<noteq> None" "funToCallGraphNode g0 f \<noteq> None"
  shows "\<exists>st'. addCallee P cs f st = Some st' \<and> resolves {(cs, f)} g0 st st'"
proof -
  obtain new g where st: "st = (new, g)" by (cases st)
  note R = run[unfolded st cg_run_def prod.case]
  have inv: "cg_inv g" and nodes: "same_nodes_of g0 g" and im: "edge_map_inv (indirectCallMap g)" and nm: "edge_map_inv new"
    using R by simp_all
  show ?thesis
  proof (cases "(cs, f) \<in> resolvedCalls g")
    case True
    then have "addCallee P cs f st = Some (new, g\<lparr>indirectCallMap := touch cs (indirectCallMap g)\<rparr>)"
      by (simp add: addCallee_def st resolvedCalls_def callEdges_def)
    moreover have "cg_run g0 (new, g\<lparr>indirectCallMap := touch cs (indirectCallMap g)\<rparr>)"
      using R edge_map_inv_touch[OF im] callEdges_touch[OF im, of cs] by (simp add: cg_run_def resolvedCalls_def)
    ultimately show ?thesis using True im by (auto simp: resolves_def st resolvedCalls_def)
  next
    case False
    let ?g = "g\<lparr>indirectCallMap := addTarget cs f (indirectCallMap g)\<rparr>"
    have p: "funToCallGraphNode ?g (csCaller (pCalls P cs)) \<noteq> None" "funToCallGraphNode ?g f \<noteq> None"
      using c(2,3) same_nodes_ofD[OF nodes] by simp_all
    have "cg_inv ?g" using inv by simp
    obtain h where h: "addIndirectCallGraphEdge (pCalls P) cs (csCaller (pCalls P cs)) f ?g = Some h"
      using addIndirect_succeeds[where C = "pCalls P" and cs = cs, OF \<open>cg_inv ?g\<close> c(1) p] by blast
    have "totalCallSiteNum g0 + IndirectCallLimit P \<le> 2 ^ 24" using b unfolding budget_def by blast
    then have t: "totalCallSiteNum ?g < 2 ^ 24"
      using R n by (simp add: st)
    have a: "adds_callee ?g cs f h" by (rule addIndirectCallGraphEdge_ok[OF _ t h]) (simp add: inv)
    have r: "addCallee P cs f st = Some (addTarget cs f new, h)"
      using False h by (simp add: addCallee_def st resolvedCalls_def callEdges_def)
    have "numOfResolvedIndCallEdge g + 1 < 2 ^ 32"
      using n b by (simp add: st budget_def)
    then have cnt: "numOfResolvedIndCallEdge h = numOfResolvedIndCallEdge g + 1"
      using addIndirect_counter[OF \<open>cg_inv ?g\<close> h] by simp
    have f: "(cs, f) \<notin> callEdges new" using False R by auto
    then have card: "card (callEdges (addTarget cs f new)) = Suc (card (callEdges new))"
      using finite_callEdges by (simp add: nm)
    have ih: "indirectCallMap h = addTarget cs f (indirectCallMap g)" using a by (simp add: adds_callee_def)
    have res: "resolvedCalls h = insert (cs, f) (resolvedCalls g)" by (simp add: resolvedCalls_def ih im)
    have cal: "callees h c' = callees g0 c' \<union> {f'. (c', f') \<in> callEdges (addTarget cs f new)}" for c'
      using a R by (auto simp: adds_callee_def nm)
    have "same_nodes_of g h" using a by (simp add: adds_callee_def)
    from same_nodes_of_trans[OF nodes this] have n1: "same_nodes_of g0 h" "cg_inv h" "totalCallSiteNum h \<le> Suc (totalCallSiteNum g)"
      using a by (simp_all add: adds_callee_def)
    have n0: "cgKind h = cgKind g0" using addIndirect_counter[OF \<open>cg_inv ?g\<close> h] R by simp
    have n2: "callEdges (addTarget cs f new) = insert (cs, f) (callEdges new)" using nm by simp
    have n3: "resolvedCalls h = resolvedCalls g0 \<union> callEdges (addTarget cs f new)" "callEdges (addTarget cs f new) \<inter> resolvedCalls g0 = {}"
      using R False by (auto simp: res n2)
    have n4: "numOfResolvedIndCallEdge h = numOfResolvedIndCallEdge g0 + card (callEdges (addTarget cs f new))"
        "totalCallSiteNum h \<le> totalCallSiteNum g0 + card (callEdges (addTarget cs f new))"
      unfolding cnt card using R n1(3) by simp_all
    have "cg_run g0 (addTarget cs f new, h)"
      unfolding cg_run_def prod.case
      using n0 n1(1,2) n3 n4 cal edge_map_inv_addTarget[OF im, of cs f] edge_map_inv_addTarget[OF nm, of cs f]
      by (intro conjI allI) (simp_all only: ih, simp_all add: n2)
    then show ?thesis using r by (auto simp: resolves_def st res)
  qed
qed


text \<open>The callees an object of a points-to set stands for.\<close>

definition targetFuns :: "program \<Rightarrow> pag \<Rightarrow> nat \<Rightarrow> node_id \<Rightarrow> nat set" where
  "targetFuns P p cs i =
     {getDefFunForMultipleModule (pFuns P) f | f. functionOf P p i = Some (Some f)
        \<and> matchArgs P cs (getDefFunForMultipleModule (pFuns P) f)}"

definition callReady :: "program \<Rightarrow> 'a callgraph_scheme \<Rightarrow> nat \<Rightarrow> bool" where
  "callReady P g0 cs \<longleftrightarrow> isIndirectCallSites cs P \<and> \<not> csVirtual (pCalls P cs) \<and> csCalled (pCalls P cs) = None
     \<and> funToCallGraphNode g0 (csCaller (pCalls P cs)) \<noteq> None"

definition funsReady :: "program \<Rightarrow> 'a callgraph_scheme \<Rightarrow> bool" where
  "funsReady P g0 \<longleftrightarrow>
     (\<forall>b f. objFunction P b = Some f \<longrightarrow> funToCallGraphNode g0 (getDefFunForMultipleModule (pFuns P) f) \<noteq> None)"

lemma functionOf_node:
  assumes "functionOf P p i = Some (Some f)" "funsReady P g0"
  shows "funToCallGraphNode g0 (getDefFunForMultipleModule (pFuns P) f) \<noteq> None"
proof -
  have "\<exists>b. objFunction P b = Some f"
    using assms(1) by (auto simp: functionOf_def split: option.splits svfvar.splits)
  then show ?thesis using assms(2) by (auto simp: funsReady_def)
qed

lemma resolves_none: "cg_run g0 st \<Longrightarrow> resolves {} g0 st st"
  by (simp add: resolves_def)

lemma resolves_trans: "resolves X g0 a b \<Longrightarrow> resolves Y g0 b c \<Longrightarrow> resolves (X \<union> Y) g0 a c"
  by (auto simp: resolves_def)

lemma resolveTarget_run:
  assumes run: "cg_run g0 st" and b: "budget P g0" and n: "numOfResolvedIndCallEdge (snd st) < IndirectCallLimit P"
    and c: "callReady P g0 cs" and f: "funsReady P g0" and i: "functionOf P p i \<noteq> None"
  shows "\<exists>st'. resolveTarget P p cs i st = Some st' \<and> resolves ({cs} \<times> targetFuns P p cs i) g0 st st'"
proof (cases "functionOf P p i")
  case (Some r)
  show ?thesis
  proof (cases "\<exists>f. r = Some f \<and> matchArgs P cs (getDefFunForMultipleModule (pFuns P) f)")
    case True
    then obtain h where h: "r = Some h" "matchArgs P cs (getDefFunForMultipleModule (pFuns P) h)" by blast
    have t: "targetFuns P p cs i = {getDefFunForMultipleModule (pFuns P) h}"
      using Some h by (auto simp: targetFuns_def)
    have "funToCallGraphNode g0 (getDefFunForMultipleModule (pFuns P) h) \<noteq> None"
      using functionOf_node[OF _ f] Some h by blast
    from addCallee_run[OF run b n _ _ this] show ?thesis
      using c Some h by (auto simp: resolveTarget_def t callReady_def)
  next
    case False
    then have "targetFuns P p cs i = {}" "resolveTarget P p cs i st = Some st"
      using Some by (auto simp: targetFuns_def resolveTarget_def split: option.split)
    then show ?thesis using resolves_none[OF run] by simp
  qed
qed (use i in simp)

text \<open>A loop that may stop at the limit: then the counter has reached it.\<close>

definition resolvesUpTo :: "program \<Rightarrow> (nat \<times> nat) set \<Rightarrow> 'a callgraph_scheme \<Rightarrow> 'a cg_state \<Rightarrow> 'a cg_state \<Rightarrow> bool" where
  "resolvesUpTo P X g0 st st' \<longleftrightarrow> cg_run g0 st' \<and> resolvedCalls (snd st) \<subseteq> resolvedCalls (snd st')
     \<and> resolvedCalls (snd st') \<subseteq> resolvedCalls (snd st) \<union> X
     \<and> numOfResolvedIndCallEdge (snd st) \<le> numOfResolvedIndCallEdge (snd st')
     \<and> numOfResolvedIndCallEdge (snd st') \<le> max (numOfResolvedIndCallEdge (snd st)) (IndirectCallLimit P)
     \<and> (numOfResolvedIndCallEdge (snd st') < IndirectCallLimit P \<longrightarrow> X \<subseteq> resolvedCalls (snd st'))"

lemma cg_run_counter:
  assumes "cg_run g0 st" "cg_run g0 st'" "resolvedCalls (snd st) \<subseteq> resolvedCalls (snd st')"
  shows "numOfResolvedIndCallEdge (snd st) \<le> numOfResolvedIndCallEdge (snd st')"
proof -
  have "callEdges (fst st) \<subseteq> callEdges (fst st')"
    using assms by (auto simp: cg_run_def case_prod_beta)
  from card_mono[OF finite_callEdges this] show ?thesis
    using assms(1,2) by (simp add: cg_run_def case_prod_beta)
qed

lemma cg_run_new:
  assumes "cg_run g0 st"
  shows "callEdges (fst st) = resolvedCalls (snd st) - resolvedCalls g0"
    "numOfResolvedIndCallEdge (snd st) = numOfResolvedIndCallEdge g0 + card (callEdges (fst st))"
proof -
  obtain new g where st: "st = (new, g)" by (cases st)
  have "resolvedCalls g = resolvedCalls g0 \<union> callEdges new" "callEdges new \<inter> resolvedCalls g0 = {}"
    using assms by (simp_all add: cg_run_def st)
  then show "callEdges (fst st) = resolvedCalls (snd st) - resolvedCalls g0" unfolding st fst_conv snd_conv by blast
  show "numOfResolvedIndCallEdge (snd st) = numOfResolvedIndCallEdge g0 + card (callEdges (fst st))"
    using assms by (simp add: cg_run_def st)
qed

lemma resolves_counter:
  assumes "cg_run g0 st" "resolves X g0 st st'" "finite X"
  shows "numOfResolvedIndCallEdge (snd st') \<le> numOfResolvedIndCallEdge (snd st) + card X"
proof -
  have run: "cg_run g0 st'" using assms(2) by (simp add: resolves_def)
  have "resolvedCalls (snd st') = resolvedCalls (snd st) \<union> X" using assms(2) by (simp add: resolves_def)
  then have "callEdges (fst st') \<subseteq> callEdges (fst st) \<union> X"
    unfolding cg_run_new(1)[OF assms(1)] cg_run_new(1)[OF run] by blast
  then have "card (callEdges (fst st')) \<le> card (callEdges (fst st) \<union> X)"
    using assms(3) finite_callEdges by (intro card_mono) auto
  also have "\<dots> \<le> card (callEdges (fst st)) + card X" by (rule card_Un_le)
  finally show ?thesis using cg_run_new(2)[OF assms(1)] cg_run_new(2)[OF run] by simp
qed

lemma resolves_upTo:
  assumes run: "cg_run g0 st" and r: "resolves X g0 st st'" and f: "finite X"
    and n: "numOfResolvedIndCallEdge (snd st) + card X \<le> max (numOfResolvedIndCallEdge (snd st)) (IndirectCallLimit P)"
  shows "resolvesUpTo P X g0 st st'"
proof -
  have "resolvedCalls (snd st) \<subseteq> resolvedCalls (snd st')" "cg_run g0 st'" using r by (auto simp: resolves_def)
  from cg_run_counter[OF run this(2,1)] resolves_counter[OF run r f] n show ?thesis
    using r unfolding resolves_def resolvesUpTo_def by auto
qed

lemma upTo_trans:
  assumes ab: "resolvesUpTo P X g0 a b" and bc: "resolvesUpTo P Y g0 b c"
  shows "resolvesUpTo P (X \<union> Y) g0 a c"
proof -
  have "X \<subseteq> resolvedCalls (snd c)" if "numOfResolvedIndCallEdge (snd c) < IndirectCallLimit P"
  proof -
    have "numOfResolvedIndCallEdge (snd b) < IndirectCallLimit P"
      using that bc unfolding resolvesUpTo_def by linarith
    then show ?thesis using ab bc unfolding resolvesUpTo_def by blast
  qed
  moreover have "numOfResolvedIndCallEdge (snd a) \<le> numOfResolvedIndCallEdge (snd c)"
    using ab bc unfolding resolvesUpTo_def by linarith
  moreover have "numOfResolvedIndCallEdge (snd c) \<le> max (numOfResolvedIndCallEdge (snd a)) (IndirectCallLimit P)"
    using ab bc unfolding resolvesUpTo_def by linarith
  moreover have "resolvedCalls (snd a) \<subseteq> resolvedCalls (snd c)" "resolvedCalls (snd c) \<subseteq> resolvedCalls (snd a) \<union> (X \<union> Y)"
    using ab bc unfolding resolvesUpTo_def by blast+
  ultimately show ?thesis using bc unfolding resolvesUpTo_def by blast
qed

lemma upTo_stop:
  "cg_run g0 st \<Longrightarrow> IndirectCallLimit P \<le> numOfResolvedIndCallEdge (snd st) \<Longrightarrow> resolvesUpTo P X g0 st st"
  by (auto simp: resolvesUpTo_def)

lemma upTo_run: "resolvesUpTo P X g0 st st' \<Longrightarrow> cg_run g0 st'"
  by (simp add: resolvesUpTo_def)

lemma targetFuns_one: "targetFuns P p cs i = {} \<or> (\<exists>f. targetFuns P p cs i = {f})"
  by (cases "functionOf P p i") (auto simp: targetFuns_def)

lemma resolveLoop_run:
  assumes "cg_run g0 st" "budget P g0" "callReady P g0 cs" "funsReady P g0" "\<forall>i \<in> set target. functionOf P p i \<noteq> None"
  shows "\<exists>st'. resolveLoop P p cs target st = Some st' \<and> resolvesUpTo P ({cs} \<times> (\<Union>i \<in> set target. targetFuns P p cs i)) g0 st st'"
  using assms(1,5)
proof (induction target arbitrary: st)
  case Nil
  then show ?case using resolves_upTo[OF Nil(1) resolves_none[OF Nil(1)]] by simp
next
  case (Cons i target)
  show ?case
  proof (cases "IndirectCallLimit P \<le> numOfResolvedIndCallEdge (snd st)")
    case True
    then show ?thesis using upTo_stop[OF Cons.prems(1)] by simp
  next
    case False
    then have n: "numOfResolvedIndCallEdge (snd st) < IndirectCallLimit P" by simp
    have i: "functionOf P p i \<noteq> None" using Cons.prems(2) by simp
    obtain st1 where st1: "resolveTarget P p cs i st = Some st1" "resolves ({cs} \<times> targetFuns P p cs i) g0 st st1"
      using resolveTarget_run[OF Cons.prems(1) assms(2) n assms(3,4) i] by blast
    have "finite ({cs} \<times> targetFuns P p cs i)" "card ({cs} \<times> targetFuns P p cs i) \<le> 1"
      using targetFuns_one[of P p cs i] by auto
    then have u: "resolvesUpTo P ({cs} \<times> targetFuns P p cs i) g0 st st1"
      using n by (intro resolves_upTo[OF Cons.prems(1) st1(2)]) auto
    have rest: "\<forall>i \<in> set target. functionOf P p i \<noteq> None" using Cons.prems(2) by simp
    obtain st2 where st2: "resolveLoop P p cs target st1 = Some st2"
      "resolvesUpTo P ({cs} \<times> (\<Union>i \<in> set target. targetFuns P p cs i)) g0 st1 st2"
      using Cons.IH[OF upTo_run[OF u] rest] by blast
    have x: "{cs} \<times> targetFuns P p cs i \<union> {cs} \<times> (\<Union>i \<in> set target. targetFuns P p cs i)
      = {cs} \<times> (\<Union>i \<in> set (i # target). targetFuns P p cs i)" by auto
    have "resolveLoop P p cs (i # target) st = Some st2" using n st1(1) st2(1) by simp
    then show ?thesis using upTo_trans[OF u st2(2)] unfolding x by blast
  qed
qed

text \<open>What the points-to sets ask for at a list of call sites.\<close>

definition wantedCalls :: "program \<Rightarrow> (nat \<times> node_id) list \<Rightarrow> 's ander_scheme \<Rightarrow> (nat \<times> nat) set" where
  "wantedCalls P callsites s =
     {(cs, callee). \<exists>fp i. (cs, fp) \<in> set callsites \<and> i \<in> set (getPts s fp) \<and> callee \<in> targetFuns P (irs s) cs i}"

definition cg_ready :: "program \<Rightarrow> (nat \<times> node_id) list \<Rightarrow> 's ander_scheme \<Rightarrow> 'a callgraph_scheme \<Rightarrow> bool" where
  "cg_ready P callsites s g \<longleftrightarrow> cg_inv g \<and> edge_map_inv (indirectCallMap g) \<and> budget P g \<and> funsReady P g
     \<and> (\<forall>(cs, fp) \<in> set callsites. callReady P g cs \<and> (\<forall>i \<in> set (getPts s fp). functionOf P (irs s) i \<noteq> None))"

lemma solve_run:
  assumes r: "cg_ready P callsites s g"
  shows "\<exists>st. onTheFlyCallGraphSolve P chg callsites s ([], g) = Some st \<and> resolvesUpTo P (wantedCalls P callsites s) g ([], g) st"
proof -
  let ?W = "\<lambda>xs. wantedCalls P xs s"
  have main: "\<exists>st'. onTheFlyCallGraphSolve P chg xs s st = Some st' \<and> resolvesUpTo P (?W xs) g st st'"
    if "cg_run g st" "set xs \<subseteq> set callsites" for xs st
    using that
  proof (induction xs arbitrary: st)
    case Nil
    then show ?case
      using resolves_upTo[OF Nil(1) resolves_none[OF Nil(1)]] by (simp add: onTheFlyCallGraphSolve_def wantedCalls_def)
  next
    case (Cons x xs)
    obtain cs fp where x: "x = (cs, fp)" by (cases x)
    have c: "callReady P g cs" "\<forall>i \<in> set (getPts s fp). functionOf P (irs s) i \<noteq> None" "budget P g" "funsReady P g"
      using r Cons.prems(2) x by (auto simp: cg_ready_def)
    obtain st1 where st1: "resolveLoop P (irs s) cs (getPts s fp) st = Some st1"
        "resolvesUpTo P ({cs} \<times> (\<Union>i \<in> set (getPts s fp). targetFuns P (irs s) cs i)) g st st1"
      using resolveLoop_run[OF Cons.prems(1) c(3,1,4,2)] by blast
    from Cons.IH[OF upTo_run[OF st1(2)]] Cons.prems(2) obtain st2 where
      st2: "onTheFlyCallGraphSolve P chg xs s st1 = Some st2" "resolvesUpTo P (?W xs) g st1 st2" by auto
    have w: "?W (x # xs) = {cs} \<times> (\<Union>i \<in> set (getPts s fp). targetFuns P (irs s) cs i) \<union> ?W xs"
      by (auto simp: wantedCalls_def x)
    have "onTheFlyCallGraphSolve P chg (x # xs) s st = Some st2"
      using st1(1) st2(1) c(1) by (simp add: onTheFlyCallGraphSolve_def x resolveIndCalls_def callReady_def)
    then show ?case using upTo_trans[OF st1(2) st2(2)] w by simp
  qed
  have "cg_run g ([], g)" using r by (intro cg_run_start) (simp_all add: cg_ready_def)
  from main[OF this subset_refl] show ?thesis .
qed


section \<open>Connecting parameters\<close>

text \<open>A step that adds unguarded copy edges and records each of them.\<close>

definition conn_step :: "'a ander_scheme \<times> node_pairs \<Rightarrow> 'a ander_scheme \<times> node_pairs \<Rightarrow> bool" where
  "conn_step st st' \<longleftrightarrow> wstep (fst st) (fst st') \<and> set (snd st) \<subseteq> set (snd st')
     \<and> (\<forall>e \<in> set (cedges (consCG (fst st'))) - set (cedges (consCG (fst st))).
          ekind e = Copy \<and> eguard e = None \<and> (esrc e, edst e) \<in> set (snd st'))
     \<and> (\<forall>(a, b) \<in> set (snd st') - set (snd st). hasEdge Copy a b (consCG (fst st')) \<and> \<not> hasEdge Copy a b (consCG (fst st)))
     \<and> (oset_inv (snd st) \<longrightarrow> oset_inv (snd st'))"

lemma conn_step_refl: "diff_inv (fst st) \<Longrightarrow> conn_step st st"
  by (simp add: conn_step_def wstep_refl)

lemma wstep_edges: "wstep s t \<Longrightarrow> hasEdge k a b (consCG s) \<Longrightarrow> hasEdge k a b (consCG t)"
  unfolding wstep_def ls_step_def hasEdge_iff by blast

lemma conn_step_trans:
  assumes ab: "conn_step a b" and bc: "conn_step b c"
  shows "conn_step a c"
proof -
  have w: "wstep (fst a) (fst b)" "wstep (fst b) (fst c)" using ab bc by (simp_all add: conn_step_def)
  have "\<forall>(x, y) \<in> set (snd c) - set (snd a). hasEdge Copy x y (consCG (fst c)) \<and> \<not> hasEdge Copy x y (consCG (fst a))"
    using ab bc wstep_edges[OF w(1)] wstep_edges[OF w(2)] unfolding conn_step_def by blast
  then show ?thesis using ab bc wstep_trans[OF w] unfolding conn_step_def by blast
qed

lemma conn_step_linked: "conn_step st st' \<Longrightarrow> linked (fst st) a b \<Longrightarrow> linked (fst st') a b"
  unfolding conn_step_def using wstep_linked by blast

lemma wstep_state: "wstep s t \<Longrightarrow> diff_inv t \<and> rep_of t = rep_of s \<and> live (consCG t) = live (consCG s) \<and> irs t = irs s"
  using same_nodes_rep same_nodes_live by (fastforce simp: wstep_def ls_step_def rep_of_def fun_eq_iff)

lemma conn_stepD:
  assumes "conn_step st st'"
  shows "diff_inv (fst st')" "rep_of (fst st') = rep_of (fst st)" "live (consCG (fst st')) = live (consCG (fst st))"
    "irs (fst st') = irs (fst st)"
  using wstep_state[of "fst st" "fst st'"] assms by (simp_all add: conn_step_def)

lemma addCopyEdge_new:
  assumes "addCopyEdge u v s = Some (c, t)" "live (consCG s) u" "live (consCG s) v"
  shows "\<forall>e \<in> set (cedges (consCG t)) - set (cedges (consCG s)). c \<and> ekind e = Copy \<and> eguard e = None \<and> esrc e = u \<and> edst e = v"
    "c \<longrightarrow> \<not> hasEdge Copy u v (consCG s) \<and> hasEdge Copy u v (consCG t)"
  using assms
  by (auto simp: addCopyEdge_def addCopyCGEdge_def live_getConstraintNode updatePropaPts_def insertEdge_def set_insort_key Let_def hasEdge_iff split: if_splits)

lemma rep_idem: "live (consCG s) (rep_of s a) \<Longrightarrow> rep_of s (rep_of s a) = rep_of s a"
  by (simp add: rep_of_live)

lemma copyBetween_ok:
  assumes "diff_inv (fst st)" "live (consCG (fst st)) (rep_of (fst st) a)" "live (consCG (fst st)) (rep_of (fst st) b)"
  shows "\<exists>st'. copyBetween (rep_of (fst st) a) (rep_of (fst st) b) st = Some st' \<and> conn_step st st' \<and> linked (fst st') a b"
proof -
  obtain s cpy where st: "st = (s, cpy)" by (cases st)
  let ?u = "rep_of s a" and ?v = "rep_of s b"
  note L = assms[unfolded st fst_conv]
  have l: "live (consCG s) (rep_of s ?u)" "live (consCG s) (rep_of s ?v)" using L rep_idem[OF L(2)] rep_idem[OF L(3)] by simp_all
  obtain c t where t: "addCopyEdge ?u ?v s = Some (c, t)" "wstep s t" "linked t ?u ?v"
    using addCopyEdge_ok[OF L(1) l] by blast
  have r: "rep_of t = rep_of s" using wstep_state[OF t(2)] by simp
  have "linked t a b" using t(3) rep_idem[OF L(2)] rep_idem[OF L(3)] by (simp add: linked_def r)
  moreover have "conn_step st (t, if c then oset_insert (?u, ?v) cpy else cpy)"
    using t(2) addCopyEdge_new(1)[OF t(1) L(2,3)] addCopyEdge_new(2)[OF t(1) L(2,3)] by (auto simp: conn_step_def st)
  ultimately show ?thesis using t(1) by (simp add: copyBetween_def st)
qed

text \<open>A node that parameters can be copied from and to.\<close>

definition tracked :: "'a ander_scheme \<Rightarrow> node_id \<Rightarrow> bool" where
  "tracked s a \<longleftrightarrow> live (consCG s) (rep_of s a) \<and> isPointer a (irs s) \<noteq> None"

abbreviation pointer :: "'a ander_scheme \<Rightarrow> node_id \<Rightarrow> bool" where
  "pointer s a \<equiv> isPointer a (irs s) = Some True"

lemma conn_step_pointer: "conn_step st st' \<Longrightarrow> tracked (fst st') a = tracked (fst st) a \<and> isPointer a (irs (fst st')) = isPointer a (irs (fst st))"
  using conn_stepD[of st st'] by (simp add: tracked_def)

declare isPointer.simps [simp del]

lemma connectPointers_ok:
  assumes "diff_inv (fst st)" "tracked (fst st) a" "tracked (fst st) b"
  shows "\<exists>st'. connectPointers a b st = Some st' \<and> conn_step st st'
    \<and> (pointer (fst st) a \<and> pointer (fst st) b \<longrightarrow> linked (fst st') a b)"
proof (cases "pointer (fst st) a \<and> pointer (fst st) b")
  case True
  then show ?thesis using copyBetween_ok[OF assms(1), of a b] assms(2,3) by (auto simp: connectPointers_def tracked_def)
next
  case False
  then have "connectPointers a b st = Some st" using assms(2,3) by (auto simp: connectPointers_def tracked_def)
  then show ?thesis using False conn_step_refl[OF assms(1)] by blast
qed

lemma connectArgs_ok:
  assumes "diff_inv (fst st)" "\<forall>a \<in> set formals \<union> set actuals. tracked (fst st) a"
  shows "\<exists>st'. connectArgs formals actuals st = Some (drop (length formals) actuals, st') \<and> conn_step st st'
    \<and> (\<forall>(f, a) \<in> set (zip formals actuals). pointer (fst st) a \<and> pointer (fst st) f \<longrightarrow> linked (fst st') a f)"
  using assms
proof (induction formals actuals st rule: connectArgs.induct)
  case (3 f formals a actuals st)
  obtain st1 where st1: "connectPointers a f st = Some st1" "conn_step st st1"
      "pointer (fst st) a \<and> pointer (fst st) f \<longrightarrow> linked (fst st1) a f"
    using connectPointers_ok[OF 3(2), of a f] 3(3) by auto
  note D = conn_stepD[OF st1(2)] conn_step_pointer[OF st1(2)]
  obtain st2 where st2: "connectArgs formals actuals st1 = Some (drop (length formals) actuals, st2)" "conn_step st1 st2"
      "\<forall>(f, a) \<in> set (zip formals actuals). pointer (fst st) a \<and> pointer (fst st) f \<longrightarrow> linked (fst st2) a f"
    using 3(1)[OF st1(1)] 3(3) D by auto
  show ?case
    using st1(1,3) st2 conn_step_trans[OF st1(2) st2(2)] conn_step_linked[OF st2(2), of a f] by auto
qed (auto intro: conn_step_refl)

lemma connectVarargs_ok:
  assumes "diff_inv (fst st)" "tracked (fst st) va" "\<forall>a \<in> set actuals. tracked (fst st) a"
  shows "\<exists>st'. foldO (connectVararg (rep_of (fst st) va)) actuals st = Some st' \<and> conn_step st st'
    \<and> (\<forall>a \<in> set actuals. pointer (fst st) a \<longrightarrow> linked (fst st') a va)"
proof -
  have main: "\<exists>st'. foldO (connectVararg (rep_of (fst st) va)) xs u = Some st' \<and> conn_step u st'
    \<and> (\<forall>a \<in> set xs. pointer (fst st) a \<longrightarrow> linked (fst st') a va)"
    if "conn_step st u" "set xs \<subseteq> set actuals" for xs u
    using that
  proof (induction xs arbitrary: u)
    case (Cons a xs)
    note D = conn_stepD[OF Cons.prems(1)] conn_step_pointer[OF Cons.prems(1)]
    have a: "tracked (fst st) a" using Cons.prems(2) assms(3) by auto
    obtain u1 where u1: "connectVararg (rep_of (fst st) va) a u = Some u1" "conn_step u u1"
        "pointer (fst st) a \<longrightarrow> linked (fst u1) a va"
    proof (cases "pointer (fst st) a")
      case True
      then show ?thesis
        using that copyBetween_ok[OF D(1), of a va] a assms(2) D by (auto simp: connectVararg_def tracked_def)
    next
      case False
      then have "connectVararg (rep_of (fst st) va) a u = Some u"
        using a D by (auto simp: connectVararg_def tracked_def)
      then show ?thesis using that False conn_step_refl[OF D(1)] by blast
    qed
    have c: "conn_step st u1" using conn_step_trans[OF Cons.prems(1) u1(2)] .
    obtain u2 where u2: "foldO (connectVararg (rep_of (fst st) va)) xs u1 = Some u2" "conn_step u1 u2"
        "\<forall>a \<in> set xs. pointer (fst st) a \<longrightarrow> linked (fst u2) a va"
      using Cons.IH[OF c] Cons.prems(2) by auto
    show ?case
      using u1(1,3) u2(1,3) conn_step_trans[OF u1(2) u2(2)] conn_step_linked[OF u2(2), of a va] by auto
  qed (auto dest: conn_stepD(1) intro: conn_step_refl)
  show ?thesis using main[OF conn_step_refl[OF assms(1)] subset_refl] .
qed


definition call_tracked :: "program \<Rightarrow> nat \<Rightarrow> nat \<Rightarrow> 'a ander_scheme \<Rightarrow> bool" where
  "call_tracked P cs F s \<longleftrightarrow>
     (\<forall>r \<in> set_option (csRet (pCalls P cs)) \<union> set_option (fnRet (pFuns P F)). tracked s r)
     \<and> (\<forall>xs \<in> set_option (csArgs (pCalls P cs)) \<union> set_option (fnArgs (pFuns P F)). \<forall>a \<in> set xs. tracked s a)
     \<and> (fnVarArg (pFuns P F) \<longrightarrow> (\<exists>va. fnVarargNode (pFuns P F) = Some va \<and> tracked s va))"

text \<open>What the call needs: \<open>s\<close> tells the pointers, \<open>t\<close> has the edges.\<close>

definition ret_linked :: "program \<Rightarrow> nat \<Rightarrow> nat \<Rightarrow> 'a ander_scheme \<Rightarrow> 'a ander_scheme \<Rightarrow> bool" where
  "ret_linked P cs F s t \<longleftrightarrow>
     (\<forall>c f. csRet (pCalls P cs) = Some c \<and> fnRet (pFuns P F) = Some f \<and> pointer s c \<and> pointer s f \<longrightarrow> linked t f c)"

definition args_linked :: "program \<Rightarrow> nat \<Rightarrow> nat \<Rightarrow> 'a ander_scheme \<Rightarrow> 'a ander_scheme \<Rightarrow> bool" where
  "args_linked P cs F s t \<longleftrightarrow>
     (\<forall>actuals formals. csArgs (pCalls P cs) = Some actuals \<and> fnArgs (pFuns P F) = Some formals \<longrightarrow>
        (\<forall>(f, a) \<in> set (zip formals actuals). pointer s a \<and> pointer s f \<longrightarrow> linked t a f)
        \<and> (fnVarArg (pFuns P F) \<longrightarrow>
             (\<forall>va. fnVarargNode (pFuns P F) = Some va \<longrightarrow>
                (\<forall>a \<in> set (drop (length formals) actuals). pointer s a \<longrightarrow> linked t a va))))"

lemma connectReturn_ok:
  assumes "diff_inv (fst st)" "call_tracked P cs F (fst st)"
  shows "\<exists>st'. connectReturn P cs F st = Some st' \<and> conn_step st st' \<and> ret_linked P cs F (fst st) (fst st')"
proof (cases "\<exists>c f. csRet (pCalls P cs) = Some c \<and> fnRet (pFuns P F) = Some f")
  case True
  then obtain c f where cf: "csRet (pCalls P cs) = Some c" "fnRet (pFuns P F) = Some f" by blast
  have t: "tracked (fst st) c" "tracked (fst st) f" using assms(2) by (auto simp: call_tracked_def cf)
  show ?thesis
  proof (cases "pointer (fst st) c \<and> pointer (fst st) f")
    case True
    then show ?thesis
      using copyBetween_ok[OF assms(1), of f c] t by (auto simp: connectReturn_def cf tracked_def ret_linked_def)
  next
    case False
    then have "connectReturn P cs F st = Some st" using t by (auto simp: connectReturn_def cf tracked_def)
    then show ?thesis using False conn_step_refl[OF assms(1)] by (auto simp: ret_linked_def cf)
  qed
next
  case False
  then have "connectReturn P cs F st = Some st" by (auto simp: connectReturn_def split: option.split)
  then show ?thesis using False conn_step_refl[OF assms(1)] by (auto simp: ret_linked_def)
qed

lemma connectParams_ok:
  assumes "diff_inv (fst st)" "call_tracked P cs F (fst st)"
  shows "\<exists>st'. connectParams P cs F st = Some st' \<and> conn_step st st' \<and> args_linked P cs F (fst st) (fst st')"
proof (cases "\<exists>al fl. csArgs (pCalls P cs) = Some al \<and> fnArgs (pFuns P F) = Some fl")
  case True
  then obtain al fl where l: "csArgs (pCalls P cs) = Some al" "fnArgs (pFuns P F) = Some fl" by blast
  have t: "\<forall>a \<in> set fl \<union> set al. tracked (fst st) a" using assms(2) by (auto simp: call_tracked_def l)
  obtain st1 where st1: "connectArgs fl al st = Some (drop (length fl) al, st1)" "conn_step st st1"
      "\<forall>(f, a) \<in> set (zip fl al). pointer (fst st) a \<and> pointer (fst st) f \<longrightarrow> linked (fst st1) a f"
    using connectArgs_ok[OF assms(1) t] by blast
  note D = conn_stepD[OF st1(2)] conn_step_pointer[OF st1(2)]
  show ?thesis
  proof (cases "fnVarArg (pFuns P F)")
    case True
    then obtain va where va: "fnVarargNode (pFuns P F) = Some va" "tracked (fst st1) va"
      using assms(2) D by (auto simp: call_tracked_def)
    have d: "\<forall>a \<in> set (drop (length fl) al). tracked (fst st1) a" using t D by (auto dest: in_set_dropD)
    obtain st2 where st2: "foldO (connectVararg (rep_of (fst st1) va)) (drop (length fl) al) st1 = Some st2" "conn_step st1 st2"
        "\<forall>a \<in> set (drop (length fl) al). pointer (fst st1) a \<longrightarrow> linked (fst st2) a va"
      using connectVarargs_ok[OF D(1) va(2) d] by blast
    have "connectParams P cs F st = Some st2" using st1(1) st2(1) True va(1) by (simp add: connectParams_def l)
    moreover have "args_linked P cs F (fst st) (fst st2)"
      using st1(3) st2(3) conn_step_linked[OF st2(2)] D va(1) by (fastforce simp: args_linked_def l)
    ultimately show ?thesis using conn_step_trans[OF st1(2) st2(2)] by blast
  next
    case False
    then have "connectParams P cs F st = Some st1" using st1(1) by (simp add: connectParams_def l)
    then show ?thesis using st1(2,3) False by (auto simp: args_linked_def l)
  qed
next
  case False
  then have "connectParams P cs F st = Some st" by (auto simp: connectParams_def split: option.split)
  then show ?thesis using False conn_step_refl[OF assms(1)] by (auto simp: args_linked_def)
qed

lemma call_tracked_step: "conn_step st st' \<Longrightarrow> call_tracked P cs F (fst st') = call_tracked P cs F (fst st)"
  using conn_step_pointer[of st st'] by (simp add: call_tracked_def)

lemma connect_ok:
  assumes "diff_inv (fst st)" "call_tracked P cs F (fst st)" "\<not> (fnHeapAlloc (pFuns P F) \<and> csRet (pCalls P cs) \<noteq> None)"
  shows "\<exists>st'. connectCaller2CalleeParams P cs F st = Some st' \<and> conn_step st st'
    \<and> ret_linked P cs F (fst st) (fst st') \<and> args_linked P cs F (fst st) (fst st')"
proof -
  obtain st1 where st1: "connectReturn P cs F st = Some st1" "conn_step st st1" "ret_linked P cs F (fst st) (fst st1)"
    using connectReturn_ok[OF assms(1,2)] by blast
  note D = conn_stepD[OF st1(2)] conn_step_pointer[OF st1(2)]
  have "call_tracked P cs F (fst st1)" using assms(2) call_tracked_step[OF st1(2)] by simp
  then obtain st2 where st2: "connectParams P cs F st1 = Some st2" "conn_step st1 st2" "args_linked P cs F (fst st1) (fst st2)"
    using connectParams_ok[OF D(1)] by blast
  have r: "ret_linked P cs F (fst st) (fst st2)"
    using st1(3) conn_step_linked[OF st2(2)] unfolding ret_linked_def by blast
  have a: "args_linked P cs F (fst st) (fst st2)" using st2(3) D by (simp add: args_linked_def)
  have "connectCaller2CalleeParams P cs F st = Some st2"
    using st1(1) st2(1) assms(3) by (simp only: connectCaller2CalleeParams_def if_False bind.bind_lunit)
  then show ?thesis using r a conn_step_trans[OF st1(2) st2(2)] by blast
qed

section \<open>Allocation through a function pointer\<close>

lemma newHeapObject_state:
  assumes "addDummyValNode (irs s) = Some (v, p1)" "addDummyObjNode ptr p1 = Some (o1, p2)"
  shows "newHeapObject cs ptr s = Some (v, s\<lparr>irs := p2, ptD := snd (dd_addPts v o1 (ptD s)),
      callsite2DummyValPN := (callsite2DummyValPN s)(cs \<mapsto> v),
      consCG := addConstraintNode o1 (addConstraintNode v (consCG s))\<rparr>)"
  using assms by (simp add: newHeapObject_def addPts_def case_prod_beta Let_def)

lemma newHeapObject_inv:
  assumes d: "diff_inv s" and a: "addDummyValNode (irs s) = Some (v, p1)" "addDummyObjNode ptr p1 = Some (o1, p2)"
    and n: "newHeapObject cs ptr s = Some (v', t)"
  shows "v' = v" "diff_inv t" "rep_of t = rep_of s" "cedges (consCG t) = cedges (consCG s)"
    "set (cnodes (consCG t)) = insert o1 (insert v (set (cnodes (consCG s))))" "callsite2DummyValPN t cs = Some v"
    "irs t = p2" "set (dd_getPts (ptD t) v) = insert o1 (set (dd_getPts (ptD s) v))"
proof -
  note t = newHeapObject_state[OF a, of cs]
  show s: "v' = v" "cedges (consCG t) = cedges (consCG s)" "irs t = p2" "callsite2DummyValPN t cs = Some v"
    "set (cnodes (consCG t)) = insert o1 (insert v (set (cnodes (consCG s))))" "rep_of t = rep_of s"
    using t n by (auto simp: rep_of_def addConstraintNode_def sccRepNode_def fun_eq_iff)
  have dd: "dd_inv (ptD s)" using d by (simp add: diff_inv_def)
  have e: "ptD t = snd (dd_addPts v o1 (ptD s))" "DiffPts t = DiffPts s"
    "consCG t = addConstraintNode o1 (addConstraintNode v (consCG s))" "propaPtsMap (ptD t) = propaPtsMap (ptD s)"
    using t n by (auto simp: dd_addPts_def case_prod_beta)
  show "set (dd_getPts (ptD t) v) = insert o1 (set (dd_getPts (ptD s) v))"
    unfolding e(1) dd.add_pts[OF dd] by simp
  have g: "grows s t" unfolding grows_def e(1) dd.add_pts[OF dd] by auto
  have "propagated t" by (rule propagated_grow[OF _ g s(2) e(4)]) (use d in \<open>simp add: diff_inv_def\<close>)
  moreover have "propa_le t" by (rule propa_le_grow[OF _ g e(4)]) (use d in \<open>simp add: diff_inv_def\<close>)
  moreover have "dd_inv (ptD t)" unfolding e(1) by (rule dd.add_inv[OF dd])
  ultimately show "diff_inv t"
    using d by (simp add: diff_inv_def e(2,3) addConstraintNode_inv rep_ok_def)
qed

text \<open>The two new nodes of an allocation and what is assumed of their numbers.\<close>

definition fresh_heap :: "bool \<Rightarrow> 'a ander_scheme \<Rightarrow> node_id \<Rightarrow> node_id \<Rightarrow> bool" where
  "fresh_heap ptr s v o1 \<longleftrightarrow>
     (\<exists>p1 p2. addDummyValNode (irs s) = Some (v, p1) \<and> addDummyObjNode ptr p1 = Some (o1, p2))
     \<and> v \<notin> set (cnodes (consCG s)) \<and> rep_of s v = v"

lemma addDummy_vars:
  assumes "addDummyValNode p = Some (v, p1)" "addDummyObjNode ptr p1 = Some (o1, p2)"
  shows "svfVars p2 = (svfVars p)(v \<mapsto> ValVar True, o1 \<mapsto> BaseObjVar ptr False)" "memToFields p2 = memToFields p"
    "o1 \<noteq> v" "svfVars p o1 = None"
  using assms by (auto simp: addDummyValNode_def addDummyObjNode_def setNumOfElements_def hasGNode_def Option.bind_eq_Some_conv split: if_splits)

lemma allocate_ok:
  assumes d: "diff_inv s" and f: "fresh_heap (csPtrTy (pCalls P cs)) s v o1"
    and c: "csCalled (pCalls P cs) = None" "csRet (pCalls P cs) = Some r" "callsite2DummyValPN s cs = None"
    and r: "live (consCG s) (rep_of s r)"
  shows "\<exists>s' cpy'. heapAllocatorViaIndCall P cs (s, cpy) = Some (s', cpy') \<and> diff_inv s' \<and> linked s' v r
    \<and> o1 \<in> set (getPts s' v) \<and> callsite2DummyValPN s' cs = Some v \<and> (v, rep_of s r) \<in> set cpy'
    \<and> isBaseObj o1 (irs s') \<and> memToFields (irs s') = memToFields (irs s)"
proof -
  obtain p1 p2 where a: "addDummyValNode (irs s) = Some (v, p1)" "addDummyObjNode (csPtrTy (pCalls P cs)) p1 = Some (o1, p2)"
    and n: "v \<notin> set (cnodes (consCG s))" "rep_of s v = v"
    using f by (auto simp: fresh_heap_def)
  obtain t where t: "newHeapObject cs (csPtrTy (pCalls P cs)) s = Some (v, t)" using newHeapObject_state[OF a] by blast
  note T = newHeapObject_inv[OF d a t]
  have lv: "live (consCG t) (rep_of t v)" "live (consCG t) (rep_of t r)"
    using T(5) r n(2) unfolding live_def T(3) rep_of_def[symmetric] by auto
  have rt: "rep_of t v = v" using n(2) T(3) by simp
  obtain st where st: "copyBetween (rep_of t v) (rep_of t r) (t, cpy) = Some st" "conn_step (t, cpy) st" "linked (fst st) v r"
    using copyBetween_ok[of "(t, cpy)" v r] T(2) lv by auto
  note D = conn_stepD[OF st(2)]
  have vr: "v \<noteq> rep_of s r" using r n(1) by (auto simp: live_def)
  have no: "\<not> hasEdge Copy v (rep_of t r) (consCG t)"
  proof
    assume "hasEdge Copy v (rep_of t r) (consCG t)"
    then obtain e where "e \<in> set (cedges (consCG s))" "esrc e = v" by (auto simp: hasEdge_iff T(4))
    then show False using d n(1) by (auto simp: diff_inv_def consg_inv_def live_def)
  qed
  have "linked (fst st) v r" using st(3) .
  moreover have neq: "rep_of (fst st) v \<noteq> rep_of (fst st) r" using vr rt by (simp add: D T(3))
  ultimately have "hasEdge Copy v (rep_of s r) (consCG (fst st))" by (simp add: linked_def D T(3) rt n(2))
  then obtain e where e: "e \<in> set (cedges (consCG (fst st)))" "ekind e = Copy" "esrc e = v" "edst e = rep_of s r"
    by (auto simp: hasEdge_iff)
  have "e \<notin> set (cedges (consCG t))" using no e by (auto simp: hasEdge_iff T(3))
  then have "(esrc e, edst e) \<in> set (snd st)" using st(2) e(1) unfolding conn_step_def fst_conv by blast
  then have rec: "(v, rep_of s r) \<in> set (snd st)" using e by simp
  have "getPts (fst st) v = getPts t v" using st(2) wstep_getPts[of t "fst st" v] by (simp add: conn_step_def)
  then have pts: "o1 \<in> set (getPts (fst st) v)" using T(8) by (simp add: getPts_def rt)
  have m: "isBaseObj o1 (irs (fst st))" "memToFields (irs (fst st)) = memToFields (irs s)"
    using addDummy_vars(1,2)[OF a] by (auto simp: D T(7) isBaseObj_def)
  have "callsite2DummyValPN (fst st) = callsite2DummyValPN t"
    using st(1) by (auto simp: copyBetween_def addCopyEdge_def updatePropaPts_def Let_def Option.bind_eq_Some_conv split: if_splits)
  then have "callsite2DummyValPN (fst st) cs = Some v" using T(6) by simp
  moreover have "heapAllocatorViaIndCall P cs (s, cpy) = Some st"
    using t st(1) c rt by (simp add: heapAllocatorViaIndCall_def)
  ultimately show ?thesis using D(1) st(3) rec pts m by (cases st) auto
qed


section \<open>The update of the call graph\<close>

lemma addForkEdge_rest:
  assumes "addForkEdge C mark cs f g = Some (b, h)"
  shows "indirectCallMap h = indirectCallMap g \<and> numOfResolvedIndCallEdge h = numOfResolvedIndCallEdge g"
proof -
  obtain a n d where an: "funToCallGraphNode g (csCaller (C cs)) = Some a" "funToCallGraphNode g f = Some n"
      "getFunction n g = Some d"
    using assms by (auto simp: addForkEdge_def Option.bind_eq_Some_conv)
  obtain i g1 where c: "addCallSite cs d g = (i, g1)" by (cases "addCallSite cs d g")
  have s: "indirectCallMap (addThreadForkEdgeSetMap cs e (addCallEdge e g1)) = indirectCallMap g1"
    "numOfResolvedIndCallEdge (addThreadForkEdgeSetMap cs e (addCallEdge e g1)) = numOfResolvedIndCallEdge g1" for e
    by (simp_all add: addThreadForkEdgeSetMap_def insertCallInst_def addCallEdge_def)
  have "h = g1 \<or> (\<exists>e. h = addThreadForkEdgeSetMap cs e (addCallEdge e g1))"
    using assms by (auto simp: addForkEdge_def an c Option.bind_eq_Some_conv split: if_splits)
  then show ?thesis using addCallSite_counter[OF c] s by auto
qed

lemma threadSolve_rest:
  assumes "onTheFlyThreadCallGraphSolve P s (g, new) = Some (h, new')"
  shows "indirectCallMap h = indirectCallMap g \<and> numOfResolvedIndCallEdge h = numOfResolvedIndCallEdge g"
    "cgKind g = NormCallGraph \<Longrightarrow> h = g \<and> new' = new"
proof -
  let ?I = "\<lambda>(k, m :: call_edge_map). indirectCallMap k = indirectCallMap g \<and> numOfResolvedIndCallEdge k = numOfResolvedIndCallEdge g"
  have step: "?I st'" if H: "forkTarget P p cs i st = Some st'" "?I st" for p cs i st st'
  proof (cases "functionOf P p i = Some None")
    case True
    then show ?thesis using H by (auto simp: forkTarget_def)
  next
    case False
    obtain k m where st: "st = (k, m)" by (cases st)
    obtain f b k' where "addForkEdge (pCalls P) (addInDirectCallSite (pCalls P) cs) cs f k = Some (b, k')" "fst st' = k'"
      using H(1) False by (auto simp: forkTarget_def st addIndirectForkEdge_def Option.bind_eq_Some_conv split: option.splits)
    from addForkEdge_rest[OF this(1)] show ?thesis using H(2) \<open>fst st' = k'\<close> by (cases st') (simp add: st)
  qed
  show "indirectCallMap h = indirectCallMap g \<and> numOfResolvedIndCallEdge h = numOfResolvedIndCallEdge g"
  proof (cases "cgKind g = ThdCallGraph")
    case True
    have "?I (h, new')"
    proof (rule foldO_partial[where I = ?I])
      show "foldO (\<lambda>cs st.
         case csForkedFun (pCalls P cs) of
           None \<Rightarrow> None
         | Some (FunTarget _) \<Rightarrow> Some st
         | Some (VarTarget v) \<Rightarrow> foldO (forkTarget P (irs s) cs) (getPts s v) st) (forksites g) (g, new) = Some (h, new')"
        using assms True by (simp add: onTheFlyThreadCallGraphSolve_def)
      fix cs st st'
      assume I: "?I st" and r: "(case csForkedFun (pCalls P cs) of
           None \<Rightarrow> None
         | Some (FunTarget _) \<Rightarrow> Some st
         | Some (VarTarget v) \<Rightarrow> foldO (forkTarget P (irs s) cs) (getPts s v) st) = Some st'"
      show "?I st'"
      proof (cases "\<exists>v. csForkedFun (pCalls P cs) = Some (VarTarget v)")
        case True
        then obtain v where "foldO (forkTarget P (irs s) cs) (getPts s v) st = Some st'" using r by auto
        from foldO_partial[where I = ?I, OF this I] show ?thesis using step by blast
      next
        case False
        then show ?thesis using r I by (auto split: option.splits fork_target.splits)
      qed
    qed simp
    then show ?thesis by simp
  next
    case False
    then show ?thesis using assms by (simp add: onTheFlyThreadCallGraphSolve_def)
  qed
  show "cgKind g = NormCallGraph \<Longrightarrow> h = g \<and> new' = new"
    using assms by (simp add: onTheFlyThreadCallGraphSolve_def)
qed

lemma updateCallGraph_spec:
  assumes r: "cg_ready P callsites s g" and u: "updateCallGraph ct P chg callsites (s, g) = Some (changed, s', g')"
  shows "resolvedCalls g \<subseteq> resolvedCalls g' \<and> resolvedCalls g' \<subseteq> resolvedCalls g \<union> wantedCalls P callsites s"
    "numOfResolvedIndCallEdge g' = numOfResolvedIndCallEdge g + card (resolvedCalls g' - resolvedCalls g)
       \<and> (numOfResolvedIndCallEdge g' < IndirectCallLimit P \<longrightarrow> wantedCalls P callsites s \<subseteq> resolvedCalls g')"
    "\<not> changed \<Longrightarrow> s' = s \<and> resolvedCalls g' = resolvedCalls g"
    "changed \<Longrightarrow> cgKind g = NormCallGraph \<Longrightarrow>
       numOfResolvedIndCallEdge g < numOfResolvedIndCallEdge g' \<and> numOfResolvedIndCallEdge g' \<le> IndirectCallLimit P"
proof -
  obtain new g1 where st: "onTheFlyCallGraphSolve P chg callsites s ([], g) = Some (new, g1)"
      "resolvesUpTo P (wantedCalls P callsites s) g ([], g) (new, g1)"
    using solve_run[OF r] by force
  obtain st1 where st1: "connectAll (c_params ct P) new (s, []) = Some st1"
    using u st(1) by (auto simp: updateCallGraph_def Option.bind_eq_Some_conv)
  obtain fork g2 s2 cpy where th: "updateThreadCallGraph ct P g1 st1 = Some (fork, g2, s2, cpy)"
    using u st(1) st1 by (auto simp: updateCallGraph_def Option.bind_eq_Some_conv)
  have res: "changed = (new \<noteq> [] \<or> fork)" "g' = g2" "s' = fold (\<lambda>(src, dst). pushIntoWorklist src) cpy s2"
    using u st(1) st1 th by (auto simp: updateCallGraph_def)
  obtain newFork where tf: "onTheFlyThreadCallGraphSolve P (fst st1) (g1, []) = Some (g2, newFork)"
      "connectAll (c_fork ct P) newFork st1 = Some (s2, cpy)" "fork = (newFork \<noteq> [])"
    using th by (auto simp: updateThreadCallGraph_def Option.bind_eq_Some_conv)
  note T = threadSolve_rest[OF tf(1)]
  have eq: "resolvedCalls g' = resolvedCalls g1" "numOfResolvedIndCallEdge g' = numOfResolvedIndCallEdge g1"
    using T(1) by (simp_all add: res(2) resolvedCalls_def)
  have U: "cg_run g (new, g1)" "resolvedCalls g \<subseteq> resolvedCalls g1" "resolvedCalls g1 \<subseteq> resolvedCalls g \<union> wantedCalls P callsites s"
      "numOfResolvedIndCallEdge g1 \<le> max (numOfResolvedIndCallEdge g) (IndirectCallLimit P)"
      "numOfResolvedIndCallEdge g1 < IndirectCallLimit P \<longrightarrow> wantedCalls P callsites s \<subseteq> resolvedCalls g1"
    using st(2) by (simp_all add: resolvesUpTo_def)
  note N = cg_run_new[OF U(1), unfolded fst_conv snd_conv]
  show "resolvedCalls g \<subseteq> resolvedCalls g' \<and> resolvedCalls g' \<subseteq> resolvedCalls g \<union> wantedCalls P callsites s"
    using U(2,3) unfolding eq by blast
  show "numOfResolvedIndCallEdge g' = numOfResolvedIndCallEdge g + card (resolvedCalls g' - resolvedCalls g)
       \<and> (numOfResolvedIndCallEdge g' < IndirectCallLimit P \<longrightarrow> wantedCalls P callsites s \<subseteq> resolvedCalls g')"
    using N U(5) unfolding eq by simp
  show "s' = s \<and> resolvedCalls g' = resolvedCalls g" if "\<not> changed"
  proof -
    have n: "new = []" "newFork = []" using that res(1) tf(3) by auto
    then have "s2 = s" "cpy = []" using st1 tf(2) by (simp_all add: connectAll_def)
    moreover have "resolvedCalls g1 = resolvedCalls g" using N(1) U(2) n(1) by auto
    ultimately show ?thesis by (simp add: res(3) eq)
  qed
  show "numOfResolvedIndCallEdge g < numOfResolvedIndCallEdge g' \<and> numOfResolvedIndCallEdge g' \<le> IndirectCallLimit P"
    if "changed" "cgKind g = NormCallGraph"
  proof -
    have "cgKind g1 = NormCallGraph" using U(1) that(2) by (simp add: cg_run_def)
    then have "\<not> fork" using T(2) tf(3) by simp
    then have "new \<noteq> []" using that(1) res(1) by simp
    then have "callEdges new \<noteq> {}" using U(1) by (simp add: cg_run_def)
    then have "0 < card (callEdges new)" using finite_callEdges by (simp add: card_gt_0_iff)
    then show ?thesis using N(2) U(4) unfolding eq by simp
  qed
qed

lemma fifo_find_push: "fifo_find d (snd (fifo_push x w)) \<longleftrightarrow> d = x \<or> fifo_find d w"
  by (auto simp: fifo_push_def fifo_find_def)

lemma push_sources:
  "fold (\<lambda>(src, dst). pushIntoWorklist src) xs s = s\<lparr>wlist := wlist (fold (\<lambda>(src, dst). pushIntoWorklist src) xs s)\<rparr>
   \<and> (\<forall>(a, b) \<in> set xs. fifo_find (rep_of s a) (wlist (fold (\<lambda>(src, dst). pushIntoWorklist src) xs s)))
   \<and> (\<forall>d. fifo_find d (wlist s) \<longrightarrow> fifo_find d (wlist (fold (\<lambda>(src, dst). pushIntoWorklist src) xs s)))"
proof (induction xs arbitrary: s)
  case (Cons x xs)
  obtain a b where x: "x = (a, b)" by (cases x)
  let ?s = "pushIntoWorklist a s"
  have r: "rep_of ?s = rep_of s" by (simp add: pushIntoWorklist_def rep_of_def fun_eq_iff)
  have w: "?s = s\<lparr>wlist := wlist ?s\<rparr>" "fifo_find (rep_of s a) (wlist ?s)" "\<forall>d. fifo_find d (wlist s) \<longrightarrow> fifo_find d (wlist ?s)"
    by (simp_all add: pushIntoWorklist_def fifo_find_push)
  note IH = Cons.IH[of ?s]
  have "fold (\<lambda>(src, dst). pushIntoWorklist src) (x # xs) s = fold (\<lambda>(src, dst). pushIntoWorklist src) xs ?s" by (simp add: x)
  moreover have "t = s\<lparr>wlist := wlist t\<rparr>" if "t = ?s\<lparr>wlist := wlist t\<rparr>" for t
  proof -
    have "?s\<lparr>wlist := wlist t\<rparr> = s\<lparr>wlist := wlist t\<rparr>" by (simp add: pushIntoWorklist_def)
    then show ?thesis using that by simp
  qed
  ultimately show ?case using IH w(2,3) unfolding r x by auto
qed simp

text \<open>A call with a callee whose parameters can be connected.\<close>

definition connectable :: "program \<Rightarrow> 'a ander_scheme \<Rightarrow> nat \<times> nat \<Rightarrow> bool" where
  "connectable P s = (\<lambda>(cs, f). call_tracked P cs f s \<and> \<not> fnHeapAlloc (pFuns P f))"

abbreviation connected :: "program \<Rightarrow> 'a ander_scheme \<Rightarrow> 'a ander_scheme \<Rightarrow> nat \<times> nat \<Rightarrow> bool" where
  "connected P s t \<equiv> \<lambda>(cs, f). ret_linked P cs f s t \<and> args_linked P cs f s t"

lemma connected_step: "conn_step st st' \<Longrightarrow> connected P s (fst st) p \<Longrightarrow> connected P s (fst st') p"
  using conn_step_linked[of st st'] by (fastforce simp: ret_linked_def args_linked_def)

lemma connectable_step: "conn_step st st' \<Longrightarrow> connectable P (fst st') = connectable P (fst st)"
  using call_tracked_step[of st st'] by (auto simp: connectable_def fun_eq_iff)

lemma connected_from: "conn_step st st' \<Longrightarrow> connected P (fst st') t = connected P (fst st) t"
  using conn_stepD(4)[of st st'] by (simp add: ret_linked_def args_linked_def)

lemma connectAll_ok:
  assumes "diff_inv (fst st)" "\<forall>(cs, fs) \<in> set edges. \<forall>f \<in> set fs. connectable P (fst st) (cs, f)"
  shows "\<exists>st'. connectAll (connectCaller2CalleeParams P) edges st = Some st' \<and> conn_step st st'
    \<and> (\<forall>(cs, fs) \<in> set edges. \<forall>f \<in> set fs. connected P (fst st) (fst st') (cs, f))"
proof -
  have one: "\<exists>st'. foldO (connectCaller2CalleeParams P cs) fs u = Some st' \<and> conn_step u st'
      \<and> (\<forall>f \<in> set fs. connected P (fst u) (fst st') (cs, f))"
    if "diff_inv (fst u)" "\<forall>f \<in> set fs. connectable P (fst u) (cs, f)" for cs fs u
    using that
  proof (induction fs arbitrary: u)
    case (Cons f fs)
    have f: "call_tracked P cs f (fst u)" "\<not> fnHeapAlloc (pFuns P f)" using Cons.prems(2) by (simp_all add: connectable_def)
    obtain u1 where u1: "connectCaller2CalleeParams P cs f u = Some u1" "conn_step u u1" "connected P (fst u) (fst u1) (cs, f)"
      using connect_ok[OF Cons.prems(1) f(1)] f(2) by auto
    have "\<forall>f \<in> set fs. connectable P (fst u1) (cs, f)" using Cons.prems(2) by (simp add: connectable_step[OF u1(2)])
    then obtain u2 where u2: "foldO (connectCaller2CalleeParams P cs) fs u1 = Some u2" "conn_step u1 u2"
        "\<forall>f \<in> set fs. connected P (fst u1) (fst u2) (cs, f)"
      using Cons.IH[OF conn_stepD(1)[OF u1(2)]] by blast
    show ?case
      using u1(1) u2(1,3) conn_step_trans[OF u1(2) u2(2)] connected_step[OF u2(2) u1(3)] unfolding connected_from[OF u1(2)] by auto
  qed (auto intro: conn_step_refl)
  show ?thesis
    using assms unfolding connectAll_def
  proof (induction edges arbitrary: st)
    case (Cons x edges)
    obtain cs fs where x: "x = (cs, fs)" by (cases x)
    obtain u1 where u1: "foldO (connectCaller2CalleeParams P cs) fs st = Some u1" "conn_step st u1"
        "\<forall>f \<in> set fs. connected P (fst st) (fst u1) (cs, f)"
      using one[OF Cons.prems(1), of fs cs] Cons.prems(2) x by auto
    have "\<forall>(cs, fs) \<in> set edges. \<forall>f \<in> set fs. connectable P (fst u1) (cs, f)"
      using Cons.prems(2) by (simp add: connectable_step[OF u1(2)])
    then obtain u2 where u2: "foldO (\<lambda>(cs, functions). foldO (connectCaller2CalleeParams P cs) functions) edges u1 = Some u2"
        "conn_step u1 u2" "\<forall>(cs, fs) \<in> set edges. \<forall>f \<in> set fs. connected P (fst u1) (fst u2) (cs, f)"
      using Cons.IH[OF conn_stepD(1)[OF u1(2)]] by blast
    have "\<forall>f \<in> set fs. connected P (fst st) (fst u2) (cs, f)" using u1(3) connected_step[OF u2(2)] by blast
    then show ?case
      using u1(1) u2(1,3) conn_step_trans[OF u1(2) u2(2)] unfolding connected_from[OF u1(2)] by (auto simp: x)
  qed (auto intro: conn_step_refl)
qed

lemma entries_callEdges:
  assumes "edge_map_inv m" "(cs, fs) \<in> set m"
  shows "f \<in> set fs \<longleftrightarrow> (cs, f) \<in> callEdges m"
proof -
  have "distinct (map fst m)" using assms(1) strict_sorted_iff by (auto simp: edge_map_inv_def)
  from map_of_is_SomeI[OF this assms(2)] show ?thesis by (simp add: callEdges_def targetsOf_def)
qed

lemma callEdges_entry: "(cs, f) \<in> callEdges m \<Longrightarrow> \<exists>fs. (cs, fs) \<in> set m \<and> f \<in> set fs"
  by (cases "map_of m cs") (auto simp: callEdges_def targetsOf_def dest: map_of_SomeD)

lemma updateCallGraph_total:
  assumes r: "cg_ready P callsites s g" and d: "diff_inv s" and k: "cgKind g = NormCallGraph"
    and c: "\<forall>p \<in> wantedCalls P callsites s - resolvedCalls g. connectable P s p"
  shows "\<exists>changed s' g'. updateCallGraph andersen_connectors P chg callsites (s, g) = Some (changed, s', g') \<and> diff_inv s'
    \<and> getPts s' = getPts s \<and> (\<forall>p \<in> resolvedCalls g' - resolvedCalls g. connected P s s' p)
    \<and> (\<forall>e \<in> set (cedges (consCG s')) - set (cedges (consCG s)). ekind e = Copy \<and> eguard e = None \<and> fifo_find (esrc e) (wlist s'))"
proof -
  obtain new g1 where st: "onTheFlyCallGraphSolve P chg callsites s ([], g) = Some (new, g1)"
      "resolvesUpTo P (wantedCalls P callsites s) g ([], g) (new, g1)"
    using solve_run[OF r] by force
  have run: "cg_run g (new, g1)" using st(2) by (rule upTo_run)
  have k1: "cgKind g1 = NormCallGraph" and m: "edge_map_inv new" using run k by (simp_all add: cg_run_def)
  note N = cg_run_new(1)[OF run, unfolded fst_conv snd_conv]
  have sub: "callEdges new \<subseteq> wantedCalls P callsites s - resolvedCalls g" using st(2) N by (auto simp: resolvesUpTo_def)
  have "connectable P s (cs, f)" if "(cs, fs) \<in> set new" "f \<in> set fs" for cs fs f
    using entries_callEdges[OF m that(1)] that(2) sub c by blast
  then have "\<forall>(cs, fs) \<in> set new. \<forall>f \<in> set fs. connectable P (fst (s, [] :: node_pairs)) (cs, f)" by auto
  then obtain st1 where st1: "connectAll (connectCaller2CalleeParams P) new (s, []) = Some st1" "conn_step (s, []) st1"
      "\<forall>(cs, fs) \<in> set new. \<forall>f \<in> set fs. connected P s (fst st1) (cs, f)"
    using connectAll_ok[of "(s, [])" new P] d by auto
  obtain s1 cpy where s1: "st1 = (s1, cpy)" by (cases st1)
  let ?s' = "fold (\<lambda>(src, dst). pushIntoWorklist src) cpy s1"
  have th: "updateThreadCallGraph andersen_connectors P g1 st1 = Some (False, g1, s1, cpy)"
    by (simp add: updateThreadCallGraph_def onTheFlyThreadCallGraphSolve_def k1 connectAll_def s1)
  have u: "updateCallGraph andersen_connectors P chg callsites (s, g) = Some (new \<noteq> [], ?s', g1)"
    using st(1) st1(1) th by (simp add: updateCallGraph_def andersen_connectors_def)
  note D = conn_stepD[OF st1(2), unfolded s1 fst_conv]
  note p = push_sources[of cpy s1]
  obtain w where w: "?s' = s1\<lparr>wlist := w\<rparr>" "\<forall>(a, b) \<in> set cpy. fifo_find (rep_of s1 a) w" using p by blast
  have lk: "linked (s1\<lparr>wlist := w\<rparr>) = linked s1" by (simp add: linked_def rep_of_def fun_eq_iff)
  have con: "connected P s ?s' p = connected P s s1 p" for p unfolding w(1) ret_linked_def args_linked_def lk ..
  have dp: "diff_inv ?s'" "getPts ?s' = getPts s1" unfolding w(1) using D(1) by (simp_all add: getPts_def rep_of_def fun_eq_iff)
  have ws: "wstep s s1" using st1(2) by (simp add: conn_step_def s1)
  have pts: "getPts s1 = getPts s" using wstep_getPts[OF ws] by (rule ext)
  have "connected P s ?s' p" if p: "p \<in> resolvedCalls g1 - resolvedCalls g" for p
  proof -
    obtain cs f where cf: "p = (cs, f)" by (cases p)
    have "(cs, f) \<in> callEdges new" using p cf N by simp
    then obtain fs where "(cs, fs) \<in> set new" "f \<in> set fs" using callEdges_entry by blast
    then show ?thesis unfolding con cf using st1(3) by (auto simp: s1)
  qed
  moreover have "ekind e = Copy \<and> eguard e = None \<and> fifo_find (esrc e) (wlist ?s')"
    if e: "e \<in> set (cedges (consCG ?s')) - set (cedges (consCG s))" for e
  proof -
    have es: "e \<in> set (cedges (consCG s1)) - set (cedges (consCG s))" using e unfolding w(1) by simp
    have k: "ekind e = Copy \<and> eguard e = None \<and> (esrc e, edst e) \<in> set cpy"
      using st1(2) es unfolding conn_step_def s1 fst_conv snd_conv by blast
    have "live (consCG s1) (esrc e)" using D(1) es by (auto simp: diff_inv_def consg_inv_def)
    then have "rep_of s1 (esrc e) = esrc e" by (rule rep_of_live)
    then show ?thesis using k w(2) unfolding w(1) by force
  qed
  ultimately show ?thesis using u dp pts by (intro exI[of _ "new \<noteq> []"] exI[of _ ?s'] exI[of _ g1]) simp
qed

section \<open>Cleaning up\<close>

lemma fold_resetRep: "nodeToRep (fold resetRep is g) = (\<lambda>i. if i \<in> set is then None else nodeToRep g i)
    \<and> nodeToSubs (fold resetRep is g) = nodeToSubs g \<and> cnodes (fold resetRep is g) = cnodes g"
  by (induction "is" arbitrary: g) (auto simp: resetRep_def fun_eq_iff)


lemma cleanConsCG_eq:
  assumes "scc_ok g" "sccRepNode g i \<noteq> i" "i \<notin> set (cnodes g)"
  shows "\<exists>h. cleanConsCG i g = Some h \<and> nodeToRep h = (nodeToRep g)(i := None)
    \<and> nodeToSubs h = (nodeToSubs g)(sccRepNode g i := [], i := [])"
proof -
  let ?r = "sccRepNode g i"
  have "\<not> (\<exists>j. j \<in> set (nodeToSubs g i))"
  proof
    assume "\<exists>j. j \<in> set (nodeToSubs g i)"
    then obtain j where "sccRepNode g j = i" using assms(1) by (auto simp: scc_ok_def)
    then have "sccRepNode g i = i" using assms(1) by (auto simp: scc_ok_def rep_ok_def)
    then show False using assms(2) by simp
  qed
  then have n: "nodeToSubs g i = []" by (cases "nodeToSubs g i") auto
  then show ?thesis
    using assms(3) n by (simp add: cleanConsCG_def resetSubs_def resetRep_def Let_def)
qed

end
