(* ===== verification/OnTheFly.thy ===== *)
theory OnTheFly
  imports CallGraph_Solve
begin

text \<open>
  Properties of the call graph that is built on the fly (theory \<open>CallGraph_Solve\<close> has the lemmas).
\<close>

section \<open>Properties\<close>

text \<open>Call 1 of function 5, through node 10, which points to object 4: function 6 with the formal argument 12.\<close>

definition demo_program :: program where
  "demo_program = \<lparr>
     pCalls = (\<lambda>_. \<lparr>csCaller = 5, csCalled = None, csForkedFun = None, csBB = 0, csParams = [10], csVarArg = False, csRet = Some 12,
       csArgs = Some [10], csVirtual = False, csVtable = None, csFunIdx = 0, csFunName = [], csPtrTy = True\<rparr>),
     pFuns = (\<lambda>f. \<lparr>fnName = ''f'', fnDef = None, fnParams = [12], fnVarArg = False,
       fnRet = None, fnArgs = Some [12], fnVarargNode = None, fnHeapAlloc = False\<rparr>),
     objFunction = [4 \<mapsto> 6], globalObj = (\<lambda>_. False), globalOfVal = (\<lambda>_. None), objName = (\<lambda>_. ''o''), varType = (\<lambda>_. 0),
     indirectCallsites = [(1, 10)], IndirectCallLimit = 100, ConnectVCallOnCHA = False\<rparr>"

definition demo_cg :: thread_callgraph where
  "demo_cg = callgraph.extend demo_nodes \<lparr>forksites = [], joinsites = [], forkEdges = (\<lambda>_. None), joinEdges = (\<lambda>_. None)\<rparr>"

lemma cg_inv_extend: "cg_inv (callgraph.extend g x) = cg_inv g"
  by (simp add: cg_inv_def nodes_inv_def ids_inv_def edge_inv_def insts_def getFunction_def callgraph.defs)

lemma demo_cg_fields:
  "cg_inv demo_cg" "cgKind demo_cg = NormCallGraph" "indirectCallMap demo_cg = []" "totalCallSiteNum demo_cg = 1"
  "funToCallGraphNode demo_cg = [5 \<mapsto> 0, 6 \<mapsto> 1, 7 \<mapsto> 2]" "numOfResolvedIndCallEdge demo_cg = 0"
proof -
  have "cg_inv demo_nodes"
    unfolding demo_nodes_def by (intro addCallGraphNode_ok(1) new_callgraph_inv) (simp_all add: new_callgraph_def addCallGraphNode_def Let_def)
  then show "cg_inv demo_cg" unfolding demo_cg_def cg_inv_extend .
  show "cgKind demo_cg = NormCallGraph" "indirectCallMap demo_cg = []" "numOfResolvedIndCallEdge demo_cg = 0"
    by (simp_all add: demo_cg_def callgraph.defs demo_nodes_def new_callgraph_def addCallGraphNode_def Let_def)
  show "totalCallSiteNum demo_cg = 1" "funToCallGraphNode demo_cg = [5 \<mapsto> 0, 6 \<mapsto> 1, 7 \<mapsto> 2]"
    by (simp_all add: demo_cg_def callgraph.defs demo_nodes_eq)
qed

lemma demo_targets: "getPts demo_ander 10 = [4]" "functionOf demo_program (irs demo_ander) 4 = Some (Some 6)"
  using demo_ander_graph(3)
  by (simp_all add: getPts_live demo_ander_pts functionOf_def)
    (simp_all add: demo_ander_def demo_pag_def addBaseObjNode_def hasGNode_def getBaseObject_def demo_program_def)

lemma demo_callsites: "indirectCallsites demo_program = [(1, 10)]" "IndirectCallLimit demo_program = 100"
  by (simp_all add: demo_program_def)

lemma demo_targetFuns: "targetFuns demo_program p 1 i = {6}" if "functionOf demo_program p i = Some (Some 6)" for p
proof -
  have "getDefFunForMultipleModule (pFuns demo_program) 6 = 6" "matchArgs demo_program 1 6"
    by (simp_all add: demo_program_def getDefFunForMultipleModule_def matchArgs_def isTDFork_def cs_arg_size_def fn_arg_size_def)
  then show ?thesis using that by (simp add: targetFuns_def)
qed

lemma demo_wanted: "wantedCalls demo_program [(1, 10)] demo_ander = {(1, 6)}"
  using demo_targetFuns[OF demo_targets(2)] by (auto simp: wantedCalls_def demo_targets(1))

lemma demo_ready: "cg_ready demo_program [(1, 10)] demo_ander demo_cg"
proof -
  have "callReady demo_program demo_cg 1" "budget demo_program demo_cg" "funsReady demo_program demo_cg"
    by (simp_all add: callReady_def budget_def funsReady_def demo_cg_fields demo_program_def isIndirectCallSites_def
        getDefFunForMultipleModule_def)
  then show ?thesis using demo_cg_fields(1,3) demo_targets by (simp add: cg_ready_def)
qed

text \<open>
  C3: Solving the call graph on the fly for a list of indirect calls, none of them virtual,
  succeeds when the callers and the functions have nodes, the points-to sets hold known nodes and
  the ids of the call sites stay below \<open>2 ^ 24\<close> up to the limit \<^verbatim>\<open>IndirectCallLimit\<close>. The new edges are
  callees the points-to sets ask for, with matching arguments and taken to the defining module,
  that the calls were not resolved to before. While the number of resolved calls is below the
  limit they are all of these; when the limit is reached some may be missing. The new edges, and
  no others, get into the map of resolved calls and become callees in the call graph, which
  stays well formed.
\<close>

theorem onTheFlyCallGraphSolve_exact:
  assumes "cg_ready P callsites s g"
  shows "\<exists>new g'. onTheFlyCallGraphSolve P chg callsites s ([], g) = Some (new, g') \<and> cg_inv g'
    \<and> resolvedCalls g' = resolvedCalls g \<union> callEdges new
    \<and> callEdges new \<subseteq> wantedCalls P callsites s - resolvedCalls g
    \<and> (numOfResolvedIndCallEdge g' < IndirectCallLimit P \<longrightarrow> callEdges new = wantedCalls P callsites s - resolvedCalls g)
    \<and> (\<forall>cs. callees g' cs = callees g cs \<union> {f. (cs, f) \<in> callEdges new})"
proof -
  obtain new g' where st: "onTheFlyCallGraphSolve P chg callsites s ([], g) = Some (new, g')"
      and u: "resolvesUpTo P (wantedCalls P callsites s) g ([], g) (new, g')"
    using solve_run[OF assms] by force
  have run: "cg_run g (new, g')" using u by (rule upTo_run)
  note N = cg_run_new(1)[OF run, unfolded fst_conv snd_conv]
  have U: "resolvedCalls g \<subseteq> resolvedCalls g'" "resolvedCalls g' \<subseteq> resolvedCalls g \<union> wantedCalls P callsites s"
    "numOfResolvedIndCallEdge g' < IndirectCallLimit P \<longrightarrow> wantedCalls P callsites s \<subseteq> resolvedCalls g'"
    using u by (simp_all add: resolvesUpTo_def)
  have "callEdges new \<subseteq> wantedCalls P callsites s - resolvedCalls g" using U(2) N by blast
  moreover have "numOfResolvedIndCallEdge g' < IndirectCallLimit P \<longrightarrow> callEdges new = wantedCalls P callsites s - resolvedCalls g"
    using U N by blast
  moreover have "cg_inv g'" "resolvedCalls g' = resolvedCalls g \<union> callEdges new"
      "\<forall>cs. callees g' cs = callees g cs \<union> {f. (cs, f) \<in> callEdges new}"
    using run by (simp_all add: cg_run_def)
  ultimately show ?thesis using st by blast
qed

theorem onTheFlyCallGraphSolve_exact_witness:
  "\<exists>new g'. onTheFlyCallGraphSolve demo_program demo_chg [(1, 10)] demo_ander ([], demo_cg) = Some (new, g')
    \<and> callEdges new \<subseteq> {(1, 6)} \<and> (100 \<le> numOfResolvedIndCallEdge g' \<or> callees g' 1 = callees demo_cg 1 \<union> {6})"
proof -
  have n: "resolvedCalls demo_cg = {}" by (simp add: resolvedCalls_def demo_cg_fields)
  obtain new g' where g: "onTheFlyCallGraphSolve demo_program demo_chg [(1, 10)] demo_ander ([], demo_cg) = Some (new, g')"
      "callEdges new \<subseteq> {(1, 6)}" "numOfResolvedIndCallEdge g' < 100 \<longrightarrow> callEdges new = {(1, 6)}"
      "\<forall>cs. callees g' cs = callees demo_cg cs \<union> {f. (cs, f) \<in> callEdges new}"
    using onTheFlyCallGraphSolve_exact[OF demo_ready, of demo_chg] unfolding demo_wanted n demo_callsites by auto
  have "100 \<le> numOfResolvedIndCallEdge g' \<or> callees g' 1 = callees demo_cg 1 \<union> {6}"
    using g(3,4) by (cases "numOfResolvedIndCallEdge g' < 100") auto
  then show ?thesis using g(1,2) by blast
qed

lemma demo_tracked: "tracked demo_ander 10" "tracked demo_ander 12" "pointer demo_ander 10" "pointer demo_ander 12"
proof -
  show p: "pointer demo_ander 10" "pointer demo_ander 12" by (simp_all add: demo_ander_def isPointer.simps)
  show "tracked demo_ander 10" "tracked demo_ander 12"
    using demo_ander_graph(3,5) p by (simp_all add: tracked_def rep_of_live)
qed

lemma demo_call_tracked: "call_tracked demo_program 1 6 demo_ander"
  using demo_tracked by (simp add: call_tracked_def demo_program_def)

text \<open>
  C2: A round of the update of the call graph succeeds for the plain call graph; the one with
  threads, which is built by default, is not covered. The indirect calls are
  not virtual (\<open>cg_ready\<close>), no callee allocates on the heap, and the parameters and results are
  nodes of the graph (\<open>connectable\<close>); the sets are propagated (\<open>diff_inv\<close>). The round only adds
  resolved calls the points-to sets ask for, all of them while the number of resolved calls is
  below \<^verbatim>\<open>IndirectCallLimit\<close>, possibly not all once the limit is reached; the parameters of
  each new call are connected, no points-to set changes, and every new edge is an unguarded copy
  edge whose source is in the worklist. When the round reports no change, the state is untouched
  and so are the resolved calls; when it reports one, the number of resolved calls has grown and
  is within the limit, so that only boundedly many rounds can report a change.
\<close>

theorem updateCallGraph_correct:
  assumes "cg_ready P callsites s g" "diff_inv s" "cgKind g = NormCallGraph"
    and "\<forall>p \<in> wantedCalls P callsites s - resolvedCalls g. connectable P s p"
  shows "\<exists>changed s' g'. updateCallGraph andersen_connectors P chg callsites (s, g) = Some (changed, s', g') \<and> diff_inv s'
    \<and> getPts s' = getPts s 
    \<and> resolvedCalls g \<subseteq> resolvedCalls g' \<and> resolvedCalls g' \<subseteq> resolvedCalls g \<union> wantedCalls P callsites s
    \<and> numOfResolvedIndCallEdge g' = numOfResolvedIndCallEdge g + card (resolvedCalls g' - resolvedCalls g)
    \<and> (numOfResolvedIndCallEdge g' < IndirectCallLimit P \<longrightarrow> wantedCalls P callsites s \<subseteq> resolvedCalls g')
    \<and> (\<forall>(cs, f) \<in> resolvedCalls g' - resolvedCalls g. ret_linked P cs f s s' \<and> args_linked P cs f s s')
    \<and> (\<forall>e \<in> set (cedges (consCG s')) - set (cedges (consCG s)). ekind e = Copy \<and> eguard e = None \<and> fifo_find (esrc e) (wlist s'))
    \<and> (\<not> changed \<longrightarrow> s' = s \<and> resolvedCalls g' = resolvedCalls g)
    \<and> (changed \<longrightarrow> numOfResolvedIndCallEdge g < numOfResolvedIndCallEdge g' \<and> numOfResolvedIndCallEdge g' \<le> IndirectCallLimit P)"
proof -
  obtain changed s' g' where u: "updateCallGraph andersen_connectors P chg callsites (s, g) = Some (changed, s', g')"
    "diff_inv s' \<and> getPts s' = getPts s \<and> (\<forall>p \<in> resolvedCalls g' - resolvedCalls g. connected P s s' p)
      \<and> (\<forall>e \<in> set (cedges (consCG s')) - set (cedges (consCG s)). ekind e = Copy \<and> eguard e = None \<and> fifo_find (esrc e) (wlist s'))"
    using updateCallGraph_total[OF assms(1,2,3,4), of chg] by (elim exE conjE) blast
  from updateCallGraph_spec[OF assms(1) u(1)] u show ?thesis using assms(3) by blast
qed

theorem updateCallGraph_correct_witness:
  "\<exists>changed s' g'. updateCallGraph andersen_connectors demo_program demo_chg [(1, 10)] (demo_ander, demo_cg) = Some (changed, s', g')
    \<and> (1, 6) \<in> resolvedCalls g' \<and> linked s' 10 12"
proof -
  have n: "resolvedCalls demo_cg = {}" "numOfResolvedIndCallEdge demo_cg = 0" by (simp_all add: resolvedCalls_def demo_cg_fields)
  have "connectable demo_program demo_ander (1, 6)"
    using demo_call_tracked by (simp add: connectable_def) (simp add: demo_program_def)
  then have "\<forall>p \<in> wantedCalls demo_program [(1, 10)] demo_ander - resolvedCalls demo_cg. connectable demo_program demo_ander p"
    unfolding demo_wanted by blast
  from updateCallGraph_correct[OF demo_ready demo_ander_inv demo_cg_fields(2) this, of demo_chg]
  obtain changed s' g' where u: "updateCallGraph andersen_connectors demo_program demo_chg [(1, 10)] (demo_ander, demo_cg) = Some (changed, s', g')"
      "\<forall>p \<in> resolvedCalls g'. connected demo_program demo_ander s' p"
      "resolvedCalls g' \<subseteq> {(1, 6)}" "numOfResolvedIndCallEdge g' = card (resolvedCalls g')"
      "numOfResolvedIndCallEdge g' < 100 \<longrightarrow> {(1, 6)} \<subseteq> resolvedCalls g'"
    unfolding demo_wanted n demo_callsites Diff_empty add_0 Un_empty_left by blast
  have "card (resolvedCalls g') \<le> 1" using card_mono[OF _ u(3)] by simp
  then have r: "(1, 6) \<in> resolvedCalls g'" using u(4,5) by simp
  then have "args_linked demo_program 1 6 demo_ander s'" using u(2) by blast
  then have "linked s' 10 12" using demo_tracked by (auto simp: args_linked_def demo_program_def)
  then show ?thesis using u(1) r by blast
qed

text \<open>
  A function that allocates, called through a pointer, gets a value and an object of its own
  at the first call: the value points to the object and has a copy edge to the result of the
  call, and is recorded for the worklist. But the object is added without being entered into
  the map from objects to their fields, so it is not among its own fields, as every other base
  object is.
\<close>

theorem heapAllocatorViaIndCall_correct:
  assumes "diff_inv s" "pag_inv (irs s)" "fresh_heap (csPtrTy (pCalls P cs)) s v o1"
    and "csCalled (pCalls P cs) = None" "csRet (pCalls P cs) = Some r" "callsite2DummyValPN s cs = None"
    and "live (consCG s) (rep_of s r)"
  shows "\<exists>s' cpy'. heapAllocatorViaIndCall P cs (s, cpy) = Some (s', cpy') \<and> diff_inv s'
    \<and> o1 \<in> set (getPts s' v) \<and> linked s' v r \<and> callsite2DummyValPN s' cs = Some v \<and> (v, rep_of s r) \<in> set cpy'
    \<and> getAllFieldsObjVars o1 (irs s') = Some [] \<and> \<not> pag_inv (irs s')"
proof -
  obtain s' cpy' where h: "heapAllocatorViaIndCall P cs (s, cpy) = Some (s', cpy')" "diff_inv s'" "linked s' v r"
      "o1 \<in> set (getPts s' v)" "callsite2DummyValPN s' cs = Some v" "(v, rep_of s r) \<in> set cpy'"
      and b: "isBaseObj o1 (irs s')" "memToFields (irs s') = memToFields (irs s)"
    using allocate_ok[OF assms(1,3-7), of cpy] by blast
  have "svfVars (irs s) o1 = None" using assms(3) addDummy_vars(4) by (auto simp: fresh_heap_def)
  then have no: "getBaseObject i (irs s) \<noteq> Some o1" for i
    using getBaseObject_Some[of i "irs s" o1] by (auto simp: isBaseObj_def)
  have "i \<notin> set (memToFields (irs s) o1)" for i
    using assms(2) no[of i] unfolding pag_inv_def by blast
  then have e: "memToFields (irs s') o1 = []" by (metis b(2) list.set_intros(1) neq_Nil_conv)
  have g: "getBaseObject o1 (irs s') = Some o1" using getBaseObject_base[OF b(1)] .
  then have "\<not> pag_inv (irs s')" using e by (auto simp: pag_inv_def) (metis in_set_conv_nth list.size(3) not_less_zero)
  then show ?thesis using h e g by (auto simp: getAllFieldsObjVars_def)
qed

theorem heapAllocatorViaIndCall_correct_witness:
  "\<exists>s' cpy'. heapAllocatorViaIndCall demo_program 1 (demo_ander, []) = Some (s', cpy') \<and> 6 \<in> set (getPts s' 5)
    \<and> getAllFieldsObjVars 6 (irs s') = Some []"
proof -
  have vars: "svfVars (irs demo_ander) = [4 \<mapsto> BaseObjVar True False, 10 \<mapsto> ValVar True, 11 \<mapsto> ValVar True, 12 \<mapsto> ValVar True]"
    "memToFields (irs demo_ander) = (\<lambda>_. [])(4 := [4])" "gepObjVarMap (irs demo_ander) = (\<lambda>_. None)"
    by (simp_all add: demo_ander_def demo_pag_def addBaseObjNode_def hasGNode_def oset_insert_def fun_eq_iff)
  have inv: "pag_inv (irs demo_ander)"
    by (auto simp: pag_inv_def vars isBaseObj_def getBaseObject_def)
  have "fresh_heap True demo_ander 5 6"
    by (simp add: fresh_heap_def addDummyValNode_def addDummyObjNode_def allocateValueId_def allocateObjectId_def checkId_def
        demo_ander_def demo_pag_def addBaseObjNode_def hasGNode_def new_allocator_def increaseNumOfObjAndNodes_def rep_of_def sccRepNode_def empty_consg_def)
  then have f: "fresh_heap (csPtrTy (pCalls demo_program 1)) demo_ander 5 6" by (simp add: demo_program_def)
  have c: "csCalled (pCalls demo_program 1) = None" "csRet (pCalls demo_program 1) = Some 12" by (simp_all add: demo_program_def)
  have d: "callsite2DummyValPN demo_ander 1 = None" by (simp add: demo_ander_def)
  have "live (consCG demo_ander) (rep_of demo_ander 12)" using demo_ander_graph(5) by (simp add: rep_of_live)
  from heapAllocatorViaIndCall_correct[OF demo_ander_inv inv f c d this, of "[]"] show ?thesis by blast
qed

text \<open>
  Cleaning a merged node out of the constraint graph makes it its own representative, but
  empties the list of all nodes the representative stands for: the others that were merged
  still name it as their representative and are no longer among its sub nodes.
\<close>

theorem cleanConsCG_forgets:
  assumes "scc_ok g" "sccRepNode g i \<noteq> i" "i \<notin> set (cnodes g)" "j \<noteq> i" "sccRepNode g j = sccRepNode g i" "sccRepNode g j \<noteq> j"
  shows "\<exists>h. cleanConsCG i g = Some h \<and> sccRepNode h i = i \<and> sccRepNode h j = sccRepNode g i
    \<and> nodeToSubs h (sccRepNode g i) = [] \<and> \<not> scc_ok h"
proof -
  obtain h where h: "cleanConsCG i g = Some h" "nodeToRep h = (nodeToRep g)(i := None)"
      "nodeToSubs h = (nodeToSubs g)(sccRepNode g i := [], i := [])"
    using cleanConsCG_eq[OF assms(1-3)] by blast
  have r: "sccRepNode h i = i" "sccRepNode h j = sccRepNode g i"
    using assms(4,5) by (simp_all add: sccRepNode_def h(2))
  have s: "nodeToSubs h (sccRepNode g i) = []" by (simp add: h(3))
  have "\<not> scc_ok h"
  proof
    assume "scc_ok h"
    moreover have "sccRepNode h j \<noteq> j" using r(2) assms(5,6) by simp
    ultimately have "j \<in> set (nodeToSubs h (sccRepNode h j))" unfolding scc_ok_def by blast
    then show False using s r(2) by simp
  qed
  then show ?thesis using h(1) r s by blast
qed

definition demo_merged :: consg where
  "demo_merged = empty_consg\<lparr>cnodes := [1], nodeToRep := [2 \<mapsto> 1, 3 \<mapsto> 1], nodeToSubs := (\<lambda>_. [])(1 := [1, 2, 3])\<rparr>"

theorem cleanConsCG_forgets_witness:
  "\<exists>h. cleanConsCG 2 demo_merged = Some h \<and> sccRepNode h 3 = 1 \<and> nodeToSubs h 1 = [] \<and> \<not> scc_ok h"
proof -
  have r: "sccRepNode demo_merged = id(2 := 1, 3 := 1)" by (auto simp: demo_merged_def sccRepNode_def fun_eq_iff)
  have "scc_ok demo_merged"
    unfolding scc_ok_def rep_ok_def r by (auto simp: demo_merged_def)
  moreover have "2 \<notin> set (cnodes demo_merged)" by (simp add: demo_merged_def)
  ultimately have "\<exists>h. cleanConsCG 2 demo_merged = Some h \<and> sccRepNode h 2 = 2 \<and> sccRepNode h 3 = sccRepNode demo_merged 2
    \<and> nodeToSubs h (sccRepNode demo_merged 2) = [] \<and> \<not> scc_ok h"
    by (intro cleanConsCG_forgets) (simp_all add: r)
  then show ?thesis unfolding r by auto
qed

end
