(* ===== verification/CondOnTheFly.thy ===== *)
theory CondOnTheFly
  imports OnTheFly CondWave CondAndersen_Correct
begin

text \<open>
  The guarded connection of calls: \<^verbatim>\<open>connectCaller2CalleeParams\<close> and
  \<^verbatim>\<open>connectCaller2ForkedFunParams\<close> of \<^verbatim>\<open>src/SVF/svf/lib/WPA/ConditionalAndersen.cpp\<close> and
  \<^verbatim>\<open>ConditionalAndersenWaveDiff.cpp\<close>, which put the guard of the block of the call on the copy
  edges that the unconditional method adds.
\<close>

text \<open>\<open>guard\<close> is the class's \<^verbatim>\<open>getBBGuard\<close> of the block, \<open>base\<close> the method of \<^verbatim>\<open>AndersenBase\<close>.\<close>

definition connectGuarded :: "('a cander_scheme \<Rightarrow> pathcond \<times> 'a cander_scheme) \<Rightarrow>
    ('a cander_scheme \<times> node_pairs \<Rightarrow> ('a cander_scheme \<times> node_pairs) option) \<Rightarrow>
    'a cander_scheme \<times> node_pairs \<Rightarrow> ('a cander_scheme \<times> node_pairs) option" where
  "connectGuarded guard base = (\<lambda>(s, cpySrcNodes).
     let (csGuard, s1) = guard s in do {
       (s2, newEdges) \<leftarrow> base (s1, []);
       s3 \<leftarrow> foldO (\<lambda>(a, b). mergeCopyEdgeGuard a b csGuard False) newEdges s2;
       Some (s3, oset_insert_all newEdges cpySrcNodes)
     })"

definition cond_connectCaller2CalleeParams :: "(nat \<Rightarrow> basic_block option) \<Rightarrow> program \<Rightarrow> nat \<Rightarrow> nat \<Rightarrow>
    'a cander_scheme \<times> node_pairs \<Rightarrow> ('a cander_scheme \<times> node_pairs) option" where
  "cond_connectCaller2CalleeParams blocks P cs F =
     connectGuarded (onStore (getBBGuard (blocks (csBB (pCalls P cs))))) (connectCaller2CalleeParams P cs F)"

definition cond_connectCaller2ForkedFunParams :: "(nat \<Rightarrow> basic_block option) \<Rightarrow> program \<Rightarrow> nat \<Rightarrow> nat \<Rightarrow>
    'a cander_scheme \<times> node_pairs \<Rightarrow> ('a cander_scheme \<times> node_pairs) option" where
  "cond_connectCaller2ForkedFunParams blocks P cs F =
     connectGuarded (onStore (getBBGuard (blocks (csBB (pCalls P cs))))) (connectCaller2ForkedFunParams P cs F)"

definition wave_connectCaller2CalleeParams :: "(nat \<Rightarrow> bb_ref) \<Rightarrow> program \<Rightarrow> nat \<Rightarrow> nat \<Rightarrow>
    'a wander_scheme \<times> node_pairs \<Rightarrow> ('a wander_scheme \<times> node_pairs) option" where
  "wave_connectCaller2CalleeParams blocks P cs F =
     connectGuarded (wave_getBBGuard (blocks (csBB (pCalls P cs)))) (connectCaller2CalleeParams P cs F)"

definition wave_connectCaller2ForkedFunParams :: "(nat \<Rightarrow> bb_ref) \<Rightarrow> program \<Rightarrow> nat \<Rightarrow> nat \<Rightarrow>
    'a wander_scheme \<times> node_pairs \<Rightarrow> ('a wander_scheme \<times> node_pairs) option" where
  "wave_connectCaller2ForkedFunParams blocks P cs F =
     connectGuarded (wave_getBBGuard (blocks (csBB (pCalls P cs)))) (connectCaller2ForkedFunParams P cs F)"

definition cond_connectors :: "(nat \<Rightarrow> basic_block option) \<Rightarrow> 'a cander_scheme connectors" where
  "cond_connectors blocks = \<lparr>c_params = cond_connectCaller2CalleeParams blocks, c_fork = cond_connectCaller2ForkedFunParams blocks\<rparr>"

definition wave_connectors :: "(nat \<Rightarrow> bb_ref) \<Rightarrow> 'a wander_scheme connectors" where
  "wave_connectors blocks = \<lparr>c_params = wave_connectCaller2CalleeParams blocks, c_fork = wave_connectCaller2ForkedFunParams blocks\<rparr>"


section \<open>Guards of new edges\<close>

definition guardCopies :: "pathcond \<Rightarrow> (node_id \<times> node_id) set \<Rightarrow> cedge \<Rightarrow> cedge" where
  "guardCopies g X e = (if ekind e = Copy \<and> (esrc e, edst e) \<in> X then e\<lparr>eguard := Some g\<rparr> else e)"

lemma guardCopies_insert:
  assumes inv: "consg_inv G" and e: "e \<in> set (cedges G)" "ekind e = Copy" "(esrc e, edst e) \<notin> X"
  shows "insert (e\<lparr>eguard := Some g\<rparr>) (guardCopies g X ` set (cedges G) - {e})
    = guardCopies g (insert (esrc e, edst e) X) ` set (cedges G)" (is "?l = ?r")
proof -
  have uniq: "f = e" if "f \<in> set (cedges G)" "ekind f = Copy" "esrc f = esrc e" "edst f = edst e" for f
    using strict_key_inj inv e that by (auto simp: consg_inv_def ekey_def)
  have key: "ekind (guardCopies g X f) = ekind f" "esrc (guardCopies g X f) = esrc f" "edst (guardCopies g X f) = edst f" for f
    by (simp_all add: guardCopies_def)
  have same: "guardCopies g (insert (esrc e, edst e) X) f = guardCopies g X f" if "f \<in> set (cedges G)" "f \<noteq> e" for f
    using uniq[OF that(1)] that(2) by (auto simp: guardCopies_def)
  have ee: "guardCopies g X e = e" "guardCopies g (insert (esrc e, edst e) X) e = e\<lparr>eguard := Some g\<rparr>"
    using e by (simp_all add: guardCopies_def)
  have ne: "guardCopies g X f \<noteq> e" if "f \<in> set (cedges G)" "f \<noteq> e" for f
    using uniq[OF that(1)] that(2) key[of f] e(2) by metis
  have "guardCopies g X ` set (cedges G) - {e} = guardCopies g X ` (set (cedges G) - {e})"
    using ne ee(1) by auto
  also have "\<dots> = guardCopies g (insert (esrc e, edst e) X) ` (set (cedges G) - {e})" using same by auto
  finally have "?l = insert (guardCopies g (insert (esrc e, edst e) X) e) (guardCopies g (insert (esrc e, edst e) X) ` (set (cedges G) - {e}))"
    by (simp add: ee(2))
  also have "\<dots> = ?r" using e(1) by auto
  finally show ?thesis .
qed

definition guarding :: "pathcond \<Rightarrow> 'a cander_scheme \<Rightarrow> (node_id \<times> node_id) set \<Rightarrow> 'a cander_scheme \<Rightarrow> bool" where
  "guarding g s X t \<longleftrightarrow> consg_inv (consCG t) \<and> same_nodes (consCG s) (consCG t) \<and> ptD t = ptD s
     \<and> set (cedges (consCG t)) = guardCopies g X ` set (cedges (consCG s))"

lemma mergeNew_ok:
  assumes inv: "consg_inv (consCG s)" and g: "\<not> isTrue g" and I: "guarding g s X t"
    and e: "e \<in> set (cedges (consCG s))" "ekind e = Copy" "eguard e = None" "(esrc e, edst e) \<notin> X"
  shows "\<exists>t'. mergeCopyEdgeGuard (esrc e) (edst e) g False t = Some t' \<and> guarding g s (insert (esrc e, edst e) X) t'"
proof -
  have T: "consg_inv (consCG t)" "same_nodes (consCG s) (consCG t)"
      "set (cedges (consCG t)) = guardCopies g X ` set (cedges (consCG s))" using I by (simp_all add: guarding_def)
  have "guardCopies g X e = e" using e(4) by (simp add: guardCopies_def)
  then have et: "e \<in> set (cedges (consCG t))" using e(1) T(3) by (metis image_eqI)
  have l: "live (consCG t) (esrc e)" "live (consCG t) (edst e)" using consg_inv_ends[OF T(1) et] by simp_all
  have "findEdge Copy (esrc e) (edst e) (consCG t) = Some e" using e(2) et by (simp add: findEdge_Some[OF T(1)] ekey_def)
  then have r: "mergeCopyEdgeGuard (esrc e) (edst e) g False t = Some (t\<lparr>consCG := setGuard e (Some g) (consCG t)\<rparr>)"
    using g l e(3) by (simp add: mergeCopyEdgeGuard_def live_getConstraintNode orGuardOnEdge_def)
  have "set (cedges (setGuard e (Some g) (consCG t))) = guardCopies g (insert (esrc e, edst e) X) ` set (cedges (consCG s))"
    unfolding setGuard_cedges[OF T(1) et] T(3) using guardCopies_insert[OF inv e(1,2,4)] .
  then have "guarding g s (insert (esrc e, edst e) X) (t\<lparr>consCG := setGuard e (Some g) (consCG t)\<rparr>)"
    using I setGuard_inv[OF T(1)] same_nodes_trans[OF T(2) setGuard_nodes] by (simp add: guarding_def)
  then show ?thesis using r by blast
qed

lemma mergeAll_ok:
  assumes inv: "consg_inv (consCG s)" and g: "\<not> isTrue g"
    and xs: "distinct xs" "\<forall>(a, b) \<in> set xs. \<exists>e \<in> set (cedges (consCG s)). ekind e = Copy \<and> esrc e = a \<and> edst e = b \<and> eguard e = None"
  shows "\<exists>t. foldO (\<lambda>(a, b). mergeCopyEdgeGuard a b g False) xs s = Some t \<and> guarding g s (set xs) t"
proof -
  have "\<exists>t'. foldO (\<lambda>(a, b). mergeCopyEdgeGuard a b g False) ys t = Some t' \<and> guarding g s (X \<union> set ys) t'"
    if "guarding g s X t" "distinct ys" "set ys \<inter> X = {}" "set ys \<subseteq> set xs" for X ys t
    using that
  proof (induction ys arbitrary: X t)
    case (Cons y ys)
    obtain a b where y: "y = (a, b)" by (cases y)
    then obtain e where e: "e \<in> set (cedges (consCG s))" "ekind e = Copy" "esrc e = a" "edst e = b" "eguard e = None"
      using xs(2) Cons.prems(4) by fastforce
    have "(esrc e, edst e) \<notin> X" using Cons.prems(3) y e by auto
    from mergeNew_ok[OF inv g Cons.prems(1) e(1,2,5) this] obtain t1 where
      t1: "mergeCopyEdgeGuard a b g False t = Some t1" "guarding g s (insert (a, b) X) t1" by (auto simp: e)
    have "set ys \<inter> insert (a, b) X = {}" using Cons.prems(2,3) y by auto
    from Cons.IH[OF t1(2) _ this] Cons.prems(2,4) obtain t2 where
      t2: "foldO (\<lambda>(a, b). mergeCopyEdgeGuard a b g False) ys t1 = Some t2" "guarding g s (insert (a, b) X \<union> set ys) t2" by auto
    then show ?case using t1(1) by (auto simp: y insert_commute Un_insert_left)
  qed auto
  moreover have "guarding g s {} s" using inv by (simp add: guarding_def guardCopies_def)
  ultimately have "\<exists>t'. foldO (\<lambda>(a, b). mergeCopyEdgeGuard a b g False) xs s = Some t' \<and> guarding g s ({} \<union> set xs) t'"
    using xs(1) by blast
  then show ?thesis by simp
qed

lemma connectGuarded_ok:
  assumes g: "guard s = (g, s1)" "\<not> isTrue g" and b: "base (s1, []) = Some (s2, new)" "conn_step (s1, []) (s2, new)"
  shows "\<exists>s' cpy'. connectGuarded guard base (s, cpy) = Some (s', cpy') \<and> set cpy' = set cpy \<union> set new
    \<and> same_nodes (consCG s2) (consCG s') \<and> ptD s' = ptD s2
    \<and> set (cedges (consCG s1)) \<subseteq> set (cedges (consCG s'))
    \<and> (\<forall>e \<in> set (cedges (consCG s')) - set (cedges (consCG s1)).
         ekind e = Copy \<and> eguard e = Some g \<and> (esrc e, edst e) \<in> set cpy')
    \<and> (\<forall>k a b. hasEdge k a b (consCG s2) \<longrightarrow> hasEdge k a b (consCG s'))"
proof -
  note D = conn_stepD(1)[OF b(2), unfolded fst_conv]
  have inv: "consg_inv (consCG s2)" using D by (simp add: diff_inv_def)
  have sub: "set (cedges (consCG s1)) \<subseteq> set (cedges (consCG s2))" using b(2) by (simp add: conn_step_def wstep_def ls_step_def)
  have c: "\<forall>e \<in> set (cedges (consCG s2)) - set (cedges (consCG s1)). ekind e = Copy \<and> eguard e = None \<and> (esrc e, edst e) \<in> set new"
    "\<forall>(a, b) \<in> set new. hasEdge Copy a b (consCG s2) \<and> \<not> hasEdge Copy a b (consCG s1)" "oset_inv new"
    using b(2) by (simp_all add: conn_step_def)
  have "\<exists>e \<in> set (cedges (consCG s2)). ekind e = Copy \<and> esrc e = a \<and> edst e = b \<and> eguard e = None" if ab: "(a, b) \<in> set new" for a b
  proof -
    obtain e where e: "e \<in> set (cedges (consCG s2))" "ekind e = Copy" "esrc e = a" "edst e = b"
      using c(2) ab by (auto simp: hasEdge_iff)
    then have "e \<notin> set (cedges (consCG s1))" using c(2) ab by (auto simp: hasEdge_iff)
    then show ?thesis using e c(1) by blast
  qed
  then have x: "\<forall>(a, b) \<in> set new. \<exists>e \<in> set (cedges (consCG s2)). ekind e = Copy \<and> esrc e = a \<and> edst e = b \<and> eguard e = None" by blast
  have "distinct new" using c(3) by (simp add: oset_inv_def)
  from mergeAll_ok[OF inv g(2) this x] obtain t where
    t: "foldO (\<lambda>(a, b). mergeCopyEdgeGuard a b g False) new s2 = Some t" "guarding g s2 (set new) t" by blast
  have T: "same_nodes (consCG s2) (consCG t)" "ptD t = ptD s2"
    "set (cedges (consCG t)) = guardCopies g (set new) ` set (cedges (consCG s2))" using t(2) by (simp_all add: guarding_def)
  have old: "guardCopies g (set new) e = e" if "e \<in> set (cedges (consCG s1))" for e
  proof -
    have "\<not> (ekind e = Copy \<and> (esrc e, edst e) \<in> set new)" using c(2) that by (auto simp: hasEdge_iff)
    then show ?thesis unfolding guardCopies_def by (rule if_not_P)
  qed
  have "set (cedges (consCG s1)) \<subseteq> set (cedges (consCG t))"
  proof
    fix e assume "e \<in> set (cedges (consCG s1))"
    then show "e \<in> set (cedges (consCG t))" unfolding T(3) using old sub by (metis image_eqI subsetD)
  qed
  moreover have "ekind e = Copy \<and> eguard e = Some g \<and> (esrc e, edst e) \<in> set new"
    if e: "e \<in> set (cedges (consCG t)) - set (cedges (consCG s1))" for e
  proof -
    obtain f where f: "f \<in> set (cedges (consCG s2))" "e = guardCopies g (set new) f" using e T(3) by auto
    then have "f \<notin> set (cedges (consCG s1))" using old e by auto
    then show ?thesis using f c(1) by (auto simp: guardCopies_def)
  qed
  moreover have "hasEdge k a b (consCG t)" if H: "hasEdge k a b (consCG s2)" for k a b
  proof -
    obtain e where e: "e \<in> set (cedges (consCG s2))" "ekind e = k" "esrc e = a" "edst e = b" using H by (auto simp: hasEdge_iff)
    have "guardCopies g (set new) e \<in> set (cedges (consCG t))" unfolding T(3) using e(1) by blast
    moreover have "ekind (guardCopies g (set new) e) = k" "esrc (guardCopies g (set new) e) = a" "edst (guardCopies g (set new) e) = b"
      using e by (simp_all add: guardCopies_def)
    ultimately show ?thesis unfolding hasEdge_iff by blast
  qed
  moreover have "connectGuarded guard base (s, cpy) = Some (t, oset_insert_all new cpy)"
    using t(1) g(1) b(1) by (simp add: connectGuarded_def)
  moreover have "set (oset_insert_all new cpy) = set cpy \<union> set new" by auto
  ultimately show ?thesis using T(1,2)
    by (intro exI[of _ t] exI[of _ "oset_insert_all new cpy"]) blast
qed


section \<open>Properties\<close>

lemma diff_inv_pst: "diff_inv (s\<lparr>pst := p\<rparr>) = diff_inv s" for s :: "'a cander_scheme"
  by (simp add: diff_inv_def propagated_def propa_le_def)

lemma linked_mono:
  assumes "same_nodes (consCG s) (consCG t)" "\<And>k a b. hasEdge k a b (consCG s) \<Longrightarrow> hasEdge k a b (consCG t)" "linked s a b"
  shows "linked t a b"
  using assms same_nodes_rep[OF assms(1)] by (auto simp: linked_def rep_of_def)

text \<open>
  C4: The guarded connection of a call with a callee links the same nodes as the unguarded one and
  changes no points-to set. Every edge that it adds carries the guard of the block of the call;
  an edge that was there keeps the guard it has, also when the call needs the edge under a
  guard of its own.
\<close>

theorem cond_connect_guards:
  assumes "diff_inv s" "call_tracked P cs F s" "\<not> fnHeapAlloc (pFuns P F)"
    and "getBBGuard (blocks (csBB (pCalls P cs))) (pst s) = (csGuard, p)" "\<not> isTrue csGuard"
  shows "\<exists>s' cpy'. cond_connectCaller2CalleeParams blocks P cs F (s, cpy) = Some (s', cpy')
    \<and> ret_linked P cs F s s' \<and> args_linked P cs F s s' \<and> getPts s' = getPts s
    \<and> (\<forall>e \<in> set (cedges (consCG s)). e \<in> set (cedges (consCG s')))
    \<and> (\<forall>e \<in> set (cedges (consCG s')) - set (cedges (consCG s)).
         ekind e = Copy \<and> eguard e = Some csGuard \<and> (esrc e, edst e) \<in> set cpy')"
proof -
  let ?s = "s\<lparr>pst := p\<rparr>"
  have g: "onStore (getBBGuard (blocks (csBB (pCalls P cs)))) s = (csGuard, ?s)" using assms(4) by (simp add: onStore_def)
  have d: "diff_inv (fst (?s, [] :: node_pairs))" using assms(1) by (simp add: diff_inv_pst)
  have c: "call_tracked P cs F (fst (?s, [] :: node_pairs))" using assms(2) by (simp add: call_tracked_def tracked_def rep_of_def)
  obtain st where st: "connectCaller2CalleeParams P cs F (?s, []) = Some st" "conn_step (?s, []) st"
      "ret_linked P cs F ?s (fst st)" "args_linked P cs F ?s (fst st)"
    using connect_ok[OF d c] assms(3) by auto
  obtain s2 new where s2: "st = (s2, new)" by (cases st)
  obtain s' cpy' where s': "cond_connectCaller2CalleeParams blocks P cs F (s, cpy) = Some (s', cpy')"
      "same_nodes (consCG s2) (consCG s')" "ptD s' = ptD s2" "set (cedges (consCG ?s)) \<subseteq> set (cedges (consCG s'))"
      "\<forall>e \<in> set (cedges (consCG s')) - set (cedges (consCG ?s)). ekind e = Copy \<and> eguard e = Some csGuard \<and> (esrc e, edst e) \<in> set cpy'"
      "\<forall>k a b. hasEdge k a b (consCG s2) \<longrightarrow> hasEdge k a b (consCG s')"
    using connectGuarded_ok[where guard = "onStore (getBBGuard (blocks (csBB (pCalls P cs))))" and base = "connectCaller2CalleeParams P cs F",
        OF g assms(5) st(1)[unfolded s2] st(2)[unfolded s2], of cpy]
    unfolding cond_connectCaller2CalleeParams_def by blast
  have lk: "linked s' a b" if "linked s2 a b" for a b using linked_mono[OF s'(2) _ that] s'(6) by blast
  have l: "ret_linked P cs F s s'" "args_linked P cs F s s'"
    using st(3,4) lk by (fastforce simp: ret_linked_def args_linked_def s2)+
  have w: "wstep ?s s2" using st(2) by (simp add: conn_step_def s2)
  have "getPts s' = getPts s2" using same_nodes_rep[OF s'(2)] s'(3) by (simp add: getPts_def rep_of_def fun_eq_iff)
  also have "\<dots> = getPts s" using wstep_getPts[OF w] by (simp add: getPts_def rep_of_def fun_eq_iff)
  finally show ?thesis using s' l by auto
qed

definition demo_guarded_call :: cander where
  "demo_guarded_call = demo_cond\<lparr>irs := irs demo_ander\<rparr>"

definition demo_program2 :: program where
  "demo_program2 = demo_program\<lparr>pCalls := (\<lambda>cs. (pCalls demo_program cs)\<lparr>csArgs := Some [11]\<rparr>)\<rparr>"

lemma demo_guarded_inv: "diff_inv demo_guarded_call"
proof -
  have "propaPtsMap (ptD demo_cond) = (\<lambda>_. [])"
    by (simp add: demo_cond_def dd_addPts_def dd_new_def case_prod_beta)
  then show ?thesis
    using demo_cond_inv(2,3) demo_cond_dd
    by (simp add: diff_inv_def demo_guarded_call_def scc_ok_def propagated_def propa_le_def) (simp add: demo_cond_def)
qed

theorem cond_connect_guards_witness:
  "\<exists>s' cpy'. cond_connectCaller2CalleeParams (\<lambda>_. Some [[IntraCFGEdge (Some 9) 1]]) demo_program2 1 6 (demo_guarded_call, []) = Some (s', cpy')
    \<and> linked s' 11 12 \<and> hd (cedges (consCG demo_cond)) \<in> set (cedges (consCG s'))"
proof -
  have t: "tracked demo_guarded_call a" "pointer demo_guarded_call a" if "a \<in> {11, 12}" for a
  proof -
    show p: "pointer demo_guarded_call a" using that by (auto simp: demo_guarded_call_def demo_ander_def isPointer.simps)
    show "tracked demo_guarded_call a"
      using that p demo_cond_inv(5,6) by (auto simp: tracked_def demo_guarded_call_def rep_of_def live_def)
  qed
  have a: "csArgs (pCalls demo_program2 1) = Some [11]" "fnArgs (pFuns demo_program2 6) = Some [12]" "csRet (pCalls demo_program2 1) = Some 12"
      "fnRet (pFuns demo_program2 6) = None" "\<not> fnVarArg (pFuns demo_program2 6)" "\<not> fnHeapAlloc (pFuns demo_program2 6)"
    by (simp_all add: demo_program2_def demo_program_def)
  have c: "call_tracked demo_program2 1 6 demo_guarded_call" using t(1) by (simp add: call_tracked_def a del: One_nat_def)
  obtain csGuard p where g: "getBBGuard (Some [[IntraCFGEdge (Some 9) 1]]) (pst demo_guarded_call) = (csGuard, p)" by force
  have atom: "\<not> isTrue (fst (getAtom 9 True q))" for q by (simp add: getAtom_def Let_def)
  have "getAtom 9 True (pst demo_guarded_call) = (csGuard, p)"
    using g atom[of "pst demo_guarded_call"] by (auto simp: getBBGuard_def bbEdge_def getOr_def case_prod_beta Let_def split: if_splits)
  then have "\<not> isTrue csGuard" using atom[of "pst demo_guarded_call"] by simp
  from cond_connect_guards[where blocks = "\<lambda>_. Some [[IntraCFGEdge (Some 9) 1]]", OF demo_guarded_inv c a(6) g this, of "[]"]
  obtain s' cpy' where s': "cond_connectCaller2CalleeParams (\<lambda>_. Some [[IntraCFGEdge (Some 9) 1]]) demo_program2 1 6 (demo_guarded_call, []) = Some (s', cpy')"
      "args_linked demo_program2 1 6 demo_guarded_call s'"
      "\<forall>e \<in> set (cedges (consCG demo_guarded_call)). e \<in> set (cedges (consCG s'))" by blast
  have "linked s' 11 12" using s'(2) t(2) by (simp add: args_linked_def a del: One_nat_def)
  moreover have "hd (cedges (consCG demo_cond)) \<in> set (cedges (consCG s'))"
    using s'(3) demo_cond_edge(1) by (simp add: demo_guarded_call_def)
  ultimately show ?thesis using s'(1) by blast
qed

end
