(* ===== verification/Andersen_Solution.thy ===== *)
theory Andersen_Solution
  imports Solver_Correct
begin

text \<open>
  What the worklist solver of \<^verbatim>\<open>src/SVF/svf/include/WPA/WPASolver.h\<close> computes with the handlers of
  \<^verbatim>\<open>Andersen\<close>: \<open>derived\<close> is the least solution of the constraints, as inference rules, and the
  solver ends with it.
\<close>

section \<open>Growth of the object table\<close>

definition table_le :: "pag \<Rightarrow> pag \<Rightarrow> bool" where
  "table_le p q \<longleftrightarrow> svfVars p \<subseteq>\<^sub>m svfVars q \<and> gepObjVarMap p \<subseteq>\<^sub>m gepObjVarMap q \<and> maxOffsetLimit q = maxOffsetLimit p
     \<and> MaxFieldLimit q = MaxFieldLimit p \<and> FirstFieldEqBase q = FirstFieldEqBase p \<and> CyclicFldIdx q = CyclicFldIdx p"

lemma table_le_refl [simp]: "table_le p p"
  by (simp add: table_le_def)

lemma table_le_trans: "table_le p q \<Longrightarrow> table_le q r \<Longrightarrow> table_le p r"
  using map_le_trans[of "svfVars p" "svfVars q" "svfVars r"] map_le_trans[of "gepObjVarMap p" "gepObjVarMap q" "gepObjVarMap r"]
  by (simp add: table_le_def)

lemma map_le_Some: "m \<subseteq>\<^sub>m n \<Longrightarrow> m k = Some v \<Longrightarrow> n k = Some v"
  unfolding map_le_def by (metis domI)

lemma table_le_vars: "table_le p q \<Longrightarrow> svfVars p i = Some v \<Longrightarrow> svfVars q i = Some v"
  unfolding table_le_def by (blast intro: map_le_Some)

lemma table_le_modulus: "table_le p q \<Longrightarrow> getModulusOffset b off q = getModulusOffset b off p"
  by (simp add: table_le_def getModulusOffset_def Let_def)

lemma table_le_isBaseObj: "table_le p q \<Longrightarrow> isBaseObj b p \<Longrightarrow> isBaseObj b q"
  unfolding isBaseObj_def using table_le_vars by blast

lemma table_le_getBaseObject:
  assumes "table_le p q" "getBaseObject i p = Some b"
  shows "getBaseObject i q = Some b"
proof -
  from getBaseObject_Some[OF assms(2)] have "isBaseObj b q" and "i = b \<or> (\<exists>off. svfVars q i = Some (GepObjVar b off))"
    using table_le_isBaseObj[OF assms(1)] table_le_vars[OF assms(1)] by blast+
  then show ?thesis using getBaseObject_base getBaseObject_gep by blast
qed

lemma table_le_isConstantObj:
  assumes "table_le p q" "isConstantObj i p = Some c"
  shows "isConstantObj i q = Some c"
  using assms(2) table_le_getBaseObject[OF assms(1)] table_le_vars[OF assms(1)]
  by (fastforce simp: isConstantObj_def Option.bind_eq_Some_conv)

lemma table_le_isPointer:
  assumes "table_le p q" "isPointer i p = Some c"
  shows "isPointer i q = Some c"
proof -
  obtain v where v: "svfVars p i = Some v" using assms(2) by (auto simp: isPointer.simps split: option.splits)
  note v' = table_le_vars[OF assms(1) v]
  show ?thesis
  proof (cases v)
    case (GepObjVar b off)
    then obtain ptr con where b: "svfVars p b = Some (BaseObjVar ptr con)" "c = ptr"
      using assms(2) v by (auto simp: isPointer.simps split: option.splits svfvar.splits)
    then show ?thesis using v' GepObjVar table_le_vars[OF assms(1) b(1)] by (simp add: isPointer.simps)
  qed (use assms(2) v v' in \<open>simp_all add: isPointer.simps\<close>)
qed

lemma table_le_insensitive:
  assumes "table_le p q" "isFieldInsensitive i p = Some c"
  shows "isFieldInsensitive i q = Some c"
proof -
  obtain b where b: "getBaseObject i p = Some b" "c = (maxOffsetLimit p b = 0)"
    using assms(2) by (auto simp: isFieldInsensitive_def)
  then show ?thesis using table_le_getBaseObject[OF assms(1) b(1)] assms(1) by (simp add: isFieldInsensitive_def table_le_def)
qed

text \<open>The field of an object that a field edge leads to, if the table has it.\<close>

definition fieldOfBase :: "node_id \<Rightarrow> int \<Rightarrow> pag \<Rightarrow> node_id option" where
  "fieldOfBase b off p =
     (if maxOffsetLimit p b = 0 then Some b
      else let ls = getModulusOffset b off p in
        if FirstFieldEqBase p \<and> ls = 0 then Some b else gepObjVarMap p (b, ls))"

definition keepsObject :: "node_id \<Rightarrow> pag \<Rightarrow> bool option" where
  "keepsObject o1 p = do { blk \<leftarrow> isBlkObjOrConstantObj o1 p; if blk then Some True else isFieldInsensitive o1 p }"

definition field_at :: "pag \<Rightarrow> node_id \<Rightarrow> int \<Rightarrow> node_id option" where
  "field_at p o1 ap =
     do {
       keep \<leftarrow> keepsObject o1 p;
       if keep then Some o1
       else case svfVars p o1 of
         Some (GepObjVar b off) \<Rightarrow> fieldOfBase b (off + ap) p
       | Some (BaseObjVar _ _) \<Rightarrow> fieldOfBase o1 ap p
       | _ \<Rightarrow> None
     }"

lemma keepsObject_cases:
  "keepsObject i p = Some c \<longleftrightarrow>
     isBlkObj i \<and> c \<or> \<not> isBlkObj i \<and> (isConstantObj i p = Some True \<and> c \<or> isConstantObj i p = Some False \<and> isFieldInsensitive i p = Some c)"
  by (cases "isConstantObj i p") (auto simp: keepsObject_def isBlkObjOrConstantObj_def)

lemma table_le_keeps: "table_le p q \<Longrightarrow> keepsObject i p = Some c \<Longrightarrow> keepsObject i q = Some c"
  unfolding keepsObject_cases using table_le_isConstantObj table_le_insensitive by blast

lemma table_le_fieldOfBase:
  assumes "table_le p q" "fieldOfBase b off p = Some t"
  shows "fieldOfBase b off q = Some t"
proof -
  have e: "maxOffsetLimit q = maxOffsetLimit p" "FirstFieldEqBase q = FirstFieldEqBase p" "gepObjVarMap p \<subseteq>\<^sub>m gepObjVarMap q"
    using assms(1) by (simp_all add: table_le_def)
  show ?thesis using assms(2) map_le_Some[OF e(3)]
    by (auto simp: fieldOfBase_def Let_def e table_le_modulus[OF assms(1)] split: if_splits)
qed

lemma table_le_field_at:
  assumes "table_le p q" "field_at p i ap = Some t"
  shows "field_at q i ap = Some t"
proof -
  obtain keep where k: "keepsObject i p = Some keep" using assms(2) by (auto simp: field_at_def Option.bind_eq_Some_conv)
  note k' = table_le_keeps[OF assms(1) k]
  show ?thesis
  proof (cases keep)
    case True
    then show ?thesis using assms(2) k k' by (simp add: field_at_def)
  next
    case False
    then obtain v where v: "svfVars p i = Some v" using assms(2) k by (auto simp: field_at_def split: option.splits)
    show ?thesis
      using assms(2) k k' False v table_le_vars[OF assms(1) v] table_le_fieldOfBase[OF assms(1)]
      by (auto simp: field_at_def split: svfvar.splits)
  qed
qed

text \<open>\<open>C\<close> bounds the numbers of all nodes that there can be: every field that is missing needs one.\<close>

definition missing :: "pag \<Rightarrow> (node_id \<times> int) set" where
  "missing p = {(b, ls). isBaseObj b p \<and> 0 \<le> ls \<and> ls < int (maxOffsetLimit p b) \<and> gepObjVarMap p (b, ls) = None}"

definition table_ok :: "nat \<Rightarrow> pag \<Rightarrow> bool" where
  "table_ok C p \<longleftrightarrow> pag_inv p \<and> seq_inv p
     \<and> (\<forall>i b off. svfVars p i = Some (GepObjVar b off) \<longrightarrow> 0 \<le> off \<and> off < int (maxOffsetLimit p b))
     \<and> (\<forall>b. maxOffsetLimit p b \<le> 2 ^ 31)
     \<and> numNodes (alloc p) + card (missing p) \<le> C \<and> C < 2 ^ 32"

lemma finite_missing:
  assumes "table_ok C p"
  shows "finite (missing p)"
proof (rule finite_subset)
  have "b < numNodes (alloc p)" if "isBaseObj b p" for b
    using assms that by (auto simp: table_ok_def seq_inv_def isBaseObj_def)
  moreover have "ls < 2 ^ 31" if "ls < int (maxOffsetLimit p b)" for b ls
  proof -
    have "maxOffsetLimit p b \<le> 2 ^ 31" using assms by (simp add: table_ok_def)
    then have "int (maxOffsetLimit p b) \<le> int (2 ^ 31)" by (simp only: of_nat_le_iff)
    then show ?thesis using that by simp
  qed
  ultimately show "missing p \<subseteq> {..<numNodes (alloc p)} \<times> {0..<2 ^ 31}" by (auto simp: missing_def)
qed simp

lemma table_ok_bound: "table_ok C p \<Longrightarrow> svfVars p i = Some v \<Longrightarrow> i < C"
  unfolding table_ok_def seq_inv_def by (metis le_add1 order_less_le_trans option.distinct(1))

lemma fieldOfBase_step:
  assumes ok: "table_ok C p" and b: "isBaseObj b p" and off: "\<bar>off\<bar> < 2 ^ 32"
  shows "\<exists>t p'. getGepObjVarOf b off p = Some (t, p') \<and> table_ok C p' \<and> table_le p p' \<and> fieldOfBase b off p' = Some t
    \<and> getBaseObject t p' = Some b \<and> (p' = p \<or> svfVars p t = None)
    \<and> (\<forall>i. svfVars p' i \<noteq> None \<longrightarrow> i = t \<or> svfVars p i \<noteq> None)"
proof -
  let ?ls = "getModulusOffset b off p"
  have inv: "pag_inv p" "seq_inv p" using ok by (simp_all add: table_ok_def)
  consider (same) "maxOffsetLimit p b = 0 \<or> FirstFieldEqBase p \<and> ?ls = 0"
    | (old) i where "maxOffsetLimit p b \<noteq> 0" "\<not> (FirstFieldEqBase p \<and> ?ls = 0)" "gepObjVarMap p (b, ?ls) = Some i"
    | (new) "maxOffsetLimit p b \<noteq> 0" "\<not> (FirstFieldEqBase p \<and> ?ls = 0)" "gepObjVarMap p (b, ?ls) = None" by blast
  then show ?thesis
  proof cases
    case same
    then show ?thesis using ok getBaseObject_base[OF b] by (auto simp: getGepObjVarOf_def fieldOfBase_def Let_def)
  next
    case old
    then have "svfVars p i = Some (GepObjVar b ?ls)" using inv by (simp add: pag_inv_def)
    then show ?thesis using ok old getBaseObject_gep[OF _ b] by (auto simp: getGepObjVarOf_def fieldOfBase_def Let_def)
  next
    case new
    let ?g = "numNodes (alloc p)"
    let ?p = "p\<lparr>alloc := increaseNumOfObjAndNodes (alloc p)\<rparr>"
    let ?q = "?p\<lparr>gepObjVarMap := (gepObjVarMap p)((b, ?ls) \<mapsto> ?g), memToFields := (memToFields p)(b := oset_insert ?g (memToFields p b)),
          svfVars := (svfVars p)(?g \<mapsto> GepObjVar b ?ls)\<rparr>"
    have fresh: "svfVars p ?g = None" using inv(2) unfolding seq_inv_def by blast
    have ls: "0 \<le> ?ls" "?ls < int (maxOffsetLimit p b)" using getModulusOffset_range[of p b off] new(1) off by simp_all
    have m: "(b, ?ls) \<in> missing p" using b ls new(3) by (simp add: missing_def)
    have al: "allocateGepObjectId b (nat (off mod 2 ^ 32)) (MaxFieldLimit p) (alloc p) = Some (?g, increaseNumOfObjAndNodes (alloc p))"
      using inv(2) by (simp add: seq_inv_def allocateGepObjectId_def checkId_def)
    have add: "addGepObjNode b ?ls ?g ?p = Some (?g, ?q)"
      using new(3) fresh by (simp add: addGepObjNode_def hasGNode_def)
    have ne: "(FirstFieldEqBase p \<and> ?ls = 0) = False" using new(2) by simp
    have r: "getGepObjVarOf b off p = Some (?g, ?q)" unfolding getGepObjVarOf_def Let_def ne new(3) al using new(1) add by simp
    have pi: "pag_inv ?p" "isBaseObj b ?p" "svfVars ?p ?g = None" using inv(1) b fresh by (simp_all add: isBaseObj_def)
    note s = addGepObjNode_inv[OF pi add]
    have bases: "isBaseObj c ?q \<longleftrightarrow> isBaseObj c p" for c using fresh by (auto simp: isBaseObj_def)
    have mq: "missing ?q = missing p - {(b, ?ls)}" by (auto simp: missing_def bases)
    have cm: "card (missing p) = Suc (card (missing ?q))"
      unfolding mq using card.remove[OF finite_missing[OF ok] m] .
    then have "?g + 1 < 2 ^ 32" using ok unfolding table_ok_def by linarith
    then have sq: "seq_inv ?q" using seq_inv_getGepObjVarOf[OF inv(2) _ r] by simp
    have nn: "numNodes (alloc ?q) = ?g + 1" using \<open>?g + 1 < 2 ^ 32\<close> by (simp add: increaseNumOfObjAndNodes_def)
    have "table_ok C ?q"
      unfolding table_ok_def nn
    proof (intro conjI allI impI)
      show "pag_inv ?q" using s by blast
      show "seq_inv ?q" by (rule sq)
      show "?g + 1 + card (missing ?q) \<le> C" "C < 2 ^ 32" "\<And>b. maxOffsetLimit ?q b \<le> 2 ^ 31"
        using ok cm by (simp_all add: table_ok_def)
      fix i c off' assume "svfVars ?q i = Some (GepObjVar c off')"
      then show "0 \<le> off'" "off' < int (maxOffsetLimit ?q c)" using ok ls by (auto simp: table_ok_def split: if_splits)
    qed
    moreover have "table_le p ?q" using fresh new(3) by (auto simp: table_le_def map_le_def)
    moreover from this have "fieldOfBase b off ?q = Some ?g"
      using new(1,2) table_le_modulus[of p ?q b off] by (auto simp: fieldOfBase_def Let_def)
    ultimately show ?thesis using r s fresh by (intro exI[of _ ?g] exI[of _ ?q]) simp
  qed
qed

section \<open>The least solution\<close>

text \<open>An object that loads and stores at a pointer reach.\<close>

definition flows :: "pag \<Rightarrow> node_id \<Rightarrow> node_id \<Rightarrow> bool" where
  "flows p o1 v \<longleftrightarrow> isConstantObj o1 p = Some False \<and> isPointer v p = Some True"

text \<open>The constraints of \<open>s\<close> as inference rules, over its sets; \<open>p\<close> says which fields there are.\<close>

inductive derived :: "'a ander_scheme \<Rightarrow> pag \<Rightarrow> node_id \<Rightarrow> node_id \<Rightarrow> bool" for s p where
  start: "x \<in> ptsOf s k \<Longrightarrow> derived s p k x"
| copy: "e \<in> set (cedges (consCG s)) \<Longrightarrow> ekind e = Copy \<Longrightarrow> derived s p (esrc e) x \<Longrightarrow> derived s p (edst e) x"
| field: "e \<in> set (cedges (consCG s)) \<Longrightarrow> ekind e = NormalGep \<Longrightarrow> derived s p (esrc e) x \<Longrightarrow>
    field_at p x (eap e) = Some y \<Longrightarrow> derived s p (edst e) y"
| load: "e \<in> set (cedges (consCG s)) \<Longrightarrow> ekind e = Load \<Longrightarrow> derived s p (esrc e) o1 \<Longrightarrow> flows p o1 (edst e) \<Longrightarrow>
    derived s p (rep_of s o1) x \<Longrightarrow> derived s p (edst e) x"
| store: "e \<in> set (cedges (consCG s)) \<Longrightarrow> ekind e = Store \<Longrightarrow> derived s p (edst e) o1 \<Longrightarrow> flows p o1 (esrc e) \<Longrightarrow>
    derived s p (esrc e) x \<Longrightarrow> derived s p (rep_of s o1) x"

lemma flows_mono: "table_le p q \<Longrightarrow> flows p o1 v \<Longrightarrow> flows q o1 v"
  unfolding flows_def using table_le_isConstantObj table_le_isPointer by blast

lemma derived_mono: "derived s p k x \<Longrightarrow> table_le p q \<Longrightarrow> derived s q k x"
proof (induction rule: derived.induct)
  case (field e x y)
  then show ?case using derived.field table_le_field_at by blast
next
  case (load e o1 x)
  then show ?case using derived.load flows_mono by blast
next
  case (store e o1 x)
  then show ?case using derived.store flows_mono by blast
qed (blast intro: derived.intros)+

text \<open>The copy edges the constraints ask for.\<close>

definition asked :: "'a ander_scheme \<Rightarrow> pag \<Rightarrow> node_id \<Rightarrow> node_id \<Rightarrow> bool" where
  "asked s p a b \<longleftrightarrow>
     (\<exists>e \<in> set (cedges (consCG s)). ekind e = Copy \<and> esrc e = a \<and> edst e = b)
     \<or> (\<exists>e \<in> set (cedges (consCG s)). ekind e = Load \<and> (\<exists>o1. derived s p (esrc e) o1 \<and> flows p o1 (edst e) \<and> a = rep_of s o1 \<and> b = edst e))
     \<or> (\<exists>e \<in> set (cedges (consCG s)). ekind e = Store \<and> (\<exists>o1. derived s p (edst e) o1 \<and> flows p o1 (esrc e) \<and> a = esrc e \<and> b = rep_of s o1))"

lemma asked_derived: "asked s p a b \<Longrightarrow> derived s p a x \<Longrightarrow> derived s p b x"
  unfolding asked_def using derived.copy derived.load derived.store by blast

lemma asked_mono: "table_le p q \<Longrightarrow> asked s p a b \<Longrightarrow> asked s q a b"
  unfolding asked_def using derived_mono flows_mono by blast

definition sound :: "'a ander_scheme \<Rightarrow> 'a ander_scheme \<Rightarrow> bool" where
  "sound s0 s \<longleftrightarrow> rep_of s = rep_of s0 \<and> table_le (irs s0) (irs s)
     \<and> (\<forall>k. \<forall>x \<in> ptsOf s k. derived s0 (irs s) k x)
     \<and> (\<forall>e \<in> set (cedges (consCG s)). if ekind e = Copy then asked s0 (irs s) (esrc e) (edst e) else e \<in> set (cedges (consCG s0)))"

lemma sound_start: "sound s s"
  by (auto simp: sound_def asked_def intro: derived.start)

lemma soundD:
  assumes "sound s0 s"
  shows "rep_of s = rep_of s0" "table_le (irs s0) (irs s)" "x \<in> ptsOf s k \<Longrightarrow> derived s0 (irs s) k x"
    "e \<in> set (cedges (consCG s)) \<Longrightarrow> ekind e = Copy \<Longrightarrow> asked s0 (irs s) (esrc e) (edst e)"
    "e \<in> set (cedges (consCG s)) \<Longrightarrow> ekind e \<noteq> Copy \<Longrightarrow> e \<in> set (cedges (consCG s0))"
  using assms unfolding sound_def by (blast, blast, blast, metis, metis)

lemma soundI:
  assumes "sound s0 s" "rep_of t = rep_of s" "table_le (irs s) (irs t)"
    and pts: "\<And>k x. x \<in> ptsOf t k \<Longrightarrow> x \<in> ptsOf s k \<or> derived s0 (irs t) k x"
    and edges: "\<And>e. e \<in> set (cedges (consCG t)) \<Longrightarrow>
      e \<in> set (cedges (consCG s)) \<or> ekind e = Copy \<and> asked s0 (irs t) (esrc e) (edst e)"
  shows "sound s0 t"
  unfolding sound_def
proof (intro conjI allI ballI)
  note d = soundD[OF assms(1)]
  show "rep_of t = rep_of s0" using assms(2) d(1) by simp
  show "table_le (irs s0) (irs t)" using d(2) assms(3) by (rule table_le_trans)
  show "derived s0 (irs t) k x" if "x \<in> ptsOf t k" for k x using pts[OF that] d(3) derived_mono[OF _ assms(3)] by blast
  show "if ekind e = Copy then asked s0 (irs t) (esrc e) (edst e) else e \<in> set (cedges (consCG s0))"
    if "e \<in> set (cedges (consCG t))" for e
    using edges[OF that] d(4,5) asked_mono[OF assms(3), of s0] by (cases "ekind e = Copy") auto
qed

section \<open>The invariant of the solver\<close>

abbreviation wl :: "'a ander_scheme \<Rightarrow> node_id set" where
  "wl s \<equiv> set (data_list (wlist s))"

abbreviation edges :: "'a ander_scheme \<Rightarrow> cedge set" where
  "edges s \<equiv> set (cedges (consCG s))"

text \<open>
  No object is collapsed: no field edge is variant and none is waiting. Field edges have the
  offsets of 32-bit programs.
\<close>

definition core_ok :: "nat \<Rightarrow> 'a ander_scheme \<Rightarrow> bool" where
  "core_ok C s \<longleftrightarrow> dd_inv (ptD s) \<and> consg_inv (consCG s) \<and> rep_ok (consCG s) \<and> DiffPts s \<and> objs_ok s
     \<and> table_ok C (irs s) \<and> (\<forall>n \<in> set (cnodes (consCG s)). live (consCG s) n \<and> isPointer n (irs s) \<noteq> None)
     \<and> fifo_inv (wlist s) \<and> (\<forall>n \<in> wl s. live (consCG s) n)
     \<and> (\<forall>k. ptsOf s k \<noteq> {} \<longrightarrow> live (consCG s) k) \<and> (\<forall>i. rep_of s i \<noteq> i \<longrightarrow> svfVars (irs s) i \<noteq> None)
     \<and> fifo_empty (nodesToBeCollapsed (consCG s))
     \<and> (\<forall>e \<in> edges s. ekind e \<noteq> VariantGep \<and> (ekind e = NormalGep \<longrightarrow> \<bar>eap e\<bar> < 2 ^ 31))"

definition gep_propa :: "'a ander_scheme \<Rightarrow> bool" where
  "gep_propa s \<longleftrightarrow> (\<forall>e \<in> edges s. ekind e = NormalGep \<longrightarrow>
     (\<forall>x \<in> set (propaPtsMap (ptD s) (esrc e)). \<exists>y. field_at (irs s) x (eap e) = Some y \<and> y \<in> ptsOf s (edst e)))"

definition solution_inv :: "nat \<Rightarrow> 'a ander_scheme \<Rightarrow> bool" where
  "solution_inv C s \<longleftrightarrow> core_ok C s \<and> diff_inv s \<and> gep_propa s"

text \<open>What every step does: nodes whose set or whose copy edges change are on the worklist.\<close>

definition evolves :: "'a ander_scheme \<Rightarrow> 'a ander_scheme \<Rightarrow> bool" where
  "evolves s t \<longleftrightarrow> rep_of t = rep_of s \<and> table_le (irs s) (irs t) \<and> grows s t \<and> edges s \<subseteq> edges t
     \<and> (\<forall>e \<in> edges t - edges s. ekind e = Copy) \<and> (\<forall>n. live (consCG s) n \<longrightarrow> live (consCG t) n) \<and> wl s \<subseteq> wl t
     \<and> (\<forall>n. n \<notin> wl t \<longrightarrow> ptsOf t n = ptsOf s n \<and> (\<forall>e \<in> edges t. esrc e = n \<longrightarrow> e \<in> edges s))
     \<and> (wlist t = wlist s \<or> (\<exists>n. ptsOf t n \<noteq> ptsOf s n) \<or> edges t \<noteq> edges s)
     \<and> (\<forall>s0. sound s0 s \<longrightarrow> sound s0 t)"

lemma evolves_refl [simp]: "evolves s s"
  by (simp add: evolves_def)

lemma evolves_trans:
  assumes st: "evolves s t" and tu: "evolves t u"
  shows "evolves s u"
proof -
  have a: "rep_of t = rep_of s" "table_le (irs s) (irs t)" "grows s t" "edges s \<subseteq> edges t"
    "\<forall>e \<in> edges t - edges s. ekind e = Copy" "\<forall>n. live (consCG s) n \<longrightarrow> live (consCG t) n" "wl s \<subseteq> wl t"
    "\<forall>n. n \<notin> wl t \<longrightarrow> ptsOf t n = ptsOf s n \<and> (\<forall>e \<in> edges t. esrc e = n \<longrightarrow> e \<in> edges s)"
    "wlist t = wlist s \<or> (\<exists>n. ptsOf t n \<noteq> ptsOf s n) \<or> edges t \<noteq> edges s" "\<forall>s0. sound s0 s \<longrightarrow> sound s0 t"
    using st unfolding evolves_def by blast+
  have b: "rep_of u = rep_of t" "table_le (irs t) (irs u)" "grows t u" "edges t \<subseteq> edges u"
    "\<forall>e \<in> edges u - edges t. ekind e = Copy" "\<forall>n. live (consCG t) n \<longrightarrow> live (consCG u) n" "wl t \<subseteq> wl u"
    "\<forall>n. n \<notin> wl u \<longrightarrow> ptsOf u n = ptsOf t n \<and> (\<forall>e \<in> edges u. esrc e = n \<longrightarrow> e \<in> edges t)"
    "wlist u = wlist t \<or> (\<exists>n. ptsOf u n \<noteq> ptsOf t n) \<or> edges u \<noteq> edges t" "\<forall>s0. sound s0 t \<longrightarrow> sound s0 u"
    using tu unfolding evolves_def by blast+
  have g: "ptsOf s n \<subseteq> ptsOf t n" "ptsOf t n \<subseteq> ptsOf u n" for n using a(3) b(3) by (simp_all add: grows_def)
  have "wlist u = wlist s \<or> (\<exists>n. ptsOf u n \<noteq> ptsOf s n) \<or> edges u \<noteq> edges s"
  proof (cases "wlist u = wlist s")
    case False
    then consider n where "ptsOf t n \<noteq> ptsOf s n" | n where "ptsOf u n \<noteq> ptsOf t n" | "edges t \<noteq> edges s" | "edges u \<noteq> edges t"
      using a(9) b(9) by metis
    then show ?thesis
    proof cases
      case 1 then show ?thesis using g[of n] by blast
    next
      case 2 then show ?thesis using g[of n] by blast
    qed (use a(4) b(4) in blast)+
  qed blast
  moreover have "ptsOf u n = ptsOf s n \<and> (\<forall>e \<in> edges u. esrc e = n \<longrightarrow> e \<in> edges s)" if "n \<notin> wl u" for n
    using that a(8) b(7,8) by blast
  moreover have "grows s u" using a(3) b(3) by (rule grows_trans)
  moreover have "table_le (irs s) (irs u)" using a(2) b(2) by (rule table_le_trans)
  ultimately show ?thesis using a(1,4-7,10) b(1,4-7,10) unfolding evolves_def by auto
qed

lemma evolvesD:
  assumes "evolves s t"
  shows "rep_of t = rep_of s" "table_le (irs s) (irs t)" "grows s t" "edges s \<subseteq> edges t"
    "e \<in> edges t \<Longrightarrow> ekind e \<noteq> Copy \<Longrightarrow> e \<in> edges s" "live (consCG s) n \<Longrightarrow> live (consCG t) n" "wl s \<subseteq> wl t"
    "n \<notin> wl t \<Longrightarrow> ptsOf t n = ptsOf s n" "n \<notin> wl t \<Longrightarrow> e \<in> edges t \<Longrightarrow> esrc e = n \<Longrightarrow> e \<in> edges s"
    "wlist t = wlist s \<or> (\<exists>n. ptsOf t n \<noteq> ptsOf s n) \<or> edges t \<noteq> edges s" "sound s0 s \<Longrightarrow> sound s0 t"
  using assms unfolding evolves_def by blast+

lemma core_okD:
  assumes "core_ok C s"
  shows "dd_inv (ptD s)" "consg_inv (consCG s)" "rep_ok (consCG s)" "DiffPts s" "objs_ok s" "table_ok C (irs s)"
    "n \<in> set (cnodes (consCG s)) \<Longrightarrow> live (consCG s) n" "n \<in> set (cnodes (consCG s)) \<Longrightarrow> isPointer n (irs s) \<noteq> None"
    "fifo_inv (wlist s)" "n \<in> wl s \<Longrightarrow> live (consCG s) n" "ptsOf s k \<noteq> {} \<Longrightarrow> live (consCG s) k"
    "rep_of s i \<noteq> i \<Longrightarrow> svfVars (irs s) i \<noteq> None" "fifo_empty (nodesToBeCollapsed (consCG s))"
    "e \<in> edges s \<Longrightarrow> ekind e \<noteq> VariantGep" "e \<in> edges s \<Longrightarrow> ekind e = NormalGep \<Longrightarrow> \<bar>eap e\<bar> < 2 ^ 31"
  using assms unfolding core_ok_def by blast+

text \<open>The counters do not matter.\<close>

lemma count_core [simp]:
  "core_ok C (s\<lparr>numOfProcessedLoad := m\<rparr>) = core_ok C s" "core_ok C (s\<lparr>numOfProcessedStore := m\<rparr>) = core_ok C s"
  "core_ok C (s\<lparr>numOfProcessedCopy := m\<rparr>) = core_ok C s" "core_ok C (s\<lparr>numOfProcessedGep := m\<rparr>) = core_ok C s"
  by (simp_all add: core_ok_def objs_ok_def)

lemma count_sound [simp]:
  "sound s0 (s\<lparr>numOfProcessedLoad := m\<rparr>) = sound s0 s" "sound s0 (s\<lparr>numOfProcessedStore := m\<rparr>) = sound s0 s"
  "sound s0 (s\<lparr>numOfProcessedCopy := m\<rparr>) = sound s0 s" "sound s0 (s\<lparr>numOfProcessedGep := m\<rparr>) = sound s0 s"
  by (simp_all add: sound_def cong: if_cong)

lemma count_evolves [simp]:
  "evolves s (t\<lparr>numOfProcessedLoad := m\<rparr>) = evolves s t" "evolves s (t\<lparr>numOfProcessedStore := m\<rparr>) = evolves s t"
  "evolves s (t\<lparr>numOfProcessedCopy := m\<rparr>) = evolves s t" "evolves s (t\<lparr>numOfProcessedGep := m\<rparr>) = evolves s t"
  by (simp_all add: evolves_def grows_def)

lemma count_evolves_from:
  "evolves (s\<lparr>numOfProcessedLoad := m\<rparr>) t = evolves s t" "evolves (s\<lparr>numOfProcessedStore := m\<rparr>) t = evolves s t"
  "evolves (s\<lparr>numOfProcessedCopy := m\<rparr>) t = evolves s t" "evolves (s\<lparr>numOfProcessedGep := m\<rparr>) t = evolves s t"
  by (simp_all add: evolves_def grows_def)

section \<open>Loads and stores\<close>

lemma core_live:
  assumes "core_ok C s" "live (consCG s) n"
  shows "svfVars (irs s) n \<noteq> None" "\<exists>p. isPointer n (irs s) = Some p" "n < C"
proof -
  have "n \<in> set (cnodes (consCG s))" using assms(2) by (simp add: live_def)
  then obtain p where p: "isPointer n (irs s) = Some p" using core_okD(8)[OF assms(1)] by blast
  then show "\<exists>p. isPointer n (irs s) = Some p" by blast
  then obtain v where v: "svfVars (irs s) n = Some v" using p by (auto simp: isPointer.simps split: option.splits)
  then show "svfVars (irs s) n \<noteq> None" by simp
  show "n < C" using table_ok_bound[OF core_okD(6)[OF assms(1)] v] .
qed

lemma core_object:
  assumes "core_ok C s" "x \<in> ptsOf s k"
  shows "\<exists>b. getBaseObject x (irs s) = Some b" "live (consCG s) (rep_of s x)" "\<exists>c. isConstantObj x (irs s) = Some c"
    "x < C" "k < C"
proof -
  obtain b where b: "getBaseObject x (irs s) = Some b" using core_okD(5)[OF assms(1)] assms(2) unfolding objs_ok_def by fastforce
  show "\<exists>b. getBaseObject x (irs s) = Some b" "\<exists>c. isConstantObj x (irs s) = Some c" using b isConstantObj_Some by blast+
  show "live (consCG s) (rep_of s x)" using core_okD(5)[OF assms(1)] b unfolding objs_ok_def by blast
  obtain v where "svfVars (irs s) x = Some v" using b by (auto simp: getBaseObject_def split: option.splits)
  then show "x < C" using table_ok_bound[OF core_okD(6)[OF assms(1)]] by blast
  have "live (consCG s) k" by (rule core_okD(11)[OF assms(1)]) (use assms(2) in auto)
  then show "k < C" using core_live(3)[OF assms(1)] by blast
qed

lemma wl_push: "wl (pushIntoWorklist i s) = insert (rep_of s i) (wl s)" if "fifo_inv (wlist s)"
  using that by (auto simp: fifo_push_def fifo_find_def fifo_inv_def)

lemma fifo_inv_push: "fifo_inv w \<Longrightarrow> fifo_inv (snd (fifo_push x w))"
  by (auto simp: fifo_push_def fifo_find_def fifo_inv_def)

lemma core_push:
  assumes "core_ok C s" "live (consCG s) (rep_of s i)"
  shows "core_ok C (pushIntoWorklist i s)"
proof -
  have "objs_ok (pushIntoWorklist i s) = objs_ok s" by (simp add: objs_ok_def)
  moreover have "fifo_inv (wlist (pushIntoWorklist i s))" using core_okD(9)[OF assms(1)] fifo_inv_push by simp
  moreover have "\<forall>n \<in> wl (pushIntoWorklist i s). live (consCG s) n"
    using core_okD(10)[OF assms(1)] assms(2) unfolding wl_push[OF core_okD(9)[OF assms(1)]] by blast
  ultimately show ?thesis using assms(1) by (simp add: core_ok_def)
qed

text \<open>A new copy edge whose source is pushed.\<close>

lemma addCopyEdge_push:
  assumes core: "core_ok C s" and inv: "diff_inv s" "gep_propa s"
    and l: "live (consCG s) (rep_of s a)" "live (consCG s) (rep_of s b)" and w: "rep_of s w = rep_of s a"
    and asked: "\<And>s0. sound s0 s \<Longrightarrow> asked s0 (irs s) (rep_of s a) (rep_of s b)"
  shows "\<exists>c t. addCopyEdge a b s = Some (c, t) \<and> evolves s (if c then pushIntoWorklist w t else t)
    \<and> solution_inv C (if c then pushIntoWorklist w t else t)"
proof (cases "hasEdge Copy (rep_of s a) (rep_of s b) (consCG s) \<or> rep_of s a = rep_of s b")
  case True
  have "getConstraintNode a (consCG s) = Some (rep_of s a)" "getConstraintNode b (consCG s) = Some (rep_of s b)"
    using l by (simp_all add: getConstraintNode_def Let_def rep_of_def live_def)
  then have "addCopyEdge a b s = Some (False, s)" using True by (auto simp: addCopyEdge_def addCopyCGEdge_def)
  then show ?thesis using core inv by (intro exI[of _ False] exI[of _ s]) (simp add: solution_inv_def)
next
  case False
  let ?e = "mkEdge Copy (rep_of s a) (rep_of s b) 0 None (consCG s)"
  let ?g = "insertEdge ?e (consCG s)"
  let ?t = "updatePropaPts a b (s\<lparr>consCG := ?g\<rparr>)"
  let ?u = "pushIntoWorklist w ?t"
  have "getConstraintNode a (consCG s) = Some (rep_of s a)" "getConstraintNode b (consCG s) = Some (rep_of s b)"
    using l by (simp_all add: getConstraintNode_def Let_def rep_of_def live_def)
  then have r: "addCopyEdge a b s = Some (True, ?t)" using False by (simp add: addCopyEdge_def addCopyCGEdge_def mkEdge_def)
  note sp = addCopyEdge_Some[OF inv(1) r]
  have E: "edges ?t = insert ?e (edges s)" by simp
  have nd: "same_nodes (consCG s) (consCG ?t)" using sp by blast
  have rep: "rep_of ?t = rep_of s" "live (consCG ?t) = live (consCG s)" "cnodes (consCG ?t) = cnodes (consCG s)"
    using same_nodes_rep[OF nd] same_nodes_live[OF nd] nd by (auto simp: rep_of_def fun_eq_iff same_nodes_def)
  have p: "dd_getPts (ptD ?t) = dd_getPts (ptD s)" using sp by (simp add: dd_getPts_def fun_eq_iff)
  have coll: "nodesToBeCollapsed (consCG ?t) = nodesToBeCollapsed (consCG s)" by (simp add: insertEdge_def)
  have objs: "objs_ok ?t" using core_okD(5)[OF core] unfolding objs_ok_def rep p by simp
  have d: "diff_inv ?t" using sp by blast
  then have d': "dd_inv (ptD ?t)" "consg_inv (consCG ?t)" "rep_ok (consCG ?t)" "DiffPts ?t" by (simp_all add: diff_inv_def)
  have "\<forall>e \<in> edges ?t. ekind e \<noteq> VariantGep \<and> (ekind e = NormalGep \<longrightarrow> \<bar>eap e\<bar> < 2 ^ 31)"
    using core_okD(14,15)[OF core] unfolding E by auto
  then have ct: "core_ok C ?t"
    using core objs d' unfolding core_ok_def rep p coll by simp
  have cu: "core_ok C ?u" using core_push[OF ct, of w] l(1) w unfolding rep by simp
  have wu: "wl ?u = insert (rep_of s a) (wl s)" using wl_push[OF core_okD(9)[OF ct]] w unfolding rep(1) by simp
  have sub: "set (propaPtsMap (ptD ?t) k) \<subseteq> set (propaPtsMap (ptD s) k)" for k
    by (auto simp: updatePropaPts_def updatePropaPtsMap_def)
  have gp: "gep_propa ?u"
    using inv(2) sub unfolding gep_propa_def pushIntoWorklist_fields p E by (fastforce simp: mkEdge_simps)
  have "evolves s ?u"
    unfolding evolves_def
  proof (intro conjI allI impI)
    show "rep_of ?u = rep_of s" using rep(1) by simp
    show "grows s ?u" by (simp add: grows_def p)
    show "wl s \<subseteq> wl ?u" unfolding wu by blast
    show "sound s0 ?u" if "sound s0 s" for s0
    proof (rule soundI[OF that])
      show "rep_of ?u = rep_of s" using rep(1) by simp
      show "table_le (irs s) (irs ?u)" by simp
      show "x \<in> ptsOf s k \<or> derived s0 (irs ?u) k x" if "x \<in> ptsOf ?u k" for k x using that by (simp add: p)
      show "e \<in> edges s \<or> ekind e = Copy \<and> asked s0 (irs ?u) (esrc e) (edst e)" if "e \<in> edges ?u" for e
        using that asked[OF \<open>sound s0 s\<close>] E by auto
    qed
    fix n
    show "live (consCG ?u) n" if "live (consCG s) n" using that rep(2) by simp
    assume n: "n \<notin> wl ?u"
    show "ptsOf ?u n = ptsOf s n" by (simp add: p)
    show "\<forall>e \<in> edges ?u. esrc e = n \<longrightarrow> e \<in> edges s" using n unfolding wu by (auto simp: E)
  next
    have "?e \<notin> edges s" using False by (auto simp: hasEdge_iff)
    then have "edges ?u \<noteq> edges s" using E by auto
    then show "wlist ?u = wlist s \<or> (\<exists>n. ptsOf ?u n \<noteq> ptsOf s n) \<or> edges ?u \<noteq> edges s" by blast
  qed (use E in auto)
  then show ?thesis using r cu d gp by (auto simp: solution_inv_def)
qed

text \<open>One load or store edge for one object, with the push that follows it.\<close>

abbreviation pushIf :: "node_id \<Rightarrow> (bool \<times> 'a ander_scheme) option \<Rightarrow> 'a ander_scheme option" where
  "pushIf w r \<equiv> map_option (\<lambda>(b, s). if b then pushIntoWorklist w s else s) r"

lemma processLoad_run:
  assumes s: "solution_inv C s" and e: "e \<in> edges s" "ekind e = Load" and x: "x \<in> ptsOf s (esrc e)"
  shows "\<exists>t. pushIf x (processLoad x e s) = Some t \<and> evolves s t \<and> solution_inv C t"
proof -
  have core: "core_ok C s" and inv: "diff_inv s" "gep_propa s" using s by (simp_all add: solution_inv_def)
  note o = core_object[OF core x]
  have l: "live (consCG s) (edst e)" using consg_inv_ends[OF core_okD(2)[OF core] e(1)] by simp
  obtain c where c: "isConstantObj x (irs s) = Some c" using o(3) by blast
  obtain p where p: "isPointer (edst e) (irs s) = Some p" using core_live(2)[OF core l] by blast
  let ?s = "s\<lparr>numOfProcessedLoad := u32 (numOfProcessedLoad s + 1)\<rparr>"
  show ?thesis
  proof (cases "c \<or> \<not> p")
    case True
    then have "processLoad x e s = Some (False, s)" using c p by (cases c) (simp_all add: processLoad_def)
    then show ?thesis using s by simp
  next
    case False
    have a: "core_ok C ?s" "diff_inv ?s" "gep_propa ?s" using core inv by (simp_all add: gep_propa_def)
    have r: "live (consCG ?s) (rep_of ?s x)" "live (consCG ?s) (rep_of ?s (edst e))"
      using o(2) l rep_of_live[OF l] by simp_all
    have "asked s0 (irs ?s) (rep_of ?s x) (rep_of ?s (edst e))" if "sound s0 ?s" for s0
    proof -
      have "sound s0 s" using that by simp
      note sd = soundD[OF this]
      have "e \<in> edges s0" using sd(5)[OF e(1)] e(2) by simp
      moreover have "derived s0 (irs s) (esrc e) x" by (rule sd(3)[OF x])
      moreover have "flows (irs s) x (edst e)" using False c p by (simp add: flows_def)
      ultimately show ?thesis using e(2) rep_of_live[OF l] sd(1) unfolding asked_def by auto
    qed
    from addCopyEdge_push[OF a r refl this] obtain b t where t: "addCopyEdge x (edst e) ?s = Some (b, t)"
        "evolves ?s (if b then pushIntoWorklist x t else t)" "solution_inv C (if b then pushIntoWorklist x t else t)" by blast
    moreover have "processLoad x e s = addCopyEdge x (edst e) ?s" using False c p by (simp add: processLoad_def)
    ultimately show ?thesis by (simp add: count_evolves_from)
  qed
qed

lemma processStore_run:
  assumes s: "solution_inv C s" and e: "e \<in> edges s" "ekind e = Store" and x: "x \<in> ptsOf s (edst e)"
  shows "\<exists>t. pushIf (esrc e) (processStore x e s) = Some t \<and> evolves s t \<and> solution_inv C t"
proof -
  have core: "core_ok C s" and inv: "diff_inv s" "gep_propa s" using s by (simp_all add: solution_inv_def)
  note o = core_object[OF core x]
  have l: "live (consCG s) (esrc e)" using consg_inv_ends[OF core_okD(2)[OF core] e(1)] by simp
  obtain c where c: "isConstantObj x (irs s) = Some c" using o(3) by blast
  obtain p where p: "isPointer (esrc e) (irs s) = Some p" using core_live(2)[OF core l] by blast
  let ?s = "s\<lparr>numOfProcessedStore := u32 (numOfProcessedStore s + 1)\<rparr>"
  show ?thesis
  proof (cases "c \<or> \<not> p")
    case True
    then have "processStore x e s = Some (False, s)" using c p by (cases c) (simp_all add: processStore_def)
    then show ?thesis using s by simp
  next
    case False
    have a: "core_ok C ?s" "diff_inv ?s" "gep_propa ?s" using core inv by (simp_all add: gep_propa_def)
    have r: "live (consCG ?s) (rep_of ?s (esrc e))" "live (consCG ?s) (rep_of ?s x)"
      using o(2) l rep_of_live[OF l] by simp_all
    have "asked s0 (irs ?s) (rep_of ?s (esrc e)) (rep_of ?s x)" if "sound s0 ?s" for s0
    proof -
      have "sound s0 s" using that by simp
      note sd = soundD[OF this]
      have "e \<in> edges s0" using sd(5)[OF e(1)] e(2) by simp
      moreover have "derived s0 (irs s) (edst e) x" by (rule sd(3)[OF x])
      moreover have "flows (irs s) x (esrc e)" using False c p by (simp add: flows_def)
      ultimately show ?thesis using e(2) rep_of_live[OF l] sd(1) unfolding asked_def by auto
    qed
    from addCopyEdge_push[OF a r refl this] obtain b t where t: "addCopyEdge (esrc e) x ?s = Some (b, t)"
        "evolves ?s (if b then pushIntoWorklist (esrc e) t else t)" "solution_inv C (if b then pushIntoWorklist (esrc e) t else t)" by blast
    moreover have "processStore x e s = addCopyEdge (esrc e) x ?s" using False c p by (simp add: processStore_def)
    ultimately show ?thesis by (simp add: count_evolves_from)
  qed
qed

text \<open>A loop of such steps.\<close>

lemma evolving_loop:
  assumes s: "solution_inv C s"
    and f: "\<And>x u. x \<in> set xs \<Longrightarrow> evolves s u \<Longrightarrow> solution_inv C u \<Longrightarrow> \<exists>t. f x u = Some t \<and> evolves u t \<and> solution_inv C t"
  shows "\<exists>t. foldO f xs s = Some t \<and> evolves s t \<and> solution_inv C t"
proof -
  let ?I = "\<lambda>ys u. set ys \<subseteq> set xs \<and> evolves s u \<and> solution_inv C u"
  have "\<exists>t. foldO f xs s = Some t \<and> ?I [] t"
  proof (rule foldO_rule)
    show "?I xs s" using s by simp
    fix y ys u assume I: "?I (y # ys) u"
    then obtain t where "f y u = Some t" "evolves u t" "solution_inv C t" using f[of y u] by auto
    then show "\<exists>t. f y u = Some t \<and> ?I ys t" using I evolves_trans[of s u t] by auto
  qed
  then show ?thesis by blast
qed

lemma evolves_pts: "evolves s t \<Longrightarrow> x \<in> ptsOf s k \<Longrightarrow> x \<in> ptsOf t k"
  using evolvesD(3) unfolding grows_def by blast

lemma handleLoadStore_run:
  assumes s: "solution_inv C s" and l: "live (consCG s) n"
  shows "\<exists>t. handleLoadStore andersen_methods n s = Some t \<and> evolves s t \<and> solution_inv C t"
  unfolding handleLoadStore_def
proof (rule evolving_loop[OF s])
  fix x u assume x: "x \<in> set (getPts s n)" and u: "evolves s u" "solution_inv C u"
  have xu: "x \<in> ptsOf v n" if "evolves s v" for v using evolves_pts[OF that] x unfolding getPts_live[OF l] .
  have "\<exists>t. foldO (\<lambda>e v. pushIf x (processLoad x e v)) (getLoadOutEdges n (consCG u)) u = Some t \<and> evolves u t \<and> solution_inv C t"
  proof (rule evolving_loop[OF u(2)])
    fix e v assume e: "e \<in> set (getLoadOutEdges n (consCG u))" and v: "evolves u v" "solution_inv C v"
    show "\<exists>t. pushIf x (processLoad x e v) = Some t \<and> evolves v t \<and> solution_inv C t"
    proof (rule processLoad_run[OF v(2)])
      show "e \<in> edges v" "ekind e = Load" "x \<in> ptsOf v (esrc e)"
        using e evolvesD(4)[OF v(1)] xu[OF evolves_trans[OF u(1) v(1)]] by (auto simp: set_getLoadOutEdges)
    qed
  qed
  then obtain u1 where u1: "foldO (\<lambda>e v. pushIf x (processLoad x e v)) (getLoadOutEdges n (consCG u)) u = Some u1"
      "evolves u u1" "solution_inv C u1" by blast
  have su1: "evolves s u1" using u(1) u1(2) by (rule evolves_trans)
  have "\<exists>t. foldO (\<lambda>e v. pushIf (esrc e) (processStore x e v)) (getStoreInEdges n (consCG u1)) u1 = Some t \<and> evolves u1 t \<and> solution_inv C t"
  proof (rule evolving_loop[OF u1(3)])
    fix e v assume e: "e \<in> set (getStoreInEdges n (consCG u1))" and v: "evolves u1 v" "solution_inv C v"
    show "\<exists>t. pushIf (esrc e) (processStore x e v) = Some t \<and> evolves v t \<and> solution_inv C t"
    proof (rule processStore_run[OF v(2)])
      show "e \<in> edges v" "ekind e = Store" "x \<in> ptsOf v (edst e)"
        using e evolvesD(4)[OF v(1)] xu[OF evolves_trans[OF su1 v(1)]] by (auto simp: set_getStoreInEdges)
    qed
  qed
  then obtain u2 where u2: "foldO (\<lambda>e v. pushIf (esrc e) (processStore x e v)) (getStoreInEdges n (consCG u1)) u1 = Some u2"
      "evolves u1 u2" "solution_inv C u2" by blast
  show "\<exists>t. do {
         s1 \<leftarrow> foldO (\<lambda>e s'. pushIf x (v_processLoad andersen_methods x e s')) (getLoadOutEdges n (consCG u)) u;
         foldO (\<lambda>e s'. pushIf (esrc e) (v_processStore andersen_methods x e s')) (getStoreInEdges n (consCG s1)) s1
       } = Some t \<and> evolves u t \<and> solution_inv C t"
    using u1(1) u2 evolves_trans[OF u1(2) u2(2)] by (simp add: andersen_methods_def)
qed

section \<open>Copy and field edges\<close>

lemma union_push:
  assumes core: "core_ok C s" and l: "live (consCG s) dst"
    and obj: "\<And>x. x \<in> set D \<Longrightarrow> getBaseObject x (irs s) \<noteq> None"
    and der: "\<And>s0 x. sound s0 s \<Longrightarrow> x \<in> set D \<Longrightarrow> derived s0 (irs s) dst x"
  shows "\<exists>t. t = (if fst (unionPts dst D s) then pushIntoWorklist dst (snd (unionPts dst D s)) else snd (unionPts dst D s))
    \<and> evolves s t \<and> core_ok C t \<and> set D \<subseteq> ptsOf t dst
    \<and> diffPtsMap (ptD t) = diffPtsMap (ptD s) \<and> propaPtsMap (ptD t) = propaPtsMap (ptD s)"
proof -
  let ?v = "snd (unionPts dst D s)" and ?c = "fst (unionPts dst D s)"
  note inv = core_okD(1)[OF core]
  have r: "rep_of s dst = dst" by (rule rep_of_live[OF l])
  have rv: "rep_of ?v = rep_of s" by (simp add: rep_of_def fun_eq_iff)
  have ch: "?c \<longleftrightarrow> \<not> set D \<subseteq> ptsOf s dst" using dd.union_changed[OF inv] by (simp add: r)
  have P: "ptsOf ?v k = (if k = dst then ptsOf s k \<union> set D else ptsOf s k)" for k
    using dd.union_pts[OF inv] by (auto simp: r)
  have "\<forall>k. \<forall>i \<in> ptsOf ?v k. getBaseObject i (irs s) \<noteq> None"
    using core_okD(5)[OF core] obj unfolding objs_ok_def P by auto
  then have "objs_ok ?v"
    using core_okD(5)[OF core] unfolding objs_ok_def rv unionPts_fields(1,2) by blast
  moreover have "\<forall>k. ptsOf ?v k \<noteq> {} \<longrightarrow> live (consCG s) k"
    using core_okD(11)[OF core] l unfolding P by auto
  moreover have "dd_inv (ptD ?v)" using dd.union_inv[OF inv] by simp
  ultimately have cv: "core_ok C ?v"
    using core unfolding core_ok_def rv unionPts_fields(1-4) by blast
  have cp: "core_ok C (pushIntoWorklist dst ?v)" using core_push[OF cv, of dst] l by (simp add: r rv)
  have wp: "wl (pushIntoWorklist dst ?v) = insert dst (wl s)"
    using wl_push[OF core_okD(9)[OF cv], of dst] by (simp only: rv r unionPts_fields)
  obtain t where t: "t = (if ?c then pushIntoWorklist dst ?v else ?v)" and f: "core_ok C t" "rep_of t = rep_of s" "irs t = irs s"
      "consCG t = consCG s" "\<And>k. ptsOf t k = ptsOf ?v k" "wl t = (if ?c then insert dst (wl s) else wl s)" "\<not> ?c \<Longrightarrow> wlist t = wlist s"
      "diffPtsMap (ptD t) = diffPtsMap (ptD s)" "propaPtsMap (ptD t) = propaPtsMap (ptD s)"
  proof (cases ?c)
    case True
    then show ?thesis using cp wp rv by (intro that[of "pushIntoWorklist dst ?v"]) (simp_all add: dd_unionPts_simps del: pushIntoWorklist_fields(5))
  next
    case False
    then show ?thesis using cv rv by (intro that[of ?v]) (simp_all add: dd_unionPts_simps)
  qed
  have "evolves s t"
    unfolding evolves_def f(2-4)
  proof (intro conjI allI impI)
    show "grows s t" unfolding grows_def f(5) P by auto
    show "wl s \<subseteq> wl t" unfolding f(6) by auto
    show "wlist t = wlist s \<or> (\<exists>n. ptsOf t n \<noteq> ptsOf s n) \<or> edges s \<noteq> edges s"
    proof (cases ?c)
      case True
      then have "ptsOf t dst \<noteq> ptsOf s dst" unfolding f(5) P ch by auto
      then show ?thesis by blast
    qed (use f(7) in blast)
    show "sound s0 t" if so: "sound s0 s" for s0
    proof (rule soundI[OF so f(2)])
      show "table_le (irs s) (irs t)" by (simp add: f(3))
      show "x \<in> ptsOf s k \<or> derived s0 (irs t) k x" if "x \<in> ptsOf t k" for k x
        using that der[OF so, of x] unfolding f(3,5) P by (auto split: if_splits)
    qed (simp add: f(4))
    fix n assume "n \<notin> wl t"
    then show "ptsOf t n = ptsOf s n" unfolding f(5,6) P ch by (auto split: if_splits)
  qed simp_all
  moreover have "set D \<subseteq> ptsOf t dst" unfolding f(5) P by simp
  ultimately show ?thesis using t f(1,8,9) by blast
qed

text \<open>A step of \<^verbatim>\<open>handleCopyGep\<close>: the bookkeeping of differences stays as it is.\<close>

definition flow_step :: "nat \<Rightarrow> 'a ander_scheme \<Rightarrow> 'a ander_scheme \<Rightarrow> bool" where
  "flow_step C s t \<longleftrightarrow> evolves s t \<and> core_ok C t \<and> diffPtsMap (ptD t) = diffPtsMap (ptD s) \<and> propaPtsMap (ptD t) = propaPtsMap (ptD s)"

lemma flow_step_refl: "core_ok C s \<Longrightarrow> flow_step C s s"
  by (simp add: flow_step_def)

lemma flow_step_trans: "flow_step C s t \<Longrightarrow> flow_step C t u \<Longrightarrow> flow_step C s u"
  unfolding flow_step_def using evolves_trans by auto

lemma flow_loop:
  assumes s: "core_ok C s"
    and f: "\<And>x u. x \<in> set xs \<Longrightarrow> flow_step C s u \<Longrightarrow> \<exists>t. f x u = Some t \<and> flow_step C u t \<and> P x t"
    and mono: "\<And>x u t. P x u \<Longrightarrow> flow_step C u t \<Longrightarrow> P x t"
  shows "\<exists>t. foldO f xs s = Some t \<and> flow_step C s t \<and> (\<forall>x \<in> set xs. P x t)"
proof -
  let ?I = "\<lambda>ys u. flow_step C s u \<and> set ys \<subseteq> set xs \<and> (\<forall>x \<in> set xs. x \<in> set ys \<or> P x u)"
  have "\<exists>t. foldO f xs s = Some t \<and> ?I [] t"
  proof (rule foldO_rule)
    show "?I xs s" using flow_step_refl[OF s] by simp
    fix y ys u assume I: "?I (y # ys) u"
    then obtain t where t: "f y u = Some t" "flow_step C u t" "P y t" using f[of y u] by auto
    moreover have "flow_step C s t" using I t(2) flow_step_trans by blast
    moreover have "\<forall>x \<in> set xs. x \<in> set ys \<or> P x t" using I t(3) mono[OF _ t(2)] by auto
    ultimately show "\<exists>t. f y u = Some t \<and> ?I ys t" using I by auto
  qed
  then show ?thesis by auto
qed

text \<open>The field of one object.\<close>

lemma getGepObjVar_run:
  assumes ok: "table_ok C p" and b: "getBaseObject x p = Some b" and ap: "\<bar>ap\<bar> < 2 ^ 31"
    and keep: "keepsObject x p = Some False"
  shows "\<exists>y q. getGepObjVar x ap p = Some (y, q) \<and> table_ok C q \<and> table_le p q \<and> field_at q x ap = Some y
    \<and> getBaseObject y q = Some b \<and> (q = p \<or> svfVars p y = None) \<and> (\<forall>i. svfVars q i \<noteq> None \<longrightarrow> i = y \<or> svfVars p i \<noteq> None)"
proof -
  have base: "isBaseObj b p" and cs: "x = b \<or> (\<exists>off. svfVars p x = Some (GepObjVar b off))"
    using getBaseObject_Some[OF b] by blast+
  obtain off where off: "\<bar>off\<bar> < 2 ^ 32" and g: "getGepObjVar x ap p = getGepObjVarOf b off p"
    and f: "\<And>q. table_le p q \<Longrightarrow> field_at q x ap = fieldOfBase b off q"
  proof (cases "x = b")
    case True
    obtain ptr con where v: "svfVars p b = Some (BaseObjVar ptr con)" using base by (auto simp: isBaseObj_def)
    have "field_at q x ap = fieldOfBase b ap q" if "table_le p q" for q
      using table_le_keeps[OF that keep] table_le_vars[OF that v] True by (simp add: field_at_def)
    moreover have "getGepObjVar x ap p = getGepObjVarOf b ap p" using v True by (simp add: getGepObjVar_def)
    ultimately show ?thesis using that[of ap] ap by simp
  next
    case False
    then obtain o1 where v: "svfVars p x = Some (GepObjVar b o1)" using cs by blast
    have o: "0 \<le> o1" "o1 < int (maxOffsetLimit p b)" "maxOffsetLimit p b \<le> 2 ^ 31" using ok v by (auto simp: table_ok_def)
    have "int (maxOffsetLimit p b) \<le> int (2 ^ 31)" using o(3) by (simp only: of_nat_le_iff)
    then have "o1 < 2 ^ 31" using o(2) by simp
    then have "\<bar>o1 + ap\<bar> < 2 ^ 32" using o(1) ap by simp
    moreover have "field_at q x ap = fieldOfBase b (o1 + ap) q" if "table_le p q" for q
      using table_le_keeps[OF that keep] table_le_vars[OF that v] by (simp add: field_at_def)
    moreover have "getGepObjVar x ap p = getGepObjVarOf b (o1 + ap) p" by (rule getGepObjVar_gep[OF v base])
    ultimately show ?thesis using that by blast
  qed
  from fieldOfBase_step[OF ok base off] show ?thesis using g f by force
qed

lemma gepTarget_keep:
  assumes e: "ekind e = NormalGep" and k: "keepsObject x (irs s) = Some keep"
  shows "gepTarget e x s = (if keep then Some (x, s) else consGepObjVar x (eap e) s)"
proof -
  obtain blk where blk: "isBlkObjOrConstantObj x (irs s) = Some blk" using k by (auto simp: keepsObject_def Option.bind_eq_Some_conv)
  then have "(if blk then Some True else isFieldInsensitive x (irs s)) = Some keep" using k by (simp add: keepsObject_def)
  then show ?thesis using e blk by (simp add: gepTarget_def)
qed

lemma gepTarget_run:
  assumes core: "core_ok C s" and e: "ekind e = NormalGep" "\<bar>eap e\<bar> < 2 ^ 31"
    and b: "getBaseObject x (irs s) = Some b"
  shows "\<exists>y t. gepTarget e x s = Some (y, t) \<and> flow_step C s t \<and> field_at (irs t) x (eap e) = Some y
    \<and> getBaseObject y (irs t) \<noteq> None \<and> ptD t = ptD s"
proof -
  obtain c where c: "isConstantObj x (irs s) = Some c" using isConstantObj_Some[OF b] by blast
  obtain i where i: "isFieldInsensitive x (irs s) = Some i" using b by (simp add: isFieldInsensitive_def)
  obtain keep where k: "keepsObject x (irs s) = Some keep"
    using c i by (cases "isBlkObj x"; cases c) (auto simp: keepsObject_def isBlkObjOrConstantObj_def)
  note gt = gepTarget_keep[OF e(1) k]
  show ?thesis
  proof (cases keep)
    case True
    then show ?thesis using gt k b flow_step_refl[OF core] by (simp add: field_at_def)
  next
    case False
    then have kf: "keepsObject x (irs s) = Some False" using k by simp
    obtain y q where y: "getGepObjVar x (eap e) (irs s) = Some (y, q)" "table_ok C q" "table_le (irs s) q"
        "field_at q x (eap e) = Some y" "getBaseObject y q = Some b" "q = irs s \<or> svfVars (irs s) y = None"
        "\<forall>i. svfVars q i \<noteq> None \<longrightarrow> i = y \<or> svfVars (irs s) i \<noteq> None"
      using getGepObjVar_run[OF core_okD(6)[OF core] b e(2) kf] by blast
    let ?new = "rep_of s y = y \<and> \<not> hasConstraintNode y (consCG s)"
    obtain t where r: "gepTarget e x s = Some (y, t)" and f: "irs t = q" "ptD t = ptD s" "wlist t = wlist s" "DiffPts t = DiffPts s"
        "cedges (consCG t) = cedges (consCG s)" "nodesToBeCollapsed (consCG t) = nodesToBeCollapsed (consCG s)"
        "rep_of t = rep_of s" "sccRepNode (consCG t) = sccRepNode (consCG s)" "consg_inv (consCG t)"
        "set (cnodes (consCG t)) = (if ?new then insert y (set (cnodes (consCG s))) else set (cnodes (consCG s)))"
    proof
      let ?t = "if ?new then s\<lparr>irs := q, consCG := addConstraintNode y (consCG s)\<rparr> else s\<lparr>irs := q\<rparr>"
      show "gepTarget e x s = Some (y, ?t)" using gt False y(1) by (simp add: consGepObjVar_def Let_def)
      show "set (cnodes (consCG ?t)) = (if ?new then insert y (set (cnodes (consCG s))) else set (cnodes (consCG s)))"
        by (auto simp: addConstraintNode_def)
      show "consg_inv (consCG ?t)" using core_okD(2)[OF core] addConstraintNode_inv by simp
      show "rep_of ?t = rep_of s" by (simp add: rep_of_def fun_eq_iff)
    qed (simp_all add: addConstraintNode_def fun_eq_iff sccRepNode_def)
    have live: "live (consCG t) n \<longleftrightarrow> live (consCG s) n \<or> ?new \<and> n = y" for n
      unfolding live_def f(8,10) by (auto simp: rep_of_def)
    have ly: "live (consCG t) (rep_of s y)"
    proof (cases "q = irs s")
      case True
      then have "live (consCG s) (rep_of s y)" using core_okD(5)[OF core] y(5) unfolding objs_ok_def by blast
      then show ?thesis by (simp add: live)
    next
      case False
      then have n: "svfVars (irs s) y = None" using y(6) by blast
      then have ry: "rep_of s y = y" using core_okD(12)[OF core] by blast
      have "isPointer y (irs s) = None" using n by (simp add: isPointer.simps)
      then have "\<not> hasConstraintNode y (consCG s)" using core_okD(8)[OF core, of y] ry by (auto simp: hasConstraintNode_def rep_of_def)
      then show ?thesis using ry by (simp add: live)
    qed
    have lm: "live (consCG t) n" if "live (consCG s) n" for n
      using that by (simp add: live)
    have obj: "live (consCG t) (rep_of s i)" if "getBaseObject i q = Some b'" for i b'
    proof (cases "i = y")
      case False
      have "svfVars q i \<noteq> None" using that by (auto simp: getBaseObject_def split: option.splits)
      then obtain v where v: "svfVars (irs s) i = Some v" using y(7) False by blast
      have "getBaseObject i (irs s) \<noteq> None"
      proof (cases v)
        case (ValVar ptr)
        then show ?thesis using that table_le_vars[OF y(3) v] by (simp add: getBaseObject_def)
      next
        case (GepObjVar c off)
        have "pag_inv (irs s)" using core_okD(6)[OF core] by (simp add: table_ok_def)
        then have "isBaseObj c (irs s)" using v GepObjVar unfolding pag_inv_def by blast
        then show ?thesis using getBaseObject_gep[of "irs s" i c off] v GepObjVar by simp
      qed (simp add: getBaseObject_def v)
      then show ?thesis using core_okD(5)[OF core] lm unfolding objs_ok_def by blast
    qed (use ly in simp)
    have objs: "objs_ok t"
    proof -
      have "pag_inv q" using y(2) by (simp add: table_ok_def)
      moreover have "\<forall>k. \<forall>i \<in> ptsOf s k. getBaseObject i q \<noteq> None"
        using core_object(1)[OF core] table_le_getBaseObject[OF y(3)] by fastforce
      ultimately show ?thesis using obj unfolding objs_ok_def f(1,2,7) by simp
    qed
    have nodes: "live (consCG t) n \<and> isPointer n q \<noteq> None" if "n \<in> set (cnodes (consCG t))" for n
    proof (cases "n \<in> set (cnodes (consCG s))")
      case True
      then show ?thesis using core_okD(7,8)[OF core True] lm table_le_isPointer[OF y(3)] by fastforce
    next
      case False
      then have n: "n = y" "rep_of s y = y" using that by (auto simp: f(10) split: if_splits)
      obtain ptr con where "svfVars q b = Some (BaseObjVar ptr con)" "y = b \<or> (\<exists>off. svfVars q y = Some (GepObjVar b off))"
        using getBaseObject_Some[OF y(5)] by (auto simp: isBaseObj_def)
      then show ?thesis using n ly by (auto simp: isPointer.simps)
    qed
    have "core_ok C t"
      unfolding core_ok_def f(1-7)
    proof (intro conjI)
      show "rep_ok (consCG t)" using core_okD(3)[OF core] by (simp add: rep_ok_def f(8))
      show "\<forall>n \<in> set (cnodes (consCG t)). live (consCG t) n \<and> isPointer n q \<noteq> None" using nodes by blast
      show "\<forall>n \<in> wl s. live (consCG t) n" using core_okD(10)[OF core] lm by blast
      show "\<forall>k. ptsOf s k \<noteq> {} \<longrightarrow> live (consCG t) k" using core_okD(11)[OF core] lm by blast
      have "svfVars q i \<noteq> None" if "rep_of s i \<noteq> i" for i
        using core_okD(12)[OF core that] table_le_vars[OF y(3)] by fastforce
      then show "\<forall>i. rep_of s i \<noteq> i \<longrightarrow> svfVars q i \<noteq> None" by blast
      show "\<forall>e \<in> edges s. ekind e \<noteq> VariantGep \<and> (ekind e = NormalGep \<longrightarrow> \<bar>eap e\<bar> < 2 ^ 31)"
        using core_okD(14,15)[OF core] by blast
    qed (use core_okD(1,4,9,13)[OF core] objs y(2) f(9) in blast)+
    moreover have "evolves s t"
      unfolding evolves_def f(1-7)
    proof (intro conjI allI impI)
      show "sound s0 t" if "sound s0 s" for s0
        by (rule soundI[OF that f(7)]) (use y(3) f(1,2,5) in simp_all)
      show "grows s t" by (simp add: grows_def f(2))
    qed (use y(3) lm f(2) in simp_all)
    ultimately show ?thesis using r y(4,5) f(1,2) by (intro exI[of _ y] exI[of _ t]) (simp add: flow_step_def)
  qed
qed

text \<open>One field edge.\<close>

definition field_done :: "cedge \<Rightarrow> node_id set \<Rightarrow> 'a ander_scheme \<Rightarrow> bool" where
  "field_done e A s \<longleftrightarrow> (\<forall>x \<in> A. \<exists>y. field_at (irs s) x (eap e) = Some y \<and> y \<in> ptsOf s (edst e))"

lemma field_done_mono: "field_done e A s \<Longrightarrow> evolves s t \<Longrightarrow> field_done e A t"
  unfolding field_done_def using evolvesD(2) evolves_pts table_le_field_at by blast

lemma gepPts_run:
  assumes core: "core_ok C s" and e: "ekind e = NormalGep" "\<bar>eap e\<bar> < 2 ^ 31"
    and D: "\<And>x. x \<in> set D \<Longrightarrow> getBaseObject x (irs s) \<noteq> None"
  shows "\<exists>tmp t. foldO (\<lambda>x (tmp, u). map_option (\<lambda>(y, v). (oset_insert y tmp, v)) (gepTarget e x u)) D ([], s) = Some (tmp, t)
    \<and> flow_step C s t \<and> ptD t = ptD s \<and> (\<forall>x \<in> set D. \<exists>y \<in> set tmp. field_at (irs t) x (eap e) = Some y)
    \<and> (\<forall>y \<in> set tmp. getBaseObject y (irs t) \<noteq> None \<and> (\<exists>x \<in> set D. field_at (irs t) x (eap e) = Some y))"
proof -
  let ?I = "\<lambda>ys (tmp, u). flow_step C s u \<and> ptD u = ptD s \<and> set ys \<subseteq> set D
    \<and> (\<forall>x \<in> set D. x \<in> set ys \<or> (\<exists>y \<in> set tmp. field_at (irs u) x (eap e) = Some y))
    \<and> (\<forall>y \<in> set tmp. getBaseObject y (irs u) \<noteq> None \<and> (\<exists>x \<in> set D. field_at (irs u) x (eap e) = Some y))"
  have "\<exists>r. foldO (\<lambda>x (tmp, u). map_option (\<lambda>(y, v). (oset_insert y tmp, v)) (gepTarget e x u)) D ([], s) = Some r \<and> ?I [] r"
  proof (rule foldO_rule)
    show "?I D ([], s)" using flow_step_refl[OF core] by simp
    fix x ys and r :: "node_id oset \<times> 'a ander_scheme" assume I: "?I (x # ys) r"
    obtain tmp u where r: "r = (tmp, u)" by (cases r)
    have u: "flow_step C s u" "ptD u = ptD s" "x \<in> set D" "set ys \<subseteq> set D"
      "\<And>x'. x' \<in> set D \<Longrightarrow> x' = x \<or> x' \<in> set ys \<or> (\<exists>y \<in> set tmp. field_at (irs u) x' (eap e) = Some y)"
      "\<And>y. y \<in> set tmp \<Longrightarrow> getBaseObject y (irs u) \<noteq> None" "\<And>y. y \<in> set tmp \<Longrightarrow> \<exists>x \<in> set D. field_at (irs u) x (eap e) = Some y"
      using I by (auto simp: r)
    have le: "table_le (irs s) (irs u)" and cu: "core_ok C u" using u(1) evolvesD(2) unfolding flow_step_def by blast+
    obtain b where "getBaseObject x (irs s) = Some b" using D[OF u(3)] by blast
    then have "getBaseObject x (irs u) = Some b" using table_le_getBaseObject[OF le] by blast
    from gepTarget_run[OF cu e this] obtain y v where v: "gepTarget e x u = Some (y, v)" "flow_step C u v"
        "field_at (irs v) x (eap e) = Some y" "getBaseObject y (irs v) \<noteq> None" "ptD v = ptD u" by blast
    have lv: "table_le (irs u) (irs v)" using v(2) evolvesD(2) unfolding flow_step_def by blast
    have fm: "field_at (irs v) x' (eap e) = Some y'" if "field_at (irs u) x' (eap e) = Some y'" for x' y'
      using table_le_field_at[OF lv that] .
    have "?I ys (oset_insert y tmp, v)"
      unfolding prod.case
    proof (intro conjI ballI)
      show "flow_step C s v" using u(1) v(2) by (rule flow_step_trans)
      show "ptD v = ptD s" "set ys \<subseteq> set D" using u(2,4) v(5) by simp_all
      show "x' \<in> set ys \<or> (\<exists>y' \<in> set (oset_insert y tmp). field_at (irs v) x' (eap e) = Some y')" if "x' \<in> set D" for x'
        using u(5)[OF that] v(3) fm by auto
      fix y' assume y': "y' \<in> set (oset_insert y tmp)"
      show "getBaseObject y' (irs v) \<noteq> None"
        using y' v(4) u(6) table_le_getBaseObject[OF lv] by fastforce
      show "\<exists>x \<in> set D. field_at (irs v) x (eap e) = Some y'"
      proof (cases "y' = y")
        case False
        then obtain x' where "x' \<in> set D" "field_at (irs u) x' (eap e) = Some y'" using u(7)[of y'] y' by auto
        then show ?thesis using fm by blast
      qed (use v(3) u(3) in blast)
    qed
    then show "\<exists>r'. (case r of (tmp, u) \<Rightarrow> map_option (\<lambda>(y, v). (oset_insert y tmp, v)) (gepTarget e x u)) = Some r' \<and> ?I ys r'"
      using v(1) by (intro exI[of _ "(oset_insert y tmp, v)"]) (simp add: r)
  qed
  then show ?thesis by auto
qed

lemma processGep_run:
  assumes core: "core_ok C s" and e: "e \<in> edges s" "ekind e = NormalGep" and D: "set (diffOf s (esrc e)) \<subseteq> ptsOf s (esrc e)"
  shows "\<exists>b t. processGep diffOf n e s = Some (b, t) \<and> flow_step C s t \<and> field_done e (set (diffOf s (esrc e))) t"
proof -
  let ?D = "diffOf s (esrc e)" and ?s0 = "s\<lparr>numOfProcessedGep := u32 (numOfProcessedGep s + 1)\<rparr>"
  have c0: "core_ok C ?s0" using core by simp
  have obj: "getBaseObject x (irs ?s0) \<noteq> None" if "x \<in> set ?D" for x
    using core_object(1)[OF core] D that by fastforce
  from gepPts_run[where D = ?D, OF c0 e(2) core_okD(15)[OF core e] this] obtain tmp u where
    u: "foldO (\<lambda>x (tmp, u). map_option (\<lambda>(y, v). (oset_insert y tmp, v)) (gepTarget e x u)) ?D ([], ?s0) = Some (tmp, u)"
      "flow_step C ?s0 u" "ptD u = ptD s" "\<forall>x \<in> set ?D. \<exists>y \<in> set tmp. field_at (irs u) x (eap e) = Some y"
      "\<forall>y \<in> set tmp. getBaseObject y (irs u) \<noteq> None \<and> (\<exists>x \<in> set ?D. field_at (irs u) x (eap e) = Some y)" by auto
  have su: "flow_step C s u" using u(2) by (simp add: flow_step_def count_evolves_from)
  have cu: "core_ok C u" "evolves s u" using su by (simp_all add: flow_step_def)
  have l: "live (consCG u) (edst e)" using evolvesD(6)[OF cu(2)] consg_inv_ends[OF core_okD(2)[OF core] e(1)] by blast
  have eu: "e \<in> edges u" using evolvesD(4)[OF cu(2)] e(1) by blast
  have "derived s0 (irs u) (edst e) y" if so: "sound s0 u" and y: "y \<in> set tmp" for s0 y
  proof -
    obtain x where x: "x \<in> set ?D" "field_at (irs u) x (eap e) = Some y" using u(5) y by blast
    have "derived s0 (irs u) (esrc e) x" using soundD(3)[OF so] x(1) D by (auto simp: u(3))
    moreover have "e \<in> edges s0" using soundD(5)[OF so eu] e(2) by simp
    ultimately show ?thesis using derived.field e(2) x(2) by blast
  qed
  from union_push[where D = tmp, OF cu(1) l _ this] u(5) obtain t where
    t: "t = (if fst (unionPts (edst e) tmp u) then pushIntoWorklist (edst e) (snd (unionPts (edst e) tmp u)) else snd (unionPts (edst e) tmp u))"
      "evolves u t" "core_ok C t" "set tmp \<subseteq> ptsOf t (edst e)"
      "diffPtsMap (ptD t) = diffPtsMap (ptD u)" "propaPtsMap (ptD t) = propaPtsMap (ptD u)" by blast
  have "processGep diffOf n e s = Some (fst (unionPts (edst e) tmp u), t)"
    using u(1) e(2) t(1) by (simp add: processGep_def processGepPts_def isGepKind_def Let_def case_prod_beta)
  moreover have "flow_step C s t" using su t(2,3,5,6) flow_step_trans[of C s u t] by (simp add: flow_step_def)
  moreover have "field_done e (set ?D) t"
    unfolding field_done_def using u(4) t(4) table_le_field_at[OF evolvesD(2)[OF t(2)]] by blast
  ultimately show ?thesis by blast
qed

lemma processCopy_run:
  assumes core: "core_ok C s" and e: "e \<in> edges s" "ekind e = Copy" "esrc e = n" and D: "set (diffOf s n) \<subseteq> ptsOf s n"
  shows "\<exists>b t. processCopy diffOf n e s = Some (b, t) \<and> flow_step C s t"
proof -
  let ?D = "diffOf s n" and ?s0 = "s\<lparr>numOfProcessedCopy := u32 (numOfProcessedCopy s + 1)\<rparr>"
  have c0: "core_ok C ?s0" using core by simp
  have l: "live (consCG ?s0) (edst e)" using consg_inv_ends[OF core_okD(2)[OF core] e(1)] by simp
  have obj: "getBaseObject x (irs ?s0) \<noteq> None" if "x \<in> set ?D" for x
    using core_object(1)[OF core] D that by fastforce
  have "derived s0 (irs ?s0) (edst e) x" if so: "sound s0 ?s0" and x: "x \<in> set ?D" for s0 x
  proof -
    have so': "sound s0 s" using so by simp
    have "derived s0 (irs s) (esrc e) x" using soundD(3)[OF so'] x D e(3) by blast
    then show ?thesis using asked_derived[OF soundD(4)[OF so' e(1,2)]] by simp
  qed
  from union_push[where D = ?D, OF c0 l obj this] obtain t where
    t: "t = (if fst (unionPts (edst e) ?D ?s0) then pushIntoWorklist (edst e) (snd (unionPts (edst e) ?D ?s0)) else snd (unionPts (edst e) ?D ?s0))"
      "evolves ?s0 t" "core_ok C t" "diffPtsMap (ptD t) = diffPtsMap (ptD ?s0)" "propaPtsMap (ptD t) = propaPtsMap (ptD ?s0)" by blast
  have "processCopy diffOf n e s = Some (fst (unionPts (edst e) ?D ?s0), t)"
    using e(2) t(1) by (simp add: processCopy_eq Let_def)
  then show ?thesis using t(2-5) by (simp add: flow_step_def count_evolves_from)
qed

lemma set_getGepOutEdges:
  "e \<in> set (getGepOutEdges n g) \<longleftrightarrow> e \<in> set (cedges g) \<and> isGepKind (ekind e) \<and> esrc e = n"
  by (auto simp: getGepOutEdges_def getOutEdges_def)

lemma diffStep_core:
  assumes s: "solution_inv C s" and l: "live (consCG s) n"
  shows "core_ok C (diffStep n s)" "evolves s (diffStep n s)"
proof -
  have core: "core_ok C s" and inv: "diff_inv s" using s by (simp_all add: solution_inv_def)
  note d = diffStep_ptD[OF inv l]
  have "objs_ok (diffStep n s) = objs_ok s" by (simp add: objs_ok_def d(1))
  then show "core_ok C (diffStep n s)" using core d(4) by (simp add: core_ok_def d(1))
  have "sound s0 (diffStep n s)" if so: "sound s0 s" for s0
    by (rule soundI[OF so]) (simp_all add: d(1))
  then show "evolves s (diffStep n s)" by (simp add: evolves_def grows_def d(1))
qed

text \<open>\<^verbatim>\<open>handleCopyGep\<close> never fails; its copy edges are those of \<open>handleCopyGep_spec\<close>.\<close>

lemma handleCopyGep_run:
  assumes s: "solution_inv C s" and l: "live (consCG s) n"
  shows "\<exists>t. handleCopyGep andersen_methods n s = Some t \<and> evolves s t \<and> solution_inv C t
    \<and> (\<forall>e \<in> edges s. ekind e = NormalGep \<and> esrc e = n \<longrightarrow> field_done e (ptsOf s n) t)"
proof -
  have inv: "diff_inv s" "gep_propa s" using s by (simp_all add: solution_inv_def)
  let ?s0 = "diffStep n s" and ?D = "diffOf (diffStep n s) n"
  note d = diffStep_ptD[OF inv(1) l] and c0 = diffStep_core[OF s l]
  have l0: "live (consCG ?s0) n" using l by simp
  have D: "set (diffOf u n) = set ?D" "set ?D \<subseteq> ptsOf u n" if "flow_step C ?s0 u" for u
  proof -
    have e: "evolves ?s0 u" "core_ok C u" "diffPtsMap (ptD u) = diffPtsMap (ptD ?s0)" using that by (simp_all add: flow_step_def)
    show "set (diffOf u n) = set ?D"
      using e evolvesD(1)[OF e(1)] core_okD(4)[OF e(2)] core_okD(4)[OF c0(1)] by (simp add: diffOf_def getDiffPts_def Let_def)
    have "set ?D \<subseteq> ptsOf ?s0 n" unfolding d(1,3) by blast
    then show "set ?D \<subseteq> ptsOf u n" using evolves_pts[OF e(1)] by blast
  qed
  have copies: "\<exists>t. foldO (\<lambda>e u. map_option snd (processCopy diffOf n e u)) (getCopyOutEdges n (consCG ?s0)) ?s0 = Some t
      \<and> flow_step C ?s0 t \<and> (\<forall>e \<in> set (getCopyOutEdges n (consCG ?s0)). True)"
  proof (rule flow_loop[OF c0(1)])
    fix e u assume e: "e \<in> set (getCopyOutEdges n (consCG ?s0))" and u: "flow_step C ?s0 u"
    have c: "core_ok C u" "evolves ?s0 u" using u by (simp_all add: flow_step_def)
    have "e \<in> edges u" "ekind e = Copy" "esrc e = n" using e evolvesD(4)[OF c(2)] by (auto simp: set_getCopyOutEdges)
    from processCopy_run[OF c(1) this] D[OF u]
    show "\<exists>t. map_option snd (processCopy diffOf n e u) = Some t \<and> flow_step C u t \<and> True" by auto
  qed simp
  then obtain s1 where s1: "foldO (\<lambda>e u. map_option snd (processCopy diffOf n e u)) (getCopyOutEdges n (consCG ?s0)) ?s0 = Some s1"
      "flow_step C ?s0 s1" by blast
  have c1: "core_ok C s1" "evolves ?s0 s1" using s1(2) by (simp_all add: flow_step_def)
  have geps: "\<exists>t. foldO (\<lambda>e u. map_option snd (processGep diffOf n e u)) (getGepOutEdges n (consCG s1)) s1 = Some t
      \<and> flow_step C s1 t \<and> (\<forall>e \<in> set (getGepOutEdges n (consCG s1)). field_done e (set ?D) t)"
  proof (rule flow_loop[OF c1(1)])
    fix e u assume e: "e \<in> set (getGepOutEdges n (consCG s1))" and u: "flow_step C s1 u"
    have su: "flow_step C ?s0 u" using s1(2) u by (rule flow_step_trans)
    have c: "core_ok C u" "evolves s1 u" using u by (simp_all add: flow_step_def)
    have "e \<in> edges u" "isGepKind (ekind e)" "esrc e = n" using e evolvesD(4)[OF c(2)] by (auto simp: set_getGepOutEdges)
    then have eu: "e \<in> edges u" "ekind e = NormalGep" "esrc e = n"
      using core_okD(14)[OF c(1), of e] by (auto simp: isGepKind_def)
    have "set (diffOf u (esrc e)) \<subseteq> ptsOf u (esrc e)" using D[OF su] eu(3) by blast
    from processGep_run[where n = n, OF c(1) eu(1,2) this] D(1)[OF su] eu(3)
    show "\<exists>t. map_option snd (processGep diffOf n e u) = Some t \<and> flow_step C u t \<and> field_done e (set ?D) t" by auto
  next
    fix e u t assume "field_done e (set ?D) u" "flow_step C u t"
    then show "field_done e (set ?D) t" using field_done_mono unfolding flow_step_def by blast
  qed
  obtain t where r: "handleCopyGep andersen_methods n s = Some t" and t: "flow_step C ?s0 t"
      and fd: "\<And>e. e \<in> edges s \<Longrightarrow> ekind e = NormalGep \<Longrightarrow> esrc e = n \<Longrightarrow> field_done e (set ?D) t"
  proof (cases "?D = []")
    case True
    then have "handleCopyGep andersen_methods n s = Some ?s0" by (simp add: handleCopyGep_def andersen_methods_def Let_def)
    then show ?thesis using that[of ?s0] flow_step_refl[OF c0(1)] True by (simp add: field_done_def)
  next
    case False
    obtain t where t: "foldO (\<lambda>e u. map_option snd (processGep diffOf n e u)) (getGepOutEdges n (consCG s1)) s1 = Some t"
        "flow_step C s1 t" "\<forall>e \<in> set (getGepOutEdges n (consCG s1)). field_done e (set ?D) t" using geps by blast
    have "handleCopyGep andersen_methods n s = Some t"
      using False s1(1) t(1) by (simp add: handleCopyGep_def andersen_methods_def Let_def)
    moreover have "e \<in> set (getGepOutEdges n (consCG s1))" if "e \<in> edges s" "ekind e = NormalGep" "esrc e = n" for e
      using that evolvesD(4)[OF c1(2)] by (auto simp: set_getGepOutEdges isGepKind_def)
    ultimately show ?thesis using that[of t] t(3) flow_step_trans[OF s1(2) t(2)] by blast
  qed
  have ct: "core_ok C t" "evolves ?s0 t" "propaPtsMap (ptD t) = propaPtsMap (ptD ?s0)" using t by (simp_all add: flow_step_def)
  have st: "evolves s t" using c0(2) ct(2) by (rule evolves_trans)
  have dt: "diff_inv t" "cedges (consCG t) = cedges (consCG s)" using handleCopyGep_spec[OF inv(1) l r] by blast+
  have old: "field_done e (set (propaPtsMap (ptD s) (esrc e))) t" if "e \<in> edges s" "ekind e = NormalGep" for e
  proof -
    have "field_done e (set (propaPtsMap (ptD s) (esrc e))) s" using inv(2) that by (simp add: gep_propa_def field_done_def)
    then show ?thesis using st by (rule field_done_mono)
  qed
  have new: "field_done e (ptsOf s n) t" if "e \<in> edges s" "ekind e = NormalGep" "esrc e = n" for e
    using old[OF that(1,2)] fd[OF that] that(3) unfolding field_done_def d(3) by blast
  have "gep_propa t"
    unfolding gep_propa_def dt(2)
  proof (intro ballI impI)
    fix e x assume e: "e \<in> edges s" "ekind e = NormalGep" and x: "x \<in> set (propaPtsMap (ptD t) (esrc e))"
    have "x \<in> set (propaPtsMap (ptD s) (esrc e)) \<or> esrc e = n \<and> x \<in> ptsOf s n" using x by (auto simp: ct(3) d(2) split: if_splits)
    then show "\<exists>y. field_at (irs t) x (eap e) = Some y \<and> y \<in> ptsOf t (edst e)"
      using old[OF e] new[OF e] unfolding field_done_def by blast
  qed
  then show ?thesis using r st ct(1) dt(1) new by (auto simp: solution_inv_def)
qed

section \<open>Nodes off the worklist are closed\<close>

definition closed_node :: "node_id \<Rightarrow> 'a ander_scheme \<Rightarrow> bool" where
  "closed_node n s \<longleftrightarrow>
     (\<forall>e \<in> edges s. ekind e = Copy \<and> esrc e = n \<longrightarrow> ptsOf s n \<subseteq> ptsOf s (edst e))
     \<and> (\<forall>e \<in> edges s. ekind e = NormalGep \<and> esrc e = n \<longrightarrow> field_done e (ptsOf s n) s)
     \<and> loads_done n (ptsOf s n) s s"

lemma closed_node_empty: "ptsOf s n = {} \<Longrightarrow> closed_node n s"
  by (simp add: closed_node_def field_done_def loads_done_def)

lemma evolves_linked: "evolves s t \<Longrightarrow> linked s a b \<Longrightarrow> linked t a b"
  unfolding linked_def hasEdge_iff using evolvesD(1,4) by (metis subsetD)

lemma untracked_stable:
  assumes "core_ok C s" "evolves s t" "x \<in> ptsOf s k" "live (consCG s) v"
  shows "untracked x v t = untracked x v s"
proof -
  obtain c where c: "isConstantObj x (irs s) = Some c" using core_object(3)[OF assms(1,3)] by blast
  obtain p where p: "isPointer v (irs s) = Some p" using core_live(2)[OF assms(1,4)] by blast
  note le = evolvesD(2)[OF assms(2)]
  show ?thesis using c p table_le_isConstantObj[OF le c] table_le_isPointer[OF le p] by (simp add: untracked_def)
qed

lemma loads_done_evolves:
  assumes core: "core_ok C s" and st: "evolves s t" and A: "A \<subseteq> ptsOf s k" and d: "loads_done n A s t"
  shows "loads_done n A t t"
proof -
  have e: "e \<in> set (getLoadOutEdges n (consCG s))" "live (consCG s) (edst e)" if "e \<in> set (getLoadOutEdges n (consCG t))" for e
    using that evolvesD(5)[OF st, of e] consg_inv_ends[OF core_okD(2)[OF core], of e] by (auto simp: set_getLoadOutEdges)
  have f: "e \<in> set (getStoreInEdges n (consCG s))" "live (consCG s) (esrc e)" if "e \<in> set (getStoreInEdges n (consCG t))" for e
    using that evolvesD(5)[OF st, of e] consg_inv_ends[OF core_okD(2)[OF core], of e] by (auto simp: set_getStoreInEdges)
  have u: "untracked x v t = untracked x v s" if "x \<in> A" "live (consCG s) v" for x v
    using untracked_stable[OF core st _ that(2)] A that(1) by blast
  show ?thesis
    unfolding loads_done_def
  proof (intro ballI conjI)
    fix x e assume x: "x \<in> A"
    show "untracked x (edst e) t \<or> linked t x (edst e)" if "e \<in> set (getLoadOutEdges n (consCG t))"
      using d x e[OF that] u[OF x e(2)[OF that]] unfolding loads_done_def by blast
    show "untracked x (esrc e) t \<or> linked t (esrc e) x" if "e \<in> set (getStoreInEdges n (consCG t))"
      using d x f[OF that] u[OF x f(2)[OF that]] unfolding loads_done_def by blast
  qed
qed

lemma closed_node_step:
  assumes core: "core_ok C s" and st: "evolves s t" and c: "closed_node n s" and n: "n \<notin> wl t"
  shows "closed_node n t"
proof -
  have p: "ptsOf t n = ptsOf s n" using evolvesD(8)[OF st n] .
  have "loads_done n (ptsOf s n) s t" using c evolves_linked[OF st] loads_done_mono unfolding closed_node_def by blast
  from loads_done_evolves[OF core st order_refl this] have "loads_done n (ptsOf t n) t t" unfolding p .
  moreover have "ptsOf t n \<subseteq> ptsOf t (edst e)" if e: "e \<in> edges t" "ekind e = Copy" "esrc e = n" for e
  proof -
    have "e \<in> edges s" using evolvesD(9)[OF st n e(1,3)] .
    then have "ptsOf s n \<subseteq> ptsOf s (edst e)" using c e unfolding closed_node_def by blast
    then show ?thesis unfolding p using evolves_pts[OF st] by blast
  qed
  moreover have "field_done e (ptsOf t n) t" if e: "e \<in> edges t" "ekind e = NormalGep" "esrc e = n" for e
  proof -
    have "e \<in> edges s" using evolvesD(9)[OF st n e(1,3)] .
    then have "field_done e (ptsOf s n) s" using c e unfolding closed_node_def by blast
    then show ?thesis unfolding p using field_done_mono st by blast
  qed
  ultimately show ?thesis unfolding closed_node_def by blast
qed

lemma processNode_run:
  assumes s: "solution_inv C s" and l: "live (consCG s) n"
  shows "\<exists>t. processNode andersen_methods n s = Some t \<and> evolves s t \<and> solution_inv C t \<and> (n \<notin> wl t \<longrightarrow> closed_node n t)
    \<and> (\<forall>e \<in> edges s. ekind e = Copy \<and> esrc e = n \<longrightarrow> ptsOf s n \<subseteq> ptsOf t (edst e))
    \<and> (\<forall>e \<in> edges s. ekind e = NormalGep \<and> esrc e = n \<longrightarrow> field_done e (ptsOf s n) t) \<and> loads_done n (ptsOf s n) s t"
proof -
  have core: "core_ok C s" and inv: "diff_inv s" using s by (simp_all add: solution_inv_def)
  obtain u where u: "handleLoadStore andersen_methods n s = Some u" "evolves s u" "solution_inv C u"
    using handleLoadStore_run[OF s l] by blast
  have lu: "live (consCG u) n" using evolvesD(6)[OF u(2) l] .
  obtain t where t: "handleCopyGep andersen_methods n u = Some t" "evolves u t" "solution_inv C t"
      "\<And>e. e \<in> edges u \<Longrightarrow> ekind e = NormalGep \<Longrightarrow> esrc e = n \<Longrightarrow> field_done e (ptsOf u n) t"
    using handleCopyGep_run[OF u(3) lu] by blast
  have st: "evolves s t" using u(2) t(2) by (rule evolves_trans)
  have r: "processNode andersen_methods n s = Some t"
    using rep_of_live[OF l] live_getConstraintNode[OF l] u(1) t(1) by (simp add: processNode_def)
  note sp = processNode_spec[OF inv rep_of_live[OF l] r]
  have "closed_node n t" if n: "n \<notin> wl t"
  proof -
    have p: "ptsOf t n = ptsOf s n" "ptsOf u n = ptsOf s n"
      using evolvesD(8)[OF st n] evolvesD(8)[OF u(2)] evolvesD(7)[OF t(2)] n by blast+
    have "ptsOf t n \<subseteq> ptsOf t (edst e)" if e: "e \<in> edges t" "ekind e = Copy" "esrc e = n" for e
      using sp evolvesD(9)[OF st n e(1,3)] e by (auto simp: p set_getCopyOutEdges)
    moreover have "field_done e (ptsOf t n) t" if e: "e \<in> edges t" "ekind e = NormalGep" "esrc e = n" for e
      using t(4)[of e] evolvesD(9)[OF t(2) n e(1,3)] e(2,3) by (simp add: p)
    moreover have "loads_done n (ptsOf t n) t t" using loads_done_evolves[OF core st order_refl] sp unfolding p by blast
    ultimately show ?thesis unfolding closed_node_def by blast
  qed
  moreover have "ptsOf s n \<subseteq> ptsOf t (edst e)" if "e \<in> edges s" "ekind e = Copy" "esrc e = n" for e
    using sp that by (auto simp: set_getCopyOutEdges)
  moreover have "field_done e (ptsOf s n) t" if "e \<in> edges s" "ekind e = NormalGep" "esrc e = n" for e
    using t(4)[of e] evolvesD(4)[OF u(2)] evolves_pts[OF u(2)] that unfolding field_done_def by blast
  ultimately show ?thesis using r st t(3) sp by blast
qed

section \<open>Termination\<close>

definition ptsPairs :: "'a ander_scheme \<Rightarrow> (node_id \<times> node_id) set" where
  "ptsPairs s = {(k, x). x \<in> ptsOf s k}"

definition copyPairs :: "'a ander_scheme \<Rightarrow> (node_id \<times> node_id) set" where
  "copyPairs s = (\<lambda>e. (esrc e, edst e)) ` {e \<in> edges s. ekind e = Copy}"

definition todo :: "nat \<Rightarrow> 'a ander_scheme \<Rightarrow> nat" where
  "todo C s = (2 * C * C - (card (ptsPairs s) + card (copyPairs s))) * (C + 1) + length (data_list (wlist s))"

definition solve_fuel :: "nat \<Rightarrow> nat" where
  "solve_fuel C = 2 * C * C * (C + 1) + C"

lemma pairs_bound:
  assumes "core_ok C s"
  shows "finite (ptsPairs s)" "card (ptsPairs s) \<le> C * C" "finite (copyPairs s)" "card (copyPairs s) \<le> C * C"
proof -
  have sub: "ptsPairs s \<subseteq> {..<C} \<times> {..<C}" "copyPairs s \<subseteq> {..<C} \<times> {..<C}"
    using core_object(4,5)[OF assms] core_live(3)[OF assms] consg_inv_ends[OF core_okD(2)[OF assms]]
    by (auto simp: ptsPairs_def copyPairs_def)
  have f: "finite ({..<C} \<times> {..<C})" "card ({..<C} \<times> {..<C}) = C * C" by (simp_all add: card_cartesian_product)
  show "finite (ptsPairs s)" "finite (copyPairs s)" using sub f(1) finite_subset by blast+
  show "card (ptsPairs s) \<le> C * C" "card (copyPairs s) \<le> C * C"
    using card_mono[OF f(1) sub(1)] card_mono[OF f(1) sub(2)] unfolding f(2) by simp_all
qed

lemma length_wl:
  assumes "core_ok C s"
  shows "length (data_list (wlist s)) \<le> C"
proof -
  have "wl s \<subseteq> {..<C}" using core_live(3)[OF assms] core_okD(10)[OF assms] by blast
  then have "card (wl s) \<le> C" using card_mono[of "{..<C}" "wl s"] by simp
  moreover have "distinct (data_list (wlist s))" using core_okD(9)[OF assms] by (simp add: fifo_inv_def)
  ultimately show ?thesis by (simp add: distinct_card)
qed

lemma todo_le_fuel: "core_ok C s \<Longrightarrow> todo C s \<le> solve_fuel C"
  unfolding todo_def solve_fuel_def using length_wl by (intro add_mono mult_le_mono1) simp_all

text \<open>After a step the rest of the work is less than what it was before the node was popped.\<close>

lemma todo_step:
  assumes cs: "core_ok C s" and ct: "core_ok C t" and st: "evolves s t"
  shows "todo C t \<le> todo C s"
proof -
  have mono: "ptsPairs s \<subseteq> ptsPairs t" "copyPairs s \<subseteq> copyPairs t"
    using evolves_pts[OF st] evolvesD(4)[OF st] by (auto simp: ptsPairs_def copyPairs_def)
  note b = pairs_bound[OF ct]
  have le: "card (ptsPairs s) \<le> card (ptsPairs t)" "card (copyPairs s) \<le> card (copyPairs t)"
    using card_mono[OF b(1) mono(1)] card_mono[OF b(3) mono(2)] .
  show ?thesis
  proof (cases "wlist t = wlist s")
    case True
    then show ?thesis using le unfolding todo_def by (intro add_mono mult_le_mono1) simp_all
  next
    case False
    then consider n where "ptsOf t n \<noteq> ptsOf s n" | "edges t \<noteq> edges s" using evolvesD(10)[OF st] by blast
    then have "ptsPairs s \<subset> ptsPairs t \<or> copyPairs s \<subset> copyPairs t"
    proof cases
      case 1
      then have "\<exists>x. x \<in> ptsOf t n \<and> x \<notin> ptsOf s n" using evolves_pts[OF st] by blast
      then show ?thesis using mono(1) by (auto simp: ptsPairs_def)
    next
      case 2
      then obtain e where e: "e \<in> edges t" "e \<notin> edges s" using evolvesD(4)[OF st] by blast
      then have k: "ekind e = Copy" using evolvesD(5)[OF st] by blast
      have "(esrc e, edst e) \<notin> copyPairs s"
      proof
        assume "(esrc e, edst e) \<in> copyPairs s"
        then obtain f where f: "f \<in> edges s" "ekind f = Copy" "esrc f = esrc e" "edst f = edst e" by (auto simp: copyPairs_def)
        then have "f = e"
          using strict_key_inj[of "cedges (consCG t)" f e] core_okD(2)[OF ct] evolvesD(4)[OF st] e(1) k
          by (auto simp: consg_inv_def ekey_def)
        then show False using f(1) e(2) by simp
      qed
      moreover have "(esrc e, edst e) \<in> copyPairs t" using e(1) k by (auto simp: copyPairs_def)
      ultimately show ?thesis using mono(2) by blast
    qed
    then have "card (ptsPairs s) + card (copyPairs s) < card (ptsPairs t) + card (copyPairs t)"
    proof
      assume "ptsPairs s \<subset> ptsPairs t"
      then show ?thesis using psubset_card_mono[OF b(1)] le(2) by (simp add: add_less_le_mono)
    next
      assume "copyPairs s \<subset> copyPairs t"
      then show ?thesis using psubset_card_mono[OF b(3)] le(1) by (simp add: add_le_less_mono)
    qed
    moreover have "card (ptsPairs t) + card (copyPairs t) \<le> 2 * C * C" using b(2,4) by simp
    ultimately have "Suc (2 * C * C - (card (ptsPairs t) + card (copyPairs t))) \<le> 2 * C * C - (card (ptsPairs s) + card (copyPairs s))"
      by linarith
    then have "Suc (2 * C * C - (card (ptsPairs t) + card (copyPairs t))) * (C + 1) \<le> (2 * C * C - (card (ptsPairs s) + card (copyPairs s))) * (C + 1)"
      by (rule mult_le_mono1)
    then show ?thesis using length_wl[OF ct] unfolding todo_def by simp
  qed
qed

section \<open>The loop\<close>

lemma collapseFields_none: "core_ok C s \<Longrightarrow> collapseFields m vt s = Some s"
  using core_okD(13)[of C s] by (simp add: collapseFields_def hasNodesToBeCollapsed_def fifo_empty_def fifo_size_def)

definition extends :: "'a ander_scheme \<Rightarrow> 'a ander_scheme \<Rightarrow> bool" where
  "extends s t \<longleftrightarrow> rep_of t = rep_of s \<and> grows s t \<and> edges s \<subseteq> edges t \<and> (\<forall>s0. sound s0 s \<longrightarrow> sound s0 t)"

lemma ext_state_trans: "extends s t \<Longrightarrow> extends t u \<Longrightarrow> extends s u"
  unfolding extends_def using grows_trans[of s t u] by auto

lemma evolves_extends: "evolves s t \<Longrightarrow> extends s t"
  unfolding evolves_def extends_def by blast

lemma popped:
  assumes "solution_inv C s" "fifo_pop (wlist s) = Some (d, w)"
  shows "solution_inv C (s\<lparr>wlist := w\<rparr>)" "extends s (s\<lparr>wlist := w\<rparr>)" "live (consCG s) d" "wl s = insert d (set (data_list w))"
    "length (data_list (wlist s)) = Suc (length (data_list w))"
proof -
  have core: "core_ok C s" using assms(1) by (simp add: solution_inv_def)
  have p: "data_list (wlist s) = d # data_list w" "fifo_inv w"
    using assms(2) fifo_pop_Some[OF core_okD(9)[OF core] assms(2)] by (simp_all add: fifo_pop_def split: list.splits)
  then show wls: "wl s = insert d (set (data_list w))" "length (data_list (wlist s)) = Suc (length (data_list w))" by simp_all
  then show "live (consCG s) d" using core_okD(10)[OF core] by blast
  let ?t = "s\<lparr>wlist := w\<rparr>"
  have "objs_ok ?t = objs_ok s" "gep_propa ?t = gep_propa s" by (simp_all add: objs_ok_def gep_propa_def)
  then show "solution_inv C ?t" using assms(1) p(2) wls(1) by (auto simp: solution_inv_def core_ok_def)
  have "sound s0 ?t" if so: "sound s0 s" for s0 by (rule soundI[OF so]) simp_all
  then show "extends s ?t" by (simp add: extends_def grows_def)
qed

lemma solve_loop:
  assumes "solution_inv C s" "\<forall>n. n \<notin> wl s \<longrightarrow> closed_node n s" "todo C s \<le> k"
  shows "\<exists>t. worklistLoop k (\<lambda>nodeId u. do { u1 \<leftarrow> processNode andersen_methods nodeId u; collapseFields m andersen_methods u1 }) s = Some t
    \<and> isWorklistEmpty t \<and> solution_inv C t \<and> (\<forall>n. closed_node n t) \<and> extends s t"
  using assms
proof (induction k arbitrary: s)
  case 0
  then have "data_list (wlist s) = []" by (simp add: todo_def)
  then show ?case using 0 by (auto simp: isWorklistEmpty_iff extends_def)
next
  case (Suc k)
  show ?case
  proof (cases "data_list (wlist s)")
    case Nil
    then show ?thesis using Suc.prems by (auto simp: isWorklistEmpty_iff extends_def)
  next
    case (Cons d ds)
    then obtain w where w: "fifo_pop (wlist s) = Some (d, w)" by (simp add: fifo_pop_def)
    note p = popped[OF Suc.prems(1) w]
    let ?s = "s\<lparr>wlist := w\<rparr>"
    have cs: "core_ok C ?s" using p(1) by (simp add: solution_inv_def)
    have l: "live (consCG ?s) d" using p(3) by simp
    have pop: "popFromWorklist s = Some (d, ?s)" using w rep_of_live[OF p(3)] by (simp add: popFromWorklist_def)
    obtain t where t: "processNode andersen_methods d ?s = Some t" "evolves ?s t" "solution_inv C t" "d \<notin> wl t \<longrightarrow> closed_node d t"
      using processNode_run[OF p(1) l] by blast
    have ct: "core_ok C t" using t(3) by (simp add: solution_inv_def)
    have cl: "closed_node n t" if n: "n \<notin> wl t" for n
    proof (cases "n = d")
      case False
      then have "n \<notin> wl s" using n p(4) evolvesD(7)[OF t(2)] by auto
      then have "closed_node n s" using Suc.prems(2) by blast
      then have "closed_node n ?s" by (simp add: closed_node_def field_done_def loads_done_def)
      then show ?thesis using closed_node_step[OF cs t(2) _ n] by blast
    qed (use t(4) n in blast)
    have "todo C s = Suc (todo C ?s)" using p(5) by (simp add: todo_def ptsPairs_def copyPairs_def)
    then have "todo C t \<le> k" using todo_step[OF cs ct t(2)] Suc.prems(3) by simp
    from Suc.IH[OF t(3) _ this] cl obtain u where u:
      "worklistLoop k (\<lambda>nodeId u. do { u1 \<leftarrow> processNode andersen_methods nodeId u; collapseFields m andersen_methods u1 }) t = Some u"
      "isWorklistEmpty u" "solution_inv C u" "\<forall>n. closed_node n u" "extends t u" by blast
    have "extends s u" using p(2) evolves_extends[OF t(2)] u(5) ext_state_trans by blast
    then show ?thesis
      using pop t(1) collapseFields_none[OF ct] u Cons by (intro exI[of _ u]) (simp add: isWorklistEmpty_iff)
  qed
qed

lemma closed_linked:
  assumes "\<forall>n. closed_node n t" "linked t a b" "x \<in> ptsOf t (rep_of t a)"
  shows "x \<in> ptsOf t (rep_of t b)"
proof (cases "rep_of t a = rep_of t b")
  case False
  then obtain e where e: "e \<in> edges t" "ekind e = Copy" "esrc e = rep_of t a" "edst e = rep_of t b"
    using assms(2) by (auto simp: linked_def hasEdge_iff)
  have "closed_node (rep_of t a) t" using assms(1) by blast
  then have "ptsOf t (rep_of t a) \<subseteq> ptsOf t (edst e)" using e(1-3) unfolding closed_node_def by blast
  then show ?thesis using assms(3) e(4) by auto
qed (use assms(3) in simp)

text \<open>A state all of whose nodes are closed has everything that is derived.\<close>

lemma derived_closed:
  assumes cl: "\<forall>n. closed_node n t" and core: "core_ok C t" and ex: "extends s t"
    and d: "derived s (irs t) k x"
  shows "x \<in> ptsOf t k"
  using d
proof (induction rule: derived.induct)
  case (start x k)
  then show ?case using ex unfolding extends_def grows_def by blast
next
  case (copy e x)
  then show ?case using cl ex unfolding closed_node_def extends_def by blast
next
  case (field e x y)
  then have "field_done e (ptsOf t (esrc e)) t" using cl ex unfolding closed_node_def extends_def by blast
  then show ?case using field by (auto simp: field_done_def)
next
  case (load e o1 x)
  have e: "e \<in> edges t" using load(1) ex unfolding extends_def by blast
  have l: "rep_of t (edst e) = edst e" using consg_inv_ends[OF core_okD(2)[OF core] e] rep_of_live by blast
  have "loads_done (esrc e) (ptsOf t (esrc e)) t t" using cl unfolding closed_node_def by blast
  moreover have "\<not> untracked o1 (edst e) t" using load(4) by (simp add: flows_def untracked_def)
  moreover have "e \<in> set (getLoadOutEdges (esrc e) (consCG t))" using e load(2) by (simp add: set_getLoadOutEdges)
  ultimately have "linked t o1 (edst e)" using load(6) unfolding loads_done_def by blast
  moreover have "x \<in> ptsOf t (rep_of t o1)" using load(7) ex by (simp add: extends_def)
  ultimately show ?case using closed_linked[OF cl, of o1 "edst e" x] l by simp
next
  case (store e o1 x)
  have e: "e \<in> edges t" using store(1) ex unfolding extends_def by blast
  have l: "rep_of t (esrc e) = esrc e" using consg_inv_ends[OF core_okD(2)[OF core] e] rep_of_live by blast
  have "loads_done (edst e) (ptsOf t (edst e)) t t" using cl unfolding closed_node_def by blast
  moreover have "\<not> untracked o1 (esrc e) t" using store(4) by (simp add: flows_def untracked_def)
  moreover have "e \<in> set (getStoreInEdges (edst e) (consCG t))" using e store(2) by (simp add: set_getStoreInEdges)
  ultimately have "linked t (esrc e) o1" using store(6) unfolding loads_done_def by blast
  moreover have "rep_of s o1 = rep_of t o1" using ex by (simp add: extends_def)
  ultimately show ?case using closed_linked[OF cl, of "esrc e" o1 x] l store(7) by simp
qed

section \<open>The address constraints\<close>

text \<open>What \<^verbatim>\<open>processAddr\<close> does for a list of address edges, before anything is merged.\<close>

definition addressed :: "'a ander_scheme \<Rightarrow> 'a ander_scheme \<Rightarrow> cedge set \<Rightarrow> bool" where
  "addressed s t A \<longleftrightarrow> consCG t = consCG s \<and> irs t = irs s \<and> DiffPts t = DiffPts s
     \<and> propaPtsMap (ptD t) = propaPtsMap (ptD s) \<and> dd_inv (ptD t) \<and> fifo_inv (wlist t)
     \<and> (\<forall>k. ptsOf t k = ptsOf s k \<union> {esrc e | e. e \<in> A \<and> edst e = k})
     \<and> wl t \<subseteq> wl s \<union> edst ` A \<and> (\<forall>k. ptsOf t k \<noteq> {} \<longrightarrow> k \<in> wl t)"

lemma addressed_refl: "dd_inv (ptD s) \<Longrightarrow> fifo_inv (wlist s) \<Longrightarrow> \<forall>k. ptsOf s k \<noteq> {} \<longrightarrow> k \<in> wl s \<Longrightarrow> addressed s s {}"
  by (simp add: addressed_def)

lemma dd_addPts_rest: "propaPtsMap (snd (dd_addPts k d x)) = propaPtsMap x" "fst (dd_addPts k d x) \<longleftrightarrow> d \<notin> set (dd_getPts x k)"
  by (simp_all add: dd_addPts_def dd_getPts_def case_prod_beta pt_addPts_def test_and_set_def addSingleRevPts_def Let_def)

lemma processAddr_addressed:
  assumes "addressed s t A" "\<forall>i. sccRepNode (consCG s) i = i"
  shows "addressed s (processAddr e t) (insert e A)"
proof -
  have i: "dd_inv (ptD t)" "fifo_inv (wlist t)" and g: "consCG t = consCG s" using assms(1) by (simp_all add: addressed_def)
  have rep: "rep_of t n = n" for n using assms(2) g by (simp add: rep_of_def)
  let ?d = "snd (dd_addPts (edst e) (esrc e) (ptD t))"
  let ?t = "processAddr e t"
  have f: "consCG ?t = consCG t" "irs ?t = irs t" "DiffPts ?t = DiffPts t" "ptD ?t = ?d"
      "wlist ?t = (if esrc e \<in> ptsOf t (edst e) then wlist t else snd (fifo_push (edst e) (wlist t)))"
    by (simp_all add: processAddr_def addPts_def case_prod_beta dd_addPts_rest Let_def pushIntoWorklist_def rep)
  have pts: "ptsOf ?t k = ptsOf t k \<union> (if k = edst e then {esrc e} else {})" for k
    unfolding f(4) using dd.add_pts[OF i(1)] by simp
  have w: "wl ?t = (if esrc e \<in> ptsOf t (edst e) then wl t else insert (edst e) (wl t))" "fifo_inv (wlist ?t)"
    unfolding f(5) using fifo.elems_push[OF i(2)] fifo_push_inv[OF i(2)] i(2) by simp_all
  have tk: "ptsOf t k = ptsOf s k \<union> {esrc f | f. f \<in> A \<and> edst f = k}" "ptsOf t k \<noteq> {} \<longrightarrow> k \<in> wl t" "wl t \<subseteq> wl s \<union> edst ` A" for k
    using assms(1) unfolding addressed_def by blast+
  show ?thesis unfolding addressed_def
  proof (intro conjI allI)
    show "consCG ?t = consCG s" "irs ?t = irs s" "DiffPts ?t = DiffPts s" using f assms(1) by (simp_all add: addressed_def)
    show "propaPtsMap (ptD ?t) = propaPtsMap (ptD s)" "dd_inv (ptD ?t)"
      unfolding f(4) using assms(1) dd.add_inv[OF i(1)] by (simp_all add: addressed_def dd_addPts_rest)
    show "fifo_inv (wlist ?t)" by (rule w(2))
    show "ptsOf ?t k = ptsOf s k \<union> {esrc f | f. f \<in> insert e A \<and> edst f = k}" for k unfolding pts tk(1) by auto
    show "wl ?t \<subseteq> wl s \<union> edst ` insert e A" unfolding w(1) using tk(3) by auto
    show "ptsOf ?t k \<noteq> {} \<longrightarrow> k \<in> wl ?t" for k unfolding pts w(1) using tk(2)[of k] by (cases "k = edst e") auto
  qed
qed

lemma processAddrs_addressed:
  "addressed s t A \<Longrightarrow> \<forall>i. sccRepNode (consCG s) i = i \<Longrightarrow> addressed s (fold processAddr es t) (A \<union> set es)"
proof (induction es arbitrary: t A)
  case (Cons e es)
  from Cons.IH[OF processAddr_addressed[OF Cons.prems] Cons.prems(2)] show ?case by simp
qed simp

lemma allAddr_addressed:
  "addressed s t A \<Longrightarrow> \<forall>i. sccRepNode (consCG s) i = i \<Longrightarrow>
   addressed s (fold (\<lambda>n s1. fold processAddr (getAddrInEdges n (consCG s1)) s1) ns t)
     (A \<union> {e \<in> edges s. ekind e = Addr \<and> edst e \<in> set ns})"
proof (induction ns arbitrary: t A)
  case (Cons n ns)
  have "consCG t = consCG s" using Cons.prems(1) by (simp add: addressed_def)
  then have "set (getAddrInEdges n (consCG t)) = {e \<in> edges s. ekind e = Addr \<and> edst e = n}"
    by (auto simp: getAddrInEdges_def getInEdges_def)
  with processAddrs_addressed[OF Cons.prems, of "getAddrInEdges n (consCG t)"]
  have "addressed s (fold processAddr (getAddrInEdges n (consCG t)) t) (A \<union> {e \<in> edges s. ekind e = Addr \<and> edst e = n})" by simp
  from Cons.IH[OF this Cons.prems(2)] show ?case
    by (simp add: Un_assoc) (erule arg_cong[where f = "addressed s _", THEN iffD1, rotated], blast)
qed simp

text \<open>
  The state in which \<^verbatim>\<open>initialize\<close> processes the address edges: nothing is merged, no set holds
  anything, and the worklist is empty.
\<close>

definition start_ok :: "nat \<Rightarrow> 'a ander_scheme \<Rightarrow> bool" where
  "start_ok C s \<longleftrightarrow> core_ok C s \<and> (\<forall>i. rep_of s i = i) \<and> (\<forall>k. dd_getPts (ptD s) k = [] \<and> propaPtsMap (ptD s) k = [])
     \<and> fifo_empty (wlist s) \<and> (\<forall>e \<in> edges s. ekind e = Addr \<longrightarrow> getBaseObject (esrc e) (irs s) \<noteq> None)"

lemma processAllAddr_start:
  assumes "start_ok C s"
  defines "t \<equiv> processAllAddr s"
  shows "solution_inv C t" "consCG t = consCG s" "irs t = irs s" "rep_of t = rep_of s"
    "ptsOf t k = {esrc e | e. e \<in> edges s \<and> ekind e = Addr \<and> edst e = k}" "ptsOf t k \<noteq> {} \<Longrightarrow> k \<in> wl t"
proof -
  have core: "core_ok C s" and rep: "\<forall>i. sccRepNode (consCG s) i = i" and e: "ptsOf s k = {}" "propaPtsMap (ptD s) k = []"
    and base: "e \<in> edges s \<Longrightarrow> ekind e = Addr \<Longrightarrow> getBaseObject (esrc e) (irs s) \<noteq> None"
    and wl: "wl s = {}" for k e
    using assms(1) by (simp_all add: start_ok_def rep_of_def fifo_empty_def)
  have live: "live (consCG s) (edst e)" if "e \<in> edges s" for e using consg_inv_ends[OF core_okD(2)[OF core] that] by blast
  have "addressed s s {}" using core_okD(1,9)[OF core] e(1) by (intro addressed_refl) auto
  from allAddr_addressed[OF this rep, of "cnodes (consCG s)"]
  have a: "addressed s t ({} \<union> {e \<in> edges s. ekind e = Addr \<and> edst e \<in> set (cnodes (consCG s))})"
    unfolding t_def processAllAddr_def .
  moreover have "{} \<union> {e \<in> edges s. ekind e = Addr \<and> edst e \<in> set (cnodes (consCG s))} = {e \<in> edges s. ekind e = Addr}"
    using live by (auto simp: live_def)
  ultimately have a: "addressed s t {e \<in> edges s. ekind e = Addr}" by simp
  show g: "consCG t = consCG s" "irs t = irs s" using a by (simp_all add: addressed_def)
  then show "rep_of t = rep_of s" by (simp add: rep_of_def fun_eq_iff)
  have pts: "ptsOf t k = {esrc e | e. e \<in> edges s \<and> ekind e = Addr \<and> edst e = k}" for k using a e(1) by (auto simp: addressed_def)
  then show "ptsOf t k = {esrc e | e. e \<in> edges s \<and> ekind e = Addr \<and> edst e = k}" .
  show "ptsOf t k \<noteq> {} \<Longrightarrow> k \<in> wl t" using a by (simp add: addressed_def)
  have nodes: "\<forall>n \<in> wl t. live (consCG s) n" "\<forall>k. ptsOf t k \<noteq> {} \<longrightarrow> live (consCG s) k"
    using a live wl pts by (auto simp: addressed_def)
  have propa: "propaPtsMap (ptD t) k = []" for k using a e(2) by (simp add: addressed_def)
  have "objs_ok t" using core_okD(5)[OF core] g base pts unfolding objs_ok_def rep_of_def by auto
  moreover have "DiffPts t" "dd_inv (ptD t)" "fifo_inv (wlist t)" using a core_okD(4)[OF core] by (simp_all add: addressed_def)
  ultimately have "core_ok C t" using core nodes unfolding core_ok_def g rep_of_def by simp
  moreover from this have "diff_inv t"
    using propa core_okD(1-4)[OF \<open>core_ok C t\<close>] by (simp add: diff_inv_def propagated_def propa_le_def)
  moreover have "gep_propa t" using propa by (simp add: gep_propa_def)
  ultimately show "solution_inv C t" by (simp add: solution_inv_def)
qed

text \<open>
  The constraints of the edges of \<open>s\<close> as inference rules. The table \<open>p\<close> says which object is the
  field of an object at an offset.
\<close>

inductive solution :: "'a ander_scheme \<Rightarrow> pag \<Rightarrow> node_id \<Rightarrow> node_id \<Rightarrow> bool" for s p where
  addr: "e \<in> edges s \<Longrightarrow> ekind e = Addr \<Longrightarrow> solution s p (edst e) (esrc e)"
| copy: "e \<in> edges s \<Longrightarrow> ekind e = Copy \<Longrightarrow> solution s p (esrc e) x \<Longrightarrow> solution s p (edst e) x"
| field: "e \<in> edges s \<Longrightarrow> ekind e = NormalGep \<Longrightarrow> solution s p (esrc e) x \<Longrightarrow>
    field_at p x (eap e) = Some y \<Longrightarrow> solution s p (edst e) y"
| load: "e \<in> edges s \<Longrightarrow> ekind e = Load \<Longrightarrow> solution s p (esrc e) o1 \<Longrightarrow> flows p o1 (edst e) \<Longrightarrow>
    solution s p o1 x \<Longrightarrow> solution s p (edst e) x"
| store: "e \<in> edges s \<Longrightarrow> ekind e = Store \<Longrightarrow> solution s p (edst e) o1 \<Longrightarrow> flows p o1 (esrc e) \<Longrightarrow>
    solution s p (esrc e) x \<Longrightarrow> solution s p o1 x"

lemma derived_solution:
  assumes "start_ok C s"
  shows "derived (processAllAddr s) p k x = solution s p k x"
proof
  note a = processAllAddr_start[OF assms]
  have r: "rep_of (processAllAddr s) n = n" for n using a(4) assms by (simp add: start_ok_def)
  show "solution s p k x" if "derived (processAllAddr s) p k x" using that
  proof (induction rule: derived.induct)
    case (start x k)
    then show ?case using a(5) solution.addr by fastforce
  next
    case (copy e x)
    then show ?case using solution.copy a(2) by metis
  next
    case (field e x y)
    then show ?case using solution.field a(2) by metis
  next
    case (load e o1 x)
    then show ?case using solution.load a(2) r by metis
  next
    case (store e o1 x)
    then show ?case using solution.store a(2) r by metis
  qed
  show "derived (processAllAddr s) p k x" if "solution s p k x" using that
  proof (induction rule: solution.induct)
    case (addr e)
    then show ?case using a(5)[of "edst e"] by (intro derived.start) auto
  next
    case (copy e x)
    then show ?case using derived.copy[of e "processAllAddr s"] a(2) by simp
  next
    case (field e x y)
    then show ?case using derived.field[of e "processAllAddr s"] a(2) by simp
  next
    case (load e o1 x)
    then show ?case using derived.load[of e "processAllAddr s"] a(2) r by simp
  next
    case (store e o1 x)
    then show ?case using derived.store[of e "processAllAddr s" p o1 x] a(2) r by simp
  qed
qed

section \<open>Properties\<close>

text \<open>
  C35: Processing a node establishes the constraints of its edges, in a state without field edges
  of variable offset and without objects to collapse. It succeeds; afterwards the set of the node
  is contained in that of every target of its copy edges, although only the difference to what
  was sent before is sent, every target of a field edge holds the field of each of its objects at
  the offset of the edge, and for every object of the set each load and store edge has its copy
  edge, constant objects and non-pointers apart. The invariant of the solver is kept.
\<close>

theorem processNode_closes_all:
  assumes "solution_inv C s" "live (consCG s) n"
  shows "\<exists>t. processNode andersen_methods n s = Some t \<and> solution_inv C t \<and> edges s \<subseteq> edges t
    \<and> (\<forall>e \<in> edges s. ekind e = Copy \<and> esrc e = n \<longrightarrow> ptsOf s n \<subseteq> ptsOf t (edst e))
    \<and> (\<forall>e \<in> edges s. ekind e = NormalGep \<and> esrc e = n \<longrightarrow>
         (\<forall>x \<in> ptsOf s n. \<exists>y. field_at (irs t) x (eap e) = Some y \<and> y \<in> ptsOf t (edst e)))
    \<and> loads_done n (ptsOf s n) s t"
proof -
  obtain t where t: "processNode andersen_methods n s = Some t" "evolves s t" "solution_inv C t"
      "\<forall>e \<in> edges s. ekind e = Copy \<and> esrc e = n \<longrightarrow> ptsOf s n \<subseteq> ptsOf t (edst e)"
      "\<forall>e \<in> edges s. ekind e = NormalGep \<and> esrc e = n \<longrightarrow> field_done e (ptsOf s n) t" "loads_done n (ptsOf s n) s t"
    using processNode_run[OF assms] by (elim exE conjE)
  then show ?thesis using evolvesD(4)[OF t(2)] unfolding field_done_def by (intro exI[of _ t] conjI)
qed

text \<open>
  C1: The analysis computes the least solution of its constraints. Started as \<^verbatim>\<open>initialize\<close> does,
  with the address edges of a new state processed, \<^verbatim>\<open>solveWorklist\<close> ends, within the rounds of
  \<open>solve_fuel\<close>: the worklist is empty and the set of every node holds exactly the objects that
  the address, copy, field, load and store edges of the graph derive for it. The graph has field
  edges of constant offset only, below \<open>2 ^ 31\<close>, no object is waiting to be collapsed, and
  difference propagation is on. \<open>C\<close> bounds the numbers of the nodes, those of the fields to come
  included.
\<close>

theorem solveWorklist_least_solution:
  assumes "start_ok C s" "solve_fuel C \<le> k"
  shows "\<exists>t. solveWorklist k m andersen_methods (processAllAddr s) = Some t \<and> isWorklistEmpty t \<and> solution_inv C t
    \<and> (\<forall>n. set (getPts t n) = {x. solution s (irs t) n x})"
proof -
  let ?s = "processAllAddr s"
  note a = processAllAddr_start[OF assms(1)]
  have core: "core_ok C ?s" using a(1) by (simp add: solution_inv_def)
  have "closed_node n ?s" if "n \<notin> wl ?s" for n using closed_node_empty a(6) that by blast
  moreover have "todo C ?s \<le> k" using todo_le_fuel[OF core] assms(2) by (rule le_trans)
  ultimately obtain t where t: "solveWorklist k m andersen_methods ?s = Some t" "isWorklistEmpty t" "solution_inv C t"
      "\<forall>n. closed_node n t" "extends ?s t"
    using solve_loop[OF a(1), where k = k and m = m] unfolding solveWorklist_def by blast
  have ct: "core_ok C t" using t(3) by (simp add: solution_inv_def)
  have so: "sound ?s t" using t(5) sound_start unfolding extends_def by blast
  have "set (getPts t n) = {x. derived ?s (irs t) (rep_of ?s n) x}" for n
    using derived_closed[OF t(4) ct t(5)] soundD(1,3)[OF so] by (auto simp: getPts_def)
  moreover have "rep_of ?s n = n" for n using a(4) assms(1) by (simp add: start_ok_def)
  ultimately show ?thesis using t(1-3) derived_solution[OF assms(1)] by simp
qed

text \<open>
  Node 10 gets the address of object 4; a copy into 11, a field edge from 11 and a load through 10
  into 12.
\<close>

definition demo_start :: ander where
  "demo_start = demo_ander\<lparr>
     consCG := (consCG demo_ander)\<lparr>cedges :=
       \<lparr>ekind = Addr, esrc = 4, edst = 10, edgeId = 3, eguard = None, eap = 0\<rparr> # cedges (consCG demo_ander) @
       [\<lparr>ekind = NormalGep, esrc = 11, edst = 12, edgeId = 2, eguard = None, eap = 1\<rparr>]\<rparr>,
     ptD := dd_new True, irs := (irs demo_ander)\<lparr>alloc := (new_allocator SEQ)\<lparr>numNodes := 13\<rparr>\<rparr>, wlist := fifo_new\<rparr>"

lemma demo_start_table: "table_ok 16 (irs demo_start)"
proof -
  let ?p = "irs demo_start"
  have v: "svfVars ?p = [4 \<mapsto> BaseObjVar True False, 10 \<mapsto> ValVar True, 11 \<mapsto> ValVar True, 12 \<mapsto> ValVar True]"
    by (auto simp: demo_start_def demo_ander_def demo_pag_def addBaseObjNode_def hasGNode_def)
  have f: "gepObjVarMap ?p = (\<lambda>_. None)" "maxOffsetLimit ?p = (\<lambda>_. 3)" "memToFields ?p = (\<lambda>_. [])(4 := [4])"
      "alloc ?p = (new_allocator SEQ)\<lparr>numNodes := 13\<rparr>"
    by (auto simp: demo_start_def demo_ander_def demo_pag_def addBaseObjNode_def hasGNode_def oset_insert_def)
  have b: "isBaseObj c ?p \<longleftrightarrow> c = 4" for c by (auto simp: isBaseObj_def v)
  have "missing ?p = {4} \<times> {0, 1, 2}" by (auto simp: missing_def b f)
  then have "card (missing ?p) = 3" by simp
  moreover have "pag_inv ?p" unfolding pag_inv_def b f by (auto simp: v getBaseObject_def)
  moreover have "seq_inv ?p" unfolding seq_inv_def f by (auto simp: v new_allocator_def)
  ultimately show ?thesis by (auto simp: table_ok_def f v)
qed

lemma demo_start_state:
  "dd_getPts (ptD demo_start) k = []" "propaPtsMap (ptD demo_start) k = []" "rep_of demo_start = (\<lambda>i. i)"
  "live (consCG demo_start) n \<longleftrightarrow> n \<in> {4, 10, 11, 12}" "wlist demo_start = fifo_new"
  "edges demo_start = {\<lparr>ekind = Addr, esrc = 4, edst = 10, edgeId = 3, eguard = None, eap = 0\<rparr>,
    \<lparr>ekind = Copy, esrc = 10, edst = 11, edgeId = 0, eguard = None, eap = 0\<rparr>,
    \<lparr>ekind = Load, esrc = 10, edst = 12, edgeId = 1, eguard = None, eap = 0\<rparr>,
    \<lparr>ekind = NormalGep, esrc = 11, edst = 12, edgeId = 2, eguard = None, eap = 1\<rparr>}"
  "set (cnodes (consCG demo_start)) = {4, 10, 11, 12}"
  by (auto simp: demo_start_def demo_ander_def rep_of_def sccRepNode_def empty_consg_def live_def fun_eq_iff
      dd_new_def pt_new_def dd_getPts_def)

lemma demo_start_ok: "start_ok 16 demo_start"
proof -
  let ?s = demo_start
  have v: "svfVars (irs ?s) = [4 \<mapsto> BaseObjVar True False, 10 \<mapsto> ValVar True, 11 \<mapsto> ValVar True, 12 \<mapsto> ValVar True]"
    by (auto simp: demo_start_def demo_ander_def demo_pag_def addBaseObjNode_def hasGNode_def)
  have g: "consg_inv (consCG ?s)"
    by (auto simp: demo_start_def demo_ander_def empty_consg_def consg_inv_def live_def sccRepNode_def oset_inv_def ekey_def less_prod_def)
  have base: "getBaseObject i (irs ?s) = Some b \<longleftrightarrow> i = 4 \<and> b = 4" for i b by (auto simp: getBaseObject_def v)
  have "objs_ok ?s"
    using demo_start_table unfolding objs_ok_def table_ok_def by (auto simp: base demo_start_state)
  moreover have "rep_ok (consCG ?s)" using demo_start_state(3) by (simp add: rep_ok_def rep_of_def fun_eq_iff)
  moreover have "isPointer n (irs ?s) \<noteq> None" if "n \<in> {4, 10, 11, 12}" for n
    using that by (auto simp: isPointer.simps v)
  moreover have "DiffPts ?s" "fifo_empty (nodesToBeCollapsed (consCG ?s))"
    by (simp_all add: demo_start_def demo_ander_def empty_consg_def fifo_empty_def fifo_new_def)
  moreover have "dd_inv (ptD ?s)" by (simp add: demo_start_def dd_inv_def dd_new_def pt_inv_def pt_new_def)
  moreover have "fifo_inv (wlist ?s)" "wl ?s = {}" by (simp_all add: demo_start_state(5) fifo_inv_new) (simp add: fifo_new_def)
  ultimately have "core_ok 16 ?s"
    using demo_start_table g unfolding core_ok_def by (auto simp: demo_start_state(1-4,6,7))
  then show ?thesis by (auto simp: start_ok_def demo_start_state base fifo_empty_def fifo_new_def)
qed

theorem solveWorklist_least_solution_witness:
  "\<exists>t. solveWorklist (solve_fuel 16) 5 andersen_methods (processAllAddr demo_start) = Some t \<and> isWorklistEmpty t \<and> 4 \<in> set (getPts t 11)"
proof -
  from solveWorklist_least_solution[OF demo_start_ok le_refl] obtain t where
    t: "solveWorklist (solve_fuel 16) 5 andersen_methods (processAllAddr demo_start) = Some t" "isWorklistEmpty t"
      "set (getPts t 11) = {x. solution demo_start (irs t) 11 x}" by blast
  have "solution demo_start (irs t) 10 4"
    using solution.addr[of "\<lparr>ekind = Addr, esrc = 4, edst = 10, edgeId = 3, eguard = None, eap = 0\<rparr>" demo_start "irs t"]
    by (simp add: demo_start_state(6))
  then have "solution demo_start (irs t) 11 4"
    using solution.copy[of "\<lparr>ekind = Copy, esrc = 10, edst = 11, edgeId = 0, eguard = None, eap = 0\<rparr>" demo_start "irs t" 4]
    by (simp add: demo_start_state(6))
  then show ?thesis using t by auto
qed

theorem processNode_closes_all_witness:
  "\<exists>t. processNode andersen_methods 10 (processAllAddr demo_start) = Some t \<and> 4 \<in> set (dd_getPts (ptD t) 11)"
proof -
  note a = processAllAddr_start[OF demo_start_ok]
  let ?e = "\<lparr>ekind = Copy, esrc = 10, edst = 11, edgeId = 0, eguard = None, eap = 0\<rparr> :: cedge"
  have "live (consCG (processAllAddr demo_start)) 10" unfolding a(2) by (simp add: demo_start_state(4))
  from processNode_closes_all[OF a(1) this] obtain t where t: "processNode andersen_methods 10 (processAllAddr demo_start) = Some t"
    "\<forall>e \<in> edges (processAllAddr demo_start). ekind e = Copy \<and> esrc e = 10 \<longrightarrow>
       ptsOf (processAllAddr demo_start) 10 \<subseteq> ptsOf t (edst e)" by blast
  have "?e \<in> edges (processAllAddr demo_start)" unfolding a(2) demo_start_state(6) by simp
  with t(2) have "ptsOf (processAllAddr demo_start) 10 \<subseteq> ptsOf t 11" by force
  moreover have "4 \<in> ptsOf (processAllAddr demo_start) 10" unfolding a(5) demo_start_state(6)
    by (intro CollectI exI[of _ "\<lparr>ekind = Addr, esrc = 4, edst = 10, edgeId = 3, eguard = None, eap = 0\<rparr>"]) simp
  ultimately show ?thesis using t(1) by blast
qed

end
