(* ===== verification/CoreBitVector.thy ===== *)
theory CoreBitVector
  imports Prelude "HOL-Library.Word" "HOL-Library.Monad_Syntax"
begin

text \<open>
  \<^verbatim>\<open>CoreBitVector\<close> (\<^verbatim>\<open>src/SVF/svf/include/Util/CoreBitVector.h\<close> and
  \<^verbatim>\<open>src/SVF/svf/lib/Util/CoreBitVector.cpp\<close>) and its subclass \<^verbatim>\<open>BitVector\<close>: a set of
  32-bit numbers in 64-bit words of which the first one starts at a multiple of 64. An access
  outside the words and a failing assertion are \<open>None\<close>.
\<close>

unbundle bit_operations_syntax

section \<open>The vector\<close>

record cbv =
  offset :: nat
  words :: "64 word list"

definition WordSize :: nat where
  "WordSize = 64"

definition cbv_new :: "nat \<Rightarrow> cbv" where
  "cbv_new n = \<lparr>offset = 0, words = replicate n 0\<rparr>"

definition cbv_empty :: "cbv \<Rightarrow> bool" where
  "cbv_empty v \<longleftrightarrow> list_all (\<lambda>w. w = 0) (words v)"

definition countPopulation :: "64 word \<Rightarrow> nat" where
  "countPopulation w = length (filter (bit w) [0..<WordSize])"

definition cbv_count :: "cbv \<Rightarrow> nat" where
  "cbv_count v = fold (\<lambda>w n. u32 (n + countPopulation w)) (words v) 0"

definition cbv_clear :: "cbv \<Rightarrow> cbv" where
  "cbv_clear v = \<lparr>offset = 0, words = []\<rparr>"

definition canHold :: "nat \<Rightarrow> cbv \<Rightarrow> bool" where
  "canHold b v \<longleftrightarrow> offset v \<le> b \<and> b < offset v + length (words v) * WordSize"

definition indexForBit :: "nat \<Rightarrow> cbv \<Rightarrow> nat option" where
  "indexForBit b v = (if canHold b v then Some ((b - offset v) div WordSize) else None)"

definition finalBit :: "cbv \<Rightarrow> nat" where
  "finalBit v = u32 (u64 (offset v + length (words v) * WordSize + (2 ^ 64 - 1)))"

definition bitMask :: "nat \<Rightarrow> 64 word" where
  "bitMask b = push_bit (b mod WordSize) 1"

definition cbv_test :: "nat \<Rightarrow> cbv \<Rightarrow> bool" where
  "cbv_test b v =
     (if b < offset v \<or> offset v + length (words v) * WordSize \<le> b then False
      else bitMask b AND (words v ! ((b - offset v) div WordSize)) \<noteq> 0)"

section \<open>Growth\<close>

definition extendBackward :: "nat \<Rightarrow> cbv \<Rightarrow> cbv" where
  "extendBackward b v =
     (let newOffset = b div WordSize * WordSize in
      if offset v \<le> newOffset then v
      else v\<lparr>words := replicate ((offset v - newOffset) div WordSize) 0 @ words v, offset := newOffset\<rparr>)"

definition extendForward :: "nat \<Rightarrow> cbv \<Rightarrow> cbv" where
  "extendForward b v =
     (if b < offset v \<or> canHold b v then v
      else
        let bitsWord = b div WordSize * WordSize;
            wordsToAdd = u32 (1 + (bitsWord - length (words v) * WordSize - offset v) div WordSize)
        in v\<lparr>words := words v @ replicate wordsToAdd 0\<rparr>)"

definition extendTo :: "nat \<Rightarrow> cbv \<Rightarrow> cbv" where
  "extendTo b v =
     (if offset v = 0 \<and> words v = [] then v\<lparr>offset := b div WordSize * WordSize, words := words v @ [0]\<rparr>
      else if b < offset v then extendBackward b v
      else if offset v + length (words v) * WordSize \<le> b then extendForward b v
      else v)"

definition updateWord :: "nat \<Rightarrow> (64 word \<Rightarrow> 64 word) \<Rightarrow> cbv \<Rightarrow> cbv option" where
  "updateWord i f v =
     (if i < length (words v) then Some (v\<lparr>words := (words v)[i := f (words v ! i)]\<rparr>) else None)"

definition cbv_set :: "nat \<Rightarrow> cbv \<Rightarrow> cbv option" where
  "cbv_set b v =
     (let v1 = extendTo b v
      in updateWord ((b - offset v1) div WordSize) (\<lambda>w. w OR bitMask b) v1)"

definition cbv_test_and_set :: "nat \<Rightarrow> cbv \<Rightarrow> (bool \<times> cbv) option" where
  "cbv_test_and_set b v =
     (if cbv_test b v then Some (False, v)
      else map_option (\<lambda>v1. (True, v1)) (cbv_set b v))"

definition cbv_reset :: "nat \<Rightarrow> cbv \<Rightarrow> cbv option" where
  "cbv_reset b v =
     (if b < offset v \<or> offset v + length (words v) * WordSize \<le> b then Some v
      else updateWord ((b - offset v) div WordSize) (\<lambda>w. w AND NOT (bitMask b)) v)"

section \<open>Binary operations\<close>

text \<open>
  The loops run over both word vectors from the given indices. That of \<^verbatim>\<open>operator|=\<close> runs
  over all words of its operand, those of \<^verbatim>\<open>operator&=\<close> and \<^verbatim>\<open>operator-=\<close> while both
  vectors have words.
\<close>

definition orLoop :: "nat \<Rightarrow> 64 word list \<Rightarrow> 64 word list \<Rightarrow> 64 word list \<times> 64 word" where
  "orLoop thisIndex rws ws =
     fold (\<lambda>i (ws, changed).
         let oldWord = ws ! (thisIndex + i);
             newWord = oldWord OR rws ! i
         in (ws[thisIndex + i := newWord], changed OR (oldWord XOR newWord)))
       [0..<length rws] (ws, 0)"

definition cbv_or :: "cbv \<Rightarrow> cbv \<Rightarrow> (bool \<times> cbv) option" where
  "cbv_or rhs v =
     (if words v = [] then Some (words rhs \<noteq> [], rhs)
      else if words rhs = [] then Some (False, v)
      else do {
        let v1 = (if finalBit v < finalBit rhs then extendForward (finalBit rhs) v else v);
        let v2 = (if offset rhs < offset v1 then extendBackward (offset rhs) v1 else v1);
        thisIndex \<leftarrow> indexForBit (offset rhs) v2;
        if length (words v2) < thisIndex + length (words rhs) then None
        else
          let (ws, changed) = orLoop thisIndex (words rhs) (words v2)
          in Some (changed \<noteq> 0, v2\<lparr>words := ws\<rparr>)
      })"

function combineLoop :: "(64 word \<Rightarrow> 64 word \<Rightarrow> 64 word) \<Rightarrow> 64 word list \<Rightarrow> nat \<Rightarrow> nat \<Rightarrow> 64 word list \<Rightarrow> bool
    \<Rightarrow> 64 word list \<times> nat \<times> bool" where
  "combineLoop f rws thisIndex rhsIndex ws changed =
     (if thisIndex < length ws \<and> rhsIndex < length rws then
        let newWord = f (ws ! thisIndex) (rws ! rhsIndex)
        in combineLoop f rws (Suc thisIndex) (Suc rhsIndex) (ws[thisIndex := newWord])
             (changed \<or> ws ! thisIndex \<noteq> newWord)
      else (ws, thisIndex, changed))"
  by pat_completeness auto
termination
  by (relation "measure (\<lambda>(f, rws, i, j, ws, c). length ws - i)") (auto simp: Let_def)

definition clearWords :: "nat \<Rightarrow> nat \<Rightarrow> 64 word list \<Rightarrow> bool \<Rightarrow> 64 word list \<times> bool" where
  "clearWords i j ws changed =
     fold (\<lambda>k (ws, changed). (ws[k := 0], changed \<or> ws ! k \<noteq> 0)) [i..<j] (ws, changed)"

definition cbv_and :: "cbv \<Rightarrow> cbv \<Rightarrow> (bool \<times> cbv) option" where
  "cbv_and rhs v =
     (let greaterOffset = max (offset v) (offset rhs) in
      if \<not> canHold greaterOffset v \<or> \<not> canHold greaterOffset rhs then
        let (ws, changed) = clearWords 0 (length (words v)) (words v) False
        in Some (changed, v\<lparr>words := ws\<rparr>)
      else do {
        thisIndex \<leftarrow> indexForBit greaterOffset v;
        rhsIndex \<leftarrow> indexForBit greaterOffset rhs;
        let (ws, changed) = clearWords 0 thisIndex (words v) False;
        let (ws, thisIndex, changed) = combineLoop (AND) (words rhs) thisIndex rhsIndex ws changed;
        let (ws, changed) = clearWords thisIndex (length ws) ws changed;
        Some (changed, v\<lparr>words := ws\<rparr>)
      })"

definition cbv_minus :: "cbv \<Rightarrow> cbv \<Rightarrow> (bool \<times> cbv) option" where
  "cbv_minus rhs v =
     (let greaterOffset = max (offset v) (offset rhs) in
      if \<not> canHold greaterOffset v \<or> \<not> canHold greaterOffset rhs then Some (False, v)
      else do {
        thisIndex \<leftarrow> indexForBit greaterOffset v;
        rhsIndex \<leftarrow> indexForBit greaterOffset rhs;
        let (ws, thisIndex, changed) =
          combineLoop (\<lambda>a b. a AND NOT b) (words rhs) thisIndex rhsIndex (words v) False;
        Some (changed, v\<lparr>words := ws\<rparr>)
      })"

definition cbv_intersectWithComplement :: "cbv \<Rightarrow> cbv \<Rightarrow> cbv option" where
  "cbv_intersectWithComplement lhs rhs = map_option snd (cbv_minus rhs lhs)"

function intersectLoop :: "64 word list \<Rightarrow> 64 word list \<Rightarrow> nat \<Rightarrow> nat \<Rightarrow> bool" where
  "intersectLoop eWords lWords e l =
     (if e < length eWords \<and> l < length lWords then
        if eWords ! e AND lWords ! l \<noteq> 0 then True else intersectLoop eWords lWords (Suc e) (Suc l)
      else False)"
  by pat_completeness auto
termination
  by (relation "measure (\<lambda>(ews, lws, e, l). length ews - e)") auto

text \<open>\<^verbatim>\<open>intersects\<close> takes the address of the first word of both vectors, also of one without words.\<close>

definition cbv_intersects :: "cbv \<Rightarrow> cbv \<Rightarrow> bool option" where
  "cbv_intersects v rhs =
     (if cbv_empty v \<and> cbv_empty rhs then Some False
      else if words v = [] \<or> words rhs = [] then None
      else
        let earlier = (if offset v \<le> offset rhs then v else rhs);
            later = (if offset v \<le> offset rhs then rhs else v);
            earlierOffset = min (offset v) (offset rhs) div WordSize;
            laterOffset = max (offset v) (offset rhs) div WordSize - earlierOffset
        in Some (intersectLoop (words earlier) (words later) (min laterOffset (length (words earlier))) 0))"

function nextSetIndex :: "64 word list \<Rightarrow> nat \<Rightarrow> nat" where
  "nextSetIndex ws i = (if i < length ws \<and> ws ! i = 0 then nextSetIndex ws (Suc i) else i)"
  by pat_completeness auto
termination
  by (relation "measure (\<lambda>(ws, i). length ws - i)") auto

declare combineLoop.simps [simp del] intersectLoop.simps [simp del] nextSetIndex.simps [simp del]

lemma nextSetIndex_ge: "i \<le> nextSetIndex ws i"
proof (induction ws i rule: nextSetIndex.induct)
  case (1 ws i)
  then show ?case by (subst nextSetIndex.simps) (use Suc_leD in auto)
qed

function eqLoop :: "cbv \<Rightarrow> cbv \<Rightarrow> nat \<Rightarrow> nat \<Rightarrow> bool" where
  "eqLoop v rhs i j =
     (if i < length (words v) \<and> j < length (words rhs) then
        if i * WordSize + offset v \<noteq> j * WordSize + offset rhs \<or> words v ! i \<noteq> words rhs ! j then False
        else eqLoop v rhs (nextSetIndex (words v) (Suc i)) (nextSetIndex (words rhs) (Suc j))
      else length (words v) \<le> i \<and> length (words rhs) \<le> j)"
  by pat_completeness auto
termination
proof (relation "measure (\<lambda>(v, rhs, i, j). length (words v) - i)", goal_cases)
  case (2 v rhs i j)
  then show ?case using nextSetIndex_ge[of "Suc i" "words v"] by simp linarith
qed simp

declare eqLoop.simps [simp del]

definition cbv_eq :: "cbv \<Rightarrow> cbv \<Rightarrow> bool" where
  "cbv_eq v rhs = eqLoop v rhs (nextSetIndex (words v) 0) (nextSetIndex (words rhs) 0)"

definition cbv_contains :: "cbv \<Rightarrow> cbv \<Rightarrow> bool option" where
  "cbv_contains v rhs = map_option (\<lambda>(_, tmp). cbv_eq tmp rhs) (cbv_and rhs v)"

definition cbv_hash :: "cbv \<Rightarrow> 64 word" where
  "cbv_hash v =
     fold (\<lambda>w h. h XOR (w + 0x9e3779b9 + push_bit 6 h + drop_bit 2 h)) (words v) (of_nat (length (words v)))
       + of_nat (offset v)"

section \<open>Iteration\<close>

record cbv_iter =
  wordIt :: nat
  bitIt :: nat

definition cbv_atEnd :: "cbv \<Rightarrow> cbv_iter \<Rightarrow> bool" where
  "cbv_atEnd v it \<longleftrightarrow> wordIt it = length (words v)"

fun skipZeros :: "64 word list \<Rightarrow> nat" where
  "skipZeros [] = 0"
| "skipZeros (w # ws) = (if w = 0 then Suc (skipZeros ws) else 0)"

definition seekBit :: "64 word \<Rightarrow> nat \<Rightarrow> nat" where
  "seekBit w b = b + length (takeWhile (\<lambda>i. w AND push_bit i 1 = 0) [b..<WordSize])"

definition cbv_next :: "cbv \<Rightarrow> cbv_iter \<Rightarrow> cbv_iter option" where
  "cbv_next v it =
     (if cbv_atEnd v it \<or> length (words v) < wordIt it then None
      else
        let b = Suc (bitIt it);
            (i, b) = (if b = WordSize \<or> drop_bit b (words v ! wordIt it) = 0
                      then (Suc (wordIt it) + skipZeros (drop (Suc (wordIt it)) (words v)), 0)
                      else (wordIt it, b))
        in Some \<lparr>wordIt = i, bitIt = (if i < length (words v) then seekBit (words v ! i) b else b)\<rparr>)"

definition cbv_end :: "cbv \<Rightarrow> cbv_iter" where
  "cbv_end v = \<lparr>wordIt = length (words v), bitIt = 0\<rparr>"

definition cbv_begin :: "cbv \<Rightarrow> cbv_iter option" where
  "cbv_begin v =
     (let it = \<lparr>wordIt = 0, bitIt = 0\<rparr> in
      if \<not> cbv_atEnd v it \<and> words v ! 0 AND 1 = 0 then cbv_next v it else Some it)"

definition cbv_deref :: "cbv \<Rightarrow> cbv_iter \<Rightarrow> nat option" where
  "cbv_deref v it =
     (if cbv_atEnd v it then None else Some (u32 (offset v + wordIt it * WordSize + bitIt it)))"

definition cbv_it_eq :: "cbv \<Rightarrow> cbv_iter \<Rightarrow> cbv_iter \<Rightarrow> bool" where
  "cbv_it_eq v it rhs =
     (if wordIt it = length (words v) then wordIt rhs = length (words v)
      else wordIt it = wordIt rhs \<and> bitIt it = bitIt rhs)"

text \<open>A loop \<^verbatim>\<open>for (u32_t b : cbv)\<close>, within \<open>n\<close> steps.\<close>

primrec cbv_loop :: "nat \<Rightarrow> cbv \<Rightarrow> cbv_iter \<Rightarrow> nat list option" where
  "cbv_loop 0 v it = None"
| "cbv_loop (Suc n) v it =
     (if cbv_it_eq v it (cbv_end v) then Some []
      else do {
        b \<leftarrow> cbv_deref v it;
        it' \<leftarrow> cbv_next v it;
        map_option ((#) b) (cbv_loop n v it')
      })"

definition cbv_elems :: "cbv \<Rightarrow> nat list option" where
  "cbv_elems v = do { it \<leftarrow> cbv_begin v; cbv_loop (Suc (length (words v) * WordSize)) v it }"

section \<open>BitVector\<close>

definition bv_new :: "nat \<Rightarrow> cbv option" where
  "bv_new n = do { v \<leftarrow> cbv_set 0 (cbv_new n); cbv_reset 0 v }"

end
