(* ===== verification/SparseBitVector.thy ===== *)
theory SparseBitVector
  imports CoreBitVector
begin

text \<open>
  \<^verbatim>\<open>SparseBitVector\<close> of \<^verbatim>\<open>src/SVF/svf/include/Util/SparseBitVector.h\<close> with its default element
  size: the list of the 128-bit blocks that have a bit, by increasing index, and an iterator
  into it, here the position of the element, which is kept at the last element looked at.
  The loops that walk two lists are recursions over what the iterators have before them.
  The overloads for a vector and itself, and those that take pointers, come down to these.
\<close>

unbundle bit_operations_syntax

section \<open>Elements\<close>

definition ElementSize :: nat where
  "ElementSize = 128"

definition BITWORDS_PER_ELEMENT :: nat where
  "BITWORDS_PER_ELEMENT = (ElementSize + WordSize - 1) div WordSize"

record sbv_elem =
  ElementIndex :: nat
  Bits :: "64 word list"

definition el_new :: "nat \<Rightarrow> sbv_elem" where
  "el_new i = \<lparr>ElementIndex = i, Bits = replicate BITWORDS_PER_ELEMENT 0\<rparr>"

definition el_eq :: "sbv_elem \<Rightarrow> sbv_elem \<Rightarrow> bool" where
  "el_eq e r \<longleftrightarrow> ElementIndex e = ElementIndex r
     \<and> list_all (\<lambda>i. Bits e ! i = Bits r ! i) [0..<BITWORDS_PER_ELEMENT]"

definition el_empty :: "sbv_elem \<Rightarrow> bool" where
  "el_empty e \<longleftrightarrow> list_all (\<lambda>i. Bits e ! i = 0) [0..<BITWORDS_PER_ELEMENT]"

definition el_set :: "nat \<Rightarrow> sbv_elem \<Rightarrow> sbv_elem" where
  "el_set i e = e\<lparr>Bits := (Bits e)[i div WordSize := Bits e ! (i div WordSize) OR bitMask i]\<rparr>"

definition el_reset :: "nat \<Rightarrow> sbv_elem \<Rightarrow> sbv_elem" where
  "el_reset i e = e\<lparr>Bits := (Bits e)[i div WordSize := Bits e ! (i div WordSize) AND NOT (bitMask i)]\<rparr>"

definition el_test :: "nat \<Rightarrow> sbv_elem \<Rightarrow> bool" where
  "el_test i e \<longleftrightarrow> Bits e ! (i div WordSize) AND bitMask i \<noteq> 0"

definition el_count :: "sbv_elem \<Rightarrow> nat" where
  "el_count e = fold (\<lambda>i n. u32 (n + countPopulation (Bits e ! i))) [0..<BITWORDS_PER_ELEMENT] 0"

definition countTrailingZeros :: "64 word \<Rightarrow> nat" where
  "countTrailingZeros w = length (takeWhile (\<lambda>i. \<not> bit w i) [0..<WordSize])"

text \<open>The first word with a bit from the word \<open>i\<close> on, as the number of that bit.\<close>

primrec firstFrom :: "64 word list \<Rightarrow> nat \<Rightarrow> nat option" where
  "firstFrom [] i = None"
| "firstFrom (w # ws) i = (if w \<noteq> 0 then Some (i * WordSize + countTrailingZeros w) else firstFrom ws (Suc i))"

definition el_find_first :: "sbv_elem \<Rightarrow> nat option" where
  "el_find_first e = firstFrom (Bits e) 0"

definition el_find_next :: "nat \<Rightarrow> sbv_elem \<Rightarrow> nat option" where
  "el_find_next cur e =
     (if ElementSize \<le> cur then None
      else
        let wordPos = cur div WordSize;
            copy = Bits e ! wordPos AND push_bit (cur mod WordSize) (- 1)
        in if copy \<noteq> 0 then Some (wordPos * WordSize + countTrailingZeros copy)
           else firstFrom (drop (Suc wordPos) (Bits e)) (Suc wordPos))"

definition el_unionWith :: "sbv_elem \<Rightarrow> sbv_elem \<Rightarrow> bool \<times> sbv_elem" where
  "el_unionWith r e = (let (ws, i, changed) = combineLoop (OR) (Bits r) 0 0 (Bits e) False in (changed, e\<lparr>Bits := ws\<rparr>))"

definition el_intersects :: "sbv_elem \<Rightarrow> sbv_elem \<Rightarrow> bool" where
  "el_intersects e r \<longleftrightarrow> list_ex (\<lambda>i. Bits r ! i AND Bits e ! i \<noteq> 0) [0..<BITWORDS_PER_ELEMENT]"

text \<open>These return whether the element changed, whether it became zero, and the element.\<close>

definition el_intersectWith :: "sbv_elem \<Rightarrow> sbv_elem \<Rightarrow> bool \<times> bool \<times> sbv_elem" where
  "el_intersectWith r e =
     (let (ws, i, changed) = combineLoop (AND) (Bits r) 0 0 (Bits e) False
      in (changed, list_all (\<lambda>w. w = 0) ws, e\<lparr>Bits := ws\<rparr>))"

definition el_intersectWithComplement :: "sbv_elem \<Rightarrow> sbv_elem \<Rightarrow> bool \<times> bool \<times> sbv_elem" where
  "el_intersectWithComplement r e =
     (let (ws, i, changed) = combineLoop (\<lambda>a b. a AND NOT b) (Bits r) 0 0 (Bits e) False
      in (changed, list_all (\<lambda>w. w = 0) ws, e\<lparr>Bits := ws\<rparr>))"

section \<open>The list of elements\<close>

record sbv =
  Elements :: "sbv_elem list"
  CurrElementIter :: nat

definition sbv_new :: sbv where
  "sbv_new = \<lparr>Elements = [], CurrElementIter = 0\<rparr>"

definition sbv_clear :: "sbv \<Rightarrow> sbv" where
  "sbv_clear v = v\<lparr>Elements := []\<rparr>"

definition sbv_empty :: "sbv \<Rightarrow> bool" where
  "sbv_empty v \<longleftrightarrow> Elements v = []"

primrec searchBackward :: "sbv_elem list \<Rightarrow> nat \<Rightarrow> nat \<Rightarrow> nat" where
  "searchBackward es idx 0 = 0"
| "searchBackward es idx (Suc i) =
     (if idx < ElementIndex (es ! Suc i) then searchBackward es idx i else Suc i)"

function searchForward :: "sbv_elem list \<Rightarrow> nat \<Rightarrow> nat \<Rightarrow> nat" where
  "searchForward es idx i =
     (if i < length es \<and> ElementIndex (es ! i) < idx then searchForward es idx (Suc i) else i)"
  by pat_completeness auto
termination
  by (relation "measure (\<lambda>(es, idx, i). length es - i)") auto

declare searchForward.simps [simp del]

definition FindLowerBound :: "nat \<Rightarrow> sbv \<Rightarrow> nat \<times> sbv" where
  "FindLowerBound idx v =
     (let es = Elements v in
      if es = [] then (0, v\<lparr>CurrElementIter := 0\<rparr>)
      else
        let cur = (if CurrElementIter v = length es then CurrElementIter v - 1 else CurrElementIter v);
            it = (if ElementIndex (es ! cur) = idx then cur
                  else if idx < ElementIndex (es ! cur) then searchBackward es idx cur
                  else searchForward es idx cur)
        in (it, v\<lparr>CurrElementIter := it\<rparr>))"

definition sbv_test :: "nat \<Rightarrow> sbv \<Rightarrow> bool \<times> sbv" where
  "sbv_test idx v =
     (if Elements v = [] then (False, v)
      else
        let elementIndex = idx div ElementSize;
            (it, v1) = FindLowerBound elementIndex v
        in if it = length (Elements v1) \<or> ElementIndex (Elements v1 ! it) \<noteq> elementIndex then (False, v1)
           else (el_test (idx mod ElementSize) (Elements v1 ! it), v1))"

definition sbv_reset :: "nat \<Rightarrow> sbv \<Rightarrow> sbv" where
  "sbv_reset idx v =
     (if Elements v = [] then v
      else
        let elementIndex = idx div ElementSize;
            (it, v1) = FindLowerBound elementIndex v;
            es = Elements v1
        in if it = length es \<or> ElementIndex (es ! it) \<noteq> elementIndex then v1
           else
             let e = el_reset (idx mod ElementSize) (es ! it)
             in if el_empty e then v1\<lparr>Elements := take it es @ drop (Suc it) es, CurrElementIter := it\<rparr>
                else v1\<lparr>Elements := es[it := e]\<rparr>)"

definition insertAt :: "nat \<Rightarrow> 'a \<Rightarrow> 'a list \<Rightarrow> 'a list" where
  "insertAt i x xs = take i xs @ x # drop i xs"

definition sbv_set :: "nat \<Rightarrow> sbv \<Rightarrow> sbv" where
  "sbv_set idx v =
     (let elementIndex = idx div ElementSize;
          (it, v1) =
            (if Elements v = [] then (0, v\<lparr>Elements := [el_new elementIndex]\<rparr>)
             else
               let (it, v1) = FindLowerBound elementIndex v;
                   es = Elements v1
               in if it = length es \<or> ElementIndex (es ! it) \<noteq> elementIndex then
                    let it = (if it \<noteq> length es \<and> ElementIndex (es ! it) < elementIndex then Suc it else it)
                    in (it, v1\<lparr>Elements := insertAt it (el_new elementIndex) es\<rparr>)
                  else (it, v1))
      in v1\<lparr>CurrElementIter := it, Elements := (Elements v1)[it := el_set (idx mod ElementSize) (Elements v1 ! it)]\<rparr>)"

definition sbv_test_and_set :: "nat \<Rightarrow> sbv \<Rightarrow> bool \<times> sbv" where
  "sbv_test_and_set idx v =
     (let (old, v1) = sbv_test idx v
      in if \<not> old then (True, sbv_set idx v1) else (False, v1))"

fun eqElems :: "sbv_elem list \<Rightarrow> sbv_elem list \<Rightarrow> bool" where
  "eqElems (x # xs) (y # ys) = (if \<not> el_eq x y then False else eqElems xs ys)"
| "eqElems xs ys \<longleftrightarrow> xs = [] \<and> ys = []"

definition sbv_eq :: "sbv \<Rightarrow> sbv \<Rightarrow> bool" where
  "sbv_eq v r = eqElems (Elements v) (Elements r)"

fun orElems :: "sbv_elem list \<Rightarrow> sbv_elem list \<Rightarrow> bool \<times> sbv_elem list" where
  "orElems xs [] = (False, xs)"
| "orElems [] (y # ys) = (let (c, zs) = orElems [] ys in (True, y # zs))"
| "orElems (x # xs) (y # ys) =
     (if ElementIndex y < ElementIndex x then
        let (c, zs) = orElems (x # xs) ys in (True, y # zs)
      else if ElementIndex x = ElementIndex y then
        let (c, x') = el_unionWith y x; (c', zs) = orElems xs ys in (c \<or> c', x' # zs)
      else let (c, zs) = orElems xs (y # ys) in (c, x # zs))"

definition sbv_or :: "sbv \<Rightarrow> sbv \<Rightarrow> bool \<times> sbv" where
  "sbv_or r v =
     (if Elements r = [] then (False, v)
      else let (changed, es) = orElems (Elements v) (Elements r)
           in (changed, v\<lparr>Elements := es, CurrElementIter := 0\<rparr>))"

fun andElems :: "sbv_elem list \<Rightarrow> sbv_elem list \<Rightarrow> bool \<times> sbv_elem list" where
  "andElems xs [] = (xs \<noteq> [], [])"
| "andElems [] (y # ys) = (False, [])"
| "andElems (x # xs) (y # ys) =
     (if ElementIndex y < ElementIndex x then andElems (x # xs) ys
      else if ElementIndex x = ElementIndex y then
        let (c, becameZero, x') = el_intersectWith y x; (c', zs) = andElems xs ys
        in (c \<or> c', if becameZero then zs else x' # zs)
      else let (c, zs) = andElems xs (y # ys) in (True, zs))"

definition sbv_and :: "sbv \<Rightarrow> sbv \<Rightarrow> bool \<times> sbv" where
  "sbv_and r v =
     (if Elements v = [] \<and> Elements r = [] then (False, v)
      else let (changed, es) = andElems (Elements v) (Elements r)
           in (changed, v\<lparr>Elements := es, CurrElementIter := 0\<rparr>))"

fun minusElems :: "sbv_elem list \<Rightarrow> sbv_elem list \<Rightarrow> bool \<times> sbv_elem list" where
  "minusElems xs [] = (False, xs)"
| "minusElems [] (y # ys) = (False, [])"
| "minusElems (x # xs) (y # ys) =
     (if ElementIndex y < ElementIndex x then minusElems (x # xs) ys
      else if ElementIndex x = ElementIndex y then
        let (c, becameZero, x') = el_intersectWithComplement y x; (c', zs) = minusElems xs ys
        in (c \<or> c', if becameZero then zs else x' # zs)
      else let (c, zs) = minusElems xs (y # ys) in (c, x # zs))"

definition sbv_intersectWithComplement :: "sbv \<Rightarrow> sbv \<Rightarrow> bool \<times> sbv" where
  "sbv_intersectWithComplement r v =
     (if Elements v = [] \<or> Elements r = [] then (False, v)
      else let (changed, es) = minusElems (Elements v) (Elements r)
           in (changed, v\<lparr>Elements := es, CurrElementIter := 0\<rparr>))"

text \<open>The version with three operands builds its result from the other two.\<close>

definition el_complement :: "sbv_elem \<Rightarrow> sbv_elem \<Rightarrow> bool \<times> sbv_elem" where
  "el_complement e r =
     (let ws = map (\<lambda>i. Bits e ! i AND NOT (Bits r ! i)) [0..<BITWORDS_PER_ELEMENT]
      in (list_all (\<lambda>w. w = 0) ws, (el_new (ElementIndex e))\<lparr>Bits := ws\<rparr>))"

fun complementElems :: "sbv_elem list \<Rightarrow> sbv_elem list \<Rightarrow> sbv_elem list" where
  "complementElems xs [] = xs"
| "complementElems [] (y # ys) = []"
| "complementElems (x # xs) (y # ys) =
     (if ElementIndex y < ElementIndex x then complementElems (x # xs) ys
      else if ElementIndex x = ElementIndex y then
        let (becameZero, x') = el_complement x y
        in if becameZero then complementElems xs ys else x' # complementElems xs ys
      else x # complementElems xs (y # ys))"

definition sbv_complementOf :: "sbv \<Rightarrow> sbv \<Rightarrow> sbv \<Rightarrow> sbv" where
  "sbv_complementOf r1 r2 v =
     v\<lparr>Elements := (if Elements r1 = [] then [] else complementElems (Elements r1) (Elements r2)), CurrElementIter := 0\<rparr>"

fun intersectElems :: "sbv_elem list \<Rightarrow> sbv_elem list \<Rightarrow> bool" where
  "intersectElems xs [] = False"
| "intersectElems [] (y # ys) = False"
| "intersectElems (x # xs) (y # ys) =
     (if ElementIndex y < ElementIndex x then intersectElems (x # xs) ys
      else if ElementIndex x = ElementIndex y then
        if el_intersects x y then True else intersectElems xs ys
      else intersectElems xs (y # ys))"

definition sbv_intersects :: "sbv \<Rightarrow> sbv \<Rightarrow> bool" where
  "sbv_intersects v r = (if Elements v = [] \<and> Elements r = [] then False else intersectElems (Elements v) (Elements r))"

definition sbv_contains :: "sbv \<Rightarrow> sbv \<Rightarrow> bool" where
  "sbv_contains v r = (let (changed, result) = sbv_and r v in sbv_eq result r)"

definition sbv_count :: "sbv \<Rightarrow> nat" where
  "sbv_count v = fold (\<lambda>e n. u32 (n + el_count e)) (Elements v) 0"

definition sbv_find_first :: "sbv \<Rightarrow> nat option" where
  "sbv_find_first v =
     (case Elements v of [] \<Rightarrow> None
      | e # es \<Rightarrow> map_option (\<lambda>b. u32 (ElementIndex e * ElementSize + b)) (el_find_first e))"

section \<open>Iteration\<close>

record sbv_iter =
  AtEnd :: bool
  Iter :: nat
  BitNumber :: nat
  WordNumber :: nat
  iterBits :: "64 word"

text \<open>Moves to the first bit of the element at position \<open>i\<close>.\<close>

definition enterElement :: "sbv \<Rightarrow> nat \<Rightarrow> sbv_iter \<Rightarrow> sbv_iter option" where
  "enterElement v i it =
     do {
       bitPos \<leftarrow> el_find_first (Elements v ! i);
       let bitNumber = u32 (ElementIndex (Elements v ! i) * ElementSize + bitPos);
       let wordNumber = bitNumber mod ElementSize div WordSize;
       Some (it\<lparr>Iter := i, BitNumber := bitNumber, WordNumber := wordNumber,
         iterBits := drop_bit (bitPos mod WordSize) (Bits (Elements v ! i) ! wordNumber)\<rparr>)
     }"

definition sbv_begin :: "sbv \<Rightarrow> sbv_iter option" where
  "sbv_begin v =
     (let it = \<lparr>AtEnd = False, Iter = 0, BitNumber = 0, WordNumber = 2 ^ 32 - 1, iterBits = 0\<rparr> in
      if Elements v = [] then Some (it\<lparr>AtEnd := True\<rparr>) else enterElement v 0 it)"

text \<open>\<^verbatim>\<open>while (Bits && !(Bits & 1))\<close>, which shifts at most 64 times.\<close>

primrec shiftZeros :: "nat \<Rightarrow> 64 word \<Rightarrow> nat \<Rightarrow> 64 word \<times> nat" where
  "shiftZeros 0 w b = (w, b)"
| "shiftZeros (Suc n) w b = (if w \<noteq> 0 \<and> w AND 1 = 0 then shiftZeros n (drop_bit 1 w) (u32 (b + 1)) else (w, b))"

definition AdvanceToNextNonZero :: "sbv \<Rightarrow> sbv_iter \<Rightarrow> sbv_iter option" where
  "AdvanceToNextNonZero v it =
     (if AtEnd it then Some it
      else
        let (w, b) = shiftZeros WordSize (iterBits it) (BitNumber it);
            it = it\<lparr>iterBits := w, BitNumber := b\<rparr>
        in if w \<noteq> 0 then Some it
           else
             case (if b mod ElementSize = 0 then None else el_find_next (b mod ElementSize) (Elements v ! Iter it)) of
               None \<Rightarrow>
                 let i = Suc (Iter it); it = it\<lparr>Iter := i, WordNumber := 0\<rparr>
                 in if i = length (Elements v) then Some (it\<lparr>AtEnd := True\<rparr>) else enterElement v i it
             | Some n \<Rightarrow>
                 let wordNumber = n mod ElementSize div WordSize;
                     e = Elements v ! Iter it
                 in Some (it\<lparr>WordNumber := wordNumber, iterBits := drop_bit (n mod WordSize) (Bits e ! wordNumber),
                      BitNumber := u32 (ElementIndex e * ElementSize + n)\<rparr>))"

definition sbv_next :: "sbv \<Rightarrow> sbv_iter \<Rightarrow> sbv_iter option" where
  "sbv_next v it = AdvanceToNextNonZero v (it\<lparr>BitNumber := u32 (BitNumber it + 1), iterBits := drop_bit 1 (iterBits it)\<rparr>)"

primrec sbv_loop :: "nat \<Rightarrow> sbv \<Rightarrow> sbv_iter \<Rightarrow> nat list option" where
  "sbv_loop 0 v it = None"
| "sbv_loop (Suc n) v it =
     (if AtEnd it then Some []
      else do { it' \<leftarrow> sbv_next v it; map_option ((#) (BitNumber it)) (sbv_loop n v it') })"

definition sbv_elems :: "sbv \<Rightarrow> nat list option" where
  "sbv_elems v = do { it \<leftarrow> sbv_begin v; sbv_loop (Suc (length (Elements v) * ElementSize)) v it }"

end
