(* ===== verification/CoreBitVector_Correct.thy ===== *)
theory CoreBitVector_Correct
  imports CoreBitVector
begin

text \<open>
  The bit vectors implement sets of numbers.
\<close>

unbundle bit_operations_syntax

section \<open>The words of a vector by their number\<close>

definition wordAt :: "cbv \<Rightarrow> nat \<Rightarrow> 64 word" where
  "wordAt v k =
     (if offset v div WordSize \<le> k \<and> k < offset v div WordSize + length (words v)
      then words v ! (k - offset v div WordSize) else 0)"

definition bits :: "cbv \<Rightarrow> nat set" where
  "bits v = {b. bit (wordAt v (b div WordSize)) (b mod WordSize)}"

definition cbv_inv :: "cbv \<Rightarrow> bool" where
  "cbv_inv v \<longleftrightarrow> WordSize dvd offset v \<and> offset v + length (words v) * WordSize \<le> 2 ^ 32
     \<and> (words v = [] \<longrightarrow> offset v = 0)"

lemma WordSize_pos [simp]: "0 < WordSize" by (simp add: WordSize_def)

lemma bits_eqI: "(\<And>k. wordAt v k = wordAt w k) \<Longrightarrow> bits v = bits w"
  by (simp add: bits_def)

lemma bits_wordAt: "bits v = bits w \<longleftrightarrow> (\<forall>k. wordAt v k = wordAt w k)"
proof
  assume H: "bits v = bits w"
  show "\<forall>k. wordAt v k = wordAt w k"
  proof
    fix k show "wordAt v k = wordAt w k"
    proof (rule bit_eqI)
      fix n assume "possible_bit TYPE(64 word) n"
      then have n: "n < WordSize" by (simp add: WordSize_def)
      have "k * WordSize + n \<in> bits v \<longleftrightarrow> k * WordSize + n \<in> bits w" using H by simp
      then show "bit (wordAt v k) n \<longleftrightarrow> bit (wordAt w k) n" using n by (simp add: bits_def)
    qed
  qed
qed (simp add: bits_def)

lemma bit_bitMask: "bit (bitMask b) n \<longleftrightarrow> n = b mod WordSize"
  by (auto simp: bitMask_def bit_simps WordSize_def)

lemma bitMask_AND: "bitMask b AND w \<noteq> 0 \<longleftrightarrow> bit w (b mod WordSize)"
proof
  assume "bitMask b AND w \<noteq> 0"
  then obtain n where "bit (bitMask b AND w) n" using bit_eqI[of "bitMask b AND w" 0] by auto
  then show "bit w (b mod WordSize)" by (auto simp: bit_and_iff bit_bitMask)
next
  assume "bit w (b mod WordSize)"
  then have "bit (bitMask b AND w) (b mod WordSize)" by (simp add: bit_and_iff bit_bitMask)
  then show "bitMask b AND w \<noteq> 0" by (metis bit_0_eq bot_apply bot_bool_def)
qed

lemma div_WordSize: "b < d * WordSize \<longleftrightarrow> b div WordSize < d" "d * WordSize \<le> b \<longleftrightarrow> d \<le> b div WordSize"
    "(b - d * WordSize) div WordSize = b div WordSize - d"
proof -
  show "b < d * WordSize \<longleftrightarrow> b div WordSize < d" "d * WordSize \<le> b \<longleftrightarrow> d \<le> b div WordSize"
    by (simp_all add: div_less_iff_less_mult less_eq_div_iff_mult_less_eq)
  show "(b - d * WordSize) div WordSize = b div WordSize - d"
    by (cases "d \<le> b div 64") (auto simp: WordSize_def)
qed

text \<open>A vector is determined by the number of its first word and its words.\<close>

abbreviation mk :: "nat \<Rightarrow> 64 word list \<Rightarrow> cbv" where
  "mk d ws \<equiv> \<lparr>offset = d * WordSize, words = ws\<rparr>"

lemma cbv_inv_mk: "cbv_inv (mk d ws) \<longleftrightarrow> d + length ws \<le> 2 ^ 26 \<and> (ws = [] \<longrightarrow> d = 0)"
proof -
  have "d * WordSize + length ws * WordSize \<le> 2 ^ 32 \<longleftrightarrow> (d + length ws) * WordSize \<le> 2 ^ 26 * WordSize"
    by (simp add: algebra_simps WordSize_def)
  then show ?thesis by (auto simp: cbv_inv_def WordSize_def)
qed

lemma cbv_inv_cases:
  assumes "cbv_inv v"
  obtains d ws where "v = mk d ws" "d + length ws \<le> 2 ^ 26" "ws = [] \<longrightarrow> d = 0"
proof -
  obtain d where "offset v = d * WordSize" using assms unfolding cbv_inv_def dvd_def by (auto simp: mult.commute)
  then have "v = mk d (words v)" by simp
  then show ?thesis using that cbv_inv_mk assms by metis
qed

lemma wordAt_mk: "wordAt (mk d ws) k = (if d \<le> k \<and> k < d + length ws then ws ! (k - d) else 0)"
  by (simp add: wordAt_def)

lemma canHold_mk: "canHold b (mk d ws) \<longleftrightarrow> d \<le> b div WordSize \<and> b div WordSize < d + length ws"
proof -
  have "d * WordSize + length ws * WordSize = (d + length ws) * WordSize" by (simp add: algebra_simps)
  then show ?thesis by (simp add: canHold_def div_WordSize)
qed

lemma indexForBit_mk: "indexForBit b (mk d ws) = (if canHold b (mk d ws) then Some (b div WordSize - d) else None)"
  by (simp add: indexForBit_def div_WordSize)

lemma cbv_test_mk: "cbv_test b (mk d ws) \<longleftrightarrow> canHold b (mk d ws) \<and> bit (ws ! (b div WordSize - d)) (b mod WordSize)"
  by (auto simp: cbv_test_def canHold_def bitMask_AND div_WordSize)

lemma cbv_test_bits:
  assumes "cbv_inv v"
  shows "cbv_test b v \<longleftrightarrow> b \<in> bits v"
  using assms by (elim cbv_inv_cases) (auto simp: cbv_test_mk canHold_mk bits_def wordAt_mk)

lemma bits_less:
  assumes "cbv_inv v" "b \<in> bits v"
  shows "b < 2 ^ 32"
proof -
  have "cbv_test b v" using assms by (simp add: cbv_test_bits)
  then show ?thesis using assms(1) by (auto simp: cbv_test_def cbv_inv_def split: if_splits)
qed

section \<open>Growth\<close>

lemma extendBackward_mk:
  "extendBackward b (mk d ws) =
     (if d \<le> b div WordSize then mk d ws else mk (b div WordSize) (replicate (d - b div WordSize) 0 @ ws))"
  by (simp add: extendBackward_def Let_def diff_mult_distrib[symmetric])

lemma block_less: "b < 2 ^ 32 \<Longrightarrow> b div WordSize < 2 ^ 26"
  by (simp add: WordSize_def)

lemma extendForward_mk:
  assumes "b < 2 ^ 32"
  shows "extendForward b (mk d ws) =
     mk d (if d \<le> b div WordSize then ws @ replicate (Suc (b div WordSize) - (d + length ws)) 0 else ws)"
proof -
  have "(b div WordSize * WordSize - length ws * WordSize - d * WordSize) div WordSize = b div WordSize - length ws - d"
    by (simp add: diff_mult_distrib[symmetric])
  moreover have "1 + (b div WordSize - length ws - d) < 2 ^ 32" using block_less[OF assms] by simp
  ultimately show ?thesis
    by (auto simp: extendForward_def canHold_mk div_WordSize Let_def Suc_diff_le)
qed

lemma wordAt_back:
  assumes "e \<le> d"
  shows "wordAt (mk e (replicate (d - e) 0 @ ws)) k = wordAt (mk d ws) k"
  using assms by (auto simp: wordAt_mk nth_append)

lemma wordAt_front: "wordAt (mk d (ws @ replicate n 0)) k = wordAt (mk d ws) k"
  by (auto simp: wordAt_mk nth_append)

lemma extendTo_correct:
  assumes "cbv_inv v" "b < 2 ^ 32"
  obtains d ws where "extendTo b v = mk d ws" "cbv_inv (mk d ws)" "\<forall>k. wordAt (mk d ws) k = wordAt v k"
    "canHold b (mk d ws)"
proof -
  from assms(1) obtain d ws where v: "v = mk d ws" "d + length ws \<le> 2 ^ 26" "ws = [] \<longrightarrow> d = 0" by (rule cbv_inv_cases)
  note bl = block_less[OF assms(2)]
  consider "ws = []" | "ws \<noteq> []" "b div WordSize < d" | "ws \<noteq> []" "d + length ws \<le> b div WordSize" | "canHold b (mk d ws)"
    unfolding canHold_mk by linarith
  then show ?thesis
  proof cases
    case 1
    then have "extendTo b v = mk (b div WordSize) [0]" using v by (simp add: extendTo_def)
    then show ?thesis using bl v 1 by (intro that) (auto simp: cbv_inv_mk wordAt_def canHold_mk)
  next
    case 2
    then have "extendTo b v = mk (b div WordSize) (replicate (d - b div WordSize) 0 @ ws)"
      using v by (simp add: extendTo_def div_WordSize extendBackward_mk)
    then show ?thesis using v 2 by (intro that) (auto simp: cbv_inv_mk wordAt_back canHold_mk)
  next
    case 3
    have "d * WordSize + length ws * WordSize = (d + length ws) * WordSize" by (simp add: algebra_simps)
    then have "extendTo b v = mk d (ws @ replicate (Suc (b div WordSize) - (d + length ws)) 0)"
      using v 3 by (simp add: extendTo_def div_WordSize extendForward_mk[OF assms(2)])
    then show ?thesis using v 3 bl by (intro that) (auto simp: cbv_inv_mk wordAt_front canHold_mk)
  next
    case 4
    have "d * WordSize + length ws * WordSize = (d + length ws) * WordSize" by (simp add: algebra_simps)
    then have "extendTo b v = v" using v 4 by (auto simp: extendTo_def div_WordSize canHold_mk)
    then show ?thesis using v 4 by (intro that[of d ws]) (auto simp: cbv_inv_mk)
  qed
qed

section \<open>Single bits\<close>

lemma wordAt_update:
  assumes "canHold b (mk d ws)"
  shows "wordAt (mk d (ws[b div WordSize - d := w])) k = (if k = b div WordSize then w else wordAt (mk d ws) k)"
  using assms by (auto simp: wordAt_mk canHold_mk nth_list_update)

lemma cbv_set_correct:
  assumes "cbv_inv v" "b < 2 ^ 32"
  obtains v' where "cbv_set b v = Some v'" "cbv_inv v'" "bits v' = insert b (bits v)"
proof -
  from assms obtain d ws where e: "extendTo b v = mk d ws" "cbv_inv (mk d ws)" "\<forall>k. wordAt (mk d ws) k = wordAt v k"
    "canHold b (mk d ws)" by (rule extendTo_correct)
  let ?w = "ws ! (b div WordSize - d) OR bitMask b"
  let ?v = "mk d (ws[b div WordSize - d := ?w])"
  have i: "b div WordSize - d < length ws" using e(4) by (auto simp: canHold_mk)
  have "cbv_set b v = Some ?v" using i by (simp add: cbv_set_def e(1) updateWord_def div_WordSize)
  moreover have "cbv_inv ?v" using e(2) by (simp add: cbv_inv_mk)
  moreover have "ws ! (b div WordSize - d) = wordAt v (b div WordSize)"
    using e(3)[rule_format, of "b div WordSize"] e(4) by (auto simp: wordAt_mk canHold_mk)
  then have "wordAt ?v k = (if k = b div WordSize then wordAt v k OR bitMask b else wordAt v k)" for k
    using wordAt_update[OF e(4)] e(3) by simp
  then have "bits ?v = insert b (bits v)"
    by (auto simp: bits_def bit_or_iff bit_bitMask) (metis div_mult_mod_eq)+
  ultimately show ?thesis by (rule that)
qed

lemma cbv_reset_correct:
  assumes "cbv_inv v"
  obtains v' where "cbv_reset b v = Some v'" "cbv_inv v'" "bits v' = bits v - {b}"
proof -
  from assms obtain d ws where v: "v = mk d ws" "d + length ws \<le> 2 ^ 26" "ws = [] \<longrightarrow> d = 0" by (rule cbv_inv_cases)
  show ?thesis
  proof (cases "canHold b v")
    case False
    then have "cbv_reset b v = Some v" by (auto simp: cbv_reset_def canHold_def)
    moreover have "b \<notin> bits v" using False v by (auto simp: bits_def wordAt_mk canHold_mk)
    ultimately show ?thesis using assms that by simp
  next
    case True
    let ?w = "ws ! (b div WordSize - d) AND NOT (bitMask b)"
    let ?v = "mk d (ws[b div WordSize - d := ?w])"
    have i: "b div WordSize - d < length ws" using True v by (auto simp: canHold_mk)
    have "\<not> (b < offset v \<or> offset v + length (words v) * WordSize \<le> b)" using True by (auto simp: canHold_def)
    then have "cbv_reset b v = Some ?v" using i by (simp add: cbv_reset_def v(1) updateWord_def div_WordSize)
    moreover have "cbv_inv ?v" using v by (simp add: cbv_inv_mk)
    moreover have "ws ! (b div WordSize - d) = wordAt v (b div WordSize)"
      using True v by (auto simp: wordAt_mk canHold_mk)
    then have "wordAt ?v k = (if k = b div WordSize then wordAt v k AND NOT (bitMask b) else wordAt v k)" for k
      using wordAt_update[of b d ws] True v by simp
    then have "bits ?v = bits v - {b}"
      by (auto simp: bits_def bit_and_iff bit_not_iff bit_bitMask WordSize_def) (metis div_mult_mod_eq)+
    ultimately show ?thesis by (rule that)
  qed
qed


section \<open>The loops\<close>

lemma xor_0_iff: "(a XOR b = (0 :: 64 word)) = (a = b)"
  by (auto simp: bit_eq_iff bit_xor_iff)

lemma combineLoop_correct:
  "\<exists>ws' ti. combineLoop f rws i j ws c = (ws', ti, c \<or> ws' \<noteq> ws) \<and> length ws' = length ws
     \<and> ti = max i (min (length ws) (i + (length rws - j)))
     \<and> (\<forall>k. ws' ! k = (if i \<le> k \<and> k < ti then f (ws ! k) (rws ! (j + k - i)) else ws ! k))"
proof (induction f rws i j ws c rule: combineLoop.induct)
  case (1 f rws i j ws c)
  show ?case
  proof (cases "i < length ws \<and> j < length rws")
    case False
    then have "combineLoop f rws i j ws c = (ws, i, c)" by (subst combineLoop.simps) argo
    moreover have "i = max i (min (length ws) (i + (length rws - j)))" using False by auto
    ultimately show ?thesis by auto
  next
    case True
    let ?w = "f (ws ! i) (rws ! j)" and ?ws = "ws[i := f (ws ! i) (rws ! j)]"
    from 1[OF True refl] obtain ws' ti where r:
      "combineLoop f rws (Suc i) (Suc j) ?ws (c \<or> ws ! i \<noteq> ?w) = (ws', ti, (c \<or> ws ! i \<noteq> ?w) \<or> ws' \<noteq> ?ws)"
      "length ws' = length ws" "ti = max (Suc i) (min (length ws) (Suc i + (length rws - Suc j)))"
      "\<forall>k. ws' ! k = (if Suc i \<le> k \<and> k < ti then f (?ws ! k) (rws ! (Suc j + k - Suc i)) else ?ws ! k)"
      by auto
    have ti: "ti = max i (min (length ws) (i + (length rws - j)))" "i < ti" using True r(3) by auto
    have k: "ws' ! k = (if i \<le> k \<and> k < ti then f (ws ! k) (rws ! (j + k - i)) else ws ! k)" for k
      using r(4) True ti(2) by (auto simp: nth_list_update Suc_le_eq)
    have "ws' ! i = ?w" using k ti(2) by simp
    then have "(c \<or> ws ! i \<noteq> ?w) \<or> ws' \<noteq> ?ws \<longleftrightarrow> c \<or> ws' \<noteq> ws"
      by (metis list_update_id)
    moreover have "combineLoop f rws i j ws c = combineLoop f rws (Suc i) (Suc j) ?ws (c \<or> ws ! i \<noteq> ?w)"
      using True by (simp add: combineLoop.simps[of f rws i j ws c] Let_def)
    ultimately show ?thesis using r(1,2) ti(1) k by auto
  qed
qed

lemma update_eq_iff:
  assumes "i < length ws" "length ws' = length ws" "ws' ! i = ws ! i"
  shows "ws'[i := w] = ws \<longleftrightarrow> ws' = ws \<and> w = ws ! i"
proof
  assume H: "ws'[i := w] = ws"
  have "i < length ws'" using assms(1,2) by simp
  then have "ws'[i := w] ! i = w" by (rule nth_list_update_eq)
  then have w: "w = ws ! i" unfolding H by (rule sym)
  moreover have "ws' = ws" using H list_update_id[of ws' i] unfolding w assms(3) by (rule trans[OF sym, rotated])
  ultimately show "ws' = ws \<and> w = ws ! i" by blast
next
  assume "ws' = ws \<and> w = ws ! i"
  then show "ws'[i := w] = ws" by (simp only: list_update_id)
qed

lemma clearWords_correct:
  assumes "j \<le> length ws"
  shows "\<exists>ws'. clearWords i j ws c = (ws', c \<or> ws' \<noteq> ws) \<and> length ws' = length ws
     \<and> (\<forall>k. ws' ! k = (if i \<le> k \<and> k < j then 0 else ws ! k))"
  using assms
proof (induction j)
  case 0
  then show ?case by (simp add: clearWords_def)
next
  case (Suc j)
  then obtain ws' where r: "clearWords i j ws c = (ws', c \<or> ws' \<noteq> ws)" "length ws' = length ws"
    "\<forall>k. ws' ! k = (if i \<le> k \<and> k < j then 0 else ws ! k)" by auto
  show ?case
  proof (cases "i \<le> j")
    case True
    then have "clearWords i (Suc j) ws c = (ws'[j := 0], (c \<or> ws' \<noteq> ws) \<or> ws' ! j \<noteq> 0)"
      using r(1) by (simp add: clearWords_def)
    moreover have "(c \<or> ws' \<noteq> ws) \<or> ws' ! j \<noteq> 0 \<longleftrightarrow> c \<or> ws'[j := 0] \<noteq> ws"
    proof -
      have "ws' ! j = ws ! j" using r(3) by simp
      then have "ws'[j := 0] = ws \<longleftrightarrow> ws' = ws \<and> ws' ! j = 0"
        using update_eq_iff[of j ws ws' 0] Suc.prems r(2) by auto
      then show ?thesis by blast
    qed
    moreover have "\<forall>k. ws'[j := 0] ! k = (if i \<le> k \<and> k < Suc j then 0 else ws ! k)"
      using r(2,3) Suc.prems True by (auto simp: nth_list_update less_Suc_eq)
    ultimately show ?thesis using r(2) by auto
  next
    case False
    then have "clearWords i (Suc j) ws c = clearWords i j ws c" by (simp add: clearWords_def)
    then show ?thesis using r False by auto
  qed
qed

lemma orLoop_correct:
  fixes ws rws :: "64 word list"
  assumes "n + i \<le> length ws" "n \<le> length rws"
  shows "\<exists>ws' ch. fold (\<lambda>i' (ws, changed).
         let oldWord = ws ! (i + i'); newWord = oldWord OR rws ! i'
         in (ws[i + i' := newWord], changed OR (oldWord XOR newWord))) [0..<n] (ws, 0) = (ws', ch)
     \<and> length ws' = length ws \<and> (ch \<noteq> 0 \<longleftrightarrow> ws' \<noteq> ws)
     \<and> (\<forall>k. ws' ! k = (if i \<le> k \<and> k < i + n then ws ! k OR rws ! (k - i) else ws ! k))"
  using assms
proof (induction n)
  case 0
  then show ?case by auto
next
  case (Suc n)
  then obtain ws' ch where r: "fold (\<lambda>i' (ws, changed).
         let oldWord = ws ! (i + i'); newWord = oldWord OR rws ! i'
         in (ws[i + i' := newWord], changed OR (oldWord XOR newWord))) [0..<n] (ws, 0) = (ws', ch)"
    "length ws' = length ws" "ch \<noteq> 0 \<longleftrightarrow> ws' \<noteq> ws"
    "\<forall>k. ws' ! k = (if i \<le> k \<and> k < i + n then ws ! k OR rws ! (k - i) else ws ! k)" by auto
  let ?o = "ws' ! (i + n)" let ?w = "?o OR rws ! n"
  have same: "?o = ws ! (i + n)" using r(4) by simp
  have "ch OR (?o XOR ?w) \<noteq> 0 \<longleftrightarrow> ch \<noteq> 0 \<or> ?o \<noteq> ?w"
    by (simp add: or_eq_0_iff xor_0_iff)
  moreover have "ws'[i + n := ?w] = ws \<longleftrightarrow> ws' = ws \<and> ?o = ?w"
    using update_eq_iff[of "i + n" ws ws' ?w] Suc.prems(1) r(2) same by (simp add: eq_commute)
  ultimately have "ch OR (?o XOR ?w) \<noteq> 0 \<longleftrightarrow> ws'[i + n := ?w] \<noteq> ws" using r(3) by blast
  moreover have "\<forall>k. ws'[i + n := ?w] ! k = (if i \<le> k \<and> k < i + Suc n then ws ! k OR rws ! (k - i) else ws ! k)"
    using r(2,4) Suc.prems by (auto simp: nth_list_update less_Suc_eq)
  ultimately show ?case using r(1,2) by (auto simp: Let_def)
qed


section \<open>Binary operations\<close>

lemma finalBit_mk:
  assumes "d + length ws \<le> 2 ^ 26" "ws \<noteq> []"
  shows "finalBit (mk d ws) = (d + length ws) * WordSize - 1"
proof -
  define n where "n = (d + length ws) * WordSize"
  have "n \<le> 2 ^ 32" "0 < n" using assms by (auto simp: n_def WordSize_def)
  then have "u64 (n + (2 ^ 64 - 1)) = n - 1" by (simp add: u64_def mod_if)
  moreover have "d * WordSize + length ws * WordSize = n" by (simp add: n_def algebra_simps)
  ultimately show ?thesis using \<open>n \<le> 2 ^ 32\<close> \<open>0 < n\<close> by (simp add: finalBit_def n_def[symmetric])
qed

lemma finalBit_div:
  assumes "d + length ws \<le> 2 ^ 26" "ws \<noteq> []"
  shows "finalBit (mk d ws) div WordSize = d + length ws - 1" "finalBit (mk d ws) < 2 ^ 32"
proof -
  have "(d + length ws) * WordSize - 1 = (d + length ws - 1) * WordSize + 63"
    using assms(2) by (cases ws) (auto simp: WordSize_def)
  then show "finalBit (mk d ws) div WordSize = d + length ws - 1"
    using finalBit_mk[OF assms] by (simp add: WordSize_def)
  show "finalBit (mk d ws) < 2 ^ 32" by (simp only: finalBit_def u32_bound)
qed

text \<open>What a vector holds after words have been changed.\<close>

lemma cbv_same: "ws' = ws \<longleftrightarrow> bits (mk d ws') = bits (mk d ws)" if "length ws' = length ws"
proof
  assume "bits (mk d ws') = bits (mk d ws)"
  then have "wordAt (mk d ws') (d + i) = wordAt (mk d ws) (d + i)" for i by (simp add: bits_wordAt)
  then have "ws' ! i = ws ! i" if "i < length ws" for i
    using that \<open>length ws' = length ws\<close> by (auto simp: wordAt_mk) (metis add_diff_cancel_left')
  then show "ws' = ws" using that by (simp add: list_eq_iff_nth_eq)
qed simp

lemma cbv_or_correct:
  assumes "cbv_inv v" "cbv_inv r"
  obtains v' c where "cbv_or r v = Some (c, v')" "cbv_inv v'" "bits v' = bits v \<union> bits r"
    "c \<longleftrightarrow> (if words v = [] then words r \<noteq> [] else bits v' \<noteq> bits v)"
proof -
  from assms(1) obtain d ws where v: "v = mk d ws" "d + length ws \<le> 2 ^ 26" "ws = [] \<longrightarrow> d = 0" by (rule cbv_inv_cases)
  from assms(2) obtain e rs where r: "r = mk e rs" "e + length rs \<le> 2 ^ 26" "rs = [] \<longrightarrow> e = 0" by (rule cbv_inv_cases)
  have none: "bits x = {}" if "words x = []" for x using that by (auto simp: bits_def wordAt_def)
  consider "ws = []" | "ws \<noteq> []" "rs = []" | "ws \<noteq> []" "rs \<noteq> []" by blast
  then show ?thesis
  proof cases
    case 1
    then have e: "words v = []" "words r = rs" by (simp_all add: v(1) r(1))
    then have "cbv_or r v = Some (rs \<noteq> [], r)" by (simp add: cbv_or_def)
    then show ?thesis using assms(2) none[OF e(1)] e by (intro that[of "rs \<noteq> []" r]) simp_all
  next
    case 2
    then have e: "words v \<noteq> []" "words r = []" by (simp_all add: v(1) r(1))
    then have "cbv_or r v = Some (False, v)" by (simp add: cbv_or_def)
    then show ?thesis using assms(1) none[OF e(2)] e by (intro that[of False v]) simp_all
  next
    case 3
    note fv = finalBit_mk[OF v(2) 3(1)] and fr = finalBit_mk[OF r(2) 3(2)] finalBit_div[OF r(2) 3(2)]
    have "finalBit v < finalBit r \<longleftrightarrow> d + length ws < e + length rs"
      using fv fr(1) 3 by (auto simp: v(1) r(1) WordSize_def)
    define ws1 where "ws1 = (if d + length ws < e + length rs \<and> d \<le> e + length rs - 1
      then ws @ replicate (Suc (e + length rs - 1) - (d + length ws)) 0 else ws)"
    have v1: "(if finalBit v < finalBit r then extendForward (finalBit r) v else v) = mk d ws1"
      using \<open>finalBit v < finalBit r \<longleftrightarrow> _\<close> extendForward_mk[OF fr(3), of d ws] fr(2)
      by (simp add: v(1) r(1) ws1_def)
    define ws2 where "ws2 = (if e < d then replicate (d - e) 0 @ ws1 else ws1)"
    have v2: "(if offset r < offset (mk d ws1) then extendBackward (offset r) (mk d ws1) else mk d ws1) = mk (min d e) ws2"
      by (simp add: r(1) extendBackward_mk ws2_def)
    have len: "min d e + length ws2 = max (d + length ws) (e + length rs)"
      using 3 by (auto simp: ws1_def ws2_def)
    have at: "wordAt (mk (min d e) ws2) k = wordAt v k" for k
      by (auto simp: ws2_def ws1_def v(1) wordAt_back wordAt_front)
    have ix: "indexForBit (offset r) (mk (min d e) ws2) = Some (e - min d e)"
      using len 3 by (auto simp: indexForBit_mk canHold_mk r(1) less_max_iff_disj)
    have room: "length rs + (e - min d e) \<le> length ws2" using len by linarith
    from orLoop_correct[OF room, of rs] obtain ws' ch where l: "orLoop (e - min d e) rs ws2 = (ws', ch)"
      "length ws' = length ws2" "ch \<noteq> 0 \<longleftrightarrow> ws' \<noteq> ws2"
      "\<forall>k. ws' ! k = (if e - min d e \<le> k \<and> k < e - min d e + length rs then ws2 ! k OR rs ! (k - (e - min d e)) else ws2 ! k)"
      by (auto simp: orLoop_def)
    have "cbv_or r v = Some (ch \<noteq> 0, mk (min d e) ws')"
    proof -
      have w: "words v \<noteq> []" "words r \<noteq> []" "words r = rs" using 3 by (simp_all add: v(1) r(1))
      have "\<not> length (words (mk (min d e) ws2)) < e - min d e + length rs" using room by simp
      then show ?thesis
        using w(1,2) unfolding cbv_or_def v1 Let_def[of "mk d ws1"] v2 Let_def[of "mk (min d e) ws2"] ix w(3)
        by (simp add: l(1))
    qed
    moreover have "cbv_inv (mk (min d e) ws')" using len l(2) v(2) r(2) 3 room by (cases "ws2 = []") (auto simp: cbv_inv_mk)
    moreover have "wordAt (mk (min d e) ws') k = wordAt v k OR wordAt r k" for k
    proof -
      have "wordAt (mk (min d e) ws') k = wordAt (mk (min d e) ws2) k OR wordAt r k"
        using l(2,4) len by (auto simp: wordAt_mk r(1))
      then show ?thesis by (simp only: at)
    qed
    then have "bits (mk (min d e) ws') = bits v \<union> bits r" by (auto simp: bits_def bit_or_iff)
    moreover have "ch \<noteq> 0 \<longleftrightarrow> bits (mk (min d e) ws') \<noteq> bits v"
      using l(2,3) cbv_same[of ws' ws2 "min d e"] bits_eqI[of "mk (min d e) ws2" v] at by simp
    ultimately show ?thesis using that 3 by (simp add: v(1))
  qed
qed

lemma overlap_mk: "canHold (max (d * WordSize) (e * WordSize)) (mk d ws) \<longleftrightarrow> max d e < d + length ws"
  by (simp add: canHold_mk max_def)

lemma cbv_and_correct:
  assumes "cbv_inv v" "cbv_inv r"
  obtains v' where "cbv_and r v = Some (bits v' \<noteq> bits v, v')" "cbv_inv v'" "bits v' = bits v \<inter> bits r"
proof -
  note result = that
  from assms(1) obtain d ws where v: "v = mk d ws" "d + length ws \<le> 2 ^ 26" "ws = [] \<longrightarrow> d = 0" by (rule cbv_inv_cases)
  from assms(2) obtain e rs where r: "r = mk e rs" "e + length rs \<le> 2 ^ 26" "rs = [] \<longrightarrow> e = 0" by (rule cbv_inv_cases)
  have inv: "cbv_inv (mk d ws')" if "length ws' = length ws" for ws'
    using that v by (auto simp: cbv_inv_mk)
  have fin: thesis if "cbv_and r v = Some (ws' \<noteq> ws, mk d ws')" "length ws' = length ws"
      "\<And>k. wordAt (mk d ws') k = wordAt v k AND wordAt r k" for ws'
    using that(1,2) cbv_same[OF that(2), of d] inv[OF that(2)] that(3)
    by (intro result[of "mk d ws'"]) (auto simp: v(1) bits_def bit_and_iff)
  show ?thesis
  proof (cases "max d e < d + length ws \<and> max d e < e + length rs")
    case False
    then have no: "\<not> canHold (max (offset v) (offset r)) v \<or> \<not> canHold (max (offset v) (offset r)) r"
      using overlap_mk[of d e ws] overlap_mk[of e d rs] by (simp add: v(1) r(1) max.commute)
    from clearWords_correct[of "length ws" ws 0 False] obtain ws' where c:
      "clearWords 0 (length ws) ws False = (ws', ws' \<noteq> ws)" "length ws' = length ws"
      "\<forall>k. ws' ! k = (if 0 \<le> k \<and> k < length ws then 0 else ws ! k)" by auto
    have "cbv_and r v = Some (ws' \<noteq> ws, mk d ws')"
      using no c(1) by (simp add: cbv_and_def Let_def) (simp add: v(1))
    moreover have "wordAt (mk d ws') k = wordAt v k AND wordAt r k" for k
      using False c(2,3) by (auto simp: wordAt_mk v(1) r(1))
    ultimately show ?thesis using fin c(2) by blast
  next
    case True
    then have yes: "canHold (max (offset v) (offset r)) v" "canHold (max (offset v) (offset r)) r"
      using overlap_mk[of d e ws] overlap_mk[of e d rs] by (simp_all add: v(1) r(1) max.commute)
    have ix: "indexForBit (max (offset v) (offset r)) v = Some (max d e - d)"
        "indexForBit (max (offset v) (offset r)) r = Some (max d e - e)"
      using yes by (simp_all add: v(1) r(1) indexForBit_mk max_def split: if_splits)
    let ?i = "max d e - d" and ?j = "max d e - e"
    have "?i \<le> length ws" using True by linarith
    from clearWords_correct[OF this, of 0 False] obtain ws1 where c1:
      "clearWords 0 ?i ws False = (ws1, ws1 \<noteq> ws)" "length ws1 = length ws"
      "\<forall>k. ws1 ! k = (if 0 \<le> k \<and> k < ?i then 0 else ws ! k)" by auto
    from combineLoop_correct[of "(AND)" rs ?i ?j ws1 "ws1 \<noteq> ws"] obtain ws2 ti where c2:
      "combineLoop (AND) rs ?i ?j ws1 (ws1 \<noteq> ws) = (ws2, ti, ws1 \<noteq> ws \<or> ws2 \<noteq> ws1)" "length ws2 = length ws"
      "ti = max ?i (min (length ws) (?i + (length rs - ?j)))"
      "\<forall>k. ws2 ! k = (if ?i \<le> k \<and> k < ti then ws1 ! k AND rs ! (?j + k - ?i) else ws1 ! k)"
      unfolding c1(2) by blast
    from clearWords_correct[of "length ws2" ws2 ti "ws1 \<noteq> ws \<or> ws2 \<noteq> ws1"] obtain ws' where c3:
      "clearWords ti (length ws2) ws2 (ws1 \<noteq> ws \<or> ws2 \<noteq> ws1) = (ws', (ws1 \<noteq> ws \<or> ws2 \<noteq> ws1) \<or> ws' \<noteq> ws2)"
      "length ws' = length ws" "\<forall>k. ws' ! k = (if ti \<le> k \<and> k < length ws then 0 else ws2 ! k)"
      unfolding c2(2) by (auto simp: c2(2))
    have ti: "ti = min (length ws) (e + length rs - d)" using True c2(3) by linarith
    have nth: "ws' ! k = (if max d e \<le> d + k \<and> d + k < e + length rs then ws ! k AND rs ! (d + k - e) else 0)"
      if "k < length ws" for k
      using that c1(3) c2(2,4) c3(3) ti True by (auto simp: not_le not_less add.commute[of k d])
    have "cbv_and r v = Some ((ws1 \<noteq> ws \<or> ws2 \<noteq> ws1) \<or> ws' \<noteq> ws2, mk d ws')"
      using yes ix c1(1) c2(1) c3(1) by (simp add: cbv_and_def Let_def v(1) r(1))
    moreover have "(ws1 \<noteq> ws \<or> ws2 \<noteq> ws1) \<or> ws' \<noteq> ws2 \<longleftrightarrow> ws' \<noteq> ws"
    proof -
      have "ws1 = ws \<and> ws2 = ws1 \<and> ws' = ws2" if "ws' = ws"
      proof -
        have eq: "ws' ! k = ws ! k" for k using that by simp
        have "ws1 ! k = ws ! k" for k using eq[of k] c1(3) c2(4) c3(3) ti True by (auto split: if_splits)
        then have "ws1 = ws" using c1(2) by (simp add: list_eq_iff_nth_eq)
        moreover have "ws2 ! k = ws ! k" for k using eq[of k] calculation c2(4) c3(3) by (auto split: if_splits)
        then have "ws2 = ws" using c2(2) by (simp add: list_eq_iff_nth_eq)
        ultimately show ?thesis using that by simp
      qed
      then show ?thesis by blast
    qed
    moreover have "wordAt (mk d ws') k = wordAt v k AND wordAt r k" for k
      using nth[of "k - d"] c3(2) by (auto simp: wordAt_mk v(1) r(1))
    ultimately show ?thesis using fin c3(2) by simp
  qed
qed


lemma cbv_minus_correct:
  assumes "cbv_inv v" "cbv_inv r"
  obtains v' where "cbv_minus r v = Some (bits v' \<noteq> bits v, v')" "cbv_inv v'" "bits v' = bits v - bits r"
proof -
  from assms(1) obtain d ws where v: "v = mk d ws" "d + length ws \<le> 2 ^ 26" "ws = [] \<longrightarrow> d = 0" by (rule cbv_inv_cases)
  from assms(2) obtain e rs where r: "r = mk e rs" "e + length rs \<le> 2 ^ 26" "rs = [] \<longrightarrow> e = 0" by (rule cbv_inv_cases)
  note overlap = overlap_mk[of d e ws] overlap_mk[of e d rs]
  show ?thesis
  proof (cases "max d e < d + length ws \<and> max d e < e + length rs")
    case False
    then have "\<not> canHold (max (offset v) (offset r)) v \<or> \<not> canHold (max (offset v) (offset r)) r"
      using overlap by (simp add: v(1) r(1) max.commute)
    then have "cbv_minus r v = Some (False, v)" by (auto simp: cbv_minus_def)
    moreover have "bits v = bits v - bits r"
      using False by (auto simp: bits_def wordAt_mk v(1) r(1) split: if_splits)
    ultimately show ?thesis using assms(1) by (intro that[of v]) simp_all
  next
    case True
    then have yes: "canHold (max (offset v) (offset r)) v" "canHold (max (offset v) (offset r)) r"
      using overlap by (simp_all add: v(1) r(1) max.commute)
    have ix: "indexForBit (max (offset v) (offset r)) v = Some (max d e - d)"
        "indexForBit (max (offset v) (offset r)) r = Some (max d e - e)"
      using yes by (simp_all add: v(1) r(1) indexForBit_mk max_def split: if_splits)
    let ?f = "\<lambda>a b :: 64 word. a AND NOT b" and ?i = "max d e - d" and ?j = "max d e - e"
    from combineLoop_correct[of ?f rs ?i ?j ws False] obtain ws' ti where c:
      "combineLoop ?f rs ?i ?j ws False = (ws', ti, False \<or> ws' \<noteq> ws)" "length ws' = length ws"
      "ti = max ?i (min (length ws) (?i + (length rs - ?j)))"
      "\<forall>k. ws' ! k = (if ?i \<le> k \<and> k < ti then ws ! k AND NOT (rs ! (?j + k - ?i)) else ws ! k)"
      by blast
    have ti: "ti = min (length ws) (e + length rs - d)" using True c(3) by linarith
    have "cbv_minus r v = Some (ws' \<noteq> ws, mk d ws')"
      using yes ix c(1) by (simp add: cbv_minus_def Let_def v(1) r(1))
    moreover have inv: "cbv_inv (mk d ws')" using c(2) v by (auto simp: cbv_inv_mk)
    moreover have "wordAt (mk d ws') k = wordAt v k AND NOT (wordAt r k)" for k
    proof (cases "d \<le> k")
      case True
      then obtain n where k: "k = d + n" by (auto simp: le_iff_add)
      show ?thesis using c(2,4) ti True by (auto simp: wordAt_mk v(1) r(1) k not_le not_less add.commute[of n d])
    qed (simp add: wordAt_mk v(1))
    then have "bits (mk d ws') = bits v - bits r"
      by (auto simp: bits_def bit_and_iff bit_not_iff WordSize_def)
    moreover have "ws' \<noteq> ws \<longleftrightarrow> bits (mk d ws') \<noteq> bits v" using cbv_same[OF c(2), of d] by (simp add: v(1))
    ultimately show ?thesis by (intro that[of "mk d ws'"]) simp_all
  qed
qed

section \<open>Comparisons\<close>

lemma intersectLoop_iff:
  "intersectLoop ews lws e l \<longleftrightarrow> (\<exists>n. e + n < length ews \<and> l + n < length lws \<and> ews ! (e + n) AND lws ! (l + n) \<noteq> 0)"
proof (induction ews lws e l rule: intersectLoop.induct)
  case (1 ews lws e l)
  have "(\<exists>n. P n) \<longleftrightarrow> P 0 \<or> (\<exists>n. P (Suc n))" for P :: "nat \<Rightarrow> bool" by (metis not0_implies_Suc)
  note split = this[of "\<lambda>n. e + n < length ews \<and> l + n < length lws \<and> ews ! (e + n) AND lws ! (l + n) \<noteq> 0"]
  show ?case
  proof (cases "e < length ews \<and> l < length lws")
    case True
    then show ?thesis using 1 split by (subst intersectLoop.simps) auto
  next
    case False
    then show ?thesis by (subst intersectLoop.simps) auto
  qed
qed

lemma word_AND_bit: "w AND x \<noteq> 0 \<longleftrightarrow> (\<exists>n < WordSize. bit w n \<and> bit x n)" for w x :: "64 word"
proof -
  have "w AND x = 0 \<longleftrightarrow> (\<forall>n < WordSize. \<not> bit (w AND x) n)"
    by (auto simp: bit_eq_iff WordSize_def)
  then show ?thesis by (auto simp: bit_and_iff)
qed

lemma bits_meet: "bits v \<inter> bits r \<noteq> {} \<longleftrightarrow> (\<exists>k. wordAt v k AND wordAt r k \<noteq> 0)"
proof
  assume "\<exists>k. wordAt v k AND wordAt r k \<noteq> 0"
  then obtain k n where "n < WordSize" "bit (wordAt v k) n" "bit (wordAt r k) n" by (auto simp: word_AND_bit)
  then have "k * WordSize + n \<in> bits v \<inter> bits r" by (simp add: bits_def)
  then show "bits v \<inter> bits r \<noteq> {}" by blast
next
  assume "bits v \<inter> bits r \<noteq> {}"
  then obtain b where "bit (wordAt v (b div WordSize)) (b mod WordSize)" "bit (wordAt r (b div WordSize)) (b mod WordSize)"
    by (auto simp: bits_def)
  moreover have "b mod WordSize < WordSize" by simp
  ultimately show "\<exists>k. wordAt v k AND wordAt r k \<noteq> 0" unfolding word_AND_bit by blast
qed

lemma cbv_empty_bits: "cbv_empty v \<longleftrightarrow> bits v = {}"
proof -
  have "cbv_empty v \<longleftrightarrow> (\<forall>k. wordAt v k = 0)"
  proof
    assume H: "\<forall>k. wordAt v k = 0"
    have "words v ! i = 0" if "i < length (words v)" for i
      using H[rule_format, of "offset v div WordSize + i"] that by (simp add: wordAt_def)
    then show "cbv_empty v" by (simp add: cbv_empty_def list_all_length)
  qed (auto simp: cbv_empty_def wordAt_def list_all_length)
  also have "\<dots> \<longleftrightarrow> bits v \<inter> bits v = {}" using bits_meet[of v v] by auto
  finally show ?thesis by simp
qed

lemma intersect_words:
  assumes "d \<le> e"
  shows "intersectLoop ws rs (min (e - d) (length ws)) 0 \<longleftrightarrow> bits (mk d ws) \<inter> bits (mk e rs) \<noteq> {}"
proof -
  have "intersectLoop ws rs (min (e - d) (length ws)) 0 \<longleftrightarrow> (\<exists>n. e - d + n < length ws \<and> n < length rs \<and> ws ! (e - d + n) AND rs ! n \<noteq> 0)"
    by (auto simp: intersectLoop_iff min_def)
  also have "\<dots> \<longleftrightarrow> (\<exists>k. wordAt (mk d ws) k AND wordAt (mk e rs) k \<noteq> 0)"
  proof
    assume "\<exists>n. e - d + n < length ws \<and> n < length rs \<and> ws ! (e - d + n) AND rs ! n \<noteq> 0"
    then obtain n where "e - d + n < length ws" "n < length rs" "ws ! (e - d + n) AND rs ! n \<noteq> 0" by blast
    then show "\<exists>k. wordAt (mk d ws) k AND wordAt (mk e rs) k \<noteq> 0"
      using assms by (intro exI[of _ "e + n"]) (auto simp: wordAt_mk)
  next
    assume "\<exists>k. wordAt (mk d ws) k AND wordAt (mk e rs) k \<noteq> 0"
    then obtain k where "wordAt (mk d ws) k AND wordAt (mk e rs) k \<noteq> 0" by blast
    then show "\<exists>n. e - d + n < length ws \<and> n < length rs \<and> ws ! (e - d + n) AND rs ! n \<noteq> 0"
      using assms by (intro exI[of _ "k - e"]) (auto simp: wordAt_mk split: if_splits)
  qed
  finally show ?thesis by (simp only: bits_meet)
qed

lemma cbv_intersects_correct:
  assumes "cbv_inv v" "cbv_inv r"
  shows "cbv_intersects v r =
    (if (words v = [] \<or> words r = []) \<and> bits v \<union> bits r \<noteq> {} then None else Some (bits v \<inter> bits r \<noteq> {}))"
proof -
  from assms(1) obtain d ws where v: "v = mk d ws" by (rule cbv_inv_cases)
  from assms(2) obtain e rs where r: "r = mk e rs" by (rule cbv_inv_cases)
  have o: "offset v \<le> offset r \<longleftrightarrow> d \<le> e" by (simp add: v r)
  show ?thesis
  proof (cases "cbv_empty v \<and> cbv_empty r")
    case True
    then show ?thesis by (simp add: cbv_intersects_def cbv_empty_bits)
  next
    case False
    then have ne: "bits v \<union> bits r \<noteq> {}" by (simp add: cbv_empty_bits)
    show ?thesis
    proof (cases "words v = [] \<or> words r = []")
      case True
      then show ?thesis using False ne by (auto simp: cbv_intersects_def)
    next
      case w: False
      show ?thesis
    proof (cases "d \<le> e")
      case True
      then have "cbv_intersects v r = Some (intersectLoop ws rs (min (e - d) (length ws)) 0)"
        using False o w by (auto simp: cbv_intersects_def v r)
      then show ?thesis using intersect_words[OF True, of ws rs] w by (simp add: v r)
    next
      case e: False
      then have "cbv_intersects v r = Some (intersectLoop rs ws (min (d - e) (length rs)) 0)"
        using False o w by (auto simp: cbv_intersects_def v r)
      then show ?thesis using intersect_words[of e d rs ws] e w by (auto simp: v r)
    qed
    qed
  qed
qed


text \<open>The words from the number \<open>i\<close> on.\<close>

definition tailWord :: "nat \<Rightarrow> 64 word list \<Rightarrow> nat \<Rightarrow> nat \<Rightarrow> 64 word" where
  "tailWord d ws i k = (if d + i \<le> k \<and> k < d + length ws then ws ! (k - d) else 0)"

lemma nextSetIndex_correct:
  "(\<forall>k. i \<le> k \<and> k < nextSetIndex ws i \<longrightarrow> k < length ws \<and> ws ! k = 0)
   \<and> (nextSetIndex ws i < length ws \<longrightarrow> ws ! nextSetIndex ws i \<noteq> 0)"
proof (induction ws i rule: nextSetIndex.induct)
  case (1 ws i)
  show ?case
  proof (cases "i < length ws \<and> ws ! i = 0")
    case True
    then have "nextSetIndex ws i = nextSetIndex ws (Suc i)" by (subst nextSetIndex.simps) simp
    then show ?thesis using 1[OF True] True by (metis Suc_leI le_neq_implies_less)
  next
    case False
    then have "nextSetIndex ws i = i" by (subst nextSetIndex.simps) argo
    then show ?thesis using False by auto
  qed
qed

lemma tailWord_next:
  "tailWord d ws (nextSetIndex ws i) = tailWord d ws i"
proof
  fix k
  show "tailWord d ws (nextSetIndex ws i) k = tailWord d ws i k"
  proof (cases "d + i \<le> k \<and> k < d + nextSetIndex ws i")
    case True
    then have "ws ! (k - d) = 0" using nextSetIndex_correct[of i ws] by (metis add.commute le_diff_conv2 less_diff_conv2 le_add1 le_trans)
    then show ?thesis using True by (simp add: tailWord_def)
  next
    case False
    then show ?thesis using nextSetIndex_ge[of i ws] by (auto simp: tailWord_def)
  qed
qed

lemma tailWord_Suc: "i < length ws \<Longrightarrow> tailWord d ws i k = (if k = d + i then ws ! i else tailWord d ws (Suc i) k)"
  by (auto simp: tailWord_def)

lemma tailWord_at: "tailWord d ws (Suc i) (d + i) = 0" "length ws \<le> i \<Longrightarrow> tailWord d ws i k = 0"
    "k < d + i \<Longrightarrow> tailWord d ws i k = 0" "i < length ws \<Longrightarrow> tailWord d ws i (d + i) = ws ! i"
  by (auto simp: tailWord_def)

lemma eqLoop_correct:
  assumes "i < length ws \<longrightarrow> ws ! i \<noteq> 0" "j < length rs \<longrightarrow> rs ! j \<noteq> 0"
  shows "eqLoop (mk d ws) (mk e rs) i j \<longleftrightarrow> tailWord d ws i = tailWord e rs j"
  using assms
proof (induction "mk d ws" "mk e rs" i j rule: eqLoop.induct)
  case (1 i j)
  have step: "eqLoop (mk d ws) (mk e rs) i j =
     (if i < length ws \<and> j < length rs then
        if i * WordSize + d * WordSize \<noteq> j * WordSize + e * WordSize \<or> ws ! i \<noteq> rs ! j then False
        else eqLoop (mk d ws) (mk e rs) (nextSetIndex ws (Suc i)) (nextSetIndex rs (Suc j))
      else length ws \<le> i \<and> length rs \<le> j)"
    by (subst eqLoop.simps) simp
  have pos: "i * WordSize + d * WordSize \<noteq> j * WordSize + e * WordSize \<longleftrightarrow> d + i \<noteq> e + j"
    by (auto simp: WordSize_def)
  show ?case
  proof (cases "i < length ws \<and> j < length rs")
    case inside: True
    then have nz: "ws ! i \<noteq> 0" "rs ! j \<noteq> 0" using "1.prems" by auto
    show ?thesis
    proof (cases "d + i \<noteq> e + j \<or> ws ! i \<noteq> rs ! j")
      case True
      have "tailWord d ws i \<noteq> tailWord e rs j"
      proof
        assume eq: "tailWord d ws i = tailWord e rs j"
        consider "d + i < e + j" | "e + j < d + i" | "d + i = e + j" by linarith
        then show False
        proof cases
          case 1
          then show False using fun_cong[OF eq, of "d + i"] tailWord_at(3,4) inside nz by simp
        next
          case 2
          then show False using fun_cong[OF eq, of "e + j"] tailWord_at(3,4) inside nz by simp
        next
          case 3
          then show False using fun_cong[OF eq, of "d + i"] tailWord_at(4)[of i ws d] tailWord_at(4)[of j rs e] inside True by simp
        qed
      qed
      then show ?thesis using inside True pos by (simp add: step)
    next
      case False
      then have same: "d + i = e + j" "ws ! i = rs ! j" by auto
      have "eqLoop (mk d ws) (mk e rs) i j \<longleftrightarrow> tailWord d ws (Suc i) = tailWord e rs (Suc j)"
        using 1(1) inside same nextSetIndex_correct[of "Suc i" ws] nextSetIndex_correct[of "Suc j" rs]
        by (simp add: step pos tailWord_next)
      also have "\<dots> \<longleftrightarrow> tailWord d ws i = tailWord e rs j"
        using inside same tailWord_at(1)[of d ws i] tailWord_at(1)[of e rs j]
        by (auto simp: fun_eq_iff tailWord_Suc[of i ws] tailWord_Suc[of j rs]) metis
      finally show ?thesis .
    qed
  next
    case False
    then have "eqLoop (mk d ws) (mk e rs) i j \<longleftrightarrow> length ws \<le> i \<and> length rs \<le> j" unfolding step by argo
    also have "\<dots> \<longleftrightarrow> tailWord d ws i = tailWord e rs j"
    proof
      assume "tailWord d ws i = tailWord e rs j"
      then have "tailWord d ws i (d + i) = tailWord e rs j (d + i)" "tailWord d ws i (e + j) = tailWord e rs j (e + j)" by simp_all
      then show "length ws \<le> i \<and> length rs \<le> j"
        using False "1.prems" tailWord_at(2,4) by (metis not_le)
    qed (auto simp: tailWord_at fun_eq_iff)
    finally show ?thesis .
  qed
qed

lemma cbv_eq_correct:
  assumes "cbv_inv v" "cbv_inv r"
  shows "cbv_eq v r \<longleftrightarrow> bits v = bits r"
proof -
  from assms(1) obtain d ws where v: "v = mk d ws" by (rule cbv_inv_cases)
  from assms(2) obtain e rs where r: "r = mk e rs" by (rule cbv_inv_cases)
  have "cbv_eq v r \<longleftrightarrow> tailWord d ws 0 = tailWord e rs 0"
    using eqLoop_correct[of "nextSetIndex ws 0" ws "nextSetIndex rs 0" rs d e] nextSetIndex_correct
    by (simp add: cbv_eq_def v r tailWord_next)
  also have "\<dots> \<longleftrightarrow> (\<forall>k. wordAt v k = wordAt r k)"
    by (simp add: fun_eq_iff tailWord_def wordAt_mk v r)
  finally show ?thesis by (simp only: bits_wordAt)
qed

lemma cbv_contains_correct:
  assumes "cbv_inv v" "cbv_inv r"
  shows "cbv_contains v r = Some (bits r \<subseteq> bits v)"
proof -
  from assms obtain w where w: "cbv_and r v = Some (bits w \<noteq> bits v, w)" "cbv_inv w" "bits w = bits v \<inter> bits r"
    by (rule cbv_and_correct)
  have "cbv_contains v r = Some (cbv_eq w r)" by (simp add: cbv_contains_def w(1))
  moreover have "cbv_eq w r \<longleftrightarrow> bits r \<subseteq> bits v" using cbv_eq_correct[OF w(2) assms(2)] w(3) by auto
  ultimately show ?thesis by simp
qed

section \<open>Counting\<close>

lemma bits_Cons: "bits (mk d (w # ws)) = {b. b div WordSize = d \<and> bit w (b mod WordSize)} \<union> bits (mk (Suc d) ws)"
  by (auto simp: bits_def wordAt_def nth_Cons' split: if_splits)

lemma finite_bits: "finite (bits (mk d ws))" "b \<in> bits (mk d ws) \<Longrightarrow> d \<le> b div WordSize \<and> b div WordSize < d + length ws"
proof -
  show *: "b \<in> bits (mk d ws) \<Longrightarrow> d \<le> b div WordSize \<and> b div WordSize < d + length ws" for b
    by (auto simp: bits_def wordAt_mk split: if_splits)
  have "b < (d + length ws) * WordSize" if "b \<in> bits (mk d ws)" for b
    using *[OF that] by (simp only: div_WordSize)
  then show "finite (bits (mk d ws))" by (meson finite_nat_set_iff_bounded)
qed

lemma countPopulation_card: "countPopulation w = card {b. b div WordSize = d \<and> bit w (b mod WordSize)}"
proof -
  have "bij_betw (\<lambda>n. d * WordSize + n) {n. n < WordSize \<and> bit w n} {b. b div WordSize = d \<and> bit w (b mod WordSize)}"
    by (rule bij_betw_byWitness[where f' = "\<lambda>b. b mod WordSize"]) (auto simp: mult.commute[of _ WordSize] simp flip: minus_mod_eq_mult_div)
  then have "card {b. b div WordSize = d \<and> bit w (b mod WordSize)} = card {n. n < WordSize \<and> bit w n}"
    by (rule bij_betw_same_card[symmetric])
  also have "{n. n < WordSize \<and> bit w n} = set (filter (bit w) [0..<WordSize])" by auto
  also have "card \<dots> = countPopulation w" unfolding countPopulation_def by (rule distinct_card) simp
  finally show ?thesis by simp
qed

lemma card_bits: "card (bits (mk d ws)) = (\<Sum>w \<leftarrow> ws. countPopulation w)"
proof (induction ws arbitrary: d)
  case Nil
  have "bits (mk d []) = {}" using finite_bits(2)[of _ d "[]"] by fastforce
  then show ?case by simp
next
  case (Cons w ws)
  have "finite {b. b div WordSize = d \<and> bit w (b mod WordSize)}"
    using finite_bits(1)[of d "[w]"] bits_Cons[of d w "[]"] by (metis finite_Un)
  moreover have "b div WordSize \<noteq> d" if "b \<in> bits (mk (Suc d) ws)" for b using finite_bits(2)[OF that] by linarith
  then have "{b. b div WordSize = d \<and> bit w (b mod WordSize)} \<inter> bits (mk (Suc d) ws) = {}" by blast
  ultimately have "card (bits (mk d (w # ws))) =
      card {b. b div WordSize = d \<and> bit w (b mod WordSize)} + card (bits (mk (Suc d) ws))"
    unfolding bits_Cons using finite_bits(1) by (intro card_Un_disjoint)
  then show ?case unfolding Cons countPopulation_card[of w d, symmetric] by simp
qed

lemma cbv_count_correct:
  assumes "cbv_inv v"
  shows "cbv_count v = u32 (card (bits v))"
proof -
  have "fold (\<lambda>w n. u32 (n + countPopulation w)) ws (u32 n) = u32 (n + (\<Sum>w \<leftarrow> ws. countPopulation w))" for ws n
  proof (induction ws arbitrary: n)
    case (Cons w ws)
    have "u32 (u32 n + countPopulation w) = u32 (n + countPopulation w)" by (simp add: u32_def mod_simps)
    then show ?case using Cons[of "n + countPopulation w"] by (simp add: add.assoc)
  qed simp
  from this[of "words v" 0] have "cbv_count v = u32 (\<Sum>w \<leftarrow> words v. countPopulation w)"
    by (simp add: cbv_count_def u32_def)
  moreover from assms obtain d ws where "v = mk d ws" by (rule cbv_inv_cases)
  ultimately show ?thesis by (simp add: card_bits)
qed


section \<open>Iteration\<close>

definition position :: "nat \<Rightarrow> cbv_iter \<Rightarrow> nat" where
  "position d it = (d + wordIt it) * WordSize + bitIt it"

definition valid_iter :: "64 word list \<Rightarrow> cbv_iter \<Rightarrow> bool" where
  "valid_iter ws it \<longleftrightarrow> (if wordIt it < length ws then bitIt it < WordSize \<and> bit (ws ! wordIt it) (bitIt it)
     else wordIt it = length ws \<and> bitIt it = 0)"

lemma skipZeros_correct:
  "skipZeros ws \<le> length ws" "k < skipZeros ws \<Longrightarrow> ws ! k = 0" "skipZeros ws < length ws \<Longrightarrow> ws ! skipZeros ws \<noteq> 0"
proof (induction ws arbitrary: k)
  case (Cons w ws)
  { case 1 then show ?case using Cons by simp }
  { case 2 then show ?case using Cons by (cases k) (auto split: if_splits) }
  { case 3 then show ?case using Cons by auto }
qed auto

lemma seekBit_correct:
  assumes "drop_bit b w \<noteq> 0"
  shows "b \<le> seekBit w b" "seekBit w b < WordSize" "bit w (seekBit w b)" "\<And>n. b \<le> n \<Longrightarrow> n < seekBit w b \<Longrightarrow> \<not> bit w n"
proof -
  let ?P = "\<lambda>i. w AND push_bit i 1 = 0" and ?xs = "[b..<WordSize]"
  have P: "?P i \<longleftrightarrow> \<not> bit w i" for i using bit_iff_and_push_bit_not_eq_0[of w i] by blast
  obtain n where n: "bit (drop_bit b w) n" using assms word_AND_bit[of "drop_bit b w" "drop_bit b w"] by auto
  then have n2: "bit w (b + n)" by (simp add: bit_drop_bit_eq)
  then have "b + n < WordSize" using bit_imp_le_length[OF n2] by (simp add: WordSize_def)
  with n2 have "b + n \<in> set ?xs" "\<not> ?P (b + n)" using P by auto
  then have l: "length (takeWhile ?P ?xs) < length ?xs"
    using length_takeWhile_le[of ?P ?xs] takeWhile_eq_all_conv[of ?P ?xs] takeWhile_eq_take[of ?P ?xs]
    by (metis le_neq_implies_less take_all_iff)
  show "b \<le> seekBit w b" by (simp add: seekBit_def)
  show *: "seekBit w b < WordSize" using l by (simp add: seekBit_def)
  have "?xs ! length (takeWhile ?P ?xs) = seekBit w b" using l by (simp add: seekBit_def)
  then show "bit w (seekBit w b)" using nth_length_takeWhile[OF l] P by metis
  show "\<not> bit w n" if "b \<le> n" "n < seekBit w b" for n
  proof -
    have "n - b < length (takeWhile ?P ?xs)" using that by (simp add: seekBit_def)
    then have "takeWhile ?P ?xs ! (n - b) \<in> set (takeWhile ?P ?xs)" by (rule nth_mem)
    moreover have "takeWhile ?P ?xs ! (n - b) = n"
      using that l \<open>n - b < _\<close> by (subst takeWhile_nth) auto
    ultimately show ?thesis using P by (auto dest: set_takeWhileD)
  qed
qed

lemma bits_at: "n < WordSize \<Longrightarrow> (d + i) * WordSize + n \<in> bits (mk d ws) \<longleftrightarrow> i < length ws \<and> bit (ws ! i) n"
  by (auto simp: bits_def wordAt_mk)

lemma bits_elim:
  assumes "b \<in> bits (mk d ws)"
  obtains i n where "b = (d + i) * WordSize + n" "n < WordSize" "i < length ws" "bit (ws ! i) n"
proof -
  have "d \<le> b div WordSize" using finite_bits(2)[OF assms] by simp
  then obtain i where i: "b div WordSize = d + i" by (auto simp: le_iff_add)
  then have b: "b = (d + i) * WordSize + b mod WordSize" by (metis div_mult_mod_eq)
  moreover have "b mod WordSize < WordSize" by simp
  ultimately show ?thesis using that assms bits_at by metis
qed

lemma block_order:
  assumes "m < WordSize" "n < WordSize"
  shows "(d + i) * WordSize + m < (d + j) * WordSize + n \<longleftrightarrow> i < j \<or> i = j \<and> m < n"
proof -
  consider "i < j" | "i = j" | "j < i" by linarith
  then show ?thesis
  proof cases
    case 1
    then have "Suc (d + i) * WordSize \<le> (d + j) * WordSize" by (intro mult_le_mono) auto
    then show ?thesis using 1 assms by simp
  next
    case 3
    then have "Suc (d + j) * WordSize \<le> (d + i) * WordSize" by (intro mult_le_mono) auto
    then show ?thesis using 3 assms by simp
  qed simp
qed

lemma seek_from:
  assumes "i \<le> length ws" "i < length ws \<longrightarrow> drop_bit b (ws ! i) \<noteq> 0" "b < WordSize" "i = length ws \<longrightarrow> b = 0"
  defines "it \<equiv> \<lparr>wordIt = i, bitIt = (if i < length ws then seekBit (ws ! i) b else b)\<rparr>"
  shows "valid_iter ws it" "{x \<in> bits (mk d ws). (d + i) * WordSize + b \<le> x} = {x \<in> bits (mk d ws). position d it \<le> x}"
    "(d + i) * WordSize + b \<le> position d it"
proof -
  show "valid_iter ws it" using assms(1,2,4) seekBit_correct(2,3) by (auto simp: valid_iter_def it_def)
  show le: "(d + i) * WordSize + b \<le> position d it" using assms(2) seekBit_correct(1) by (auto simp: position_def it_def)
  have "position d it \<le> x" if x: "x \<in> bits (mk d ws)" "(d + i) * WordSize + b \<le> x" for x
  proof -
    from x(1) obtain j n where j: "x = (d + j) * WordSize + n" "n < WordSize" "j < length ws" "bit (ws ! j) n" by (rule bits_elim)
    show ?thesis
    proof (cases "i < length ws")
      case True
      then have s: "drop_bit b (ws ! i) \<noteq> 0" using assms(2) by simp
      note sk = seekBit_correct[OF s]
      have "i < j \<or> i = j \<and> b \<le> n" using x(2) block_order[OF j(2) assms(3), of d j i] j(1) by linarith
      then have "\<not> (j < i \<or> j = i \<and> n < seekBit (ws ! i) b)" using sk(4) j(4) by auto
      then have "\<not> x < position d it"
        using block_order[OF j(2) sk(2), of d j i] True unfolding j(1) position_def it_def by simp
      then show ?thesis by simp
    next
      case False
      then show ?thesis using x(2) by (simp add: position_def it_def)
    qed
  qed
  then show "{x \<in> bits (mk d ws). (d + i) * WordSize + b \<le> x} = {x \<in> bits (mk d ws). position d it \<le> x}"
    using le by auto
qed

lemma skip_from:
  assumes "i \<le> length ws"
  defines "j \<equiv> i + skipZeros (drop i ws)"
  shows "j \<le> length ws" "i \<le> j" "j < length ws \<longrightarrow> ws ! j \<noteq> 0"
    "{x \<in> bits (mk d ws). (d + i) * WordSize \<le> x} = {x \<in> bits (mk d ws). (d + j) * WordSize \<le> x}"
proof -
  show "j \<le> length ws" "i \<le> j" using skipZeros_correct(1)[of "drop i ws"] assms(1) by (auto simp: j_def)
  show "j < length ws \<longrightarrow> ws ! j \<noteq> 0" using skipZeros_correct(3)[of "drop i ws"] assms(1) by (auto simp: j_def)
  have zero: "ws ! k = 0" if "i \<le> k" "k < j" for k
    using skipZeros_correct(2)[of "k - i" "drop i ws"] that assms(1) by (auto simp: j_def)
  have "(d + j) * WordSize \<le> x" if x: "x \<in> bits (mk d ws)" "(d + i) * WordSize \<le> x" for x
  proof -
    from x(1) obtain k n where k: "x = (d + k) * WordSize + n" "n < WordSize" "k < length ws" "bit (ws ! k) n" by (rule bits_elim)
    have "i \<le> k" using x(2) block_order[OF k(2) WordSize_pos, of d k i] k(1) by linarith
    then have "j \<le> k" using zero k(4) by (metis bit_0_eq bot_apply bot_bool_def not_le)
    then show ?thesis using k(1) by (metis add_le_cancel_left le_add1 mult_le_mono1 order_trans)
  qed
  moreover have "(d + i) * WordSize \<le> (d + j) * WordSize" using \<open>i \<le> j\<close> by simp
  ultimately show "{x \<in> bits (mk d ws). (d + i) * WordSize \<le> x} = {x \<in> bits (mk d ws). (d + j) * WordSize \<le> x}"
    by (blast intro: order_trans)
qed


lemma cbv_next_correct:
  assumes it: "bitIt it < WordSize" and inside: "wordIt it < length ws"
  obtains it' where "cbv_next (mk d ws) it = Some it'" "valid_iter ws it'"
    "{x \<in> bits (mk d ws). position d it < x} = {x \<in> bits (mk d ws). position d it' \<le> x}"
proof -
  let ?i = "wordIt it" and ?b = "Suc (bitIt it)"
  have after: "{x \<in> bits (mk d ws). position d it < x} = {x \<in> bits (mk d ws). (d + ?i) * WordSize + ?b \<le> x}"
    by (auto simp: position_def)
  show ?thesis
  proof (cases "?b = WordSize \<or> drop_bit ?b (ws ! ?i) = 0")
    case False
    then have b: "?b < WordSize" "drop_bit ?b (ws ! ?i) \<noteq> 0" using it by auto
    let ?it = "\<lparr>wordIt = ?i, bitIt = (if ?i < length ws then seekBit (ws ! ?i) ?b else ?b)\<rparr>"
    have "cbv_next (mk d ws) it = Some ?it"
      using inside False by (simp add: cbv_next_def cbv_atEnd_def Let_def del: drop_bit_Suc)
    then show ?thesis using seek_from[of ?i ws ?b] b inside after by (intro that[of ?it]) auto
  next
    case True
    let ?j = "Suc ?i + skipZeros (drop (Suc ?i) ws)"
    let ?it = "\<lparr>wordIt = ?j, bitIt = (if ?j < length ws then seekBit (ws ! ?j) 0 else 0)\<rparr>"
    have "Suc ?i \<le> length ws" using inside by simp
    note sk = skip_from[OF this]
    have nx: "cbv_next (mk d ws) it = Some ?it"
      using inside True by (auto simp: cbv_next_def cbv_atEnd_def Let_def simp del: drop_bit_Suc)
    have "?j < length ws \<longrightarrow> drop_bit 0 (ws ! ?j) \<noteq> 0" using sk(3) by simp
    note se = seek_from[OF sk(1) this WordSize_pos refl[THEN impI]]
    have "(d + ?i) * WordSize + ?b \<le> x \<longleftrightarrow> (d + Suc ?i) * WordSize \<le> x" if x: "x \<in> bits (mk d ws)" for x
    proof -
      from x obtain k n where k: "x = (d + k) * WordSize + n" "n < WordSize" "k < length ws" "bit (ws ! k) n" by (rule bits_elim)
      have "\<not> (k = ?i \<and> bitIt it < n)"
      proof
        assume H: "k = ?i \<and> bitIt it < n"
        then have "?b < WordSize" using k(2) by simp
        then have "drop_bit ?b (ws ! ?i) = 0" using True by simp
        then have "\<not> bit (drop_bit ?b (ws ! ?i)) (n - ?b)" by simp
        then show False using H k(4) by (simp add: bit_drop_bit_eq del: drop_bit_Suc)
      qed
      then have "position d it < x \<longleftrightarrow> ?i < k"
        using block_order[OF it k(2), of d ?i k] unfolding position_def k(1) by blast
      moreover have "x < (d + Suc ?i) * WordSize \<longleftrightarrow> k < Suc ?i"
        using block_order[OF k(2) WordSize_pos, of d k "Suc ?i"] unfolding k(1) by auto
      ultimately show ?thesis by (auto simp: position_def)
    qed
    then have "{x \<in> bits (mk d ws). position d it < x} = {x \<in> bits (mk d ws). (d + Suc ?i) * WordSize \<le> x}"
      unfolding after by blast
    also have "\<dots> = {x \<in> bits (mk d ws). (d + ?j) * WordSize \<le> x}" by (rule sk(4))
    finally show ?thesis using nx se by (intro that[of ?it]) simp_all
  qed
qed

lemma cbv_loop_correct:
  assumes "valid_iter ws it" "card {x \<in> bits (mk d ws). position d it \<le> x} < n" "d + length ws \<le> 2 ^ 26"
  shows "cbv_loop n (mk d ws) it = Some (sorted_list_of_set {x \<in> bits (mk d ws). position d it \<le> x})"
  using assms
proof (induction n arbitrary: it)
  case (Suc n)
  let ?S = "\<lambda>it. {x \<in> bits (mk d ws). position d it \<le> x}"
  show ?case
  proof (cases "wordIt it < length ws")
    case False
    then have "position d it = (d + length ws) * WordSize" "wordIt it = length ws"
      using Suc.prems(1) by (simp_all add: valid_iter_def position_def)
    moreover have "x < (d + length ws) * WordSize" if "x \<in> bits (mk d ws)" for x
      using finite_bits(2)[OF that] by (simp only: div_WordSize)
    ultimately have S: "?S it = {}" by fastforce
    have "cbv_loop (Suc n) (mk d ws) it = Some []" using \<open>wordIt it = length ws\<close> by (simp add: cbv_it_eq_def cbv_end_def)
    then show ?thesis unfolding S by simp
  next
    case True
    have it: "bitIt it < WordSize" "bit (ws ! wordIt it) (bitIt it)" using Suc.prems(1) True by (simp_all add: valid_iter_def)
    have mem: "position d it \<in> bits (mk d ws)" using it True by (simp add: position_def bits_at)
    from it(1) True obtain it' where n: "cbv_next (mk d ws) it = Some it'" "valid_iter ws it'"
      "{x \<in> bits (mk d ws). position d it < x} = ?S it'" by (rule cbv_next_correct)
    have "?S it = insert (position d it) {x \<in> bits (mk d ws). position d it < x}" using mem by (auto simp: le_less)
    then have S: "?S it = insert (position d it) (?S it')" by (simp only: n(3))
    have fresh: "position d it \<notin> ?S it'" unfolding n(3)[symmetric] by simp
    have fin: "finite (?S it')" using finite_bits(1) by simp
    have "card (?S it') < n" using Suc.prems(2) S card_insert_disjoint[OF fin fresh] by simp
    then have loop: "cbv_loop n (mk d ws) it' = Some (sorted_list_of_set (?S it'))"
      using Suc.IH n(2) Suc.prems(3) by blast
    have "cbv_inv (mk d ws)" using Suc.prems(3) True by (cases ws) (auto simp: cbv_inv_mk)
    then have "position d it < 2 ^ 32" using mem by (rule bits_less)
    moreover have "d * WordSize + wordIt it * WordSize + bitIt it = position d it"
      by (simp add: position_def algebra_simps)
    ultimately have "cbv_deref (mk d ws) it = Some (position d it)"
      using True by (simp add: cbv_deref_def cbv_atEnd_def)
    moreover have "sorted_list_of_set (?S it) = position d it # sorted_list_of_set (?S it')"
    proof -
      have "\<forall>x \<in> ?S it'. position d it \<le> x" unfolding n(3)[symmetric] by simp
      then show ?thesis unfolding S using fin fresh
        by (subst sorted_list_of_set_insert) (auto simp: insort_is_Cons)
    qed
    ultimately show ?thesis using True n(1) loop by (simp add: cbv_it_eq_def cbv_end_def)
  qed
qed simp

lemma cbv_elems_correct:
  assumes "cbv_inv v"
  shows "cbv_elems v = Some (sorted_list_of_set (bits v))"
proof -
  from assms obtain d ws where v: "v = mk d ws" "d + length ws \<le> 2 ^ 26" by (rule cbv_inv_cases)
  let ?it = "\<lparr>wordIt = 0, bitIt = 0\<rparr>"
  have start: "{x \<in> bits v. (d + 0) * WordSize \<le> x} = bits v"
    using finite_bits(2)[of _ d ws] by (auto simp: v(1) div_WordSize(2)[symmetric])
  have "\<exists>it. cbv_begin v = Some it \<and> valid_iter ws it \<and> {x \<in> bits v. position d it \<le> x} = bits v"
  proof (cases ws)
    case Nil
    then show ?thesis using start by (auto simp: cbv_begin_def cbv_atEnd_def v(1) valid_iter_def position_def)
  next
    case (Cons w ws')
    show ?thesis
    proof (cases "bit w 0")
      case True
      then have "w AND 1 \<noteq> 0" by (simp add: bit_iff_and_push_bit_not_eq_0)
      then show ?thesis using start True Cons
        by (auto simp: cbv_begin_def cbv_atEnd_def v(1) valid_iter_def position_def)
    next
      case False
      then have "w AND 1 = 0" by (simp add: bit_iff_and_push_bit_not_eq_0)
      then have b: "cbv_begin v = cbv_next v ?it" using Cons by (simp add: cbv_begin_def cbv_atEnd_def v(1))
      obtain it where it: "cbv_next v ?it = Some it" "valid_iter ws it"
          "{x \<in> bits v. position d ?it < x} = {x \<in> bits v. position d it \<le> x}"
        using cbv_next_correct[of ?it ws d] Cons by (auto simp: v(1))
      have "position d ?it \<notin> bits v" using bits_at[OF WordSize_pos, of d 0 ws] False Cons by (simp add: position_def v(1))
      then have "{x \<in> bits v. position d ?it < x} = {x \<in> bits v. (d + 0) * WordSize \<le> x}"
        by (auto simp: position_def le_less)
      then show ?thesis using b it start by simp
    qed
  qed
  then obtain it where it: "cbv_begin v = Some it" "valid_iter ws it" "{x \<in> bits v. position d it \<le> x} = bits v" by blast
  have "card (bits v) \<le> length ws * WordSize"
  proof -
    have "bits v \<subseteq> {d * WordSize..<(d + length ws) * WordSize}"
      using finite_bits(2)[of _ d ws] by (auto simp: v(1) div_WordSize)
    from card_mono[OF _ this] show ?thesis by (simp add: algebra_simps)
  qed
  then have "cbv_loop (Suc (length ws * WordSize)) v it = Some (sorted_list_of_set (bits v))"
    using cbv_loop_correct[OF it(2), of d "Suc (length ws * WordSize)"] it(3) v by simp
  then show ?thesis using it(1) by (simp add: cbv_elems_def v(1))
qed


section \<open>Properties\<close>

lemma cbv_test_and_set_correct:
  assumes "cbv_inv v" "b < 2 ^ 32"
  obtains v' where "cbv_test_and_set b v = Some (b \<notin> bits v, v')" "cbv_inv v'" "bits v' = insert b (bits v)"
proof (cases "b \<in> bits v")
  case True
  then show ?thesis using assms(1) by (intro that[of v]) (auto simp: cbv_test_and_set_def cbv_test_bits)
next
  case False
  from assms obtain v' where "cbv_set b v = Some v'" "cbv_inv v'" "bits v' = insert b (bits v)" by (rule cbv_set_correct)
  then show ?thesis using that[of v'] assms(1) False by (simp add: cbv_test_and_set_def cbv_test_bits)
qed

lemma bits_new [simp]: "bits (cbv_new n) = {}" "bits (cbv_clear v) = {}"
  by (auto simp: bits_def wordAt_def cbv_new_def cbv_clear_def)

lemma cbv_inv_new: "n \<le> 2 ^ 26 \<Longrightarrow> cbv_inv (cbv_new n)" "cbv_inv (cbv_clear v)"
  by (simp_all add: cbv_inv_def cbv_new_def cbv_clear_def WordSize_def)

text \<open>
  C10: \<^verbatim>\<open>CoreBitVector\<close> implements finite sets of 32-bit numbers. On vectors that satisfy the
  representation invariant \<^verbatim>\<open>test_and_set\<close>, \<^verbatim>\<open>reset\<close>, \<^verbatim>\<open>|=\<close>, \<^verbatim>\<open>&=\<close> and \<^verbatim>\<open>-=\<close> access no word outside
  the vector, keep the invariant and add, remove, unite, intersect and subtract; \<^verbatim>\<open>test\<close>, \<^verbatim>\<open>empty\<close>,
  \<^verbatim>\<open>==\<close>, \<^verbatim>\<open>contains\<close> and \<^verbatim>\<open>count\<close> answer for the sets. The reported change is the change of the
  set, except that \<^verbatim>\<open>|=\<close> into a vector without words reports a change whenever its operand has
  words. \<^verbatim>\<open>intersects\<close> answers whether the sets meet, except that it accesses a word that is not
  there when one vector has no words and one of the two has a bit.
\<close>

theorem cbv_implements_sets:
  assumes "cbv_inv v" "cbv_inv r" "b < 2 ^ 32"
  shows "(\<exists>w. cbv_test_and_set b v = Some (b \<notin> bits v, w) \<and> cbv_inv w \<and> bits w = insert b (bits v))
    \<and> (\<exists>w. cbv_reset b v = Some w \<and> cbv_inv w \<and> bits w = bits v - {b})
    \<and> (\<exists>w. cbv_or r v = Some (if words v = [] then words r \<noteq> [] else bits w \<noteq> bits v, w)
         \<and> cbv_inv w \<and> bits w = bits v \<union> bits r)
    \<and> (\<exists>w. cbv_and r v = Some (bits w \<noteq> bits v, w) \<and> cbv_inv w \<and> bits w = bits v \<inter> bits r)
    \<and> (\<exists>w. cbv_minus r v = Some (bits w \<noteq> bits v, w) \<and> cbv_inv w \<and> bits w = bits v - bits r)
    \<and> (cbv_test b v \<longleftrightarrow> b \<in> bits v) \<and> (cbv_empty v \<longleftrightarrow> bits v = {}) \<and> (cbv_eq v r \<longleftrightarrow> bits v = bits r)
    \<and> cbv_contains v r = Some (bits r \<subseteq> bits v) 
    \<and> cbv_intersects v r = (if (words v = [] \<or> words r = []) \<and> bits v \<union> bits r \<noteq> {} then None else Some (bits v \<inter> bits r \<noteq> {}))
    \<and> cbv_count v = u32 (card (bits v))"
proof (intro conjI)
  from assms(1,2) obtain w c where w: "cbv_or r v = Some (c, w)" "cbv_inv w" "bits w = bits v \<union> bits r"
    "c \<longleftrightarrow> (if words v = [] then words r \<noteq> [] else bits w \<noteq> bits v)" by (rule cbv_or_correct)
  show "\<exists>w. cbv_or r v = Some (if words v = [] then words r \<noteq> [] else bits w \<noteq> bits v, w)
         \<and> cbv_inv w \<and> bits w = bits v \<union> bits r"
    using w(1-3) unfolding w(4) by blast
  show "cbv_intersects v r = (if (words v = [] \<or> words r = []) \<and> bits v \<union> bits r \<noteq> {} then None else Some (bits v \<inter> bits r \<noteq> {}))"
    using assms(1,2) by (rule cbv_intersects_correct)
  show "\<exists>w. cbv_test_and_set b v = Some (b \<notin> bits v, w) \<and> cbv_inv w \<and> bits w = insert b (bits v)"
    by (rule cbv_test_and_set_correct[OF assms(1,3)]) blast
  show "\<exists>w. cbv_reset b v = Some w \<and> cbv_inv w \<and> bits w = bits v - {b}"
    by (rule cbv_reset_correct[OF assms(1), of b]) blast
  show "\<exists>w. cbv_and r v = Some (bits w \<noteq> bits v, w) \<and> cbv_inv w \<and> bits w = bits v \<inter> bits r"
    by (rule cbv_and_correct[OF assms(1,2)]) blast
  show "\<exists>w. cbv_minus r v = Some (bits w \<noteq> bits v, w) \<and> cbv_inv w \<and> bits w = bits v - bits r"
    by (rule cbv_minus_correct[OF assms(1,2)]) blast
qed (simp_all only: cbv_test_bits[OF assms(1)] cbv_empty_bits cbv_eq_correct[OF assms(1,2)]
      cbv_contains_correct[OF assms(1,2)] cbv_count_correct[OF assms(1)])

definition demo_cbv :: cbv where
  "demo_cbv = \<lparr>offset = 64, words = [5, 0, 1]\<rparr>"

lemma demo_cbv_inv: "cbv_inv demo_cbv" "cbv_inv \<lparr>offset = 0, words = [1, 4]\<rparr>"
  by (simp_all add: cbv_inv_def demo_cbv_def WordSize_def)

theorem cbv_implements_sets_witness:
  "\<exists>w. cbv_or \<lparr>offset = 0, words = [1, 4]\<rparr> demo_cbv = Some (True, w)
     \<and> bits w = bits demo_cbv \<union> bits \<lparr>offset = 0, words = [1, 4]\<rparr>"
proof -
  let ?r = "\<lparr>offset = 0, words = [1, 4]\<rparr> :: cbv"
  have "0 \<in> bits ?r" "0 \<notin> bits demo_cbv" by (simp_all add: bits_def wordAt_def demo_cbv_def WordSize_def)
  then have "bits demo_cbv \<union> bits ?r \<noteq> bits demo_cbv" by blast
  moreover have "words demo_cbv \<noteq> []" by (simp add: demo_cbv_def)
  moreover have "\<exists>w. cbv_or ?r demo_cbv = Some (if words demo_cbv = [] then words ?r \<noteq> [] else bits w \<noteq> bits demo_cbv, w)
         \<and> cbv_inv w \<and> bits w = bits demo_cbv \<union> bits ?r"
    using cbv_implements_sets[OF demo_cbv_inv, of 0] by simp
  ultimately show ?thesis by auto
qed

text \<open>
  C12: A loop over a core bit vector ends and visits exactly the numbers of the set, each once, in
  increasing order.
\<close>

theorem cbv_iteration:
  assumes "cbv_inv v"
  shows "\<exists>bs. cbv_elems v = Some bs \<and> sorted_wrt (<) bs \<and> set bs = bits v"
proof -
  from assms obtain d ws where "v = mk d ws" by (rule cbv_inv_cases)
  then have "finite (bits v)" using finite_bits(1) by simp
  then show ?thesis using cbv_elems_correct[OF assms] by (simp add: strict_sorted_iff)
qed

theorem cbv_iteration_witness: "\<exists>bs. cbv_elems demo_cbv = Some bs \<and> set bs = bits demo_cbv"
  using cbv_iteration[OF demo_cbv_inv(1)] by blast

text \<open>
  Equal vectors can have different hash values: \<^verbatim>\<open>operator==\<close> ignores words without bits,
  and \<^verbatim>\<open>hash\<close> does not. The second vector is the first one after \<^verbatim>\<open>set(64)\<close> and \<^verbatim>\<open>reset(64)\<close>.
\<close>

theorem cbv_hash_differs:
  "\<exists>v w. cbv_set 0 (cbv_new 0) = Some v
     \<and> Option.bind (cbv_set 64 v) (cbv_reset 64) = Some w \<and> cbv_eq v w \<and> cbv_hash v \<noteq> cbv_hash w"
proof (intro exI conjI)
  let ?v = "\<lparr>offset = 0, words = [1]\<rparr> :: cbv" and ?w = "\<lparr>offset = 0, words = [1, 0]\<rparr> :: cbv"
  show "cbv_set 0 (cbv_new 0) = Some ?v"
    by (simp add: cbv_set_def cbv_new_def extendTo_def updateWord_def bitMask_def WordSize_def)
  show "Option.bind (cbv_set 64 ?v) (cbv_reset 64) = Some ?w"
    by (simp add: cbv_set_def extendTo_def extendForward_def canHold_def updateWord_def bitMask_def WordSize_def
        Let_def cbv_reset_def)
  show "cbv_eq ?v ?w"
    by code_simp
  show "cbv_hash ?v \<noteq> cbv_hash ?w"
    by (simp add: cbv_hash_def)
qed

end
