(* ===== verification/SparseBitVector_Correct.thy ===== *)
theory SparseBitVector_Correct
  imports SparseBitVector CoreBitVector_Correct
begin

text \<open>
  The sparse bit vectors implement sets of numbers.
\<close>

unbundle bit_operations_syntax

section \<open>The bits of an element\<close>

definition ebits :: "sbv_elem \<Rightarrow> nat set" where
  "ebits e = {b. b div ElementSize = ElementIndex e \<and> bit (Bits e ! (b mod ElementSize div WordSize)) (b mod WordSize)}"

definition el_ok :: "sbv_elem \<Rightarrow> bool" where
  "el_ok e \<longleftrightarrow> length (Bits e) = 2 \<and> ebits e \<noteq> {} \<and> ElementIndex e < 2 ^ 25"

lemma sizes [simp]: "BITWORDS_PER_ELEMENT = 2" "[0..<2] = [0, 1::nat]"
  by (simp_all add: BITWORDS_PER_ELEMENT_def ElementSize_def WordSize_def upt_rec)

lemma word_of_bit [simp]: "b mod ElementSize div WordSize < 2" "b mod ElementSize mod WordSize = b mod WordSize"
    "b mod ElementSize < ElementSize"
  by (simp_all add: ElementSize_def WordSize_def less_mult_imp_div_less mod_mod_cancel)

lemma bit_parts:
  assumes "k < 2" "n < WordSize"
  shows "(i * ElementSize + k * WordSize + n) div ElementSize = i"
    "(i * ElementSize + k * WordSize + n) mod ElementSize = k * WordSize + n"
    "(i * ElementSize + k * WordSize + n) mod ElementSize div WordSize = k"
    "(i * ElementSize + k * WordSize + n) mod WordSize = n"
proof -
  have l: "k * WordSize + n < ElementSize" using assms by (auto simp: ElementSize_def WordSize_def less_2_cases_iff)
  then show "(i * ElementSize + k * WordSize + n) div ElementSize = i"
    "(i * ElementSize + k * WordSize + n) mod ElementSize = k * WordSize + n"
    by (simp_all add: add.assoc)
  moreover have "(k * WordSize + n) div WordSize = k" "(k * WordSize + n) mod WordSize = n" using assms(2) by simp_all
  ultimately show "(i * ElementSize + k * WordSize + n) mod ElementSize div WordSize = k"
    "(i * ElementSize + k * WordSize + n) mod WordSize = n"
    using word_of_bit(2)[of "i * ElementSize + k * WordSize + n"] by simp_all
qed

lemma bit_join: "b = b div ElementSize * ElementSize + (b mod ElementSize div WordSize) * WordSize + b mod WordSize"
  by (metis add.assoc div_mult_mod_eq word_of_bit(2))

lemma ebits_at:
  assumes "k < 2" "n < WordSize"
  shows "ElementIndex e * ElementSize + k * WordSize + n \<in> ebits e \<longleftrightarrow> bit (Bits e ! k) n"
  unfolding ebits_def mem_Collect_eq bit_parts[OF assms] using assms by simp

lemma ebits_index: "b \<in> ebits e \<Longrightarrow> b div ElementSize = ElementIndex e"
  by (simp add: ebits_def)

lemma two_words: "length ws = 2 \<Longrightarrow> \<exists>a b. ws = [a, b]"
  by (cases ws; cases "tl ws") auto

lemma ebits_eq_iff:
  assumes "ElementIndex e = ElementIndex r" "length (Bits e) = 2" "length (Bits r) = 2"
  shows "ebits e = ebits r \<longleftrightarrow> Bits e = Bits r"
proof
  assume H: "ebits e = ebits r"
  have "Bits e ! k = Bits r ! k" if "k < 2" for k
  proof (rule bit_eqI)
    fix n assume "possible_bit TYPE(64 word) n"
    then have n: "n < WordSize" by (simp add: WordSize_def)
    show "bit (Bits e ! k) n \<longleftrightarrow> bit (Bits r ! k) n"
      using ebits_at[OF that n, of e] ebits_at[OF that n, of r] H assms(1) by simp
  qed
  then show "Bits e = Bits r" using assms(2,3) by (simp add: list_eq_iff_nth_eq)
qed (simp add: ebits_def assms(1))

lemma ebits_empty:
  assumes "length (Bits e) = 2"
  shows "ebits e = {} \<longleftrightarrow> (\<forall>w \<in> set (Bits e). w = 0)"
proof -
  let ?z = "e\<lparr>Bits := [0, 0]\<rparr>"
  have "b \<notin> ebits ?z" for b
    using word_of_bit(1)[of b] by (auto simp: ebits_def less_2_cases_iff)
  then have "ebits ?z = {}" by blast
  moreover have "ebits e = ebits ?z \<longleftrightarrow> Bits e = [0, 0]" using ebits_eq_iff[of e ?z] assms by simp
  moreover have "Bits e = [0, 0] \<longleftrightarrow> (\<forall>w \<in> set (Bits e). w = 0)" using two_words[OF assms] by auto
  ultimately show ?thesis by simp
qed

lemma el_empty_iff: "length (Bits e) = 2 \<Longrightarrow> el_empty e \<longleftrightarrow> ebits e = {}"
  using two_words[of "Bits e"] by (auto simp: ebits_empty el_empty_def)

lemma el_eq_iff: "el_ok e \<Longrightarrow> el_ok r \<Longrightarrow> el_eq e r \<longleftrightarrow> e = r"
  using two_words[of "Bits e"] two_words[of "Bits r"] by (auto simp: el_ok_def el_eq_def)

lemma el_test_iff:
  assumes "b div ElementSize = ElementIndex e"
  shows "el_test (b mod ElementSize) e \<longleftrightarrow> b \<in> ebits e"
  using assms bitMask_AND[of "b mod ElementSize" "Bits e ! (b mod ElementSize div WordSize)"]
  by (simp add: el_test_def ebits_def and.commute)

lemma ebits_update:
  assumes "b div ElementSize = ElementIndex e" "length (Bits e) = 2"
  defines "k \<equiv> b mod ElementSize div WordSize"
  assumes "\<And>n. bit w n \<longleftrightarrow> (if n = b mod WordSize then p else bit (Bits e ! k) n)"
  shows "ebits (e\<lparr>Bits := (Bits e)[k := w]\<rparr>) = (if p then insert b (ebits e) else ebits e - {b})"
proof -
  have "c \<in> ebits (e\<lparr>Bits := (Bits e)[k := w]\<rparr>) \<longleftrightarrow> (if c = b then p else c \<in> ebits e)" for c
  proof (cases "c div ElementSize = ElementIndex e \<and> c mod ElementSize div WordSize = k \<and> c mod WordSize = b mod WordSize")
    case True
    then have "c = b" using bit_join[of c] bit_join[of b] assms(1) k_def by simp
    moreover have "k < length (Bits e)" using assms(2) k_def by simp
    ultimately show ?thesis using True assms(4) by (simp add: ebits_def)
  next
    case False
    then have "c \<noteq> b" using assms(1) k_def by auto
    moreover have "k < length (Bits e)" using assms(2) k_def by simp
    ultimately show ?thesis using False assms(4) by (auto simp: ebits_def nth_list_update)
  qed
  then show ?thesis by (intro set_eqI) simp
qed

lemma el_set_correct:
  assumes "b div ElementSize = ElementIndex e" "length (Bits e) = 2"
  shows "ebits (el_set (b mod ElementSize) e) = insert b (ebits e)"
    "ElementIndex (el_set (b mod ElementSize) e) = ElementIndex e" "length (Bits (el_set (b mod ElementSize) e)) = 2"
  using ebits_update[OF assms, of "Bits e ! (b mod ElementSize div WordSize) OR bitMask (b mod ElementSize)" True] assms(2)
  by (simp_all add: el_set_def bit_or_iff bit_bitMask)

lemma el_reset_correct:
  assumes "b div ElementSize = ElementIndex e" "length (Bits e) = 2"
  shows "ebits (el_reset (b mod ElementSize) e) = ebits e - {b}"
    "ElementIndex (el_reset (b mod ElementSize) e) = ElementIndex e" "length (Bits (el_reset (b mod ElementSize) e)) = 2"
proof -
  have "bit (Bits e ! (b mod ElementSize div WordSize) AND NOT (bitMask (b mod ElementSize))) n
      \<longleftrightarrow> (if n = b mod WordSize then False else bit (Bits e ! (b mod ElementSize div WordSize)) n)" for n
    by (auto simp: bit_and_iff bit_not_iff bit_bitMask dest: bit_imp_le_length)
  from ebits_update[OF assms this] show "ebits (el_reset (b mod ElementSize) e) = ebits e - {b}"
    by (simp add: el_reset_def)
qed (use assms(2) in \<open>simp_all add: el_reset_def\<close>)

lemma el_new_correct: "ebits (el_new i) = {}" "ElementIndex (el_new i) = i" "length (Bits (el_new i)) = 2"
  by (simp_all add: el_new_def ebits_empty)

lemma combine_all:
  assumes "length rs = length ws"
  shows "\<exists>ti. combineLoop f rs 0 0 ws False = (map2 f ws rs, ti, map2 f ws rs \<noteq> ws)"
proof -
  obtain ws' ti where c: "combineLoop f rs 0 0 ws False = (ws', ti, False \<or> ws' \<noteq> ws)" "length ws' = length ws"
    "ti = max 0 (min (length ws) (0 + (length rs - 0)))"
    "\<forall>k. ws' ! k = (if 0 \<le> k \<and> k < ti then f (ws ! k) (rs ! (0 + k - 0)) else ws ! k)"
    using combineLoop_correct[of f rs 0 0 ws False] by blast
  have "ws' = map2 f ws rs" using c(2-4) assms by (simp add: list_eq_iff_nth_eq)
  then show ?thesis using c(1) by simp
qed

lemma ebits_map2:
  assumes "ElementIndex e = ElementIndex r" "length (Bits e) = 2" "length (Bits r) = 2"
    "\<And>v w n. n < WordSize \<Longrightarrow> bit (f v w) n \<longleftrightarrow> P (bit v n) (bit w n)"
  shows "ebits (e\<lparr>Bits := map2 f (Bits e) (Bits r)\<rparr>) = {b. b div ElementSize = ElementIndex e \<and> P (b \<in> ebits e) (b \<in> ebits r)}"
  using assms by (auto simp: ebits_def)

lemma el_unionWith_correct:
  assumes "ElementIndex e = ElementIndex r" "el_ok e" "el_ok r"
  obtains x where "el_unionWith r e = (ebits x \<noteq> ebits e, x)" "ebits x = ebits e \<union> ebits r" "ElementIndex x = ElementIndex e" "el_ok x"
proof -
  have len: "length (Bits e) = 2" "length (Bits r) = 2" using assms by (simp_all add: el_ok_def)
  let ?x = "e\<lparr>Bits := map2 (OR) (Bits e) (Bits r)\<rparr>"
  have x: "ebits ?x = ebits e \<union> ebits r"
    using ebits_map2[OF assms(1) len, of "(OR)" "(\<or>)"] ebits_index[of _ e] ebits_index[of _ r] assms(1) by (auto simp: bit_or_iff)
  have "el_unionWith r e = (Bits ?x \<noteq> Bits e, ?x)"
    using combine_all[of "Bits r" "Bits e" "(OR)"] len by (auto simp: el_unionWith_def)
  moreover have "ebits ?x = ebits e \<longleftrightarrow> Bits ?x = Bits e" using len by (intro ebits_eq_iff) simp_all
  moreover have "el_ok ?x" using x assms(2) len by (simp add: el_ok_def)
  ultimately show ?thesis using x by (intro that[of ?x]) simp_all
qed

lemma el_combine_correct:
  assumes "ElementIndex e = ElementIndex r" "el_ok e" "el_ok r"
    and op: "op = (\<lambda>r e. let (ws, i, changed) = combineLoop f (Bits r) 0 0 (Bits e) False
      in (changed, list_all (\<lambda>w. w = 0) ws, e\<lparr>Bits := ws\<rparr>))"
    and f: "\<And>v w n. n < WordSize \<Longrightarrow> bit (f v w) n \<longleftrightarrow> bit v n \<and> P (bit w n)"
  obtains x where "op r e = (ebits x \<noteq> ebits e, ebits x = {}, x)" "ebits x = {b \<in> ebits e. P (b \<in> ebits r)}"
    "ElementIndex x = ElementIndex e" "ebits x \<noteq> {} \<longrightarrow> el_ok x"
proof -
  have len: "length (Bits e) = 2" "length (Bits r) = 2" using assms(2,3) by (simp_all add: el_ok_def)
  let ?x = "e\<lparr>Bits := map2 f (Bits e) (Bits r)\<rparr>"
  have x: "ebits ?x = {b \<in> ebits e. P (b \<in> ebits r)}"
    using ebits_map2[OF assms(1) len, of f "\<lambda>v w. v \<and> P w"] ebits_index[of _ e] f by auto
  have "op r e = (Bits ?x \<noteq> Bits e, list_all (\<lambda>w. w = 0) (Bits ?x), ?x)"
    using combine_all[of "Bits r" "Bits e" f] len by (auto simp: op)
  moreover have "ebits ?x = ebits e \<longleftrightarrow> Bits ?x = Bits e" using len by (intro ebits_eq_iff) simp_all
  moreover have "list_all (\<lambda>w. w = 0) (Bits ?x) \<longleftrightarrow> ebits ?x = {}" using ebits_empty[of ?x] len by (simp add: list_all_iff)
  moreover have "el_ok ?x" if "ebits ?x \<noteq> {}" using that assms(2) len by (simp add: el_ok_def)
  ultimately show ?thesis using x by (intro that[of ?x]) simp_all
qed

lemma el_and_correct:
  assumes "ElementIndex e = ElementIndex r" "el_ok e" "el_ok r"
  obtains x where "el_intersectWith r e = (ebits x \<noteq> ebits e, ebits x = {}, x)" "ebits x = ebits e \<inter> ebits r"
    "ElementIndex x = ElementIndex e" "ebits x \<noteq> {} \<longrightarrow> el_ok x"
  by (rule el_combine_correct[OF assms, of el_intersectWith "(AND)" "\<lambda>p. p"])
    (auto simp: fun_eq_iff el_intersectWith_def bit_and_iff Int_def)

lemma el_minus_correct:
  assumes "ElementIndex e = ElementIndex r" "el_ok e" "el_ok r"
  obtains x where "el_intersectWithComplement r e = (ebits x \<noteq> ebits e, ebits x = {}, x)" "ebits x = ebits e - ebits r"
    "ElementIndex x = ElementIndex e" "ebits x \<noteq> {} \<longrightarrow> el_ok x"
  by (rule el_combine_correct[OF assms, of el_intersectWithComplement "\<lambda>a b. a AND NOT b" Not])
    (auto simp: fun_eq_iff el_intersectWithComplement_def bit_and_iff bit_not_iff WordSize_def set_diff_eq)

lemma el_intersects_iff:
  assumes "ElementIndex e = ElementIndex r" "el_ok e" "el_ok r"
  shows "el_intersects e r \<longleftrightarrow> ebits e \<inter> ebits r \<noteq> {}"
proof -
  have "el_intersects e r \<longleftrightarrow> (\<exists>k < 2. Bits r ! k AND Bits e ! k \<noteq> 0)"
    by (auto simp: el_intersects_def less_2_cases_iff)
  also have "\<dots> \<longleftrightarrow> (\<exists>k < 2. \<exists>n < WordSize. bit (Bits e ! k) n \<and> bit (Bits r ! k) n)"
    by (auto simp: word_AND_bit)
  also have "\<dots> \<longleftrightarrow> (\<exists>b. b \<in> ebits e \<and> b \<in> ebits r)"
  proof
    assume "\<exists>b. b \<in> ebits e \<and> b \<in> ebits r"
    then obtain b where b: "b \<in> ebits e" "b \<in> ebits r" by blast
    then have "bit (Bits e ! (b mod ElementSize div WordSize)) (b mod WordSize)" "bit (Bits r ! (b mod ElementSize div WordSize)) (b mod WordSize)"
      by (simp_all add: ebits_def)
    moreover have "b mod WordSize < WordSize" by simp
    ultimately show "\<exists>k < 2. \<exists>n < WordSize. bit (Bits e ! k) n \<and> bit (Bits r ! k) n" using word_of_bit(1) by blast
  next
    assume "\<exists>k < 2. \<exists>n < WordSize. bit (Bits e ! k) n \<and> bit (Bits r ! k) n"
    then show "\<exists>b. b \<in> ebits e \<and> b \<in> ebits r" using ebits_at[of _ _ e] ebits_at[of _ _ r] assms(1) by metis
  qed
  finally show ?thesis by blast
qed


section \<open>Lists of elements\<close>

abbreviation bitsOf :: "sbv_elem list \<Rightarrow> nat set" where
  "bitsOf es \<equiv> \<Union>e \<in> set es. ebits e"

definition els_ok :: "sbv_elem list \<Rightarrow> bool" where
  "els_ok es \<longleftrightarrow> sorted_wrt (\<lambda>x y. ElementIndex x < ElementIndex y) es \<and> (\<forall>e \<in> set es. el_ok e)"

lemma els_ok_Cons: "els_ok (e # es) \<longleftrightarrow> el_ok e \<and> (\<forall>x \<in> set es. ElementIndex e < ElementIndex x) \<and> els_ok es"
  by (auto simp: els_ok_def)

lemma els_ok_Nil [simp]: "els_ok []"
  by (simp add: els_ok_def)

lemma els_ok_append: "els_ok (xs @ ys) \<longleftrightarrow> els_ok xs \<and> els_ok ys \<and> (\<forall>x \<in> set xs. \<forall>y \<in> set ys. ElementIndex x < ElementIndex y)"
  by (auto simp: els_ok_def sorted_wrt_append)

lemma other_index: "b \<in> ebits x \<Longrightarrow> ElementIndex x \<noteq> ElementIndex y \<Longrightarrow> b \<notin> ebits y"
  by (auto simp: ebits_def)

lemma above_index: "b \<in> ebits x \<Longrightarrow> \<forall>y \<in> set ys. ElementIndex x < ElementIndex y \<Longrightarrow> b \<notin> bitsOf ys"
  using other_index by fastforce

lemma index_above:
  assumes "ElementIndex ` set zs \<subseteq> ElementIndex ` set xs \<union> ElementIndex ` set ys"
    "\<forall>x \<in> set xs. i < ElementIndex x" "\<forall>y \<in> set ys. i < ElementIndex y"
  shows "\<forall>z \<in> set zs. i < ElementIndex z"
proof
  fix z assume "z \<in> set zs"
  then have "ElementIndex z \<in> ElementIndex ` set xs \<union> ElementIndex ` set ys" using assms(1) by blast
  then show "i < ElementIndex z" using assms(2,3) by (auto simp: image_iff)
qed

lemma above_disjoint:
  "\<forall>y \<in> set ys. ElementIndex x < ElementIndex y \<Longrightarrow> ebits x \<inter> bitsOf ys = {}"
  using above_index by blast

lemma split_eq:
  "A \<subseteq> A' \<Longrightarrow> A' \<inter> B = {} \<Longrightarrow> A' \<inter> B' = {} \<Longrightarrow> A' \<union> B' = A \<union> B \<longleftrightarrow> A' = A \<and> B' = B"
  by blast

lemma skip_left:
  "A \<inter> S = {} \<Longrightarrow> S \<inter> (A \<union> B) = S \<inter> B" "A \<inter> S = {} \<Longrightarrow> S - (A \<union> B) = S - B"
  "A \<inter> S = {} \<Longrightarrow> (A \<union> B) \<inter> S = B \<inter> S" "A \<inter> S = {} \<Longrightarrow> (A \<union> B) - S = A \<union> (B - S)"
  by blast+

lemma split_both:
  "A \<inter> D = {} \<Longrightarrow> C \<inter> B = {} \<Longrightarrow> (A \<union> B) \<inter> (C \<union> D) = (A \<inter> C) \<union> (B \<inter> D)"
  "A \<inter> D = {} \<Longrightarrow> C \<inter> B = {} \<Longrightarrow> (A \<union> B) - (C \<union> D) = (A - C) \<union> (B - D)"
  by blast+

lemma bitsOf_Cons: "bitsOf (x # xs) = ebits x \<union> bitsOf xs"
  by simp

lemma ok_nonempty: "el_ok x \<Longrightarrow> \<exists>b. b \<in> ebits x"
  by (auto simp: el_ok_def)

lemma bitsOf_eq_iff:
  assumes "els_ok xs" "els_ok ys"
  shows "bitsOf xs = bitsOf ys \<longleftrightarrow> xs = ys"
proof
  assume "bitsOf xs = bitsOf ys"
  then show "xs = ys" using assms
  proof (induction xs arbitrary: ys)
    case Nil
    then show ?case by (cases ys) (auto simp: els_ok_Cons el_ok_def)
  next
    case (Cons x xs)
    note ok = Cons.prems(2)[unfolded els_ok_Cons]
    obtain y zs where ys: "ys = y # zs"
      using Cons.prems(1) ok ok_nonempty[of x] by (cases ys) auto
    note ok2 = Cons.prems(3)[unfolded ys els_ok_Cons]
    have eq: "b \<in> ebits x \<or> b \<in> bitsOf xs \<longleftrightarrow> b \<in> ebits y \<or> b \<in> bitsOf zs" for b
      using Cons.prems(1) unfolding ys by (auto simp: set_eq_iff)
    have idx: "ElementIndex x = ElementIndex y"
    proof (rule ccontr)
      assume "ElementIndex x \<noteq> ElementIndex y"
      then consider "ElementIndex x < ElementIndex y" | "ElementIndex y < ElementIndex x" by linarith
      then show False
      proof cases
        case 1
        obtain b where b: "b \<in> ebits x" using ok ok_nonempty by blast
        have "\<forall>e \<in> set (y # zs). ElementIndex x < ElementIndex e" using 1 ok2 by auto
        from above_index[OF b this] show False using eq[of b] b by auto
      next
        case 2
        obtain b where b: "b \<in> ebits y" using ok2 ok_nonempty by blast
        have "\<forall>e \<in> set (x # xs). ElementIndex y < ElementIndex e" using 2 ok by auto
        from above_index[OF b this] show False using eq[of b] b by auto
      qed
    qed
    have lt: "\<forall>e \<in> set zs. ElementIndex x < ElementIndex e" "\<forall>e \<in> set xs. ElementIndex y < ElementIndex e"
      using ok ok2 idx by simp_all
    have e: "b \<in> ebits x \<longleftrightarrow> b \<in> ebits y" for b
      using eq[of b] above_index[OF _ lt(1), of b] above_index[OF _ lt(2), of b] by blast
    then have "ebits x = ebits y" by blast
    then have "x = y" using ebits_eq_iff[OF idx] ok ok2 idx by (auto simp: el_ok_def)
    moreover have "bitsOf xs = bitsOf zs"
    proof (rule set_eqI)
      fix b
      have "\<not> (b \<in> ebits x \<and> b \<in> bitsOf xs)" "\<not> (b \<in> ebits y \<and> b \<in> bitsOf zs)"
        using above_index[of b x xs] above_index[of b y zs] ok ok2 by blast+
      then show "b \<in> bitsOf xs \<longleftrightarrow> b \<in> bitsOf zs" using eq[of b] e[of b] by blast
    qed
    then have "xs = zs" using Cons.IH ok ok2 by blast
    ultimately show ?case using ys by simp
  qed
qed simp

lemma eqElems_correct: "els_ok xs \<Longrightarrow> els_ok ys \<Longrightarrow> eqElems xs ys \<longleftrightarrow> xs = ys"
  by (induction xs ys rule: eqElems.induct) (auto simp: els_ok_Cons el_eq_iff)

lemma orElems_correct:
  assumes "els_ok xs" "els_ok ys" "orElems xs ys = (c, zs)"
  shows "els_ok zs \<and> bitsOf zs = bitsOf xs \<union> bitsOf ys \<and> (c \<longleftrightarrow> bitsOf zs \<noteq> bitsOf xs)
    \<and> ElementIndex ` set zs = ElementIndex ` set xs \<union> ElementIndex ` set ys"
  using assms
proof (induction xs ys arbitrary: c zs rule: orElems.induct)
  case (1 xs)
  then show ?case by auto
next
  case (2 y ys)
  obtain c' zs' where r: "orElems [] ys = (c', zs')" by fastforce
  have e: "c" "zs = y # zs'" using "2.prems"(3) by (simp_all add: r)
  from 2(1)[OF _ _ r] "2.prems"(2) have ih: "els_ok zs'" "bitsOf zs' = bitsOf ys" "ElementIndex ` set zs' = ElementIndex ` set ys"
    by (simp_all add: els_ok_Cons)
  have "\<forall>x \<in> set zs'. ElementIndex y < ElementIndex x" using index_above[of zs' ys "[]"] ih(3) "2.prems"(2) by (simp add: els_ok_Cons)
  then show ?case using ih "2.prems"(2) e ok_nonempty[of y] by (auto simp: els_ok_Cons)
next
  case (3 x xs y ys)
  note okx = "3.prems"(1)[unfolded els_ok_Cons] and oky = "3.prems"(2)[unfolded els_ok_Cons]
  consider "ElementIndex y < ElementIndex x" | "ElementIndex x = ElementIndex y" | "ElementIndex x < ElementIndex y" by linarith
  then show ?case
  proof cases
    case less: 1
    obtain c' zs' where r: "orElems (x # xs) ys = (c', zs')" by fastforce
    have e: "c" "zs = y # zs'" using "3.prems"(3) less by (simp_all add: r)
    have ih: "els_ok zs'" "bitsOf zs' = bitsOf (x # xs) \<union> bitsOf ys"
        "ElementIndex ` set zs' = ElementIndex ` set (x # xs) \<union> ElementIndex ` set ys"
      using 3(1)[OF less "3.prems"(1) _ r] oky by simp_all
    have lt: "\<forall>e \<in> set (x # xs). ElementIndex y < ElementIndex e" using okx less by auto
    then have "\<forall>e \<in> set zs'. ElementIndex y < ElementIndex e" using oky by (intro index_above[OF eq_refl[OF ih(3)] lt]) blast
    moreover obtain b where "b \<in> ebits y" using oky ok_nonempty by blast
    then have "b \<in> bitsOf zs" "b \<notin> bitsOf (x # xs)" using above_index[OF _ lt] e(2) by auto
    ultimately show ?thesis using ih oky e by (auto simp: els_ok_Cons)
  next
    case eq: 2
    obtain c' zs' where r: "orElems xs ys = (c', zs')" by fastforce
    obtain x' where u: "el_unionWith y x = (ebits x' \<noteq> ebits x, x')" "ebits x' = ebits x \<union> ebits y" "ElementIndex x' = ElementIndex x" "el_ok x'"
      using el_unionWith_correct[OF eq] okx oky by blast
    have e: "c \<longleftrightarrow> ebits x' \<noteq> ebits x \<or> c'" "zs = x' # zs'" using "3.prems"(3) eq by (auto simp: r u(1))
    have ih: "els_ok zs'" "bitsOf zs' = bitsOf xs \<union> bitsOf ys" "c' \<longleftrightarrow> bitsOf zs' \<noteq> bitsOf xs"
        "ElementIndex ` set zs' = ElementIndex ` set xs \<union> ElementIndex ` set ys"
      using 3(2)[OF _ eq refl u(1)[symmetric] _ _ r] eq okx oky by simp_all
    have above: "\<forall>e \<in> set zs'. ElementIndex x' < ElementIndex e" "\<forall>e \<in> set xs. ElementIndex x' < ElementIndex e"
      using okx oky index_above[OF eq_refl[OF ih(4)], of "ElementIndex x"] unfolding u(3) eq[symmetric] by blast+
    have chg: "bitsOf zs = bitsOf (x # xs) \<longleftrightarrow> ebits x' = ebits x \<and> bitsOf zs' = bitsOf xs"
      unfolding e(2) bitsOf_Cons using u(2) above by (intro split_eq above_disjoint) blast+
    have "bitsOf zs = bitsOf (x # xs) \<union> bitsOf (y # ys)" unfolding e(2) bitsOf_Cons u(2) ih(2) by blast
    moreover have "els_ok zs" unfolding e(2) els_ok_Cons using u(4) above(1) ih(1) by blast
    moreover have "ElementIndex ` set zs = ElementIndex ` set (x # xs) \<union> ElementIndex ` set (y # ys)"
      using ih(4) eq by (auto simp: e(2) u(3))
    moreover have "c \<longleftrightarrow> bitsOf zs \<noteq> bitsOf (x # xs)" using e(1) ih(3) chg by argo
    ultimately show ?thesis by (intro conjI)
  next
    case greater: 3
    then have g: "\<not> ElementIndex y < ElementIndex x" "ElementIndex x \<noteq> ElementIndex y" by simp_all
    obtain c' zs' where r: "orElems xs (y # ys) = (c', zs')" by fastforce
    have e: "c = c'" "zs = x # zs'" using "3.prems"(3) g by (simp_all add: r)
    have ih: "els_ok zs'" "bitsOf zs' = bitsOf xs \<union> bitsOf (y # ys)" "c' \<longleftrightarrow> bitsOf zs' \<noteq> bitsOf xs"
        "ElementIndex ` set zs' = ElementIndex ` set xs \<union> ElementIndex ` set (y # ys)"
      using 3(3)[OF g _ "3.prems"(2) r] okx by simp_all
    have lt: "\<forall>e \<in> set (y # ys). ElementIndex x < ElementIndex e" using oky greater by auto
    then have l: "\<forall>e \<in> set zs'. ElementIndex x < ElementIndex e" using okx by (intro index_above[OF eq_refl[OF ih(4)] _ lt]) blast
    have chg: "bitsOf zs = bitsOf (x # xs) \<longleftrightarrow> ebits x = ebits x \<and> bitsOf zs' = bitsOf xs"
      unfolding e(2) bitsOf_Cons using l okx by (intro split_eq above_disjoint) blast+
    have "bitsOf zs = bitsOf (x # xs) \<union> bitsOf (y # ys)" unfolding e(2) bitsOf_Cons ih(2) by blast
    moreover have "els_ok zs" unfolding e(2) els_ok_Cons using okx l ih(1) by blast
    moreover have "ElementIndex ` set zs = ElementIndex ` set (x # xs) \<union> ElementIndex ` set (y # ys)"
      using ih(4) by (simp add: e(2) insert_commute)
    moreover have "c \<longleftrightarrow> bitsOf zs \<noteq> bitsOf (x # xs)" using e(1) ih(3) chg by argo
    ultimately show ?thesis by (intro conjI)
  qed
qed


text \<open>What is left of an element after an intersection or a subtraction is kept if it has a bit.\<close>

lemma kept_element:
  assumes "els_ok zs'" "ElementIndex ` set zs' \<subseteq> ElementIndex ` set xs" "\<forall>e \<in> set xs. ElementIndex x < ElementIndex e"
    "ElementIndex x' = ElementIndex x" "ebits x' \<noteq> {} \<longrightarrow> el_ok x'" "zs = (if ebits x' = {} then zs' else x' # zs')"
    "ebits x' \<subseteq> ebits x"
  shows "els_ok zs" "bitsOf zs = ebits x' \<union> bitsOf zs'" "ElementIndex ` set zs \<subseteq> ElementIndex ` set (x # xs)"
    "bitsOf zs \<noteq> bitsOf (x # xs) \<longleftrightarrow> ebits x' \<noteq> ebits x \<or> bitsOf zs' \<noteq> bitsOf xs"
proof -
  have above: "\<forall>e \<in> set zs'. ElementIndex x < ElementIndex e"
    using index_above[of zs' xs "[]" "ElementIndex x"] assms(2,3) by simp
  show "els_ok zs" using assms(1,4,5,6) above by (auto simp: els_ok_Cons)
  show b: "bitsOf zs = ebits x' \<union> bitsOf zs'" by (simp add: assms(6))
  show "ElementIndex ` set zs \<subseteq> ElementIndex ` set (x # xs)" using assms(2,4,6) by auto
  have "ebits x \<union> bitsOf xs = ebits x' \<union> bitsOf zs' \<longleftrightarrow> ebits x = ebits x' \<and> bitsOf xs = bitsOf zs'"
    using assms(3,7) above by (intro split_eq above_disjoint)
  then show "bitsOf zs \<noteq> bitsOf (x # xs) \<longleftrightarrow> ebits x' \<noteq> ebits x \<or> bitsOf zs' \<noteq> bitsOf xs"
    unfolding b bitsOf_Cons by argo
qed

lemma andElems_correct:
  assumes "els_ok xs" "els_ok ys" "andElems xs ys = (c, zs)"
  shows "els_ok zs \<and> bitsOf zs = bitsOf xs \<inter> bitsOf ys \<and> (c \<longleftrightarrow> bitsOf zs \<noteq> bitsOf xs)
    \<and> ElementIndex ` set zs \<subseteq> ElementIndex ` set xs"
  using assms
proof (induction xs ys arbitrary: c zs rule: andElems.induct)
  case (1 xs)
  have "bitsOf xs = {} \<longleftrightarrow> xs = []" using bitsOf_eq_iff[OF "1.prems"(1), of "[]"] by simp
  then show ?case using 1 by auto
next
  case (2 y ys)
  then show ?case by auto
next
  case (3 x xs y ys)
  note okx = "3.prems"(1)[unfolded els_ok_Cons] and oky = "3.prems"(2)[unfolded els_ok_Cons]
  consider "ElementIndex y < ElementIndex x" | "ElementIndex x = ElementIndex y" | "ElementIndex x < ElementIndex y" by linarith
  then show ?case
  proof cases
    case less: 1
    then have r: "andElems (x # xs) ys = (c, zs)" using "3.prems"(3) by simp
    have "\<forall>e \<in> set (x # xs). ElementIndex y < ElementIndex e" using okx less by auto
    then have d: "ebits y \<inter> bitsOf (x # xs) = {}" by (rule above_disjoint)
    show ?thesis using 3(1)[OF less "3.prems"(1) oky[THEN conjunct2, THEN conjunct2] r]
      unfolding bitsOf_Cons[of y] skip_left(1)[OF d] .
  next
    case eq: 2
    obtain c' zs' where r: "andElems xs ys = (c', zs')" by fastforce
    obtain x' where u: "el_intersectWith y x = (ebits x' \<noteq> ebits x, ebits x' = {}, x')" "ebits x' = ebits x \<inter> ebits y"
        "ElementIndex x' = ElementIndex x" "ebits x' \<noteq> {} \<longrightarrow> el_ok x'"
      using el_and_correct[OF eq] okx oky by blast
    have e: "c \<longleftrightarrow> ebits x' \<noteq> ebits x \<or> c'" "zs = (if ebits x' = {} then zs' else x' # zs')"
      using "3.prems"(3) eq by (auto simp: r u(1))
    have ih: "els_ok zs'" "bitsOf zs' = bitsOf xs \<inter> bitsOf ys" "c' \<longleftrightarrow> bitsOf zs' \<noteq> bitsOf xs"
        "ElementIndex ` set zs' \<subseteq> ElementIndex ` set xs"
      using 3(2)[OF _ eq refl u(1)[symmetric] refl _ _ r] eq okx oky by simp_all
    have sub: "ebits x' \<subseteq> ebits x" using u(2) by blast
    note k = kept_element[OF ih(1,4) okx[THEN conjunct2, THEN conjunct1] u(3,4) e(2) sub]
    have "ebits x \<inter> bitsOf ys = {}" "ebits y \<inter> bitsOf xs = {}" using okx oky eq by (simp_all add: above_disjoint)
    then have "bitsOf zs = bitsOf (x # xs) \<inter> bitsOf (y # ys)" unfolding k(2) bitsOf_Cons ih(2) u(2)
      by (rule split_both[symmetric])
    moreover have "c \<longleftrightarrow> bitsOf zs \<noteq> bitsOf (x # xs)" using k(4) e(1) ih(3) by argo
    ultimately show ?thesis using k(1,3) by (intro conjI)
  next
    case greater: 3
    then have g: "\<not> ElementIndex y < ElementIndex x" "ElementIndex x \<noteq> ElementIndex y" by simp_all
    obtain c' where r: "andElems xs (y # ys) = (c', zs)" and c: "c" using "3.prems"(3) g by (auto split: prod.splits)
    have ih: "els_ok zs" "bitsOf zs = bitsOf xs \<inter> bitsOf (y # ys)" "ElementIndex ` set zs \<subseteq> ElementIndex ` set xs"
      using 3(3)[OF g _ "3.prems"(2) r] okx by simp_all
    have "\<forall>e \<in> set (y # ys). ElementIndex x < ElementIndex e" using oky greater by auto
    then have d: "ebits x \<inter> bitsOf (y # ys) = {}" by (rule above_disjoint)
    then have z: "bitsOf zs = bitsOf (x # xs) \<inter> bitsOf (y # ys)" unfolding ih(2) bitsOf_Cons[of x] by (simp only: skip_left)
    obtain b where "b \<in> ebits x" using okx ok_nonempty by blast
    then have "b \<notin> bitsOf (y # ys)" "b \<in> bitsOf (x # xs)" using d by auto
    then have "bitsOf zs \<noteq> bitsOf (x # xs)" unfolding z by blast
    then show ?thesis using ih(1,3) c z by (intro conjI) auto
  qed
qed

lemma minusElems_correct:
  assumes "els_ok xs" "els_ok ys" "minusElems xs ys = (c, zs)"
  shows "els_ok zs \<and> bitsOf zs = bitsOf xs - bitsOf ys \<and> (c \<longleftrightarrow> bitsOf zs \<noteq> bitsOf xs)
    \<and> ElementIndex ` set zs \<subseteq> ElementIndex ` set xs"
  using assms
proof (induction xs ys arbitrary: c zs rule: minusElems.induct)
  case (3 x xs y ys)
  note okx = "3.prems"(1)[unfolded els_ok_Cons] and oky = "3.prems"(2)[unfolded els_ok_Cons]
  consider "ElementIndex y < ElementIndex x" | "ElementIndex x = ElementIndex y" | "ElementIndex x < ElementIndex y" by linarith
  then show ?case
  proof cases
    case less: 1
    then have r: "minusElems (x # xs) ys = (c, zs)" using "3.prems"(3) by simp
    have "\<forall>e \<in> set (x # xs). ElementIndex y < ElementIndex e" using okx less by auto
    then have d: "ebits y \<inter> bitsOf (x # xs) = {}" by (rule above_disjoint)
    show ?thesis using 3(1)[OF less "3.prems"(1) oky[THEN conjunct2, THEN conjunct2] r]
      unfolding bitsOf_Cons[of y] skip_left(2)[OF d] .
  next
    case eq: 2
    obtain c' zs' where r: "minusElems xs ys = (c', zs')" by fastforce
    obtain x' where u: "el_intersectWithComplement y x = (ebits x' \<noteq> ebits x, ebits x' = {}, x')" "ebits x' = ebits x - ebits y"
        "ElementIndex x' = ElementIndex x" "ebits x' \<noteq> {} \<longrightarrow> el_ok x'"
      using el_minus_correct[OF eq] okx oky by blast
    have e: "c \<longleftrightarrow> ebits x' \<noteq> ebits x \<or> c'" "zs = (if ebits x' = {} then zs' else x' # zs')"
      using "3.prems"(3) eq by (auto simp: r u(1))
    have ih: "els_ok zs'" "bitsOf zs' = bitsOf xs - bitsOf ys" "c' \<longleftrightarrow> bitsOf zs' \<noteq> bitsOf xs"
        "ElementIndex ` set zs' \<subseteq> ElementIndex ` set xs"
      using 3(2)[OF _ eq refl u(1)[symmetric] refl _ _ r] eq okx oky by simp_all
    have sub: "ebits x' \<subseteq> ebits x" using u(2) by blast
    note k = kept_element[OF ih(1,4) okx[THEN conjunct2, THEN conjunct1] u(3,4) e(2) sub]
    have "ebits x \<inter> bitsOf ys = {}" "ebits y \<inter> bitsOf xs = {}" using okx oky eq by (simp_all add: above_disjoint)
    then have "bitsOf zs = bitsOf (x # xs) - bitsOf (y # ys)" unfolding k(2) bitsOf_Cons ih(2) u(2)
      by (rule split_both[symmetric])
    moreover have "c \<longleftrightarrow> bitsOf zs \<noteq> bitsOf (x # xs)" using k(4) e(1) ih(3) by argo
    ultimately show ?thesis using k(1,3) by (intro conjI)
  next
    case greater: 3
    then have g: "\<not> ElementIndex y < ElementIndex x" "ElementIndex x \<noteq> ElementIndex y" by simp_all
    obtain zs' where r: "minusElems xs (y # ys) = (c, zs')" and z: "zs = x # zs'" using "3.prems"(3) g by (auto split: prod.splits)
    have ih: "els_ok zs'" "bitsOf zs' = bitsOf xs - bitsOf (y # ys)" "c \<longleftrightarrow> bitsOf zs' \<noteq> bitsOf xs"
        "ElementIndex ` set zs' \<subseteq> ElementIndex ` set xs"
      using 3(3)[OF g _ "3.prems"(2) r] okx by simp_all
    have "\<forall>e \<in> set (y # ys). ElementIndex x < ElementIndex e" using oky greater by auto
    then have d: "ebits x \<inter> bitsOf (y # ys) = {}" by (rule above_disjoint)
    have "zs = (if ebits x = {} then zs' else x # zs')" using z okx by (simp add: el_ok_def)
    note k = kept_element[OF ih(1,4) okx[THEN conjunct2, THEN conjunct1] refl impI[OF okx[THEN conjunct1]] this subset_refl]
    have "bitsOf zs = bitsOf (x # xs) - bitsOf (y # ys)" unfolding z bitsOf_Cons[of x] ih(2) skip_left(4)[OF d] ..
    moreover have "c \<longleftrightarrow> bitsOf zs \<noteq> bitsOf (x # xs)" using k(4) ih(3) by argo
    ultimately show ?thesis using k(1,3) by (intro conjI)
  qed
qed auto

lemma intersectElems_correct:
  assumes "els_ok xs" "els_ok ys"
  shows "intersectElems xs ys \<longleftrightarrow> bitsOf xs \<inter> bitsOf ys \<noteq> {}"
  using assms
proof (induction xs ys rule: intersectElems.induct)
  case (3 x xs y ys)
  note okx = "3.prems"(1)[unfolded els_ok_Cons] and oky = "3.prems"(2)[unfolded els_ok_Cons]
  consider "ElementIndex y < ElementIndex x" | "ElementIndex x = ElementIndex y" | "ElementIndex x < ElementIndex y" by linarith
  then show ?case
  proof cases
    case less: 1
    have "\<forall>e \<in> set (x # xs). ElementIndex y < ElementIndex e" using okx less by auto
    then have "ebits y \<inter> bitsOf (x # xs) = {}" by (rule above_disjoint)
    then have "bitsOf (x # xs) \<inter> bitsOf (y # ys) = bitsOf (x # xs) \<inter> bitsOf ys" unfolding bitsOf_Cons[of y] by (rule skip_left)
    then show ?thesis using 3(1)[OF less "3.prems"(1)] oky less by simp
  next
    case eq: 2
    have "ebits x \<inter> bitsOf ys = {}" "ebits y \<inter> bitsOf xs = {}" using okx oky eq by (simp_all add: above_disjoint)
    then have "bitsOf (x # xs) \<inter> bitsOf (y # ys) \<noteq> {} \<longleftrightarrow> ebits x \<inter> ebits y \<noteq> {} \<or> bitsOf xs \<inter> bitsOf ys \<noteq> {}"
      unfolding bitsOf_Cons by (subst split_both) auto
    then show ?thesis using 3(2)[OF _ eq] el_intersects_iff[OF eq] okx oky eq by (cases "el_intersects x y") auto
  next
    case greater: 3
    have "\<forall>e \<in> set (y # ys). ElementIndex x < ElementIndex e" using oky greater by auto
    then have "ebits x \<inter> bitsOf (y # ys) = {}" by (rule above_disjoint)
    then have "bitsOf (x # xs) \<inter> bitsOf (y # ys) = bitsOf xs \<inter> bitsOf (y # ys)" unfolding bitsOf_Cons[of x] by (rule skip_left)
    then show ?thesis using 3(3)[OF _ _ _ "3.prems"(2)] okx greater by simp
  qed
qed simp_all


section \<open>The search\<close>

definition sbv_inv :: "sbv \<Rightarrow> bool" where
  "sbv_inv v \<longleftrightarrow> els_ok (Elements v) \<and> (Elements v \<noteq> [] \<longrightarrow> CurrElementIter v \<le> length (Elements v))"

definition sbits :: "sbv \<Rightarrow> nat set" where
  "sbits v = bitsOf (Elements v)"

lemma searchBackward_correct:
  assumes "idx < ElementIndex (es ! i)"
  shows "searchBackward es idx i \<le> i"
    "searchBackward es idx i = 0 \<or> ElementIndex (es ! searchBackward es idx i) \<le> idx"
    "\<forall>k. searchBackward es idx i < k \<and> k \<le> i \<longrightarrow> idx < ElementIndex (es ! k)"
proof -
  have "searchBackward es idx i \<le> i \<and> (searchBackward es idx i = 0 \<or> ElementIndex (es ! searchBackward es idx i) \<le> idx)
      \<and> (\<forall>k. searchBackward es idx i < k \<and> k \<le> i \<longrightarrow> idx < ElementIndex (es ! k))"
    by (induction i) (auto simp: le_Suc_eq)
  then show "searchBackward es idx i \<le> i"
    "searchBackward es idx i = 0 \<or> ElementIndex (es ! searchBackward es idx i) \<le> idx"
    "\<forall>k. searchBackward es idx i < k \<and> k \<le> i \<longrightarrow> idx < ElementIndex (es ! k)" by blast+
qed

lemma searchForward_correct:
  "i \<le> length es \<Longrightarrow> i \<le> searchForward es idx i \<and> searchForward es idx i \<le> length es
     \<and> (\<forall>k. i \<le> k \<and> k < searchForward es idx i \<longrightarrow> ElementIndex (es ! k) < idx)
     \<and> (searchForward es idx i < length es \<longrightarrow> idx \<le> ElementIndex (es ! searchForward es idx i))"
proof (induction es idx i rule: searchForward.induct)
  case (1 es idx i)
  show ?case
  proof (cases "i < length es \<and> ElementIndex (es ! i) < idx")
    case True
    then have "searchForward es idx i = searchForward es idx (Suc i)" by (subst searchForward.simps) simp
    moreover have "k = i \<or> Suc i \<le> k" if "i \<le> k" for k using that by linarith
    ultimately show ?thesis using 1(1)[OF True] True by (metis Suc_leD Suc_leI)
  next
    case False
    then have "searchForward es idx i = i" by (subst searchForward.simps) argo
    then show ?thesis using False 1(2) by auto
  qed
qed

lemma els_ok_nth: "els_ok es \<Longrightarrow> i < j \<Longrightarrow> j < length es \<Longrightarrow> ElementIndex (es ! i) < ElementIndex (es ! j)"
  by (simp add: els_ok_def sorted_wrt_iff_nth_less)

text \<open>
  \<open>it\<close> is the element with the index \<open>idx\<close>, or there is none, and \<open>p\<close> is where it would go.
\<close>

definition found_at :: "nat \<Rightarrow> sbv_elem list \<Rightarrow> nat \<Rightarrow> bool" where
  "found_at idx es it \<longleftrightarrow> it < length es \<and> ElementIndex (es ! it) = idx"

definition goes_to :: "nat \<Rightarrow> sbv_elem list \<Rightarrow> nat \<Rightarrow> bool" where
  "goes_to idx es p \<longleftrightarrow> p \<le> length es \<and> (\<forall>k < p. ElementIndex (es ! k) < idx)
     \<and> (\<forall>k < length es. p \<le> k \<longrightarrow> idx < ElementIndex (es ! k))"

lemma goes_toI:
  assumes "els_ok es" "p \<le> length es" "p = 0 \<or> ElementIndex (es ! (p - 1)) < idx" "p < length es \<longrightarrow> idx < ElementIndex (es ! p)"
  shows "goes_to idx es p"
  unfolding goes_to_def
proof (intro conjI allI impI)
  fix k assume k: "k < p"
  then have "k = p - 1 \<or> k < p - 1 \<and> p - 1 < length es" using assms(2) by linarith
  then show "ElementIndex (es ! k) < idx" using els_ok_nth[OF assms(1), of k "p - 1"] assms(3) k by auto
next
  fix k assume k: "k < length es" "p \<le> k"
  then show "idx < ElementIndex (es ! k)" using els_ok_nth[OF assms(1), of p k] assms(4) by (cases "p = k") auto
qed (rule assms(2))

lemma FindLowerBound_correct:
  assumes "sbv_inv v" "Elements v \<noteq> []"
  obtains it where "FindLowerBound idx v = (it, v\<lparr>CurrElementIter := it\<rparr>)" "it \<le> length (Elements v)"
    "found_at idx (Elements v) it \<or> (it = length (Elements v) \<or> ElementIndex (Elements v ! it) \<noteq> idx)
       \<and> goes_to idx (Elements v) (if it \<noteq> length (Elements v) \<and> ElementIndex (Elements v ! it) < idx then Suc it else it)"
proof -
  let ?es = "Elements v"
  define cur where "cur = (if CurrElementIter v = length ?es then CurrElementIter v - 1 else CurrElementIter v)"
  have ok: "els_ok ?es" and cur: "cur < length ?es" using assms by (auto simp: sbv_inv_def cur_def)
  define it where "it = (if ElementIndex (?es ! cur) = idx then cur
     else if idx < ElementIndex (?es ! cur) then searchBackward ?es idx cur else searchForward ?es idx cur)"
  have f: "FindLowerBound idx v = (it, v\<lparr>CurrElementIter := it\<rparr>)"
    using assms(2) by (simp add: FindLowerBound_def Let_def cur_def[symmetric] it_def)
  consider "ElementIndex (?es ! cur) = idx" | "idx < ElementIndex (?es ! cur)" | "ElementIndex (?es ! cur) < idx" by linarith
  then show ?thesis
  proof cases
    case 1
    then show ?thesis using f cur by (intro that[of it]) (auto simp: it_def found_at_def)
  next
    case 2
    then have it: "it = searchBackward ?es idx cur" by (simp add: it_def)
    note b = searchBackward_correct[OF 2, folded it]
    show ?thesis
    proof (cases "ElementIndex (?es ! it) = idx")
      case True
      then show ?thesis using f b(1) cur by (intro that[of it]) (auto simp: found_at_def)
    next
      case False
      let ?p = "if it \<noteq> length ?es \<and> ElementIndex (?es ! it) < idx then Suc it else it"
      have itl: "it < length ?es" using b(1) cur by linarith
      have "goes_to idx ?es ?p"
      proof (rule goes_toI[OF ok])
        show "?p \<le> length ?es" using itl by simp
        show "?p = 0 \<or> ElementIndex (?es ! (?p - 1)) < idx" using b(2) False itl by auto
        show "?p < length ?es \<longrightarrow> idx < ElementIndex (?es ! ?p)"
        proof (cases "ElementIndex (?es ! it) < idx")
          case True
          show ?thesis
          proof (cases "Suc it \<le> cur")
            case True
            then show ?thesis using b(3)[rule_format, of "Suc it"] \<open>ElementIndex (?es ! it) < idx\<close> by simp
          next
            case False
            then have "it = cur" using b(1) by linarith
            then show ?thesis using True 2 by simp
          qed
        qed (use False itl in simp)
      qed
      then show ?thesis using f itl False by (intro that[of it]) auto
    qed
  next
    case 3
    then have it: "it = searchForward ?es idx cur" by (simp add: it_def)
    have s: "cur \<le> it" "it \<le> length ?es" "\<forall>k. cur \<le> k \<and> k < it \<longrightarrow> ElementIndex (?es ! k) < idx"
        "it < length ?es \<longrightarrow> idx \<le> ElementIndex (?es ! it)"
      using searchForward_correct[of cur ?es idx] cur unfolding it by auto
    show ?thesis
    proof (cases "found_at idx ?es it")
      case True
      then show ?thesis using f s(2) by (intro that[of it]) auto
    next
      case False
      then have n: "it = length ?es \<or> ElementIndex (?es ! it) \<noteq> idx" using s(2) by (auto simp: found_at_def)
      have "cur \<noteq> it" using 3 s(4) cur by auto
      then have "ElementIndex (?es ! (it - 1)) < idx" using s(1,3) by auto
      then have "goes_to idx ?es it" using s(2,4) n by (intro goes_toI[OF ok]) auto
      moreover have "(if it \<noteq> length ?es \<and> ElementIndex (?es ! it) < idx then Suc it else it) = it" using s(2,4) by auto
      ultimately show ?thesis using f s(2) n by (intro that[of it]) simp_all
    qed
  qed
qed

lemma nth_bits:
  assumes "els_ok es" "it < length es" "b div ElementSize = ElementIndex (es ! it)"
  shows "b \<in> bitsOf es \<longleftrightarrow> b \<in> ebits (es ! it)"
proof
  assume "b \<in> bitsOf es"
  then obtain j where j: "j < length es" "b \<in> ebits (es ! j)" by (auto simp: in_set_conv_nth)
  then have "ElementIndex (es ! j) = ElementIndex (es ! it)" using assms(3) by (simp add: ebits_def)
  then have "j = it" using els_ok_nth[OF assms(1), of j it] els_ok_nth[OF assms(1), of it j] j(1) assms(2) by (metis less_irrefl linorder_neqE_nat)
  then show "b \<in> ebits (es ! it)" using j(2) by simp
qed (use assms(2) in auto)

lemma no_index:
  assumes "goes_to idx es p" "b div ElementSize = idx"
  shows "b \<notin> bitsOf es"
proof
  assume "b \<in> bitsOf es"
  then obtain j where "j < length es" "b \<in> ebits (es ! j)" by (auto simp: in_set_conv_nth)
  then have "ElementIndex (es ! j) = idx" "j < length es" using assms(2) by (simp_all add: ebits_def)
  then show False using assms(1) unfolding goes_to_def by (metis less_irrefl not_le)
qed

section \<open>Single bits\<close>

lemma sbv_test_correct:
  assumes "sbv_inv v"
  obtains v' where "sbv_test b v = (b \<in> sbits v, v')" "sbv_inv v'" "Elements v' = Elements v"
proof (cases "Elements v = []")
  case True
  then show ?thesis using assms by (intro that[of v]) (simp_all add: sbv_test_def sbits_def)
next
  case False
  let ?idx = "b div ElementSize" and ?es = "Elements v"
  obtain it where f: "FindLowerBound ?idx v = (it, v\<lparr>CurrElementIter := it\<rparr>)" "it \<le> length ?es"
      "found_at ?idx ?es it \<or> (it = length ?es \<or> ElementIndex (?es ! it) \<noteq> ?idx)
       \<and> goes_to ?idx ?es (if it \<noteq> length ?es \<and> ElementIndex (?es ! it) < ?idx then Suc it else it)"
    using FindLowerBound_correct[OF assms False] by blast
  have ok: "els_ok ?es" using assms by (simp add: sbv_inv_def)
  have inv: "sbv_inv (v\<lparr>CurrElementIter := it\<rparr>)" using assms f(2) by (simp add: sbv_inv_def)
  show ?thesis
  proof (cases "found_at ?idx ?es it")
    case True
    then have "it < length ?es" "?idx = ElementIndex (?es ! it)" by (simp_all add: found_at_def)
    then show ?thesis using f(1) False inv nth_bits[OF ok, of it b] el_test_iff[of b "?es ! it"]
      by (intro that[of "v\<lparr>CurrElementIter := it\<rparr>"]) (simp_all add: sbv_test_def sbits_def)
  next
    case no: False
    then have "b \<notin> sbits v" using no_index f(3) by (auto simp: sbits_def)
    moreover have "it = length ?es \<or> ElementIndex (?es ! it) \<noteq> ?idx" using no f(2,3) by auto
    ultimately show ?thesis using f(1) False inv
      by (intro that[of "v\<lparr>CurrElementIter := it\<rparr>"]) (auto simp: sbv_test_def)
  qed
qed

lemma els_ok_replace:
  assumes "els_ok es" "it < length es" "el_ok e" "ElementIndex e = ElementIndex (es ! it)"
  shows "els_ok (es[it := e])"
  using assms unfolding els_ok_def
  by (auto simp: sorted_wrt_iff_nth_less nth_list_update dest!: set_update_subset_insert[THEN subsetD])

lemma swap_part:
  "E \<inter> D = {} \<Longrightarrow> E \<inter> T = {} \<Longrightarrow> T \<union> (X \<union> D) = X \<union> (T \<union> (E \<union> D) - E)"
  by blast

lemma bitsOf_replace:
  assumes "els_ok es" "it < length es"
  shows "bitsOf (es[it := e]) = ebits e \<union> (bitsOf es - ebits (es ! it))"
proof -
  have es: "es = take it es @ es ! it # drop (Suc it) es" using assms(2) by (rule id_take_nth_drop)
  then have ok: "els_ok (take it es @ es ! it # drop (Suc it) es)" using assms(1) by simp
  have "ebits (es ! it) \<inter> bitsOf (drop (Suc it) es) = {}"
    using ok by (intro above_disjoint) (simp add: els_ok_append els_ok_Cons)
  moreover have "ebits (es ! it) \<inter> bitsOf (take it es) = {}"
  proof -
    have "ebits x \<inter> ebits (es ! it) = {}" if "x \<in> set (take it es)" for x
    proof -
      have "ElementIndex x \<noteq> ElementIndex (es ! it)" using ok that by (auto simp: els_ok_append)
      then show ?thesis using other_index by blast
    qed
    then show ?thesis by blast
  qed
  ultimately have sw: "bitsOf (take it es) \<union> (ebits e \<union> bitsOf (drop (Suc it) es))
      = ebits e \<union> (bitsOf (take it es) \<union> (ebits (es ! it) \<union> bitsOf (drop (Suc it) es)) - ebits (es ! it))"
    by (intro swap_part)
  have all: "bitsOf es = bitsOf (take it es) \<union> (ebits (es ! it) \<union> bitsOf (drop (Suc it) es))"
    by (subst es) (simp add: Un_ac)
  have "bitsOf (es[it := e]) = bitsOf (take it es) \<union> (ebits e \<union> bitsOf (drop (Suc it) es))"
    using assms(2) by (subst upd_conv_take_nth_drop) (simp_all add: Un_ac)
  then show ?thesis unfolding sw all[symmetric] .
qed

lemma sbv_set_correct:
  assumes "sbv_inv v" "b < 2 ^ 32"
  shows "sbv_inv (sbv_set b v)" "sbits (sbv_set b v) = insert b (sbits v)"
proof -
  let ?idx = "b div ElementSize" and ?es = "Elements v"
  have idx: "?idx < 2 ^ 25" using assms(2) by (simp add: ElementSize_def)
  have ok: "els_ok ?es" using assms(1) by (simp add: sbv_inv_def)
  have "sbv_inv (sbv_set b v) \<and> sbits (sbv_set b v) = insert b (sbits v)"
  proof (cases "\<exists>it. found_at ?idx ?es it")
    case True
    then have ne: "?es \<noteq> []" by (auto simp: found_at_def)
    obtain it where f: "FindLowerBound ?idx v = (it, v\<lparr>CurrElementIter := it\<rparr>)" "it \<le> length ?es"
      "found_at ?idx ?es it \<or> (it = length ?es \<or> ElementIndex (?es ! it) \<noteq> ?idx)
       \<and> goes_to ?idx ?es (if it \<noteq> length ?es \<and> ElementIndex (?es ! it) < ?idx then Suc it else it)"
      using FindLowerBound_correct[OF assms(1) ne] by blast
    have "\<not> goes_to ?idx ?es p" for p using True unfolding goes_to_def found_at_def by (metis less_irrefl not_le)
    then have "found_at ?idx ?es it" using f(3) by blast
    then have it: "it < length ?es" "ElementIndex (?es ! it) = ?idx" by (simp_all add: found_at_def)
    have el: "el_ok (?es ! it)" using ok it(1) by (auto simp: els_ok_def)
    let ?e = "el_set (b mod ElementSize) (?es ! it)"
    have e: "ebits ?e = insert b (ebits (?es ! it))" "ElementIndex ?e = ElementIndex (?es ! it)" "length (Bits ?e) = 2"
      using el_set_correct[of b "?es ! it"] it(2) el by (simp_all add: el_ok_def)
    have "el_ok ?e" using e el by (simp add: el_ok_def)
    have s: "sbv_set b v = v\<lparr>CurrElementIter := it, Elements := ?es[it := ?e]\<rparr>"
      using f(1) ne it by (simp add: sbv_set_def)
    have "sbv_inv (sbv_set b v)" unfolding s using els_ok_replace[OF ok it(1) \<open>el_ok ?e\<close> e(2)] it(1) by (simp add: sbv_inv_def)
    moreover have "sbits (sbv_set b v) = insert b (sbits v)"
      unfolding s using bitsOf_replace[OF ok it(1), of ?e] it(1) e(1) by (auto simp: sbits_def)
    ultimately show ?thesis ..
  next
    case no: False
    have "\<exists>p v1. (if ?es = [] then (0, v\<lparr>Elements := [el_new ?idx]\<rparr>)
             else
               let (it, v1) = FindLowerBound ?idx v;
                   es = Elements v1
               in if it = length es \<or> ElementIndex (es ! it) \<noteq> ?idx then
                    let it = (if it \<noteq> length es \<and> ElementIndex (es ! it) < ?idx then Suc it else it)
                    in (it, v1\<lparr>Elements := insertAt it (el_new ?idx) es\<rparr>)
                  else (it, v1)) = (p, v1) \<and> Elements v1 = insertAt p (el_new ?idx) ?es \<and> goes_to ?idx ?es p"
    proof (cases "?es = []")
      case True
      then show ?thesis by (auto simp: insertAt_def goes_to_def)
    next
      case False
      obtain it where f: "FindLowerBound ?idx v = (it, v\<lparr>CurrElementIter := it\<rparr>)"
        "(it = length ?es \<or> ElementIndex (?es ! it) \<noteq> ?idx)
         \<and> goes_to ?idx ?es (if it \<noteq> length ?es \<and> ElementIndex (?es ! it) < ?idx then Suc it else it)"
        using FindLowerBound_correct[OF assms(1) False, of ?idx] no by blast
      then show ?thesis using False by (simp add: Let_def)
    qed
    then obtain p v1 where p: "(if ?es = [] then (0, v\<lparr>Elements := [el_new ?idx]\<rparr>)
             else
               let (it, v1) = FindLowerBound ?idx v;
                   es = Elements v1
               in if it = length es \<or> ElementIndex (es ! it) \<noteq> ?idx then
                    let it = (if it \<noteq> length es \<and> ElementIndex (es ! it) < ?idx then Suc it else it)
                    in (it, v1\<lparr>Elements := insertAt it (el_new ?idx) es\<rparr>)
                  else (it, v1)) = (p, v1)" "Elements v1 = insertAt p (el_new ?idx) ?es" "goes_to ?idx ?es p" by blast
    let ?e = "el_set (b mod ElementSize) (el_new ?idx)" and ?xs = "take p ?es" and ?ys = "drop p ?es"
    have e: "ebits ?e = {b}" "ElementIndex ?e = ?idx" "length (Bits ?e) = 2"
      using el_set_correct[of b "el_new ?idx"] el_new_correct[of ?idx] by simp_all
    have pl: "p \<le> length ?es" using p(3) by (simp add: goes_to_def)
    have "insertAt p (el_new ?idx) ?es = ?xs @ el_new ?idx # ?ys" "length ?xs = p" using pl by (simp_all add: insertAt_def)
    then have upd: "(insertAt p (el_new ?idx) ?es)[p := el_set (b mod ElementSize) (insertAt p (el_new ?idx) ?es ! p)]
        = ?xs @ ?e # ?ys"
      by (simp add: nth_append list_update_append)
    have s: "Elements (sbv_set b v) = ?xs @ ?e # ?ys" "CurrElementIter (sbv_set b v) = p"
      unfolding sbv_set_def Let_def[of "b div ElementSize"] p(1) by (simp_all add: p(2) upd)
    have "els_ok ?xs \<and> els_ok ?ys \<and> (\<forall>x \<in> set ?xs. \<forall>y \<in> set ?ys. ElementIndex x < ElementIndex y)"
      using ok els_ok_append[of ?xs ?ys] unfolding append_take_drop_id by blast
    moreover have "\<forall>x \<in> set ?xs. ElementIndex x < ?idx"
      using p(3) pl by (auto simp: goes_to_def in_set_conv_nth)
    moreover have "\<forall>y \<in> set ?ys. ?idx < ElementIndex y"
      using p(3) pl by (auto simp: goes_to_def in_set_conv_nth)
    moreover have "el_ok ?e" using e idx by (simp add: el_ok_def)
    ultimately have "els_ok (?xs @ ?e # ?ys)" using e(2) by (auto simp: els_ok_append els_ok_Cons)
    then have "sbv_inv (sbv_set b v)" using s pl by (simp add: sbv_inv_def)
    moreover have "bitsOf ?es = bitsOf (?xs @ ?ys)" by simp
    then have "sbits (sbv_set b v) = insert b (sbits v)" using e(1) unfolding sbits_def s(1) set_append by simp
    ultimately show ?thesis ..
  qed
  then show "sbv_inv (sbv_set b v)" "sbits (sbv_set b v) = insert b (sbits v)" by blast+
qed


lemma sbv_reset_correct:
  assumes "sbv_inv v"
  shows "sbv_inv (sbv_reset b v)" "sbits (sbv_reset b v) = sbits v - {b}"
proof -
  let ?idx = "b div ElementSize" and ?es = "Elements v"
  have ok: "els_ok ?es" using assms(1) by (simp add: sbv_inv_def)
  have "sbv_inv (sbv_reset b v) \<and> sbits (sbv_reset b v) = sbits v - {b}"
  proof (cases "?es = []")
    case True
    then show ?thesis using assms by (simp add: sbv_reset_def sbits_def)
  next
    case ne: False
    obtain it where f: "FindLowerBound ?idx v = (it, v\<lparr>CurrElementIter := it\<rparr>)" "it \<le> length ?es"
      "found_at ?idx ?es it \<or> (it = length ?es \<or> ElementIndex (?es ! it) \<noteq> ?idx)
       \<and> goes_to ?idx ?es (if it \<noteq> length ?es \<and> ElementIndex (?es ! it) < ?idx then Suc it else it)"
      using FindLowerBound_correct[OF assms(1) ne] by blast
    show ?thesis
    proof (cases "found_at ?idx ?es it")
      case no: False
      then have "it = length ?es \<or> ElementIndex (?es ! it) \<noteq> ?idx" using f(2,3) by auto
      then have "sbv_reset b v = v\<lparr>CurrElementIter := it\<rparr>" using f(1) ne by (auto simp: sbv_reset_def)
      moreover have "b \<notin> sbits v" using no_index f(3) no by (auto simp: sbits_def)
      ultimately show ?thesis using assms f(2) by (simp add: sbv_inv_def sbits_def)
    next
      case True
      then have it: "it < length ?es" "ElementIndex (?es ! it) = ?idx" by (simp_all add: found_at_def)
      have el: "el_ok (?es ! it)" using ok it(1) by (auto simp: els_ok_def)
      let ?e = "el_reset (b mod ElementSize) (?es ! it)"
      have e: "ebits ?e = ebits (?es ! it) - {b}" "ElementIndex ?e = ElementIndex (?es ! it)" "length (Bits ?e) = 2"
        using el_reset_correct[of b "?es ! it"] it(2) el by (simp_all add: el_ok_def)
      have others: "ebits ?e \<union> (bitsOf ?es - ebits (?es ! it)) = bitsOf ?es - {b}"
        using e(1) nth_bits[OF ok it(1), of b] it by auto
      show ?thesis
      proof (cases "ebits ?e = {}")
        case False
        then have s: "sbv_reset b v = v\<lparr>CurrElementIter := it, Elements := ?es[it := ?e]\<rparr>"
          using f(1) ne it el_empty_iff[OF e(3)] by (simp add: sbv_reset_def Let_def)
        have "el_ok ?e" using False e el by (simp add: el_ok_def)
        then show ?thesis
          using els_ok_replace[OF ok it(1) _ e(2)] bitsOf_replace[OF ok it(1), of ?e] others it(1)
          unfolding s by (simp add: sbv_inv_def sbits_def)
      next
        case True
        let ?r = "take it ?es @ drop (Suc it) ?es"
        have s: "sbv_reset b v = v\<lparr>CurrElementIter := it, Elements := ?r\<rparr>"
          using True f(1) ne it el_empty_iff[OF e(3)] by (simp add: sbv_reset_def Let_def)
        have "els_ok (take it ?es @ ?es ! it # drop (Suc it) ?es)" using ok id_take_nth_drop[OF it(1)] by simp
        then have "els_ok ?r" by (auto simp: els_ok_append els_ok_Cons)
        moreover have "bitsOf (?es[it := ?e]) = bitsOf ?r" using True it(1) by (subst upd_conv_take_nth_drop) auto
        then have "bitsOf ?r = bitsOf ?es - {b}" using bitsOf_replace[OF ok it(1), of ?e] others by simp
        ultimately show ?thesis unfolding s using it(1) by (auto simp: sbv_inv_def sbits_def)
      qed
    qed
  qed
  then show "sbv_inv (sbv_reset b v)" "sbits (sbv_reset b v) = sbits v - {b}" by blast+
qed

lemma sbv_test_and_set_correct:
  assumes "sbv_inv v" "b < 2 ^ 32"
  obtains v' where "sbv_test_and_set b v = (b \<notin> sbits v, v')" "sbv_inv v'" "sbits v' = insert b (sbits v)"
proof -
  obtain v1 where v1: "sbv_test b v = (b \<in> sbits v, v1)" "sbv_inv v1" "Elements v1 = Elements v"
    using sbv_test_correct[OF assms(1)] by blast
  have same: "sbits v1 = sbits v" using v1(3) by (simp add: sbits_def)
  show ?thesis
  proof (cases "b \<in> sbits v")
    case True
    then show ?thesis using v1 same by (intro that[of v1]) (auto simp: sbv_test_and_set_def)
  next
    case False
    then show ?thesis using v1 same sbv_set_correct[OF v1(2) assms(2)]
      by (intro that[of "sbv_set b v1"]) (simp_all add: sbv_test_and_set_def)
  qed
qed

section \<open>Binary operations\<close>

lemma sbv_or_correct:
  assumes "sbv_inv v" "sbv_inv r"
  obtains v' where "sbv_or r v = (sbits v' \<noteq> sbits v, v')" "sbv_inv v'" "sbits v' = sbits v \<union> sbits r"
proof (cases "Elements r = []")
  case True
  then show ?thesis using assms(1) by (intro that[of v]) (simp_all add: sbv_or_def sbits_def)
next
  case False
  obtain c es where o: "orElems (Elements v) (Elements r) = (c, es)" by fastforce
  have "els_ok (Elements v)" "els_ok (Elements r)" using assms by (simp_all add: sbv_inv_def)
  from orElems_correct[OF this o] have "els_ok es" "bitsOf es = sbits v \<union> sbits r" "c \<longleftrightarrow> bitsOf es \<noteq> sbits v"
    by (simp_all add: sbits_def)
  then show ?thesis using False o
    by (intro that[of "v\<lparr>Elements := es, CurrElementIter := 0\<rparr>"]) (simp_all add: sbv_or_def sbv_inv_def sbits_def)
qed

lemma sbv_and_correct:
  assumes "sbv_inv v" "sbv_inv r"
  obtains v' where "sbv_and r v = (sbits v' \<noteq> sbits v, v')" "sbv_inv v'" "sbits v' = sbits v \<inter> sbits r"
proof (cases "Elements v = [] \<and> Elements r = []")
  case True
  then show ?thesis using assms(1) by (intro that[of v]) (simp_all add: sbv_and_def sbits_def)
next
  case False
  obtain c es where o: "andElems (Elements v) (Elements r) = (c, es)" by fastforce
  have "els_ok (Elements v)" "els_ok (Elements r)" using assms by (simp_all add: sbv_inv_def)
  from andElems_correct[OF this o] have "els_ok es" "bitsOf es = sbits v \<inter> sbits r" "c \<longleftrightarrow> bitsOf es \<noteq> sbits v"
    by (simp_all add: sbits_def)
  moreover have "sbv_and r v = (c, v\<lparr>Elements := es, CurrElementIter := 0\<rparr>)" using False o by (auto simp: sbv_and_def)
  ultimately show ?thesis
    by (intro that[of "v\<lparr>Elements := es, CurrElementIter := 0\<rparr>"]) (simp_all add: sbv_inv_def sbits_def)
qed

lemma sbv_minus_correct:
  assumes "sbv_inv v" "sbv_inv r"
  obtains v' where "sbv_intersectWithComplement r v = (sbits v' \<noteq> sbits v, v')" "sbv_inv v'" "sbits v' = sbits v - sbits r"
proof (cases "Elements v = [] \<or> Elements r = []")
  case True
  then have "sbits v - sbits r = sbits v" by (auto simp: sbits_def)
  then show ?thesis using assms(1) True by (intro that[of v]) (auto simp: sbv_intersectWithComplement_def)
next
  case False
  obtain c es where o: "minusElems (Elements v) (Elements r) = (c, es)" by fastforce
  have "els_ok (Elements v)" "els_ok (Elements r)" using assms by (simp_all add: sbv_inv_def)
  from minusElems_correct[OF this o] have "els_ok es" "bitsOf es = sbits v - sbits r" "c \<longleftrightarrow> bitsOf es \<noteq> sbits v"
    by (simp_all add: sbits_def)
  then show ?thesis using False o
    by (intro that[of "v\<lparr>Elements := es, CurrElementIter := 0\<rparr>"])
      (simp_all add: sbv_intersectWithComplement_def sbv_inv_def sbits_def)
qed

lemma el_complement_minus:
  assumes "length (Bits e) = 2" "length (Bits r) = 2"
  shows "el_complement e r = snd (el_intersectWithComplement r e)"
proof -
  obtain a b c d where "Bits e = [a, b]" "Bits r = [c, d]" using two_words assms by metis
  then show ?thesis using combine_all[of "Bits r" "Bits e" "\<lambda>a b. a AND NOT b"]
    by (cases e) (auto simp: el_complement_def el_intersectWithComplement_def el_new_def)
qed

lemma complementElems_minus: "els_ok xs \<Longrightarrow> els_ok ys \<Longrightarrow> complementElems xs ys = snd (minusElems xs ys)"
proof (induction xs ys rule: complementElems.induct)
  case (3 x xs y ys)
  then show ?case
    using el_complement_minus[of x y] by (auto simp: els_ok_Cons el_ok_def split: prod.splits)
qed auto

lemma sbv_complementOf_correct:
  assumes "sbv_inv r1" "sbv_inv r2"
  shows "sbv_inv (sbv_complementOf r1 r2 v)" "sbits (sbv_complementOf r1 r2 v) = sbits r1 - sbits r2"
proof -
  obtain c es where m: "minusElems (Elements r1) (Elements r2) = (c, es)" by fastforce
  have ok: "els_ok (Elements r1)" "els_ok (Elements r2)" using assms by (simp_all add: sbv_inv_def)
  have "Elements (sbv_complementOf r1 r2 v) = es"
    using complementElems_minus[OF ok] m by (cases "Elements r1"; cases "Elements r2") (auto simp: sbv_complementOf_def)
  moreover have "CurrElementIter (sbv_complementOf r1 r2 v) = 0" by (simp add: sbv_complementOf_def)
  ultimately show "sbv_inv (sbv_complementOf r1 r2 v)" "sbits (sbv_complementOf r1 r2 v) = sbits r1 - sbits r2"
    using minusElems_correct[OF ok m] by (simp_all add: sbv_inv_def sbits_def)
qed

lemma sbv_eq_correct:
  assumes "sbv_inv v" "sbv_inv r"
  shows "sbv_eq v r \<longleftrightarrow> sbits v = sbits r"
proof -
  have ok: "els_ok (Elements v)" "els_ok (Elements r)" using assms by (simp_all add: sbv_inv_def)
  show ?thesis unfolding sbv_eq_def sbits_def eqElems_correct[OF ok] bitsOf_eq_iff[OF ok] ..
qed

lemma sbv_empty_correct:
  assumes "sbv_inv v"
  shows "sbv_empty v \<longleftrightarrow> sbits v = {}"
proof -
  have "els_ok (Elements v)" using assms by (simp add: sbv_inv_def)
  from bitsOf_eq_iff[OF this els_ok_Nil] show ?thesis unfolding sbv_empty_def sbits_def by simp
qed

lemma sbv_intersects_correct:
  assumes "sbv_inv v" "sbv_inv r"
  shows "sbv_intersects v r \<longleftrightarrow> sbits v \<inter> sbits r \<noteq> {}"
proof -
  have "sbv_intersects v r = intersectElems (Elements v) (Elements r)" by (simp add: sbv_intersects_def)
  then show ?thesis using intersectElems_correct assms unfolding sbv_inv_def sbits_def by blast
qed

lemma sbv_contains_correct:
  assumes "sbv_inv v" "sbv_inv r"
  shows "sbv_contains v r \<longleftrightarrow> sbits r \<subseteq> sbits v"
proof -
  obtain w where w: "sbv_and r v = (sbits w \<noteq> sbits v, w)" "sbv_inv w" "sbits w = sbits v \<inter> sbits r"
    using sbv_and_correct[OF assms] by blast
  then have "sbv_contains v r \<longleftrightarrow> sbits w = sbits r" using sbv_eq_correct[OF w(2) assms(2)] by (simp add: sbv_contains_def)
  then show ?thesis unfolding w(3) by blast
qed

lemma ebits_cbv: "length (Bits e) = 2 \<Longrightarrow> ebits e = bits (mk (2 * ElementIndex e) (Bits e))"
proof -
  assume l: "length (Bits e) = 2"
  have "b \<in> ebits e \<longleftrightarrow> b \<in> bits (mk (2 * ElementIndex e) (Bits e))" for b
  proof -
    have "b div WordSize = 2 * (b div ElementSize) + b mod ElementSize div WordSize"
    proof -
      have "b = (2 * (b div ElementSize) + b mod ElementSize div WordSize) * WordSize + b mod WordSize"
        by (subst bit_join[of b]) (simp add: ElementSize_def WordSize_def algebra_simps)
      then show ?thesis using div_mult_self3[of WordSize _ "b mod WordSize"]
        by (metis WordSize_pos add.right_neutral div_less mod_less_divisor not_gr_zero)
    qed
    note q = this
    show ?thesis
    proof (cases "b div ElementSize = ElementIndex e")
      case True
      then show ?thesis using l q word_of_bit(1)[of b] by (auto simp: ebits_def bits_def wordAt_mk)
    next
      case False
      then have "\<not> (2 * ElementIndex e \<le> b div WordSize \<and> b div WordSize < 2 * ElementIndex e + length (Bits e))"
        using q l word_of_bit(1)[of b] by linarith
      then have "wordAt (mk (2 * ElementIndex e) (Bits e)) (b div WordSize) = 0" unfolding wordAt_mk by argo
      then show ?thesis using False by (simp add: ebits_def bits_def)
    qed
  qed
  then show ?thesis by blast
qed

lemma el_count_correct:
  assumes "length (Bits e) = 2"
  shows "el_count e = card (ebits e)" "finite (ebits e)"
proof -
  have p: "countPopulation w \<le> 64" for w
    using length_filter_le[of "bit w" "[0..<WordSize]"] by (simp add: countPopulation_def WordSize_def)
  obtain a b where ab: "Bits e = [a, b]" using two_words[OF assms] by blast
  have "countPopulation a + countPopulation b < 2 ^ 32" using p[of a] p[of b] by simp
  then have "el_count e = countPopulation a + countPopulation b"
    using p[of a] by (simp add: el_count_def ab)
  also have "\<dots> = card (ebits e)" using card_bits[of "2 * ElementIndex e" "[a, b]"] ebits_cbv[OF assms] ab by simp
  finally show "el_count e = card (ebits e)" .
  show "finite (ebits e)" using finite_bits(1) ebits_cbv[OF assms] by simp
qed

lemma sbv_count_correct:
  assumes "sbv_inv v"
  shows "sbv_count v = u32 (card (sbits v))"
proof -
  have "fold (\<lambda>e n. u32 (n + el_count e)) es (u32 n) = u32 (n + card (bitsOf es))" if "els_ok es" for es n
    using that
  proof (induction es arbitrary: n)
    case (Cons e es)
    note ok = Cons.prems[unfolded els_ok_Cons]
    have "finite (bitsOf es)" using ok el_count_correct(2) by (auto simp: els_ok_def el_ok_def)
    moreover have "ebits e \<inter> bitsOf es = {}" using ok by (intro above_disjoint) blast
    ultimately have "card (bitsOf (e # es)) = el_count e + card (bitsOf es)"
      unfolding bitsOf_Cons using ok el_count_correct[of e] by (simp add: card_Un_disjoint el_ok_def)
    moreover have "u32 (u32 n + el_count e) = u32 (n + el_count e)" by (simp add: u32_def mod_simps)
    ultimately show ?case using Cons.IH[of "n + el_count e"] ok by (simp add: add.assoc)
  qed simp
  from this[of "Elements v" 0] assms show ?thesis by (simp add: sbv_count_def sbv_inv_def sbits_def u32_def)
qed


section \<open>Iteration\<close>

definition localBit :: "sbv_elem \<Rightarrow> nat \<Rightarrow> bool" where
  "localBit e n \<longleftrightarrow> n < ElementSize \<and> bit (Bits e ! (n div WordSize)) (n mod WordSize)"

lemma ebits_local: "b \<in> ebits e \<longleftrightarrow> b div ElementSize = ElementIndex e \<and> localBit e (b mod ElementSize)"
  by (simp add: ebits_def localBit_def)

lemma countTrailingZeros_correct:
  assumes "w \<noteq> 0"
  shows "countTrailingZeros w < WordSize" "bit w (countTrailingZeros w)" "\<And>n. n < countTrailingZeros w \<Longrightarrow> \<not> bit w n"
proof -
  have "countTrailingZeros w = seekBit w 0"
    using bit_iff_and_push_bit_not_eq_0[of w] by (simp add: countTrailingZeros_def seekBit_def)
  then show "countTrailingZeros w < WordSize" "bit w (countTrailingZeros w)" "\<And>n. n < countTrailingZeros w \<Longrightarrow> \<not> bit w n"
    using seekBit_correct(2,3,4)[of 0 w] assms by simp_all
qed

lemma firstFrom_correct:
  "case firstFrom ws i of
     None \<Rightarrow> \<forall>w \<in> set ws. w = 0
   | Some n \<Rightarrow> \<exists>k < length ws. n div WordSize = i + k \<and> bit (ws ! k) (n mod WordSize) \<and> (\<forall>j < k. ws ! j = 0)
       \<and> (\<forall>m < n mod WordSize. \<not> bit (ws ! k) m)"
proof (induction ws arbitrary: i)
  case (Cons w ws)
  show ?case
  proof (cases "w = 0")
    case True
    show ?thesis
    proof (cases "firstFrom ws (Suc i)")
      case None
      then show ?thesis using Cons[of "Suc i"] True by simp
    next
      case (Some n)
      then obtain k where k: "k < length ws" "n div WordSize = Suc i + k" "bit (ws ! k) (n mod WordSize)" "\<forall>j < k. ws ! j = 0"
          "\<forall>m < n mod WordSize. \<not> bit (ws ! k) m"
        using Cons[of "Suc i"] by auto
      then show ?thesis using Some True by (auto intro!: exI[of _ "Suc k"] simp: less_Suc_eq_0_disj)
    qed
  next
    case False
    note c = countTrailingZeros_correct[OF False]
    have "(i * WordSize + countTrailingZeros w) div WordSize = i" "(i * WordSize + countTrailingZeros w) mod WordSize = countTrailingZeros w"
      using c(1) by simp_all
    then show ?thesis using False c(2,3) by auto
  qed
qed simp

lemma firstFrom_local:
  assumes "length (Bits e) = 2" "i \<le> 2"
  shows "case firstFrom (drop i (Bits e)) i of
     None \<Rightarrow> \<forall>n. i * WordSize \<le> n \<longrightarrow> \<not> localBit e n
   | Some n \<Rightarrow> localBit e n \<and> i * WordSize \<le> n \<and> (\<forall>m < n. i * WordSize \<le> m \<longrightarrow> \<not> localBit e m)"
proof -
  have z: "\<not> localBit e m" if "Bits e ! (m div WordSize) = 0" for m using that by (simp add: localBit_def)
  have sz: "m div WordSize < 2 \<longleftrightarrow> m < ElementSize" for m by (auto simp: WordSize_def ElementSize_def)
  show ?thesis
  proof (cases "firstFrom (drop i (Bits e)) i")
    case None
    then have w: "\<forall>w \<in> set (drop i (Bits e)). w = 0" using firstFrom_correct[of "drop i (Bits e)" i] by simp
    have "\<not> localBit e n" if "i * WordSize \<le> n" for n
    proof (cases "n < ElementSize")
      case True
      then have "n div WordSize - i < length (drop i (Bits e))" "i \<le> n div WordSize"
        using that assms sz[of n] div_WordSize(2) by auto
      then have "Bits e ! (n div WordSize) \<in> set (drop i (Bits e))" by (auto simp: in_set_conv_nth)
      then show ?thesis using w z by blast
    qed (simp add: localBit_def)
    then show ?thesis using None by simp
  next
    case (Some n)
    then obtain k where k: "k < length (drop i (Bits e))" "n div WordSize = i + k" "bit (drop i (Bits e) ! k) (n mod WordSize)"
        "\<forall>j < k. drop i (Bits e) ! j = 0" "\<forall>m < n mod WordSize. \<not> bit (drop i (Bits e) ! k) m"
      using firstFrom_correct[of "drop i (Bits e)" i] by auto
    have "i + k < 2" using k(1) assms by simp
    then have "localBit e n" using k(1-3) assms sz[of n] by (simp add: localBit_def)
    moreover have "i * WordSize \<le> n" using k(2) div_WordSize(2) by simp
    moreover have "\<not> localBit e m" if m: "m < n" "i * WordSize \<le> m" for m
    proof (cases "m div WordSize = n div WordSize")
      case True
      then have "m mod WordSize < n mod WordSize" using m(1) by (metis div_mult_mod_eq nat_add_left_cancel_less)
      then have "\<not> bit (Bits e ! (m div WordSize)) (m mod WordSize)" using k(1,2,5) True by simp
      then show ?thesis by (simp add: localBit_def)
    next
      case False
      then have "m div WordSize < i + k" using div_le_mono[of m n WordSize] m(1) k(2) by simp
      moreover have "i \<le> m div WordSize" using m(2) div_WordSize(2) by simp
      ultimately have "drop i (Bits e) ! (m div WordSize - i) = 0" using k(4) by (simp add: less_diff_conv2)
      then show ?thesis using z \<open>i \<le> m div WordSize\<close> assms by simp
    qed
    ultimately show ?thesis using Some by simp
  qed
qed

lemma el_find_first_correct:
  assumes "el_ok e"
  obtains n where "el_find_first e = Some n" "localBit e n" "\<And>m. m < n \<Longrightarrow> \<not> localBit e m"
proof -
  have len: "length (Bits e) = 2" using assms by (simp add: el_ok_def)
  note F = firstFrom_local[OF len, of 0]
  show ?thesis
  proof (cases "el_find_first e")
    case None
    then have "\<not> localBit e n" for n using F by (simp add: el_find_first_def)
    then have "ebits e = {}" by (auto simp: ebits_local)
    then show ?thesis using assms by (simp add: el_ok_def)
  next
    case (Some n)
    then show ?thesis using F that by (simp add: el_find_first_def)
  qed
qed

lemma bit_top: "bit (- 1 :: 64 word) n \<longleftrightarrow> n < WordSize"
  by (simp add: WordSize_def)

lemma el_find_next_correct:
  assumes "length (Bits e) = 2"
  shows "case el_find_next cur e of
     None \<Rightarrow> \<forall>n. cur \<le> n \<longrightarrow> \<not> localBit e n
   | Some n \<Rightarrow> localBit e n \<and> cur \<le> n \<and> (\<forall>m. cur \<le> m \<and> m < n \<longrightarrow> \<not> localBit e m)"
proof (cases "cur < ElementSize")
  case False
  then show ?thesis by (auto simp: el_find_next_def localBit_def)
next
  case True
  define p where "p = cur div WordSize"
  define copy where "copy = Bits e ! p AND push_bit (cur mod WordSize) (- 1)"
  have p: "p < 2" using True by (auto simp: p_def WordSize_def ElementSize_def)
  have eq: "el_find_next cur e = (if copy \<noteq> 0 then Some (p * WordSize + countTrailingZeros copy)
      else firstFrom (drop (Suc p) (Bits e)) (Suc p))"
    using True by (simp add: el_find_next_def Let_def p_def copy_def)
  have bits: "bit copy m \<longleftrightarrow> bit (Bits e ! p) m \<and> cur mod WordSize \<le> m \<and> m < WordSize" for m
    unfolding copy_def bit_and_iff bit_push_bit_iff bit_top by (auto simp: WordSize_def dest: bit_imp_le_length)
  have cur: "cur = p * WordSize + cur mod WordSize" by (simp add: p_def)
  have within: "localBit e m \<longleftrightarrow> bit copy (m mod WordSize)" if "cur \<le> m" "m < Suc p * WordSize" for m
  proof -
    have "p \<le> m div WordSize" using that(1) unfolding p_def by (rule div_le_mono)
    moreover have "m div WordSize < Suc p" using that(2) unfolding div_WordSize(1) .
    ultimately have d: "m div WordSize = p" by linarith
    then have "m = p * WordSize + m mod WordSize" using div_mult_mod_eq[of m WordSize] by simp
    then have "cur mod WordSize \<le> m mod WordSize" using that(1) cur by linarith
    moreover have "m < ElementSize" using d p by (auto simp: WordSize_def ElementSize_def)
    ultimately show ?thesis by (simp add: localBit_def bits d)
  qed
  show ?thesis
  proof (cases "copy = 0")
    case False
    let ?c = "countTrailingZeros copy"
    note c = countTrailingZeros_correct[OF False]
    have le: "cur \<le> p * WordSize + ?c" using c(2) cur unfolding bits by linarith
    have lt: "p * WordSize + ?c < Suc p * WordSize" using c(1) by simp
    have "(p * WordSize + ?c) mod WordSize = ?c" using c(1) by simp
    then have "localBit e (p * WordSize + ?c)" using within[OF le lt] c(2) by simp
    moreover have "\<not> localBit e m" if "cur \<le> m" "m < p * WordSize + ?c" for m
    proof -
      have m: "m < Suc p * WordSize" using that(2) lt by (rule less_trans)
      have "p * WordSize \<le> m" using that(1) cur by linarith
      then obtain r where r: "m = p * WordSize + r" by (auto simp: le_iff_add)
      then have "r < WordSize" using m by simp
      then have "m mod WordSize = r" using r by simp
      then have "m mod WordSize < ?c" using that(2) r by simp
      then show ?thesis using within[OF that(1) m] c(3) by simp
    qed
    ultimately show ?thesis using eq False le by simp
  next
    case True
    then have eq': "el_find_next cur e = firstFrom (drop (Suc p) (Bits e)) (Suc p)" using eq by simp
    have none: "\<not> localBit e m" if "cur \<le> m" "m < Suc p * WordSize" for m using within[OF that] True by simp
    have after: "cur \<le> Suc p * WordSize"
    proof -
      have "cur mod WordSize < WordSize" by simp
      then show ?thesis using cur unfolding mult_Suc by linarith
    qed
    have "Suc p \<le> 2" using p by simp
    note F = firstFrom_local[OF assms this]
    show ?thesis
    proof (cases "firstFrom (drop (Suc p) (Bits e)) (Suc p)")
      case None
      then show ?thesis using F none eq' by (simp add: not_le[symmetric]) (metis not_le)
    next
      case (Some n)
      then have "localBit e n" "Suc p * WordSize \<le> n" "\<forall>m < n. Suc p * WordSize \<le> m \<longrightarrow> \<not> localBit e m" using F by simp_all
      then show ?thesis using none after eq' Some by (auto simp: not_le[symmetric])
    qed
  qed
qed


text \<open>An iterator that is not at the end stands on a bit and holds the rest of its word.\<close>

definition valid_sbv_iter :: "sbv_elem list \<Rightarrow> sbv_iter \<Rightarrow> bool" where
  "valid_sbv_iter es it \<longleftrightarrow> AtEnd it \<or> Iter it < length es \<and> BitNumber it \<in> ebits (es ! Iter it)
     \<and> iterBits it = drop_bit (BitNumber it mod WordSize) (Bits (es ! Iter it) ! (BitNumber it mod ElementSize div WordSize))"

definition ahead :: "sbv_elem list \<Rightarrow> sbv_iter \<Rightarrow> nat set" where
  "ahead es it = (if AtEnd it then {} else {x \<in> bitsOf es. BitNumber it \<le> x})"

lemma ebits_order:
  assumes "els_ok es" "i < j" "j < length es" "x \<in> ebits (es ! i)" "y \<in> ebits (es ! j)"
  shows "x < y"
proof -
  have "x div ElementSize < y div ElementSize" using els_ok_nth[OF assms(1-3)] assms(4,5) by (simp add: ebits_def)
  then show ?thesis by (metis div_le_mono not_le)
qed

lemma sbits_less:
  assumes "els_ok es" "b \<in> bitsOf es"
  shows "b < 2 ^ 32"
proof -
  from assms(2) obtain e where "e \<in> set es" "b \<in> ebits e" by blast
  then have "b div ElementSize < 2 ^ 25" using assms(1) by (auto simp: els_ok_def el_ok_def ebits_def)
  then show ?thesis by (simp add: ElementSize_def)
qed

lemma sbits_less_nth: "els_ok es \<Longrightarrow> i < length es \<Longrightarrow> b \<in> ebits (es ! i) \<Longrightarrow> b < 2 ^ 32"
  using sbits_less[of es b] nth_mem by blast

lemma enterElement_correct:
  assumes "els_ok (Elements v)" "i < length (Elements v)"
  obtains it' where "enterElement v i it = Some it'" "valid_sbv_iter (Elements v) it'" "Iter it' = i" "AtEnd it' = AtEnd it"
    "BitNumber it' \<in> ebits (Elements v ! i)" "\<forall>x \<in> ebits (Elements v ! i). BitNumber it' \<le> x"
proof -
  let ?e = "Elements v ! i"
  have el: "el_ok ?e" using assms by (simp add: els_ok_def)
  obtain n where n: "el_find_first ?e = Some n" "localBit ?e n" "\<And>m. m < n \<Longrightarrow> \<not> localBit ?e m"
    using el_find_first_correct[OF el] by blast
  let ?b = "ElementIndex ?e * ElementSize + n"
  have nl: "n < ElementSize" using n(2) by (simp add: localBit_def)
  then have b: "?b div ElementSize = ElementIndex ?e" "?b mod ElementSize = n" by simp_all
  have mem: "?b \<in> ebits ?e" using n(2) b by (simp add: ebits_local)
  then have "?b < 2 ^ 32" using sbits_less_nth[OF assms] by blast
  then have u: "u32 ?b = ?b" by simp
  have mw: "?b mod WordSize = n mod WordSize" using word_of_bit(2)[of ?b] b(2) by simp
  have "?b \<le> x" if "x \<in> ebits ?e" for x
  proof -
    have x: "x div ElementSize = ElementIndex ?e" "localBit ?e (x mod ElementSize)" using that by (simp_all add: ebits_local)
    then have "n \<le> x mod ElementSize" using n(3) by (metis not_le)
    then show ?thesis using x(1) div_mult_mod_eq[of x ElementSize] by simp
  qed
  then show ?thesis
    using n(1) mem u b(2) mw assms(2)
    by (intro that[of "it\<lparr>Iter := i, BitNumber := ?b, WordNumber := n div WordSize,
        iterBits := drop_bit (n mod WordSize) (Bits ?e ! (n div WordSize))\<rparr>"])
      (simp_all add: enterElement_def valid_sbv_iter_def Let_def)
qed

lemma drop_bit_Suc_word: "drop_bit 1 (drop_bit n w) = drop_bit (Suc n) (w :: 64 word)"
  by (simp add: drop_bit_drop_bit del: drop_bit_Suc)

lemma shiftZeros_zero: "shiftZeros n 0 b = (0, b)"
  by (cases n) simp_all

lemma shiftZeros_correct:
  fixes w :: "64 word"
  assumes "bit (drop_bit b w) k" "\<forall>j < k. \<not> bit (drop_bit b w) j" "k < n" "c + k < 2 ^ 32"
  shows "shiftZeros n (drop_bit b w) c = (drop_bit (b + k) w, c + k)"
  using assms
proof (induction k arbitrary: n b c)
  case 0
  obtain n' where n: "n = Suc n'" using 0(3) by (cases n) auto
  have "drop_bit b w AND 1 \<noteq> 0" using 0(1) bit_iff_and_push_bit_not_eq_0[of "drop_bit b w" 0] by simp
  then show ?case using n by simp
next
  case (Suc k)
  obtain n' where n: "n = Suc n'" using Suc.prems(3) by (cases n) auto
  have "\<not> bit (drop_bit b w) 0" using Suc.prems(2) by blast
  then have "drop_bit b w AND 1 = 0" using bit_iff_and_push_bit_not_eq_0[of "drop_bit b w" 0] by simp
  moreover have "drop_bit b w \<noteq> 0" using Suc.prems(1) by auto
  ultimately have "shiftZeros n (drop_bit b w) c = shiftZeros n' (drop_bit (Suc b) w) (u32 (c + 1))"
    using n drop_bit_Suc_word[of b w] by (simp del: drop_bit_Suc)
  moreover have "u32 (c + 1) = c + 1" using Suc.prems(4) by simp
  moreover have "shiftZeros n' (drop_bit (Suc b) w) (c + 1) = (drop_bit (Suc b + k) w, c + 1 + k)"
  proof (rule Suc.IH)
    show "bit (drop_bit (Suc b) w) k" using Suc.prems(1) by (simp add: bit_drop_bit_eq del: drop_bit_Suc)
    show "\<forall>j < k. \<not> bit (drop_bit (Suc b) w) j"
    proof (intro allI impI)
      fix j assume "j < k"
      then have "\<not> bit (drop_bit b w) (Suc j)" using Suc.prems(2) by blast
      then show "\<not> bit (drop_bit (Suc b) w) j" by (simp add: bit_drop_bit_eq del: drop_bit_Suc)
    qed
    show "k < n'" "c + 1 + k < 2 ^ 32" using Suc.prems(3,4) n by simp_all
  qed
  ultimately show ?case by simp
qed


lemma ahead_step:
  assumes "els_ok es" "j < length es" "b \<in> ebits (es ! i)" "b' \<in> ebits (es ! j)"
    "j = i \<and> b < b' \<and> (\<forall>x \<in> ebits (es ! i). b < x \<longrightarrow> b' \<le> x)
     \<or> j = Suc i \<and> (\<forall>x \<in> ebits (es ! i). x \<le> b) \<and> (\<forall>x \<in> ebits (es ! j). b' \<le> x)"
  shows "{x \<in> bitsOf es. b < x} = {x \<in> bitsOf es. b' \<le> x}"
proof -
  have i: "i < length es" using assms(2,5) by linarith
  have "b < b'" using assms(5) ebits_order[OF assms(1) _ assms(2), of i b b'] assms(3,4) by auto
  moreover have "b' \<le> x" if x: "x \<in> bitsOf es" "b < x" for x
  proof -
    obtain k where k: "k < length es" "x \<in> ebits (es ! k)" using x(1) by (auto simp: in_set_conv_nth)
    have "\<not> k < i" using ebits_order[OF assms(1) _ i k(2) assms(3)] x(2) by (meson less_asym)
    then consider "k = i" | "k = Suc i" | "Suc i < k" by linarith
    then show ?thesis
    proof cases
      case 3
      then have "j < k" using assms(5) by linarith
      then show ?thesis using ebits_order[OF assms(1) _ k(1) assms(4) k(2)] by simp
    next
      case 2
      then show ?thesis using assms(5) ebits_order[OF assms(1) _ k(1) assms(4) k(2)] k(2) by auto
    qed (use assms(5) k(2) x(2) in auto)
  qed
  ultimately show ?thesis by (auto intro: less_le_trans)
qed

lemma ebits_after:
  assumes "b \<in> ebits e" "x \<in> ebits e"
  shows "b < x \<longleftrightarrow> b mod ElementSize < x mod ElementSize"
  using assms div_mult_mod_eq[of b ElementSize] div_mult_mod_eq[of x ElementSize]
  by (metis ebits_index nat_add_left_cancel_less)

lemma word_parts: "n div ElementSize = n div WordSize div 2" "n mod ElementSize div WordSize = n div WordSize mod 2"
proof -
  have e: "ElementSize = WordSize * 2" by (simp add: ElementSize_def WordSize_def)
  show "n div ElementSize = n div WordSize div 2" unfolding e by (rule div_mult2_eq)
  have "n mod ElementSize = WordSize * (n div WordSize mod 2) + n mod WordSize" unfolding e by (rule mod_mult2_eq)
  then show "n mod ElementSize div WordSize = n div WordSize mod 2" by simp
qed

lemma sbv_next_correct:
  assumes "els_ok (Elements v)" "valid_sbv_iter (Elements v) it" "\<not> AtEnd it"
  obtains it' where "sbv_next v it = Some it'" "valid_sbv_iter (Elements v) it'"
    "{x \<in> bitsOf (Elements v). BitNumber it < x} = ahead (Elements v) it'"
proof -
  let ?es = "Elements v"
  define i where "i = Iter it"
  define b where "b = BitNumber it"
  define e where "e = ?es ! i"
  define w where "w = Bits e ! (b mod ElementSize div WordSize)"
  have i: "i < length ?es" and mem: "b \<in> ebits e" and ib: "iterBits it = drop_bit (b mod WordSize) w"
    using assms(2,3) by (simp_all add: valid_sbv_iter_def i_def b_def e_def w_def)
  have el: "el_ok e" "length (Bits e) = 2" using assms(1) i by (auto simp: els_ok_def e_def el_ok_def)
  have b32: "b < 2 ^ 32" using sbits_less_nth[OF assms(1) i] mem by (simp only: e_def)
  define r where "r = Suc (b mod WordSize)"
  define it1 where "it1 = it\<lparr>BitNumber := u32 (b + 1), iterBits := drop_bit r w\<rparr>"
  have nx: "sbv_next v it = AdvanceToNextNonZero v it1"
    using drop_bit_Suc_word[of "b mod WordSize" w] by (simp add: sbv_next_def it1_def b_def[symmetric] ib r_def del: drop_bit_Suc)
  have it1: "\<not> AtEnd it1" "Iter it1 = i" "BitNumber it1 = u32 (b + 1)" "iterBits it1 = drop_bit r w"
    using assms(3) by (simp_all add: it1_def i_def)
  show ?thesis
  proof (cases "drop_bit r w = 0")
    case False
    define k where "k = countTrailingZeros (drop_bit r w)"
    note c = countTrailingZeros_correct[OF False, folded k_def]
    have bit: "bit w (r + k)" using c(2) by (simp add: bit_drop_bit_eq)
    then have rk: "r + k < WordSize" using bit_imp_le_length[OF bit] by (simp add: WordSize_def)
    define b' where "b' = b + 1 + k"
    have word: "b' div WordSize = b div WordSize" "b' mod WordSize = r + k"
    proof -
      have "b' = b div WordSize * WordSize + (r + k)"
        using div_mult_mod_eq[of b WordSize] by (simp add: b'_def r_def)
      then show "b' div WordSize = b div WordSize" "b' mod WordSize = r + k" using rk by simp_all
    qed
    have block: "x div ElementSize = b div ElementSize \<and> x mod ElementSize div WordSize = b mod ElementSize div WordSize"
      if "x div WordSize = b div WordSize" for x
    proof -
      show ?thesis unfolding word_parts that by simp
    qed
    have mem': "b' \<in> ebits e" using mem bit block[OF word(1)] word(2) by (simp add: ebits_def w_def)
    have small: "b' < 2 ^ 32" using sbits_less_nth[OF assms(1) i] mem' by (simp only: e_def)
    then have u: "u32 (b + 1) = b + 1" by (simp add: b'_def)
    have sh: "shiftZeros WordSize (drop_bit r w) (u32 (b + 1)) = (drop_bit (r + k) w, b')"
      using shiftZeros_correct[of r w k WordSize "b + 1"] c small rk u by (simp add: b'_def)
    have nz: "drop_bit (r + k) w \<noteq> 0"
    proof
      assume "drop_bit (r + k) w = 0"
      then have "\<not> bit (drop_bit (r + k) w) 0" by simp
      then show False using bit by (simp add: bit_drop_bit_eq)
    qed
    let ?it = "it1\<lparr>iterBits := drop_bit (r + k) w, BitNumber := b'\<rparr>"
    have "sbv_next v it = Some ?it" using it1 sh nz by (simp add: nx AdvanceToNextNonZero_def)
    moreover have "valid_sbv_iter ?es ?it"
      using it1 i mem' word(2) block[OF word(1)] by (simp add: valid_sbv_iter_def e_def[symmetric] w_def)
    moreover have "b' \<le> x" if x: "x \<in> ebits e" "b < x" for x
    proof (rule ccontr)
      assume "\<not> b' \<le> x"
      then have lt: "x < b'" by simp
      have "x div WordSize = b div WordSize"
        using div_le_mono[of b x WordSize] div_le_mono[of x b' WordSize] x(2) lt word(1) by simp
      note bl = block[OF this]
      have "b mod WordSize < x mod WordSize" "x mod WordSize < r + k"
        using x(2) lt word \<open>x div WordSize = b div WordSize\<close> div_mult_mod_eq[of b WordSize] div_mult_mod_eq[of x WordSize]
          div_mult_mod_eq[of b' WordSize] by (metis nat_add_left_cancel_less)+
      then obtain m where m: "x mod WordSize = r + m" "m < k" unfolding r_def
        by (metis Suc_leI add_less_cancel_left le_add_diff_inverse)
      have "bit w (x mod WordSize)" using x(1) bl by (simp add: ebits_def w_def)
      then show False using c(3)[OF m(2)] m(1) by (simp add: bit_drop_bit_eq)
    qed
    then have "{x \<in> bitsOf ?es. b < x} = {x \<in> bitsOf ?es. b' \<le> x}"
      using mem mem' by (intro ahead_step[OF assms(1) i]) (auto simp: e_def b'_def)
    ultimately show ?thesis using it1 by (intro that[of ?it]) (simp_all add: ahead_def b_def)
  next
    case True
    define cc where "cc = u32 (b + 1)"
    have cm: "cc mod ElementSize = Suc b mod ElementSize"
      by (simp add: cc_def u32_def ElementSize_def mod_mod_cancel)
    have sh: "shiftZeros WordSize (drop_bit r w) (u32 (b + 1)) = (0, cc)" using True shiftZeros_zero by (simp add: cc_def)
    let ?f = "if cc mod ElementSize = 0 then None else el_find_next (cc mod ElementSize) e"
    have adv: "sbv_next v it = (let it = it1\<lparr>iterBits := 0, BitNumber := cc\<rparr> in
        case ?f of
          None \<Rightarrow>
            let j = Suc i; it = it\<lparr>Iter := j, WordNumber := 0\<rparr>
            in if j = length ?es then Some (it\<lparr>AtEnd := True\<rparr>) else enterElement v j it
        | Some n \<Rightarrow>
            let wordNumber = n mod ElementSize div WordSize
            in Some (it\<lparr>WordNumber := wordNumber, iterBits := drop_bit (n mod WordSize) (Bits e ! wordNumber),
                 BitNumber := u32 (ElementIndex e * ElementSize + n)\<rparr>))"
      using it1 sh by (simp add: nx AdvanceToNextNonZero_def Let_def e_def cong: option.case_cong)
    have step: "cc mod ElementSize = 0 \<and> b mod ElementSize = ElementSize - 1
        \<or> cc mod ElementSize \<noteq> 0 \<and> cc mod ElementSize = Suc (b mod ElementSize)"
      unfolding cm by (auto simp: mod_Suc ElementSize_def)
    show ?thesis
    proof (cases ?f)
      case None
      have last: "\<forall>x \<in> ebits e. x \<le> b"
      proof (rule ballI, rule ccontr)
        fix x assume x: "x \<in> ebits e" "\<not> x \<le> b"
        then have lt: "b mod ElementSize < x mod ElementSize" using ebits_after[OF mem x(1)] by simp
        moreover have "x mod ElementSize \<le> ElementSize - 1" using word_of_bit(3)[of x] by linarith
        ultimately have ne: "cc mod ElementSize \<noteq> 0" "cc mod ElementSize = Suc (b mod ElementSize)" using step by linarith+
        then have "el_find_next (cc mod ElementSize) e = None" using None by simp
        then have "\<not> localBit e (x mod ElementSize)"
          using el_find_next_correct[OF el(2), of "cc mod ElementSize"] ne(2) lt by simp
        then show False using x(1) by (simp add: ebits_local)
      qed
      let ?it = "it1\<lparr>iterBits := 0, BitNumber := cc, Iter := Suc i, WordNumber := 0\<rparr>"
      show ?thesis
      proof (cases "Suc i = length ?es")
        case True
        then have s: "sbv_next v it = Some (?it\<lparr>AtEnd := True\<rparr>)" using adv None by simp
        have "\<not> b < x" if x: "x \<in> bitsOf ?es" for x
        proof -
          obtain k where k: "k < length ?es" "x \<in> ebits (?es ! k)" using x by (auto simp: in_set_conv_nth)
          then show ?thesis using last ebits_order[OF assms(1) _ i, of k x b] mem True
            by (cases "k = i") (auto simp: e_def less_Suc_eq)
        qed
        then show ?thesis using s by (intro that[of "?it\<lparr>AtEnd := True\<rparr>"]) (auto simp: ahead_def valid_sbv_iter_def b_def)
      next
        case False
        then have j: "Suc i < length ?es" using i by simp
        have s: "sbv_next v it = enterElement v (Suc i) ?it" using adv None False by simp
        obtain it' where it': "enterElement v (Suc i) ?it = Some it'" "valid_sbv_iter ?es it'" "Iter it' = Suc i" "AtEnd it' = AtEnd ?it"
            "BitNumber it' \<in> ebits (?es ! Suc i)" "\<forall>x \<in> ebits (?es ! Suc i). BitNumber it' \<le> x"
          using enterElement_correct[OF assms(1) j, of ?it] by blast
        have "{x \<in> bitsOf ?es. b < x} = {x \<in> bitsOf ?es. BitNumber it' \<le> x}"
          using mem last it'(5,6) by (intro ahead_step[OF assms(1) j, of b i]) (auto simp: e_def)
        then show ?thesis using s it'(1,2,4) it1(1) by (intro that[of it']) (simp_all add: ahead_def b_def)
      qed
    next
      case (Some n)
      then have ne: "cc mod ElementSize = Suc (b mod ElementSize)" and fn: "el_find_next (cc mod ElementSize) e = Some n"
        using step by (auto split: if_splits)
      have n: "localBit e n" "Suc (b mod ElementSize) \<le> n" "\<And>m. Suc (b mod ElementSize) \<le> m \<Longrightarrow> m < n \<Longrightarrow> \<not> localBit e m"
        using el_find_next_correct[OF el(2), of "Suc (b mod ElementSize)"] fn[unfolded ne] by auto
      let ?b = "ElementIndex e * ElementSize + n"
      have nl: "n < ElementSize" using n(1) by (simp add: localBit_def)
      then have bb: "?b div ElementSize = ElementIndex e" "?b mod ElementSize = n" "n mod ElementSize = n" by simp_all
      have mem': "?b \<in> ebits e" using n(1) bb by (simp add: ebits_local)
      have "?b < 2 ^ 32" using sbits_less_nth[OF assms(1) i] mem' by (simp only: e_def)
      then have u: "u32 ?b = ?b" by simp
      have mw: "?b mod WordSize = n mod WordSize" using word_of_bit(2)[of ?b] bb(2) by simp
      let ?it = "it1\<lparr>iterBits := drop_bit (n mod WordSize) (Bits e ! (n div WordSize)), BitNumber := ?b, WordNumber := n div WordSize\<rparr>"
      have s: "sbv_next v it = Some ?it" unfolding adv Some Let_def option.case bb(3) u by simp
      have lt: "b < ?b" using ebits_after[OF mem mem'] bb(2) n(2) by simp
      have "?b \<le> x" if x: "x \<in> ebits e" "b < x" for x
      proof (rule ccontr)
        assume "\<not> ?b \<le> x"
        then have "x mod ElementSize < n" using ebits_after[OF x(1) mem'] bb(2) by simp
        moreover have "Suc (b mod ElementSize) \<le> x mod ElementSize" using ebits_after[OF mem x(1)] x(2) by simp
        ultimately show False using n(3) x(1) by (simp add: ebits_local)
      qed
      then have "{x \<in> bitsOf ?es. b < x} = {x \<in> bitsOf ?es. ?b \<le> x}"
        using mem mem' lt by (intro ahead_step[OF assms(1) i]) (auto simp: e_def)
      moreover have "valid_sbv_iter ?es ?it" using it1 i mem' bb(2) mw by (simp add: valid_sbv_iter_def e_def[symmetric])
      ultimately show ?thesis using s it1 by (intro that[of ?it]) (simp_all add: ahead_def b_def)
    qed
  qed
qed


lemma sbv_loop_correct:
  assumes "els_ok (Elements v)" "valid_sbv_iter (Elements v) it" "card (ahead (Elements v) it) < n"
  shows "sbv_loop n v it = Some (sorted_list_of_set (ahead (Elements v) it))"
  using assms(2,3)
proof (induction n arbitrary: it)
  case (Suc n)
  let ?es = "Elements v"
  show ?case
  proof (cases "AtEnd it")
    case True
    then show ?thesis by (simp add: ahead_def)
  next
    case False
    have mem: "BitNumber it \<in> bitsOf ?es" using Suc.prems(1) False by (auto simp: valid_sbv_iter_def)
    obtain it' where n: "sbv_next v it = Some it'" "valid_sbv_iter ?es it'" "{x \<in> bitsOf ?es. BitNumber it < x} = ahead ?es it'"
      using sbv_next_correct[OF assms(1) Suc.prems(1) False] by blast
    have "ahead ?es it = insert (BitNumber it) {x \<in> bitsOf ?es. BitNumber it < x}"
      using mem False by (auto simp: ahead_def le_less)
    then have S: "ahead ?es it = insert (BitNumber it) (ahead ?es it')" by (simp only: n(3))
    have fresh: "BitNumber it \<notin> ahead ?es it'" and above: "\<forall>x \<in> ahead ?es it'. BitNumber it \<le> x"
      unfolding n(3)[symmetric] by auto
    have "finite (bitsOf ?es)" using assms(1) el_count_correct(2) by (auto simp: els_ok_def el_ok_def)
    then have fin: "finite (ahead ?es it')" by (simp add: ahead_def)
    have "card (ahead ?es it') < n" using Suc.prems(2) S card_insert_disjoint[OF fin fresh] by simp
    then have loop: "sbv_loop n v it' = Some (sorted_list_of_set (ahead ?es it'))" using Suc.IH n(2) by blast
    have "sorted_list_of_set (ahead ?es it) = BitNumber it # sorted_list_of_set (ahead ?es it')"
      unfolding S using fin fresh above by (subst sorted_list_of_set_insert) (auto simp: insort_is_Cons)
    then show ?thesis using False n(1) loop by simp
  qed
qed simp

lemma sbv_elems_correct:
  assumes "sbv_inv v"
  shows "sbv_elems v = Some (sorted_list_of_set (sbits v))" "finite (sbits v)"
proof -
  let ?es = "Elements v"
  have ok: "els_ok ?es" using assms by (simp add: sbv_inv_def)
  obtain it where it: "sbv_begin v = Some it" "valid_sbv_iter ?es it" "ahead ?es it = bitsOf ?es"
  proof (cases "?es = []")
    case True
    then show ?thesis by (intro that) (auto simp: sbv_begin_def valid_sbv_iter_def ahead_def Let_def)
  next
    case False
    let ?it = "\<lparr>AtEnd = False, Iter = 0, BitNumber = 0, WordNumber = 2 ^ 32 - 1, iterBits = 0\<rparr>"
    have l: "0 < length ?es" using False by simp
    obtain it' where e: "enterElement v 0 ?it = Some it'" "valid_sbv_iter ?es it'" "AtEnd it' = AtEnd ?it"
        "BitNumber it' \<in> ebits (?es ! 0)" "\<forall>x \<in> ebits (?es ! 0). BitNumber it' \<le> x"
      using enterElement_correct[OF ok l, of ?it] by blast
    have "BitNumber it' \<le> x" if x: "x \<in> bitsOf ?es" for x
    proof -
      obtain k where k: "k < length ?es" "x \<in> ebits (?es ! k)" using x by (auto simp: in_set_conv_nth)
      show ?thesis using ebits_order[OF ok _ k(1) e(4) k(2)] e(5) k(2) by (cases "k = 0") auto
    qed
    then have "ahead ?es it' = bitsOf ?es" using e(3) by (auto simp: ahead_def)
    moreover have "sbv_begin v = enterElement v 0 ?it" using False by (simp add: sbv_begin_def)
    ultimately show ?thesis using e(1,2) by (intro that[of it']) simp_all
  qed
  have f: "finite (bitsOf ?es)" using ok el_count_correct(2) by (auto simp: els_ok_def el_ok_def)
  then show "finite (sbits v)" by (simp add: sbits_def)
  have "card (bitsOf ?es) \<le> length ?es * ElementSize"
  proof -
    have "card (ebits e) \<le> ElementSize" if "e \<in> set ?es" for e
    proof -
      have "ebits e \<subseteq> {ElementIndex e * ElementSize..<ElementIndex e * ElementSize + ElementSize}"
      proof
        fix b assume "b \<in> ebits e"
        then have eq: "ElementIndex e * ElementSize + b mod ElementSize = b"
          using ebits_index[of b e] div_mult_mod_eq[of b ElementSize] by simp
        have lt: "b mod ElementSize < ElementSize" by (rule word_of_bit)
        show "b \<in> {ElementIndex e * ElementSize..<ElementIndex e * ElementSize + ElementSize}"
          unfolding atLeastLessThan_iff using eq lt by (intro conjI) linarith+
      qed
      from card_mono[OF _ this] show ?thesis by simp
    qed
    then have "(\<Sum>e \<in> set ?es. card (ebits e)) \<le> card (set ?es) * ElementSize"
      using sum_bounded_above[of "set ?es" "\<lambda>e. card (ebits e)" ElementSize] by simp
    also have "\<dots> \<le> length ?es * ElementSize" using card_length[of ?es] by simp
    finally show ?thesis using card_UN_le[of "set ?es" ebits] by simp
  qed
  then have "sbv_loop (Suc (length ?es * ElementSize)) v it = Some (sorted_list_of_set (bitsOf ?es))"
    using sbv_loop_correct[OF ok it(2), unfolded it(3)] le_imp_less_Suc by blast
  then show "sbv_elems v = Some (sorted_list_of_set (sbits v))" using it(1) by (simp add: sbv_elems_def sbits_def)
qed

section \<open>Properties\<close>

text \<open>
  C6: \<^verbatim>\<open>SparseBitVector\<close>, the representation of \<^verbatim>\<open>NodeBS\<close> and of the points-to sets, implements
  finite sets of 32-bit numbers: every operation keeps the representation invariant (elements
  by increasing index, none without a bit), wherever the cached iterator stands, has the effect
  of the set operation, answers for the sets, and reports a change exactly when the set changes.
\<close>

theorem sbv_implements_sets:
  assumes "sbv_inv v" "sbv_inv r" "b < 2 ^ 32"
  shows "(\<exists>w. sbv_test_and_set b v = (b \<notin> sbits v, w) \<and> sbv_inv w \<and> sbits w = insert b (sbits v))
    \<and> sbv_inv (sbv_set b v) \<and> sbits (sbv_set b v) = insert b (sbits v)
    \<and> sbv_inv (sbv_reset b v) \<and> sbits (sbv_reset b v) = sbits v - {b}
    \<and> (\<exists>w. sbv_test b v = (b \<in> sbits v, w) \<and> sbv_inv w \<and> sbits w = sbits v)
    \<and> (\<exists>w. sbv_or r v = (sbits w \<noteq> sbits v, w) \<and> sbv_inv w \<and> sbits w = sbits v \<union> sbits r)
    \<and> (\<exists>w. sbv_and r v = (sbits w \<noteq> sbits v, w) \<and> sbv_inv w \<and> sbits w = sbits v \<inter> sbits r)
    \<and> (\<exists>w. sbv_intersectWithComplement r v = (sbits w \<noteq> sbits v, w) \<and> sbv_inv w \<and> sbits w = sbits v - sbits r)
    \<and> (\<forall>u. sbv_inv (sbv_complementOf v r u) \<and> sbits (sbv_complementOf v r u) = sbits v - sbits r)
    \<and> (sbv_empty v \<longleftrightarrow> sbits v = {}) \<and> (sbv_eq v r \<longleftrightarrow> sbits v = sbits r)
    \<and> (sbv_contains v r \<longleftrightarrow> sbits r \<subseteq> sbits v) \<and> (sbv_intersects v r \<longleftrightarrow> sbits v \<inter> sbits r \<noteq> {})
    \<and> sbv_count v = u32 (card (sbits v))"
proof (intro conjI)
  show "\<exists>w. sbv_test_and_set b v = (b \<notin> sbits v, w) \<and> sbv_inv w \<and> sbits w = insert b (sbits v)"
    by (rule sbv_test_and_set_correct[OF assms(1,3)]) blast
  show "\<exists>w. sbv_test b v = (b \<in> sbits v, w) \<and> sbv_inv w \<and> sbits w = sbits v"
    by (rule sbv_test_correct[OF assms(1), of b]) (auto simp: sbits_def)
  show "\<exists>w. sbv_or r v = (sbits w \<noteq> sbits v, w) \<and> sbv_inv w \<and> sbits w = sbits v \<union> sbits r"
    by (rule sbv_or_correct[OF assms(1,2)]) blast
  show "\<exists>w. sbv_and r v = (sbits w \<noteq> sbits v, w) \<and> sbv_inv w \<and> sbits w = sbits v \<inter> sbits r"
    by (rule sbv_and_correct[OF assms(1,2)]) blast
  show "\<exists>w. sbv_intersectWithComplement r v = (sbits w \<noteq> sbits v, w) \<and> sbv_inv w \<and> sbits w = sbits v - sbits r"
    by (rule sbv_minus_correct[OF assms(1,2)]) blast
  show "\<forall>u. sbv_inv (sbv_complementOf v r u) \<and> sbits (sbv_complementOf v r u) = sbits v - sbits r"
    using sbv_complementOf_correct[OF assms(1,2)] by blast
qed (rule sbv_set_correct[OF assms(1,3)] sbv_reset_correct[OF assms(1)] sbv_empty_correct[OF assms(1)]
    sbv_eq_correct[OF assms(1,2)] sbv_contains_correct[OF assms(1,2)] sbv_intersects_correct[OF assms(1,2)]
    sbv_count_correct[OF assms(1)])+

definition demo_sbv :: sbv where
  "demo_sbv = sbv_set 300 (sbv_set 5 sbv_new)"

lemma demo_sbv_inv: "sbv_inv demo_sbv" "sbits demo_sbv = {5, 300}"
proof -
  have n: "sbv_inv sbv_new" "sbits sbv_new = {}" by (simp_all add: sbv_inv_def sbv_new_def sbits_def)
  show "sbv_inv demo_sbv" "sbits demo_sbv = {5, 300}"
    using sbv_set_correct[OF n(1), of 5] sbv_set_correct[of "sbv_set 5 sbv_new" 300] n by (auto simp: demo_sbv_def)
qed

theorem sbv_implements_sets_witness:
  "\<exists>w. sbv_or demo_sbv (sbv_reset 5 demo_sbv) = (True, w) \<and> sbits w = {5, 300}"
proof -
  let ?v = "sbv_reset 5 demo_sbv"
  have v: "sbv_inv ?v" "sbits ?v = {300}" using sbv_reset_correct[OF demo_sbv_inv(1), of 5] demo_sbv_inv(2) by auto
  have "\<exists>w. sbv_or demo_sbv ?v = (sbits w \<noteq> sbits ?v, w) \<and> sbv_inv w \<and> sbits w = sbits ?v \<union> sbits demo_sbv"
    using sbv_implements_sets[OF v(1) demo_sbv_inv(1), of 0] by simp
  then show ?thesis using v(2) demo_sbv_inv(2) by auto
qed

text \<open>
  C11: A loop over a sparse vector ends and visits exactly the numbers of the set, each once, in
  increasing order.
\<close>

theorem sbv_iteration:
  assumes "sbv_inv v"
  shows "\<exists>bs. sbv_elems v = Some bs \<and> sorted_wrt (<) bs \<and> set bs = sbits v"
  using sbv_elems_correct[OF assms] by (simp add: strict_sorted_iff)

theorem sbv_iteration_witness: "\<exists>bs. sbv_elems demo_sbv = Some bs \<and> set bs = {5, 300}"
  using sbv_iteration[OF demo_sbv_inv(1)] demo_sbv_inv(2) by metis

end
