(* ===== verification/PointsTo.thy ===== *)
theory PointsTo
  imports SparseBitVector_Correct
begin

text \<open>
  \<^verbatim>\<open>PointsTo\<close> of \<^verbatim>\<open>src/SVF/svf/lib/MemoryModel/PointsTo.cpp\<close>: one of the three bit vectors,
  behind a renumbering of the nodes. A vector of the wrong kind, a failing assertion and a node
  outside the renumbering are \<open>None\<close>. A shared pointer to a renumbering is its address with
  what it points to.
\<close>

section \<open>The class\<close>

datatype ptType = SBV | CBV | BV

datatype bitset = Sbv sbv | Cbv cbv | Bv cbv

type_synonym mapping = "nat \<times> nat list"

text \<open>The option \<^verbatim>\<open>pt-type\<close> and the static members.\<close>

record pt_statics =
  PtType :: ptType
  currentBestNodeMapping :: "mapping option"
  currentBestReverseNodeMapping :: "mapping option"

record pointsTo =
  bitset :: bitset
  nodeMapping :: "mapping option"
  reverseNodeMapping :: "mapping option"

definition newBitset :: "ptType \<Rightarrow> bitset option" where
  "newBitset type = (case type of SBV \<Rightarrow> Some (Sbv sbv_new) | CBV \<Rightarrow> Some (Cbv (cbv_new 0)) | BV \<Rightarrow> map_option Bv (bv_new 0))"

definition pts_new :: "pt_statics \<Rightarrow> pointsTo option" where
  "pts_new env =
     map_option (\<lambda>b. \<lparr>bitset = b, nodeMapping = currentBestNodeMapping env,
         reverseNodeMapping = currentBestReverseNodeMapping env\<rparr>) (newBitset (PtType env))"

text \<open>The operations on one and on two sets, by the type.\<close>

definition onBitset :: "(sbv \<Rightarrow> ('a \<times> sbv) option) \<Rightarrow> (cbv \<Rightarrow> ('a \<times> cbv) option) \<Rightarrow> pointsTo \<Rightarrow> ('a \<times> pointsTo) option" where
  "onBitset f g p =
     (case bitset p of
        Cbv v \<Rightarrow> map_option (\<lambda>(x, w). (x, p\<lparr>bitset := Cbv w\<rparr>)) (g v)
      | Sbv v \<Rightarrow> map_option (\<lambda>(x, w). (x, p\<lparr>bitset := Sbv w\<rparr>)) (f v)
      | Bv v \<Rightarrow> map_option (\<lambda>(x, w). (x, p\<lparr>bitset := Bv w\<rparr>)) (g v))"

definition metaSame :: "pointsTo \<Rightarrow> pointsTo \<Rightarrow> bool" where
  "metaSame p r \<longleftrightarrow> map_option fst (nodeMapping p) = map_option fst (nodeMapping r)
     \<and> map_option fst (reverseNodeMapping p) = map_option fst (reverseNodeMapping r)"

definition onBitsets :: "(sbv \<Rightarrow> sbv \<Rightarrow> ('a \<times> sbv) option) \<Rightarrow> (cbv \<Rightarrow> cbv \<Rightarrow> ('a \<times> cbv) option) \<Rightarrow>
    pointsTo \<Rightarrow> pointsTo \<Rightarrow> ('a \<times> pointsTo) option" where
  "onBitsets f g r p =
     (if \<not> metaSame p r then None
      else
        case (bitset p, bitset r) of
          (Cbv v, Cbv w) \<Rightarrow> map_option (\<lambda>(x, u). (x, p\<lparr>bitset := Cbv u\<rparr>)) (g w v)
        | (Sbv v, Sbv w) \<Rightarrow> map_option (\<lambda>(x, u). (x, p\<lparr>bitset := Sbv u\<rparr>)) (f w v)
        | (Bv v, Bv w) \<Rightarrow> map_option (\<lambda>(x, u). (x, p\<lparr>bitset := Bv u\<rparr>)) (g w v)
        | _ \<Rightarrow> None)"

definition getInternalNode :: "nat \<Rightarrow> pointsTo \<Rightarrow> nat option" where
  "getInternalNode n p =
     (case nodeMapping p of None \<Rightarrow> Some n | Some (a, m) \<Rightarrow> if n < length m then Some (m ! n) else None)"

definition getExternalNode :: "nat \<Rightarrow> pointsTo \<Rightarrow> nat option" where
  "getExternalNode n p =
     (case reverseNodeMapping p of None \<Rightarrow> Some n | Some (a, m) \<Rightarrow> if n < length m then Some (m ! n) else None)"

definition pts_empty :: "pointsTo \<Rightarrow> bool" where
  "pts_empty p = (case bitset p of Cbv v \<Rightarrow> cbv_empty v | Sbv v \<Rightarrow> sbv_empty v | Bv v \<Rightarrow> cbv_empty v)"

definition pts_count :: "pointsTo \<Rightarrow> nat" where
  "pts_count p = (case bitset p of Cbv v \<Rightarrow> cbv_count v | Sbv v \<Rightarrow> sbv_count v | Bv v \<Rightarrow> cbv_count v)"

definition pts_clear :: "pointsTo \<Rightarrow> pointsTo" where
  "pts_clear p =
     p\<lparr>bitset := (case bitset p of Cbv v \<Rightarrow> Cbv (cbv_clear v) | Sbv v \<Rightarrow> Sbv (sbv_clear v) | Bv v \<Rightarrow> Bv (cbv_clear v))\<rparr>"

definition pts_test :: "nat \<Rightarrow> pointsTo \<Rightarrow> (bool \<times> pointsTo) option" where
  "pts_test n p =
     do { n \<leftarrow> getInternalNode n p; onBitset (\<lambda>v. Some (sbv_test n v)) (\<lambda>v. Some (cbv_test n v, v)) p }"

definition pts_test_and_set :: "nat \<Rightarrow> pointsTo \<Rightarrow> (bool \<times> pointsTo) option" where
  "pts_test_and_set n p =
     do { n \<leftarrow> getInternalNode n p; onBitset (\<lambda>v. Some (sbv_test_and_set n v)) (cbv_test_and_set n) p }"

definition pts_set :: "nat \<Rightarrow> pointsTo \<Rightarrow> pointsTo option" where
  "pts_set n p =
     do {
       n \<leftarrow> getInternalNode n p;
       map_option snd (onBitset (\<lambda>v. Some ((), sbv_set n v)) (\<lambda>v. map_option (Pair ()) (cbv_set n v)) p)
     }"

definition pts_reset :: "nat \<Rightarrow> pointsTo \<Rightarrow> pointsTo option" where
  "pts_reset n p =
     do {
       n \<leftarrow> getInternalNode n p;
       map_option snd (onBitset (\<lambda>v. Some ((), sbv_reset n v)) (\<lambda>v. map_option (Pair ()) (cbv_reset n v)) p)
     }"

definition pts_contains :: "pointsTo \<Rightarrow> pointsTo \<Rightarrow> bool option" where
  "pts_contains p r =
     map_option fst (onBitsets (\<lambda>w v. Some (sbv_contains v w, v)) (\<lambda>w v. map_option (\<lambda>b. (b, v)) (cbv_contains v w)) r p)"

definition pts_intersects :: "pointsTo \<Rightarrow> pointsTo \<Rightarrow> bool option" where
  "pts_intersects p r =
     map_option fst (onBitsets (\<lambda>w v. Some (sbv_intersects v w, v)) (\<lambda>w v. map_option (\<lambda>b. (b, v)) (cbv_intersects v w)) r p)"

definition pts_eq :: "pointsTo \<Rightarrow> pointsTo \<Rightarrow> bool option" where
  "pts_eq p r = map_option fst (onBitsets (\<lambda>w v. Some (sbv_eq v w, v)) (\<lambda>w v. Some (cbv_eq v w, v)) r p)"

definition pts_or :: "pointsTo \<Rightarrow> pointsTo \<Rightarrow> (bool \<times> pointsTo) option" where
  "pts_or = onBitsets (\<lambda>w v. Some (sbv_or w v)) cbv_or"

definition pts_and :: "pointsTo \<Rightarrow> pointsTo \<Rightarrow> (bool \<times> pointsTo) option" where
  "pts_and = onBitsets (\<lambda>w v. Some (sbv_and w v)) cbv_and"

definition pts_minus :: "pointsTo \<Rightarrow> pointsTo \<Rightarrow> (bool \<times> pointsTo) option" where
  "pts_minus = onBitsets (\<lambda>w v. Some (sbv_intersectWithComplement w v)) cbv_minus"

definition pts_complementOf :: "pointsTo \<Rightarrow> pointsTo \<Rightarrow> pointsTo \<Rightarrow> pointsTo option" where
  "pts_complementOf lhs rhs p =
     (if \<not> metaSame p rhs \<or> \<not> metaSame p lhs then None
      else
        case (bitset p, bitset lhs, bitset rhs) of
          (Cbv u, Cbv v, Cbv w) \<Rightarrow> map_option (\<lambda>x. p\<lparr>bitset := Cbv x\<rparr>) (cbv_intersectWithComplement v w)
        | (Sbv u, Sbv v, Sbv w) \<Rightarrow> Some (p\<lparr>bitset := Sbv (sbv_complementOf v w u)\<rparr>)
        | (Bv u, Bv v, Bv w) \<Rightarrow> map_option (\<lambda>x. p\<lparr>bitset := Bv x\<rparr>) (cbv_intersectWithComplement v w)
        | _ \<Rightarrow> None)"

text \<open>\<^verbatim>\<open>operator|=(const NodeBS&)\<close>, over the nodes of the operand.\<close>

primrec orNodes :: "(nat \<Rightarrow> 'v \<Rightarrow> 'v option) \<Rightarrow> (nat \<Rightarrow> 'v \<Rightarrow> (bool \<times> 'v) option) \<Rightarrow> nat list \<Rightarrow> bool \<Rightarrow> 'v
    \<Rightarrow> (bool \<times> 'v) option" where
  "orNodes ins tas [] changed p = Some (changed, p)"
| "orNodes ins tas (n # ns) changed p =
     (if changed then do { p \<leftarrow> ins n p; orNodes ins tas ns True p }
      else do { (changed, p) \<leftarrow> tas n p; orNodes ins tas ns changed p })"

definition pts_orNodeBS :: "nat oset \<Rightarrow> pointsTo \<Rightarrow> (bool \<times> pointsTo) option" where
  "pts_orNodeBS ns p = orNodes pts_set pts_test_and_set ns False p"

text \<open>A loop over the set: the external numbers, in the order of the internal ones.\<close>

primrec mapO :: "('a \<Rightarrow> 'b option) \<Rightarrow> 'a list \<Rightarrow> 'b list option" where
  "mapO f [] = Some []"
| "mapO f (x # xs) = do { y \<leftarrow> f x; ys \<leftarrow> mapO f xs; Some (y # ys) }"

definition pts_elems :: "pointsTo \<Rightarrow> nat list option" where
  "pts_elems p =
     do {
       ns \<leftarrow> (case bitset p of Cbv v \<Rightarrow> cbv_elems v | Sbv v \<Rightarrow> sbv_elems v | Bv v \<Rightarrow> cbv_elems v);
       mapO (\<lambda>n. getExternalNode n p) ns
     }"

definition pts_find_first :: "pointsTo \<Rightarrow> nat option option" where
  "pts_find_first p = (if pts_count p = 0 then Some None else map_option (\<lambda>ns. Some (hd ns)) (pts_elems p))"

definition pts_toNodeBS :: "pointsTo \<Rightarrow> nat oset option" where
  "pts_toNodeBS p = map_option (\<lambda>ns. oset_insert_all ns []) (pts_elems p)"

definition checkAndRemap :: "pt_statics \<Rightarrow> pointsTo \<Rightarrow> pointsTo option" where
  "checkAndRemap env p =
     (if map_option fst (nodeMapping p) \<noteq> map_option fst (currentBestNodeMapping env) then
        do { newPt \<leftarrow> pts_new env; ns \<leftarrow> pts_elems p; foldO pts_set ns newPt }
      else Some p)"

end
