(* ===== verification/PointsTo_Correct.thy ===== *)
theory PointsTo_Correct
  imports PointsTo
begin

text \<open>
  What a points-to set relies on from the bit vector behind it, and what the users of points-to
  sets rely on from them: the operations implement those of sets of numbers. The same interface
  holds for the sparse vectors, the contiguous ones and for \<^verbatim>\<open>PointsTo\<close>.
\<close>

section \<open>The interface\<close>

text \<open>
  A \<open>bare\<close> vector has no storage: what is joined into it counts as a change when the other
  vector has storage, whatever bits that has, and the test for common elements reads its first
  word all the same.
\<close>

locale bit_set =
  fixes ok :: "nat \<Rightarrow> bool" and inv :: "'v \<Rightarrow> bool" and elems :: "'v \<Rightarrow> nat set"
    and test tas :: "nat \<Rightarrow> 'v \<Rightarrow> (bool \<times> 'v) option" and ins del :: "nat \<Rightarrow> 'v \<Rightarrow> 'v option"
    and join meet diff :: "'v \<Rightarrow> 'v \<Rightarrow> (bool \<times> 'v) option"
    and eq sub meets :: "'v \<Rightarrow> 'v \<Rightarrow> bool option" and bare :: "'v \<Rightarrow> bool"
  assumes test_law: "inv v \<Longrightarrow> ok b \<Longrightarrow> \<exists>w. test b v = Some (b \<in> elems v, w) \<and> inv w \<and> elems w = elems v"
    and tas_law: "inv v \<Longrightarrow> ok b \<Longrightarrow> \<exists>w. tas b v = Some (b \<notin> elems v, w) \<and> inv w \<and> elems w = insert b (elems v)"
    and ins_law: "inv v \<Longrightarrow> ok b \<Longrightarrow> \<exists>w. ins b v = Some w \<and> inv w \<and> elems w = insert b (elems v)"
    and del_law: "inv v \<Longrightarrow> ok b \<Longrightarrow> \<exists>w. del b v = Some w \<and> inv w \<and> elems w = elems v - {b}"
    and join_law: "inv v \<Longrightarrow> inv r \<Longrightarrow> \<exists>w. join r v = Some (if bare v then \<not> bare r else elems w \<noteq> elems v, w)
      \<and> inv w \<and> elems w = elems v \<union> elems r"
    and meet_law: "inv v \<Longrightarrow> inv r \<Longrightarrow> \<exists>w. meet r v = Some (elems w \<noteq> elems v, w) \<and> inv w \<and> elems w = elems v \<inter> elems r"
    and diff_law: "inv v \<Longrightarrow> inv r \<Longrightarrow> \<exists>w. diff r v = Some (elems w \<noteq> elems v, w) \<and> inv w \<and> elems w = elems v - elems r"
    and eq_law: "inv v \<Longrightarrow> inv r \<Longrightarrow> eq v r = Some (elems v = elems r)"
    and sub_law: "inv v \<Longrightarrow> inv r \<Longrightarrow> sub v r = Some (elems r \<subseteq> elems v)"
    and meets_law: "inv v \<Longrightarrow> inv r \<Longrightarrow>
      meets v r = (if (bare v \<or> bare r) \<and> elems v \<union> elems r \<noteq> {} then None else Some (elems v \<inter> elems r \<noteq> {}))"
    and bare_law: "inv v \<Longrightarrow> bare v \<Longrightarrow> elems v = {}"
begin

lemma ins_all:
  assumes "inv v" "\<forall>b \<in> set bs. ok b"
  shows "\<exists>w. foldO ins bs v = Some w \<and> inv w \<and> elems w = elems v \<union> set bs"
  using assms
proof (induction bs arbitrary: v)
  case (Cons b bs)
  then obtain w where "ins b v = Some w" "inv w" "elems w = insert b (elems v)" using ins_law by (metis list.set_intros(1))
  then show ?case using Cons.IH[of w] Cons.prems(2) by auto
qed simp

lemma orNodes_correct:
  assumes "inv v" "\<forall>b \<in> set bs. ok b"
  shows "\<exists>w. orNodes ins tas bs c v = Some (c \<or> elems w \<noteq> elems v, w) \<and> inv w \<and> elems w = elems v \<union> set bs"
  using assms
proof (induction bs arbitrary: c v)
  case (Cons b bs)
  have b: "ok b" using Cons.prems(2) by simp
  show ?case
  proof (cases c)
    case True
    from ins_law[OF Cons.prems(1) b] obtain w where "ins b v = Some w" "inv w" "elems w = insert b (elems v)" by blast
    then show ?thesis using Cons.IH[of w True] Cons.prems(2) True by auto
  next
    case False
    from tas_law[OF Cons.prems(1) b] obtain w where w: "tas b v = Some (b \<notin> elems v, w)" "inv w" "elems w = insert b (elems v)" by blast
    then obtain u where u: "orNodes ins tas bs (b \<notin> elems v) w = Some (b \<notin> elems v \<or> elems u \<noteq> elems w, u)" "inv u" "elems u = elems w \<union> set bs"
      using Cons.IH[of w "b \<notin> elems v"] Cons.prems(2) by auto
    have "(b \<notin> elems v \<or> elems u \<noteq> elems w) = (elems u \<noteq> elems v)" using u(3) w(3) by auto
    then show ?thesis using u w False by auto
  qed
qed simp

lemma extensional:
  assumes "inv v" "inv r" "\<And>b. ok b \<Longrightarrow> map_option fst (test b v) = map_option fst (test b r)" "elems v \<subseteq> Collect ok" "elems r \<subseteq> Collect ok"
  shows "eq v r = Some True"
proof -
  have "b \<in> elems v \<longleftrightarrow> b \<in> elems r" if "ok b" for b
    using test_law[OF assms(1) that] test_law[OF assms(2) that] assms(3)[OF that] by auto
  then have "elems v = elems r" using assms(4,5) by auto
  then show ?thesis using eq_law[OF assms(1,2)] by simp
qed

end

text \<open>
  An interface without bare vectors: the union reports a change exactly when there is one, and
  every intersection test is answered.
\<close>

locale exact_bit_set = bit_set +
  assumes never_bare: "inv v \<Longrightarrow> \<not> bare v"
begin

lemma join_exact: "inv v \<Longrightarrow> inv r \<Longrightarrow> join r v = Some (c, w) \<Longrightarrow> c \<longleftrightarrow> elems w \<noteq> elems v"
  using join_law[of v r] never_bare by auto

lemma meets_total: "inv v \<Longrightarrow> inv r \<Longrightarrow> meets v r = Some (elems v \<inter> elems r \<noteq> {})"
  using meets_law never_bare by simp

lemma join_absorbed: "inv v \<Longrightarrow> inv r \<Longrightarrow> elems r \<subseteq> elems v \<Longrightarrow> \<exists>w. join r v = Some (False, w) \<and> elems w = elems v"
  using join_law[of v r] never_bare[of v] by (auto simp: Un_absorb2)

end

section \<open>The bit vectors\<close>

lemma sbv_is_exact: "sbv_inv v \<Longrightarrow> sbv_inv r \<Longrightarrow> Some (sbv_or r v) = Some (c, w) \<Longrightarrow> c \<longleftrightarrow> sbits w \<noteq> sbits v"
  by (rule sbv_or_correct[of v r]) auto

interpretation sbv: exact_bit_set "\<lambda>b. b < 2 ^ 32" sbv_inv sbits "\<lambda>b v. Some (sbv_test b v)" "\<lambda>b v. Some (sbv_test_and_set b v)"
    "\<lambda>b v. Some (sbv_set b v)" "\<lambda>b v. Some (sbv_reset b v)" "\<lambda>r v. Some (sbv_or r v)" "\<lambda>r v. Some (sbv_and r v)"
    "\<lambda>r v. Some (sbv_intersectWithComplement r v)" "\<lambda>v r. Some (sbv_eq v r)" "\<lambda>v r. Some (sbv_contains v r)"
    "\<lambda>v r. Some (sbv_intersects v r)" "\<lambda>_. False"
proof (unfold_locales, goal_cases)
  case (1 v b)
  show ?case by (rule sbv_test_correct[OF 1(1), of b]) (auto simp: sbits_def)
next
  case (2 v b)
  show ?case by (rule sbv_test_and_set_correct[OF 2]) auto
next
  case (3 v b)
  then show ?case using sbv_set_correct by blast
next
  case (4 v b)
  then show ?case using sbv_reset_correct by blast
next
  case (5 v r)
  obtain w where "sbv_or r v = (sbits w \<noteq> sbits v, w)" "sbv_inv w" "sbits w = sbits v \<union> sbits r"
    by (rule sbv_or_correct[OF 5])
  then show ?case by (intro exI[of _ w]) simp
next
  case (6 v r)
  show ?case by (rule sbv_and_correct[OF 6]) auto
next
  case (7 v r)
  show ?case by (rule sbv_minus_correct[OF 7]) auto
next
  case (8 v r)
  then show ?case by (simp add: sbv_eq_correct)
qed (simp_all add: sbv_eq_correct sbv_contains_correct sbv_intersects_correct)

interpretation cbv: bit_set "\<lambda>b. b < 2 ^ 32" cbv_inv bits "\<lambda>b v. Some (cbv_test b v, v)" cbv_test_and_set cbv_set cbv_reset
    cbv_or cbv_and cbv_minus "\<lambda>v r. Some (cbv_eq v r)" cbv_contains cbv_intersects "\<lambda>v. words v = []"
proof (unfold_locales, goal_cases)
  case (2 v b)
  show ?case by (rule cbv_test_and_set_correct[OF 2]) auto
next
  case (3 v b)
  show ?case by (rule cbv_set_correct[OF 3]) auto
next
  case (4 v b)
  show ?case by (rule cbv_reset_correct[OF 4(1), of b]) auto
next
  case (5 v r)
  obtain v' c where "cbv_or r v = Some (c, v')" "cbv_inv v'" "bits v' = bits v \<union> bits r"
    "c \<longleftrightarrow> (if words v = [] then words r \<noteq> [] else bits v' \<noteq> bits v)" using cbv_or_correct[OF 5] by blast
  then show ?case by (intro exI[of _ v']) simp
next
  case (6 v r)
  show ?case by (rule cbv_and_correct[OF 6]) auto
next
  case (7 v r)
  show ?case by (rule cbv_minus_correct[OF 7]) auto
next
  case (11 v)
  then show ?case by (auto simp: bits_def wordAt_def)
qed (simp_all add: cbv_test_bits cbv_eq_correct cbv_contains_correct cbv_intersects_correct)


section \<open>The renumbering\<close>

type_synonym frame = "ptType \<times> mapping option \<times> mapping option"

definition okNode :: "mapping option \<Rightarrow> nat \<Rightarrow> bool" where
  "okNode m n = (case m of None \<Rightarrow> n < 2 ^ 32 | Some (a, ns) \<Rightarrow> n < length ns)"

definition internal :: "mapping option \<Rightarrow> nat \<Rightarrow> nat" where
  "internal m n = (case m of None \<Rightarrow> n | Some (a, ns) \<Rightarrow> ns ! n)"

text \<open>A renumbering and its reverse.\<close>

definition mapping_ok :: "mapping option \<Rightarrow> mapping option \<Rightarrow> bool" where
  "mapping_ok m r = (case (m, r) of
       (None, None) \<Rightarrow> True
     | (Some (a, ns), Some (b, rs)) \<Rightarrow> length ns \<le> 2 ^ 32 \<and> length rs = length ns
         \<and> (\<forall>i < length ns. ns ! i < length ns \<and> rs ! (ns ! i) = i)
     | _ \<Rightarrow> False)"

definition bitsOfSet :: "bitset \<Rightarrow> nat set" where
  "bitsOfSet b = (case b of Sbv v \<Rightarrow> sbits v | Cbv v \<Rightarrow> bits v | Bv v \<Rightarrow> bits v)"

definition bitset_ok :: "ptType \<Rightarrow> bitset \<Rightarrow> bool" where
  "bitset_ok type b = (case b of Sbv v \<Rightarrow> type = SBV \<and> sbv_inv v | Cbv v \<Rightarrow> type = CBV \<and> cbv_inv v | Bv v \<Rightarrow> type = BV \<and> cbv_inv v)"

definition pts_inv :: "frame \<Rightarrow> pointsTo \<Rightarrow> bool" where
  "pts_inv F p = (case F of (type, m, r) \<Rightarrow> nodeMapping p = m \<and> reverseNodeMapping p = r \<and> mapping_ok m r
     \<and> bitset_ok type (bitset p) \<and> bitsOfSet (bitset p) \<subseteq> Collect (okNode m))"

definition pts_elements :: "pointsTo \<Rightarrow> nat set" where
  "pts_elements p = {n. okNode (nodeMapping p) n \<and> internal (nodeMapping p) n \<in> bitsOfSet (bitset p)}"

lemma internal_bij:
  assumes "mapping_ok m r"
  shows "bij_betw (internal m) (Collect (okNode m)) (Collect (okNode m))"
proof (cases m)
  case None
  then show ?thesis by (simp add: internal_def okNode_def bij_betw_def inj_on_def)
next
  case (Some an)
  obtain a ns where m: "m = Some (a, ns)" using Some by (cases an) auto
  then obtain b rs where r: "\<forall>i < length ns. ns ! i < length ns \<and> rs ! (ns ! i) = i"
    using assms by (auto simp: mapping_ok_def split: option.splits)
  have "inj_on ((!) ns) {..<length ns}" by (rule inj_onI) (metis lessThan_iff r)
  moreover have "(!) ns ` {..<length ns} \<subseteq> {..<length ns}" using r by auto
  ultimately have "bij_betw ((!) ns) {..<length ns} {..<length ns}"
    by (simp add: bij_betw_def endo_inj_surj)
  moreover have "Collect (okNode m) = {..<length ns}" "internal m = (!) ns"
    by (auto simp: m okNode_def internal_def fun_eq_iff)
  ultimately show ?thesis by simp
qed

lemma internal_ok: "mapping_ok m r \<Longrightarrow> okNode m n \<Longrightarrow> okNode m (internal m n)"
  using bij_betw_apply[OF internal_bij, of m r n] by simp

lemma internal_inj: "mapping_ok m r \<Longrightarrow> okNode m i \<Longrightarrow> okNode m j \<Longrightarrow> internal m i = internal m j \<longleftrightarrow> i = j"
  using bij_betw_imp_inj_on[OF internal_bij, of m r] by (auto simp: inj_on_def)

lemma internal_surj: "mapping_ok m r \<Longrightarrow> okNode m b \<Longrightarrow> \<exists>n. okNode m n \<and> internal m n = b"
  using bij_betw_imp_surj_on[OF internal_bij, of m r] by (metis image_iff mem_Collect_eq)

lemma ok_less: "mapping_ok m r \<Longrightarrow> okNode m n \<Longrightarrow> n < 2 ^ 32"
  by (auto simp: mapping_ok_def okNode_def split: option.splits)

lemma getInternalNode_ok: "okNode (nodeMapping p) n \<Longrightarrow> nodeMapping p = None \<or> n < 2 ^ 32 \<Longrightarrow> getInternalNode n p = Some (internal (nodeMapping p) n)"
  by (auto simp: getInternalNode_def okNode_def internal_def split: option.splits)

lemma external_internal:
  assumes "mapping_ok m r" "okNode m n" "reverseNodeMapping p = r"
  shows "getExternalNode (internal m n) p = Some n"
  using assms by (auto simp: mapping_ok_def okNode_def internal_def getExternalNode_def split: option.splits)

text \<open>The sets of external numbers follow those of internal ones.\<close>

lemma elements_update:
  assumes "pts_inv (type, m, r) p" "bitset_ok type b" "bitsOfSet b \<subseteq> Collect (okNode m)"
  shows "pts_inv (type, m, r) (p\<lparr>bitset := b\<rparr>)" "pts_elements (p\<lparr>bitset := b\<rparr>) = {n. okNode m n \<and> internal m n \<in> bitsOfSet b}"
  using assms by (auto simp: pts_inv_def pts_elements_def)

lemma elements_eq:
  assumes "pts_inv (type, m, r) p" "pts_inv (type, m, r) q"
  shows "pts_elements p = pts_elements q \<longleftrightarrow> bitsOfSet (bitset p) = bitsOfSet (bitset q)"
    "pts_elements q \<subseteq> pts_elements p \<longleftrightarrow> bitsOfSet (bitset q) \<subseteq> bitsOfSet (bitset p)"
    "pts_elements p \<inter> pts_elements q \<noteq> {} \<longleftrightarrow> bitsOfSet (bitset p) \<inter> bitsOfSet (bitset q) \<noteq> {}"
proof -
  have E: "pts_elements x = {n. okNode m n \<and> internal m n \<in> bitsOfSet (bitset x)}" if "pts_inv (type, m, r) x" for x
    using that by (simp add: pts_inv_def pts_elements_def)
  have I: "bitsOfSet (bitset x) = internal m ` pts_elements x" if x: "pts_inv (type, m, r) x" for x
  proof -
    have mo: "mapping_ok m r" and sub: "bitsOfSet (bitset x) \<subseteq> Collect (okNode m)" using x by (simp_all add: pts_inv_def)
    show ?thesis
    proof (intro set_eqI iffI)
      fix b assume b: "b \<in> bitsOfSet (bitset x)"
      then obtain n where "okNode m n" "internal m n = b" using internal_surj[OF mo] sub by blast
      then show "b \<in> internal m ` pts_elements x" using b unfolding E[OF x] by blast
    qed (use E[OF x] in blast)
  qed
  have inj: "inj_on (internal m) (pts_elements p \<union> pts_elements q)"
  proof (rule inj_on_subset)
    show "inj_on (internal m) (Collect (okNode m))"
      using assms(1) internal_bij[of m r] by (simp add: pts_inv_def bij_betw_def)
    show "pts_elements p \<union> pts_elements q \<subseteq> Collect (okNode m)" unfolding E[OF assms(1)] E[OF assms(2)] by blast
  qed
  show "pts_elements q \<subseteq> pts_elements p \<longleftrightarrow> bitsOfSet (bitset q) \<subseteq> bitsOfSet (bitset p)"
  proof -
    have "internal m ` pts_elements q \<subseteq> internal m ` pts_elements p
        \<longleftrightarrow> internal m ` (pts_elements p \<union> pts_elements q) = internal m ` pts_elements p"
      unfolding image_Un by blast
    also have "\<dots> \<longleftrightarrow> pts_elements p \<union> pts_elements q = pts_elements p" by (rule inj_on_image_eq_iff[OF inj]) auto
    finally show ?thesis unfolding I[OF assms(1)] I[OF assms(2)] by blast
  qed
  show "pts_elements p = pts_elements q \<longleftrightarrow> bitsOfSet (bitset p) = bitsOfSet (bitset q)"
    unfolding I[OF assms(1)] I[OF assms(2)] using inj_on_image_eq_iff[OF inj] by simp
  have "internal m ` pts_elements p \<inter> internal m ` pts_elements q = internal m ` (pts_elements p \<inter> pts_elements q)"
    using inj_on_image_Int[OF inj, of "pts_elements p" "pts_elements q"] by simp
  then show "pts_elements p \<inter> pts_elements q \<noteq> {} \<longleftrightarrow> bitsOfSet (bitset p) \<inter> bitsOfSet (bitset q) \<noteq> {}"
    unfolding I[OF assms(1)] I[OF assms(2)] by simp
qed


section \<open>Points-to sets\<close>

text \<open>The operations of a points-to set are those of its vector at internal numbers.\<close>

lemma onBitset_correct:
  assumes "pts_inv (type, m, r) p" "okNode m n"
    "\<And>v. sbv_inv v \<Longrightarrow> \<exists>w. f v = Some (x (sbits v), w) \<and> sbv_inv w \<and> sbits w = g (sbits v)"
    "\<And>v. cbv_inv v \<Longrightarrow> \<exists>w. h v = Some (x (bits v), w) \<and> cbv_inv w \<and> bits w = g (bits v)"
    "g (bitsOfSet (bitset p)) \<subseteq> Collect (okNode m)"
  shows "\<exists>w. onBitset f h p = Some (x (bitsOfSet (bitset p)), w) \<and> pts_inv (type, m, r) w
    \<and> pts_elements w = {n. okNode m n \<and> internal m n \<in> g (bitsOfSet (bitset p))}"
proof -
  have "\<exists>b. onBitset f h p = Some (x (bitsOfSet (bitset p)), p\<lparr>bitset := b\<rparr>) \<and> bitset_ok type b \<and> bitsOfSet b = g (bitsOfSet (bitset p))"
  proof (cases "bitset p")
    case (Sbv v)
    then have "sbv_inv v" "type = SBV" using assms(1) by (simp_all add: pts_inv_def bitset_ok_def)
    moreover from assms(3)[OF this(1)] obtain w where "f v = Some (x (sbits v), w)" "sbv_inv w" "sbits w = g (sbits v)" by blast
    ultimately show ?thesis using Sbv by (intro exI[of _ "Sbv w"]) (simp add: onBitset_def bitsOfSet_def bitset_ok_def)
  next
    case (Cbv v)
    then have "cbv_inv v" "type = CBV" using assms(1) by (simp_all add: pts_inv_def bitset_ok_def)
    moreover from assms(4)[OF this(1)] obtain w where "h v = Some (x (bits v), w)" "cbv_inv w" "bits w = g (bits v)" by blast
    ultimately show ?thesis using Cbv by (intro exI[of _ "Cbv w"]) (simp add: onBitset_def bitsOfSet_def bitset_ok_def)
  next
    case (Bv v)
    then have "cbv_inv v" "type = BV" using assms(1) by (simp_all add: pts_inv_def bitset_ok_def)
    moreover from assms(4)[OF this(1)] obtain w where "h v = Some (x (bits v), w)" "cbv_inv w" "bits w = g (bits v)" by blast
    ultimately show ?thesis using Bv by (intro exI[of _ "Bv w"]) (simp add: onBitset_def bitsOfSet_def bitset_ok_def)
  qed
  then show ?thesis using elements_update[OF assms(1)] assms(5) by metis
qed

lemma metaSame_inv: "pts_inv F p \<Longrightarrow> pts_inv F q \<Longrightarrow> metaSame p q"
  by (auto simp: pts_inv_def metaSame_def split: prod.splits)

lemma onBitsets_correct:
  assumes "pts_inv (type, m, r) p" "pts_inv (type, m, r) q"
    "\<And>v w. sbv_inv v \<Longrightarrow> sbv_inv w \<Longrightarrow> \<exists>x u. f w v = Some (x, u) \<and> P x (sbits v) (sbits w) (sbits u) \<and> sbv_inv u"
    "\<And>v w. cbv_inv v \<Longrightarrow> cbv_inv w \<Longrightarrow> \<exists>x u. h w v = Some (x, u) \<and> P x (bits v) (bits w) (bits u) \<and> cbv_inv u"
    "\<And>x A B C. P x A B C \<Longrightarrow> C \<subseteq> A \<union> B"
  shows "\<exists>x u. onBitsets f h q p = Some (x, u) \<and> pts_inv (type, m, r) u
    \<and> P x (bitsOfSet (bitset p)) (bitsOfSet (bitset q)) (bitsOfSet (bitset u))"
proof -
  have ms: "metaSame p q" using assms(1,2) by (rule metaSame_inv)
  have "\<exists>x b. onBitsets f h q p = Some (x, p\<lparr>bitset := b\<rparr>) \<and> bitset_ok type b
      \<and> P x (bitsOfSet (bitset p)) (bitsOfSet (bitset q)) (bitsOfSet b)"
  proof (cases type)
    case SBV
    then obtain v w where vw: "bitset p = Sbv v" "sbv_inv v" "bitset q = Sbv w" "sbv_inv w"
      using assms(1,2) by (auto simp: pts_inv_def bitset_ok_def split: bitset.splits)
    from assms(3)[OF vw(2,4)] obtain x u where "f w v = Some (x, u)" "P x (sbits v) (sbits w) (sbits u)" "sbv_inv u" by blast
    then show ?thesis using vw SBV ms
      by (intro exI[of _ x] exI[of _ "Sbv u"]) (simp add: onBitsets_def bitsOfSet_def bitset_ok_def)
  next
    case CBV
    then obtain v w where vw: "bitset p = Cbv v" "cbv_inv v" "bitset q = Cbv w" "cbv_inv w"
      using assms(1,2) by (auto simp: pts_inv_def bitset_ok_def split: bitset.splits)
    from assms(4)[OF vw(2,4)] obtain x u where "h w v = Some (x, u)" "P x (bits v) (bits w) (bits u)" "cbv_inv u" by blast
    then show ?thesis using vw CBV ms
      by (intro exI[of _ x] exI[of _ "Cbv u"]) (simp add: onBitsets_def bitsOfSet_def bitset_ok_def)
  next
    case BV
    then obtain v w where vw: "bitset p = Bv v" "cbv_inv v" "bitset q = Bv w" "cbv_inv w"
      using assms(1,2) by (auto simp: pts_inv_def bitset_ok_def split: bitset.splits)
    from assms(4)[OF vw(2,4)] obtain x u where "h w v = Some (x, u)" "P x (bits v) (bits w) (bits u)" "cbv_inv u" by blast
    then show ?thesis using vw BV ms
      by (intro exI[of _ x] exI[of _ "Bv u"]) (simp add: onBitsets_def bitsOfSet_def bitset_ok_def)
  qed
  then obtain x b where b: "onBitsets f h q p = Some (x, p\<lparr>bitset := b\<rparr>)" "bitset_ok type b"
      "P x (bitsOfSet (bitset p)) (bitsOfSet (bitset q)) (bitsOfSet b)" by blast
  have "bitsOfSet b \<subseteq> Collect (okNode m)" using assms(5)[OF b(3)] assms(1,2) by (auto simp: pts_inv_def)
  then have "pts_inv (type, m, r) (p\<lparr>bitset := b\<rparr>)" using elements_update(1)[OF assms(1) b(2)] by blast
  then show ?thesis using b(1,3) by (intro exI[of _ x] exI[of _ "p\<lparr>bitset := b\<rparr>"]) simp
qed

lemma elements_bits: "pts_inv (type, m, r) p \<Longrightarrow> pts_elements p = {n. okNode m n \<and> internal m n \<in> bitsOfSet (bitset p)}"
  by (simp add: pts_inv_def pts_elements_def)

lemma pts_point:
  assumes "pts_inv (type, m, r) p" "okNode m n"
  shows "getInternalNode n p = Some (internal m n)" "internal m n < 2 ^ 32" "okNode m (internal m n)"
    "internal m n \<in> bitsOfSet (bitset p) \<longleftrightarrow> n \<in> pts_elements p" "bitsOfSet (bitset p) \<subseteq> Collect (okNode m)"
    "{k. okNode m k \<and> internal m k \<in> insert (internal m n) (bitsOfSet (bitset p))} = insert n (pts_elements p)"
    "{k. okNode m k \<and> internal m k \<in> bitsOfSet (bitset p) - {internal m n}} = pts_elements p - {n}"
proof -
  have mo: "mapping_ok m r" and nm: "nodeMapping p = m" using assms(1) by (simp_all add: pts_inv_def)
  show i: "okNode m (internal m n)" using internal_ok[OF mo assms(2)] .
  show "internal m n < 2 ^ 32" using ok_less[OF mo i] .
  show "getInternalNode n p = Some (internal m n)" using getInternalNode_ok[of p n] ok_less[OF mo assms(2)] assms(2) nm by simp
  show "internal m n \<in> bitsOfSet (bitset p) \<longleftrightarrow> n \<in> pts_elements p" using assms(2) by (simp add: elements_bits[OF assms(1)])
  show "bitsOfSet (bitset p) \<subseteq> Collect (okNode m)" using assms(1) by (simp add: pts_inv_def)
  show "{k. okNode m k \<and> internal m k \<in> insert (internal m n) (bitsOfSet (bitset p))} = insert n (pts_elements p)"
    "{k. okNode m k \<and> internal m k \<in> bitsOfSet (bitset p) - {internal m n}} = pts_elements p - {n}"
    using internal_inj[OF mo _ assms(2)] assms(2) by (auto simp: elements_bits[OF assms(1)])
qed


lemma pts_test_correct:
  assumes "pts_inv (type, m, r) p" "okNode m n"
  shows "\<exists>w. pts_test n p = Some (n \<in> pts_elements p, w) \<and> pts_inv (type, m, r) w \<and> pts_elements w = pts_elements p"
proof -
  note pt = pts_point[OF assms]
  have "\<exists>w. onBitset (\<lambda>v. Some (sbv_test (internal m n) v)) (\<lambda>v. Some (cbv_test (internal m n) v, v)) p
      = Some (internal m n \<in> bitsOfSet (bitset p), w) \<and> pts_inv (type, m, r) w
      \<and> pts_elements w = {k. okNode m k \<and> internal m k \<in> bitsOfSet (bitset p)}"
    by (rule onBitset_correct[OF assms, where x = "\<lambda>B. internal m n \<in> B" and g = "\<lambda>B. B"])
      (erule sbv.test_law[OF _ pt(2)] cbv.test_law[OF _ pt(2)] | rule pt(5))+
  then show ?thesis using pt(1) unfolding elements_bits[OF assms(1), symmetric] pt(4) by (simp add: pts_test_def)
qed

lemma pts_tas_correct:
  assumes "pts_inv (type, m, r) p" "okNode m n"
  shows "\<exists>w. pts_test_and_set n p = Some (n \<notin> pts_elements p, w) \<and> pts_inv (type, m, r) w
    \<and> pts_elements w = insert n (pts_elements p)"
proof -
  note pt = pts_point[OF assms]
  have "\<exists>w. onBitset (\<lambda>v. Some (sbv_test_and_set (internal m n) v)) (cbv_test_and_set (internal m n)) p
      = Some (internal m n \<notin> bitsOfSet (bitset p), w) \<and> pts_inv (type, m, r) w
      \<and> pts_elements w = {k. okNode m k \<and> internal m k \<in> insert (internal m n) (bitsOfSet (bitset p))}"
    by (rule onBitset_correct[OF assms, where x = "\<lambda>B. internal m n \<notin> B" and g = "insert (internal m n)"])
      (use sbv.tas_law cbv.tas_law pt in blast)+
  then show ?thesis using pt(1,4,6) by (simp add: pts_test_and_set_def)
qed

lemma pts_set_correct:
  assumes "pts_inv (type, m, r) p" "okNode m n"
  shows "\<exists>w. pts_set n p = Some w \<and> pts_inv (type, m, r) w \<and> pts_elements w = insert n (pts_elements p)"
proof -
  note pt = pts_point[OF assms]
  have "\<exists>w. onBitset (\<lambda>v. Some ((), sbv_set (internal m n) v)) (\<lambda>v. map_option (Pair ()) (cbv_set (internal m n) v)) p
      = Some ((), w) \<and> pts_inv (type, m, r) w
      \<and> pts_elements w = {k. okNode m k \<and> internal m k \<in> insert (internal m n) (bitsOfSet (bitset p))}"
  proof (rule onBitset_correct[OF assms, where x = "\<lambda>B. ()" and g = "insert (internal m n)"])
    fix v :: cbv assume "cbv_inv v"
    from cbv.ins_law[OF this pt(2)] show "\<exists>w. map_option (Pair ()) (cbv_set (internal m n) v) = Some ((), w) \<and> cbv_inv w
      \<and> bits w = insert (internal m n) (bits v)" by auto
  qed (use sbv_set_correct pt in blast)+
  then show ?thesis using pt(1,6) by (auto simp: pts_set_def)
qed

lemma pts_reset_correct:
  assumes "pts_inv (type, m, r) p" "okNode m n"
  shows "\<exists>w. pts_reset n p = Some w \<and> pts_inv (type, m, r) w \<and> pts_elements w = pts_elements p - {n}"
proof -
  note pt = pts_point[OF assms]
  have "\<exists>w. onBitset (\<lambda>v. Some ((), sbv_reset (internal m n) v)) (\<lambda>v. map_option (Pair ()) (cbv_reset (internal m n) v)) p
      = Some ((), w) \<and> pts_inv (type, m, r) w
      \<and> pts_elements w = {k. okNode m k \<and> internal m k \<in> bitsOfSet (bitset p) - {internal m n}}"
  proof (rule onBitset_correct[OF assms, where x = "\<lambda>B. ()" and g = "\<lambda>B. B - {internal m n}"])
    fix v :: cbv assume "cbv_inv v"
    from cbv.del_law[OF this pt(2)] show "\<exists>w. map_option (Pair ()) (cbv_reset (internal m n) v) = Some ((), w) \<and> cbv_inv w
      \<and> bits w = bits v - {internal m n}" by auto
  qed (use sbv_reset_correct pt in blast)+
  then show ?thesis using pt(1,7) by (auto simp: pts_reset_def)
qed

lemma pts_combine:
  assumes "pts_inv (type, m, r) p" "pts_inv (type, m, r) q" "pts_inv (type, m, r) u"
  shows "bitsOfSet (bitset u) = bitsOfSet (bitset p) \<union> bitsOfSet (bitset q) \<Longrightarrow> pts_elements u = pts_elements p \<union> pts_elements q"
    "bitsOfSet (bitset u) = bitsOfSet (bitset p) \<inter> bitsOfSet (bitset q) \<Longrightarrow> pts_elements u = pts_elements p \<inter> pts_elements q"
    "bitsOfSet (bitset u) = bitsOfSet (bitset p) - bitsOfSet (bitset q) \<Longrightarrow> pts_elements u = pts_elements p - pts_elements q"
  unfolding elements_bits[OF assms(1)] elements_bits[OF assms(2)] elements_bits[OF assms(3)] by auto

text \<open>Sets of one frame have vectors of one kind.\<close>

lemma pts_kinds:
  assumes "pts_inv (type, m, r) p" "pts_inv (type, m, r) q"
  obtains (sparse) v w where "type = SBV" "bitset p = Sbv v" "sbv_inv v" "bitset q = Sbv w" "sbv_inv w"
    | (core) v w where "type = CBV" "bitset p = Cbv v" "cbv_inv v" "bitset q = Cbv w" "cbv_inv w"
    | (bit) v w where "type = BV" "bitset p = Bv v" "cbv_inv v" "bitset q = Bv w" "cbv_inv w"
  using assms by (cases "bitset p"; cases "bitset q") (auto simp: pts_inv_def bitset_ok_def)

text \<open>A set whose vector has no words.\<close>

definition pts_bare :: "pointsTo \<Rightarrow> bool" where
  "pts_bare p = (case bitset p of Sbv v \<Rightarrow> False | Cbv v \<Rightarrow> words v = [] | Bv v \<Rightarrow> words v = [])"

lemma pts_bare_empty:
  assumes "pts_inv F p" "pts_bare p"
  shows "pts_elements p = {}"
  using assms(2) by (auto simp: pts_bare_def pts_elements_def bitsOfSet_def bits_def wordAt_def split: bitset.splits if_splits)

lemma pts_or_correct:
  assumes "pts_inv (type, m, r) p" "pts_inv (type, m, r) q"
  shows "\<exists>w. pts_or q p = Some (if pts_bare p then \<not> pts_bare q else pts_elements w \<noteq> pts_elements p, w)
    \<and> pts_inv (type, m, r) w \<and> pts_elements w = pts_elements p \<union> pts_elements q"
proof -
  let ?c = "\<lambda>b. if pts_bare p then \<not> pts_bare q else bitsOfSet b \<noteq> bitsOfSet (bitset p)"
  have ms: "metaSame p q" using assms by (rule metaSame_inv)
  have "\<exists>b. pts_or q p = Some (?c b, p\<lparr>bitset := b\<rparr>) \<and> bitset_ok type b \<and> bitsOfSet b = bitsOfSet (bitset p) \<union> bitsOfSet (bitset q)"
    using assms
  proof (cases rule: pts_kinds)
    case (sparse v w)
    from sbv.join_law[OF sparse(3,5)] obtain u where "sbv_or w v = (sbits u \<noteq> sbits v, u)" "sbv_inv u" "sbits u = sbits v \<union> sbits w"
      by auto
    then show ?thesis using sparse ms
      by (intro exI[of _ "Sbv u"]) (simp add: pts_or_def onBitsets_def bitset_ok_def bitsOfSet_def pts_bare_def)
  next
    case (core v w)
    from cbv.join_law[OF core(3,5)] obtain u where "cbv_or w v = Some (if words v = [] then \<not> words w = [] else bits u \<noteq> bits v, u)"
      "cbv_inv u" "bits u = bits v \<union> bits w" by blast
    then show ?thesis using core ms
      by (intro exI[of _ "Cbv u"]) (simp add: pts_or_def onBitsets_def bitset_ok_def bitsOfSet_def pts_bare_def)
  next
    case (bit v w)
    from cbv.join_law[OF bit(3,5)] obtain u where "cbv_or w v = Some (if words v = [] then \<not> words w = [] else bits u \<noteq> bits v, u)"
      "cbv_inv u" "bits u = bits v \<union> bits w" by blast
    then show ?thesis using bit ms
      by (intro exI[of _ "Bv u"]) (simp add: pts_or_def onBitsets_def bitset_ok_def bitsOfSet_def pts_bare_def)
  qed
  then obtain b where b: "pts_or q p = Some (?c b, p\<lparr>bitset := b\<rparr>)" "bitset_ok type b"
      "bitsOfSet b = bitsOfSet (bitset p) \<union> bitsOfSet (bitset q)" by blast
  have "bitsOfSet b \<subseteq> Collect (okNode m)" using b(3) assms by (auto simp: pts_inv_def)
  then have inv: "pts_inv (type, m, r) (p\<lparr>bitset := b\<rparr>)" using elements_update(1)[OF assms(1) b(2)] by blast
  have "pts_elements (p\<lparr>bitset := b\<rparr>) = pts_elements p \<union> pts_elements q"
    using b(3) by (intro pts_combine(1)[OF assms inv]) simp
  moreover have "bitsOfSet b = bitsOfSet (bitset p) \<longleftrightarrow> pts_elements (p\<lparr>bitset := b\<rparr>) = pts_elements p"
    using elements_eq(1)[OF inv assms(1)] by simp
  ultimately show ?thesis using b(1) inv by (intro exI[of _ "p\<lparr>bitset := b\<rparr>"]) simp
qed

lemma flag_form:
  "\<exists>w. F = Some (E w \<noteq> A, w) \<and> I w \<and> E w = X \<Longrightarrow> \<exists>c u. F = Some (c, u) \<and> (E u = X \<and> c = (E u \<noteq> A)) \<and> I u"
  by blast

lemma pts_and_correct:
  assumes "pts_inv (type, m, r) p" "pts_inv (type, m, r) q"
  shows "\<exists>w. pts_and q p = Some (pts_elements w \<noteq> pts_elements p, w) \<and> pts_inv (type, m, r) w
    \<and> pts_elements w = pts_elements p \<inter> pts_elements q"
proof -
  have "\<exists>c w. pts_and q p = Some (c, w) \<and> pts_inv (type, m, r) w
      \<and> (bitsOfSet (bitset w) = bitsOfSet (bitset p) \<inter> bitsOfSet (bitset q) \<and> c = (bitsOfSet (bitset w) \<noteq> bitsOfSet (bitset p)))"
    unfolding pts_and_def
    by (rule onBitsets_correct[OF assms, where P = "\<lambda>c A B C. C = A \<inter> B \<and> c = (C \<noteq> A)"])
      (erule (1) flag_form[OF sbv.meet_law] flag_form[OF cbv.meet_law] | blast)+
  then obtain c w where w: "pts_and q p = Some (c, w)" "pts_inv (type, m, r) w"
      "bitsOfSet (bitset w) = bitsOfSet (bitset p) \<inter> bitsOfSet (bitset q)" "c = (bitsOfSet (bitset w) \<noteq> bitsOfSet (bitset p))" by blast
  show ?thesis
    using w(1,2) pts_combine(2)[OF assms w(2,3)] unfolding w(4) elements_eq(1)[OF w(2) assms(1), symmetric] by blast
qed

lemma pts_minus_correct:
  assumes "pts_inv (type, m, r) p" "pts_inv (type, m, r) q"
  shows "\<exists>w. pts_minus q p = Some (pts_elements w \<noteq> pts_elements p, w) \<and> pts_inv (type, m, r) w
    \<and> pts_elements w = pts_elements p - pts_elements q"
proof -
  have "\<exists>c w. pts_minus q p = Some (c, w) \<and> pts_inv (type, m, r) w
      \<and> (bitsOfSet (bitset w) = bitsOfSet (bitset p) - bitsOfSet (bitset q) \<and> c = (bitsOfSet (bitset w) \<noteq> bitsOfSet (bitset p)))"
    unfolding pts_minus_def
    by (rule onBitsets_correct[OF assms, where P = "\<lambda>c A B C. C = A - B \<and> c = (C \<noteq> A)"])
      (erule (1) flag_form[OF sbv.diff_law] flag_form[OF cbv.diff_law] | blast)+
  then obtain c w where w: "pts_minus q p = Some (c, w)" "pts_inv (type, m, r) w"
      "bitsOfSet (bitset w) = bitsOfSet (bitset p) - bitsOfSet (bitset q)" "c = (bitsOfSet (bitset w) \<noteq> bitsOfSet (bitset p))" by blast
  show ?thesis
    using w(1,2) pts_combine(3)[OF assms w(2,3)] unfolding w(4) elements_eq(1)[OF w(2) assms(1), symmetric] by blast
qed

lemma pts_complementOf_correct:
  assumes "pts_inv (type, m, r) u" "pts_inv (type, m, r) p" "pts_inv (type, m, r) q"
  shows "\<exists>w. pts_complementOf p q u = Some w \<and> pts_inv (type, m, r) w \<and> pts_elements w = pts_elements p - pts_elements q"
proof -
  have ms: "metaSame u q" "metaSame u p" using assms metaSame_inv by blast+
  have "\<exists>b. pts_complementOf p q u = Some (u\<lparr>bitset := b\<rparr>) \<and> bitset_ok type b
      \<and> bitsOfSet b = bitsOfSet (bitset p) - bitsOfSet (bitset q)"
  proof (cases type)
    case SBV
    then obtain v w x where vw: "bitset p = Sbv v" "sbv_inv v" "bitset q = Sbv w" "sbv_inv w" "bitset u = Sbv x"
      using assms by (auto simp: pts_inv_def bitset_ok_def split: bitset.splits)
    then show ?thesis using sbv_complementOf_correct[OF vw(2,4), of x] SBV ms
      by (intro exI[of _ "Sbv (sbv_complementOf v w x)"]) (simp add: pts_complementOf_def bitset_ok_def bitsOfSet_def)
  next
    case CBV
    then obtain v w x where vw: "bitset p = Cbv v" "cbv_inv v" "bitset q = Cbv w" "cbv_inv w" "bitset u = Cbv x"
      using assms by (auto simp: pts_inv_def bitset_ok_def split: bitset.splits)
    from cbv.diff_law[OF vw(2,4)] obtain y where "cbv_minus w v = Some (bits y \<noteq> bits v, y)" "cbv_inv y" "bits y = bits v - bits w" by blast
    then show ?thesis using CBV ms vw
      by (intro exI[of _ "Cbv y"]) (simp add: pts_complementOf_def bitset_ok_def bitsOfSet_def cbv_intersectWithComplement_def)
  next
    case BV
    then obtain v w x where vw: "bitset p = Bv v" "cbv_inv v" "bitset q = Bv w" "cbv_inv w" "bitset u = Bv x"
      using assms by (auto simp: pts_inv_def bitset_ok_def split: bitset.splits)
    from cbv.diff_law[OF vw(2,4)] obtain y where "cbv_minus w v = Some (bits y \<noteq> bits v, y)" "cbv_inv y" "bits y = bits v - bits w" by blast
    then show ?thesis using BV ms vw
      by (intro exI[of _ "Bv y"]) (simp add: pts_complementOf_def bitset_ok_def bitsOfSet_def cbv_intersectWithComplement_def)
  qed
  then obtain b where b: "pts_complementOf p q u = Some (u\<lparr>bitset := b\<rparr>)" "bitset_ok type b"
      "bitsOfSet b = bitsOfSet (bitset p) - bitsOfSet (bitset q)" by blast
  have "bitsOfSet b \<subseteq> Collect (okNode m)" using b(3) assms(2) by (auto simp: pts_inv_def)
  then have inv: "pts_inv (type, m, r) (u\<lparr>bitset := b\<rparr>)" using elements_update(1)[OF assms(1) b(2)] by blast
  have "pts_elements (u\<lparr>bitset := b\<rparr>) = pts_elements p - pts_elements q"
    using b(3) by (intro pts_combine(3)[OF assms(2,3) inv]) simp
  then show ?thesis using b(1) inv by blast
qed

lemma bits_empty:
  assumes "pts_inv (type, m, r) p"
  shows "bitsOfSet (bitset p) = {} \<longleftrightarrow> pts_elements p = {}"
proof -
  have "mapping_ok m r" "bitsOfSet (bitset p) \<subseteq> Collect (okNode m)" using assms by (simp_all add: pts_inv_def)
  then show ?thesis using elements_bits[OF assms] internal_surj by blast
qed

lemma pts_compare:
  assumes "pts_inv (type, m, r) p" "pts_inv (type, m, r) q"
  shows "pts_eq p q = Some (pts_elements p = pts_elements q)" "pts_contains p q = Some (pts_elements q \<subseteq> pts_elements p)"
    "pts_intersects p q = (if (pts_bare p \<or> pts_bare q) \<and> pts_elements p \<union> pts_elements q \<noteq> {} then None
      else Some (pts_elements p \<inter> pts_elements q \<noteq> {}))"
proof -
  have "\<exists>x u. onBitsets (\<lambda>w v. Some (sbv_eq v w, v)) (\<lambda>w v. Some (cbv_eq v w, v)) q p = Some (x, u) \<and> pts_inv (type, m, r) u
      \<and> (x = (bitsOfSet (bitset p) = bitsOfSet (bitset q)) \<and> bitsOfSet (bitset u) = bitsOfSet (bitset p))"
    by (rule onBitsets_correct[OF assms, where P = "\<lambda>x A B C. x = (A = B) \<and> C = A"]) (use sbv_eq_correct cbv_eq_correct in auto)
  then show "pts_eq p q = Some (pts_elements p = pts_elements q)"
    unfolding elements_eq(1)[OF assms] pts_eq_def by auto
  have "\<exists>x u. onBitsets (\<lambda>w v. Some (sbv_contains v w, v)) (\<lambda>w v. map_option (\<lambda>b. (b, v)) (cbv_contains v w)) q p = Some (x, u)
      \<and> pts_inv (type, m, r) u
      \<and> (x = (bitsOfSet (bitset q) \<subseteq> bitsOfSet (bitset p)) \<and> bitsOfSet (bitset u) = bitsOfSet (bitset p))"
    by (rule onBitsets_correct[OF assms, where P = "\<lambda>x A B C. x = (B \<subseteq> A) \<and> C = A"])
      (use sbv_contains_correct cbv_contains_correct in auto)
  then show "pts_contains p q = Some (pts_elements q \<subseteq> pts_elements p)"
    unfolding elements_eq(2)[OF assms] pts_contains_def by auto
  have ms: "metaSame q p" using assms(2,1) by (rule metaSame_inv)
  let ?B = "bitsOfSet (bitset p)" and ?C = "bitsOfSet (bitset q)"
  have "pts_intersects p q = (if (pts_bare p \<or> pts_bare q) \<and> ?B \<union> ?C \<noteq> {} then None else Some (?B \<inter> ?C \<noteq> {}))"
    using assms
  proof (cases rule: pts_kinds)
    case (sparse v w)
    then show ?thesis using ms metaSame_inv[OF assms]
      by (simp add: pts_intersects_def onBitsets_def bitsOfSet_def pts_bare_def sbv_intersects_correct)
  next
    case (core v w)
    then show ?thesis using ms metaSame_inv[OF assms]
      by (simp add: pts_intersects_def onBitsets_def bitsOfSet_def pts_bare_def cbv_intersects_correct)
  next
    case (bit v w)
    then show ?thesis using ms metaSame_inv[OF assms]
      by (simp add: pts_intersects_def onBitsets_def bitsOfSet_def pts_bare_def cbv_intersects_correct)
  qed
  moreover have "?B \<union> ?C = {} \<longleftrightarrow> pts_elements p \<union> pts_elements q = {}"
    using bits_empty[OF assms(1)] bits_empty[OF assms(2)] by auto
  ultimately show "pts_intersects p q = (if (pts_bare p \<or> pts_bare q) \<and> pts_elements p \<union> pts_elements q \<noteq> {} then None
      else Some (pts_elements p \<inter> pts_elements q \<noteq> {}))"
    unfolding elements_eq(3)[OF assms] by (simp only: simp_thms)
qed

interpretation pts: bit_set "okNode m" "pts_inv (type, m, r)" pts_elements pts_test pts_test_and_set pts_set pts_reset
    pts_or pts_and pts_minus pts_eq pts_contains pts_intersects pts_bare
  for type m r
proof (unfold_locales, goal_cases)
  case 1
  then show ?case by (rule pts_test_correct)
next
  case 2
  then show ?case by (rule pts_tas_correct)
next
  case 3
  then show ?case by (rule pts_set_correct)
next
  case 4
  then show ?case by (rule pts_reset_correct)
next
  case 5
  then show ?case by (rule pts_or_correct)
next
  case 6
  then show ?case by (rule pts_and_correct)
next
  case 7
  then show ?case by (rule pts_minus_correct)
next
  case 11
  then show ?case by (rule pts_bare_empty)
qed (simp_all only: pts_compare)


section \<open>Loops and renumbering\<close>

lemma cbv_finite: "cbv_inv v \<Longrightarrow> finite (bits v)"
  using finite_bits(1) by (metis cbv_inv_cases)

lemma mapO_Some: "\<forall>x \<in> set xs. f x = Some (g x) \<Longrightarrow> mapO f xs = Some (map g xs)"
  by (induction xs) auto

lemma pts_elems_correct:
  assumes "pts_inv (type, m, r) p"
  shows "\<exists>ns. pts_elems p = Some ns \<and> distinct ns \<and> set ns = pts_elements p \<and> sorted_wrt (\<lambda>x y. internal m x < internal m y) ns"
proof -
  let ?B = "bitsOfSet (bitset p)"
  have mo: "mapping_ok m r" and rm: "reverseNodeMapping p = r" and sub: "?B \<subseteq> Collect (okNode m)"
    using assms by (simp_all add: pts_inv_def)
  have e: "(case bitset p of Cbv v \<Rightarrow> cbv_elems v | Sbv v \<Rightarrow> sbv_elems v | Bv v \<Rightarrow> cbv_elems v) = Some (sorted_list_of_set ?B) \<and> finite ?B"
  proof (cases "bitset p")
    case (Sbv v)
    then show ?thesis using assms sbv_elems_correct[of v] by (simp add: pts_inv_def bitset_ok_def bitsOfSet_def)
  next
    case (Cbv v)
    then show ?thesis using assms cbv_elems_correct[of v] cbv_finite[of v] by (simp add: pts_inv_def bitset_ok_def bitsOfSet_def)
  next
    case (Bv v)
    then show ?thesis using assms cbv_elems_correct[of v] cbv_finite[of v] by (simp add: pts_inv_def bitset_ok_def bitsOfSet_def)
  qed
  have "\<forall>b \<in> ?B. \<exists>n. okNode m n \<and> internal m n = b" using internal_surj[OF mo] sub by blast
  from bchoice[OF this] obtain ext where ext: "okNode m (ext b) \<and> internal m (ext b) = b" if "b \<in> ?B" for b by blast
  have "getExternalNode b p = Some (ext b)" if "b \<in> ?B" for b
    using external_internal[OF mo conjunct1[OF ext[OF that]] rm] unfolding conjunct2[OF ext[OF that]] .
  then have m: "mapO (\<lambda>n. getExternalNode n p) (sorted_list_of_set ?B) = Some (map ext (sorted_list_of_set ?B))"
    using e by (intro mapO_Some) simp
  have "set (map ext (sorted_list_of_set ?B)) = pts_elements p"
  proof (intro set_eqI iffI)
    fix n assume "n \<in> pts_elements p"
    then have n: "okNode m n" "internal m n \<in> ?B" unfolding elements_bits[OF assms] by blast+
    then have "ext (internal m n) = n" using ext[OF n(2)] internal_inj[OF mo _ n(1)] by blast
    then show "n \<in> set (map ext (sorted_list_of_set ?B))" using n(2) e by force
  qed (use ext e in \<open>auto simp: elements_bits[OF assms]\<close>)
  moreover have "sorted_wrt (\<lambda>x y. internal m x < internal m y) (map ext (sorted_list_of_set ?B))"
  proof -
    have "sorted_wrt (<) (sorted_list_of_set ?B)" by (simp add: strict_sorted_iff)
    then show ?thesis unfolding sorted_wrt_map
      by (rule sorted_wrt_mono_rel[rotated]) (use e ext in auto)
  qed
  moreover have "distinct (map ext (sorted_list_of_set ?B))"
    using e ext by (auto simp: distinct_map inj_on_def) metis
  ultimately show ?thesis using e m by (simp add: pts_elems_def)
qed

lemma bv_new_correct: "\<exists>v. bv_new 0 = Some v \<and> cbv_inv v \<and> bits v = {} \<and> offset v = 0 \<and> words v = [0]"
proof -
  have "bv_new 0 = Some \<lparr>offset = 0, words = [0]\<rparr>"
    by (simp add: bv_new_def cbv_set_def cbv_new_def extendTo_def updateWord_def cbv_reset_def bitMask_def WordSize_def)
  moreover have "bits \<lparr>offset = 0, words = [0]\<rparr> = {}" by (auto simp: bits_def wordAt_def split: if_splits)
  ultimately show ?thesis by (simp add: cbv_inv_def WordSize_def)
qed

lemma pts_new_correct:
  assumes "mapping_ok (currentBestNodeMapping env) (currentBestReverseNodeMapping env)"
  shows "\<exists>p. pts_new env = Some p \<and> pts_inv (PtType env, currentBestNodeMapping env, currentBestReverseNodeMapping env) p \<and> pts_elements p = {}"
proof -
  have "\<exists>b. newBitset (PtType env) = Some b \<and> bitset_ok (PtType env) b \<and> bitsOfSet b = {}"
  proof (cases "PtType env")
    case SBV
    then show ?thesis by (simp add: newBitset_def bitset_ok_def bitsOfSet_def sbv_new_def sbv_inv_def sbits_def)
  next
    case CBV
    then show ?thesis using cbv_inv_new(1)[of 0] bits_new(1)[of 0] by (simp add: newBitset_def bitset_ok_def bitsOfSet_def)
  next
    case BV
    then show ?thesis using bv_new_correct by (auto simp: newBitset_def bitset_ok_def bitsOfSet_def)
  qed
  then show ?thesis using assms by (auto simp: pts_new_def pts_inv_def pts_elements_def)
qed

lemma pts_empty_iff:
  assumes "pts_inv (type, m, r) p"
  shows "pts_empty p \<longleftrightarrow> pts_elements p = {}"
proof -
  have ok: "bitset_ok type (bitset p)" "mapping_ok m r" "bitsOfSet (bitset p) \<subseteq> Collect (okNode m)"
    using assms by (simp_all add: pts_inv_def)
  have "pts_empty p \<longleftrightarrow> bitsOfSet (bitset p) = {}"
    using ok(1) sbv_empty_correct
    by (auto simp: pts_empty_def bitset_ok_def bitsOfSet_def cbv_empty_bits split: bitset.splits)
  also have "\<dots> \<longleftrightarrow> pts_elements p = {}"
    using elements_bits[OF assms] internal_surj[OF ok(2)] ok(3) by blast
  finally show ?thesis .
qed

section \<open>Properties\<close>

text \<open>
  C7: \<^verbatim>\<open>PointsTo\<close> implements sets of nodes, whichever of the three bit vectors it uses and whatever
  renumbering of the nodes is in force. Sets made under the same option and renumbering
  pass the assertions, and the operations act on, and answer for, the sets of external
  nodes; \<^verbatim>\<open>toNodeBS\<close> is the ordered set of them. Changes are reported exactly, except that \<^verbatim>\<open>|=\<close>
  into a set whose vector has no words (a core bit vector that is new, or a vector that was
  cleared) answers whether the operand's has words; \<^verbatim>\<open>intersects\<close> on such a set reads a word that
  is not there unless both sets are empty.
\<close>

theorem pts_implements_sets:
  assumes "pts_inv (type, m, r) p" "pts_inv (type, m, r) q" "okNode m n" "set ns \<subseteq> Collect (okNode m)"
  shows "(\<exists>w. pts_test n p = Some (n \<in> pts_elements p, w) \<and> pts_elements w = pts_elements p)
    \<and> (\<exists>w. pts_test_and_set n p = Some (n \<notin> pts_elements p, w) \<and> pts_inv (type, m, r) w \<and> pts_elements w = insert n (pts_elements p))
    \<and> (\<exists>w. pts_set n p = Some w \<and> pts_inv (type, m, r) w \<and> pts_elements w = insert n (pts_elements p))
    \<and> (\<exists>w. pts_reset n p = Some w \<and> pts_inv (type, m, r) w \<and> pts_elements w = pts_elements p - {n})
    \<and> (\<exists>w. pts_or q p = Some (if pts_bare p then \<not> pts_bare q else pts_elements w \<noteq> pts_elements p, w)
         \<and> pts_inv (type, m, r) w \<and> pts_elements w = pts_elements p \<union> pts_elements q)
    \<and> (\<exists>w. pts_and q p = Some (pts_elements w \<noteq> pts_elements p, w) \<and> pts_inv (type, m, r) w \<and> pts_elements w = pts_elements p \<inter> pts_elements q)
    \<and> (\<exists>w. pts_minus q p = Some (pts_elements w \<noteq> pts_elements p, w) \<and> pts_inv (type, m, r) w \<and> pts_elements w = pts_elements p - pts_elements q)
    \<and> (\<exists>w. pts_complementOf p q p = Some w \<and> pts_inv (type, m, r) w \<and> pts_elements w = pts_elements p - pts_elements q)
    \<and> (\<exists>w. pts_orNodeBS ns p = Some (pts_elements w \<noteq> pts_elements p, w) \<and> pts_inv (type, m, r) w \<and> pts_elements w = pts_elements p \<union> set ns)
    \<and> pts_eq p q = Some (pts_elements p = pts_elements q) \<and> pts_contains p q = Some (pts_elements q \<subseteq> pts_elements p)
    \<and> pts_intersects p q = (if (pts_bare p \<or> pts_bare q) \<and> pts_elements p \<union> pts_elements q \<noteq> {} then None
         else Some (pts_elements p \<inter> pts_elements q \<noteq> {}))
    \<and> (pts_empty p \<longleftrightarrow> pts_elements p = {})
    \<and> (\<exists>ns. pts_toNodeBS p = Some ns \<and> oset_inv ns \<and> set ns = pts_elements p)"
proof (intro conjI)
  show "\<exists>ns. pts_toNodeBS p = Some ns \<and> oset_inv ns \<and> set ns = pts_elements p"
    using pts_elems_correct[OF assms(1)] by (auto simp: pts_toNodeBS_def)
  show "\<exists>w. pts_test n p = Some (n \<in> pts_elements p, w) \<and> pts_elements w = pts_elements p"
    using pts.test_law[OF assms(1,3)] by blast
  show "\<exists>w. pts_orNodeBS ns p = Some (pts_elements w \<noteq> pts_elements p, w) \<and> pts_inv (type, m, r) w
      \<and> pts_elements w = pts_elements p \<union> set ns"
    using pts.orNodes_correct[OF assms(1), of ns False] assms(4) unfolding pts_orNodeBS_def by auto
  show "\<exists>w. pts_complementOf p q p = Some w \<and> pts_inv (type, m, r) w \<and> pts_elements w = pts_elements p - pts_elements q"
    by (rule pts_complementOf_correct[OF assms(1,1,2)])
qed (rule pts.tas_law[OF assms(1,3)] pts.ins_law[OF assms(1,3)] pts.del_law[OF assms(1,3)] pts.join_law[OF assms(1,2)]
    pts.meet_law[OF assms(1,2)] pts.diff_law[OF assms(1,2)] pts.eq_law[OF assms(1,2)] pts.sub_law[OF assms(1,2)]
    pts.meets_law[OF assms(1,2)] pts_empty_iff[OF assms(1)])+

definition demo_statics :: pt_statics where
  "demo_statics = \<lparr>PtType = CBV, currentBestNodeMapping = Some (1, [2, 0, 1]), currentBestReverseNodeMapping = Some (2, [1, 2, 0])\<rparr>"

lemma demo_statics_ok: "mapping_ok (currentBestNodeMapping demo_statics) (currentBestReverseNodeMapping demo_statics)"
  by (simp add: mapping_ok_def demo_statics_def All_less_Suc)

theorem pts_implements_sets_witness:
  "\<exists>p w. pts_new demo_statics = Some p \<and> pts_test_and_set 2 p = Some (True, w) \<and> pts_elements w = {2}"
proof -
  obtain p where p: "pts_new demo_statics = Some p"
      "pts_inv (PtType demo_statics, currentBestNodeMapping demo_statics, currentBestReverseNodeMapping demo_statics) p" "pts_elements p = {}"
    using pts_new_correct[OF demo_statics_ok] by blast
  have "okNode (currentBestNodeMapping demo_statics) 2" by (simp add: okNode_def demo_statics_def)
  from pts_implements_sets[OF p(2) p(2) this, of "[]"] have "\<exists>w. pts_test_and_set 2 p = Some (2 \<notin> pts_elements p, w)
      \<and> pts_inv (PtType demo_statics, currentBestNodeMapping demo_statics, currentBestReverseNodeMapping demo_statics) w
      \<and> pts_elements w = insert 2 (pts_elements p)" by simp
  then show ?thesis using p(1,3) by auto
qed

text \<open>
  C9: Renumbering keeps points-to sets. When a better numbering of the nodes becomes current,
  \<^verbatim>\<open>checkAndRemap\<close> succeeds on a set whose nodes it numbers, and the set it leaves holds the same
  nodes and is numbered as new sets are.
\<close>

theorem checkAndRemap_same_set:
  assumes "pts_inv F p" "mapping_ok (currentBestNodeMapping env) (currentBestReverseNodeMapping env)"
    "pts_elements p \<subseteq> Collect (okNode (currentBestNodeMapping env))"
  shows "\<exists>w. checkAndRemap env p = Some w \<and> pts_elements w = pts_elements p
    \<and> map_option fst (nodeMapping w) = map_option fst (currentBestNodeMapping env)"
proof (cases "map_option fst (nodeMapping p) = map_option fst (currentBestNodeMapping env)")
  case True
  then show ?thesis by (simp add: checkAndRemap_def)
next
  case False
  let ?F = "(PtType env, currentBestNodeMapping env, currentBestReverseNodeMapping env)"
  obtain type m r where F: "F = (type, m, r)" by (cases F) auto
  obtain n where n: "pts_new env = Some n" "pts_inv ?F n" "pts_elements n = {}" using pts_new_correct[OF assms(2)] by blast
  obtain ns where ns: "pts_elems p = Some ns" "set ns = pts_elements p"
    using pts_elems_correct assms(1) unfolding F by blast
  obtain w where w: "foldO pts_set ns n = Some w" "pts_inv ?F w" "pts_elements w = pts_elements n \<union> set ns"
    using pts.ins_all[OF n(2), of ns] assms(3) ns(2) by blast
  have "nodeMapping w = currentBestNodeMapping env" using w(2) by (simp add: pts_inv_def)
  then show ?thesis using False n(1,3) ns w(1,3) by (simp add: checkAndRemap_def)
qed

theorem checkAndRemap_same_set_witness:
  "\<exists>p q w. pts_new (demo_statics\<lparr>currentBestNodeMapping := None, currentBestReverseNodeMapping := None\<rparr>) = Some p
     \<and> pts_set 1 p = Some q \<and> checkAndRemap demo_statics q = Some w \<and> pts_elements w = {1}"
proof -
  let ?s = "demo_statics\<lparr>currentBestNodeMapping := None, currentBestReverseNodeMapping := None\<rparr>" and ?F = "(CBV, None, None)"
  have "mapping_ok (currentBestNodeMapping ?s) (currentBestReverseNodeMapping ?s)" by (simp add: mapping_ok_def)
  from pts_new_correct[OF this] obtain p where p: "pts_new ?s = Some p" "pts_inv ?F p" "pts_elements p = {}"
    by (auto simp: demo_statics_def)
  have "okNode None 1" by (simp add: okNode_def)
  from pts_set_correct[OF p(2) this] obtain q where q: "pts_set 1 p = Some q" "pts_inv ?F q" "pts_elements q = {1}"
    using p(3) by auto
  have "okNode (currentBestNodeMapping demo_statics) 1" by (simp add: okNode_def demo_statics_def)
  then show ?thesis using checkAndRemap_same_set[OF q(2) demo_statics_ok] q(1,3) p(1) by auto
qed

text \<open>
  A \<^verbatim>\<open>BitVector\<close> keeps its offset of zero, as its documentation says, under \<^verbatim>\<open>set\<close>, but not
  after \<^verbatim>\<open>clear\<close>, which drops the word that kept it: the next \<^verbatim>\<open>set\<close> moves the offset.
\<close>

theorem bitvector_offset:
  "\<exists>v w. bv_new 0 = Some v \<and> Option.bind (cbv_set 64 v) (\<lambda>v1. Some (offset v1)) = Some 0
     \<and> cbv_set 64 (cbv_clear v) = Some w \<and> offset w = 64"
proof (intro exI conjI)
  let ?v = "\<lparr>offset = 0, words = [0]\<rparr> :: cbv" and ?w = "\<lparr>offset = 64, words = [1]\<rparr> :: cbv"
  show "bv_new 0 = Some ?v"
    by (simp add: bv_new_def cbv_set_def cbv_new_def extendTo_def updateWord_def cbv_reset_def bitMask_def WordSize_def)
  show "Option.bind (cbv_set 64 ?v) (\<lambda>v1. Some (offset v1)) = Some 0"
    by (simp add: cbv_set_def extendTo_def extendForward_def canHold_def updateWord_def bitMask_def WordSize_def Let_def)
  show "cbv_set 64 (cbv_clear ?v) = Some ?w" "offset ?w = 64"
    by (simp_all add: cbv_set_def cbv_clear_def extendTo_def updateWord_def bitMask_def WordSize_def)
qed

end
