(* ===== verification/PointsTo_Sets.thy ===== *)
theory PointsTo_Sets
  imports PointsTo_Correct PTData
begin

text \<open>
  The link between \<^verbatim>\<open>PointsTo\<close> and the analyses. Theory \<open>PTData\<close> keeps a points-to set as an
  \<open>oset\<close>; the operations it uses are those of \<^verbatim>\<open>PointsTo\<close>, read through \<^verbatim>\<open>toNodeBS\<close>.
\<close>

section \<open>Sparse sets\<close>

lemma sparse_not_bare: "pts_inv (SBV, m, r) p \<Longrightarrow> \<not> pts_bare p"
  by (auto simp: pts_inv_def bitset_ok_def pts_bare_def split: bitset.splits)

interpretation sparse: exact_bit_set "okNode m" "pts_inv (SBV, m, r)" pts_elements pts_test pts_test_and_set pts_set pts_reset
    pts_or pts_and pts_minus pts_eq pts_contains pts_intersects pts_bare
  for m r
  by unfold_locales (rule sparse_not_bare)

section \<open>Through toNodeBS\<close>

definition as_oset :: "frame \<Rightarrow> pointsTo \<Rightarrow> node_id oset \<Rightarrow> bool" where
  "as_oset F p a \<longleftrightarrow> pts_inv F p \<and> pts_toNodeBS p = Some a"

lemma toNodeBS_set:
  assumes "pts_inv F p"
  shows "pts_toNodeBS p = Some (sorted_list_of_set (pts_elements p)) \<and> finite (pts_elements p)"
proof -
  obtain type m r where F: "F = (type, m, r)" by (cases F) auto
  obtain ns where ns: "pts_elems p = Some ns" "set ns = pts_elements p" using pts_elems_correct assms unfolding F by blast
  have "oset_insert_all ns [] = sorted_list_of_set (pts_elements p)"
    unfolding ns(2)[symmetric] by (subst oset_eq_iff) (simp_all, simp add: oset_inv_def)
  then show ?thesis using ns unfolding ns(2)[symmetric] by (simp add: pts_toNodeBS_def)
qed

lemma as_oset_iff: "as_oset F p a \<longleftrightarrow> pts_inv F p \<and> oset_inv a \<and> set a = pts_elements p"
proof
  assume "as_oset F p a"
  then show "pts_inv F p \<and> oset_inv a \<and> set a = pts_elements p"
    using toNodeBS_set[of F p] by (auto simp: as_oset_def oset_inv_def)
next
  assume "pts_inv F p \<and> oset_inv a \<and> set a = pts_elements p"
  then show "as_oset F p a"
    using toNodeBS_set[of F p] oset_eq_iff[of a "sorted_list_of_set (pts_elements p)"]
    by (auto simp: as_oset_def oset_inv_def)
qed

section \<open>Properties\<close>

text \<open>
  C8: The sorted lists of the analyses are the points-to sets of the code, of each of the three
  kinds and under any renumbering of the nodes. Each operation of \<^verbatim>\<open>MutablePTData\<close> and
  \<^verbatim>\<open>MutableDiffPTData\<close> on the lists is the operation of \<^verbatim>\<open>PointsTo\<close> it stands for, with the
  same answers, apart from sets whose vector has no words, which sparse ones never are: joining
  into one answers whether the other has words, and the test for common elements fails when the
  other set has an element.
\<close>

theorem pts_simulates_osets:
  assumes "as_oset (type, m, r) p a" "as_oset (type, m, r) q b" "okNode m n"
  shows "(\<exists>w. pts_or q p = Some (if pts_bare p then \<not> pts_bare q else fst (oset_union a b), w)
        \<and> as_oset (type, m, r) w (snd (oset_union a b)))
    \<and> (\<exists>w. pts_test_and_set n p = Some (fst (test_and_set n a), w) \<and> as_oset (type, m, r) w (snd (test_and_set n a)))
    \<and> (\<exists>w. pts_reset n p = Some w \<and> as_oset (type, m, r) w (oset_remove n a))
    \<and> (\<exists>w. pts_complementOf p q p = Some w \<and> as_oset (type, m, r) w (filter (\<lambda>d. d \<notin> set b) a))
    \<and> (\<exists>w. pts_and q p = Some (filter (\<lambda>d. d \<in> set b) a \<noteq> a, w) \<and> as_oset (type, m, r) w (filter (\<lambda>d. d \<in> set b) a))
    \<and> pts_eq p q = Some (a = b)
    \<and> pts_intersects p q = (if (pts_bare p \<or> pts_bare q) \<and> (a \<noteq> [] \<or> b \<noteq> []) then None else Some (set a \<inter> set b \<noteq> {}))
    \<and> (pts_empty p \<longleftrightarrow> a = []) \<and> (type = SBV \<longrightarrow> \<not> pts_bare p)"
proof (intro conjI)
  have p: "pts_inv (type, m, r) p" "oset_inv a" "set a = pts_elements p"
    and q: "pts_inv (type, m, r) q" "oset_inv b" "set b = pts_elements q"
    using assms(1,2) unfolding as_oset_iff by blast+
  have e: "a = [] \<longleftrightarrow> pts_elements p = {}" "b = [] \<longleftrightarrow> pts_elements q = {}"
    unfolding p(3)[symmetric] q(3)[symmetric] by simp_all
  show "\<exists>w. pts_or q p = Some (if pts_bare p then \<not> pts_bare q else fst (oset_union a b), w)
      \<and> as_oset (type, m, r) w (snd (oset_union a b))"
  proof -
    obtain w where w: "pts_or q p = Some (if pts_bare p then \<not> pts_bare q else pts_elements w \<noteq> pts_elements p, w)"
      "pts_inv (type, m, r) w" "pts_elements w = pts_elements p \<union> pts_elements q"
      using pts.join_law[OF p(1) q(1)] by blast
    have "(pts_elements w \<noteq> pts_elements p) = fst (oset_union a b)" using w(3) p(3) q(3) by auto
    then show ?thesis using w p q by (auto simp: as_oset_iff)
  qed
  show "\<exists>w. pts_test_and_set n p = Some (fst (test_and_set n a), w) \<and> as_oset (type, m, r) w (snd (test_and_set n a))"
    using pts.tas_law[OF p(1) assms(3)] p by (auto simp: as_oset_iff test_and_set_def)
  show "\<exists>w. pts_reset n p = Some w \<and> as_oset (type, m, r) w (oset_remove n a)"
    using pts.del_law[OF p(1) assms(3)] p by (auto simp: as_oset_iff)
  show "\<exists>w. pts_complementOf p q p = Some w \<and> as_oset (type, m, r) w (filter (\<lambda>d. d \<notin> set b) a)"
    using pts_complementOf_correct[OF p(1) p(1) q(1)] p q by (auto simp: as_oset_iff)
  show "\<exists>w. pts_and q p = Some (filter (\<lambda>d. d \<in> set b) a \<noteq> a, w) \<and> as_oset (type, m, r) w (filter (\<lambda>d. d \<in> set b) a)"
  proof -
    obtain w where w: "pts_and q p = Some (pts_elements w \<noteq> pts_elements p, w)" "pts_inv (type, m, r) w"
        "pts_elements w = pts_elements p \<inter> pts_elements q"
      using pts.meet_law[OF p(1) q(1)] by blast
    have "(pts_elements w \<noteq> pts_elements p) = (filter (\<lambda>d. d \<in> set b) a \<noteq> a)"
      unfolding w(3) p(3)[symmetric] q(3)[symmetric] by (auto simp: filter_id_conv)
    then show ?thesis using w p q by (auto simp: as_oset_iff)
  qed
  show "pts_eq p q = Some (a = b)"
    using pts.eq_law[OF p(1) q(1)] oset_eq_iff[OF p(2) q(2)] p(3) q(3) by simp
  show "pts_intersects p q = (if (pts_bare p \<or> pts_bare q) \<and> (a \<noteq> [] \<or> b \<noteq> []) then None else Some (set a \<inter> set b \<noteq> {}))"
    unfolding pts.meets_law[OF p(1) q(1)] e p(3) q(3) by simp
  show "pts_empty p \<longleftrightarrow> a = []" unfolding e by (rule pts_empty_iff[OF p(1)])
  show "type = SBV \<longrightarrow> \<not> pts_bare p" using sparse_not_bare p(1) by blast
qed

theorem pts_simulates_osets_witness:
  "\<exists>p w. pts_new (demo_statics\<lparr>PtType := SBV\<rparr>) = Some p \<and> pts_test_and_set 2 p = Some (True, w) \<and> pts_toNodeBS w = Some [2]"
proof -
  let ?s = "demo_statics\<lparr>PtType := SBV\<rparr>"
  let ?m = "currentBestNodeMapping demo_statics" and ?r = "currentBestReverseNodeMapping demo_statics"
  obtain p where p: "pts_new ?s = Some p" "pts_inv (SBV, ?m, ?r) p" "pts_elements p = {}"
    using pts_new_correct[of ?s] demo_statics_ok by auto
  then have a: "as_oset (SBV, ?m, ?r) p []" by (simp add: as_oset_iff)
  have "okNode ?m 2" by (simp add: okNode_def demo_statics_def)
  from pts_simulates_osets[OF a a this] have "\<exists>w. pts_test_and_set 2 p = Some (fst (test_and_set (2::nat) []), w)
      \<and> as_oset (SBV, ?m, ?r) w (snd (test_and_set (2::nat) []))" by blast
  then show ?thesis using p(1) by (auto simp: as_oset_def oset_insert_def)
qed

end
