(* ===== verification/Spec2Isabelle.thy ===== *)
theory Spec2Isabelle
  imports FastGuard PathCond_Store WorkList PTData ObjectTable ConsG_Build SCC Andersen_Correct Solver_Correct CondSolver_Correct CondOnTheFly Andersen_Solution PointsTo_Sets
begin

text \<open>
  A model of the inclusion-based pointer analysis of the SVF fork under \<^verbatim>\<open>src/SVF\<close>, and of the
  path-sensitive extension it adds: the conditional Andersen analysis, which gives every
  constraint edge and every member of a points-to set a guard, the condition of the branches
  under which it holds. \<^verbatim>\<open>src/CONDITIONAL_ANDERSEN.md\<close> is its design document. File names below
  are relative to \<^verbatim>\<open>src/SVF/svf\<close>.

  The parts and how they interact. The front end translates a program into the SVFIR, whose
  values and memory objects are numbered nodes. \<^verbatim>\<open>ConstraintGraph\<close> turns its statements into
  edges: address, copy, load, store and field (gep). A solver keeps a worklist of nodes, whose
  points-to sets it propagates along the edges: a copy or field edge joins sets, a load or store
  edge adds copy edges for the objects in the set of its pointer. Points-to sets live in a map
  that also records, for every node, what has not been propagated. Cycles of copy edges are
  found by \<^verbatim>\<open>SCCDetection\<close> and merged into one representative; objects that are treated without
  fields have the nodes of their fields merged into their own. When a round of the solver is
  done, indirect calls are resolved from the sets, parameters are connected by copy edges, and
  the solver runs again if the call graph has grown. The conditional analyses override the
  handlers of the edges, the merging and the connection of calls, to keep the guards; the guards
  are hash-consed conditions, or disjunctive normal forms where satisfiability is asked.
\<close>

section \<open>Theories and sources\<close>

text \<open>
  Conditions.
  \<^item> \<open>PathCond\<close>: \<^verbatim>\<open>include/Util/PathCond.h\<close>, the conditions as a datatype and every query on
    them. A \<^verbatim>\<open>const PathCond*\<close> is a value that carries the address of the object, so that
    pointer comparisons are comparisons of addresses.
  \<^item> \<open>PathCond_Store\<close>: the factory functions \<^verbatim>\<open>getAtom\<close>, \<^verbatim>\<open>getAnd\<close>, \<^verbatim>\<open>getOr\<close> with their static
    caches, and the memo fields that \<^verbatim>\<open>depth\<close> and \<^verbatim>\<open>clauseCount\<close> fill, as a threaded record
    \<open>pstore\<close>. The locale \<open>guard_store\<close> states what the analyses rely on.
  \<^item> \<open>FastGuard\<close>: \<^verbatim>\<open>lib/Util/FastGuard.cpp\<close>, the normal forms, their conversion and the test of
    satisfiability.

  Containers.
  \<^item> \<open>WorkList\<close>: \<^verbatim>\<open>include/Util/WorkList.h\<close>, three worklists; the locale \<open>worklist\<close> and its
    extensions for first-in and last-in order are interpreted on two of them.
  \<^item> \<open>PTData\<close>: \<^verbatim>\<open>include/MemoryModel/MutablePointsToDS.h\<close>, points-to map, reverse map and
    difference propagation, with the locale \<open>points_to\<close>.
  \<^item> \<open>CoreBitVector\<close>, \<open>SparseBitVector\<close>, \<open>PointsTo\<close>: \<^verbatim>\<open>lib/Util/CoreBitVector.cpp\<close>,
    \<^verbatim>\<open>lib/Util/BitVector.cpp\<close>, \<^verbatim>\<open>include/Util/SparseBitVector.h\<close> and
    \<^verbatim>\<open>lib/MemoryModel/PointsTo.cpp\<close>, the representations of sets in 64-bit words, with their
    iterators. The theories of the same names with \<open>_Correct\<close> prove that they implement sets of
    numbers; the locales \<open>bit_set\<close> and \<open>exact_bit_set\<close> of \<open>PointsTo_Correct\<close> are that
    interface, interpreted on the two kinds of vector and on \<^verbatim>\<open>PointsTo\<close>. A core vector that is
    new or cleared has no words (\<open>bare\<close>): joining into it answers whether the other has words, and
    \<^verbatim>\<open>intersects\<close> with it accesses a missing word unless both sets are empty. The analyses below
    use sorted lists without duplicates (\<open>oset\<close> of \<open>Prelude\<close>) for all of these sets;
    \<open>PointsTo_Sets\<close> proves that each operation on the lists is that of \<^verbatim>\<open>PointsTo\<close>, with these
    two exceptions.

  The program and its graphs.
  \<^item> \<open>ObjectTable\<close>: memory objects, their fields, the field limit, and the numbering of nodes
    (\<^verbatim>\<open>lib/SVFIR/SVFIR.cpp\<close>, \<^verbatim>\<open>lib/Graphs/IRGraph.cpp\<close>, \<^verbatim>\<open>lib/Util/NodeIDAllocator.cpp\<close> and the
    headers of the SVFIR).
  \<^item> \<open>ConsG\<close>, \<open>ConsG_Build\<close>: \<^verbatim>\<open>lib/Graphs/ConsG.cpp\<close> and its headers, the constraint graph with
    guards on edges, representatives and the merging of nodes, and its construction.
  \<^item> \<open>SCC\<close>: \<^verbatim>\<open>include/Graphs/SCC.h\<close>, on any graph given by its children function.
  \<^item> \<open>Program\<close>, \<open>CallGraph\<close>, \<open>ClassHierarchy\<close>: calls, functions and parameters as the front
    end leaves them; \<^verbatim>\<open>lib/Graphs/CallGraph.cpp\<close>, \<^verbatim>\<open>lib/Graphs/ThreadCallGraph.cpp\<close>,
    \<^verbatim>\<open>lib/Util/CallGraphBuilder.cpp\<close>; \<^verbatim>\<open>lib/Graphs/CHG.cpp\<close>.

  The analyses.
  \<^item> \<open>Andersen\<close>: the state (\<open>ander\<close>) and the handlers of \<^verbatim>\<open>lib/WPA/Andersen.cpp\<close>, the merging
    of nodes and alias queries. What is virtual in the code is a table \<open>vmethods\<close> that a
    subclass overrides; a subclass's state extends the record.
  \<^item> \<open>Andersen_Solver\<close>: \<^verbatim>\<open>include/WPA/WPASolver.h\<close>, cycle detection, the collapsing of fields,
    and the wave propagation of \<^verbatim>\<open>lib/WPA/AndersenWaveDiff.cpp\<close>.
  \<^item> \<open>Andersen_CallGraph\<close>: the call graph on the fly (\<^verbatim>\<open>lib/MemoryModel/PointerAnalysis.cpp\<close>,
    \<^verbatim>\<open>lib/MemoryModel/PointerAnalysisImpl.cpp\<close>, \<^verbatim>\<open>lib/WPA/Andersen.cpp\<close>).
  \<^item> \<open>CondAndersen\<close>, \<open>CondAndersen_Solver\<close>: \<^verbatim>\<open>lib/WPA/ConditionalAndersen.cpp\<close>; \<open>CondWave\<close>:
    \<^verbatim>\<open>lib/WPA/ConditionalAndersenWaveDiff.cpp\<close>; \<open>CondOnTheFly\<close>: their connection of calls.
\<close>

section \<open>What is proved\<close>

text \<open>
  \<^item> The plain solver: started with the address edges of a new state processed, it ends with enough
    rounds, its worklist is empty, and the points-to sets are the least solution of the address,
    copy, field, load and store constraints (\<open>Andersen_Solution\<close>), for graphs whose field edges
    have constant offsets below \<open>2 ^ 31\<close>, with no object waiting to be collapsed and difference
    propagation on (\<open>start_ok\<close>). It rests on \<open>Andersen_Correct\<close> (a handler establishes its
    constraint, difference propagation loses nothing, a merge keeps the state well formed) and
    on a count of the members and edges that can still be added.
  \<^item> Merging (\<open>Solver_Correct\<close>): the locale \<open>merging\<close> has the laws of the merge of one node
    that the three analyses provide; from them follow that cycle detection merges exactly the
    cycles, that the collapsing of an object ends and merges its fields, and that the state only
    gets coarser. \<open>CondSolver_Correct\<close> interprets it for the conditional analyses.
  \<^item> Guards (\<open>CondAndersen_Correct\<close>, \<open>CondWave_Correct\<close>): the conditional handlers do to sets,
    graph and worklist what the unconditional ones do; a guard newly given is implied by the
    guards along the edge, so a query that answers no alias is right about the guards it has;
    the limits on depth and clauses only weaken. In the wave variant every changed guard is
    recorded for propagation.
  \<^item> Conditions: the factories build the conjunction and the disjunction, apart from the
    absorption \<open>getOr_absorbs_to_conjunction\<close> describes, under an invariant of the store that every
    reachable store has; normal forms keep the meaning and decide satisfiability.
  \<^item> Calls (\<open>CallGraph_Correct\<close>, \<open>CallGraph_Solve\<close>, \<open>OnTheFly\<close>): the tables of the call graph
    agree while call site ids fit into 24 bits, its queries are exact, the calls resolved are
    those the sets hold, all of them below the limit on resolved calls, each is connected once by
    copy edges whose sources are on the worklist, and a round ends. This is for the plain call
    graph, for calls that are not virtual and callees that do not allocate; the handling of
    threads, virtual calls and allocators is modelled, with theorems about its parts. The
    functions that a virtual call finds in the tables are those a declarative condition on slot,
    signature and name allows (\<open>ClassHierarchy\<close>).
  \<^item> Containers, graph construction and node numbers: the invariants, the exact effect of each
    operation and the failures.
  Where the code does something else than it means to, the theorem states what it does.
\<close>

section \<open>Conventions and bounds\<close>

text \<open>
  Failures are \<open>None\<close>: an assertion that does not hold, a null pointer that is followed, a
  lookup of a missing node and an index out of range. Theorems that an operation succeeds state
  that it is not \<open>None\<close>. Hash maps are functions or association lists; where the code loops over
  a hash set, the model visits it in increasing order. Command line options are fields of a
  record. The counters of the code are modelled at 32 bits (\<open>u32\<close>), clocks are not.

  Recursion that is not structural is on fuel, and running out is \<open>None\<close>, so a result that is
  shown to exist is not an artefact of the bound.
  \<^item> The detection of cycles takes as much fuel as there are nodes, its depth being bounded by the
    nodes not visited (\<open>scc_find_components\<close>).
  \<^item> \<open>collapseField\<close> and \<open>collapseNodePts\<close> call each other; every call that goes on makes one
    object field-insensitive, so one more than the field-sensitive objects is enough
    (\<open>collapseField_collapses\<close>).
  \<^item> The worklist solver takes \<open>solve_fuel\<close> \<open>C\<close> rounds, where \<open>C\<close> bounds the node numbers, field
    nodes that may yet be created included. A round either adds one of the at most
    \<open>2 * C * C\<close> members and edges, which leaves at most \<open>C\<close> nodes on the worklist, or takes a
    node off it.
  \<^item> The second loop of the wave propagation takes one round per node on the worklist
    (\<open>wd_worklist_drains\<close>): it adds copy edges and sources of them, and sets do not grow.
  \<^item> The search from main takes one more than the number of functions; the search between two
    functions is total, its measure the functions not yet visited.
  \<^item> A loop over a bit vector takes at most one step per bit it has room for (\<open>cbv_elems\<close>,
    \<open>sbv_elems\<close>).
  The outer loop of the solver over the call graph (\<open>solveLoop\<close>) is on fuel as well. That each
  round that asks for another one has resolved at least one call more, and never more calls than
  \<^verbatim>\<open>IndirectCallLimit\<close>, is part of \<open>updateCallGraph_correct\<close>.
\<close>

section \<open>What is not modelled\<close>

text \<open>
  The construction of the SVFIR rests on LLVM and the eager test of satisfiability on Z3: neither
  is in the repository. The tables the front end fills are the state
  of \<open>ObjectTable\<close>, \<open>Program\<close> and \<open>ClassHierarchy\<close>, and Z3's answer is the parameter
  \<open>z3\<close> of the conditional analyses. Reading and printing of results, statistics, clocks and the
  sampling of queries do not change what is computed. The other clients of SVF in the repository
  (flow-sensitive and demand-driven analyses, value-flow graphs, checkers, abstract execution,
  multi-threading) use the analyses modelled here and are outside them. Memory that is shared or
  freed is modelled only where an address is compared; a bit vector is a value, and operations
  applied to a vector and itself come down to the general case.
\<close>

end
